(* ===== verification/Awn_Prelude.thy ===== *)
theory Awn_Prelude
  imports Main "HOL-Library.Word" "HOL-Library.Multiset"
begin

text \<open>
  Shared ground of the development: the names of the machine types, the way a fault of the
  program (a failed \<open>VP_ASSERT\<close>, a read outside an array, a null pointer) is a value, the
  two checked accesses to an array, and the generic facts on words and lists that the component
  theories use.  \<open>libraries/lib_awn_win32/makefile\<close> builds with \<open>VP_DEBUG\<close>, so a failed
  \<open>VP_ASSERT\<close> ends the program; it is the fault \<open>Assert_Failed\<close> here.
\<close>

unbundle bit_operations_syntax

named_theorems word_nat "how the natural number of a word behaves under the operations of the code"

section \<open>Machine types\<close>

text \<open>The integer names of \<open>util_typedefs.h\<close>; a pointer or \<open>uintptr_t\<close> is a \<open>u64\<close>.\<close>

type_synonym u8 = "8 word"
type_synonym u16 = "16 word"
type_synonym u32 = "32 word"
type_synonym u64 = "64 word"

section \<open>Faults\<close>

datatype fault = Assert_Failed | Out_Of_Bounds | Null_Pointer | Bad_Reference

type_synonym 'a result = "fault + 'a"

fun bind_result :: "'a result \<Rightarrow> ('a \<Rightarrow> 'b result) \<Rightarrow> 'b result" where
  "bind_result (Inl e) f = Inl e"
| "bind_result (Inr x) f = f x"

fun result_map :: "('a \<Rightarrow> 'b) \<Rightarrow> 'a result \<Rightarrow> 'b result" where
  "result_map f (Inl e) = Inl e"
| "result_map f (Inr x) = Inr (f x)"

definition vp_assert :: "bool \<Rightarrow> unit result" where
  "vp_assert b = (if b then Inr () else Inl Assert_Failed)"

definition load :: "'a list \<Rightarrow> nat \<Rightarrow> 'a result" where
  "load xs i = (if i < length xs then Inr (xs ! i) else Inl Out_Of_Bounds)"

definition store :: "'a list \<Rightarrow> nat \<Rightarrow> 'a \<Rightarrow> 'a list result" where
  "store xs i v = (if i < length xs then Inr (xs[i := v]) else Inl Out_Of_Bounds)"

text \<open>The same with a signed index, as the queues have it.\<close>

definition load_i :: "'a list \<Rightarrow> int \<Rightarrow> 'a result" where
  "load_i xs i = (if 0 \<le> i then load xs (nat i) else Inl Out_Of_Bounds)"

definition store_i :: "'a list \<Rightarrow> int \<Rightarrow> 'a \<Rightarrow> 'a list result" where
  "store_i xs i v = (if 0 \<le> i then store xs (nat i) v else Inl Out_Of_Bounds)"

lemma vp_assert_simps [simp]:
  "vp_assert True = Inr ()" "vp_assert False = Inl Assert_Failed"
  by (simp_all add: vp_assert_def)

lemma bind_vp_assert:
  "bind_result (vp_assert b) f = (if b then f () else Inl Assert_Failed)"
  by (simp add: vp_assert_def)

lemma load_in [simp]: "i < length xs \<Longrightarrow> load xs i = Inr (xs ! i)"
  by (simp add: load_def)

lemma store_in [simp]: "i < length xs \<Longrightarrow> store xs i v = Inr (xs[i := v])"
  by (simp add: store_def)

lemma load_i_in [simp]: "0 \<le> i \<Longrightarrow> nat i < length xs \<Longrightarrow> load_i xs i = Inr (xs ! nat i)"
  by (simp add: load_i_def)

lemma store_i_in [simp]: "0 \<le> i \<Longrightarrow> nat i < length xs \<Longrightarrow> store_i xs i v = Inr (xs[nat i := v])"
  by (simp add: store_i_def)

lemma bind_result_Inr_iff:
  "bind_result m f = Inr y \<longleftrightarrow> (\<exists>x. m = Inr x \<and> f x = Inr y)"
  by (cases m) auto

section \<open>Lists\<close>

definition hd_opt :: "'a list \<Rightarrow> 'a option" where
  "hd_opt xs = (if xs = [] then None else Some (hd xs))"

lemma hd_opt_simps [simp]: "hd_opt [] = None" "hd_opt (x # xs) = Some x"
  by (simp_all add: hd_opt_def)

section \<open>Interlocked access\<close>

text \<open>
  \<open>InterlockedCompareExchange\<close> of \<open>util_atomicapi.hpp\<close>: whether it exchanged, and the new word.  What
  it stores to \<open>out_last\<close> is the word it found.
\<close>

definition compare_exchange :: "u32 \<Rightarrow> u32 \<Rightarrow> u32 \<Rightarrow> bool \<times> u32" where
  "compare_exchange new expected word = (if word = expected then (True, new) else (False, word))"

section \<open>Words as natural numbers\<close>

lemma unat_add_nowrap [word_nat]:
  fixes a b :: "'a::len word"
  assumes "unat a + unat b < 2 ^ LENGTH('a)"
  shows "unat (a + b) = unat a + unat b"
  using assms by (simp add: unat_word_ariths)

lemma unat_sub_nowrap [word_nat]:
  fixes a b :: "'a::len word"
  assumes "unat b \<le> unat a"
  shows "unat (a - b) = unat a - unat b"
  using assms by (simp add: unat_sub word_le_nat_alt)

lemma word_eq_unat_iff: "a = b \<longleftrightarrow> unat a = unat b" for a b :: "'a::len word"
  by (simp add: word_unat_eq_iff)

lemmas word_order_nat = word_le_nat_alt word_less_nat_alt

lemma unat_pow2 [word_nat]: "k < LENGTH('a) \<Longrightarrow> unat (2 ^ k :: 'a::len word) = 2 ^ k"
  by transfer simp

lemma unat_ucast_up [word_nat]:
  "LENGTH('a) \<le> LENGTH('b) \<Longrightarrow> unat (ucast (a :: 'a::len word) :: 'b::len word) = unat a"
  by transfer (simp add: min_def take_bit_nat_eq_self)

lemma unat_of_nat_less [word_nat]: "k < 2 ^ LENGTH('a) \<Longrightarrow> unat (of_nat k :: 'a::len word) = k"
  by (simp add: unsigned_of_nat take_bit_nat_eq_self)

lemma unat_minus_1_word: "unat (- 1 :: 'a::len word) = 2 ^ LENGTH('a) - 1"
  by (simp add: unsigned_minus_1_eq_mask mask_eq_exp_minus_1)

lemma unat_Suc_less:
  fixes i n :: "'a::len word"
  assumes "i < n"
  shows "unat (i + 1) = Suc (unat i)"
proof -
  have "unat i < unat n" "unat n < 2 ^ LENGTH('a)" using assms by (simp_all add: word_less_nat_alt)
  then have "unat i + unat (1 :: 'a word) < 2 ^ LENGTH('a)" by (metis Suc_leI Suc_eq_plus1 le_less_trans unat_1)
  from unat_add_nowrap [OF this] show ?thesis by simp
qed

lemma ucast_down_up: "LENGTH('a) \<le> LENGTH('b) \<Longrightarrow> ucast (ucast (a :: 'a::len word) :: 'b::len word) = a"
  by (simp add: word_eq_unat_iff unsigned_ucast_eq take_bit_nat_eq_self) (metis unat_ucast_up unsigned_less unsigned_take_bit_eq take_bit_word_eq_self)

lemma all_less_numeral:
  "(\<forall>n<numeral k. P n) \<longleftrightarrow> (\<forall>n<pred_numeral k. P n) \<and> P (pred_numeral k)"
  by (metis less_Suc_eq numeral_eq_Suc)

lemma unat_lt_64 [simp]: "unat (a :: u64) < 18446744073709551616"
  using unsigned_less [of a] by simp

lemma unat_lt_32 [simp]: "unat (a :: u32) < 4294967296"
  using unsigned_less [of a] by simp

lemma unat_lt_16 [simp]: "unat (a :: u16) < 65536"
  using unsigned_less [of a] by simp

end
