(* ===== verification/Pointer_Array.thy ===== *)
theory Pointer_Array
  imports Awn_Prelude
begin

text \<open>
  \<open>vp::util::PointerArray\<close> (\<open>util_pointerarray.hpp\<close>), \<open>FrameArray\<close> and \<open>BufferedFrameArray\<close>
  (\<open>util_framearray.hpp\<close>): arrays with a count of used elements at the front.  A null array is
  \<open>None\<close>; the iterators are pointers into the array and are the prefix \<open>used_part\<close> here.
\<close>

record 'e pointer_array =
  m_max_pointers :: u32
  m_used_pointers :: u32
  m_pointer_array :: "'e list option"

definition elements :: "'e list option \<Rightarrow> 'e list result" where
  "elements p = (case p of None \<Rightarrow> Inl Null_Pointer | Some xs \<Rightarrow> Inr xs)"

definition PointerArray_construct :: "'e pointer_array" where
  "PointerArray_construct = \<lparr>m_max_pointers = 0, m_used_pointers = 0, m_pointer_array = None\<rparr>"

text \<open>From \<open>begin\<close> to \<open>end\<close>.\<close>

definition used_part :: "'e pointer_array \<Rightarrow> 'e list result" where
  "used_part a = bind_result (elements (m_pointer_array a)) (\<lambda>xs. Inr (take (unat (m_used_pointers a)) xs))"

definition pa_index :: "u32 \<Rightarrow> 'e pointer_array \<Rightarrow> 'e result" where
  "pa_index index a =
     bind_result (if index < m_used_pointers a
        then bind_result (vp_assert (index < m_used_pointers a)) (\<lambda>_.
             bind_result (vp_assert (0 < m_max_pointers a)) (\<lambda>_. Inr 0))
        else Inr index) (\<lambda>index.
     bind_result (elements (m_pointer_array a)) (\<lambda>xs. load xs (unat index)))"

definition pa_Initialize :: "'e list option \<Rightarrow> u32 \<Rightarrow> 'e pointer_array \<Rightarrow> 'e pointer_array result" where
  "pa_Initialize memory pointer_count a =
     (if pointer_count = 0 then Inr a
      else bind_result (vp_assert (m_pointer_array a = None \<and> m_max_pointers a = 0)) (\<lambda>_.
           bind_result (vp_assert (memory \<noteq> None)) (\<lambda>_.
           Inr (a\<lparr>m_pointer_array := memory, m_used_pointers := 0, m_max_pointers := pointer_count\<rparr>))))"

definition pa_Finalize :: "'e pointer_array \<Rightarrow> 'e pointer_array" where
  "pa_Finalize a = a\<lparr>m_used_pointers := 0, m_max_pointers := 0, m_pointer_array := None\<rparr>"

definition pa_SetBuffer :: "'e list option \<Rightarrow> u32 \<Rightarrow> 'e pointer_array \<Rightarrow> 'e pointer_array result" where
  "pa_SetBuffer pointer_buffer pointer_count a =
     bind_result (vp_assert (pointer_buffer \<noteq> None \<and> pointer_count \<noteq> 0)) (\<lambda>_.
     Inr (a\<lparr>m_pointer_array := pointer_buffer, m_used_pointers := 0, m_max_pointers := pointer_count\<rparr>))"

definition pa_PushPointer :: "'e \<Rightarrow> 'e pointer_array \<Rightarrow> 'e pointer_array result" where
  "pa_PushPointer pointer a =
     bind_result (vp_assert (m_used_pointers a < m_max_pointers a)) (\<lambda>_.
     bind_result (elements (m_pointer_array a)) (\<lambda>xs.
     bind_result (store xs (unat (m_used_pointers a)) pointer) (\<lambda>xs.
     Inr (a\<lparr>m_pointer_array := Some xs, m_used_pointers := m_used_pointers a + 1\<rparr>))))"

text \<open>\<open>null\<close> is the \<open>nullptr\<close> that replaces the popped element.\<close>

definition pa_PopPointer :: "'e \<Rightarrow> 'e pointer_array \<Rightarrow> ('e \<times> 'e pointer_array) result" where
  "pa_PopPointer null a =
     bind_result (elements (m_pointer_array a)) (\<lambda>xs.
     bind_result (load xs (unat (m_used_pointers a - 1))) (\<lambda>ret.
     bind_result (store xs (unat (m_used_pointers a - 1)) null) (\<lambda>xs.
     Inr (ret, a\<lparr>m_pointer_array := Some xs, m_used_pointers := m_used_pointers a - 1\<rparr>))))"

text \<open>\<open>memmove\<close> of \<open>n\<close> elements from index \<open>src\<close> to index \<open>dst\<close>.\<close>

definition move_elements :: "nat \<Rightarrow> nat \<Rightarrow> nat \<Rightarrow> 'e list \<Rightarrow> 'e list result" where
  "move_elements dst src n xs =
     (if dst + n \<le> length xs \<and> src + n \<le> length xs
      then Inr (take dst xs @ take n (drop src xs) @ drop (dst + n) xs) else Inl Out_Of_Bounds)"

definition pa_RemoveRange :: "u32 \<Rightarrow> u32 \<Rightarrow> 'e pointer_array \<Rightarrow> 'e pointer_array result" where
  "pa_RemoveRange base_index number_of_elements a =
     (let move_element_index = base_index + number_of_elements;
          move_element_count = m_used_pointers a - move_element_index
      in bind_result (vp_assert (move_element_index \<le> m_used_pointers a)) (\<lambda>_.
         bind_result (if move_element_count \<noteq> 0
            then bind_result (elements (m_pointer_array a)) (\<lambda>xs.
                 bind_result (move_elements (unat base_index) (unat move_element_index) (unat move_element_count) xs) (\<lambda>xs.
                 Inr (a\<lparr>m_pointer_array := Some xs\<rparr>)))
            else Inr a) (\<lambda>a.
         Inr (a\<lparr>m_used_pointers := m_used_pointers a - number_of_elements\<rparr>))))"

definition pa_Clear :: "'e pointer_array \<Rightarrow> 'e pointer_array" where
  "pa_Clear a = a\<lparr>m_used_pointers := 0\<rparr>"

definition pa_GetUsedCount :: "'e pointer_array \<Rightarrow> u32" where "pa_GetUsedCount a = m_used_pointers a"
definition pa_GetMaxCount :: "'e pointer_array \<Rightarrow> u32" where "pa_GetMaxCount a = m_max_pointers a"

section \<open>The frame array\<close>

record 'e frame_array =
  m_frame_count :: u32
  m_frame_max :: u32
  m_frame_array :: "'e list option"

definition FrameArray_construct :: "'e frame_array" where
  "FrameArray_construct = \<lparr>m_frame_count = 0, m_frame_max = 0, m_frame_array = None\<rparr>"

definition fa_index :: "u32 \<Rightarrow> 'e frame_array \<Rightarrow> 'e result" where
  "fa_index index a =
     bind_result (if index < m_frame_count a
        then bind_result (vp_assert (index < m_frame_count a)) (\<lambda>_.
             bind_result (vp_assert (0 < m_frame_max a)) (\<lambda>_. Inr 0))
        else Inr index) (\<lambda>index.
     bind_result (elements (m_frame_array a)) (\<lambda>xs. load xs (unat index)))"

definition fa_Initialize :: "'e list option \<Rightarrow> u32 \<Rightarrow> 'e frame_array \<Rightarrow> 'e frame_array result" where
  "fa_Initialize memory value_count a =
     bind_result (vp_assert (value_count \<noteq> 0)) (\<lambda>_.
     bind_result (vp_assert (m_frame_array a = None \<and> m_frame_max a = 0)) (\<lambda>_.
     bind_result (vp_assert (memory \<noteq> None)) (\<lambda>_.
     Inr (a\<lparr>m_frame_array := memory, m_frame_count := 0, m_frame_max := value_count\<rparr>))))"

definition fa_Finalize :: "'e frame_array \<Rightarrow> 'e frame_array" where
  "fa_Finalize a = a\<lparr>m_frame_count := 0, m_frame_max := 0, m_frame_array := None\<rparr>"

definition fa_SetBuffer :: "'e list option \<Rightarrow> u32 \<Rightarrow> 'e frame_array \<Rightarrow> 'e frame_array result" where
  "fa_SetBuffer pointer_buffer pointer_count a =
     bind_result (vp_assert (pointer_buffer \<noteq> None \<and> pointer_count \<noteq> 0)) (\<lambda>_.
     Inr (a\<lparr>m_frame_array := pointer_buffer, m_frame_count := 0, m_frame_max := pointer_count\<rparr>))"

definition fa_PushValue :: "'e \<Rightarrow> 'e frame_array \<Rightarrow> 'e frame_array result" where
  "fa_PushValue value a =
     bind_result (vp_assert (m_frame_count a \<le> m_frame_max a)) (\<lambda>_.
     bind_result (elements (m_frame_array a)) (\<lambda>xs.
     bind_result (store xs (unat (m_frame_count a)) value) (\<lambda>xs.
     Inr (a\<lparr>m_frame_array := Some xs, m_frame_count := m_frame_count a + 1\<rparr>))))"

definition fa_PopValue :: "'e \<Rightarrow> 'e frame_array \<Rightarrow> ('e \<times> 'e frame_array) result" where
  "fa_PopValue null a =
     bind_result (elements (m_frame_array a)) (\<lambda>xs.
     bind_result (load xs (unat (m_frame_count a - 1))) (\<lambda>ret.
     bind_result (store xs (unat (m_frame_count a - 1)) null) (\<lambda>xs.
     Inr (ret, a\<lparr>m_frame_array := Some xs, m_frame_count := m_frame_count a - 1\<rparr>))))"

definition fa_RemoveRange :: "u32 \<Rightarrow> u32 \<Rightarrow> 'e frame_array \<Rightarrow> 'e frame_array result" where
  "fa_RemoveRange base_index number_of_elements a =
     (let move_element_index = base_index + number_of_elements;
          move_element_count = m_frame_count a - move_element_index
      in bind_result (vp_assert (move_element_index \<le> m_frame_count a)) (\<lambda>_.
         bind_result (if move_element_count \<noteq> 0
            then bind_result (elements (m_frame_array a)) (\<lambda>xs.
                 bind_result (move_elements (unat base_index) (unat move_element_index) (unat move_element_count) xs) (\<lambda>xs.
                 Inr (a\<lparr>m_frame_array := Some xs\<rparr>)))
            else Inr a) (\<lambda>a.
         Inr (a\<lparr>m_frame_count := m_frame_count a - number_of_elements\<rparr>))))"

definition fa_Clear :: "'e frame_array \<Rightarrow> 'e frame_array" where
  "fa_Clear a = a\<lparr>m_frame_count := 0\<rparr>"

text \<open>One frame array for each of \<open>FrameCount\<close> frames, the current one after the other.\<close>

record 'e buffered_frame_array =
  m_frame_array_array :: "'e frame_array list"
  m_current_frame :: u32

fun initialize_frames :: "'e list option list \<Rightarrow> u32 \<Rightarrow> 'e frame_array list \<Rightarrow> 'e frame_array list result" where
  "initialize_frames (m # ms) per_frame_count (a # as) =
     bind_result (fa_Initialize m per_frame_count a) (\<lambda>a.
     bind_result (initialize_frames ms per_frame_count as) (\<lambda>as. Inr (a # as)))"
| "initialize_frames _ _ as = Inr as"

definition bfa_Initialize :: "'e list option list \<Rightarrow> u32 \<Rightarrow> 'e buffered_frame_array \<Rightarrow> 'e buffered_frame_array result" where
  "bfa_Initialize memory per_frame_count b =
     bind_result (initialize_frames memory per_frame_count (m_frame_array_array b)) (\<lambda>as.
     Inr (b\<lparr>m_current_frame := 0, m_frame_array_array := as\<rparr>))"

definition bfa_Finalize :: "'e buffered_frame_array \<Rightarrow> 'e buffered_frame_array" where
  "bfa_Finalize b = b\<lparr>m_frame_array_array := map fa_Finalize (m_frame_array_array b)\<rparr>"

definition bfa_GetFrameArray :: "u32 \<Rightarrow> 'e buffered_frame_array \<Rightarrow> 'e frame_array result" where
  "bfa_GetFrameArray frame_index b = load (m_frame_array_array b) (unat frame_index)"

definition bfa_GetCurrentFrameArray :: "'e buffered_frame_array \<Rightarrow> 'e frame_array result" where
  "bfa_GetCurrentFrameArray b = load (m_frame_array_array b) (unat (m_current_frame b))"

definition bfa_GetLastFrameArray :: "'e buffered_frame_array \<Rightarrow> 'e frame_array result" where
  "bfa_GetLastFrameArray b =
     load (m_frame_array_array b)
       (if m_current_frame b = 0 then length (m_frame_array_array b) - 1 else unat (m_current_frame b - 1))"

definition bfa_AdvanceFrameArray :: "'e buffered_frame_array \<Rightarrow> 'e buffered_frame_array" where
  "bfa_AdvanceFrameArray b =
     b\<lparr>m_current_frame :=
        (if unat (m_current_frame b) < length (m_frame_array_array b) - 1 then m_current_frame b + 1 else 0)\<rparr>"

section \<open>The contract of a bounded stack\<close>

fun push_all :: "('e \<Rightarrow> 's \<Rightarrow> 's result) \<Rightarrow> 'e list \<Rightarrow> 's \<Rightarrow> 's result" where
  "push_all push [] s = Inr s"
| "push_all push (x # xs) s = bind_result (push x s) (push_all push xs)"

fun pop_many :: "('s \<Rightarrow> ('e \<times> 's) result) \<Rightarrow> nat \<Rightarrow> 's \<Rightarrow> ('e list \<times> 's) result" where
  "pop_many pop 0 s = Inr ([], s)"
| "pop_many pop (Suc n) s =
     bind_result (pop s) (\<lambda>(x, s). bind_result (pop_many pop n s) (\<lambda>(xs, s). Inr (x # xs, s)))"

locale bounded_stack =
  fixes ok :: "'s \<Rightarrow> bool"
    and items :: "'s \<Rightarrow> 'e list"
    and capacity :: "'s \<Rightarrow> nat"
    and push :: "'e \<Rightarrow> 's \<Rightarrow> 's result"
    and pop :: "'s \<Rightarrow> ('e \<times> 's) result"
  assumes within: "ok s \<Longrightarrow> length (items s) \<le> capacity s"
    and push_room: "ok s \<Longrightarrow> length (items s) < capacity s \<Longrightarrow>
      \<exists>s'. push x s = Inr s' \<and> ok s' \<and> items s' = items s @ [x] \<and> capacity s' = capacity s"
    and push_full: "ok s \<Longrightarrow> length (items s) = capacity s \<Longrightarrow> \<exists>e. push x s = Inl e"
    and pop_item: "ok s \<Longrightarrow> items s = xs @ [x] \<Longrightarrow>
      \<exists>s'. pop s = Inr (x, s') \<and> ok s' \<and> items s' = xs \<and> capacity s' = capacity s"
    and pop_empty: "ok s \<Longrightarrow> items s = [] \<Longrightarrow> \<exists>e. pop s = Inl e"
begin

lemma push_all_room:
  assumes "ok s" and "length (items s) + length xs \<le> capacity s"
  shows "\<exists>s'. push_all push xs s = Inr s' \<and> ok s' \<and> items s' = items s @ xs \<and> capacity s' = capacity s"
  using assms
proof (induction xs arbitrary: s)
  case (Cons x xs)
  then obtain t where t: "push x s = Inr t" "ok t" "items t = items s @ [x]" "capacity t = capacity s"
    using push_room [of s x] by auto
  from Cons.IH [OF t(2)] Cons.prems(2) t show ?case by auto
qed simp

lemma pop_many_items:
  assumes "ok s" and "items s = ys @ xs"
  shows "\<exists>s'. pop_many pop (length xs) s = Inr (rev xs, s') \<and> ok s' \<and> items s' = ys \<and> capacity s' = capacity s"
  using assms
proof (induction xs arbitrary: s rule: rev_induct)
  case (snoc x xs)
  then obtain t where t: "pop s = Inr (x, t)" "ok t" "items t = ys @ xs" "capacity t = capacity s"
    using pop_item [of s "ys @ xs" x] by auto
  from snoc.IH [OF t(2,3)] t show ?case by auto
qed simp

lemma push_pop:
  assumes "ok s" and "length (items s) + length xs \<le> capacity s"
  shows "\<exists>s' s''. push_all push xs s = Inr s' \<and> pop_many pop (length xs) s' = Inr (rev xs, s'') \<and> items s'' = items s"
proof -
  obtain s' where s': "push_all push xs s = Inr s'" "ok s'" "items s' = items s @ xs"
    using push_all_room [OF assms] by blast
  from pop_many_items [OF s'(2,3)] s'(1) show ?thesis by blast
qed

end

definition pa_ok :: "'e pointer_array \<Rightarrow> bool" where
  "pa_ok a \<longleftrightarrow> (case m_pointer_array a of None \<Rightarrow> False
     | Some xs \<Rightarrow> length xs = unat (m_max_pointers a) \<and> m_used_pointers a \<le> m_max_pointers a)"

definition pa_items :: "'e pointer_array \<Rightarrow> 'e list" where
  "pa_items a = (case m_pointer_array a of None \<Rightarrow> [] | Some xs \<Rightarrow> take (unat (m_used_pointers a)) xs)"

definition fa_ok :: "'e frame_array \<Rightarrow> bool" where
  "fa_ok a \<longleftrightarrow> (case m_frame_array a of None \<Rightarrow> False
     | Some xs \<Rightarrow> length xs = unat (m_frame_max a) \<and> m_frame_count a \<le> m_frame_max a)"

definition fa_items :: "'e frame_array \<Rightarrow> 'e list" where
  "fa_items a = (case m_frame_array a of None \<Rightarrow> [] | Some xs \<Rightarrow> take (unat (m_frame_count a)) xs)"

lemma pa_okD:
  assumes "pa_ok a"
  obtains xs where "m_pointer_array a = Some xs" "length xs = unat (m_max_pointers a)"
    "unat (m_used_pointers a) \<le> length xs" "pa_items a = take (unat (m_used_pointers a)) xs"
    "length (pa_items a) = unat (m_used_pointers a)"
  using assms by (auto simp: pa_ok_def pa_items_def word_le_nat_alt split: option.splits)

lemma fa_okD:
  assumes "fa_ok a"
  obtains xs where "m_frame_array a = Some xs" "length xs = unat (m_frame_max a)"
    "unat (m_frame_count a) \<le> length xs" "fa_items a = take (unat (m_frame_count a)) xs"
    "length (fa_items a) = unat (m_frame_count a)"
  using assms by (auto simp: fa_ok_def fa_items_def word_le_nat_alt split: option.splits)

lemma take_push: "n < length xs \<Longrightarrow> take (Suc n) (xs[n := x]) = take n xs @ [x]"
  by (simp add: take_Suc_conv_app_nth)

lemma take_pop:
  assumes "take n xs = ys @ [y]" and "n \<le> length xs"
  shows "0 < n" "xs ! (n - 1) = y" "take (n - 1) (xs[n - 1 := z]) = ys"
proof -
  have "n = Suc (length ys)" using arg_cong [OF assms(1), of length] assms(2) by simp
  then have l: "length ys = n - 1" "0 < n" by simp_all
  then show "0 < n" by simp
  show "xs ! (n - 1) = y" using l assms(1) nth_append_length [of ys y "[]"] nth_take [of "n - 1" n xs] by simp
  have "take (n - 1) (take n xs) = ys" using assms(1) l(1) by simp
  then have "take (n - 1) xs = ys" by (simp add: min_def)
  then show "take (n - 1) (xs[n - 1 := z]) = ys" by simp
qed

interpretation pa: bounded_stack pa_ok pa_items "\<lambda>a. unat (m_max_pointers a)" pa_PushPointer "pa_PopPointer null" for null
proof (unfold_locales, goal_cases)
  case (1 s)
  then show ?case by (rule pa_okD) simp
next
  case (2 s x)
  from 2(1) obtain xs where xs: "m_pointer_array s = Some xs" "length xs = unat (m_max_pointers s)"
    "pa_items s = take (unat (m_used_pointers s)) xs" "length (pa_items s) = unat (m_used_pointers s)" by (rule pa_okD)
  then have u: "m_used_pointers s < m_max_pointers s" "unat (m_used_pointers s) < length xs" using 2(2) by (simp_all add: word_less_nat_alt)
  then show ?case using xs unat_Suc_less [OF u(1)]
    by (simp add: pa_PushPointer_def elements_def pa_ok_def pa_items_def take_push word_le_nat_alt)
next
  case (3 s x)
  from 3(1) have "length (pa_items s) = unat (m_used_pointers s)" by (rule pa_okD)
  then have "\<not> m_used_pointers s < m_max_pointers s" using 3(2) by (simp add: word_less_nat_alt)
  then show ?case by (simp add: pa_PushPointer_def)
next
  case (4 s ys y)
  from 4(1) obtain xs where xs: "m_pointer_array s = Some xs" "length xs = unat (m_max_pointers s)"
    "unat (m_used_pointers s) \<le> length xs" "pa_items s = take (unat (m_used_pointers s)) xs" by (rule pa_okD)
  note T = take_pop [OF xs(4) [unfolded 4(2), symmetric] xs(3)]
  have "unat (m_used_pointers s - 1) = unat (m_used_pointers s) - 1" using T(1) by (intro unat_sub_nowrap [THEN trans]) auto
  then show ?case using xs T by (simp add: pa_PopPointer_def elements_def pa_ok_def pa_items_def word_le_nat_alt)
next
  case (5 s)
  from 5(1) obtain xs where xs: "m_pointer_array s = Some xs" "length xs = unat (m_max_pointers s)"
    "length (pa_items s) = unat (m_used_pointers s)" by (rule pa_okD)
  then have "m_used_pointers s - 1 = - 1" using 5(2) by (simp add: word_eq_unat_iff [of _ 0])
  moreover have "length xs \<le> 4294967295" using xs(2) unat_lt_32 [of "m_max_pointers s"] by linarith
  ultimately have "load xs (unat (m_used_pointers s - 1)) = Inl Out_Of_Bounds" by (simp add: load_def unat_minus_1_word)
  then show ?case using xs(1) by (simp add: pa_PopPointer_def elements_def)
qed

interpretation fa: bounded_stack fa_ok fa_items "\<lambda>a. unat (m_frame_max a)" fa_PushValue "fa_PopValue null" for null
proof (unfold_locales, goal_cases)
  case (1 s)
  then show ?case by (rule fa_okD) simp
next
  case (2 s x)
  from 2(1) obtain xs where xs: "m_frame_array s = Some xs" "length xs = unat (m_frame_max s)"
    "fa_items s = take (unat (m_frame_count s)) xs" "length (fa_items s) = unat (m_frame_count s)" by (rule fa_okD)
  then have u: "m_frame_count s < m_frame_max s" "unat (m_frame_count s) < length xs" using 2(2) by (simp_all add: word_less_nat_alt)
  then show ?case using xs unat_Suc_less [OF u(1)]
    by (simp add: fa_PushValue_def elements_def fa_ok_def fa_items_def take_push word_le_nat_alt)
next
  case (3 s x)
  from 3(1) obtain xs where xs: "m_frame_array s = Some xs" "length xs = unat (m_frame_max s)"
    "length (fa_items s) = unat (m_frame_count s)" by (rule fa_okD)
  then have "store xs (unat (m_frame_count s)) x = Inl Out_Of_Bounds" using 3(2) by (simp add: store_def)
  then show ?case using xs(1) by (simp add: fa_PushValue_def elements_def bind_vp_assert)
next
  case (4 s ys y)
  from 4(1) obtain xs where xs: "m_frame_array s = Some xs" "length xs = unat (m_frame_max s)"
    "unat (m_frame_count s) \<le> length xs" "fa_items s = take (unat (m_frame_count s)) xs" by (rule fa_okD)
  note T = take_pop [OF xs(4) [unfolded 4(2), symmetric] xs(3)]
  have "unat (m_frame_count s - 1) = unat (m_frame_count s) - 1" using T(1) by (intro unat_sub_nowrap [THEN trans]) auto
  then show ?case using xs T by (simp add: fa_PopValue_def elements_def fa_ok_def fa_items_def word_le_nat_alt)
next
  case (5 s)
  from 5(1) obtain xs where xs: "m_frame_array s = Some xs" "length xs = unat (m_frame_max s)"
    "length (fa_items s) = unat (m_frame_count s)" by (rule fa_okD)
  then have "m_frame_count s - 1 = - 1" using 5(2) by (simp add: word_eq_unat_iff [of _ 0])
  moreover have "length xs \<le> 4294967295" using xs(2) unat_lt_32 [of "m_frame_max s"] by linarith
  ultimately have "load xs (unat (m_frame_count s - 1)) = Inl Out_Of_Bounds" by (simp add: load_def unat_minus_1_word)
  then show ?case using xs(1) by (simp add: fa_PopValue_def elements_def)
qed

section \<open>Removing a range\<close>

lemma move_down:
  assumes "b \<le> f" and "f \<le> n" and "n \<le> length xs"
  shows "\<exists>ys. move_elements b f (n - f) xs = Inr ys \<and> length ys = length xs \<and>
    take (n - (f - b)) ys = take b (take n xs) @ drop f (take n xs)"
proof -
  let ?l = "take b xs @ take (n - f) (drop f xs)"
  have l: "length ?l = n - (f - b)" using assms by simp
  have "take (n - (f - b)) (?l @ drop (b + (n - f)) xs) = ?l" using append_eq_conv_conj l by metis
  moreover have "take b (take n xs) = take b xs" using assms by (simp add: min_absorb1)
  ultimately show ?thesis using assms by (simp add: move_elements_def drop_take)
qed

lemma pa_RemoveRange_spec:
  assumes "pa_ok a" and "unat b + unat n \<le> length (pa_items a)"
  shows "\<exists>a'. pa_RemoveRange b n a = Inr a' \<and> pa_ok a' \<and>
    pa_items a' = take (unat b) (pa_items a) @ drop (unat b + unat n) (pa_items a)"
proof -
  from assms(1) obtain xs where xs: "m_pointer_array a = Some xs" "length xs = unat (m_max_pointers a)"
    "unat (m_used_pointers a) \<le> length xs" "pa_items a = take (unat (m_used_pointers a)) xs"
    "length (pa_items a) = unat (m_used_pointers a)" by (rule pa_okD)
  let ?u = "unat (m_used_pointers a)"
  have "unat b + unat n < 4294967296" using assms(2) xs(5) unat_lt_32 [of "m_used_pointers a"] by linarith
  then have f: "unat (b + n) = unat b + unat n" by (intro unat_add_nowrap) simp
  have le: "b + n \<le> m_used_pointers a" using f assms(2) xs(5) by (simp add: word_le_nat_alt)
  have c: "unat (m_used_pointers a - (b + n)) = ?u - (unat b + unat n)" "unat (m_used_pointers a - n) = ?u - unat n"
    using f assms(2) xs(5) by (auto intro!: unat_sub_nowrap [THEN trans])
  show ?thesis
  proof (cases "m_used_pointers a - (b + n) = 0")
    case True
    then have "unat b = ?u - unat n" "drop (unat b + unat n) (pa_items a) = []" using c assms(2) xs(5) by simp_all
    then show ?thesis using True xs le c
      by (simp add: pa_RemoveRange_def Let_def pa_ok_def pa_items_def word_le_nat_alt min_def)
  next
    case False
    from move_down [of "unat b" "unat b + unat n" ?u xs] assms(2) xs
    obtain ys where "move_elements (unat b) (unat b + unat n) (?u - (unat b + unat n)) xs = Inr ys" "length ys = length xs"
      "take (?u - unat n) ys = take (unat b) (pa_items a) @ drop (unat b + unat n) (pa_items a)" by auto
    then show ?thesis using False xs le c f
      by (simp add: pa_RemoveRange_def Let_def elements_def pa_ok_def pa_items_def word_le_nat_alt)
  qed
qed

lemma pa_index_spec:
  assumes "pa_ok a" and "i < m_max_pointers a"
  shows "pa_index i a = Inr (if i < m_used_pointers a then pa_items a ! 0 else the (m_pointer_array a) ! unat i)"
proof -
  from assms(1) obtain xs where xs: "m_pointer_array a = Some xs" "length xs = unat (m_max_pointers a)"
    "unat (m_used_pointers a) \<le> length xs" "pa_items a = take (unat (m_used_pointers a)) xs" by (rule pa_okD)
  have "0 < m_max_pointers a" using assms(2) by (simp add: word_less_nat_alt)
  then show ?thesis using assms(2) xs by (auto simp: pa_index_def elements_def word_less_nat_alt)
qed

section \<open>Properties\<close>

text \<open>
  a pointer array is a bounded stack of pointers: it takes as many as its maximum and gives them back
  the last one first, a push beyond the maximum and a pop from the empty array fail, and \<open>RemoveRange\<close>
  takes out exactly the range.  Its index operator, whose test is the wrong way round, answers the first
  element for every index in use.
\<close>

theorem pointer_array_stack:
  assumes "pa_ok a" and "length (pa_items a) + length xs \<le> unat (m_max_pointers a)"
  shows "\<exists>a' a''. push_all pa_PushPointer xs a = Inr a' \<and> pa_items a' = pa_items a @ xs \<and>
    pop_many (pa_PopPointer null) (length xs) a' = Inr (rev xs, a'') \<and> pa_items a'' = pa_items a \<and>
    (length (pa_items a') = unat (m_max_pointers a) \<longrightarrow> (\<exists>e. pa_PushPointer x a' = Inl e)) \<and>
    (\<forall>b n. unat b + unat n \<le> length (pa_items a') \<longrightarrow> (\<exists>a3. pa_RemoveRange b n a' = Inr a3 \<and>
      pa_items a3 = take (unat b) (pa_items a') @ drop (unat b + unat n) (pa_items a'))) \<and>
    (\<forall>i<m_used_pointers a'. pa_index i a' = Inr (pa_items a' ! 0))"
proof -
  obtain a' where a': "push_all pa_PushPointer xs a = Inr a'" "pa_ok a'" "pa_items a' = pa_items a @ xs"
    "m_max_pointers a' = m_max_pointers a"
    using pa.push_all_room [OF assms] by (metis word_eq_unat_iff)
  obtain a'' where a'': "pop_many (pa_PopPointer null) (length xs) a' = Inr (rev xs, a'')" "pa_items a'' = pa_items a"
    using pa.pop_many_items [OF a'(2,3)] by blast
  have "m_used_pointers a' \<le> m_max_pointers a'" using a'(2) by (auto simp: pa_ok_def split: option.splits)
  then have "\<forall>i<m_used_pointers a'. pa_index i a' = Inr (pa_items a' ! 0)"
    using pa_index_spec [OF a'(2)] by (auto dest: less_le_trans)
  then show ?thesis using a' a'' pa.push_full [OF a'(2), of x] pa_RemoveRange_spec [OF a'(2)] by fastforce
qed

theorem pointer_array_stack_witness:
  "\<exists>a' a''. push_all pa_PushPointer [7, 8] \<lparr>m_max_pointers = 2, m_used_pointers = 0, m_pointer_array = Some [0, 0 :: u64]\<rparr> = Inr a' \<and>
     pop_many (pa_PopPointer 0) 2 a' = Inr ([8, 7], a'') \<and> pa_index 1 a' = Inr 7"
proof -
  let ?a = "\<lparr>m_max_pointers = 2, m_used_pointers = 0, m_pointer_array = Some [0, 0 :: u64]\<rparr>"
  have "pa_ok ?a" "length (pa_items ?a) + length [7, 8 :: u64] \<le> unat (m_max_pointers ?a)" by code_simp+
  note P = pointer_array_stack [OF this, of 0 0]
  have p: "push_all pa_PushPointer [7, 8] ?a = Inr \<lparr>m_max_pointers = 2, m_used_pointers = 2, m_pointer_array = Some [7, 8]\<rparr>"
    by code_simp
  let ?b = "\<lparr>m_max_pointers = 2, m_used_pointers = 2, m_pointer_array = Some [7, 8 :: u64]\<rparr>"
  from P obtain a' a'' where q: "push_all pa_PushPointer [7, 8] ?a = Inr a'"
    "pop_many (pa_PopPointer 0) (length [7, 8 :: u64]) a' = Inr (rev [7, 8], a'')"
    "\<forall>i<m_used_pointers a'. pa_index i a' = Inr (pa_items a' ! 0)" by blast
  have "a' = ?b" using q(1) p by simp
  note * = q(2,3) [unfolded this]
  have "length [7, 8 :: u64] = 2" "rev [7, 8 :: u64] = [8, 7]" "1 < m_used_pointers ?b" "pa_items ?b ! 0 = 7"
    by (simp_all add: pa_items_def)
  with * p show ?thesis by metis
qed

end
