(* ===== verification/Slot_Contract.thy ===== *)
theory Slot_Contract
  imports Awn_Prelude
begin

text \<open>
  The contract of an allocator of equal slots that keeps its free slots in a linked list inside the
  slots themselves: the handle allocators and the object allocators of \<open>vp::util\<close>.  A client takes
  slots and gives back slots it holds; the locale says what it may rely on.
\<close>

inductive slot_life ::
  "('s \<Rightarrow> ('i \<times> 's) option) \<Rightarrow> ('i \<Rightarrow> 's \<Rightarrow> 's option) \<Rightarrow> 's \<Rightarrow> 's \<Rightarrow> 'i list \<Rightarrow> bool" for take give s0 where
  start: "slot_life take give s0 s0 []"
| taken: "slot_life take give s0 s held \<Longrightarrow> take s = Some (i, s') \<Longrightarrow> slot_life take give s0 s' (i # held)"
| given: "slot_life take give s0 s held \<Longrightarrow> i \<in> set held \<Longrightarrow> give i s = Some s' \<Longrightarrow>
    slot_life take give s0 s' (remove1 i held)"

locale slot_allocator =
  fixes rep :: "'s \<Rightarrow> 'i list \<Rightarrow> bool"
    and slots :: "'s \<Rightarrow> 'i set"
    and take :: "'s \<Rightarrow> ('i \<times> 's) option"
    and give :: "'i \<Rightarrow> 's \<Rightarrow> 's option"
  assumes rep_slots: "rep s fs \<Longrightarrow> distinct fs \<and> set fs \<subseteq> slots s"
    and take_first: "rep s (i # fs) \<Longrightarrow> \<exists>s'. take s = Some (i, s') \<and> rep s' fs \<and> slots s' = slots s"
    and take_none: "rep s [] \<Longrightarrow> take s = None"
    and give_first: "rep s fs \<Longrightarrow> i \<in> slots s \<Longrightarrow> i \<notin> set fs \<Longrightarrow>
      \<exists>s'. give i s = Some s' \<and> rep s' (i # fs) \<and> slots s' = slots s"
begin

lemma take_some:
  assumes "rep s fs" and "take s = Some (i, s')"
  shows "\<exists>gs. fs = i # gs \<and> rep s' gs \<and> slots s' = slots s"
proof (cases fs)
  case Nil
  then show ?thesis using take_none assms by auto
next
  case (Cons j gs)
  then show ?thesis using take_first [of s j gs] assms by auto
qed

lemma slot_life_rep:
  assumes "slot_life take give s0 s held" and "rep s0 fs0" and "set fs0 = slots s0"
  shows "\<exists>fs. rep s fs \<and> distinct (held @ fs) \<and> set (held @ fs) = slots s0 \<and> slots s = slots s0"
  using assms
proof (induction rule: slot_life.induct)
  case start
  then show ?case using rep_slots by (intro exI [of _ fs0]) auto
next
  case (taken s held i s')
  then obtain fs where "rep s fs" "distinct (held @ fs)" "set (held @ fs) = slots s0" "slots s = slots s0" by blast
  moreover from take_some [OF this(1) taken.hyps(2)]
  obtain gs where "fs = i # gs" "rep s' gs" "slots s' = slots s" by blast
  ultimately show ?case by (intro exI [of _ gs]) auto
next
  case (given s held i s')
  then obtain fs where *: "rep s fs" "distinct (held @ fs)" "set (held @ fs) = slots s0" "slots s = slots s0" by blast
  then have i: "i \<in> slots s" "i \<notin> set fs" using given.hyps(2) by auto
  then have "rep s' (i # fs)" "slots s' = slots s" using give_first [OF *(1) i] given.hyps(3) by auto
  moreover have "distinct (remove1 i held @ i # fs)" using * i(2) by auto
  moreover have "set (remove1 i held @ i # fs) = set (held @ fs)" using *(2) given.hyps(2) by auto
  ultimately show ?case using * by (intro exI [of _ "i # fs"]) (metis append.simps)
qed

text \<open>What a client sees: fresh slots, none refused before all are held, and every slot comes back.\<close>

lemma slot_life_held:
  assumes "slot_life take give s0 s held" and "rep s0 fs0" and "set fs0 = slots s0"
  shows "distinct held" and "set held \<subseteq> slots s0"
  using slot_life_rep [OF assms] by auto

lemma slot_life_take:
  assumes "slot_life take give s0 s held" and "rep s0 fs0" and "set fs0 = slots s0"
  shows "(\<exists>i s'. take s = Some (i, s')) \<longleftrightarrow> length held < card (slots s0)"
    and "take s = Some (i, s') \<Longrightarrow> i \<in> slots s0 - set held"
proof -
  obtain fs where *: "rep s fs" "distinct (held @ fs)" "set (held @ fs) = slots s0"
    using slot_life_rep [OF assms] by blast
  have "card (slots s0) = length (held @ fs)" using *(2,3) distinct_card by metis
  then show "(\<exists>i s'. take s = Some (i, s')) \<longleftrightarrow> length held < card (slots s0)"
    by (cases fs) (use take_first [of s] take_none [of s] *(1) in \<open>fastforce+\<close>)
  show "take s = Some (i, s') \<Longrightarrow> i \<in> slots s0 - set held" using take_some [OF *(1)] *(2,3) by fastforce
qed

lemma slot_life_give:
  assumes "slot_life take give s0 s held" and "rep s0 fs0" and "set fs0 = slots s0" and "i \<in> set held"
  shows "\<exists>s' s''. give i s = Some s' \<and> take s' = Some (i, s'')"
proof -
  obtain fs where *: "rep s fs" "distinct (held @ fs)" "set (held @ fs) = slots s0" "slots s = slots s0"
    using slot_life_rep [OF assms(1-3)] by blast
  then have "i \<in> slots s" "i \<notin> set fs" using assms(4) by auto
  then obtain s' where "give i s = Some s'" "rep s' (i # fs)" using give_first [OF *(1)] by blast
  then show ?thesis using take_first by blast
qed

end

end
