(* ===== verification/Index_Allocator.thy ===== *)
theory Index_Allocator
  imports Slot_Contract
begin

text \<open>
  \<open>vp::util::IndexAllocator\<close> and \<open>FixedIndexAllocator\<close> (\<open>util_indexallocator.hpp\<close>): handles
  \<open>0 .. max - 1\<close> of a type \<open>T\<close> of at most 32 bits; the free handles are linked through the array, the
  handle with all bits set ends the list.  \<open>'t word\<close> is the type \<open>T\<close>.
\<close>

record 'e index_allocator =
  m_next_index :: u32
  m_max_count :: u32
  m_handle_array :: "'e list option"

record 'e fixed_index_allocator =
  m_fixed_next :: u32
  m_fixed_array :: "'e list"

definition cInvalidHandle :: "'t::len word" where "cInvalidHandle = - 1"

text \<open>\<open>~T(0)\<close> is an \<open>int\<close> when \<open>T\<close> is narrower, so as a \<open>u32\<close> it is the same for every \<open>T\<close>.\<close>

definition cMaxSize :: u32 where "cMaxSize = NOT 0"

definition array_of :: "'a list option \<Rightarrow> 'a list result" where
  "array_of p = (case p of None \<Rightarrow> Inl Null_Pointer | Some xs \<Rightarrow> Inr xs)"

text \<open>\<open>for (u32 i = 0; i < n; ++i) m_handle_array[i] = i + 1\<close>\<close>

function link_handles :: "u32 \<Rightarrow> u32 \<Rightarrow> 't::len word list \<Rightarrow> 't word list result" where
  "link_handles i n xs =
     (if i < n then bind_result (store xs (unat i) (ucast (i + 1))) (link_handles (i + 1) n) else Inr xs)"
  by auto
termination
proof (relation "measure (\<lambda>(i, n, xs). unat n - unat i)", goal_cases)
  case (2 i n xs x)
  then have "unat (i + 1) = unat i + 1" by (simp add: unat_Suc_less)
  then show ?case using 2 by (simp add: word_less_nat_alt)
qed simp

declare link_handles.simps [simp del]

definition ia_link :: "u32 \<Rightarrow> 't::len word list \<Rightarrow> 't word list result" where
  "ia_link n xs =
     bind_result (link_handles 0 (n - 1) xs) (\<lambda>xs. store xs (unat (n - 1)) cInvalidHandle)"

definition IndexAllocator_construct :: "'e index_allocator" where
  "IndexAllocator_construct = \<lparr>m_next_index = 0, m_max_count = 0, m_handle_array = None\<rparr>"

text \<open>\<open>memory\<close> is what \<open>new\<close> answers: the contents of the new array, or null.\<close>

definition ia_Initialize :: "'t::len word list option \<Rightarrow> u32 \<Rightarrow> 't word index_allocator \<Rightarrow> 't word index_allocator result" where
  "ia_Initialize memory max_index_count a =
     bind_result (vp_assert (max_index_count < cMaxSize)) (\<lambda>_.
     bind_result (vp_assert (memory \<noteq> None)) (\<lambda>_.
     bind_result (bind_result (array_of memory) (ia_link max_index_count)) (\<lambda>xs.
       Inr (a\<lparr>m_next_index := 0, m_handle_array := Some xs, m_max_count := max_index_count\<rparr>))))"

definition ia_Finalize :: "'t::len word index_allocator \<Rightarrow> 't word index_allocator" where
  "ia_Finalize a = a\<lparr>m_next_index := ucast (cInvalidHandle :: 't word), m_max_count := 0, m_handle_array := None\<rparr>"

definition ia_Clear :: "'t::len word index_allocator \<Rightarrow> 't word index_allocator result" where
  "ia_Clear a =
     bind_result (bind_result (array_of (m_handle_array a)) (ia_link (m_max_count a))) (\<lambda>xs.
       Inr (a\<lparr>m_next_index := 0, m_handle_array := Some xs\<rparr>))"

definition ia_Allocate :: "'t::len word index_allocator \<Rightarrow> ('t word \<times> 't word index_allocator) result" where
  "ia_Allocate a =
     (let handle_value = m_next_index a
      in bind_result (bind_result (array_of (m_handle_array a)) (\<lambda>xs. load xs (unat handle_value))) (\<lambda>next.
         Inr (ucast handle_value, a\<lparr>m_next_index := ucast next\<rparr>)))"

definition ia_Free :: "'t::len word \<Rightarrow> 't word index_allocator \<Rightarrow> 't word index_allocator result" where
  "ia_Free index a =
     bind_result (bind_result (array_of (m_handle_array a)) (\<lambda>xs. store xs (unat index) (ucast (m_next_index a)))) (\<lambda>xs.
       Inr (a\<lparr>m_handle_array := Some xs, m_next_index := ucast index\<rparr>))"

definition ia_GetMaxCount :: "'e index_allocator \<Rightarrow> u32" where
  "ia_GetMaxCount a = m_max_count a"

definition fia_Clear :: "'t::len word fixed_index_allocator \<Rightarrow> 't word fixed_index_allocator result" where
  "fia_Clear a =
     bind_result (ia_link (of_nat (length (m_fixed_array a))) (m_fixed_array a)) (\<lambda>xs.
       Inr (a\<lparr>m_fixed_next := 0, m_fixed_array := xs\<rparr>))"

text \<open>\<open>Count\<close> is the length of the array, a template argument.\<close>

definition FixedIndexAllocator_construct :: "u32 \<Rightarrow> 't::len word fixed_index_allocator result" where
  "FixedIndexAllocator_construct Count = fia_Clear \<lparr>m_fixed_next = 0, m_fixed_array = replicate (unat Count) 0\<rparr>"

definition fia_Allocate :: "'t::len word fixed_index_allocator \<Rightarrow> ('t word \<times> 't word fixed_index_allocator) result" where
  "fia_Allocate a =
     (let handle_value = m_fixed_next a
      in bind_result (load (m_fixed_array a) (unat handle_value)) (\<lambda>next.
         Inr (ucast handle_value, a\<lparr>m_fixed_next := ucast next\<rparr>)))"

definition fia_Free :: "'t::len word \<Rightarrow> 't word fixed_index_allocator \<Rightarrow> 't word fixed_index_allocator result" where
  "fia_Free index a =
     bind_result (store (m_fixed_array a) (unat index) (ucast (m_fixed_next a))) (\<lambda>xs.
       Inr (a\<lparr>m_fixed_array := xs, m_fixed_next := ucast index\<rparr>))"

definition fia_GetMaxCount :: "'e fixed_index_allocator \<Rightarrow> u32" where
  "fia_GetMaxCount a = of_nat (length (m_fixed_array a))"

section \<open>The free list in the array\<close>

fun chain :: "'t::len word list \<Rightarrow> u32 \<Rightarrow> 't word list \<Rightarrow> bool" where
  "chain xs next [] \<longleftrightarrow> next = ucast (cInvalidHandle :: 't word)"
| "chain xs next (i # fs) \<longleftrightarrow> next = ucast i \<and> unat i < length xs \<and> chain xs (ucast (xs ! unat i)) fs"

definition free_chain :: "u32 \<Rightarrow> 't::len word list \<Rightarrow> 't word list \<Rightarrow> bool" where
  "free_chain next xs fs \<longleftrightarrow>
     LENGTH('t) \<le> 32 \<and> length xs < 2 ^ LENGTH('t) \<and> distinct fs \<and> chain xs next fs"

definition slots_of :: "'t::len word list \<Rightarrow> 't word set" where
  "slots_of xs = {i. unat i < length xs}"

lemma ucast_ucast_32: "LENGTH('t) \<le> 32 \<Longrightarrow> ucast (ucast (i :: 't::len word) :: u32) = i"
  by (simp add: ucast_down_up)

lemma chain_update: "i \<notin> set fs \<Longrightarrow> chain (xs[unat i := v]) next fs = chain xs next fs"
  by (induction fs arbitrary: "next") (auto simp: nth_list_update word_eq_unat_iff)

lemma free_chain_slots: "free_chain next xs fs \<Longrightarrow> distinct fs \<and> set fs \<subseteq> slots_of xs"
proof -
  have "chain xs next fs \<Longrightarrow> set fs \<subseteq> slots_of xs"
    by (induction fs arbitrary: "next") (auto simp: slots_of_def)
  then show "free_chain next xs fs \<Longrightarrow> ?thesis" by (simp add: free_chain_def)
qed

lemma free_chain_first:
  assumes "free_chain next xs (i # fs)"
  shows "next = ucast i" "ucast next = i" "unat next < length xs" "free_chain (ucast (xs ! unat next)) xs fs"
  using assms by (auto simp: free_chain_def ucast_ucast_32 unat_ucast_up)

lemma unat_invalid: "LENGTH('t) \<le> 32 \<Longrightarrow> unat (ucast (cInvalidHandle :: 't::len word) :: u32) = 2 ^ LENGTH('t) - 1"
  by (simp add: unat_ucast_up cInvalidHandle_def unat_minus_1_word)

lemma free_chain_empty: "free_chain next xs [] \<Longrightarrow> \<not> unat next < length xs"
  for xs :: "'t::len word list"
  by (auto simp: free_chain_def unat_invalid)

lemma free_chain_push:
  assumes "free_chain next xs fs" and "i \<in> slots_of xs" and "i \<notin> set fs"
  shows "unat i < length xs" "free_chain (ucast i) (xs[unat i := ucast next]) (i # fs)"
proof -
  show i: "unat i < length xs" using assms(2) by (simp add: slots_of_def)
  have "ucast (ucast next :: 'a word) = next"
    using assms(1) by (cases fs) (auto simp: free_chain_def ucast_ucast_32)
  then show "free_chain (ucast i) (xs[unat i := ucast next]) (i # fs)"
    using assms i by (simp add: free_chain_def chain_update)
qed

lemma link_handles_spec:
  assumes "unat i \<le> unat n" and "unat n \<le> length xs"
  shows "link_handles i n xs =
    Inr (map (\<lambda>k. if unat i \<le> k \<and> k < unat n then of_nat (k + 1) else xs ! k) [0..<length xs])"
  using assms
proof (induction i n xs rule: link_handles.induct)
  case (1 i n xs)
  show ?case
  proof (cases "i < n")
    case True
    then have u: "unat (i + 1) = unat i + 1" "unat i < length xs" "unat i < unat n"
      using 1(3) True by (auto simp: word_less_nat_alt unat_Suc_less [OF True])
    have c: "(ucast (i + 1) :: 'a word) = of_nat (unat i + 1)" using u(1) by (metis of_nat_unat)
    show ?thesis using 1(1) [OF True, of "xs[unat i := ucast (i + 1)]"] 1(3) u True
      by (subst link_handles.simps) (auto simp: c nth_list_update intro!: nth_equalityI)
  next
    case False
    then have "\<not> unat i < unat n" by (simp add: word_less_nat_alt)
    then have "map (\<lambda>k. if unat i \<le> k \<and> k < unat n then of_nat (k + 1) else xs ! k) [0..<length xs] = xs"
      by (auto intro!: nth_equalityI)
    then show ?thesis using False by (subst link_handles.simps) simp
  qed
qed

definition all_handles :: "nat \<Rightarrow> 't::len word list" where
  "all_handles n = map of_nat [0..<n]"

lemma set_all_handles:
  assumes "n < 2 ^ LENGTH('t)"
  shows "set (all_handles n :: 't::len word list) = {i. unat i < n}" "distinct (all_handles n :: 't word list)"
proof -
  have u: "unat (of_nat k :: 't word) = k" if "k < n" for k using that assms by (simp add: unat_of_nat_less)
  have "i \<in> set (all_handles n)" if "unat i < n" for i :: "'t word"
    using that by (auto simp: all_handles_def intro!: image_eqI [of _ _ "unat i"])
  then show "set (all_handles n :: 't::len word list) = {i. unat i < n}" using u by (auto simp: all_handles_def)
  show "distinct (all_handles n :: 't word list)"
    by (auto simp: all_handles_def distinct_map inj_on_def) (metis u)
qed

lemma ia_link_spec:
  fixes xs :: "'t::len word list"
  assumes "length xs = unat n" and "0 < unat n" and "unat n < 2 ^ LENGTH('t)" and "LENGTH('t) \<le> 32"
  shows "\<exists>ys. ia_link n xs = Inr ys \<and> length ys = length xs \<and> free_chain 0 ys (all_handles (unat n))"
proof -
  let ?n = "unat n"
  have n1: "unat (n - 1) = ?n - 1" using assms(2) by (intro unat_sub_nowrap [THEN trans]) auto
  define ys where "ys = (map (\<lambda>k. if k < ?n - 1 then of_nat (k + 1) else xs ! k) [0..<length xs])[?n - 1 := cInvalidHandle]"
  have e: "ia_link n xs = Inr ys"
    using assms(1,2) n1 by (simp add: ia_link_def link_handles_spec ys_def)
  have ly: "length ys = ?n" by (simp add: ys_def assms(1))
  have at: "ys ! k = (if k < ?n - 1 then of_nat (k + 1) else cInvalidHandle)" if "k < ?n" for k
    using that assms(1) by (auto simp: ys_def nth_list_update)
  have u: "unat (of_nat k :: 't word) = k" "ucast (of_nat k :: 't word) = (of_nat k :: u32)" if "k < ?n" for k
  proof -
    show 1: "unat (of_nat k :: 't word) = k" using that assms(3) by (simp add: unat_of_nat_less)
    have "k < 2 ^ LENGTH(32)" using that unat_lt_32 [of n] by (simp del: unat_lt_32)
    then have "unat (of_nat k :: u32) = k" by (rule unat_of_nat_less)
    then have "unat (ucast (of_nat k :: 't word) :: u32) = unat (of_nat k :: u32)"
      using 1 assms(4) by (simp add: unat_ucast_up)
    then show "ucast (of_nat k :: 't word) = (of_nat k :: u32)" by (simp add: word_eq_unat_iff)
  qed
  have c: "chain ys (of_nat k) (map of_nat [k..<?n])" if "k < ?n" for k
    using that
  proof (induction "?n - k" arbitrary: k)
    case (Suc d)
    show ?case
    proof (cases "Suc k < ?n")
      case True
      then have "chain ys (of_nat (Suc k)) (map of_nat [Suc k..<?n])"
        using Suc.hyps(2) by (intro Suc.hyps(1)) (auto simp: True)
      moreover have "(ucast (ys ! k) :: u32) = of_nat (Suc k)"
        using at [OF Suc.prems] u(2) [OF True] True by (simp add: less_diff_conv)
      ultimately show ?thesis using Suc.prems u [OF Suc.prems] ly by (simp add: upt_conv_Cons)
    next
      case False
      then have "[k..<?n] = [k]" using Suc.prems by (simp add: upt_conv_Cons)
      then show ?thesis using at [OF Suc.prems] u [OF Suc.prems] False Suc.prems ly by (simp add: less_diff_conv)
    qed
  qed simp
  have "free_chain 0 ys (all_handles ?n)"
    using c [OF assms(2)] assms ly set_all_handles(2) [OF assms(3)]
    by (simp add: free_chain_def all_handles_def)
  then show ?thesis using e ly assms(1) by auto
qed

section \<open>The contract\<close>

definition ia_take :: "'t::len word index_allocator \<Rightarrow> ('t word \<times> 't word index_allocator) option" where
  "ia_take a = (case ia_Allocate a of Inr x \<Rightarrow> Some x | Inl _ \<Rightarrow> None)"

definition ia_give :: "'t::len word \<Rightarrow> 't word index_allocator \<Rightarrow> 't word index_allocator option" where
  "ia_give i a = (case ia_Free i a of Inr x \<Rightarrow> Some x | Inl _ \<Rightarrow> None)"

definition ia_rep :: "'t::len word index_allocator \<Rightarrow> 't word list \<Rightarrow> bool" where
  "ia_rep a fs \<longleftrightarrow> (case m_handle_array a of None \<Rightarrow> False | Some xs \<Rightarrow> free_chain (m_next_index a) xs fs)"

definition ia_slots :: "'t::len word index_allocator \<Rightarrow> 't word set" where
  "ia_slots a = (case m_handle_array a of None \<Rightarrow> {} | Some xs \<Rightarrow> slots_of xs)"

definition fia_take :: "'t::len word fixed_index_allocator \<Rightarrow> ('t word \<times> 't word fixed_index_allocator) option" where
  "fia_take a = (case fia_Allocate a of Inr x \<Rightarrow> Some x | Inl _ \<Rightarrow> None)"

definition fia_give :: "'t::len word \<Rightarrow> 't word fixed_index_allocator \<Rightarrow> 't word fixed_index_allocator option" where
  "fia_give i a = (case fia_Free i a of Inr x \<Rightarrow> Some x | Inl _ \<Rightarrow> None)"

lemma ia_Allocate_first:
  assumes "ia_rep a (i # fs)"
  shows "\<exists>a'. ia_Allocate a = Inr (i, a') \<and> ia_rep a' fs \<and> m_handle_array a' = m_handle_array a \<and>
    m_max_count a' = m_max_count a"
proof -
  obtain xs where "m_handle_array a = Some xs" "free_chain (m_next_index a) xs (i # fs)"
    using assms by (auto simp: ia_rep_def split: option.splits)
  then show ?thesis using free_chain_first [of "m_next_index a" xs i fs]
    by (simp add: ia_rep_def ia_Allocate_def array_of_def Let_def)
qed

lemma ia_Allocate_empty:
  assumes "ia_rep a []"
  shows "ia_Allocate a = Inl Out_Of_Bounds"
  using assms free_chain_empty [of "m_next_index a"]
  by (auto simp: ia_rep_def ia_Allocate_def array_of_def load_def Let_def split: option.splits)

lemma ia_Free_spec:
  assumes "ia_rep a fs" and "i \<in> ia_slots a" and "i \<notin> set fs"
  shows "\<exists>a'. ia_Free i a = Inr a' \<and> ia_rep a' (i # fs) \<and> ia_slots a' = ia_slots a \<and> m_max_count a' = m_max_count a"
proof -
  obtain xs where "m_handle_array a = Some xs" "free_chain (m_next_index a) xs fs" "i \<in> slots_of xs"
    using assms by (auto simp: ia_rep_def ia_slots_def split: option.splits)
  then show ?thesis using free_chain_push [of "m_next_index a" xs fs i] assms(3)
    by (simp add: ia_rep_def ia_slots_def ia_Free_def array_of_def slots_of_def)
qed

interpretation ix: slot_allocator ia_rep ia_slots ia_take ia_give
proof (unfold_locales, goal_cases)
  case (1 s fs)
  then show ?case using free_chain_slots by (auto simp: ia_rep_def ia_slots_def split: option.splits)
next
  case (2 s i fs)
  then show ?case using ia_Allocate_first [OF 2] by (auto simp: ia_take_def ia_slots_def)
next
  case (3 s)
  then show ?case by (simp add: ia_take_def ia_Allocate_empty)
next
  case (4 s fs i)
  then show ?case using ia_Free_spec [of s fs i] by (auto simp: ia_give_def)
qed

interpretation fx: slot_allocator "\<lambda>a. free_chain (m_fixed_next a) (m_fixed_array a)"
  "\<lambda>a. slots_of (m_fixed_array a)" fia_take fia_give
proof (unfold_locales, goal_cases)
  case (1 s fs)
  then show ?case by (rule free_chain_slots)
next
  case (2 s i fs)
  then show ?case using free_chain_first [OF 2] by (auto simp: fia_take_def fia_Allocate_def)
next
  case (3 s)
  then show ?case using free_chain_empty [OF 3] by (simp add: fia_take_def fia_Allocate_def load_def)
next
  case (4 s fs i)
  then show ?case using free_chain_push [OF 4] by (auto simp: fia_give_def fia_Free_def slots_of_def)
qed

lemma ia_Initialize_spec:
  fixes a :: "'t::len word index_allocator"
  assumes "length xs = unat n" and "0 < unat n" and "unat n < 2 ^ LENGTH('t)" and "LENGTH('t) \<le> 32"
    and "n < cMaxSize"
  shows "\<exists>a'. ia_Initialize (Some xs) n a = Inr a' \<and> ia_rep a' (all_handles (unat n)) \<and>
    ia_slots a' = set (all_handles (unat n)) \<and> card (ia_slots a') = unat n \<and> m_max_count a' = n"
proof -
  obtain ys where ys: "ia_link n xs = Inr ys" "length ys = length xs" "free_chain 0 ys (all_handles (unat n))"
    using ia_link_spec [OF assms(1-4)] by blast
  have "card (set (all_handles (unat n) :: 't word list)) = unat n"
    using set_all_handles(2) [OF assms(3)] by (simp add: distinct_card) (simp add: all_handles_def)
  then show ?thesis using ys assms(1,5) set_all_handles(1) [OF assms(3)]
    by (simp add: ia_Initialize_def array_of_def ia_rep_def ia_slots_def slots_of_def)
qed

section \<open>Properties\<close>

text \<open>
  over any sequence of allocations and frees of held handles an index allocator of \<open>n\<close> handles
  gives out handles below \<open>n\<close> that nobody holds, serves every client as long as fewer than \<open>n\<close> are
  held, and gives a freed handle out again next.  With all handles taken \<open>Allocate\<close>, which has no test
  for an empty list, reads the array at the invalid handle, outside its bounds.
\<close>

theorem index_allocator_handles:
  fixes a a0 s :: "'t::len word index_allocator"
  assumes "ia_Initialize (Some xs) n a = Inr a0" and "length xs = unat n" and "0 < unat n"
    and "unat n < 2 ^ LENGTH('t)" and "LENGTH('t) \<le> 32" and life: "slot_life ia_take ia_give a0 s held"
  shows "distinct held \<and> (\<forall>i\<in>set held. unat i < unat n) \<and>
    (length held < unat n \<longrightarrow> (\<exists>i s'. ia_Allocate s = Inr (i, s') \<and> i \<notin> set held \<and> unat i < unat n)) \<and>
    (length held = unat n \<longrightarrow> ia_Allocate s = Inl Out_Of_Bounds) \<and>
    (\<forall>i\<in>set held. \<exists>s' s''. ia_Free i s = Inr s' \<and> ia_Allocate s' = Inr (i, s''))"
proof -
  have "n < cMaxSize" using assms(1) by (simp add: ia_Initialize_def bind_vp_assert split: if_splits)
  from ia_Initialize_spec [OF assms(2-5) this, of a] assms(1)
  have r: "ia_rep a0 (all_handles (unat n))" "set (all_handles (unat n)) = ia_slots a0" "card (ia_slots a0) = unat n"
    by auto
  have sl: "ia_slots a0 = {i. unat i < unat n}" using r(2) set_all_handles(1) [OF assms(4)] by simp
  note L = life r(1,2)
  have T: "\<exists>i s'. ia_Allocate s = Inr (i, s') \<and> i \<notin> set held \<and> unat i < unat n" if "length held < unat n"
    using ix.slot_life_take [OF L] that r(3) sl
    by (auto simp: ia_take_def split: sum.splits)
  obtain fs where fs: "ia_rep s fs" "distinct (held @ fs)" "set (held @ fs) = ia_slots a0"
    using ix.slot_life_rep [OF L] by blast
  have "length (held @ fs) = unat n" using fs(2,3) r(3) distinct_card by metis
  then have E: "ia_Allocate s = Inl Out_Of_Bounds" if "length held = unat n"
    using fs(1) that by (simp add: ia_Allocate_empty)
  have F: "\<exists>s' s''. ia_Free i s = Inr s' \<and> ia_Allocate s' = Inr (i, s'')" if "i \<in> set held" for i
    using ix.slot_life_give [OF L that] by (auto simp: ia_take_def ia_give_def split: sum.splits)
  show ?thesis using ix.slot_life_held [OF L] sl T E F by auto
qed

theorem index_allocator_handles_witness:
  "\<exists>s. slot_life ia_take ia_give (\<lparr>m_next_index = 0, m_max_count = 2, m_handle_array = Some [1, 0xff :: u8]\<rparr>) s [1, 0] \<and>
     ia_Allocate s = Inl Out_Of_Bounds \<and> (\<exists>s' s''. ia_Free 0 s = Inr s' \<and> ia_Allocate s' = Inr (0, s''))"
proof -
  let ?a = "\<lparr>m_next_index = 0, m_max_count = 2, m_handle_array = Some [1, 0xff :: u8]\<rparr>"
  let ?b = "?a\<lparr>m_next_index := 1\<rparr>" and ?c = "?a\<lparr>m_next_index := 0xff\<rparr>"
  have i: "ia_Initialize (Some [0, 0]) 2 IndexAllocator_construct = Inr ?a" by code_simp
  have t: "ia_take ?a = Some (0, ?b)" "ia_take ?b = Some (1, ?c)" by code_simp+
  have l: "slot_life ia_take ia_give ?a ?c [1, 0]"
    by (rule slot_life.taken [where s = ?b], rule slot_life.taken [where s = ?a], rule slot_life.start) (rule t)+
  from index_allocator_handles [OF i _ _ _ _ l] l show ?thesis by (intro exI [of _ ?c]) simp
qed

end
