(* ===== verification/Atomic_Index_Allocator.thy ===== *)
theory Atomic_Index_Allocator
  imports Index_Allocator
begin

text \<open>
  \<open>vp::util::AtomicIndexAllocator\<close> and \<open>FixedAtomicIndexAllocator\<close> (\<open>util_atomicindexallocator.hpp\<close>).
  The two classes have the fields of the allocators of \<open>util_indexallocator.hpp\<close> and run the same
  \<open>Allocate\<close> and \<open>Free\<close>; each access to \<open>m_next_index\<close> or to the array is one step of a thread, and the
  steps of any number of threads interleave.
\<close>

definition cAtomicMaxSize :: "'t::len word itself \<Rightarrow> u32" where
  "cAtomicMaxSize _ = ucast (cInvalidHandle :: 't word)"

definition atomic_Initialize :: "'t::len word list option \<Rightarrow> u32 \<Rightarrow> 't word index_allocator \<Rightarrow> 't word index_allocator result" where
  "atomic_Initialize memory max_index_count a =
     bind_result (vp_assert (max_index_count < cAtomicMaxSize TYPE('t word))) (\<lambda>_.
     bind_result (vp_assert (memory \<noteq> None)) (\<lambda>_.
     bind_result (bind_result (array_of memory) (ia_link max_index_count)) (\<lambda>xs.
       Inr (a\<lparr>m_next_index := 0, m_handle_array := Some xs, m_max_count := max_index_count\<rparr>))))"

definition atomic_Finalize :: "'t::len word index_allocator \<Rightarrow> 't word index_allocator" where
  "atomic_Finalize a = a\<lparr>m_next_index := ucast (cInvalidHandle :: 't word), m_max_count := 0, m_handle_array := None\<rparr>"

definition atomic_Clear :: "'t::len word index_allocator \<Rightarrow> 't word index_allocator result" where
  "atomic_Clear a =
     bind_result (bind_result (array_of (m_handle_array a)) (ia_link (m_max_count a))) (\<lambda>xs.
       Inr (a\<lparr>m_next_index := 0, m_handle_array := Some xs\<rparr>))"

definition fixed_atomic_construct :: "u32 \<Rightarrow> 't::len word fixed_index_allocator result" where
  "fixed_atomic_construct Count = fia_Clear \<lparr>m_fixed_next = 0, m_fixed_array = replicate (unat Count) 0\<rparr>"

text \<open>Where a thread is; \<open>Returned\<close> holds the result of \<open>Allocate\<close>, \<open>Freed\<close> is the end of \<open>Free\<close>.\<close>

datatype 'e atomic_pc =
    Allocate_Load
  | Allocate_Test u32
  | Allocate_Exchange u32 'e
  | Returned 'e
  | Free_Load 'e
  | Free_Link 'e u32
  | Free_Next 'e u32
  | Free_Exchange 'e u32 'e
  | Freed

text \<open>One step on the word \<open>m_next_index\<close> and the array.\<close>

fun atomic_step :: "'t::len word atomic_pc \<Rightarrow> u32 \<times> 't word list \<Rightarrow> ('t word atomic_pc \<times> u32 \<times> 't word list) result" where
  "atomic_step Allocate_Load (next_index, xs) = Inr (Allocate_Test next_index, next_index, xs)"
| "atomic_step (Allocate_Test handle_value) (next_index, xs) =
     (if handle_value = ucast (cInvalidHandle :: 't word) then Inr (Returned cInvalidHandle, next_index, xs)
      else bind_result (load xs (unat handle_value)) (\<lambda>v. Inr (Allocate_Exchange handle_value v, next_index, xs)))"
| "atomic_step (Allocate_Exchange handle_value v) (next_index, xs) =
     (let (exchanged, word) = compare_exchange (ucast v) handle_value next_index
      in Inr (if exchanged then Returned (ucast handle_value) else Allocate_Test next_index, word, xs))"
| "atomic_step (Free_Load index) (next_index, xs) = Inr (Free_Link index next_index, next_index, xs)"
| "atomic_step (Free_Link index handle) (next_index, xs) =
     bind_result (store xs (unat index) (ucast handle)) (\<lambda>xs. Inr (Free_Next index handle, next_index, xs))"
| "atomic_step (Free_Next index handle) (next_index, xs) =
     bind_result (load xs (unat handle)) (\<lambda>v. Inr (Free_Exchange index handle v, next_index, xs))"
| "atomic_step (Free_Exchange index handle v) (next_index, xs) =
     (let (exchanged, word) = compare_exchange (ucast v) handle next_index
      in Inr (if exchanged then Freed else Free_Load index, word, xs))"
| "atomic_step p s = Inr (p, s)"

text \<open>A thread that runs alone.\<close>

fun atomic_alone :: "nat \<Rightarrow> 't::len word atomic_pc \<Rightarrow> u32 \<times> 't word list \<Rightarrow> ('t word atomic_pc \<times> u32 \<times> 't word list) result" where
  "atomic_alone 0 p s = Inr (p, s)"
| "atomic_alone (Suc n) p s = bind_result (atomic_step p s) (\<lambda>(p, s). atomic_alone n p s)"

text \<open>
  Any number of threads that allocate, each as often as it likes; the list is the handles given out,
  the newest first.
\<close>

definition handed_out :: "'t::len word atomic_pc \<Rightarrow> 't word list" where
  "handed_out p = (case p of Returned i \<Rightarrow> (if i = cInvalidHandle then [] else [i]) | _ \<Rightarrow> [])"

definition at_rest :: "'e atomic_pc \<Rightarrow> bool" where
  "at_rest p = (case p of Returned _ \<Rightarrow> True | Freed \<Rightarrow> True | _ \<Rightarrow> False)"

inductive allocating ::
  "u32 \<times> 't::len word list \<Rightarrow> u32 \<times> 't word list \<Rightarrow> (nat \<Rightarrow> 't word atomic_pc) \<Rightarrow> 't word list \<Rightarrow> bool" for s0 where
  idle: "allocating s0 s0 (\<lambda>_. Freed) []"
| call: "allocating s0 s ps hs \<Longrightarrow> at_rest (ps t) \<Longrightarrow> allocating s0 s (ps(t := Allocate_Load)) hs"
| step: "allocating s0 s ps hs \<Longrightarrow> \<not> at_rest (ps t) \<Longrightarrow> atomic_step (ps t) s = Inr (p, s') \<Longrightarrow>
    allocating s0 s' (ps(t := p)) (handed_out p @ hs)"

section \<open>Concurrent allocation\<close>

text \<open>What a thread knows: the array never changes, and what it read of it is still there.\<close>

definition pc_ok :: "'t::len word list \<Rightarrow> 't word list \<Rightarrow> 't word atomic_pc \<Rightarrow> bool" where
  "pc_ok xs fs p \<longleftrightarrow> (case p of
       Allocate_Load \<Rightarrow> True
     | Allocate_Test h \<Rightarrow> (if h = ucast (cInvalidHandle :: 't word) then fs = [] else unat h < length xs)
     | Allocate_Exchange h v \<Rightarrow> h \<noteq> ucast (cInvalidHandle :: 't word) \<and> unat h < length xs \<and> v = xs ! unat h
     | Returned i \<Rightarrow> i = cInvalidHandle \<longrightarrow> fs = []
     | Freed \<Rightarrow> True
     | _ \<Rightarrow> False)"

definition allocating_inv :: "'t::len word list \<Rightarrow> 't word list \<Rightarrow> u32 \<times> 't word list \<Rightarrow> (nat \<Rightarrow> 't word atomic_pc) \<Rightarrow> 't word list \<Rightarrow> bool" where
  "allocating_inv xs all s ps hs \<longleftrightarrow>
     (\<exists>fs. snd s = xs \<and> free_chain (fst s) xs fs \<and> all = rev hs @ fs \<and> (\<forall>t. pc_ok xs fs (ps t)))"

lemma free_chain_cases:
  fixes xs :: "'t::len word list"
  assumes "free_chain next xs fs"
  obtains (empty) "fs = []" "next = ucast (cInvalidHandle :: 't word)"
    | (first) i gs where "fs = i # gs" "next = ucast i" "unat next < length xs"
        "next \<noteq> ucast (cInvalidHandle :: 't word)" "i \<noteq> cInvalidHandle" "ucast next = i"
        "free_chain (ucast (xs ! unat next)) xs gs"
proof (cases fs)
  case Nil
  then show ?thesis using assms by (intro empty) (simp_all add: free_chain_def)
next
  case (Cons i gs)
  have L: "LENGTH('t) \<le> 32" "length xs < 2 ^ LENGTH('t)" using assms by (simp_all add: free_chain_def)
  note F = free_chain_first [OF assms [unfolded Cons]]
  have "next \<noteq> ucast (cInvalidHandle :: 't word)" using F(3) L by (auto simp: unat_invalid)
  then show ?thesis using first [OF Cons F(1,3) _ _ F(2,4)] F(1) by auto
qed

lemma pc_ok_tail: "pc_ok xs fs p \<Longrightarrow> fs = gs \<or> (\<exists>i. fs = i # gs) \<Longrightarrow> pc_ok xs gs p"
  by (auto simp: pc_ok_def split: atomic_pc.splits if_splits)

lemma atomic_step_ok:
  assumes "free_chain (fst s) (snd s) fs" and "pc_ok (snd s) fs p" and "\<not> at_rest p"
  shows "\<exists>p' n' fs'. atomic_step p s = Inr (p', n', snd s) \<and> free_chain n' (snd s) fs' \<and> pc_ok (snd s) fs' p' \<and>
    fs = handed_out p' @ fs' \<and> (fs = fs' \<or> (\<exists>i. fs = i # fs'))"
proof -
  obtain n xs where s: "s = (n, xs)" by force
  from assms(1) s have fc: "free_chain n xs fs" by simp
  show ?thesis
  proof (cases p)
    case Allocate_Load
    show ?thesis using fc
      by (cases rule: free_chain_cases) (use fc s Allocate_Load in \<open>auto simp: pc_ok_def handed_out_def\<close>)
  next
    case (Allocate_Test h)
    then show ?thesis using fc s assms(2) by (auto simp: pc_ok_def handed_out_def)
  next
    case (Allocate_Exchange h v)
    show ?thesis using fc
      by (cases rule: free_chain_cases)
        (use fc s Allocate_Exchange assms(2) in \<open>auto simp: pc_ok_def handed_out_def compare_exchange_def\<close>)
  qed (use assms(2,3) s in \<open>auto simp: pc_ok_def at_rest_def\<close>)
qed

lemma allocating_reach:
  assumes "allocating (n, xs) s ps hs" and "free_chain n xs all"
  shows "allocating_inv xs all s ps hs"
  using assms
proof (induction rule: allocating.induct)
  case idle
  then show ?case by (simp add: allocating_inv_def pc_ok_def)
next
  case (call s ps hs t)
  then obtain fs where "snd s = xs" "free_chain (fst s) xs fs" "all = rev hs @ fs" "\<forall>t. pc_ok xs fs (ps t)"
    by (auto simp: allocating_inv_def)
  moreover have "pc_ok xs fs Allocate_Load" by (simp add: pc_ok_def)
  ultimately show ?case by (auto simp: allocating_inv_def)
next
  case (step s ps hs t p s')
  then obtain fs where *: "snd s = xs" "free_chain (fst s) xs fs" "all = rev hs @ fs" "\<forall>t. pc_ok xs fs (ps t)"
    by (auto simp: allocating_inv_def)
  from atomic_step_ok [of s fs "ps t"] * step.hyps(2,3)
  obtain fs' where **: "snd s' = xs" "free_chain (fst s') xs fs'" "pc_ok xs fs' p" "fs = handed_out p @ fs'"
    "fs = fs' \<or> (\<exists>i. fs = i # fs')" by auto
  have "rev (handed_out p) = handed_out p" by (simp add: handed_out_def split: atomic_pc.split)
  moreover have "\<forall>t'. pc_ok xs fs' ((ps(t := p)) t')" using *(4) **(3) pc_ok_tail [OF _ **(5)] by simp
  ultimately show ?case using * ** by (auto simp: allocating_inv_def)
qed

section \<open>Properties\<close>

text \<open>
  C32: however the steps of any number of allocating threads interleave, no step faults, no handle is
  given out twice, the handles are given out in the order of the free list, and a thread is refused
  only when every handle has been given out.
\<close>

theorem atomic_allocate_distinct:
  assumes "allocating (n, xs) s ps hs" and "free_chain n xs all"
  shows "(\<forall>t e. atomic_step (ps t) s \<noteq> Inl e) \<and> distinct hs \<and> (\<exists>rest. all = rev hs @ rest) \<and>
    (\<forall>t. ps t = Returned cInvalidHandle \<longrightarrow> rev hs = all)"
proof -
  obtain fs where *: "snd s = xs" "free_chain (fst s) xs fs" "all = rev hs @ fs" "\<forall>t. pc_ok xs fs (ps t)"
    using allocating_reach [OF assms] by (auto simp: allocating_inv_def)
  have "atomic_step (ps t) s \<noteq> Inl e" for t e
  proof (cases "at_rest (ps t)")
    case True
    then show ?thesis by (cases s) (auto simp: at_rest_def split: atomic_pc.splits)
  next
    case False
    then show ?thesis using atomic_step_ok [of s fs "ps t"] * by auto
  qed
  moreover have "distinct hs" using assms(2) *(3) by (auto simp: free_chain_def)
  moreover have "rev hs = all" if "ps t = Returned cInvalidHandle" for t
    using that *(3) spec [OF *(4), of t] by (simp add: pc_ok_def)
  ultimately show ?thesis using *(3) by blast
qed

theorem atomic_allocate_distinct_witness:
  "\<exists>s ps. allocating (0, [1, 0xff :: u8]) s ps [0] \<and> ps 1 = Allocate_Exchange 0 1 \<and> distinct [0 :: u8]"
proof -
  let ?s = "(0, [1, 0xff]) :: u32 \<times> u8 list"
  let ?p1 = "(\<lambda>_. Freed)(0 := Allocate_Load)" let ?p2 = "?p1(1 := Allocate_Load)"
  let ?p3 = "?p2(0 := Allocate_Test 0)" let ?p4 = "?p3(1 := Allocate_Test 0)"
  let ?p5 = "?p4(0 := Allocate_Exchange 0 1)" let ?p6 = "?p5(1 := Allocate_Exchange 0 1)"
  have r: "allocating ?s ?s ?p1 []" by (rule allocating.call [OF allocating.idle]) (simp add: at_rest_def)
  have r: "allocating ?s ?s ?p2 []" by (rule allocating.call [OF r]) (simp add: at_rest_def)
  have e: "atomic_step Allocate_Load ?s = Inr (Allocate_Test 0, ?s)"
    "atomic_step (Allocate_Test 0) ?s = Inr (Allocate_Exchange 0 1, ?s)"
    "atomic_step (Allocate_Exchange 0 1) ?s = Inr (Returned 0, 1, [1, 0xff])" by code_simp+
  have q: "handed_out (Allocate_Test 0 :: u8 atomic_pc) = []" "handed_out (Allocate_Exchange 0 1 :: u8 atomic_pc) = []"
    "handed_out (Returned 0 :: u8 atomic_pc) = [0]" by code_simp+
  have r: "allocating ?s ?s ?p3 []" using allocating.step [OF r, of 0] e q by (force simp: at_rest_def)
  have r: "allocating ?s ?s ?p4 []" using allocating.step [OF r, of 1] e q by (force simp: at_rest_def)
  have r: "allocating ?s ?s ?p5 []" using allocating.step [OF r, of 0] e q by (force simp: at_rest_def)
  have r: "allocating ?s ?s ?p6 []" using allocating.step [OF r, of 1] e q by (force simp: at_rest_def)
  have r: "allocating ?s (1, [1, 0xff]) (?p6(0 := Returned 0)) [0]"
    using allocating.step [OF r, of 0] e q by (force simp: at_rest_def)
  have "free_chain 0 [1, 0xff :: u8] [0, 1]" by code_simp
  from atomic_allocate_distinct [OF r this] r show ?thesis
    by (intro exI [of _ "(1, [1, 0xff])"] exI [of _ "?p6(0 := Returned 0)"]) simp
qed

text \<open>
  C37: \<open>Free\<close> does not give a handle back.  Run alone on a list with a free handle it takes that handle
  off the list, like \<open>Allocate\<close>, and links the freed one to nothing, so both are lost; on an empty list
  it reads outside the array.
\<close>

theorem atomic_free_loses:
  assumes "free_chain n xs fs" and "i \<in> slots_of xs" and "i \<notin> set fs"
  shows "(case fs of [] \<Rightarrow> atomic_alone 4 (Free_Load i) (n, xs) = Inl Out_Of_Bounds
     | j # gs \<Rightarrow> \<exists>n' xs'. atomic_alone 4 (Free_Load i) (n, xs) = Inr (Freed, n', xs') \<and> free_chain n' xs' gs)"
  (is "?goal")
proof -
  have i: "unat i < length xs" using assms(2) by (simp add: slots_of_def)
  have four: "atomic_alone 4 p s = atomic_alone (Suc (Suc (Suc (Suc 0)))) p s" for p :: "'a word atomic_pc" and s
    by (simp add: numeral_eq_Suc)
  show ?goal
  proof (cases fs)
    case Nil
    then have "\<not> unat n < length xs" using assms(1) free_chain_empty by blast
    then show ?thesis using Nil i by (simp add: four load_def)
  next
    case (Cons j gs)
    note F = free_chain_first [OF assms(1) [unfolded Cons]]
    have "unat n = unat j" using F(1) assms(1) by (simp add: free_chain_def unat_ucast_up)
    then have ij: "unat i \<noteq> unat n" using assms(3) Cons by (auto simp: word_eq_unat_iff)
    have "free_chain (ucast (xs ! unat n)) (xs[unat i := ucast n]) gs"
      using F(4) assms(3) Cons by (simp add: free_chain_def chain_update)
    then show ?thesis using Cons i F(3) ij by (simp add: four compare_exchange_def)
  qed
qed

theorem atomic_free_loses_witness:
  "atomic_alone 4 (Free_Load 0) (2, [1, 2, 0xff :: u8]) = Inr (Freed, 0xff, [2, 2, 0xff]) \<and>
   atomic_alone 4 (Free_Load 0) (0xff, [1, 2, 0xff :: u8]) = Inl Out_Of_Bounds"
proof -
  have e: "atomic_alone 4 (Free_Load 0) (2, [1, 2, 0xff :: u8]) = Inr (Freed, 0xff, [2, 2, 0xff])" by code_simp
  have "free_chain 0xff [1, 2, 0xff :: u8] []" by code_simp
  moreover have "0 \<in> slots_of [1, 2, 0xff :: u8]" by (simp add: slots_of_def)
  ultimately show ?thesis using atomic_free_loses [where n = "0xff" and xs = "[1, 2, 0xff :: u8]" and fs = "[]" and i = 0] e by simp
qed

end
