(* ===== verification/Bit_Util.thy ===== *)
theory Bit_Util
  imports Awn_Prelude
begin

text \<open>
  The bit level helpers of \<open>lib_vp/include/vp/util\<close>: \<open>AlignUp\<close> and \<open>AlignDown\<close>
  (\<open>util_alignment.hpp\<close>), \<open>SwapEndian\<close> (\<open>util_endian.hpp\<close>) and the bit counters
  (\<open>util_countbits.hpp\<close>), on words of the width the code uses.  The lemmas give the value of
  an aligned address as a natural number, which is what the heaps need.
\<close>

section \<open>Alignment\<close>

definition AlignUp :: "u64 \<Rightarrow> u64 \<Rightarrow> u64" where
  "AlignUp value align = (let alignment = align - 1 in (value + alignment) AND NOT alignment)"

definition AlignDown :: "u64 \<Rightarrow> u64 \<Rightarrow> u64" where
  "AlignDown value align = (let alignment = align - 1 in value AND NOT alignment)"

lemma and_not_eq_minus: "x AND NOT m = x - (x AND m)" for x m :: "'a::len word"
proof -
  have "x - (x AND m) = x AND NOT (x AND m)"
    by (rule disjunctive_diff) (simp add: bit_simps)
  also have "\<dots> = x AND NOT m"
    by (rule bit_word_eqI) (auto simp: bit_simps)
  finally show ?thesis by simp
qed

lemma unat_and_le: "unat (x AND m) \<le> unat m" "unat (x AND m) \<le> unat x" for x m :: "'a::len word"
  by (simp_all add: word_and_le1 word_and_le2 flip: word_le_nat_alt)

lemma unat_and_not: "unat (x AND NOT m) = unat x - unat (x AND m)" for x m :: "'a::len word"
  by (simp add: and_not_eq_minus unat_sub_nowrap unat_and_le)

lemma AlignUp_bounds:
  assumes "unat v + unat (a - 1) < 2 ^ 64"
  shows "unat v \<le> unat (AlignUp v a)" "unat (AlignUp v a) \<le> unat v + unat (a - 1)"
proof -
  have "unat (v + (a - 1)) = unat v + unat (a - 1)"
    using assms by (simp add: unat_add_nowrap)
  moreover have "unat ((v + (a - 1)) AND (a - 1)) \<le> unat (a - 1)"
    by (rule unat_and_le)
  ultimately show "unat v \<le> unat (AlignUp v a)" "unat (AlignUp v a) \<le> unat v + unat (a - 1)"
    by (simp_all add: AlignUp_def Let_def unat_and_not)
qed

lemma unat_and_not_mask:
  "unat (x AND NOT (2 ^ k - 1)) = unat x div 2 ^ k * 2 ^ k" for x :: "'a::len word"
proof -
  have "x AND (2 ^ k - 1) = take_bit k x"
    by (simp add: take_bit_eq_mask mask_eq_exp_minus_1)
  then show ?thesis
    by (simp only: unat_and_not unsigned_take_bit_eq) (simp only: take_bit_eq_mod minus_mod_eq_div_mult)
qed

lemma unat_exp_minus_1: "k < 64 \<Longrightarrow> unat (2 ^ k - 1 :: u64) = 2 ^ k - 1"
  by (simp add: unat_sub_nowrap unat_pow2)

lemma AlignDown_pow2: "unat (AlignDown v (2 ^ k)) = unat v div 2 ^ k * 2 ^ k"
  by (simp add: AlignDown_def unat_and_not_mask)

lemma AlignUp_pow2:
  assumes "k < 64" and "unat v + (2 ^ k - 1) < 2 ^ 64"
  shows "unat (AlignUp v (2 ^ k)) = (unat v + (2 ^ k - 1)) div 2 ^ k * 2 ^ k"
proof -
  have "unat (v + (2 ^ k - 1)) = unat v + (2 ^ k - 1)"
    using assms by (simp add: unat_add_nowrap unat_exp_minus_1)
  then show ?thesis by (simp only: AlignUp_def Let_def unat_and_not_mask)
qed

lemma AlignUp_dvd:
  assumes "k < 64" and "unat v + (2 ^ k - 1) < 2 ^ 64"
  shows "2 ^ k dvd unat (AlignUp v (2 ^ k))"
  by (simp add: AlignUp_pow2 [OF assms])

lemma AlignUp_aligned:
  assumes "k < 64" and "unat v + (2 ^ k - 1) < 2 ^ 64" and "2 ^ k dvd unat v"
  shows "AlignUp v (2 ^ k) = v"
proof -
  obtain q where q: "unat v = q * 2 ^ k" using assms(3) by (auto elim: dvdE)
  have "(q * 2 ^ k + (2 ^ k - 1)) div 2 ^ k = q"
    using div_mult_self3 [of "2 ^ k" q "2 ^ k - 1"] by simp
  then show ?thesis using q by (simp add: word_eq_unat_iff AlignUp_pow2 [OF assms(1,2)])
qed

section \<open>Byte order\<close>

definition SwapEndian16 :: "u16 \<Rightarrow> u16" where
  "SwapEndian16 value =
     (let v = (ucast value :: u32);
          swap0 = drop_bit 8 (v AND 0xff00) OR push_bit 8 (v AND 0x00ff)
      in ucast swap0)"

definition SwapEndian32 :: "u32 \<Rightarrow> u32" where
  "SwapEndian32 value =
     (let swap0 = drop_bit 8 (value AND 0xff00ff00) OR push_bit 8 (value AND 0x00ff00ff);
          swap1 = drop_bit 16 swap0 OR push_bit 16 swap0
      in swap1)"

definition SwapEndian64 :: "u64 \<Rightarrow> u64" where
  "SwapEndian64 value =
     (let swap0 = drop_bit 8 (value AND 0xff00ff00ff00ff00) OR push_bit 8 (value AND 0x00ff00ff00ff00ff);
          swap1 = drop_bit 16 (swap0 AND 0xffff0000ffff0000) OR push_bit 16 (swap0 AND 0x0000ffff0000ffff);
          swap2 = drop_bit 32 swap1 OR push_bit 32 swap1
      in swap2)"

definition SwapEndian24 :: "u32 \<Rightarrow> u32" where
  "SwapEndian24 value =
     (let swap0 = drop_bit 16 (value AND 0xff0000) OR push_bit 16 (value AND 0x0000ff) OR (value AND 0x00ff00)
      in swap0)"

text \<open>The byte of index \<open>i\<close> of a word, from the low end.\<close>

definition byte_of :: "'a::len word \<Rightarrow> nat \<Rightarrow> u8" where
  "byte_of w i = ucast (drop_bit (8 * i) w)"

lemma bit_SwapEndian16:
  "bit (SwapEndian16 v) n \<longleftrightarrow> n < 16 \<and> bit v (8 * (1 - n div 8) + n mod 8)"
proof (cases "n < 16")
  case True
  have "\<forall>n<16. bit (SwapEndian16 v) n \<longleftrightarrow> bit v (8 * (1 - n div 8) + n mod 8)"
    by (simp add: all_less_numeral SwapEndian16_def Let_def bit_simps, simp add: numeral_2_eq_2)
  with True show ?thesis by simp
next
  case False
  then show ?thesis using bit_imp_le_length [of "SwapEndian16 v" n] by auto
qed

lemma bit_SwapEndian32:
  "bit (SwapEndian32 v) n \<longleftrightarrow> n < 32 \<and> bit v (8 * (3 - n div 8) + n mod 8)"
proof (cases "n < 32")
  case True
  have "\<forall>n<32. bit (SwapEndian32 v) n \<longleftrightarrow> bit v (8 * (3 - n div 8) + n mod 8)"
    by (simp add: all_less_numeral SwapEndian32_def Let_def bit_simps, simp add: numeral_2_eq_2)
  with True show ?thesis by simp
next
  case False
  then show ?thesis using bit_imp_le_length [of "SwapEndian32 v" n] by auto
qed

lemma bit_SwapEndian64:
  "bit (SwapEndian64 v) n \<longleftrightarrow> n < 64 \<and> bit v (8 * (7 - n div 8) + n mod 8)"
proof (cases "n < 64")
  case True
  have "\<forall>n<64. bit (SwapEndian64 v) n \<longleftrightarrow> bit v (8 * (7 - n div 8) + n mod 8)"
    by (simp add: all_less_numeral SwapEndian64_def Let_def bit_simps, simp add: numeral_2_eq_2)
  with True show ?thesis by simp
next
  case False
  then show ?thesis using bit_imp_le_length [of "SwapEndian64 v" n] by auto
qed

lemma byte_swap_index: "i \<le> k \<Longrightarrow> n < 8 \<Longrightarrow> 8 * (k - (8 * i + n) div 8) + (8 * i + n) mod 8 = 8 * (k - i) + n"
  for i k n :: nat
  by simp

lemma byte_of_SwapEndian16: "i < 2 \<Longrightarrow> byte_of (SwapEndian16 v) i = byte_of v (1 - i)"
  by (rule bit_word_eqI) (auto simp: byte_of_def bit_simps bit_SwapEndian16)

lemma byte_of_SwapEndian32: "i < 4 \<Longrightarrow> byte_of (SwapEndian32 v) i = byte_of v (3 - i)"
  by (rule bit_word_eqI) (auto simp: byte_of_def bit_simps bit_SwapEndian32)

lemma byte_of_SwapEndian64: "i < 8 \<Longrightarrow> byte_of (SwapEndian64 v) i = byte_of v (7 - i)"
  by (rule bit_word_eqI) (auto simp: byte_of_def bit_simps bit_SwapEndian64)

lemma swap_index_twice:
  fixes n k :: nat
  assumes "n < 8 * Suc k"
  defines "m \<equiv> 8 * (k - n div 8) + n mod 8"
  shows "m < 8 * Suc k" "8 * (k - m div 8) + m mod 8 = n"
proof -
  have d: "n div 8 \<le> k" using assms(1) by (metis less_mult_imp_div_less less_Suc_eq_le mult.commute)
  have m: "m div 8 = k - n div 8" "m mod 8 = n mod 8" by (simp_all add: m_def)
  have "n mod 8 < 8" by simp
  moreover have "8 * (k - n div 8) \<le> 8 * k" by simp
  ultimately show "m < 8 * Suc k" by (simp add: m_def)
  show "8 * (k - m div 8) + m mod 8 = n" using d by (simp add: m)
qed

lemma SwapEndian16_twice: "SwapEndian16 (SwapEndian16 v) = v"
  using swap_index_twice [of _ 1] by (intro bit_word_eqI) (simp add: bit_SwapEndian16)

lemma SwapEndian32_twice: "SwapEndian32 (SwapEndian32 v) = v"
  using swap_index_twice [of _ 3] by (intro bit_word_eqI) (simp add: bit_SwapEndian32)

lemma SwapEndian64_twice: "SwapEndian64 (SwapEndian64 v) = v"
  using swap_index_twice [of _ 7] by (intro bit_word_eqI) (simp add: bit_SwapEndian64)

lemma SwapEndian24_twice: "SwapEndian24 (SwapEndian24 v) = v AND 0xffffff"
proof (rule bit_word_eqI)
  fix n assume n: "n < LENGTH(32)"
  have "\<forall>n<32. bit (SwapEndian24 (SwapEndian24 v)) n \<longleftrightarrow> bit (v AND 0xffffff) n"
    by (simp add: all_less_numeral SwapEndian24_def Let_def bit_simps)
  with n show "bit (SwapEndian24 (SwapEndian24 v)) n \<longleftrightarrow> bit (v AND 0xffffff) n" by simp
qed

section \<open>Bit counters\<close>

text \<open>
  The standard library's counters of \<open>std::popcount\<close>, \<open>std::countr_zero\<close> and their kin, and the
  builtins \<open>__builtin_ctz\<close> and \<open>__builtin_clz\<close>, whose result is undefined at zero (\<open>None\<close>).
  Each counter of \<open>util_countbits.hpp\<close> takes the flag of \<open>std::is_constant_evaluated()\<close>.
\<close>

definition popcount :: "'a::len word \<Rightarrow> nat" where
  "popcount w = length (filter (bit w) [0..<LENGTH('a)])"

definition countr_zero :: "'a::len word \<Rightarrow> nat" where
  "countr_zero w = length (takeWhile (\<lambda>i. \<not> bit w i) [0..<LENGTH('a)])"

definition countr_one :: "'a::len word \<Rightarrow> nat" where
  "countr_one w = length (takeWhile (bit w) [0..<LENGTH('a)])"

definition countl_zero :: "'a::len word \<Rightarrow> nat" where
  "countl_zero w = length (takeWhile (\<lambda>i. \<not> bit w i) (rev [0..<LENGTH('a)]))"

definition countl_one :: "'a::len word \<Rightarrow> nat" where
  "countl_one w = length (takeWhile (bit w) (rev [0..<LENGTH('a)]))"

definition builtin_ctz :: "'a::len word \<Rightarrow> nat option" where
  "builtin_ctz w = (if w = 0 then None else Some (countr_zero w))"

definition builtin_clz :: "'a::len word \<Rightarrow> nat option" where
  "builtin_clz w = (if w = 0 then None else Some (countl_zero w))"

definition CountOneBits32 :: "bool \<Rightarrow> u32 \<Rightarrow> u32" where
  "CountOneBits32 constant_evaluated value = of_nat (popcount value)"

definition CountOneBits64 :: "bool \<Rightarrow> u64 \<Rightarrow> u32" where
  "CountOneBits64 constant_evaluated value = of_nat (popcount value)"

definition CountRightOneBits32 :: "bool \<Rightarrow> u32 \<Rightarrow> nat option" where
  "CountRightOneBits32 constant_evaluated value =
     (if constant_evaluated then Some (countr_one value) else builtin_ctz (NOT value))"

definition CountRightOneBits64 :: "bool \<Rightarrow> u64 \<Rightarrow> nat option" where
  "CountRightOneBits64 constant_evaluated value =
     (if constant_evaluated then Some (countr_one value) else builtin_ctz (NOT value))"

definition CountLeftOneBits32 :: "bool \<Rightarrow> u32 \<Rightarrow> nat option" where
  "CountLeftOneBits32 constant_evaluated value =
     (if constant_evaluated then Some (countl_one value) else builtin_clz (NOT value))"

definition CountLeftOneBits64 :: "bool \<Rightarrow> u64 \<Rightarrow> nat option" where
  "CountLeftOneBits64 constant_evaluated value =
     (if constant_evaluated then Some (countl_one value) else builtin_clz (NOT value))"

definition CountRightZeroBits32 :: "bool \<Rightarrow> u32 \<Rightarrow> nat option" where
  "CountRightZeroBits32 constant_evaluated value =
     (if constant_evaluated then Some (countr_zero value) else builtin_ctz value)"

definition CountRightZeroBits64 :: "bool \<Rightarrow> u64 \<Rightarrow> nat option" where
  "CountRightZeroBits64 constant_evaluated value =
     (if constant_evaluated then Some (countr_zero value) else builtin_ctz value)"

definition CountLeftZeroBits32 :: "bool \<Rightarrow> u32 \<Rightarrow> nat option" where
  "CountLeftZeroBits32 constant_evaluated value =
     (if constant_evaluated then Some (countl_zero value) else builtin_ctz value)"

definition CountLeftZeroBits64 :: "bool \<Rightarrow> u64 \<Rightarrow> nat option" where
  "CountLeftZeroBits64 constant_evaluated value =
     (if constant_evaluated then Some (countl_zero value) else builtin_ctz value)"

lemma takeWhile_cong_list: "(\<And>x. x \<in> set xs \<Longrightarrow> P x = Q x) \<Longrightarrow> takeWhile P xs = takeWhile Q xs"
  by (rule takeWhile_cong) simp_all

lemma countr_zero_not: "countr_zero (NOT w) = countr_one w"
  unfolding countr_zero_def countr_one_def
  by (rule arg_cong [where f = length], rule takeWhile_cong_list) (simp add: bit_not_iff)

lemma countl_zero_not: "countl_zero (NOT w) = countl_one w"
  unfolding countl_zero_def countl_one_def
  by (rule arg_cong [where f = length], rule takeWhile_cong_list) (simp add: bit_not_iff)

lemma not_eq_0_iff: "NOT w = 0 \<longleftrightarrow> w = NOT 0" for w :: "'a::len word"
  by (metis bit.double_compl)

lemmas count_bits_defs =
  CountOneBits32_def CountOneBits64_def CountRightOneBits32_def CountRightOneBits64_def
  CountLeftOneBits32_def CountLeftOneBits64_def CountRightZeroBits32_def CountRightZeroBits64_def
  CountLeftZeroBits32_def CountLeftZeroBits64_def builtin_ctz_def builtin_clz_def

lemma popcount_card: "popcount w = card {i. i < LENGTH('a) \<and> bit w i}" for w :: "'a::len word"
  unfolding popcount_def by (subst distinct_length_filter) (auto intro!: arg_cong [where f = card])

lemma popcount_pow2: "k < LENGTH('a) \<Longrightarrow> popcount (2 ^ k :: 'a::len word) = 1"
proof -
  assume "k < LENGTH('a)"
  then have "{i. i < LENGTH('a) \<and> bit (2 ^ k :: 'a word) i} = {k}"
    by (auto simp: bit_simps)
  then show ?thesis by (simp add: popcount_card)
qed

section \<open>Properties\<close>

text \<open>
  \<open>SwapEndian\<close> reverses the bytes of a word of each width, and doing it twice gives the word back.
\<close>

theorem swap_endian_reverses:
  "(\<forall>i<2. byte_of (SwapEndian16 a) i = byte_of a (1 - i)) \<and> SwapEndian16 (SwapEndian16 a) = a \<and>
   (\<forall>i<4. byte_of (SwapEndian32 b) i = byte_of b (3 - i)) \<and> SwapEndian32 (SwapEndian32 b) = b \<and>
   (\<forall>i<8. byte_of (SwapEndian64 c) i = byte_of c (7 - i)) \<and> SwapEndian64 (SwapEndian64 c) = c"
  by (simp add: byte_of_SwapEndian16 byte_of_SwapEndian32 byte_of_SwapEndian64
      SwapEndian16_twice SwapEndian32_twice SwapEndian64_twice)

theorem swap_endian_reverses_witness:
  "byte_of (SwapEndian32 0x11223344) 0 = 0x11 \<and> SwapEndian64 (SwapEndian64 0x1122334455667788) = 0x1122334455667788"
proof -
  have "byte_of (0x11223344 :: u32) 3 = 0x11" by code_simp
  then show ?thesis
    using swap_endian_reverses [where a = 0 and b = "0x11223344" and c = "0x1122334455667788"]
    by (simp add: all_less_numeral)
qed

text \<open>
  the bit counters give the same number at compile time and at run time wherever the run time
  builtin is defined, except \<open>CountLeftZeroBits\<close>, whose run time branch counts from the other end:
  it agrees only when a word has as many zeros on the left as on the right.
\<close>

theorem count_bits_run_time:
  assumes "v \<noteq> 0" and "v \<noteq> NOT 0"
  shows "CountRightOneBits64 False v = CountRightOneBits64 True v \<and>
    CountLeftOneBits64 False v = CountLeftOneBits64 True v \<and>
    CountRightZeroBits64 False v = CountRightZeroBits64 True v \<and>
    (CountLeftZeroBits64 False v = CountLeftZeroBits64 True v \<longleftrightarrow> countr_zero v = countl_zero v)"
  using assms by (auto simp: count_bits_defs countr_zero_not countl_zero_not not_eq_0_iff)

theorem count_bits_run_time_witness:
  "CountRightOneBits64 False 7 = CountRightOneBits64 True 7 \<and> CountLeftZeroBits64 False 1 \<noteq> CountLeftZeroBits64 True 1"
proof -
  have "countr_zero (1 :: u64) \<noteq> countl_zero (1 :: u64)" by code_simp
  then show ?thesis using count_bits_run_time [of 7] count_bits_run_time [of 1] by simp
qed

end
