(* ===== verification/Intrusive_List.thy ===== *)
theory Intrusive_List
  imports Awn_Prelude
begin

text \<open>
  \<open>util_intrusivelist.hpp\<close>: the circular doubly linked list whose nodes live inside the linked
  objects.  A node is named by its address; \<open>m_prev\<close> and \<open>m_next\<close> of every node are a store
  \<open>links\<close>, and an \<open>IntrusiveList\<close> is the address of its sentinel \<open>m_list\<close>.  Every operation is
  written over the store, assignment by assignment, in the order of the code.  The predicate
  \<open>list_rep\<close> relates a sentinel to the list of addresses it holds, and the lemmas show that each
  operation is the obvious one on that list; the heaps use the operations on lists of addresses
  (\<open>insert_after\<close>, \<open>insert_before\<close>, \<open>remove1\<close>) that these lemmas justify.
\<close>

section \<open>Nodes\<close>

record 'p links =
  m_prev :: "'p \<Rightarrow> 'p"
  m_next :: "'p \<Rightarrow> 'p"

definition set_prev :: "'p \<Rightarrow> 'p \<Rightarrow> 'p links \<Rightarrow> 'p links" where
  "set_prev node p h = h\<lparr>m_prev := (m_prev h)(node := p)\<rparr>"

definition set_next :: "'p \<Rightarrow> 'p \<Rightarrow> 'p links \<Rightarrow> 'p links" where
  "set_next node p h = h\<lparr>m_next := (m_next h)(node := p)\<rparr>"

definition construct_node :: "'p \<Rightarrow> 'p links \<Rightarrow> 'p links" where
  "construct_node this h = set_next this this (set_prev this this h)"

definition node_IsLinked :: "'p links \<Rightarrow> 'p \<Rightarrow> bool" where
  "node_IsLinked h this \<longleftrightarrow> this \<noteq> m_next h this"

definition LinkNext :: "'p \<Rightarrow> 'p \<Rightarrow> 'p links \<Rightarrow> 'p links" where
  "LinkNext this new_node h =
     (let old_next = m_next h new_node;
          h = set_next new_node (m_next h this) h;
          h = set_prev old_next this h;
          h = set_prev (m_next h this) new_node h
      in set_next this old_next h)"

definition LinkPrev :: "'p \<Rightarrow> 'p \<Rightarrow> 'p links \<Rightarrow> 'p links" where
  "LinkPrev this new_node h =
     (let new_prev = m_prev h new_node;
          h = set_prev new_node (m_prev h this) h;
          h = set_next new_prev this h;
          h = set_next (m_prev h this) new_node h
      in set_prev this new_prev h)"

definition Unlink :: "'p \<Rightarrow> 'p links \<Rightarrow> 'p links" where
  "Unlink this h =
     (let h = set_next (m_prev h this) (m_next h this) h;
          h = set_prev (m_next h this) (m_prev h this) h;
          h = set_next this this h
      in set_prev this this h)"

section \<open>Lists\<close>

definition list_IsEmpty :: "'p links \<Rightarrow> 'p \<Rightarrow> bool" where
  "list_IsEmpty h s \<longleftrightarrow> \<not> node_IsLinked h s"

definition list_Front :: "'p links \<Rightarrow> 'p \<Rightarrow> 'p" where
  "list_Front h s = m_next h s"

definition list_Back :: "'p links \<Rightarrow> 'p \<Rightarrow> 'p" where
  "list_Back h s = m_prev h s"

definition list_GetNext :: "'p links \<Rightarrow> 'p \<Rightarrow> 'p" where
  "list_GetNext h obj = m_next h obj"

definition list_PushBack :: "'p \<Rightarrow> 'p \<Rightarrow> 'p links \<Rightarrow> 'p links" where
  "list_PushBack s obj h = LinkPrev s obj h"

definition list_PushFront :: "'p \<Rightarrow> 'p \<Rightarrow> 'p links \<Rightarrow> 'p links" where
  "list_PushFront s obj h = LinkNext s obj h"

definition list_PopFront :: "'p \<Rightarrow> 'p links \<Rightarrow> 'p \<times> 'p links" where
  "list_PopFront s h = (let front = m_next h s in (front, Unlink front h))"

definition list_PopBack :: "'p \<Rightarrow> 'p links \<Rightarrow> 'p \<times> 'p links" where
  "list_PopBack s h = (let back = m_prev h s in (back, Unlink back h))"

definition list_Remove :: "'p \<Rightarrow> 'p links \<Rightarrow> 'p links" where
  "list_Remove obj h = Unlink obj h"

text \<open>
  The loops walk from \<open>begin()\<close> to \<open>end()\<close>; on a store that is not a proper ring they may run
  forever, so they are partial functions and \<open>None\<close> is the loop that does not end.
\<close>

partial_function (option) list_Clear_from :: "'p \<Rightarrow> 'p \<Rightarrow> 'p links \<Rightarrow> 'p links option" where
  "list_Clear_from s iter h =
     (if iter = s then Some h
      else let i_node = iter; iter' = m_next h iter
           in list_Clear_from s iter' (Unlink i_node h))"

definition list_Clear :: "'p \<Rightarrow> 'p links \<Rightarrow> 'p links option" where
  "list_Clear s h = list_Clear_from s (m_next h s) h"

partial_function (option) list_GetCount_from :: "'p links \<Rightarrow> 'p \<Rightarrow> 'p \<Rightarrow> nat \<Rightarrow> nat option" where
  "list_GetCount_from h s iter n =
     (if iter = s then Some n
      else list_GetCount_from h s (m_next h iter) (Suc n))"

definition list_GetCount :: "'p links \<Rightarrow> 'p \<Rightarrow> nat option" where
  "list_GetCount h s = list_GetCount_from h s (m_next h s) 0"

lemmas link_defs = set_prev_def set_next_def construct_node_def LinkNext_def LinkPrev_def
  Unlink_def Let_def

section \<open>The list a sentinel stands for\<close>

text \<open>\<open>linked h a xs b\<close>: from node \<open>a\<close> the chain of links runs through \<open>xs\<close> to \<open>b\<close>, both ways.\<close>

fun linked :: "'p links \<Rightarrow> 'p \<Rightarrow> 'p list \<Rightarrow> 'p \<Rightarrow> bool" where
  "linked h a [] b \<longleftrightarrow> m_next h a = b \<and> m_prev h b = a"
| "linked h a (x # xs) b \<longleftrightarrow> m_next h a = x \<and> m_prev h x = a \<and> linked h x xs b"

definition list_rep :: "'p links \<Rightarrow> 'p \<Rightarrow> 'p list \<Rightarrow> bool" where
  "list_rep h s xs \<longleftrightarrow> distinct (s # xs) \<and> linked h s xs s"

definition unlinked :: "'p links \<Rightarrow> 'p \<Rightarrow> bool" where
  "unlinked h p \<longleftrightarrow> m_next h p = p \<and> m_prev h p = p"

lemma linked_append:
  "linked h a (xs @ y # ys) b \<longleftrightarrow> linked h a xs y \<and> linked h y ys b"
  by (induction xs arbitrary: a) auto

lemma linked_first: "linked h a xs b \<Longrightarrow> m_next h a = (case xs of [] \<Rightarrow> b | x # _ \<Rightarrow> x)"
  by (cases xs) auto

lemma linked_last: "linked h a xs b \<Longrightarrow> m_prev h b = last (a # xs)"
  by (induction xs arbitrary: a) auto

lemma linked_frame:
  assumes "linked h a xs b"
    and "\<And>p. p \<in> set (a # xs) \<Longrightarrow> m_next h' p = m_next h p"
    and "\<And>p. p \<in> set (xs @ [b]) \<Longrightarrow> m_prev h' p = m_prev h p"
  shows "linked h' a xs b"
  using assms by (induction xs arbitrary: a) auto

text \<open>The list operations the clients use, on the list of addresses; \<open>None\<close> is the sentinel.\<close>

fun insert_after :: "'p option \<Rightarrow> 'p \<Rightarrow> 'p list \<Rightarrow> 'p list" where
  "insert_after None n xs = n # xs"
| "insert_after (Some p) n [] = [n]"
| "insert_after (Some p) n (x # xs) = (if x = p then x # n # xs else x # insert_after (Some p) n xs)"

fun insert_before :: "'p option \<Rightarrow> 'p \<Rightarrow> 'p list \<Rightarrow> 'p list" where
  "insert_before None n xs = xs @ [n]"
| "insert_before (Some p) n [] = [n]"
| "insert_before (Some p) n (x # xs) = (if x = p then n # x # xs else x # insert_before (Some p) n xs)"

lemma insert_after_split:
  "p \<notin> set as \<Longrightarrow> insert_after (Some p) n (as @ p # bs) = as @ p # n # bs"
  by (induction as) auto

lemma insert_before_split:
  "p \<notin> set as \<Longrightarrow> insert_before (Some p) n (as @ p # bs) = as @ n # p # bs"
  by (induction as) auto

lemma remove1_split: "p \<notin> set as \<Longrightarrow> remove1 p (as @ p # bs) = as @ bs"
  by (simp add: remove1_append)

section \<open>What each operation does to the list\<close>

lemma LinkNext_frame:
  assumes "unlinked h n"
  shows "p \<notin> {this, n} \<Longrightarrow> m_next (LinkNext this n h) p = m_next h p"
    and "p \<notin> {n, m_next h this} \<Longrightarrow> m_prev (LinkNext this n h) p = m_prev h p"
  using assms by (auto simp: link_defs unlinked_def)

lemma LinkPrev_frame:
  assumes "unlinked h n"
  shows "p \<notin> {n, m_prev h this} \<Longrightarrow> m_next (LinkPrev this n h) p = m_next h p"
    and "p \<notin> {this, n} \<Longrightarrow> m_prev (LinkPrev this n h) p = m_prev h p"
  using assms by (auto simp: link_defs unlinked_def)

lemma Unlink_frame:
  shows "p \<notin> {this, m_prev h this} \<Longrightarrow> m_next (Unlink this h) p = m_next h p"
    and "p \<notin> {this, m_next h this} \<Longrightarrow> m_prev (Unlink this h) p = m_prev h p"
  by (auto simp: link_defs)

lemma LinkNext_linked:
  assumes lk: "linked h a xs b" and un: "unlinked h n" and n: "n \<notin> set (a # b # xs)"
    and d: "distinct xs" "a \<notin> set xs" "b \<notin> set xs"
  shows "linked (LinkNext a n h) a (n # xs) b"
proof (cases xs)
  case Nil
  with lk have "m_next h a = b" by simp
  with un n Nil show ?thesis by (auto simp: link_defs unlinked_def)
next
  case (Cons x xs')
  have nx: "m_next h a = x" and lk': "linked h x xs' b" using lk Cons by simp_all
  have "linked (LinkNext a n h) x xs' b"
  proof (rule linked_frame [OF lk'])
    fix p assume "p \<in> set (x # xs')"
    then have "p \<notin> {a, n}" using n d Cons by auto
    then show "m_next (LinkNext a n h) p = m_next h p" by (rule LinkNext_frame [OF un])
  next
    fix p assume "p \<in> set (xs' @ [b])"
    then have "p \<notin> {n, m_next h a}" using n d Cons nx by auto
    then show "m_prev (LinkNext a n h) p = m_prev h p" by (rule LinkNext_frame [OF un])
  qed
  moreover have "m_next (LinkNext a n h) a = n" "m_prev (LinkNext a n h) n = a"
    "m_next (LinkNext a n h) n = x" "m_prev (LinkNext a n h) x = n"
    using un n d Cons nx by (simp_all add: link_defs unlinked_def)
  ultimately show ?thesis using Cons by simp
qed

lemma LinkPrev_linked:
  assumes lk: "linked h a xs b" and un: "unlinked h n" and n: "n \<notin> set (a # b # xs)"
    and d: "distinct xs" "a \<notin> set xs" "b \<notin> set xs"
  shows "linked (LinkPrev b n h) a (xs @ [n]) b"
proof (cases xs rule: rev_cases)
  case Nil
  with lk have "m_prev h b = a" by simp
  with un n Nil show ?thesis by (simp add: link_defs unlinked_def)
next
  case (snoc xs' x)
  have lk': "linked h a xs' x" and pv: "m_prev h b = x"
    using lk snoc by (simp_all add: linked_append)
  have "linked (LinkPrev b n h) a xs' x"
  proof (rule linked_frame [OF lk'])
    fix p assume "p \<in> set (a # xs')"
    then have "p \<notin> {n, m_prev h b}" using n d snoc pv by auto
    then show "m_next (LinkPrev b n h) p = m_next h p" by (rule LinkPrev_frame [OF un])
  next
    fix p assume "p \<in> set (xs' @ [x])"
    then have "p \<notin> {b, n}" using n d snoc by auto
    then show "m_prev (LinkPrev b n h) p = m_prev h p" by (rule LinkPrev_frame [OF un])
  qed
  moreover have "m_next (LinkPrev b n h) x = n" "m_prev (LinkPrev b n h) n = x"
    "m_next (LinkPrev b n h) n = b" "m_prev (LinkPrev b n h) b = n"
    using un n d snoc pv by (simp_all add: link_defs unlinked_def)
  ultimately show ?thesis using snoc by (simp add: linked_append)
qed

lemma Unlink_linked:
  assumes lk1: "linked h a [] p" and lk: "linked h p xs b" and p: "p \<notin> set (a # b # xs)"
    and d: "distinct xs" "a \<notin> set xs" "b \<notin> set xs"
  shows "linked (Unlink p h) a xs b"
proof (cases xs)
  case Nil
  with lk lk1 have "m_next h p = b" "m_prev h p = a" by simp_all
  with p Nil show ?thesis by (auto simp: link_defs)
next
  case (Cons x xs')
  have nx: "m_next h p = x" "m_prev h p = a" and lk': "linked h x xs' b"
    using lk lk1 Cons by simp_all
  have "linked (Unlink p h) x xs' b"
  proof (rule linked_frame [OF lk'])
    fix q assume "q \<in> set (x # xs')"
    then have "q \<notin> {p, m_prev h p}" using p d Cons nx by auto
    then show "m_next (Unlink p h) q = m_next h q" by (rule Unlink_frame)
  next
    fix q assume "q \<in> set (xs' @ [b])"
    then have "q \<notin> {p, m_next h p}" using p d Cons nx by auto
    then show "m_prev (Unlink p h) q = m_prev h q" by (rule Unlink_frame)
  qed
  moreover have "m_next (Unlink p h) a = x" "m_prev (Unlink p h) x = a"
    using p d Cons nx by (auto simp: link_defs)
  ultimately show ?thesis using Cons by simp
qed

text \<open>A position of the list: the sentinel or one of its nodes.\<close>

fun node_at :: "'p \<Rightarrow> 'p option \<Rightarrow> 'p" where
  "node_at s None = s"
| "node_at s (Some p) = p"

lemma split_at: "p \<in> set xs \<Longrightarrow> distinct xs \<Longrightarrow> \<exists>as bs. xs = as @ p # bs \<and> p \<notin> set as \<and> p \<notin> set bs"
  by (metis disjoint_insert(1) distinct.simps(2) distinct_append list.simps(15) split_list)

lemma LinkNext_rep:
  assumes rep: "list_rep h s xs" and un: "unlinked h n" and n: "n \<notin> set (s # xs)"
    and q: "set_option q \<subseteq> set xs"
  shows "list_rep (LinkNext (node_at s q) n h) s (insert_after q n xs)"
proof (cases q)
  case None
  then show ?thesis
    using LinkNext_linked [of h s xs s n] rep un n by (auto simp: list_rep_def)
next
  case (Some p)
  with q rep obtain as bs where xs: "xs = as @ p # bs" and pn: "p \<notin> set as" "p \<notin> set bs"
    using split_at [of p xs] by (auto simp: list_rep_def)
  have d: "distinct (s # as @ p # bs)" using rep xs by (simp add: list_rep_def)
  have l1: "linked h s as p" and l2: "linked h p bs s"
    using rep xs by (simp_all add: list_rep_def linked_append)
  have "linked (LinkNext p n h) s as p"
  proof (rule linked_frame [OF l1])
    fix r assume "r \<in> set (s # as)"
    then have "r \<notin> {p, n}" using d n xs by auto
    then show "m_next (LinkNext p n h) r = m_next h r" by (rule LinkNext_frame [OF un])
  next
    fix r assume "r \<in> set (as @ [p])"
    then have "r \<notin> {n, m_next h p}"
      using d n xs linked_first [OF l2] by (auto split: list.splits)
    then show "m_prev (LinkNext p n h) r = m_prev h r" by (rule LinkNext_frame [OF un])
  qed
  moreover have "linked (LinkNext p n h) p (n # bs) s"
    using l2 un n xs d by (intro LinkNext_linked) auto
  moreover have "distinct (s # as @ p # n # bs)" using d n xs by auto
  ultimately show ?thesis
    using Some xs pn by (simp add: list_rep_def insert_after_split linked_append)
qed

lemma LinkPrev_rep:
  assumes rep: "list_rep h s xs" and un: "unlinked h n" and n: "n \<notin> set (s # xs)"
    and q: "set_option q \<subseteq> set xs"
  shows "list_rep (LinkPrev (node_at s q) n h) s (insert_before q n xs)"
proof (cases q)
  case None
  then show ?thesis
    using LinkPrev_linked [of h s xs s n] rep un n by (auto simp: list_rep_def)
next
  case (Some p)
  with q rep obtain as bs where xs: "xs = as @ p # bs" and pn: "p \<notin> set as" "p \<notin> set bs"
    using split_at [of p xs] by (auto simp: list_rep_def)
  have d: "distinct (s # as @ p # bs)" using rep xs by (simp add: list_rep_def)
  have l1: "linked h s as p" and l2: "linked h p bs s"
    using rep xs by (simp_all add: list_rep_def linked_append)
  have "linked (LinkPrev p n h) p bs s"
  proof (rule linked_frame [OF l2])
    fix r assume "r \<in> set (p # bs)"
    then have "r \<notin> {n, m_prev h p}"
      using d n xs linked_last [OF l1] last_in_set [of "s # as"] by auto
    then show "m_next (LinkPrev p n h) r = m_next h r" by (rule LinkPrev_frame [OF un])
  next
    fix r assume "r \<in> set (bs @ [s])"
    then have "r \<notin> {p, n}" using d n xs by auto
    then show "m_prev (LinkPrev p n h) r = m_prev h r" by (rule LinkPrev_frame [OF un])
  qed
  moreover have "linked (LinkPrev p n h) s (as @ [n]) p"
    using l1 un n xs d by (intro LinkPrev_linked) auto
  moreover have "distinct (s # as @ n # p # bs)" using d n xs by auto
  ultimately show ?thesis
    using Some xs pn by (simp add: list_rep_def insert_before_split linked_append)
qed

lemma Unlink_rep:
  assumes rep: "list_rep h s xs" and p: "p \<in> set xs"
  shows "list_rep (Unlink p h) s (remove1 p xs)" "unlinked (Unlink p h) p"
proof -
  obtain as bs where xs: "xs = as @ p # bs" and pn: "p \<notin> set as" "p \<notin> set bs"
    using split_at [of p xs] rep p by (auto simp: list_rep_def)
  have d: "distinct (s # as @ p # bs)" using rep xs by (simp add: list_rep_def)
  have l1: "linked h s as p" and l2: "linked h p bs s"
    using rep xs by (simp_all add: list_rep_def linked_append)
  have "linked (Unlink p h) s (as @ bs) s"
  proof (cases as rule: rev_cases)
    case Nil
    then show ?thesis using Unlink_linked [of h s p bs s] l1 l2 d by auto
  next
    case (snoc as' a)
    have la: "linked h s as' a" and lp: "linked h a [] p"
      using l1 snoc by (simp_all add: linked_append)
    have "linked (Unlink p h) s as' a"
    proof (rule linked_frame [OF la])
      fix r assume "r \<in> set (s # as')"
      then have "r \<notin> {p, m_prev h p}" using d snoc lp by auto
      then show "m_next (Unlink p h) r = m_next h r" by (rule Unlink_frame)
    next
      fix r assume "r \<in> set (as' @ [a])"
      then have "r \<notin> {p, m_next h p}"
        using d snoc linked_first [OF l2] by (auto split: list.splits)
      then show "m_prev (Unlink p h) r = m_prev h r" by (rule Unlink_frame)
    qed
    moreover have "linked (Unlink p h) a bs s"
      using Unlink_linked [OF lp l2] d snoc by auto
    ultimately show ?thesis using snoc by (simp add: linked_append)
  qed
  then show "list_rep (Unlink p h) s (remove1 p xs)"
    using d xs pn by (simp add: list_rep_def remove1_split)
  show "unlinked (Unlink p h) p" by (simp add: link_defs unlinked_def)
qed

lemma unlinked_frame:
  assumes "unlinked h q" and "m_next h' q = m_next h q" and "m_prev h' q = m_prev h q"
  shows "unlinked h' q"
  using assms by (simp add: unlinked_def)

section \<open>The list interface\<close>

text \<open>
  What a client of \<open>IntrusiveList\<close> relies on: a relation between a store and the list it holds,
  the free nodes, and the operations on both ends and at a node.
\<close>

locale linked_list =
  fixes rep :: "'h \<Rightarrow> 'p list \<Rightarrow> bool"
    and free_node :: "'h \<Rightarrow> 'p \<Rightarrow> bool"
    and is_empty :: "'h \<Rightarrow> bool"
    and push_back push_front remove :: "'p \<Rightarrow> 'h \<Rightarrow> 'h"
    and pop_front :: "'h \<Rightarrow> 'p \<times> 'h"
  assumes rep_unique: "rep h xs \<Longrightarrow> rep h ys \<Longrightarrow> xs = ys"
    and rep_distinct: "rep h xs \<Longrightarrow> distinct xs"
    and rep_not_free: "rep h xs \<Longrightarrow> free_node h n \<Longrightarrow> n \<notin> set xs"
    and is_empty: "rep h xs \<Longrightarrow> is_empty h \<longleftrightarrow> xs = []"
    and push_back: "rep h xs \<Longrightarrow> free_node h n \<Longrightarrow> rep (push_back n h) (xs @ [n])"
    and push_front: "rep h xs \<Longrightarrow> free_node h n \<Longrightarrow> rep (push_front n h) (n # xs)"
    and remove: "rep h xs \<Longrightarrow> p \<in> set xs \<Longrightarrow> rep (remove p h) (remove1 p xs)"
    and remove_free: "rep h xs \<Longrightarrow> p \<in> set xs \<Longrightarrow> free_node (remove p h) p"
    and pop_front: "rep h (x # xs) \<Longrightarrow> pop_front h = (x, remove x h)"
begin

lemma pop_front_rep: "rep h (x # xs) \<Longrightarrow> rep (snd (pop_front h)) xs"
  using pop_front [of h x xs] remove [of h "x # xs" x] by simp

lemma push_back_pop_front:
  assumes "rep h xs" and "free_node h n"
  shows "fst (pop_front (push_back n h)) = hd (xs @ [n])"
    and "rep (snd (pop_front (push_back n h))) (tl (xs @ [n]))"
proof -
  obtain y ys where ys: "xs @ [n] = y # ys" by (cases xs) auto
  with push_back [OF assms] have "rep (push_back n h) (y # ys)" by simp
  from pop_front [OF this] pop_front_rep [OF this] ys
  show "fst (pop_front (push_back n h)) = hd (xs @ [n])"
    and "rep (snd (pop_front (push_back n h))) (tl (xs @ [n]))" by simp_all
qed

lemma push_back_remove:
  assumes "rep h xs" and "free_node h n"
  shows "rep (remove n (push_back n h)) xs" "free_node (remove n (push_back n h)) n"
  using push_back [OF assms] remove [of "push_back n h" "xs @ [n]" n]
    remove_free [of "push_back n h" "xs @ [n]" n] rep_not_free [OF assms]
  by (simp_all add: remove1_append)

end

definition free_node_of :: "'p \<Rightarrow> 'p links \<Rightarrow> 'p \<Rightarrow> bool" where
  "free_node_of s h n \<longleftrightarrow> n \<noteq> s \<and> unlinked h n"

lemma linked_unique: "linked h a xs b \<Longrightarrow> linked h a ys b \<Longrightarrow> b \<notin> set xs \<Longrightarrow> b \<notin> set ys \<Longrightarrow> xs = ys"
proof (induction xs arbitrary: a ys)
  case Nil
  then show ?case by (cases ys) auto
next
  case (Cons x xs)
  then show ?case by (cases ys) auto
qed

lemma list_rep_not_unlinked: "list_rep h s xs \<Longrightarrow> p \<in> set xs \<Longrightarrow> \<not> unlinked h p"
proof
  assume rep: "list_rep h s xs" and p: "p \<in> set xs" and un: "unlinked h p"
  obtain as bs where xs: "xs = as @ p # bs" and pn: "p \<notin> set bs"
    using split_at [of p xs] rep p by (auto simp: list_rep_def)
  have "linked h p bs s" and "p \<noteq> s"
    using rep xs by (auto simp: list_rep_def linked_append)
  then show False using un pn linked_first [of h p bs s]
    by (auto simp: unlinked_def split: list.splits)
qed

lemma list_IsEmpty_rep: "list_rep h s xs \<Longrightarrow> list_IsEmpty h s \<longleftrightarrow> xs = []"
  using linked_first [of h s xs s]
  by (auto simp: list_IsEmpty_def node_IsLinked_def list_rep_def split: list.splits)

lemma list_PopFront_rep: "list_rep h s (x # xs) \<Longrightarrow> list_PopFront s h = (x, Unlink x h)"
  by (simp add: list_PopFront_def list_rep_def)

lemma list_Front_rep: "list_rep h s (x # xs) \<Longrightarrow> list_Front h s = x"
  by (simp add: list_Front_def list_rep_def)

lemma list_Back_rep: "list_rep h s xs \<Longrightarrow> xs \<noteq> [] \<Longrightarrow> list_Back h s = last xs"
  using linked_last [of h s xs s] by (simp add: list_Back_def list_rep_def)

lemma list_PopBack_rep: "list_rep h s xs \<Longrightarrow> xs \<noteq> [] \<Longrightarrow> list_PopBack s h = (last xs, Unlink (last xs) h)"
  using list_Back_rep [of h s xs] by (simp add: list_PopBack_def list_Back_def Let_def)

interpretation il: linked_list
  "\<lambda>h. list_rep h s" "free_node_of s" "\<lambda>h. list_IsEmpty h s"
  "list_PushBack s" "list_PushFront s" list_Remove "list_PopFront s" for s :: 'p
proof unfold_locales
  fix h :: "'p links" and xs ys n p x
  show "list_rep h s xs \<Longrightarrow> list_rep h s ys \<Longrightarrow> xs = ys"
    by (auto simp: list_rep_def intro: linked_unique)
  show "list_rep h s xs \<Longrightarrow> distinct xs" by (simp add: list_rep_def)
  show nf: "list_rep h s xs \<Longrightarrow> free_node_of s h n \<Longrightarrow> n \<notin> set xs" for n
    by (auto simp: free_node_of_def dest: list_rep_not_unlinked)
  show "list_rep h s xs \<Longrightarrow> list_IsEmpty h s \<longleftrightarrow> xs = []" by (rule list_IsEmpty_rep)
  show "list_rep h s xs \<Longrightarrow> free_node_of s h n \<Longrightarrow> list_rep (list_PushBack s n h) s (xs @ [n])"
    using LinkPrev_rep [of h s xs n None] nf [of n]
    by (auto simp: list_PushBack_def free_node_of_def)
  show "list_rep h s xs \<Longrightarrow> free_node_of s h n \<Longrightarrow> list_rep (list_PushFront s n h) s (n # xs)"
    using LinkNext_rep [of h s xs n None] nf [of n]
    by (auto simp: list_PushFront_def free_node_of_def)
  show "list_rep h s xs \<Longrightarrow> p \<in> set xs \<Longrightarrow> list_rep (list_Remove p h) s (remove1 p xs)"
    by (simp add: list_Remove_def Unlink_rep)
  show "list_rep h s xs \<Longrightarrow> p \<in> set xs \<Longrightarrow> free_node_of s (list_Remove p h) p"
    by (auto simp: list_Remove_def free_node_of_def list_rep_def intro: Unlink_rep [unfolded list_rep_def])
  show "list_rep h s (x # xs) \<Longrightarrow> list_PopFront s h = (x, list_Remove x h)"
    by (simp add: list_PopFront_rep list_Remove_def)
qed

section \<open>The loops end\<close>

lemma list_Clear_from_rep:
  "list_rep h s xs \<Longrightarrow>
   \<exists>h'. list_Clear_from s (m_next h s) h = Some h' \<and> list_rep h' s [] \<and>
     (\<forall>p. p \<in> set xs \<or> unlinked h p \<and> p \<noteq> s \<longrightarrow> unlinked h' p)"
proof (induction xs arbitrary: h)
  case Nil
  then show ?case by (auto simp: list_rep_def list_Clear_from.simps)
next
  case (Cons x xs)
  have nx: "m_next h s = x" "x \<noteq> s" using Cons.prems by (auto simp: list_rep_def)
  have rep': "list_rep (Unlink x h) s xs" and ux: "unlinked (Unlink x h) x"
    using Unlink_rep [OF Cons.prems, of x] by simp_all
  have ux': "unlinked (Unlink x h) p" if "unlinked h p" "p \<noteq> s" for p
  proof -
    have "p \<notin> set (x # xs)" using that(1) list_rep_not_unlinked [OF Cons.prems] by auto
    moreover have "m_prev h x = s" "m_next h x \<in> set (xs @ [s])"
      using Cons.prems linked_first [of h x xs s] by (auto simp: list_rep_def split: list.splits)
    ultimately have p: "p \<notin> {x, m_prev h x}" "p \<notin> {x, m_next h x}" using that(2) by auto
    show ?thesis by (rule unlinked_frame [OF that(1) Unlink_frame(1) [OF p(1)] Unlink_frame(2) [OF p(2)]])
  qed
  have step: "m_next (Unlink x h) s = m_next h x"
    using Cons.prems by (auto simp: list_rep_def link_defs)
  obtain h' where
    h': "list_Clear_from s (m_next (Unlink x h) s) (Unlink x h) = Some h'" "list_rep h' s []"
    "\<forall>p. p \<in> set xs \<or> unlinked (Unlink x h) p \<and> p \<noteq> s \<longrightarrow> unlinked h' p"
    using Cons.IH [OF rep'] by blast
  have "list_Clear_from s x h = list_Clear_from s (m_next h x) (Unlink x h)"
    using nx(2) by (subst list_Clear_from.simps) (simp add: Let_def)
  then have "list_Clear_from s (m_next h s) h = Some h'"
    using h'(1) nx(1) step by simp
  moreover have "unlinked h' p" if "p \<in> set (x # xs) \<or> unlinked h p \<and> p \<noteq> s" for p
    using that h'(3) ux nx(2) ux' [of p] by auto
  ultimately show ?case using h'(2) by blast
qed

lemma list_GetCount_from_linked:
  "linked h a xs s \<Longrightarrow> s \<notin> set xs \<Longrightarrow> list_GetCount_from h s (m_next h a) n = Some (n + length xs)"
proof (induction xs arbitrary: a n)
  case Nil
  then show ?case by (simp add: list_GetCount_from.simps)
next
  case (Cons x xs)
  then show ?case by (auto simp: list_GetCount_from.simps [of h s x])
qed

section \<open>Properties\<close>

text \<open>
  C33: on a circular list of nodes, the pointer operations of \<open>IntrusiveList\<close> are the operations of
  the sequence of its elements, and a node that was taken off can be linked again.
\<close>

theorem intrusive_list_refines:
  assumes "list_rep h s xs" and "n \<noteq> s" and "unlinked h n"
  shows "list_rep (list_PushBack s n h) s (xs @ [n]) \<and> list_rep (list_PushFront s n h) s (n # xs) \<and>
    (list_IsEmpty h s \<longleftrightarrow> xs = []) \<and>
    (\<forall>p\<in>set xs. list_rep (list_Remove p h) s (remove1 p xs) \<and> unlinked (list_Remove p h) p) \<and>
    (xs \<noteq> [] \<longrightarrow> list_Front h s = hd xs \<and> list_Back h s = last xs \<and>
       fst (list_PopFront s h) = hd xs \<and> list_rep (snd (list_PopFront s h)) s (tl xs) \<and>
       fst (list_PopBack s h) = last xs \<and> list_rep (snd (list_PopBack s h)) s (butlast xs))"
proof -
  have free: "free_node_of s h n" using assms by (simp add: free_node_of_def)
  have "fst (list_PopFront s h) = hd xs \<and> list_rep (snd (list_PopFront s h)) s (tl xs) \<and> list_Front h s = hd xs"
    if "xs \<noteq> []"
    using that assms(1) il.pop_front_rep [of h s] list_Front_rep [of h s] list_PopFront_rep [of h s] by (cases xs) auto
  moreover have "fst (list_PopBack s h) = last xs \<and> list_rep (snd (list_PopBack s h)) s (butlast xs) \<and> list_Back h s = last xs"
    if ne: "xs \<noteq> []"
  proof -
    obtain ys y where y: "xs = ys @ [y]" using ne by (cases xs rule: rev_cases) auto
    then have "y \<notin> set ys" using assms(1) by (auto simp: list_rep_def)
    then have "remove1 (last xs) xs = butlast xs" using y by (simp add: remove1_append)
    then show ?thesis using list_PopBack_rep [OF assms(1) ne] list_Back_rep [OF assms(1) ne]
        il.remove [OF assms(1), of "last xs"] ne by (simp add: list_Remove_def)
  qed
  moreover have "unlinked (list_Remove p h) p" if "p \<in> set xs" for p
    using il.remove_free [OF assms(1) that] by (simp add: free_node_of_def)
  ultimately show ?thesis
    using il.push_back [OF assms(1) free] il.push_front [OF assms(1) free] il.is_empty [OF assms(1)]
      il.remove [OF assms(1)] by blast
qed

definition demo_links :: "nat links" where
  "demo_links = \<lparr>m_prev = (\<lambda>p. p), m_next = (\<lambda>p. p)\<rparr>"

theorem intrusive_list_refines_witness:
  "list_rep (list_PushBack 0 1 demo_links) 0 [1 :: nat]"
proof -
  have "list_rep demo_links 0 []" by (simp add: list_rep_def demo_links_def)
  moreover have "unlinked demo_links 1" by (simp add: unlinked_def demo_links_def)
  ultimately show ?thesis using intrusive_list_refines [of demo_links 0 "[]" 1] by simp
qed

text \<open>
  \<open>Clear\<close> and \<open>GetCount\<close> end on every well formed list: \<open>Clear\<close> leaves it empty with all its nodes
  unlinked, \<open>GetCount\<close> answers the number of elements.
\<close>

theorem intrusive_list_loops_end:
  assumes "list_rep h s xs"
  shows "list_GetCount h s = Some (length xs) \<and>
    (\<exists>h'. list_Clear s h = Some h' \<and> list_rep h' s [] \<and> (\<forall>p\<in>set xs. unlinked h' p))"
  using list_Clear_from_rep [OF assms] list_GetCount_from_linked [of h s xs s 0] assms
  by (auto simp: list_Clear_def list_GetCount_def list_rep_def)

theorem intrusive_list_loops_end_witness:
  "list_GetCount (list_PushBack 0 1 demo_links) 0 = Some 1"
proof -
  have "list_rep (list_PushBack 0 1 demo_links) 0 [1 :: nat]"
    by (rule il.push_back [of _ _ "[]", simplified]) (simp_all add: list_rep_def demo_links_def free_node_of_def unlinked_def)
  from intrusive_list_loops_end [OF this] show ?thesis by simp
qed

end
