(* ===== verification/Exp_Heap.thy ===== *)
theory Exp_Heap
  imports Bit_Util Intrusive_List
begin

text \<open>
  \<open>awn::mem::ExpHeap\<close> (\<open>mem_expheap.hpp\<close>, \<open>mem_expheap.cpp\<close>): the general purpose heap.  A heap
  is an address range cut into blocks, each with a header of \<open>0x20\<close> bytes in front of its memory;
  the headers of the free blocks and of the used blocks are on two intrusive lists.  The header
  memory is a store from addresses to headers, the two lists are lists of header addresses
  (\<open>Intrusive_List\<close> shows that the linked operations are these list operations), and all
  addresses and sizes are 64 bit words that wrap as in the code.  Each operation of the class is one
  definition; the heap lock is not modelled, an operation is one step under it.
\<close>

section \<open>Blocks and heaps\<close>

record exp_block =
  alloc_magic :: u16
  alignment :: u8
  block_size :: u64

definition cFreeMagic :: u16 where "cFreeMagic = 0x5246"   \<comment> \<open>\<open>TCharCode16("FR")\<close>\<close>
definition cAllocMagic :: u16 where "cAllocMagic = 0x4455" \<comment> \<open>\<open>TCharCode16("UD")\<close>\<close>

definition sizeof_block :: u64 where "sizeof_block = 0x20"
definition sizeof_heap :: u64 where "sizeof_heap = 0xa0"
definition cMinimumAlignment :: u32 where "cMinimumAlignment = 4"
definition cMinimumAllocationGranularity :: u64 where "cMinimumAllocationGranularity = 4"
definition cWholeSize :: u64 where "cWholeSize = 0"

datatype allocation_mode = FirstFit | BestFit

record exp_heap =
  m_start_address :: u64
  m_end_address :: u64
  m_free_block_list :: "u64 list"
  m_allocated_block_list :: "u64 list"
  m_allocation_mode :: allocation_mode
  blocks :: "u64 \<Rightarrow> exp_block"

text \<open>The constructor: both lists empty, best fit.\<close>

definition ExpHeap_construct :: "u64 \<Rightarrow> u64 \<Rightarrow> (u64 \<Rightarrow> exp_block) \<Rightarrow> exp_heap" where
  "ExpHeap_construct start_address sz mem =
     \<lparr>m_start_address = start_address, m_end_address = start_address + sz,
      m_free_block_list = [], m_allocated_block_list = [], m_allocation_mode = BestFit, blocks = mem\<rparr>"

definition SetAllocationMode :: "allocation_mode \<Rightarrow> exp_heap \<Rightarrow> exp_heap" where
  "SetAllocationMode mode h = h\<lparr>m_allocation_mode := mode\<rparr>"

definition GetTotalSize :: "exp_heap \<Rightarrow> u64" where
  "GetTotalSize h = m_end_address h - m_start_address h"

definition IsAddressInHeap :: "exp_heap \<Rightarrow> u64 \<Rightarrow> bool" where
  "IsAddressInHeap h address \<longleftrightarrow> m_start_address h \<le> address \<and> address < m_end_address h"

text \<open>The element before and after an element of a list; \<open>None\<close> is the sentinel.\<close>

fun list_prev :: "'a option \<Rightarrow> 'a list \<Rightarrow> 'a \<Rightarrow> 'a option" where
  "list_prev p [] b = p"
| "list_prev p (x # xs) b = (if x = b then p else list_prev (Some x) xs b)"

fun list_next :: "'a list \<Rightarrow> 'a \<Rightarrow> 'a option" where
  "list_next [] b = None"
| "list_next (x # xs) b = (if x = b then (case xs of [] \<Rightarrow> None | y # _ \<Rightarrow> Some y) else list_next xs b)"

text \<open>\<open>Unlink\<close> takes a header off the list it is on.\<close>

definition unlink_block :: "u64 \<Rightarrow> exp_heap \<Rightarrow> exp_heap" where
  "unlink_block b h = h\<lparr>m_free_block_list := remove1 b (m_free_block_list h),
                       m_allocated_block_list := remove1 b (m_allocated_block_list h)\<rparr>"

definition write_block :: "u64 \<Rightarrow> exp_block \<Rightarrow> exp_heap \<Rightarrow> exp_heap" where
  "write_block b blk h = h\<lparr>blocks := (blocks h)(b := blk)\<rparr>"

section \<open>Adding blocks\<close>

text \<open>The scan of \<open>AddFreeBlock\<close> for the free blocks before and after the range.\<close>

fun find_neighbours :: "u64 \<Rightarrow> u64 option \<Rightarrow> u64 option \<Rightarrow> u64 list \<Rightarrow> u64 option \<times> u64 option" where
  "find_neighbours new_start prev_block next_block [] = (prev_block, next_block)"
| "find_neighbours new_start prev_block next_block (b # bs) =
     (if new_start \<le> b then (prev_block, Some b)
      else find_neighbours new_start (Some b) (Some b) bs)"

definition coalesce_back :: "u64 option \<Rightarrow> u64 \<Rightarrow> exp_heap \<Rightarrow> u64 \<times> exp_heap" where
  "coalesce_back next_block new_end h =
     (case next_block of None \<Rightarrow> (new_end, h)
      | Some n \<Rightarrow>
          if new_end = n then (n + block_size (blocks h n) + sizeof_block, unlink_block n h)
          else (new_end, h))"

definition coalesce_front :: "u64 option \<Rightarrow> u64 \<Rightarrow> exp_heap \<Rightarrow> u64 option \<times> u64 \<times> exp_heap" where
  "coalesce_front prev_block new_start h =
     (case prev_block of None \<Rightarrow> (None, new_start, h)
      | Some p \<Rightarrow>
          if new_start = p + block_size (blocks h p) + sizeof_block
          then (list_prev None (m_free_block_list h) p, p, unlink_block p h)
          else (Some p, new_start, h))"

definition AddFreeBlock :: "u64 \<Rightarrow> u64 \<Rightarrow> exp_heap \<Rightarrow> bool \<times> exp_heap" where
  "AddFreeBlock range_start range_end h =
     (let (prev_block, next_block) = find_neighbours range_start None None (m_free_block_list h);
          (new_end, h) = coalesce_back next_block range_end h;
          (link_node, new_start, h) = coalesce_front prev_block range_start h;
          new_size = new_end - new_start
      in if new_size < sizeof_block then (False, h)
         else
           let h = write_block new_start
                     \<lparr>alloc_magic = cFreeMagic, alignment = 0, block_size = new_size - sizeof_block\<rparr> h
           in (True, h\<lparr>m_free_block_list := insert_after link_node new_start (m_free_block_list h)\<rparr>))"

definition AddUsedBlock :: "u64 \<Rightarrow> u64 \<Rightarrow> u64 \<Rightarrow> exp_heap \<Rightarrow> exp_heap" where
  "AddUsedBlock free_block allocation_address sz h =
     (let next_node = list_next (m_free_block_list h) free_block;
          prev_node = list_prev None (m_free_block_list h) free_block;
          h = unlink_block free_block h;
          new_free_address = allocation_address + sz;
          new_free_end_address = free_block + block_size (blocks h free_block) + sizeof_block;
          new_free_total_size = new_free_end_address - new_free_address;
          orig_start_address = free_block;
          used_start_address = allocation_address - sizeof_block;
          used_alignment = used_start_address - orig_start_address;
          (used_alignment, h) =
            (if sizeof_block + cMinimumAllocationGranularity \<le> used_alignment
             then (0,
               (let h = write_block orig_start_address
                     \<lparr>alloc_magic = cFreeMagic, alignment = 0, block_size = used_alignment - sizeof_block\<rparr> h
                in h\<lparr>m_free_block_list := insert_after prev_node orig_start_address (m_free_block_list h)\<rparr>))
             else (used_alignment, h));
          (new_free_total_size, h) =
            (if sizeof_block + cMinimumAllocationGranularity \<le> new_free_total_size
             then (0,
               (let h = write_block new_free_address
                     \<lparr>alloc_magic = cFreeMagic, alignment = 0, block_size = new_free_total_size - sizeof_block\<rparr> h
                in h\<lparr>m_free_block_list := insert_before next_node new_free_address (m_free_block_list h)\<rparr>))
             else (new_free_total_size, h));
          h = write_block used_start_address
                \<lparr>alloc_magic = cAllocMagic, alignment = ucast used_alignment,
                 block_size = sz + new_free_total_size\<rparr> h
      in h\<lparr>m_allocated_block_list := m_allocated_block_list h @ [used_start_address]\<rparr>)"

section \<open>Queries\<close>

text \<open>\<open>alignment\<close> is an \<open>s32\<close>; where the code passes it as a \<open>size_t\<close> it is sign extended.\<close>

definition enforce_alignment :: "u32 \<Rightarrow> u32" where
  "enforce_alignment align = (if sint align < sint cMinimumAlignment then cMinimumAlignment else align)"

fun max_free_size_from :: "(u64 \<Rightarrow> exp_block) \<Rightarrow> u64 \<Rightarrow> u64 \<Rightarrow> u64 list \<Rightarrow> u64" where
  "max_free_size_from m align max_free_size [] = max_free_size"
| "max_free_size_from m align max_free_size (b # bs) =
     (let block_start = b + sizeof_block;
          block_end = block_start + block_size (m b);
          align_start = AlignUp block_start align;
          sz = block_end - align_start
      in max_free_size_from m align
           (if align_start \<le> block_end \<and> max_free_size < sz then sz else max_free_size) bs)"

definition GetMaximumAllocatableSizeUnsafe :: "u32 \<Rightarrow> exp_heap \<Rightarrow> u64" where
  "GetMaximumAllocatableSizeUnsafe align h =
     max_free_size_from (blocks h) (scast align) 0 (m_free_block_list h)"

definition GetMaximumAllocatableSize :: "u32 \<Rightarrow> exp_heap \<Rightarrow> u64" where
  "GetMaximumAllocatableSize align h = GetMaximumAllocatableSizeUnsafe (enforce_alignment align) h"

definition GetTotalFreeSize :: "exp_heap \<Rightarrow> u64" where
  "GetTotalFreeSize h = fold (\<lambda>b free_size. free_size + block_size (blocks h b)) (m_free_block_list h) 0"

definition IsAddressAllocation :: "u64 \<Rightarrow> exp_heap \<Rightarrow> bool" where
  "IsAddressAllocation address h =
     (let block = address - sizeof_block in list_ex (\<lambda>used_block. used_block = block) (m_allocated_block_list h))"

definition GetAllocationSize :: "u64 \<Rightarrow> exp_heap \<Rightarrow> u64" where
  "GetAllocationSize address h = block_size (blocks h (address - sizeof_block))"

section \<open>Allocating and freeing\<close>

text \<open>
  The two searches of \<open>TryAllocate\<close>: the block found (\<open>None\<close> is \<open>end()\<close>) and the address of
  the allocation in it.
\<close>

fun first_fit :: "(u64 \<Rightarrow> exp_block) \<Rightarrow> u64 \<Rightarrow> u64 \<Rightarrow> u64 \<Rightarrow> u64 list \<Rightarrow> u64 option \<times> u64" where
  "first_fit m aligned_size align allocation_address [] = (None, allocation_address)"
| "first_fit m aligned_size align allocation_address (b # bs) =
     (let allocation_address = AlignUp (b + sizeof_block) align;
          aligned_allocation_size = (aligned_size - sizeof_block) - b + allocation_address
      in if aligned_allocation_size \<le> block_size (m b) then (Some b, allocation_address)
         else first_fit m aligned_size align allocation_address bs)"

fun best_fit :: "(u64 \<Rightarrow> exp_block) \<Rightarrow> u64 \<Rightarrow> u64 \<Rightarrow> u64 \<Rightarrow> u64 \<Rightarrow> u64 option \<Rightarrow> u64 \<Rightarrow> u64 list \<Rightarrow> u64 option \<times> u64" where
  "best_fit m aligned_size align smaller_size smaller_address smaller_block allocation_address [] =
     (smaller_block, allocation_address)"
| "best_fit m aligned_size align smaller_size smaller_address smaller_block allocation_address (b # bs) =
     (let allocation_address = AlignUp (b + sizeof_block) align;
          aligned_allocation_size = (aligned_size - sizeof_block) - b + allocation_address;
          block_sz = block_size (m b)
      in if block_sz < smaller_size \<and> aligned_allocation_size \<le> block_sz
         then if block_sz = aligned_size then (Some b, allocation_address)
              else best_fit m aligned_size align block_sz allocation_address (Some b) allocation_address bs
         else best_fit m aligned_size align smaller_size smaller_address smaller_block smaller_address bs)"

definition find_free_block :: "u64 \<Rightarrow> u64 \<Rightarrow> exp_heap \<Rightarrow> u64 option \<times> u64" where
  "find_free_block aligned_size align h =
     (case m_allocation_mode h of
        FirstFit \<Rightarrow> first_fit (blocks h) aligned_size align 0 (m_free_block_list h)
      | BestFit \<Rightarrow> best_fit (blocks h) aligned_size align 0xffffffffffffffff 0 None 0 (m_free_block_list h))"

text \<open>
  \<open>OutOfMemoryImpl\<close> invokes a callback the user installs; it is a parameter, given the sizes of
  the \<open>OutOfMemoryInfo\<close> and the heap, which it may change.  When it answers true the
  allocation starts again, so an unhelpful callback can make \<open>TryAllocate\<close> run forever (\<open>None\<close>).
  The address \<open>0\<close> is \<open>nullptr\<close>.
\<close>

type_synonym oom_callback = "u64 \<Rightarrow> u64 \<Rightarrow> u32 \<Rightarrow> exp_heap \<Rightarrow> bool \<times> exp_heap"

definition allocation_aligned_size :: "u64 \<Rightarrow> u32 \<Rightarrow> exp_heap \<Rightarrow> u64" where
  "allocation_aligned_size sz align h =
     (if sz \<noteq> cWholeSize then AlignUp sz (scast align) else GetMaximumAllocatableSizeUnsafe align h)"

partial_function (option) TryAllocate_restart ::
  "oom_callback \<Rightarrow> u64 \<Rightarrow> u32 \<Rightarrow> exp_heap \<Rightarrow> (u64 \<times> exp_heap) option" where
  "TryAllocate_restart oom sz align h =
     (if m_free_block_list h = []
      then let (again, h') = oom sz (AlignUp sz (scast align)) align h
           in if again then TryAllocate_restart oom sz align h' else Some (0, h')
      else
        let aligned_size = allocation_aligned_size sz align h;
            (free_block, allocation_address) = find_free_block aligned_size (scast align) h
        in case free_block of
             None \<Rightarrow>
               (let (again, h') = oom sz aligned_size align h
                in if again then TryAllocate_restart oom sz align h' else Some (0, h'))
           | Some b \<Rightarrow> Some (allocation_address, AddUsedBlock b allocation_address aligned_size h))"

declare TryAllocate_restart.simps [code]

definition TryAllocate :: "oom_callback \<Rightarrow> u64 \<Rightarrow> u32 \<Rightarrow> exp_heap \<Rightarrow> (u64 \<times> exp_heap) option" where
  "TryAllocate oom sz align h = TryAllocate_restart oom sz (enforce_alignment align) h"

definition Free :: "u64 \<Rightarrow> exp_heap \<Rightarrow> exp_heap result" where
  "Free address h =
     (let block = address - sizeof_block;
          blk = blocks h block
      in bind_result (vp_assert (alloc_magic blk = cAllocMagic)) (\<lambda>_.
         let h = unlink_block block h;
             start = block - ucast (alignment blk);
             end_address = address + block_size blk
         in Inr (snd (AddFreeBlock start end_address h))))"

definition AdjustAllocation :: "u64 \<Rightarrow> u64 \<Rightarrow> exp_heap \<Rightarrow> u64 \<times> exp_heap" where
  "AdjustAllocation address new_sz h =
     (let new_size = AlignUp new_sz cMinimumAllocationGranularity;
          block = address - sizeof_block;
          block_sz = block_size (blocks h block)
      in if block_sz = new_size then (new_size, h)
         else if new_size < block_sz then
           let h = snd (AddFreeBlock (address + new_size) (address + block_sz) h)
           in (new_size, write_block block ((blocks h block)\<lparr>block_size := new_size\<rparr>) h)
         else
           let end_address = address + block_sz
           in case find (\<lambda>b. b = end_address) (m_free_block_list h) of
                None \<Rightarrow> (block_sz, h)
              | Some block_after \<Rightarrow>
                  let after_size = block_size (blocks h block_after) + sizeof_block
                  in if new_size < after_size + block_sz then (block_sz, h)
                     else
                       let prev_block = list_prev None (m_free_block_list h) block_after;
                           h = unlink_block block_after h;
                           new_end_address = block_after + after_size;
                           new_free = address + new_size + sizeof_block;
                           new_free_size = new_end_address - new_free;
                           new_free = (if sizeof_block \<le> new_free_size then new_free - new_free_size else new_free);
                           h = write_block block ((blocks h block)\<lparr>block_size := new_free - address\<rparr>) h
                       in if sizeof_block \<le> new_free_size
                          then let h = write_block new_free
                                     \<lparr>alloc_magic = cFreeMagic, alignment = 0, block_size = new_free_size\<rparr> h
                               in (new_size, h\<lparr>m_free_block_list := insert_after prev_block new_free (m_free_block_list h)\<rparr>)
                          else (new_size, h))"

section \<open>Creating and resizing a heap\<close>

text \<open>
  The first \<open>TryCreate\<close>, on an arena; the header of the first block is written by the same
  assignments in both.
\<close>

definition construct_with_first_block :: "u64 \<Rightarrow> u64 \<Rightarrow> (u64 \<Rightarrow> exp_block) \<Rightarrow> exp_heap" where
  "construct_with_first_block address sz mem =
     (let h = ExpHeap_construct (address + sizeof_heap) (sz - sizeof_heap) mem;
          first_block = address + sizeof_heap;
          h = write_block first_block
                \<lparr>alloc_magic = cFreeMagic, alignment = 0, block_size = sz - (sizeof_heap + sizeof_block)\<rparr> h
      in h\<lparr>m_free_block_list := m_free_block_list h @ [first_block]\<rparr>)"

definition TryCreate_arena :: "u64 \<Rightarrow> u64 \<Rightarrow> (u64 \<Rightarrow> exp_block) \<Rightarrow> exp_heap result" where
  "TryCreate_arena address sz mem =
     bind_result (vp_assert (address \<noteq> 0 \<and>
        sizeof_heap + sizeof_block + cMinimumAllocationGranularity \<le> sz)) (\<lambda>_.
      Inr (construct_with_first_block address sz mem))"

text \<open>The second, in a parent heap given by its virtual operations.\<close>

definition TryCreate ::
  "(u32 \<Rightarrow> 'p \<Rightarrow> u64) \<Rightarrow> (u64 \<Rightarrow> u32 \<Rightarrow> 'p \<Rightarrow> (u64 \<times> 'p) option) \<Rightarrow> (u64 \<Rightarrow> exp_block) \<Rightarrow>
   u64 \<Rightarrow> u32 \<Rightarrow> 'p \<Rightarrow> (exp_heap option \<times> 'p) option" where
  "TryCreate parent_maximum parent_allocate mem sz align parent_heap =
     (let sz = (if sz = cWholeSize then parent_maximum align parent_heap else sz)
      in if sz < sizeof_heap + sizeof_block + cMinimumAllocationGranularity then Some (None, parent_heap)
         else case parent_allocate sz align parent_heap of
                None \<Rightarrow> None
              | Some (new_heap_memory, parent_heap) \<Rightarrow>
                  if new_heap_memory = 0 then Some (None, parent_heap)
                  else Some (Some (construct_with_first_block new_heap_memory sz mem), parent_heap))"

text \<open>The heap object sits right in front of its memory.\<close>

definition heap_this :: "exp_heap \<Rightarrow> u64" where
  "heap_this h = m_start_address h - sizeof_heap"

definition AdjustHeap ::
  "(u64 \<Rightarrow> u64 \<Rightarrow> 'p \<Rightarrow> u64 \<times> 'p) \<Rightarrow> 'p option \<Rightarrow> exp_heap \<Rightarrow> (u64 \<times> u64) \<times> 'p option \<times> exp_heap" where
  "AdjustHeap parent_adjust parent_heap h =
     (let heap_size = GetTotalSize h + sizeof_heap
      in if m_free_block_list h = [] then ((m_end_address h, 0), parent_heap, h)
         else
           let last_block = last (m_free_block_list h);
               trimed_size = sizeof_block + block_size (blocks h last_block)
           in if last_block + trimed_size \<noteq> m_end_address h then ((m_end_address h, 0), parent_heap, h)
              else
                let h = unlink_block last_block h;
                    new_end_address = m_end_address h - trimed_size;
                    h = h\<lparr>m_end_address := new_end_address\<rparr>;
                    parent_heap = map_option (\<lambda>p. snd (parent_adjust (heap_this h) (heap_size - trimed_size) p)) parent_heap
                in ((new_end_address, trimed_size), parent_heap, h))"

text \<open>
  \<open>ResizeHeapBack\<close> takes its \<open>last_free_block\<close> from the allocated list; with no allocation that
  is the sentinel, whose memory is not a block: the fault \<open>Out_Of_Bounds\<close>.
\<close>

definition ResizeHeapBack ::
  "(u64 \<Rightarrow> 'p \<Rightarrow> bool) \<Rightarrow> (u64 \<Rightarrow> u64 \<Rightarrow> 'p \<Rightarrow> u64 \<times> 'p) \<Rightarrow> bool \<Rightarrow> 'p option \<Rightarrow> u64 \<Rightarrow> exp_heap \<Rightarrow>
   (u64 \<times> 'p option \<times> exp_heap) result" where
  "ResizeHeapBack parent_is_allocation parent_adjust is_root parent_heap new_sz h =
     (let new_size = AlignUp new_sz cMinimumAllocationGranularity;
          heap_size = GetTotalSize h
      in if new_size = heap_size then Inr (heap_size, parent_heap, h)
         else if m_allocated_block_list h = [] then Inl Out_Of_Bounds
         else
           let last_free_block = last (m_allocated_block_list h);
               last_free_end = last_free_block + block_size (blocks h last_free_block)
           in if new_size < heap_size then
                let free_size = block_size (blocks h last_free_block) + sizeof_block;
                    delta_space = heap_size - new_size
                in if last_free_end \<noteq> m_end_address h \<or> free_size < delta_space
                   then Inr (heap_size, parent_heap, h)
                   else if delta_space = free_size
                   then Inr (new_size, parent_heap,
                          (unlink_block last_free_block h)\<lparr>m_end_address := last_free_block\<rparr>)
                   else
                     let last_free_end = last_free_end - delta_space;
                         h = snd (AddFreeBlock last_free_block last_free_end h)
                     in Inr (new_size, parent_heap, h\<lparr>m_end_address := last_free_end\<rparr>)
              else
                let last_free_start =
                      (if last_free_end = m_end_address h then last_free_block else m_end_address h);
                    new_end = m_start_address h + new_size;
                    grow = (\<lambda>parent_heap.
                      (new_size, parent_heap,
                       (snd (AddFreeBlock last_free_start new_end h))\<lparr>m_end_address := new_end\<rparr>))
                in if is_root then Inr (grow parent_heap)
                   else case parent_heap of
                          None \<Rightarrow> Inr (heap_size, None, h)
                        | Some p \<Rightarrow>
                            if \<not> parent_is_allocation (heap_this h) p then Inr (heap_size, Some p, h)
                            else let (adjust_size, p') = parent_adjust (heap_this h) (sizeof_heap + new_size) p
                                 in if adjust_size \<noteq> new_size then Inr (heap_size, Some p', h)
                                    else Inr (grow (Some p')))"

end
