(* ===== verification/Exp_Heap_Inv.thy ===== *)
theory Exp_Heap_Inv
  imports Exp_Heap
begin

text \<open>
  The invariant of \<open>ExpHeap\<close> and what its operations do to it.  Addresses are read as natural
  numbers: a block occupies the interval from \<open>blk_lo\<close> (its header, less the padding in front of
  it that \<open>alignment\<close> records) to \<open>blk_end\<close>.  The equations of the first section give the exact
  list and header memory after \<open>AddFreeBlock\<close> and \<open>AddUsedBlock\<close>; the invariant is proved from them.
\<close>

section \<open>List surgery\<close>

definition last_opt :: "'a list \<Rightarrow> 'a option" where
  "last_opt xs = (if xs = [] then None else Some (last xs))"

lemma last_opt_simps [simp]: "last_opt [] = None" "last_opt (xs @ [x]) = Some x"
  by (simp_all add: last_opt_def)

lemma list_prev_split:
  "p \<notin> set as \<Longrightarrow> list_prev q (as @ p # bs) p = (if as = [] then q else Some (last as))"
  by (induction as arbitrary: q) auto

lemma list_prev_split': "p \<notin> set as \<Longrightarrow> list_prev None (as @ p # bs) p = last_opt as"
  by (simp add: list_prev_split last_opt_def)

lemma list_next_split: "p \<notin> set as \<Longrightarrow> list_next (as @ p # bs) p = hd_opt bs"
  by (induction as) (auto split: list.splits)

lemma insert_after_last_opt: "distinct as \<Longrightarrow> insert_after (last_opt as) n (as @ bs) = as @ n # bs"
  by (cases as rule: rev_cases) (auto simp: insert_after_split)

lemma insert_before_hd_opt:
  "set as \<inter> set bs = {} \<Longrightarrow> insert_before (hd_opt bs) n (as @ bs) = as @ n # bs"
  by (cases bs) (auto simp: insert_before_split)

lemma find_neighbours_eq:
  assumes "\<forall>a\<in>set A. a < s" and "\<forall>b\<in>set B. s \<le> b"
  shows "find_neighbours s p n (A @ B) =
    (if A = [] then p else Some (last A),
     if B \<noteq> [] then Some (hd B) else if A = [] then n else Some (last A))"
  using assms
proof (induction A arbitrary: p n)
  case Nil
  then show ?case by (cases B) auto
next
  case (Cons a A)
  then show ?case by (auto simp: not_le)
qed

section \<open>The exact effect of the two primitives\<close>

definition blk_stop :: "exp_heap \<Rightarrow> u64 \<Rightarrow> u64" where
  "blk_stop h b = b + block_size (blocks h b) + sizeof_block"

definition free_blk :: "u64 \<Rightarrow> exp_block" where
  "free_blk sz = \<lparr>alloc_magic = cFreeMagic, alignment = 0, block_size = sz\<rparr>"

definition add_free_result :: "u64 list \<Rightarrow> u64 \<Rightarrow> u64 \<Rightarrow> u64 list \<Rightarrow> exp_heap \<Rightarrow> bool \<times> exp_heap" where
  "add_free_result A s e B h =
     (if e - s < sizeof_block then (False, h\<lparr>m_free_block_list := A @ B\<rparr>)
      else (True, h\<lparr>m_free_block_list := A @ s # B,
                    blocks := (blocks h)(s := free_blk (e - s - sizeof_block))\<rparr>))"

lemma AddFreeBlock_eq:
  assumes F: "m_free_block_list h = A @ B" and d: "distinct (A @ B)"
    and A: "\<forall>a\<in>set A. a < s" and B: "\<forall>b\<in>set B. s \<le> b" and e: "A \<noteq> [] \<Longrightarrow> last A \<noteq> e"
    and dj: "set (A @ B) \<inter> set (m_allocated_block_list h) = {}"
  shows "AddFreeBlock s e h =
    (let fr = A \<noteq> [] \<and> s = blk_stop h (last A); bk = B \<noteq> [] \<and> e = hd B
     in add_free_result (if fr then butlast A else A) (if fr then last A else s)
          (if bk then blk_stop h (hd B) else e) (if bk then tl B else B) h)"
proof -
  have fn: "find_neighbours s None None (m_free_block_list h) = (last_opt A,
     if B \<noteq> [] then Some (hd B) else last_opt A)"
    using find_neighbours_eq [OF A B, of None None] by (simp add: F last_opt_def)
  define bk where "bk \<longleftrightarrow> B \<noteq> [] \<and> e = hd B"
  define B' where "B' = (if bk then tl B else B)"
  define e' where "e' = (if bk then blk_stop h (hd B) else e)"
  define h1 where "h1 = h\<lparr>m_free_block_list := A @ B'\<rparr>"
  have cb: "coalesce_back (if B \<noteq> [] then Some (hd B) else last_opt A) e h = (e', h1)"
  proof (cases bk)
    case True
    then obtain b bs where b: "B = b # bs" "e = b" by (cases B) (auto simp: bk_def)
    have "unlink_block b h = h\<lparr>m_free_block_list := A @ bs\<rparr>"
      using d dj F b by (simp add: unlink_block_def remove1_split remove1_idem)
    then show ?thesis using True b by (simp add: coalesce_back_def e'_def h1_def B'_def blk_stop_def)
  next
    case False
    have "m_free_block_list h = A @ B'" using F False by (simp add: B'_def)
    then have h1: "h1 = h" by (simp add: h1_def)
    show ?thesis
    proof (cases "B = []")
      case True
      then show ?thesis using False e h1 by (auto simp: coalesce_back_def e'_def last_opt_def)
    next
      case Bne: False
      then have "e \<noteq> hd B" using False by (simp add: bk_def)
      then show ?thesis using False Bne h1 by (simp add: coalesce_back_def e'_def)
    qed
  qed
  have d': "distinct (A @ B')" using d by (cases B) (auto simp: B'_def)
  define fr where "fr \<longleftrightarrow> A \<noteq> [] \<and> s = blk_stop h (last A)"
  define A' where "A' = (if fr then butlast A else A)"
  define s' where "s' = (if fr then last A else s)"
  define h2 where "h2 = h\<lparr>m_free_block_list := A' @ B'\<rparr>"
  have cf: "coalesce_front (last_opt A) s h1 = (last_opt A', s', h2)"
  proof (cases fr)
    case True
    then obtain as a where a: "A = as @ [a]" by (cases A rule: rev_cases) (auto simp: fr_def)
    have "unlink_block a h1 = h2"
      using d' dj a True by (simp add: unlink_block_def h1_def h2_def A'_def remove1_split remove1_idem)
    then show ?thesis using True a d'
      by (simp add: coalesce_front_def A'_def s'_def h1_def list_prev_split' fr_def blk_stop_def)
  next
    case False
    then show ?thesis
      by (cases A rule: rev_cases) (auto simp: coalesce_front_def A'_def s'_def h1_def h2_def fr_def blk_stop_def)
  qed
  have "distinct A'" using d by (cases A rule: rev_cases) (auto simp: A'_def)
  then show ?thesis
    unfolding AddFreeBlock_def fn Let_def split cb cf
    by (simp add: add_free_result_def write_block_def insert_after_last_opt h2_def free_blk_def
        fr_def bk_def A'_def B'_def s'_def e'_def)
qed

definition used_blk :: "u64 \<Rightarrow> u64 \<Rightarrow> exp_block" where
  "used_blk padding sz = \<lparr>alloc_magic = cAllocMagic, alignment = ucast padding, block_size = sz\<rparr>"

definition min_block :: u64 where "min_block = sizeof_block + cMinimumAllocationGranularity"

definition add_used_result ::
  "u64 list \<Rightarrow> u64 \<Rightarrow> u64 list \<Rightarrow> u64 \<Rightarrow> u64 \<Rightarrow> exp_heap \<Rightarrow> exp_heap" where
  "add_used_result A b B addr sz h =
     (let gap = addr - sizeof_block - b; rest = blk_stop h b - (addr + sz);
          fr = min_block \<le> gap; bk = min_block \<le> rest;
          m = (if fr then (blocks h)(b := free_blk (gap - sizeof_block)) else blocks h);
          m = (if bk then m(addr + sz := free_blk (rest - sizeof_block)) else m);
          m = m(addr - sizeof_block := used_blk (if fr then 0 else gap) (if bk then sz else sz + rest))
      in h\<lparr>m_free_block_list := A @ (if fr then [b] else []) @ (if bk then [addr + sz] else []) @ B,
           m_allocated_block_list := m_allocated_block_list h @ [addr - sizeof_block], blocks := m\<rparr>)"

lemma AddUsedBlock_eq:
  assumes F: "m_free_block_list h = A @ b # B" and d: "distinct (A @ b # B)"
    and dj: "b \<notin> set (m_allocated_block_list h)"
  shows "AddUsedBlock b addr sz h = add_used_result A b B addr sz h"
proof -
  have lists: "list_next (A @ b # B) b = hd_opt B" "list_prev None (A @ b # B) b = last_opt A"
    "unlink_block b h = h\<lparr>m_free_block_list := A @ B\<rparr>"
    "insert_after (last_opt A) b (A @ B) = A @ b # B"
    "insert_before (hd_opt B) n (A @ b # B) = A @ b # n # B"
    "insert_before (hd_opt B) n (A @ B) = A @ n # B" for n
    using d dj insert_before_hd_opt [of "A @ [b]" B] insert_before_hd_opt [of A B]
    by (auto simp: F list_next_split list_prev_split' unlink_block_def remove1_split remove1_idem
        insert_after_last_opt)
  show ?thesis
    by (simp add: AddUsedBlock_def add_used_result_def Let_def F lists write_block_def
        free_blk_def used_blk_def min_block_def blk_stop_def)
qed

section \<open>The invariant\<close>

lemma block_constants [simp]:
  "unat sizeof_block = 32" "unat min_block = 36" "unat sizeof_heap = 160"
  "unat cMinimumAllocationGranularity = 4"
  by (simp_all add: sizeof_block_def min_block_def sizeof_heap_def cMinimumAllocationGranularity_def)

definition blk_lo :: "(u64 \<Rightarrow> exp_block) \<Rightarrow> u64 \<Rightarrow> nat" where
  "blk_lo m b = unat b - unat (alignment (m b))"

definition blk_end :: "(u64 \<Rightarrow> exp_block) \<Rightarrow> u64 \<Rightarrow> nat" where
  "blk_end m b = unat b + 32 + unat (block_size (m b))"

definition apart :: "(u64 \<Rightarrow> exp_block) \<Rightarrow> u64 \<Rightarrow> u64 \<Rightarrow> bool" where
  "apart m a b \<longleftrightarrow> blk_end m a \<le> blk_lo m b \<or> blk_end m b \<le> blk_lo m a"

definition all_blocks :: "exp_heap \<Rightarrow> u64 set" where
  "all_blocks h = set (m_free_block_list h) \<union> set (m_allocated_block_list h)"

text \<open>
  The heap range is below \<open>2 ^ 63\<close> (user space ends far below); the free list is in address order
  and no two free blocks touch, so every free range is one block; headers carry the magic of the
  list they are on; blocks are inside the range and pairwise apart.
\<close>

definition exp_inv :: "exp_heap \<Rightarrow> bool" where
  "exp_inv h \<longleftrightarrow>
     unat (m_end_address h) < 2 ^ 63 \<and> unat (m_start_address h) \<le> unat (m_end_address h) \<and>
     sorted_wrt (\<lambda>a b. blk_end (blocks h) a < unat b) (m_free_block_list h) \<and>
     (\<forall>b\<in>set (m_free_block_list h).
        alloc_magic (blocks h b) = cFreeMagic \<and> alignment (blocks h b) = 0) \<and>
     (\<forall>b\<in>set (m_allocated_block_list h).
        alloc_magic (blocks h b) = cAllocMagic \<and> unat (alignment (blocks h b)) \<le> unat b) \<and>
     (\<forall>b\<in>all_blocks h. unat (m_start_address h) \<le> blk_lo (blocks h) b \<and>
        blk_end (blocks h) b \<le> unat (m_end_address h)) \<and>
     (\<forall>a\<in>all_blocks h. \<forall>b\<in>all_blocks h. a \<noteq> b \<longrightarrow> apart (blocks h) a b) \<and>
     distinct (m_allocated_block_list h) \<and>
     set (m_free_block_list h) \<inter> set (m_allocated_block_list h) = {}"

lemma exp_invD:
  assumes "exp_inv h"
  shows "unat (m_end_address h) < 9223372036854775808"
    and "unat (m_start_address h) \<le> unat (m_end_address h)"
    and "sorted_wrt (\<lambda>a b. blk_end (blocks h) a < unat b) (m_free_block_list h)"
    and "b \<in> set (m_free_block_list h) \<Longrightarrow> alloc_magic (blocks h b) = cFreeMagic"
    and "b \<in> set (m_free_block_list h) \<Longrightarrow> alignment (blocks h b) = 0"
    and "b \<in> set (m_allocated_block_list h) \<Longrightarrow> alloc_magic (blocks h b) = cAllocMagic"
    and "b \<in> set (m_allocated_block_list h) \<Longrightarrow> unat (alignment (blocks h b)) \<le> unat b"
    and "b \<in> all_blocks h \<Longrightarrow> unat (m_start_address h) \<le> blk_lo (blocks h) b"
    and "b \<in> all_blocks h \<Longrightarrow> blk_end (blocks h) b \<le> unat (m_end_address h)"
    and "a \<in> all_blocks h \<Longrightarrow> b \<in> all_blocks h \<Longrightarrow> a \<noteq> b \<Longrightarrow> apart (blocks h) a b"
    and "distinct (m_allocated_block_list h)"
    and "set (m_free_block_list h) \<inter> set (m_allocated_block_list h) = {}"
  using assms by (simp_all add: exp_inv_def)

lemma all_blocks_free [simp]: "b \<in> set (m_free_block_list h) \<Longrightarrow> b \<in> all_blocks h"
  and all_blocks_used [simp]: "b \<in> set (m_allocated_block_list h) \<Longrightarrow> b \<in> all_blocks h"
  by (simp_all add: all_blocks_def)

lemma blk_lo_le: "blk_lo m b \<le> unat b"
  by (simp add: blk_lo_def)

lemma blk_end_gt: "unat b + 32 \<le> blk_end m b"
  by (simp add: blk_end_def)

lemma blk_lo_free: "exp_inv h \<Longrightarrow> b \<in> set (m_free_block_list h) \<Longrightarrow> blk_lo (blocks h) b = unat b"
  by (simp add: blk_lo_def exp_invD)

lemma blk_end_lt: "exp_inv h \<Longrightarrow> b \<in> all_blocks h \<Longrightarrow> blk_end (blocks h) b < 9223372036854775808"
  using exp_invD(1,9) [of h] by fastforce

lemma unat_blk_stop:
  assumes "exp_inv h" and "b \<in> all_blocks h"
  shows "unat (blk_stop h b) = blk_end (blocks h) b"
proof -
  have e: "unat b + 32 + unat (block_size (blocks h b)) < 9223372036854775808"
    using blk_end_lt [OF assms] by (simp add: blk_end_def)
  then have "unat (b + block_size (blocks h b)) = unat b + unat (block_size (blocks h b))"
    by (intro unat_add_nowrap) simp
  with e show ?thesis by (simp add: blk_stop_def blk_end_def unat_add_nowrap)
qed

lemma free_list_ascending:
  assumes "exp_inv h"
  shows "sorted_wrt (\<lambda>a b. unat a < unat b) (m_free_block_list h)"
  using exp_invD(3) [OF assms] by (rule sorted_wrt_mono_rel [rotated]) (simp add: blk_end_def)

lemma ascending_distinct: "sorted_wrt (\<lambda>a b. unat a < unat b) F \<Longrightarrow> distinct F" for F :: "u64 list"
  by (induction F) auto

lemma free_list_distinct: "exp_inv h \<Longrightarrow> distinct (m_free_block_list h)"
  by (rule ascending_distinct [OF free_list_ascending])

lemma dropWhile_ascending:
  "sorted_wrt (\<lambda>a b. unat a < unat b) F \<Longrightarrow> \<forall>b\<in>set (dropWhile (\<lambda>b. b < s) F). s \<le> b" for s :: u64
  by (induction F) (auto simp: word_less_nat_alt word_le_nat_alt)

text \<open>The free list splits at any address.\<close>

lemma free_list_split:
  assumes "exp_inv h"
  obtains A B where "m_free_block_list h = A @ B" "\<forall>a\<in>set A. a < s" "\<forall>b\<in>set B. s \<le> b"
proof
  let ?F = "m_free_block_list h"
  show "?F = takeWhile (\<lambda>b. b < s) ?F @ dropWhile (\<lambda>b. b < s) ?F" by simp
  show "\<forall>a\<in>set (takeWhile (\<lambda>b. b < s) ?F). a < s" using set_takeWhileD by fast
  show "\<forall>b\<in>set (dropWhile (\<lambda>b. b < s) ?F). s \<le> b"
    by (rule dropWhile_ascending [OF free_list_ascending [OF assms]])
qed

section \<open>Replacing the blocks of a region\<close>

text \<open>
  Every operation rewrites the blocks of one region \<open>lo ..< hi\<close> of the heap and leaves the blocks
  outside it alone: free blocks \<open>N\<close> and used blocks \<open>V\<close> inside the region take the place of what
  was there.
\<close>

definition in_region :: "nat \<Rightarrow> nat \<Rightarrow> (u64 \<Rightarrow> exp_block) \<Rightarrow> u64 \<Rightarrow> bool" where
  "in_region lo hi m b \<longleftrightarrow> lo \<le> blk_lo m b \<and> blk_end m b \<le> hi"

definition out_region :: "nat \<Rightarrow> nat \<Rightarrow> (u64 \<Rightarrow> exp_block) \<Rightarrow> u64 \<Rightarrow> bool" where
  "out_region lo hi m b \<longleftrightarrow> blk_end m b \<le> lo \<or> hi \<le> blk_lo m b"

lemma in_out_apart: "in_region lo hi m a \<Longrightarrow> out_region lo hi m b \<Longrightarrow> apart m a b \<and> apart m b a"
  by (auto simp: in_region_def out_region_def apart_def)

lemma in_out_neq: "in_region lo hi m a \<Longrightarrow> out_region lo hi m b \<Longrightarrow> a \<noteq> b"
  using blk_lo_le [of m a] blk_end_gt [of a m] by (auto simp: in_region_def out_region_def)

lemma exp_inv_replace:
  fixes h m' A B N U V W lo hi
  defines "m \<equiv> blocks h" and "keep \<equiv> set A \<union> set B \<union> U" and "new \<equiv> set N \<union> V"
  assumes inv: "exp_inv h" and sub: "set A \<union> set B \<subseteq> set (m_free_block_list h)" "U \<subseteq> set (m_allocated_block_list h)"
    and AB: "sorted_wrt (\<lambda>a b. blk_end m a < unat b) (A @ B)"
    and same: "\<And>b. b \<in> keep \<Longrightarrow> m' b = m b"
    and A: "\<And>a. a \<in> set A \<Longrightarrow> blk_end m a < lo" and B: "\<And>b. b \<in> set B \<Longrightarrow> hi < unat b"
    and U: "\<And>u. u \<in> U \<Longrightarrow> out_region lo hi m u"
    and range: "unat (m_start_address h) \<le> lo" "hi \<le> unat (m_end_address h)"
    and N: "sorted_wrt (\<lambda>a b. blk_end m' a < unat b) N"
      "\<And>n. n \<in> set N \<Longrightarrow> alloc_magic (m' n) = cFreeMagic \<and> alignment (m' n) = 0"
    and V: "\<And>v. v \<in> V \<Longrightarrow> alloc_magic (m' v) = cAllocMagic \<and> unat (alignment (m' v)) \<le> unat v"
    and reg: "\<And>n. n \<in> new \<Longrightarrow> in_region lo hi m' n"
    and apart: "\<And>a b. a \<in> new \<Longrightarrow> b \<in> new \<Longrightarrow> a \<noteq> b \<Longrightarrow> apart m' a b" and NV: "set N \<inter> V = {}"
    and W: "distinct W" "set W = U \<union> V"
  shows "exp_inv (h\<lparr>m_free_block_list := A @ N @ B, m_allocated_block_list := W, blocks := m'\<rparr>)"
proof -
  have all: "all_blocks (h\<lparr>m_free_block_list := A @ N @ B, m_allocated_block_list := W, blocks := m'\<rparr>)
      = keep \<union> new"
    using W(2) by (auto simp: all_blocks_def keep_def new_def)
  have keep: "keep \<subseteq> all_blocks h" using sub by (auto simp: keep_def all_blocks_def)
  have free0: "blk_lo m b = unat b" if "b \<in> set A \<union> set B" for b
    using blk_lo_free [OF inv, of b] that sub by (auto simp: m_def)
  have ends: "blk_end m' b = blk_end m b" "blk_lo m' b = blk_lo m b" if "b \<in> keep" for b
    using same [OF that] by (simp_all add: blk_end_def blk_lo_def)
  have out: "out_region lo hi m' b" if "b \<in> keep" for b
  proof -
    have "out_region lo hi m b"
    proof (cases "b \<in> U")
      case False
      then have "blk_end m b < lo \<or> hi < unat b" "blk_lo m b = unat b"
        using that A B free0 by (auto simp: keep_def)
      then show ?thesis by (auto simp: out_region_def)
    qed (rule U)
    then show ?thesis using ends [OF that] by (simp add: out_region_def)
  qed
  have "sorted_wrt (\<lambda>a b. blk_end m' a < unat b) (A @ N @ B)"
  proof -
    have AB': "sorted_wrt (\<lambda>a b. blk_end m' a < unat b) (A @ B)"
      by (rule sorted_wrt_mono_rel [OF _ AB]) (auto simp: ends keep_def)
    have AN: "blk_end m' a < unat n" if "a \<in> set A" "n \<in> set N" for a n
    proof -
      have "blk_end m' a < lo" using A [OF that(1)] ends [of a] that(1) by (simp add: keep_def)
      moreover have "lo \<le> unat n"
        using reg [of n] that(2) blk_lo_le [of m' n] by (simp add: new_def in_region_def)
      ultimately show ?thesis by simp
    qed
    have NB: "blk_end m' n < unat b" if "n \<in> set N" "b \<in> set B" for b n
      using B [OF that(2)] reg [of n] that(1) by (simp add: new_def in_region_def)
    show ?thesis using AB' AN NB N(1) by (auto simp: sorted_wrt_append)
  qed
  moreover have "apart m' a b" if "a \<in> keep \<union> new" "b \<in> keep \<union> new" "a \<noteq> b" for a b
  proof -
    have kk: "apart m' a b" if "a \<in> keep" "b \<in> keep"
      using exp_invD(10) [OF inv, of a b] that keep \<open>a \<noteq> b\<close> ends [of a] ends [of b]
      by (auto simp: m_def apart_def)
    show ?thesis using that kk apart in_out_apart [OF reg out] by blast
  qed
  moreover have "unat (m_start_address h) \<le> blk_lo m' b \<and> blk_end m' b \<le> unat (m_end_address h)"
    if "b \<in> keep \<union> new" for b
  proof (cases "b \<in> new")
    case True
    then show ?thesis using reg [of b] range by (auto simp: in_region_def)
  next
    case False
    then have k: "b \<in> keep" using that by simp
    with keep have "b \<in> all_blocks h" by blast
    from exp_invD(8,9) [OF inv this] show ?thesis using ends [OF k] by (simp add: m_def)
  qed
  moreover have "set (A @ N @ B) \<inter> set W = {}"
  proof -
    have "new \<inter> keep = {}" using in_out_neq [OF reg out] by blast
    then show ?thesis using exp_invD(12) [OF inv] sub NV W(2) unfolding keep_def new_def set_append by blast
  qed
  moreover have "alloc_magic (m' b) = cFreeMagic \<and> alignment (m' b) = 0" if "b \<in> set (A @ N @ B)" for b
    using that N(2) exp_invD(4,5) [OF inv, of b] sub same [of b] by (auto simp: m_def keep_def)
  moreover have "alloc_magic (m' b) = cAllocMagic \<and> unat (alignment (m' b)) \<le> unat b" if "b \<in> set W" for b
    using that V [of b] exp_invD(6,7) [OF inv, of b] sub W(2) same [of b] by (auto simp: m_def keep_def)
  ultimately show ?thesis
    using W(1) exp_invD(1,2) [OF inv] unfolding exp_inv_def all by simp
qed

section \<open>\<open>AddFreeBlock\<close>\<close>

definition free_bytes :: "exp_heap \<Rightarrow> nat set" where
  "free_bytes h = (\<Union>b\<in>set (m_free_block_list h). {unat b ..< blk_end (blocks h) b})"

text \<open>A range that no block of the heap touches.\<close>

definition hole :: "exp_heap \<Rightarrow> u64 \<Rightarrow> u64 \<Rightarrow> bool" where
  "hole h s e \<longleftrightarrow> unat (m_start_address h) \<le> unat s \<and> unat s \<le> unat e \<and> unat e \<le> unat (m_end_address h) \<and>
     (\<forall>b\<in>all_blocks h. out_region (unat s) (unat e) (blocks h) b)"

lemma front_part:
  assumes inv: "exp_inv h" and sub: "set A \<subseteq> set (m_free_block_list h)"
    and AB: "sorted_wrt (\<lambda>a b. blk_end (blocks h) a < unat b) A"
    and before: "\<forall>a\<in>set A. blk_end (blocks h) a \<le> unat s"
  defines "fr \<equiv> A \<noteq> [] \<and> s = blk_stop h (last A)"
  defines "A' \<equiv> if fr then butlast A else A" and "s' \<equiv> if fr then last A else s"
  shows "a \<in> set A' \<Longrightarrow> blk_end (blocks h) a < unat s'" and "set A' \<subseteq> set A"
    and "sorted_wrt (\<lambda>a b. blk_end (blocks h) a < unat b) A'"
    and "unat s' \<le> unat s"
    and "(\<Union>a\<in>set A. {unat a ..< blk_end (blocks h) a}) =
         (\<Union>a\<in>set A'. {unat a ..< blk_end (blocks h) a}) \<union> {unat s' ..< unat s}"
    and "unat (m_start_address h) \<le> unat s \<Longrightarrow> unat (m_start_address h) \<le> unat s'"
    and "u \<in> set (m_allocated_block_list h) \<Longrightarrow> unat s \<le> e \<Longrightarrow> out_region (unat s) e (blocks h) u \<Longrightarrow>
         out_region (unat s') e (blocks h) u"
    and "fr \<Longrightarrow> unat s' + 32 \<le> unat s"
proof -
  have "(\<forall>a\<in>set A'. blk_end (blocks h) a < unat s') \<and> set A' \<subseteq> set A \<and>
    sorted_wrt (\<lambda>a b. blk_end (blocks h) a < unat b) A' \<and> unat s' \<le> unat s \<and>
    (\<Union>a\<in>set A. {unat a ..< blk_end (blocks h) a}) =
         (\<Union>a\<in>set A'. {unat a ..< blk_end (blocks h) a}) \<union> {unat s' ..< unat s} \<and>
    (unat (m_start_address h) \<le> unat s \<longrightarrow> unat (m_start_address h) \<le> unat s') \<and>
    (u \<in> set (m_allocated_block_list h) \<longrightarrow> unat s \<le> e \<longrightarrow> out_region (unat s) e (blocks h) u \<longrightarrow>
         out_region (unat s') e (blocks h) u) \<and> (fr \<longrightarrow> unat s' + 32 \<le> unat s)"
  proof (cases fr)
    case True
    then obtain as p where p: "A = as @ [p]" "s = blk_stop h p"
      by (cases A rule: rev_cases) (auto simp: fr_def)
    have pf: "p \<in> set (m_free_block_list h)" using sub p by simp
    have s: "unat s = blk_end (blocks h) p" using unat_blk_stop [OF inv, of p] pf p(2) by simp
    have "unat p + 32 \<le> unat s" "unat (m_start_address h) \<le> unat p"
      using blk_end_gt [of p "blocks h"] s exp_invD(8) [OF inv, of p] blk_lo_free [OF inv pf] pf by auto
    moreover have "out_region (unat p) e (blocks h) u"
      if "u \<in> set (m_allocated_block_list h)" "unat s \<le> e" "out_region (unat s) e (blocks h) u"
    proof -
      have "u \<noteq> p" using that(1) pf exp_invD(12) [OF inv] by auto
      then have "apart (blocks h) u p" using exp_invD(10) [OF inv, of u p] that(1) pf by simp
      then show ?thesis
        using that(2,3) s blk_lo_free [OF inv pf] blk_lo_le [of "blocks h" u] blk_end_gt [of u "blocks h"]
        by (auto simp: apart_def out_region_def)
    qed
    ultimately show ?thesis
      using True p AB s by (auto simp: A'_def s'_def sorted_wrt_append)
  next
    case False
    have "blk_end (blocks h) a < unat s" if a: "a \<in> set A" for a
    proof (cases "a = last A")
      case True
      have "unat (blk_stop h a) = blk_end (blocks h) a" using unat_blk_stop [OF inv, of a] sub a by auto
      moreover have "s \<noteq> blk_stop h a" using False True a by (auto simp: fr_def)
      ultimately show ?thesis using before a by (metis le_neq_implies_less word_eq_unat_iff)
    next
      case ne: False
      then obtain as p where A: "A = as @ [p]" "a \<in> set as"
        using a by (cases A rule: rev_cases) auto
      then have "blk_end (blocks h) a < unat p" using AB by (simp add: sorted_wrt_append)
      also have "\<dots> \<le> unat s" using before A(1) blk_end_gt [of p "blocks h"] by simp
      finally show ?thesis .
    qed
    then show ?thesis using False AB by (simp add: A'_def s'_def)
  qed
  then show "a \<in> set A' \<Longrightarrow> blk_end (blocks h) a < unat s'" and "set A' \<subseteq> set A"
    and "sorted_wrt (\<lambda>a b. blk_end (blocks h) a < unat b) A'"
    and "unat s' \<le> unat s"
    and "(\<Union>a\<in>set A. {unat a ..< blk_end (blocks h) a}) =
         (\<Union>a\<in>set A'. {unat a ..< blk_end (blocks h) a}) \<union> {unat s' ..< unat s}"
    and "unat (m_start_address h) \<le> unat s \<Longrightarrow> unat (m_start_address h) \<le> unat s'"
    and "u \<in> set (m_allocated_block_list h) \<Longrightarrow> unat s \<le> e \<Longrightarrow> out_region (unat s) e (blocks h) u \<Longrightarrow>
         out_region (unat s') e (blocks h) u"
    and "fr \<Longrightarrow> unat s' + 32 \<le> unat s"
    by blast+
qed

lemma back_part:
  assumes inv: "exp_inv h" and sub: "set B \<subseteq> set (m_free_block_list h)"
    and AB: "sorted_wrt (\<lambda>a b. blk_end (blocks h) a < unat b) B"
    and after: "\<forall>b\<in>set B. unat e \<le> unat b"
  defines "bk \<equiv> B \<noteq> [] \<and> e = hd B"
  defines "B' \<equiv> if bk then tl B else B" and "e' \<equiv> if bk then blk_stop h (hd B) else e"
  shows "b \<in> set B' \<Longrightarrow> unat e' < unat b" and "set B' \<subseteq> set B"
    and "sorted_wrt (\<lambda>a b. blk_end (blocks h) a < unat b) B'"
    and "unat e \<le> unat e'"
    and "(\<Union>a\<in>set B. {unat a ..< blk_end (blocks h) a}) =
         (\<Union>a\<in>set B'. {unat a ..< blk_end (blocks h) a}) \<union> {unat e ..< unat e'}"
    and "unat e \<le> unat (m_end_address h) \<Longrightarrow> unat e' \<le> unat (m_end_address h)"
    and "u \<in> set (m_allocated_block_list h) \<Longrightarrow> s \<le> unat e \<Longrightarrow> out_region s (unat e) (blocks h) u \<Longrightarrow>
         out_region s (unat e') (blocks h) u"
    and "bk \<Longrightarrow> unat e + 32 \<le> unat e'"
proof -
  have "(\<forall>b\<in>set B'. unat e' < unat b) \<and> set B' \<subseteq> set B \<and>
    sorted_wrt (\<lambda>a b. blk_end (blocks h) a < unat b) B' \<and> unat e \<le> unat e' \<and>
    (\<Union>a\<in>set B. {unat a ..< blk_end (blocks h) a}) =
         (\<Union>a\<in>set B'. {unat a ..< blk_end (blocks h) a}) \<union> {unat e ..< unat e'} \<and>
    (unat e \<le> unat (m_end_address h) \<longrightarrow> unat e' \<le> unat (m_end_address h)) \<and>
    (u \<in> set (m_allocated_block_list h) \<longrightarrow> s \<le> unat e \<longrightarrow> out_region s (unat e) (blocks h) u \<longrightarrow>
         out_region s (unat e') (blocks h) u) \<and> (bk \<longrightarrow> unat e + 32 \<le> unat e')"
  proof (cases bk)
    case True
    then obtain p bs where p: "B = p # bs" "e = p" by (cases B) (auto simp: bk_def)
    have pf: "p \<in> set (m_free_block_list h)" using sub p by simp
    have e': "unat (blk_stop h p) = blk_end (blocks h) p" using unat_blk_stop [OF inv, of p] pf by simp
    have "unat p + 32 \<le> blk_end (blocks h) p" "blk_end (blocks h) p \<le> unat (m_end_address h)"
      using blk_end_gt [of p "blocks h"] exp_invD(9) [OF inv, of p] pf by auto
    moreover have "out_region s (blk_end (blocks h) p) (blocks h) u"
      if "u \<in> set (m_allocated_block_list h)" "s \<le> unat e" "out_region s (unat e) (blocks h) u"
    proof -
      have "u \<noteq> p" using that(1) pf exp_invD(12) [OF inv] by auto
      then have "apart (blocks h) u p" using exp_invD(10) [OF inv, of u p] that(1) pf by simp
      then show ?thesis
        using that(2,3) p(2) blk_lo_free [OF inv pf] blk_lo_le [of "blocks h" u] blk_end_gt [of u "blocks h"]
        by (auto simp: apart_def out_region_def)
    qed
    ultimately show ?thesis
      using True p AB e' by (auto simp: B'_def e'_def)
  next
    case False
    have "unat e < unat b" if b: "b \<in> set B" for b
    proof (cases "b = hd B")
      case True
      then have "e \<noteq> b" using False b by (auto simp: bk_def)
      then show ?thesis using after b by (metis le_neq_implies_less word_eq_unat_iff)
    next
      case ne: False
      then obtain bs p where B: "B = p # bs" "b \<in> set bs"
        using b by (cases B) auto
      then have "blk_end (blocks h) p < unat b" using AB by simp
      then show ?thesis using after B(1) blk_end_gt [of p "blocks h"] by simp
    qed
    then show ?thesis using False AB by (simp add: B'_def e'_def)
  qed
  then show "b \<in> set B' \<Longrightarrow> unat e' < unat b" and "set B' \<subseteq> set B"
    and "sorted_wrt (\<lambda>a b. blk_end (blocks h) a < unat b) B'"
    and "unat e \<le> unat e'"
    and "(\<Union>a\<in>set B. {unat a ..< blk_end (blocks h) a}) =
         (\<Union>a\<in>set B'. {unat a ..< blk_end (blocks h) a}) \<union> {unat e ..< unat e'}"
    and "unat e \<le> unat (m_end_address h) \<Longrightarrow> unat e' \<le> unat (m_end_address h)"
    and "u \<in> set (m_allocated_block_list h) \<Longrightarrow> s \<le> unat e \<Longrightarrow> out_region s (unat e) (blocks h) u \<Longrightarrow>
         out_region s (unat e') (blocks h) u"
    and "bk \<Longrightarrow> unat e + 32 \<le> unat e'"
    by blast+
qed

lemma AddFreeBlock_spec:
  assumes inv: "exp_inv h" and hole: "hole h s e" and res: "AddFreeBlock s e h = (ok, h')"
  shows "exp_inv h'" and "m_allocated_block_list h' = m_allocated_block_list h"
    and "\<And>u. u \<in> set (m_allocated_block_list h) \<Longrightarrow> blocks h' u = blocks h u"
    and "m_start_address h' = m_start_address h" and "m_end_address h' = m_end_address h"
    and "m_allocation_mode h' = m_allocation_mode h"
    and "ok \<Longrightarrow> free_bytes h' = free_bytes h \<union> {unat s ..< unat e}"
    and "\<not> ok \<Longrightarrow> h' = h \<and> unat e < unat s + 32"
    and "unat s + 32 \<le> unat e \<Longrightarrow> ok"
proof -
  obtain A B where F: "m_free_block_list h = A @ B" and A: "\<forall>a\<in>set A. a < s" and B: "\<forall>b\<in>set B. s \<le> b"
    using free_list_split [OF inv] by blast
  note D = exp_invD [OF inv]
  have se: "unat s \<le> unat e" "unat e \<le> unat (m_end_address h)" "unat (m_start_address h) \<le> unat s"
    and out: "\<And>b. b \<in> all_blocks h \<Longrightarrow> out_region (unat s) (unat e) (blocks h) b"
    using hole by (auto simp: hole_def)
  have subA: "set A \<subseteq> set (m_free_block_list h)" and subB: "set B \<subseteq> set (m_free_block_list h)" using F by auto
  have sorted: "sorted_wrt (\<lambda>a b. blk_end (blocks h) a < unat b) A"
    "sorted_wrt (\<lambda>a b. blk_end (blocks h) a < unat b) B"
    "\<forall>a\<in>set A. \<forall>b\<in>set B. blk_end (blocks h) a < unat b"
    using D(3) by (auto simp: F sorted_wrt_append)
  have endA: "blk_end (blocks h) a \<le> unat s" if "a \<in> set A" for a
  proof -
    have "unat a < unat s" using A that by (simp add: word_less_nat_alt)
    then show ?thesis using out [of a] that subA blk_lo_free [OF inv, of a] se(1)
      by (auto simp: out_region_def)
  qed
  have begB: "unat e \<le> unat b" if "b \<in> set B" for b
  proof -
    have "unat s \<le> unat b" using B that by (simp add: word_le_nat_alt)
    then show ?thesis using out [of b] that subB blk_lo_free [OF inv, of b] blk_end_gt [of b "blocks h"]
      by (auto simp: out_region_def)
  qed
  have endA': "\<forall>a\<in>set A. blk_end (blocks h) a \<le> unat s" and begB': "\<forall>b\<in>set B. unat e \<le> unat b"
    using endA begB by blast+
  define fr where "fr \<longleftrightarrow> A \<noteq> [] \<and> s = blk_stop h (last A)"
  define bk where "bk \<longleftrightarrow> B \<noteq> [] \<and> e = hd B"
  define A' where "A' = (if fr then butlast A else A)"
  define s' where "s' = (if fr then last A else s)"
  define B' where "B' = (if bk then tl B else B)"
  define e' where "e' = (if bk then blk_stop h (hd B) else e)"
  note FP = front_part [OF inv subA sorted(1) endA', folded fr_def, folded A'_def s'_def]
  note BP = back_part [OF inv subB sorted(2) begB', folded bk_def, folded B'_def e'_def]
  have "last A \<noteq> e" if "A \<noteq> []"
    using endA [OF last_in_set [OF that]] blk_end_gt [of "last A" "blocks h"] se(1) by auto
  with AddFreeBlock_eq [OF F _ A B, of e] free_list_distinct [OF inv] D(12)
  have eq: "AddFreeBlock s e h = add_free_result A' s' e' B' h"
    by (simp add: F fr_def bk_def A'_def s'_def B'_def e'_def Let_def)
  have le: "unat s' \<le> unat e'" using FP(4) BP(4) se(1) by simp
  have sz: "unat (e' - s') = unat e' - unat s'" using le by (rule unat_sub_nowrap)
  have "exp_inv h' \<and> m_allocated_block_list h' = m_allocated_block_list h \<and>
    (\<forall>u\<in>set (m_allocated_block_list h). blocks h' u = blocks h u) \<and> m_start_address h' = m_start_address h \<and>
    m_end_address h' = m_end_address h \<and> m_allocation_mode h' = m_allocation_mode h \<and>
    (ok \<longrightarrow> free_bytes h' = free_bytes h \<union> {unat s ..< unat e}) \<and>
    (\<not> ok \<longrightarrow> h' = h \<and> unat e < unat s + 32) \<and> (unat s + 32 \<le> unat e \<longrightarrow> ok)"
  proof (cases "e' - s' < sizeof_block")
    case True
    then have small: "unat e' < unat s' + 32" using sz le by (simp add: word_less_nat_alt)
    have "\<not> fr" using FP(8) small se(1) BP(4) by auto
    moreover have "\<not> bk" using BP(8) small se(1) FP(4) by auto
    ultimately have A'B': "A' = A" "B' = B" "s' = s" "e' = e"
      by (simp_all add: A'_def B'_def s'_def e'_def)
    have "h\<lparr>m_free_block_list := A @ B\<rparr> = h" using F by (cases h) simp
    with A'B' have "h' = h \<and> \<not> ok" using res True by (simp add: eq add_free_result_def)
    then show ?thesis using inv small \<open>s' = s\<close> \<open>e' = e\<close> by simp
  next
    case False
    then have big: "unat s' + 32 \<le> unat e'" using sz le by (simp add: word_less_nat_alt)
    let ?m = "(blocks h)(s' := free_blk (e' - s' - sizeof_block))"
    have h': "ok" "h' = h\<lparr>m_free_block_list := A' @ [s'] @ B', m_allocated_block_list := m_allocated_block_list h, blocks := ?m\<rparr>"
      using res False by (simp_all add: eq add_free_result_def)
    have "unat (e' - s' - sizeof_block) = unat e' - unat s' - 32"
      using sz big by (simp add: unat_sub_nowrap)
    then have end': "blk_end ?m s' = unat e'" and lo': "blk_lo ?m s' = unat s'"
      using big by (simp_all add: blk_end_def blk_lo_def free_blk_def)
    have outU: "out_region (unat s') (unat e') (blocks h) u" if "u \<in> set (m_allocated_block_list h)" for u
      using that FP(7) [of u "unat e'"] BP(7) [of u "unat s"] out [of u] se(1) BP(4) by simp
    have neq: "b \<noteq> s'" if "b \<in> set A' \<union> set B' \<union> set (m_allocated_block_list h)" for b
      using that FP(1) [of b] BP(1) [of b] outU [of b] le big blk_end_gt [of b "blocks h"] blk_lo_le [of "blocks h" b]
      by (auto simp: out_region_def)
    have inv': "exp_inv h'" unfolding h'(2)
    proof (rule exp_inv_replace [OF inv, where U = "set (m_allocated_block_list h)" and V = "{}" and lo = "unat s'" and hi = "unat e'"])
      show "set A' \<union> set B' \<subseteq> set (m_free_block_list h)" using FP(2) BP(2) F by auto
      show "sorted_wrt (\<lambda>a b. blk_end (blocks h) a < unat b) (A' @ B')"
        using FP(2,3) BP(2,3) sorted(3) by (auto simp: sorted_wrt_append)
      show "unat (m_start_address h) \<le> unat s'" by (rule FP(6) [OF se(3)])
      show "unat e' \<le> unat (m_end_address h)" by (rule BP(6) [OF se(2)])
    qed (use neq FP(1) BP(1) outU end' lo' D(11) in \<open>auto simp: in_region_def free_blk_def\<close>)
    moreover have "free_bytes h' = free_bytes h \<union> {unat s ..< unat e}"
    proof -
      have same: "blk_end ?m a = blk_end (blocks h) a" if "a \<in> set A' \<union> set B'" for a
        using neq [of a] that by (auto simp: blk_end_def)
      have "free_bytes h' = (\<Union>a\<in>set A'. {unat a ..< blk_end (blocks h) a}) \<union> {unat s' ..< unat e'} \<union>
          (\<Union>a\<in>set B'. {unat a ..< blk_end (blocks h) a})"
        using same end' by (auto simp: free_bytes_def h'(2))
      also have "\<dots> = (\<Union>a\<in>set A. {unat a ..< blk_end (blocks h) a}) \<union> {unat s ..< unat e} \<union>
          (\<Union>a\<in>set B. {unat a ..< blk_end (blocks h) a})"
      proof -
        have "{unat s' ..< unat e'} = {unat s' ..< unat s} \<union> {unat s ..< unat e} \<union> {unat e ..< unat e'}"
          using FP(4) BP(4) se(1) by auto
        then show ?thesis unfolding FP(5) BP(5) by (simp only: Un_ac)
      qed
      finally show ?thesis by (auto simp: free_bytes_def F)
    qed
    moreover have "\<forall>u\<in>set (m_allocated_block_list h). blocks h' u = blocks h u"
      using neq h'(2) by auto
    ultimately show ?thesis using h' by simp
  qed
  then show "exp_inv h'" and "m_allocated_block_list h' = m_allocated_block_list h"
    and "\<And>u. u \<in> set (m_allocated_block_list h) \<Longrightarrow> blocks h' u = blocks h u"
    and "m_start_address h' = m_start_address h" and "m_end_address h' = m_end_address h"
    and "m_allocation_mode h' = m_allocation_mode h"
    and "ok \<Longrightarrow> free_bytes h' = free_bytes h \<union> {unat s ..< unat e}"
    and "\<not> ok \<Longrightarrow> h' = h \<and> unat e < unat s + 32"
    and "unat s + 32 \<le> unat e \<Longrightarrow> ok" by blast+
qed

section \<open>\<open>AddUsedBlock\<close>\<close>

definition used_span :: "exp_heap \<Rightarrow> u64 \<Rightarrow> nat set" where
  "used_span h b = {blk_lo (blocks h) b ..< blk_end (blocks h) b}"

lemma AddUsedBlock_spec:
  assumes inv: "exp_inv h" and b: "b \<in> set (m_free_block_list h)"
    and fit: "unat b + 32 \<le> unat addr" "unat addr + unat sz \<le> blk_end (blocks h) b"
  defines "h' \<equiv> AddUsedBlock b addr sz h" and "u \<equiv> addr - sizeof_block"
  shows "exp_inv h'" and "m_allocated_block_list h' = m_allocated_block_list h @ [u]"
    and "\<And>v. v \<in> set (m_allocated_block_list h) \<Longrightarrow> blocks h' v = blocks h v"
    and "m_start_address h' = m_start_address h" and "m_end_address h' = m_end_address h"
    and "m_allocation_mode h' = m_allocation_mode h"
    and "used_span h' u \<subseteq> free_bytes h" and "free_bytes h' = free_bytes h - used_span h' u"
    and "unat u + 32 = unat addr" and "unat sz \<le> unat (block_size (blocks h' u))"
    and "unat (block_size (blocks h' u)) < unat sz + 36"
    and "blk_end (blocks h') u \<le> blk_end (blocks h) b" and "unat b \<le> blk_lo (blocks h') u"
proof -
  note D = exp_invD [OF inv]
  obtain A B where F: "m_free_block_list h = A @ b # B" using b split_list by metis
  have ab: "b \<in> all_blocks h" using b by simp
  have hi: "blk_end (blocks h) b \<le> unat (m_end_address h)" "blk_end (blocks h) b < 9223372036854775808"
    "unat (m_start_address h) \<le> unat b"
    using D(8,9) [OF ab] blk_end_lt [OF inv ab] blk_lo_free [OF inv b] by auto
  have u: "unat u = unat addr - 32" unfolding u_def using fit(1) by (simp add: unat_sub_nowrap)
  define gap where "gap = u - b"
  have gap: "unat gap = unat addr - 32 - unat b" unfolding gap_def using u fit(1) by (simp add: unat_sub_nowrap)
  have as: "unat (addr + sz) = unat addr + unat sz" using fit(2) hi(2) by (simp add: unat_add_nowrap)
  define rest where "rest = blk_stop h b - (addr + sz)"
  have rest: "unat rest = blk_end (blocks h) b - (unat addr + unat sz)"
    unfolding rest_def using unat_blk_stop [OF inv ab] as fit(2) by (simp add: unat_sub_nowrap)
  define fr where "fr \<longleftrightarrow> min_block \<le> gap"
  define bk where "bk \<longleftrightarrow> min_block \<le> rest"
  have fr: "fr \<longleftrightarrow> 36 \<le> unat addr - 32 - unat b" by (simp add: fr_def word_le_nat_alt gap)
  have bk: "bk \<longleftrightarrow> 36 \<le> blk_end (blocks h) b - (unat addr + unat sz)" by (simp add: bk_def word_le_nat_alt rest)
  define m1 where "m1 = (if fr then (blocks h)(b := free_blk (gap - sizeof_block)) else blocks h)"
  define m2 where "m2 = (if bk then m1(addr + sz := free_blk (rest - sizeof_block)) else m1)"
  define m' where "m' = m2(u := used_blk (if fr then 0 else gap) (if bk then sz else sz + rest))"
  define N where "N = (if fr then [b] else []) @ (if bk then [addr + sz] else [])"
  have d: "distinct (A @ b # B)" using free_list_distinct [OF inv] by (simp add: F)
  have h': "h' = h\<lparr>m_free_block_list := A @ N @ B, m_allocated_block_list := m_allocated_block_list h @ [u], blocks := m'\<rparr>"
  proof -
    have "b \<notin> set (m_allocated_block_list h)" using D(12) b by auto
    from AddUsedBlock_eq [OF F d this, of addr sz] show ?thesis
      by (simp only: h'_def add_used_result_def Let_def N_def m'_def m2_def m1_def fr_def bk_def gap_def
          u_def rest_def append_assoc)
  qed
  have neq: "fr \<Longrightarrow> b \<noteq> u" "bk \<Longrightarrow> addr + sz \<noteq> u" "addr + sz \<noteq> b"
    using fr u as fit(1) by (auto simp: word_eq_unat_iff)
  have pad: "unat (ucast gap :: u8) = unat gap" if "\<not> fr"
  proof -
    have "unat gap < 256" using that fr gap by simp
    then show ?thesis by (simp add: unsigned_ucast_eq take_bit_nat_eq_self)
  qed
  have mu: "alloc_magic (m' u) = cAllocMagic" "blk_lo m' u = (if fr then unat u else unat b)"
    using pad gap u fit(1) by (auto simp: m'_def used_blk_def blk_lo_def)
  have szu: "unat (block_size (m' u)) = (if bk then unat sz else blk_end (blocks h) b - unat addr)"
    using rest fit hi(2) by (simp add: m'_def used_blk_def unat_add_nowrap)
  then have eu: "blk_end m' u = (if bk then unat (addr + sz) else blk_end (blocks h) b)"
    using u as fit by (simp add: blk_end_def)
  have mb: "m' b = free_blk (gap - sizeof_block)" "blk_lo m' b = unat b" "blk_end m' b = unat u" if fr
  proof -
    show mb: "m' b = free_blk (gap - sizeof_block)" using that neq by (auto simp: m'_def m2_def m1_def)
    show "blk_lo m' b = unat b" by (simp add: blk_lo_def mb free_blk_def)
    show "blk_end m' b = unat u" using that fr gap u by (simp add: blk_end_def mb free_blk_def unat_sub_nowrap)
  qed
  have mn: "m' (addr + sz) = free_blk (rest - sizeof_block)" "blk_lo m' (addr + sz) = unat (addr + sz)"
    "blk_end m' (addr + sz) = blk_end (blocks h) b" if bk
  proof -
    show mn: "m' (addr + sz) = free_blk (rest - sizeof_block)" using that neq by (auto simp: m'_def m2_def)
    show "blk_lo m' (addr + sz) = unat (addr + sz)" by (simp add: blk_lo_def mn free_blk_def)
    show "blk_end m' (addr + sz) = blk_end (blocks h) b"
      using that bk rest as fit by (simp add: blk_end_def mn free_blk_def unat_sub_nowrap)
  qed
  have sorted: "sorted_wrt (\<lambda>a c. blk_end (blocks h) a < unat c) (A @ b # B)" using D(3) F by simp
  have outU: "out_region (unat b) (blk_end (blocks h) b) (blocks h) v" if "v \<in> set (m_allocated_block_list h)" for v
  proof -
    have "v \<noteq> b" using that b D(12) by auto
    then have "apart (blocks h) v b" using D(10) [of v b] that b by simp
    then show ?thesis using blk_lo_free [OF inv b] by (auto simp: apart_def out_region_def)
  qed
  have same: "m' v = blocks h v" if "v \<in> set A \<union> set B \<union> set (m_allocated_block_list h)" for v
  proof -
    have "unat v < unat b \<or> blk_end (blocks h) b \<le> unat v \<or> v \<in> set (m_allocated_block_list h)"
      using that sorted blk_end_gt [of v "blocks h"] by (fastforce simp: sorted_wrt_append)
    then have "v \<noteq> b \<and> v \<noteq> u \<and> (bk \<longrightarrow> v \<noteq> addr + sz)"
      using outU [of v] blk_end_gt [of v "blocks h"] blk_lo_le [of "blocks h" v] blk_end_gt [of b "blocks h"] u as bk fit
      by (auto simp: out_region_def word_eq_unat_iff)
    then show ?thesis by (auto simp: m'_def m2_def m1_def)
  qed
  show inv': "exp_inv h'" unfolding h'
  proof (rule exp_inv_replace [OF inv, where U = "set (m_allocated_block_list h)" and V = "{u}"
        and lo = "unat b" and hi = "blk_end (blocks h) b"])
    show "set A \<union> set B \<subseteq> set (m_free_block_list h)" using F by auto
    show "sorted_wrt (\<lambda>a c. blk_end (blocks h) a < unat c) (A @ B)"
      using sorted by (simp add: sorted_wrt_append)
    show "sorted_wrt (\<lambda>a c. blk_end m' a < unat c) N"
      using mb mn u as fit by (auto simp: N_def)
    show "alloc_magic (m' n) = cFreeMagic \<and> alignment (m' n) = 0" if "n \<in> set N" for n
      using that mb(1) mn(1) by (auto simp: N_def free_blk_def split: if_splits)
    show "alloc_magic (m' v) = cAllocMagic \<and> unat (alignment (m' v)) \<le> unat v" if "v \<in> {u}" for v
      using that pad gap u fit(1) by (auto simp: m'_def used_blk_def)
    show "in_region (unat b) (blk_end (blocks h) b) m' n" if "n \<in> set N \<union> {u}" for n
      using that mb mn mu eu u as fit blk_end_gt [of b "blocks h"] by (auto simp: N_def in_region_def split: if_splits)
    show "apart m' x y" if "x \<in> set N \<union> {u}" "y \<in> set N \<union> {u}" "x \<noteq> y" for x y
      using that mb mn mu eu u as fit by (auto simp: N_def apart_def split: if_splits)
    show "set N \<inter> {u} = {}" using neq by (auto simp: N_def)
    have "u \<notin> set (m_allocated_block_list h)"
      using outU [of u] blk_end_gt [of u "blocks h"] blk_lo_le [of "blocks h" u] u fit
      by (auto simp: out_region_def)
    then show "distinct (m_allocated_block_list h @ [u])" using D(11) by simp
  qed (use same outU sorted hi in \<open>auto simp: sorted_wrt_append\<close>)
  have FB: "free_bytes h = (\<Union>a\<in>set A \<union> set B. {unat a ..< blk_end (blocks h) a}) \<union> {unat b ..< blk_end (blocks h) b}"
    by (auto simp: free_bytes_def F)
  have FB': "free_bytes h' = (\<Union>a\<in>set A \<union> set B. {unat a ..< blk_end (blocks h) a}) \<union>
      (\<Union>a\<in>set N. {unat a ..< blk_end m' a})"
  proof -
    have "blk_end m' a = blk_end (blocks h) a" if "a \<in> set A \<union> set B" for a
      using same [of a] that by (auto simp: blk_end_def)
    then show ?thesis by (auto simp: free_bytes_def h')
  qed
  have SP: "used_span h' u = {(if fr then unat u else unat b) ..< (if bk then unat (addr + sz) else blk_end (blocks h) b)}"
    by (simp add: used_span_def h' mu(2) eu)
  have NB: "(\<Union>a\<in>set N. {unat a ..< blk_end m' a}) = {unat b ..< blk_end (blocks h) b} - used_span h' u"
    using mb mn u as fit blk_end_gt [of b "blocks h"] by (auto simp: N_def SP split: if_splits)
  show "used_span h' u \<subseteq> free_bytes h" unfolding FB SP using u as fit by auto
  have "(\<Union>a\<in>set A \<union> set B. {unat a ..< blk_end (blocks h) a}) \<inter> used_span h' u = {}"
  proof -
    have "{unat a ..< blk_end (blocks h) a} \<inter> {unat b ..< blk_end (blocks h) b} = {}"
      if "a \<in> set A \<union> set B" for a
    proof -
      have "blk_end (blocks h) a \<le> unat b \<or> blk_end (blocks h) b \<le> unat a"
        using that sorted by (fastforce simp: sorted_wrt_append)
      then show ?thesis by auto
    qed
    moreover have "used_span h' u \<subseteq> {unat b ..< blk_end (blocks h) b}" unfolding SP using u as fit by auto
    ultimately show ?thesis by blast
  qed
  then show "free_bytes h' = free_bytes h - used_span h' u" unfolding FB FB' NB by blast
  show "m_allocated_block_list h' = m_allocated_block_list h @ [u]" "m_start_address h' = m_start_address h"
    "m_end_address h' = m_end_address h" "m_allocation_mode h' = m_allocation_mode h" by (simp_all add: h')
  show "blocks h' v = blocks h v" if "v \<in> set (m_allocated_block_list h)" for v
    using same [of v] that by (simp add: h')
  show "unat u + 32 = unat addr" using u fit(1) by simp
  show "unat sz \<le> unat (block_size (blocks h' u))" "unat (block_size (blocks h' u)) < unat sz + 36"
    using szu bk fit by (auto simp: h')
  show "blk_end (blocks h') u \<le> blk_end (blocks h) b" "unat b \<le> blk_lo (blocks h') u"
    using eu mu(2) as fit u by (auto simp: h')
qed

end
