(* ===== verification/Exp_Heap_Ops.thy ===== *)
theory Exp_Heap_Ops
  imports Exp_Heap_Inv
begin

text \<open>
  The public operations of \<open>ExpHeap\<close> against the invariant: the two searches of \<open>TryAllocate\<close>, the
  allocation itself, \<open>Free\<close>, the largest allocatable size, and \<open>AdjustAllocation\<close>.
\<close>

section \<open>Alignments\<close>

text \<open>The alignments a caller can mean: anything below 4 is raised to 4, otherwise a power of two.\<close>

definition valid_alignment :: "u32 \<Rightarrow> bool" where
  "valid_alignment align \<longleftrightarrow> sint align < 4 \<or> (\<exists>k<31. align = 2 ^ k)"

lemma scast_pow2: "k < 31 \<Longrightarrow> scast (2 ^ k :: u32) = (2 ^ k :: u64)"
  by (rule bit_word_eqI) (auto simp: bit_simps)

lemma valid_alignment_enforced:
  assumes "valid_alignment align"
  obtains k where "2 \<le> k" "k < 31" "enforce_alignment align = 2 ^ k"
    "scast (enforce_alignment align) = (2 ^ k :: u64)"
proof (cases "sint align < 4")
  case True
  then have e: "enforce_alignment align = 2 ^ 2"
    by (simp add: enforce_alignment_def cMinimumAlignment_def)
  show thesis by (rule that [of 2]) (simp_all add: e)
next
  case False
  then obtain k where k: "k < 31" "align = 2 ^ k" using assms by (auto simp: valid_alignment_def)
  have "sint align = 2 ^ k" unfolding k(2) using k(1)
    by transfer (simp add: signed_take_bit_eq_if_positive take_bit_int_eq_self bit_simps)
  then have "2 \<le> k" using False power_strict_increasing_iff [of "2 :: int" k 2] by simp
  moreover have e: "enforce_alignment align = 2 ^ k"
    using False k(2) by (simp add: enforce_alignment_def cMinimumAlignment_def)
  ultimately show thesis using that [of k] k(1) by (simp add: scast_pow2)
qed

section \<open>Fitting a block\<close>

text \<open>The first address of a free block's memory that is a multiple of \<open>a\<close>.\<close>

definition fit_start :: "nat \<Rightarrow> u64 \<Rightarrow> nat" where
  "fit_start a b = (unat b + 32 + (a - 1)) div a * a"

definition fits :: "exp_heap \<Rightarrow> nat \<Rightarrow> nat \<Rightarrow> u64 \<Rightarrow> bool" where
  "fits h a n b \<longleftrightarrow> b \<in> set (m_free_block_list h) \<and> fit_start a b + n \<le> blk_end (blocks h) b"

definition room :: "exp_heap \<Rightarrow> nat \<Rightarrow> nat \<Rightarrow> bool" where
  "room h a n \<longleftrightarrow> (\<exists>b\<in>set (m_free_block_list h). fits h a n b)"

lemma align_up_nat: "(n :: nat) \<le> (n + (2 ^ k - 1)) div 2 ^ k * 2 ^ k" "(n + (2 ^ k - 1)) div 2 ^ k * 2 ^ k < n + 2 ^ k"
proof -
  have p: "(0 :: nat) < 2 ^ k" by simp
  have "(n + (2 ^ k - 1)) div 2 ^ k * 2 ^ k = n + (2 ^ k - 1) - (n + (2 ^ k - 1)) mod 2 ^ k"
    by (rule minus_mod_eq_div_mult [symmetric])
  moreover have "(n + (2 ^ k - 1)) mod 2 ^ k < 2 ^ k" using p by (rule mod_less_divisor)
  moreover have "(n + (2 ^ k - 1)) mod 2 ^ k \<le> n + (2 ^ k - 1)" by (rule mod_less_eq_dividend)
  ultimately show "n \<le> (n + (2 ^ k - 1)) div 2 ^ k * 2 ^ k" "(n + (2 ^ k - 1)) div 2 ^ k * 2 ^ k < n + 2 ^ k"
    using p by linarith+
qed

lemma fit_start_bounds: "unat b + 32 \<le> fit_start (2 ^ k) b" "fit_start (2 ^ k) b < unat b + 32 + 2 ^ k" "2 ^ k dvd fit_start (2 ^ k) b"
  unfolding fit_start_def by (rule align_up_nat)+ simp

lemma fit_start_word:
  assumes inv: "exp_inv h" and b: "b \<in> set (m_free_block_list h)" and k: "k < 31"
  shows "unat (AlignUp (b + sizeof_block) (2 ^ k)) = fit_start (2 ^ k) b"
proof -
  have "unat b + 32 < 9223372036854775808"
    using blk_end_lt [OF inv, of b] blk_end_gt [of b "blocks h"] b by simp
  moreover have "(2 :: nat) ^ k < 2 ^ 31" using k by (intro power_strict_increasing) auto
  moreover from calculation have "unat (b + sizeof_block) = unat b + 32" by (simp add: unat_add_nowrap)
  ultimately show ?thesis unfolding fit_start_def using k by (subst AlignUp_pow2) simp_all
qed

text \<open>The test of both searches, without its wrap-around.\<close>

lemma fits_iff:
  assumes inv: "exp_inv h" and b: "b \<in> set (m_free_block_list h)" and k: "k < 31"
    and asz: "2 ^ k dvd unat asz \<or> unat asz < 2 ^ 63"
  shows "(asz - sizeof_block) - b + AlignUp (b + sizeof_block) (2 ^ k) \<le> block_size (blocks h b) \<longleftrightarrow>
     fits h (2 ^ k) (unat asz) b"
proof -
  let ?a = "AlignUp (b + sizeof_block) (2 ^ k)"
  have a: "unat ?a = fit_start (2 ^ k) b" by (rule fit_start_word [OF inv b k])
  have e: "blk_end (blocks h) b < 9223372036854775808" "unat b + 32 + unat (block_size (blocks h b)) = blk_end (blocks h) b"
    using blk_end_lt [OF inv, of b] b by (simp_all add: blk_end_def)
  then have b32: "unat (b + sizeof_block) = unat b + 32" by (simp add: unat_add_nowrap)
  define gap where "gap = ?a - (b + sizeof_block)"
  have gap: "unat gap = fit_start (2 ^ k) b - (unat b + 32)"
    unfolding gap_def using a b32 fit_start_bounds(1) [of b k] by (simp add: unat_sub_nowrap)
  have k31: "(2 :: nat) ^ k < 2 ^ 31" using k by (intro power_strict_increasing) auto
  have "unat asz + 2 ^ k \<le> 2 ^ 64"
  proof (cases "unat asz < 2 ^ 63")
    case False
    then have "2 ^ k dvd unat asz" using asz by simp
    moreover have "(2 :: nat) ^ k dvd 2 ^ 64" using k by (intro le_imp_power_dvd) simp
    ultimately have "2 ^ k dvd 2 ^ 64 - unat asz" by (rule dvd_diff_nat [rotated])
    moreover have "0 < 2 ^ 64 - unat asz" using unat_lt_64 [of asz] by simp
    ultimately have "2 ^ k \<le> 2 ^ 64 - unat asz" by (rule dvd_imp_le)
    moreover have "unat asz < 2 ^ 64" using unsigned_less [of asz] by simp
    ultimately show ?thesis by linarith
  qed (use k31 in simp)
  then have sum: "unat (asz + gap) = unat asz + unat gap"
    using gap fit_start_bounds(1) [of b k] fit_start_bounds(2) [of k b] by (intro unat_add_nowrap) simp
  have eq: "(asz - sizeof_block) - b + ?a = asz + gap" by (simp add: gap_def)
  show ?thesis unfolding eq word_le_nat_alt sum gap fits_def
    using e fit_start_bounds(1) [of b k] b by auto
qed

text \<open>First fit returns the first block of the list that fits.\<close>

lemma first_fit_spec:
  assumes fit: "\<And>b. b \<in> set bs \<Longrightarrow>
      ((asz - sizeof_block) - b + AlignUp (b + sizeof_block) align \<le> block_size (m b)) = P b"
  shows "first_fit m asz align addr bs = (f, addr') \<Longrightarrow>
    (case f of None \<Rightarrow> \<forall>b\<in>set bs. \<not> P b
     | Some b \<Rightarrow> (\<exists>xs ys. bs = xs @ b # ys \<and> (\<forall>x\<in>set xs. \<not> P x)) \<and> P b \<and> addr' = AlignUp (b + sizeof_block) align)"
  using fit
proof (induction bs arbitrary: addr)
  case (Cons b bs)
  show ?case
  proof (cases "P b")
    case True
    then have "f = Some b" "addr' = AlignUp (b + sizeof_block) align"
      using Cons.prems(1) Cons.prems(2) [of b] by (simp_all add: Let_def)
    moreover have "\<exists>xs ys. b # bs = xs @ b # ys \<and> (\<forall>x\<in>set xs. \<not> P x)" by (rule exI [of _ "[]"]) auto
    ultimately show ?thesis using True by simp
  next
    case False
    then have r: "first_fit m asz align (AlignUp (b + sizeof_block) align) bs = (f, addr')"
      using Cons.prems(1) Cons.prems(2) [of b] by (simp add: Let_def)
    have IH: "case f of None \<Rightarrow> \<forall>b\<in>set bs. \<not> P b
     | Some b \<Rightarrow> (\<exists>xs ys. bs = xs @ b # ys \<and> (\<forall>x\<in>set xs. \<not> P x)) \<and> P b \<and> addr' = AlignUp (b + sizeof_block) align"
      by (rule Cons.IH [OF r]) (use Cons.prems(2) in auto)
    show ?thesis
    proof (cases f)
      case None
      then show ?thesis using IH False by simp
    next
      case (Some c)
      then obtain xs ys where "bs = xs @ c # ys" "\<forall>x\<in>set xs. \<not> P x" using IH by auto
      then have "b # bs = (b # xs) @ c # ys \<and> (\<forall>x\<in>set (b # xs). \<not> P x)" using False by simp
      then have "\<exists>xs ys. b # bs = xs @ c # ys \<and> (\<forall>x\<in>set xs. \<not> P x)" by blast
      then show ?thesis using IH Some by simp
    qed
  qed
qed simp

text \<open>Best fit returns a smallest block that fits.\<close>

definition best_so_far :: "(u64 \<Rightarrow> exp_block) \<Rightarrow> (u64 \<Rightarrow> bool) \<Rightarrow> u64 \<Rightarrow> u64 set \<Rightarrow> u64 option \<Rightarrow> u64 \<Rightarrow> bool" where
  "best_so_far m P align X f addr \<longleftrightarrow>
     (case f of None \<Rightarrow> \<forall>b\<in>X. \<not> P b
      | Some b \<Rightarrow> b \<in> X \<and> P b \<and> (\<forall>x\<in>X. P x \<longrightarrow> block_size (m b) \<le> block_size (m x)) \<and>
                  addr = AlignUp (b + sizeof_block) align)"

lemma best_fit_spec:
  assumes fit: "\<And>b. b \<in> set bs \<Longrightarrow>
      ((asz - sizeof_block) - b + AlignUp (b + sizeof_block) align \<le> block_size (m b)) = P b"
    and big: "\<And>b. b \<in> set bs \<Longrightarrow> block_size (m b) < 0xffffffffffffffff"
    and least: "\<And>b. b \<in> X \<union> set bs \<Longrightarrow> P b \<Longrightarrow> asz \<le> block_size (m b)"
    and acc: "best_so_far m P align X c a" "s = (case c of None \<Rightarrow> 0xffffffffffffffff | Some b \<Rightarrow> block_size (m b))"
  shows "best_fit m asz align s a c a bs = (f, addr') \<Longrightarrow> best_so_far m P align (X \<union> set bs) f addr'"
  using assms
proof (induction bs arbitrary: X s a c)
  case (Cons b bs)
  let ?al = "AlignUp (b + sizeof_block) align"
  have Pb: "((asz - sizeof_block) - b + ?al \<le> block_size (m b)) = P b" using Cons.prems(2) by simp
  have rest: "X \<union> set (b # bs) = insert b X \<union> set bs" by auto
  have gen: "best_so_far m P align (insert b X \<union> set bs) f addr'"
    if r: "best_fit m asz align s' a' c' a' bs = (f, addr')" and acc': "best_so_far m P align (insert b X) c' a'"
      and s': "s' = (case c' of None \<Rightarrow> 0xffffffffffffffff | Some b \<Rightarrow> block_size (m b))" for s' a' c'
    by (rule Cons.IH [OF r]) (use Cons.prems(2-4) acc' s' in auto)
  show ?case
  proof (cases "block_size (m b) < s \<and> P b")
    case True
    have now: "best_so_far m P align (insert b X) (Some b) ?al"
      using True Cons.prems(5,6) by (auto simp: best_so_far_def split: option.splits)
    show ?thesis
    proof (cases "block_size (m b) = asz")
      case eq: True
      then have "f = Some b" "addr' = ?al" using True Pb Cons.prems(1) by (auto simp: Let_def)
      then show ?thesis using True eq Cons.prems(4) by (auto simp: best_so_far_def)
    next
      case False
      then show ?thesis unfolding rest
        by (intro gen [of "block_size (m b)" ?al "Some b", OF _ now]) (use True Pb Cons.prems(1) in \<open>simp_all add: Let_def\<close>)
    qed
  next
    case False
    have "best_so_far m P align (insert b X) c a"
      using False Cons.prems(3) [of b] Cons.prems(5,6)
      by (auto simp: best_so_far_def split: option.splits)
    moreover have "best_fit m asz align s a c a bs = (f, addr')"
      using Cons.prems(1) False Pb by (simp only: best_fit.simps Let_def if_False)
    ultimately show ?thesis unfolding rest using Cons.prems(6) by (intro gen)
  qed
qed simp

definition size_representable :: "nat \<Rightarrow> u64 \<Rightarrow> bool" where
  "size_representable k asz \<longleftrightarrow> 2 ^ k dvd unat asz \<or> unat asz < 2 ^ 63"

lemma fits_block_size:
  assumes "fits h (2 ^ k) (unat asz) b"
  shows "asz \<le> block_size (blocks h b)"
  using assms fit_start_bounds(1) [of b k] by (simp add: fits_def blk_end_def word_le_nat_alt)

lemma block_size_small:
  assumes "exp_inv h" "b \<in> all_blocks h"
  shows "block_size (blocks h b) < 0xffffffffffffffff"
  using blk_end_lt [OF assms] by (simp add: blk_end_def word_less_nat_alt)

lemma find_free_block_spec:
  assumes inv: "exp_inv h" and k: "k < 31" and asz: "size_representable k asz"
    and res: "find_free_block asz (2 ^ k) h = (f, addr)"
  shows "f = None \<longleftrightarrow> \<not> room h (2 ^ k) (unat asz)"
    and "f = Some b \<Longrightarrow> fits h (2 ^ k) (unat asz) b \<and> unat addr = fit_start (2 ^ k) b"
    and "f = Some b \<Longrightarrow> m_allocation_mode h = BestFit \<Longrightarrow> fits h (2 ^ k) (unat asz) c \<Longrightarrow>
      block_size (blocks h b) \<le> block_size (blocks h c)"
    and "f = Some b \<Longrightarrow> m_allocation_mode h = FirstFit \<Longrightarrow> fits h (2 ^ k) (unat asz) c \<Longrightarrow> unat b \<le> unat c"
proof -
  let ?F = "m_free_block_list h"
  let ?P = "fits h (2 ^ k) (unat asz)"
  have fit: "\<And>b. b \<in> set ?F \<Longrightarrow>
      ((asz - sizeof_block) - b + AlignUp (b + sizeof_block) (2 ^ k) \<le> block_size (blocks h b)) = ?P b"
    using fits_iff [OF inv _ k] asz by (simp add: size_representable_def)
  have all: "(f = None \<longleftrightarrow> (\<forall>b\<in>set ?F. \<not> ?P b)) \<and> (f = Some b \<longrightarrow> ?P b \<and> addr = AlignUp (b + sizeof_block) (2 ^ k)) \<and>
     (f = Some b \<longrightarrow> m_allocation_mode h = BestFit \<longrightarrow> ?P c \<longrightarrow> block_size (blocks h b) \<le> block_size (blocks h c)) \<and>
     (f = Some b \<longrightarrow> m_allocation_mode h = FirstFit \<longrightarrow> ?P c \<longrightarrow> unat b \<le> unat c)"
  proof (cases "m_allocation_mode h")
    case FirstFit
    then have "first_fit (blocks h) asz (2 ^ k) 0 ?F = (f, addr)" using res by (simp add: find_free_block_def)
    from first_fit_spec [of ?F asz "2 ^ k" "blocks h" ?P, OF fit this]
    have ff: "case f of None \<Rightarrow> \<forall>b\<in>set ?F. \<not> ?P b
     | Some b \<Rightarrow> (\<exists>xs ys. ?F = xs @ b # ys \<and> (\<forall>x\<in>set xs. \<not> ?P x)) \<and> ?P b \<and> addr = AlignUp (b + sizeof_block) (2 ^ k)"
      by simp
    have first: "unat b \<le> unat c" if fb: "f = Some b" and pc: "?P c"
    proof -
      obtain xs ys where xy: "?F = xs @ b # ys" "\<forall>x\<in>set xs. \<not> ?P x" using ff fb by auto
      have "c \<in> set ?F" using pc by (simp add: fits_def)
      then have "c = b \<or> c \<in> set ys" using xy pc by auto
      then show ?thesis using free_list_ascending [OF inv] xy(1) by (fastforce simp: sorted_wrt_append)
    qed
    show ?thesis using ff first FirstFit by (cases f) (auto simp: fits_def)
  next
    case BestFit
    then have "best_fit (blocks h) asz (2 ^ k) 0xffffffffffffffff 0 None 0 ?F = (f, addr)"
      using res by (simp add: find_free_block_def)
    from best_fit_spec [of ?F asz "2 ^ k" "blocks h" ?P "{}" None 0, OF fit _ _ _ _ this]
    have "best_so_far (blocks h) ?P (2 ^ k) (set ?F) f addr"
      using block_size_small [OF inv] fits_block_size by (simp add: best_so_far_def)
    then show ?thesis using BestFit by (cases f) (auto simp: best_so_far_def fits_def)
  qed
  show "f = None \<longleftrightarrow> \<not> room h (2 ^ k) (unat asz)" using all by (auto simp: room_def)
  show "f = Some b \<Longrightarrow> fits h (2 ^ k) (unat asz) b \<and> unat addr = fit_start (2 ^ k) b"
    using all fit_start_word [OF inv _ k, of b] by (auto simp: fits_def)
  show "f = Some b \<Longrightarrow> m_allocation_mode h = BestFit \<Longrightarrow> fits h (2 ^ k) (unat asz) c \<Longrightarrow>
      block_size (blocks h b) \<le> block_size (blocks h c)"
    and "f = Some b \<Longrightarrow> m_allocation_mode h = FirstFit \<Longrightarrow> fits h (2 ^ k) (unat asz) c \<Longrightarrow> unat b \<le> unat c"
    using all by blast+
qed

section \<open>The largest allocatable size\<close>

lemma max_free_size_from_spec:
  assumes "\<And>b. b \<in> set bs \<Longrightarrow> unat (AlignUp (b + sizeof_block) align) = g b"
    and "\<And>b. b \<in> set bs \<Longrightarrow> unat (b + sizeof_block + block_size (m b)) = e b"
  shows "n \<le> unat (max_free_size_from m align x bs) \<longleftrightarrow> n \<le> unat x \<or> (\<exists>b\<in>set bs. g b \<le> e b \<and> n \<le> e b - g b)"
  using assms
proof (induction bs arbitrary: x)
  case (Cons b bs)
  let ?a = "AlignUp (b + sizeof_block) align" and ?e = "b + sizeof_block + block_size (m b)"
  have b: "unat ?a = g b" "unat ?e = e b" using Cons.prems by simp_all
  then have d: "g b \<le> e b \<Longrightarrow> unat (?e - ?a) = e b - g b" by (simp add: unat_sub_nowrap)
  have IH: "n \<le> unat (max_free_size_from m align x' bs) \<longleftrightarrow> n \<le> unat x' \<or> (\<exists>b\<in>set bs. g b \<le> e b \<and> n \<le> e b - g b)" for x'
    by (rule Cons.IH) (use Cons.prems in auto)
  show ?case using b d by (auto simp: Let_def IH word_le_nat_alt word_less_nat_alt)
qed simp

lemma unat_block_stop:
  assumes "exp_inv h" "b \<in> all_blocks h"
  shows "unat (b + sizeof_block + block_size (blocks h b)) = blk_end (blocks h) b"
  using unat_blk_stop [OF assms] by (simp add: blk_stop_def algebra_simps)

lemma maximum_spec:
  assumes inv: "exp_inv h" and a: "scast align = (2 ^ k :: u64)" and k: "k < 31" and n: "0 < n"
  shows "n \<le> unat (GetMaximumAllocatableSizeUnsafe align h) \<longleftrightarrow> room h (2 ^ k) n"
proof -
  have "n \<le> unat (GetMaximumAllocatableSizeUnsafe align h) \<longleftrightarrow> n \<le> unat (0 :: u64) \<or>
     (\<exists>b\<in>set (m_free_block_list h). fit_start (2 ^ k) b \<le> blk_end (blocks h) b \<and> n \<le> blk_end (blocks h) b - fit_start (2 ^ k) b)"
    unfolding GetMaximumAllocatableSizeUnsafe_def a
    by (rule max_free_size_from_spec) (simp_all add: fit_start_word [OF inv _ k] unat_block_stop [OF inv])
  moreover have "(g \<le> e \<and> n \<le> e - g) = (g + n \<le> e)" for g e :: nat using n by auto
  ultimately show ?thesis using n by (simp add: room_def fits_def)
qed

lemma maximum_small:
  assumes inv: "exp_inv h" and a: "scast align = (2 ^ k :: u64)" and k: "k < 31"
  shows "unat (GetMaximumAllocatableSizeUnsafe align h) < 2 ^ 63"
proof (rule ccontr)
  assume "\<not> ?thesis"
  then have "room h (2 ^ k) (2 ^ 63)" using maximum_spec [OF inv a k, of "2 ^ 63"] by simp
  then obtain b where "b \<in> all_blocks h" "fit_start (2 ^ k) b + 2 ^ 63 \<le> blk_end (blocks h) b"
    unfolding room_def fits_def using all_blocks_free by blast
  then show False using blk_end_lt [OF inv, of b] by simp
qed

section \<open>\<open>Free\<close>\<close>

lemma unlink_used:
  assumes inv: "exp_inv h" and u: "u \<in> set (m_allocated_block_list h)"
  shows "unlink_block u h = h\<lparr>m_allocated_block_list := remove1 u (m_allocated_block_list h)\<rparr>"
    and "exp_inv (unlink_block u h)"
    and "all_blocks (unlink_block u h) = all_blocks h - {u}"
proof -
  have "u \<notin> set (m_free_block_list h)" using u exp_invD(12) [OF inv] by auto
  then show eq: "unlink_block u h = h\<lparr>m_allocated_block_list := remove1 u (m_allocated_block_list h)\<rparr>"
    by (simp add: unlink_block_def remove1_idem)
  have s: "set (remove1 u (m_allocated_block_list h)) = set (m_allocated_block_list h) - {u}"
    using exp_invD(11) [OF inv] by simp
  show all: "all_blocks (unlink_block u h) = all_blocks h - {u}"
    using s \<open>u \<notin> set (m_free_block_list h)\<close> by (auto simp: eq all_blocks_def)
  have sub: "set (remove1 u (m_allocated_block_list h)) \<subseteq> set (m_allocated_block_list h)" by (rule set_remove1_subset)
  show "exp_inv (unlink_block u h)"
    using inv sub distinct_remove1 [OF exp_invD(11) [OF inv], of u] unfolding exp_inv_def all
    by (auto simp: eq)
qed

lemma Free_spec:
  assumes inv: "exp_inv h" and u: "u \<in> set (m_allocated_block_list h)"
  obtains h' where "Free (u + sizeof_block) h = Inr h'" "exp_inv h'"
    "m_allocated_block_list h' = remove1 u (m_allocated_block_list h)"
    "\<And>v. v \<in> set (m_allocated_block_list h) \<Longrightarrow> v \<noteq> u \<Longrightarrow> blocks h' v = blocks h v"
    "m_start_address h' = m_start_address h" "m_end_address h' = m_end_address h"
    "m_allocation_mode h' = m_allocation_mode h"
    "free_bytes h' = free_bytes h \<union> used_span h u"
proof -
  let ?h = "unlink_block u h"
  let ?s = "u - ucast (alignment (blocks h u))" and ?e = "u + sizeof_block + block_size (blocks h u)"
  note D = exp_invD [OF inv] and U = unlink_used [OF inv u]
  have au: "u \<in> all_blocks h" using u by simp
  have "unat (ucast (alignment (blocks h u)) :: u64) = unat (alignment (blocks h u))" by (simp add: unat_ucast_up)
  then have s: "unat ?s = blk_lo (blocks h) u" using D(7) [OF u] by (simp add: blk_lo_def unat_sub_nowrap)
  have e: "unat ?e = blk_end (blocks h) u" by (rule unat_block_stop [OF inv au])
  have big: "unat ?s + 32 \<le> unat ?e" using s e blk_lo_le [of "blocks h" u] blk_end_gt [of u "blocks h"] by simp
  have hole: "hole ?h ?s ?e"
    unfolding hole_def U(3) s e using D(8,9) [OF au] big s e D(10) [OF au]
    by (auto simp: U(1) apart_def out_region_def)
  obtain ok h' where r: "AddFreeBlock ?s ?e ?h = (ok, h')" by (cases "AddFreeBlock ?s ?e ?h")
  note S = AddFreeBlock_spec [OF U(2) hole r]
  have ok: "ok" by (rule S(9) [OF big])
  have "Free (u + sizeof_block) h = Inr h'"
    using D(6) [OF u] r by (simp add: Free_def Let_def)
  moreover have "free_bytes h' = free_bytes h \<union> used_span h u"
    using S(7) [OF ok] by (simp add: used_span_def s e free_bytes_def U(1))
  moreover have "blocks h' v = blocks h v" if "v \<in> set (m_allocated_block_list h)" "v \<noteq> u" for v
    using S(3) [of v] that by (simp add: U(1) in_set_remove1)
  ultimately show thesis using S(1,2,4,5,6) by (intro that [of h']) (simp_all add: U(1))
qed

text \<open>Any other address is caught by the magic of its header.\<close>

lemma Free_bad_magic: "alloc_magic (blocks h (address - sizeof_block)) \<noteq> cAllocMagic \<Longrightarrow> Free address h = Inl Assert_Failed"
  by (simp add: Free_def Let_def)

section \<open>\<open>TryAllocate\<close>\<close>

definition declines :: "oom_callback \<Rightarrow> bool" where
  "declines oom \<longleftrightarrow> (\<forall>sz asz align h. oom sz asz align h = (False, h))"

text \<open>What an allocation of \<open>sz\<close> bytes at \<open>p\<close> does to a heap.\<close>

definition allocated_at :: "exp_heap \<Rightarrow> u64 \<Rightarrow> u64 \<Rightarrow> nat \<Rightarrow> exp_heap \<Rightarrow> bool" where
  "allocated_at h p asz a h' \<longleftrightarrow> (let u = p - sizeof_block in
     exp_inv h' \<and> p \<noteq> 0 \<and> a dvd unat p \<and>
     m_allocated_block_list h' = m_allocated_block_list h @ [u] \<and>
     (\<forall>v\<in>set (m_allocated_block_list h). blocks h' v = blocks h v) \<and>
     m_start_address h' = m_start_address h \<and> m_end_address h' = m_end_address h \<and>
     m_allocation_mode h' = m_allocation_mode h \<and>
     used_span h' u \<subseteq> free_bytes h \<and> free_bytes h' = free_bytes h - used_span h' u \<and>
     unat asz \<le> unat (block_size (blocks h' u)) \<and> unat (block_size (blocks h' u)) < unat asz + 36)"

lemma AddUsedBlock_fits:
  assumes inv: "exp_inv h" and fit: "fits h (2 ^ k) (unat asz) b" and p: "unat p = fit_start (2 ^ k) b"
  shows "allocated_at h p asz (2 ^ k) (AddUsedBlock b p asz h)"
proof -
  have b: "b \<in> set (m_free_block_list h)" "unat p + unat asz \<le> blk_end (blocks h) b" "unat b + 32 \<le> unat p"
    using fit p fit_start_bounds(1) [of b k] by (simp_all add: fits_def)
  have "p \<noteq> 0" using b(3) by auto
  then show ?thesis using AddUsedBlock_spec [OF inv b(1,3,2)] fit_start_bounds(3) [of k b] p
    by (simp add: allocated_at_def Let_def)
qed

lemma AlignUp_representable: "k < 64 \<Longrightarrow> 2 ^ k dvd unat (AlignUp v (2 ^ k))"
  by (simp add: AlignUp_def Let_def unat_and_not_mask)

lemma aligned_size_representable:
  assumes "exp_inv h" and "scast align = (2 ^ k :: u64)" and "k < 31"
  shows "size_representable k (allocation_aligned_size sz align h)"
  using maximum_small [OF assms] assms(2,3)
  by (simp add: size_representable_def allocation_aligned_size_def AlignUp_representable)

text \<open>One round of \<open>TryAllocate\<close>: an allocation, or no block has room and the callback decides.\<close>

lemma TryAllocate_round:
  fixes sz align h
  defines "asz \<equiv> allocation_aligned_size sz align h"
  assumes inv: "exp_inv h" and a: "scast align = (2 ^ k :: u64)" and k: "k < 31"
  shows "(\<exists>p h'. room h (2 ^ k) (unat asz) \<and> allocated_at h p asz (2 ^ k) h' \<and>
        (\<forall>oom. TryAllocate_restart oom sz align h = Some (p, h'))) \<or>
     (\<not> room h (2 ^ k) (unat asz) \<and> (\<exists>n. \<forall>oom. TryAllocate_restart oom sz align h =
        (let (again, h') = oom sz n align h in if again then TryAllocate_restart oom sz align h' else Some (0, h'))))"
proof (cases "m_free_block_list h = []")
  case True
  then show ?thesis by (subst TryAllocate_restart.simps, subst TryAllocate_restart.simps) (auto simp: room_def)
next
  case False
  obtain f p where f: "find_free_block asz (2 ^ k) h = (f, p)" by (cases "find_free_block asz (2 ^ k) h")
  note S = find_free_block_spec [OF inv k aligned_size_representable [OF inv a k] f [unfolded asz_def], folded asz_def]
  show ?thesis
  proof (cases f)
    case None
    then show ?thesis using False f S(1)
      by (subst TryAllocate_restart.simps, subst TryAllocate_restart.simps) (auto simp: a asz_def)
  next
    case (Some b)
    then have "allocated_at h p asz (2 ^ k) (AddUsedBlock b p asz h)"
      using AddUsedBlock_fits [OF inv] S(2) by blast
    moreover have "TryAllocate_restart oom sz align h = Some (p, AddUsedBlock b p asz h)" for oom
      using False f Some by (subst TryAllocate_restart.simps) (simp add: a asz_def)
    ultimately show ?thesis using S(1) Some by auto
  qed
qed

lemma TryAllocate_declined:
  fixes sz align h
  defines "al \<equiv> enforce_alignment align"
  defines "asz \<equiv> allocation_aligned_size sz al h"
  assumes inv: "exp_inv h" and v: "valid_alignment align" and oom: "declines oom"
  shows "\<exists>p h'. TryAllocate oom sz align h = Some (p, h') \<and>
     (if room h (unat al) (unat asz) then allocated_at h p asz (unat al) h' else p = 0 \<and> h' = h)"
proof -
  obtain k where k: "k < 31" "al = 2 ^ k" "scast al = (2 ^ k :: u64)"
    using valid_alignment_enforced [OF v] unfolding al_def by metis
  then have u: "unat al = 2 ^ k" by (simp add: unat_pow2)
  from TryAllocate_round [OF inv k(3) k(1), of sz, folded asz_def]
  show ?thesis
  proof (elim disjE exE conjE)
    fix p h' assume "room h (2 ^ k) (unat asz)" "allocated_at h p asz (2 ^ k) h'"
      "\<forall>oom. TryAllocate_restart oom sz al h = Some (p, h')"
    then show ?thesis by (simp add: TryAllocate_def u flip: al_def)
  next
    fix n assume "\<not> room h (2 ^ k) (unat asz)" and "\<forall>oom. TryAllocate_restart oom sz al h =
        (let (again, h') = oom sz n al h in if again then TryAllocate_restart oom sz al h' else Some (0, h'))"
    then show ?thesis using oom by (simp add: TryAllocate_def declines_def u flip: al_def)
  qed
qed

end
