(* ===== verification/Heap_Contract.thy ===== *)
theory Heap_Contract
  imports Awn_Prelude
begin

text \<open>
  What a heap of \<open>awn::mem\<close> promises to the code that allocates from it through the virtual
  operations \<open>TryAllocate\<close> and \<open>Free\<close> of \<open>Heap\<close> (\<open>mem_heap.hpp\<close>): an allocation is new memory, it
  keeps its bytes until it is freed, and freeing it succeeds.  Clients are proved once, from this
  contract.
\<close>

locale allocator =
  fixes inv :: "'h \<Rightarrow> bool"
    and handed :: "'h \<Rightarrow> u64 list"
    and extent :: "'h \<Rightarrow> u64 \<Rightarrow> nat set"
    and good_request :: "u64 \<Rightarrow> u32 \<Rightarrow> bool"
    and alloc :: "u64 \<Rightarrow> u32 \<Rightarrow> 'h \<Rightarrow> (u64 \<times> 'h) option"
    and release :: "u64 \<Rightarrow> 'h \<Rightarrow> 'h result"
  assumes alloc_returns: "inv h \<Longrightarrow> good_request sz al \<Longrightarrow> alloc sz al h \<noteq> None"
    and alloc_null: "inv h \<Longrightarrow> good_request sz al \<Longrightarrow> alloc sz al h = Some (0, h') \<Longrightarrow> h' = h"
    and alloc_inv: "inv h \<Longrightarrow> good_request sz al \<Longrightarrow> alloc sz al h = Some (p, h') \<Longrightarrow> inv h'"
    and alloc_handed: "inv h \<Longrightarrow> good_request sz al \<Longrightarrow> alloc sz al h = Some (p, h') \<Longrightarrow> p \<noteq> 0 \<Longrightarrow>
      handed h' = handed h @ [p]"
    and alloc_keeps: "inv h \<Longrightarrow> good_request sz al \<Longrightarrow> alloc sz al h = Some (p, h') \<Longrightarrow> q \<in> set (handed h) \<Longrightarrow>
      extent h' q = extent h q"
    and alloc_size: "inv h \<Longrightarrow> good_request sz al \<Longrightarrow> alloc sz al h = Some (p, h') \<Longrightarrow> p \<noteq> 0 \<Longrightarrow>
      {unat p ..< unat p + unat sz} \<subseteq> extent h' p"
    and handed_distinct: "inv h \<Longrightarrow> distinct (handed h)"
    and disjoint: "inv h \<Longrightarrow> p \<in> set (handed h) \<Longrightarrow> q \<in> set (handed h) \<Longrightarrow> p \<noteq> q \<Longrightarrow>
      extent h p \<inter> extent h q = {}"
    and low: "inv h \<Longrightarrow> p \<in> set (handed h) \<Longrightarrow> n \<in> extent h p \<Longrightarrow> Suc n < 2 ^ 63"
    and release_returns: "inv h \<Longrightarrow> p \<in> set (handed h) \<Longrightarrow> \<exists>h'. release p h = Inr h'"
    and release_inv: "inv h \<Longrightarrow> p \<in> set (handed h) \<Longrightarrow> release p h = Inr h' \<Longrightarrow> inv h'"
    and release_handed: "inv h \<Longrightarrow> p \<in> set (handed h) \<Longrightarrow> release p h = Inr h' \<Longrightarrow>
      handed h' = remove1 p (handed h)"
    and release_keeps: "inv h \<Longrightarrow> p \<in> set (handed h) \<Longrightarrow> release p h = Inr h' \<Longrightarrow> q \<in> set (handed h) \<Longrightarrow> q \<noteq> p \<Longrightarrow>
      extent h' q = extent h q"
begin

lemma alloc_still_handed:
  assumes "inv h" "good_request sz al" "alloc sz al h = Some (q, h')" "p \<in> set (handed h)"
  shows "p \<in> set (handed h')"
proof (cases "q = 0")
  case True
  then show ?thesis using alloc_null [of h sz al h'] assms by simp
qed (use alloc_handed assms in auto)

lemma alloc_fresh:
  assumes "inv h" "good_request sz al" "alloc sz al h = Some (p, h')" "p \<noteq> 0"
  shows "p \<notin> set (handed h)" and "p \<in> set (handed h')"
    and "q \<in> set (handed h) \<Longrightarrow> extent h q \<inter> extent h' p = {}"
proof -
  have inv': "inv h'" by (rule alloc_inv [OF assms(1-3)])
  have H: "handed h' = handed h @ [p]" by (rule alloc_handed [OF assms])
  show new: "p \<notin> set (handed h)" using handed_distinct [OF inv'] H by simp
  show "p \<in> set (handed h')" using H by simp
  show "extent h q \<inter> extent h' p = {}" if q: "q \<in> set (handed h)"
    using disjoint [OF inv', of q p] alloc_keeps [OF assms(1-3) q] H q new by auto
qed

end

text \<open>
  A heap that can change the size of an allocation too, where that is allowed: \<open>adjust_ok\<close> says when the
  contract of \<open>adjust\<close> holds.
\<close>

locale adjustable_allocator = allocator +
  fixes adjust_ok :: "u64 \<Rightarrow> u64 \<Rightarrow> 'a \<Rightarrow> bool"
    and adjust :: "u64 \<Rightarrow> u64 \<Rightarrow> 'a \<Rightarrow> 'a"
  assumes adjust_inv: "inv h \<Longrightarrow> p \<in> set (handed h) \<Longrightarrow> adjust_ok p sz h \<Longrightarrow> inv (adjust p sz h)"
    and adjust_handed: "inv h \<Longrightarrow> p \<in> set (handed h) \<Longrightarrow> adjust_ok p sz h \<Longrightarrow> handed (adjust p sz h) = handed h"
    and adjust_keeps: "inv h \<Longrightarrow> p \<in> set (handed h) \<Longrightarrow> adjust_ok p sz h \<Longrightarrow> q \<in> set (handed h) \<Longrightarrow> q \<noteq> p \<Longrightarrow>
      extent (adjust p sz h) q = extent h q"
begin

text \<open>What other users of the heap may do while a client holds \<open>p\<close>.\<close>

inductive others :: "u64 \<Rightarrow> 'a \<Rightarrow> 'a \<Rightarrow> bool" for p where
  others_refl: "others p h h"
| others_alloc: "others p h h1 \<Longrightarrow> good_request sz al \<Longrightarrow> alloc sz al h1 = Some (q, h2) \<Longrightarrow> others p h h2"
| others_release: "others p h h1 \<Longrightarrow> q \<in> set (handed h1) \<Longrightarrow> q \<noteq> p \<Longrightarrow> release q h1 = Inr h2 \<Longrightarrow> others p h h2"
| others_adjust: "others p h h1 \<Longrightarrow> q \<in> set (handed h1) \<Longrightarrow> q \<noteq> p \<Longrightarrow> adjust_ok q sz h1 \<Longrightarrow> others p h (adjust q sz h1)"

text \<open>A client's memory is its own until it frees it.\<close>

lemma kept_from_others:
  assumes "others p h h'" and "inv h" and "p \<in> set (handed h)"
  shows "inv h' \<and> p \<in> set (handed h') \<and> extent h' p = extent h p"
  using assms
proof (induction rule: others.induct)
  case (others_alloc h h1 sz al q h2)
  then show ?case using alloc_inv alloc_still_handed alloc_keeps by metis
next
  case (others_release h h1 q h2)
  then have i: "inv h1" "p \<in> set (handed h1)" "extent h1 p = extent h p" by simp_all
  have "p \<in> set (handed h2)" using release_handed [OF i(1) others_release.hyps(2,4)] i(2) others_release.hyps(3)
    by (simp add: in_set_remove1)
  then show ?case using i release_inv [OF i(1) others_release.hyps(2,4)]
      release_keeps [OF i(1) others_release.hyps(2,4) i(2)] others_release.hyps(3) by simp
next
  case (others_adjust h h1 q sz)
  then have i: "inv h1" "p \<in> set (handed h1)" "extent h1 p = extent h p" by simp_all
  note a = others_adjust.hyps(2,4)
  show ?case using i adjust_inv [OF i(1) a] adjust_handed [OF i(1) a] adjust_keeps [OF i(1) a i(2)] others_adjust.hyps(3) by simp
qed simp

text \<open>After any of it the client can still free its memory.\<close>

lemma release_after_others:
  assumes "others p h h'" and "inv h" and "p \<in> set (handed h)"
  shows "\<exists>h''. release p h' = Inr h'' \<and> inv h'' \<and> handed h'' = remove1 p (handed h')"
proof -
  have k: "inv h'" "p \<in> set (handed h')" using kept_from_others [OF assms] by simp_all
  then show ?thesis using release_returns release_inv release_handed by metis
qed

end

end
