(* ===== verification/Exp_Heap_Reach.thy ===== *)
theory Exp_Heap_Reach
  imports Exp_Heap_Ops Heap_Contract
begin

text \<open>
  A heap over its life: it is created over an arena, serves allocations and takes them back.  The
  free list is a canonical form of the free bytes, so a freed allocation leaves the same free list
  it was cut from; no byte of the arena is ever lost or given out twice.
\<close>

section \<open>The free list is determined by the free bytes\<close>

lemma intervals_canonical:
  fixes F F' :: "u64 list" and e e' :: "u64 \<Rightarrow> nat"
  assumes "sorted_wrt (\<lambda>a b. e a < unat b) F" "\<forall>b\<in>set F. unat b < e b"
    and "sorted_wrt (\<lambda>a b. e' a < unat b) F'" "\<forall>b\<in>set F'. unat b < e' b"
    and "(\<Union>b\<in>set F. {unat b ..< e b}) = (\<Union>b\<in>set F'. {unat b ..< e' b})"
  shows "F = F' \<and> (\<forall>b\<in>set F. e b = e' b)"
  using assms
proof (induction F arbitrary: F')
  case Nil
  then show ?case by (cases F') auto
next
  case (Cons b F)
  let ?R = "\<Union>x\<in>set F. {unat x ..< e x}"
  have bin: "unat b \<in> {unat b ..< e b}" using Cons.prems(2) by simp
  then obtain b' F'' where F': "F' = b' # F''" using Cons.prems(5) by (cases F') auto
  let ?R' = "\<Union>x\<in>set F''. {unat x ..< e' x}"
  have U: "{unat b ..< e b} \<union> ?R = {unat b' ..< e' b'} \<union> ?R'" using Cons.prems(5) F' by simp
  have bin': "unat b' \<in> {unat b' ..< e' b'}" using Cons.prems(4) F' by simp
  have above: "e b < x" if "x \<in> ?R" for x using that Cons.prems(1) by fastforce
  have above': "e' b' < x" if "x \<in> ?R'" for x using that Cons.prems(3) F' by fastforce
  have "unat b \<le> x" if "x \<in> {unat b ..< e b} \<union> ?R" for x using that above [of x] bin by fastforce
  then have "unat b \<le> unat b'" using bin' U by blast
  moreover have "unat b' \<le> x" if "x \<in> {unat b' ..< e' b'} \<union> ?R'" for x using that above' [of x] bin' by fastforce
  then have "unat b' \<le> unat b" using bin U by blast
  ultimately have "unat b = unat b'" by simp
  then have b: "b' = b" by (simp add: word_eq_unat_iff)
  let ?S = "{unat b ..< e b} \<union> ?R"
  have S: "?S = {unat b ..< e' b} \<union> ?R'" using U b by simp
  have lt: "unat b < e b" "unat b < e' b" using bin bin' b by simp_all
  have "e b \<notin> ?S" using above [of "e b"] by auto
  moreover have "e' b \<notin> ?S" unfolding S using above' [of "e' b"] b by auto
  moreover have "e b < e' b \<Longrightarrow> e b \<in> ?S" unfolding S using lt by simp
  moreover have "e' b < e b \<Longrightarrow> e' b \<in> ?S" using lt by simp
  ultimately have eb: "e b = e' b" by (meson linorder_neqE_nat)
  moreover have "?R = ?R'"
  proof -
    have "?R = ({unat b ..< e b} \<union> ?R) - {..< e b}" using above by fastforce
    moreover have "?R' = ({unat b' ..< e' b'} \<union> ?R') - {..< e' b'}" using above' by fastforce
    ultimately show ?thesis using U b eb by simp
  qed
  ultimately show ?case using Cons.IH [of F''] Cons.prems(1-4) F' b eb by simp
qed

lemma free_list_canonical:
  assumes "exp_inv h" and "exp_inv h'" and "free_bytes h = free_bytes h'"
  shows "m_free_block_list h = m_free_block_list h' \<and>
     (\<forall>b\<in>set (m_free_block_list h). blocks h b = blocks h' b)"
proof -
  have lt: "unat b < blk_end m b" for b m using blk_end_gt [of b m] by simp
  have F: "m_free_block_list h = m_free_block_list h' \<and>
     (\<forall>b\<in>set (m_free_block_list h). blk_end (blocks h) b = blk_end (blocks h') b)"
    using assms(3) lt exp_invD(3) [OF assms(1)] exp_invD(3) [OF assms(2)] unfolding free_bytes_def
    by (intro intervals_canonical) auto
  have "blocks h b = blocks h' b" if "b \<in> set (m_free_block_list h)" for b
    using that F exp_invD(4,5) [OF assms(1), of b] exp_invD(4,5) [OF assms(2), of b]
    by (intro exp_block.equality) (auto simp: blk_end_def word_eq_unat_iff)
  with F show ?thesis by simp
qed

section \<open>Allocate, then free\<close>

lemma allocated_at_Free:
  assumes inv: "exp_inv h" and al: "allocated_at h p asz a h'"
  obtains h'' where "Free p h' = Inr h''" "exp_inv h''" "m_free_block_list h'' = m_free_block_list h"
    "m_allocated_block_list h'' = m_allocated_block_list h"
    "\<And>b. b \<in> all_blocks h \<Longrightarrow> blocks h'' b = blocks h b"
proof -
  define u where "u = p - sizeof_block"
  have A: "exp_inv h'" "m_allocated_block_list h' = m_allocated_block_list h @ [u]"
    "\<And>v. v \<in> set (m_allocated_block_list h) \<Longrightarrow> blocks h' v = blocks h v"
    "used_span h' u \<subseteq> free_bytes h" "free_bytes h' = free_bytes h - used_span h' u"
    using al by (auto simp: allocated_at_def Let_def u_def)
  have new: "u \<notin> set (m_allocated_block_list h)" using exp_invD(11) [OF A(1)] A(2) by simp
  have u: "u \<in> set (m_allocated_block_list h')" and p: "u + sizeof_block = p" using A(2) by (auto simp: u_def)
  obtain h'' where F: "Free p h' = Inr h''" "exp_inv h''"
    "m_allocated_block_list h'' = remove1 u (m_allocated_block_list h')"
    "\<And>v. v \<in> set (m_allocated_block_list h') \<Longrightarrow> v \<noteq> u \<Longrightarrow> blocks h'' v = blocks h' v"
    "free_bytes h'' = free_bytes h' \<union> used_span h' u"
    using Free_spec [OF A(1) u] p by metis
  have alloc: "m_allocated_block_list h'' = m_allocated_block_list h"
    using F(3) A(2) new by (simp add: remove1_append)
  have "free_bytes h'' = free_bytes h" using F(5) A(4,5) by auto
  from free_list_canonical [OF inv F(2) this [symmetric]]
  have can: "m_free_block_list h = m_free_block_list h'' \<and>
    (\<forall>b\<in>set (m_free_block_list h). blocks h b = blocks h'' b)" .
  have "blocks h'' b = blocks h b" if "b \<in> all_blocks h" for b
  proof (cases "b \<in> set (m_allocated_block_list h)")
    case True
    then have "b \<in> set (m_allocated_block_list h')" "b \<noteq> u" using A(2) new by auto
    then show ?thesis using F(4) A(3) [OF True] by simp
  next
    case False
    then show ?thesis using that can by (auto simp: all_blocks_def)
  qed
  then show thesis using F(1,2) can alloc by (intro that [of h'']) simp_all
qed

section \<open>No byte is lost\<close>

definition used_bytes :: "exp_heap \<Rightarrow> nat set" where
  "used_bytes h = (\<Union>u\<in>set (m_allocated_block_list h). used_span h u)"

definition exp_full :: "exp_heap \<Rightarrow> bool" where
  "exp_full h \<longleftrightarrow> exp_inv h \<and>
     free_bytes h \<union> used_bytes h = {unat (m_start_address h) ..< unat (m_end_address h)}"

lemma used_span_same: "blocks h' v = blocks h v \<Longrightarrow> used_span h' v = used_span h v"
  by (simp add: used_span_def blk_lo_def blk_end_def)

lemma used_spans_disjoint:
  assumes "exp_inv h" "u \<in> set (m_allocated_block_list h)" "v \<in> set (m_allocated_block_list h)" "u \<noteq> v"
  shows "used_span h u \<inter> used_span h v = {}"
  using exp_invD(10) [OF assms(1), of u v] assms by (auto simp: apart_def used_span_def)

lemma free_used_disjoint:
  assumes "exp_inv h"
  shows "free_bytes h \<inter> used_bytes h = {}"
proof -
  have "{unat b ..< blk_end (blocks h) b} \<inter> used_span h u = {}"
    if b: "b \<in> set (m_free_block_list h)" and u: "u \<in> set (m_allocated_block_list h)" for b u
  proof -
    have "b \<noteq> u" using b u exp_invD(12) [OF assms] by auto
    then have "apart (blocks h) b u" using exp_invD(10) [OF assms, of b u] b u by simp
    then show ?thesis using blk_lo_free [OF assms b] by (auto simp: apart_def used_span_def)
  qed
  then show ?thesis by (fastforce simp: free_bytes_def used_bytes_def)
qed

lemma allocated_at_full:
  assumes full: "exp_full h" and al: "allocated_at h p asz a h'"
  shows "exp_full h'"
proof -
  define u where "u = p - sizeof_block"
  have A: "exp_inv h'" "m_allocated_block_list h' = m_allocated_block_list h @ [u]"
    "\<And>v. v \<in> set (m_allocated_block_list h) \<Longrightarrow> blocks h' v = blocks h v"
    "used_span h' u \<subseteq> free_bytes h" "free_bytes h' = free_bytes h - used_span h' u"
    "m_start_address h' = m_start_address h" "m_end_address h' = m_end_address h"
    using al by (auto simp: allocated_at_def Let_def u_def)
  have "used_bytes h' = used_bytes h \<union> used_span h' u"
    using A(2) used_span_same [OF A(3)] by (auto simp: used_bytes_def)
  then show ?thesis using A full by (auto simp: exp_full_def)
qed

lemma Free_full:
  assumes full: "exp_full h" and u: "u \<in> set (m_allocated_block_list h)"
    and res: "Free (u + sizeof_block) h = Inr h'"
  shows "exp_full h'" and "m_allocated_block_list h' = remove1 u (m_allocated_block_list h)"
    and "m_start_address h' = m_start_address h" "m_end_address h' = m_end_address h"
proof -
  have inv: "exp_inv h" using full by (simp add: exp_full_def)
  have F: "exp_inv h'" "m_allocated_block_list h' = remove1 u (m_allocated_block_list h)"
    "\<And>v. v \<in> set (m_allocated_block_list h) \<Longrightarrow> v \<noteq> u \<Longrightarrow> blocks h' v = blocks h v"
    "m_start_address h' = m_start_address h" "m_end_address h' = m_end_address h"
    "free_bytes h' = free_bytes h \<union> used_span h u"
    using Free_spec [OF inv u] res by (metis Inr_inject)+
  have s: "set (m_allocated_block_list h') = set (m_allocated_block_list h) - {u}"
    using F(2) exp_invD(11) [OF inv] by simp
  have "used_bytes h = used_span h u \<union> used_bytes h'"
    using s u used_span_same [OF F(3)] by (fastforce simp: used_bytes_def)
  then have "free_bytes h' \<union> used_bytes h' = free_bytes h \<union> used_bytes h" using F(6) by auto
  then show "exp_full h'" using F full by (simp add: exp_full_def)
  show "m_allocated_block_list h' = remove1 u (m_allocated_block_list h)"
    "m_start_address h' = m_start_address h" "m_end_address h' = m_end_address h" by (rule F)+
qed

section \<open>Creation\<close>

lemma construct_with_first_block_full:
  fixes mem :: "u64 \<Rightarrow> exp_block"
  assumes "unat address + unat sz < 2 ^ 63" and "196 \<le> unat sz"
  defines "h \<equiv> construct_with_first_block address sz mem"
  shows "exp_full h" and "unat (m_start_address h) = unat address + 160"
    and "unat (m_end_address h) = unat address + unat sz"
    and "m_free_block_list h = [address + sizeof_heap]" and "m_allocated_block_list h = []"
proof -
  let ?b = "address + sizeof_heap"
  have b: "unat ?b = unat address + 160" using assms(1,2) by (simp add: unat_add_nowrap)
  have "unat (sz - sizeof_heap) = unat sz - 160" using assms(2) by (simp add: unat_sub_nowrap)
  then have e: "unat (?b + (sz - sizeof_heap)) = unat address + unat sz"
    using b assms(1,2) by (simp add: unat_add_nowrap)
  have "unat (sizeof_heap + sizeof_block) = 192" by (simp add: sizeof_heap_def sizeof_block_def)
  then have s: "unat (sz - (sizeof_heap + sizeof_block)) = unat sz - 192" using assms(2) by (simp add: unat_sub_nowrap)
  have h: "h = \<lparr>m_start_address = ?b, m_end_address = ?b + (sz - sizeof_heap), m_free_block_list = [?b],
      m_allocated_block_list = [], m_allocation_mode = BestFit, blocks = mem(?b := free_blk (sz - (sizeof_heap + sizeof_block)))\<rparr>"
    by (simp add: h_def construct_with_first_block_def ExpHeap_construct_def write_block_def Let_def free_blk_def)
  have "blk_end (blocks h) ?b = unat address + unat sz" using b s assms(2) by (simp add: h blk_end_def free_blk_def)
  moreover have "blk_lo (blocks h) ?b = unat address + 160" using b by (simp add: h blk_lo_def free_blk_def)
  ultimately show "exp_full h" using b e assms(1,2)
    by (simp add: exp_full_def exp_inv_def all_blocks_def free_bytes_def used_bytes_def) (simp add: h free_blk_def e b)
  show "unat (m_start_address h) = unat address + 160" "unat (m_end_address h) = unat address + unat sz"
    "m_free_block_list h = [address + sizeof_heap]" "m_allocated_block_list h = []"
    using b e by (simp_all add: h)
qed

lemma TryCreate_arena_full:
  assumes "address \<noteq> 0" and "unat address + unat sz < 2 ^ 63" and "196 \<le> unat sz"
  shows "\<exists>h. TryCreate_arena address sz mem = Inr h \<and> exp_full h \<and>
    unat (m_start_address h) = unat address + 160 \<and> unat (m_end_address h) = unat address + unat sz"
proof -
  have "sizeof_heap + sizeof_block + cMinimumAllocationGranularity \<le> sz"
    using assms(3) by (simp add: sizeof_heap_def sizeof_block_def cMinimumAllocationGranularity_def word_le_nat_alt)
  then show ?thesis using construct_with_first_block_full [OF assms(2,3), of mem] assms(1)
    by (simp add: TryCreate_arena_def)
qed

section \<open>\<open>ExpHeap\<close> keeps the contract of a heap\<close>

text \<open>An \<open>OutOfMemoryImpl\<close> whose delegate gives up.\<close>

definition give_up :: oom_callback where
  "give_up sz aligned_size align h = (False, h)"

lemma give_up_declines: "declines give_up"
  by (simp add: declines_def give_up_def)

definition exp_handed :: "exp_heap \<Rightarrow> u64 list" where
  "exp_handed h = map (\<lambda>u. u + sizeof_block) (m_allocated_block_list h)"

definition exp_extent :: "exp_heap \<Rightarrow> u64 \<Rightarrow> nat set" where
  "exp_extent h p = {unat p ..< unat p + unat (block_size (blocks h (p - sizeof_block)))}"

definition exp_request :: "u64 \<Rightarrow> u32 \<Rightarrow> bool" where
  "exp_request sz align \<longleftrightarrow> valid_alignment align \<and> unat sz < 2 ^ 63"

lemma aligned_size_ge:
  assumes "exp_request sz align"
  shows "unat sz \<le> unat (allocation_aligned_size sz (enforce_alignment align) h)"
proof -
  obtain k where k: "k < 31" "scast (enforce_alignment align) = (2 ^ k :: u64)"
    using assms valid_alignment_enforced unfolding exp_request_def by metis
  have "(2 :: nat) ^ k < 2 ^ 31" using k(1) by (intro power_strict_increasing) auto
  moreover have "unat (2 ^ k - 1 :: u64) = 2 ^ k - 1" using k(1) by (intro unat_exp_minus_1) simp
  moreover have "unat sz < 9223372036854775808" using assms by (simp add: exp_request_def)
  ultimately have "unat sz + unat (2 ^ k - 1 :: u64) < 2 ^ 64" by simp
  then show ?thesis using AlignUp_bounds(1) [of sz "2 ^ k"] k(2)
    by (simp add: allocation_aligned_size_def cWholeSize_def)
qed

lemma exp_alloc_cases:
  assumes full: "exp_full h" and req: "exp_request sz align" and res: "TryAllocate give_up sz align h = Some (p, h')"
  obtains (null) "p = 0" "h' = h"
  | (block) a asz where "p \<noteq> 0" "allocated_at h p asz a h'" "unat sz \<le> unat asz"
proof -
  have inv: "exp_inv h" and v: "valid_alignment align" using full req by (simp_all add: exp_full_def exp_request_def)
  from TryAllocate_declined [OF inv v give_up_declines, of sz] res aligned_size_ge [OF req, of h]
  show thesis using null block by (auto simp: allocated_at_def Let_def split: if_splits)
qed

lemma exp_extent_span:
  assumes "u \<in> set (m_allocated_block_list h)" and "exp_inv h"
  shows "exp_extent h (u + sizeof_block) \<subseteq> used_span h u"
proof -
  have "unat u + 32 < 9223372036854775808"
    using blk_end_lt [OF assms(2), of u] blk_end_gt [of u "blocks h"] assms(1) by simp
  then have "unat (u + sizeof_block) = unat u + 32" by (simp add: unat_add_nowrap)
  then show ?thesis by (auto simp: exp_extent_def used_span_def blk_lo_def blk_end_def)
qed

lemma exp_handed_simps:
  "p \<in> set (exp_handed h) \<longleftrightarrow> p - sizeof_block \<in> set (m_allocated_block_list h)"
  "distinct (exp_handed h) \<longleftrightarrow> distinct (m_allocated_block_list h)"
  "map (\<lambda>u. u + sizeof_block) (remove1 u xs) = remove1 (u + sizeof_block) (map (\<lambda>u. u + sizeof_block) xs)"
proof -
  show "p \<in> set (exp_handed h) \<longleftrightarrow> p - sizeof_block \<in> set (m_allocated_block_list h)"
    by (force simp: exp_handed_def)
  show "distinct (exp_handed h) \<longleftrightarrow> distinct (m_allocated_block_list h)"
    by (simp add: exp_handed_def distinct_map inj_on_def)
  show "map (\<lambda>u. u + sizeof_block) (remove1 u xs) = remove1 (u + sizeof_block) (map (\<lambda>u. u + sizeof_block) xs)"
    by (induction xs) auto
qed

lemma allocated_at_handed:
  assumes "allocated_at h p asz a h'"
  shows "exp_handed h' = exp_handed h @ [p]"
    and "q \<in> set (exp_handed h) \<Longrightarrow> exp_extent h' q = exp_extent h q"
    and "n \<le> unat asz \<Longrightarrow> {unat p ..< unat p + n} \<subseteq> exp_extent h' p"
  using assms by (auto simp: allocated_at_def Let_def exp_handed_def exp_extent_def)

lemma exp_Free_full:
  assumes full: "exp_full h" and p: "p \<in> set (exp_handed h)"
  obtains h' where "Free p h = Inr h'" "exp_full h'" "exp_handed h' = remove1 p (exp_handed h)"
    "\<And>q. q \<in> set (exp_handed h) \<Longrightarrow> q \<noteq> p \<Longrightarrow> exp_extent h' q = exp_extent h q"
proof -
  define u where "u = p - sizeof_block"
  have u: "u \<in> set (m_allocated_block_list h)" and pu: "p = u + sizeof_block" using p by (simp_all add: u_def exp_handed_simps)
  have inv: "exp_inv h" using full by (simp add: exp_full_def)
  obtain h' where F: "Free p h = Inr h'"
    "\<And>v. v \<in> set (m_allocated_block_list h) \<Longrightarrow> v \<noteq> u \<Longrightarrow> blocks h' v = blocks h v"
    using Free_spec [OF inv u] pu by metis
  note G = Free_full [OF full u F(1) [unfolded pu]]
  have "exp_handed h' = remove1 p (exp_handed h)" by (simp add: exp_handed_def G(2) exp_handed_simps(3) pu)
  moreover have "exp_extent h' q = exp_extent h q" if "q \<in> set (exp_handed h)" "q \<noteq> p" for q
  proof -
    have "q - sizeof_block \<noteq> u" using that(2) by (simp add: u_def)
    then show ?thesis using F(2) that(1) by (simp add: exp_extent_def exp_handed_simps)
  qed
  ultimately show thesis using F(1) G(1) that by blast
qed

interpretation exp: allocator exp_full exp_handed exp_extent exp_request "TryAllocate give_up" Free
proof unfold_locales
  fix h sz al assume h: "exp_full h" "exp_request sz al"
  have inv: "exp_inv h" and v: "valid_alignment al" using h by (simp_all add: exp_full_def exp_request_def)
  show "TryAllocate give_up sz al h \<noteq> None"
    using TryAllocate_declined [OF inv v give_up_declines, of sz] by auto
  fix p h' q assume r: "TryAllocate give_up sz al h = Some (p, h')"
  from exp_alloc_cases [OF h r] show "exp_full h'" by cases (use h allocated_at_full in auto)
  from exp_alloc_cases [OF h r] show "exp_handed h' = exp_handed h @ [p]" if "p \<noteq> 0"
    by cases (use that allocated_at_handed(1) in auto)
  from exp_alloc_cases [OF h r] show "exp_extent h' q = exp_extent h q" if "q \<in> set (exp_handed h)"
    by cases (use that allocated_at_handed(2) in auto)
  from exp_alloc_cases [OF h r] show "{unat p ..< unat p + unat sz} \<subseteq> exp_extent h' p" if "p \<noteq> 0"
    by cases (use that allocated_at_handed(3) in blast)+
next
  fix h sz al h' assume "exp_full h" "exp_request sz al" "TryAllocate give_up sz al h = Some (0, h')"
  then show "h' = h" by (rule exp_alloc_cases) simp_all
next
  fix h assume full: "exp_full h"
  then have inv: "exp_inv h" by (simp add: exp_full_def)
  show "distinct (exp_handed h)" using exp_invD(11) [OF inv] by (simp add: exp_handed_simps)
  fix p assume p: "p \<in> set (exp_handed h)"
  note span = exp_extent_span [OF _ inv, of "p - sizeof_block", simplified]
  show "Suc n < 2 ^ 63" if "n \<in> exp_extent h p" for n
    using that span p blk_end_lt [OF inv, of "p - sizeof_block"] by (auto simp: exp_handed_simps used_span_def)
  show "exp_extent h p \<inter> exp_extent h q = {}" if "q \<in> set (exp_handed h)" "p \<noteq> q" for q
    using used_spans_disjoint [OF inv, of "p - sizeof_block" "q - sizeof_block"] that p
      span exp_extent_span [OF _ inv, of "q - sizeof_block"] by (auto simp: exp_handed_simps)
  show "\<exists>h'. Free p h = Inr h'" by (rule exp_Free_full [OF full p]) blast
  fix h' assume r: "Free p h = Inr h'"
  show "exp_full h'" "exp_handed h' = remove1 p (exp_handed h)"
    by (rule exp_Free_full [OF full p], use r in simp)+
  show "exp_extent h' q = exp_extent h q" if "q \<in> set (exp_handed h)" "q \<noteq> p" for q
    by (rule exp_Free_full [OF full p], use r that in simp)
qed

section \<open>A heap inside another heap\<close>

text \<open>
  \<open>TryCreate\<close> in any parent that keeps the contract of a heap: the new heap lies in an allocation of
  its own, so everything it hands out later is apart from the other allocations of the parent.
\<close>

context allocator
begin

lemma TryCreate_in_parent:
  assumes par: "inv q" and good: "good_request (if sz = cWholeSize then parent_maximum align q else sz) align"
    and res: "TryCreate parent_maximum alloc mem sz align q = Some (Some h, q')"
  shows "inv q'" and "exp_full h" and "heap_this h \<in> set (handed q')" and "heap_this h \<notin> set (handed q)"
    and "{unat (m_start_address h) ..< unat (m_end_address h)} \<subseteq> extent q' (heap_this h)"
    and "a \<in> set (handed q) \<Longrightarrow> extent q' a \<inter> {unat (m_start_address h) ..< unat (m_end_address h)} = {}"
proof -
  define n where "n = (if sz = cWholeSize then parent_maximum align q else sz)"
  obtain p where p: "196 \<le> unat n" "alloc n align q = Some (p, q')" "p \<noteq> 0" "h = construct_with_first_block p n mem"
    using res by (auto simp: TryCreate_def Let_def sizeof_heap_def sizeof_block_def
        cMinimumAllocationGranularity_def word_less_nat_alt not_less simp flip: n_def
        split: if_splits option.splits)
  note good = good [folded n_def]
  show inv': "inv q'" by (rule alloc_inv [OF par good p(2)])
  note fresh = alloc_fresh [OF par good p(2,3)]
  have ext: "{unat p ..< unat p + unat n} \<subseteq> extent q' p" by (rule alloc_size [OF par good p(2,3)])
  have "unat p + unat n - 1 \<in> {unat p ..< unat p + unat n}" using p(1) by simp
  then have "Suc (unat p + unat n - 1) < 2 ^ 63" using low [OF inv' fresh(2)] ext by blast
  then have "unat p + unat n < 2 ^ 63" using p(1) by arith
  note C = construct_with_first_block_full [OF this p(1), of mem, folded p(4)]
  show "exp_full h" by (rule C(1))
  have hp: "heap_this h = p"
    by (simp add: p(4) heap_this_def construct_with_first_block_def ExpHeap_construct_def write_block_def Let_def)
  show "heap_this h \<in> set (handed q')" "heap_this h \<notin> set (handed q)" using fresh(1,2) hp by simp_all
  show in_ext: "{unat (m_start_address h) ..< unat (m_end_address h)} \<subseteq> extent q' (heap_this h)"
    using ext hp C(2,3) by auto
  show "extent q' a \<inter> {unat (m_start_address h) ..< unat (m_end_address h)} = {}" if "a \<in> set (handed q)"
    using fresh(3) [OF that] alloc_keeps [OF par good p(2) that] in_ext hp by auto
qed

end

section \<open>The out of memory callback\<close>

lemmas TryAllocate_restart_induct = TryAllocate_restart.raw_induct [rotated, consumes 1, case_names round]

lemma TryAllocate_restart_callback:
  assumes "TryAllocate_restart oom sz al h = Some r"
  shows "(\<forall>sz n al h. exp_full h \<longrightarrow> exp_full (snd (oom sz n al h))) \<Longrightarrow> scast al = (2 ^ k :: u64) \<Longrightarrow> k < 31 \<Longrightarrow>
    exp_full h \<Longrightarrow> exp_full (snd r) \<and> (fst r \<noteq> 0 \<longrightarrow> (\<exists>h0. exp_full h0 \<and>
      allocated_at h0 (fst r) (allocation_aligned_size sz al h0) (2 ^ k) (snd r)))"
  using assms
proof (induction rule: TryAllocate_restart_induct)
  case (round rec oom sz al h r)
  note oom = round.prems(1) and a = round.prems(2) and k = round.prems(3) and full = round.prems(4)
  have inv: "exp_inv h" using full by (simp add: exp_full_def)
  let ?asz = "allocation_aligned_size sz al h"
  let ?Q = "exp_full (snd r) \<and> (fst r \<noteq> 0 \<longrightarrow> (\<exists>h0. exp_full h0 \<and>
      allocated_at h0 (fst r) (allocation_aligned_size sz al h0) (2 ^ k) (snd r)))"
  have again: ?Q if "(let (again, h') = oom sz n al h in if again then rec oom sz al h' else Some (0, h')) = Some r" for n
  proof -
    obtain again h' where o: "oom sz n al h = (again, h')" by (cases "oom sz n al h")
    then have full': "exp_full h'" using oom full by (metis snd_conv)
    show ?thesis
    proof (cases again)
      case True
      then have "rec oom sz al h' = Some r" using that o by simp
      from round.IH [OF this oom a k full'] show ?thesis .
    next
      case False
      then have "r = (0, h')" using that o by simp
      then show ?thesis using full' by simp
    qed
  qed
  show ?Q
  proof (cases "m_free_block_list h = []")
    case True
    then show ?thesis using again round.hyps by simp
  next
    case False
    obtain f p where f: "find_free_block ?asz (2 ^ k) h = (f, p)" by (cases "find_free_block ?asz (2 ^ k) h")
    note S = find_free_block_spec [OF inv k aligned_size_representable [OF inv a k] f]
    show ?thesis
    proof (cases f)
      case None
      then show ?thesis using again [of ?asz] round.hyps False f by (simp add: a)
    next
      case (Some b)
      then have r: "r = (p, AddUsedBlock b p ?asz h)" using round.hyps False f by (simp add: a)
      have "allocated_at h p ?asz (2 ^ k) (snd r)" using AddUsedBlock_fits [OF inv] S(2) [OF Some] r by simp
      then show ?thesis using allocated_at_full [OF full] full r by auto
    qed
  qed
qed

lemma TryAllocate_restart_stuck:
  assumes "TryAllocate_restart oom sz al h = Some r"
  shows "oom = (\<lambda>_ _ _ h. (True, h)) \<Longrightarrow> scast al = (2 ^ k :: u64) \<Longrightarrow> k < 31 \<Longrightarrow> exp_inv h \<Longrightarrow>
    room h (2 ^ k) (unat (allocation_aligned_size sz al h))"
  using assms
proof (induction rule: TryAllocate_restart_induct)
  case (round rec oom sz al h r)
  note a = round.prems(2) and k = round.prems(3) and inv = round.prems(4)
  let ?asz = "allocation_aligned_size sz al h"
  obtain f p where f: "find_free_block ?asz (2 ^ k) h = (f, p)" by (cases "find_free_block ?asz (2 ^ k) h")
  note S = find_free_block_spec [OF inv k aligned_size_representable [OF inv a k] f]
  have "(m_free_block_list h = [] \<or> f = None) \<Longrightarrow> rec oom sz al h = Some r"
    using round.hyps round.prems(1) f by (auto simp: a split: if_splits)
  then show ?case using round.IH round.prems S(1) by (cases f) auto
qed

lemma IsAddressAllocation_handed: "IsAddressAllocation p h \<longleftrightarrow> p \<in> set (exp_handed h)"
  by (auto simp: IsAddressAllocation_def exp_handed_simps list_ex_iff)

lemma SetAllocationMode_full: "exp_full (SetAllocationMode mode h) = exp_full h"
  by (simp add: SetAllocationMode_def exp_full_def exp_inv_def all_blocks_def free_bytes_def used_bytes_def
      used_span_def)

end
