(* ===== verification/Exp_Heap_Resize.thy ===== *)
theory Exp_Heap_Resize
  imports Exp_Heap_Reach
begin

text \<open>
  The operations of \<open>ExpHeap\<close> that change the size of an allocation or of the heap itself:
  \<open>AdjustAllocation\<close>, \<open>AdjustHeap\<close> and \<open>ResizeHeapBack\<close>, on every branch.
\<close>

section \<open>Headers that \<open>AddFreeBlock\<close> does not look at\<close>

lemma AddFreeBlock_write_used:
  assumes inv: "exp_inv h" and u: "u \<notin> set (m_free_block_list h)" and s: "s \<noteq> u"
    and e: "\<forall>a\<in>set (m_free_block_list h). a < s \<longrightarrow> a \<noteq> e"
  shows "AddFreeBlock s e (write_block u x h) = map_prod id (write_block u x) (AddFreeBlock s e h)"
    and "blocks (snd (AddFreeBlock s e h)) u = blocks h u"
proof -
  obtain A B where F: "m_free_block_list h = A @ B" and A: "\<forall>a\<in>set A. a < s" and B: "\<forall>b\<in>set B. s \<le> b"
    using free_list_split [OF inv] by blast
  have d: "distinct (A @ B)" using free_list_distinct [OF inv] F by simp
  have dj: "set (A @ B) \<inter> set (m_allocated_block_list h) = {}" using exp_invD(12) [OF inv] F by simp
  have le: "last A \<noteq> e" if "A \<noteq> []" using that A e F by simp
  have E: "AddFreeBlock s e g = (let fr = A \<noteq> [] \<and> s = blk_stop g (last A); bk = B \<noteq> [] \<and> e = hd B
     in add_free_result (if fr then butlast A else A) (if fr then last A else s)
          (if bk then blk_stop g (hd B) else e) (if bk then tl B else B) g)"
    if "m_free_block_list g = A @ B" "m_allocated_block_list g = m_allocated_block_list h" for g
    by (rule AddFreeBlock_eq) (use that d A B dj le in auto)
  have st: "blk_stop (write_block u x h) b = blk_stop h b" if "b \<in> set (A @ B)" for b
    using that u F by (auto simp: blk_stop_def write_block_def)
  have eqs: "A \<noteq> [] \<Longrightarrow> blk_stop (write_block u x h) (last A) = blk_stop h (last A)"
    "B \<noteq> [] \<Longrightarrow> blk_stop (write_block u x h) (hd B) = blk_stop h (hd B)"
    "A \<noteq> [] \<Longrightarrow> last A \<noteq> u"
    using st u F by auto
  have "m_free_block_list (write_block u x h) = A @ B"
    "m_allocated_block_list (write_block u x h) = m_allocated_block_list h" using F by (simp_all add: write_block_def)
  note E' = E [OF F refl] E [OF this]
  show "AddFreeBlock s e (write_block u x h) = map_prod id (write_block u x) (AddFreeBlock s e h)"
    by (simp only: E') (use eqs s in \<open>auto simp: Let_def add_free_result_def write_block_def fun_upd_twist\<close>)
  show "blocks (snd (AddFreeBlock s e h)) u = blocks h u"
    by (simp only: E') (use eqs s in \<open>auto simp: Let_def add_free_result_def\<close>)
qed

section \<open>Shrinking an allocation\<close>

definition shrunk_block :: "u64 \<Rightarrow> u64 \<Rightarrow> exp_heap \<Rightarrow> exp_heap" where
  "shrunk_block u n h = write_block u ((blocks h u)\<lparr>block_size := n\<rparr>) h"

lemma shrunk_block_inv:
  assumes inv: "exp_inv h" and u: "u \<in> set (m_allocated_block_list h)" and n: "n \<le> block_size (blocks h u)"
  shows "exp_inv (shrunk_block u n h)"
    and "blk_end (blocks (shrunk_block u n h)) u = unat u + 32 + unat n"
    and "b \<noteq> u \<Longrightarrow> blocks (shrunk_block u n h) b = blocks h b"
    and "m_free_block_list (shrunk_block u n h) = m_free_block_list h"
    and "m_allocated_block_list (shrunk_block u n h) = m_allocated_block_list h"
    and "m_start_address (shrunk_block u n h) = m_start_address h"
    and "m_end_address (shrunk_block u n h) = m_end_address h"
    and "blk_lo (blocks (shrunk_block u n h)) b = blk_lo (blocks h) b"
    and "free_bytes (shrunk_block u n h) = free_bytes h"
proof -
  let ?h = "shrunk_block u n h"
  have F: "u \<notin> set (m_free_block_list h)" using u exp_invD(12) [OF inv] by auto
  show simps: "m_free_block_list ?h = m_free_block_list h" "m_allocated_block_list ?h = m_allocated_block_list h"
    "m_start_address ?h = m_start_address h" "m_end_address ?h = m_end_address h"
    and other: "b \<noteq> u \<Longrightarrow> blocks ?h b = blocks h b"
    and eu: "blk_end (blocks ?h) u = unat u + 32 + unat n" for b
    by (simp_all add: shrunk_block_def write_block_def blk_end_def)
  show lo: "blk_lo (blocks ?h) b = blk_lo (blocks h) b" for b
    by (simp add: shrunk_block_def write_block_def blk_lo_def)
  have en: "blk_end (blocks ?h) b \<le> blk_end (blocks h) b" for b
    using n by (simp add: shrunk_block_def write_block_def blk_end_def word_le_nat_alt)
  have same: "b \<in> set (m_free_block_list h) \<Longrightarrow> blocks ?h b = blocks h b" for b using F other by metis
  have all: "all_blocks ?h = all_blocks h" by (simp add: all_blocks_def simps)
  have magic: "alloc_magic (blocks ?h b) = alloc_magic (blocks h b)" "alignment (blocks ?h b) = alignment (blocks h b)" for b
    by (simp_all add: shrunk_block_def write_block_def)
  have ap: "apart (blocks ?h) a b" if "apart (blocks h) a b" for a b
    using that en [of a] en [of b] by (auto simp: apart_def lo)
  have "sorted_wrt (\<lambda>a b. blk_end (blocks ?h) a < unat b) (m_free_block_list h)"
    using exp_invD(3) [OF inv] by (rule sorted_wrt_mono_rel [rotated]) (use en le_less_trans in blast)
  then show "exp_inv ?h"
    using exp_invD [OF inv] en ap unfolding exp_inv_def all simps lo magic
    by (auto intro: order_trans [OF en])
  show "free_bytes ?h = free_bytes h"
    using same by (auto simp: free_bytes_def simps blk_end_def)
qed

lemma AdjustAllocation_shrink_eq:
  assumes inv: "exp_inv h" and u: "u \<in> set (m_allocated_block_list h)"
    and n: "n = AlignUp new_sz 4" "n < block_size (blocks h u)"
  defines "s \<equiv> u + sizeof_block + n" and "e \<equiv> u + sizeof_block + block_size (blocks h u)"
  shows "AdjustAllocation (u + sizeof_block) new_sz h = (n, snd (AddFreeBlock s e (shrunk_block u n h)))"
    and "unat s = unat u + 32 + unat n" and "unat e = blk_end (blocks h) u"
    and "hole (shrunk_block u n h) s e"
proof -
  have au: "u \<in> all_blocks h" using u by simp
  have F: "u \<notin> set (m_free_block_list h)" using u exp_invD(12) [OF inv] by auto
  show e: "unat e = blk_end (blocks h) u" unfolding e_def by (rule unat_block_stop [OF inv au])
  have lt: "unat n < unat (block_size (blocks h u))" using n(2) by (simp add: word_less_nat_alt)
  have hi: "blk_end (blocks h) u < 9223372036854775808" by (rule blk_end_lt [OF inv au])
  then have "unat (u + sizeof_block) = unat u + 32" by (simp add: blk_end_def unat_add_nowrap)
  then show s: "unat s = unat u + 32 + unat n"
    unfolding s_def using hi lt by (simp add: blk_end_def unat_add_nowrap)
  have nle: "n \<le> block_size (blocks h u)" using n(2) by simp
  note S = shrunk_block_inv [OF inv u nle]
  have "out_region (unat s) (unat e) (blocks (shrunk_block u n h)) b" if "b \<in> all_blocks h" for b
  proof (cases "b = u")
    case True
    then show ?thesis using S(2) s by (simp add: out_region_def)
  next
    case False
    then have "apart (blocks h) b u" using exp_invD(10) [OF inv that au] by simp
    then show ?thesis using S(3) [OF False] blk_lo_le [of "blocks h" u] s e
      by (auto simp: apart_def out_region_def blk_lo_def blk_end_def)
  qed
  moreover have "all_blocks (shrunk_block u n h) = all_blocks h" by (simp add: all_blocks_def S(4,5))
  moreover have "unat (m_start_address h) \<le> unat s" "unat e \<le> unat (m_end_address h)"
    using exp_invD(8,9) [OF inv au] blk_lo_le [of "blocks h" u] s e by auto
  ultimately show "hole (shrunk_block u n h) s e" using s e lt by (auto simp: hole_def S(6,7) blk_end_def)
  have ne: "\<forall>a\<in>set (m_free_block_list h). a < s \<longrightarrow> a \<noteq> e"
    using s e lt by (auto simp: word_less_nat_alt blk_end_def)
  have su: "s \<noteq> u" using s by auto
  note W = AddFreeBlock_write_used [OF inv F su ne]
  have "AdjustAllocation (u + sizeof_block) new_sz h =
      (n, write_block u ((blocks (snd (AddFreeBlock s e h)) u)\<lparr>block_size := n\<rparr>) (snd (AddFreeBlock s e h)))"
    using n by (simp add: AdjustAllocation_def Let_def cMinimumAllocationGranularity_def s_def e_def)
  also have "\<dots> = (n, snd (AddFreeBlock s e (shrunk_block u n h)))"
    unfolding shrunk_block_def W(1) by (simp add: W(2) snd_map_prod)
  finally show "AdjustAllocation (u + sizeof_block) new_sz h = (n, snd (AddFreeBlock s e (shrunk_block u n h)))" .
qed

lemma AdjustAllocation_shrink_spec:
  assumes inv: "exp_inv h" and u: "u \<in> set (m_allocated_block_list h)"
    and n: "n = AlignUp new_sz 4" "n < block_size (blocks h u)"
    and res: "AdjustAllocation (u + sizeof_block) new_sz h = (r, h')"
  shows "r = n" and "exp_inv h'" and "m_allocated_block_list h' = m_allocated_block_list h"
    and "block_size (blocks h' u) = n" and "alignment (blocks h' u) = alignment (blocks h u)"
    and "v \<in> set (m_allocated_block_list h) \<Longrightarrow> v \<noteq> u \<Longrightarrow> blocks h' v = blocks h v"
    and "unat n + 32 \<le> unat (block_size (blocks h u)) \<Longrightarrow>
      free_bytes h' = free_bytes h \<union> {unat u + 32 + unat n ..< blk_end (blocks h) u}"
    and "m_start_address h' = m_start_address h" "m_end_address h' = m_end_address h"
proof -
  let ?s = "u + sizeof_block + n" and ?e = "u + sizeof_block + block_size (blocks h u)"
  note E = AdjustAllocation_shrink_eq [OF inv u n]
  have nle: "n \<le> block_size (blocks h u)" using n(2) by simp
  note S = shrunk_block_inv [OF inv u nle]
  obtain ok h2 where a: "AddFreeBlock ?s ?e (shrunk_block u n h) = (ok, h2)"
    by (cases "AddFreeBlock ?s ?e (shrunk_block u n h)")
  then have h': "r = n" "h' = h2" using E(1) res by simp_all
  note A = AddFreeBlock_spec [OF S(1) E(4) a]
  show "r = n" by (rule h')
  show "exp_inv h'" "m_allocated_block_list h' = m_allocated_block_list h"
    "m_start_address h' = m_start_address h" "m_end_address h' = m_end_address h"
    using A(1,2,4,5) S(5,6,7) h' by simp_all
  have "blocks h' u = blocks (shrunk_block u n h) u" using A(3) [of u] u S(5) h' by simp
  then show "block_size (blocks h' u) = n" "alignment (blocks h' u) = alignment (blocks h u)"
    by (simp_all add: shrunk_block_def write_block_def)
  show "blocks h' v = blocks h v" if "v \<in> set (m_allocated_block_list h)" "v \<noteq> u"
    using A(3) [of v] S(3) [of v] S(5) that h' by simp
  show "free_bytes h' = free_bytes h \<union> {unat u + 32 + unat n ..< blk_end (blocks h) u}"
    if "unat n + 32 \<le> unat (block_size (blocks h u))"
    using A(7) [OF A(9)] that E(2,3) S(9) h' by (simp add: blk_end_def)
qed

section \<open>Growing an allocation\<close>

text \<open>
  The guard of the growing branch is the wrong way round: with room enough in the free block behind
  the allocation nothing happens, and without it the headers are overwritten.
\<close>

lemma find_eq: "find (\<lambda>b. b = x) xs = (if x \<in> set xs then Some x else None)"
  by (induction xs) auto

lemma AdjustAllocation_grow_nothing_behind:
  assumes "AlignUp new_sz 4 > block_size (blocks h u)"
    and "u + sizeof_block + block_size (blocks h u) \<notin> set (m_free_block_list h)"
  shows "AdjustAllocation (u + sizeof_block) new_sz h = (block_size (blocks h u), h)"
  using assms by (auto simp: AdjustAllocation_def Let_def cMinimumAllocationGranularity_def find_eq)

lemma total_behind:
  assumes inv: "exp_inv h" and u: "u \<in> set (m_allocated_block_list h)"
    and f: "f = u + sizeof_block + block_size (blocks h u)" "f \<in> set (m_free_block_list h)"
  shows "unat (block_size (blocks h f) + sizeof_block + block_size (blocks h u)) =
      unat (block_size (blocks h f)) + 32 + unat (block_size (blocks h u))"
proof -
  have "unat f = blk_end (blocks h) u" unfolding f(1) by (rule unat_block_stop [OF inv]) (simp add: u)
  moreover have "blk_end (blocks h) f < 9223372036854775808" using blk_end_lt [OF inv, of f] f(2) by simp
  ultimately have "unat (block_size (blocks h f)) + 32 + unat (block_size (blocks h u)) < 9223372036854775808"
    by (simp add: blk_end_def)
  then show ?thesis by (simp add: unat_add_nowrap)
qed

lemma AdjustAllocation_grow_room:
  assumes inv: "exp_inv h" and u: "u \<in> set (m_allocated_block_list h)"
    and n: "AlignUp new_sz 4 > block_size (blocks h u)"
    and f: "f = u + sizeof_block + block_size (blocks h u)" "f \<in> set (m_free_block_list h)"
    and room: "unat (AlignUp new_sz 4) < unat (block_size (blocks h u)) + 32 + unat (block_size (blocks h f))"
  shows "AdjustAllocation (u + sizeof_block) new_sz h = (block_size (blocks h u), h)"
proof -
  have "AlignUp new_sz 4 < block_size (blocks h f) + sizeof_block + block_size (blocks h u)"
    using total_behind [OF inv u f] room by (simp add: word_less_nat_alt)
  then show ?thesis using n f
    by (auto simp: AdjustAllocation_def Let_def cMinimumAllocationGranularity_def find_eq)
qed

lemma unat_minus_nonzero:
  fixes x :: u64
  assumes "x \<noteq> 0"
  shows "unat (- x) = 2 ^ 64 - unat x"
proof -
  have "uint (- x) = (- uint x) mod 2 ^ 64" by (simp add: uint_word_ariths)
  moreover have "0 < uint x" "uint x < 2 ^ 64" using assms unsigned_less [of x, where ?'a = int]
      unsigned_greater_eq [of x, where ?'a = int] unsigned_eq_0_iff [of x, where ?'a = int] by (auto simp: order_less_le)
  ultimately have "uint (- x) = 2 ^ 64 - uint x" by (simp add: zmod_zminus1_eq_if)
  moreover have "nat (2 ^ 64 - uint x) = 2 ^ 64 - nat (uint x)"
    using unsigned_greater_eq [of x, where ?'a = int] by (subst nat_diff_distrib') simp_all
  ultimately show ?thesis by (simp flip: nat_uint_eq)
qed

lemma AdjustAllocation_grow_breaks:
  assumes inv: "exp_inv h" and u: "u \<in> set (m_allocated_block_list h)"
    and f: "f = u + sizeof_block + block_size (blocks h u)" "f \<in> set (m_free_block_list h)"
    and n: "n = AlignUp new_sz 4" "unat n < 2 ^ 62"
    and full: "unat (block_size (blocks h u)) + 32 + unat (block_size (blocks h f)) \<le> unat n"
  shows "fst (AdjustAllocation (u + sizeof_block) new_sz h) = n"
    and "\<not> exp_inv (snd (AdjustAllocation (u + sizeof_block) new_sz h))"
proof -
  define T where "T = block_size (blocks h f) + sizeof_block + block_size (blocks h u)"
  have T: "unat T = unat (block_size (blocks h f)) + 32 + unat (block_size (blocks h u))"
    unfolding T_def by (rule total_behind [OF inv u f])
  define a where "a = u + sizeof_block"
  define w where "w = f + (block_size (blocks h f) + sizeof_block) - (a + n + sizeof_block)"
  have over: "unat (n + sizeof_block - T) = unat n + 32 - unat T"
  proof -
    have "unat (n + sizeof_block) = unat n + 32" using n(2) by (simp add: unat_add_nowrap)
    then show ?thesis using full T by (simp add: unat_sub_nowrap)
  qed
  have wneg: "w = - (n + sizeof_block - T)" unfolding w_def T_def a_def f(1) by (simp add: algebra_simps)
  have "n + sizeof_block - T \<noteq> 0" using over full T by auto
  then have w: "unat w = 2 ^ 64 - (unat n + 32 - unat T)"
    using over full T unat_minus_nonzero [of "n + sizeof_block - T"] unfolding wneg by simp
  then have wbig: "2 ^ 63 \<le> unat w" using n(2) by simp
  then have wle: "sizeof_block \<le> w" by (simp add: word_le_nat_alt)
  obtain A B where F: "m_free_block_list h = A @ f # B" using f(2) split_list by metis
  have d: "distinct (A @ f # B)" using free_list_distinct [OF inv] F by simp
  have fu: "f \<notin> set (m_allocated_block_list h)" using f(2) exp_invD(12) [OF inv] by auto
  have bu: "block_size (blocks h u) < n" "\<not> n < T" using full T by (auto simp: word_less_nat_alt)
  define g where "g = a + n + sizeof_block - w"
  let ?h = "h\<lparr>m_free_block_list := A @ g # B,
      blocks := (blocks h)(u := (blocks h u)\<lparr>block_size := g - a\<rparr>, g := free_blk w)\<rparr>"
  have ul: "unlink_block f h = h\<lparr>m_free_block_list := A @ B\<rparr>"
    using d fu by (simp add: unlink_block_def F remove1_split remove1_idem)
  have gn: "f + block_size (blocks h f) + sizeof_block - (a + n + sizeof_block) = w"
    "f + (block_size (blocks h f) + sizeof_block) - (a + n + sizeof_block) = w"
    by (simp_all add: w_def algebra_simps)
  have f': "f = a + block_size (blocks h u)" using f(1) by (simp add: a_def)
  have gg: "a + n + sizeof_block - w = g" "a + (n + sizeof_block) - w = g" by (simp_all add: g_def algebra_simps)
  have au: "a - sizeof_block = u" by (simp add: a_def)
  have bu': "block_size (blocks h u) \<noteq> n" "\<not> n < block_size (blocks h u)" using bu(1) by auto
  have "AdjustAllocation a new_sz h = (n, ?h)"
    unfolding AdjustAllocation_def Let_def au cMinimumAllocationGranularity_def n(1) [symmetric]
      f' [symmetric] find_eq F
    using bu' bu(2) wle d
    by (simp add: write_block_def ul insert_after_last_opt list_prev_split' gn gg T_def [symmetric] free_blk_def)
  then have res: "AdjustAllocation (u + sizeof_block) new_sz h = (n, ?h)" by (simp only: a_def)
  then show "fst (AdjustAllocation (u + sizeof_block) new_sz h) = n" by simp
  show "\<not> exp_inv (snd (AdjustAllocation (u + sizeof_block) new_sz h))"
  proof
    assume "exp_inv (snd (AdjustAllocation (u + sizeof_block) new_sz h))"
    then have "exp_inv ?h" by (simp add: res)
    then have "blk_end (blocks ?h) g < 9223372036854775808" by (rule blk_end_lt) simp
    then show False using wbig by (simp add: blk_end_def free_blk_def)
  qed
qed

section \<open>\<open>AdjustHeap\<close>\<close>

lemma AdjustHeap_keeps:
  assumes inv: "exp_inv h"
    and "m_free_block_list h = [] \<or> blk_end (blocks h) (last (m_free_block_list h)) \<noteq> unat (m_end_address h)"
  shows "AdjustHeap parent_adjust parent h = ((m_end_address h, 0), parent, h)"
proof (cases "m_free_block_list h = []")
  case False
  let ?l = "last (m_free_block_list h)"
  have "unat (?l + (sizeof_block + block_size (blocks h ?l))) = blk_end (blocks h) ?l"
    using unat_block_stop [OF inv, of ?l] False by (simp add: add.assoc)
  then have "?l + (sizeof_block + block_size (blocks h ?l)) \<noteq> m_end_address h" using assms(2) False by auto
  then show ?thesis using False by (simp add: AdjustHeap_def Let_def)
qed (simp add: AdjustHeap_def Let_def)

lemma AdjustHeap_trims:
  assumes full: "exp_full h" and F: "m_free_block_list h = A @ [l]"
    and e: "blk_end (blocks h) l = unat (m_end_address h)"
  shows "\<exists>h'. AdjustHeap parent_adjust parent h =
      ((l, sizeof_block + block_size (blocks h l)),
       map_option (\<lambda>p. snd (parent_adjust (heap_this h) (l - heap_this h) p)) parent, h') \<and>
     exp_full h' \<and> m_end_address h' = l \<and> m_start_address h' = m_start_address h \<and>
     m_allocated_block_list h' = m_allocated_block_list h \<and> blocks h' = blocks h \<and> m_free_block_list h' = A"
proof -
  have inv: "exp_inv h" using full by (simp add: exp_full_def)
  note D = exp_invD [OF inv]
  have lF: "l \<in> set (m_free_block_list h)" using F by simp
  let ?t = "sizeof_block + block_size (blocks h l)"
  have stop: "l + ?t = m_end_address h"
    using unat_block_stop [OF inv, of l] lF e by (simp add: add.assoc word_eq_unat_iff)
  then have l: "m_end_address h - ?t = l" by (simp add: algebra_simps)
  have hs: "GetTotalSize h + sizeof_heap - ?t = l - heap_this h"
    by (simp add: GetTotalSize_def heap_this_def flip: stop)
  define h' where "h' = h\<lparr>m_free_block_list := A, m_end_address := l\<rparr>"
  have notin: "l \<notin> set A" "l \<notin> set (m_allocated_block_list h)"
    using free_list_distinct [OF inv] F D(12) by auto
  have ul: "(unlink_block l h)\<lparr>m_end_address := l\<rparr> = h'"
    using notin F by (simp add: unlink_block_def h'_def remove1_append remove1_idem)
  have res: "AdjustHeap parent_adjust parent h = ((l, ?t),
       map_option (\<lambda>p. snd (parent_adjust (heap_this h) (l - heap_this h) p)) parent, h')"
  proof -
    have "heap_this h' = heap_this h" "m_end_address (unlink_block l h) = m_end_address h"
      by (simp_all add: heap_this_def h'_def unlink_block_def)
    then show ?thesis using F stop by (simp add: AdjustHeap_def Let_def l hs ul)
  qed
  have sub: "b \<in> all_blocks h \<and> b \<noteq> l" if "b \<in> all_blocks h'" for b
    using that notin F by (auto simp: all_blocks_def h'_def)
  have below: "blk_end (blocks h) b \<le> unat l" if "b \<in> all_blocks h'" for b
  proof -
    have b: "b \<in> all_blocks h" "b \<noteq> l" using sub [OF that] by auto
    then have "apart (blocks h) b l" using D(10) [of b l] lF by simp
    moreover have "blk_lo (blocks h) b < unat (m_end_address h)"
      using D(9) [OF b(1)] blk_lo_le [of "blocks h" b] blk_end_gt [of b "blocks h"] by simp
    ultimately show ?thesis using e blk_lo_free [OF inv lF] by (auto simp: apart_def)
  qed
  have lo: "unat (m_start_address h) \<le> unat l" "unat l < unat (m_end_address h)"
    using D(8) [of l] lF blk_lo_free [OF inv lF] e blk_end_gt [of l "blocks h"] by auto
  have simps: "m_free_block_list h' = A" "m_allocated_block_list h' = m_allocated_block_list h" "blocks h' = blocks h"
    "m_start_address h' = m_start_address h" "m_end_address h' = l" by (simp_all add: h'_def)
  have inv': "exp_inv h'"
    using D(1-3,11,12) lo below D(4-8,10) sub unfolding exp_inv_def simps
    by (auto simp: F sorted_wrt_append)
  have "free_bytes h = free_bytes h' \<union> {unat l ..< unat (m_end_address h)}"
    using e by (auto simp: free_bytes_def F simps)
  moreover have "used_bytes h' = used_bytes h" by (simp add: used_bytes_def used_span_def simps)
  moreover have left: "x < unat l" if x: "x \<in> free_bytes h' \<union> used_bytes h'" for x
  proof -
    obtain b where "b \<in> all_blocks h'" "x < blk_end (blocks h) b"
      using x by (auto simp: free_bytes_def used_bytes_def used_span_def simps all_blocks_def)
    then show ?thesis using below [of b] by simp
  qed
  moreover have "free_bytes h \<union> used_bytes h = {unat (m_start_address h) ..< unat (m_end_address h)}"
    using full by (simp add: exp_full_def)
  ultimately have "(free_bytes h' \<union> used_bytes h') \<union> {unat l ..< unat (m_end_address h)} =
      {unat (m_start_address h) ..< unat (m_end_address h)}" by blast
  moreover have "(free_bytes h' \<union> used_bytes h') \<inter> {unat l ..< unat (m_end_address h)} = {}"
    using left by fastforce
  ultimately have "free_bytes h' \<union> used_bytes h' =
      {unat (m_start_address h) ..< unat (m_end_address h)} - {unat l ..< unat (m_end_address h)}" by blast
  also have "\<dots> = {unat (m_start_address h) ..< unat l}" using lo by auto
  finally have "free_bytes h' \<union> used_bytes h' = {unat (m_start_address h) ..< unat l}" .
  then have "exp_full h'" using inv' by (simp add: exp_full_def simps)
  then show ?thesis using res simps by auto
qed

section \<open>\<open>ResizeHeapBack\<close>\<close>

lemma ResizeHeapBack_empty:
  assumes "m_allocated_block_list h = []" and "AlignUp new_sz 4 \<noteq> GetTotalSize h"
  shows "ResizeHeapBack isal adj is_root parent new_sz h = Inl Out_Of_Bounds"
  using assms by (simp add: ResizeHeapBack_def Let_def cMinimumAllocationGranularity_def)

lemma last_used_not_at_end:
  assumes inv: "exp_inv h" and "m_allocated_block_list h \<noteq> []"
  shows "last (m_allocated_block_list h) + block_size (blocks h (last (m_allocated_block_list h))) \<noteq> m_end_address h"
proof -
  let ?l = "last (m_allocated_block_list h)"
  have "?l \<in> all_blocks h" using assms(2) by simp
  from exp_invD(9) [OF inv this] blk_end_lt [OF inv this]
  have "unat (?l + block_size (blocks h ?l)) < unat (m_end_address h)"
    by (simp add: blk_end_def unat_add_nowrap)
  then show ?thesis by auto
qed

lemma ResizeHeapBack_never_shrinks:
  assumes "exp_inv h" and "m_allocated_block_list h \<noteq> []" and "AlignUp new_sz 4 < GetTotalSize h"
  shows "ResizeHeapBack isal adj is_root parent new_sz h = Inr (GetTotalSize h, parent, h)"
  using assms last_used_not_at_end [OF assms(1,2)]
  by (auto simp: ResizeHeapBack_def Let_def cMinimumAllocationGranularity_def)

lemma ResizeHeapBack_child_never_grows:
  assumes "m_allocated_block_list h \<noteq> []" and "GetTotalSize h < AlignUp new_sz 4"
    and "\<And>a n p. fst (adj a n p) = n"
  shows "\<exists>parent'. ResizeHeapBack isal adj False parent new_sz h = Inr (GetTotalSize h, parent', h)"
proof -
  let ?n = "AlignUp new_sz 4"
  have ne: "sizeof_heap + ?n \<noteq> ?n" by (simp add: sizeof_heap_def)
  have gt: "\<not> ?n < GetTotalSize h" "?n \<noteq> GetTotalSize h" using assms(2) by auto
  show ?thesis
  proof (cases parent)
    case None
    then show ?thesis using assms(1) gt by (simp add: ResizeHeapBack_def Let_def cMinimumAllocationGranularity_def)
  next
    case (Some p)
    obtain m p' where adj: "adj (heap_this h) (sizeof_heap + ?n) p = (m, p')"
      by (cases "adj (heap_this h) (sizeof_heap + ?n) p")
    have "m \<noteq> ?n" using ne assms(3) [of "heap_this h" "sizeof_heap + ?n" p] adj by simp
    then show ?thesis using assms(1) gt adj Some
      by (simp add: ResizeHeapBack_def Let_def cMinimumAllocationGranularity_def)
  qed
qed

lemma coalesce_end_address:
  fixes x :: u64
  defines "upd \<equiv> (\<lambda>h :: exp_heap. h\<lparr>m_end_address := x\<rparr>)"
  shows "coalesce_back n e (upd h) = map_prod id upd (coalesce_back n e h)"
    and "coalesce_front p s (upd h) = map_prod id (map_prod id upd) (coalesce_front p s h)"
  by (cases n; simp add: coalesce_back_def unlink_block_def upd_def)
    (cases p; simp add: coalesce_front_def unlink_block_def upd_def)

lemma AddFreeBlock_end_address:
  "AddFreeBlock s e (h\<lparr>m_end_address := x\<rparr>) = map_prod id (\<lambda>h. h\<lparr>m_end_address := x\<rparr>) (AddFreeBlock s e h)"
proof -
  let ?upd = "\<lambda>h :: exp_heap. h\<lparr>m_end_address := x\<rparr>"
  obtain p n where f: "find_neighbours s None None (m_free_block_list h) = (p, n)"
    by (cases "find_neighbours s None None (m_free_block_list h)")
  obtain e' h1 where b: "coalesce_back n e h = (e', h1)" by (cases "coalesce_back n e h")
  obtain l s' h2 where c: "coalesce_front p s h1 = (l, s', h2)" by (cases "coalesce_front p s h1")
  have "coalesce_back n e (?upd h) = (e', ?upd h1)" "coalesce_front p s (?upd h1) = (l, s', ?upd h2)"
    using b c by (simp_all add: coalesce_end_address)
  then show ?thesis using f b c by (simp add: AddFreeBlock_def write_block_def Let_def)
qed

lemma ResizeHeapBack_root_grows:
  assumes full: "exp_full h" and used: "m_allocated_block_list h \<noteq> []"
    and n: "n = AlignUp new_sz 4" "unat (m_start_address h) + unat n < 2 ^ 63"
    and grow: "unat (GetTotalSize h) + 32 \<le> unat n"
  shows "\<exists>h'. ResizeHeapBack isal adj True parent new_sz h = Inr (n, parent, h') \<and> exp_full h' \<and>
     m_start_address h' = m_start_address h \<and> GetTotalSize h' = n \<and>
     m_allocated_block_list h' = m_allocated_block_list h \<and>
     (\<forall>u\<in>set (m_allocated_block_list h). blocks h' u = blocks h u)"
proof -
  have inv: "exp_inv h" using full by (simp add: exp_full_def)
  note D = exp_invD [OF inv]
  let ?e = "m_end_address h" and ?e' = "m_start_address h + n"
  have e': "unat ?e' = unat (m_start_address h) + unat n" using n(2) by (simp add: unat_add_nowrap)
  have tot: "unat (GetTotalSize h) = unat ?e - unat (m_start_address h)"
    using D(2) by (simp add: GetTotalSize_def unat_sub_nowrap)
  define h1 where "h1 = h\<lparr>m_end_address := ?e'\<rparr>"
  have inv1: "exp_inv h1"
  proof -
    have up: "unat ?e \<le> unat ?e'" "unat (m_start_address h) \<le> unat ?e'" "unat ?e' < 2 ^ 63"
      using e' tot grow D(2) n(2) by auto
    have simps: "m_free_block_list h1 = m_free_block_list h" "blocks h1 = blocks h" "m_start_address h1 = m_start_address h"
      "m_allocated_block_list h1 = m_allocated_block_list h" "m_end_address h1 = ?e'" "all_blocks h1 = all_blocks h"
      by (simp_all add: h1_def all_blocks_def)
    have "blk_end (blocks h) b \<le> unat ?e'" if "b \<in> all_blocks h" for b using D(9) [OF that] up by simp
    then show ?thesis using D(3-8,10-12) up unfolding exp_inv_def simps by simp
  qed
  have hole1: "hole h1 ?e ?e'"
    using e' tot grow D(2) D(9) unfolding hole_def h1_def by (auto simp: out_region_def all_blocks_def)
  obtain ok h' where a: "AddFreeBlock ?e ?e' h1 = (ok, h')" by (cases "AddFreeBlock ?e ?e' h1")
  note A = AddFreeBlock_spec [OF inv1 hole1 a]
  have fb: "free_bytes h' = free_bytes h1 \<union> {unat ?e ..< unat ?e'}"
    by (rule A(7) [OF A(9)]) (use e' tot grow D(2) in simp)
  have gt: "\<not> n < GetTotalSize h" "n \<noteq> GetTotalSize h" using grow by (auto simp: word_less_nat_alt)
  have "snd (AddFreeBlock ?e ?e' h)\<lparr>m_end_address := ?e'\<rparr> = h'"
    using a unfolding h1_def AddFreeBlock_end_address by (cases "AddFreeBlock ?e ?e' h") simp
  then have res: "ResizeHeapBack isal adj True parent new_sz h = Inr (n, parent, h')"
    using gt last_used_not_at_end [OF inv used] used
    by (simp add: ResizeHeapBack_def Let_def cMinimumAllocationGranularity_def flip: n(1))
  have keep: "blocks h' u = blocks h u" if "u \<in> set (m_allocated_block_list h)" for u
    using A(3) [of u] that by (simp add: h1_def)
  have al: "m_allocated_block_list h' = m_allocated_block_list h" using A(2) by (simp add: h1_def)
  have ub: "used_bytes h' = used_bytes h" unfolding used_bytes_def al
    using keep by (auto simp: used_span_def blk_lo_def blk_end_def)
  have fb1: "free_bytes h1 = free_bytes h" by (simp add: free_bytes_def h1_def)
  have "free_bytes h' \<union> used_bytes h' = {unat (m_start_address h) ..< unat ?e'}"
  proof -
    have "free_bytes h' \<union> used_bytes h' = (free_bytes h \<union> used_bytes h) \<union> {unat ?e ..< unat ?e'}"
      using fb ub fb1 by auto
    also have "\<dots> = {unat (m_start_address h) ..< unat ?e} \<union> {unat ?e ..< unat ?e'}"
      using full by (simp add: exp_full_def)
    also have "\<dots> = {unat (m_start_address h) ..< unat ?e'}"
      using e' tot grow D(2) by (intro ivl_disj_un_two(3)) auto
    finally show ?thesis .
  qed
  then have "exp_full h'" using A(1,4,5) by (simp add: exp_full_def h1_def)
  moreover have "GetTotalSize h' = n" using A(4,5) by (simp add: GetTotalSize_def h1_def)
  ultimately show ?thesis using res al keep A(4) by (auto simp: h1_def)
qed

section \<open>The life of a heap\<close>

text \<open>
  The calls of \<open>AdjustAllocation\<close> that lose nothing: those that change nothing, and those that give back a tail
  which holds a header.  Left out are the growing call that breaks the heap, and the shrinking one whose tail of less
  than a header no block holds any more.
\<close>

definition adjust_safe :: "u64 \<Rightarrow> u64 \<Rightarrow> exp_heap \<Rightarrow> bool" where
  "adjust_safe p sz h \<longleftrightarrow>
     (let new_size = AlignUp sz 4; old_size = GetAllocationSize p h
      in if old_size < new_size
         then p + old_size \<in> set (m_free_block_list h) \<longrightarrow> new_size < block_size (blocks h (p + old_size)) + sizeof_block + old_size
         else new_size = old_size \<or> unat new_size + 32 \<le> unat old_size)"

lemma AdjustAllocation_safe:
  assumes full: "exp_full h" and p: "p \<in> set (exp_handed h)" and safe: "adjust_safe p sz h" and res: "AdjustAllocation p sz h = (r, h')"
  shows "exp_full h'" and "exp_handed h' = exp_handed h" and "m_start_address h' = m_start_address h" and "m_end_address h' = m_end_address h"
    and "q \<in> set (exp_handed h) \<Longrightarrow> q \<noteq> p \<Longrightarrow> exp_extent h' q = exp_extent h q"
proof -
  define u where "u = p - sizeof_block"
  let ?n = "AlignUp sz 4" and ?s = "block_size (blocks h u)"
  have u: "u \<in> set (m_allocated_block_list h)" and pu: "p = u + sizeof_block" using p by (simp_all add: u_def exp_handed_simps)
  have inv: "exp_inv h" using full by (simp add: exp_full_def)
  have safe': "if ?s < ?n then p + ?s \<in> set (m_free_block_list h) \<longrightarrow> ?n < block_size (blocks h (p + ?s)) + sizeof_block + ?s
      else ?n = ?s \<or> unat ?n + 32 \<le> unat ?s"
    using safe by (simp add: adjust_safe_def GetAllocationSize_def u_def Let_def)
  consider "h' = h" | "?n < ?s" "unat ?n + 32 \<le> unat ?s"
  proof (cases "?s < ?n")
    case True
    then have "h' = h" using safe' res
      by (auto simp: AdjustAllocation_def Let_def cMinimumAllocationGranularity_def find_eq u_def split: if_splits)
    then show thesis by (rule that)
  next
    case False
    show thesis
    proof (cases "?n = ?s")
      case True
      then have "h' = h" using res by (auto simp: AdjustAllocation_def Let_def cMinimumAllocationGranularity_def u_def)
      then show thesis by (rule that)
    next
      case ne: False
      then have "unat ?n + 32 \<le> unat ?s" using False safe' by simp
      then show thesis using that(2) by (simp add: word_less_nat_alt)
    qed
  qed
  then have "exp_full h' \<and> exp_handed h' = exp_handed h \<and> m_start_address h' = m_start_address h \<and> m_end_address h' = m_end_address h \<and>
    (\<forall>q\<in>set (exp_handed h). q \<noteq> p \<longrightarrow> exp_extent h' q = exp_extent h q)"
  proof cases
    case 1
    then show ?thesis using full by simp
  next
    case 2
    note S = AdjustAllocation_shrink_spec [OF inv u refl 2(1) res [unfolded pu]]
    have keep: "used_span h' v = used_span h v" if "v \<in> set (m_allocated_block_list h)" "v \<noteq> u" for v
      using S(6) [OF that] by (rule used_span_same)
    have lo: "blk_lo (blocks h') u = blk_lo (blocks h) u" using S(5) by (simp add: blk_lo_def)
    have hi: "blk_end (blocks h') u = unat u + 32 + unat ?n" using S(4) by (simp add: blk_end_def)
    have old: "unat u + 32 + unat ?n \<le> blk_end (blocks h) u" using 2(2) by (simp add: blk_end_def)
    have "blk_lo (blocks h) u \<le> unat u" by (simp add: blk_lo_def)
    then have split: "used_span h u = used_span h' u \<union> {unat u + 32 + unat ?n ..< blk_end (blocks h) u}"
      using old unfolding used_span_def lo hi by (subst ivl_disj_un_two(3)) auto
    have insert_u: "set (m_allocated_block_list h) = insert u (set (m_allocated_block_list h) - {u})" using u by blast
    have "used_bytes h = used_span h u \<union> (\<Union>v\<in>set (m_allocated_block_list h) - {u}. used_span h v)"
      unfolding used_bytes_def by (subst insert_u) (simp only: UN_insert)
    moreover have "used_bytes h' = used_span h' u \<union> (\<Union>v\<in>set (m_allocated_block_list h) - {u}. used_span h' v)"
      unfolding used_bytes_def S(3) by (subst insert_u) (simp only: UN_insert)
    moreover have "(\<Union>v\<in>set (m_allocated_block_list h) - {u}. used_span h' v) = (\<Union>v\<in>set (m_allocated_block_list h) - {u}. used_span h v)"
      using keep by simp
    ultimately have "free_bytes h' \<union> used_bytes h' = free_bytes h \<union> used_bytes h" using split S(7) [OF 2(2)] by auto
    then have "exp_full h'" using full S(2,8,9) by (simp add: exp_full_def)
    moreover have "exp_extent h' q = exp_extent h q" if "q \<in> set (exp_handed h)" "q \<noteq> p" for q
    proof -
      have "q - sizeof_block \<noteq> u" using that(2) by (simp add: u_def)
      then show ?thesis using S(6) [of "q - sizeof_block"] that(1) by (simp add: exp_extent_def exp_handed_simps)
    qed
    ultimately show ?thesis using S(3,8,9) by (simp add: exp_handed_def)
  qed
  then show "exp_full h'" and "exp_handed h' = exp_handed h" and "m_start_address h' = m_start_address h" and "m_end_address h' = m_end_address h"
    and "q \<in> set (exp_handed h) \<Longrightarrow> q \<noteq> p \<Longrightarrow> exp_extent h' q = exp_extent h q" by blast+
qed

interpretation exp_adjustable: adjustable_allocator exp_full exp_handed exp_extent exp_request "TryAllocate give_up" Free
  adjust_safe "\<lambda>p sz h. snd (AdjustAllocation p sz h)"
proof unfold_locales
  fix h p sz assume a: "exp_full h" "p \<in> set (exp_handed h)" "adjust_safe p sz h"
  note A = AdjustAllocation_safe [OF a prod.collapse [symmetric]]
  show "exp_full (snd (AdjustAllocation p sz h))" "exp_handed (snd (AdjustAllocation p sz h)) = exp_handed h" by (rule A)+
  show "exp_extent (snd (AdjustAllocation p sz h)) q = exp_extent h q" if "q \<in> set (exp_handed h)" "q \<noteq> p" for q
    by (rule A(5) [OF that])
qed

text \<open>
  A root heap from its creation on.  \<open>ResizeHeapBack\<close> is not a step; it has lemmas of its own.
\<close>

inductive exp_life :: "u64 \<Rightarrow> u64 \<Rightarrow> exp_heap \<Rightarrow> bool" for address sz where
  life_created: "TryCreate_arena address sz mem = Inr h \<Longrightarrow> exp_life address sz h"
| life_allocated: "exp_life address sz h \<Longrightarrow> valid_alignment align \<Longrightarrow>
    TryAllocate give_up n align h = Some (p, h') \<Longrightarrow> exp_life address sz h'"
| life_freed: "exp_life address sz h \<Longrightarrow> IsAddressAllocation p h \<Longrightarrow> Free p h = Inr h' \<Longrightarrow> exp_life address sz h'"
| life_mode: "exp_life address sz h \<Longrightarrow> exp_life address sz (SetAllocationMode mode h)"
| life_adjusted: "exp_life address sz h \<Longrightarrow> IsAddressAllocation p h \<Longrightarrow> adjust_safe p n h \<Longrightarrow>
    AdjustAllocation p n h = (r, h') \<Longrightarrow> exp_life address sz h'"
| life_trimmed: "exp_life address sz h \<Longrightarrow> AdjustHeap (\<lambda>_ n p. (n, p)) (None :: unit option) h = (x, parent', h') \<Longrightarrow> exp_life address sz h'"

inductive_cases exp_life_elim: "exp_life address sz h"

lemma AdjustHeap_full:
  assumes full: "exp_full h" and res: "AdjustHeap parent_adjust parent h = (x, parent', h')"
  shows "exp_full h' \<and> m_start_address h' = m_start_address h \<and> m_end_address h' \<le> m_end_address h"
proof (cases "m_free_block_list h \<noteq> [] \<and> blk_end (blocks h) (last (m_free_block_list h)) = unat (m_end_address h)")
  case True
  then obtain A l where F: "m_free_block_list h = A @ [l]" by (cases "m_free_block_list h" rule: rev_cases) auto
  have "blk_end (blocks h) l = unat (m_end_address h)" using True F by simp
  moreover from this have "unat l \<le> unat (m_end_address h)" using blk_end_gt [of l "blocks h"] by simp
  ultimately show ?thesis using AdjustHeap_trims [OF full F, of parent_adjust parent] res by (auto simp: word_le_nat_alt)
next
  case False
  have "exp_inv h" using full by (simp add: exp_full_def)
  then show ?thesis using AdjustHeap_keeps [of h parent_adjust parent] False full res by auto
qed

lemma exp_life_full:
  assumes "exp_life address sz h" and "unat address + unat sz < 2 ^ 63"
  shows "exp_full h \<and> unat (m_start_address h) = unat address + 160 \<and> unat (m_end_address h) \<le> unat address + unat sz"
  using assms
proof (induction rule: exp_life.induct)
  case (life_created mem h)
  then have "address \<noteq> 0 \<and> sizeof_heap + sizeof_block + cMinimumAllocationGranularity \<le> sz"
    by (simp add: TryCreate_arena_def bind_vp_assert split: if_splits)
  then have "address \<noteq> 0" "196 \<le> unat sz"
    by (simp_all add: sizeof_heap_def sizeof_block_def cMinimumAllocationGranularity_def word_le_nat_alt)
  then show ?case using TryCreate_arena_full [of address sz mem] life_created by auto
next
  case (life_allocated h align n p h')
  then have full: "exp_full h" and inv: "exp_inv h" by (simp_all add: exp_full_def)
  from TryAllocate_declined [OF inv life_allocated.hyps(2) give_up_declines, of n] life_allocated.hyps(3)
  have "h' = h \<or> (\<exists>a asz. allocated_at h p asz a h')" by (auto split: if_splits)
  then show ?case using life_allocated allocated_at_full [OF full] by (auto simp: allocated_at_def Let_def)
next
  case (life_freed h p h')
  then have p: "p - sizeof_block \<in> set (m_allocated_block_list h)" "exp_full h"
    by (simp_all add: IsAddressAllocation_handed exp_handed_simps)
  then show ?case using Free_full [OF p(2,1), of h'] life_freed by simp
next
  case (life_mode h mode)
  then show ?case by (simp add: SetAllocationMode_full) (simp add: SetAllocationMode_def)
next
  case (life_adjusted h p n r h')
  then show ?case using AdjustAllocation_safe [of h p n r h'] by (simp add: IsAddressAllocation_handed)
next
  case (life_trimmed h x parent' h')
  then have h: "exp_full h" "unat (m_start_address h) = unat address + 160" "unat (m_end_address h) \<le> unat address + unat sz" by simp_all
  show ?case using AdjustHeap_full [OF h(1) life_trimmed.hyps(2)] h(2,3) by (simp add: word_le_nat_alt)
qed

end
