(* ===== verification/Exp_Heap_Props.thy ===== *)
theory Exp_Heap_Props
  imports Exp_Heap_Resize
begin

text \<open>
  What \<open>ExpHeap\<close> guarantees, and where it does not do what it means to: the properties of
  \<open>mem_expheap.cpp\<close>, with the small heap \<open>demo_heap\<close> on which their hypotheses are met.
\<close>

definition demo_heap :: exp_heap where
  "demo_heap = construct_with_first_block 0x10000 0x1000 (\<lambda>_. free_blk 0)"

definition demo_used :: exp_heap where
  "demo_used = AddUsedBlock 0x100a0 0x100c0 0x70 demo_heap"

lemma demo_heap_full: "exp_full demo_heap"
  unfolding demo_heap_def by (rule construct_with_first_block_full) simp_all

lemma demo_request: "exp_request 100 16"
proof -
  have "(16 :: u32) = 2 ^ 4" by simp
  then show ?thesis unfolding exp_request_def valid_alignment_def by (auto intro!: exI [of _ 4])
qed

lemma demo_allocation: "TryAllocate give_up 100 16 demo_heap = Some (0x100c0, demo_used)"
proof -
  have "enforce_alignment 16 = 16" by code_simp
  moreover have "m_free_block_list demo_heap \<noteq> []" by code_simp
  moreover have "allocation_aligned_size 100 16 demo_heap = 0x70" by code_simp
  moreover have "find_free_block 0x70 (scast (16 :: u32)) demo_heap = (Some 0x100a0, 0x100c0)" by code_simp
  ultimately show ?thesis by (simp add: TryAllocate_def TryAllocate_restart.simps [of give_up 100] demo_used_def)
qed

lemma demo_used_full: "exp_full demo_used"
  by (rule exp.alloc_inv [OF demo_heap_full demo_request demo_allocation])

lemma demo_used_list: "m_allocated_block_list demo_used = [0x100a0]" "m_free_block_list demo_used = [0x10130]"
  by code_simp+

lemma demo_valid_alignment: "valid_alignment 16"
  using demo_request by (simp add: exp_request_def)

lemma full_inv: "exp_full h \<Longrightarrow> exp_inv h"
  by (simp add: exp_full_def)

section \<open>Allocating\<close>

text \<open>
  C10: a heap created over an arena and used through \<open>TryAllocate\<close>, \<open>Free\<close>, \<open>SetAllocationMode\<close>, \<open>AdjustHeap\<close> and
  those calls of \<open>AdjustAllocation\<close> that change nothing or give back a tail of at least a header is well formed at
  every moment, and its free blocks and its used blocks together are exactly the bytes between the heap object and
  the end of the heap, which lies in the arena, without overlap.  Not among the steps are the \<open>AdjustAllocation\<close>
  that grows into a free block too small, which breaks the heap, the one that shrinks by less than a header, whose
  tail no block holds any more, and \<open>ResizeHeapBack\<close>.
\<close>

theorem exp_heap_tiles_its_arena:
  assumes "exp_life address sz h" and "unat address + unat sz < 2 ^ 63"
  shows "exp_inv h \<and> free_bytes h \<inter> used_bytes h = {} \<and>
    free_bytes h \<union> used_bytes h = {unat address + 160 ..< unat (m_end_address h)} \<and> unat (m_end_address h) \<le> unat address + unat sz"
  using exp_life_full [OF assms] free_used_disjoint [of h] by (auto simp: exp_full_def)

theorem exp_heap_tiles_its_arena_witness:
  "exp_life 0x10000 0x1000 demo_used \<and> exp_inv demo_used \<and>
   free_bytes demo_used \<union> used_bytes demo_used = {65696 ..< unat (m_end_address demo_used)}"
proof -
  have "TryCreate_arena 0x10000 0x1000 (\<lambda>_. free_blk 0) = Inr demo_heap"
    by (simp add: TryCreate_arena_def demo_heap_def bind_vp_assert sizeof_heap_def sizeof_block_def
        cMinimumAllocationGranularity_def)
  then have "exp_life 0x10000 0x1000 demo_heap" by (rule life_created)
  then have life: "exp_life 0x10000 0x1000 demo_used"
    by (rule life_allocated [OF _ demo_valid_alignment demo_allocation])
  show ?thesis using life exp_heap_tiles_its_arena [OF life] by simp
qed

text \<open>
  C15: \<open>TryAllocate\<close> (with a callback that gives up) always returns.  It answers null, and changes
  nothing, only when no free block has room at the asked alignment; otherwise the memory it answers
  is aligned, was free, is not free any more, and every earlier allocation keeps its bytes.
\<close>

theorem exp_heap_allocate:
  assumes "exp_full h" and "exp_request sz align"
  shows "\<exists>p h'. TryAllocate give_up sz align h = Some (p, h') \<and>
    (if p = 0
     then h' = h \<and> \<not> room h (unat (enforce_alignment align)) (unat (allocation_aligned_size sz (enforce_alignment align) h))
     else exp_full h' \<and> unat (enforce_alignment align) dvd unat p \<and>
       exp_handed h' = exp_handed h @ [p] \<and>
       {unat p ..< unat p + unat sz} \<subseteq> exp_extent h' p \<and> exp_extent h' p \<subseteq> free_bytes h \<and>
       exp_extent h' p \<inter> free_bytes h' = {} \<and>
       (\<forall>q\<in>set (exp_handed h). exp_extent h' q = exp_extent h q))"
proof -
  have inv: "exp_inv h" and v: "valid_alignment align" using assms by (simp_all add: exp_full_def exp_request_def)
  obtain p h' where r: "TryAllocate give_up sz align h = Some (p, h')"
    and c: "if room h (unat (enforce_alignment align)) (unat (allocation_aligned_size sz (enforce_alignment align) h))
      then allocated_at h p (allocation_aligned_size sz (enforce_alignment align) h) (unat (enforce_alignment align)) h'
      else p = 0 \<and> h' = h"
    using TryAllocate_declined [OF inv v give_up_declines, of sz] by blast
  show ?thesis
  proof (cases "p = 0")
    case True
    then show ?thesis using r c by (auto simp: allocated_at_def Let_def split: if_splits)
  next
    case False
    then have al: "allocated_at h p (allocation_aligned_size sz (enforce_alignment align) h) (unat (enforce_alignment align)) h'"
      using c by (simp split: if_splits)
    have "exp_inv h'" "p - sizeof_block \<in> set (m_allocated_block_list h')"
      using al by (auto simp: allocated_at_def Let_def)
    from exp_extent_span [OF this(2,1)] al have "exp_extent h' p \<subseteq> free_bytes h \<and> exp_extent h' p \<inter> free_bytes h' = {}"
      by (auto simp: allocated_at_def Let_def)
    moreover have "unat (enforce_alignment align) dvd unat p" using al by (simp add: allocated_at_def Let_def)
    ultimately show ?thesis using r False allocated_at_full [OF assms(1) al] allocated_at_handed [OF al]
        aligned_size_ge [OF assms(2), of h] by auto
  qed
qed

theorem exp_heap_allocate_witness:
  "\<exists>h'. TryAllocate give_up 100 16 demo_heap = Some (0x100c0, h') \<and> exp_handed h' = [0x100c0]"
proof -
  have "exp_handed demo_heap = []" by code_simp
  then show ?thesis using exp_heap_allocate [OF demo_heap_full demo_request] demo_allocation by auto
qed

text \<open>
  C16: the block \<open>TryAllocate\<close> cuts is a smallest of those with room in best fit mode, and the one
  with the lowest address in first fit mode.
\<close>

theorem exp_heap_fit:
  assumes "exp_inv h" and "k < 31" and "size_representable k asz"
    and "find_free_block asz (2 ^ k) h = (Some b, p)"
  shows "fits h (2 ^ k) (unat asz) b \<and> unat p = fit_start (2 ^ k) b \<and>
    (\<forall>c. fits h (2 ^ k) (unat asz) c \<longrightarrow>
       (case m_allocation_mode h of BestFit \<Rightarrow> block_size (blocks h b) \<le> block_size (blocks h c)
        | FirstFit \<Rightarrow> unat b \<le> unat c))"
  using find_free_block_spec(2) [OF assms] find_free_block_spec(3,4) [OF assms refl]
  by (auto split: allocation_mode.split)

theorem exp_heap_fit_witness:
  "fits demo_heap 16 112 0x100a0 \<and> fit_start 16 0x100a0 = 0x100c0"
proof -
  have f: "find_free_block 0x70 (2 ^ 4) demo_heap = (Some 0x100a0, 0x100c0)" by code_simp
  have "size_representable 4 0x70" by (simp add: size_representable_def)
  from exp_heap_fit [OF full_inv [OF demo_heap_full] _ this f] show ?thesis by simp
qed

text \<open>
  \<open>GetMaximumAllocatableSize\<close> is exact: an allocation succeeds if and only if its size, rounded
  up to the alignment, is at most the answer.
\<close>

theorem exp_heap_maximum_exact:
  assumes "exp_full h" and "exp_request sz align" and "0 < sz"
  shows "(\<exists>p h'. p \<noteq> 0 \<and> TryAllocate give_up sz align h = Some (p, h')) \<longleftrightarrow>
    AlignUp sz (scast (enforce_alignment align)) \<le> GetMaximumAllocatableSize align h"
proof -
  have inv: "exp_inv h" and v: "valid_alignment align" using assms by (simp_all add: exp_full_def exp_request_def)
  obtain k where k: "k < 31" "enforce_alignment align = 2 ^ k" "scast (enforce_alignment align) = (2 ^ k :: u64)"
    using valid_alignment_enforced [OF v] by metis
  let ?asz = "AlignUp sz (scast (enforce_alignment align))"
  have asz: "allocation_aligned_size sz (enforce_alignment align) h = ?asz"
    using assms(3) by (auto simp: allocation_aligned_size_def cWholeSize_def)
  have "0 < unat sz" using assms(3) by (simp add: word_less_nat_alt)
  then have pos: "0 < unat ?asz" using aligned_size_ge [OF assms(2), of h] by (simp add: asz)
  have "unat (enforce_alignment align) = 2 ^ k" using k(1,2) by (simp add: unat_pow2)
  then show ?thesis
    using maximum_spec [OF inv k(3,1) pos] TryAllocate_declined [OF inv v give_up_declines, of sz]
    unfolding asz GetMaximumAllocatableSize_def word_le_nat_alt
    by (auto simp: allocated_at_def Let_def split: if_splits)
qed

theorem exp_heap_maximum_exact_witness:
  "GetMaximumAllocatableSize 16 demo_heap = 0xf40 \<and> AlignUp 100 16 \<le> GetMaximumAllocatableSize 16 demo_heap"
proof -
  have "(scast (enforce_alignment 16) :: u64) = 16" by code_simp
  moreover have "\<exists>p h'. p \<noteq> 0 \<and> TryAllocate give_up 100 16 demo_heap = Some (p, h')"
    using demo_allocation by (intro exI [of _ "0x100c0"] exI [of _ demo_used]) simp
  ultimately have "AlignUp 100 16 \<le> GetMaximumAllocatableSize 16 demo_heap"
    using exp_heap_maximum_exact [OF demo_heap_full demo_request] by simp
  moreover have "GetMaximumAllocatableSize 16 demo_heap = 0xf40" by code_simp
  ultimately show ?thesis by simp
qed

section \<open>Freeing\<close>

text \<open>
  C34: freeing what was just allocated succeeds and gives the heap back as it was: the same free
  list, the same used list and the same headers on both.
\<close>

theorem exp_heap_free_undoes_allocate:
  assumes "exp_full h" and "exp_request sz align"
    and "TryAllocate give_up sz align h = Some (p, h')" and "p \<noteq> 0"
  shows "\<exists>h''. Free p h' = Inr h'' \<and> exp_full h'' \<and> m_free_block_list h'' = m_free_block_list h \<and>
    m_allocated_block_list h'' = m_allocated_block_list h \<and> (\<forall>b\<in>all_blocks h. blocks h'' b = blocks h b)"
proof -
  obtain a asz where al: "allocated_at h p asz a h'" using exp_alloc_cases [OF assms(1-3)] assms(4) by metis
  obtain h'' where F: "Free p h' = Inr h''" "m_free_block_list h'' = m_free_block_list h"
    "m_allocated_block_list h'' = m_allocated_block_list h" "\<And>b. b \<in> all_blocks h \<Longrightarrow> blocks h'' b = blocks h b"
    using allocated_at_Free [OF full_inv [OF assms(1)] al] by metis
  have "p \<in> set (exp_handed h')" using allocated_at_handed(1) [OF al] by simp
  with F(1) have "exp_full h''" using exp.release_inv [OF allocated_at_full [OF assms(1) al]] by blast
  then show ?thesis using F by blast
qed

theorem exp_heap_free_undoes_allocate_witness:
  "\<exists>h''. Free 0x100c0 demo_used = Inr h'' \<and> m_free_block_list h'' = [0x100a0]"
proof -
  have "m_free_block_list demo_heap = [0x100a0]" by code_simp
  then show ?thesis using exp_heap_free_undoes_allocate [OF demo_heap_full demo_request demo_allocation] by auto
qed

text \<open>
  C12: while a client holds an allocation, whatever other clients allocate and free and however they adjust the
  sizes of their own allocations without growing into a free block that is too small, the allocation keeps its bytes,
  no other allocation overlaps them, and it can still be freed.
\<close>

theorem exp_heap_keeps_allocations_apart:
  assumes "exp_adjustable.others p h h'" and "exp_full h" and "p \<in> set (exp_handed h)"
  shows "exp_full h' \<and> exp_extent h' p = exp_extent h p \<and>
    (\<forall>q\<in>set (exp_handed h') - {p}. exp_extent h' q \<inter> exp_extent h p = {}) \<and>
    (\<exists>h''. Free p h' = Inr h'' \<and> exp_handed h'' = remove1 p (exp_handed h'))"
proof -
  have k: "exp_full h'" "p \<in> set (exp_handed h')" "exp_extent h' p = exp_extent h p"
    using exp_adjustable.kept_from_others [OF assms] by simp_all
  then have "exp_extent h' q \<inter> exp_extent h p = {}" if "q \<in> set (exp_handed h') - {p}" for q
    using exp.disjoint [OF k(1), of q p] that by auto
  then show ?thesis using k exp_adjustable.release_after_others [OF assms] by auto
qed

theorem exp_heap_keeps_allocations_apart_witness:
  "\<exists>q h'. TryAllocate give_up 100 16 demo_used = Some (q, h') \<and> exp_extent h' 0x100c0 = exp_extent demo_used 0x100c0"
proof -
  obtain q h' where r: "TryAllocate give_up 100 16 demo_used = Some (q, h')"
    using exp.alloc_returns [OF demo_used_full demo_request] by auto
  have o: "exp_adjustable.others 0x100c0 demo_used h'"
    by (rule exp_adjustable.others_alloc [OF exp_adjustable.others_refl demo_request r])
  have "0x100c0 \<in> set (exp_handed demo_used)" by (simp add: exp_handed_def demo_used_list sizeof_block_def)
  from exp_heap_keeps_allocations_apart [OF o demo_used_full this] r show ?thesis by blast
qed

section \<open>The out of memory callback and heaps inside heaps\<close>

text \<open>
  with any callback that itself leaves the heap well formed, \<open>TryAllocate\<close> leaves it well
  formed if it returns, and an address it answers was allocated from a well formed heap, the one the
  last restart saw.
\<close>

theorem exp_heap_any_callback:
  assumes "\<forall>sz n al h. exp_full h \<longrightarrow> exp_full (snd (oom sz n al h))"
    and "exp_full h" and "valid_alignment align" and "TryAllocate oom sz align h = Some (p, h')"
  shows "exp_full h' \<and> (p \<noteq> 0 \<longrightarrow> (\<exists>h0. exp_full h0 \<and>
    allocated_at h0 p (allocation_aligned_size sz (enforce_alignment align) h0) (unat (enforce_alignment align)) h'))"
proof -
  obtain k where k: "k < 31" "enforce_alignment align = 2 ^ k" "scast (enforce_alignment align) = (2 ^ k :: u64)"
    using valid_alignment_enforced [OF assms(3)] by metis
  have "unat (enforce_alignment align) = 2 ^ k" using k(1,2) by (simp add: unat_pow2)
  then show ?thesis
    using TryAllocate_restart_callback [OF assms(4) [unfolded TryAllocate_def] assms(1) k(3,1) assms(2)] by simp
qed

theorem exp_heap_any_callback_witness: "exp_full demo_used"
proof -
  have "\<forall>sz n al h. exp_full h \<longrightarrow> exp_full (snd (give_up sz n al h))" by (simp add: give_up_def)
  from exp_heap_any_callback [OF this demo_heap_full demo_valid_alignment demo_allocation] show ?thesis by simp
qed

text \<open>
  a callback that asks for another try without making room keeps \<open>TryAllocate\<close> in its loop for
  ever: the call returns only if there was room to begin with.
\<close>

theorem exp_heap_restart_loop:
  assumes "exp_inv h" and "valid_alignment align"
    and "\<not> room h (unat (enforce_alignment align)) (unat (allocation_aligned_size sz (enforce_alignment align) h))"
  shows "TryAllocate (\<lambda>_ _ _ h. (True, h)) sz align h = None"
proof -
  obtain k where k: "k < 31" "enforce_alignment align = 2 ^ k" "scast (enforce_alignment align) = (2 ^ k :: u64)"
    using valid_alignment_enforced [OF assms(2)] by metis
  have u: "unat (enforce_alignment align) = 2 ^ k" using k(1,2) by (simp add: unat_pow2)
  show ?thesis
  proof (rule ccontr)
    assume "\<not> ?thesis"
    then obtain r where r: "TryAllocate_restart (\<lambda>_ _ _ h. (True, h)) sz (enforce_alignment align) h = Some r"
      by (auto simp: TryAllocate_def)
    from TryAllocate_restart_stuck [OF this refl k(3,1) assms(1)] assms(3) show False by (simp add: u)
  qed
qed

theorem exp_heap_restart_loop_witness:
  "TryAllocate (\<lambda>_ _ _ h. (True, h)) 0x10000 16 demo_heap = None"
proof -
  have e: "enforce_alignment 16 = 16" and F: "m_free_block_list demo_heap = [0x100a0]"
    and a: "allocation_aligned_size 0x10000 16 demo_heap = 0x10000"
    and b: "block_size (blocks demo_heap 0x100a0) = 0xf40" by code_simp+
  have "\<not> room demo_heap 16 0x10000" by (simp add: room_def fits_def F blk_end_def b fit_start_def)
  then have "\<not> room demo_heap (unat (enforce_alignment 16)) (unat (allocation_aligned_size 0x10000 (enforce_alignment 16) demo_heap))"
    by (simp add: e a)
  from exp_heap_restart_loop [OF full_inv [OF demo_heap_full] demo_valid_alignment this] show ?thesis .
qed

text \<open>
  a heap created in a parent \<open>ExpHeap\<close> is well formed and lies, with everything it will ever
  hand out, inside an allocation of its own of the parent, apart from all earlier ones.
\<close>

theorem exp_heap_in_parent:
  assumes "exp_full q" and "exp_request (if sz = cWholeSize then GetMaximumAllocatableSize align q else sz) align"
    and "TryCreate GetMaximumAllocatableSize (TryAllocate give_up) mem sz align q = Some (Some h, q')"
  shows "exp_full q' \<and> exp_full h \<and> heap_this h \<in> set (exp_handed q') \<and>
    free_bytes h \<union> used_bytes h \<subseteq> exp_extent q' (heap_this h) \<and>
    (\<forall>a\<in>set (exp_handed q). exp_extent q' a \<inter> (free_bytes h \<union> used_bytes h) = {})"
  using exp.TryCreate_in_parent [OF assms] by (auto simp: exp_full_def)

theorem exp_heap_in_parent_witness:
  "\<exists>h q'. TryCreate GetMaximumAllocatableSize (TryAllocate give_up) (\<lambda>_. free_blk 0) 0x200 16 demo_heap = Some (Some h, q') \<and>
     exp_full h"
proof -
  have r: "exp_request (if 0x200 = cWholeSize then GetMaximumAllocatableSize 16 demo_heap else 0x200) 16"
    using demo_valid_alignment by (simp add: exp_request_def cWholeSize_def)
  have "map_option (\<lambda>r. fst r = None) (TryCreate GetMaximumAllocatableSize (TryAllocate give_up) (\<lambda>_. free_blk 0) 0x200 16 demo_heap)
      = Some False" by code_simp
  then obtain h q' where "TryCreate GetMaximumAllocatableSize (TryAllocate give_up) (\<lambda>_. free_blk 0) 0x200 16 demo_heap
      = Some (Some h, q')" by auto
  with exp_heap_in_parent [OF demo_heap_full r this] show ?thesis by blast
qed

section \<open>Resizing\<close>

text \<open>
  \<open>AdjustAllocation\<close> to a smaller size keeps the heap well formed, leaves the allocation where
  it is with the new size, touches no other allocation, and gives the tail back when it is at least a
  header long.
\<close>

theorem exp_heap_adjust_shrinks:
  assumes "exp_inv h" and "p \<in> set (exp_handed h)" and "AlignUp sz 4 < GetAllocationSize p h"
    and "AdjustAllocation p sz h = (r, h')"
  shows "r = AlignUp sz 4 \<and> exp_inv h' \<and> exp_handed h' = exp_handed h \<and> GetAllocationSize p h' = AlignUp sz 4 \<and>
    (\<forall>q\<in>set (exp_handed h) - {p}. exp_extent h' q = exp_extent h q) \<and>
    (unat (AlignUp sz 4) + 32 \<le> unat (GetAllocationSize p h) \<longrightarrow>
       free_bytes h' = free_bytes h \<union> (exp_extent h p - exp_extent h' p))"
proof -
  define u where "u = p - sizeof_block"
  have u: "u \<in> set (m_allocated_block_list h)" and p: "p = u + sizeof_block"
    using assms(2) by (simp_all add: u_def exp_handed_simps)
  have lt: "AlignUp sz 4 < block_size (blocks h u)" using assms(3) by (simp add: GetAllocationSize_def u_def)
  note S = AdjustAllocation_shrink_spec [OF assms(1) u refl lt assms(4) [unfolded p]]
  have "blk_end (blocks h) u < 9223372036854775808" using blk_end_lt [OF assms(1), of u] u by simp
  then have up: "unat p = unat u + 32" unfolding p by (simp add: blk_end_def unat_add_nowrap)
  have "exp_extent h' q = exp_extent h q" if "q \<in> set (exp_handed h) - {p}" for q
  proof -
    have "q - sizeof_block \<noteq> u" using that by (simp add: u_def)
    then show ?thesis using S(6) [of "q - sizeof_block"] that by (simp add: exp_extent_def exp_handed_simps)
  qed
  moreover have "exp_extent h p - exp_extent h' p = {unat u + 32 + unat (AlignUp sz 4) ..< blk_end (blocks h) u}"
    using up S(4) lt by (auto simp: exp_extent_def u_def [symmetric] blk_end_def word_less_nat_alt)
  ultimately show ?thesis using S(1,2,3,4,7)
    by (auto simp: exp_handed_def GetAllocationSize_def u_def [symmetric])
qed

theorem exp_heap_adjust_shrinks_witness:
  "exp_inv (snd (AdjustAllocation 0x100c0 32 demo_used)) \<and> GetAllocationSize 0x100c0 (snd (AdjustAllocation 0x100c0 32 demo_used)) = 32"
proof -
  have s: "GetAllocationSize 0x100c0 demo_used = 0x70" "AlignUp 32 4 = 32" by code_simp+
  have p: "0x100c0 \<in> set (exp_handed demo_used)" by (simp add: exp_handed_def demo_used_list sizeof_block_def)
  have "AlignUp 32 4 < GetAllocationSize 0x100c0 demo_used" by (simp add: s)
  from exp_heap_adjust_shrinks [OF full_inv [OF demo_used_full] p this prod.collapse [symmetric]] show ?thesis
    by (simp add: s)
qed

text \<open>
  \<open>AdjustAllocation\<close> to a larger size never grows in place when the free block behind has the
  room, and when the block behind is too small it answers the new size and leaves a heap that is not
  well formed: the guard is the wrong way round.
\<close>

theorem exp_heap_adjust_grow_guard:
  assumes "exp_inv h" and "u \<in> set (m_allocated_block_list h)"
    and "f = u + sizeof_block + block_size (blocks h u)" and "f \<in> set (m_free_block_list h)"
    and "block_size (blocks h u) < AlignUp sz 4" and "unat (AlignUp sz 4) < 2 ^ 62"
  shows "if unat (AlignUp sz 4) < unat (block_size (blocks h u)) + 32 + unat (block_size (blocks h f))
    then AdjustAllocation (u + sizeof_block) sz h = (block_size (blocks h u), h)
    else fst (AdjustAllocation (u + sizeof_block) sz h) = AlignUp sz 4 \<and>
         \<not> exp_inv (snd (AdjustAllocation (u + sizeof_block) sz h))"
  using AdjustAllocation_grow_room [OF assms(1,2,5,3,4)] AdjustAllocation_grow_breaks [OF assms(1-4) refl assms(6)] by simp

theorem exp_heap_adjust_grow_guard_witness:
  "fst (AdjustAllocation 0x100c0 0x80 demo_used) = 0x70 \<and> \<not> exp_inv (snd (AdjustAllocation 0x100c0 0x2000 demo_used))"
proof -
  have e: "AlignUp 0x80 4 = 0x80" "AlignUp 0x2000 4 = 0x2000" by code_simp+
  have b: "block_size (blocks demo_used 0x100a0) = 0x70" "block_size (blocks demo_used 0x10130) = 0xeb0" by code_simp+
  have u: "0x100a0 \<in> set (m_allocated_block_list demo_used)" by (simp add: demo_used_list)
  have f: "0x10130 = 0x100a0 + sizeof_block + block_size (blocks demo_used 0x100a0)"
    "0x10130 \<in> set (m_free_block_list demo_used)" by (simp_all add: b sizeof_block_def demo_used_list)
  have p: "0x100a0 + sizeof_block = 0x100c0" by (simp add: sizeof_block_def)
  show ?thesis
    using exp_heap_adjust_grow_guard [OF full_inv [OF demo_used_full] u f, where sz = "0x80"]
      exp_heap_adjust_grow_guard [OF full_inv [OF demo_used_full] u f, where sz = "0x2000"] by (simp add: b e p)
qed

text \<open>
  \<open>AdjustHeap\<close> gives the last free block back when it reaches the end of the heap: the heap then
  ends where that block began and is still tiled by its blocks; in every other case nothing changes.
\<close>

theorem exp_heap_adjust_heap:
  assumes "exp_full h"
  shows "\<exists>parent' h' r. AdjustHeap parent_adjust parent h = (r, parent', h') \<and> exp_full h' \<and>
    m_allocated_block_list h' = m_allocated_block_list h \<and>
    (if m_free_block_list h \<noteq> [] \<and> blk_end (blocks h) (last (m_free_block_list h)) = unat (m_end_address h)
     then m_end_address h' = last (m_free_block_list h) \<and> m_free_block_list h' = butlast (m_free_block_list h)
     else h' = h)"
proof (cases "m_free_block_list h \<noteq> [] \<and> blk_end (blocks h) (last (m_free_block_list h)) = unat (m_end_address h)")
  case True
  then obtain A l where F: "m_free_block_list h = A @ [l]" by (cases "m_free_block_list h" rule: rev_cases) auto
  then show ?thesis using AdjustHeap_trims [OF assms F, of parent_adjust parent] True by auto
next
  case False
  then show ?thesis using AdjustHeap_keeps [OF full_inv [OF assms], of parent_adjust parent] assms by auto
qed

theorem exp_heap_adjust_heap_witness:
  "\<exists>r parent' h'. AdjustHeap (\<lambda>_ n p. (n, p)) None demo_used = (r, parent' :: unit option, h') \<and> m_end_address h' = 0x10130"
proof -
  have "m_end_address demo_used = 0x11000" "block_size (blocks demo_used 0x10130) = 0xeb0" by code_simp+
  then have "blk_end (blocks demo_used) 0x10130 = unat (m_end_address demo_used)" by (simp add: blk_end_def)
  then have c: "m_free_block_list demo_used \<noteq> [] \<and>
      blk_end (blocks demo_used) (last (m_free_block_list demo_used)) = unat (m_end_address demo_used)"
    by (simp add: demo_used_list)
  note P = exp_heap_adjust_heap [OF demo_used_full, where parent_adjust = "\<lambda>_ n p. (n, p)" and parent = "None :: unit option"]
  from P obtain parent' h' r where r: "AdjustHeap (\<lambda>_ n p. (n, p)) (None :: unit option) demo_used = (r, parent', h')"
    and e: "if m_free_block_list demo_used \<noteq> [] \<and>
      blk_end (blocks demo_used) (last (m_free_block_list demo_used)) = unat (m_end_address demo_used)
     then m_end_address h' = last (m_free_block_list demo_used) \<and> m_free_block_list h' = butlast (m_free_block_list demo_used)
     else h' = demo_used"
    by (elim exE conjE)
  from e have "m_end_address h' = 0x10130" by (simp only: c if_True) (simp add: demo_used_list)
  with r show ?thesis by blast
qed

text \<open>
  \<open>ResizeHeapBack\<close> never shrinks a well formed heap, whatever free space ends it: it looks for
  the last free block on the list of allocations.
\<close>

theorem exp_heap_resize_never_shrinks:
  assumes "exp_inv h" and "AlignUp sz 4 < GetTotalSize h"
  shows "ResizeHeapBack isal adj is_root parent sz h =
    (if m_allocated_block_list h = [] then Inl Out_Of_Bounds else Inr (GetTotalSize h, parent, h))"
proof -
  have "AlignUp sz 4 \<noteq> GetTotalSize h" using assms(2) by auto
  then show ?thesis using ResizeHeapBack_never_shrinks [OF assms(1) _ assms(2), of isal adj is_root parent]
      ResizeHeapBack_empty [of h sz isal adj is_root parent] by simp
qed

theorem exp_heap_resize_never_shrinks_witness:
  "ResizeHeapBack (\<lambda>_ _. True) (\<lambda>_ n p. (n, p)) True (Some ()) 0x800 demo_used = Inr (GetTotalSize demo_used, Some (), demo_used)"
proof -
  have "AlignUp 0x800 4 < GetTotalSize demo_used" by code_simp
  from exp_heap_resize_never_shrinks [OF full_inv [OF demo_used_full] this] show ?thesis by (simp add: demo_used_list)
qed

end
