(* ===== verification/Frame_Heap.thy ===== *)
theory Frame_Heap
  imports Bit_Util
begin

text \<open>
  \<open>awn::mem::FrameHeap\<close> and \<open>GpuFrameHeap\<close> (\<open>mem_frameheap.hpp\<close>): a heap that hands out memory from
  the front of its range and frees it all at once.  The size of the heap object, the parent heap's
  operations and the out of memory callback are parameters.
\<close>

record frame_heap =
  m_start_address :: u64
  m_end_address :: u64
  m_start_offset :: u64

definition frame_construct :: "u64 \<Rightarrow> u64 \<Rightarrow> frame_heap" where
  "frame_construct start_address sz =
     \<lparr>m_start_address = start_address, m_end_address = start_address + sz, m_start_offset = start_address\<rparr>"

text \<open>\<open>TryCreate\<close> constructs the heap at whatever the parent answers, null included.\<close>

definition frame_TryCreate ::
  "u64 \<Rightarrow> (u32 \<Rightarrow> 'p \<Rightarrow> u64) \<Rightarrow> (u64 \<Rightarrow> u32 \<Rightarrow> 'p \<Rightarrow> u64 \<times> 'p) \<Rightarrow> u64 \<Rightarrow> u32 \<Rightarrow> 'p \<Rightarrow> (frame_heap \<times> 'p) result" where
  "frame_TryCreate sizeof_frame parent_maximum parent_allocate sz align parent_heap =
     (let max_size = (if sz \<noteq> 0 then AlignUp sz 8 else parent_maximum align parent_heap)
      in bind_result (vp_assert (sizeof_frame < max_size)) (\<lambda>_.
         let (memory, parent_heap) = parent_allocate max_size align parent_heap
         in if memory = 0 then Inl Null_Pointer
            else Inr (frame_construct (memory + sizeof_frame) (max_size - sizeof_frame), parent_heap)))"

definition frame_this :: "u64 \<Rightarrow> frame_heap \<Rightarrow> u64" where
  "frame_this sizeof_frame h = m_start_address h - sizeof_frame"

text \<open>The result is the \<open>MemoryRange\<close>, the parent and the heap.\<close>

definition frame_AdjustHeap ::
  "u64 \<Rightarrow> (u64 \<Rightarrow> u64 \<Rightarrow> 'p \<Rightarrow> 'p) \<Rightarrow> 'p option \<Rightarrow> frame_heap \<Rightarrow> (u64 \<times> u64) \<times> 'p option \<times> frame_heap" where
  "frame_AdjustHeap sizeof_frame parent_adjust parent_heap h =
     (let h = h\<lparr>m_end_address := m_start_offset h\<rparr>;
          adjusted_size = m_start_offset h - m_start_address h;
          parent_heap = map_option (parent_adjust (frame_this sizeof_frame h) adjusted_size) parent_heap
      in ((m_end_address h, adjusted_size), parent_heap, h))"

type_synonym frame_oom = "u64 \<Rightarrow> u64 \<Rightarrow> u32 \<Rightarrow> frame_heap \<Rightarrow> bool \<times> frame_heap"

partial_function (option) frame_TryAllocate :: "frame_oom \<Rightarrow> u64 \<Rightarrow> u32 \<Rightarrow> frame_heap \<Rightarrow> (u64 \<times> frame_heap) option" where
  "frame_TryAllocate oom sz align h =
     (let old_start = AlignUp (m_start_offset h) (scast align);
          new_start_offset = old_start + sz
      in if m_end_address h \<le> new_start_offset
         then let (again, h') = oom sz (AlignUp sz (scast align)) align h
              in if again then frame_TryAllocate oom sz align h' else Some (0, h')
         else Some (old_start, h\<lparr>m_start_offset := new_start_offset\<rparr>))"

declare frame_TryAllocate.simps [code]

text \<open>\<open>FreeAll\<close> without the disposers, which are objects of the base class.\<close>

definition frame_FreeAll :: "frame_heap \<Rightarrow> frame_heap" where
  "frame_FreeAll h = h\<lparr>m_start_offset := m_start_address h\<rparr>"

definition frame_ResizeHeapBack ::
  "u64 \<Rightarrow> (u64 \<Rightarrow> u64 \<Rightarrow> 'p \<Rightarrow> 'p) \<Rightarrow> u64 \<Rightarrow> 'p option \<Rightarrow> frame_heap \<Rightarrow> u64 \<times> 'p option \<times> frame_heap" where
  "frame_ResizeHeapBack sizeof_frame parent_adjust new_size parent_heap h =
     (let new_end = m_start_address h + new_size
      in if new_end < m_start_offset h then (0, parent_heap, h)
         else let adjusted_size = m_start_offset h - m_start_address h;
                  parent_heap = map_option (parent_adjust (frame_this sizeof_frame h) adjusted_size) parent_heap
              in (new_size, parent_heap, h\<lparr>m_end_address := new_end\<rparr>))"

definition frame_GetTotalFreeSize :: "frame_heap \<Rightarrow> u64" where
  "frame_GetTotalFreeSize h = m_end_address h - m_start_offset h"

definition frame_GetMaximumAllocatableSize :: "u32 \<Rightarrow> frame_heap \<Rightarrow> u64" where
  "frame_GetMaximumAllocatableSize align h = m_end_address h - AlignUp (m_start_offset h) (scast align)"

text \<open>
  The heap of GPU memory keeps its object elsewhere, so its start is the address the parent knows.
  \<open>TryCreate\<close> allocates \<open>sz\<close> bytes for a heap of \<open>max_size\<close>; the two allocations are \<open>operator new\<close>.
\<close>

definition gpu_frame_TryCreate ::
  "u64 \<Rightarrow> (u32 \<Rightarrow> 'p \<Rightarrow> u64) \<Rightarrow> (u64 \<Rightarrow> u32 \<Rightarrow> 'p \<Rightarrow> u64 \<times> 'p) \<Rightarrow> u64 \<Rightarrow> u32 \<Rightarrow> 'p \<Rightarrow> (frame_heap \<times> 'p) result" where
  "gpu_frame_TryCreate sizeof_frame gpu_maximum gpu_new sz align gpu_heap =
     (let max_size = (if sz \<noteq> 0 then AlignUp sz 8 else gpu_maximum align gpu_heap)
      in bind_result (vp_assert (sizeof_frame < max_size)) (\<lambda>_.
         let (gpu_memory, gpu_heap) = gpu_new sz align gpu_heap
         in Inr (frame_construct gpu_memory max_size, gpu_heap)))"

definition gpu_frame_AdjustHeap ::
  "(u64 \<Rightarrow> u64 \<Rightarrow> 'p \<Rightarrow> 'p) \<Rightarrow> 'p option \<Rightarrow> frame_heap \<Rightarrow> (u64 \<times> u64) \<times> 'p option \<times> frame_heap" where
  "gpu_frame_AdjustHeap parent_adjust parent_heap h =
     (let h = h\<lparr>m_end_address := m_start_offset h\<rparr>;
          adjusted_size = m_start_offset h - m_start_address h;
          parent_heap = map_option (parent_adjust (m_start_address h) adjusted_size) parent_heap
      in ((m_end_address h, adjusted_size), parent_heap, h))"

definition gpu_frame_ResizeHeapBack ::
  "(u64 \<Rightarrow> u64 \<Rightarrow> 'p \<Rightarrow> 'p) \<Rightarrow> u64 \<Rightarrow> 'p option \<Rightarrow> frame_heap \<Rightarrow> u64 \<times> 'p option \<times> frame_heap" where
  "gpu_frame_ResizeHeapBack parent_adjust new_size parent_heap h =
     (let new_end = m_start_address h + new_size
      in if new_end < m_start_offset h then (0, parent_heap, h)
         else let adjusted_size = m_start_offset h - m_start_address h;
                  parent_heap = map_option (parent_adjust (m_start_address h) adjusted_size) parent_heap
              in (new_size, parent_heap, h\<lparr>m_end_address := new_end\<rparr>))"

section \<open>The invariant\<close>

definition frame_inv :: "frame_heap \<Rightarrow> bool" where
  "frame_inv h \<longleftrightarrow> m_start_address h \<le> m_start_offset h \<and> m_start_offset h \<le> m_end_address h \<and>
     unat (m_end_address h) < 2 ^ 63"

definition frame_request :: "u64 \<Rightarrow> u32 \<Rightarrow> bool" where
  "frame_request sz align \<longleftrightarrow> unat sz < 2 ^ 62 \<and> (\<exists>k<31. align = 2 ^ k)"

definition frame_give_up :: frame_oom where
  "frame_give_up sz aligned_size align h = (False, h)"

lemma scast_pow2_frame: "k < 31 \<Longrightarrow> scast (2 ^ k :: u32) = (2 ^ k :: u64)"
  by (rule bit_word_eqI) (auto simp: bit_simps)

lemma frame_align:
  assumes "frame_inv h" and "frame_request sz align"
  obtains k where "k < 31" "align = 2 ^ k"
    "unat (AlignUp (m_start_offset h) (scast align)) < unat (m_start_offset h) + 2 ^ k"
    "unat (m_start_offset h) \<le> unat (AlignUp (m_start_offset h) (scast align))"
    "2 ^ k dvd unat (AlignUp (m_start_offset h) (scast align))"
    "unat (AlignUp (m_start_offset h) (scast align) + sz) = unat (AlignUp (m_start_offset h) (scast align)) + unat sz"
proof -
  obtain k where k: "k < 31" "align = 2 ^ k" using assms(2) by (auto simp: frame_request_def)
  have sc: "(scast align :: u64) = 2 ^ k" using k scast_pow2_frame by simp
  have k31: "(2 :: nat) ^ k < 2 ^ 31" using k(1) by (intro power_strict_increasing) auto
  have off: "unat (m_start_offset h) < 9223372036854775808" using assms(1) by (simp add: frame_inv_def word_le_nat_alt)
  have k64: "k < 64" and nw: "unat (m_start_offset h) + (2 ^ k - 1) < 2 ^ 64" using k(1) k31 off by simp_all
  have m: "unat (2 ^ k - 1 :: u64) = 2 ^ k - 1" using k(1) by (intro unat_exp_minus_1) simp
  note B = AlignUp_bounds [of "m_start_offset h" "2 ^ k", unfolded m, OF nw]
  have "(0 :: nat) < 2 ^ k" by simp
  then have lt: "unat (AlignUp (m_start_offset h) (2 ^ k)) < unat (m_start_offset h) + 2 ^ k" using B(2) by linarith
  have sz: "unat sz < 4611686018427387904" using assms(2) by (simp add: frame_request_def)
  have "unat (AlignUp (m_start_offset h) (2 ^ k) + sz) = unat (AlignUp (m_start_offset h) (2 ^ k)) + unat sz"
    using lt off k31 sz by (intro unat_add_nowrap) simp
  then show thesis using that [of k] k sc lt B(1) AlignUp_dvd [OF k64 nw] by simp
qed

text \<open>One allocation with a callback that gives up.\<close>

lemma frame_TryAllocate_spec:
  assumes inv: "frame_inv h" and req: "frame_request sz align"
  defines "p \<equiv> AlignUp (m_start_offset h) (scast align)"
  shows "frame_TryAllocate frame_give_up sz align h =
      (if unat (m_end_address h) \<le> unat p + unat sz then Some (0, h) else Some (p, h\<lparr>m_start_offset := p + sz\<rparr>))"
    and "unat p + unat sz < unat (m_end_address h) \<Longrightarrow> frame_inv (h\<lparr>m_start_offset := p + sz\<rparr>)"
    and "unat (m_start_offset h) \<le> unat p" and "unat align dvd unat p" and "unat (p + sz) = unat p + unat sz"
proof -
  obtain k where k: "k < 31" "align = 2 ^ k" "unat (m_start_offset h) \<le> unat p" "2 ^ k dvd unat p"
    "unat (p + sz) = unat p + unat sz"
    unfolding p_def by (rule frame_align [OF inv req]) blast
  show "frame_TryAllocate frame_give_up sz align h =
      (if unat (m_end_address h) \<le> unat p + unat sz then Some (0, h) else Some (p, h\<lparr>m_start_offset := p + sz\<rparr>))"
    by (subst frame_TryAllocate.simps) (simp add: Let_def frame_give_up_def word_le_nat_alt k(5) flip: p_def)
  show "frame_inv (h\<lparr>m_start_offset := p + sz\<rparr>)" if "unat p + unat sz < unat (m_end_address h)"
    using inv that k(3,5) by (simp add: frame_inv_def word_le_nat_alt)
  show "unat (m_start_offset h) \<le> unat p" "unat (p + sz) = unat p + unat sz" by (rule k)+
  show "unat align dvd unat p" using k(1,2,4) by (simp add: unat_pow2)
qed

section \<open>A frame\<close>

text \<open>The allocations since the heap was made or emptied, as address and size, the oldest first.\<close>

inductive frame_run :: "frame_heap \<Rightarrow> (u64 \<times> u64) list \<Rightarrow> frame_heap \<Rightarrow> bool" for h0 where
  frame_begin: "frame_run h0 [] h0"
| frame_allocated: "frame_run h0 as h \<Longrightarrow> frame_request sz align \<Longrightarrow>
    frame_TryAllocate frame_give_up sz align h = Some (p, h') \<Longrightarrow>
    frame_run h0 (if p = 0 then as else as @ [(p, sz)]) h'"
| frame_emptied: "frame_run h0 as h \<Longrightarrow> frame_run h0 [] (frame_FreeAll h)"

definition range_of :: "u64 \<times> u64 \<Rightarrow> nat set" where
  "range_of a = {unat (fst a) ..< unat (fst a) + unat (snd a)}"

lemma frame_run_inv:
  assumes "frame_run h0 as h" and "frame_inv h0" and "m_start_offset h0 = m_start_address h0" and "0 < m_start_address h0"
  shows "frame_inv h \<and> m_start_address h = m_start_address h0 \<and> m_end_address h = m_end_address h0 \<and>
    sorted_wrt (\<lambda>a b. unat (fst a) + unat (snd a) \<le> unat (fst b)) as \<and>
    (\<forall>a\<in>set as. unat (m_start_address h0) \<le> unat (fst a) \<and> unat (fst a) + unat (snd a) \<le> unat (m_start_offset h))"
  using assms
proof (induction rule: frame_run.induct)
  case (frame_allocated as h sz align p h')
  then have inv: "frame_inv h" and IH: "m_start_address h = m_start_address h0" "m_end_address h = m_end_address h0"
    "sorted_wrt (\<lambda>a b. unat (fst a) + unat (snd a) \<le> unat (fst b)) as"
    "\<And>a. a \<in> set as \<Longrightarrow> unat (m_start_address h0) \<le> unat (fst a) \<and> unat (fst a) + unat (snd a) \<le> unat (m_start_offset h)"
    by auto
  note S = frame_TryAllocate_spec [OF inv frame_allocated.hyps(2)]
  let ?p = "AlignUp (m_start_offset h) (scast align)"
  have so: "unat (m_start_address h0) \<le> unat (m_start_offset h)" using inv IH(1) by (simp add: frame_inv_def word_le_nat_alt)
  moreover have "0 < unat (m_start_address h0)" using frame_allocated.prems(3) by (simp add: word_less_nat_alt)
  ultimately have p0: "?p \<noteq> 0" using S(3) by auto
  show ?case
  proof (cases "unat (m_end_address h) \<le> unat ?p + unat sz")
    case True
    then have "p = 0" "h' = h" using S(1) frame_allocated.hyps(3) by simp_all
    then show ?thesis using inv IH by simp
  next
    case False
    then have r: "p = ?p" "h' = h\<lparr>m_start_offset := ?p + sz\<rparr>" using S(1) frame_allocated.hyps(3) by simp_all
    have "frame_inv h'" using S(2) False r by simp
    moreover have "unat (fst a) + unat (snd a) \<le> unat ?p" if "a \<in> set as" for a using IH(4) [OF that] S(3) by simp
    ultimately show ?thesis using IH r p0 S(3,5) so by (fastforce simp: sorted_wrt_append)
  qed
next
  case (frame_emptied as h)
  then show ?case by (auto simp: frame_FreeAll_def frame_inv_def word_le_nat_alt)
qed simp

section \<open>Properties\<close>

text \<open>
  C36: between two \<open>FreeAll\<close> a frame heap hands out ranges that lie in the heap, one behind the other,
  and so pairwise apart.
\<close>

theorem frame_heap_allocations:
  assumes "frame_run (frame_construct start sz) as h" and "0 < start" and "unat start + unat sz < 2 ^ 63"
  shows "sorted_wrt (\<lambda>a b. range_of a \<inter> range_of b = {}) as \<and>
    (\<forall>a\<in>set as. range_of a \<subseteq> {unat start ..< unat start + unat sz})"
proof -
  let ?h0 = "frame_construct start sz"
  have e: "unat (start + sz) = unat start + unat sz" using assms(3) by (simp add: unat_add_nowrap)
  have "frame_inv ?h0" using assms(3) e by (simp add: frame_inv_def frame_construct_def word_le_nat_alt)
  from frame_run_inv [OF assms(1) this] assms(2)
  have I: "frame_inv h" "m_end_address h = start + sz"
    "sorted_wrt (\<lambda>a b. unat (fst a) + unat (snd a) \<le> unat (fst b)) as"
    "\<forall>a\<in>set as. unat start \<le> unat (fst a) \<and> unat (fst a) + unat (snd a) \<le> unat (m_start_offset h)"
    by (simp_all add: frame_construct_def)
  have "unat (m_start_offset h) \<le> unat start + unat sz" using I(1,2) e by (simp add: frame_inv_def word_le_nat_alt)
  moreover have "sorted_wrt (\<lambda>a b. range_of a \<inter> range_of b = {}) as"
    using I(3) by (rule sorted_wrt_mono_rel [rotated]) (auto simp: range_of_def)
  ultimately show ?thesis using I(4) by (fastforce simp: range_of_def)
qed

theorem frame_heap_allocations_witness:
  "\<exists>as h. frame_run (frame_construct 0x1000 0x100) as h \<and> length as = 2 \<and>
     sorted_wrt (\<lambda>a b. range_of a \<inter> range_of b = {}) as"
proof -
  let ?h0 = "frame_construct 0x1000 0x100"
  have r: "frame_request 0x18 16" using exI [of "\<lambda>k. k < 31 \<and> (16 :: u32) = 2 ^ k" 4] by (simp add: frame_request_def)
  have "frame_run ?h0 [] ?h0" by (rule frame_begin)
  then have "frame_run ?h0 (if (0x1000 :: u64) = 0 then [] else [] @ [(0x1000, 0x18)]) (?h0\<lparr>m_start_offset := 0x1018\<rparr>)"
    by (rule frame_allocated [OF _ r]) code_simp
  then have "frame_run ?h0 [(0x1000, 0x18)] (?h0\<lparr>m_start_offset := 0x1018\<rparr>)" by simp
  then have "frame_run ?h0 (if (0x1020 :: u64) = 0 then [(0x1000, 0x18)] else [(0x1000, 0x18)] @ [(0x1020, 0x18)])
      (?h0\<lparr>m_start_offset := 0x1038\<rparr>)"
    by (rule frame_allocated [OF _ r]) code_simp
  then have run: "frame_run ?h0 [(0x1000, 0x18), (0x1020, 0x18)] (?h0\<lparr>m_start_offset := 0x1038\<rparr>)" by simp
  from frame_heap_allocations [OF this] run show ?thesis by (intro exI [of _ "[(0x1000, 0x18), (0x1020, 0x18)]"]) auto
qed

text \<open>
  \<open>GetMaximumAllocatableSize\<close> answers a size that \<open>TryAllocate\<close> refuses, while every smaller size
  is served: the test for the end of the heap refuses an exact fit.
\<close>

theorem frame_heap_maximum_refused:
  assumes "frame_inv h" and "frame_request sz align" and "0 < m_start_offset h"
    and "AlignUp (m_start_offset h) (scast align) \<le> m_end_address h"
  shows "(\<exists>p h'. p \<noteq> 0 \<and> frame_TryAllocate frame_give_up sz align h = Some (p, h')) \<longleftrightarrow>
    sz < frame_GetMaximumAllocatableSize align h"
proof -
  let ?p = "AlignUp (m_start_offset h) (scast align)"
  note S = frame_TryAllocate_spec [OF assms(1,2)]
  have "0 < unat (m_start_offset h)" using assms(3) by (simp add: word_less_nat_alt)
  then have "?p \<noteq> 0" using S(3) by auto
  moreover have "unat (m_end_address h - ?p) = unat (m_end_address h) - unat ?p"
    using assms(4) by (intro unat_sub_nowrap) (simp add: word_le_nat_alt)
  ultimately show ?thesis using S(1) assms(4)
    by (auto simp: frame_GetMaximumAllocatableSize_def word_less_nat_alt word_le_nat_alt)
qed

theorem frame_heap_maximum_refused_witness:
  "frame_GetMaximumAllocatableSize 16 (frame_construct 0x1000 0x100) = 0x100 \<and>
   \<not> (\<exists>p h'. p \<noteq> 0 \<and> frame_TryAllocate frame_give_up 0x100 16 (frame_construct 0x1000 0x100) = Some (p, h'))"
proof -
  let ?h = "frame_construct 0x1000 0x100"
  have r: "frame_request 0x100 16" using exI [of "\<lambda>k. k < 31 \<and> (16 :: u32) = 2 ^ k" 4] by (simp add: frame_request_def)
  have m: "frame_GetMaximumAllocatableSize 16 ?h = 0x100" and a: "AlignUp (m_start_offset ?h) (scast (16 :: u32)) \<le> m_end_address ?h"
    by code_simp+
  have "frame_inv ?h" "0 < m_start_offset ?h" by (simp_all add: frame_inv_def frame_construct_def)
  from frame_heap_maximum_refused [OF this(1) r this(2) a] m show ?thesis by simp
qed

text \<open>
  \<open>AdjustHeap\<close> of a frame heap asks the parent for the size of its used part only, counted from the
  heap object, so the last \<open>sizeof(FrameHeap)\<close> bytes in use are cut off; the GPU heap, whose object is
  elsewhere, asks for exactly its used part.
\<close>

theorem frame_heap_adjust_cuts:
  assumes "frame_inv h" and "unat s \<le> unat (m_start_address h)"
    and "frame_AdjustHeap s (\<lambda>a n p. (a, n)) (Some (0, 0)) h = (r, Some (a, n), h')"
    and "gpu_frame_AdjustHeap (\<lambda>a n p. (a, n)) (Some (0, 0)) h = (r2, Some (a2, n2), h2)"
  shows "unat a + unat n + unat s = unat (m_start_offset h) \<and> unat a2 + unat n2 = unat (m_start_offset h) \<and>
    a2 = m_start_address h"
proof -
  have "a = m_start_address h - s" "n = m_start_offset h - m_start_address h" "a2 = m_start_address h"
    "n2 = m_start_offset h - m_start_address h"
    using assms(3,4) by (auto simp: frame_AdjustHeap_def gpu_frame_AdjustHeap_def frame_this_def Let_def)
  then show ?thesis using assms(1,2) by (simp add: frame_inv_def word_le_nat_alt unat_sub_nowrap)
qed

theorem frame_heap_adjust_cuts_witness:
  "\<exists>a n. fst (snd (frame_AdjustHeap 0x80 (\<lambda>a n p. (a, n)) (Some (0, 0)) (frame_construct 0x1000 0x100))) = Some (a, n) \<and>
     unat a + unat n + 0x80 = 0x1000"
proof -
  let ?h = "frame_construct 0x1000 0x100"
  obtain r a n h' where A: "frame_AdjustHeap 0x80 (\<lambda>a n p. (a, n)) (Some (0, 0)) ?h = (r, Some (a, n), h')"
    by (simp add: frame_AdjustHeap_def Let_def)
  obtain r2 a2 n2 h2 where B: "gpu_frame_AdjustHeap (\<lambda>a n p. (a, n)) (Some (0, 0)) ?h = (r2, Some (a2, n2), h2)"
    by (simp add: gpu_frame_AdjustHeap_def Let_def)
  have "frame_inv ?h" by (simp add: frame_inv_def frame_construct_def)
  from frame_heap_adjust_cuts [OF this _ A B] A show ?thesis by (simp add: frame_construct_def)
qed

end
