(* ===== verification/Separate_Heap.thy ===== *)
theory Separate_Heap
  imports Bit_Util Intrusive_List
begin

text \<open>
  \<open>awn::mem::SeparateHeap\<close> (\<open>mem_separateheap.hpp\<close>): a heap of offsets whose block records live in a
  management area of their own.  A free record holds the pointer to the next free record in the same
  bytes as its \<open>block_offset\<close> (\<open>SeparateFreeListHelper\<close>), so a record is two words of memory here; the
  list of used blocks is the list of their addresses.
\<close>

record sep_cell =
  word0 :: u64
  block_size :: u64

abbreviation block_offset :: "sep_cell \<Rightarrow> u64" where "block_offset \<equiv> word0"
abbreviation free_next :: "sep_cell \<Rightarrow> u64" where "free_next \<equiv> word0"

record separate_heap =
  m_start_address :: u64
  m_end_address :: u64
  m_used_block_list :: "u64 list"
  m_management_free_list_start :: u64
  m_used_management_block_count :: u32
  m_total_management_block_count :: u32
  m_management_area_size :: u64
  m_management_area_start :: u64
  cells :: "u64 \<Rightarrow> sep_cell"

definition cOffsetBase :: u64 where "cOffsetBase = 0x10000"
definition sizeof_separate_block :: u64 where "sizeof_separate_block = 0x20"

text \<open>The constructor links the records; the last one keeps the pointer its memory happens to hold.\<close>

definition sep_construct :: "u64 \<Rightarrow> u64 \<Rightarrow> u64 \<Rightarrow> u64 \<Rightarrow> (u64 \<Rightarrow> sep_cell) \<Rightarrow> separate_heap" where
  "sep_construct heap_start heap_size management_start management_size mem =
     (let total = ucast (management_size div sizeof_separate_block) :: u32;
          at = (\<lambda>i. management_start + of_nat i * sizeof_separate_block);
          cells = fold (\<lambda>i m. m(at i := (m (at i))\<lparr>word0 := at (Suc i)\<rparr>)) [0..<unat (total - 1)] mem
      in \<lparr>m_start_address = heap_start, m_end_address = heap_start + heap_size, m_used_block_list = [],
          m_management_free_list_start = management_start, m_used_management_block_count = 0,
          m_total_management_block_count = total, m_management_area_size = management_size,
          m_management_area_start = management_start, cells = cells\<rparr>)"

definition sep_CalculateManagementAreaSize :: "u64 \<Rightarrow> u64" where
  "sep_CalculateManagementAreaSize block_count = block_count * sizeof_separate_block"

definition sep_Create :: "u64 \<Rightarrow> u64 \<Rightarrow> u64 \<Rightarrow> u64 \<Rightarrow> (u64 \<Rightarrow> sep_cell) \<Rightarrow> separate_heap" where
  "sep_Create sizeof_separate area area_size heap_size mem =
     sep_construct cOffsetBase heap_size (area + sizeof_separate) (area_size - sizeof_separate) mem"

text \<open>The walk over the used blocks: the block to link behind and the offset.\<close>

fun sep_find :: "(u64 \<Rightarrow> sep_cell) \<Rightarrow> u64 \<Rightarrow> u64 \<Rightarrow> u64 option \<Rightarrow> u64 \<Rightarrow> u64 list \<Rightarrow> u64 option \<times> u64" where
  "sep_find m sz align prev_block new_offset [] = (prev_block, new_offset)"
| "sep_find m sz align prev_block new_offset (b # bs) =
     (if sz \<le> block_offset (m b) - new_offset then (Some b, new_offset)
      else sep_find m sz align prev_block (AlignUp (block_size (m b) + block_offset (m b)) align) bs)"

definition sep_TryAllocate :: "u64 \<Rightarrow> u32 \<Rightarrow> separate_heap \<Rightarrow> (u64 \<times> separate_heap) result" where
  "sep_TryAllocate sz align h =
     bind_result (vp_assert (m_management_free_list_start h \<noteq> 0)) (\<lambda>_.
       let back_block = (if m_used_block_list h = [] then None else Some (last (m_used_block_list h)));
           (prev_block, new_offset) = sep_find (cells h) sz (scast align) back_block
              (AlignUp (m_start_address h) (scast align)) (m_used_block_list h)
       in if m_end_address h < new_offset then Inr (0, h)
          else
            let new_block = m_management_free_list_start h;
                h = h\<lparr>cells := (cells h)(new_block := \<lparr>word0 = 0, block_size = 0\<rparr>)\<rparr>;
                h = h\<lparr>m_management_free_list_start := free_next (cells h (m_management_free_list_start h))\<rparr>;
                h = h\<lparr>m_used_block_list := insert_after prev_block new_block (m_used_block_list h)\<rparr>;
                h = h\<lparr>cells := (cells h)(new_block := \<lparr>word0 = new_offset, block_size = sz\<rparr>)\<rparr>
            in Inr (new_offset, h))"

definition sep_Free :: "u64 \<Rightarrow> separate_heap \<Rightarrow> separate_heap" where
  "sep_Free offset h =
     (case find (\<lambda>b. block_offset (cells h b) = offset) (m_used_block_list h) of
        None \<Rightarrow> h
      | Some b \<Rightarrow>
          h\<lparr>m_used_block_list := remove1 b (m_used_block_list h),
            cells := (cells h)(b := (cells h b)\<lparr>word0 := m_management_free_list_start h\<rparr>),
            m_management_free_list_start := b\<rparr>)"

definition sep_AdjustHeap :: "separate_heap \<Rightarrow> u64 \<times> u64" where
  "sep_AdjustHeap h = (m_start_address h, m_end_address h - m_start_address h)"

definition sep_AdjustAllocation :: "u64 \<Rightarrow> u64 \<Rightarrow> separate_heap \<Rightarrow> u64" where
  "sep_AdjustAllocation offset new_size h = 0"

definition sep_GetTotalFreeSize :: "separate_heap \<Rightarrow> u64" where
  "sep_GetTotalFreeSize h =
     m_end_address h - fold (\<lambda>b used_size. used_size + block_size (cells h b)) (m_used_block_list h) (m_start_address h)"

definition sep_GetMaximumAllocatableSize :: "u32 \<Rightarrow> separate_heap \<Rightarrow> u64" where
  "sep_GetMaximumAllocatableSize align h = 0"

section \<open>Properties\<close>

text \<open>
  a heap with no used block serves one allocation of any size at all, at its aligned start; the
  next allocation then fails the assertion on the management list, however many records there are,
  because the new record is cleared before the pointer it holds is read.  Freeing makes the heap
  usable again.
\<close>

theorem separate_heap_serves_one:
  assumes "m_used_block_list h = []" and "m_management_free_list_start h \<noteq> 0"
    and "AlignUp (m_start_address h) (scast align) \<le> m_end_address h"
  shows "\<exists>h'. sep_TryAllocate sz align h = Inr (AlignUp (m_start_address h) (scast align), h') \<and>
    (\<forall>sz2 align2. sep_TryAllocate sz2 align2 h' = Inl Assert_Failed) \<and>
    m_used_block_list (sep_Free (AlignUp (m_start_address h) (scast align)) h') = [] \<and>
    m_management_free_list_start (sep_Free (AlignUp (m_start_address h) (scast align)) h') = m_management_free_list_start h"
proof -
  let ?p = "AlignUp (m_start_address h) (scast align)" and ?b = "m_management_free_list_start h"
  let ?h = "h\<lparr>m_used_block_list := [?b], m_management_free_list_start := 0,
      cells := (cells h)(?b := \<lparr>word0 = ?p, block_size = sz\<rparr>)\<rparr>"
  have "\<not> m_end_address h < ?p" using assms(3) by simp
  then have "sep_TryAllocate sz align h = Inr (?p, ?h)"
    using assms(1,2) by (simp add: sep_TryAllocate_def Let_def)
  moreover have "sep_TryAllocate sz2 align2 ?h = Inl Assert_Failed" for sz2 align2
    by (simp add: sep_TryAllocate_def bind_vp_assert)
  ultimately show ?thesis by (intro exI [of _ ?h]) (simp add: sep_Free_def)
qed

theorem separate_heap_serves_one_witness:
  "\<exists>h'. sep_TryAllocate 0x100000 16 (sep_Create 0x90 0x1000 0x200 0x1000 (\<lambda>_. \<lparr>word0 = 7, block_size = 7\<rparr>)) = Inr (0x10000, h') \<and>
     sep_TryAllocate 1 1 h' = Inl Assert_Failed"
proof -
  let ?h = "sep_Create 0x90 0x1000 0x200 0x1000 (\<lambda>_. \<lparr>word0 = 7, block_size = 7\<rparr>)"
  have "m_used_block_list ?h = []" "m_management_free_list_start ?h \<noteq> 0"
    "AlignUp (m_start_address ?h) (scast (16 :: u32)) \<le> m_end_address ?h"
    "AlignUp (m_start_address ?h) (scast (16 :: u32)) = 0x10000"
    by code_simp+
  with separate_heap_serves_one [OF this(1-3), where sz = "0x100000"] show ?thesis by metis
qed

end
