(* ===== verification/Queue_Contract.thy ===== *)
theory Queue_Contract
  imports Awn_Prelude
begin

text \<open>
  Queues of bounded size: what the message queues and the ring buffers promise, and the geometry of
  a ring in an array, which they share.  A ring of capacity \<open>cap\<close> in an array holds \<open>n\<close> elements from
  the offset \<open>off\<close> on, wrapping round.
\<close>

section \<open>A ring in an array\<close>

definition ring_list :: "'a list \<Rightarrow> nat \<Rightarrow> nat \<Rightarrow> nat \<Rightarrow> 'a list" where
  "ring_list buf cap off n = map (\<lambda>i. buf ! ((off + i) mod cap)) [0..<n]"

lemma length_ring_list [simp]: "length (ring_list buf cap off n) = n"
  by (simp add: ring_list_def)

lemma ring_list_0 [simp]: "ring_list buf cap off 0 = []"
  by (simp add: ring_list_def)

lemma ring_index_inj:
  assumes "i < cap" and "j < cap" and "(off + i) mod cap = (off + j) mod (cap :: nat)"
  shows "i = j"
proof -
  have "i mod cap = j mod cap" using assms(3) by (simp add: nat_mod_eq_iff add.assoc)
  then show ?thesis using assms(1,2) by simp
qed

lemma ring_index_wrap: "off < cap \<Longrightarrow> n < cap \<Longrightarrow> (off + n) mod cap = (if cap \<le> off + n then off + n - cap else off + n)"
  for cap :: nat by (simp add: mod_if)

lemma ring_push_back:
  assumes "length buf = cap" and "n < cap"
  shows "ring_list (buf[(off + n) mod cap := x]) cap off (Suc n) = ring_list buf cap off n @ [x]"
proof (rule nth_equalityI)
  fix i assume "i < length (ring_list (buf[(off + n) mod cap := x]) cap off (Suc n))"
  then have i: "i < Suc n" by simp
  have lt: "(off + n) mod cap < length buf" using assms by simp
  show "ring_list (buf[(off + n) mod cap := x]) cap off (Suc n) ! i = (ring_list buf cap off n @ [x]) ! i"
  proof (cases "i = n")
    case True
    then show ?thesis using lt by (simp add: ring_list_def nth_append)
  next
    case False
    then have "(off + n) mod cap \<noteq> (off + i) mod cap" using i assms ring_index_inj [of i cap n off] by auto
    then show ?thesis using False i by (simp add: ring_list_def nth_append)
  qed
qed simp

lemma ring_pop_front:
  assumes "off < cap" and "0 < n"
  shows "ring_list buf cap off n = buf ! off # ring_list buf cap (Suc off mod cap) (n - 1)"
proof (rule nth_equalityI)
  show "length (ring_list buf cap off n) = length (buf ! off # ring_list buf cap (Suc off mod cap) (n - 1))"
    using assms by simp
  fix i assume "i < length (ring_list buf cap off n)"
  then show "ring_list buf cap off n ! i = (buf ! off # ring_list buf cap (Suc off mod cap) (n - 1)) ! i"
    using assms by (cases i) (simp_all add: ring_list_def mod_add_left_eq)
qed

lemma ring_push_front:
  assumes "length buf = cap" and "n < cap" and "off < cap"
  defines "off' \<equiv> (off + cap - 1) mod cap"
  shows "ring_list (buf[off' := x]) cap off' (Suc n) = x # ring_list buf cap off n"
proof (rule nth_equalityI)
  fix i assume "i < length (ring_list (buf[off' := x]) cap off' (Suc n))"
  then have i: "i < Suc n" by simp
  have lt: "off' < length buf" using assms by (simp add: off'_def)
  show "ring_list (buf[off' := x]) cap off' (Suc n) ! i = (x # ring_list buf cap off n) ! i"
  proof (cases i)
    case 0
    then show ?thesis using lt assms(1) by (simp add: ring_list_def del: upt_Suc)
  next
    case (Suc j)
    have "(off' + Suc j) mod cap = (off + cap - 1 + Suc j) mod cap" unfolding off'_def by (rule mod_add_left_eq)
    also have "\<dots> = (off + j) mod cap"
    proof -
      have "off + cap - 1 + Suc j = off + j + cap" using assms(3) by simp
      then show ?thesis by (simp only: mod_add_self2)
    qed
    finally have e: "(off' + Suc j) mod cap = (off + j) mod cap" .
    have "off' \<noteq> (off + j) mod cap"
    proof
      assume "off' = (off + j) mod cap"
      then have "(off' + 0) mod cap = (off' + Suc j) mod cap" using e lt assms(1) by simp
      then show False using ring_index_inj [of 0 cap "Suc j" off'] i Suc assms(2) by simp
    qed
    then show ?thesis using Suc i e by (simp add: ring_list_def del: upt_Suc)
  qed
qed simp

text \<open>The indices the queues compute with signed integers.\<close>

lemma ring_back_index:
  assumes "off < cap" and "n < cap"
  shows "(if int cap \<le> int n + int off then int n + int off - int cap else int n + int off) = int ((off + n) mod cap)"
  using ring_index_wrap [OF assms] by auto

lemma ring_next_index:
  assumes "off < cap"
  shows "int off + 1 - (if int cap \<le> int off + 1 then int cap else 0) = int (Suc off mod cap)"
  using assms ring_index_wrap [of off cap 1] by (cases "cap = 1") (auto simp: mod_if)

lemma ring_front_index:
  assumes "off < cap"
  shows "int off + (if int off < 1 then int cap else 0) - 1 = int ((off + cap - 1) mod cap)"
proof (cases off)
  case 0
  then show ?thesis using assms by (simp add: of_nat_diff)
next
  case (Suc k)
  then have "off + cap - 1 = k + cap" by simp
  then show ?thesis using assms Suc by simp
qed

section \<open>The contract\<close>

fun send_all :: "('a \<Rightarrow> 's \<Rightarrow> (bool \<times> 's) result) \<Rightarrow> 'a list \<Rightarrow> 's \<Rightarrow> 's result" where
  "send_all send [] q = Inr q"
| "send_all send (m # ms) q = bind_result (send m q) (\<lambda>(ok, q). send_all send ms q)"

fun receive_many :: "('s \<Rightarrow> ('a option \<times> 's) result) \<Rightarrow> nat \<Rightarrow> 's \<Rightarrow> ('a option list \<times> 's) result" where
  "receive_many receive 0 q = Inr ([], q)"
| "receive_many receive (Suc n) q = bind_result (receive q) (\<lambda>(m, q).
     bind_result (receive_many receive n q) (\<lambda>(ms, q). Inr (m # ms, q)))"

locale bounded_fifo =
  fixes inv :: "'s \<Rightarrow> bool" and items :: "'s \<Rightarrow> 'a list" and capacity :: "'s \<Rightarrow> nat"
    and try_send :: "'a \<Rightarrow> 's \<Rightarrow> (bool \<times> 's) result"
    and try_receive :: "'s \<Rightarrow> ('a option \<times> 's) result"
  assumes send: "inv q \<Longrightarrow> \<exists>q'. try_send m q = Inr (length (items q) < capacity q, q') \<and> inv q' \<and>
      capacity q' = capacity q \<and> items q' = (if length (items q) < capacity q then items q @ [m] else items q)"
    and receive: "inv q \<Longrightarrow> \<exists>q'. try_receive q = Inr (case items q of [] \<Rightarrow> None | m # _ \<Rightarrow> Some m, q') \<and> inv q' \<and>
      capacity q' = capacity q \<and> items q' = tl (items q)"
begin

lemma send_all_fifo:
  "inv q \<Longrightarrow> length (items q) + length ms \<le> capacity q \<Longrightarrow>
   \<exists>q'. send_all try_send ms q = Inr q' \<and> inv q' \<and> capacity q' = capacity q \<and> items q' = items q @ ms"
proof (induction ms arbitrary: q)
  case (Cons m ms)
  obtain q1 where q1: "try_send m q = Inr (True, q1)" "inv q1" "capacity q1 = capacity q" "items q1 = items q @ [m]"
    using send [OF Cons.prems(1), of m] Cons.prems(2) by auto
  then show ?case using Cons.IH [OF q1(2)] Cons.prems(2) by auto
qed simp

lemma receive_many_fifo:
  "inv q \<Longrightarrow> n \<le> length (items q) \<Longrightarrow>
   \<exists>q'. receive_many try_receive n q = Inr (map Some (take n (items q)), q') \<and> inv q' \<and> items q' = drop n (items q)"
proof (induction n arbitrary: q)
  case (Suc n)
  obtain m ms where i: "items q = m # ms" using Suc.prems(2) by (cases "items q") auto
  obtain q1 where q1: "try_receive q = Inr (Some m, q1)" "inv q1" "items q1 = ms"
    using receive [OF Suc.prems(1)] i by auto
  then show ?case using Suc.IH [OF q1(2)] Suc.prems(2) i by auto
qed simp

text \<open>First in, first out.\<close>

lemma fifo:
  assumes "inv q" and "items q = []" and "length ms \<le> capacity q"
  shows "\<exists>q' q''. send_all try_send ms q = Inr q' \<and>
    receive_many try_receive (length ms) q' = Inr (map Some ms, q'') \<and> inv q'' \<and> items q'' = []"
proof -
  obtain q' where q': "send_all try_send ms q = Inr q'" "inv q'" "items q' = ms"
    using send_all_fifo [OF assms(1), of ms] assms by auto
  then show ?thesis using receive_many_fifo [OF q'(2), of "length ms"] by auto
qed

end

text \<open>A queue that can also be filled at the front.\<close>

locale bounded_deque = bounded_fifo inv items capacity try_send try_receive
  for inv :: "'s \<Rightarrow> bool" and items :: "'s \<Rightarrow> 'a list" and capacity :: "'s \<Rightarrow> nat"
    and try_send :: "'a \<Rightarrow> 's \<Rightarrow> (bool \<times> 's) result"
    and try_receive :: "'s \<Rightarrow> ('a option \<times> 's) result" +
  fixes try_jam :: "'a \<Rightarrow> 's \<Rightarrow> (bool \<times> 's) result"
  assumes jam: "inv q \<Longrightarrow> \<exists>q'. try_jam m q = Inr (length (items q) < capacity q, q') \<and> inv q' \<and>
      capacity q' = capacity q \<and> items q' = (if length (items q) < capacity q then m # items q else items q)"
begin

text \<open>A jammed message is the next one received.\<close>

lemma jam_next:
  assumes "inv q" and "length (items q) < capacity q"
  shows "\<exists>q' q''. try_jam m q = Inr (True, q') \<and> try_receive q' = Inr (Some m, q'') \<and> inv q'' \<and> items q'' = items q"
proof -
  obtain q' where q': "try_jam m q = Inr (True, q')" "inv q'" "items q' = m # items q"
    using jam [OF assms(1), of m] assms(2) by auto
  then show ?thesis using receive [OF q'(2)] by auto
qed

end

end
