(* ===== verification/Message_Queue.thy ===== *)
theory Message_Queue
  imports Queue_Contract
begin

text \<open>
  \<open>awn::sys::MessageQueue\<close> (\<open>sys_messagequeue.hpp\<close>): a bounded queue of words in a ring, with a
  \<open>Jam\<close> that queues at the front.  Every operation runs under the queue's mutex and is one step here;
  the blocking ones wait on a condition variable, which is the result \<open>None\<close>: the caller sleeps and
  the queue is unchanged.  An \<open>s32\<close> is an \<open>int\<close>; the invariant bounds the capacity so that no sum the
  code forms leaves the range of an \<open>s32\<close>.
\<close>

record message_queue =
  m_message_buffer :: "u64 list"
  m_max_messages :: int
  m_pending_messages :: int
  m_current_message :: int

definition MessageQueue_construct :: message_queue where
  "MessageQueue_construct = \<lparr>m_message_buffer = [], m_max_messages = 0, m_pending_messages = 0, m_current_message = 0\<rparr>"

text \<open>\<open>memory\<close> is the array that \<open>new\<close> gives, with whatever it contains.\<close>

definition mq_Initialize :: "u64 list \<Rightarrow> int \<Rightarrow> message_queue \<Rightarrow> message_queue" where
  "mq_Initialize memory max_message_count q =
     q\<lparr>m_message_buffer := memory, m_max_messages := max_message_count\<rparr>"

definition mq_Finalize :: "message_queue \<Rightarrow> message_queue" where
  "mq_Finalize q = q\<lparr>m_message_buffer := []\<rparr>"

definition mq_SendMessageImpl :: "u64 \<Rightarrow> message_queue \<Rightarrow> message_queue result" where
  "mq_SendMessageImpl message q =
     (let index = m_pending_messages q + m_current_message q;
          index = (if m_max_messages q \<le> index then index - m_max_messages q else index)
      in bind_result (store_i (m_message_buffer q) index message) (\<lambda>buffer.
         Inr (q\<lparr>m_message_buffer := buffer, m_pending_messages := m_pending_messages q + 1\<rparr>)))"

definition mq_RecieveMessageImpl :: "message_queue \<Rightarrow> (u64 \<times> message_queue) result" where
  "mq_RecieveMessageImpl q =
     bind_result (load_i (m_message_buffer q) (m_current_message q)) (\<lambda>out_message.
       let current = m_current_message q + 1;
           pending = m_pending_messages q - 1;
           offset = (if m_max_messages q \<le> current then m_max_messages q else 0)
       in Inr (out_message, q\<lparr>m_current_message := current - offset, m_pending_messages := pending\<rparr>))"

definition mq_JamMessageImpl :: "u64 \<Rightarrow> message_queue \<Rightarrow> message_queue result" where
  "mq_JamMessageImpl message q =
     (let offset = m_current_message q;
          adjust = (if offset < 1 then m_max_messages q else 0);
          index = offset + adjust - 1
      in bind_result (store_i (m_message_buffer q) index message) (\<lambda>buffer.
         Inr (q\<lparr>m_message_buffer := buffer, m_pending_messages := m_pending_messages q + 1,
                m_current_message := index\<rparr>)))"

definition mq_TryReceiveMessage :: "message_queue \<Rightarrow> (u64 option \<times> message_queue) result" where
  "mq_TryReceiveMessage q =
     (if m_pending_messages q = 0 then Inr (None, q)
      else bind_result (mq_RecieveMessageImpl q) (\<lambda>(m, q). Inr (Some m, q)))"

definition mq_TryPeekMessage :: "message_queue \<Rightarrow> u64 option result" where
  "mq_TryPeekMessage q =
     (if m_pending_messages q = 0 then Inr None
      else bind_result (load_i (m_message_buffer q) (m_current_message q)) (\<lambda>m. Inr (Some m)))"

definition mq_TrySendMessage :: "u64 \<Rightarrow> message_queue \<Rightarrow> (bool \<times> message_queue) result" where
  "mq_TrySendMessage message q =
     (if m_max_messages q \<le> m_pending_messages q then Inr (False, q)
      else bind_result (mq_SendMessageImpl message q) (\<lambda>q. Inr (True, q)))"

definition mq_TryJamMessage :: "u64 \<Rightarrow> message_queue \<Rightarrow> (bool \<times> message_queue) result" where
  "mq_TryJamMessage message q =
     (if m_max_messages q \<le> m_pending_messages q then Inr (False, q)
      else bind_result (mq_JamMessageImpl message q) (\<lambda>q. Inr (True, q)))"

text \<open>The blocking operations; the loops of \<open>WaitForMessage\<close> and \<open>WaitForMessageClear\<close>.\<close>

definition mq_WaitForMessage :: "message_queue \<Rightarrow> message_queue option" where
  "mq_WaitForMessage q = (if m_pending_messages q = 0 then None else Some q)"

definition mq_WaitForMessageClear :: "message_queue \<Rightarrow> message_queue option" where
  "mq_WaitForMessageClear q = (if m_max_messages q \<le> m_pending_messages q then None else Some q)"

definition mq_ReceiveMessage :: "message_queue \<Rightarrow> (u64 \<times> message_queue) result option" where
  "mq_ReceiveMessage q = map_option mq_RecieveMessageImpl (mq_WaitForMessage q)"

definition mq_SendMessage :: "u64 \<Rightarrow> message_queue \<Rightarrow> message_queue result option" where
  "mq_SendMessage message q = map_option (mq_SendMessageImpl message) (mq_WaitForMessageClear q)"

definition mq_JamMessage :: "u64 \<Rightarrow> message_queue \<Rightarrow> message_queue result option" where
  "mq_JamMessage message q = map_option (mq_JamMessageImpl message) (mq_WaitForMessageClear q)"

section \<open>The queue as a list\<close>

definition mq_inv :: "message_queue \<Rightarrow> bool" where
  "mq_inv q \<longleftrightarrow> 0 \<le> m_max_messages q \<and> m_max_messages q < 2 ^ 30 \<and>
     length (m_message_buffer q) = nat (m_max_messages q) \<and>
     0 \<le> m_pending_messages q \<and> m_pending_messages q \<le> m_max_messages q \<and>
     0 \<le> m_current_message q \<and> (m_current_message q < m_max_messages q \<or> m_max_messages q = 0)"

definition mq_items :: "message_queue \<Rightarrow> u64 list" where
  "mq_items q = ring_list (m_message_buffer q) (nat (m_max_messages q)) (nat (m_current_message q))
     (nat (m_pending_messages q))"

definition mq_capacity :: "message_queue \<Rightarrow> nat" where
  "mq_capacity q = nat (m_max_messages q)"

lemma mq_full_iff: "mq_inv q \<Longrightarrow> m_max_messages q \<le> m_pending_messages q \<longleftrightarrow> \<not> length (mq_items q) < mq_capacity q"
  by (auto simp: mq_inv_def mq_items_def mq_capacity_def)

lemma mq_SendMessageImpl_spec:
  assumes "mq_inv q" and "m_pending_messages q < m_max_messages q"
  shows "\<exists>q'. mq_SendMessageImpl m q = Inr q' \<and> mq_inv q' \<and> mq_items q' = mq_items q @ [m] \<and>
    m_max_messages q' = m_max_messages q"
proof -
  define cap off n where "cap = nat (m_max_messages q)" and "off = nat (m_current_message q)"
    and "n = nat (m_pending_messages q)"
  have I: "m_max_messages q = int cap" "m_current_message q = int off" "m_pending_messages q = int n"
    "n < cap" "off < cap" "length (m_message_buffer q) = cap"
    using assms by (auto simp: mq_inv_def cap_def off_def n_def)
  let ?b = "(m_message_buffer q)[(off + n) mod cap := m]"
  have ix: "(if m_max_messages q \<le> m_pending_messages q + m_current_message q
      then m_pending_messages q + m_current_message q - m_max_messages q
      else m_pending_messages q + m_current_message q) = int ((off + n) mod cap)"
    unfolding I(1-3) using I by (intro ring_back_index)
  have "(off + n) mod cap < length (m_message_buffer q)" using I by simp
  then have "mq_SendMessageImpl m q = Inr (q\<lparr>m_message_buffer := ?b, m_pending_messages := m_pending_messages q + 1\<rparr>)"
    by (simp add: mq_SendMessageImpl_def Let_def ix)
  moreover have "nat (int n + 1) = Suc n" by simp
  ultimately show ?thesis using assms I ring_push_back [of "m_message_buffer q" cap n off m]
    by (simp add: mq_inv_def mq_items_def cap_def [symmetric] off_def [symmetric] n_def [symmetric])
qed

lemma mq_RecieveMessageImpl_spec:
  assumes "mq_inv q" and "m_pending_messages q \<noteq> 0"
  shows "\<exists>q'. mq_RecieveMessageImpl q = Inr (hd (mq_items q), q') \<and> mq_inv q' \<and> mq_items q' = tl (mq_items q) \<and>
    m_max_messages q' = m_max_messages q"
proof -
  define cap off n where "cap = nat (m_max_messages q)" and "off = nat (m_current_message q)"
    and "n = nat (m_pending_messages q)"
  have I: "m_max_messages q = int cap" "m_current_message q = int off" "m_pending_messages q = int n"
    "0 < n" "n \<le> cap" "off < cap" "length (m_message_buffer q) = cap"
    using assms by (auto simp: mq_inv_def cap_def off_def n_def)
  have ix: "m_current_message q + 1 - (if m_max_messages q \<le> m_current_message q + 1 then m_max_messages q else 0) =
      int (Suc off mod cap)"
    unfolding I(1,2) using I by (intro ring_next_index)
  have lt: "Suc off mod cap < cap" using I by simp
  have pn: "m_pending_messages q - 1 = int (n - 1)" using I by simp
  have "mq_RecieveMessageImpl q = Inr (m_message_buffer q ! off,
      q\<lparr>m_current_message := int (Suc off mod cap), m_pending_messages := int (n - 1)\<rparr>)"
    unfolding mq_RecieveMessageImpl_def Let_def ix pn using I by simp
  moreover have "nat (int n - 1) = n - Suc 0" by simp
  ultimately show ?thesis using assms I lt ring_pop_front [of off cap n "m_message_buffer q"]
    by (simp add: mq_inv_def mq_items_def cap_def [symmetric] off_def [symmetric] n_def [symmetric])
qed

lemma mq_JamMessageImpl_spec:
  assumes "mq_inv q" and "m_pending_messages q < m_max_messages q"
  shows "\<exists>q'. mq_JamMessageImpl m q = Inr q' \<and> mq_inv q' \<and> mq_items q' = m # mq_items q \<and>
    m_max_messages q' = m_max_messages q"
proof -
  define cap off n where "cap = nat (m_max_messages q)" and "off = nat (m_current_message q)"
    and "n = nat (m_pending_messages q)"
  have I: "m_max_messages q = int cap" "m_current_message q = int off" "m_pending_messages q = int n"
    "n < cap" "off < cap" "length (m_message_buffer q) = cap"
    using assms by (auto simp: mq_inv_def cap_def off_def n_def)
  let ?off = "(off + cap - 1) mod cap"
  have ix: "m_current_message q + (if m_current_message q < 1 then m_max_messages q else 0) - 1 = int ?off"
    unfolding I(1,2) using I by (intro ring_front_index)
  have lt: "?off < cap" using I by simp
  then have "mq_JamMessageImpl m q = Inr (q\<lparr>m_message_buffer := (m_message_buffer q)[?off := m],
      m_pending_messages := m_pending_messages q + 1, m_current_message := int ?off\<rparr>)"
    using I(6) by (simp add: mq_JamMessageImpl_def Let_def ix)
  moreover have "nat (int n + 1) = Suc n" by simp
  ultimately show ?thesis using assms I lt ring_push_front [of "m_message_buffer q" cap n off m]
    by (simp add: mq_inv_def mq_items_def cap_def [symmetric] off_def [symmetric] n_def [symmetric])
qed

interpretation mq: bounded_deque mq_inv mq_items mq_capacity mq_TrySendMessage mq_TryReceiveMessage mq_TryJamMessage
proof unfold_locales
  fix q m assume inv: "mq_inv q"
  note full = mq_full_iff [OF inv]
  show "\<exists>q'. mq_TrySendMessage m q = Inr (length (mq_items q) < mq_capacity q, q') \<and> mq_inv q' \<and>
      mq_capacity q' = mq_capacity q \<and>
      mq_items q' = (if length (mq_items q) < mq_capacity q then mq_items q @ [m] else mq_items q)"
    using mq_SendMessageImpl_spec [OF inv, of m] full inv
    by (cases "m_max_messages q \<le> m_pending_messages q") (auto simp: mq_TrySendMessage_def mq_capacity_def)
  show "\<exists>q'. mq_TryJamMessage m q = Inr (length (mq_items q) < mq_capacity q, q') \<and> mq_inv q' \<and>
      mq_capacity q' = mq_capacity q \<and>
      mq_items q' = (if length (mq_items q) < mq_capacity q then m # mq_items q else mq_items q)"
    using mq_JamMessageImpl_spec [OF inv, of m] full inv
    by (cases "m_max_messages q \<le> m_pending_messages q") (auto simp: mq_TryJamMessage_def mq_capacity_def)
  have e: "m_pending_messages q = 0 \<longleftrightarrow> mq_items q = []"
    using inv by (auto simp: mq_items_def mq_inv_def ring_list_def)
  show "\<exists>q'. mq_TryReceiveMessage q = Inr (case mq_items q of [] \<Rightarrow> None | m # _ \<Rightarrow> Some m, q') \<and> mq_inv q' \<and>
      mq_capacity q' = mq_capacity q \<and> mq_items q' = tl (mq_items q)"
    using mq_RecieveMessageImpl_spec [OF inv] e inv
    by (cases "mq_items q") (auto simp: mq_TryReceiveMessage_def mq_capacity_def)
qed

section \<open>Properties\<close>

lemma mq_ready:
  assumes "length memory = nat n" and "0 \<le> n" and "n < 2 ^ 30"
  defines "q \<equiv> mq_Initialize memory n MessageQueue_construct"
  shows "mq_inv q" and "mq_items q = []" and "mq_capacity q = nat n"
  using assms by (auto simp: mq_Initialize_def MessageQueue_construct_def mq_inv_def mq_items_def mq_capacity_def)

text \<open>
  C35: a fresh \<open>MessageQueue\<close> of capacity \<open>n\<close> takes any \<open>k \<le> n\<close> messages and gives them back in the order
  they were sent, without a fault, and a message jammed in between comes out first.
\<close>

theorem message_queue_fifo:
  assumes "length memory = nat n" and "0 \<le> n" and "n < 2 ^ 30" and "length ms < nat n"
  shows "\<exists>q1 q2 q3. send_all mq_TrySendMessage ms (mq_Initialize memory n MessageQueue_construct) = Inr q1 \<and>
    mq_TryJamMessage m q1 = Inr (True, q2) \<and>
    receive_many mq_TryReceiveMessage (Suc (length ms)) q2 = Inr (map Some (m # ms), q3) \<and> mq_items q3 = []"
proof -
  note R = mq_ready [OF assms(1-3)]
  obtain q1 where q1: "send_all mq_TrySendMessage ms (mq_Initialize memory n MessageQueue_construct) = Inr q1"
    "mq_inv q1" "mq_capacity q1 = nat n" "mq_items q1 = ms"
    using mq.send_all_fifo [OF R(1), of ms] assms(4) R by auto
  obtain q2 where q2: "mq_TryJamMessage m q1 = Inr (True, q2)" "mq_inv q2" "mq_items q2 = m # ms"
    using mq.jam [OF q1(2), of m] q1 assms(4) by auto
  then show ?thesis using q1 mq.receive_many_fifo [OF q2(2), of "Suc (length ms)"] by auto
qed

theorem message_queue_fifo_witness:
  "\<exists>q1 q2 q3. send_all mq_TrySendMessage [7, 8] (mq_Initialize [0, 0, 0] 3 MessageQueue_construct) = Inr q1 \<and>
    mq_TryJamMessage 9 q1 = Inr (True, q2) \<and>
    receive_many mq_TryReceiveMessage 3 q2 = Inr (map Some [9, 7, 8], q3) \<and> mq_items q3 = []"
  using message_queue_fifo [of "[0, 0, 0]" 3 "[7, 8]" 9] by (simp add: eval_nat_numeral)

text \<open>
  a blocking operation waits exactly when the queue is empty (or full), and when it goes on it does
  to the sequence of messages what its name says.
\<close>

theorem message_queue_blocking:
  assumes "mq_inv q"
  shows "(mq_ReceiveMessage q = None \<longleftrightarrow> mq_items q = []) \<and>
    (mq_SendMessage m q = None \<longleftrightarrow> length (mq_items q) = mq_capacity q) \<and>
    (mq_JamMessage m q = None \<longleftrightarrow> length (mq_items q) = mq_capacity q) \<and>
    (\<forall>r. mq_ReceiveMessage q = Some r \<longrightarrow> (\<exists>q'. r = Inr (hd (mq_items q), q') \<and> mq_inv q' \<and> mq_items q' = tl (mq_items q))) \<and>
    (\<forall>r. mq_SendMessage m q = Some r \<longrightarrow> (\<exists>q'. r = Inr q' \<and> mq_inv q' \<and> mq_items q' = mq_items q @ [m])) \<and>
    (\<forall>r. mq_JamMessage m q = Some r \<longrightarrow> (\<exists>q'. r = Inr q' \<and> mq_inv q' \<and> mq_items q' = m # mq_items q))"
proof -
  have "length (mq_items q) = nat (m_pending_messages q)" by (simp add: mq_items_def)
  then have e: "m_pending_messages q = 0 \<longleftrightarrow> mq_items q = []"
    "m_max_messages q \<le> m_pending_messages q \<longleftrightarrow> length (mq_items q) = mq_capacity q"
    using assms by (auto simp: mq_inv_def mq_capacity_def)
  have blk: "mq_ReceiveMessage q = (if mq_items q = [] then None else Some (mq_RecieveMessageImpl q))"
    "mq_SendMessage m q = (if length (mq_items q) = mq_capacity q then None else Some (mq_SendMessageImpl m q))"
    "mq_JamMessage m q = (if length (mq_items q) = mq_capacity q then None else Some (mq_JamMessageImpl m q))"
    using e by (simp_all add: mq_ReceiveMessage_def mq_SendMessage_def mq_JamMessage_def mq_WaitForMessage_def
        mq_WaitForMessageClear_def)
  have "mq_items q \<noteq> [] \<Longrightarrow> \<exists>q'. mq_RecieveMessageImpl q = Inr (hd (mq_items q), q') \<and> mq_inv q' \<and> mq_items q' = tl (mq_items q)"
    using mq_RecieveMessageImpl_spec [OF assms] e(1) by blast
  moreover have "length (mq_items q) \<noteq> mq_capacity q \<Longrightarrow> \<exists>q'. mq_SendMessageImpl m q = Inr q' \<and> mq_inv q' \<and> mq_items q' = mq_items q @ [m]"
    using mq_SendMessageImpl_spec [OF assms, of m] e(2) by (metis not_le)
  moreover have "length (mq_items q) \<noteq> mq_capacity q \<Longrightarrow> \<exists>q'. mq_JamMessageImpl m q = Inr q' \<and> mq_inv q' \<and> mq_items q' = m # mq_items q"
    using mq_JamMessageImpl_spec [OF assms, of m] e(2) by (metis not_le)
  ultimately show ?thesis unfolding blk by (auto split: if_splits)
qed

theorem message_queue_blocking_witness:
  "mq_ReceiveMessage (mq_Initialize [0, 0, 0] 3 MessageQueue_construct) = None"
  using message_queue_blocking [OF mq_ready(1) [of "[0, 0, 0]" 3]] mq_ready(2) [of "[0, 0, 0]" 3] by simp

end
