(* ===== verification/Service_Message_Queue.thy ===== *)
theory Service_Message_Queue
  imports Queue_Contract
begin

text \<open>
  \<open>awn::sys::ServiceMessageQueue\<close> (\<open>sys_servicemessagequeue.hpp\<close>): the bounded queue whose waiters
  sleep on two words, one for senders and one for receivers.  A word is \<open>0\<close> (nothing), \<open>1\<close> (somebody
  sleeps) or \<open>2\<close> (signalled).  The part of an operation under the busy mutex is one atomic step; every
  access to a wait word after it is a step of its own, so the threads interleave as the code lets
  them.  A waiter is a thread of the system, which sleeps in \<open>::WaitOnAddress\<close>, or a fiber, which sleeps in
  the wait list of the user mode kernel; the wake up of fibers is the one of \<open>WakeByAddressIncrementEqualImpl\<close>
  (\<open>Arbiters\<close>, \<open>Wait_Increment\<close>), which only gets along with a single waiter.
\<close>

record service_queue =
  m_message_buffer :: "u64 list"
  m_max :: int
  m_count :: int
  m_offset :: int
  m_message_wait_value :: u32
  m_clear_wait_value :: u32

definition ServiceMessageQueue_construct :: service_queue where
  "ServiceMessageQueue_construct = \<lparr>m_message_buffer = [], m_max = 0, m_count = 0, m_offset = 0,
     m_message_wait_value = 0, m_clear_wait_value = 0\<rparr>"

definition smq_Initialize :: "u64 list \<Rightarrow> int \<Rightarrow> service_queue \<Rightarrow> service_queue" where
  "smq_Initialize memory max_message_count q = q\<lparr>m_message_buffer := memory, m_max := max_message_count\<rparr>"

definition smq_Finalize :: "service_queue \<Rightarrow> service_queue" where
  "smq_Finalize q = q\<lparr>m_message_buffer := [], m_max := 0, m_count := 0, m_offset := 0\<rparr>"

section \<open>Under the busy mutex\<close>

definition smq_push_back :: "u64 \<Rightarrow> service_queue \<Rightarrow> service_queue result" where
  "smq_push_back message q =
     (let offset = m_count q + m_offset q;
          index = (if m_max q \<le> offset then offset - m_max q else offset)
      in bind_result (store_i (m_message_buffer q) index message) (\<lambda>buffer.
         Inr (q\<lparr>m_message_buffer := buffer, m_count := m_count q + 1\<rparr>)))"

definition smq_push_front :: "u64 \<Rightarrow> service_queue \<Rightarrow> service_queue result" where
  "smq_push_front message q =
     (let offset = m_offset q;
          adjust = (if offset < 1 then m_max q else 0);
          index = offset + adjust - 1
      in bind_result (store_i (m_message_buffer q) index message) (\<lambda>buffer.
         Inr (q\<lparr>m_message_buffer := buffer, m_count := m_count q + 1, m_offset := index\<rparr>)))"

definition smq_pop_front :: "service_queue \<Rightarrow> (u64 \<times> service_queue) result" where
  "smq_pop_front q =
     bind_result (load_i (m_message_buffer q) (m_offset q)) (\<lambda>message.
       let next_offset = m_offset q + 1;
           adjust = (if m_max q \<le> next_offset then m_max q else 0)
       in Inr (message, q\<lparr>m_count := m_count q - 1, m_offset := next_offset - adjust\<rparr>))"

definition smq_SendMessageImpl :: "u64 \<Rightarrow> service_queue \<Rightarrow> (bool \<times> service_queue) result" where
  "smq_SendMessageImpl message q =
     (if m_count q < m_max q then bind_result (smq_push_back message q) (\<lambda>q. Inr (True, q))
      else Inr (False, q\<lparr>m_clear_wait_value := snd (compare_exchange 0 2 (m_clear_wait_value q))\<rparr>))"

definition smq_RecieveMessageImpl :: "service_queue \<Rightarrow> (u64 option \<times> service_queue) result" where
  "smq_RecieveMessageImpl q =
     (if m_count q = 0
      then Inr (None, q\<lparr>m_message_wait_value := snd (compare_exchange 0 2 (m_message_wait_value q))\<rparr>)
      else bind_result (smq_pop_front q) (\<lambda>(m, q). Inr (Some m, q)))"

definition smq_JamMessageImpl :: "u64 \<Rightarrow> service_queue \<Rightarrow> (bool \<times> service_queue) result" where
  "smq_JamMessageImpl message q =
     (if m_count q < m_max q then bind_result (smq_push_front message q) (\<lambda>q. Inr (True, q))
      else Inr (False, q\<lparr>m_clear_wait_value := snd (compare_exchange 0 2 (m_clear_wait_value q))\<rparr>))"

text \<open>The locked part of \<open>TrySendMessage\<close>, \<open>TryReceiveMessage\<close> and \<open>TryJamMessage\<close>.\<close>

definition smq_try_send :: "u64 \<Rightarrow> service_queue \<Rightarrow> (bool \<times> service_queue) result" where
  "smq_try_send message q =
     (if m_count q < m_max q then bind_result (smq_push_back message q) (\<lambda>q. Inr (True, q)) else Inr (False, q))"

definition smq_try_jam :: "u64 \<Rightarrow> service_queue \<Rightarrow> (bool \<times> service_queue) result" where
  "smq_try_jam message q =
     (if m_count q < m_max q then bind_result (smq_push_front message q) (\<lambda>q. Inr (True, q)) else Inr (False, q))"

definition smq_try_receive :: "service_queue \<Rightarrow> (u64 option \<times> service_queue) result" where
  "smq_try_receive q =
     (if m_count q = 0 then Inr (None, q) else bind_result (smq_pop_front q) (\<lambda>(m, q). Inr (Some m, q)))"

definition smq_TryPeekMessage :: "service_queue \<Rightarrow> u64 option result" where
  "smq_TryPeekMessage q =
     (if m_count q \<noteq> 0 then Inr None
      else bind_result (load_i (m_message_buffer q) (m_offset q)) (\<lambda>m. Inr (Some m)))"

section \<open>Threads\<close>

datatype service_call =
  Call_Receive | Call_Send u64 | Call_Jam u64 | Call_TryReceive | Call_TrySend u64 | Call_TryJam u64

text \<open>The two wait words; the code around them is the same up to the word.\<close>

datatype side = Message | Clear

datatype service_pc =
  Idle | Entry service_call
| Notify side | Wake side | Wake_All side bool
| Wait_For side service_call | Sleep side service_call | Asleep side service_call
| Faulted

definition wait_value :: "side \<Rightarrow> service_queue \<Rightarrow> u32" where
  "wait_value side q = (case side of Message \<Rightarrow> m_message_wait_value q | Clear \<Rightarrow> m_clear_wait_value q)"

definition set_wait_value :: "side \<Rightarrow> u32 \<Rightarrow> service_queue \<Rightarrow> service_queue" where
  "set_wait_value side w q = (case side of Message \<Rightarrow> q\<lparr>m_message_wait_value := w\<rparr> | Clear \<Rightarrow> q\<lparr>m_clear_wait_value := w\<rparr>)"

text \<open>
  The loop behind the locked part: signal an idle word, leave a signalled one, wake the sleepers of a waited
  one.
\<close>

definition notify_word :: "side \<Rightarrow> u32 \<Rightarrow> service_pc \<times> u32" where
  "notify_word side word =
     (let (ok, word') = compare_exchange 2 0 word
      in if ok then (Idle, word')
         else if word \<noteq> 1 then (if word = 2 then Idle else Faulted, word)
         else (Wake side, word))"

text \<open>\<open>WaitForMessage\<close> and \<open>WaitForMessageClear\<close> up to the sleep.\<close>

definition wait_word :: "side \<Rightarrow> service_call \<Rightarrow> u32 \<Rightarrow> service_pc \<times> u32" where
  "wait_word side c word =
     (if word = 2 then (Entry c, word)
      else if word = 1 then (Sleep side c, word)
      else if word = 0 then (Sleep side c, snd (compare_exchange 1 0 word))
      else (Faulted, word))"

fun locked_part :: "service_call \<Rightarrow> service_queue \<Rightarrow> (service_pc \<times> service_queue) result" where
  "locked_part Call_Receive q = bind_result (smq_RecieveMessageImpl q) (\<lambda>(m, q).
     Inr (if m \<noteq> None then Notify Clear else Wait_For Message Call_Receive, q))"
| "locked_part (Call_Send m) q = bind_result (smq_SendMessageImpl m q) (\<lambda>(ok, q).
     Inr (if ok then Notify Message else Wait_For Clear (Call_Send m), q))"
| "locked_part (Call_Jam m) q = bind_result (smq_JamMessageImpl m q) (\<lambda>(ok, q).
     Inr (if ok then Notify Message else Wait_For Clear (Call_Jam m), q))"
| "locked_part Call_TryReceive q = bind_result (smq_try_receive q) (\<lambda>(m, q).
     Inr (if m \<noteq> None then Notify Clear else Idle, q))"
| "locked_part (Call_TrySend m) q = bind_result (smq_try_send m q) (\<lambda>(ok, q).
     Inr (if ok then Notify Message else Idle, q))"
| "locked_part (Call_TryJam m) q = bind_result (smq_try_jam m q) (\<lambda>(ok, q).
     Inr (if ok then Notify Message else Idle, q))"

text \<open>The queue, where each thread stands, and the fibers in the wait list of each word, the oldest first.\<close>

record service_system =
  sv_queue :: service_queue
  sv_pc :: "nat \<Rightarrow> service_pc"
  sv_fibers :: "side \<Rightarrow> nat list"

definition goto_pc :: "nat \<Rightarrow> service_pc \<Rightarrow> service_system \<Rightarrow> service_system" where
  "goto_pc t pc s = s\<lparr>sv_pc := (sv_pc s)(t := pc)\<rparr>"

definition on_word :: "nat \<Rightarrow> side \<Rightarrow> (u32 \<Rightarrow> service_pc \<times> u32) \<Rightarrow> service_system \<Rightarrow> service_system" where
  "on_word t side f s =
     (let (pc, w) = f (wait_value side (sv_queue s)) in goto_pc t pc (s\<lparr>sv_queue := set_wait_value side w (sv_queue s)\<rparr>))"

text \<open>The sleep of \<open>::WaitOnAddress\<close> or \<open>WaitForAddressIfEqualImpl\<close>: a word other than 1 is no wait.\<close>

definition sleep_step :: "bool \<Rightarrow> nat \<Rightarrow> side \<Rightarrow> service_call \<Rightarrow> service_system \<Rightarrow> service_system" where
  "sleep_step is_fiber t side c s =
     (if wait_value side (sv_queue s) \<noteq> 1 then goto_pc t (Entry c) s
      else
        let s = goto_pc t (Asleep side c) s
        in if is_fiber then s\<lparr>sv_fibers := (sv_fibers s)(side := sv_fibers s side @ [t])\<rparr> else s)"

fun resumed :: "service_pc \<Rightarrow> service_pc" where
  "resumed (Asleep side c) = Entry c"
| "resumed pc = pc"

text \<open>
  \<open>ukern::WakeByAddress\<close>, under the lock of the scheduler: the word goes from 1 to 2, or the wake up fails.  A
  single waiting fiber is woken; with two or more the call does not return (\<open>Wait_Increment\<close>).
\<close>

definition wake_step :: "nat \<Rightarrow> side \<Rightarrow> service_system \<Rightarrow> service_system" where
  "wake_step t side s =
     (let (ok, word) = compare_exchange 2 1 (wait_value side (sv_queue s))
      in if \<not> ok then goto_pc t (Wake_All side False) s
         else
           let s = s\<lparr>sv_queue := set_wait_value side word (sv_queue s)\<rparr>
           in case sv_fibers s side of
                [] \<Rightarrow> goto_pc t (Wake_All side True) s
              | [f] \<Rightarrow> goto_pc t (Wake_All side True) (goto_pc f (resumed (sv_pc s f)) (s\<lparr>sv_fibers := (sv_fibers s)(side := [])\<rparr>))
              | _ \<Rightarrow> goto_pc t Faulted s)"

text \<open>\<open>::WakeByAddressAll\<close>: every thread that sleeps on the word goes back to the test of its loop.\<close>

definition wake_all_step :: "(nat \<Rightarrow> bool) \<Rightarrow> nat \<Rightarrow> side \<Rightarrow> bool \<Rightarrow> service_system \<Rightarrow> service_system" where
  "wake_all_step fiber t side woken s =
     goto_pc t (if woken then Idle else Notify side)
       (s\<lparr>sv_pc := (\<lambda>u. case sv_pc s u of
            Asleep side' c \<Rightarrow> if side' = side \<and> \<not> fiber u then Sleep side c else Asleep side' c
          | pc \<Rightarrow> pc)\<rparr>)"

text \<open>The next step of a thread; \<open>None\<close>: it has nothing to do, or sleeps.\<close>

definition service_step :: "(nat \<Rightarrow> bool) \<Rightarrow> nat \<Rightarrow> service_system \<Rightarrow> service_system option" where
  "service_step fiber t s =
     (case sv_pc s t of
        Idle \<Rightarrow> None
      | Faulted \<Rightarrow> None
      | Asleep side c \<Rightarrow> None
      | Entry c \<Rightarrow> Some (case locked_part c (sv_queue s) of
            Inl _ \<Rightarrow> goto_pc t Faulted s
          | Inr (pc, q) \<Rightarrow> goto_pc t pc (s\<lparr>sv_queue := q\<rparr>))
      | Notify side \<Rightarrow> Some (on_word t side (notify_word side) s)
      | Wake side \<Rightarrow> Some (wake_step t side s)
      | Wake_All side woken \<Rightarrow> Some (wake_all_step fiber t side woken s)
      | Wait_For side c \<Rightarrow> Some (on_word t side (wait_word side c) s)
      | Sleep side c \<Rightarrow> Some (sleep_step (fiber t) t side c s))"

text \<open>
  Any number of threads and fibers, until one of them faults.  \<open>::WaitOnAddress\<close> may return before its time,
  and then the loop around it tests the word again.
\<close>

inductive service_run :: "(nat \<Rightarrow> bool) \<Rightarrow> service_queue \<Rightarrow> service_system \<Rightarrow> bool" for fiber q0 where
  run_start: "service_run fiber q0 \<lparr>sv_queue = q0, sv_pc = \<lambda>_. Idle, sv_fibers = \<lambda>_. []\<rparr>"
| run_call: "service_run fiber q0 s \<Longrightarrow> \<forall>u. sv_pc s u \<noteq> Faulted \<Longrightarrow> sv_pc s t = Idle \<Longrightarrow> service_run fiber q0 (goto_pc t (Entry c) s)"
| run_step: "service_run fiber q0 s \<Longrightarrow> \<forall>u. sv_pc s u \<noteq> Faulted \<Longrightarrow> service_step fiber t s = Some s' \<Longrightarrow> service_run fiber q0 s'"
| run_spurious: "service_run fiber q0 s \<Longrightarrow> \<forall>u. sv_pc s u \<noteq> Faulted \<Longrightarrow> sv_pc s t = Asleep side c \<Longrightarrow> \<not> fiber t \<Longrightarrow>
    service_run fiber q0 (goto_pc t (Sleep side c) s)"

section \<open>The queue as a list\<close>

definition smq_inv :: "service_queue \<Rightarrow> bool" where
  "smq_inv q \<longleftrightarrow> 0 \<le> m_max q \<and> m_max q < 2 ^ 30 \<and> length (m_message_buffer q) = nat (m_max q) \<and>
     0 \<le> m_count q \<and> m_count q \<le> m_max q \<and> 0 \<le> m_offset q \<and> (m_offset q < m_max q \<or> m_max q = 0)"

definition smq_items :: "service_queue \<Rightarrow> u64 list" where
  "smq_items q = ring_list (m_message_buffer q) (nat (m_max q)) (nat (m_offset q)) (nat (m_count q))"

definition smq_capacity :: "service_queue \<Rightarrow> nat" where
  "smq_capacity q = nat (m_max q)"

text \<open>What the locked parts keep: the size and both wait words.\<close>

definition smq_frame :: "service_queue \<Rightarrow> service_queue \<Rightarrow> bool" where
  "smq_frame q q' \<longleftrightarrow> m_max q' = m_max q \<and> m_message_wait_value q' = m_message_wait_value q \<and>
     m_clear_wait_value q' = m_clear_wait_value q"

lemma smq_frame_capacity: "smq_frame q q' \<Longrightarrow> smq_capacity q' = smq_capacity q"
  by (simp add: smq_frame_def smq_capacity_def)

lemma smq_push_back_spec:
  assumes "smq_inv q" and "m_count q < m_max q"
  shows "\<exists>q'. smq_push_back m q = Inr q' \<and> smq_inv q' \<and> smq_items q' = smq_items q @ [m] \<and>
    m_count q' = m_count q + 1 \<and> smq_frame q q'"
proof -
  define cap off n where "cap = nat (m_max q)" and "off = nat (m_offset q)" and "n = nat (m_count q)"
  have I: "m_max q = int cap" "m_offset q = int off" "m_count q = int n"
    "n < cap" "off < cap" "length (m_message_buffer q) = cap"
    using assms by (auto simp: smq_inv_def cap_def off_def n_def)
  have ix: "(if m_max q \<le> m_count q + m_offset q then m_count q + m_offset q - m_max q
      else m_count q + m_offset q) = int ((off + n) mod cap)"
    unfolding I(1-3) using I by (intro ring_back_index)
  have "(off + n) mod cap < length (m_message_buffer q)" using I by simp
  then have "smq_push_back m q = Inr (q\<lparr>m_message_buffer := (m_message_buffer q)[(off + n) mod cap := m],
      m_count := m_count q + 1\<rparr>)"
    by (simp add: smq_push_back_def Let_def ix)
  moreover have "nat (int n + 1) = Suc n" by simp
  ultimately show ?thesis using assms I ring_push_back [of "m_message_buffer q" cap n off m]
    by (simp add: smq_inv_def smq_items_def smq_frame_def cap_def [symmetric] off_def [symmetric] n_def [symmetric])
qed

lemma smq_push_front_spec:
  assumes "smq_inv q" and "m_count q < m_max q"
  shows "\<exists>q'. smq_push_front m q = Inr q' \<and> smq_inv q' \<and> smq_items q' = m # smq_items q \<and>
    m_count q' = m_count q + 1 \<and> smq_frame q q'"
proof -
  define cap off n where "cap = nat (m_max q)" and "off = nat (m_offset q)" and "n = nat (m_count q)"
  have I: "m_max q = int cap" "m_offset q = int off" "m_count q = int n"
    "n < cap" "off < cap" "length (m_message_buffer q) = cap"
    using assms by (auto simp: smq_inv_def cap_def off_def n_def)
  let ?off = "(off + cap - 1) mod cap"
  have ix: "m_offset q + (if m_offset q < 1 then m_max q else 0) - 1 = int ?off"
    unfolding I(1,2) using I by (intro ring_front_index)
  have lt: "?off < cap" using I by simp
  then have "smq_push_front m q = Inr (q\<lparr>m_message_buffer := (m_message_buffer q)[?off := m],
      m_count := m_count q + 1, m_offset := int ?off\<rparr>)"
    using I(6) by (simp add: smq_push_front_def Let_def ix)
  moreover have "nat (int n + 1) = Suc n" by simp
  ultimately show ?thesis using assms I lt ring_push_front [of "m_message_buffer q" cap n off m]
    by (simp add: smq_inv_def smq_items_def smq_frame_def cap_def [symmetric] off_def [symmetric] n_def [symmetric])
qed

lemma smq_pop_front_spec:
  assumes "smq_inv q" and "m_count q \<noteq> 0"
  shows "\<exists>q'. smq_pop_front q = Inr (hd (smq_items q), q') \<and> smq_inv q' \<and> smq_items q' = tl (smq_items q) \<and>
    m_count q' = m_count q - 1 \<and> smq_frame q q'"
proof -
  define cap off n where "cap = nat (m_max q)" and "off = nat (m_offset q)" and "n = nat (m_count q)"
  have I: "m_max q = int cap" "m_offset q = int off" "m_count q = int n"
    "0 < n" "n \<le> cap" "off < cap" "length (m_message_buffer q) = cap"
    using assms by (auto simp: smq_inv_def cap_def off_def n_def)
  have ix: "m_offset q + 1 - (if m_max q \<le> m_offset q + 1 then m_max q else 0) = int (Suc off mod cap)"
    unfolding I(1,2) using I by (intro ring_next_index)
  have lt: "Suc off mod cap < cap" using I by simp
  have "smq_pop_front q = Inr (m_message_buffer q ! off, q\<lparr>m_count := m_count q - 1, m_offset := int (Suc off mod cap)\<rparr>)"
    unfolding smq_pop_front_def Let_def ix using I by simp
  moreover have "nat (int n - 1) = n - Suc 0" by simp
  ultimately show ?thesis using assms I lt ring_pop_front [of off cap n "m_message_buffer q"]
    by (simp add: smq_inv_def smq_items_def smq_frame_def cap_def [symmetric] off_def [symmetric] n_def [symmetric])
qed

lemma smq_items_length: "smq_inv q \<Longrightarrow> int (length (smq_items q)) = m_count q"
  by (simp add: smq_items_def smq_inv_def)

lemma smq_empty_iff: "smq_inv q \<Longrightarrow> smq_items q = [] \<longleftrightarrow> m_count q = 0"
  using smq_items_length [of q] by auto

lemma smq_room_iff: "smq_inv q \<Longrightarrow> length (smq_items q) < smq_capacity q \<longleftrightarrow> m_count q < m_max q"
  using smq_items_length [of q] by (auto simp: smq_capacity_def smq_inv_def)

text \<open>The locked parts of the three \<open>Try\<close> operations are the operations of a bounded queue.\<close>

interpretation smq: bounded_deque smq_inv smq_items smq_capacity smq_try_send smq_try_receive smq_try_jam
proof unfold_locales
  fix q m assume inv: "smq_inv q"
  note R = smq_room_iff [OF inv] and E = smq_empty_iff [OF inv]
  show "\<exists>q'. smq_try_send m q = Inr (length (smq_items q) < smq_capacity q, q') \<and> smq_inv q' \<and>
      smq_capacity q' = smq_capacity q \<and>
      smq_items q' = (if length (smq_items q) < smq_capacity q then smq_items q @ [m] else smq_items q)"
    using smq_push_back_spec [OF inv, of m] inv
    by (cases "m_count q < m_max q") (auto simp: smq_try_send_def R smq_frame_capacity)
  show "\<exists>q'. smq_try_jam m q = Inr (length (smq_items q) < smq_capacity q, q') \<and> smq_inv q' \<and>
      smq_capacity q' = smq_capacity q \<and>
      smq_items q' = (if length (smq_items q) < smq_capacity q then m # smq_items q else smq_items q)"
    using smq_push_front_spec [OF inv, of m] inv
    by (cases "m_count q < m_max q") (auto simp: smq_try_jam_def R smq_frame_capacity)
  show "\<exists>q'. smq_try_receive q = Inr (case smq_items q of [] \<Rightarrow> None | m # _ \<Rightarrow> Some m, q') \<and> smq_inv q' \<and>
      smq_capacity q' = smq_capacity q \<and> smq_items q' = tl (smq_items q)"
    using smq_pop_front_spec [OF inv] inv E
    by (cases "smq_items q") (auto simp: smq_try_receive_def smq_frame_capacity)
qed

section \<open>No wake up is lost\<close>

lemma wait_value_set [simp]: "wait_value a (set_wait_value b w q) = (if a = b then w else wait_value a q)"
  by (cases a; cases b) (simp_all add: wait_value_def set_wait_value_def)

lemma set_wait_value_frame [simp]:
  "smq_inv (set_wait_value side w q) = smq_inv q" "m_count (set_wait_value side w q) = m_count q"
  "m_max (set_wait_value side w q) = m_max q"
  by (cases side; simp add: set_wait_value_def smq_inv_def)+

text \<open>A thread on its way to signal a word.\<close>

definition signalling :: "side \<Rightarrow> service_pc \<Rightarrow> bool" where
  "signalling side pc \<longleftrightarrow> pc = Notify side \<or> pc = Wake side \<or> pc = Wake_All side False"

definition waking :: "side \<Rightarrow> service_pc \<Rightarrow> bool" where
  "waking side pc \<longleftrightarrow> pc = Wake_All side False \<or> pc = Wake_All side True"

definition waits_on :: "side \<Rightarrow> service_pc \<Rightarrow> bool" where
  "waits_on side pc \<longleftrightarrow> (\<exists>c. pc = Wait_For side c \<or> pc = Sleep side c \<or> pc = Asleep side c)"

definition asleep :: "side \<Rightarrow> service_pc \<Rightarrow> bool" where
  "asleep side pc \<longleftrightarrow> (\<exists>c. pc = Asleep side c)"

text \<open>Whether what the waiters of a word wait for is there.\<close>

definition ready :: "side \<Rightarrow> service_system \<Rightarrow> bool" where
  "ready side s = (case side of
     Message \<Rightarrow> 0 < m_count (sv_queue s)
   | Clear \<Rightarrow> m_count (sv_queue s) < m_max (sv_queue s) \<and> (\<exists>t. waits_on Clear (sv_pc s t)))"

definition side_inv :: "(nat \<Rightarrow> bool) \<Rightarrow> side \<Rightarrow> service_system \<Rightarrow> bool" where
  "side_inv fiber side s \<longleftrightarrow>
     wait_value side (sv_queue s) \<in> {0, 1, 2} \<and>
     (ready side s \<longrightarrow> wait_value side (sv_queue s) = 2 \<or> (\<exists>t. signalling side (sv_pc s t))) \<and>
     distinct (sv_fibers s side) \<and> (\<forall>t. t \<in> set (sv_fibers s side) \<longleftrightarrow> fiber t \<and> asleep side (sv_pc s t)) \<and>
     (sv_fibers s side \<noteq> [] \<longrightarrow> wait_value side (sv_queue s) = 1) \<and>
     ((\<exists>t. asleep side (sv_pc s t) \<and> \<not> fiber t) \<longrightarrow> wait_value side (sv_queue s) = 1 \<or> (\<exists>t. waking side (sv_pc s t)))"

definition service_inv :: "(nat \<Rightarrow> bool) \<Rightarrow> service_system \<Rightarrow> bool" where
  "service_inv fiber s \<longleftrightarrow> smq_inv (sv_queue s) \<and> (\<forall>t. sv_pc s t \<noteq> Faulted) \<and> (\<forall>side. side_inv fiber side s)"

lemmas pc_kinds = signalling_def waking_def waits_on_def asleep_def

lemma goto_simps [simp]:
  "sv_queue (goto_pc t pc s) = sv_queue s" "sv_fibers (goto_pc t pc s) = sv_fibers s" "sv_pc (goto_pc t pc s) = (sv_pc s)(t := pc)"
  by (simp_all add: goto_pc_def)

text \<open>A step that neither sleeps nor wakes.\<close>

lemma side_inv_step:
  assumes inv: "side_inv fiber side s"
    and w: "wait_value side q \<in> {0, 1, 2}" "wait_value side (sv_queue s) = 1 \<Longrightarrow> wait_value side q = 1"
    and pc: "asleep side pc = asleep side (sv_pc s t)" "waking side (sv_pc s t) \<Longrightarrow> waking side pc"
    and r: "ready side (goto_pc t pc (s\<lparr>sv_queue := q\<rparr>)) \<Longrightarrow> wait_value side q = 2 \<or> signalling side pc \<or>
      ready side s \<and> (wait_value side (sv_queue s) = 2 \<longrightarrow> wait_value side q = 2) \<and> \<not> signalling side (sv_pc s t)"
  shows "side_inv fiber side (goto_pc t pc (s\<lparr>sv_queue := q\<rparr>))"
proof -
  define s' where "s' = goto_pc t pc (s\<lparr>sv_queue := q\<rparr>)"
  have s': "sv_queue s' = q" "sv_fibers s' = sv_fibers s" "sv_pc s' = (sv_pc s)(t := pc)" by (simp_all add: s'_def)
  have old: "ready side s \<Longrightarrow> wait_value side (sv_queue s) = 2 \<or> (\<exists>t. signalling side (sv_pc s t))"
    "distinct (sv_fibers s side)" "\<And>t. t \<in> set (sv_fibers s side) \<longleftrightarrow> fiber t \<and> asleep side (sv_pc s t)"
    "sv_fibers s side \<noteq> [] \<Longrightarrow> wait_value side (sv_queue s) = 1"
    "\<And>t. asleep side (sv_pc s t) \<Longrightarrow> \<not> fiber t \<Longrightarrow> wait_value side (sv_queue s) = 1 \<or> (\<exists>t. waking side (sv_pc s t))"
    using inv by (auto simp: side_inv_def)
  have sl: "asleep side (sv_pc s' u) = asleep side (sv_pc s u)" for u using pc(1) by (simp add: s')
  have wk: "waking side (sv_pc s u) \<Longrightarrow> waking side (sv_pc s' u)" for u using pc(2) by (auto simp: s')
  have "wait_value side q = 2 \<or> (\<exists>u. signalling side (sv_pc s' u))" if rd: "ready side s'"
  proof -
    from r [OF rd [unfolded s'_def]] consider "wait_value side q = 2" | "signalling side pc"
      | "ready side s" "wait_value side (sv_queue s) = 2 \<longrightarrow> wait_value side q = 2" "\<not> signalling side (sv_pc s t)" by blast
    then show ?thesis
    proof cases
      case 2
      then have "signalling side (sv_pc s' t)" by (simp add: s')
      then show ?thesis by blast
    next
      case 3
      from old(1) [OF 3(1)] show ?thesis
      proof
        assume "\<exists>u. signalling side (sv_pc s u)"
        then obtain u where u: "signalling side (sv_pc s u)" ..
        with 3(3) have "u \<noteq> t" by auto
        then have "signalling side (sv_pc s' u)" using u by (simp add: s')
        then show ?thesis by blast
      qed (use 3(2) in blast)
    qed blast
  qed
  moreover have "wait_value side q = 1 \<or> (\<exists>u. waking side (sv_pc s' u))" if "asleep side (sv_pc s' u)" "\<not> fiber u" for u
    using old(5) [of u] that sl w(2) wk by blast
  moreover have "sv_fibers s side \<noteq> [] \<Longrightarrow> wait_value side q = 1" using old(4) w(2) by blast
  ultimately show ?thesis
    unfolding s'_def [symmetric] side_inv_def s'(1,2) using w(1) old(2,3) by (simp only: sl) blast
qed

text \<open>A step that changes the thread alone.\<close>

lemma side_inv_goto:
  assumes inv: "side_inv fiber side s"
    and pc: "asleep side pc = asleep side (sv_pc s t)" "waking side (sv_pc s t) \<Longrightarrow> waking side pc"
    and r: "ready side (goto_pc t pc s) \<Longrightarrow> wait_value side (sv_queue s) = 2 \<or> signalling side pc \<or> ready side s \<and> \<not> signalling side (sv_pc s t)"
  shows "side_inv fiber side (goto_pc t pc s)"
proof -
  have e: "s\<lparr>sv_queue := sv_queue s\<rparr> = s" by simp
  have "wait_value side (sv_queue s) \<in> {0, 1, 2}" using inv by (simp add: side_inv_def)
  from side_inv_step [OF inv this _ pc, unfolded e] r show ?thesis by blast
qed

text \<open>What the locked part of a call can have done.\<close>

definition locked_outcome :: "service_call \<Rightarrow> service_queue \<Rightarrow> service_pc \<Rightarrow> service_queue \<Rightarrow> bool" where
  "locked_outcome c q pc q' \<longleftrightarrow>
     smq_frame q q' \<and> pc = Notify Message \<and> m_count q < m_max q \<and> m_count q' = m_count q + 1 \<or>
     smq_frame q q' \<and> pc = Notify Clear \<and> 0 < m_count q \<and> m_count q' = m_count q - 1 \<or>
     q' = q \<and> pc = Idle \<or>
     m_count q = 0 \<and> pc = Wait_For Message c \<and>
       q' = q\<lparr>m_message_wait_value := (if m_message_wait_value q = 2 then 0 else m_message_wait_value q)\<rparr> \<or>
     m_count q = m_max q \<and> pc = Wait_For Clear c \<and>
       q' = q\<lparr>m_clear_wait_value := (if m_clear_wait_value q = 2 then 0 else m_clear_wait_value q)\<rparr>"

lemma locked_part_outcome:
  assumes inv: "smq_inv q"
  obtains pc q' where "locked_part c q = Inr (pc, q')" "smq_inv q'" "locked_outcome c q pc q'"
proof -
  have le: "m_count q \<le> m_max q" "0 \<le> m_count q" using inv by (simp_all add: smq_inv_def)
  have words: "smq_inv (q\<lparr>m_message_wait_value := w\<rparr>)" "smq_inv (q\<lparr>m_clear_wait_value := w\<rparr>)" for w
    using inv by (simp_all add: smq_inv_def)
  note push = smq_push_back_spec [OF inv] smq_push_front_spec [OF inv] smq_pop_front_spec [OF inv]
  have "\<exists>pc q'. locked_part c q = Inr (pc, q') \<and> smq_inv q' \<and> locked_outcome c q pc q'"
  proof (cases c)
    case Call_Receive
    then show ?thesis using push(3) inv le words
      by (cases "m_count q = 0") (auto simp: smq_RecieveMessageImpl_def compare_exchange_def locked_outcome_def)
  next
    case (Call_Send m)
    then show ?thesis using push(1) [of m] inv le words
      by (cases "m_count q < m_max q") (auto simp: smq_SendMessageImpl_def compare_exchange_def locked_outcome_def)
  next
    case (Call_Jam m)
    then show ?thesis using push(2) [of m] inv le words
      by (cases "m_count q < m_max q") (auto simp: smq_JamMessageImpl_def compare_exchange_def locked_outcome_def)
  next
    case Call_TryReceive
    then show ?thesis using push(3) inv le
      by (cases "m_count q = 0") (auto simp: smq_try_receive_def locked_outcome_def)
  next
    case (Call_TrySend m)
    then show ?thesis using push(1) [of m] inv
      by (cases "m_count q < m_max q") (auto simp: smq_try_send_def locked_outcome_def)
  next
    case (Call_TryJam m)
    then show ?thesis using push(2) [of m] inv
      by (cases "m_count q < m_max q") (auto simp: smq_try_jam_def locked_outcome_def)
  qed
  then show thesis using that by blast
qed


lemma entry_inv:
  assumes inv: "service_inv fiber s" and t: "sv_pc s t = Entry c"
    and step: "service_step fiber t s = Some s'"
  shows "service_inv fiber s'"
proof -
  have qi: "smq_inv (sv_queue s)" and nf: "\<forall>t. sv_pc s t \<noteq> Faulted" and si: "\<And>side. side_inv fiber side s" using inv by (simp_all add: service_inv_def)
  obtain pc q where l: "locked_part c (sv_queue s) = Inr (pc, q)" "smq_inv q" "locked_outcome c (sv_queue s) pc q"
    by (rule locked_part_outcome [OF qi])
  then have s': "s' = goto_pc t pc (s\<lparr>sv_queue := q\<rparr>)" using step t by (simp add: service_step_def)
  have w: "wait_value side (sv_queue s) \<in> {0, 1, 2}" for side using si [of side] by (simp add: side_inv_def)
  have "side_inv fiber side s'" for side
    unfolding s'
    by (rule side_inv_step [OF si])
      (use l(3) w [of side] t in \<open>cases side; fastforce simp: locked_outcome_def wait_value_def smq_frame_def pc_kinds ready_def split: if_splits\<close>)+
  moreover have "pc \<noteq> Faulted" using l(3) by (auto simp: locked_outcome_def)
  ultimately show ?thesis using l(2) nf by (simp add: service_inv_def s')
qed

lemma side_word: "side_inv fiber side s \<Longrightarrow> wait_value side (sv_queue s) \<in> {0, 1, 2}"
  by (simp add: side_inv_def)

lemmas word_steps = on_word_def notify_word_def wait_word_def compare_exchange_def Let_def

lemma word_inv:
  assumes inv: "service_inv fiber s" and t: "sv_pc s t = Notify a \<or> sv_pc s t = Wait_For a c"
    and step: "service_step fiber t s = Some s'"
  shows "service_inv fiber s'"
proof -
  have qi: "smq_inv (sv_queue s)" and nf: "\<forall>t. sv_pc s t \<noteq> Faulted" and si: "\<And>side. side_inv fiber side s" using inv by (simp_all add: service_inv_def)
  have w: "wait_value side (sv_queue s) \<in> {0, 1, 2}" for side using si by (rule side_word)
  obtain pc v where s': "s' = goto_pc t pc (s\<lparr>sv_queue := set_wait_value a v (sv_queue s)\<rparr>)"
    and o: "sv_pc s t = Notify a \<and> (pc, v) = notify_word a (wait_value a (sv_queue s)) \<or>
      sv_pc s t = Wait_For a c \<and> (pc, v) = wait_word a c (wait_value a (sv_queue s))"
    using t step by (auto simp: service_step_def on_word_def split: prod.splits)
  have v: "v \<in> {0, 1, 2}" "wait_value a (sv_queue s) = 1 \<Longrightarrow> v = 1" and pc: "pc \<noteq> Faulted" "pc \<in> {Idle, Wake a, Entry c, Sleep a c}"
    using o w [of a] by (auto simp: word_steps split: if_splits)
  have "side_inv fiber side s'" for side
    unfolding s'
  proof (rule side_inv_step [OF si])
    show "wait_value side (set_wait_value a v (sv_queue s)) \<in> {0, 1, 2}" using w [of side] v by auto
    show "ready side (goto_pc t pc (s\<lparr>sv_queue := set_wait_value a v (sv_queue s)\<rparr>)) \<Longrightarrow>
      wait_value side (set_wait_value a v (sv_queue s)) = 2 \<or> signalling side pc \<or>
      ready side s \<and> (wait_value side (sv_queue s) = 2 \<longrightarrow> wait_value side (set_wait_value a v (sv_queue s)) = 2) \<and> \<not> signalling side (sv_pc s t)"
      using o w [of a] t pc(2)
      by (cases side; cases a) (auto simp: word_steps pc_kinds ready_def split: if_splits)
  qed (use o v t pc in \<open>auto simp: word_steps pc_kinds split: if_splits\<close>)
  then show ?thesis using qi nf pc(1) by (simp add: service_inv_def s')
qed

lemma call_inv:
  assumes inv: "service_inv fiber s" and t: "sv_pc s t = Idle \<or> sv_pc s t = Sleep a c"
  shows "service_inv fiber (goto_pc t (Entry c') s)"
proof -
  have "side_inv fiber side (goto_pc t (Entry c') s)" for side
    by (rule side_inv_goto) (use inv t in \<open>auto simp: service_inv_def pc_kinds ready_def split: side.splits if_splits\<close>)
  then show ?thesis using inv by (simp add: service_inv_def)
qed

lemma side_inv_cong:
  assumes "wait_value side (sv_queue s') = wait_value side (sv_queue s)" and "ready side s' \<Longrightarrow> ready side s"
    and "sv_fibers s' side = sv_fibers s side" and "\<And>t. asleep side (sv_pc s' t) = asleep side (sv_pc s t)"
    and "\<And>t. signalling side (sv_pc s t) \<Longrightarrow> signalling side (sv_pc s' t)" and "\<And>t. waking side (sv_pc s t) \<Longrightarrow> waking side (sv_pc s' t)"
    and "side_inv fiber side s"
  shows "side_inv fiber side s'"
  using assms(7) unfolding side_inv_def assms(1,3,4) using assms(2,5,6) by blast

lemma sleep_inv:
  assumes inv: "service_inv fiber s" and t: "sv_pc s t = Sleep a c"
  shows "service_inv fiber (sleep_step (fiber t) t a c s)"
proof (cases "wait_value a (sv_queue s) = 1")
  case True
  define s1 where "s1 = sleep_step (fiber t) t a c s"
  have s': "sv_queue s1 = sv_queue s" "sv_pc s1 = (sv_pc s)(t := Asleep a c)"
    "sv_fibers s1 = (if fiber t then (sv_fibers s)(a := sv_fibers s a @ [t]) else sv_fibers s)"
    using True by (simp_all add: s1_def sleep_step_def Let_def)
  have si: "side_inv fiber side s" for side using inv by (simp add: service_inv_def)
  have "side_inv fiber side s1" for side
  proof (cases "side = a")
    case own: True
    have "distinct (sv_fibers s a)" "\<And>u. u \<in> set (sv_fibers s a) \<longleftrightarrow> fiber u \<and> asleep a (sv_pc s u)"
      using si [of a] by (auto simp: side_inv_def)
    moreover have "\<not> asleep a (sv_pc s t)" using t by (simp add: asleep_def)
    ultimately have "distinct (sv_fibers s1 a)" "\<forall>u. u \<in> set (sv_fibers s1 a) \<longleftrightarrow> fiber u \<and> asleep a (sv_pc s1 u)"
      by (auto simp: s' asleep_def)
    moreover have "ready a s1 \<Longrightarrow> ready a s" using t by (auto simp: ready_def s' waits_on_def split: side.splits if_splits)
    moreover have "\<exists>u. signalling a (sv_pc s1 u)" if rd: "ready a s"
    proof -
      obtain u where "signalling a (sv_pc s u)" using si [of a] rd True by (auto simp: side_inv_def)
      then show ?thesis using t by (intro exI [of _ u]) (auto simp: s' signalling_def)
    qed
    ultimately show ?thesis using True own by (simp only: side_inv_def s'(1)) blast
  next
    case False
    show ?thesis
      by (rule side_inv_cong [OF _ _ _ _ _ _ si]) (use False t in \<open>auto simp: s' pc_kinds ready_def split: side.splits if_splits\<close>)
  qed
  then show ?thesis using inv by (simp add: service_inv_def s' flip: s1_def)
next
  case False
  then show ?thesis using call_inv [OF inv, of t a c c] t by (simp add: sleep_step_def)
qed

lemma wake_all_inv:
  assumes inv: "service_inv fiber s" and t: "sv_pc s t = Wake_All a woken"
  shows "service_inv fiber (wake_all_step fiber t a woken s)"
proof -
  let ?s = "wake_all_step fiber t a woken s"
  define pc where "pc u = (if u = t then if woken then Idle else Notify a
    else case sv_pc s u of Asleep side' c \<Rightarrow> if side' = a \<and> \<not> fiber u then Sleep a c else Asleep side' c | p \<Rightarrow> p)" for u
  have s': "sv_queue ?s = sv_queue s" "sv_fibers ?s = sv_fibers s" "sv_pc ?s = pc"
    by (auto simp: wake_all_step_def pc_def fun_eq_iff)
  have si: "side_inv fiber side s" for side using inv by (simp add: service_inv_def)
  have as: "asleep side (pc u) \<longleftrightarrow> asleep side (sv_pc s u) \<and> (side = a \<longrightarrow> fiber u)" for side u
    using t by (cases "sv_pc s u") (auto simp: pc_def asleep_def)
  have sg: "signalling side (sv_pc s u) \<Longrightarrow> signalling side (pc u)" for side u
    using t by (cases "sv_pc s u") (auto simp: pc_def signalling_def)
  have wk: "waking side (sv_pc s u) \<Longrightarrow> side \<noteq> a \<Longrightarrow> waking side (pc u)" for side u
    using t by (cases "sv_pc s u") (auto simp: pc_def waking_def)
  have wo: "waits_on side (pc u) \<Longrightarrow> waits_on side (sv_pc s u)" for side u
    using t by (cases "sv_pc s u") (auto simp: pc_def waits_on_def split: if_splits)
  have rd: "ready side ?s \<Longrightarrow> ready side s" for side using wo by (auto simp: ready_def s' split: side.splits)
  have "side_inv fiber side ?s" for side
  proof (cases "side = a")
    case True
    then show ?thesis using si [of a] sg rd [of a] unfolding side_inv_def s' as by blast
  next
    case False
    show ?thesis by (rule side_inv_cong [OF _ _ _ _ _ _ si]) (use False as sg wk rd in \<open>simp_all add: s'\<close>)
  qed
  moreover have "pc u \<noteq> Faulted" for u using inv by (cases "sv_pc s u") (auto simp: pc_def service_inv_def split: if_splits)
  ultimately show ?thesis using inv by (simp add: service_inv_def s')
qed

text \<open>The wake up keeps the invariant with a single fiber in the list, and faults with more.\<close>

lemma wake_inv:
  assumes inv: "service_inv fiber s" and t: "sv_pc s t = Wake a" and few: "length (sv_fibers s a) < 2"
  shows "service_inv fiber (wake_step t a s)"
proof (cases "wait_value a (sv_queue s) = 1")
  case True
  have si: "side_inv fiber side s" for side using inv by (simp add: service_inv_def)
  let ?s = "wake_step t a s"
  define pc where "pc u = (if u = t then Wake_All a True else if u \<in> set (sv_fibers s a) then resumed (sv_pc s u) else sv_pc s u)" for u
  have fb: "u \<in> set (sv_fibers s a) \<longleftrightarrow> fiber u \<and> asleep a (sv_pc s u)" for u using si [of a] by (auto simp: side_inv_def)
  have s': "sv_queue ?s = set_wait_value a 2 (sv_queue s)" "sv_fibers ?s = (sv_fibers s)(a := [])" "sv_pc ?s = pc"
    using few True by (cases "sv_fibers s a"; auto simp: wake_step_def compare_exchange_def pc_def Let_def fun_eq_iff)+
  have as: "asleep side (pc u) \<longleftrightarrow> asleep side (sv_pc s u) \<and> (side = a \<longrightarrow> \<not> fiber u)" for side u
    using t fb [of u] by (cases "sv_pc s u") (auto simp: pc_def asleep_def)
  have sg: "signalling side (sv_pc s u) \<Longrightarrow> side \<noteq> a \<Longrightarrow> signalling side (pc u)" for side u
    using t fb [of u] by (cases "sv_pc s u") (auto simp: pc_def signalling_def asleep_def)
  have wk: "waking side (sv_pc s u) \<Longrightarrow> waking side (pc u)" for side u
    using t fb [of u] by (cases "sv_pc s u") (auto simp: pc_def waking_def asleep_def)
  have wo: "waits_on side (pc u) \<Longrightarrow> waits_on side (sv_pc s u)" for side u
    using t fb [of u] by (cases "sv_pc s u") (auto simp: pc_def waits_on_def asleep_def split: if_splits)
  have rd: "ready side ?s \<Longrightarrow> ready side s" for side using wo by (auto simp: ready_def s' split: side.splits)
  have "side_inv fiber side ?s" for side
  proof (cases "side = a")
    case own: True
    have "waking a (pc t)" by (simp add: pc_def waking_def)
    then show ?thesis unfolding own side_inv_def s' as by (auto simp: fb)
  next
    case False
    show ?thesis by (rule side_inv_cong [OF _ _ _ _ _ _ si]) (use False as sg wk rd in \<open>simp_all add: s'\<close>)
  qed
  moreover have "pc u \<noteq> Faulted" for u
    using inv fb [of u] by (cases "sv_pc s u") (auto simp: pc_def service_inv_def asleep_def split: if_splits)
  ultimately show ?thesis using inv by (simp add: service_inv_def s')
next
  case False
  have "wake_step t a s = goto_pc t (Wake_All a False) s" using False by (simp add: wake_step_def compare_exchange_def)
  moreover have "side_inv fiber side (goto_pc t (Wake_All a False) s)" for side
    by (rule side_inv_goto) (use inv t in \<open>auto simp: service_inv_def pc_kinds ready_def split: side.splits if_splits\<close>)
  ultimately show ?thesis using inv by (simp add: service_inv_def)
qed

text \<open>Two fibers in the wait list of one word.\<close>

definition two_fibers :: "(nat \<Rightarrow> bool) \<Rightarrow> service_system \<Rightarrow> bool" where
  "two_fibers fiber s \<longleftrightarrow> (\<exists>side f g. f \<noteq> g \<and> fiber f \<and> fiber g \<and> f \<in> set (sv_fibers s side) \<and> g \<in> set (sv_fibers s side))"

lemma step_inv:
  assumes inv: "service_inv fiber s" and step: "service_step fiber t s = Some s'"
  shows "service_inv fiber s' \<or> two_fibers fiber s' \<and> (\<exists>t. sv_pc s' t = Faulted)"
proof (cases "sv_pc s t")
  case (Entry c)
  then show ?thesis using entry_inv [OF inv] step by blast
next
  case (Notify side)
  then show ?thesis using word_inv [OF inv] step by blast
next
  case (Wait_For side c)
  then show ?thesis using word_inv [OF inv] step by blast
next
  case (Wake side)
  then have s': "s' = wake_step t side s" using step by (simp add: service_step_def)
  show ?thesis
  proof (cases "length (sv_fibers s side) < 2")
    case True
    then show ?thesis using wake_inv [OF inv Wake] s' by simp
  next
    case False
    then obtain f g fs where l: "sv_fibers s side = f # g # fs" by (cases "sv_fibers s side"; cases "tl (sv_fibers s side)") auto
    have "side_inv fiber side s" using inv by (simp add: service_inv_def)
    then have d: "distinct (f # g # fs)" "\<forall>t. t \<in> set (f # g # fs) \<longleftrightarrow> fiber t \<and> asleep side (sv_pc s t)" "wait_value side (sv_queue s) = 1"
      by (simp_all add: side_inv_def l)
    have "sv_fibers s' = sv_fibers s" and "sv_pc s' t = Faulted" unfolding s' using l d(3) by (simp_all add: wake_step_def compare_exchange_def)
    moreover have "f \<noteq> g" "fiber f" "fiber g" using d(1,2) by auto
    ultimately show ?thesis unfolding two_fibers_def using l by (metis list.set_intros)
  qed
next
  case (Wake_All side woken)
  then show ?thesis using wake_all_inv [OF inv] step by (auto simp: service_step_def)
next
  case (Sleep side c)
  then show ?thesis using sleep_inv [OF inv] step by (auto simp: service_step_def)
qed (use step in \<open>simp_all add: service_step_def\<close>)

lemma spurious_inv:
  assumes inv: "service_inv fiber s" and t: "sv_pc s t = Asleep a c" "\<not> fiber t"
  shows "service_inv fiber (goto_pc t (Sleep a c) s)"
proof -
  have si: "side_inv fiber side s" for side using inv by (simp add: service_inv_def)
  let ?s = "goto_pc t (Sleep a c) s"
  have k: "signalling side (sv_pc s u) \<Longrightarrow> signalling side (sv_pc ?s u)" "waking side (sv_pc s u) \<Longrightarrow> waking side (sv_pc ?s u)"
    "waits_on side (sv_pc ?s u) \<Longrightarrow> waits_on side (sv_pc s u)"
    "asleep side (sv_pc ?s u) \<Longrightarrow> asleep side (sv_pc s u)" "asleep side (sv_pc s u) \<Longrightarrow> fiber u \<Longrightarrow> asleep side (sv_pc ?s u)" for side u
    using t by (auto simp: pc_kinds split: if_splits)
  have rd: "ready side ?s \<Longrightarrow> ready side s" for side using k(3) by (auto simp: ready_def simp del: goto_simps(3) split: side.splits)
  have "side_inv fiber side ?s" for side
    using si [of side] rd [of side] k unfolding side_inv_def goto_simps(1,2) by blast
  then show ?thesis using inv by (simp add: service_inv_def)
qed

lemma service_run_inv:
  assumes "service_run fiber q0 s" and "smq_inv q0" and "m_message_wait_value q0 = 0" and "m_clear_wait_value q0 = 0" and "m_count q0 = 0"
  shows "service_inv fiber s \<or> two_fibers fiber s \<and> (\<exists>t. sv_pc s t = Faulted)"
  using assms
proof (induction rule: service_run.induct)
  case run_start
  then show ?case
    by (auto simp: service_inv_def side_inv_def ready_def pc_kinds wait_value_def split: side.splits)
next
  case (run_call s t c)
  then show ?case using call_inv [of fiber s t] by auto
next
  case (run_step s t s')
  then have "service_inv fiber s" by auto
  from step_inv [OF this run_step.hyps(3)] show ?case .
next
  case (run_spurious s t side c)
  then show ?case using spurious_inv [of fiber s t side c] by auto
qed

section \<open>Properties\<close>

definition smq_fresh :: "u64 list \<Rightarrow> int \<Rightarrow> service_queue" where
  "smq_fresh memory n = smq_Initialize memory n ServiceMessageQueue_construct"

lemma smq_fresh_run:
  assumes "length memory = nat n" and "0 \<le> n" and "n < 2 ^ 30" and "service_run fiber (smq_fresh memory n) s"
  shows "service_inv fiber s \<or> two_fibers fiber s \<and> (\<exists>t. sv_pc s t = Faulted)"
  by (rule service_run_inv [OF assms(4)])
    (use assms in \<open>auto simp: smq_fresh_def smq_Initialize_def ServiceMessageQueue_construct_def smq_inv_def\<close>)

text \<open>
  C14: whatever the threads and fibers on a queue do and however they interleave, an operation faults only after
  two fibers have come to sleep on the same word.  Until then no wake up is lost: when a message is there and
  a receiver is asleep, or there is room and a sender is asleep, then another thread is on its way to signal
  the word or to wake its sleepers.
\<close>

theorem service_queue_no_lost_wakeup:
  assumes "length memory = nat n" and "0 \<le> n" and "n < 2 ^ 30" and "service_run fiber (smq_fresh memory n) s"
  shows "if \<exists>t. sv_pc s t = Faulted
    then \<exists>side f g. f \<noteq> g \<and> fiber f \<and> fiber g \<and> f \<in> set (sv_fibers s side) \<and> g \<in> set (sv_fibers s side)
    else (\<forall>t c. sv_pc s t = Asleep Message c \<longrightarrow> smq_items (sv_queue s) \<noteq> [] \<longrightarrow>
        (\<exists>u. sv_pc s u \<in> {Notify Message, Wake Message, Wake_All Message False, Wake_All Message True})) \<and>
      (\<forall>t c. sv_pc s t = Asleep Clear c \<longrightarrow> length (smq_items (sv_queue s)) < smq_capacity (sv_queue s) \<longrightarrow>
        (\<exists>u. sv_pc s u \<in> {Notify Clear, Wake Clear, Wake_All Clear False, Wake_All Clear True}))"
proof (cases "\<exists>t. sv_pc s t = Faulted")
  case True
  then have "\<not> service_inv fiber s" by (auto simp: service_inv_def)
  then have "two_fibers fiber s" using smq_fresh_run [OF assms] by blast
  then show ?thesis using True by (simp only: two_fibers_def if_True)
next
  case False
  then have inv: "service_inv fiber s" using smq_fresh_run [OF assms] by blast
  have q: "smq_inv (sv_queue s)" using inv by (simp add: service_inv_def)
  have m: "smq_items (sv_queue s) \<noteq> [] \<Longrightarrow> ready Message s" using smq_empty_iff [OF q] q by (auto simp: ready_def smq_inv_def)
  have c: "length (smq_items (sv_queue s)) < smq_capacity (sv_queue s) \<Longrightarrow> sv_pc s t = Asleep Clear c \<Longrightarrow> ready Clear s" for t c
    using smq_room_iff [OF q] by (auto simp: ready_def waits_on_def)
  have "\<exists>u. sv_pc s u \<in> {Notify side, Wake side, Wake_All side False, Wake_All side True}"
    if "ready side s" "sv_pc s t = Asleep side c" for side t c
  proof -
    have I: "side_inv fiber side s" using inv by (simp add: service_inv_def)
    have a: "asleep side (sv_pc s t)" using that(2) by (simp add: asleep_def)
    have "(\<exists>u. signalling side (sv_pc s u)) \<or> (\<exists>u. waking side (sv_pc s u))"
    proof (cases "wait_value side (sv_queue s) = 2")
      case True
      have "\<not> fiber t"
      proof
        assume "fiber t"
        then have "sv_fibers s side \<noteq> []" using I a by (auto simp: side_inv_def)
        then show False using I True by (simp add: side_inv_def)
      qed
      then have "wait_value side (sv_queue s) = 1 \<or> (\<exists>u. waking side (sv_pc s u))" using I a by (auto simp: side_inv_def)
      then show ?thesis using True by simp
    qed (use I that(1) in \<open>auto simp: side_inv_def\<close>)
    then show ?thesis by (auto simp: signalling_def waking_def)
  qed
  then show ?thesis using False m c by (simp only: if_False) blast
qed

lemma run_called: "service_run fiber q0 s \<Longrightarrow> \<forall>u. sv_pc s u \<noteq> Faulted \<Longrightarrow> sv_pc s t = Idle \<Longrightarrow> s' = goto_pc t (Entry c) s \<Longrightarrow>
    service_run fiber q0 s'"
  by (simp add: run_call)

theorem service_queue_no_lost_wakeup_witness:
  "\<exists>s. service_run (\<lambda>t. t = 0) (smq_fresh [0, 0] 2) s \<and> smq_items (sv_queue s) = [5] \<and> sv_pc s 0 = Asleep Message Call_Receive \<and>
    (\<exists>u. sv_pc s u \<in> {Notify Message, Wake Message, Wake_All Message False, Wake_All Message True})"
proof -
  let ?q0 = "smq_fresh [0, 0] 2"
  let ?q1 = "?q0\<lparr>m_message_wait_value := 1\<rparr>"
  let ?q2 = "?q1\<lparr>m_message_buffer := [5, 0], m_count := 1\<rparr>"
  let ?sys = "\<lambda>q pc fs. \<lparr>sv_queue = q, sv_pc = pc, sv_fibers = fs\<rparr>"
  let ?fs = "(\<lambda>_. [])(Message := [0 :: nat])"
  note defs = smq_fresh_def smq_Initialize_def ServiceMessageQueue_construct_def
  note step_defs = service_step_def goto_pc_def on_word_def wait_word_def sleep_step_def wait_value_def set_wait_value_def
    smq_RecieveMessageImpl_def smq_SendMessageImpl_def smq_push_back_def compare_exchange_def
  have "service_run (\<lambda>t. t = 0) ?q0 (?sys ?q0 (\<lambda>_. Idle) (\<lambda>_. []))" by (rule run_start)
  then have "service_run (\<lambda>t. t = 0) ?q0 (?sys ?q0 ((\<lambda>_. Idle)(0 := Entry Call_Receive)) (\<lambda>_. []))"
    by (rule run_called [where t = 0 and c = Call_Receive]) (simp_all add: goto_pc_def)
  then have "service_run (\<lambda>t. t = 0) ?q0 (?sys ?q0 ((\<lambda>_. Idle)(0 := Wait_For Message Call_Receive)) (\<lambda>_. []))"
    by (rule run_step [where t = 0]) (simp_all add: step_defs defs)
  then have "service_run (\<lambda>t. t = 0) ?q0 (?sys ?q1 ((\<lambda>_. Idle)(0 := Sleep Message Call_Receive)) (\<lambda>_. []))"
    by (rule run_step [where t = 0]) (simp_all add: step_defs defs)
  then have "service_run (\<lambda>t. t = 0) ?q0 (?sys ?q1 ((\<lambda>_. Idle)(0 := Asleep Message Call_Receive)) ?fs)"
    by (rule run_step [where t = 0]) (simp_all add: step_defs defs)
  then have "service_run (\<lambda>t. t = 0) ?q0 (?sys ?q1 ((\<lambda>_. Idle)(0 := Asleep Message Call_Receive, 1 := Entry (Call_Send 5))) ?fs)"
    by (rule run_called [where t = 1 and c = "Call_Send 5"]) (simp_all add: goto_pc_def)
  then have run: "service_run (\<lambda>t. t = 0) ?q0 (?sys ?q2 ((\<lambda>_. Idle)(0 := Asleep Message Call_Receive, 1 := Notify Message)) ?fs)"
    by (rule run_step [where t = 1]) (simp_all add: step_defs defs Let_def)
  have items: "smq_items ?q2 = [5]" by (simp add: smq_items_def ring_list_def defs)
  let ?s = "?sys ?q2 ((\<lambda>_. Idle)(0 := Asleep Message Call_Receive, 1 := Notify Message)) ?fs"
  have "\<not> (\<exists>t. sv_pc ?s t = Faulted)" by simp
  with service_queue_no_lost_wakeup [OF _ _ _ run] items
  have "\<exists>u. sv_pc ?s u \<in> {Notify Message, Wake Message, Wake_All Message False, Wake_All Message True}"
    by simp
  then show ?thesis using run items by (intro exI [of _ ?s]) simp
qed

text \<open>
  the locked parts of \<open>SendMessage\<close>, \<open>JamMessage\<close> and \<open>ReceiveMessage\<close> never fault on a queue that
  any threads can reach, and do to its messages what a bounded double ended queue does.
\<close>

theorem service_queue_calls:
  assumes "length memory = nat n" and "0 \<le> n" and "n < 2 ^ 30" and "service_run fiber (smq_fresh memory n) s"
    and "\<forall>t. sv_pc s t \<noteq> Faulted" and q': "q = sv_queue s"
  shows "\<exists>q1 q2 q3. smq_SendMessageImpl m q = Inr (length (smq_items q) < smq_capacity q, q1) \<and>
      smq_items q1 = (if length (smq_items q) < smq_capacity q then smq_items q @ [m] else smq_items q) \<and>
    smq_JamMessageImpl m q = Inr (length (smq_items q) < smq_capacity q, q2) \<and>
      smq_items q2 = (if length (smq_items q) < smq_capacity q then m # smq_items q else smq_items q) \<and>
    smq_RecieveMessageImpl q = Inr (case smq_items q of [] \<Rightarrow> None | m # _ \<Rightarrow> Some m, q3) \<and>
      smq_items q3 = tl (smq_items q)"
proof -
  have q: "smq_inv q" using smq_fresh_run [OF assms(1-4)] assms(5) by (auto simp: service_inv_def q')
  obtain q1 where 1: "smq_try_send m q = Inr (length (smq_items q) < smq_capacity q, q1)"
    "smq_items q1 = (if length (smq_items q) < smq_capacity q then smq_items q @ [m] else smq_items q)"
    using smq.send [OF q, of m] by blast
  obtain q2 where 2: "smq_try_jam m q = Inr (length (smq_items q) < smq_capacity q, q2)"
    "smq_items q2 = (if length (smq_items q) < smq_capacity q then m # smq_items q else smq_items q)"
    using smq.jam [OF q, of m] by blast
  obtain q3 where 3: "smq_try_receive q = Inr (case smq_items q of [] \<Rightarrow> None | m # _ \<Rightarrow> Some m, q3)"
    "smq_items q3 = tl (smq_items q)"
    using smq.receive [OF q] by blast
  have w: "smq_items (q\<lparr>m_message_wait_value := x\<rparr>) = smq_items q" "smq_items (q\<lparr>m_clear_wait_value := x\<rparr>) = smq_items q" for x
    by (simp_all add: smq_items_def)
  have "\<exists>q1. smq_SendMessageImpl m q = Inr (length (smq_items q) < smq_capacity q, q1) \<and>
      smq_items q1 = (if length (smq_items q) < smq_capacity q then smq_items q @ [m] else smq_items q)"
    using 1 smq_room_iff [OF q] w by (auto simp: smq_SendMessageImpl_def smq_try_send_def)
  moreover have "\<exists>q2. smq_JamMessageImpl m q = Inr (length (smq_items q) < smq_capacity q, q2) \<and>
      smq_items q2 = (if length (smq_items q) < smq_capacity q then m # smq_items q else smq_items q)"
    using 2 smq_room_iff [OF q] w by (auto simp: smq_JamMessageImpl_def smq_try_jam_def)
  moreover have "\<exists>q3. smq_RecieveMessageImpl q = Inr (case smq_items q of [] \<Rightarrow> None | m # _ \<Rightarrow> Some m, q3) \<and>
      smq_items q3 = tl (smq_items q)"
    using 3 smq_empty_iff [OF q] w by (auto simp: smq_RecieveMessageImpl_def smq_try_receive_def)
  ultimately show ?thesis by blast
qed

theorem service_queue_calls_witness:
  "\<exists>q1. smq_SendMessageImpl 5 (smq_fresh [0, 0] 2) = Inr (True, q1) \<and> smq_items q1 = [5]"
proof -
  have "smq_items (smq_fresh [0, 0] 2) = []" "smq_capacity (smq_fresh [0, 0] 2) = 2"
    by (simp_all add: smq_fresh_def smq_Initialize_def ServiceMessageQueue_construct_def smq_items_def smq_capacity_def)
  then show ?thesis using service_queue_calls [OF _ _ _ run_start [of "\<lambda>_. False" "smq_fresh [0, 0] 2"] _ refl, where m = 5] by auto
qed

text \<open>
  \<open>TryPeekMessage\<close> answers the wrong way round: nothing when a message is there, and whatever word
  is at the front of the ring when the queue is empty.
\<close>

theorem service_queue_peek_inverted:
  assumes "smq_inv q" and "0 < m_max q"
  shows "smq_TryPeekMessage q =
    Inr (if smq_items q = [] then Some (m_message_buffer q ! nat (m_offset q)) else None)"
  using assms smq_empty_iff [OF assms(1)] by (auto simp: smq_TryPeekMessage_def smq_inv_def)

theorem service_queue_peek_inverted_witness:
  "smq_TryPeekMessage (smq_fresh [3, 0] 2) = Inr (Some 3)"
proof -
  have "smq_inv (smq_fresh [3, 0] 2)" "smq_items (smq_fresh [3, 0] 2) = []"
    by (simp_all add: smq_fresh_def smq_Initialize_def ServiceMessageQueue_construct_def smq_inv_def smq_items_def)
  then show ?thesis using service_queue_peek_inverted [of "smq_fresh [3, 0] 2"]
    by (simp add: smq_fresh_def smq_Initialize_def ServiceMessageQueue_construct_def)
qed

end
