(* ===== verification/Run.thy ===== *)
theory Run
  imports Awn_Prelude
begin

text \<open>
  Operations with loops that may not end: a run answers an option, where \<open>None\<close> is the operation that does
  not return, of a result.
\<close>

section \<open>Operations that may not return\<close>

type_synonym 'a run = "'a result option"

fun bind_run :: "'a run \<Rightarrow> ('a \<Rightarrow> 'b run) \<Rightarrow> 'b run" where
  "bind_run None f = None"
| "bind_run (Some (Inl e)) f = Some (Inl e)"
| "bind_run (Some (Inr x)) f = f x"

abbreviation ret :: "'a \<Rightarrow> 'a run" where "ret x \<equiv> Some (Inr x)"
abbreviation call :: "'a result \<Rightarrow> ('a \<Rightarrow> 'b run) \<Rightarrow> 'b run" where "call m f \<equiv> bind_run (Some m) f"

lemma bind_run_ret_iff: "bind_run m f = ret y \<longleftrightarrow> (\<exists>x. m = ret x \<and> f x = ret y)"
  by (cases "(m, f)" rule: bind_run.cases) auto

lemma call_ret_iff: "call m f = ret y \<longleftrightarrow> (\<exists>x. m = Inr x \<and> f x = ret y)"
  by (cases m) (auto simp: bind_run_ret_iff)

lemma call_simps [simp]: "call (Inr x) f = f x" "call (Inl e) f = Some (Inl e)"
  by simp_all

lemma bind_run_ret [simp]: "bind_run m ret = m"
  by (cases m; cases "the m") auto

end
