(* ===== verification/List_Rings.thy ===== *)
theory List_Rings
  imports Intrusive_List
begin

text \<open>
  Several intrusive lists that share one store of nodes.  \<open>rings h S L\<close>: each sentinel \<open>s\<close> of \<open>S\<close> holds
  the list \<open>L s\<close>, no node is in two lists, and every other node is unlinked.  The lemmas give the
  operations of \<open>IntrusiveList\<close> as updates of \<open>L\<close>, and the iteration order of a list.
\<close>

definition rings :: "'p links \<Rightarrow> 'p set \<Rightarrow> ('p \<Rightarrow> 'p list) \<Rightarrow> bool" where
  "rings h S L \<longleftrightarrow> (\<forall>s\<in>S. list_rep h s (L s) \<and> set (L s) \<inter> S = {}) \<and>
     (\<forall>s\<in>S. \<forall>t\<in>S. s \<noteq> t \<longrightarrow> set (L s) \<inter> set (L t) = {}) \<and>
     (\<forall>p. p \<notin> S \<longrightarrow> (\<forall>s\<in>S. p \<notin> set (L s)) \<longrightarrow> unlinked h p)"

definition ring_free :: "'p set \<Rightarrow> ('p \<Rightarrow> 'p list) \<Rightarrow> 'p \<Rightarrow> bool" where
  "ring_free S L p \<longleftrightarrow> p \<notin> S \<and> (\<forall>s\<in>S. p \<notin> set (L s))"

lemma ringsI:
  assumes "\<And>s. s \<in> S \<Longrightarrow> list_rep h s (L s)" and "\<And>s. s \<in> S \<Longrightarrow> set (L s) \<inter> S = {}"
    and "\<And>s t. s \<in> S \<Longrightarrow> t \<in> S \<Longrightarrow> s \<noteq> t \<Longrightarrow> set (L s) \<inter> set (L t) = {}"
    and "\<And>p. ring_free S L p \<Longrightarrow> unlinked h p"
  shows "rings h S L"
  unfolding rings_def using assms by (auto simp: ring_free_def)

lemma ringsD:
  assumes "rings h S L"
  shows "s \<in> S \<Longrightarrow> list_rep h s (L s)" and "s \<in> S \<Longrightarrow> x \<in> set (L s) \<Longrightarrow> x \<notin> S"
    and "s \<in> S \<Longrightarrow> t \<in> S \<Longrightarrow> x \<in> set (L s) \<Longrightarrow> x \<in> set (L t) \<Longrightarrow> s = t"
    and "ring_free S L p \<Longrightarrow> unlinked h p" and "s \<in> S \<Longrightarrow> distinct (L s)"
  using assms unfolding rings_def ring_free_def list_rep_def by (blast, blast, blast, blast, auto)

lemma rings_unique:
  assumes "rings h S L" and "rings h S L'" and "s \<in> S"
  shows "L s = L' s"
  using ringsD(1) [OF assms(1,3)] ringsD(1) [OF assms(2,3)] by (rule il.rep_unique)

text \<open>The neighbours of a node belong to its own list.\<close>

lemma list_rep_neighbours:
  assumes "list_rep h s xs" and "p \<in> set (s # xs)"
  shows "m_next h p \<in> set (s # xs)" "m_prev h p \<in> set (s # xs)"
proof -
  have lk: "linked h s xs s" using assms(1) by (simp add: list_rep_def)
  show "m_next h p \<in> set (s # xs)"
  proof (cases "p = s")
    case True
    then show ?thesis using linked_first [OF lk] by (cases xs) auto
  next
    case False
    then obtain as bs where xs: "xs = as @ p # bs" using assms(2) by (auto dest: split_list)
    then show ?thesis using lk linked_first [of h p bs s] by (cases bs) (auto simp: linked_append)
  qed
  show "m_prev h p \<in> set (s # xs)"
  proof (cases "p = s")
    case True
    then show ?thesis using linked_last [OF lk] by (metis last_in_set list.discI)
  next
    case False
    then obtain as bs where xs: "xs = as @ p # bs" using assms(2) by (auto dest: split_list)
    then have "m_prev h p = last (s # as)" using lk linked_last [of h s as p] by (simp add: linked_append)
    then show ?thesis using xs last_in_set [of "s # as"] by auto
  qed
qed

lemma list_rep_frame:
  assumes "list_rep h s xs" and "\<And>p. p \<in> set (s # xs) \<Longrightarrow> m_next h' p = m_next h p \<and> m_prev h' p = m_prev h p"
  shows "list_rep h' s xs"
  using assms linked_frame [of h s xs s h'] by (auto simp: list_rep_def)

lemma rings_Unlink:
  assumes r: "rings h S L" and s: "s \<in> S" and p: "p \<in> set (L s)"
  shows "rings (Unlink p h) S (L(s := remove1 p (L s)))"
proof (rule ringsI)
  note D = ringsD [OF r]
  have nb: "m_next h p \<in> set (s # L s)" "m_prev h p \<in> set (s # L s)"
    using list_rep_neighbours [OF D(1) [OF s], of p] p by simp_all
  have same: "m_next (Unlink p h) q = m_next h q \<and> m_prev (Unlink p h) q = m_prev h q" if "q \<notin> set (s # L s)" for q
    using Unlink_frame [of q p h] that nb p by auto
  fix t assume t: "t \<in> S"
  show "list_rep (Unlink p h) t ((L(s := remove1 p (L s))) t)"
  proof (cases "t = s")
    case True
    then show ?thesis using Unlink_rep(1) [OF D(1) [OF s] p] by simp
  next
    case False
    have "list_rep (Unlink p h) t (L t)"
      using t s False D(2) [OF s] D(2) [OF t] D(3) [OF s t] by (intro list_rep_frame [OF D(1) [OF t]] same) auto
    then show ?thesis using False by simp
  qed
  show "set ((L(s := remove1 p (L s))) t) \<inter> S = {}"
    using D(2) [OF t] set_remove1_subset [of p "L s"] by auto
  show "set ((L(s := remove1 p (L s))) t) \<inter> set ((L(s := remove1 p (L s))) u) = {}" if "u \<in> S" "t \<noteq> u" for u
    using D(3) [OF t that(1)] that(2) set_remove1_subset [of p "L s"] by auto
next
  note D = ringsD [OF r]
  fix q assume q: "ring_free S (L(s := remove1 p (L s))) q"
  show "unlinked (Unlink p h) q"
  proof (cases "q = p")
    case True
    then show ?thesis using Unlink_rep(2) [OF D(1) [OF s] p] by simp
  next
    case False
    have qf: "ring_free S L q"
      using q False D(5) [OF s] by (auto simp: ring_free_def split: if_splits)
    have nb: "m_next h p \<in> set (s # L s)" "m_prev h p \<in> set (s # L s)"
      using list_rep_neighbours [OF D(1) [OF s], of p] p by simp_all
    have "q \<notin> set (s # L s)" using qf s by (auto simp: ring_free_def)
    then show ?thesis using unlinked_frame [OF D(4) [OF qf]] Unlink_frame [of q p h] nb p by auto
  qed
qed

lemma rings_PushBack:
  assumes r: "rings h S L" and s: "s \<in> S" and n: "ring_free S L n"
  shows "rings (list_PushBack s n h) S (L(s := L s @ [n]))"
proof (rule ringsI)
  note D = ringsD [OF r]
  have un: "unlinked h n" by (rule D(4) [OF n])
  have nb: "m_prev h s \<in> set (s # L s)"
    using list_rep_neighbours [OF D(1) [OF s], of s] by simp
  have same: "m_next (list_PushBack s n h) q = m_next h q \<and> m_prev (list_PushBack s n h) q = m_prev h q"
    if "q \<notin> set (n # s # L s)" for q
    using LinkPrev_frame [OF un, of q s] that nb by (auto simp: list_PushBack_def)
  {
    fix t assume t: "t \<in> S"
    show "list_rep (list_PushBack s n h) t ((L(s := L s @ [n])) t)"
    proof (cases "t = s")
      case True
      then show ?thesis using il.push_back [OF D(1) [OF s], of n] n un s by (auto simp: free_node_of_def ring_free_def)
    next
      case False
      have "list_rep (list_PushBack s n h) t (L t)"
        using t s False n D(2) [OF s] D(2) [OF t] D(3) [OF s t]
        by (intro list_rep_frame [OF D(1) [OF t]] same) (auto simp: ring_free_def)
      then show ?thesis using False by simp
    qed
    show "set ((L(s := L s @ [n])) t) \<inter> S = {}"
      using D(2) [OF t] n s by (auto simp: ring_free_def)
    show "set ((L(s := L s @ [n])) t) \<inter> set ((L(s := L s @ [n])) u) = {}" if "u \<in> S" "t \<noteq> u" for u
      using D(3) [OF t that(1)] that n t by (auto simp: ring_free_def)
  }
  fix q assume q: "ring_free S (L(s := L s @ [n])) q"
  then have "ring_free S L q" "q \<notin> set (n # s # L s)" using s by (auto simp: ring_free_def split: if_splits)
  then show "unlinked (list_PushBack s n h) q" using unlinked_frame [OF D(4)] same by blast
qed

lemma rings_Unlink_free:
  assumes r: "rings h S L" and n: "ring_free S L n"
  shows "rings (Unlink n h) S L"
proof -
  have "unlinked h n" by (rule ringsD(4) [OF r n])
  then have "Unlink n h = h" by (simp add: unlinked_def link_defs fun_upd_idem)
  then show ?thesis using r by simp
qed

lemma rings_first:
  assumes "rings h S L" and "s \<in> S"
  shows "m_next h s = (case L s of [] \<Rightarrow> s | x # _ \<Rightarrow> x)" and "list_IsEmpty h s \<longleftrightarrow> L s = []"
proof -
  have rep: "list_rep h s (L s)" by (rule ringsD(1) [OF assms])
  then have "linked h s (L s) s" by (simp add: list_rep_def)
  from linked_first [OF this] show "m_next h s = (case L s of [] \<Rightarrow> s | x # _ \<Rightarrow> x)" by simp
  show "list_IsEmpty h s \<longleftrightarrow> L s = []" by (rule list_IsEmpty_rep [OF rep])
qed

lemma rings_next:
  assumes "rings h S L" and "s \<in> S" and "L s = as @ x # bs"
  shows "m_next h x = (case bs of [] \<Rightarrow> s | y # _ \<Rightarrow> y)"
  using ringsD(1) [OF assms(1,2)] assms(3) linked_first [of h x bs s] by (auto simp: list_rep_def linked_append)

lemma rings_PopFront:
  assumes "rings h S L" and "s \<in> S" and "L s = x # xs"
  shows "list_PopFront s h = (x, Unlink x h)" and "rings (Unlink x h) S (L(s := xs))"
proof -
  show "list_PopFront s h = (x, Unlink x h)"
    using ringsD(1) [OF assms(1,2)] assms(3) by (simp add: list_PopFront_rep)
  show "rings (Unlink x h) S (L(s := xs))" using rings_Unlink [OF assms(1,2), of x] assms(3) by simp
qed

lemma rings_linked:
  assumes "rings h S L" and "n \<notin> S"
  shows "node_IsLinked h n \<longleftrightarrow> \<not> ring_free S L n"
proof
  assume "node_IsLinked h n"
  then show "\<not> ring_free S L n" using ringsD(4) [OF assms(1), of n] by (auto simp: unlinked_def node_IsLinked_def)
next
  assume "\<not> ring_free S L n"
  then obtain s where s: "s \<in> S" "n \<in> set (L s)" using assms(2) by (auto simp: ring_free_def)
  then obtain as bs where "L s = as @ n # bs" by (auto dest: split_list)
  then have "m_next h n \<noteq> n" "distinct (L s)" "n \<noteq> s"
    using rings_next [OF assms(1) s(1)] ringsD(5) [OF assms(1) s(1)] s assms(2) by (auto split: list.splits)
  then show "node_IsLinked h n" by (simp add: node_IsLinked_def)
qed

lemma rings_count:
  assumes "rings h S L" and "s \<in> S"
  shows "list_GetCount h s = Some (length (L s))"
proof -
  have rep: "list_rep h s (L s)" by (rule ringsD(1) [OF assms])
  then show ?thesis using list_GetCount_from_linked [of h s "L s" s 0] by (simp add: list_GetCount_def list_rep_def)
qed

end
