(* ===== verification/Ring_Buffer.thy ===== *)
theory Ring_Buffer
  imports Queue_Contract
begin

text \<open>
  \<open>vp::util::RingBuffer\<close> (\<open>util_ringbuffer.hpp\<close>) and \<open>FixedRingBuffer\<close> (\<open>util_fixedringbuffer.hpp\<close>):
  queues of 64 bit elements in a ring, with unsigned 32 bit offsets.  A null array is the empty list,
  and the value 0 stands for no element, as in the code.  The two atomic rings
  of these files are not modelled.
\<close>

record ring_buffer =
  m_offset :: u32
  m_count :: u32
  m_max_count :: u32
  m_array :: "u64 list"

definition RingBuffer_construct :: ring_buffer where
  "RingBuffer_construct = \<lparr>m_offset = 0, m_count = 0, m_max_count = 0, m_array = []\<rparr>"

definition rb_Initialize :: "u64 list option \<Rightarrow> u32 \<Rightarrow> ring_buffer \<Rightarrow> ring_buffer result" where
  "rb_Initialize memory queue_count r =
     (if queue_count = 0 then Inr r
      else case memory of
          None \<Rightarrow> Inl Assert_Failed
        | Some xs \<Rightarrow> Inr (r\<lparr>m_array := xs, m_max_count := queue_count, m_offset := 0, m_count := 0\<rparr>))"

text \<open>\<open>Finalize\<close> frees the array but keeps the pointer.\<close>

definition rb_Finalize :: "ring_buffer \<Rightarrow> ring_buffer" where
  "rb_Finalize r = r\<lparr>m_offset := 0, m_count := 0, m_max_count := 0\<rparr>"

definition rb_index :: "u32 \<Rightarrow> ring_buffer \<Rightarrow> u64 result" where
  "rb_index index r =
     (let base_offset = m_offset r + index;
          adj_index = (if m_max_count r < base_offset then base_offset - m_max_count r else base_offset)
      in load (m_array r) (unat adj_index))"

text \<open>The iterators count from \<open>m_offset\<close> to \<open>m_max_count\<close> and read through \<open>operator[]\<close>.\<close>

definition rb_iterate :: "ring_buffer \<Rightarrow> u64 result list" where
  "rb_iterate r = map (\<lambda>i. rb_index (of_nat i) r) [unat (m_offset r)..<unat (m_max_count r)]"

definition rb_Insert :: "u64 \<Rightarrow> ring_buffer \<Rightarrow> ring_buffer result" where
  "rb_Insert value r =
     bind_result (vp_assert (m_count r < m_max_count r)) (\<lambda>_.
       let count = m_count r;
           r = r\<lparr>m_count := m_count r + 1\<rparr>;
           offset = m_offset r + count;
           size_offset = (if m_max_count r \<le> offset then m_max_count r else 0)
       in bind_result (store (m_array r) (unat (offset - size_offset)) value) (\<lambda>xs.
          Inr (r\<lparr>m_array := xs\<rparr>)))"

definition rb_RemoveFront :: "ring_buffer \<Rightarrow> (u64 \<times> ring_buffer) result" where
  "rb_RemoveFront r =
     (if m_count r = 0 then Inr (0, r)
      else
        let size_offset = (if m_max_count r \<le> m_offset r then m_max_count r else 0)
        in bind_result (load (m_array r) (unat (m_offset r - size_offset))) (\<lambda>ret.
           Inr (ret, if 0 < m_count r
             then r\<lparr>m_offset := (if m_offset r + 1 < m_max_count r then m_offset r + 1 else 0), m_count := m_count r - 1\<rparr>
             else r)))"

text \<open>\<open>memmove (p + dst, p + src, n)\<close> inside the array.\<close>

definition shift_elements :: "nat \<Rightarrow> nat \<Rightarrow> nat \<Rightarrow> 'a list \<Rightarrow> 'a list result" where
  "shift_elements dst src n xs =
     (if dst + n \<le> length xs \<and> src + n \<le> length xs
      then Inr (take dst xs @ take n (drop src xs) @ drop (dst + n) xs) else Inl Out_Of_Bounds)"

text \<open>\<open>Remove\<close> from the round \<open>i\<close> of its search on.\<close>

function rb_remove_from :: "u32 \<Rightarrow> u64 \<Rightarrow> ring_buffer \<Rightarrow> (u64 \<times> ring_buffer) result" where
  "rb_remove_from i iter r =
     (if i < m_count r
      then
        let base = i + m_offset r;
            adjust = (if m_max_count r < base then i - m_max_count r else i)
        in bind_result (load (m_array r) (unat adjust)) (\<lambda>e.
           if iter \<noteq> e then rb_remove_from (i + 1) iter r
           else
             let is_wrap = m_max_count r < m_count r + m_offset r \<and> m_offset r < adjust;
                 adj_count = (if is_wrap then m_max_count r - adjust - 1 else m_count r - adjust - 1)
             in bind_result (shift_elements (unat adjust) (unat adjust + 1) (unat adj_count) (m_array r)) (\<lambda>xs.
                bind_result (if is_wrap
                   then bind_result (load xs 0) (\<lambda>first.
                        bind_result (store xs (unat (m_max_count r - 1)) first) (\<lambda>xs.
                        let final_count = m_offset r + m_count r - m_max_count r - 1
                        in shift_elements 0 1 (unat final_count) xs))
                   else Inr xs) (\<lambda>xs.
                Inr (iter, r\<lparr>m_array := xs, m_count := m_count r - 1\<rparr>))))
      else Inl Assert_Failed)"
  by auto
termination
  by (relation "measure (\<lambda>(i, iter, r). unat (m_count r) - unat i)") (auto simp: unat_Suc_less word_less_nat_alt)

declare rb_remove_from.simps [simp del]

definition rb_Remove :: "u64 \<Rightarrow> ring_buffer \<Rightarrow> (u64 \<times> ring_buffer) result" where
  "rb_Remove iter r = rb_remove_from 0 iter r"

definition rb_Clear :: "ring_buffer \<Rightarrow> ring_buffer" where
  "rb_Clear r = r\<lparr>m_offset := 0, m_count := 0\<rparr>"

definition rb_GetUsedCount :: "ring_buffer \<Rightarrow> u32" where "rb_GetUsedCount r = m_count r"

section \<open>The fixed ring\<close>

text \<open>\<open>Size\<close> is the length of the array.\<close>

record fixed_ring_buffer =
  m_fixed_offset :: u32
  m_fixed_count :: u32
  m_fixed_array :: "u64 list"

abbreviation ring_size :: "fixed_ring_buffer \<Rightarrow> u32" where "ring_size r \<equiv> of_nat (length (m_fixed_array r))"

definition FixedRingBuffer_construct :: "u32 \<Rightarrow> fixed_ring_buffer" where
  "FixedRingBuffer_construct Size = \<lparr>m_fixed_offset = 0, m_fixed_count = 0, m_fixed_array = replicate (unat Size) 0\<rparr>"

definition frb_index :: "u32 \<Rightarrow> fixed_ring_buffer \<Rightarrow> u64 result" where
  "frb_index index r =
     (let base_offset = m_fixed_offset r + index;
          adj_index = (if ring_size r < base_offset then base_offset - ring_size r else base_offset)
      in load (m_fixed_array r) (unat adj_index))"

definition frb_iterate :: "fixed_ring_buffer \<Rightarrow> u64 result list" where
  "frb_iterate r = map (\<lambda>i. frb_index (of_nat i) r) [unat (m_fixed_offset r)..<unat (ring_size r)]"

definition frb_Insert :: "u64 \<Rightarrow> fixed_ring_buffer \<Rightarrow> fixed_ring_buffer result" where
  "frb_Insert pointer r =
     bind_result (vp_assert (m_fixed_count r < ring_size r)) (\<lambda>_.
       let count = m_fixed_count r;
           r = r\<lparr>m_fixed_count := m_fixed_count r + 1\<rparr>;
           offset = m_fixed_offset r + count;
           size_offset = (if ring_size r \<le> offset then ring_size r else 0)
       in bind_result (store (m_fixed_array r) (unat (offset - size_offset)) pointer) (\<lambda>xs.
          Inr (r\<lparr>m_fixed_array := xs\<rparr>)))"

definition frb_RemoveFront :: "fixed_ring_buffer \<Rightarrow> (u64 \<times> fixed_ring_buffer) result" where
  "frb_RemoveFront r =
     (if m_fixed_count r = 0 then Inr (0, r)
      else
        let size_offset = (if ring_size r \<le> m_fixed_offset r then ring_size r else 0)
        in bind_result (load (m_fixed_array r) (unat (m_fixed_offset r - size_offset))) (\<lambda>ret.
           Inr (ret, if 0 < m_fixed_count r
             then r\<lparr>m_fixed_offset := (if m_fixed_offset r + 1 < ring_size r then m_fixed_offset r + 1 else 0),
                    m_fixed_count := m_fixed_count r - 1\<rparr>
             else r)))"

function frb_remove_from :: "u32 \<Rightarrow> u64 \<Rightarrow> fixed_ring_buffer \<Rightarrow> (u64 \<times> fixed_ring_buffer) result" where
  "frb_remove_from i iter r =
     (if i < m_fixed_count r
      then
        let base = i + m_fixed_offset r;
            adjust = (if ring_size r < base then i - ring_size r else i)
        in bind_result (load (m_fixed_array r) (unat adjust)) (\<lambda>e.
           if iter \<noteq> e then frb_remove_from (i + 1) iter r
           else
             let is_wrap = ring_size r < m_fixed_count r + m_fixed_offset r \<and> m_fixed_offset r < adjust;
                 adj_count = (if is_wrap then ring_size r - adjust - 1 else m_fixed_count r - adjust - 1)
             in bind_result (shift_elements (unat adjust) (unat adjust + 1) (unat adj_count) (m_fixed_array r)) (\<lambda>xs.
                bind_result (if is_wrap
                   then bind_result (load xs 0) (\<lambda>first.
                        bind_result (store xs (unat (ring_size r - 1)) first) (\<lambda>xs.
                        let final_count = m_fixed_offset r + m_fixed_count r - ring_size r - 1
                        in shift_elements 0 1 (unat final_count) xs))
                   else Inr xs) (\<lambda>xs.
                Inr (iter, r\<lparr>m_fixed_array := xs, m_fixed_count := m_fixed_count r - 1\<rparr>))))
      else Inl Assert_Failed)"
  by auto
termination
  by (relation "measure (\<lambda>(i, iter, r). unat (m_fixed_count r) - unat i)") (auto simp: unat_Suc_less word_less_nat_alt)

declare frb_remove_from.simps [simp del]

definition frb_Remove :: "u64 \<Rightarrow> fixed_ring_buffer \<Rightarrow> (u64 \<times> fixed_ring_buffer) result" where
  "frb_Remove iter r = frb_remove_from 0 iter r"

definition frb_Clear :: "fixed_ring_buffer \<Rightarrow> fixed_ring_buffer" where
  "frb_Clear r = r\<lparr>m_fixed_offset := 0, m_fixed_count := 0\<rparr>"

definition frb_GetUsedCount :: "fixed_ring_buffer \<Rightarrow> u32" where "frb_GetUsedCount r = m_fixed_count r"

section \<open>The contents\<close>

definition rb_ok :: "ring_buffer \<Rightarrow> bool" where
  "rb_ok r \<longleftrightarrow> length (m_array r) = unat (m_max_count r) \<and> unat (m_max_count r) \<le> 2 ^ 31 \<and>
     m_offset r < m_max_count r \<and> m_count r \<le> m_max_count r"

definition rb_items :: "ring_buffer \<Rightarrow> u64 list" where
  "rb_items r = ring_list (m_array r) (unat (m_max_count r)) (unat (m_offset r)) (unat (m_count r))"

text \<open>A fixed ring is a ring whose maximum is its size.\<close>

definition ring_of :: "fixed_ring_buffer \<Rightarrow> ring_buffer" where
  "ring_of r = \<lparr>m_offset = m_fixed_offset r, m_count = m_fixed_count r, m_max_count = ring_size r, m_array = m_fixed_array r\<rparr>"

definition frb_ok :: "fixed_ring_buffer \<Rightarrow> bool" where "frb_ok r = rb_ok (ring_of r)"
definition frb_items :: "fixed_ring_buffer \<Rightarrow> u64 list" where "frb_items r = rb_items (ring_of r)"

lemma ring_of_Insert: "result_map ring_of (frb_Insert v r) = rb_Insert v (ring_of r)"
  by (simp add: frb_Insert_def rb_Insert_def ring_of_def Let_def store_def bind_vp_assert)

lemma ring_of_RemoveFront:
  "result_map (\<lambda>(v, r). (v, ring_of r)) (frb_RemoveFront r) = rb_RemoveFront (ring_of r)"
  by (simp add: frb_RemoveFront_def rb_RemoveFront_def ring_of_def Let_def load_def)

section \<open>Insertion and removal at the front\<close>

lemma rb_okD:
  assumes "rb_ok r"
  shows "length (m_array r) = unat (m_max_count r)" "unat (m_offset r) < unat (m_max_count r)"
    "unat (m_count r) \<le> unat (m_max_count r)" "unat (m_offset r) + unat (m_count r) < 4294967296"
    "unat (m_max_count r) \<le> 2147483648"
  using assms by (auto simp: rb_ok_def word_less_nat_alt word_le_nat_alt)

lemma rb_Insert_room:
  assumes "rb_ok r" and "m_count r < m_max_count r"
  shows "\<exists>r'. rb_Insert v r = Inr r' \<and> rb_ok r' \<and> rb_items r' = rb_items r @ [v] \<and> m_max_count r' = m_max_count r"
proof -
  note D = rb_okD [OF assms(1)]
  let ?cap = "unat (m_max_count r)" and ?off = "unat (m_offset r)" and ?n = "unat (m_count r)"
  have n: "?n < ?cap" using assms(2) by (simp add: word_less_nat_alt)
  have o: "unat (m_offset r + m_count r) = ?off + ?n" using D(4) by (intro unat_add_nowrap) simp
  have i: "unat (m_offset r + m_count r - (if m_max_count r \<le> m_offset r + m_count r then m_max_count r else 0)) = (?off + ?n) mod ?cap"
    using ring_index_wrap [OF D(2) n] o by (simp add: word_le_nat_alt unat_sub_nowrap)
  have lt: "(?off + ?n) mod ?cap < length (m_array r)" using n D(1) by simp
  have c: "unat (m_count r + 1) = Suc ?n" by (rule unat_Suc_less [OF assms(2)])
  have "rb_Insert v r = Inr (r\<lparr>m_count := m_count r + 1, m_array := (m_array r)[(?off + ?n) mod ?cap := v]\<rparr>)"
    using assms(2) lt i by (cases "m_max_count r \<le> m_offset r + m_count r") (simp_all add: rb_Insert_def Let_def)
  then show ?thesis
    using assms(1) c ring_push_back [OF D(1) n, of ?off v] n by (simp add: rb_items_def rb_ok_def word_le_nat_alt)
qed

lemma rb_RemoveFront_spec:
  assumes "rb_ok r"
  shows "\<exists>r'. rb_RemoveFront r = Inr (case rb_items r of [] \<Rightarrow> 0 | v # _ \<Rightarrow> v, r') \<and> rb_ok r' \<and>
    rb_items r' = tl (rb_items r) \<and> m_max_count r' = m_max_count r"
proof (cases "m_count r = 0")
  case True
  then show ?thesis using assms by (simp add: rb_RemoveFront_def rb_items_def)
next
  case False
  note D = rb_okD [OF assms]
  let ?cap = "unat (m_max_count r)" and ?off = "unat (m_offset r)" and ?n = "unat (m_count r)"
  have n: "0 < ?n" using False by (simp add: unat_gt_0)
  have lt: "m_offset r < m_max_count r" using assms by (simp add: rb_ok_def)
  have off': "unat (if m_offset r + 1 < m_max_count r then m_offset r + 1 else 0) = Suc ?off mod ?cap"
    using unat_Suc_less [OF lt] D(2) by (auto simp: word_less_nat_alt mod_if)
  have c: "unat (m_count r - 1) = ?n - 1" using n by (intro unat_sub_nowrap [THEN trans]) auto
  have v: "\<not> m_max_count r \<le> m_offset r" "0 < m_count r" using D(2) n by (simp_all add: word_less_nat_alt word_le_nat_alt)
  show ?thesis
    using assms D False v off' c lt ring_pop_front [OF D(2) n, of "m_array r"]
    by (simp add: rb_RemoveFront_def Let_def rb_items_def rb_ok_def word_less_nat_alt word_le_nat_alt)
qed

lemma rb_length: "rb_ok r \<Longrightarrow> length (rb_items r) = unat (m_count r)"
  by (simp add: rb_items_def)

section \<open>The contract\<close>

text \<open>\<open>Insert\<close> asserts that there is room and \<open>RemoveFront\<close> answers 0 for an empty ring.\<close>

definition rb_try_insert :: "u64 \<Rightarrow> ring_buffer \<Rightarrow> (bool \<times> ring_buffer) result" where
  "rb_try_insert v r =
     (if m_count r < m_max_count r then bind_result (rb_Insert v r) (\<lambda>r. Inr (True, r)) else Inr (False, r))"

definition rb_try_remove :: "ring_buffer \<Rightarrow> (u64 option \<times> ring_buffer) result" where
  "rb_try_remove r =
     bind_result (rb_RemoveFront r) (\<lambda>(v, r'). Inr (if m_count r = 0 then None else Some v, r'))"

interpretation rb: bounded_fifo rb_ok rb_items "\<lambda>r. unat (m_max_count r)" rb_try_insert rb_try_remove
proof unfold_locales
  fix r m assume ok: "rb_ok r"
  have "m_count r < m_max_count r \<longleftrightarrow> length (rb_items r) < unat (m_max_count r)"
    using rb_length [OF ok] by (simp add: word_less_nat_alt)
  then show "\<exists>r'. rb_try_insert m r = Inr (length (rb_items r) < unat (m_max_count r), r') \<and> rb_ok r' \<and>
      unat (m_max_count r') = unat (m_max_count r) \<and>
      rb_items r' = (if length (rb_items r) < unat (m_max_count r) then rb_items r @ [m] else rb_items r)"
    using rb_Insert_room [OF ok, of m] ok by (auto simp: rb_try_insert_def)
next
  fix r assume ok: "rb_ok r"
  obtain r' where r': "rb_RemoveFront r = Inr (case rb_items r of [] \<Rightarrow> 0 | v # _ \<Rightarrow> v, r')" "rb_ok r'"
    "rb_items r' = tl (rb_items r)" "m_max_count r' = m_max_count r" using rb_RemoveFront_spec [OF ok] by blast
  moreover have "m_count r = 0 \<longleftrightarrow> rb_items r = []" using rb_length [OF ok] by (auto simp: word_eq_unat_iff)
  ultimately show "\<exists>r'. rb_try_remove r = Inr (case rb_items r of [] \<Rightarrow> None | m # _ \<Rightarrow> Some m, r') \<and> rb_ok r' \<and>
      unat (m_max_count r') = unat (m_max_count r) \<and> rb_items r' = tl (rb_items r)"
    by (cases "rb_items r") (auto simp: rb_try_remove_def)
qed

section \<open>Removal of an element\<close>

lemma shift_down:
  assumes "j < n" and "n \<le> length xs"
  shows "\<exists>ys. shift_elements j (Suc j) (n - j - 1) xs = Inr ys \<and> length ys = length xs \<and>
    take (n - 1) ys = take j (take n xs) @ drop (Suc j) (take n xs)"
proof -
  let ?l = "take j xs @ take (n - j - 1) (drop (Suc j) xs)"
  have "length ?l = n - 1" using assms by simp
  then have "take (n - 1) (?l @ drop (j + (n - j - 1)) xs) = ?l" by (metis append_eq_conv_conj)
  moreover have "take j (take n xs) = take j xs" using assms(1) by (simp add: min_absorb1)
  ultimately show ?thesis using assms by (simp add: shift_elements_def drop_take)
qed

lemma remove1_nth:
  "j < length xs \<Longrightarrow> xs ! j = x \<Longrightarrow> x \<notin> set (take j xs) \<Longrightarrow> remove1 x xs = take j xs @ drop (Suc j) xs"
  by (subst (1) id_take_nth_drop [of j]) (auto simp: remove1_append)

lemma rb_items_aligned:
  assumes "rb_ok r" and "m_offset r = 0"
  shows "rb_items r = take (unat (m_count r)) (m_array r)"
proof (rule nth_equalityI)
  fix i assume "i < length (rb_items r)"
  then have "i < unat (m_count r)" by (simp add: rb_items_def)
  then show "rb_items r ! i = take (unat (m_count r)) (m_array r) ! i"
    using rb_okD [OF assms(1)] assms(2) by (simp add: rb_items_def ring_list_def)
qed (use rb_okD [OF assms(1)] in \<open>simp add: rb_items_def\<close>)

lemma rb_remove_aligned:
  assumes "rb_ok r" and "m_offset r = 0" and "unat i \<le> unat (m_count r)" and "v \<notin> set (take (unat i) (rb_items r))"
  shows "if v \<in> set (rb_items r)
    then \<exists>r'. rb_remove_from i v r = Inr (v, r') \<and> rb_ok r' \<and> m_offset r' = 0 \<and> rb_items r' = remove1 v (rb_items r)
    else rb_remove_from i v r = Inl Assert_Failed"
  using assms(3,4)
proof (induction "unat (m_count r) - unat i" arbitrary: i)
  case 0
  then have "\<not> i < m_count r" "take (unat i) (rb_items r) = rb_items r"
    using rb_length [OF assms(1)] by (simp_all add: word_less_nat_alt)
  then show ?case using 0 by (simp add: rb_remove_from.simps)
next
  case (Suc d)
  note D = rb_okD [OF assms(1)] and I = rb_items_aligned [OF assms(1,2)]
  have ic: "i < m_count r" "unat i < unat (m_count r)" using Suc.hyps(2) by (simp_all add: word_less_nat_alt)
  have e: "rb_items r ! unat i = m_array r ! unat i" "unat i < length (m_array r)" "unat i < length (rb_items r)"
    using ic(2) I D by (simp_all add: rb_length [OF assms(1)])
  have nm: "\<not> m_max_count r < i" using ic(2) D(3) by (simp add: word_less_nat_alt)
  have nw: "\<not> m_max_count r < m_count r" using D(3) by (simp add: word_less_nat_alt)
  show ?case
  proof (cases "m_array r ! unat i = v")
    case False
    have S: "unat (i + 1) = Suc (unat i)" by (rule unat_Suc_less [OF ic(1)])
    have "v \<notin> set (take (unat (i + 1)) (rb_items r))" using Suc.prems(2) False e S by (simp add: take_Suc_conv_app_nth)
    moreover have "rb_remove_from i v r = rb_remove_from (i + 1) v r"
      using False ic(1) nm e(2) assms(2) by (subst rb_remove_from.simps) (simp add: Let_def)
    ultimately show ?thesis using Suc.hyps(1) [of "i + 1"] Suc.hyps(2) S ic(2) by simp
  next
    case True
    have ac: "unat (m_count r - i - 1) = unat (m_count r) - unat i - 1"
    proof -
      have "unat (m_count r - i) = unat (m_count r) - unat i" using ic(2) by (intro unat_sub_nowrap) simp
      then show ?thesis using ic(2) by (subst unat_sub_nowrap) simp_all
    qed
    obtain ys where ys: "shift_elements (unat i) (Suc (unat i)) (unat (m_count r) - unat i - 1) (m_array r) = Inr ys"
      "length ys = length (m_array r)" "take (unat (m_count r) - 1) ys = take (unat i) (rb_items r) @ drop (Suc (unat i)) (rb_items r)"
      using shift_down [OF ic(2), of "m_array r"] D I by auto
    let ?r = "r\<lparr>m_array := ys, m_count := m_count r - 1\<rparr>"
    have "rb_remove_from i v r = Inr (v, ?r)"
      using True ic(1) nm nw e(2) assms(2) ys(1) ac by (subst rb_remove_from.simps) (simp add: Let_def)
    moreover have c: "unat (m_count r - 1) = unat (m_count r) - 1" using ic(2) by (intro unat_sub_nowrap [THEN trans]) auto
    moreover have ok: "rb_ok ?r" using assms(1) ys(2) c D by (simp add: rb_ok_def word_le_nat_alt)
    moreover have "rb_items ?r = remove1 v (rb_items r)"
      using rb_items_aligned [OF ok] assms(2) c ys(3) remove1_nth [OF e(3), of v] e(1) True Suc.prems(2) by simp
    moreover have "v \<in> set (rb_items r)" using e(1,3) True by (metis nth_mem)
    ultimately show ?thesis using assms(2) by auto
  qed
qed

section \<open>Properties\<close>

text \<open>
  a ring buffer is a queue: inserted elements come out in their order, at any offset and across the
  end of the array, \<open>Insert\<close> fails its assertion exactly when the ring is full and \<open>RemoveFront\<close> of an
  empty ring answers 0.  The fixed ring runs the same steps on its array.
\<close>

theorem ring_buffer_fifo:
  assumes "rb_ok r" and "length (rb_items r) + length xs \<le> unat (m_max_count r)"
  shows "\<exists>r' r''. send_all rb_try_insert xs r = Inr r' \<and> rb_items r' = rb_items r @ xs \<and>
    receive_many rb_try_remove (length (rb_items r @ xs)) r' = Inr (map Some (rb_items r @ xs), r'') \<and>
    rb_RemoveFront r'' = Inr (0, r'') \<and>
    (length (rb_items r') = unat (m_max_count r) \<longrightarrow> rb_Insert v r' = Inl Assert_Failed) \<and>
    result_map ring_of (frb_Insert v f) = rb_Insert v (ring_of f) \<and>
    result_map (\<lambda>(v, f). (v, ring_of f)) (frb_RemoveFront f) = rb_RemoveFront (ring_of f)"
proof -
  obtain r' where r': "send_all rb_try_insert xs r = Inr r'" "rb_ok r'" "rb_items r' = rb_items r @ xs"
    "unat (m_max_count r') = unat (m_max_count r)" using rb.send_all_fifo [OF assms] by blast
  obtain r'' where r'': "receive_many rb_try_remove (length (rb_items r')) r' = Inr (map Some (rb_items r'), r'')"
    "rb_ok r''" "rb_items r'' = []" using rb.receive_many_fifo [OF r'(2), of "length (rb_items r')"] by auto
  have "m_count r'' = 0" using rb_length [OF r''(2)] r''(3) by (simp add: word_eq_unat_iff)
  then have "rb_RemoveFront r'' = Inr (0, r'')" by (simp add: rb_RemoveFront_def)
  moreover have "rb_Insert v r' = Inl Assert_Failed" if "length (rb_items r') = unat (m_max_count r)"
    using that rb_length [OF r'(2)] r'(4) by (simp add: rb_Insert_def bind_vp_assert word_less_nat_alt)
  ultimately show ?thesis using r'(1,3) r''(1) ring_of_Insert ring_of_RemoveFront
    by - (rule exI [of _ r'], rule exI [of _ r''], simp)
qed

theorem ring_buffer_fifo_witness:
  "\<exists>r' r''. send_all rb_try_insert [7, 8] \<lparr>m_offset = 2, m_count = 1, m_max_count = 3, m_array = [0, 0, 5]\<rparr> = Inr r' \<and>
     receive_many rb_try_remove 3 r' = Inr ([Some 5, Some 7, Some 8], r'') \<and> rb_Insert 9 r' = Inl Assert_Failed"
proof -
  let ?r = "\<lparr>m_offset = 2, m_count = 1, m_max_count = 3, m_array = [0, 0, 5]\<rparr>"
  have k: "rb_ok ?r" "rb_items ?r = [5]" "unat (m_max_count ?r) = 3"
    by (simp_all add: rb_ok_def rb_items_def ring_list_def)
  then have "length (rb_items ?r) + length [7, 8 :: u64] \<le> unat (m_max_count ?r)" by simp
  from ring_buffer_fifo [OF k(1) this, of 9] obtain r' r'' where "send_all rb_try_insert [7, 8] ?r = Inr r'"
    "rb_items r' = rb_items ?r @ [7, 8]" "receive_many rb_try_remove (length (rb_items ?r @ [7, 8])) r' = Inr (map Some (rb_items ?r @ [7, 8]), r'')"
    "length (rb_items r') = unat (m_max_count ?r) \<longrightarrow> rb_Insert 9 r' = Inl Assert_Failed" by blast
  moreover have "length (rb_items ?r @ [7, 8]) = 3" "map Some (rb_items ?r @ [7, 8]) = [Some 5, Some 7, Some 8]"
    using k(2) by simp_all
  ultimately show ?thesis using k(3) by metis
qed

text \<open>
  \<open>Remove\<close> of an element takes its first occurrence out of a ring whose first element is at the start
  of the array, and fails its assertion when the element is not there.  In a ring with another offset it
  searches the wrong part of the array: there is one that holds an element \<open>Remove\<close> does not find.
\<close>

theorem ring_buffer_remove:
  assumes "rb_ok r"
  shows "(m_offset r = 0 \<and> v \<in> set (rb_items r) \<longrightarrow>
      (\<exists>r'. rb_Remove v r = Inr (v, r') \<and> rb_ok r' \<and> rb_items r' = remove1 v (rb_items r))) \<and>
    (m_offset r = 0 \<and> v \<notin> set (rb_items r) \<longrightarrow> rb_Remove v r = Inl Assert_Failed) \<and>
    (\<exists>r v. rb_ok r \<and> rb_items r = [v] \<and> rb_Remove v r = Inl Assert_Failed)"
proof -
  let ?r = "\<lparr>m_offset = 1, m_count = 1, m_max_count = 2, m_array = [0, 5]\<rparr>"
  have "rb_ok ?r" "rb_items ?r = [5]" by (simp_all add: rb_ok_def rb_items_def ring_list_def)
  moreover have "rb_Remove 5 ?r = Inl Assert_Failed" by code_simp
  ultimately have "\<exists>r v. rb_ok r \<and> rb_items r = [v] \<and> rb_Remove v r = Inl Assert_Failed" by blast
  moreover have "v \<in> set (rb_items r) \<Longrightarrow> m_offset r = 0 \<Longrightarrow>
      \<exists>r'. rb_Remove v r = Inr (v, r') \<and> rb_ok r' \<and> rb_items r' = remove1 v (rb_items r)"
    "v \<notin> set (rb_items r) \<Longrightarrow> m_offset r = 0 \<Longrightarrow> rb_Remove v r = Inl Assert_Failed"
    using rb_remove_aligned [OF assms, of 0 v] unfolding rb_Remove_def by auto
  ultimately show ?thesis by blast
qed

theorem ring_buffer_remove_witness:
  "\<exists>r'. rb_Remove 7 \<lparr>m_offset = 0, m_count = 2, m_max_count = 2, m_array = [5, 7]\<rparr> = Inr (7, r') \<and> rb_items r' = [5]"
proof -
  let ?r = "\<lparr>m_offset = 0, m_count = 2, m_max_count = 2, m_array = [5, 7]\<rparr>"
  have "rb_ok ?r" "rb_items ?r = [5, 7]" by (simp_all add: rb_ok_def rb_items_def ring_list_def upt_rec)
  with ring_buffer_remove [of ?r 7] show ?thesis by auto
qed

end
