(* ===== verification/Priority_Queue.thy ===== *)
theory Priority_Queue
  imports Awn_Prelude
begin

text \<open>
  \<open>vp::util::PriorityQueue\<close> (\<open>util_priorityqueue.hpp\<close>) and \<open>FixedPriorityQueue\<close>
  (\<open>util_fixedpriorityqueue.hpp\<close>): a binary heap of pointers with the greatest key first.  The key of a
  node, a member of the object behind the pointer, is the parameter \<open>key\<close>.  The two classes have the
  same private operations, which work on the array; their indices are natural numbers here, which is
  what the code computes in \<open>u32\<close> while \<open>m_count\<close> is at most \<open>2 ^ 31\<close>.
\<close>

text \<open>The loop of \<open>InsertFixup\<close>: the array, \<open>low_pair\<close>, \<open>high_pair\<close> and \<open>i\<close>.\<close>

function insert_loop :: "('n \<Rightarrow> 'k::linorder) \<Rightarrow> 'n \<Rightarrow> 'n list \<Rightarrow> nat \<Rightarrow> nat \<Rightarrow> nat \<Rightarrow> (nat \<times> 'n list) result" where
  "insert_loop key pivot_node q low_pair high_pair i =
     bind_result (load q high_pair) (\<lambda>high.
       if key high < key pivot_node
       then bind_result (store q low_pair high) (\<lambda>q.
            let next_low = (i + 1) div 2 - 1
            in if next_low = 0 then Inr (next_low, q)
               else insert_loop key pivot_node q next_low ((i + 1) div 4 - 1) next_low)
       else Inr (low_pair, q))"
  by auto
termination
  by (relation "measure (\<lambda>(key, pivot, q, low, high, i). i)") auto

declare insert_loop.simps [simp del]

definition pq_InsertFixup :: "('n \<Rightarrow> 'k::linorder) \<Rightarrow> nat \<Rightarrow> nat \<Rightarrow> 'n list \<Rightarrow> (nat \<times> 'n list) result" where
  "pq_InsertFixup key m_count p_count q =
     bind_result (vp_assert (p_count < m_count)) (\<lambda>_.
       if p_count = 0 then Inr (p_count, q)
       else bind_result (load q p_count) (\<lambda>pivot_node.
            bind_result (insert_loop key pivot_node q p_count ((p_count + 1) div 2 - 1) p_count) (\<lambda>(low_pair, q).
            bind_result (store q low_pair pivot_node) (\<lambda>q. Inr (low_pair, q)))))"

text \<open>
  The loop of \<open>RemoveFixup\<close>.  Its indices are always \<open>l_i = (iter << 1) | 1\<close> and
  \<open>h_i = (iter << 1) + 2\<close>, at the start (\<open>start_l\<close>, \<open>start_h\<close>) and in every round; \<open>high_pair\<close> is null
  beyond the count.
\<close>

definition load_high :: "nat \<Rightarrow> 'n list \<Rightarrow> nat \<Rightarrow> 'n option result" where
  "load_high m_count q h_i = (if h_i < m_count then bind_result (load q h_i) (\<lambda>x. Inr (Some x)) else Inr None)"

function remove_loop :: "('n \<Rightarrow> 'k::linorder) \<Rightarrow> nat \<Rightarrow> 'n \<Rightarrow> 'n list \<Rightarrow> nat \<Rightarrow> (nat \<times> 'n list) result" where
  "remove_loop key m_count pivot_node q iter =
     (let l_i = 2 * iter + 1; h_i = 2 * iter + 2
      in if m_count \<le> l_i then Inr (iter, q)
         else
           bind_result (load q l_i) (\<lambda>low_pair.
           bind_result (load_high m_count q h_i) (\<lambda>high_pair.
             if key pivot_node < key low_pair \<or> (case high_pair of None \<Rightarrow> False | Some h \<Rightarrow> key pivot_node < key h)
             then
               let (next, h_i) = (case high_pair of None \<Rightarrow> (low_pair, l_i)
                     | Some h \<Rightarrow> if key h \<le> key low_pair then (low_pair, l_i) else (h, h_i))
               in bind_result (store q iter next) (\<lambda>q. remove_loop key m_count pivot_node q h_i)
             else Inr (iter, q))))"
  by auto
termination
  by (relation "measure (\<lambda>(key, n, pivot, q, iter). n - iter)") (auto split: option.splits if_splits)

declare remove_loop.simps [simp del]

definition pq_RemoveFixup :: "('n \<Rightarrow> 'k::linorder) \<Rightarrow> nat \<Rightarrow> nat \<Rightarrow> 'n list \<Rightarrow> (nat \<times> 'n list) result" where
  "pq_RemoveFixup key m_count p_count q =
     bind_result (vp_assert (p_count < m_count)) (\<lambda>_.
       if m_count \<le> 2 * p_count + 1 then Inr (p_count, q)
       else bind_result (load q p_count) (\<lambda>pivot_node.
            bind_result (remove_loop key m_count pivot_node q p_count) (\<lambda>(iter, q).
            bind_result (store q iter pivot_node) (\<lambda>q. Inr (iter, q)))))"

record 'n priority_queue =
  m_queue :: "'n list"
  m_max :: u32
  m_count :: u32

definition PriorityQueue_construct :: "'n priority_queue" where
  "PriorityQueue_construct = \<lparr>m_queue = [], m_max = 0, m_count = 0\<rparr>"

definition pq_Initialize :: "'n list option \<Rightarrow> u32 \<Rightarrow> 'n priority_queue \<Rightarrow> 'n priority_queue result" where
  "pq_Initialize memory max_count p =
     (case memory of None \<Rightarrow> Inl Assert_Failed
        | Some xs \<Rightarrow> Inr (p\<lparr>m_queue := xs, m_count := 0, m_max := max_count\<rparr>))"

definition pq_Finalize :: "'n priority_queue \<Rightarrow> 'n priority_queue" where
  "pq_Finalize p = p\<lparr>m_queue := [], m_count := 0, m_max := 0\<rparr>"

text \<open>A null \<open>new_node\<close> is \<open>None\<close>.\<close>

definition pq_Insert :: "('n \<Rightarrow> 'k::linorder) \<Rightarrow> 'n option \<Rightarrow> 'n priority_queue \<Rightarrow> 'n priority_queue result" where
  "pq_Insert key new_node p =
     bind_result (vp_assert (m_count p < m_max p \<and> new_node \<noteq> None)) (\<lambda>_.
     bind_result (store (m_queue p) (unat (m_count p)) (the new_node)) (\<lambda>q.
       let last_count = m_count p;
           p = p\<lparr>m_queue := q, m_count := m_count p + 1\<rparr>
       in bind_result (pq_InsertFixup key (unat (m_count p)) (unat last_count) (m_queue p)) (\<lambda>(_, q).
          Inr (p\<lparr>m_queue := q\<rparr>))))"

definition pq_Peek :: "'n priority_queue \<Rightarrow> 'n result" where
  "pq_Peek p = load (m_queue p) 0"

definition pq_RemoveFront :: "('n \<Rightarrow> 'k::linorder) \<Rightarrow> 'n priority_queue \<Rightarrow> ('n \<times> 'n priority_queue) result" where
  "pq_RemoveFront key p =
     bind_result (vp_assert (0 < m_count p)) (\<lambda>_.
       let p = p\<lparr>m_count := m_count p - 1\<rparr>
       in bind_result (load (m_queue p) 0) (\<lambda>out_node.
          if m_count p \<noteq> 0
          then bind_result (load (m_queue p) (unat (m_count p))) (\<lambda>last.
               bind_result (store (m_queue p) 0 last) (\<lambda>q.
               bind_result (pq_RemoveFixup key (unat (m_count p)) 0 q) (\<lambda>(_, q).
               Inr (out_node, p\<lparr>m_queue := q\<rparr>))))
          else Inr (out_node, p)))"

text \<open>\<open>FindIterTo\<close> answers an index where the code has the address of the element.\<close>

fun find_iter_from :: "nat \<Rightarrow> nat \<Rightarrow> 'n \<Rightarrow> 'n list \<Rightarrow> nat result" where
  "find_iter_from 0 i node q = Inl Assert_Failed"
| "find_iter_from (Suc n) i node q =
     bind_result (load q i) (\<lambda>x. if x = node then Inr i else find_iter_from n (Suc i) node q)"

definition pq_FindIterTo :: "'n \<Rightarrow> 'n priority_queue \<Rightarrow> nat result" where
  "pq_FindIterTo node p = find_iter_from (unat (m_count p)) 0 node (m_queue p)"

definition pq_Remove :: "('n \<Rightarrow> 'k::linorder) \<Rightarrow> nat \<Rightarrow> 'n priority_queue \<Rightarrow> 'n priority_queue result" where
  "pq_Remove key iter p =
     bind_result (vp_assert (iter < unat (m_count p))) (\<lambda>_.
       let p = p\<lparr>m_count := m_count p - 1\<rparr>
       in if m_count p = 0 \<or> unat (m_count p) = iter then Inr p
          else
            bind_result (load (m_queue p) (unat (m_count p))) (\<lambda>last.
            bind_result (store (m_queue p) iter last) (\<lambda>q.
            bind_result (pq_InsertFixup key (unat (m_count p)) iter q) (\<lambda>(insert_location, q).
              if insert_location \<noteq> iter then Inr (p\<lparr>m_queue := q\<rparr>)
              else bind_result (pq_RemoveFixup key (unat (m_count p)) iter q) (\<lambda>(_, q). Inr (p\<lparr>m_queue := q\<rparr>))))))"

definition pq_Clear :: "'n priority_queue \<Rightarrow> 'n priority_queue" where "pq_Clear p = p\<lparr>m_count := 0\<rparr>"
definition pq_GetUsedCount :: "'n priority_queue \<Rightarrow> u32" where "pq_GetUsedCount p = m_count p"

section \<open>The fixed queue\<close>

record 'n fixed_priority_queue =
  m_fixed_count :: u32
  m_fixed_queue :: "'n list"

text \<open>Its fixups are those of \<open>PriorityQueue\<close>, word for word.\<close>

definition fpq_InsertFixup :: "('n \<Rightarrow> 'k::linorder) \<Rightarrow> nat \<Rightarrow> nat \<Rightarrow> 'n list \<Rightarrow> (nat \<times> 'n list) result" where
  "fpq_InsertFixup = pq_InsertFixup"

definition fpq_RemoveFixup :: "('n \<Rightarrow> 'k::linorder) \<Rightarrow> nat \<Rightarrow> nat \<Rightarrow> 'n list \<Rightarrow> (nat \<times> 'n list) result" where
  "fpq_RemoveFixup = pq_RemoveFixup"

definition FixedPriorityQueue_construct :: "'n \<Rightarrow> nat \<Rightarrow> 'n fixed_priority_queue" where
  "FixedPriorityQueue_construct null Size = \<lparr>m_fixed_count = 0, m_fixed_queue = replicate Size null\<rparr>"

definition fpq_Insert :: "('n \<Rightarrow> 'k::linorder) \<Rightarrow> 'n option \<Rightarrow> 'n fixed_priority_queue \<Rightarrow> 'n fixed_priority_queue result" where
  "fpq_Insert key new_node p =
     bind_result (vp_assert (unat (m_fixed_count p) < length (m_fixed_queue p) \<and> new_node \<noteq> None)) (\<lambda>_.
     bind_result (store (m_fixed_queue p) (unat (m_fixed_count p)) (the new_node)) (\<lambda>q.
       let last_count = m_fixed_count p;
           p = p\<lparr>m_fixed_queue := q, m_fixed_count := m_fixed_count p + 1\<rparr>
       in bind_result (fpq_InsertFixup key (unat (m_fixed_count p)) (unat last_count) (m_fixed_queue p)) (\<lambda>(_, q).
          Inr (p\<lparr>m_fixed_queue := q\<rparr>))))"

definition fpq_Peek :: "'n fixed_priority_queue \<Rightarrow> 'n result" where
  "fpq_Peek p = load (m_fixed_queue p) 0"

definition fpq_RemoveFront :: "('n \<Rightarrow> 'k::linorder) \<Rightarrow> 'n fixed_priority_queue \<Rightarrow> ('n \<times> 'n fixed_priority_queue) result" where
  "fpq_RemoveFront key p =
     bind_result (vp_assert (0 < m_fixed_count p)) (\<lambda>_.
       let p = p\<lparr>m_fixed_count := m_fixed_count p - 1\<rparr>
       in bind_result (load (m_fixed_queue p) 0) (\<lambda>out_node.
          if m_fixed_count p \<noteq> 0
          then bind_result (load (m_fixed_queue p) (unat (m_fixed_count p))) (\<lambda>last.
               bind_result (store (m_fixed_queue p) 0 last) (\<lambda>q.
               bind_result (fpq_RemoveFixup key (unat (m_fixed_count p)) 0 q) (\<lambda>(_, q).
               Inr (out_node, p\<lparr>m_fixed_queue := q\<rparr>))))
          else Inr (out_node, p)))"

definition fpq_FindIterTo :: "'n \<Rightarrow> 'n fixed_priority_queue \<Rightarrow> nat result" where
  "fpq_FindIterTo node p = find_iter_from (unat (m_fixed_count p)) 0 node (m_fixed_queue p)"

definition fpq_Remove :: "('n \<Rightarrow> 'k::linorder) \<Rightarrow> nat \<Rightarrow> 'n fixed_priority_queue \<Rightarrow> 'n fixed_priority_queue result" where
  "fpq_Remove key iter p =
     bind_result (vp_assert (iter < unat (m_fixed_count p))) (\<lambda>_.
       let p = p\<lparr>m_fixed_count := m_fixed_count p - 1\<rparr>
       in if m_fixed_count p = 0 \<or> unat (m_fixed_count p) = iter then Inr p
          else
            bind_result (load (m_fixed_queue p) (unat (m_fixed_count p))) (\<lambda>last.
            bind_result (store (m_fixed_queue p) iter last) (\<lambda>q.
            bind_result (fpq_InsertFixup key (unat (m_fixed_count p)) iter q) (\<lambda>(insert_location, q).
              if insert_location \<noteq> iter then Inr (p\<lparr>m_fixed_queue := q\<rparr>)
              else bind_result (fpq_RemoveFixup key (unat (m_fixed_count p)) iter q) (\<lambda>(_, q). Inr (p\<lparr>m_fixed_queue := q\<rparr>))))))"

definition fpq_Clear :: "'n fixed_priority_queue \<Rightarrow> 'n fixed_priority_queue" where "fpq_Clear p = p\<lparr>m_fixed_count := 0\<rparr>"
definition fpq_GetUsedCount :: "'n fixed_priority_queue \<Rightarrow> u32" where "fpq_GetUsedCount p = m_fixed_count p"

section \<open>The heap order\<close>

definition parent :: "nat \<Rightarrow> nat" where "parent x = (x - 1) div 2"

definition heap :: "('n \<Rightarrow> 'k::linorder) \<Rightarrow> nat \<Rightarrow> 'n list \<Rightarrow> bool" where
  "heap key n q \<longleftrightarrow> (\<forall>x<n. 0 < x \<longrightarrow> key (q ! x) \<le> key (q ! parent x))"

text \<open>
  The order with a gap at \<open>i\<close>: the pairs that \<open>i\<close> takes part in are left out, but its children are not
  above its parent.  It is a heap once \<open>i\<close> is in order with its children and with its parent.
\<close>

definition gap_heap :: "('n \<Rightarrow> 'k::linorder) \<Rightarrow> nat \<Rightarrow> 'n list \<Rightarrow> nat \<Rightarrow> bool" where
  "gap_heap key n q i \<longleftrightarrow> (\<forall>x<n. 0 < x \<longrightarrow> x \<noteq> i \<longrightarrow>
     (if parent x = i then 0 < i \<longrightarrow> key (q ! x) \<le> key (q ! parent i) else key (q ! x) \<le> key (q ! parent x)))"

definition over_children :: "('n \<Rightarrow> 'k::linorder) \<Rightarrow> nat \<Rightarrow> 'n list \<Rightarrow> nat \<Rightarrow> bool" where
  "over_children key n q i \<longleftrightarrow> (\<forall>x<n. 0 < x \<longrightarrow> parent x = i \<longrightarrow> key (q ! x) \<le> key (q ! i))"

definition under_parent :: "('n \<Rightarrow> 'k::linorder) \<Rightarrow> 'n list \<Rightarrow> nat \<Rightarrow> bool" where
  "under_parent key q i \<longleftrightarrow> (0 < i \<longrightarrow> key (q ! i) \<le> key (q ! parent i))"

abbreviation swap :: "nat \<Rightarrow> nat \<Rightarrow> 'n list \<Rightarrow> 'n list" where "swap i j q \<equiv> q[i := q ! j, j := q ! i]"

lemma parent_less: "0 < x \<Longrightarrow> parent x < x"
  by (simp add: parent_def)

lemma parent_children: "0 < x \<Longrightarrow> parent x = i \<longleftrightarrow> x = 2 * i + 1 \<or> x = 2 * i + 2"
  by (auto simp: parent_def)

lemma heap_of_gap: "gap_heap key n q i \<Longrightarrow> over_children key n q i \<Longrightarrow> under_parent key q i \<Longrightarrow> heap key n q"
  unfolding heap_def gap_heap_def over_children_def under_parent_def by metis

lemma gap_of_heap:
  assumes "heap key n q"
  shows "gap_heap key n (q[i := v]) i"
  unfolding gap_heap_def
proof (intro allI impI)
  fix x assume x: "x < n" "0 < x" "x \<noteq> i"
  have o: "key (q ! x) \<le> key (q ! parent x)" using assms x by (simp add: heap_def)
  show "if parent x = i then 0 < i \<longrightarrow> key (q[i := v] ! x) \<le> key (q[i := v] ! parent i)
    else key (q[i := v] ! x) \<le> key (q[i := v] ! parent x)"
  proof (cases "parent x = i")
    case True
    have "key (q ! x) \<le> key (q ! parent i)" if "0 < i"
    proof -
      have "i < n" using True parent_less [OF x(2)] x(1) by simp
      then have "key (q ! i) \<le> key (q ! parent i)" using assms that by (simp add: heap_def)
      then show ?thesis using o True by simp
    qed
    moreover have "0 < i \<Longrightarrow> i \<noteq> parent i" using parent_less by (metis less_irrefl)
    ultimately show ?thesis using x True by (cases "i = 0") simp_all
  next
    case False
    then show ?thesis using o x by simp
  qed
qed

text \<open>One step of each loop moves the gap.\<close>

lemma swap_up:
  assumes g: "gap_heap key n q i" "over_children key n q i" and i: "0 < i" "i < n" "n \<le> length q"
    and lt: "key (q ! parent i) < key (q ! i)"
  shows "gap_heap key n (swap i (parent i) q) (parent i)" "over_children key n (swap i (parent i) q) (parent i)"
proof -
  let ?p = "parent i" and ?q = "swap i (parent i) q"
  have p: "?p < i" using parent_less [OF i(1)] .
  have at: "?q ! i = q ! ?p" "?q ! ?p = q ! i" "\<And>x. x \<noteq> i \<Longrightarrow> x \<noteq> ?p \<Longrightarrow> ?q ! x = q ! x"
    using i p by (simp_all add: nth_list_update)
  have up: "key (q ! ?p) \<le> key (q ! parent ?p)" if "0 < ?p" 
    using spec [OF g(1) [unfolded gap_heap_def], of ?p] that p i parent_less [OF that] by auto
  have sib: "key (q ! x) \<le> key (q ! ?p)" if "x < n" "0 < x" "parent x = ?p" "x \<noteq> i" for x
  proof -
    have "parent x \<noteq> i" using that p by simp
    then show ?thesis using g(1) that unfolding gap_heap_def by metis
  qed
  show "over_children key n ?q ?p" unfolding over_children_def
  proof (intro allI impI)
    fix x assume x: "x < n" "0 < x" "parent x = ?p"
    then have "x \<noteq> ?p" using parent_less [of x] by auto
    then show "key (?q ! x) \<le> key (?q ! ?p)" using at lt sib [OF x] by (cases "x = i") auto
  qed
  show "gap_heap key n ?q ?p" unfolding gap_heap_def
  proof (intro allI impI)
    fix x assume x: "x < n" "0 < x" "x \<noteq> ?p"
    have xp: "parent x < x" using parent_less [OF x(2)] .
    show "if parent x = ?p then 0 < ?p \<longrightarrow> key (?q ! x) \<le> key (?q ! parent ?p) else key (?q ! x) \<le> key (?q ! parent x)"
    proof (cases "parent x = ?p")
      case True
      have "key (?q ! x) \<le> key (?q ! parent ?p)" if "0 < ?p"
      proof -
        have pp: "parent ?p < ?p" using parent_less [OF that] .
        then have "?q ! parent ?p = q ! parent ?p" using at(3) p by simp
        then show ?thesis using up [OF that] sib [OF x(1,2) True] at x(3) by (cases "x = i") auto
      qed
      then show ?thesis using True by simp
    next
      case False
      then have xi: "x \<noteq> i" by auto
      show ?thesis
      proof (cases "parent x = i")
        case True
        then have "key (q ! x) \<le> key (q ! ?p)" using g(1) x xi i(1) by (auto simp: gap_heap_def)
        then show ?thesis using at True x(3) xi p by simp
      next
        case False
        then have "key (q ! x) \<le> key (q ! parent x)" using g(1) x xi by (auto simp: gap_heap_def)
        then show ?thesis using at False \<open>parent x \<noteq> ?p\<close> x(3) xi by simp
      qed
    qed
  qed
qed

lemma swap_down:
  assumes g: "gap_heap key n q i" "under_parent key q i" and c: "c < n" "0 < c" "parent c = i" "n \<le> length q"
    and lt: "key (q ! i) < key (q ! c)" and big: "\<forall>x<n. 0 < x \<longrightarrow> parent x = i \<longrightarrow> key (q ! x) \<le> key (q ! c)"
  shows "gap_heap key n (swap i c q) c" "under_parent key (swap i c q) c"
proof -
  let ?q = "swap i c q"
  have ic: "i < c" using parent_less [OF c(2)] c(3) by simp
  have at: "?q ! i = q ! c" "?q ! c = q ! i" "\<And>x. x \<noteq> i \<Longrightarrow> x \<noteq> c \<Longrightarrow> ?q ! x = q ! x"
    using ic c by (simp_all add: nth_list_update)
  show "under_parent key ?q c" using at lt c by (simp add: under_parent_def)
  show "gap_heap key n ?q c" unfolding gap_heap_def
  proof (intro allI impI)
    fix x assume x: "x < n" "0 < x" "x \<noteq> c"
    show "if parent x = c then 0 < c \<longrightarrow> key (?q ! x) \<le> key (?q ! parent c) else key (?q ! x) \<le> key (?q ! parent x)"
    proof (cases "parent x = c")
      case True
      then have "x \<noteq> i" using parent_less [OF x(2)] ic by auto
      then have "key (q ! x) \<le> key (q ! c)" using g(1) x True ic by (auto simp: gap_heap_def)
      then show ?thesis using True at c(3) x(3) \<open>x \<noteq> i\<close> by simp
    next
      case False
      show ?thesis
      proof (cases "x = i")
        case True
        then have "key (q ! c) \<le> key (q ! parent i)" using g(1) c x by (auto simp: gap_heap_def)
        moreover have "?q ! parent i = q ! parent i" using at(3) parent_less [of i] x True ic by simp
        ultimately show ?thesis using True False at by simp
      next
        case xi: False
        show ?thesis
        proof (cases "parent x = i")
          case True
          then show ?thesis using big x(1,2) at xi x(3) False by simp
        next
          case pi: False
          then have "key (q ! x) \<le> key (q ! parent x)" using g(1) x xi by (auto simp: gap_heap_def)
          then show ?thesis using at pi False x(3) xi by simp
        qed
      qed
    qed
  qed
qed

lemma mset_take_swap:
  assumes "i < n" and "j < n" and "n \<le> length q"
  shows "mset (take n (swap i j q)) = mset (take n q)"
proof -
  have "take n (swap i j q) = swap i j (take n q)" using assms by (simp add: take_update_swap)
  then show ?thesis using assms mset_swap [of j "take n q" i] by simp
qed

section \<open>The two loops\<close>

lemma insert_loop_spec:
  assumes "0 < i" and "i < n" and "n \<le> length q"
    and "gap_heap key n (q[i := v]) i" and "over_children key n (q[i := v]) i"
  shows "\<exists>l q'. insert_loop key v q i (parent i) i = Inr (l, q') \<and> l \<le> i \<and>
    (key (q ! parent i) < key v \<longrightarrow> l < i) \<and> length q' = length q \<and>
    heap key n (q'[l := v]) \<and> mset (take n (q'[l := v])) = mset (take n (q[i := v])) \<and>
    drop n q' = drop n q"
  using assms
proof (induction i arbitrary: q rule: less_induct)
  case (less i)
  let ?p = "parent i" and ?A = "q[i := v]"
  have p: "?p < i" "?p < length q" using parent_less [OF less.prems(1)] less.prems(2,3) by simp_all
  show ?case
  proof (cases "key (q ! ?p) < key v")
    case False
    have "insert_loop key v q i ?p i = Inr (i, q)" using False p by (simp add: insert_loop.simps)
    moreover have "heap key n ?A"
      using False p less.prems(2,3) heap_of_gap [OF less.prems(4,5)] by (simp add: under_parent_def)
    ultimately show ?thesis using False by (intro exI [of _ i] exI [of _ q]) simp
  next
    case True
    let ?q = "q[i := q ! ?p]"
    have sw: "swap i ?p ?A = ?q[?p := v]" using p less.prems(2,3) by (simp add: list_update_swap)
    have lt: "key (?A ! ?p) < key (?A ! i)" using True p less.prems by simp
    have g: "gap_heap key n (?q[?p := v]) ?p" "over_children key n (?q[?p := v]) ?p"
      using swap_up [OF less.prems(4,5,1,2) _ lt] less.prems(3) unfolding sw by simp_all
    have ms: "mset (take n (?q[?p := v])) = mset (take n ?A)"
      using mset_take_swap [of i n ?p ?A] p less.prems(2,3) unfolding sw by simp
    have nl: "(i + 1) div 2 - 1 = ?p" by (simp add: parent_def)
    have nh: "(i + 1) div 4 - 1 = parent ?p" by (simp add: parent_def)
    have d: "drop n ?q = drop n q" using less.prems(2) by simp
    show ?thesis
    proof (cases "?p = 0")
      case True
      have "insert_loop key v q i ?p i = Inr (?p, ?q)"
        using \<open>key (q ! ?p) < key v\<close> True p less.prems(2,3) nl by (subst insert_loop.simps) (simp add: Let_def)
      moreover have "under_parent key (?q[?p := v]) ?p" using True by (simp add: under_parent_def)
      ultimately show ?thesis using heap_of_gap [OF g] ms d p less.prems(2,3) by (intro exI [of _ ?p] exI [of _ ?q]) simp
    next
      case False
      have "insert_loop key v q i ?p i = insert_loop key v ?q ?p (parent ?p) ?p"
        using \<open>key (q ! ?p) < key v\<close> False p less.prems(2,3) nl nh by (subst insert_loop.simps) (simp add: Let_def)
      moreover have "0 < ?p" "?p < n" "n \<le> length ?q" using False p less.prems by simp_all
      moreover obtain l q' where "insert_loop key v ?q ?p (parent ?p) ?p = Inr (l, q')" "l \<le> ?p" "length q' = length ?q"
        "heap key n (q'[l := v])" "mset (take n (q'[l := v])) = mset (take n (?q[?p := v]))" "drop n q' = drop n ?q"
        using less.IH [OF p(1) calculation(2-4) g] by blast
      ultimately show ?thesis using ms d p(1) by (intro exI [of _ l] exI [of _ q']) simp
    qed
  qed
qed

lemma remove_loop_spec:
  assumes "i < n" and "n \<le> length q" and "gap_heap key n (q[i := v]) i" and "under_parent key (q[i := v]) i"
  shows "\<exists>l q'. remove_loop key n v q i = Inr (l, q') \<and> l < n \<and> length q' = length q \<and>
    heap key n (q'[l := v]) \<and> mset (take n (q'[l := v])) = mset (take n (q[i := v])) \<and>
    drop n q' = drop n q"
  using assms
proof (induction "n - i" arbitrary: i q rule: less_induct)
  case less
  let ?A = "q[i := v]" and ?l = "2 * i + 1" and ?h = "2 * i + 2"
  have settled: "\<exists>l q'. remove_loop key n v q i = Inr (l, q') \<and> l < n \<and> length q' = length q \<and>
    heap key n (q'[l := v]) \<and> mset (take n (q'[l := v])) = mset (take n ?A) \<and> drop n q' = drop n q"
    if "remove_loop key n v q i = Inr (i, q)" "over_children key n ?A i"
    using that heap_of_gap less.prems by blast
  show ?case
  proof (cases "n \<le> ?l")
    case True
    then have "over_children key n ?A i" by (auto simp: over_children_def parent_children)
    then show ?thesis using settled True by (simp add: remove_loop.simps)
  next
    case False
    have vals: "?A ! i = v" "?A ! ?l = q ! ?l" "?A ! ?h = q ! ?h" using less.prems(1,2) by simp_all
    define c where "c = (if ?h < n \<and> \<not> key (q ! ?h) \<le> key (q ! ?l) then ?h else ?l)"
    have c: "c < n" "0 < c" "parent c = i" "i < c" using False by (auto simp: c_def parent_def)
    have loop: "remove_loop key n v q i =
      (if key v < key (q ! c) then remove_loop key n v (q[i := q ! c]) c else Inr (i, q))"
    proof (cases "?h < n")
      case True
      have e: "remove_loop key n v q i = (if key v < key (q ! ?l) \<or> key v < key (q ! ?h)
        then if key (q ! ?h) \<le> key (q ! ?l) then remove_loop key n v (q[i := q ! ?l]) ?l else remove_loop key n v (q[i := q ! ?h]) ?h
        else Inr (i, q))"
        using True less.prems(1,2) by (subst remove_loop.simps) (simp add: Let_def load_high_def)
      show ?thesis
      proof (cases "key (q ! ?h) \<le> key (q ! ?l)")
        case le: True
        then have "key v < key (q ! ?l) \<or> key v < key (q ! ?h) \<longleftrightarrow> key v < key (q ! ?l)" by (meson less_le_trans)
        then show ?thesis using e le True by (simp add: c_def)
      next
        case gt: False
        then have "key v < key (q ! ?l) \<or> key v < key (q ! ?h) \<longleftrightarrow> key v < key (q ! ?h)" by (meson less_trans not_le)
        then show ?thesis using e gt True by (simp add: c_def)
      qed
    next
      case False
      then show ?thesis using \<open>\<not> n \<le> ?l\<close> less.prems(1,2)
        by (subst remove_loop.simps) (simp add: Let_def load_high_def c_def)
    qed
    have big: "key (?A ! x) \<le> key (?A ! c)" if "x < n" "0 < x" "parent x = i" for x
      using that False parent_children [OF that(2), of i] vals by (auto simp: c_def)
    show ?thesis
    proof (cases "key v < key (q ! c)")
      case stop: False
      have "over_children key n ?A i" unfolding over_children_def
      proof (intro allI impI)
        fix x assume "x < n" "0 < x" "parent x = i"
        then show "key (?A ! x) \<le> key (?A ! i)" using big [of x] stop c vals by (simp add: not_less)
      qed
      moreover have "remove_loop key n v q i = Inr (i, q)"
        using stop loop by simp
      ultimately show ?thesis using settled by blast
    next
      case True
      let ?q = "q[i := q ! c]"
      have sw: "swap i c ?A = ?q[c := v]" using c less.prems(1,2) by (simp add: list_update_swap)
      have lt: "key (?A ! i) < key (?A ! c)" using True c vals by simp
      have "n \<le> length ?A" "\<forall>x<n. 0 < x \<longrightarrow> parent x = i \<longrightarrow> key (?A ! x) \<le> key (?A ! c)"
        using less.prems(2) big by simp_all
      note g = swap_down [OF less.prems(3,4) c(1-3) this(1) lt this(2), unfolded sw]
      have ms: "mset (take n (?q[c := v])) = mset (take n ?A)"
        using mset_take_swap [of i n c ?A] c less.prems(1,2) unfolding sw by simp
      have "remove_loop key n v q i = remove_loop key n v ?q c"
        using True loop by simp
      moreover have "n - c < n - i" "n \<le> length ?q" "length ?q = length q" "drop n ?q = drop n q"
        using c less.prems(1,2) by simp_all
      ultimately show ?thesis using less.hyps [OF _ c(1) _ g] ms by metis
    qed
  qed
qed

section \<open>The operations\<close>

lemma over_children_of_gap:
  assumes "gap_heap key n q i" and "\<not> under_parent key q i"
  shows "over_children key n q i" "0 < i" "key (q ! parent i) < key (q ! i)"
proof -
  show i: "0 < i" "key (q ! parent i) < key (q ! i)" using assms(2) by (auto simp: under_parent_def)
  show "over_children key n q i" unfolding over_children_def
  proof (intro allI impI)
    fix x assume x: "x < n" "0 < x" "parent x = i"
    then have "x \<noteq> i" using parent_less [of x] by auto
    then have "key (q ! x) \<le> key (q ! parent i)" using assms(1) x i by (auto simp: gap_heap_def)
    then show "key (q ! x) \<le> key (q ! i)" using i(2) by simp
  qed
qed

lemma InsertFixup_spec:
  assumes "i < n" and "n \<le> length q" and "gap_heap key n q i"
  shows "\<exists>l q'. pq_InsertFixup key n i q = Inr (l, q') \<and> length q' = length q \<and> mset (take n q') = mset (take n q) \<and>
    (if under_parent key q i then l = i \<and> q' = q else l \<noteq> i \<and> heap key n q')"
proof (cases "under_parent key q i")
  case True
  have nl: "(i + 1) div 2 - 1 = parent i" by (simp add: parent_def)
  have p: "0 < i \<Longrightarrow> parent i < length q" using parent_less [of i] assms by simp
  have "0 < i \<Longrightarrow> insert_loop key (q ! i) q i (parent i) i = Inr (i, q)"
    using True p by (subst insert_loop.simps) (simp add: under_parent_def not_less)
  then show ?thesis using True assms nl by (simp add: pq_InsertFixup_def)
next
  case False
  note O = over_children_of_gap [OF assms(3) False]
  have nl: "(i + 1) div 2 - 1 = parent i" by (simp add: parent_def)
  have "gap_heap key n (q[i := q ! i]) i" "over_children key n (q[i := q ! i]) i" using assms(3) O(1) by simp_all
  from insert_loop_spec [OF O(2) assms(1,2) this] O(3)
  obtain l q' where "insert_loop key (q ! i) q i (parent i) i = Inr (l, q')" "l < i" "length q' = length q"
    "heap key n (q'[l := q ! i])" "mset (take n (q'[l := q ! i])) = mset (take n q)" by auto
  then show ?thesis using False assms(1,2) O(2) nl by (simp add: pq_InsertFixup_def)
qed

lemma RemoveFixup_spec:
  assumes "i < n" and "n \<le> length q" and "gap_heap key n q i" and "under_parent key q i"
  shows "\<exists>l q'. pq_RemoveFixup key n i q = Inr (l, q') \<and> length q' = length q \<and> mset (take n q') = mset (take n q) \<and>
    heap key n q'"
proof (cases "n \<le> 2 * i + 1")
  case True
  then have "over_children key n q i" by (auto simp: over_children_def parent_children)
  then have "heap key n q" using heap_of_gap assms(3,4) by blast
  then show ?thesis using True assms(1) by (simp add: pq_RemoveFixup_def)
next
  case False
  have "gap_heap key n (q[i := q ! i]) i" "under_parent key (q[i := q ! i]) i" using assms(3,4) by simp_all
  from remove_loop_spec [OF assms(1,2) this]
  obtain l q' where "remove_loop key n (q ! i) q i = Inr (l, q')" "l < n" "length q' = length q"
    "heap key n (q'[l := q ! i])" "mset (take n (q'[l := q ! i])) = mset (take n q)" by auto
  then show ?thesis using False assms(1,2) by (simp add: pq_RemoveFixup_def)
qed

lemma heap_top: "heap key n q \<Longrightarrow> x < n \<Longrightarrow> key (q ! x) \<le> key (q ! 0)"
proof (induction x rule: less_induct)
  case (less x)
  show ?case
  proof (cases "x = 0")
    case False
    then have p: "parent x < x" by (simp add: parent_less)
    then have "key (q ! parent x) \<le> key (q ! 0)" using less by simp
    moreover have "key (q ! x) \<le> key (q ! parent x)" using less.prems False by (simp add: heap_def)
    ultimately show ?thesis by simp
  qed simp
qed

lemma heap_mono: "heap key n q \<Longrightarrow> m \<le> n \<Longrightarrow> heap key m q"
  by (simp add: heap_def)

lemma mset_take_remove:
  assumes "i < m" and "m < length q"
  shows "mset (take m (q[i := q ! m])) = mset (take (Suc m) q) - {#q ! i#}"
proof -
  have "take m (q[i := q ! m]) = (take m q)[i := q ! m]" by (simp add: take_update_swap)
  moreover have "mset ((take m q)[i := q ! m]) = add_mset (q ! m) (mset (take m q) - {#q ! i#})"
    using assms mset_update [of i "take m q" "q ! m"] by simp
  moreover have "q ! i \<in># mset (take m q)" using assms by (auto simp: in_set_conv_nth intro!: exI [of _ i])
  ultimately show ?thesis using assms(2) by (simp add: take_Suc_conv_app_nth)
qed

definition pq_ok :: "('n \<Rightarrow> 'k::linorder) \<Rightarrow> 'n priority_queue \<Rightarrow> bool" where
  "pq_ok key p \<longleftrightarrow> length (m_queue p) = unat (m_max p) \<and> m_count p \<le> m_max p \<and> unat (m_max p) \<le> 2 ^ 31 \<and>
     heap key (unat (m_count p)) (m_queue p)"

definition pq_items :: "'n priority_queue \<Rightarrow> 'n multiset" where
  "pq_items p = mset (take (unat (m_count p)) (m_queue p))"

lemma pq_okD:
  assumes "pq_ok key p"
  shows "length (m_queue p) = unat (m_max p)" "unat (m_count p) \<le> length (m_queue p)" "heap key (unat (m_count p)) (m_queue p)"
    "size (pq_items p) = unat (m_count p)"
  using assms by (simp_all add: pq_ok_def pq_items_def word_le_nat_alt)

lemma pq_Insert_spec:
  assumes "pq_ok key p" and "m_count p < m_max p"
  shows "\<exists>p'. pq_Insert key (Some x) p = Inr p' \<and> pq_ok key p' \<and> pq_items p' = add_mset x (pq_items p) \<and> m_max p' = m_max p"
proof -
  let ?n = "unat (m_count p)" and ?q = "(m_queue p)[unat (m_count p) := x]"
  note D = pq_okD [OF assms(1)]
  have n: "?n < length (m_queue p)" using assms(2) D(1) by (simp add: word_less_nat_alt)
  have c: "unat (m_count p + 1) = Suc ?n" by (rule unat_Suc_less [OF assms(2)])
  have "over_children key (Suc ?n) ?q ?n" by (auto simp: over_children_def dest: parent_less)
  moreover have "gap_heap key (Suc ?n) ?q ?n"
    using gap_of_heap [OF D(3), of ?n x] parent_less unfolding gap_heap_def by (metis less_Suc_eq nat_neq_iff not_less_iff_gr_or_eq)
  moreover from calculation have "under_parent key ?q ?n \<Longrightarrow> heap key (Suc ?n) ?q" using heap_of_gap by blast
  ultimately obtain l q' where q': "pq_InsertFixup key (Suc ?n) ?n ?q = Inr (l, q')" "length q' = length ?q"
    "mset (take (Suc ?n) q') = mset (take (Suc ?n) ?q)" "heap key (Suc ?n) q'"
    using InsertFixup_spec [of ?n "Suc ?n" ?q key] n by (auto split: if_splits)
  have "take (Suc ?n) ?q = take ?n (m_queue p) @ [x]" using n by (simp add: take_Suc_conv_app_nth)
  then show ?thesis using q' assms n c D(1)
    by (simp add: pq_Insert_def Let_def pq_ok_def pq_items_def word_le_nat_alt)
qed

lemma pq_RemoveFront_spec:
  assumes "pq_ok key p" and "pq_items p \<noteq> {#}"
  shows "\<exists>x p'. pq_RemoveFront key p = Inr (x, p') \<and> pq_ok key p' \<and> x \<in># pq_items p \<and> (\<forall>y\<in>#pq_items p. key y \<le> key x) \<and>
    pq_items p' = pq_items p - {#x#} \<and> m_max p' = m_max p"
proof -
  note D = pq_okD [OF assms(1)]
  let ?q = "m_queue p"
  obtain m where n: "unat (m_count p) = Suc m" using assms(2) D(4) by (cases "unat (m_count p)") auto
  have c: "unat (m_count p - 1) = m" using n by (intro unat_sub_nowrap [THEN trans]) auto
  have pos: "0 < m_count p" using n by (simp add: word_less_nat_alt)
  have top: "?q ! 0 \<in># pq_items p" using n D(2) by (auto simp: pq_items_def in_set_conv_nth intro!: exI [of _ 0])
  have max: "\<forall>y\<in>#pq_items p. key y \<le> key (?q ! 0)"
    using heap_top [OF D(3)] by (auto simp: pq_items_def in_set_conv_nth)
  show ?thesis
  proof (cases "m = 0")
    case True
    then have "m_count p - 1 = 0" using c by (simp add: word_eq_unat_iff)
    moreover have "take (Suc 0) ?q = [?q ! 0]" using n D(2) by (cases ?q) auto
    ultimately show ?thesis using assms(1) True n pos top max D
      by (intro exI [of _ "?q ! 0"] exI [of _ "p\<lparr>m_count := 0\<rparr>"])
        (simp add: pq_RemoveFront_def Let_def pq_ok_def pq_items_def heap_def)
  next
    case False
    let ?q1 = "?q[0 := ?q ! m]"
    have nz: "m_count p - 1 \<noteq> 0" using c False by (auto simp: word_eq_unat_iff)
    have "gap_heap key m ?q1 0" using gap_of_heap [OF heap_mono [OF D(3)]] n by simp
    then obtain l q' where q': "pq_RemoveFixup key m 0 ?q1 = Inr (l, q')" "length q' = length ?q1"
      "mset (take m q') = mset (take m ?q1)" "heap key m q'"
      using RemoveFixup_spec [of 0 m ?q1 key] False n D(2) by (auto simp: under_parent_def)
    have "mset (take m ?q1) = pq_items p - {#?q ! 0#}"
      using mset_take_remove [of 0 m ?q] False n D(2) by (simp add: pq_items_def)
    moreover have "0 < length ?q" using n D(2) by linarith
    then have "pq_RemoveFront key p = Inr (?q ! 0, p\<lparr>m_count := m_count p - 1, m_queue := q'\<rparr>)"
      using pos nz q' n D(2) c by (simp add: pq_RemoveFront_def Let_def)
    moreover have "m_count p - 1 \<le> m_max p" using c n D by (simp add: word_le_nat_alt)
    ultimately show ?thesis using assms(1) q' top max c D
      by (intro exI [of _ "?q ! 0"] exI [of _ "p\<lparr>m_count := m_count p - 1, m_queue := q'\<rparr>"]) (simp add: pq_ok_def pq_items_def)
  qed
qed

lemma find_iter_from_spec:
  "i + n \<le> length q \<Longrightarrow> (if x \<in> set (take n (drop i q))
    then \<exists>j. find_iter_from n i x q = Inr j \<and> i \<le> j \<and> j < i + n \<and> q ! j = x else find_iter_from n i x q = Inl Assert_Failed)"
proof (induction n arbitrary: i)
  case (Suc n)
  have "take (Suc n) (drop i q) = q ! i # take n (drop (Suc i) q)" using Suc.prems by (simp add: Cons_nth_drop_Suc [symmetric])
  then show ?case using Suc.IH [of "Suc i"] Suc.prems by (auto split: if_splits)
qed simp

text \<open>
  \<open>Remove\<close> also works when the key of the removed node changed since it was put in its place: the order
  is only needed off its index.
\<close>

definition pq_ok_except :: "nat \<Rightarrow> ('n \<Rightarrow> 'k::linorder) \<Rightarrow> 'n priority_queue \<Rightarrow> bool" where
  "pq_ok_except i key p \<longleftrightarrow> length (m_queue p) = unat (m_max p) \<and> m_count p \<le> m_max p \<and> unat (m_max p) \<le> 2 ^ 31 \<and>
     gap_heap key (unat (m_count p)) (m_queue p) i"

lemma gap_heap_last:
  assumes "gap_heap key (Suc m) q m"
  shows "heap key m q"
  unfolding heap_def
proof (intro allI impI)
  fix x assume x: "x < m" "0 < x"
  then have "parent x \<noteq> m" using parent_less [of x] by simp
  moreover have "if parent x = m then 0 < m \<longrightarrow> key (q ! x) \<le> key (q ! parent m) else key (q ! x) \<le> key (q ! parent x)"
    using assms x unfolding gap_heap_def by simp
  ultimately show "key (q ! x) \<le> key (q ! parent x)" by simp
qed

lemma gap_heap_fill:
  assumes "gap_heap key (Suc m) q i"
  shows "gap_heap key m (q[i := v]) i"
  unfolding gap_heap_def
proof (intro allI impI)
  fix x assume x: "x < m" "0 < x" "x \<noteq> i"
  have "0 < i \<Longrightarrow> parent i \<noteq> i" using parent_less [of i] by auto
  moreover have "if parent x = i then 0 < i \<longrightarrow> key (q ! x) \<le> key (q ! parent i) else key (q ! x) \<le> key (q ! parent x)"
    using assms x unfolding gap_heap_def by simp
  ultimately show "if parent x = i then 0 < i \<longrightarrow> key (q[i := v] ! x) \<le> key (q[i := v] ! parent i)
      else key (q[i := v] ! x) \<le> key (q[i := v] ! parent x)" using x by (auto split: if_splits)
qed

lemma pq_Remove_except:
  assumes "pq_ok_except i key p" and "i < unat (m_count p)"
  shows "\<exists>p'. pq_Remove key i p = Inr p' \<and> pq_ok key p' \<and> pq_items p' = pq_items p - {#m_queue p ! i#} \<and> m_max p' = m_max p"
proof -
  have D: "length (m_queue p) = unat (m_max p)" "unat (m_count p) \<le> unat (m_max p)"
    "gap_heap key (unat (m_count p)) (m_queue p) i" "unat (m_max p) \<le> 2 ^ 31"
    using assms(1) by (simp_all add: pq_ok_except_def word_le_nat_alt)
  let ?q = "m_queue p"
  obtain m where n: "unat (m_count p) = Suc m" using assms(2) by (cases "unat (m_count p)") auto
  have c: "unat (m_count p - 1) = m" using n by (intro unat_sub_nowrap [THEN trans]) auto
  have le: "m_count p - 1 \<le> m_max p" using c D n by (simp add: word_le_nat_alt)
  show ?thesis
  proof (cases "m = i")
    case True
    have "pq_items p = add_mset (?q ! i) (mset (take m ?q))"
      using n D(1,2) True by (simp add: pq_items_def take_Suc_conv_app_nth)
    then show ?thesis using assms c le True D gap_heap_last [of key m ?q] n
      by (simp add: pq_Remove_def Let_def pq_ok_def pq_items_def)
  next
    case False
    let ?q1 = "?q[i := ?q ! m]"
    have im: "i < m" using False assms(2) n by simp
    have nz: "m_count p - 1 \<noteq> 0" using c im by (auto simp: word_eq_unat_iff)
    have g: "gap_heap key m ?q1 i" using gap_heap_fill [of key m ?q i] D(3) n by simp
    have ms: "mset (take m ?q1) = pq_items p - {#?q ! i#}"
      using mset_take_remove [OF im, of ?q] n D(1,2) by (simp add: pq_items_def)
    obtain l q' where q': "pq_InsertFixup key m i ?q1 = Inr (l, q')" "length q' = length ?q1" "mset (take m q') = mset (take m ?q1)"
      "if under_parent key ?q1 i then l = i \<and> q' = ?q1 else l \<noteq> i \<and> heap key m q'"
      using InsertFixup_spec [OF im _ g] n D(1,2) by auto
    have b: "i < length ?q" "m < length ?q" using im n D(1,2) by simp_all
    show ?thesis
    proof (cases "under_parent key ?q1 i")
      case True
      then obtain l2 q2 where q2: "pq_RemoveFixup key m i ?q1 = Inr (l2, q2)" "length q2 = length ?q1"
        "mset (take m q2) = mset (take m ?q1)" "heap key m q2"
        using RemoveFixup_spec [OF im _ g] n D(1,2) by auto
      have "pq_Remove key i p = Inr (p\<lparr>m_count := m_count p - 1, m_queue := q2\<rparr>)"
        using assms(2) nz q' q2 True im b c by (simp add: pq_Remove_def Let_def)
      then show ?thesis using q2 c D le ms by (simp add: pq_ok_def pq_items_def)
    next
      case False
      have "pq_Remove key i p = Inr (p\<lparr>m_count := m_count p - 1, m_queue := q'\<rparr>)"
        using assms(2) nz q' False im b c by (simp add: pq_Remove_def Let_def)
      then show ?thesis using q' False c D le ms by (simp add: pq_ok_def pq_items_def)
    qed
  qed
qed

lemma pq_Remove_spec:
  assumes "pq_ok key p" and "i < unat (m_count p)"
  shows "\<exists>p'. pq_Remove key i p = Inr p' \<and> pq_ok key p' \<and> pq_items p' = pq_items p - {#m_queue p ! i#} \<and> m_max p' = m_max p"
proof -
  have "gap_heap key (unat (m_count p)) ((m_queue p)[i := m_queue p ! i]) i"
    using assms by (intro gap_of_heap) (auto simp: pq_ok_def)
  then show ?thesis using assms by (intro pq_Remove_except) (simp_all add: pq_ok_except_def pq_ok_def)
qed

section \<open>The contract\<close>

fun insert_all :: "('n \<Rightarrow> 's \<Rightarrow> 's result) \<Rightarrow> 'n list \<Rightarrow> 's \<Rightarrow> 's result" where
  "insert_all put [] s = Inr s"
| "insert_all put (x # xs) s = bind_result (put x s) (insert_all put xs)"

fun drain :: "('s \<Rightarrow> ('n \<times> 's) result) \<Rightarrow> nat \<Rightarrow> 's \<Rightarrow> ('n list \<times> 's) result" where
  "drain remove 0 s = Inr ([], s)"
| "drain remove (Suc n) s =
     bind_result (remove s) (\<lambda>(x, s). bind_result (drain remove n s) (\<lambda>(xs, s). Inr (x # xs, s)))"

locale bounded_priority_queue =
  fixes key :: "'n \<Rightarrow> 'k::linorder"
    and ok :: "'s \<Rightarrow> bool" and items :: "'s \<Rightarrow> 'n multiset" and capacity :: "'s \<Rightarrow> nat"
    and put :: "'n \<Rightarrow> 's \<Rightarrow> 's result" and remove_front :: "'s \<Rightarrow> ('n \<times> 's) result"
  assumes insert_room: "ok s \<Longrightarrow> size (items s) < capacity s \<Longrightarrow>
      \<exists>s'. put x s = Inr s' \<and> ok s' \<and> items s' = add_mset x (items s) \<and> capacity s' = capacity s"
    and remove_max: "ok s \<Longrightarrow> items s \<noteq> {#} \<Longrightarrow>
      \<exists>x s'. remove_front s = Inr (x, s') \<and> ok s' \<and> x \<in># items s \<and> (\<forall>y\<in>#items s. key y \<le> key x) \<and>
        items s' = items s - {#x#} \<and> capacity s' = capacity s"
begin

lemma insert_all_items:
  assumes "ok s" and "size (items s) + length xs \<le> capacity s"
  shows "\<exists>s'. insert_all put xs s = Inr s' \<and> ok s' \<and> items s' = mset xs + items s \<and> capacity s' = capacity s"
  using assms
proof (induction xs arbitrary: s)
  case (Cons x xs)
  then obtain t where t: "put x s = Inr t" "ok t" "items t = add_mset x (items s)" "capacity t = capacity s"
    using insert_room [of s x] by auto
  from Cons.IH [OF t(2)] Cons.prems(2) t show ?case by auto
qed simp

lemma drain_sorted:
  assumes "ok s"
  shows "\<exists>xs s'. drain remove_front (size (items s)) s = Inr (xs, s') \<and> ok s' \<and> items s' = {#} \<and> mset xs = items s \<and>
    sorted_wrt (\<lambda>x y. key y \<le> key x) xs"
  using assms
proof (induction "size (items s)" arbitrary: s)
  case 0
  then show ?case by simp
next
  case (Suc n)
  then have "items s \<noteq> {#}" by auto
  then obtain x t where t: "remove_front s = Inr (x, t)" "ok t" "x \<in># items s" "\<forall>y\<in>#items s. key y \<le> key x"
    "items t = items s - {#x#}" using remove_max [OF Suc.prems] by blast
  have "size (items t) = n" using t(3,5) Suc.hyps(2) by (simp add: size_Diff_singleton)
  then obtain xs s' where s': "drain remove_front n t = Inr (xs, s')" "ok s'" "items s' = {#}" "mset xs = items t"
    "sorted_wrt (\<lambda>x y. key y \<le> key x) xs" using Suc.hyps(1) [of t] t(2) by auto
  have "\<forall>y\<in>set xs. key y \<le> key x" using s'(4) t(4,5) by (metis in_diffD set_mset_mset)
  moreover have "mset (x # xs) = items s" using s'(4) t(3,5) by simp
  ultimately show ?case using t(1) s' Suc.hyps(2) [symmetric] by simp
qed

lemma insert_drain:
  assumes "ok s" and "items s = {#}" and "length xs \<le> capacity s"
  shows "\<exists>s' ys s''. insert_all put xs s = Inr s' \<and> drain remove_front (length xs) s' = Inr (ys, s'') \<and>
    mset ys = mset xs \<and> sorted_wrt (\<lambda>x y. key y \<le> key x) ys"
proof -
  obtain s' where s': "insert_all put xs s = Inr s'" "ok s'" "items s' = mset xs"
    using insert_all_items [OF assms(1), of xs] assms(2,3) by auto
  then show ?thesis using drain_sorted [OF s'(2)] by auto
qed

end

interpretation pq: bounded_priority_queue key "pq_ok key" pq_items "\<lambda>p. unat (m_max p)"
  "\<lambda>x. pq_Insert key (Some x)" "pq_RemoveFront key" for key
proof (unfold_locales, goal_cases)
  case (1 s x)
  then show ?case using pq_Insert_spec [OF 1(1), of x] pq_okD(4) [OF 1(1)] by (auto simp: word_less_nat_alt)
next
  case (2 s)
  then show ?case using pq_RemoveFront_spec [OF 2] by metis
qed

text \<open>A fixed queue is a queue whose maximum is its size.\<close>

definition pq_of :: "'n fixed_priority_queue \<Rightarrow> 'n priority_queue" where
  "pq_of f = \<lparr>m_queue = m_fixed_queue f, m_max = of_nat (length (m_fixed_queue f)), m_count = m_fixed_count f\<rparr>"

lemma pq_of_simps [simp]:
  "m_queue (pq_of f) = m_fixed_queue f" "m_max (pq_of f) = of_nat (length (m_fixed_queue f))" "m_count (pq_of f) = m_fixed_count f"
  by (simp_all add: pq_of_def)

abbreviation fixed_fits :: "'n fixed_priority_queue \<Rightarrow> bool" where
  "fixed_fits f \<equiv> length (m_fixed_queue f) < 2 ^ 32"

lemma store_length: "store q i x = Inr q' \<Longrightarrow> length q' = length q"
  by (auto simp: store_def split: if_splits)

lemma insert_loop_length: "insert_loop key v q low high i = Inr (l, q') \<Longrightarrow> length q' = length q"
proof (induction key v q low high i rule: insert_loop.induct)
  case (1 key v q low high i)
  from 1(2) show ?case
    by (subst (asm) insert_loop.simps) (auto simp: bind_result_Inr_iff Let_def dest!: store_length 1(1) split: if_splits)
qed

lemma remove_loop_length: "remove_loop key n v q iter = Inr (l, q') \<Longrightarrow> length q' = length q"
proof (induction "n - iter" arbitrary: q iter rule: less_induct)
  case less
  from less.prems show ?case
    by (subst (asm) remove_loop.simps)
      (auto simp: bind_result_Inr_iff Let_def dest!: store_length less.hyps [rotated] split: if_splits option.splits)
qed

lemma InsertFixup_length: "pq_InsertFixup key n i q = Inr (l, q') \<Longrightarrow> length q' = length q"
  by (auto simp: pq_InsertFixup_def bind_vp_assert bind_result_Inr_iff dest!: store_length insert_loop_length split: if_splits)

lemma RemoveFixup_length: "pq_RemoveFixup key n i q = Inr (l, q') \<Longrightarrow> length q' = length q"
  by (auto simp: pq_RemoveFixup_def bind_vp_assert bind_result_Inr_iff dest!: store_length remove_loop_length split: if_splits)

lemma bind_result_map_cong:
  assumes "\<And>x. m = Inr x \<Longrightarrow> f x = result_map h (g x)"
  shows "bind_result m f = result_map h (bind_result m g)"
  using assms by (cases m) auto

text \<open>Each operation of the fixed queue is the operation of the other one, seen through \<open>pq_of\<close>.\<close>

lemmas sim_simps = Let_def fpq_InsertFixup_def fpq_RemoveFixup_def pq_of_def

lemma fpq_Insert_sim:
  assumes "fixed_fits f"
  shows "pq_Insert key x (pq_of f) = result_map pq_of (fpq_Insert key x f)"
proof -
  have "m_fixed_count f < of_nat (length (m_fixed_queue f)) \<longleftrightarrow> unat (m_fixed_count f) < length (m_fixed_queue f)"
    using assms by (simp add: word_less_nat_alt unat_of_nat_less)
  then show ?thesis unfolding pq_Insert_def fpq_Insert_def
    by (auto intro!: bind_result_map_cong simp: sim_simps dest!: store_length InsertFixup_length)
qed

lemma fpq_RemoveFront_sim:
  "pq_RemoveFront key (pq_of f) = result_map (map_prod id pq_of) (fpq_RemoveFront key f)"
  unfolding pq_RemoveFront_def fpq_RemoveFront_def
  by (auto intro!: bind_result_map_cong simp: sim_simps dest!: store_length RemoveFixup_length)

lemma fpq_Remove_sim: "pq_Remove key iter (pq_of f) = result_map pq_of (fpq_Remove key iter f)"
  unfolding pq_Remove_def fpq_Remove_def
  by (auto intro!: bind_result_map_cong simp: sim_simps dest!: store_length RemoveFixup_length InsertFixup_length)

lemma fpq_FindIterTo_sim: "pq_FindIterTo x (pq_of f) = fpq_FindIterTo x f"
  by (simp add: pq_FindIterTo_def fpq_FindIterTo_def)

lemma result_map_InrD: "result_map h m = Inr y \<Longrightarrow> \<exists>x. m = Inr x \<and> y = h x"
  by (cases m) auto

definition fpq_ok :: "('n \<Rightarrow> 'k::linorder) \<Rightarrow> 'n fixed_priority_queue \<Rightarrow> bool" where
  "fpq_ok key f \<longleftrightarrow> fixed_fits f \<and> pq_ok key (pq_of f)"

lemma fpq_okD:
  assumes "fpq_ok key f"
  shows "fixed_fits f" "pq_ok key (pq_of f)" "unat (m_max (pq_of f)) = length (m_fixed_queue f)"
  using assms by (simp_all add: fpq_ok_def unat_of_nat_less)

text \<open>The fixed queue keeps the promises of the contract because the queue with external memory does.\<close>

interpretation fpq: bounded_priority_queue key "fpq_ok key" "\<lambda>f. pq_items (pq_of f)" "\<lambda>f. length (m_fixed_queue f)"
  "\<lambda>x. fpq_Insert key (Some x)" "fpq_RemoveFront key" for key
proof (unfold_locales, goal_cases)
  case (1 s x)
  note D = fpq_okD [OF 1(1)]
  obtain p' where p': "pq_Insert key (Some x) (pq_of s) = Inr p'" "pq_ok key p'" "pq_items p' = add_mset x (pq_items (pq_of s))"
    "unat (m_max p') = unat (m_max (pq_of s))"
    using pq.insert_room [OF D(2), of x] 1(2) D(3) by auto
  then obtain f' where f': "fpq_Insert key (Some x) s = Inr f'" "p' = pq_of f'"
    using fpq_Insert_sim [OF D(1), of key "Some x"] by (auto dest: result_map_InrD)
  have "length (m_fixed_queue f') = length (m_fixed_queue s)"
    using p'(2,4) D(3) by (simp add: f'(2) pq_ok_def)
  then show ?case using f' p' D(1) by (auto simp: fpq_ok_def)
next
  case (2 s)
  note D = fpq_okD [OF 2(1)]
  obtain x p' where p': "pq_RemoveFront key (pq_of s) = Inr (x, p')" "pq_ok key p'" "x \<in># pq_items (pq_of s)"
    "\<forall>y\<in>#pq_items (pq_of s). key y \<le> key x" "pq_items p' = pq_items (pq_of s) - {#x#}" "unat (m_max p') = unat (m_max (pq_of s))"
    using pq.remove_max [OF D(2) 2(2)] by auto
  then obtain f' where f': "fpq_RemoveFront key s = Inr (x, f')" "p' = pq_of f'"
    using fpq_RemoveFront_sim [of key s] by (cases "fpq_RemoveFront key s") (auto dest: result_map_InrD)
  have "length (m_fixed_queue f') = length (m_fixed_queue s)"
    using p'(2,6) D(3) by (simp add: f'(2) pq_ok_def)
  then show ?case using f' p' D(1) by (intro exI [of _ x] exI [of _ f']) (auto simp: fpq_ok_def)
qed

section \<open>Properties\<close>

lemma pq_empty_ok:
  "length memory = unat max_count \<Longrightarrow> unat max_count \<le> 2 ^ 31 \<Longrightarrow>
    \<exists>p. pq_Initialize (Some memory) max_count PriorityQueue_construct = Inr p \<and> pq_ok key p \<and> pq_items p = {#} \<and> m_max p = max_count"
  by (simp add: pq_Initialize_def PriorityQueue_construct_def pq_ok_def pq_items_def heap_def)

lemma fpq_empty_ok:
  "Size \<le> 2 ^ 31 \<Longrightarrow> fpq_ok key (FixedPriorityQueue_construct null Size) \<and>
    pq_items (pq_of (FixedPriorityQueue_construct null Size)) = {#}"
  by (simp add: fpq_ok_def FixedPriorityQueue_construct_def pq_ok_def pq_items_def heap_def unat_of_nat_less)

text \<open>
  C30: A priority queue sorts.  Inserting any nodes, no more than the maximum, into an initialised
  queue succeeds, and removing the front as often as nodes were inserted succeeds too and hands
  out the same nodes in the order of their keys, greatest first.  \<open>FixedPriorityQueue\<close> does the same
  within its size.
\<close>

theorem priority_queue_sorts:
  assumes "length memory = unat max_count" and "unat max_count \<le> 2 ^ 31" and "length xs \<le> unat max_count"
  shows "(\<exists>p0 p1 ys p2. pq_Initialize (Some memory) max_count PriorityQueue_construct = Inr p0 \<and>
      insert_all (\<lambda>x. pq_Insert key (Some x)) xs p0 = Inr p1 \<and> drain (pq_RemoveFront key) (length xs) p1 = Inr (ys, p2) \<and>
      mset ys = mset xs \<and> sorted_wrt (\<lambda>x y. key y \<le> key x) ys) \<and>
    (\<exists>f1 zs f2. insert_all (\<lambda>x. fpq_Insert key (Some x)) xs (FixedPriorityQueue_construct null (unat max_count)) = Inr f1 \<and>
      drain (fpq_RemoveFront key) (length xs) f1 = Inr (zs, f2) \<and>
      mset zs = mset xs \<and> sorted_wrt (\<lambda>x y. key y \<le> key x) zs)" (is "?dynamic \<and> ?fixed")
proof
  obtain p0 where p0: "pq_Initialize (Some memory) max_count PriorityQueue_construct = Inr p0" "pq_ok key p0" "pq_items p0 = {#}"
    "m_max p0 = max_count"
    using pq_empty_ok [OF assms(1,2), of key] by blast
  show ?dynamic using pq.insert_drain [OF p0(2,3), of xs] p0(1,4) assms(3) by auto
  show ?fixed
    using fpq.insert_drain [of key "FixedPriorityQueue_construct null (unat max_count)" xs] fpq_empty_ok [OF assms(2), of key null] assms(3)
    by (auto simp: FixedPriorityQueue_construct_def)
qed

lemma priority_queue_sorts_witness:
  "\<exists>p0 p1 ys p2. pq_Initialize (Some [0, 0, 0]) 3 PriorityQueue_construct = Inr p0 \<and>
      insert_all (\<lambda>x. pq_Insert id (Some x)) [2, 7, 5::nat] p0 = Inr p1 \<and> drain (pq_RemoveFront id) 3 p1 = Inr (ys, p2) \<and>
      mset ys = {#2, 7, 5#} \<and> sorted_wrt (\<ge>) ys"
proof -
  have "length [0, 0, 0::nat] = unat (3::u32)" and "unat (3::u32) \<le> 2 ^ 31" and "length [2, 7, 5::nat] \<le> unat (3::u32)"
    by simp_all
  from priority_queue_sorts [OF this, of id 0, THEN conjunct1] show ?thesis
    by (simp del: drain.simps insert_all.simps add: numeral_3_eq_3)
qed

text \<open>
  \<open>FindIterTo\<close> answers a place of the node it is given when the node is in the queue, and
  \<open>Remove\<close> of that place takes out this node and nothing else and leaves a queue in heap order;
  for a node that is not in the queue \<open>FindIterTo\<close> ends in its assertion.  The fixed queue takes
  the same steps.
\<close>

theorem priority_queue_remove:
  assumes "pq_ok key p"
  shows "(if x \<in># pq_items p
      then \<exists>i p'. pq_FindIterTo x p = Inr i \<and> pq_Remove key i p = Inr p' \<and> pq_ok key p' \<and> pq_items p' = pq_items p - {#x#}
      else pq_FindIterTo x p = Inl Assert_Failed) \<and>
    (\<forall>f i. p = pq_of f \<longrightarrow> fpq_FindIterTo x f = pq_FindIterTo x p \<and> result_map pq_of (fpq_Remove key i f) = pq_Remove key i p)"
proof (intro conjI allI impI)
  note find = find_iter_from_spec [of 0 "unat (m_count p)" "m_queue p" x] and D = pq_okD [OF assms]
  show "if x \<in># pq_items p
      then \<exists>i p'. pq_FindIterTo x p = Inr i \<and> pq_Remove key i p = Inr p' \<and> pq_ok key p' \<and> pq_items p' = pq_items p - {#x#}
      else pq_FindIterTo x p = Inl Assert_Failed"
  proof (cases "x \<in># pq_items p")
    case True
    then obtain i where i: "pq_FindIterTo x p = Inr i" "i < unat (m_count p)" "m_queue p ! i = x"
      using find D by (auto simp: pq_items_def pq_FindIterTo_def)
    then show ?thesis using pq_Remove_spec [OF assms i(2)] True by auto
  qed (use find D in \<open>simp add: pq_items_def pq_FindIterTo_def\<close>)
qed (simp_all add: fpq_FindIterTo_sim fpq_Remove_sim)

lemma priority_queue_remove_witness:
  "\<exists>i p'. pq_FindIterTo (5::nat) \<lparr>m_queue = [9, 5, 7, 1], m_max = 4, m_count = 4\<rparr> = Inr i \<and>
    pq_Remove id i \<lparr>m_queue = [9, 5, 7, 1::nat], m_max = 4, m_count = 4\<rparr> = Inr p' \<and> pq_ok id p' \<and> pq_items p' = {#9, 7, 1#}"
proof -
  have "heap id 4 [9, 5, 7, 1::nat]"
    by (auto simp: heap_def parent_def less_Suc_eq numeral_eq_Suc)
  then have "pq_ok id \<lparr>m_queue = [9, 5, 7, 1::nat], m_max = 4, m_count = 4\<rparr>"
    by (simp add: pq_ok_def)
  from priority_queue_remove [OF this, of 5, THEN conjunct1] show ?thesis by (simp add: pq_items_def)
qed

end
