(* ===== verification/Handle_Table.thy ===== *)
theory Handle_Table
  imports Awn_Prelude
begin

text \<open>
  \<open>vp::util::FixedHandleTable\<close> (\<open>util_fixedhandletable.hpp\<close>) and \<open>awn::ukern::HandleTable\<close>
  (\<open>ukern_handletable.hpp\<close>): a handle is the index of a slot in its low 15 bits and the value of a
  running counter above them.  The counter array links the free slots and holds the counter of a slot in
  use; its elements and \<open>m_indice_iter\<close> are signed, so a word is read as one with \<open>scast\<close>.
\<close>

record handle_table =
  m_counter_array :: "u16 list"
  m_object_array :: "u64 list"
  m_indice_iter :: u32
  m_active_handles :: u16
  m_counter_value :: u16

definition GetHandleIndex :: "u32 \<Rightarrow> u32" where
  "GetHandleIndex handle = handle AND 0x7fff"

definition cCounterBitOffset :: nat where "cCounterBitOffset = 0xf"
definition cHandleReserveBitOffset :: nat where "cHandleReserveBitOffset = 0x1e"

text \<open>\<open>cMaxHandles\<close> is the template argument \<open>HandleCount\<close>, at most \<open>0x7fff\<close>.\<close>

definition FixedHandleTable_construct :: "u32 \<Rightarrow> handle_table" where
  "FixedHandleTable_construct cMaxHandles =
     \<lparr>m_counter_array = replicate (unat cMaxHandles) 0, m_object_array = replicate (unat cMaxHandles) 0,
      m_indice_iter = - 1, m_active_handles = 0, m_counter_value = 1\<rparr>"

definition ht_Initialize :: "u32 \<Rightarrow> handle_table \<Rightarrow> handle_table" where
  "ht_Initialize cMaxHandles t =
     fold (\<lambda>i t. t\<lparr>m_object_array := (m_object_array t)[i := 0],
                   m_counter_array := (m_counter_array t)[i := of_nat i - 1],
                   m_indice_iter := of_nat i\<rparr>)
       [0..<unat cMaxHandles] (t\<lparr>m_active_handles := 0, m_counter_value := 1\<rparr>)"

definition ht_ReserveHandle :: "u32 \<Rightarrow> u64 \<Rightarrow> handle_table \<Rightarrow> (u32 option \<times> handle_table) result" where
  "ht_ReserveHandle cMaxHandles object t =
     (if cMaxHandles \<le> ucast (m_active_handles t) then Inr (None, t)
      else
        let index = ucast (m_indice_iter t) :: u16
        in bind_result (load (m_counter_array t) (unat index)) (\<lambda>free.
           let t = t\<lparr>m_indice_iter := scast free\<rparr>;
               counter = m_counter_value t
           in bind_result (store (m_counter_array t) (unat index) counter) (\<lambda>counters.
              bind_result (store (m_object_array t) (unat index) object) (\<lambda>objects.
              let t = t\<lparr>m_counter_array := counters, m_object_array := objects,
                        m_active_handles := m_active_handles t + 1\<rparr>;
                  next = (if - 1 <s m_counter_value t + 1 then m_counter_value t + 1 else 1);
                  t = t\<lparr>m_counter_value := next\<rparr>
              in Inr (Some ((ucast index AND 0x7fff) OR push_bit cCounterBitOffset (ucast counter)), t)))))"

definition ht_FreeHandle :: "u32 \<Rightarrow> u32 \<Rightarrow> handle_table \<Rightarrow> (bool \<times> handle_table) result" where
  "ht_FreeHandle cMaxHandles handle t =
     (if handle = 0 \<or> drop_bit cCounterBitOffset handle = 0 then Inr (False, t)
      else
        let index = handle AND 0x7fff
        in if cMaxHandles < index then Inr (False, t)
           else bind_result (load (m_object_array t) (unat index)) (\<lambda>object.
             if object = 0 then Inr (False, t)
             else bind_result (load (m_counter_array t) (unat index)) (\<lambda>counter.
               if drop_bit cCounterBitOffset handle \<noteq> scast counter then Inr (False, t)
               else bind_result (store (m_object_array t) (unat index) 0) (\<lambda>objects.
                    bind_result (store (m_counter_array t) (unat index) (ucast (m_indice_iter t))) (\<lambda>counters.
                    Inr (True, t\<lparr>m_object_array := objects, m_counter_array := counters, m_indice_iter := index,
                                 m_active_handles := m_active_handles t - 1\<rparr>))))))"

definition ht_GetObjectByHandle :: "u32 \<Rightarrow> u32 \<Rightarrow> handle_table \<Rightarrow> u64 result" where
  "ht_GetObjectByHandle cMaxHandles handle t =
     (if drop_bit cHandleReserveBitOffset handle \<noteq> 0 \<or> handle = 0 \<or> drop_bit cCounterBitOffset handle = 0 then Inr 0
      else
        let index = handle AND 0x7fff
        in if cMaxHandles < index then Inr 0
           else bind_result (load (m_counter_array t) (unat index)) (\<lambda>counter.
             if drop_bit cCounterBitOffset handle \<noteq> scast counter then Inr 0
             else load (m_object_array t) (unat index)))"

section \<open>The table of the user mode kernel\<close>

text \<open>
  \<open>MaxHandles\<close> is 256 and the counter of a handle is compared as an \<open>s16\<close>.  Each operation holds
  the table mutex, so it is one step.
\<close>

definition MaxHandles :: u32 where "MaxHandles = 256"

definition ukern_table_construct :: handle_table where
  "ukern_table_construct =
     \<lparr>m_counter_array = replicate 256 0, m_object_array = replicate 256 0,
      m_indice_iter = - 1, m_active_handles = 0, m_counter_value = 1\<rparr>"

definition ukern_Initialize :: "handle_table \<Rightarrow> handle_table" where
  "ukern_Initialize t =
     fold (\<lambda>i t. t\<lparr>m_object_array := (m_object_array t)[i := 0],
                   m_counter_array := (m_counter_array t)[i := of_nat i - 1],
                   m_indice_iter := of_nat i\<rparr>)
       [0..<unat MaxHandles] (t\<lparr>m_active_handles := 0, m_counter_value := 1\<rparr>)"

definition ukern_ReserveHandle :: "u64 \<Rightarrow> handle_table \<Rightarrow> (u32 option \<times> handle_table) result" where
  "ukern_ReserveHandle object t =
     (if MaxHandles \<le> ucast (m_active_handles t) then Inr (None, t)
      else
        let index = ucast (m_indice_iter t) :: u16
        in bind_result (load (m_counter_array t) (unat index)) (\<lambda>free.
           let t = t\<lparr>m_indice_iter := scast free\<rparr>;
               counter = m_counter_value t
           in bind_result (store (m_counter_array t) (unat index) counter) (\<lambda>counters.
              bind_result (store (m_object_array t) (unat index) object) (\<lambda>objects.
              let t = t\<lparr>m_counter_array := counters, m_object_array := objects,
                        m_active_handles := m_active_handles t + 1\<rparr>;
                  next = (if - 1 <s m_counter_value t + 1 then m_counter_value t + 1 else 1);
                  t = t\<lparr>m_counter_value := next\<rparr>
              in Inr (Some ((ucast index AND 0x7fff) OR push_bit cCounterBitOffset (ucast counter)), t)))))"

definition ukern_FreeHandle :: "u32 \<Rightarrow> handle_table \<Rightarrow> (bool \<times> handle_table) result" where
  "ukern_FreeHandle handle t =
     (if handle = 0 \<or> drop_bit cCounterBitOffset handle = 0 then Inr (False, t)
      else
        let index = handle AND 0x7fff
        in if MaxHandles < index then Inr (False, t)
           else bind_result (load (m_object_array t) (unat index)) (\<lambda>object.
             if object = 0 then Inr (False, t)
             else bind_result (load (m_counter_array t) (unat index)) (\<lambda>counter.
               if (ucast (drop_bit cCounterBitOffset handle) :: u16) \<noteq> counter then Inr (False, t)
               else bind_result (store (m_object_array t) (unat index) 0) (\<lambda>objects.
                    bind_result (store (m_counter_array t) (unat index) (ucast (m_indice_iter t))) (\<lambda>counters.
                    Inr (True, t\<lparr>m_object_array := objects, m_counter_array := counters, m_indice_iter := index,
                                 m_active_handles := m_active_handles t - 1\<rparr>))))))"

definition ukern_GetObjectByHandle :: "u32 \<Rightarrow> handle_table \<Rightarrow> u64 result" where
  "ukern_GetObjectByHandle handle t =
     (if drop_bit 0x1e handle \<noteq> 0 \<or> handle = 0 \<or> drop_bit 0xf handle = 0 then Inr 0
      else
        let index = handle AND 0x7fff
        in if MaxHandles < index then Inr 0
           else bind_result (load (m_counter_array t) (unat index)) (\<lambda>counter.
             if (ucast (drop_bit 0xf handle) :: u16) \<noteq> counter then Inr 0
             else load (m_object_array t) (unat index)))"

section \<open>Handles\<close>

definition handle_of :: "nat \<Rightarrow> u16 \<Rightarrow> u32" where
  "handle_of i c = (of_nat i AND 0x7fff) OR push_bit 15 (ucast c)"

definition index_of :: "u32 \<Rightarrow> nat" where "index_of h = unat (h AND 0x7fff)"

lemma and_7fff: "h AND 0x7fff = take_bit 15 h" for h :: "'a::len word"
  by (simp add: take_bit_eq_mask mask_eq_exp_minus_1)

lemma index_of_less: "index_of h < 0x8000"
proof -
  have "take_bit 15 (unat h) < 2 ^ 15" by (rule take_bit_nat_less_exp)
  then show ?thesis by (simp add: index_of_def and_7fff unsigned_take_bit_eq)
qed

lemma drop_bit_push_15: "drop_bit 15 (push_bit 15 (ucast (c :: u16)) :: u32) = ucast c"
  by (rule bit_eqI) (auto simp: bit_simps dest: bit_imp_le_length)

lemma handle_of_bits:
  "take_bit 15 (handle_of i c) = take_bit 15 (of_nat i)" "drop_bit 15 (handle_of i c) = ucast c"
  by (simp_all add: handle_of_def and_7fff take_bit_or take_bit_push_bit drop_bit_or drop_bit_take_bit drop_bit_push_15)

lemma of_nat_15:
  assumes "i < 0x8000"
  shows "unat (of_nat i :: u32) = i" "take_bit 15 (of_nat i :: u32) = of_nat i" "unat (of_nat i :: u16) = i"
proof -
  show u: "unat (of_nat i :: u32) = i" "unat (of_nat i :: u16) = i" using assms by (auto intro!: unat_of_nat_less)
  show "take_bit 15 (of_nat i :: u32) = of_nat i"
    using assms u by (simp add: word_eq_unat_iff unsigned_take_bit_eq take_bit_nat_eq_self)
qed

lemma index_of_handle_of: "i < 0x8000 \<Longrightarrow> index_of (handle_of i c) = i"
  by (simp add: index_of_def and_7fff handle_of_bits of_nat_15)

lemma of_nat_index_of: "of_nat (index_of h) = h AND 0x7fff"
  by (simp add: index_of_def)

lemma handle_eq_iff:
  assumes "i < 0x8000"
  shows "h = handle_of i c \<longleftrightarrow> index_of h = i \<and> drop_bit 15 h = ucast c"
proof
  assume *: "index_of h = i \<and> drop_bit 15 h = ucast c"
  then have "take_bit 15 h = take_bit 15 (handle_of i c)"
    using of_nat_index_of [of h] assms by (simp add: handle_of_bits of_nat_15 and_7fff)
  then show "h = handle_of i c" using * handle_of_bits(2) [of i c] bits_ident by metis
qed (use assms index_of_handle_of handle_of_bits in auto)

lemma small_counter:
  assumes "(c :: u16) < 0x8000"
  shows "scast c = (ucast c :: u32)" "drop_bit 15 (ucast c :: u32) = 0" "ucast c = (0 :: u32) \<longleftrightarrow> c = 0"
proof -
  have "take_bit 15 c = c"
    using assms by (simp add: word_eq_unat_iff unsigned_take_bit_eq take_bit_nat_eq_self word_less_nat_alt)
  then have b: "\<not> bit c n" if "15 \<le> n" for n using that bit_take_bit_iff [of 15 c n] by simp
  show "scast c = (ucast c :: u32)" by (rule bit_eqI) (auto simp: bit_simps b min_def)
  show "drop_bit 15 (ucast c :: u32) = 0" by (rule bit_eqI) (auto simp: bit_simps b)
  show "ucast c = (0 :: u32) \<longleftrightarrow> c = 0" by (simp add: word_eq_unat_iff unat_ucast_up)
qed

section \<open>The table as a map from handles to objects\<close>

fun ichain :: "u16 list \<Rightarrow> u32 \<Rightarrow> nat list \<Rightarrow> bool" where
  "ichain cs iter [] \<longleftrightarrow> iter = - 1"
| "ichain cs iter (i # fs) \<longleftrightarrow> iter = of_nat i \<and> i < length cs \<and> ichain cs (scast (cs ! i)) fs"

definition slot_ok :: "handle_table \<Rightarrow> nat list \<Rightarrow> nat \<Rightarrow> bool" where
  "slot_ok t fs i \<longleftrightarrow>
     (if i \<in> set fs then m_object_array t ! i = 0
      else m_object_array t ! i \<noteq> 0 \<and> 0 < m_counter_array t ! i \<and> m_counter_array t ! i < 0x8000)"

definition ht_inv :: "u32 \<Rightarrow> handle_table \<Rightarrow> nat list \<Rightarrow> bool" where
  "ht_inv N t fs \<longleftrightarrow>
     unat N < 0x8000 \<and> length (m_counter_array t) = unat N \<and> length (m_object_array t) = unat N \<and> distinct fs \<and>
     ichain (m_counter_array t) (m_indice_iter t) fs \<and> unat (m_active_handles t) + length fs = unat N \<and>
     0 < m_counter_value t \<and> m_counter_value t < 0x8000 \<and> (\<forall>i<unat N. slot_ok t fs i)"

definition ht_map :: "u32 \<Rightarrow> handle_table \<Rightarrow> nat list \<Rightarrow> u32 \<Rightarrow> u64 option" where
  "ht_map N t fs h =
     (if index_of h < unat N \<and> index_of h \<notin> set fs \<and> drop_bit 15 h = ucast (m_counter_array t ! index_of h)
      then Some (m_object_array t ! index_of h) else None)"

lemma ichain_update: "i \<notin> set fs \<Longrightarrow> ichain (cs[i := v]) iter fs = ichain cs iter fs"
  by (induction fs arbitrary: iter) auto

lemma ichain_bounds: "ichain cs iter fs \<Longrightarrow> set fs \<subseteq> {..<length cs}"
  by (induction fs arbitrary: iter) auto

lemma ichain_iter:
  assumes "ichain cs iter fs" and "length cs < 0x8000"
  shows "scast (ucast iter :: u16) = iter"
proof (cases fs)
  case Nil
  have "scast (ucast (- 1 :: u32) :: u16) = (- 1 :: u32)" by code_simp
  then show ?thesis using assms(1) Nil by simp
next
  case (Cons i gs)
  then have i: "i < 0x8000" "iter = of_nat i" using assms by auto
  have "(ucast iter :: u16) = of_nat i"
    using i by (simp add: word_eq_unat_iff unsigned_ucast_eq take_bit_nat_eq_self of_nat_15)
  moreover have "(of_nat i :: u16) < 0x8000" using i(1) by (simp add: word_less_nat_alt of_nat_15)
  moreover have "ucast (of_nat i :: u16) = (of_nat i :: u32)" using i(1) by (simp add: word_eq_unat_iff unat_ucast_up of_nat_15)
  ultimately show ?thesis using i(2) small_counter(1) by simp
qed

lemma index_word_less: "index_of h < k \<Longrightarrow> unat (h AND 0x7fff) < k"
  by (simp add: index_of_def)

lemma ht_map_some:
  assumes "ht_inv N t fs" and "ht_map N t fs h = Some p"
  shows "p \<noteq> 0" "drop_bit 15 h \<noteq> 0" "drop_bit 30 h = 0" "h \<noteq> 0"
proof -
  let ?i = "index_of h"
  have "slot_ok t fs ?i" "?i \<notin> set fs" and d: "drop_bit 15 h = ucast (m_counter_array t ! ?i)" and p: "p = m_object_array t ! ?i"
    using assms by (auto simp: ht_inv_def ht_map_def split: if_splits)
  then have c: "p \<noteq> 0" "m_counter_array t ! ?i \<noteq> 0" "m_counter_array t ! ?i < 0x8000" by (auto simp: slot_ok_def)
  show "p \<noteq> 0" by (rule c(1))
  show "drop_bit 15 h \<noteq> 0" using d c small_counter(3) by simp
  then show "h \<noteq> 0" by auto
  have "drop_bit 15 (drop_bit 15 h) = 0" using d small_counter(2) [OF c(3)] by simp
  then show "drop_bit 30 h = 0" by simp
qed

lemma found_iff:
  assumes "ht_inv N t fs" and "index_of h < unat N" and "index_of h \<notin> set fs"
  shows "drop_bit 15 h = scast (m_counter_array t ! index_of h) \<longleftrightarrow> ht_map N t fs h \<noteq> None"
  using assms small_counter(1) by (auto simp: ht_inv_def ht_map_def slot_ok_def)

lemma GetObjectByHandle_spec:
  assumes "ht_inv N t fs" and "index_of h \<noteq> unat N"
  shows "ht_GetObjectByHandle N h t = Inr (case ht_map N t fs h of None \<Rightarrow> 0 | Some p \<Rightarrow> p)"
proof (cases "drop_bit 30 h \<noteq> 0 \<or> h = 0 \<or> drop_bit 15 h = 0")
  case True
  then have "ht_map N t fs h = None" using ht_map_some [OF assms(1)] by fastforce
  then show ?thesis using True
    by (simp add: ht_GetObjectByHandle_def cHandleReserveBitOffset_def cCounterBitOffset_def)
next
  case False
  have G: "ht_GetObjectByHandle N h t = (if N < h AND 0x7fff then Inr 0
     else bind_result (load (m_counter_array t) (index_of h)) (\<lambda>counter.
       if drop_bit 15 h \<noteq> scast counter then Inr 0 else load (m_object_array t) (index_of h)))"
    using False by (simp add: ht_GetObjectByHandle_def cHandleReserveBitOffset_def cCounterBitOffset_def index_of_def Let_def cong: if_cong)
  show ?thesis
  proof (cases "index_of h < unat N")
    case True
    then have n: "\<not> N < h AND 0x7fff" by (simp add: index_of_def word_less_nat_alt)
    have l: "length (m_counter_array t) = unat N" "length (m_object_array t) = unat N" "slot_ok t fs (index_of h)"
      using assms(1) True by (simp_all add: ht_inv_def)
    show ?thesis
    proof (cases "index_of h \<in> set fs")
      case True
      then have "ht_map N t fs h = None" "m_object_array t ! index_of h = 0" using l(3) by (simp_all add: ht_map_def slot_ok_def)
      then show ?thesis using G n l \<open>index_of h < unat N\<close> by simp
    next
      case False
      then show ?thesis using G n l \<open>index_of h < unat N\<close> found_iff [OF assms(1) \<open>index_of h < unat N\<close> False]
        by (auto simp: ht_map_def)
    qed
  next
    case False
    then show ?thesis using G assms(2) by (simp add: ht_map_def index_of_def word_less_nat_alt)
  qed
qed

lemma slot_in_map:
  assumes "ht_inv N t fs" and "ht_map N t fs h = Some p"
  shows "index_of h < unat N" "index_of h \<notin> set fs" "drop_bit 15 h = scast (m_counter_array t ! index_of h)"
    "m_object_array t ! index_of h \<noteq> 0"
proof -
  show i: "index_of h < unat N" "index_of h \<notin> set fs" using assms(2) by (simp_all add: ht_map_def split: if_splits)
  then show "drop_bit 15 h = scast (m_counter_array t ! index_of h)" using found_iff [OF assms(1) i] assms(2) by simp
  show "m_object_array t ! index_of h \<noteq> 0" using ht_map_some(1) [OF assms] assms(2) by (simp add: ht_map_def split: if_splits)
qed

definition freed :: "u32 \<Rightarrow> handle_table \<Rightarrow> handle_table" where
  "freed h t = t\<lparr>m_object_array := (m_object_array t)[index_of h := 0],
     m_counter_array := (m_counter_array t)[index_of h := ucast (m_indice_iter t)], m_indice_iter := h AND 0x7fff,
     m_active_handles := m_active_handles t - 1\<rparr>"

lemma FreeHandle_value:
  assumes "ht_inv N t fs" and "index_of h \<noteq> unat N"
  shows "ht_FreeHandle N h t = Inr (if ht_map N t fs h = None then (False, t) else (True, freed h t))"
proof (cases "index_of h < unat N")
  case True
  then have n: "\<not> N < h AND 0x7fff" by (simp add: index_of_def word_less_nat_alt)
  have l: "length (m_counter_array t) = unat N" "length (m_object_array t) = unat N" "slot_ok t fs (index_of h)"
    using assms(1) True by (simp_all add: ht_inv_def)
  show ?thesis
  proof (cases "ht_map N t fs h")
    case None
    then have "h = 0 \<or> drop_bit 15 h = 0 \<or> m_object_array t ! index_of h = 0 \<or>
      drop_bit 15 h \<noteq> scast (m_counter_array t ! index_of h)"
      using found_iff [OF assms(1) True] l(3) by (auto simp: slot_ok_def split: if_splits)
    then show ?thesis using None n l True by (auto simp: ht_FreeHandle_def cCounterBitOffset_def Let_def index_of_def)
  next
    case (Some p)
    then show ?thesis using n l True ht_map_some [OF assms(1) Some] slot_in_map [OF assms(1) Some]
      by (simp add: ht_FreeHandle_def cCounterBitOffset_def Let_def index_of_def freed_def)
  qed
next
  case False
  then have "N < h AND 0x7fff" "ht_map N t fs h = None" using assms(2) by (simp_all add: index_of_def word_less_nat_alt ht_map_def)
  then show ?thesis by (simp add: ht_FreeHandle_def Let_def)
qed

lemma FreeHandle_beyond:
  assumes "ht_inv N t fs" and "index_of h = unat N"
  shows "ht_FreeHandle N h t = (if drop_bit 15 h = 0 then Inr (False, t) else Inl Out_Of_Bounds)"
proof -
  have "load (m_object_array t) (unat (h AND 0x7fff)) = Inl Out_Of_Bounds"
    using assms by (simp add: ht_inv_def load_def index_of_def)
  moreover have "\<not> N < h AND 0x7fff" using assms(2) by (simp add: index_of_def word_less_nat_alt)
  ultimately show ?thesis by (cases "h = 0") (simp_all add: ht_FreeHandle_def cCounterBitOffset_def)
qed

lemma freed_inv:
  assumes inv: "ht_inv N t fs" and some: "ht_map N t fs h = Some p"
  shows "ht_inv N (freed h t) (index_of h # fs)" "ht_map N (freed h t) (index_of h # fs) = (ht_map N t fs)(h := None)"
proof -
  let ?i = "index_of h"
  note S = slot_in_map [OF inv some]
  have b: "unat N < 0x8000" and l: "length (m_counter_array t) = unat N" "length (m_object_array t) = unat N"
    and d: "distinct fs" and ch: "ichain (m_counter_array t) (m_indice_iter t) fs"
    and act: "unat (m_active_handles t) + length fs = unat N" and ok: "\<forall>i<unat N. slot_ok t fs i"
    using inv by (simp_all add: ht_inv_def)
  have it: "scast (ucast (m_indice_iter t) :: u16) = m_indice_iter t" using ichain_iter [OF ch] b l by simp
  have "set (?i # fs) \<subseteq> {..<unat N}" using ichain_bounds [OF ch] l S(1) by auto
  then have "card (set (?i # fs)) \<le> unat N" using card_mono [of "{..<unat N}"] by fastforce
  then have "length fs < unat N" using distinct_card [of "?i # fs"] d S(2) by simp
  then have a1: "unat (m_active_handles t - 1) = unat (m_active_handles t) - 1" "0 < unat (m_active_handles t)"
    using act by (auto intro!: unat_sub_nowrap [THEN trans])
  show "ht_inv N (freed h t) (?i # fs)"
  proof -
    have "ichain (m_counter_array (freed h t)) (m_indice_iter (freed h t)) (?i # fs)"
      using S(1,2) l ch it by (simp add: freed_def ichain_update of_nat_index_of)
    moreover have "unat (m_active_handles (freed h t)) + length (?i # fs) = unat N"
      using act a1 by (simp add: freed_def)
    moreover have "slot_ok (freed h t) (?i # fs) j" if "j < unat N" for j
      using ok that l by (cases "j = ?i") (simp_all add: slot_ok_def freed_def)
    ultimately show ?thesis using inv S(1,2) l by (simp add: ht_inv_def freed_def it)
  qed
  have g: "g = h" if "index_of g = ?i" "ht_map N t fs g \<noteq> None" for g
  proof -
    have "drop_bit 15 g = drop_bit 15 h" using that some by (simp add: ht_map_def split: if_splits)
    moreover have "take_bit 15 g = take_bit 15 h" using that(1) by (simp add: index_of_def and_7fff word_eq_unat_iff)
    ultimately show ?thesis using bits_ident by metis
  qed
  show "ht_map N (freed h t) (?i # fs) = (ht_map N t fs)(h := None)"
  proof
    fix g
    show "ht_map N (freed h t) (?i # fs) g = ((ht_map N t fs)(h := None)) g"
    proof (cases "index_of g = ?i")
      case True
      then have "ht_map N (freed h t) (?i # fs) g = None" by (simp add: ht_map_def)
      then show ?thesis using g [OF True] by (cases "ht_map N t fs g") auto
    next
      case False
      then have "g \<noteq> h" by auto
      then show ?thesis using False by (simp add: ht_map_def freed_def)
    qed
  qed
qed

lemma next_counter:
  assumes "0 < c" and "c < (0x8000 :: u16)"
  shows "0 < (if - 1 <s c + 1 then c + 1 else 1)" "(if - 1 <s c + 1 then c + 1 else 1) < (0x8000 :: u16)"
proof -
  have "unat (c + 1) = unat c + 1" using assms(2) by (intro unat_add_nowrap [THEN trans]) (simp_all add: word_less_nat_alt)
  moreover have "c + 1 < 0x8000" if "- 1 <s c + 1"
  proof (rule ccontr)
    assume "\<not> c + 1 < 0x8000"
    then have "c + 1 = 0x8000" using calculation assms(2) by (simp add: word_less_nat_alt word_eq_unat_iff)
    then show False using that by (simp add: word_sless_alt)
  qed
  ultimately show "0 < (if - 1 <s c + 1 then c + 1 else 1)" "(if - 1 <s c + 1 then c + 1 else 1) < (0x8000 :: u16)"
    by (auto simp: word_less_nat_alt)
qed

definition reserved :: "nat \<Rightarrow> u64 \<Rightarrow> handle_table \<Rightarrow> handle_table" where
  "reserved i object t = t\<lparr>m_indice_iter := scast (m_counter_array t ! i),
     m_counter_array := (m_counter_array t)[i := m_counter_value t], m_object_array := (m_object_array t)[i := object],
     m_active_handles := m_active_handles t + 1,
     m_counter_value := (if - 1 <s m_counter_value t + 1 then m_counter_value t + 1 else 1)\<rparr>"

lemma active_word:
  assumes "ht_inv N t fs"
  shows "N \<le> ucast (m_active_handles t) \<longleftrightarrow> fs = []"
  using assms by (cases fs) (auto simp: ht_inv_def word_le_nat_alt unat_ucast_up)

lemma ReserveHandle_value:
  assumes "ht_inv N t fs"
  shows "ht_ReserveHandle N object t = Inr (case fs of [] \<Rightarrow> (None, t)
    | i # gs \<Rightarrow> (Some (handle_of i (m_counter_value t)), reserved i object t))"
proof (cases fs)
  case Nil
  then show ?thesis using active_word [OF assms] by (simp add: ht_ReserveHandle_def)
next
  case (Cons i gs)
  have i: "m_indice_iter t = of_nat i" "i < unat N" "i < 0x8000" "length (m_counter_array t) = unat N" "length (m_object_array t) = unat N"
    using assms Cons by (auto simp: ht_inv_def)
  have u: "(ucast (of_nat i :: u32) :: u16) = of_nat i" "ucast (of_nat i :: u16) = (of_nat i :: u32)"
    using i(3) by (simp_all add: word_eq_unat_iff unsigned_ucast_eq take_bit_nat_eq_self of_nat_15)
  have "\<not> N \<le> ucast (m_active_handles t)" using active_word [OF assms] Cons by simp
  then show ?thesis using Cons i u
    by (simp add: ht_ReserveHandle_def Let_def of_nat_15 reserved_def handle_of_def cCounterBitOffset_def)
qed

lemma reserved_inv:
  assumes inv: "ht_inv N t (i # fs)" and obj: "object \<noteq> 0"
  shows "ht_inv N (reserved i object t) fs"
    "ht_map N t (i # fs) (handle_of i (m_counter_value t)) = None"
    "ht_map N (reserved i object t) fs = (ht_map N t (i # fs))(handle_of i (m_counter_value t) \<mapsto> object)"
proof -
  let ?h = "handle_of i (m_counter_value t)"
  have i: "i < unat N" "i < 0x8000" "i \<notin> set fs" and l: "length (m_counter_array t) = unat N" "length (m_object_array t) = unat N"
    and c: "0 < m_counter_value t" "m_counter_value t < 0x8000" and ok: "\<forall>j<unat N. slot_ok t (i # fs) j"
    and ch: "ichain (m_counter_array t) (scast (m_counter_array t ! i)) fs"
    and act: "unat (m_active_handles t) + Suc (length fs) = unat N"
    using inv by (auto simp: ht_inv_def)
  have "unat (m_active_handles t + 1) = unat (m_active_handles t) + 1"
    using act inv by (intro unat_add_nowrap [THEN trans]) (simp_all add: ht_inv_def)
  moreover have "slot_ok (reserved i object t) fs j" if "j < unat N" for j
    using ok that l i c obj by (cases "j = i") (auto simp: slot_ok_def reserved_def)
  ultimately show "ht_inv N (reserved i object t) fs"
    using inv i(3) ch act next_counter [OF c] by (simp add: ht_inv_def reserved_def ichain_update)
  show "ht_map N t (i # fs) ?h = None" using index_of_handle_of [OF i(2)] by (simp add: ht_map_def)
  show "ht_map N (reserved i object t) fs = (ht_map N t (i # fs))(?h \<mapsto> object)"
  proof
    fix g
    show "ht_map N (reserved i object t) fs g = ((ht_map N t (i # fs))(?h \<mapsto> object)) g"
      using handle_eq_iff [OF i(2), of g "m_counter_value t"] i l
      by (cases "index_of g = i") (auto simp: ht_map_def reserved_def)
  qed
qed

lemma card_map_domain:
  assumes "ht_inv N t fs"
  shows "card (dom (ht_map N t fs)) + length fs = unat N"
proof -
  let ?A = "{..<unat N} - set fs" and ?f = "\<lambda>i. handle_of i (m_counter_array t ! i)"
  have b: "unat N < 0x8000" and d: "distinct fs" and s: "set fs \<subseteq> {..<unat N}"
    using assms ichain_bounds [of "m_counter_array t" "m_indice_iter t" fs] by (simp_all add: ht_inv_def)
  have "dom (ht_map N t fs) = ?f ` ?A"
  proof (intro set_eqI iffI)
    fix h
    assume "h \<in> dom (ht_map N t fs)"
    then have "index_of h \<in> ?A" "drop_bit 15 h = ucast (m_counter_array t ! index_of h)" by (auto simp: ht_map_def split: if_splits)
    then show "h \<in> ?f ` ?A" using handle_eq_iff [OF index_of_less] by blast
  next
    fix h
    assume "h \<in> ?f ` ?A"
    then show "h \<in> dom (ht_map N t fs)" using b by (auto simp: ht_map_def index_of_handle_of handle_of_bits)
  qed
  moreover have "inj_on ?f ?A" using b by (intro inj_onI) (metis DiffD1 index_of_handle_of lessThan_iff order.strict_trans)
  moreover have "card ?A = unat N - length fs" using s d by (simp add: card_Diff_subset distinct_card)
  moreover have "length fs \<le> unat N" using assms by (simp add: ht_inv_def)
  ultimately show ?thesis by (simp add: card_image)
qed

lemma ht_Initialize_inv:
  assumes "unat N < 0x8000" and "length (m_counter_array t) = unat N" and "length (m_object_array t) = unat N"
    and "m_indice_iter t = - 1"
  shows "ht_inv N (ht_Initialize N t) (rev [0..<unat N]) \<and> ht_map N (ht_Initialize N t) (rev [0..<unat N]) = Map.empty \<and>
    m_counter_value (ht_Initialize N t) = 1"
proof -
  let ?t0 = "t\<lparr>m_active_handles := 0, m_counter_value := 1\<rparr>"
  let ?f = "\<lambda>i t. t\<lparr>m_object_array := (m_object_array t)[i := 0],
    m_counter_array := (m_counter_array t)[i := of_nat i - 1], m_indice_iter := of_nat i\<rparr>"
  have loop: "length (m_counter_array (fold ?f [0..<k] ?t0)) = unat N \<and> length (m_object_array (fold ?f [0..<k] ?t0)) = unat N \<and>
    (\<forall>i<k. m_object_array (fold ?f [0..<k] ?t0) ! i = 0) \<and>
    m_active_handles (fold ?f [0..<k] ?t0) = 0 \<and> m_counter_value (fold ?f [0..<k] ?t0) = 1 \<and>
    ichain (m_counter_array (fold ?f [0..<k] ?t0)) (m_indice_iter (fold ?f [0..<k] ?t0)) (rev [0..<k])"
    if "k \<le> unat N" for k
    using that
  proof (induction k)
    case 0
    then show ?case using assms by simp
  next
    case (Suc k)
    have e: "scast (of_nat k - 1 :: u16) = (if k = 0 then - 1 else of_nat (k - 1) :: u32)"
    proof (cases k)
      case 0
      have "scast (- 1 :: u16) = (- 1 :: u32)" by code_simp
      then show ?thesis using 0 by simp
    next
      case (Suc j)
      then have "j < 0x8000" using \<open>Suc k \<le> unat N\<close> assms(1) by simp
      then have "(of_nat j :: u16) < 0x8000" "ucast (of_nat j :: u16) = (of_nat j :: u32)"
        by (simp_all add: word_less_nat_alt word_eq_unat_iff unat_ucast_up of_nat_15)
      then show ?thesis using Suc small_counter(1) [of "of_nat j"] by simp
    qed
    have h: "m_indice_iter (fold ?f [0..<k] ?t0) = (if k = 0 then - 1 else of_nat (k - 1))"
      using Suc assms(4) by (cases k) auto
    show ?case using Suc e h by (auto simp: ichain_update nth_list_update)
  qed
  from loop [of "unat N"] have c: "m_counter_value (ht_Initialize N t) = 1" by (simp add: ht_Initialize_def)
  from loop [of "unat N"] have "ht_inv N (ht_Initialize N t) (rev [0..<unat N])"
    using assms(1) by (simp add: ht_Initialize_def ht_inv_def slot_ok_def)
  then show ?thesis using c by (auto simp: ht_map_def)
qed

lemma first_reserve:
  assumes "unat N = Suc n" and "n < 0x7fff" and "object \<noteq> 0"
  shows "\<exists>t. ht_ReserveHandle N object (ht_Initialize N (FixedHandleTable_construct N)) = Inr (Some (handle_of n 1), t)"
proof -
  let ?t = "ht_Initialize N (FixedHandleTable_construct N)"
  have "ht_inv N ?t (rev [0..<unat N]) \<and> m_counter_value ?t = 1"
    using ht_Initialize_inv [of N "FixedHandleTable_construct N"] assms by (simp add: FixedHandleTable_construct_def)
  then show ?thesis using ReserveHandle_value [of N ?t "rev [0..<unat N]" object] assms(1) by simp
qed

section \<open>The two tables\<close>

lemma u16_compare:
  assumes "(d :: u32) < 0x10000"
  shows "(ucast d :: u16) = c \<longleftrightarrow> d = ucast c"
proof -
  have "ucast (ucast d :: u16) = d"
    using assms
    by (simp add: word_eq_unat_iff unsigned_ucast_eq unsigned_take_bit_eq take_bit_nat_eq_self word_less_nat_alt)
  then show ?thesis by (auto simp: ucast_down_up)
qed

lemma s16_compare:
  assumes "(d :: u32) < 0x8000"
  shows "(ucast d :: u16) = c \<longleftrightarrow> d = scast c"
proof
  assume "(ucast d :: u16) = c"
  then have d: "d = ucast c" using u16_compare [of d c] assms by (simp add: word_less_nat_alt)
  then have "c < 0x8000" using assms by (simp add: word_less_nat_alt unat_ucast_up)
  then show "d = scast c" using d small_counter(1) by simp
next
  have "(ucast (scast c :: u32) :: u16) = c" by (rule bit_eqI) (auto simp: bit_simps)
  moreover assume "d = scast c"
  ultimately show "(ucast d :: u16) = c" by simp
qed

lemma drop_bit_bound:
  "drop_bit 30 (h :: u32) = 0 \<Longrightarrow> drop_bit 15 h < 0x8000" "drop_bit 15 (h AND 0x7fffffff :: u32) < 0x10000"
proof -
  have "unat (drop_bit 15 h) < 2 ^ 15" if "drop_bit 30 h = 0"
  proof -
    have "drop_bit 30 (unat h) = 0" using that by (metis unsigned_0 unsigned_drop_bit_eq take_bit_nat_eq_self_iff unsigned_less)
    then have "unat h < 2 ^ 30" by (simp add: drop_bit_eq_div div_eq_0_iff)
    then show ?thesis by (simp add: word_less_nat_alt unat_div less_mult_imp_div_less drop_bit_eq_div)
  qed
  then show "drop_bit 30 h = 0 \<Longrightarrow> drop_bit 15 h < 0x8000" by (simp add: word_less_nat_alt)
  have "h AND 0x7fffffff = take_bit 31 h" by (simp add: take_bit_eq_mask mask_eq_exp_minus_1)
  then have "unat (h AND 0x7fffffff) < 2 ^ 31" by (simp only: unsigned_take_bit_eq) (rule take_bit_nat_less_exp)
  then show "drop_bit 15 (h AND 0x7fffffff) < 0x10000"
    by (simp add: word_less_nat_alt unat_div drop_bit_eq_div less_mult_imp_div_less)
qed

lemma ukern_GetObjectByHandle_same: "ukern_GetObjectByHandle h t = ht_GetObjectByHandle 256 h t"
proof (cases "drop_bit 30 h = 0")
  case True
  from s16_compare [OF drop_bit_bound(1) [OF True]] show ?thesis
    unfolding ukern_GetObjectByHandle_def ht_GetObjectByHandle_def MaxHandles_def cHandleReserveBitOffset_def cCounterBitOffset_def Let_def
    by (simp cong: if_cong)
next
  case False
  then show ?thesis
    by (simp add: ukern_GetObjectByHandle_def ht_GetObjectByHandle_def cHandleReserveBitOffset_def cCounterBitOffset_def)
qed

lemma top_bit_off:
  fixes h :: u32
  shows "(h AND 0x7fffffff) AND 0x7fff = h AND 0x7fff"
    "(ucast (drop_bit 15 h) :: u16) = ucast (drop_bit 15 (h AND 0x7fffffff))"
proof -
  have m: "h AND 0x7fffffff = take_bit 31 h" by (simp add: take_bit_eq_mask mask_eq_exp_minus_1)
  show "(h AND 0x7fffffff) AND 0x7fff = h AND 0x7fff" by (simp add: and_7fff m)
  show "(ucast (drop_bit 15 h) :: u16) = ucast (drop_bit 15 (h AND 0x7fffffff))"
    unfolding m by (rule bit_eqI) (auto simp: bit_simps)
qed

lemma ukern_FreeHandle_same:
  assumes "ht_inv 256 t fs" and "index_of h \<noteq> 256"
  shows "ukern_FreeHandle h t = ht_FreeHandle 256 (h AND 0x7fffffff) t"
proof -
  let ?h = "h AND 0x7fffffff" and ?i = "index_of h"
  have ih: "index_of ?h = ?i" by (simp add: index_of_def top_bit_off)
  show ?thesis
  proof (cases "?i < 256")
    case True
    then have n: "\<not> 256 < h AND 0x7fff" by (simp add: index_of_def word_less_nat_alt)
    have l: "length (m_counter_array t) = 256" "length (m_object_array t) = 256" and ok: "slot_ok t fs ?i"
      using assms(1) True by (simp_all add: ht_inv_def)
    show ?thesis
    proof (cases "m_object_array t ! ?i = 0")
      case True
      then show ?thesis using n l \<open>?i < 256\<close> top_bit_off(1) [of h]
        by (simp add: ukern_FreeHandle_def ht_FreeHandle_def MaxHandles_def index_of_def)
    next
      case False
      let ?c = "m_counter_array t ! ?i"
      have c: "?c \<noteq> 0" "?c < 0x8000" using ok False by (auto simp: slot_ok_def split: if_splits)
      have eq: "(ucast (drop_bit 15 h) :: u16) = ?c \<longleftrightarrow> drop_bit 15 ?h = scast ?c"
        using u16_compare [OF drop_bit_bound(2)] top_bit_off(2) small_counter(1) [OF c(2)] by simp
      have sc: "scast ?c \<noteq> (0 :: u32)" using small_counter [OF c(2)] c(1) by simp
      have nz: "(ucast (drop_bit 15 h) :: u16) = ?c \<Longrightarrow> drop_bit 15 h \<noteq> 0 \<and> h \<noteq> 0 \<and> drop_bit 15 ?h \<noteq> 0 \<and> ?h \<noteq> 0"
      proof -
        assume "(ucast (drop_bit 15 h) :: u16) = ?c"
        then have "drop_bit 15 h \<noteq> 0" "drop_bit 15 ?h \<noteq> 0" using c(1) eq sc by auto
        then show ?thesis by (metis drop_bit_of_0)
      qed
      have "ukern_FreeHandle h t = (if (ucast (drop_bit 15 h) :: u16) = ?c then Inr (True, freed h t) else Inr (False, t))"
        using n l \<open>?i < 256\<close> False nz
        by (auto simp: ukern_FreeHandle_def MaxHandles_def index_of_def freed_def cCounterBitOffset_def Let_def)
      moreover have "ht_FreeHandle 256 ?h t = (if drop_bit 15 ?h = scast ?c then Inr (True, freed h t) else Inr (False, t))"
        using n l \<open>?i < 256\<close> False nz eq top_bit_off(1) [of h]
        by (auto simp: ht_FreeHandle_def index_of_def freed_def cCounterBitOffset_def Let_def)
      ultimately show ?thesis using eq by simp
    qed
  next
    case False
    then have "256 < h AND 0x7fff" using assms(2) by (simp add: index_of_def word_less_nat_alt)
    then show ?thesis using top_bit_off(1) [of h]
      by (simp add: ukern_FreeHandle_def ht_FreeHandle_def MaxHandles_def)
  qed
qed

section \<open>Properties\<close>

text \<open>The operations in any order, and the handles in use with their objects.\<close>

inductive table_run :: "u32 \<Rightarrow> handle_table \<Rightarrow> (u32 \<Rightarrow> u64 option) \<Rightarrow> bool" for N where
  initialized: "table_run N (ht_Initialize N (FixedHandleTable_construct N)) Map.empty"
| reserve: "table_run N t held \<Longrightarrow> object \<noteq> 0 \<Longrightarrow> ht_ReserveHandle N object t = Inr (Some h, t') \<Longrightarrow>
    table_run N t' (held(h \<mapsto> object))"
| free: "table_run N t held \<Longrightarrow> ht_FreeHandle N h t = Inr (True, t') \<Longrightarrow> table_run N t' (held(h := None))"

lemma table_run_inv:
  assumes "table_run N t held" and N: "unat N < 0x8000"
  shows "\<exists>fs. ht_inv N t fs \<and> held = ht_map N t fs"
  using assms(1)
proof (induction rule: table_run.induct)
  case initialized
  then show ?case using ht_Initialize_inv [OF N, of "FixedHandleTable_construct N"]
    by (intro exI [of _ "rev [0..<unat N]"]) (simp add: FixedHandleTable_construct_def)
next
  case (reserve t held object h t')
  then obtain fs where fs: "ht_inv N t fs" "held = ht_map N t fs" by blast
  then obtain i gs where *: "fs = i # gs" "h = handle_of i (m_counter_value t)" "t' = reserved i object t"
    using reserve.hyps(3) ReserveHandle_value [OF fs(1)] by (auto split: list.splits)
  then show ?case using reserved_inv [of N t i gs object] reserve.hyps(2) fs by metis
next
  case (free t held h t')
  then obtain fs where fs: "ht_inv N t fs" "held = ht_map N t fs" by blast
  show ?case
  proof (cases "index_of h = unat N")
    case True
    then show ?thesis using free.hyps(2) FreeHandle_beyond [OF fs(1) True] by (simp split: if_splits)
  next
    case False
    then obtain p where "t' = freed h t" "ht_map N t fs h = Some p"
      using free.hyps(2) FreeHandle_value [OF fs(1)] by (auto split: if_splits)
    then show ?thesis using freed_inv [OF fs(1)] fs(2) by metis
  qed
qed

text \<open>
  C17: whatever was reserved and freed before, a handle table is the map from the handles in use to their
  objects: \<open>GetObjectByHandle\<close> answers the object of a handle in use and null for every other value, stale
  handles included, \<open>FreeHandle\<close> succeeds exactly on a handle in use, and \<open>ReserveHandle\<close> answers a new
  handle unless all of the \<open>HandleCount\<close> slots are taken.  The one exception is a value with the index
  \<open>HandleCount\<close>: the bounds test lets it pass and the counters are read one past their end.
\<close>

theorem handle_table_refines:
  assumes "table_run N t held" and "unat N < 0x8000"
  shows "(\<forall>h. index_of h \<noteq> unat N \<longrightarrow>
      ht_GetObjectByHandle N h t = Inr (case held h of None \<Rightarrow> 0 | Some p \<Rightarrow> p) \<and>
      (\<exists>t'. ht_FreeHandle N h t = Inr (held h \<noteq> None, t'))) \<and>
    (\<forall>p. \<exists>r t'. ht_ReserveHandle N p t = Inr (r, t') \<and> (r = None \<longleftrightarrow> card (dom held) = unat N) \<and>
      (\<forall>h. r = Some h \<longrightarrow> held h = None)) \<and>
    (\<forall>h. index_of h = unat N \<and> drop_bit 15 h \<noteq> 0 \<longrightarrow> ht_FreeHandle N h t = Inl Out_Of_Bounds)"
proof -
  obtain fs where fs: "ht_inv N t fs" "held = ht_map N t fs" using table_run_inv [OF assms] by blast
  have g: "ht_GetObjectByHandle N h t = Inr (case held h of None \<Rightarrow> 0 | Some p \<Rightarrow> p)"
    "\<exists>t'. ht_FreeHandle N h t = Inr (held h \<noteq> None, t')" if "index_of h \<noteq> unat N" for h
    using GetObjectByHandle_spec [OF fs(1) that] FreeHandle_value [OF fs(1) that] fs(2) by auto
  have r: "\<exists>r t'. ht_ReserveHandle N p t = Inr (r, t') \<and> (r = None \<longleftrightarrow> card (dom held) = unat N) \<and>
    (\<forall>h. r = Some h \<longrightarrow> held h = None)" for p
  proof (cases fs)
    case Nil
    then show ?thesis using ReserveHandle_value [OF fs(1), of p] card_map_domain [OF fs(1)] fs(2) by simp
  next
    case (Cons i gs)
    have "held (handle_of i (m_counter_value t)) = None"
      using reserved_inv(2) [of N t i gs 1] fs Cons by simp
    then show ?thesis using ReserveHandle_value [OF fs(1), of p] card_map_domain [OF fs(1)] fs(2) Cons by simp
  qed
  have o: "ht_FreeHandle N h t = Inl Out_Of_Bounds" if "index_of h = unat N" "drop_bit 15 h \<noteq> 0" for h
    using FreeHandle_beyond [OF fs(1) that(1)] that(2) by simp
  show ?thesis using g r o by blast
qed

theorem handle_table_refines_witness:
  "\<exists>t. table_run 2 t [0x8001 \<mapsto> 7] \<and> ht_GetObjectByHandle 2 0x8001 t = Inr 7 \<and>
     ht_FreeHandle 2 0x8002 t = Inl Out_Of_Bounds"
proof -
  let ?t0 = "ht_Initialize 2 (FixedHandleTable_construct 2)"
  have e: "ht_ReserveHandle 2 7 ?t0 = Inr (Some 0x8001, snd (projr (ht_ReserveHandle 2 7 ?t0)))" by code_simp
  have r: "table_run 2 (snd (projr (ht_ReserveHandle 2 7 ?t0))) [0x8001 \<mapsto> 7]"
    by (rule table_run.reserve [OF table_run.initialized _ e]) simp
  have i: "index_of 0x8001 = 1" "index_of 0x8002 = 2" "drop_bit 15 (0x8002 :: u32) \<noteq> 0" by code_simp+
  let ?t = "snd (projr (ht_ReserveHandle 2 7 ?t0))"
  from handle_table_refines [OF r] have
    "\<forall>h. index_of h \<noteq> 2 \<longrightarrow> ht_GetObjectByHandle 2 h ?t = Inr (case [0x8001 \<mapsto> 7] h of None \<Rightarrow> 0 | Some p \<Rightarrow> p)"
    "\<forall>h. index_of h = 2 \<and> drop_bit 15 h \<noteq> 0 \<longrightarrow> ht_FreeHandle 2 h ?t = Inl Out_Of_Bounds" by simp_all
  from spec [OF this(1), of "0x8001"] spec [OF this(2), of "0x8002"] i r show ?thesis by (intro exI [of _ ?t]) simp
qed

text \<open>
  on every reachable table of 256 slots the handle table of the user mode kernel is the fixed handle
  table, except that its \<open>FreeHandle\<close> ignores the top bit of the handle: with that bit set it frees the
  handle without it.
\<close>

theorem ukern_handle_table_same:
  assumes "table_run 256 t held" and "index_of h \<noteq> 256"
  shows "ukern_GetObjectByHandle h t = ht_GetObjectByHandle 256 h t \<and>
    ukern_ReserveHandle p t = ht_ReserveHandle 256 p t \<and>
    ukern_FreeHandle h t = ht_FreeHandle 256 (h AND 0x7fffffff) t"
proof (intro conjI)
  obtain fs where inv: "ht_inv 256 t fs" using table_run_inv [OF assms(1)] by auto
  show "ukern_ReserveHandle p t = ht_ReserveHandle 256 p t"
    by (simp add: ukern_ReserveHandle_def ht_ReserveHandle_def MaxHandles_def)
  show "ukern_GetObjectByHandle h t = ht_GetObjectByHandle 256 h t"
    by (rule ukern_GetObjectByHandle_same)
  show "ukern_FreeHandle h t = ht_FreeHandle 256 (h AND 0x7fffffff) t"
    using ukern_FreeHandle_same [OF inv] assms(2) by simp
qed

theorem ukern_handle_table_same_witness:
  "\<exists>t t'. table_run 256 t [0x80ff \<mapsto> 7] \<and> ht_FreeHandle 256 0x800080ff t = Inr (False, t) \<and>
     ukern_FreeHandle 0x800080ff t = Inr (True, t')"
proof -
  obtain t where e: "ht_ReserveHandle 256 7 (ht_Initialize 256 (FixedHandleTable_construct 256)) = Inr (Some (handle_of 255 1), t)"
    using first_reserve [of 256 255 7] by auto
  have i: "handle_of 255 1 = 0x80ff" "index_of 0x800080ff = 255" "index_of 0x80ff = 255" "0x800080ff AND 0x7fffffff = (0x80ff :: u32)"
    by code_simp+
  have r: "table_run 256 t [0x80ff \<mapsto> 7]"
    using table_run.reserve [OF table_run.initialized _ e] by (simp add: i)
  obtain fs where fs: "ht_inv 256 t fs" "ht_map 256 t fs = [0x80ff \<mapsto> 7]" using table_run_inv [OF r] by auto
  have "ht_FreeHandle 256 0x80ff t = Inr (True, freed 0x80ff t)" "ht_FreeHandle 256 0x800080ff t = Inr (False, t)"
    using FreeHandle_value [OF fs(1), of "0x80ff"] FreeHandle_value [OF fs(1), of "0x800080ff"] i fs(2) by simp_all
  with ukern_handle_table_same [OF r, of "0x800080ff" 0] i r show ?thesis by auto
qed

end
