(* ===== verification/Object_Allocator.thy ===== *)
theory Object_Allocator
  imports Slot_Contract
begin

text \<open>
  \<open>vp::util::FixedObjectAllocator\<close> (\<open>util_fixedobjectallocator.hpp\<close>) and \<open>HeapObjectAllocator\<close>
  (\<open>util_heapobjectallocator.hpp\<close>): objects of \<open>sizeof(T)\<close> bytes in one array, a free object holds the
  pointer to the next free one in its first word.  \<open>next\<close> is that word of memory by address; the
  constructor of \<open>T\<close> is a parameter, the word it leaves there.
\<close>

record object_allocator =
  m_free_list :: u64
  m_start_address :: u64
  next_word :: "u64 \<Rightarrow> u64"

definition HeapObjectAllocator_construct :: "(u64 \<Rightarrow> u64) \<Rightarrow> object_allocator" where
  "HeapObjectAllocator_construct mem = \<lparr>m_free_list = 0, m_start_address = 0, next_word = mem\<rparr>"

text \<open>\<open>for (u32 i = 0; i < n; ++i) list_array[i].next = list_array + i + 1\<close>\<close>

function link_nodes :: "u32 \<Rightarrow> u32 \<Rightarrow> u64 \<Rightarrow> u64 \<Rightarrow> (u64 \<Rightarrow> u64) \<Rightarrow> (u64 \<Rightarrow> u64)" where
  "link_nodes i n list_array sizeof_T m =
     (if i < n then link_nodes (i + 1) n list_array sizeof_T
        (m(list_array + ucast i * sizeof_T := list_array + ucast i * sizeof_T + sizeof_T))
      else m)"
  by auto
termination
  by (relation "measure (\<lambda>(i, n, b, s, m). unat n - unat i)") (auto simp: unat_Suc_less word_less_nat_alt)

declare link_nodes.simps [simp del]

text \<open>\<open>Initialize\<close> from a heap, \<open>allocation\<close> its answer, and from a buffer.\<close>

definition object_Initialize_heap :: "u64 \<Rightarrow> u64 \<Rightarrow> u32 \<Rightarrow> object_allocator \<Rightarrow> bool \<times> object_allocator" where
  "object_Initialize_heap sizeof_T allocation element_count a =
     (if element_count = 0 then (False, a)
      else if allocation = 0 then (False, a)
      else let a = a\<lparr>m_start_address := allocation, m_free_list := allocation\<rparr>
           in (True, a\<lparr>next_word := link_nodes 0 (element_count - 1) allocation sizeof_T (next_word a)\<rparr>))"

definition object_Initialize_buffer :: "u64 \<Rightarrow> u64 \<Rightarrow> u32 \<Rightarrow> object_allocator \<Rightarrow> bool \<times> object_allocator" where
  "object_Initialize_buffer sizeof_T buffer element_count a =
     (if element_count = 0 \<or> buffer = 0 then (False, a)
      else let a = a\<lparr>m_start_address := buffer, m_free_list := buffer\<rparr>
           in (True, a\<lparr>next_word := link_nodes 0 (element_count - 1) buffer sizeof_T (next_word a)\<rparr>))"

definition object_Finalize :: "object_allocator \<Rightarrow> object_allocator" where
  "object_Finalize a = (if m_start_address a \<noteq> 0 then a\<lparr>m_start_address := 0, m_free_list := 0\<rparr> else a)"

definition object_Allocate :: "(u64 \<Rightarrow> u64) \<Rightarrow> object_allocator \<Rightarrow> u64 \<times> object_allocator" where
  "object_Allocate construct a =
     (if m_free_list a = 0 then (0, a)
      else let allocation = m_free_list a;
               a = a\<lparr>m_free_list := next_word a (m_free_list a)\<rparr>
           in (allocation, a\<lparr>next_word := (next_word a)(allocation := construct allocation)\<rparr>))"

definition object_Free :: "u64 \<Rightarrow> object_allocator \<Rightarrow> object_allocator" where
  "object_Free allocated_object a =
     (let a = a\<lparr>next_word := (next_word a)(allocated_object := m_free_list a)\<rparr>
      in a\<lparr>m_free_list := allocated_object\<rparr>)"

text \<open>
  The fixed allocator holds the array itself, at \<open>m_start_address\<close> here; its constructor clears it,
  and its \<open>Free\<close> checks the range.
\<close>

definition FixedObjectAllocator_construct :: "u64 \<Rightarrow> u64 \<Rightarrow> u32 \<Rightarrow> (u64 \<Rightarrow> u64) \<Rightarrow> object_allocator" where
  "FixedObjectAllocator_construct sizeof_T array Count mem =
     (let cleared = (\<lambda>p. if array \<le> p \<and> p < array + ucast Count * sizeof_T then 0 else mem p)
      in \<lparr>m_free_list = array, m_start_address = array, next_word = link_nodes 0 (Count - 1) array sizeof_T cleared\<rparr>)"

definition fixed_object_Allocate :: "(u64 \<Rightarrow> u64) \<Rightarrow> object_allocator \<Rightarrow> u64 \<times> object_allocator" where
  "fixed_object_Allocate construct a =
     (if m_free_list a = 0 then (0, a)
      else let allocation = m_free_list a;
               a = a\<lparr>m_free_list := next_word a (m_free_list a)\<rparr>
           in (allocation, a\<lparr>next_word := (next_word a)(allocation := construct allocation)\<rparr>))"

definition fixed_object_Free :: "u64 \<Rightarrow> u32 \<Rightarrow> u64 \<Rightarrow> object_allocator \<Rightarrow> object_allocator result" where
  "fixed_object_Free sizeof_T Count allocated_object a =
     bind_result (vp_assert (m_start_address a \<le> allocated_object \<and>
         allocated_object < m_start_address a + ucast Count * sizeof_T)) (\<lambda>_.
       let a = a\<lparr>next_word := (next_word a)(allocated_object := m_free_list a)\<rparr>
       in Inr (a\<lparr>m_free_list := allocated_object\<rparr>))"

section \<open>The free list in memory\<close>

fun node_chain :: "(u64 \<Rightarrow> u64) \<Rightarrow> u64 \<Rightarrow> u64 list \<Rightarrow> u64 \<Rightarrow> bool" where
  "node_chain m p [] e \<longleftrightarrow> p = e"
| "node_chain m p (x # xs) e \<longleftrightarrow> p = x \<and> x \<noteq> 0 \<and> node_chain m (m x) xs e"

lemma node_chain_update: "x \<notin> set xs \<Longrightarrow> node_chain (m(x := v)) p xs e = node_chain m p xs e"
  by (induction xs arbitrary: p) auto

text \<open>The array of objects.\<close>

definition object_at :: "u64 \<Rightarrow> u64 \<Rightarrow> nat \<Rightarrow> u64" where
  "object_at base sizeof_T i = base + of_nat i * sizeof_T"

definition objects :: "u64 \<Rightarrow> u64 \<Rightarrow> u32 \<Rightarrow> u64 list" where
  "objects base sizeof_T n = map (object_at base sizeof_T) [0..<unat n]"

definition array_fits :: "u64 \<Rightarrow> u64 \<Rightarrow> u32 \<Rightarrow> bool" where
  "array_fits base sizeof_T n \<longleftrightarrow>
     base \<noteq> 0 \<and> sizeof_T \<noteq> 0 \<and> n \<noteq> 0 \<and> unat base + unat n * unat sizeof_T < 2 ^ 64"

lemma array_fits_pos: "array_fits base sz n \<Longrightarrow> 0 < unat base \<and> 0 < unat sz \<and> 0 < unat n"
  by (simp add: array_fits_def unat_gt_0)

lemma unat_object_at:
  assumes "array_fits base sz n" and "i \<le> unat n"
  shows "unat (object_at base sz i) = unat base + i * unat sz"
proof -
  have "i * unat sz \<le> unat n * unat sz" using assms(2) by (rule mult_le_mono1)
  then have b: "unat base + i * unat sz < 2 ^ 64" using assms(1) unfolding array_fits_def by linarith
  have "unat (of_nat (unat base + i * unat sz) :: u64) = unat base + i * unat sz"
    by (rule unat_of_nat_less) (use b in simp)
  then show ?thesis by (simp add: object_at_def)
qed

lemma object_at_inj:
  assumes "array_fits base sz n" and "i \<le> unat n" and "j \<le> unat n"
  shows "object_at base sz i = object_at base sz j \<longleftrightarrow> i = j"
  using unat_object_at [OF assms(1,2)] unat_object_at [OF assms(1,3)] array_fits_pos [OF assms(1)]
  by (auto simp: word_eq_unat_iff)

lemma object_at_nonzero: "array_fits base sz n \<Longrightarrow> i \<le> unat n \<Longrightarrow> object_at base sz i \<noteq> 0"
  using unat_object_at array_fits_pos by (auto simp: word_eq_unat_iff)

lemma objects_facts:
  assumes "array_fits base sz n"
  shows "distinct (objects base sz n)" "length (objects base sz n) = unat n" "0 \<notin> set (objects base sz n)"
    "card (set (objects base sz n)) = unat n"
proof -
  show d: "distinct (objects base sz n)"
    by (auto simp: objects_def distinct_map inj_on_def object_at_inj [OF assms])
  show l: "length (objects base sz n) = unat n" by (simp add: objects_def)
  show "0 \<notin> set (objects base sz n)" using object_at_nonzero [OF assms] by (fastforce simp: objects_def)
  show "card (set (objects base sz n)) = unat n" using d l by (simp add: distinct_card)
qed

lemma link_nodes_at:
  assumes "array_fits base sz n" and "unat k \<le> unat n" and "unat i \<le> unat k"
  shows "link_nodes i k base sz m p =
    (if \<exists>j. unat i \<le> j \<and> j < unat k \<and> p = object_at base sz j then p + sz else m p)"
  using assms(3)
proof (induction "unat k - unat i" arbitrary: i m)
  case 0
  then have "\<not> i < k" by (simp add: word_less_nat_alt)
  then show ?case using 0 by (subst link_nodes.simps) auto
next
  case (Suc d)
  then have ik: "i < k" by (simp add: word_less_nat_alt)
  note S = unat_Suc_less [OF ik]
  have at: "base + ucast i * sz = object_at base sz (unat i)" by (simp add: object_at_def)
  let ?m = "m(object_at base sz (unat i) := object_at base sz (unat i) + sz)"
  have "link_nodes i k base sz m p = link_nodes (i + 1) k base sz ?m p"
    by (subst link_nodes.simps) (simp add: ik at)
  also have "\<dots> = (if \<exists>j. unat (i + 1) \<le> j \<and> j < unat k \<and> p = object_at base sz j then p + sz else ?m p)"
    using Suc.hyps(2) S ik by (intro Suc.hyps(1)) (auto simp: word_less_nat_alt)
  also have "\<dots> = (if \<exists>j. unat i \<le> j \<and> j < unat k \<and> p = object_at base sz j then p + sz else m p)"
    using S ik by (auto simp: word_less_nat_alt Suc_le_eq le_less)
  finally show ?case .
qed

lemma object_at_Suc: "object_at base sz (Suc i) = object_at base sz i + sz"
  by (simp add: object_at_def algebra_simps)

lemma linked_chain:
  assumes "array_fits base sz n"
  shows "node_chain (link_nodes 0 (n - 1) base sz m) base (objects base sz n) (m (object_at base sz (unat n - 1)))"
proof -
  have n1: "unat (n - 1) = unat n - 1" using array_fits_pos [OF assms] by (intro unat_sub_nowrap [THEN trans]) auto
  let ?m = "link_nodes 0 (n - 1) base sz m"
  have at: "?m (object_at base sz i) = (if i < unat n - 1 then object_at base sz (Suc i) else m (object_at base sz i))"
    if "i < unat n" for i
  proof -
    have "i = j" if "j < unat n - 1" "object_at base sz i = object_at base sz j" for j
      using that object_at_inj [OF assms less_imp_le [OF \<open>i < unat n\<close>], of j] by simp
    then have "(\<exists>j<unat n - 1. object_at base sz i = object_at base sz j) \<longleftrightarrow> i < unat n - 1"
      by blast
    then show ?thesis using link_nodes_at [OF assms, of "n - 1" 0] n1 by (simp add: object_at_Suc)
  qed
  have "node_chain ?m (object_at base sz k) (map (object_at base sz) [k..<unat n]) (m (object_at base sz (unat n - 1)))"
    if "k < unat n" for k
    using that
  proof (induction "unat n - k" arbitrary: k)
    case (Suc d)
    have z: "object_at base sz k \<noteq> 0" using object_at_nonzero [OF assms] Suc.prems by simp
    show ?case
    proof (cases "Suc k < unat n")
      case True
      then have "node_chain ?m (object_at base sz (Suc k)) (map (object_at base sz) [Suc k..<unat n]) (m (object_at base sz (unat n - 1)))"
        using Suc.hyps(2) by (intro Suc.hyps(1)) auto
      then show ?thesis using Suc.prems z at [OF Suc.prems] True by (simp add: upt_conv_Cons less_diff_conv)
    next
      case False
      then have "[k..<unat n] = [k]" "k = unat n - 1" using Suc.prems by (simp_all add: upt_conv_Cons)
      then show ?thesis using z at [OF Suc.prems] by simp
    qed
  qed simp
  from this [of 0] array_fits_pos [OF assms] show ?thesis by (simp add: objects_def object_at_def)
qed

section \<open>The contract\<close>

definition object_rep :: "u64 list \<Rightarrow> object_allocator \<Rightarrow> u64 list \<Rightarrow> bool" where
  "object_rep all a fs \<longleftrightarrow> 0 \<notin> set all \<and> distinct fs \<and> set fs \<subseteq> set all \<and> node_chain (next_word a) (m_free_list a) fs 0"

definition object_take :: "(u64 \<Rightarrow> u64) \<Rightarrow> object_allocator \<Rightarrow> (u64 \<times> object_allocator) option" where
  "object_take construct a = (let (p, a) = object_Allocate construct a in if p = 0 then None else Some (p, a))"

definition object_give :: "u64 \<Rightarrow> object_allocator \<Rightarrow> object_allocator option" where
  "object_give p a = Some (object_Free p a)"

lemma object_Allocate_first:
  assumes "object_rep all a (p # fs)"
  shows "p \<noteq> 0" "\<exists>a'. object_Allocate construct a = (p, a') \<and> object_rep all a' fs"
  using assms by (auto simp: object_rep_def object_Allocate_def Let_def node_chain_update)

lemma object_Free_rep:
  assumes "object_rep all a fs" and "p \<in> set all" and "p \<notin> set fs"
  shows "object_rep all (object_Free p a) (p # fs)"
  using assms by (auto simp: object_rep_def object_Free_def Let_def node_chain_update)

interpretation ob: slot_allocator "object_rep all" "\<lambda>_. set all" "object_take construct" object_give for all construct
proof (unfold_locales, goal_cases)
  case (1 s fs)
  then show ?case by (simp add: object_rep_def)
next
  case (2 s i fs)
  then show ?case using object_Allocate_first(1) [OF 2] object_Allocate_first(2) [OF 2, of construct] by (auto simp: object_take_def)
next
  case (3 s)
  then show ?case by (simp add: object_rep_def object_take_def object_Allocate_def)
next
  case (4 s fs i)
  then show ?case using object_Free_rep by (simp add: object_give_def)
qed

lemma life_start_address:
  assumes "slot_life (object_take construct) object_give a s held"
  shows "m_start_address s = m_start_address a"
  using assms
  by (induction rule: slot_life.induct)
    (auto simp: object_take_def object_give_def object_Allocate_def object_Free_def Let_def split: if_splits)

lemma fixed_Allocate_same: "fixed_object_Allocate = object_Allocate"
  by (simp add: fun_eq_iff fixed_object_Allocate_def object_Allocate_def)

lemma objects_range:
  assumes "array_fits base sz n" and "p \<in> set (objects base sz n)"
  shows "base \<le> p \<and> p < base + ucast n * sz"
proof -
  obtain i where i: "i < unat n" "p = object_at base sz i" using assms(2) by (auto simp: objects_def)
  have e: "base + ucast n * sz = object_at base sz (unat n)" by (simp add: object_at_def)
  show ?thesis using i unat_object_at [OF assms(1), of i] unat_object_at [OF assms(1), of "unat n"] array_fits_pos [OF assms(1)]
    by (simp add: e word_order_nat)
qed

lemma FixedObjectAllocator_rep:
  assumes "array_fits base sz n"
  shows "object_rep (objects base sz n) (FixedObjectAllocator_construct sz base n mem) (objects base sz n)"
proof -
  have "object_at base sz (unat n - 1) \<in> set (objects base sz n)" using array_fits_pos [OF assms] by (simp add: objects_def)
  from objects_range [OF assms this] linked_chain [OF assms, of "\<lambda>p. if base \<le> p \<and> p < base + ucast n * sz then 0 else mem p"]
  show ?thesis using objects_facts [OF assms] by (simp add: object_rep_def FixedObjectAllocator_construct_def Let_def)
qed

lemma Initialize_buffer_chain:
  assumes "array_fits base sz n"
  shows "\<exists>a'. object_Initialize_buffer sz base n a = (True, a') \<and> m_start_address a' = base \<and>
    node_chain (next_word a') (m_free_list a') (objects base sz n) (next_word a (object_at base sz (unat n - 1)))"
  using linked_chain [OF assms, of "next_word a"] assms by (simp add: object_Initialize_buffer_def array_fits_def Let_def)

lemma Initialize_heap_same:
  "object_Initialize_heap sz p n a = object_Initialize_buffer sz p n a"
  by (simp add: object_Initialize_heap_def object_Initialize_buffer_def)

section \<open>Properties\<close>

text \<open>
  a fixed object allocator serves exactly \<open>Count\<close> clients: over any sequence of allocations and
  frees the objects held are different members of its array, \<open>Allocate\<close> answers null only when all are
  held and otherwise an object nobody holds, and the object freed last is the next to be allocated.
  \<open>Free\<close> of a member of the array passes its assertion.
\<close>

theorem fixed_object_allocator_serves:
  assumes "array_fits base sz n"
    and life: "slot_life (object_take construct) object_give (FixedObjectAllocator_construct sz base n mem) s held"
  shows "distinct held \<and> set held \<subseteq> set (objects base sz n) \<and>
    (fst (fixed_object_Allocate construct s) = 0 \<longleftrightarrow> length held = unat n) \<and>
    fst (fixed_object_Allocate construct s) \<in> insert 0 (set (objects base sz n) - set held) \<and>
    (\<forall>p\<in>set held. \<exists>s'. fixed_object_Free sz n p s = Inr s' \<and> fst (fixed_object_Allocate construct s') = p)"
proof -
  note O = objects_facts [OF assms(1)]
  note L = life FixedObjectAllocator_rep [OF assms(1)] refl
  obtain fs where fs: "object_rep (objects base sz n) s fs" "distinct (held @ fs)" "set (held @ fs) = set (objects base sz n)"
    using ob.slot_life_rep [OF L] by blast
  have len: "length held + length fs = unat n" using O(4) distinct_card [OF fs(2)] fs(3) by simp
  have a: "fst (object_Allocate construct s) = (case fs of [] \<Rightarrow> 0 | p # _ \<Rightarrow> p)"
    using fs(1) object_Allocate_first [of "objects base sz n" s] by (cases fs) (auto simp: object_rep_def object_Allocate_def)
  have z: "0 \<notin> set fs" using O(3) fs(3) by auto
  have b: "m_start_address s = base" using life_start_address [OF life] by (simp add: FixedObjectAllocator_construct_def Let_def)
  have f: "\<exists>s'. fixed_object_Free sz n p s = Inr s' \<and> fst (object_Allocate construct s') = p"
    if "p \<in> set held" for p
  proof -
    have p: "p \<in> set (objects base sz n)" "p \<notin> set fs" using that fs by auto
    have "fixed_object_Free sz n p s = Inr (object_Free p s)"
      using objects_range [OF assms(1) p(1)] b by (simp add: fixed_object_Free_def object_Free_def Let_def)
    moreover have "p \<noteq> 0" using p(1) O(3) by auto
    ultimately show ?thesis by (simp add: object_Free_def object_Allocate_def Let_def)
  qed
  show ?thesis using fs(2,3) len a z f unfolding fixed_Allocate_same
    by (cases fs) auto
qed

theorem fixed_object_allocator_serves_witness:
  "\<exists>s. slot_life (object_take (\<lambda>_. 5)) object_give (FixedObjectAllocator_construct 8 0x100 2 (\<lambda>_. 9)) s [0x108, 0x100] \<and>
     fst (fixed_object_Allocate (\<lambda>_. 5) s) = 0 \<and>
     (\<exists>s'. fixed_object_Free 8 2 0x100 s = Inr s' \<and> fst (fixed_object_Allocate (\<lambda>_. 5) s') = 0x100)"
proof -
  let ?a = "FixedObjectAllocator_construct 8 0x100 2 (\<lambda>_. 9)" and ?t = "object_take (\<lambda>_. 5)"
  have fit: "array_fits 0x100 8 2" by (simp add: array_fits_def)
  have o: "objects 0x100 8 2 = [0x100, 0x108]" by code_simp
  note r = FixedObjectAllocator_rep [OF fit, of "\<lambda>_. 9", unfolded o]
  obtain b where b: "?t ?a = Some (0x100, b)" "object_rep [0x100, 0x108] b [0x108]"
    using ob.take_first [OF r, of "\<lambda>_. 5"] by blast
  obtain c where c: "?t b = Some (0x108, c)" using ob.take_first [OF b(2), of "\<lambda>_. 5"] by blast
  have l: "slot_life ?t object_give ?a c [0x108, 0x100]"
    by (rule slot_life.taken [where s = b], rule slot_life.taken [where s = ?a], rule slot_life.start) (rule b c)+
  from fixed_object_allocator_serves [OF fit l] l show ?thesis by (intro exI [of _ c]) simp
qed

text \<open>
  \<open>HeapObjectAllocator::Initialize\<close> leaves the last pointer of the free list as it finds it in memory,
  so after \<open>element_count\<close> allocations \<open>Allocate\<close> answers null only if that word happened to be zero, and
  otherwise answers the word itself, an object outside the array.
\<close>

theorem heap_object_allocator_runs_out:
  assumes "array_fits base sz n" and "object_Initialize_buffer sz base n a0 = (True, a)"
    and "next_word a0 (object_at base sz (unat n - 1)) = garbage"
  shows "fst (object_Allocate construct (((\<lambda>a. snd (object_Allocate construct a)) ^^ unat n) a)) = garbage \<and>
    (\<forall>i<unat n. fst (object_Allocate construct (((\<lambda>a. snd (object_Allocate construct a)) ^^ i) a)) = object_at base sz i)"
proof -
  let ?al = "\<lambda>a. snd (object_Allocate construct a)"
  have step: "fst (object_Allocate construct a) = p \<and> node_chain (next_word (?al a)) (m_free_list (?al a)) fs e"
    if "node_chain (next_word a) (m_free_list a) (p # fs) e" "p \<notin> set fs" for a p fs e
    using that by (auto simp: object_Allocate_def Let_def node_chain_update)
  have many: "(\<forall>i<length fs. fst (object_Allocate construct ((?al ^^ i) a)) = fs ! i) \<and> m_free_list ((?al ^^ length fs) a) = e"
    if "node_chain (next_word a) (m_free_list a) fs e" "distinct fs" for a fs e
    using that
  proof (induction fs arbitrary: a)
    case (Cons p fs)
    then have s: "fst (object_Allocate construct a) = p" "node_chain (next_word (?al a)) (m_free_list (?al a)) fs e"
      using step [of a p fs e] by auto
    from Cons.IH [OF s(2)] Cons.prems(2) s(1) show ?case
      by (auto simp: funpow_Suc_right less_Suc_eq_0_disj simp del: funpow.simps)
  qed simp
  from Initialize_buffer_chain [OF assms(1), of a0] assms(2,3)
  have c: "node_chain (next_word a) (m_free_list a) (objects base sz n) garbage" by simp
  from many [OF c objects_facts(1) [OF assms(1)]]
  have *: "\<forall>i<unat n. fst (object_Allocate construct ((?al ^^ i) a)) = objects base sz n ! i"
    "m_free_list ((?al ^^ unat n) a) = garbage" by (simp_all add: objects_facts [OF assms(1)])
  then show ?thesis by (simp add: object_Allocate_def Let_def objects_def)
qed

theorem heap_object_allocator_runs_out_witness:
  "fst (object_Allocate (\<lambda>_. 5) (((\<lambda>a. snd (object_Allocate (\<lambda>_. 5) a)) ^^ 2)
     (snd (object_Initialize_buffer 8 0x100 2 (HeapObjectAllocator_construct (\<lambda>_. 9)))))) = 9"
proof -
  let ?a0 = "HeapObjectAllocator_construct (\<lambda>_. 9)"
  have fit: "array_fits 0x100 8 2" by (simp add: array_fits_def)
  have "object_Initialize_buffer 8 0x100 2 ?a0 = (True, snd (object_Initialize_buffer 8 0x100 2 ?a0))"
    by (simp add: object_Initialize_buffer_def Let_def)
  from heap_object_allocator_runs_out [OF fit this, of 9] show ?thesis by (simp add: HeapObjectAllocator_construct_def)
qed

end
