(* ===== verification/Fiber.thy ===== *)
theory Fiber
  imports Run List_Rings Ring_Buffer Priority_Queue Handle_Table Object_Allocator
begin

text \<open>
  The state of the user scheduler (\<open>ukern_scheduler.hpp\<close>, \<open>ukern_fiberlocalstorage.h\<close>) and what its
  parts do to a fiber: \<open>AddToSchedulerUnsafe\<close>, the end and the cancellation of a wait
  (\<open>ukern_waitableobject.hpp\<close>), the hand over of a lock (\<open>ukern_fiberlocalstorage.cpp\<close>).

  A \<open>FiberLocalStorage\<close> is named by its address.  The wait lists are intrusive, so a node is one of the
  sentinel of \<open>UserScheduler::m_wait_list\<close>, the sentinel \<open>wait_list\<close> of a fiber and the node
  \<open>wait_list_node\<close> of a fiber, and all of them share one store of links.  A loop over a wait list that
  treats a sentinel as the node of a fiber and reads a field of it is the fault \<open>Bad_Reference\<close>; a loop
  may also not end, so the operations with such loops answer an option, where \<open>None\<close> is the operation
  that does not return.
\<close>

section \<open>Fibers\<close>

type_synonym fiber_ptr = u64

datatype list_node = Wait_List | Fiber_List fiber_ptr | Fiber_Node fiber_ptr

datatype fiber_state = FiberState_Unscheduled | FiberState_Scheduled | FiberState_ScheduledLocal
  | FiberState_Running | FiberState_Exiting | FiberState_Waiting | FiberState_Suspended

datatype waitable_object = LockArbiter | KeyArbiter | WaitAddressArbiter | TimeWaiter

datatype ukern_result = ResultSuccess | ResultTimeout | ResultInvalidThreadFunctionPointer | ResultInvalidStackSize
  | ResultInvalidPriority | ResultInvalidCoreId | ResultThreadStorageExhaustion | ResultHandleExhaustion
  | ResultInvalidHandle | ResultSamePriority | ResultInvalidCoreMask | ResultSameCoreMask | ResultSameActivityLevel
  | ResultInvalidAddress | ResultInvalidLockAddressValue | ResultRequiresLock | ResultInvalidWaitAddressValue
  | ResultInvalidArbitrationType | ResultInvalidSignalType

definition ActivityLevel_Suspended :: u16 where "ActivityLevel_Suspended = 0"
definition ActivityLevel_Schedulable :: u16 where "ActivityLevel_Schedulable = 1"
definition HasChildWaitersBit :: u32 where "HasChildWaitersBit = 0x40000000"
definition cMaxThreadCount :: u32 where "cMaxThreadCount = 256"
definition cMaxCoreCount :: nat where "cMaxCoreCount = 64"

text \<open>
  The members the scheduler reads or writes.  \<open>is_suspended\<close>, \<open>was_locked\<close> and the name are left out;
  nothing depends on them.
\<close>

record fiber_local_storage =
  priority :: u32
  current_core :: u32
  core_mask :: u64
  stack_size :: u64
  user_arg :: u64
  user_function :: u64
  ukern_fiber_handle :: u32
  win32_fiber_handle :: u64
  activity_level :: u16
  wait_tag :: u32
  lock_address :: u64
  wait_address :: u64
  waitable_object :: "waitable_object option"
  timeout :: u64
  last_result :: ukern_result
  fiber_state :: fiber_state

definition FiberLocalStorage_construct :: fiber_local_storage where
  "FiberLocalStorage_construct = \<lparr>priority = 0, current_core = 0, core_mask = 0, stack_size = 0, user_arg = 0,
     user_function = 0, ukern_fiber_handle = 0, win32_fiber_handle = 0, activity_level = 0, wait_tag = 0,
     lock_address = 0, wait_address = 0, waitable_object = None, timeout = 0, last_result = ResultSuccess,
     fiber_state = FiberState_Unscheduled\<rparr>"

text \<open>
  \<open>m_words\<close> is the memory of the lock words, the condition keys and the wait addresses.
  \<open>m_thread_queue\<close> orders fibers by the priority their storage holds at the time of a comparison.
\<close>

record user_scheduler =
  m_fibers :: "fiber_ptr \<Rightarrow> fiber_local_storage"
  m_links :: "list_node links"
  m_words :: "u64 \<Rightarrow> u32"
  m_scheduler_local_ring_table :: "fixed_ring_buffer list"
  m_thread_queue :: "fiber_ptr fixed_priority_queue"
  m_core_mask :: u64
  m_allocated_user_threads :: u32
  m_core_count :: u32
  m_active_cores :: u32
  m_runnable_fibers :: u32
  m_handle_table :: handle_table
  sUserFiberLocalAllocator :: object_allocator

abbreviation state_of :: "user_scheduler \<Rightarrow> fiber_ptr \<Rightarrow> fiber_state" where
  "state_of s f \<equiv> fiber_state (m_fibers s f)"

definition upd_fiber :: "fiber_ptr \<Rightarrow> (fiber_local_storage \<Rightarrow> fiber_local_storage) \<Rightarrow> user_scheduler \<Rightarrow> user_scheduler" where
  "upd_fiber f u s = s\<lparr>m_fibers := (m_fibers s)(f := u (m_fibers s f))\<rparr>"

definition upd_links :: "(list_node links \<Rightarrow> list_node links) \<Rightarrow> user_scheduler \<Rightarrow> user_scheduler" where
  "upd_links u s = s\<lparr>m_links := u (m_links s)\<rparr>"

text \<open>A fiber of the wait lists is reached through its node.\<close>

fun fiber_of :: "list_node \<Rightarrow> fiber_ptr result" where
  "fiber_of (Fiber_Node f) = Inr f"
| "fiber_of Wait_List = Inl Bad_Reference"
| "fiber_of (Fiber_List f) = Inl Bad_Reference"

definition non_null :: "u64 \<Rightarrow> unit result" where
  "non_null p = (if p = 0 then Inl Null_Pointer else Inr ())"

definition read_word :: "u64 \<Rightarrow> user_scheduler \<Rightarrow> u32 result" where
  "read_word a s = bind_result (non_null a) (\<lambda>_. Inr (m_words s a))"

definition write_word :: "u64 \<Rightarrow> u32 \<Rightarrow> user_scheduler \<Rightarrow> user_scheduler result" where
  "write_word a v s = bind_result (non_null a) (\<lambda>_. Inr (s\<lparr>m_words := (m_words s)(a := v)\<rparr>))"

definition fiber_key :: "user_scheduler \<Rightarrow> fiber_ptr \<Rightarrow> int" where
  "fiber_key s f = sint (priority (m_fibers s f))"

section \<open>The run queues\<close>

definition ring_Remove :: "u32 \<Rightarrow> fiber_ptr \<Rightarrow> user_scheduler \<Rightarrow> user_scheduler result" where
  "ring_Remove core f s =
     bind_result (load (m_scheduler_local_ring_table s) (unat core)) (\<lambda>r.
     bind_result (frb_Remove f r) (\<lambda>(_, r).
     Inr (s\<lparr>m_scheduler_local_ring_table := (m_scheduler_local_ring_table s)[unat core := r]\<rparr>)))"

definition queue_Remove :: "fiber_ptr \<Rightarrow> user_scheduler \<Rightarrow> user_scheduler result" where
  "queue_Remove f s =
     bind_result (fpq_FindIterTo f (m_thread_queue s)) (\<lambda>iter.
     bind_result (fpq_Remove (fiber_key s) iter (m_thread_queue s)) (\<lambda>q. Inr (s\<lparr>m_thread_queue := q\<rparr>)))"

definition queue_Insert :: "fiber_ptr \<Rightarrow> user_scheduler \<Rightarrow> user_scheduler result" where
  "queue_Insert f s =
     bind_result (fpq_Insert (fiber_key s) (if f = 0 then None else Some f) (m_thread_queue s))
       (\<lambda>q. Inr (s\<lparr>m_thread_queue := q\<rparr>))"

definition RemoveFromSchedulerUnsafe :: "fiber_ptr \<Rightarrow> user_scheduler \<Rightarrow> user_scheduler result" where
  "RemoveFromSchedulerUnsafe f s =
     bind_result
       (if state_of s f = FiberState_ScheduledLocal then ring_Remove (current_core (m_fibers s f)) f s
        else if state_of s f = FiberState_Scheduled then queue_Remove f s
        else Inr s) (\<lambda>s.
     Inr (s\<lparr>m_runnable_fibers := m_runnable_fibers s - 1\<rparr>))"

definition AddToSchedulerUnsafe :: "fiber_ptr \<Rightarrow> user_scheduler \<Rightarrow> user_scheduler result" where
  "AddToSchedulerUnsafe f s =
     (if state_of s f = FiberState_Waiting then Inr s
      else if activity_level (m_fibers s f) = ActivityLevel_Suspended
      then Inr (upd_fiber f (\<lambda>l. l\<lparr>fiber_state := FiberState_Suspended\<rparr>) s)
      else
        bind_result
          (if state_of s f = FiberState_ScheduledLocal then ring_Remove (current_core (m_fibers s f)) f s
           else if state_of s f = FiberState_Scheduled then queue_Remove f s
           else Inr (s\<lparr>m_runnable_fibers := m_runnable_fibers s + 1\<rparr>)) (\<lambda>s.
        bind_result (queue_Insert f s) (\<lambda>s.
        Inr (upd_fiber f (\<lambda>l. l\<lparr>fiber_state := FiberState_Scheduled\<rparr>) s))))"

section \<open>The end of a wait\<close>

definition EndFiberWaitImpl :: "fiber_ptr \<Rightarrow> ukern_result \<Rightarrow> user_scheduler \<Rightarrow> user_scheduler result" where
  "EndFiberWaitImpl f wait_result s =
     (let s = upd_links (Unlink (Fiber_Node f)) s;
          s = upd_fiber f (\<lambda>l. l\<lparr>fiber_state := FiberState_Unscheduled, last_result := wait_result, timeout := 0\<rparr>) s
      in AddToSchedulerUnsafe f s)"

text \<open>\<open>EndWait\<close> is a virtual call on the \<open>waitable_object\<close> of the fiber; the four classes share its body.\<close>

definition EndWait :: "fiber_ptr \<Rightarrow> ukern_result \<Rightarrow> user_scheduler \<Rightarrow> user_scheduler result" where
  "EndWait f wait_result s =
     (case waitable_object (m_fibers s f) of
        None \<Rightarrow> Inl Null_Pointer
      | Some _ \<Rightarrow> EndFiberWaitImpl f wait_result s)"

section \<open>The hand over of a lock\<close>

text \<open>
  \<open>for (waiter : this->wait_list) { waiter.wait_list_node.Unlink(); next_owner.wait_list.PushBack(waiter); }\<close>:
  the iterator advances through the node after it was linked elsewhere.
\<close>

partial_function (option) transfer_waiters ::
  "fiber_ptr \<Rightarrow> fiber_ptr \<Rightarrow> list_node \<Rightarrow> list_node links \<Rightarrow> list_node links option" where
  "transfer_waiters this next_owner iter h =
     (if iter = Fiber_List this then Some h
      else let h = Unlink iter h;
               h = list_PushBack (Fiber_List next_owner) iter h
           in transfer_waiters this next_owner (m_next h iter) h)"

declare transfer_waiters.simps [code]

definition ReleaseLockWaitListUnsafe :: "fiber_ptr \<Rightarrow> user_scheduler \<Rightarrow> user_scheduler run" where
  "ReleaseLockWaitListUnsafe this s =
     call (vp_assert (\<not> list_IsEmpty (m_links s) (Fiber_List this))) (\<lambda>_.
       let (front, h) = list_PopFront (Fiber_List this) (m_links s)
       in call (fiber_of front) (\<lambda>next_owner.
       let s = s\<lparr>m_links := h\<rparr>;
           next_tag = wait_tag (m_fibers s next_owner);
           tag = (if list_IsEmpty (m_links s) (Fiber_List this) then next_tag else next_tag OR HasChildWaitersBit)
       in call (write_word (lock_address (m_fibers s next_owner)) tag s) (\<lambda>s.
       let s = upd_fiber next_owner (\<lambda>l. l\<lparr>lock_address := 0, wait_tag := 0\<rparr>) s
       in case transfer_waiters this next_owner (m_next (m_links s) (Fiber_List this)) (m_links s) of
            None \<Rightarrow> None
          | Some h \<Rightarrow>
              call (EndWait next_owner ResultSuccess (s\<lparr>m_links := h\<rparr>)) (\<lambda>s.
              ret (upd_fiber next_owner (\<lambda>l. l\<lparr>waitable_object := None\<rparr>) s)))))"

section \<open>The cancellation of a wait\<close>

text \<open>The transfer loops that advance their iterator first.\<close>

partial_function (option) move_waiters ::
  "fiber_ptr \<Rightarrow> fiber_ptr \<Rightarrow> list_node \<Rightarrow> list_node links \<Rightarrow> list_node links option" where
  "move_waiters from_fiber to_fiber iter h =
     (if iter = Fiber_List from_fiber then Some h
      else let next = m_next h iter;
               h = Unlink iter h;
               h = list_PushBack (Fiber_List to_fiber) iter h
           in move_waiters from_fiber to_fiber next h)"

declare move_waiters.simps [code]

text \<open>The first waiter of a fiber becomes the parent of the others.\<close>

definition transfer_to_first :: "fiber_ptr \<Rightarrow> list_node links \<Rightarrow> (fiber_ptr \<times> list_node links) run" where
  "transfer_to_first f h =
     (let (front, h) = list_PopFront (Fiber_List f) h
      in call (fiber_of front) (\<lambda>next_parent.
         case move_waiters f next_parent (m_next h (Fiber_List f)) h of
           None \<Rightarrow> None
         | Some h \<Rightarrow> ret (next_parent, h)))"

definition GetFiberByHandle :: "u32 \<Rightarrow> user_scheduler \<Rightarrow> fiber_ptr result" where
  "GetFiberByHandle handle s = ukern_GetObjectByHandle handle (m_handle_table s)"

text \<open>\<open>KeyArbiter::CancelWait\<close> after the wait lists: try to take the lock back.\<close>

definition key_retake_lock :: "fiber_ptr \<Rightarrow> ukern_result \<Rightarrow> user_scheduler \<Rightarrow> user_scheduler result" where
  "key_retake_lock f wait_result s =
     bind_result (read_word (lock_address (m_fibers s f)) s) (\<lambda>prev_tag.
       let tag = wait_tag (m_fibers s f);
           tag = (if prev_tag \<noteq> 0 then tag OR HasChildWaitersBit else tag)
       in bind_result (write_word (lock_address (m_fibers s f)) tag s) (\<lambda>s.
          if prev_tag \<noteq> 0
          then bind_result (GetFiberByHandle (prev_tag AND NOT HasChildWaitersBit) s) (\<lambda>lock_fiber.
               bind_result (non_null lock_fiber) (\<lambda>_.
               let s = upd_links (list_PushBack (Fiber_List lock_fiber) (Fiber_Node f)) s;
                   s = upd_links (Unlink (Fiber_Node lock_fiber)) s
               in Inr (upd_fiber lock_fiber (\<lambda>l. l\<lparr>fiber_state := FiberState_Suspended\<rparr>) s)))
          else EndFiberWaitImpl f wait_result s))"

definition key_CancelWait :: "fiber_ptr \<Rightarrow> ukern_result \<Rightarrow> user_scheduler \<Rightarrow> user_scheduler run" where
  "key_CancelWait f wait_result s =
     (if \<not> list_IsEmpty (m_links s) (Fiber_List f)
      then bind_run (transfer_to_first f (m_links s)) (\<lambda>(_, h).
           call (key_retake_lock f wait_result (s\<lparr>m_links := h\<rparr>)) ret)
      else if node_IsLinked (m_links s) (Fiber_Node f)
      then call (key_retake_lock f wait_result (upd_links (Unlink (Fiber_Node f)) s)) ret
      else call (EndFiberWaitImpl f wait_result s) ret)"

definition address_CancelWait :: "fiber_ptr \<Rightarrow> ukern_result \<Rightarrow> user_scheduler \<Rightarrow> user_scheduler run" where
  "address_CancelWait f wait_result s =
     bind_run
       (if \<not> list_IsEmpty (m_links s) (Fiber_List f)
        then bind_run (transfer_to_first f (m_links s)) (\<lambda>(_, h). ret (s\<lparr>m_links := h\<rparr>))
        else if node_IsLinked (m_links s) (Fiber_Node f)
        then ret (upd_links (Unlink (Fiber_Node f)) s)
        else ret s)
       (\<lambda>s. call (EndFiberWaitImpl f wait_result s) ret)"

definition CancelWait :: "fiber_ptr \<Rightarrow> ukern_result \<Rightarrow> user_scheduler \<Rightarrow> user_scheduler run" where
  "CancelWait f wait_result s =
     (case waitable_object (m_fibers s f) of
        None \<Rightarrow> Some (Inl Null_Pointer)
      | Some LockArbiter \<Rightarrow> Some (Inl Assert_Failed)
      | Some KeyArbiter \<Rightarrow> key_CancelWait f wait_result s
      | Some WaitAddressArbiter \<Rightarrow> address_CancelWait f wait_result s
      | Some TimeWaiter \<Rightarrow> call (EndFiberWaitImpl f wait_result s) ret)"

text \<open>The 32 bit \<open>1 << n\<close> as it meets a 64 bit mask; the shift is defined for \<open>n < 32\<close>.\<close>

definition core_bit :: "nat \<Rightarrow> u64" where
  "core_bit n = scast (push_bit n (1 :: u32))"

definition IsSchedulable :: "u32 \<Rightarrow> u64 \<Rightarrow> fiber_ptr \<Rightarrow> user_scheduler \<Rightarrow> (bool \<times> user_scheduler) run" where
  "IsSchedulable core_number time f s =
     (if core_mask (m_fibers s f) AND core_bit (unat core_number) = 0 then ret (False, s)
      else
        bind_run
          (if waitable_object (m_fibers s f) \<noteq> None \<and> timeout (m_fibers s f) < time
           then CancelWait f ResultTimeout s else ret s) (\<lambda>s.
        ret (state_of s f = FiberState_Scheduled \<or> state_of s f = FiberState_ScheduledLocal, s)))"

end
