(* ===== verification/Scheduler.thy ===== *)
theory Scheduler
  imports Fiber Bit_Util
begin

text \<open>
  \<open>ukern_scheduler.cpp\<close>, first half: the loop of a scheduler core, the dispatch of a fiber, and the
  calls that create threads and change them.  The scheduler lock is held in all of these, so each is one
  step of the system.  A \<open>SwitchToFiber\<close> ends a step: \<open>Dispatch\<close> is split in its part before
  the switch to the fiber (\<open>Dispatch_begin\<close>) and its part after the fiber switched back
  (\<open>Dispatch_end\<close>), and a call that blocks answers \<open>Switched r\<close>, where \<open>r\<close> is what it
  returns after it was switched to again; \<open>ResultSuccess\<close> there stands for \<open>last_result\<close>.
\<close>

datatype outcome = Returned ukern_result | Switched ukern_result

definition resumed_result :: "ukern_result \<Rightarrow> fiber_ptr \<Rightarrow> user_scheduler \<Rightarrow> ukern_result" where
  "resumed_result r current s = (if r = ResultSuccess then last_result (m_fibers s current) else r)"

section \<open>The wait list is visited for timeouts\<close>

partial_function (option) visit_waiting :: "u32 \<Rightarrow> u64 \<Rightarrow> list_node \<Rightarrow> user_scheduler \<Rightarrow> user_scheduler run" where
  "visit_waiting core_number tick wait_iter s =
     (if wait_iter = Wait_List then ret s
      else
        let next = m_next (m_links s) wait_iter
        in case fiber_of wait_iter of
             Inl e \<Rightarrow> Some (Inl e)
           | Inr waiting_fiber \<Rightarrow>
               (case IsSchedulable core_number tick waiting_fiber s of
                  None \<Rightarrow> None
                | Some (Inl e) \<Rightarrow> Some (Inl e)
                | Some (Inr (_, s)) \<Rightarrow> visit_waiting core_number tick next s))"

declare visit_waiting.simps [code]

definition visit_timeouts :: "u32 \<Rightarrow> u64 \<Rightarrow> user_scheduler \<Rightarrow> user_scheduler run" where
  "visit_timeouts core_number tick s = visit_waiting core_number tick (m_next (m_links s) Wait_List) s"

section \<open>The choice of a fiber\<close>

text \<open>\<open>__builtin_ctzll\<close> is undefined at 0.\<close>

definition right_zeros :: "u64 \<Rightarrow> nat result" where
  "right_zeros v = (case CountRightZeroBits64 False v of None \<Rightarrow> Inl Out_Of_Bounds | Some n \<Rightarrow> Inr n)"

text \<open>The loop that looks for the shortest ring: \<open>n\<close> rounds are left.\<close>

fun rank_cores :: "nat \<Rightarrow> u64 \<Rightarrow> fixed_ring_buffer list \<Rightarrow> nat option \<times> u32 \<Rightarrow> (nat option \<times> u32) result" where
  "rank_cores 0 cores table (found, min_used_count) = Inr (found, min_used_count)"
| "rank_cores (Suc n) cores table (found, min_used_count) =
     bind_result (right_zeros cores) (\<lambda>other_core.
     bind_result (load table other_core) (\<lambda>ring.
       let other_used_count = frb_GetUsedCount ring;
           (found, min_used_count) =
             (if other_used_count < min_used_count then (Some other_core, other_used_count) else (found, min_used_count));
           cores = cores AND scast (push_bit other_core (NOT 1 :: u32))
       in rank_cores n cores table (found, min_used_count)))"

definition prefers_here :: "u32 \<Rightarrow> fiber_local_storage \<Rightarrow> bool result" where
  "prefers_here core_number fiber =
     (let cores = core_mask fiber;
          runnable_thread_count = CountOneBits64 False (core_mask fiber)
      in bind_result
           (if runnable_thread_count = 1
            then bind_result (right_zeros cores) (\<lambda>n. Inr (cores AND core_bit n \<noteq> 0))
            else Inr False) (\<lambda>single.
         Inr (single \<or> current_core fiber = core_number \<and> cores AND core_bit (unat core_number) \<noteq> 0)))"

definition insert_lowest :: "fiber_ptr \<Rightarrow> user_scheduler \<Rightarrow> user_scheduler result" where
  "insert_lowest fiber s =
     (let cores = core_mask (m_fibers s fiber)
      in bind_result (rank_cores (unat (CountOneBits64 False cores)) cores (m_scheduler_local_ring_table s) (None, - 1))
         (\<lambda>(found, _).
         bind_result (vp_assert (found \<noteq> None)) (\<lambda>_.
           let found_core = the found;
               s = upd_fiber fiber (\<lambda>l. l\<lparr>fiber_state := FiberState_ScheduledLocal, current_core := of_nat found_core\<rparr>) s
           in bind_result (load (m_scheduler_local_ring_table s) found_core) (\<lambda>ring.
              bind_result (frb_Insert fiber ring) (\<lambda>ring.
              Inr (s\<lparr>m_scheduler_local_ring_table := (m_scheduler_local_ring_table s)[found_core := ring]\<rparr>))))))"

lemma fpq_RemoveFront_count:
  "fpq_RemoveFront key q = Inr (x, q') \<Longrightarrow>
    m_fixed_count q' = m_fixed_count q - 1 \<and> 0 < m_fixed_count q"
  by (auto simp: fpq_RemoveFront_def bind_vp_assert bind_result_Inr_iff Let_def split: if_splits prod.splits)

lemma insert_lowest_queue: "insert_lowest fiber s = Inr s' \<Longrightarrow> m_thread_queue s' = m_thread_queue s"
  by (auto simp: insert_lowest_def bind_vp_assert bind_result_Inr_iff Let_def upd_fiber_def split: if_splits)

text \<open>\<open>while (fiber == nullptr && m_thread_queue.GetUsedCount() != 0)\<close>\<close>

function take_from_queue :: "u32 \<Rightarrow> user_scheduler \<Rightarrow> (fiber_ptr \<times> user_scheduler) result" where
  "take_from_queue core_number s =
     (if fpq_GetUsedCount (m_thread_queue s) = 0 then Inr (0, s)
      else case fpq_RemoveFront (fiber_key s) (m_thread_queue s) of
          Inl e \<Rightarrow> Inl e
        | Inr (fiber, q) \<Rightarrow>
            (case prefers_here core_number (m_fibers s fiber) of
               Inl e \<Rightarrow> Inl e
             | Inr True \<Rightarrow> Inr (fiber, s\<lparr>m_thread_queue := q\<rparr>)
             | Inr False \<Rightarrow>
                 (case insert_lowest fiber (s\<lparr>m_thread_queue := q\<rparr>) of
                    Inl e \<Rightarrow> Inl e
                  | Inr s' \<Rightarrow> take_from_queue core_number s')))"
  by auto

termination
proof (relation "measure (\<lambda>(core, s). unat (m_fixed_count (m_thread_queue s)))", simp, goal_cases)
  case (1 core s fq fiber q b s')
  then have "m_fixed_count q = m_fixed_count (m_thread_queue s) - 1" "m_fixed_count (m_thread_queue s) \<noteq> 0"
    "m_thread_queue s' = q"
    using fpq_RemoveFront_count insert_lowest_queue by fastforce+
  then show ?case using unat_sub_nowrap [of 1 "m_fixed_count (m_thread_queue s)"]
    by (simp add: unat_gt_0 Suc_leI)
qed

declare take_from_queue.simps [simp del]

text \<open>A null fiber is 0: nothing to run on this core.\<close>

definition choose_fiber :: "u32 \<Rightarrow> user_scheduler \<Rightarrow> (fiber_ptr \<times> user_scheduler) result" where
  "choose_fiber core_number s =
     bind_result (load (m_scheduler_local_ring_table s) (unat core_number)) (\<lambda>ring.
     bind_result
       (if frb_GetUsedCount ring = 0 then Inr (0, s)
        else bind_result (frb_RemoveFront ring) (\<lambda>(fiber, ring).
             Inr (fiber, s\<lparr>m_scheduler_local_ring_table := (m_scheduler_local_ring_table s)[unat core_number := ring]\<rparr>)))
       (\<lambda>(fiber, s). if fiber \<noteq> 0 then Inr (fiber, s) else take_from_queue core_number s))"

section \<open>Dispatch\<close>

definition Dispatch_begin :: "fiber_ptr \<Rightarrow> u32 \<Rightarrow> user_scheduler \<Rightarrow> user_scheduler result" where
  "Dispatch_begin f core_number s =
     (let s = upd_fiber f (\<lambda>l. l\<lparr>fiber_state := FiberState_Running, current_core := core_number\<rparr>) s
      in bind_result (vp_assert (current_core (m_fibers s f) < m_core_count s)) (\<lambda>_.
         Inr (s\<lparr>m_runnable_fibers := m_runnable_fibers s - 1\<rparr>)))"

definition sizeof_FiberLocalStorage :: u64 where "sizeof_FiberLocalStorage = 176"

definition Dispatch_end :: "fiber_ptr \<Rightarrow> u32 \<Rightarrow> user_scheduler \<Rightarrow> user_scheduler result" where
  "Dispatch_end f core_number s =
     bind_result (vp_assert (core_number = current_core (m_fibers s f))) (\<lambda>_.
       case state_of s f of
         FiberState_Running \<Rightarrow> AddToSchedulerUnsafe f s
       | FiberState_Exiting \<Rightarrow>
           bind_result (ukern_FreeHandle (ukern_fiber_handle (m_fibers s f)) (m_handle_table s)) (\<lambda>(_, t).
           bind_result (fixed_object_Free sizeof_FiberLocalStorage cMaxThreadCount f (sUserFiberLocalAllocator s)) (\<lambda>a.
           Inr (s\<lparr>m_handle_table := t, sUserFiberLocalAllocator := a\<rparr>)))
       | FiberState_Waiting \<Rightarrow> Inr s
       | _ \<Rightarrow> Inl Assert_Failed)"

text \<open>
  One round of \<open>SchedulerFiberMain\<close> up to the switch to the chosen fiber; the answer is the fiber, or 0
  when the core goes on to rest.
\<close>

definition SchedulerFiberMain_round :: "u32 \<Rightarrow> u64 \<Rightarrow> user_scheduler \<Rightarrow> (fiber_ptr \<times> user_scheduler) run" where
  "SchedulerFiberMain_round core_number tick s =
     bind_run (visit_timeouts core_number tick s) (\<lambda>s.
     call (choose_fiber core_number s) (\<lambda>(fiber, s).
       if fiber \<noteq> 0 then call (Dispatch_begin fiber core_number s) (\<lambda>s. ret (fiber, s)) else ret (0, s)))"

section \<open>Rest\<close>

partial_function (option) min_timeout :: "u32 \<Rightarrow> list_node \<Rightarrow> u64 \<Rightarrow> user_scheduler \<Rightarrow> u64 run" where
  "min_timeout core_number iter timeout_tick s =
     (if iter = Wait_List then ret timeout_tick
      else case fiber_of iter of
          Inl e \<Rightarrow> Some (Inl e)
        | Inr f \<Rightarrow>
            let l = m_fibers s f
            in min_timeout core_number (m_next (m_links s) iter)
                 (if core_mask l AND core_bit (unat core_number) \<noteq> 0 \<and> timeout l < timeout_tick then timeout l else timeout_tick) s)"

declare min_timeout.simps [code]

definition next_wakeup :: "u32 \<Rightarrow> user_scheduler \<Rightarrow> u64 run" where
  "next_wakeup core_number s = min_timeout core_number (m_next (m_links s) Wait_List) 0x7fffffffffffffff s"

definition rest_begin :: "user_scheduler \<Rightarrow> user_scheduler" where
  "rest_begin s = s\<lparr>m_active_cores := m_active_cores s - 1\<rparr>"

text \<open>Whether the core rests once more; \<open>time_left\<close> is 0 when the wake up time has come.\<close>

definition rest_again :: "u32 \<Rightarrow> user_scheduler \<Rightarrow> bool" where
  "rest_again time_left s \<longleftrightarrow> time_left \<noteq> 0 \<and> m_runnable_fibers s = 0"

definition rest_end :: "user_scheduler \<Rightarrow> user_scheduler" where
  "rest_end s = s\<lparr>m_active_cores := m_active_cores s + 1\<rparr>"

section \<open>Initialisation\<close>

text \<open>
  \<open>array\<close> is the address of the array of \<open>sUserFiberLocalAllocator\<close>, \<open>main_win32\<close> what
  \<open>ConvertThreadToFiber\<close> answers; the threads and fibers of the cores are Windows objects and are not part
  of the state.
\<close>

definition construct_fiber :: "fiber_ptr \<Rightarrow> user_scheduler \<Rightarrow> user_scheduler" where
  "construct_fiber f s =
     (let s = upd_fiber f (\<lambda>_. FiberLocalStorage_construct) s
      in upd_links (\<lambda>h. construct_node (Fiber_List f) (construct_node (Fiber_Node f) h)) s)"

definition Allocate_fiber :: "user_scheduler \<Rightarrow> fiber_ptr \<times> user_scheduler" where
  "Allocate_fiber s =
     (let (f, a) = fixed_object_Allocate (\<lambda>_. 0) (sUserFiberLocalAllocator s);
          s = s\<lparr>sUserFiberLocalAllocator := a\<rparr>
      in (f, if f = 0 then s else construct_fiber f s))"

definition UserScheduler_construct :: "u64 \<Rightarrow> (u64 \<Rightarrow> u32) \<Rightarrow> user_scheduler" where
  "UserScheduler_construct array words =
     \<lparr>m_fibers = (\<lambda>_. FiberLocalStorage_construct), m_links = \<lparr>m_prev = id, m_next = id\<rparr>, m_words = words,
      m_scheduler_local_ring_table = replicate cMaxCoreCount (FixedRingBuffer_construct cMaxThreadCount),
      m_thread_queue = FixedPriorityQueue_construct 0 (unat cMaxThreadCount),
      m_core_mask = 0, m_allocated_user_threads = 0, m_core_count = 0, m_active_cores = 0, m_runnable_fibers = 0,
      m_handle_table = ukern_table_construct,
      sUserFiberLocalAllocator = FixedObjectAllocator_construct sizeof_FiberLocalStorage array cMaxThreadCount (\<lambda>_. 0)\<rparr>"

definition scheduler_Initialize :: "u64 \<Rightarrow> u32 \<Rightarrow> user_scheduler \<Rightarrow> (fiber_ptr \<times> user_scheduler) result" where
  "scheduler_Initialize main_win32 core_count s =
     (let s = s\<lparr>m_active_cores := core_count, m_core_count := core_count,
                m_core_mask := scast (NOT (push_bit (unat core_count) (NOT 1 :: u32))),
                m_handle_table := ukern_Initialize (m_handle_table s)\<rparr>;
          (main_fiber, s) = Allocate_fiber s
      in bind_result (non_null main_fiber) (\<lambda>_.
         let s = upd_fiber main_fiber (\<lambda>l. l\<lparr>priority := 0, current_core := 0, core_mask := 1,
                   fiber_state := FiberState_Running, activity_level := ActivityLevel_Schedulable,
                   win32_fiber_handle := main_win32\<rparr>) s
         in bind_result (vp_assert (main_win32 \<noteq> 0)) (\<lambda>_.
            bind_result (ukern_ReserveHandle main_fiber (m_handle_table s)) (\<lambda>(handle, t).
            bind_result (vp_assert (handle \<noteq> None)) (\<lambda>_.
            Inr (main_fiber, upd_fiber main_fiber (\<lambda>l. l\<lparr>ukern_fiber_handle := the handle\<rparr>) (s\<lparr>m_handle_table := t\<rparr>)))))))"

definition InternalSchedulerMainThreadFiberMain :: "fiber_ptr \<Rightarrow> user_scheduler \<Rightarrow> user_scheduler result" where
  "InternalSchedulerMainThreadFiberMain main_fiber s =
     (if state_of s main_fiber \<noteq> FiberState_Waiting then AddToSchedulerUnsafe main_fiber s else Inr s)"

section \<open>Threads\<close>

definition cDefaultCoreId :: u32 where "cDefaultCoreId = - 2"
definition cDefaultCoreIdMask :: u32 where "cDefaultCoreIdMask = 1"
definition cWindowsToUKernPriorityOffset :: u32 where "cWindowsToUKernPriorityOffset = 2"

definition in_priority_range :: "u32 \<Rightarrow> bool" where
  "in_priority_range p \<longleftrightarrow> - 2 \<le> sint p \<and> sint p \<le> 2"

text \<open>\<open>win32_fiber\<close> is what \<open>CreateFiber\<close> answers; the handle goes to \<open>out_handle\<close>.\<close>

definition CreateThreadImpl ::
  "u64 \<Rightarrow> u64 \<Rightarrow> u64 \<Rightarrow> u64 \<Rightarrow> u32 \<Rightarrow> u32 \<Rightarrow> user_scheduler \<Rightarrow> ((ukern_result \<times> u32 option) \<times> user_scheduler) result" where
  "CreateThreadImpl win32_fiber thread_func arg stack_bytes prio core_id s =
     (if thread_func = 0 then Inr ((ResultInvalidThreadFunctionPointer, None), s)
      else if stack_bytes = 0 then Inr ((ResultInvalidStackSize, None), s)
      else if \<not> in_priority_range prio then Inr ((ResultInvalidPriority, None), s)
      else if \<not> (core_id = cDefaultCoreId \<or> core_bit (unat core_id) AND m_core_mask s \<noteq> 0)
      then Inr ((ResultInvalidCoreId, None), s)
      else
        let (f, s) = Allocate_fiber s
        in if f = 0 then Inr ((ResultThreadStorageExhaustion, None), s)
           else
             let s = s\<lparr>m_allocated_user_threads := m_allocated_user_threads s + 1\<rparr>
             in bind_result (ukern_ReserveHandle f (m_handle_table s)) (\<lambda>(handle, t).
                let s = s\<lparr>m_handle_table := t\<rparr>
                in case handle of
                     None \<Rightarrow> Inr ((ResultHandleExhaustion, None), s)
                   | Some handle \<Rightarrow>
                       let s = upd_fiber f (\<lambda>l. l\<lparr>ukern_fiber_handle := handle,
                                 priority := prio + cWindowsToUKernPriorityOffset, stack_size := stack_bytes,
                                 core_mask := (if core_id = cDefaultCoreId then ucast cDefaultCoreIdMask
                                               else ucast (push_bit (unat core_id) (1 :: u32))),
                                 user_arg := arg, user_function := thread_func, fiber_state := FiberState_Suspended,
                                 activity_level := ActivityLevel_Suspended, win32_fiber_handle := win32_fiber\<rparr>) s
                       in bind_result (vp_assert (win32_fiber \<noteq> 0)) (\<lambda>_.
                          Inr ((ResultSuccess, Some handle), s))))"

definition ExitFiberImpl :: "fiber_ptr \<Rightarrow> user_scheduler \<Rightarrow> user_scheduler" where
  "ExitFiberImpl current s = upd_fiber current (\<lambda>l. l\<lparr>fiber_state := FiberState_Exiting\<rparr>) s"

definition SetPriorityImpl :: "u32 \<Rightarrow> u32 \<Rightarrow> user_scheduler \<Rightarrow> (ukern_result \<times> user_scheduler) result" where
  "SetPriorityImpl handle prio s =
     (if in_priority_range prio then Inr (ResultInvalidPriority, s)
      else bind_result (GetFiberByHandle handle s) (\<lambda>f.
        if f = 0 then Inr (ResultInvalidHandle, s)
        else if priority (m_fibers s f) = prio then Inr (ResultSamePriority, s)
        else
          let s = upd_fiber f (\<lambda>l. l\<lparr>priority := prio\<rparr>) s
          in bind_result (AddToSchedulerUnsafe f s) (\<lambda>s. Inr (ResultSuccess, s))))"

definition SetCoreMaskImpl :: "u32 \<Rightarrow> u64 \<Rightarrow> user_scheduler \<Rightarrow> (ukern_result \<times> user_scheduler) result" where
  "SetCoreMaskImpl handle new_mask s =
     (if new_mask AND NOT (m_core_mask s) \<noteq> 0 then Inr (ResultInvalidCoreMask, s)
      else bind_result (GetFiberByHandle handle s) (\<lambda>f.
        if f = 0 then Inr (ResultInvalidHandle, s)
        else if core_mask (m_fibers s f) = new_mask then Inr (ResultSameCoreMask, s)
        else
          let s = upd_fiber f (\<lambda>l. l\<lparr>core_mask := new_mask\<rparr>) s
          in bind_result (AddToSchedulerUnsafe f s) (\<lambda>s. Inr (ResultSuccess, s))))"

definition SetActivityImpl :: "u32 \<Rightarrow> u16 \<Rightarrow> user_scheduler \<Rightarrow> (ukern_result \<times> user_scheduler) result" where
  "SetActivityImpl handle level s =
     bind_result (GetFiberByHandle handle s) (\<lambda>f.
        if f = 0 then Inr (ResultInvalidHandle, s)
        else if activity_level (m_fibers s f) = level then Inr (ResultSameActivityLevel, s)
        else
          let s = upd_fiber f (\<lambda>l. l\<lparr>activity_level := level\<rparr>) s
          in bind_result (AddToSchedulerUnsafe f s) (\<lambda>s. Inr (ResultSuccess, s)))"

definition SleepThreadImpl :: "fiber_ptr \<Rightarrow> u64 \<Rightarrow> user_scheduler \<Rightarrow> outcome \<times> user_scheduler" where
  "SleepThreadImpl current absolute_timeout s =
     (Switched ResultSuccess,
      if absolute_timeout \<noteq> 0
      then upd_links (list_PushBack Wait_List (Fiber_Node current))
             (upd_fiber current (\<lambda>l. l\<lparr>timeout := absolute_timeout, fiber_state := FiberState_Waiting,
                waitable_object := Some TimeWaiter\<rparr>) s)
      else s)"

text \<open>\<open>ExitThreadImpl\<close> yields until the handle is gone: \<open>true\<close> is another \<open>SleepThreadImpl(0)\<close>.\<close>

definition ExitThreadImpl_again :: "u32 \<Rightarrow> user_scheduler \<Rightarrow> bool result" where
  "ExitThreadImpl_again handle s = bind_result (GetFiberByHandle handle s) (\<lambda>f. Inr (f \<noteq> 0))"

end
