(* ===== verification/Arbiters.thy ===== *)
theory Arbiters
  imports Scheduler
begin

text \<open>
  \<open>ukern_scheduler.cpp\<close>, second half, and \<open>ukern_synchronizationapi.cpp\<close>: locks, condition keys and wait
  addresses.  Each call holds the scheduler lock from its start to its return or its \<open>SwitchToFiber\<close>;
  the words it exchanges with interlocked operations are read and written in one step here.
\<close>

section \<open>Locks\<close>

definition ArbitrateLockImpl :: "fiber_ptr \<Rightarrow> u32 \<Rightarrow> u64 \<Rightarrow> u32 \<Rightarrow> user_scheduler \<Rightarrow> (outcome \<times> user_scheduler) result" where
  "ArbitrateLockImpl current handle address tag s =
     (if address = 0 then Inr (Returned ResultInvalidAddress, s)
      else bind_result (GetFiberByHandle handle s) (\<lambda>handle_fiber.
        if handle_fiber = 0 \<or> handle_fiber = current then Inr (Returned ResultInvalidHandle, s)
        else if m_words s address \<noteq> handle OR HasChildWaitersBit
        then Inr (Returned ResultInvalidLockAddressValue, s)
        else
          let s = upd_fiber current (\<lambda>l. l\<lparr>waitable_object := Some LockArbiter, lock_address := address,
                    wait_tag := tag, fiber_state := FiberState_Waiting, timeout := 0x7fffffffffffffff\<rparr>) s
          in Inr (Switched ResultSuccess, upd_links (list_PushBack (Fiber_List handle_fiber) (Fiber_Node current)) s)))"

definition ArbitrateUnlockImpl :: "fiber_ptr \<Rightarrow> u64 \<Rightarrow> user_scheduler \<Rightarrow> (outcome \<times> user_scheduler) run" where
  "ArbitrateUnlockImpl current address s =
     (if address = 0 then ret (Returned ResultInvalidAddress, s)
      else if list_IsEmpty (m_links s) (Fiber_List current) then ret (Returned ResultRequiresLock, s)
      else if ukern_fiber_handle (m_fibers s current) OR HasChildWaitersBit \<noteq> m_words s address
      then ret (Returned ResultInvalidLockAddressValue, s)
      else bind_run (ReleaseLockWaitListUnsafe current s) (\<lambda>s. ret (Returned ResultSuccess, s)))"

section \<open>Condition keys\<close>

text \<open>\<open>for (waiting_fiber : m_wait_list) if (waiting_fiber.wait_address == address) ...\<close>\<close>

partial_function (option) find_waiter_from :: "u64 \<Rightarrow> list_node \<Rightarrow> user_scheduler \<Rightarrow> fiber_ptr option run" where
  "find_waiter_from address iter s =
     (if iter = Wait_List then ret None
      else case fiber_of iter of
          Inl e \<Rightarrow> Some (Inl e)
        | Inr f \<Rightarrow>
            if wait_address (m_fibers s f) = address then ret (Some f)
            else find_waiter_from address (m_next (m_links s) iter) s)"

declare find_waiter_from.simps [code]

definition find_waiter :: "u64 \<Rightarrow> user_scheduler \<Rightarrow> fiber_ptr option run" where
  "find_waiter address s = find_waiter_from address (m_next (m_links s) Wait_List) s"

definition WaitKeyImpl ::
  "fiber_ptr \<Rightarrow> u64 \<Rightarrow> u64 \<Rightarrow> u32 \<Rightarrow> u64 \<Rightarrow> user_scheduler \<Rightarrow> (outcome \<times> user_scheduler) run" where
  "WaitKeyImpl current address cv_key tag absolute_timeout s =
     (if address = 0 then ret (Returned ResultInvalidAddress, s)
      else if cv_key = 0 then ret (Returned ResultInvalidAddress, s)
      else if ukern_fiber_handle (m_fibers s current) \<noteq> m_words s address AND NOT HasChildWaitersBit
      then ret (Returned ResultInvalidLockAddressValue, s)
      else
        bind_run
          (if \<not> list_IsEmpty (m_links s) (Fiber_List current)
           then ReleaseLockWaitListUnsafe current s
           else ret (s\<lparr>m_words := (m_words s)(address := 0)\<rparr>)) (\<lambda>s.
        let s = s\<lparr>m_words := (m_words s)(cv_key := 1)\<rparr>
        in if absolute_timeout = 0 then ret (Switched ResultTimeout, s)
           else
             let s = upd_fiber current (\<lambda>l. l\<lparr>waitable_object := Some KeyArbiter, wait_address := cv_key,
                       lock_address := address, wait_tag := tag, fiber_state := FiberState_Waiting,
                       timeout := absolute_timeout\<rparr>) s
             in bind_run (find_waiter cv_key s) (\<lambda>parent.
                let s = (case parent of None \<Rightarrow> s
                           | Some p \<Rightarrow> upd_links (list_PushBack (Fiber_List p) (Fiber_Node current)) s);
                    s = (if \<not> node_IsLinked (m_links s) (Fiber_Node current)
                         then upd_links (list_PushBack Wait_List (Fiber_Node current)) s else s)
                in ret (Switched ResultSuccess, s))))"

definition TransferFiberForSignalKey :: "fiber_ptr \<Rightarrow> user_scheduler \<Rightarrow> (bool \<times> user_scheduler) result" where
  "TransferFiberForSignalKey waiting_fiber s =
     (let address = lock_address (m_fibers s waiting_fiber)
      in bind_result (read_word address s) (\<lambda>prev_tag.
         if prev_tag \<noteq> 0
         then bind_result (write_word address (prev_tag OR HasChildWaitersBit) s) (\<lambda>s.
              bind_result (GetFiberByHandle (prev_tag AND NOT HasChildWaitersBit) s) (\<lambda>lock_fiber.
              bind_result (non_null lock_fiber) (\<lambda>_.
              Inr (False, upd_links (list_PushBack (Fiber_List lock_fiber) (Fiber_Node waiting_fiber)) s))))
         else bind_result (write_word address (wait_tag (m_fibers s waiting_fiber)) s) (\<lambda>s. Inr (True, s))))"

text \<open>
  \<open>for (waiting_fiber : cv_fiber->wait_list)\<close>: the iterator advances through the node after the body
  unlinked it or linked it into the list of the lock.
\<close>

partial_function (option) signal_waiters ::
  "fiber_ptr \<Rightarrow> u32 \<Rightarrow> list_node \<Rightarrow> u32 \<Rightarrow> user_scheduler \<Rightarrow> user_scheduler run" where
  "signal_waiters cv_fiber signal_count iter i s =
     (if iter = Fiber_List cv_fiber \<or> signal_count \<le> i then ret s
      else
        let s = upd_links (Unlink iter) s
        in case bind_result (fiber_of iter) (\<lambda>f. TransferFiberForSignalKey f s) of
             Inl e \<Rightarrow> Some (Inl e)
           | Inr (_, s) \<Rightarrow> signal_waiters cv_fiber signal_count (m_next (m_links s) iter) (i + 1) s)"

declare signal_waiters.simps [code]

definition SignalKeyImpl :: "u64 \<Rightarrow> u32 \<Rightarrow> user_scheduler \<Rightarrow> (outcome \<times> user_scheduler) run" where
  "SignalKeyImpl cv_key signal_count s =
     (if cv_key = 0 then ret (Returned ResultInvalidAddress, s)
      else if signal_count = 0 then ret (Returned ResultSuccess, s\<lparr>m_words := (m_words s)(cv_key := 0)\<rparr>)
      else bind_run (find_waiter cv_key s) (\<lambda>waiter.
        case waiter of
          None \<Rightarrow> ret (Returned ResultInvalidAddress, s)
        | Some cv_fiber \<Rightarrow>
            let s = upd_links (Unlink (Fiber_Node cv_fiber)) s
            in call (TransferFiberForSignalKey cv_fiber s) (\<lambda>(owned, s).
               call (if owned
                     then bind_result (EndWait cv_fiber ResultSuccess s) (\<lambda>s.
                          Inr (upd_fiber cv_fiber (\<lambda>l. l\<lparr>waitable_object := None\<rparr>) s))
                     else Inr s) (\<lambda>s.
               bind_run (signal_waiters cv_fiber signal_count (m_next (m_links s) (Fiber_List cv_fiber)) 1 s) (\<lambda>s.
               ret (Returned ResultSuccess, s\<lparr>m_words := (m_words s)(cv_key := 0)\<rparr>))))))"

section \<open>Wait addresses\<close>

text \<open>The part that both waits share: the fiber becomes a waiter of the address.\<close>

definition wait_on_address :: "fiber_ptr \<Rightarrow> u64 \<Rightarrow> u64 \<Rightarrow> user_scheduler \<Rightarrow> user_scheduler run" where
  "wait_on_address current address absolute_timeout s =
     (let s = upd_fiber current (\<lambda>l. l\<lparr>waitable_object := Some WaitAddressArbiter, wait_address := address,
                fiber_state := FiberState_Waiting, timeout := absolute_timeout\<rparr>) s
      in bind_run (find_waiter address s) (\<lambda>address_fiber.
         ret (case address_fiber of
                None \<Rightarrow> upd_links (list_PushBack Wait_List (Fiber_Node current)) s
              | Some p \<Rightarrow> upd_links (list_PushBack (Fiber_List p) (Fiber_Node current)) s)))"

definition WaitForAddressIfEqualImpl ::
  "fiber_ptr \<Rightarrow> u64 \<Rightarrow> u32 \<Rightarrow> u64 \<Rightarrow> user_scheduler \<Rightarrow> (outcome \<times> user_scheduler) run" where
  "WaitForAddressIfEqualImpl current address v absolute_timeout s =
     (if address = 0 then ret (Returned ResultInvalidAddress, s)
      else if m_words s address \<noteq> v then ret (Switched ResultInvalidWaitAddressValue, s)
      else if sint absolute_timeout \<le> 0 then ret (Switched ResultTimeout, s)
      else bind_run (wait_on_address current address absolute_timeout s) (\<lambda>s. ret (Switched ResultSuccess, s)))"

definition WaitForAddressIfLessThanImpl ::
  "fiber_ptr \<Rightarrow> u64 \<Rightarrow> u32 \<Rightarrow> u64 \<Rightarrow> bool \<Rightarrow> user_scheduler \<Rightarrow> (outcome \<times> user_scheduler) run" where
  "WaitForAddressIfLessThanImpl current address v absolute_timeout do_decrement s =
     (if address = 0 then ret (Returned ResultInvalidAddress, s)
      else
        let wait_value = m_words s address;
            s = (if do_decrement then s\<lparr>m_words := (m_words s)(address := m_words s address - 1)\<rparr> else s)
        in if v \<le> wait_value then ret (Switched ResultInvalidWaitAddressValue, s)
           else if sint absolute_timeout \<le> 0 then ret (Switched ResultTimeout, s)
           else bind_run (wait_on_address current address absolute_timeout s) (\<lambda>s. ret (Switched ResultSuccess, s)))"

text \<open>The loop of \<open>WakeByAddressImpl\<close> and \<open>WakeByAddressModifyLessThanImpl\<close>, which advances its iterator first.\<close>

partial_function (option) wake_waiters ::
  "fiber_ptr \<Rightarrow> u32 \<Rightarrow> list_node \<Rightarrow> u32 \<Rightarrow> user_scheduler \<Rightarrow> user_scheduler run" where
  "wake_waiters address_fiber wake_count iter i s =
     (if iter = Fiber_List address_fiber then ret s
      else
        let next = m_next (m_links s) iter
        in if wake_count < i then ret s
           else
             let s = upd_links (Unlink iter) s
             in case bind_result (fiber_of iter) (\<lambda>f. EndWait f ResultSuccess s) of
                  Inl e \<Rightarrow> Some (Inl e)
                | Inr s \<Rightarrow> wake_waiters address_fiber wake_count next (i + 1) s)"

declare wake_waiters.simps [code]

text \<open>The loop of \<open>WakeByAddressIncrementEqualImpl\<close>, which advances it after the body.\<close>

partial_function (option) wake_waiters_in_place ::
  "fiber_ptr \<Rightarrow> u32 \<Rightarrow> list_node \<Rightarrow> u32 \<Rightarrow> user_scheduler \<Rightarrow> user_scheduler run" where
  "wake_waiters_in_place address_fiber wake_count iter i s =
     (if iter = Fiber_List address_fiber \<or> wake_count < i then ret s
      else
        let s = upd_links (Unlink iter) s
        in case bind_result (fiber_of iter) (\<lambda>f. EndWait f ResultSuccess s) of
             Inl e \<Rightarrow> Some (Inl e)
           | Inr s \<Rightarrow> wake_waiters_in_place address_fiber wake_count (m_next (m_links s) iter) (i + 1) s)"

declare wake_waiters_in_place.simps [code]

text \<open>What is left of the list goes to its first fiber, which takes the place of the parent.\<close>

definition transfer_wait_list :: "fiber_ptr \<Rightarrow> user_scheduler \<Rightarrow> user_scheduler run" where
  "transfer_wait_list address_fiber s =
     (if list_IsEmpty (m_links s) (Fiber_List address_fiber) then ret s
      else bind_run (transfer_to_first address_fiber (m_links s)) (\<lambda>(next_parent, h).
           ret (upd_links (list_PushBack Wait_List (Fiber_Node next_parent)) (s\<lparr>m_links := h\<rparr>))))"

definition wake_all ::
  "(fiber_ptr \<Rightarrow> u32 \<Rightarrow> list_node \<Rightarrow> u32 \<Rightarrow> user_scheduler \<Rightarrow> user_scheduler run) \<Rightarrow>
   fiber_ptr \<Rightarrow> u32 \<Rightarrow> user_scheduler \<Rightarrow> (outcome \<times> user_scheduler) run" where
  "wake_all loop address_fiber wake_count s =
     call (EndWait address_fiber ResultSuccess s) (\<lambda>s.
     bind_run (loop address_fiber wake_count (m_next (m_links s) (Fiber_List address_fiber)) 1 s) (\<lambda>s.
     bind_run (transfer_wait_list address_fiber s) (\<lambda>s. ret (Returned ResultSuccess, s))))"

definition WakeByAddressImpl :: "u64 \<Rightarrow> u32 \<Rightarrow> user_scheduler \<Rightarrow> (outcome \<times> user_scheduler) run" where
  "WakeByAddressImpl address wake_count s =
     (if address = 0 then ret (Returned ResultInvalidAddress, s)
      else if wake_count = 0 then ret (Returned ResultSuccess, s)
      else bind_run (find_waiter address s) (\<lambda>waiter.
        case waiter of
          None \<Rightarrow> ret (Returned ResultSuccess, s)
        | Some address_fiber \<Rightarrow> wake_all wake_waiters address_fiber wake_count s))"

definition WakeByAddressIncrementEqualImpl :: "u64 \<Rightarrow> u32 \<Rightarrow> u32 \<Rightarrow> user_scheduler \<Rightarrow> (outcome \<times> user_scheduler) run" where
  "WakeByAddressIncrementEqualImpl address v wake_count s =
     (if address = 0 then ret (Returned ResultInvalidAddress, s)
      else
        let (exchanged, word) = compare_exchange (v + 1) v (m_words s address);
            s = s\<lparr>m_words := (m_words s)(address := word)\<rparr>
        in if \<not> exchanged then ret (Returned ResultInvalidWaitAddressValue, s)
           else bind_run (find_waiter address s) (\<lambda>waiter.
             case waiter of
               None \<Rightarrow> ret (Returned ResultSuccess, s)
             | Some address_fiber \<Rightarrow> wake_all wake_waiters_in_place address_fiber wake_count s))"

definition WakeByAddressModifyLessThanImpl :: "u64 \<Rightarrow> u32 \<Rightarrow> u32 \<Rightarrow> user_scheduler \<Rightarrow> (outcome \<times> user_scheduler) run" where
  "WakeByAddressModifyLessThanImpl address v wake_count s =
     (if address = 0 then ret (Returned ResultInvalidAddress, s)
      else if m_words s address \<noteq> v then ret (Returned ResultInvalidWaitAddressValue, s)
      else bind_run (find_waiter address s) (\<lambda>waiter.
        bind_run
          (case waiter of
             None \<Rightarrow> ret (1 :: u32)
           | Some address_fiber \<Rightarrow>
               if 0 < wake_count
               then (case list_GetCount (m_links s) (Fiber_List address_fiber) of
                       None \<Rightarrow> None
                     | Some n \<Rightarrow> ret (if (of_nat n :: u32) < wake_count then - 1 else 0))
               else ret (- 1)) (\<lambda>signal.
        let (exchanged, word) = compare_exchange (v + signal) v (m_words s address);
            s = s\<lparr>m_words := (m_words s)(address := word)\<rparr>
        in if \<not> exchanged then ret (Returned ResultInvalidWaitAddressValue, s)
           else (case waiter of
                   None \<Rightarrow> Some (Inl Null_Pointer)
                 | Some address_fiber \<Rightarrow> wake_all wake_waiters address_fiber wake_count s))))"

end
