(* ===== verification/Wait_Lists.thy ===== *)
theory Wait_Lists
  imports Arbiters
begin

text \<open>
  The wait lists of the scheduler as lists of fibers.  \<open>wait_lists h ps cs\<close>: \<open>m_wait_list\<close> holds the
  fibers \<open>ps\<close>, the \<open>wait_list\<close> of a fiber \<open>f\<close> holds \<open>cs f\<close>, and the nodes of all other fibers are
  unlinked.  The operations of the arbiters on links are given on these lists.
\<close>

definition sentinels :: "list_node set" where
  "sentinels = {Wait_List} \<union> range Fiber_List"

fun listed :: "fiber_ptr list \<Rightarrow> (fiber_ptr \<Rightarrow> fiber_ptr list) \<Rightarrow> list_node \<Rightarrow> list_node list" where
  "listed ps cs Wait_List = map Fiber_Node ps"
| "listed ps cs (Fiber_List f) = map Fiber_Node (cs f)"
| "listed ps cs (Fiber_Node f) = []"

definition wait_lists :: "list_node links \<Rightarrow> fiber_ptr list \<Rightarrow> (fiber_ptr \<Rightarrow> fiber_ptr list) \<Rightarrow> bool" where
  "wait_lists h ps cs \<longleftrightarrow> rings h sentinels (listed ps cs)"

definition waiting_in :: "fiber_ptr list \<Rightarrow> (fiber_ptr \<Rightarrow> fiber_ptr list) \<Rightarrow> fiber_ptr set" where
  "waiting_in ps cs = set ps \<union> (\<Union>f. set (cs f))"

lemma sentinels_simps [simp]:
  "Wait_List \<in> sentinels" "Fiber_List f \<in> sentinels" "Fiber_Node f \<notin> sentinels"
  by (auto simp: sentinels_def)

lemma ring_free_listed [simp]: "ring_free sentinels (listed ps cs) (Fiber_Node f) \<longleftrightarrow> f \<notin> waiting_in ps cs"
  by (auto simp: ring_free_def waiting_in_def sentinels_def)

lemma listed_update:
  "(listed ps cs)(Wait_List := map Fiber_Node qs) = listed qs cs"
  "(listed ps cs)(Fiber_List f := map Fiber_Node qs) = listed ps (cs(f := qs))"
proof -
  show "(listed ps cs)(Wait_List := map Fiber_Node qs) = listed qs cs"
  proof
    fix n show "((listed ps cs)(Wait_List := map Fiber_Node qs)) n = listed qs cs n" by (cases n) auto
  qed
  show "(listed ps cs)(Fiber_List f := map Fiber_Node qs) = listed ps (cs(f := qs))"
  proof
    fix n show "((listed ps cs)(Fiber_List f := map Fiber_Node qs)) n = listed ps (cs(f := qs)) n" by (cases n) auto
  qed
qed

lemma map_Fiber_Node_remove1: "remove1 (Fiber_Node f) (map Fiber_Node xs) = map Fiber_Node (remove1 f xs)"
  by (induction xs) auto

section \<open>Operations\<close>

lemma wait_lists_distinct:
  assumes "wait_lists h ps cs"
  shows "distinct ps" "distinct (cs f)" "x \<in> set (cs f) \<Longrightarrow> x \<notin> set ps" "x \<in> set (cs f) \<Longrightarrow> x \<in> set (cs g) \<Longrightarrow> f = g"
proof -
  note D = ringsD [OF assms [unfolded wait_lists_def]]
  show "distinct ps" using D(5) [of Wait_List] by (simp add: distinct_map)
  show "distinct (cs f)" using D(5) [of "Fiber_List f"] by (simp add: distinct_map)
  show "x \<in> set (cs f) \<Longrightarrow> x \<notin> set ps" using D(3) [of "Fiber_List f" Wait_List "Fiber_Node x"] by auto
  show "x \<in> set (cs f) \<Longrightarrow> x \<in> set (cs g) \<Longrightarrow> f = g" using D(3) [of "Fiber_List f" "Fiber_List g" "Fiber_Node x"] by auto
qed

lemma unlink_parent: "wait_lists h ps cs \<Longrightarrow> p \<in> set ps \<Longrightarrow> wait_lists (Unlink (Fiber_Node p) h) (remove1 p ps) cs"
  using rings_Unlink [of h sentinels "listed ps cs" Wait_List "Fiber_Node p"]
  by (auto simp: wait_lists_def map_Fiber_Node_remove1 listed_update)

lemma unlink_child:
  "wait_lists h ps cs \<Longrightarrow> p \<in> set (cs f) \<Longrightarrow> wait_lists (Unlink (Fiber_Node p) h) ps (cs(f := remove1 p (cs f)))"
  using rings_Unlink [of h sentinels "listed ps cs" "Fiber_List f" "Fiber_Node p"]
  by (auto simp: wait_lists_def map_Fiber_Node_remove1 listed_update)

lemma unlink_free: "wait_lists h ps cs \<Longrightarrow> p \<notin> waiting_in ps cs \<Longrightarrow> wait_lists (Unlink (Fiber_Node p) h) ps cs"
  using rings_Unlink_free [of h sentinels "listed ps cs" "Fiber_Node p"] by (simp add: wait_lists_def)

lemma push_parent:
  "wait_lists h ps cs \<Longrightarrow> p \<notin> waiting_in ps cs \<Longrightarrow> wait_lists (list_PushBack Wait_List (Fiber_Node p) h) (ps @ [p]) cs"
  using rings_PushBack [of h sentinels "listed ps cs" Wait_List "Fiber_Node p"] listed_update(1) [of ps cs "ps @ [p]"]
  by (simp add: wait_lists_def)

lemma push_child:
  "wait_lists h ps cs \<Longrightarrow> p \<notin> waiting_in ps cs \<Longrightarrow>
    wait_lists (list_PushBack (Fiber_List f) (Fiber_Node p) h) ps (cs(f := cs f @ [p]))"
  using rings_PushBack [of h sentinels "listed ps cs" "Fiber_List f" "Fiber_Node p"] listed_update(2) [of ps cs f "cs f @ [p]"]
  by (simp add: wait_lists_def)

lemma first_parent: "wait_lists h ps cs \<Longrightarrow> m_next h Wait_List = (case ps of [] \<Rightarrow> Wait_List | p # _ \<Rightarrow> Fiber_Node p)"
  using rings_first(1) [of h sentinels "listed ps cs" Wait_List] by (cases ps) (auto simp: wait_lists_def)

lemma first_child: "wait_lists h ps cs \<Longrightarrow> m_next h (Fiber_List f) = (case cs f of [] \<Rightarrow> Fiber_List f | p # _ \<Rightarrow> Fiber_Node p)"
  using rings_first(1) [of h sentinels "listed ps cs" "Fiber_List f"] by (cases "cs f") (auto simp: wait_lists_def)

lemma next_parent:
  "wait_lists h ps cs \<Longrightarrow> ps = as @ p # bs \<Longrightarrow> m_next h (Fiber_Node p) = (case bs of [] \<Rightarrow> Wait_List | q # _ \<Rightarrow> Fiber_Node q)"
  using rings_next [of h sentinels "listed ps cs" Wait_List "map Fiber_Node as" "Fiber_Node p" "map Fiber_Node bs"]
  by (cases bs) (auto simp: wait_lists_def)

lemma next_child:
  "wait_lists h ps cs \<Longrightarrow> cs f = as @ p # bs \<Longrightarrow> m_next h (Fiber_Node p) = (case bs of [] \<Rightarrow> Fiber_List f | q # _ \<Rightarrow> Fiber_Node q)"
  using rings_next [of h sentinels "listed ps cs" "Fiber_List f" "map Fiber_Node as" "Fiber_Node p" "map Fiber_Node bs"]
  by (cases bs) (auto simp: wait_lists_def)

lemma no_children: "wait_lists h ps cs \<Longrightarrow> list_IsEmpty h (Fiber_List f) \<longleftrightarrow> cs f = []"
  using rings_first(2) [of h sentinels "listed ps cs" "Fiber_List f"] by (simp add: wait_lists_def)

lemma node_linked: "wait_lists h ps cs \<Longrightarrow> node_IsLinked h (Fiber_Node f) \<longleftrightarrow> f \<in> waiting_in ps cs"
  using rings_linked [of h sentinels "listed ps cs" "Fiber_Node f"] by (simp add: wait_lists_def)

lemma pop_child:
  assumes "wait_lists h ps cs" and "cs f = p # xs"
  shows "list_PopFront (Fiber_List f) h = (Fiber_Node p, Unlink (Fiber_Node p) h)"
    and "wait_lists (Unlink (Fiber_Node p) h) ps (cs(f := xs))"
  using rings_PopFront [of h sentinels "listed ps cs" "Fiber_List f" "Fiber_Node p" "map Fiber_Node xs"] assms
  by (simp_all add: wait_lists_def listed_update)

lemma waiting_in_update:
  "p \<in> waiting_in (remove1 q ps) cs \<Longrightarrow> p \<in> waiting_in ps cs"
  "distinct ps \<Longrightarrow> waiting_in (ps @ [q]) cs = insert q (waiting_in ps cs)"
  by (auto simp: waiting_in_def dest: in_set_remove1 notin_set_remove1)

lemma waiting_in_push: "waiting_in ps (cs(f := cs f @ [q])) = insert q (waiting_in ps cs)"
  by (auto simp: waiting_in_def split: if_splits)

section \<open>Loops\<close>

lemma find_waiter_from_spec:
  "wait_lists (m_links s) ps cs \<Longrightarrow> ps = as @ bs \<Longrightarrow>
    find_waiter_from a (case bs of [] \<Rightarrow> Wait_List | p # _ \<Rightarrow> Fiber_Node p) s =
    ret (List.find (\<lambda>f. wait_address (m_fibers s f) = a) bs)"
proof (induction bs arbitrary: as)
  case Nil
  then show ?case by (simp add: find_waiter_from.simps)
next
  case (Cons b bs)
  show ?case
    using Cons.IH [of "as @ [b]"] Cons.prems next_parent [OF Cons.prems]
    by (subst find_waiter_from.simps) simp
qed

lemma find_waiter_spec:
  assumes "wait_lists (m_links s) ps cs"
  shows "find_waiter a s = ret (List.find (\<lambda>f. wait_address (m_fibers s f) = a) ps)"
  using find_waiter_from_spec [OF assms, of "[]" ps] first_parent [OF assms] by (simp add: find_waiter_def)

lemma move_waiters_spec:
  "wait_lists h ps cs \<Longrightarrow> f \<noteq> g \<Longrightarrow>
    \<exists>h'. move_waiters f g (case cs f of [] \<Rightarrow> Fiber_List f | p # _ \<Rightarrow> Fiber_Node p) h = Some h' \<and>
      wait_lists h' ps (cs(f := [], g := cs g @ cs f))"
proof (induction "cs f" arbitrary: cs h)
  case Nil
  then have same: "cs(f := [], g := cs g @ cs f) = cs" by auto
  show ?case unfolding same using Nil by (simp add: move_waiters.simps)
next
  case (Cons x xs)
  let ?h = "list_PushBack (Fiber_List g) (Fiber_Node x) (Unlink (Fiber_Node x) h)"
    and ?cs = "cs(f := xs, g := cs g @ [x])"
  note D = wait_lists_distinct [OF Cons.prems(1)] and cf = Cons.hyps(2) [symmetric]
  have u: "wait_lists (Unlink (Fiber_Node x) h) ps (cs(f := xs))"
    using unlink_child [OF Cons.prems(1), of x f] cf by simp
  have x: "x \<in> set (cs f)" "x \<notin> set xs" using D(2) [of f] cf by simp_all
  have "x \<notin> set ps" by (rule D(3) [OF x(1)])
  moreover have "x \<notin> set ((cs(f := xs)) g')" for g'
    using D(4) [OF x(1), of g'] x(2) by (cases "g' = f") auto
  ultimately have "x \<notin> waiting_in ps (cs(f := xs))" by (simp add: waiting_in_def)
  from push_child [OF u this, of g] have p: "wait_lists ?h ps ?cs" using Cons.prems(2) by simp
  have next_node: "m_next h (Fiber_Node x) = (case ?cs f of [] \<Rightarrow> Fiber_List f | p # _ \<Rightarrow> Fiber_Node p)"
    using next_child [OF Cons.prems(1), of f "[]" x xs] cf Cons.prems(2) by simp
  obtain h' where h': "move_waiters f g (case ?cs f of [] \<Rightarrow> Fiber_List f | p # _ \<Rightarrow> Fiber_Node p) ?h = Some h'"
    "wait_lists h' ps (?cs(f := [], g := ?cs g @ ?cs f))"
    using Cons.hyps(1) [of ?cs ?h] p Cons.prems(2) by auto
  have "move_waiters f g (Fiber_Node x) h = Some h'"
    using h'(1) next_node by (subst move_waiters.simps) (simp add: Let_def)
  moreover have "?cs(f := [], g := ?cs g @ ?cs f) = cs(f := [], g := cs g @ cs f)"
    using Cons.prems(2) cf by auto
  ultimately show ?case using h'(2) cf by auto
qed

lemma transfer_to_first_spec:
  assumes w: "wait_lists h ps cs" and f: "cs f = p # xs" and self: "p \<noteq> f"
  shows "\<exists>h'. transfer_to_first f h = ret (p, h') \<and> wait_lists h' ps (cs(f := [], p := cs p @ xs))"
proof -
  note pop = pop_child [OF w f]
  let ?cs = "cs(f := xs)"
  obtain h' where h': "move_waiters f p (case ?cs f of [] \<Rightarrow> Fiber_List f | q # _ \<Rightarrow> Fiber_Node q) (Unlink (Fiber_Node p) h) = Some h'"
    "wait_lists h' ps (?cs(f := [], p := ?cs p @ ?cs f))"
    using move_waiters_spec [OF pop(2), of f p] self by auto
  have "?cs(f := [], p := ?cs p @ ?cs f) = cs(f := [], p := cs p @ xs)" using self by auto
  then show ?thesis
    using h' pop first_child [OF pop(2), of f] by (simp add: transfer_to_first_def)
qed

end
