(* ===== verification/Run_Queues.thy ===== *)
theory Run_Queues
  imports Wait_Lists
begin

text \<open>
  The invariant of the scheduler state.  \<open>sched_inv L ps cs s\<close>, for the live fibers \<open>L\<close>: the fibers in
  state \<open>Waiting\<close> are those of the wait lists, each once; the fibers in state \<open>Scheduled\<close> are those of the
  thread queue, each once; the fibers in state \<open>ScheduledLocal\<close> are those of the ring of their core, each
  once; and \<open>m_runnable_fibers\<close> counts the last two.
\<close>

section \<open>Updates of a fiber\<close>

lemma upd_fiber_simps [simp]:
  "m_fibers (upd_fiber f u s) g = (if g = f then u (m_fibers s f) else m_fibers s g)"
  "m_links (upd_fiber f u s) = m_links s" "m_words (upd_fiber f u s) = m_words s"
  "m_scheduler_local_ring_table (upd_fiber f u s) = m_scheduler_local_ring_table s"
  "m_thread_queue (upd_fiber f u s) = m_thread_queue s" "m_runnable_fibers (upd_fiber f u s) = m_runnable_fibers s"
  "m_core_count (upd_fiber f u s) = m_core_count s" "m_handle_table (upd_fiber f u s) = m_handle_table s"
  "m_active_cores (upd_fiber f u s) = m_active_cores s"
  by (simp_all add: upd_fiber_def)

lemma upd_links_simps [simp]:
  "m_fibers (upd_links v s) = m_fibers s" "m_links (upd_links v s) = v (m_links s)" "m_words (upd_links v s) = m_words s"
  "m_scheduler_local_ring_table (upd_links v s) = m_scheduler_local_ring_table s"
  "m_thread_queue (upd_links v s) = m_thread_queue s" "m_runnable_fibers (upd_links v s) = m_runnable_fibers s"
  "m_core_count (upd_links v s) = m_core_count s" "m_handle_table (upd_links v s) = m_handle_table s"
  "m_active_cores (upd_links v s) = m_active_cores s"
  by (simp_all add: upd_links_def)

lemma fiber_key_simps [simp]:
  "fiber_key (s\<lparr>m_thread_queue := q\<rparr>) = fiber_key s" "fiber_key (s\<lparr>m_runnable_fibers := n\<rparr>) = fiber_key s"
  "fiber_key (s\<lparr>m_words := w\<rparr>) = fiber_key s" "fiber_key (s\<lparr>m_links := h\<rparr>) = fiber_key s"
  "fiber_key (s\<lparr>m_scheduler_local_ring_table := t\<rparr>) = fiber_key s" "fiber_key (upd_links v s) = fiber_key s"
  by (simp_all add: fiber_key_def fun_eq_iff)

lemma fiber_key_upd: "priority (u (m_fibers s f)) = priority (m_fibers s f) \<Longrightarrow> fiber_key (upd_fiber f u s) = fiber_key s"
  by (auto simp: fiber_key_def fun_eq_iff)

section \<open>The thread queue\<close>

abbreviation queued :: "user_scheduler \<Rightarrow> fiber_ptr multiset" where "queued s \<equiv> pq_items (pq_of (m_thread_queue s))"

definition queue_ok :: "user_scheduler \<Rightarrow> bool" where
  "queue_ok s \<longleftrightarrow> fpq_ok (fiber_key s) (m_thread_queue s) \<and> length (m_fixed_queue (m_thread_queue s)) = 256"

lemma queue_ok_cong: "m_thread_queue s' = m_thread_queue s \<Longrightarrow> fiber_key s' = fiber_key s \<Longrightarrow> queue_ok s' = queue_ok s"
  by (simp add: queue_ok_def)

lemma queue_Insert_spec:
  assumes "queue_ok s" and "f \<noteq> 0" and "size (queued s) < 256"
  shows "\<exists>q. queue_Insert f s = Inr (s\<lparr>m_thread_queue := q\<rparr>) \<and> queue_ok (s\<lparr>m_thread_queue := q\<rparr>) \<and>
    pq_items (pq_of q) = add_mset f (queued s)"
proof -
  obtain q where q: "fpq_Insert (fiber_key s) (Some f) (m_thread_queue s) = Inr q" "fpq_ok (fiber_key s) q"
    "pq_items (pq_of q) = add_mset f (queued s)" "length (m_fixed_queue q) = length (m_fixed_queue (m_thread_queue s))"
    using fpq.insert_room [of "fiber_key s" "m_thread_queue s" f] assms by (auto simp: queue_ok_def)
  then show ?thesis using assms
    by (intro exI [of _ q]) (simp add: queue_Insert_def queue_ok_def)
qed

text \<open>\<open>Remove\<close> finds its fiber although its priority may have changed since it was inserted.\<close>

lemma distinct_of_mset_set: "mset xs = mset_set A \<Longrightarrow> distinct xs"
proof -
  assume m: "mset xs = mset_set A"
  have "count (mset xs) x = (if x \<in> set xs then 1 else 0)" for x
  proof (cases "x \<in> set xs")
    case True
    then have "x \<in># mset_set A" using m [symmetric] by simp
    then have "count (mset_set A) x = 1" by (metis count_mset_set(1,3) count_mset_set(2) count_eq_zero_iff)
    then show ?thesis using True m by simp
  qed (simp add: count_mset)
  then show ?thesis by (simp add: distinct_count_atmost_1)
qed

lemma queue_Remove_spec:
  assumes k: "fpq_ok k (m_thread_queue s)" "length (m_fixed_queue (m_thread_queue s)) = 256"
    and same: "\<And>g. g \<noteq> f \<Longrightarrow> k g = fiber_key s g" and A: "queued s = mset_set A" "finite A" "f \<in> A"
  shows "\<exists>q. queue_Remove f s = Inr (s\<lparr>m_thread_queue := q\<rparr>) \<and> queue_ok (s\<lparr>m_thread_queue := q\<rparr>) \<and>
    pq_items (pq_of q) = queued s - {#f#}"
proof -
  let ?p = "pq_of (m_thread_queue s)" and ?k = "fiber_key s"
  let ?q = "m_queue ?p" and ?n = "unat (m_count ?p)"
  note D = fpq_okD [OF k(1)]
  note P = pq_okD [OF D(2)]
  have "f \<in># pq_items ?p" using A by simp
  then obtain i where i: "pq_FindIterTo f ?p = Inr i" "i < ?n" "?q ! i = f"
    using find_iter_from_spec [of 0 ?n ?q f] P by (auto simp: pq_items_def pq_FindIterTo_def)
  have "distinct (take ?n ?q)" using A(1) by (intro distinct_of_mset_set) (simp add: pq_items_def)
  then have uniq: "?q ! j \<noteq> f" if "j < ?n" "j \<noteq> i" for j
    using that i P(1,2) by (metis (no_types, lifting) length_take min.absorb2 nth_eq_iff_index_eq nth_take)
  have g: "gap_heap k ?n ?q i" using gap_of_heap [OF P(3), of i "?q ! i"] by simp
  have "gap_heap ?k ?n ?q i"
    unfolding gap_heap_def
  proof (intro allI impI)
    fix x assume x: "x < ?n" "0 < x" "x \<noteq> i"
    have p: "parent x < ?n" using parent_less [OF x(2)] x(1) by simp
    have pi: "0 < i \<Longrightarrow> parent i < ?n \<and> parent i \<noteq> i" using parent_less [of i] i(2) by auto
    have "if parent x = i then 0 < i \<longrightarrow> k (?q ! x) \<le> k (?q ! parent i) else k (?q ! x) \<le> k (?q ! parent x)"
      using g x unfolding gap_heap_def by blast
    then show "if parent x = i then 0 < i \<longrightarrow> ?k (?q ! x) \<le> ?k (?q ! parent i) else ?k (?q ! x) \<le> ?k (?q ! parent x)"
      using same [OF uniq [OF x(1,3)]] same [OF uniq [OF p]] same [OF uniq [of "parent i"]] pi by (auto split: if_splits)
  qed
  then have "pq_ok_except i ?k ?p"
    using D(2) by (simp add: pq_ok_except_def pq_ok_def)
  from pq_Remove_except [OF this i(2)] i(3) obtain p' where p': "pq_Remove ?k i ?p = Inr p'" "pq_ok ?k p'"
    "pq_items p' = pq_items ?p - {#f#}" "m_max p' = m_max ?p" by auto
  then obtain q where q: "fpq_Remove ?k i (m_thread_queue s) = Inr q" "p' = pq_of q"
    using fpq_Remove_sim [of ?k i "m_thread_queue s"] by (metis result_map_InrD)
  have "of_nat (length (m_fixed_queue q)) = (of_nat 256 :: u32)" using p'(4) q(2) k(2) by simp
  moreover have "length (m_fixed_queue q) = length (m_fixed_queue (m_thread_queue s))"
    using q(1) by (auto simp: fpq_Remove_def bind_vp_assert bind_result_Inr_iff Let_def fpq_InsertFixup_def fpq_RemoveFixup_def
        dest!: store_length InsertFixup_length RemoveFixup_length split: if_splits)
  ultimately show ?thesis using q p' i(1) k(2)
    by (intro exI [of _ q]) (simp add: queue_Remove_def queue_ok_def fpq_ok_def fpq_FindIterTo_sim [symmetric])
qed

section \<open>The invariant\<close>

definition fibers_in :: "fiber_ptr set \<Rightarrow> fiber_state \<Rightarrow> user_scheduler \<Rightarrow> fiber_ptr set" where
  "fibers_in L x s = {f \<in> L. state_of s f = x}"

definition local_in :: "fiber_ptr set \<Rightarrow> nat \<Rightarrow> user_scheduler \<Rightarrow> fiber_ptr set" where
  "local_in L c s = {f \<in> L. state_of s f = FiberState_ScheduledLocal \<and> unat (current_core (m_fibers s f)) = c}"

definition runnable_in :: "fiber_ptr set \<Rightarrow> user_scheduler \<Rightarrow> fiber_ptr set" where
  "runnable_in L s = fibers_in L FiberState_Scheduled s \<union> fibers_in L FiberState_ScheduledLocal s"

definition local_rings_ok :: "fiber_ptr set \<Rightarrow> user_scheduler \<Rightarrow> bool" where
  "local_rings_ok L s \<longleftrightarrow> length (m_scheduler_local_ring_table s) = cMaxCoreCount \<and>
     (\<forall>c<cMaxCoreCount. frb_ok (m_scheduler_local_ring_table s ! c) \<and>
        length (m_fixed_array (m_scheduler_local_ring_table s ! c)) = 256 \<and>
        mset (frb_items (m_scheduler_local_ring_table s ! c)) = mset_set (local_in L c s))"

definition sched_inv :: "fiber_ptr set \<Rightarrow> fiber_ptr list \<Rightarrow> (fiber_ptr \<Rightarrow> fiber_ptr list) \<Rightarrow> user_scheduler \<Rightarrow> bool" where
  "sched_inv L ps cs s \<longleftrightarrow> finite L \<and> card L \<le> 256 \<and> 0 \<notin> L \<and>
     wait_lists (m_links s) ps cs \<and> waiting_in ps cs = fibers_in L FiberState_Waiting s \<and>
     (\<forall>f\<in>waiting_in ps cs. waitable_object (m_fibers s f) \<noteq> None) \<and>
     queue_ok s \<and> queued s = mset_set (fibers_in L FiberState_Scheduled s) \<and>
     local_rings_ok L s \<and> unat (m_runnable_fibers s) = card (runnable_in L s)"

lemma sched_invD:
  assumes "sched_inv L ps cs s"
  shows "finite L" "card L \<le> 256" "0 \<notin> L" "wait_lists (m_links s) ps cs" "waiting_in ps cs = fibers_in L FiberState_Waiting s"
    "f \<in> waiting_in ps cs \<Longrightarrow> waitable_object (m_fibers s f) \<noteq> None"
    "queue_ok s" "queued s = mset_set (fibers_in L FiberState_Scheduled s)" "local_rings_ok L s"
    "unat (m_runnable_fibers s) = card (runnable_in L s)"
  using assms by (simp_all add: sched_inv_def)

lemma fibers_in_subset: "fibers_in L x s \<subseteq> L" by (auto simp: fibers_in_def)

lemma fibers_in_upd [simp]:
  "fibers_in L x (upd_fiber f u s) =
    (if f \<in> L \<and> fiber_state (u (m_fibers s f)) = x then insert f (fibers_in L x s) else fibers_in L x s - {f})"
  by (auto simp: fibers_in_def)

lemma local_in_upd [simp]:
  "local_in L c (upd_fiber f u s) =
    (if f \<in> L \<and> fiber_state (u (m_fibers s f)) = FiberState_ScheduledLocal \<and> unat (current_core (u (m_fibers s f))) = c
     then insert f (local_in L c s) else local_in L c s - {f})"
  by (auto simp: local_in_def)

lemma sets_in_cong [simp]:
  "fibers_in L x (upd_links v s) = fibers_in L x s" "local_in L c (upd_links v s) = local_in L c s"
  "fibers_in L x (s\<lparr>m_thread_queue := q\<rparr>) = fibers_in L x s" "local_in L c (s\<lparr>m_thread_queue := q\<rparr>) = local_in L c s"
  "fibers_in L x (s\<lparr>m_runnable_fibers := n\<rparr>) = fibers_in L x s" "local_in L c (s\<lparr>m_runnable_fibers := n\<rparr>) = local_in L c s"
  "fibers_in L x (s\<lparr>m_words := w\<rparr>) = fibers_in L x s" "local_in L c (s\<lparr>m_words := w\<rparr>) = local_in L c s"
  "fibers_in L x (s\<lparr>m_links := h\<rparr>) = fibers_in L x s" "local_in L c (s\<lparr>m_links := h\<rparr>) = local_in L c s"
  "fibers_in L x (s\<lparr>m_scheduler_local_ring_table := t\<rparr>) = fibers_in L x s"
  "local_in L c (s\<lparr>m_scheduler_local_ring_table := t\<rparr>) = local_in L c s"
  by (simp_all add: fibers_in_def local_in_def)

lemma not_in_fibers_in: "state_of s f \<noteq> x \<Longrightarrow> f \<notin> fibers_in L x s"
  by (simp add: fibers_in_def)

lemma not_in_local_in: "state_of s f \<noteq> FiberState_ScheduledLocal \<Longrightarrow> f \<notin> local_in L c s"
  by (simp add: local_in_def)

text \<open>A fiber in none of the three structures: it runs, exits, is suspended or on its way between them.\<close>

definition off_queues :: "fiber_state \<Rightarrow> bool" where
  "off_queues x \<longleftrightarrow> x \<notin> {FiberState_Scheduled, FiberState_ScheduledLocal, FiberState_Waiting}"

lemma inv_upd_off:
  assumes inv: "sched_inv L ps cs s" and "off_queues (state_of s f)" and "off_queues (fiber_state (u (m_fibers s f)))"
    and "priority (u (m_fibers s f)) = priority (m_fibers s f)"
  shows "sched_inv L ps cs (upd_fiber f u s)"
proof -
  note D = sched_invD [OF inv]
  have off: "f \<notin> fibers_in L x s" "fiber_state (u (m_fibers s f)) \<noteq> x"
    if "x \<in> {FiberState_Scheduled, FiberState_ScheduledLocal, FiberState_Waiting}" for x
    using assms(2,3) that by (auto simp: off_queues_def fibers_in_def)
  have loc: "f \<notin> local_in L c s" for c using assms(2) by (auto simp: off_queues_def local_in_def)
  have same: "fibers_in L x (upd_fiber f u s) = fibers_in L x s"
    if "x \<in> {FiberState_Scheduled, FiberState_ScheduledLocal, FiberState_Waiting}" for x
    using off [OF that] by simp
  have "local_in L c (upd_fiber f u s) = local_in L c s" for c using loc off by simp
  moreover have "f \<notin> waiting_in ps cs" using D(5) off(1) by simp
  ultimately show ?thesis
    using D same [of FiberState_Scheduled] same [of FiberState_ScheduledLocal] same [of FiberState_Waiting]
      fiber_key_upd [of u s f] assms(4)
    by (auto simp: sched_inv_def queue_ok_def local_rings_ok_def runnable_in_def simp del: fibers_in_upd local_in_upd)
qed

lemma card_runnable: "sched_inv L ps cs s \<Longrightarrow> card (runnable_in L s) \<le> 256"
  using card_mono [of L "runnable_in L s"] by (auto simp: sched_inv_def runnable_in_def fibers_in_def)

text \<open>A fiber that is in no structure becomes runnable.\<close>

lemma inv_make_runnable:
  assumes inv: "sched_inv L ps cs s" and f: "f \<in> L" "off_queues (state_of s f)"
  shows "\<exists>q. queue_Insert f (s\<lparr>m_runnable_fibers := m_runnable_fibers s + 1\<rparr>) =
      Inr (s\<lparr>m_runnable_fibers := m_runnable_fibers s + 1, m_thread_queue := q\<rparr>) \<and>
    sched_inv L ps cs (upd_fiber f (\<lambda>l. l\<lparr>fiber_state := FiberState_Scheduled\<rparr>)
      (s\<lparr>m_runnable_fibers := m_runnable_fibers s + 1, m_thread_queue := q\<rparr>))"
proof -
  note D = sched_invD [OF inv]
  let ?s = "s\<lparr>m_runnable_fibers := m_runnable_fibers s + 1\<rparr>"
  have off: "f \<notin> fibers_in L FiberState_Scheduled s" "f \<notin> fibers_in L FiberState_ScheduledLocal s"
    "f \<notin> fibers_in L FiberState_Waiting s" "f \<notin> local_in L c s" for c
    using f(2) by (auto simp: off_queues_def fibers_in_def local_in_def)
  have "fibers_in L FiberState_Scheduled s \<subset> L" using off(1) f(1) fibers_in_subset by blast
  then have room: "size (queued ?s) < 256"
    using D(1,2,8) psubset_card_mono [of L "fibers_in L FiberState_Scheduled s"] by simp
  have nz: "f \<noteq> 0" using D(3) f(1) by auto
  have "queue_ok ?s" using D(7) by (simp add: queue_ok_def)
  from queue_Insert_spec [OF this nz room] obtain q where q: "queue_Insert f ?s = Inr (?s\<lparr>m_thread_queue := q\<rparr>)"
    "queue_ok (?s\<lparr>m_thread_queue := q\<rparr>)" "pq_items (pq_of q) = add_mset f (queued s)" by auto
  let ?t = "upd_fiber f (\<lambda>l. l\<lparr>fiber_state := FiberState_Scheduled\<rparr>) (?s\<lparr>m_thread_queue := q\<rparr>)"
  have run: "runnable_in L ?t = insert f (runnable_in L s)" "f \<notin> runnable_in L s"
    using f(1) off by (auto simp: runnable_in_def)
  have fin: "finite (runnable_in L s)" using D(1) by (auto simp: runnable_in_def fibers_in_def)
  have "unat (m_runnable_fibers s + 1) = card (runnable_in L s) + 1"
    using D(10) card_runnable [OF inv] by (subst unat_add_nowrap) simp_all
  moreover have "finite (fibers_in L FiberState_Scheduled s)" using D(1) fibers_in_subset finite_subset by metis
  ultimately have "sched_inv L ps cs ?t"
    using D q(2,3) run fin off f(1) fiber_key_upd [of "\<lambda>l. l\<lparr>fiber_state := FiberState_Scheduled\<rparr>" "?s\<lparr>m_thread_queue := q\<rparr>" f]
    by (auto simp: sched_inv_def queue_ok_def local_rings_ok_def)
  then show ?thesis using q(1) by auto
qed

lemma inv_AddTo:
  assumes inv: "sched_inv L ps cs s" and f: "f \<in> L" "off_queues (state_of s f)"
  shows "\<exists>s'. AddToSchedulerUnsafe f s = Inr s' \<and> sched_inv L ps cs s' \<and> m_links s' = m_links s \<and> m_words s' = m_words s \<and>
    (\<forall>g. g \<noteq> f \<longrightarrow> m_fibers s' g = m_fibers s g) \<and>
    m_fibers s' f = (m_fibers s f)\<lparr>fiber_state := if activity_level (m_fibers s f) = ActivityLevel_Suspended
      then FiberState_Suspended else FiberState_Scheduled\<rparr> \<and>
    m_core_count s' = m_core_count s \<and> m_handle_table s' = m_handle_table s"
proof -
  have st: "state_of s f \<noteq> FiberState_Waiting" "state_of s f \<noteq> FiberState_Scheduled" "state_of s f \<noteq> FiberState_ScheduledLocal"
    using f(2) by (auto simp: off_queues_def)
  show ?thesis
  proof (cases "activity_level (m_fibers s f) = ActivityLevel_Suspended")
    case True
    then show ?thesis
      using inv_upd_off [OF inv f(2), of "\<lambda>l. l\<lparr>fiber_state := FiberState_Suspended\<rparr>"] st
      by (simp add: AddToSchedulerUnsafe_def off_queues_def)
  next
    case False
    then show ?thesis using inv_make_runnable [OF inv f] st by (auto simp: AddToSchedulerUnsafe_def)
  qed
qed

section \<open>The constructed scheduler\<close>

lemma empty_wait_lists: "wait_lists \<lparr>m_prev = id, m_next = id\<rparr> [] (\<lambda>_. [])"
proof -
  have "listed [] (\<lambda>_. []) n = []" for n by (cases n) auto
  then show ?thesis by (auto simp: wait_lists_def rings_def list_rep_def unlinked_def)
qed

lemma empty_ring_ok: "frb_ok (FixedRingBuffer_construct cMaxThreadCount)"
  "frb_items (FixedRingBuffer_construct cMaxThreadCount) = []"
  "length (m_fixed_array (FixedRingBuffer_construct cMaxThreadCount)) = 256"
  by (simp_all add: frb_ok_def frb_items_def rb_ok_def rb_items_def ring_of_def FixedRingBuffer_construct_def cMaxThreadCount_def)

lemma inv_construct:
  assumes "finite L" and "card L \<le> 256" and "0 \<notin> L" and off: "\<forall>f\<in>L. off_queues (fiber_state (fs f))"
  shows "sched_inv L [] (\<lambda>_. []) ((UserScheduler_construct array words)\<lparr>m_fibers := fs\<rparr>)" (is "sched_inv L [] _ ?s")
proof -
  have none: "fibers_in L x ?s = {}" if "x \<in> {FiberState_Scheduled, FiberState_ScheduledLocal, FiberState_Waiting}" for x
    using off that by (auto simp: fibers_in_def off_queues_def)
  have loc: "local_in L c ?s = {}" for c using off by (auto simp: local_in_def off_queues_def)
  have q: "fpq_ok k (FixedPriorityQueue_construct (0 :: fiber_ptr) (unat cMaxThreadCount))"
    "pq_items (pq_of (FixedPriorityQueue_construct (0 :: fiber_ptr) (unat cMaxThreadCount))) = {#}" for k :: "fiber_ptr \<Rightarrow> int"
    using fpq_empty_ok [of "unat cMaxThreadCount" k "0 :: fiber_ptr"] by (simp_all add: cMaxThreadCount_def)
  have "queue_ok ?s" using q(1) by (simp add: queue_ok_def UserScheduler_construct_def FixedPriorityQueue_construct_def cMaxThreadCount_def)
  moreover have "local_rings_ok L ?s"
    using loc empty_ring_ok by (simp add: local_rings_ok_def UserScheduler_construct_def)
  moreover have "wait_lists (m_links ?s) [] (\<lambda>_. [])" using empty_wait_lists by (simp add: UserScheduler_construct_def)
  moreover have "queued ?s = {#}" using q(2) by (simp add: UserScheduler_construct_def)
  moreover have "m_runnable_fibers ?s = 0" by (simp add: UserScheduler_construct_def)
  ultimately show ?thesis
    using assms(1-3) none by (simp add: sched_inv_def waiting_in_def runnable_in_def)
qed

end
