(* ===== verification/Wait_Address.thy ===== *)
theory Wait_Address
  imports Run_Queues
begin

text \<open>
  Waiting and waking keep the invariant of the scheduler, and what they do to the waiters: a wait puts the
  fiber behind the waiters of its address, a wake ends the waits of the first ones.
\<close>

section \<open>Into a wait list and out of it\<close>

lemma upd_links_fiber: "upd_links v (upd_fiber f u s) = upd_fiber f u (upd_links v s)"
  by (simp add: upd_links_def upd_fiber_def)

lemma inv_relink:
  assumes inv: "sched_inv L ps cs s"
    and x: "state_of s f \<notin> {FiberState_Scheduled, FiberState_ScheduledLocal}"
    and x': "fiber_state (u (m_fibers s f)) \<notin> {FiberState_Scheduled, FiberState_ScheduledLocal}"
    and p: "priority (u (m_fibers s f)) = priority (m_fibers s f)"
    and wl: "wait_lists (v (m_links s)) ps' cs'"
    and W: "waiting_in ps' cs' = (if f \<in> L \<and> fiber_state (u (m_fibers s f)) = FiberState_Waiting
      then insert f (waiting_in ps cs) else waiting_in ps cs - {f})"
    and o: "fiber_state (u (m_fibers s f)) = FiberState_Waiting \<Longrightarrow> waitable_object (u (m_fibers s f)) \<noteq> None"
  shows "sched_inv L ps' cs' (upd_fiber f u (upd_links v s))"
proof -
  note D = sched_invD [OF inv]
  let ?s = "upd_fiber f u (upd_links v s)"
  have same: "fibers_in L y ?s = fibers_in L y s" if "y \<in> {FiberState_Scheduled, FiberState_ScheduledLocal}" for y
    using x x' that not_in_fibers_in [of s f y L] by auto
  have loc: "local_in L c ?s = local_in L c s" for c
    using x x' not_in_local_in [of s f L c] by simp
  have "fibers_in L FiberState_Waiting ?s = waiting_in ps' cs'"
    using W D(5) by simp
  moreover have "waitable_object (m_fibers ?s g) \<noteq> None" if "g \<in> waiting_in ps' cs'" for g
    using that W D(6) [of g] o by (auto split: if_splits)
  moreover have "fiber_key ?s = fiber_key s" using fiber_key_upd [of u "upd_links v s" f] p by simp
  ultimately show ?thesis
    using D wl same loc by (simp add: sched_inv_def queue_ok_def local_rings_ok_def runnable_in_def del: fibers_in_upd local_in_upd)
qed

lemma waiting_in_remove:
  assumes "wait_lists h ps cs"
  shows "f \<in> set ps \<Longrightarrow> waiting_in (remove1 f ps) cs = waiting_in ps cs - {f}"
    and "f \<in> set (cs p) \<Longrightarrow> waiting_in ps (cs(p := remove1 f (cs p))) = waiting_in ps cs - {f}"
proof -
  note D = wait_lists_distinct [OF assms]
  show "waiting_in (remove1 f ps) cs = waiting_in ps cs - {f}" if f: "f \<in> set ps"
    using D(1) D(3) [of f] f by (auto simp: waiting_in_def)
  show "waiting_in ps (cs(p := remove1 f (cs p))) = waiting_in ps cs - {f}" if f: "f \<in> set (cs p)"
  proof -
    have "f \<notin> set ps" by (rule D(3) [OF f])
    moreover have "g = p" if "f \<in> set (cs g)" for g using D(4) [OF f that] by simp
    ultimately show ?thesis using D(2) [of p] by (fastforce simp: waiting_in_def split: if_splits)
  qed
qed

lemma waiting_in_snoc: "waiting_in (ps @ [f]) cs = insert f (waiting_in ps cs)"
  by (auto simp: waiting_in_def)

lemma inv_push_parent:
  assumes inv: "sched_inv L ps cs s" and f: "f \<in> L" "off_queues (state_of s f)"
    and u: "fiber_state (u (m_fibers s f)) = FiberState_Waiting" "waitable_object (u (m_fibers s f)) \<noteq> None"
      "priority (u (m_fibers s f)) = priority (m_fibers s f)"
  shows "sched_inv L (ps @ [f]) cs (upd_links (list_PushBack Wait_List (Fiber_Node f)) (upd_fiber f u s))"
proof -
  note D = sched_invD [OF inv]
  have "f \<notin> waiting_in ps cs" using D(5) f(2) by (auto simp: fibers_in_def off_queues_def)
  then show ?thesis
    unfolding upd_links_fiber using f u push_parent [OF D(4)]
    by (intro inv_relink [OF inv]) (auto simp: waiting_in_snoc off_queues_def)
qed

lemma inv_push_child:
  assumes inv: "sched_inv L ps cs s" and f: "f \<in> L" "off_queues (state_of s f)"
    and u: "fiber_state (u (m_fibers s f)) = FiberState_Waiting" "waitable_object (u (m_fibers s f)) \<noteq> None"
      "priority (u (m_fibers s f)) = priority (m_fibers s f)"
  shows "sched_inv L ps (cs(p := cs p @ [f])) (upd_links (list_PushBack (Fiber_List p) (Fiber_Node f)) (upd_fiber f u s))"
proof -
  note D = sched_invD [OF inv]
  have "f \<notin> waiting_in ps cs" using D(5) f(2) by (auto simp: fibers_in_def off_queues_def)
  then show ?thesis
    unfolding upd_links_fiber using f u push_child [OF D(4)]
    by (intro inv_relink [OF inv]) (auto simp: waiting_in_push off_queues_def)
qed

text \<open>What the end of a wait does to the storage of the fiber.\<close>

definition ended :: "ukern_result \<Rightarrow> fiber_local_storage \<Rightarrow> fiber_local_storage" where
  "ended r l = l\<lparr>fiber_state := if activity_level l = ActivityLevel_Suspended then FiberState_Suspended else FiberState_Scheduled,
     last_result := r, timeout := 0\<rparr>"

definition after_end :: "fiber_ptr set \<Rightarrow> ukern_result \<Rightarrow> user_scheduler \<Rightarrow> user_scheduler \<Rightarrow> bool" where
  "after_end fs r s s' \<longleftrightarrow> m_fibers s' = (\<lambda>f. if f \<in> fs then ended r (m_fibers s f) else m_fibers s f) \<and>
     m_words s' = m_words s \<and> m_core_count s' = m_core_count s \<and> m_handle_table s' = m_handle_table s"

lemma after_end_trans:
  "after_end A r s s' \<Longrightarrow> after_end B r s' s'' \<Longrightarrow> A \<inter> B = {} \<Longrightarrow> after_end (A \<union> B) r s s''"
  by (auto simp: after_end_def fun_eq_iff)

lemma EndFiberWaitImpl_spec:
  assumes inv: "sched_inv L ps cs s" and f: "f \<in> waiting_in ps cs"
    and wl: "wait_lists (Unlink (Fiber_Node f) (m_links s)) ps' cs'" and W: "waiting_in ps' cs' = waiting_in ps cs - {f}"
  shows "\<exists>s'. EndFiberWaitImpl f r s = Inr s' \<and> sched_inv L ps' cs' s' \<and> after_end {f} r s s'"
proof -
  note D = sched_invD [OF inv]
  let ?u = "\<lambda>l. l\<lparr>fiber_state := FiberState_Unscheduled, last_result := r, timeout := 0\<rparr>"
  let ?s = "upd_fiber f ?u (upd_links (Unlink (Fiber_Node f)) s)"
  have st: "state_of s f = FiberState_Waiting" "f \<in> L" using D(5) f by (auto simp: fibers_in_def)
  have inv': "sched_inv L ps' cs' ?s" using wl W st by (intro inv_relink [OF inv]) auto
  from inv_AddTo [OF inv' st(2)] obtain s' where s': "AddToSchedulerUnsafe f ?s = Inr s'" "sched_inv L ps' cs' s'"
    "m_words s' = m_words s" "\<forall>g. g \<noteq> f \<longrightarrow> m_fibers s' g = m_fibers s g" "m_fibers s' f = ended r (m_fibers s f)"
    "m_core_count s' = m_core_count s" "m_handle_table s' = m_handle_table s"
    by (auto simp: off_queues_def ended_def)
  then show ?thesis by (auto simp: EndFiberWaitImpl_def Let_def after_end_def fun_eq_iff)
qed

lemma EndWait_parent:
  assumes inv: "sched_inv L ps cs s" and f: "f \<in> set ps"
  shows "\<exists>s'. EndWait f r s = Inr s' \<and> sched_inv L (remove1 f ps) cs s' \<and> after_end {f} r s s'"
proof -
  note D = sched_invD [OF inv]
  have w: "f \<in> waiting_in ps cs" using f by (simp add: waiting_in_def)
  show ?thesis
    using EndFiberWaitImpl_spec [OF inv w unlink_parent [OF D(4) f] waiting_in_remove(1) [OF D(4) f], of r] D(6) [OF w]
    by (auto simp: EndWait_def)
qed

lemma Unlink_idem: "Unlink n (Unlink n h) = Unlink n h"
  by (simp add: link_defs fun_upd_idem)

lemma EndWait_child:
  assumes inv: "sched_inv L ps cs s" and f: "f \<in> set (cs p)"
  shows "\<exists>s'. EndWait f r (upd_links (Unlink (Fiber_Node f)) s) = Inr s' \<and> sched_inv L ps (cs(p := remove1 f (cs p))) s' \<and>
    after_end {f} r s s'"
proof -
  note D = sched_invD [OF inv]
  have w: "f \<in> waiting_in ps cs" using f by (auto simp: waiting_in_def)
  have "EndFiberWaitImpl f r (upd_links (Unlink (Fiber_Node f)) s) = EndFiberWaitImpl f r s"
    by (simp add: EndFiberWaitImpl_def Let_def upd_links_def Unlink_idem)
  then show ?thesis
    using EndFiberWaitImpl_spec [OF inv w unlink_child [OF D(4) f] waiting_in_remove(2) [OF D(4) f], of r] D(6) [OF w]
    by (auto simp: EndWait_def)
qed

section \<open>The wake loop\<close>

lemma wake_waiters_spec:
  assumes "sched_inv L ps cs s" and "unat i = Suc k" and "k + length (cs p) < 2 ^ 32 - 1"
  shows "\<exists>s'. wake_waiters p c (case cs p of [] \<Rightarrow> Fiber_List p | q # _ \<Rightarrow> Fiber_Node q) i s = ret s' \<and>
    sched_inv L ps (cs(p := drop (unat c - k) (cs p))) s' \<and> after_end (set (take (unat c - k) (cs p))) ResultSuccess s s'"
  using assms
proof (induction "cs p" arbitrary: cs s i k)
  case Nil
  have same: "cs(p := drop (unat c - k) (cs p)) = cs" using Nil.hyps by auto
  show ?case
    unfolding same using Nil.hyps [symmetric] Nil.prems(1)
    by (simp add: wake_waiters.simps [of p c "Fiber_List p"] after_end_def)
next
  case (Cons x xs)
  note cp = Cons.hyps(2) [symmetric] and D = sched_invD [OF Cons.prems(1)]
  have nx: "m_next (m_links s) (Fiber_Node x) = (case xs of [] \<Rightarrow> Fiber_List p | q # _ \<Rightarrow> Fiber_Node q)"
    using next_child [OF D(4), of p "[]" x xs] cp by simp
  show ?case
  proof (cases "c < i")
    case True
    then have z: "unat c - k = 0" using Cons.prems(2) by (simp add: word_less_nat_alt)
    have same: "cs(p := drop (unat c - k) (cs p)) = cs" by (simp add: z)
    show ?thesis
      unfolding same using Cons.prems(1) cp z True
      by (simp add: wake_waiters.simps [of p c "Fiber_Node x"] Let_def after_end_def)
  next
    case False
    then have ck: "unat c - k = Suc (unat c - Suc k)" using Cons.prems(2) by (simp add: word_less_nat_alt)
    have "x \<in> set (cs p)" using cp by simp
    from EndWait_child [OF Cons.prems(1) this, of ResultSuccess] obtain t where
      t: "EndWait x ResultSuccess (upd_links (Unlink (Fiber_Node x)) s) = Inr t" "sched_inv L ps (cs(p := xs)) t"
      "after_end {x} ResultSuccess s t" using cp by auto
    have i: "unat (i + 1) = Suc (Suc k)"
      using Cons.prems(2,3) cp by (subst unat_add_nowrap) simp_all
    obtain s' where s': "wake_waiters p c (case xs of [] \<Rightarrow> Fiber_List p | q # _ \<Rightarrow> Fiber_Node q) (i + 1) t = ret s'"
      "sched_inv L ps ((cs(p := xs))(p := drop (unat c - Suc k) xs)) s'"
      "after_end (set (take (unat c - Suc k) xs)) ResultSuccess t s'"
      using Cons.hyps(1) [of "cs(p := xs)" t "i + 1" "Suc k"] t(2) i Cons.prems(3) cp by auto
    have "x \<notin> set xs" using wait_lists_distinct(2) [OF D(4), of p] cp by simp
    then have "{x} \<inter> set (take (unat c - Suc k) xs) = {}" by (auto dest: in_set_takeD)
    from after_end_trans [OF t(3) s'(3) this] have
      "after_end (set (take (unat c - k) (cs p))) ResultSuccess s s'" by (simp add: cp ck)
    moreover have "wake_waiters p c (Fiber_Node x) i s = ret s'"
      using s'(1) t(1) nx False by (subst wake_waiters.simps) (simp add: Let_def)
    ultimately show ?thesis using s'(2) by (simp add: cp ck)
  qed
qed

section \<open>What is left of the list\<close>

lemma inv_relist:
  assumes inv: "sched_inv L ps cs s" and "wait_lists h ps' cs'" and "waiting_in ps' cs' = waiting_in ps cs"
  shows "sched_inv L ps' cs' (s\<lparr>m_links := h\<rparr>)"
  using sched_invD [OF inv] assms(2,3)
  by (auto simp: sched_inv_def queue_ok_def local_rings_ok_def runnable_in_def)

fun parents_after :: "fiber_ptr list \<Rightarrow> fiber_ptr list \<Rightarrow> fiber_ptr list" where
  "parents_after ps [] = ps"
| "parents_after ps (q # qs) = ps @ [q]"

fun children_after :: "(fiber_ptr \<Rightarrow> fiber_ptr list) \<Rightarrow> fiber_ptr \<Rightarrow> fiber_ptr list \<Rightarrow> (fiber_ptr \<Rightarrow> fiber_ptr list)" where
  "children_after cs p [] = cs(p := [])"
| "children_after cs p (q # qs) = cs(p := [], q := cs q @ qs)"

lemma transfer_wait_list_spec:
  assumes inv: "sched_inv L ps cs s" and self: "p \<notin> set (cs p)"
  shows "\<exists>h. transfer_wait_list p s = ret (s\<lparr>m_links := h\<rparr>) \<and>
    sched_inv L (parents_after ps (cs p)) (children_after cs p (cs p)) (s\<lparr>m_links := h\<rparr>)"
proof (cases "cs p")
  case Nil
  have same: "cs(p := []) = cs" using Nil by auto
  show ?thesis
    using inv no_children [OF sched_invD(4) [OF inv], of p] Nil same
    by (intro exI [of _ "m_links s"]) (simp add: transfer_wait_list_def)
next
  case (Cons q qs)
  note D = sched_invD [OF inv]
  note W = wait_lists_distinct [OF D(4)]
  have q: "q \<in> set (cs p)" "q \<notin> set qs" using Cons W(2) [of p] by simp_all
  have False: "q \<noteq> p" using q self by auto
  let ?cs = "cs(p := [], q := cs q @ qs)"
  obtain h' where h': "transfer_to_first p (m_links s) = ret (q, h')" "wait_lists h' ps ?cs"
    using transfer_to_first_spec [OF D(4) Cons False] by blast
  have qn: "q \<notin> set ps" "q \<notin> set (cs g)" if "g \<noteq> p" for g using W(3) [OF q(1)] W(4) [OF q(1), of g] that by auto
  have "q \<notin> waiting_in ps ?cs" using qn(1) [OF False] qn(2) q(2) False by (auto simp: waiting_in_def)
  from push_parent [OF h'(2) this] have w: "wait_lists (list_PushBack Wait_List (Fiber_Node q) h') (ps @ [q]) ?cs" .
  have "waiting_in (ps @ [q]) ?cs = waiting_in ps cs"
  proof -
    have "(\<Union>g. set (?cs g)) \<union> {q} = (\<Union>g. set (cs g))"
    proof (intro equalityI subsetI)
      fix x assume "x \<in> (\<Union>g. set (?cs g)) \<union> {q}"
      moreover have "x \<in> set (cs p)" if "x \<in> insert q (set qs)" using that Cons by simp
      ultimately show "x \<in> (\<Union>g. set (cs g))" by (auto split: if_splits)
    next
      fix x assume "x \<in> (\<Union>g. set (cs g))"
      then obtain g where g: "x \<in> set (cs g)" by blast
      show "x \<in> (\<Union>g. set (?cs g)) \<union> {q}"
      proof (cases "g = p")
        case True
        then have "x = q \<or> x \<in> set (?cs q)" using g Cons by auto
        then show ?thesis by blast
      next
        case gp: False
        then have "x \<in> set (?cs g)" using g by auto
        then show ?thesis by blast
      qed
    qed
    then show ?thesis by (auto simp: waiting_in_def)
  qed
  from inv_relist [OF inv w this] show ?thesis
    using h'(1) no_children [OF D(4), of p] Cons
    by (intro exI [of _ "list_PushBack Wait_List (Fiber_Node q) h'"]) (simp add: transfer_wait_list_def upd_links_def)
qed

section \<open>Wait and wake\<close>

text \<open>The waiters of an address: the first fiber of \<open>m_wait_list\<close> that waits on it, and the list of this fiber.\<close>

definition waiters_of :: "u64 \<Rightarrow> fiber_ptr list \<Rightarrow> (fiber_ptr \<Rightarrow> fiber_ptr list) \<Rightarrow> user_scheduler \<Rightarrow> fiber_ptr list" where
  "waiters_of a ps cs s =
     (case List.find (\<lambda>f. wait_address (m_fibers s f) = a) ps of None \<Rightarrow> [] | Some p \<Rightarrow> p # cs p)"

lemma find_someD: "List.find P xs = Some x \<Longrightarrow> x \<in> set xs \<and> P x"
  by (auto simp: find_Some_iff in_set_conv_nth)

lemma children_bound:
  assumes "sched_inv L ps cs s"
  shows "length (cs p) \<le> 256"
proof -
  note D = sched_invD [OF assms]
  have "set (cs p) \<subseteq> L" using D(5) fibers_in_subset [of L FiberState_Waiting s] by (auto simp: waiting_in_def)
  then have "card (set (cs p)) \<le> 256" using card_mono [OF D(1)] D(2) by (meson le_trans)
  then show ?thesis using wait_lists_distinct(2) [OF D(4), of p] by (simp add: distinct_card)
qed

lemma wake_all_spec:
  assumes inv: "sched_inv L ps cs s" and p: "p \<in> set ps"
  shows "\<exists>s'. wake_all wake_waiters p c s = ret (Returned ResultSuccess, s') \<and>
    after_end (set (take (Suc (unat c)) (p # cs p))) ResultSuccess s s' \<and>
    sched_inv L (parents_after (remove1 p ps) (drop (unat c) (cs p))) (children_after cs p (drop (unat c) (cs p))) s'"
proof -
  note D = sched_invD [OF inv]
  obtain t where t: "EndWait p ResultSuccess s = Inr t" "sched_inv L (remove1 p ps) cs t" "after_end {p} ResultSuccess s t"
    using EndWait_parent [OF inv p] by blast
  let ?rest = "drop (unat c) (cs p)" and ?cs = "cs(p := drop (unat c) (cs p))"
  have "0 + length (cs p) < 2 ^ 32 - 1" using children_bound [OF inv, of p] by simp
  from wake_waiters_spec [OF t(2) _ this, of 1 c] obtain w where
    w: "wake_waiters p c (case cs p of [] \<Rightarrow> Fiber_List p | q # _ \<Rightarrow> Fiber_Node q) 1 t = ret w"
    "sched_inv L (remove1 p ps) ?cs w" "after_end (set (take (unat c) (cs p))) ResultSuccess t w" by auto
  have self: "p \<notin> set (cs p)" using wait_lists_distinct(3) [OF D(4), of p p] p by auto
  then have "p \<notin> set (?cs p)" by (auto dest: in_set_dropD)
  from transfer_wait_list_spec [OF w(2) this] obtain h where
    h: "transfer_wait_list p w = ret (w\<lparr>m_links := h\<rparr>)"
    "sched_inv L (parents_after (remove1 p ps) ?rest) (children_after ?cs p ?rest) (w\<lparr>m_links := h\<rparr>)"
    unfolding fun_upd_same by blast
  have ch: "children_after ?cs p ?rest = children_after cs p ?rest"
  proof (cases ?rest)
    case (Cons q qs)
    then have "q \<in> set (cs p)" by (metis in_set_dropD list.set_intros(1))
    then have "q \<noteq> p" using self by auto
    then show ?thesis using Cons by (auto simp: fun_eq_iff)
  qed simp
  have "{p} \<inter> set (take (unat c) (cs p)) = {}" using self by (auto dest: in_set_takeD)
  from after_end_trans [OF t(3) w(3) this] have "after_end (set (take (Suc (unat c)) (p # cs p))) ResultSuccess s w" by simp
  then have "after_end (set (take (Suc (unat c)) (p # cs p))) ResultSuccess s (w\<lparr>m_links := h\<rparr>)" by (simp add: after_end_def)
  moreover have "wake_all wake_waiters p c s = ret (Returned ResultSuccess, w\<lparr>m_links := h\<rparr>)"
    using t(1) w(1) h(1) first_child [OF sched_invD(4) [OF t(2)], of p] by (simp add: wake_all_def)
  ultimately show ?thesis using h(2) ch by auto
qed

lemma find_snoc: "List.find P (xs @ [x]) = (case List.find P xs of None \<Rightarrow> if P x then Some x else None | Some y \<Rightarrow> Some y)"
  by (induction xs) auto

text \<open>A fiber that holds no contended lock comes behind the waiters of its address.\<close>

lemma wait_on_address_spec:
  assumes inv: "sched_inv L ps cs s" and f: "f \<in> L" "off_queues (state_of s f)" and free: "cs f = []"
  shows "\<exists>s' ps' cs'. wait_on_address f a t s = ret s' \<and> sched_inv L ps' cs' s' \<and>
    waiters_of a ps' cs' s' = waiters_of a ps cs s @ [f] \<and>
    m_fibers s' = (m_fibers s)(f := (m_fibers s f)\<lparr>waitable_object := Some WaitAddressArbiter, wait_address := a,
      fiber_state := FiberState_Waiting, timeout := t\<rparr>) \<and>
    m_words s' = m_words s \<and> m_core_count s' = m_core_count s \<and> m_handle_table s' = m_handle_table s"
proof -
  note D = sched_invD [OF inv]
  let ?u = "\<lambda>l. l\<lparr>waitable_object := Some WaitAddressArbiter, wait_address := a, fiber_state := FiberState_Waiting, timeout := t\<rparr>"
  let ?s = "upd_fiber f ?u s"
  have "f \<notin> waiting_in ps cs" using D(5) f(2) by (auto simp: fibers_in_def off_queues_def)
  then have fp: "f \<notin> set ps" by (simp add: waiting_in_def)
  have find_same: "List.find (\<lambda>g. wait_address (m_fibers ?s g) = a) ps = List.find (\<lambda>g. wait_address (m_fibers s g) = a) ps"
    using fp by (intro find_cong) auto
  have fnd: "find_waiter a ?s = ret (List.find (\<lambda>g. wait_address (m_fibers s g) = a) ps)"
    using find_waiter_spec [of ?s ps cs a] D(4) find_same by simp
  have fib: "m_fibers ?s = (m_fibers s)(f := ?u (m_fibers s f))" by auto
  show ?thesis
  proof (cases "List.find (\<lambda>g. wait_address (m_fibers s g) = a) ps")
    case None
    let ?t = "upd_links (list_PushBack Wait_List (Fiber_Node f)) ?s"
    have "wait_on_address f a t s = ret ?t" using fnd None by (simp add: wait_on_address_def)
    moreover have "sched_inv L (ps @ [f]) cs ?t" using inv_push_parent [OF inv f, of ?u] by simp
    moreover have "waiters_of a (ps @ [f]) cs ?t = waiters_of a ps cs s @ [f]"
      using find_same None free by (simp add: waiters_of_def find_snoc)
    ultimately show ?thesis using fib
      by (intro exI [of _ ?t] exI [of _ "ps @ [f]"] exI [of _ cs]) simp
  next
    case (Some p)
    let ?t = "upd_links (list_PushBack (Fiber_List p) (Fiber_Node f)) ?s" and ?cs = "cs(p := cs p @ [f])"
    have "wait_on_address f a t s = ret ?t" using fnd Some by (simp add: wait_on_address_def)
    moreover have "sched_inv L ps ?cs ?t" using inv_push_child [OF inv f, of ?u] by simp
    moreover have "waiters_of a ps ?cs ?t = waiters_of a ps cs s @ [f]"
      using find_same Some by (simp add: waiters_of_def)
    ultimately show ?thesis using fib
      by (intro exI [of _ ?t] exI [of _ ps] exI [of _ ?cs]) simp
  qed
qed

section \<open>Properties\<close>

text \<open>
  C31: For a running fiber that no other fiber waits for (\<open>cs f = []\<close>: it holds no kernel lock with waiters)
  \<open>WaitForAddressIfEqualImpl\<close> returns at once for a null address, switches to the scheduler without waiting when
  the word differs or the absolute timeout is not positive, and otherwise makes the fiber the last waiter of its
  address, in state \<open>Waiting\<close>, and keeps the invariant of the scheduler.  The code does not compare the timeout
  with the present time: any positive value waits, one that has passed too.
\<close>

theorem wait_for_address:
  assumes "sched_inv L ps cs s" and "f \<in> L" and "state_of s f = FiberState_Running" and "cs f = []"
  shows "if a = 0 then WaitForAddressIfEqualImpl f a v t s = ret (Returned ResultInvalidAddress, s)
    else if m_words s a \<noteq> v then WaitForAddressIfEqualImpl f a v t s = ret (Switched ResultInvalidWaitAddressValue, s)
    else if sint t \<le> 0 then WaitForAddressIfEqualImpl f a v t s = ret (Switched ResultTimeout, s)
    else \<exists>s' ps' cs'. WaitForAddressIfEqualImpl f a v t s = ret (Switched ResultSuccess, s') \<and> sched_inv L ps' cs' s' \<and>
      waiters_of a ps' cs' s' = waiters_of a ps cs s @ [f] \<and> state_of s' f = FiberState_Waiting \<and>
      (\<forall>g. g \<noteq> f \<longrightarrow> m_fibers s' g = m_fibers s g)"
proof -
  obtain s' ps' cs' where w: "wait_on_address f a t s = ret s'" "sched_inv L ps' cs' s'"
    "waiters_of a ps' cs' s' = waiters_of a ps cs s @ [f]"
    "m_fibers s' = (m_fibers s)(f := (m_fibers s f)\<lparr>waitable_object := Some WaitAddressArbiter, wait_address := a,
      fiber_state := FiberState_Waiting, timeout := t\<rparr>)"
    using wait_on_address_spec [OF assms(1,2) _ assms(4), of a t] assms(3) by (auto simp: off_queues_def)
  show ?thesis
  proof (cases "a = 0 \<or> m_words s a \<noteq> v \<or> sint t \<le> 0")
    case False
    then have "WaitForAddressIfEqualImpl f a v t s = ret (Switched ResultSuccess, s')"
      using w(1) by (simp add: WaitForAddressIfEqualImpl_def)
    moreover have "state_of s' f = FiberState_Waiting" "\<forall>g. g \<noteq> f \<longrightarrow> m_fibers s' g = m_fibers s g" using w(4) by simp_all
    ultimately have "\<exists>s' ps' cs'. WaitForAddressIfEqualImpl f a v t s = ret (Switched ResultSuccess, s') \<and> sched_inv L ps' cs' s' \<and>
      waiters_of a ps' cs' s' = waiters_of a ps cs s @ [f] \<and> state_of s' f = FiberState_Waiting \<and>
      (\<forall>g. g \<noteq> f \<longrightarrow> m_fibers s' g = m_fibers s g)"
      using w(2,3) by - (rule exI [of _ s'], rule exI [of _ ps'], rule exI [of _ cs'], simp)
    then show ?thesis using False by simp
  qed (auto simp: WaitForAddressIfEqualImpl_def)
qed

definition demo_fibers :: "fiber_ptr \<Rightarrow> fiber_local_storage" where
  "demo_fibers f = FiberLocalStorage_construct\<lparr>fiber_state := FiberState_Running, activity_level := 1, core_mask := 1\<rparr>"

definition demo_scheduler :: user_scheduler where
  "demo_scheduler = (UserScheduler_construct 0x1000 (\<lambda>_. 0))\<lparr>m_fibers := demo_fibers\<rparr>"

lemma demo_inv: "sched_inv {1, 2, 3} [] (\<lambda>_. []) demo_scheduler" "state_of demo_scheduler f = FiberState_Running"
  "m_words demo_scheduler a = 0" "activity_level (m_fibers demo_scheduler f) = 1"
proof -
  show "sched_inv {1, 2, 3} [] (\<lambda>_. []) demo_scheduler"
    unfolding demo_scheduler_def by (intro inv_construct) (auto simp: demo_fibers_def off_queues_def)
qed (simp_all add: demo_scheduler_def demo_fibers_def UserScheduler_construct_def)

lemma wait_for_address_witness:
  "\<exists>s' ps' cs'. WaitForAddressIfEqualImpl 1 8 0 100 demo_scheduler = ret (Switched ResultSuccess, s') \<and>
    sched_inv {1, 2, 3} ps' cs' s' \<and> waiters_of 8 ps' cs' s' = [1] \<and> state_of s' 1 = FiberState_Waiting"
proof -
  have l: "1 \<in> {1, 2, 3::fiber_ptr}" "(\<lambda>_. []) 1 = []" by simp_all
  have "waiters_of 8 [] (\<lambda>_. []) demo_scheduler = []" by (simp add: waiters_of_def)
  with wait_for_address [OF demo_inv(1) l(1) demo_inv(2) l(2), of 8 0 100] show ?thesis
    by (auto simp: demo_inv(3))
qed

text \<open>
  C11: \<open>WakeByAddressImpl\<close> always returns and keeps the invariant.  It ends the waits of the first
  \<open>count + 1\<close> waiters of the address, one more than it is asked for, and changes no other fiber; when the
  address has one list of plain waiters the others wait on in their order.
\<close>

theorem wake_by_address:
  assumes inv: "sched_inv L ps cs s" and a: "a \<noteq> 0"
  shows "\<exists>s' ps' cs'. WakeByAddressImpl a c s = ret (Returned ResultSuccess, s') \<and> sched_inv L ps' cs' s' \<and>
    after_end (if c = 0 then {} else set (take (Suc (unat c)) (waiters_of a ps cs s))) ResultSuccess s s' \<and>
    (c \<noteq> 0 \<longrightarrow> (\<forall>f\<in>set (tl (waiters_of a ps cs s)). wait_address (m_fibers s f) = a \<and> cs f = []) \<longrightarrow>
       (\<forall>f g. f \<in> set ps \<longrightarrow> g \<in> set ps \<longrightarrow> wait_address (m_fibers s f) = a \<longrightarrow> wait_address (m_fibers s g) = a \<longrightarrow> f = g) \<longrightarrow>
       waiters_of a ps' cs' s' = drop (Suc (unat c)) (waiters_of a ps cs s))"
proof -
  note D = sched_invD [OF inv]
  have fnd: "find_waiter a s = ret (List.find (\<lambda>f. wait_address (m_fibers s f) = a) ps)" by (rule find_waiter_spec [OF D(4)])
  have idle: "after_end {} ResultSuccess s s" by (simp add: after_end_def)
  show ?thesis
  proof (cases "List.find (\<lambda>f. wait_address (m_fibers s f) = a) ps")
    case None
    then show ?thesis using inv idle a fnd
      by (intro exI [of _ s] exI [of _ ps] exI [of _ cs]) (simp add: WakeByAddressImpl_def waiters_of_def)
  next
    case (Some p)
    then have p: "p \<in> set ps" "wait_address (m_fibers s p) = a" by (auto dest: find_someD)
    show ?thesis
    proof (cases "c = 0")
      case True
      then show ?thesis using inv idle a
        by (intro exI [of _ s] exI [of _ ps] exI [of _ cs]) (simp add: WakeByAddressImpl_def)
    next
      case False
      let ?ps = "parents_after (remove1 p ps) (drop (unat c) (cs p))"
        and ?cs = "children_after cs p (drop (unat c) (cs p))"
      have ws: "waiters_of a ps cs s = p # cs p" using Some by (simp add: waiters_of_def)
      from wake_all_spec [OF inv p(1), of c] obtain s' where s': "wake_all wake_waiters p c s = ret (Returned ResultSuccess, s')"
        "after_end (set (take (Suc (unat c)) (p # cs p))) ResultSuccess s s'" "sched_inv L ?ps ?cs s'" by blast
      have adr: "wait_address (m_fibers s' f) = wait_address (m_fibers s f)" for f
        using s'(2) by (simp add: after_end_def ended_def)
      have rest: "waiters_of a ?ps ?cs s' = drop (unat c) (cs p)"
        if plain: "\<forall>f\<in>set (cs p). wait_address (m_fibers s f) = a \<and> cs f = []"
          and one: "\<forall>f g. f \<in> set ps \<longrightarrow> g \<in> set ps \<longrightarrow> wait_address (m_fibers s f) = a \<longrightarrow> wait_address (m_fibers s g) = a \<longrightarrow> f = g"
      proof -
        have "f \<notin> set (remove1 p ps)" if "wait_address (m_fibers s f) = a" for f
          using that one p wait_lists_distinct(1) [OF D(4)] by (metis notin_set_remove1 set_remove1_eq DiffE singletonI)
        then have no: "List.find (\<lambda>f. wait_address (m_fibers s' f) = a) (remove1 p ps) = None"
          by (auto simp: adr find_None_iff)
        show ?thesis
        proof (cases "drop (unat c) (cs p)")
          case (Cons q qs)
          then have "q \<in> set (cs p)" by (metis in_set_dropD list.set_intros(1))
          then show ?thesis using Cons no plain by (simp add: waiters_of_def find_snoc adr)
        qed (simp add: waiters_of_def no)
      qed
      have "WakeByAddressImpl a c s = ret (Returned ResultSuccess, s')"
        using False a fnd Some s'(1) by (simp add: WakeByAddressImpl_def)
      moreover have "after_end (if c = 0 then {} else set (take (Suc (unat c)) (waiters_of a ps cs s))) ResultSuccess s s'"
        using s'(2) False ws by simp
      ultimately show ?thesis using s'(3) rest
        by (intro exI [of _ s'] exI [of _ ?ps] exI [of _ ?cs]) (simp add: ws)
    qed
  qed
qed

lemma demo_two_waiters:
  "\<exists>s ps cs. sched_inv {1, 2, 3} ps cs s \<and> waiters_of 8 ps cs s = [1, 2] \<and>
    activity_level (m_fibers s 1) = 1 \<and> activity_level (m_fibers s 2) = 1"
proof -
  have l: "1 \<in> {1, 2, 3::fiber_ptr}" "2 \<in> {1, 2, 3::fiber_ptr}" "(\<lambda>_. []) 1 = []" by simp_all
  have off: "off_queues (state_of demo_scheduler f)" for f by (simp add: demo_inv(2) off_queues_def)
  obtain s ps cs where s: "sched_inv {1, 2, 3} ps cs s" "waiters_of 8 ps cs s = [1]"
    "m_fibers s = (m_fibers demo_scheduler)(1 := (m_fibers demo_scheduler 1)\<lparr>waitable_object := Some WaitAddressArbiter,
       wait_address := 8, fiber_state := FiberState_Waiting, timeout := 100\<rparr>)"
    using wait_on_address_spec [OF demo_inv(1) l(1) off l(3), of 8 100] by (auto simp: waiters_of_def)
  have off2: "off_queues (state_of s 2)" using s(3) off by simp
  note D = sched_invD [OF s(1)]
  have one: "1 \<in> set ps" using s(2) by (auto simp: waiters_of_def dest: find_someD split: option.splits)
  have "x = 1" if "x \<in> set (cs 2)" for x
  proof -
    have "x \<in> fibers_in {1, 2, 3} FiberState_Waiting s" using that D(5) by (auto simp: waiting_in_def)
    then show ?thesis using s(3) demo_inv(2) by (auto simp: fibers_in_def split: if_splits)
  qed
  then have cs2: "cs 2 = []" using one wait_lists_distinct(3) [OF D(4), of 1 2] by (metis list.set_sel(1))
  obtain t ps' cs' where t: "sched_inv {1, 2, 3} ps' cs' t" "waiters_of 8 ps' cs' t = [1, 2]"
    "m_fibers t = (m_fibers s)(2 := (m_fibers s 2)\<lparr>waitable_object := Some WaitAddressArbiter,
       wait_address := 8, fiber_state := FiberState_Waiting, timeout := 100\<rparr>)"
    using wait_on_address_spec [OF s(1) l(2) off2 cs2, of 8 100] s(2) by auto
  then have "activity_level (m_fibers t 1) = 1" "activity_level (m_fibers t 2) = 1" using s(3) demo_inv(4) by simp_all
  then show ?thesis using t(1,2) by blast
qed

lemma wake_by_address_witness:
  "\<exists>s ps cs s'. sched_inv {1, 2, 3} ps cs s \<and> waiters_of 8 ps cs s = [1, 2] \<and>
    WakeByAddressImpl 8 1 s = ret (Returned ResultSuccess, s') \<and>
    state_of s' 1 = FiberState_Scheduled \<and> state_of s' 2 = FiberState_Scheduled"
proof -
  obtain s ps cs where s: "sched_inv {1, 2, 3} ps cs s" "waiters_of 8 ps cs s = [1, 2]"
    "activity_level (m_fibers s 1) = 1" "activity_level (m_fibers s 2) = 1" using demo_two_waiters by blast
  obtain s' where "WakeByAddressImpl 8 1 s = ret (Returned ResultSuccess, s')" "after_end {1, 2} ResultSuccess s s'"
    using wake_by_address [OF s(1), of 8 1] s(2) by auto
  then show ?thesis using s
    by (intro exI [of _ s] exI [of _ ps] exI [of _ cs] exI [of _ s']) (simp add: after_end_def ended_def ActivityLevel_Suspended_def)
qed

end
