(* ===== verification/Lock_Handover.thy ===== *)
theory Lock_Handover
  imports Wait_Address
begin

text \<open>
  \<open>ArbitrateLockImpl\<close> and \<open>ArbitrateUnlockImpl\<close>: a fiber joins the waiters of the owner of a lock, and
  the owner hands the lock to its first waiter.  The hand over returns when there is no second waiter.
\<close>

section \<open>The transfer loop\<close>

lemma PushBack_self: "list_PushBack n n (Unlink n h) = Unlink n h"
  by (simp add: list_PushBack_def link_defs fun_upd_idem)

lemma m_next_Unlink: "m_next (Unlink n h) n = n"
  by (simp add: link_defs)

lemmas transfer_induct = transfer_waiters.raw_induct [rotated, consumes 1, case_names round]

text \<open>On the sentinel of the new owner the loop stays where it is.\<close>

lemma transfer_stuck_at:
  assumes "transfer_waiters this q iter h = Some h'"
  shows "iter = Fiber_List q \<Longrightarrow> q \<noteq> this \<Longrightarrow> Unlink iter h = h \<Longrightarrow> False"
  using assms
proof (induction rule: transfer_induct)
  case (round rec this q iter h y)
  then show ?case using PushBack_self [of iter h] m_next_Unlink [of iter h] by (auto simp: Let_def)
qed

lemma transfer_sentinel: "q \<noteq> this \<Longrightarrow> transfer_waiters this q (Fiber_List q) h = None"
proof (cases "transfer_waiters this q (Fiber_List q) h")
  case (Some h')
  assume q: "q \<noteq> this"
  then have "transfer_waiters this q (Fiber_List q) (Unlink (Fiber_List q) h) = Some h'"
    using Some by (subst (asm) transfer_waiters.simps) (simp add: Let_def PushBack_self m_next_Unlink)
  then show ?thesis using transfer_stuck_at [OF _ refl q Unlink_idem] by blast
qed

lemma transfer_second:
  assumes w: "wait_lists h ps cs" and x: "x \<in> set (cs this)" and q: "q \<noteq> this"
  shows "transfer_waiters this q (Fiber_Node x) h = None"
proof -
  let ?h = "Unlink (Fiber_Node x) h" and ?cs = "cs(this := remove1 x (cs this))"
  have u: "wait_lists ?h ps ?cs" by (rule unlink_child [OF w x])
  have "waiting_in ps ?cs = waiting_in ps cs - {x}" by (rule waiting_in_remove(2) [OF w x])
  then have "x \<notin> waiting_in ps ?cs" by simp
  from push_child [OF u this, of q] have p: "wait_lists (list_PushBack (Fiber_List q) (Fiber_Node x) ?h) ps (?cs(q := ?cs q @ [x]))" .
  have "m_next (list_PushBack (Fiber_List q) (Fiber_Node x) ?h) (Fiber_Node x) = Fiber_List q"
    using next_child [OF p, of q "?cs q" x "[]"] by simp
  then show ?thesis using transfer_sentinel [OF q] by (subst transfer_waiters.simps) (simp add: Let_def)
qed

section \<open>The hand over\<close>

lemma inv_words: "sched_inv L ps cs s \<Longrightarrow> sched_inv L ps cs (s\<lparr>m_words := w\<rparr>)"
  by (simp add: sched_inv_def queue_ok_def local_rings_ok_def runnable_in_def)

lemma inv_upd_same:
  assumes inv: "sched_inv L ps cs s" and "fiber_state (u (m_fibers s f)) = state_of s f"
    and "current_core (u (m_fibers s f)) = current_core (m_fibers s f)"
    and "priority (u (m_fibers s f)) = priority (m_fibers s f)"
    and "waitable_object (u (m_fibers s f)) \<noteq> None \<or> state_of s f \<noteq> FiberState_Waiting"
  shows "sched_inv L ps cs (upd_fiber f u s)"
proof -
  note D = sched_invD [OF inv]
  have "fibers_in L x (upd_fiber f u s) = fibers_in L x s" for x using assms(2) by (auto simp: fibers_in_def)
  moreover have "local_in L c (upd_fiber f u s) = local_in L c s" for c using assms(2,3) by (auto simp: local_in_def)
  moreover have "waitable_object (m_fibers (upd_fiber f u s) g) \<noteq> None" if "g \<in> waiting_in ps cs" for g
    using D(5) D(6) [OF that] that assms(5) by (auto simp: fibers_in_def)
  ultimately show ?thesis using D fiber_key_upd [of u s f] assms(4)
    by (simp add: sched_inv_def queue_ok_def local_rings_ok_def runnable_in_def)
qed

definition lock_given :: "fiber_local_storage \<Rightarrow> fiber_local_storage" where
  "lock_given l = (ended ResultSuccess (l\<lparr>lock_address := 0, wait_tag := 0\<rparr>))\<lparr>waitable_object := None\<rparr>"

lemma ReleaseLock_one:
  assumes inv: "sched_inv L ps cs s" and q: "cs f = [q]" and a: "lock_address (m_fibers s q) \<noteq> 0"
  shows "\<exists>s'. ReleaseLockWaitListUnsafe f s = ret s' \<and> sched_inv L ps (cs(f := [])) s' \<and>
    m_words s' = (m_words s)(lock_address (m_fibers s q) := wait_tag (m_fibers s q)) \<and>
    m_fibers s' = (m_fibers s)(q := lock_given (m_fibers s q))"
proof -
  note D = sched_invD [OF inv]
  have qw: "q \<in> waiting_in ps cs" using q by (auto simp: waiting_in_def) (metis list.set_intros(1))
  have st: "state_of s q = FiberState_Waiting" using D(5) qw by (simp add: fibers_in_def)
  note pop = pop_child [OF D(4) q]
  let ?u = "\<lambda>l. l\<lparr>lock_address := 0, wait_tag := 0\<rparr>"
  let ?s1 = "upd_fiber q ?u (s\<lparr>m_words := (m_words s)(lock_address (m_fibers s q) := wait_tag (m_fibers s q))\<rparr>)"
  have inv1: "sched_inv L ps cs ?s1"
    using D(6) [OF qw] by (intro inv_upd_same inv_words inv) auto
  have qc: "q \<in> set (cs f)" using q by simp
  obtain t where t: "EndWait q ResultSuccess (upd_links (Unlink (Fiber_Node q)) ?s1) = Inr t"
    "sched_inv L ps (cs(f := remove1 q (cs f))) t" "after_end {q} ResultSuccess ?s1 t"
    using EndWait_child [OF inv1 qc] by blast
  have empty: "list_IsEmpty (Unlink (Fiber_Node q) (m_links s)) (Fiber_List f)" "\<not> list_IsEmpty (m_links s) (Fiber_List f)"
    using no_children [OF pop(2), of f] no_children [OF D(4), of f] q by simp_all
  have tr: "transfer_waiters f q (m_next (Unlink (Fiber_Node q) (m_links s)) (Fiber_List f)) (Unlink (Fiber_Node q) (m_links s)) =
      Some (Unlink (Fiber_Node q) (m_links s))"
    using first_child [OF pop(2), of f] by (simp add: transfer_waiters.simps)
  have eq: "upd_links (Unlink (Fiber_Node q)) ?s1 =
      (upd_fiber q ?u (s\<lparr>m_links := Unlink (Fiber_Node q) (m_links s), m_words := (m_words s)(lock_address (m_fibers s q) := wait_tag (m_fibers s q))\<rparr>))
        \<lparr>m_links := Unlink (Fiber_Node q) (m_links s)\<rparr>"
    by (simp add: upd_links_def upd_fiber_def)
  let ?s' = "upd_fiber q (\<lambda>l. l\<lparr>waitable_object := None\<rparr>) t"
  have "ReleaseLockWaitListUnsafe f s = ret ?s'"
    using empty pop(1) tr t(1) a unfolding eq
    by (simp add: ReleaseLockWaitListUnsafe_def Let_def write_word_def non_null_def)
  moreover have "state_of t q \<noteq> FiberState_Waiting" using t(3) by (simp add: after_end_def ended_def)
  then have "sched_inv L ps (cs(f := [])) ?s'" using t(2) q by (intro inv_upd_same) auto
  moreover have "m_words ?s' = (m_words s)(lock_address (m_fibers s q) := wait_tag (m_fibers s q))" using t(3) by (simp add: after_end_def)
  moreover have "m_fibers ?s' = (m_fibers s)(q := lock_given (m_fibers s q))"
    using t(3) by (auto simp: after_end_def lock_given_def)
  ultimately show ?thesis by blast
qed

lemma ReleaseLock_more:
  assumes inv: "sched_inv L ps cs s" and q: "cs f = q # x # xs" and a: "lock_address (m_fibers s q) \<noteq> 0" and qf: "q \<noteq> f"
  shows "ReleaseLockWaitListUnsafe f s = None"
proof -
  note D = sched_invD [OF inv]
  note pop = pop_child [OF D(4) q]
  have "transfer_waiters f q (Fiber_Node x) (Unlink (Fiber_Node q) (m_links s)) = None"
    using transfer_second [OF pop(2), of x f q] qf by simp
  moreover have "m_next (Unlink (Fiber_Node q) (m_links s)) (Fiber_List f) = Fiber_Node x"
    using first_child [OF pop(2), of f] by simp
  moreover have "\<not> list_IsEmpty (m_links s) (Fiber_List f)" using no_children [OF D(4), of f] q by simp
  ultimately show ?thesis
    using pop(1) a by (simp add: ReleaseLockWaitListUnsafe_def Let_def write_word_def non_null_def)
qed

lemma not_own_child:
  assumes "sched_inv L ps cs s" and "state_of s f \<noteq> FiberState_Waiting"
  shows "f \<notin> set (cs g)" "f \<notin> set ps"
  using sched_invD(5) [OF assms(1)] assms(2) by (auto simp: waiting_in_def fibers_in_def)

lemma inv_ArbitrateLock:
  assumes inv: "sched_inv L ps cs s" and f: "f \<in> L" "off_queues (state_of s f)"
    and r: "ArbitrateLockImpl f handle a tag s = Inr (o', s')"
  shows "(\<exists>r. o' = Returned r \<and> r \<noteq> ResultSuccess) \<and> s' = s \<or>
    o' = Switched ResultSuccess \<and> m_words s' = m_words s \<and>
    m_fibers s' = (m_fibers s)(f := (m_fibers s f)\<lparr>waitable_object := Some LockArbiter, lock_address := a,
      wait_tag := tag, fiber_state := FiberState_Waiting, timeout := 0x7fffffffffffffff\<rparr>) \<and>
    (\<exists>p. p \<noteq> f \<and> sched_inv L ps (cs(p := cs p @ [f])) s')"
proof -
  let ?u = "\<lambda>l. l\<lparr>waitable_object := Some LockArbiter, lock_address := a, wait_tag := tag,
      fiber_state := FiberState_Waiting, timeout := 0x7fffffffffffffff\<rparr>"
  show ?thesis
  proof (cases "o'")
    case (Returned x)
    then show ?thesis using r by (auto simp: ArbitrateLockImpl_def bind_result_Inr_iff Let_def split: if_splits)
  next
    case (Switched x)
    then obtain p where p: "p \<noteq> f" "x = ResultSuccess"
      "s' = upd_links (list_PushBack (Fiber_List p) (Fiber_Node f)) (upd_fiber f ?u s)"
      using r by (auto simp: ArbitrateLockImpl_def bind_result_Inr_iff Let_def split: if_splits)
    have "sched_inv L ps (cs(p := cs p @ [f])) s'" using inv_push_child [OF inv f, of ?u p] p(3) by simp
    then show ?thesis using p Switched by auto
  qed
qed

section \<open>Property\<close>

text \<open>
  C13: \<open>ArbitrateUnlockImpl\<close> for the owner of a lock whose word says so: without waiters it is refused;
  with one waiter it hands the lock over, and the waiter gets the lock word and is made runnable, whatever
  else is in the scheduler; with two or more waiters it never returns, and holds the scheduler lock while it
  loops.
\<close>

theorem arbitrate_unlock:
  assumes inv: "sched_inv L ps cs s" and f: "state_of s f = FiberState_Running" and a: "a \<noteq> 0"
    and word: "m_words s a = ukern_fiber_handle (m_fibers s f) OR HasChildWaitersBit"
    and addr: "\<forall>q\<in>set (cs f). lock_address (m_fibers s q) \<noteq> 0"
  shows "case cs f of
      [] \<Rightarrow> ArbitrateUnlockImpl f a s = ret (Returned ResultRequiresLock, s)
    | q # [] \<Rightarrow> \<exists>s'. ArbitrateUnlockImpl f a s = ret (Returned ResultSuccess, s') \<and> sched_inv L ps (cs(f := [])) s' \<and>
        m_words s' = (m_words s)(lock_address (m_fibers s q) := wait_tag (m_fibers s q)) \<and>
        m_fibers s' = (m_fibers s)(q := lock_given (m_fibers s q))
    | q # x # xs \<Rightarrow> ArbitrateUnlockImpl f a s = None"
proof -
  note D = sched_invD [OF inv]
  have own: "f \<notin> set (cs f)" using not_own_child [OF inv] f by simp
  note empty = no_children [OF D(4), of f]
  show ?thesis
  proof (cases "cs f")
    case Nil
    then show ?thesis using empty a by (simp add: ArbitrateUnlockImpl_def)
  next
    case (Cons q qs)
    then have q: "lock_address (m_fibers s q) \<noteq> 0" "q \<noteq> f" using addr own by auto
    show ?thesis
    proof (cases qs)
      case Nil
      then show ?thesis using ReleaseLock_one [OF inv _ q(1), of f] Cons empty a word by (auto simp: ArbitrateUnlockImpl_def)
    next
      case (Cons x xs)
      then show ?thesis using ReleaseLock_more [OF inv _ q(1), of f x xs] q(2) \<open>cs f = q # qs\<close> empty a word
        by (simp add: ArbitrateUnlockImpl_def)
    qed
  qed
qed

definition demo_waiter :: "u32 \<Rightarrow> fiber_local_storage \<Rightarrow> fiber_local_storage" where
  "demo_waiter tag l = l\<lparr>waitable_object := Some LockArbiter, lock_address := 8, wait_tag := tag,
      fiber_state := FiberState_Waiting, timeout := 0x7fffffffffffffff\<rparr>"

definition demo_join :: "fiber_ptr \<Rightarrow> u32 \<Rightarrow> user_scheduler \<Rightarrow> user_scheduler" where
  "demo_join f tag s = upd_links (list_PushBack (Fiber_List 1) (Fiber_Node f)) (upd_fiber f (demo_waiter tag) s)"

definition demo_locked :: user_scheduler where
  "demo_locked = demo_join 2 7 (demo_scheduler\<lparr>m_words := (\<lambda>_. HasChildWaitersBit)\<rparr>)"

lemma demo_locked_inv:
  "sched_inv {1, 2, 3} [] ((\<lambda>_. [])(1 := [2])) demo_locked"
  "sched_inv {1, 2, 3} [] ((\<lambda>_. [])(1 := [2, 3])) (demo_join 3 9 demo_locked)"
proof -
  let ?s = "demo_scheduler\<lparr>m_words := (\<lambda>_. HasChildWaitersBit)\<rparr>"
  have st: "state_of ?s f = FiberState_Running" for f using demo_inv(2) by simp
  have i0: "sched_inv {1, 2, 3} [] (\<lambda>_. []) ?s" by (rule inv_words [OF demo_inv(1)])
  show i1: "sched_inv {1, 2, 3} [] ((\<lambda>_. [])(1 := [2])) demo_locked"
    using inv_push_child [OF i0, of 2 "demo_waiter 7" 1] st
    by (simp add: off_queues_def demo_locked_def demo_join_def demo_waiter_def)
  have "state_of demo_locked 3 = FiberState_Running" using st by (simp add: demo_locked_def demo_join_def)
  then show "sched_inv {1, 2, 3} [] ((\<lambda>_. [])(1 := [2, 3])) (demo_join 3 9 demo_locked)"
    using inv_push_child [OF i1, of 3 "demo_waiter 9" 1]
    by (simp add: off_queues_def demo_join_def demo_waiter_def)
qed

lemma arbitrate_unlock_witness:
  "(\<exists>s'. ArbitrateUnlockImpl 1 8 demo_locked = ret (Returned ResultSuccess, s') \<and> m_words s' 8 = 7 \<and>
     state_of s' 2 = FiberState_Scheduled) \<and>
   ArbitrateUnlockImpl 1 8 (demo_join 3 9 demo_locked) = None"
proof
  let ?t = "demo_join 3 9 demo_locked"
  have sts: "state_of demo_scheduler f = FiberState_Running" "activity_level (m_fibers demo_scheduler f) = 1"
    "ukern_fiber_handle (m_fibers demo_scheduler f) = 0" for f
    by (simp_all add: demo_inv) (simp add: demo_scheduler_def demo_fibers_def FiberLocalStorage_construct_def)
  have st: "state_of demo_locked 1 = FiberState_Running" "state_of ?t 1 = FiberState_Running"
    "m_words demo_locked 8 = ukern_fiber_handle (m_fibers demo_locked 1) OR HasChildWaitersBit"
    "m_words ?t 8 = ukern_fiber_handle (m_fibers ?t 1) OR HasChildWaitersBit"
    "\<forall>q\<in>set (((\<lambda>_. [])(1 := [2])) 1). lock_address (m_fibers demo_locked q) \<noteq> 0"
    "\<forall>q\<in>set (((\<lambda>_. [])(1 := [2, 3])) 1). lock_address (m_fibers ?t q) \<noteq> 0"
    using sts by (simp_all add: demo_locked_def demo_join_def demo_waiter_def)
  have n: "(8 :: u64) \<noteq> 0" by simp
  show "\<exists>s'. ArbitrateUnlockImpl 1 8 demo_locked = ret (Returned ResultSuccess, s') \<and> m_words s' 8 = 7 \<and>
     state_of s' 2 = FiberState_Scheduled"
    using arbitrate_unlock [OF demo_locked_inv(1) st(1) n st(3,5)] sts
    by (auto simp: demo_locked_def demo_join_def demo_waiter_def lock_given_def ended_def ActivityLevel_Suspended_def)
  show "ArbitrateUnlockImpl 1 8 ?t = None"
    using arbitrate_unlock [OF demo_locked_inv(2) st(2) n st(4,6)] by simp
qed

end
