(* ===== verification/Scheduling.thy ===== *)
theory Scheduling
  imports Wait_Address
begin

text \<open>
  The choice of the next fiber: the loop that ranks the cores of a mask, what a round of the scheduler moves
  between the thread queue and the local rings, and the fiber it dispatches.
\<close>

section \<open>Core masks\<close>

text \<open>Masks with cores below 31, for which the 32 bit shifts of the code do what they mean.\<close>

definition small_mask :: "u64 \<Rightarrow> bool" where
  "small_mask m \<longleftrightarrow> m \<noteq> 0 \<and> take_bit 31 m = m"

lemma small_mask_bit: "take_bit 31 m = m \<Longrightarrow> bit m i \<Longrightarrow> i < 31" for m :: u64
  by (metis bit_take_bit_iff)

lemma right_zeros_spec:
  assumes "m \<noteq> 0"
  shows "\<exists>k. right_zeros m = Inr k \<and> bit m k \<and> (\<forall>j<k. \<not> bit m j)"
proof -
  let ?xs = "[0..<LENGTH(64)]" and ?P = "\<lambda>i. \<not> bit m i"
  obtain i where i: "bit m i" using assms by (metis bit_eq_iff bit_0_eq bot_apply bot_bool_def)
  have lt: "length (takeWhile ?P ?xs) < length ?xs"
  proof (rule ccontr)
    assume "\<not> length (takeWhile ?P ?xs) < length ?xs"
    then have "takeWhile ?P ?xs = ?xs" by (metis length_takeWhile_le linorder_not_less le_antisym takeWhile_eq_take take_all_iff)
    then have "\<forall>x\<in>set ?xs. ?P x" by (simp add: takeWhile_eq_all_conv)
    moreover have "i \<in> set ?xs" using i bit_imp_le_length [of m i] by simp
    ultimately show False using i by blast
  qed
  let ?k = "countr_zero m"
  have k: "?k = length (takeWhile ?P ?xs)" by (simp add: countr_zero_def)
  have "bit m ?k" using nth_length_takeWhile [OF lt] lt k by simp
  moreover have "\<not> bit m j" if "j < ?k" for j
    using that k lt takeWhile_nth [of j ?P ?xs] nth_mem [of j "takeWhile ?P ?xs"] set_takeWhileD [of _ ?P ?xs] by force
  ultimately show ?thesis
    using assms by (intro exI [of _ ?k]) (simp add: right_zeros_def CountRightZeroBits64_def builtin_ctz_def)
qed

lemma clear_lowest:
  fixes m :: u64
  assumes "take_bit 31 m = m" and "bit m k" and "\<forall>j<k. \<not> bit m j"
  shows "bit (m AND scast (push_bit k (NOT 1 :: u32))) j \<longleftrightarrow> bit m j \<and> j \<noteq> k"
proof (cases "bit m j")
  case True
  then have "j < 31" "k \<le> j" using assms small_mask_bit by (auto simp: not_less [symmetric])
  then show ?thesis using True by (auto simp: bit_simps)
qed (simp add: bit_simps)

lemma popcount_0: "popcount m = 0 \<longleftrightarrow> m = 0" for m :: u64
proof -
  have "m = 0" if "{i. i < LENGTH(64) \<and> bit m i} = {}"
    using that right_zeros_spec [of m] bit_imp_le_length [of m] by blast
  then have "{i. i < LENGTH(64) \<and> bit m i} = {} \<longleftrightarrow> m = 0" by auto
  then show ?thesis by (simp add: popcount_card)
qed

text \<open>The ranking answers the first core of the mask whose ring holds the fewest fibers.\<close>

abbreviation used :: "fixed_ring_buffer list \<Rightarrow> nat \<Rightarrow> u32" where "used table c \<equiv> frb_GetUsedCount (table ! c)"

lemma rank_cores_spec:
  "take_bit 31 m = m \<Longrightarrow> popcount m = n \<Longrightarrow> length table = cMaxCoreCount \<Longrightarrow>
    \<exists>found' least. rank_cores n m table (found, bound) = Inr (found', least) \<and> least \<le> bound \<and>
      (\<forall>d. bit m d \<longrightarrow> least \<le> used table d) \<and>
      (found' = found \<and> least = bound \<or>
       (\<exists>c. found' = Some c \<and> bit m c \<and> least = used table c \<and> least < bound \<and> (\<forall>d<c. bit m d \<longrightarrow> least < used table d)))"
proof (induction n arbitrary: m found bound)
  case 0
  then show ?case by (simp add: popcount_0)
next
  case (Suc n)
  then have "m \<noteq> 0" using popcount_0 [of m] by auto
  then obtain k where k: "right_zeros m = Inr k" "bit m k" "\<forall>j<k. \<not> bit m j" using right_zeros_spec by blast
  let ?m = "m AND scast (push_bit k (NOT 1 :: u32))"
  note clear = clear_lowest [OF Suc.prems(1) k(2,3)]
  have small: "take_bit 31 ?m = ?m"
    using small_mask_bit [OF Suc.prems(1)] by (intro bit_eqI) (unfold bit_take_bit_iff clear, auto)
  have "{i. i < LENGTH(64) \<and> bit m i} = insert k {i. i < LENGTH(64) \<and> bit ?m i}"
    using clear k(2) bit_imp_le_length [OF k(2)] by auto
  moreover have "k \<notin> {i. i < LENGTH(64) \<and> bit ?m i}" using clear by simp
  ultimately have pc: "popcount ?m = n" using Suc.prems(2) by (simp add: popcount_card)
  have kt: "k < length table" using small_mask_bit [OF Suc.prems(1) k(2)] Suc.prems(3) by (simp add: cMaxCoreCount_def)
  let ?fb = "if used table k < bound then (Some k, used table k) else (found, bound)"
  obtain found' least where r: "rank_cores n ?m table ?fb = Inr (found', least)" "least \<le> snd ?fb"
    "\<forall>d. bit ?m d \<longrightarrow> least \<le> used table d"
    "found' = fst ?fb \<and> least = snd ?fb \<or>
       (\<exists>c. found' = Some c \<and> bit ?m c \<and> least = used table c \<and> least < snd ?fb \<and> (\<forall>d<c. bit ?m d \<longrightarrow> least < used table d))"
    using Suc.IH [OF small pc Suc.prems(3), of "fst ?fb" "snd ?fb"] by auto
  have "rank_cores (Suc n) m table (found, bound) = Inr (found', least)"
    using r(1) k(1) kt by (cases "used table k < bound") (simp_all add: Let_def)
  moreover have "least \<le> bound" "least \<le> used table k" using r(2) by (auto split: if_splits)
  moreover have "\<forall>d. bit m d \<longrightarrow> least \<le> used table d" using r(3) clear \<open>least \<le> used table k\<close> by metis
  moreover have "found' = found \<and> least = bound \<or>
       (\<exists>c. found' = Some c \<and> bit m c \<and> least = used table c \<and> least < bound \<and> (\<forall>d<c. bit m d \<longrightarrow> least < used table d))"
    using r(4)
  proof
    assume "found' = fst ?fb \<and> least = snd ?fb"
    then show ?thesis using k(2,3) by (auto split: if_splits)
  next
    assume "\<exists>c. found' = Some c \<and> bit ?m c \<and> least = used table c \<and> least < snd ?fb \<and> (\<forall>d<c. bit ?m d \<longrightarrow> least < used table d)"
    then obtain c where c: "found' = Some c" "bit ?m c" "least = used table c" "least < snd ?fb"
      "\<forall>d<c. bit ?m d \<longrightarrow> least < used table d" by blast
    have "least < used table k" "least < bound" using c(4) by (auto split: if_splits)
    then have "least < used table d" if "d < c" "bit m d" for d using that c(5) clear by (cases "d = k") auto
    then show ?thesis using c(1-3) clear \<open>least < bound\<close> by auto
  qed
  ultimately show ?case by blast
qed

section \<open>The local rings\<close>

lemma frb_okD:
  assumes "frb_ok r" and "length (m_fixed_array r) = 256"
  shows "length (frb_items r) = unat (frb_GetUsedCount r)" "unat (frb_GetUsedCount r) \<le> 256"
  using assms rb_length [of "ring_of r"]
  by (simp_all add: frb_ok_def frb_items_def frb_GetUsedCount_def ring_of_def rb_ok_def word_le_nat_alt)

lemma frb_Insert_room:
  assumes ok: "frb_ok r" "length (m_fixed_array r) = 256" and room: "unat (frb_GetUsedCount r) < 256"
  shows "\<exists>r'. frb_Insert v r = Inr r' \<and> frb_ok r' \<and> length (m_fixed_array r') = 256 \<and> frb_items r' = frb_items r @ [v]"
proof -
  have "ring_buffer.m_count (ring_of r) < m_max_count (ring_of r)"
    using ok(2) room by (simp add: ring_of_def frb_GetUsedCount_def word_less_nat_alt)
  then obtain p where p: "rb_Insert v (ring_of r) = Inr p" "rb_ok p" "rb_items p = rb_items (ring_of r) @ [v]"
    using rb_Insert_room [of "ring_of r" v] ok(1) by (auto simp: frb_ok_def)
  then obtain r' where r': "frb_Insert v r = Inr r'" "p = ring_of r'"
    using ring_of_Insert [of v r] by (cases "frb_Insert v r") auto
  have "length (m_fixed_array r') = 256"
    using r'(1) ok(2) by (auto simp: frb_Insert_def bind_vp_assert bind_result_Inr_iff Let_def dest!: store_length split: if_splits)
  then show ?thesis using p r' by (auto simp: frb_ok_def frb_items_def)
qed

lemma frb_RemoveFront_spec:
  assumes ok: "frb_ok r" "length (m_fixed_array r) = 256" and ne: "frb_items r = v # vs"
  shows "\<exists>r'. frb_RemoveFront r = Inr (v, r') \<and> frb_ok r' \<and> length (m_fixed_array r') = 256 \<and> frb_items r' = vs"
proof -
  obtain p where p: "rb_RemoveFront (ring_of r) = Inr (v, p)" "rb_ok p" "rb_items p = vs"
    using rb_RemoveFront_spec [of "ring_of r"] ok(1) ne by (auto simp: frb_ok_def frb_items_def)
  then obtain r' where r': "frb_RemoveFront r = Inr (v, r')" "p = ring_of r'"
    using ring_of_RemoveFront [of r] by (cases "frb_RemoveFront r") auto
  have "length (m_fixed_array r') = 256"
    using r'(1) ok(2) by (auto simp: frb_RemoveFront_def bind_result_Inr_iff Let_def split: if_splits)
  then show ?thesis using p r' by (auto simp: frb_ok_def frb_items_def)
qed

section \<open>The front of the queue\<close>

lemma finite_in: "finite L \<Longrightarrow> finite (fibers_in L x s)" "finite L \<Longrightarrow> finite (local_in L c s)" "finite L \<Longrightarrow> finite (runnable_in L s)"
  by (simp_all add: fibers_in_def local_in_def runnable_in_def)

definition queue_front :: "fiber_ptr set \<Rightarrow> user_scheduler \<Rightarrow> fiber_ptr \<Rightarrow> fiber_ptr fixed_priority_queue \<Rightarrow> bool" where
  "queue_front L s f q \<longleftrightarrow> f \<in> fibers_in L FiberState_Scheduled s \<and>
     (\<forall>g\<in>fibers_in L FiberState_Scheduled s. fiber_key s g \<le> fiber_key s f) \<and>
     fpq_ok (fiber_key s) q \<and> length (m_fixed_queue q) = 256 \<and>
     pq_items (pq_of q) = mset_set (fibers_in L FiberState_Scheduled s - {f})"

lemma queue_count: "unat (fpq_GetUsedCount (m_thread_queue s)) = size (queued s)" if "queue_ok s"
  using pq_okD [of "fiber_key s" "pq_of (m_thread_queue s)"] that by (simp add: queue_ok_def fpq_ok_def fpq_GetUsedCount_def)

lemma queue_front_spec:
  assumes inv: "sched_inv L ps cs s" and ne: "fpq_GetUsedCount (m_thread_queue s) \<noteq> 0"
  shows "\<exists>f q. fpq_RemoveFront (fiber_key s) (m_thread_queue s) = Inr (f, q) \<and> queue_front L s f q"
proof -
  note D = sched_invD [OF inv]
  have ok: "fpq_ok (fiber_key s) (m_thread_queue s)" "length (m_fixed_queue (m_thread_queue s)) = 256"
    using D(7) by (simp_all add: queue_ok_def)
  have "size (queued s) \<noteq> 0" using queue_count [OF D(7)] ne by (metis unat_eq_zero)
  then have "queued s \<noteq> {#}" by auto
  from fpq.remove_max [OF ok(1) this] obtain f q where
    f: "fpq_RemoveFront (fiber_key s) (m_thread_queue s) = Inr (f, q)" "fpq_ok (fiber_key s) q" "f \<in># queued s"
    "\<forall>y\<in>#queued s. fiber_key s y \<le> fiber_key s f" "pq_items (pq_of q) = queued s - {#f#}"
    "length (m_fixed_queue q) = length (m_fixed_queue (m_thread_queue s))" by blast
  have "finite (fibers_in L FiberState_Scheduled s)" by (rule finite_in(1) [OF D(1)])
  then show ?thesis using f D(8) ok(2)
    by (intro exI [of _ f] exI [of _ q]) (auto simp: queue_front_def mset_set_Diff)
qed

section \<open>From the queue to a local ring\<close>

lemma local_room:
  assumes inv: "sched_inv L ps cs s" and f: "f \<in> L" "state_of s f \<noteq> FiberState_ScheduledLocal" and c: "c < cMaxCoreCount"
  shows "unat (used (m_scheduler_local_ring_table s) c) < 256"
proof -
  note D = sched_invD [OF inv]
  let ?r = "m_scheduler_local_ring_table s ! c"
  have r: "frb_ok ?r" "length (m_fixed_array ?r) = 256" "mset (frb_items ?r) = mset_set (local_in L c s)"
    using D(9) c by (simp_all add: local_rings_ok_def)
  have "local_in L c s \<subset> L" using f by (auto simp: local_in_def)
  then have "card (local_in L c s) < card L" by (rule psubset_card_mono [OF D(1)])
  then have "card (local_in L c s) < 256" using D(2) by (rule less_le_trans)
  moreover have "length (frb_items ?r) = card (local_in L c s)" using r(3) by (metis size_mset size_mset_set)
  ultimately show ?thesis using frb_okD [OF r(1,2)] by simp
qed

lemma small_popcount: "small_mask m \<Longrightarrow> unat (CountOneBits64 False m) = popcount m"
proof -
  have "popcount m \<le> 64" using length_filter_le [of "bit m" "[0..<64]"] by (simp add: popcount_def)
  then show ?thesis by (simp add: CountOneBits64_def unat_of_nat_less)
qed

abbreviation moved :: "nat \<Rightarrow> fiber_local_storage \<Rightarrow> fiber_local_storage" where
  "moved c l \<equiv> l\<lparr>fiber_state := FiberState_ScheduledLocal, current_core := of_nat c\<rparr>"

lemma insert_lowest_spec:
  assumes inv: "sched_inv L ps cs s" and q: "queue_front L s f q" and mask: "small_mask (core_mask (m_fibers s f))"
  shows "\<exists>s' c. insert_lowest f (s\<lparr>m_thread_queue := q\<rparr>) = Inr s' \<and> sched_inv L ps cs s' \<and> bit (core_mask (m_fibers s f)) c \<and> c < 31 \<and>
    (\<forall>d. bit (core_mask (m_fibers s f)) d \<longrightarrow> used (m_scheduler_local_ring_table s) c \<le> used (m_scheduler_local_ring_table s) d) \<and>
    (\<forall>d<c. bit (core_mask (m_fibers s f)) d \<longrightarrow> used (m_scheduler_local_ring_table s) c < used (m_scheduler_local_ring_table s) d) \<and>
    m_fibers s' = (m_fibers s)(f := moved c (m_fibers s f)) \<and> m_core_count s' = m_core_count s \<and> m_thread_queue s' = q"
proof -
  note D = sched_invD [OF inv]
  let ?m = "core_mask (m_fibers s f)" and ?t = "m_scheduler_local_ring_table s"
  have f: "f \<in> L" "state_of s f = FiberState_Scheduled" using q by (simp_all add: queue_front_def fibers_in_def)
  have t: "length ?t = cMaxCoreCount" using D(9) by (simp add: local_rings_ok_def)
  have m: "take_bit 31 ?m = ?m" "?m \<noteq> 0" using mask by (simp_all add: small_mask_def)
  obtain found least where r: "rank_cores (popcount ?m) ?m ?t (None, - 1) = Inr (found, least)"
    "\<forall>d. bit ?m d \<longrightarrow> least \<le> used ?t d"
    "found = None \<and> least = - 1 \<or> (\<exists>c. found = Some c \<and> bit ?m c \<and> least = used ?t c \<and> least < - 1 \<and> (\<forall>d<c. bit ?m d \<longrightarrow> least < used ?t d))"
    using rank_cores_spec [OF m(1) refl t, of None "- 1"] by blast
  obtain d where d: "bit ?m d" using right_zeros_spec [OF m(2)] by blast
  have d64: "d < cMaxCoreCount" using small_mask_bit [OF m(1) d] by (simp add: cMaxCoreCount_def)
  have st: "state_of s f \<noteq> FiberState_ScheduledLocal" using f(2) by simp
  have "least \<noteq> - 1"
  proof
    assume "least = - 1"
    then have "used ?t d = - 1" using r(2) d by (metis order_antisym word_order.extremum)
    then show False using local_room [OF inv f(1) st d64] by (simp add: unat_minus_1_word)
  qed
  then obtain c where c: "found = Some c" "bit ?m c" "least = used ?t c" "\<forall>d<c. bit ?m d \<longrightarrow> least < used ?t d" using r(3) by blast
  have c31: "c < 31" by (rule small_mask_bit [OF m(1) c(2)])
  then have c64: "c < cMaxCoreCount" by (simp add: cMaxCoreCount_def)
  have ring: "frb_ok (?t ! c)" "length (m_fixed_array (?t ! c)) = 256" "mset (frb_items (?t ! c)) = mset_set (local_in L c s)"
    using D(9) c64 by (simp_all add: local_rings_ok_def)
  obtain r' where r': "frb_Insert f (?t ! c) = Inr r'" "frb_ok r'" "length (m_fixed_array r') = 256"
    "frb_items r' = frb_items (?t ! c) @ [f]"
    using frb_Insert_room [OF ring(1,2) local_room [OF inv f(1) st c64]] by blast
  let ?s = "(upd_fiber f (moved c) (s\<lparr>m_thread_queue := q\<rparr>))\<lparr>m_scheduler_local_ring_table := ?t[c := r']\<rparr>"
  have "insert_lowest f (s\<lparr>m_thread_queue := q\<rparr>) = Inr ?s"
    using r(1) c(1) r'(1) t c64 mask by (simp add: insert_lowest_def Let_def small_popcount)
  moreover have "sched_inv L ps cs ?s"
  proof -
    have key: "fiber_key ?s = fiber_key s" using fiber_key_upd [of "moved c" "s\<lparr>m_thread_queue := q\<rparr>" f] by simp
    have uc: "unat (of_nat c :: u32) = c" using c31 by (simp add: unat_of_nat_less)
    have fl: "f \<notin> local_in L e s" for e using f(2) by (simp add: local_in_def)
    have loc: "local_in L e ?s = (if e = c then insert f (local_in L e s) else local_in L e s)" for e
      using f(1) uc fl by auto
    have "local_rings_ok L ?s"
      unfolding local_rings_ok_def
    proof (intro conjI allI impI)
      fix e assume e: "e < cMaxCoreCount"
      have "mset (frb_items (?t[c := r'] ! e)) = mset_set (if e = c then insert f (local_in L e s) else local_in L e s)"
        using D(9) e r'(4) ring(3) fl t finite_in(2) [OF D(1)] by (auto simp: local_rings_ok_def nth_list_update)
      then show "mset (frb_items (m_scheduler_local_ring_table ?s ! e)) = mset_set (local_in L e ?s)" using loc by simp
      show "frb_ok (m_scheduler_local_ring_table ?s ! e)" "length (m_fixed_array (m_scheduler_local_ring_table ?s ! e)) = 256"
        using D(9) e r'(2,3) t by (cases "e = c"; simp add: local_rings_ok_def)+
    qed (simp add: t)
    moreover have "fibers_in L FiberState_Scheduled ?s = fibers_in L FiberState_Scheduled s - {f}"
      "fibers_in L FiberState_Waiting ?s = fibers_in L FiberState_Waiting s" "runnable_in L ?s = runnable_in L s"
      using f by (auto simp: fibers_in_def runnable_in_def)
    moreover have "f \<notin> waiting_in ps cs" using D(5) f(2) by (simp add: fibers_in_def)
    ultimately show ?thesis using D q key
      by (auto simp: sched_inv_def queue_ok_def queue_front_def simp del: fibers_in_upd local_in_upd)
  qed
  ultimately show ?thesis using c c31 r(2) by (intro exI [of _ ?s] exI [of _ c]) auto
qed

section \<open>Dispatch\<close>

definition dispatched :: "fiber_ptr \<Rightarrow> u32 \<Rightarrow> user_scheduler \<Rightarrow> user_scheduler" where
  "dispatched f core s = (upd_fiber f (\<lambda>l. l\<lparr>fiber_state := FiberState_Running, current_core := core\<rparr>) s)
     \<lparr>m_runnable_fibers := m_runnable_fibers s - 1\<rparr>"

lemma Dispatch_begin_spec:
  "Dispatch_begin f core s = (if core < m_core_count s then Inr (dispatched f core s) else Inl Assert_Failed)"
  by (simp add: Dispatch_begin_def dispatched_def Let_def bind_vp_assert)

lemma dispatched_fibers: "m_fibers (dispatched f core s) = (m_fibers s)(f := (m_fibers s f)\<lparr>fiber_state := FiberState_Running, current_core := core\<rparr>)"
  by (auto simp: dispatched_def)

lemma runnable_minus_1:
  assumes inv: "sched_inv L ps cs s" and f: "f \<in> runnable_in L s"
  shows "unat (m_runnable_fibers s - 1) = card (runnable_in L s - {f})"
proof -
  note D = sched_invD [OF inv]
  have "0 < card (runnable_in L s)" using f finite_in(3) [OF D(1)] by (auto simp: card_gt_0_iff)
  then have "unat (m_runnable_fibers s - 1) = card (runnable_in L s) - 1"
    using D(10) by (subst unat_sub_nowrap) simp_all
  then show ?thesis using f by (simp add: card_Diff_singleton)
qed

lemma inv_dispatch_queue:
  assumes inv: "sched_inv L ps cs s" and q: "queue_front L s f q"
  shows "sched_inv L ps cs (dispatched f core (s\<lparr>m_thread_queue := q\<rparr>))" (is "sched_inv L ps cs ?s")
proof -
  note D = sched_invD [OF inv]
  have f: "f \<in> L" "state_of s f = FiberState_Scheduled" using q by (simp_all add: queue_front_def fibers_in_def)
  have sets: "fibers_in L FiberState_Scheduled ?s = fibers_in L FiberState_Scheduled s - {f}"
    "fibers_in L FiberState_Waiting ?s = fibers_in L FiberState_Waiting s" "runnable_in L ?s = runnable_in L s - {f}"
    "local_in L c ?s = local_in L c s" for c
    using f by (auto simp: fibers_in_def runnable_in_def local_in_def dispatched_def)
  have "f \<in> runnable_in L s" using f by (simp add: runnable_in_def fibers_in_def)
  note run = runnable_minus_1 [OF inv this]
  have key: "fiber_key ?s = fiber_key s"
    using fiber_key_upd [of "\<lambda>l. l\<lparr>fiber_state := FiberState_Running, current_core := core\<rparr>" "s\<lparr>m_thread_queue := q\<rparr>" f]
    by (simp add: dispatched_def)
  have "f \<notin> waiting_in ps cs" using D(5) f(2) by (simp add: fibers_in_def)
  then have "waitable_object (m_fibers ?s g) \<noteq> None" if "g \<in> waiting_in ps cs" for g
    using D(6) [OF that] that by (auto simp: dispatched_def)
  moreover have "m_links ?s = m_links s" "m_thread_queue ?s = q" "m_scheduler_local_ring_table ?s = m_scheduler_local_ring_table s"
    "m_runnable_fibers ?s = m_runnable_fibers s - 1" by (simp_all add: dispatched_def)
  ultimately show ?thesis using D q sets run key
    by (simp add: sched_inv_def queue_ok_def queue_front_def local_rings_ok_def)
qed

lemma inv_dispatch_local:
  assumes inv: "sched_inv L ps cs s" and c: "c < cMaxCoreCount"
    and items: "frb_items (m_scheduler_local_ring_table s ! c) = f # vs"
    and r': "frb_ok r'" "length (m_fixed_array r') = 256" "frb_items r' = vs"
  shows "f \<in> local_in L c s" and "sched_inv L ps cs (dispatched f core
    (s\<lparr>m_scheduler_local_ring_table := (m_scheduler_local_ring_table s)[c := r']\<rparr>))" (is "sched_inv L ps cs ?s")
proof -
  note D = sched_invD [OF inv]
  let ?t = "m_scheduler_local_ring_table s"
  have t: "length ?t = cMaxCoreCount" "mset (frb_items (?t ! c)) = mset_set (local_in L c s)"
    using D(9) c by (simp_all add: local_rings_ok_def)
  have "f \<in># mset_set (local_in L c s)" unfolding t(2) [symmetric] items by simp
  then show fl: "f \<in> local_in L c s" using finite_in(2) [OF D(1)] by simp
  then have f: "f \<in> L" "state_of s f = FiberState_ScheduledLocal" "unat (current_core (m_fibers s f)) = c" by (simp_all add: local_in_def)
  have sets: "fibers_in L FiberState_Scheduled ?s = fibers_in L FiberState_Scheduled s"
    "fibers_in L FiberState_Waiting ?s = fibers_in L FiberState_Waiting s" "runnable_in L ?s = runnable_in L s - {f}"
    "local_in L e ?s = (if e = c then local_in L c s - {f} else local_in L e s)" for e
    using f by (auto simp: fibers_in_def runnable_in_def local_in_def dispatched_def)
  have "f \<in> runnable_in L s" using f by (simp add: runnable_in_def fibers_in_def)
  note run = runnable_minus_1 [OF inv this]
  have "mset_set (local_in L c s - {f}) = mset (f # vs) - {#f#}"
    using t(2) [unfolded items] fl finite_in(2) [OF D(1)] by (simp only: mset_set_Diff) (simp add: mset_set_Diff)
  then have vs: "mset vs = mset_set (local_in L c s - {f})" by simp
  have rings: "local_rings_ok L ?s"
    unfolding local_rings_ok_def
  proof (intro conjI allI impI)
    fix e assume e: "e < cMaxCoreCount"
    have tab: "m_scheduler_local_ring_table ?s ! e = (if e = c then r' else ?t ! e)" using t(1) c by (simp add: dispatched_def)
    show "mset (frb_items (m_scheduler_local_ring_table ?s ! e)) = mset_set (local_in L e ?s)"
      "frb_ok (m_scheduler_local_ring_table ?s ! e)" "length (m_fixed_array (m_scheduler_local_ring_table ?s ! e)) = 256"
      using D(9) e r' vs tab sets(4) by (cases "e = c"; simp add: local_rings_ok_def)+
  qed (simp add: t(1) dispatched_def)
  have key: "fiber_key ?s = fiber_key s"
    using fiber_key_upd [of "\<lambda>l. l\<lparr>fiber_state := FiberState_Running, current_core := core\<rparr>"
        "s\<lparr>m_scheduler_local_ring_table := ?t[c := r']\<rparr>" f] by (simp add: dispatched_def)
  have "f \<notin> waiting_in ps cs" using D(5) f(2) by (simp add: fibers_in_def)
  then have "waitable_object (m_fibers ?s g) \<noteq> None" if "g \<in> waiting_in ps cs" for g
    using D(6) [OF that] that by (auto simp: dispatched_def)
  moreover have "m_links ?s = m_links s" "m_thread_queue ?s = m_thread_queue s"
    "m_runnable_fibers ?s = m_runnable_fibers s - 1" by (simp_all add: dispatched_def)
  ultimately show "sched_inv L ps cs ?s" using D sets run key rings
    by (simp add: sched_inv_def queue_ok_def)
qed

section \<open>A round\<close>

text \<open>
  A fiber that a core takes from the queue itself: it may run on one core only, or it ran here last and may
  run here.
\<close>

definition taken_here :: "u32 \<Rightarrow> fiber_local_storage \<Rightarrow> bool" where
  "taken_here core l \<longleftrightarrow> popcount (core_mask l) = 1 \<or>
     current_core l = core \<and> core_mask l AND core_bit (unat core) \<noteq> 0"

lemma core_bit_bit: "bit (core_bit n) j \<longleftrightarrow> j = n" if "n < 31"
proof (cases "j < 32")
  case True
  then show ?thesis using that by (auto simp: core_bit_def bit_simps)
next
  case False
  then show ?thesis using that by (auto simp: core_bit_def bit_simps)
qed

lemma prefers_here_spec:
  assumes "small_mask (core_mask l)"
  shows "prefers_here core l = Inr (taken_here core l)"
proof -
  let ?m = "core_mask l"
  have m: "take_bit 31 ?m = ?m" "?m \<noteq> 0" using assms by (simp_all add: small_mask_def)
  obtain k where k: "right_zeros ?m = Inr k" "bit ?m k" using right_zeros_spec [OF m(2)] by blast
  have "bit (?m AND core_bit k) k" using k(2) core_bit_bit [of k k] small_mask_bit [OF m(1) k(2)] by (simp add: bit_and_iff)
  then have one: "?m AND core_bit k \<noteq> 0" by auto
  have "CountOneBits64 False ?m = 1 \<longleftrightarrow> popcount ?m = 1"
    using small_popcount [OF assms] by (auto simp: word_eq_unat_iff)
  then show ?thesis using k(1) one by (simp add: prefers_here_def taken_here_def Let_def)
qed

text \<open>What a round does to the fibers it passes over.\<close>

definition spread :: "u32 \<Rightarrow> user_scheduler \<Rightarrow> user_scheduler \<Rightarrow> bool" where
  "spread core s s' \<longleftrightarrow> (\<forall>g. m_fibers s' g = m_fibers s g \<or>
     state_of s g = FiberState_Scheduled \<and> \<not> taken_here core (m_fibers s g) \<and>
     (\<exists>c. bit (core_mask (m_fibers s g)) c \<and> m_fibers s' g = moved c (m_fibers s g)))"

lemma spread_refl: "m_fibers s' = m_fibers s \<Longrightarrow> spread core s s'"
  by (simp add: spread_def)

lemma spread_trans:
  assumes st: "spread core s t" and tu: "spread core t u"
  shows "spread core s u"
  unfolding spread_def
proof
  fix g
  consider "m_fibers t g = m_fibers s g" | c where "state_of s g = FiberState_Scheduled" "\<not> taken_here core (m_fibers s g)"
    "bit (core_mask (m_fibers s g)) c" "m_fibers t g = moved c (m_fibers s g)"
    using st unfolding spread_def by blast
  then show "m_fibers u g = m_fibers s g \<or> state_of s g = FiberState_Scheduled \<and> \<not> taken_here core (m_fibers s g) \<and>
     (\<exists>c. bit (core_mask (m_fibers s g)) c \<and> m_fibers u g = moved c (m_fibers s g))"
  proof cases
    case 1
    then show ?thesis using tu unfolding spread_def by metis
  next
    case (2 c)
    then have "state_of t g \<noteq> FiberState_Scheduled" by simp
    then have "m_fibers u g = m_fibers t g" using tu unfolding spread_def by blast
    then show ?thesis using 2 by auto
  qed
qed

lemma spread_key: "spread core s s' \<Longrightarrow> fiber_key s' = fiber_key s"
proof
  fix g assume "spread core s s'"
  then have "priority (m_fibers s' g) = priority (m_fibers s g)" by (auto simp: spread_def dest!: spec [of _ g])
  then show "fiber_key s' g = fiber_key s g" by (simp add: fiber_key_def)
qed

lemma spread_mask: "spread core s s' \<Longrightarrow> core_mask (m_fibers s' g) = core_mask (m_fibers s g)"
  by (auto simp: spread_def dest!: spec [of _ g])

definition front_taken :: "fiber_ptr set \<Rightarrow> fiber_ptr list \<Rightarrow> (fiber_ptr \<Rightarrow> fiber_ptr list) \<Rightarrow> u32 \<Rightarrow> user_scheduler \<Rightarrow> fiber_ptr \<Rightarrow> bool" where
  "front_taken L ps cs core s f \<longleftrightarrow> f \<in> fibers_in L FiberState_Scheduled s \<and> taken_here core (m_fibers s f) \<and>
     (\<forall>g\<in>fibers_in L FiberState_Scheduled s. fiber_key s g \<le> fiber_key s f) \<and> sched_inv L ps cs (dispatched f core s)"

lemma insert_lowest_words: "insert_lowest f s = Inr s' \<Longrightarrow> m_words s' = m_words s"
  by (auto simp: insert_lowest_def bind_vp_assert bind_result_Inr_iff Let_def upd_fiber_def split: if_splits)

lemma take_from_queue_spec:
  assumes "sched_inv L ps cs s" and "\<forall>f\<in>L. small_mask (core_mask (m_fibers s f))"
  shows "\<exists>f s'. take_from_queue core s = Inr (f, s') \<and> spread core s s' \<and> m_core_count s' = m_core_count s \<and> m_words s' = m_words s \<and>
    (if f = 0 then sched_inv L ps cs s' \<and> fibers_in L FiberState_Scheduled s' = {} else front_taken L ps cs core s' f)"
  using assms
proof (induction "unat (fpq_GetUsedCount (m_thread_queue s))" arbitrary: s rule: less_induct)
  case less
  note D = sched_invD [OF less.prems(1)]
  show ?case
  proof (cases "fpq_GetUsedCount (m_thread_queue s) = 0")
    case True
    then have "queued s = {#}" using queue_count [OF D(7)] by (metis size_eq_0_iff_empty unat_0)
    then have "fibers_in L FiberState_Scheduled s = {}" using D(8) finite_in(1) [OF D(1)] by (simp add: mset_set_empty_iff)
    then show ?thesis using True less.prems(1) by (simp add: take_from_queue.simps spread_refl)
  next
    case False
    then obtain f q where fq: "fpq_RemoveFront (fiber_key s) (m_thread_queue s) = Inr (f, q)" "queue_front L s f q"
      using queue_front_spec [OF less.prems(1)] by blast
    have f: "f \<in> L" "state_of s f = FiberState_Scheduled" "f \<noteq> 0" using fq(2) D(3) by (auto simp: queue_front_def fibers_in_def)
    have mask: "small_mask (core_mask (m_fibers s f))" using less.prems(2) f(1) by blast
    show ?thesis
    proof (cases "taken_here core (m_fibers s f)")
      case True
      have "front_taken L ps cs core (s\<lparr>m_thread_queue := q\<rparr>) f"
        using fq(2) True inv_dispatch_queue [OF less.prems(1) fq(2)] by (simp add: front_taken_def queue_front_def)
      moreover have "take_from_queue core s = Inr (f, s\<lparr>m_thread_queue := q\<rparr>)"
        using False fq(1) True prefers_here_spec [OF mask] by (subst take_from_queue.simps) simp
      ultimately show ?thesis using f(3)
        by (intro exI [of _ f] exI [of _ "s\<lparr>m_thread_queue := q\<rparr>"]) (simp add: spread_refl)
    next
      case here: False
      obtain t c where t: "insert_lowest f (s\<lparr>m_thread_queue := q\<rparr>) = Inr t" "sched_inv L ps cs t"
        "bit (core_mask (m_fibers s f)) c" "m_fibers t = (m_fibers s)(f := moved c (m_fibers s f))"
        "m_core_count t = m_core_count s" "m_thread_queue t = q"
        using insert_lowest_spec [OF less.prems(1) fq(2) mask] by blast
      have step: "take_from_queue core s = take_from_queue core t"
        using False fq(1) here prefers_here_spec [OF mask] t(1) by (subst take_from_queue.simps) simp
      have sp: "spread core s t" using t(3,4) f(2) here by (auto simp: spread_def)
      have "fpq_GetUsedCount (m_thread_queue t) = fpq_GetUsedCount (m_thread_queue s) - 1"
        using fpq_RemoveFront_count [OF fq(1)] t(6) by (simp add: fpq_GetUsedCount_def)
      then have lt: "unat (fpq_GetUsedCount (m_thread_queue t)) < unat (fpq_GetUsedCount (m_thread_queue s))"
        using False unat_sub_nowrap [of 1 "fpq_GetUsedCount (m_thread_queue s)"] by (simp add: unat_gt_0 Suc_leI)
      have "\<forall>g\<in>L. small_mask (core_mask (m_fibers t g))" using less.prems(2) spread_mask [OF sp] by simp
      from less.hyps [OF lt t(2) this] obtain f' s' where s': "take_from_queue core t = Inr (f', s')" "spread core t s'"
        "m_core_count s' = m_core_count t" "m_words s' = m_words t"
        "if f' = 0 then sched_inv L ps cs s' \<and> fibers_in L FiberState_Scheduled s' = {} else front_taken L ps cs core s' f'" by blast
      then show ?thesis using step spread_trans [OF sp s'(2)] t(5) insert_lowest_words [OF t(1)]
        by (intro exI [of _ f'] exI [of _ s']) simp
    qed
  qed
qed

lemma choose_fiber_spec:
  assumes inv: "sched_inv L ps cs s" and mask: "\<forall>f\<in>L. small_mask (core_mask (m_fibers s f))" and core: "unat core < cMaxCoreCount"
  shows "case frb_items (m_scheduler_local_ring_table s ! unat core) of
      [] \<Rightarrow> choose_fiber core s = take_from_queue core s
    | f # _ \<Rightarrow> \<exists>s'. choose_fiber core s = Inr (f, s') \<and> f \<in> local_in L (unat core) s \<and> f \<noteq> 0 \<and> m_fibers s' = m_fibers s \<and>
        m_core_count s' = m_core_count s \<and> m_words s' = m_words s \<and> sched_inv L ps cs (dispatched f core s')"
proof -
  note D = sched_invD [OF inv]
  let ?t = "m_scheduler_local_ring_table s" and ?c = "unat core"
  have t: "length ?t = cMaxCoreCount" "frb_ok (?t ! ?c)" "length (m_fixed_array (?t ! ?c)) = 256"
    using D(9) core by (simp_all add: local_rings_ok_def)
  have c: "length (frb_items (?t ! ?c)) = unat (frb_GetUsedCount (?t ! ?c))" by (rule frb_okD [OF t(2,3)])
  show ?thesis
  proof (cases "frb_items (?t ! ?c)")
    case Nil
    then have "frb_GetUsedCount (?t ! ?c) = 0" using c by (simp add: word_eq_unat_iff)
    then show ?thesis using Nil t(1) core by (simp add: choose_fiber_def)
  next
    case (Cons f vs)
    then have ne: "frb_GetUsedCount (?t ! ?c) \<noteq> 0" using c by auto
    obtain r' where r': "frb_RemoveFront (?t ! ?c) = Inr (f, r')" "frb_ok r'" "length (m_fixed_array r') = 256" "frb_items r' = vs"
      using frb_RemoveFront_spec [OF t(2,3) Cons] by blast
    note d = inv_dispatch_local(1) [OF inv core Cons r'(2-4)] inv_dispatch_local(2) [OF inv core Cons r'(2-4), of core]
    have "f \<noteq> 0" using d(1) D(3) by (auto simp: local_in_def)
    then show ?thesis using Cons ne t(1) core r'(1) d by (simp add: choose_fiber_def)
  qed
qed

section \<open>Properties\<close>

text \<open>
  C9: On a scheduler that keeps its invariant, with core masks that are not empty and below core 31, the
  choice of a fiber never fails.  A core runs the first fiber of its own ring; with an empty ring it takes
  fibers from the thread queue, highest priority first, moves those it does not take to the least used ring
  of their mask, and runs the first one it takes.  Dispatching the chosen fiber keeps the invariant, and
  when there is none the queue is empty: no fiber is lost or run twice.
\<close>

theorem scheduler_choice:
  assumes "sched_inv L ps cs s" and "\<forall>f\<in>L. small_mask (core_mask (m_fibers s f))" and "unat core < cMaxCoreCount"
    and "core < m_core_count s"
  shows "\<exists>f s'. choose_fiber core s = Inr (f, s') \<and> spread core s s' \<and>
    (if f \<noteq> 0 then \<exists>s''. Dispatch_begin f core s' = Inr s'' \<and> sched_inv L ps cs s'' \<and> state_of s'' f = FiberState_Running
     else sched_inv L ps cs s' \<and> fibers_in L FiberState_Scheduled s' = {}) \<and>
    (case frb_items (m_scheduler_local_ring_table s ! unat core) of
       g # _ \<Rightarrow> f = g
     | [] \<Rightarrow> f \<noteq> 0 \<longrightarrow> f \<in> fibers_in L FiberState_Scheduled s' \<and> taken_here core (m_fibers s' f) \<and> (\<forall>g\<in>fibers_in L FiberState_Scheduled s'. fiber_key s' g \<le> fiber_key s' f))"
proof -
  note ch = choose_fiber_spec [OF assms(1-3)]
  have run: "state_of (dispatched f core t) f = FiberState_Running" for f t by (simp add: dispatched_def)
  show ?thesis
  proof (cases "frb_items (m_scheduler_local_ring_table s ! unat core)")
    case Nil
    obtain f s' where f: "take_from_queue core s = Inr (f, s')" "spread core s s'" "m_core_count s' = m_core_count s"
      "if f = 0 then sched_inv L ps cs s' \<and> fibers_in L FiberState_Scheduled s' = {} else front_taken L ps cs core s' f"
      using take_from_queue_spec [OF assms(1,2)] by blast
    then show ?thesis using ch Nil assms(4) run
      by (intro exI [of _ f] exI [of _ s']) (simp add: front_taken_def Dispatch_begin_spec split: if_splits)
  next
    case (Cons g gs)
    then obtain s' where s': "choose_fiber core s = Inr (g, s')" "g \<noteq> 0" "m_fibers s' = m_fibers s" "m_core_count s' = m_core_count s"
      "sched_inv L ps cs (dispatched g core s')" using ch by auto
    then show ?thesis using Cons assms(4) run
      by (intro exI [of _ g] exI [of _ s']) (simp add: spread_refl Dispatch_begin_spec)
  qed
qed

text \<open>A scheduler of two cores with one fiber in its queue, which ran on core 1 last and may run on \<open>allowed\<close>.\<close>

definition demo_queued :: "u64 \<Rightarrow> user_scheduler" where
  "demo_queued allowed = (UserScheduler_construct 0x1000 (\<lambda>_. 0))\<lparr>m_fibers := (\<lambda>f. (demo_fibers f)\<lparr>core_mask := allowed, current_core := 1\<rparr>),
     m_core_count := 2\<rparr>"

lemma inv_core_count: "sched_inv L ps cs s \<Longrightarrow> sched_inv L ps cs (s\<lparr>m_core_count := n\<rparr>)"
proof -
  have "fiber_key (s\<lparr>m_core_count := n\<rparr>) = fiber_key s" by (simp add: fiber_key_def fun_eq_iff)
  then show "sched_inv L ps cs s \<Longrightarrow> sched_inv L ps cs (s\<lparr>m_core_count := n\<rparr>)"
    by (simp add: sched_inv_def queue_ok_def local_rings_ok_def local_in_def fibers_in_def runnable_in_def)
qed

lemma demo_queued_inv:
  "\<exists>s. AddToSchedulerUnsafe 1 (demo_queued allowed) = Inr s \<and> sched_inv {1, 2} [] (\<lambda>_. []) s \<and>
    fibers_in {1, 2} FiberState_Scheduled s = {1} \<and> (\<forall>c. local_in {1, 2} c s = {}) \<and>
    (\<forall>f. core_mask (m_fibers s f) = allowed \<and> current_core (m_fibers s f) = 1) \<and> m_core_count s = 2"
proof -
  have inv: "sched_inv {1, 2} [] (\<lambda>_. []) (demo_queued allowed)"
    unfolding demo_queued_def by (intro inv_core_count inv_construct) (auto simp: demo_fibers_def off_queues_def)
  have st: "state_of (demo_queued allowed) f = FiberState_Running" "activity_level (m_fibers (demo_queued allowed) f) = 1"
    "core_mask (m_fibers (demo_queued allowed) f) = allowed" "current_core (m_fibers (demo_queued allowed) f) = 1" for f
    by (simp_all add: demo_queued_def demo_fibers_def)
  obtain s where s: "AddToSchedulerUnsafe 1 (demo_queued allowed) = Inr s" "sched_inv {1, 2} [] (\<lambda>_. []) s"
    "\<forall>g. g \<noteq> 1 \<longrightarrow> m_fibers s g = m_fibers (demo_queued allowed) g"
    "m_fibers s 1 = (m_fibers (demo_queued allowed) 1)\<lparr>fiber_state := FiberState_Scheduled\<rparr>" "m_core_count s = m_core_count (demo_queued allowed)"
    using inv_AddTo [OF inv, of 1] st by (auto simp: off_queues_def ActivityLevel_Suspended_def)
  have "core_mask (m_fibers s f) = allowed \<and> current_core (m_fibers s f) = 1" for f
    using s(3,4) st by (cases "f = 1") simp_all
  moreover have "m_core_count s = 2" using s(5) by (simp add: demo_queued_def)
  moreover have "fibers_in {1, 2} FiberState_Scheduled s = {1}" using s(3,4) st by (auto simp: fibers_in_def)
  moreover have "local_in {1, 2} c s = {}" for c using s(3,4) st by (auto simp: local_in_def)
  ultimately show ?thesis using s(1,2) by blast
qed

lemma local_empty:
  assumes "sched_inv L ps cs s" and "local_in L c s = {}" and "c < cMaxCoreCount"
  shows "frb_items (m_scheduler_local_ring_table s ! c) = []" "used (m_scheduler_local_ring_table s) c = 0"
proof -
  have r: "frb_ok (m_scheduler_local_ring_table s ! c)" "length (m_fixed_array (m_scheduler_local_ring_table s ! c)) = 256"
    "mset (frb_items (m_scheduler_local_ring_table s ! c)) = {#}"
    using sched_invD(9) [OF assms(1)] assms(2,3) by (simp_all add: local_rings_ok_def)
  then show "frb_items (m_scheduler_local_ring_table s ! c) = []" by simp
  then show "used (m_scheduler_local_ring_table s) c = 0" using frb_okD(1) [OF r(1,2)] by (simp add: word_eq_unat_iff)
qed

text \<open>
  Two choices that go against the core masks.  A fiber that may run on core 1 only is run by core 0 when
  core 0 looks at the queue first; and a core can put the only runnable fiber into its own ring and then find
  nothing to run, so that it rests with a runnable fiber in its ring.
\<close>

theorem scheduler_affinity:
  "\<exists>s1 s1' s2 s2'. sched_inv {1, 2} [] (\<lambda>_. []) s1 \<and> (\<forall>f. core_mask (m_fibers s1 f) = 2) \<and> choose_fiber 0 s1 = Inr (1, s1') \<and>
    sched_inv {1, 2} [] (\<lambda>_. []) s2 \<and> (\<forall>f. core_mask (m_fibers s2 f) = 3) \<and> fibers_in {1, 2} FiberState_Scheduled s2 = {1} \<and>
    choose_fiber 0 s2 = Inr (0, s2') \<and> sched_inv {1, 2} [] (\<lambda>_. []) s2' \<and> 1 \<in> local_in {1, 2} 0 s2'"
proof -
  have small: "small_mask 2" "small_mask 3" by (simp_all add: small_mask_def)
  have pc: "popcount (2 :: u64) = 1" using popcount_pow2 [of 1, where ?'a = 64] by simp
  have c0: "unat (0 :: u32) < cMaxCoreCount" by (simp add: cMaxCoreCount_def)
  obtain s1 where s1: "sched_inv {1, 2} [] (\<lambda>_. []) s1" "fibers_in {1, 2} FiberState_Scheduled s1 = {1}"
    "\<forall>c. local_in {1, 2} c s1 = {}" "\<forall>f. core_mask (m_fibers s1 f) = 2 \<and> current_core (m_fibers s1 f) = 1"
    using demo_queued_inv [of 2] by blast
  have "choose_fiber 0 s1 = take_from_queue 0 s1"
    using choose_fiber_spec [OF s1(1) _ c0] s1(4) small local_empty(1) [OF s1(1) spec [OF s1(3)], of 0] by (simp add: cMaxCoreCount_def)
  moreover obtain f s1' where f: "take_from_queue 0 s1 = Inr (f, s1')" "spread 0 s1 s1'"
    "if f = 0 then sched_inv {1, 2} [] (\<lambda>_. []) s1' \<and> fibers_in {1, 2} FiberState_Scheduled s1' = {}
     else front_taken {1, 2} [] (\<lambda>_. []) 0 s1' f"
    using take_from_queue_spec [OF s1(1), of 0] s1(4) small by auto
  have "taken_here 0 (m_fibers s1 g)" for g using s1(4) pc by (simp add: taken_here_def)
  then have same: "m_fibers s1' = m_fibers s1" using f(2) by (auto simp: spread_def)
  then have "fibers_in {1, 2} FiberState_Scheduled s1' = {1}" using s1(2) by (simp add: fibers_in_def)
  then have "f = 1" using f(3) by (auto simp: front_taken_def split: if_splits)
  ultimately have one: "choose_fiber 0 s1 = Inr (1, s1')" using f(1) by simp
  obtain s2 where s2: "sched_inv {1, 2} [] (\<lambda>_. []) s2" "fibers_in {1, 2} FiberState_Scheduled s2 = {1}"
    "\<forall>c. local_in {1, 2} c s2 = {}" "\<forall>f. core_mask (m_fibers s2 f) = 3 \<and> current_core (m_fibers s2 f) = 1"
    using demo_queued_inv [of 3] by blast
  have empty: "frb_items (m_scheduler_local_ring_table s2 ! c) = []" "used (m_scheduler_local_ring_table s2) c = 0" if "c < 64" for c
    using local_empty [OF s2(1) spec [OF s2(3)], of c] that by (simp_all add: cMaxCoreCount_def)
  have start: "choose_fiber 0 s2 = take_from_queue 0 s2"
    using choose_fiber_spec [OF s2(1) _ c0] s2(4) small empty(1) [of 0] by simp
  have "size (queued s2) = 1" using sched_invD(8) [OF s2(1)] s2(2) by simp
  then have cnt: "fpq_GetUsedCount (m_thread_queue s2) \<noteq> 0" using queue_count [OF sched_invD(7) [OF s2(1)]] by auto
  obtain g q where g: "fpq_RemoveFront (fiber_key s2) (m_thread_queue s2) = Inr (g, q)" "queue_front {1, 2} s2 g q"
    using queue_front_spec [OF s2(1) cnt] by blast
  then have g1: "g = 1" using s2(2) by (simp add: queue_front_def)
  have mask: "small_mask (core_mask (m_fibers s2 g))" using s2(4) small by simp
  have "popcount (3 :: u64) = 2" by code_simp
  then have here: "\<not> taken_here 0 (m_fibers s2 g)" using s2(4) by (simp add: taken_here_def)
  obtain t c where t: "insert_lowest g (s2\<lparr>m_thread_queue := q\<rparr>) = Inr t" "sched_inv {1, 2} [] (\<lambda>_. []) t"
    "bit (3 :: u64) c" "c < 31" "\<forall>d<c. bit (3 :: u64) d \<longrightarrow> used (m_scheduler_local_ring_table s2) c < used (m_scheduler_local_ring_table s2) d"
    "m_fibers t = (m_fibers s2)(g := moved c (m_fibers s2 g))"
    using insert_lowest_spec [OF s2(1) g(2) mask] s2(4) by auto
  have "c = 0"
  proof (rule ccontr)
    assume "c \<noteq> 0"
    then have "used (m_scheduler_local_ring_table s2) c < used (m_scheduler_local_ring_table s2) 0" using t(5) by simp
    then show False using empty(2) [of c] empty(2) [of 0] t(4) by simp
  qed
  then have own: "1 \<in> local_in {1, 2} 0 t" using t(6) g1 by (simp add: local_in_def)
  have "2 \<notin> fibers_in {1, 2} FiberState_Scheduled s2" using s2(2) by simp
  then have "fibers_in {1, 2} FiberState_Scheduled t = {}" using t(6) g1 by (auto simp: fibers_in_def)
  then have "size (queued t) = 0" using sched_invD(8) [OF t(2)] by simp
  then have "fpq_GetUsedCount (m_thread_queue t) = 0" using queue_count [OF sched_invD(7) [OF t(2)]] by (metis unat_eq_zero)
  then have "take_from_queue 0 t = Inr (0, t)" by (simp add: take_from_queue.simps)
  moreover have "take_from_queue 0 s2 = take_from_queue 0 t"
    using cnt g(1) here prefers_here_spec [OF mask] t(1) by (subst take_from_queue.simps) simp
  ultimately have "choose_fiber 0 s2 = Inr (0, t)" using start by simp
  then show ?thesis using s1 s2 one own t(2)
    by - (rule exI [of _ s1], rule exI [of _ s1'], rule exI [of _ s2], rule exI [of _ t], simp)
qed

lemma scheduler_choice_witness:
  "\<exists>s f s' s''. sched_inv {1, 2} [] (\<lambda>_. []) s \<and> choose_fiber 1 s = Inr (f, s') \<and> f = 1 \<and>
    Dispatch_begin f 1 s' = Inr s'' \<and> sched_inv {1, 2} [] (\<lambda>_. []) s'' \<and> state_of s'' 1 = FiberState_Running"
proof -
  obtain s where s: "sched_inv {1, 2} [] (\<lambda>_. []) s" "fibers_in {1, 2} FiberState_Scheduled s = {1}"
    "\<forall>c. local_in {1, 2} c s = {}" "\<forall>f. core_mask (m_fibers s f) = 3 \<and> current_core (m_fibers s f) = 1" "m_core_count s = 2"
    using demo_queued_inv [of 3] by blast
  have masks: "\<forall>f\<in>{1, 2}. small_mask (core_mask (m_fibers s f))" using s(4) by (simp add: small_mask_def)
  have core: "unat (1 :: u32) < cMaxCoreCount" "1 < m_core_count s" using s(5) by (simp_all add: cMaxCoreCount_def)
  have ring: "frb_items (m_scheduler_local_ring_table s ! unat (1 :: u32)) = []"
    using local_empty(1) [OF s(1) spec [OF s(3)], of 1] by (simp add: cMaxCoreCount_def)
  obtain f s' where f: "choose_fiber 1 s = Inr (f, s')" "spread 1 s s'"
    "if f \<noteq> 0 then \<exists>s''. Dispatch_begin f 1 s' = Inr s'' \<and> sched_inv {1, 2} [] (\<lambda>_. []) s'' \<and> state_of s'' f = FiberState_Running
     else sched_inv {1, 2} [] (\<lambda>_. []) s' \<and> fibers_in {1, 2} FiberState_Scheduled s' = {}"
    "f \<noteq> 0 \<longrightarrow> f \<in> fibers_in {1, 2} FiberState_Scheduled s'"
    using scheduler_choice [OF s(1) masks core] ring by auto
  have "(3 :: u64) AND core_bit 1 \<noteq> 0" by code_simp
  then have "taken_here 1 (m_fibers s g)" for g using s(4) by (simp add: taken_here_def)
  then have "m_fibers s' = m_fibers s" using f(2) by (auto simp: spread_def)
  then have "fibers_in {1, 2} FiberState_Scheduled s' = {1}" using s(2) by (simp add: fibers_in_def)
  then have "f = 1" using f(3,4) by (auto split: if_splits)
  then show ?thesis using s(1) f(1,3)
    by - (rule exI [of _ s], rule exI [of _ 1], rule exI [of _ s'], simp)
qed

end
