(* ===== verification/Time_Span.thy ===== *)
theory Time_Span
  imports Awn_Prelude "HOL-Library.Signed_Division"
begin

text \<open>
  \<open>TimeSpan\<close> (\<open>util_timespan.hpp\<close>) and the limit that \<open>util_timestamp.win32.cpp\<close> computes for it.  A
  \<open>s64\<close> is an integer here and every operation that could leave its range goes through \<open>s64\<close>, which
  wraps; a quotient and a remainder are truncated towards zero.  The frequency and the tick of the system
  are what \<open>QueryPerformanceFrequency\<close> and \<open>QueryPerformanceCounter\<close> answer, and parameters.
\<close>

section \<open>Definitions\<close>

definition s64 :: "int \<Rightarrow> int" where "s64 x = signed_take_bit 63 x"

definition cMaxTime :: int where "cMaxTime = 0x7fffffffffffffff"
definition cMinTime :: int where "cMinTime = - 0x8000000000000000"

definition MaxTickToTimeSpan :: "int \<Rightarrow> int" where
  "MaxTickToTimeSpan frequency = s64 (((cMaxTime - cMaxTime smod frequency) sdiv 1000000000) * frequency)"

definition FromTick :: "int \<Rightarrow> int \<Rightarrow> int" where
  "FromTick frequency tick =
     (if MaxTickToTimeSpan frequency < tick then cMaxTime
      else if tick < - MaxTickToTimeSpan frequency then cMinTime
      else
        let residual = s64 ((tick smod frequency) * 1000000000) sdiv frequency;
            quotient = s64 ((tick sdiv frequency) * 1000000000)
        in s64 (residual + quotient))"

definition FromMicroSeconds :: "int \<Rightarrow> int" where "FromMicroSeconds time_us = s64 (time_us * 1000)"
definition FromMilliSeconds :: "int \<Rightarrow> int" where "FromMilliSeconds time_ms = s64 (time_ms * 1000000)"
definition FromSeconds :: "int \<Rightarrow> int" where "FromSeconds time_sec = s64 (time_sec * 1000000000)"
definition GetMicroSeconds :: "int \<Rightarrow> int" where "GetMicroSeconds time_ns = time_ns sdiv 1000"
definition GetMilliSeconds :: "int \<Rightarrow> int" where "GetMilliSeconds time_ns = time_ns sdiv 1000000"
definition GetSeconds :: "int \<Rightarrow> int" where "GetSeconds time_ns = time_ns sdiv 1000000000"

definition GetTick :: "int \<Rightarrow> int \<Rightarrow> int" where
  "GetTick frequency time_ns =
     (if time_ns = cMinTime then cMinTime
      else
        let r_coeff = (if time_ns \<le> - 1 then - (time_ns smod 1000000000) else time_ns smod 1000000000);
            p_coeff = (if time_ns \<le> - 1 then - (time_ns sdiv 1000000000) else time_ns sdiv 1000000000);
            residual = s64 (s64 (r_coeff * frequency) + 999999999) sdiv 1000000000;
            product = s64 (p_coeff * frequency);
            result = s64 (residual + product)
        in if result \<le> - 1 then s64 (- result) else result)"

definition GetTimeLeftOnTarget :: "int \<Rightarrow> int \<Rightarrow> int \<Rightarrow> int" where
  "GetTimeLeftOnTarget frequency now tick =
     (if tick = 0 then 0
      else let tick_left = s64 (tick - now) in if tick_left \<le> 0 then 0 else FromTick frequency tick_left)"

definition GetAbsoluteTimeToWakeup :: "int \<Rightarrow> int \<Rightarrow> int \<Rightarrow> int" where
  "GetAbsoluteTimeToWakeup frequency now timeout_ns =
     (let timeout_tick = GetTick frequency timeout_ns
      in if timeout_tick \<le> 0 then cMaxTime
         else let absolute_time = s64 (timeout_tick + now)
              in if s64 (absolute_time + 1) \<le> 1 then cMaxTime else s64 (absolute_time + 2))"

text \<open>\<open>util_time.cpp\<close>\<close>

definition GetMillisecondsFromTick :: "int \<Rightarrow> int \<Rightarrow> int" where
  "GetMillisecondsFromTick frequency tick =
     s64 (s64 ((tick smod frequency) * 1000) sdiv frequency + s64 ((tick sdiv frequency) * 1000))"

section \<open>Arithmetic without wrapping\<close>

lemma s64_id: "cMinTime \<le> x \<Longrightarrow> x \<le> cMaxTime \<Longrightarrow> s64 x = x"
  unfolding s64_def cMinTime_def cMaxTime_def by (rule signed_take_bit_int_eq_self) simp_all

lemma s64_pos: "0 \<le> x \<Longrightarrow> x \<le> cMaxTime \<Longrightarrow> s64 x = x"
  by (rule s64_id) (simp_all add: cMinTime_def)

lemma sdiv_pos: "0 \<le> (x :: int) \<Longrightarrow> 0 < y \<Longrightarrow> x sdiv y = x div y" "0 \<le> (x :: int) \<Longrightarrow> 0 < y \<Longrightarrow> x smod y = x mod y"
  by (auto simp: signed_divide_int_def signed_modulo_int_def sgn_if)

lemma sdiv_minus: "(- x :: int) sdiv y = - (x sdiv y)" "(- x :: int) smod y = - (x smod y)"
  by (simp_all add: signed_divide_int_def signed_modulo_int_def sgn_minus)

text \<open>The two halves of a conversion are the quotient of the product.\<close>

lemma split_div: "0 < (f :: int) \<Longrightarrow> ((t mod f) * k + r) div f + (t div f) * k = (t * k + r) div f"
proof -
  assume f: "0 < f"
  have "t * k + r = ((t mod f) * k + r) + f * ((t div f) * k)"
    using mod_mult_div_eq [of t f] by (metis add.assoc add.commute distrib_right mult.assoc)
  then have "(t * k + r) div f = (((t mod f) * k + r) + f * ((t div f) * k)) div f" by (rule arg_cong)
  also have "\<dots> = ((t mod f) * k + r) div f + (t div f) * k" using f by simp
  finally show ?thesis by simp
qed

lemma div_mult_le: "0 < b \<Longrightarrow> x div b * b \<le> (x :: int)"
  by (simp add: minus_mod_eq_div_mult [symmetric])

definition frequency_ok :: "int \<Rightarrow> bool" where
  "frequency_ok f \<longleftrightarrow> 0 < f \<and> f \<le> 1000000000"

section \<open>What the conversions answer\<close>

lemma GetTick_pos:
  assumes f: "frequency_ok f" and n: "0 \<le> n" "n \<le> cMaxTime"
  shows "GetTick f n = (n * f + 999999999) div 1000000000" "0 \<le> GetTick f n" "GetTick f n \<le> n"
proof -
  let ?b = "1000000000 :: int"
  have f0: "0 < f" "f \<le> ?b" using f by (simp_all add: frequency_ok_def)
  have m: "0 \<le> n mod ?b" "n mod ?b < ?b" by simp_all
  have "(n mod ?b) * f \<le> ?b * ?b" using m f0 by (intro mult_mono) simp_all
  then have r: "s64 ((n mod ?b) * f) = (n mod ?b) * f" "s64 ((n mod ?b) * f + 999999999) = (n mod ?b) * f + 999999999"
    using m f0 by (auto intro!: s64_pos simp: cMaxTime_def)
  have d: "0 \<le> n div ?b" "n div ?b * ?b \<le> n" using n by (simp_all add: pos_imp_zdiv_nonneg_iff div_mult_le)
  have pf: "n div ?b * f \<le> n" using mult_left_mono [OF f0(2) d(1)] d(2) by linarith
  then have p: "s64 (n div ?b * f) = n div ?b * f" using d(1) f0 n(2) by (intro s64_pos) simp_all
  have sum: "((n mod ?b) * f + 999999999) div ?b + n div ?b * f = (n * f + 999999999) div ?b" by (rule split_div) simp
  have "n * f + 999999999 \<le> n * ?b + 999999999" using mult_left_mono [OF f0(2) n(1)] by simp
  then have le: "(n * f + 999999999) div ?b \<le> n" using zdiv_mono1 [of "n * f + 999999999" "n * ?b + 999999999" ?b] by simp
  have ge: "0 \<le> (n * f + 999999999) div ?b" using n f0 by (simp add: pos_imp_zdiv_nonneg_iff)
  have "s64 ((n * f + 999999999) div ?b) = (n * f + 999999999) div ?b" using ge le n(2) by (intro s64_pos) linarith+
  moreover have "n \<noteq> cMinTime" "\<not> n \<le> - 1" using n(1) by (auto simp: cMinTime_def)
  ultimately show "GetTick f n = (n * f + 999999999) div ?b"
    using n ge m f0 by (simp add: GetTick_def Let_def sdiv_pos r p sum)
  then show "0 \<le> GetTick f n" "GetTick f n \<le> n" using ge le by simp_all
qed

lemma GetTick_neg: "n \<noteq> cMinTime \<Longrightarrow> cMinTime \<le> n \<Longrightarrow> n < 0 \<Longrightarrow> GetTick f n = GetTick f (- n)"
  by (auto simp: GetTick_def Let_def sdiv_minus cMinTime_def)

lemma max_tick:
  assumes f: "frequency_ok f"
  shows "\<exists>q. MaxTickToTimeSpan f = q * f \<and> 0 \<le> q \<and> q * 1000000000 \<le> cMaxTime \<and> q * f \<le> cMaxTime"
proof -
  let ?b = "1000000000 :: int" let ?q = "(cMaxTime - cMaxTime mod f) div ?b"
  have f0: "0 < f" "f \<le> ?b" using f by (simp_all add: frequency_ok_def)
  have c: "0 \<le> cMaxTime - cMaxTime mod f" "cMaxTime - cMaxTime mod f \<le> cMaxTime"
    using f0 zmod_le_nonneg_dividend [of cMaxTime f] by (simp_all add: cMaxTime_def)
  have q: "0 \<le> ?q" "?q * ?b \<le> cMaxTime"
    using c div_mult_le [of ?b "cMaxTime - cMaxTime mod f"] by (simp_all add: pos_imp_zdiv_nonneg_iff)
  have qf: "?q * f \<le> cMaxTime" using mult_left_mono [OF f0(2) q(1)] q(2) by linarith
  have "MaxTickToTimeSpan f = ?q * f"
    using c f0 q qf by (simp add: MaxTickToTimeSpan_def sdiv_pos s64_pos cMaxTime_def)
  then show ?thesis using q qf by blast
qed

lemma FromTick_pos:
  assumes f: "frequency_ok f" and t: "0 \<le> t" "t \<le> MaxTickToTimeSpan f"
  shows "FromTick f t = (t * 1000000000) div f" "0 \<le> FromTick f t" "FromTick f t \<le> cMaxTime"
    "FromTick f (- t) = - FromTick f t"
proof -
  let ?b = "1000000000 :: int"
  obtain q where q: "MaxTickToTimeSpan f = q * f" "0 \<le> q" "q * ?b \<le> cMaxTime" "q * f \<le> cMaxTime" using max_tick [OF f] by blast
  have f0: "0 < f" "f \<le> ?b" using f by (simp_all add: frequency_ok_def)
  have m: "0 \<le> t mod f" "t mod f < f" using f0 by simp_all
  have "t mod f * ?b \<le> ?b * ?b" using m f0 by (intro mult_right_mono) linarith+
  then have r: "s64 (t mod f * ?b) = t mod f * ?b" using m by (intro s64_pos) (simp_all add: cMaxTime_def)
  have "t * ?b \<le> (q * ?b) * f" using t q(1) by (simp add: ac_simps)
  then have le: "(t * ?b) div f \<le> q * ?b" using f0 zdiv_mono1 [of "t * ?b" "(q * ?b) * f" f] by simp
  have ge: "0 \<le> (t * ?b) div f" using t f0 by (simp add: pos_imp_zdiv_nonneg_iff)
  have sum: "(t mod f * ?b) div f + t div f * ?b = (t * ?b) div f" using split_div [OF f0(1), of t ?b 0] by simp
  have d: "0 \<le> t div f" "0 \<le> (t mod f * ?b) div f" using t m f0 by (simp_all add: pos_imp_zdiv_nonneg_iff)
  have p: "s64 (t div f * ?b) = t div f * ?b" using d sum le q(3) by (intro s64_pos) linarith+
  have s: "s64 ((t * ?b) div f) = (t * ?b) div f" using ge le q(3) by (intro s64_pos) linarith+
  have "\<not> t < - MaxTickToTimeSpan f" "\<not> MaxTickToTimeSpan f < t" using t q f0 by (simp_all add: mult_nonneg_nonneg)
  then show "FromTick f t = (t * ?b) div f" using t f0 m by (simp add: FromTick_def Let_def sdiv_pos r p sum s)
  then show "0 \<le> FromTick f t" "FromTick f t \<le> cMaxTime" using ge le q(3) by simp_all
  have anti: "s64 (- x) = - x" if "s64 x = x" "0 \<le> x" "x \<le> cMaxTime" for x
    using that by (intro s64_id) (simp_all add: cMinTime_def cMaxTime_def)
  have "t mod f * ?b \<le> cMaxTime" "t div f * ?b \<le> cMaxTime" "(t * ?b) div f \<le> cMaxTime"
    using \<open>t mod f * ?b \<le> ?b * ?b\<close> d sum le q(3) by (simp_all add: cMaxTime_def)
  then have "s64 (- (t mod f * ?b)) = - (t mod f * ?b)" "s64 (- (t div f * ?b)) = - (t div f * ?b)"
    "s64 (- ((t * ?b) div f)) = - ((t * ?b) div f)" using anti [OF r] anti [OF p] anti [OF s] m d ge by simp_all
  moreover have "- ((t mod f * ?b) div f) - t div f * ?b = - ((t * ?b) div f)" using sum by simp
  moreover have "\<not> - t < - MaxTickToTimeSpan f" "\<not> MaxTickToTimeSpan f < - t" using t q f0 by (simp_all add: mult_nonneg_nonneg)
  ultimately have "FromTick f (- t) = - ((t * ?b) div f)"
    using t f0 m by (simp add: FromTick_def Let_def sdiv_minus sdiv_pos)
  then show "FromTick f (- t) = - FromTick f t" using \<open>FromTick f t = (t * ?b) div f\<close> by simp
qed

section \<open>Properties\<close>

lemma ceil_floor:
  assumes "frequency_ok f" shows "((t * 1000000000) div f * f + 999999999) div 1000000000 = t"
proof -
  let ?b = "1000000000 :: int" and ?n = "(t * 1000000000) div f"
  have f: "0 < f" "f \<le> ?b" using assms by (simp_all add: frequency_ok_def)
  have e: "?n * f + t * ?b mod f = t * ?b" by (rule div_mult_mod_eq)
  have n: "?n * f \<le> t * ?b" "t * ?b < ?n * f + f"
    using e pos_mod_bound [OF f(1), of "t * ?b"] pos_mod_sign [OF f(1), of "t * ?b"] by linarith+
  then have "?n * f + 999999999 = ?b * t + (?n * f + 999999999 - t * ?b)" "0 \<le> ?n * f + 999999999 - t * ?b"
    "?n * f + 999999999 - t * ?b < ?b" using f by linarith+
  then show ?thesis by (rule int_div_pos_eq)
qed

text \<open>
  At every frequency up to \<open>10^9\<close>, a span made of ticks within the limit gives its ticks back, without their
  sign: \<open>FromTick\<close> rounds down and \<open>GetTick\<close> up.  Beyond the limit \<open>FromTick\<close> saturates.
\<close>

theorem time_span_round_trip:
  assumes f: "frequency_ok f"
  shows "(\<bar>t\<bar> \<le> MaxTickToTimeSpan f \<longrightarrow> GetTick f (FromTick f t) = \<bar>t\<bar>) \<and>
    (MaxTickToTimeSpan f < t \<longrightarrow> FromTick f t = cMaxTime) \<and> (t < - MaxTickToTimeSpan f \<longrightarrow> FromTick f t = cMinTime)"
proof (intro conjI impI)
  have pos: "GetTick f (FromTick f t) = t" if "0 \<le> t" "t \<le> MaxTickToTimeSpan f" for t
    using FromTick_pos [OF f that] GetTick_pos(1) [OF f FromTick_pos(2,3) [OF f that]] ceil_floor [OF f, of t] by simp
  assume t: "\<bar>t\<bar> \<le> MaxTickToTimeSpan f"
  show "GetTick f (FromTick f t) = \<bar>t\<bar>"
  proof (cases "0 \<le> t")
    case True
    then show ?thesis using pos t by simp
  next
    case False
    let ?n = "FromTick f (- t)"
    have n: "FromTick f t = - ?n" "0 \<le> ?n" "?n \<le> cMaxTime" "GetTick f ?n = - t"
      using FromTick_pos [OF f, of "- t"] pos [of "- t"] t False by simp_all
    have "?n \<noteq> 0"
    proof
      assume "?n = 0"
      then have "GetTick f 0 = - t" using n(4) by simp
      then show False using False GetTick_pos(1) [OF f, of 0] by (simp add: cMaxTime_def)
    qed
    then show ?thesis using n GetTick_neg [of "- ?n" f] False by (simp add: cMinTime_def cMaxTime_def)
  qed
next
  obtain q where "MaxTickToTimeSpan f = q * f" "0 \<le> q" using max_tick [OF f] by blast
  then have m: "0 \<le> MaxTickToTimeSpan f" using f by (simp add: frequency_ok_def)
  show "FromTick f t = cMaxTime" if "MaxTickToTimeSpan f < t" using that by (simp add: FromTick_def)
  show "FromTick f t = cMinTime" if "t < - MaxTickToTimeSpan f" using that m by (simp add: FromTick_def)
qed

lemma time_span_round_trip_witness:
  "GetTick 10000000 (FromTick 10000000 (- 25)) = 25 \<and> FromTick 10000000 (- 25) = - 2500"
proof -
  have "frequency_ok 10000000" by (simp add: frequency_ok_def)
  moreover have "MaxTickToTimeSpan 10000000 = 92233720360000000"
    by (simp add: MaxTickToTimeSpan_def cMaxTime_def s64_def sdiv_pos signed_take_bit_int_eq_self)
  ultimately show ?thesis using time_span_round_trip [of 10000000 "- 25"] FromTick_pos [of 10000000 25] by simp
qed

text \<open>
  The time a waiter wakes up at: nothing to wait for, or the smallest span, is for ever; every other span,
  a negative one too, is taken by its size, rounded up to a tick, and given two ticks of grace.
\<close>

theorem absolute_time_to_wakeup:
  assumes f: "frequency_ok f" and n: "cMinTime \<le> n" "n \<le> cMaxTime" and now: "0 \<le> now" "now + \<bar>n\<bar> + 2 \<le> cMaxTime"
  shows "GetAbsoluteTimeToWakeup f now n =
    (if n = 0 then cMaxTime else now + (\<bar>n\<bar> * f + 999999999) div 1000000000 + 2)"
proof -
  have small: "\<bar>n\<bar> \<le> cMaxTime" "n \<noteq> cMinTime" using now by (auto simp: cMinTime_def cMaxTime_def)
  have g: "GetTick f n = (\<bar>n\<bar> * f + 999999999) div 1000000000" "GetTick f n \<le> \<bar>n\<bar>"
    using GetTick_pos [OF f, of "\<bar>n\<bar>"] GetTick_neg [of n f] n small by (cases "0 \<le> n"; simp)+
  have "1 \<le> GetTick f n" if "n \<noteq> 0"
  proof -
    have "1 * 1 \<le> \<bar>n\<bar> * f" using that f by (intro mult_mono) (auto simp: frequency_ok_def)
    then have "1000000000 \<le> \<bar>n\<bar> * f + 999999999" by simp
    then show ?thesis using g(1) zdiv_mono1 [of 1000000000 "\<bar>n\<bar> * f + 999999999" 1000000000] by simp
  qed
  then show ?thesis using g now by (auto simp: GetAbsoluteTimeToWakeup_def Let_def s64_pos)
qed

lemma absolute_time_to_wakeup_witness: "GetAbsoluteTimeToWakeup 10000000 1000 (- 2500) = 1027"
proof -
  have "frequency_ok 10000000" by (simp add: frequency_ok_def)
  from absolute_time_to_wakeup [OF this, of "- 2500" 1000] show ?thesis by (simp add: cMinTime_def cMaxTime_def)
qed

end
