(* ===== verification/Ukern_Api.thy ===== *)
theory Ukern_Api
  imports Arbiters Time_Span
begin

text \<open>
  The calls a user of the kernel makes (\<open>ukern_synchronizationapi.cpp\<close>, \<open>ukern_threadapi.cpp\<close>): they turn a
  timeout into the tick to wake up at and go to the scheduler.  \<open>frequency\<close> and \<open>now\<close> are the tick
  frequency and the tick of the system.
\<close>

section \<open>Synchronisation\<close>

definition ukern_ArbitrateLock :: "fiber_ptr \<Rightarrow> u32 \<Rightarrow> u64 \<Rightarrow> u32 \<Rightarrow> user_scheduler \<Rightarrow> (outcome \<times> user_scheduler) result" where
  "ukern_ArbitrateLock current handle address tag s = ArbitrateLockImpl current handle address tag s"

definition ukern_ArbitrateUnlock :: "fiber_ptr \<Rightarrow> u64 \<Rightarrow> user_scheduler \<Rightarrow> (outcome \<times> user_scheduler) run" where
  "ukern_ArbitrateUnlock current address s = ArbitrateUnlockImpl current address s"

definition ukern_WaitKey ::
  "int \<Rightarrow> int \<Rightarrow> fiber_ptr \<Rightarrow> u64 \<Rightarrow> u64 \<Rightarrow> u32 \<Rightarrow> int \<Rightarrow> user_scheduler \<Rightarrow> (outcome \<times> user_scheduler) run" where
  "ukern_WaitKey frequency now current address cv_key tag timeout_ns s =
     WaitKeyImpl current address cv_key tag (word_of_int (GetAbsoluteTimeToWakeup frequency now timeout_ns)) s"

definition ukern_SignalKey :: "u64 \<Rightarrow> u32 \<Rightarrow> user_scheduler \<Rightarrow> (outcome \<times> user_scheduler) run" where
  "ukern_SignalKey cv_key signal_count s = SignalKeyImpl cv_key signal_count s"

definition ArbitrationType_WaitIfLessThan :: u32 where "ArbitrationType_WaitIfLessThan = 0"
definition ArbitrationType_DecrementWaitIfLessThan :: u32 where "ArbitrationType_DecrementWaitIfLessThan = 1"
definition ArbitrationType_WaitIfEqual :: u32 where "ArbitrationType_WaitIfEqual = 2"

definition SignalType_Signal :: u32 where "SignalType_Signal = 0"
definition SignalType_SignalAndIncrementIfEqual :: u32 where "SignalType_SignalAndIncrementIfEqual = 1"
definition SignalType_SignalAndModifyByWaiterCountIfEqual :: u32 where "SignalType_SignalAndModifyByWaiterCountIfEqual = 2"

definition ukern_WaitOnAddress ::
  "int \<Rightarrow> int \<Rightarrow> fiber_ptr \<Rightarrow> u64 \<Rightarrow> u32 \<Rightarrow> u32 \<Rightarrow> int \<Rightarrow> user_scheduler \<Rightarrow> (outcome \<times> user_scheduler) run" where
  "ukern_WaitOnAddress frequency now current address arbitration_type v timeout_ns s =
     (let absolute_timeout = word_of_int (GetAbsoluteTimeToWakeup frequency now timeout_ns)
      in if arbitration_type = ArbitrationType_WaitIfEqual
         then WaitForAddressIfEqualImpl current address v absolute_timeout s
         else if arbitration_type = ArbitrationType_DecrementWaitIfLessThan
         then WaitForAddressIfLessThanImpl current address v absolute_timeout True s
         else if arbitration_type = ArbitrationType_WaitIfLessThan
         then WaitForAddressIfLessThanImpl current address v absolute_timeout False s
         else ret (Returned ResultInvalidArbitrationType, s))"

definition ukern_WakeByAddress :: "u64 \<Rightarrow> u32 \<Rightarrow> u32 \<Rightarrow> u32 \<Rightarrow> user_scheduler \<Rightarrow> (outcome \<times> user_scheduler) run" where
  "ukern_WakeByAddress address signal_type v wake_count s =
     (if signal_type = SignalType_Signal then WakeByAddressImpl address wake_count s
      else if signal_type = SignalType_SignalAndIncrementIfEqual then WakeByAddressIncrementEqualImpl address v wake_count s
      else if signal_type = SignalType_SignalAndModifyByWaiterCountIfEqual
      then WakeByAddressModifyLessThanImpl address v wake_count s
      else ret (Returned ResultInvalidSignalType, s))"

section \<open>Threads\<close>

definition ukern_CreateThread ::
  "u64 \<Rightarrow> u64 \<Rightarrow> u64 \<Rightarrow> u64 \<Rightarrow> u32 \<Rightarrow> u32 \<Rightarrow> user_scheduler \<Rightarrow> ((ukern_result \<times> u32 option) \<times> user_scheduler) result" where
  "ukern_CreateThread win32_fiber thread_func arg stack_bytes prio core_id s =
     CreateThreadImpl win32_fiber thread_func arg stack_bytes prio core_id s"

definition StartThread :: "u32 \<Rightarrow> user_scheduler \<Rightarrow> (ukern_result \<times> user_scheduler) result" where
  "StartThread handle s = SetActivityImpl handle ActivityLevel_Schedulable s"

definition ResumeThread :: "u32 \<Rightarrow> user_scheduler \<Rightarrow> (ukern_result \<times> user_scheduler) result" where
  "ResumeThread handle s = SetActivityImpl handle ActivityLevel_Schedulable s"

definition SuspendThread :: "u32 \<Rightarrow> user_scheduler \<Rightarrow> (ukern_result \<times> user_scheduler) result" where
  "SuspendThread handle s = SetActivityImpl handle ActivityLevel_Suspended s"

definition SetThreadPriority :: "u32 \<Rightarrow> u32 \<Rightarrow> user_scheduler \<Rightarrow> (ukern_result \<times> user_scheduler) result" where
  "SetThreadPriority handle prio s = SetPriorityImpl handle prio s"

definition SetThreadCoreMask :: "u32 \<Rightarrow> u64 \<Rightarrow> user_scheduler \<Rightarrow> (ukern_result \<times> user_scheduler) result" where
  "SetThreadCoreMask handle new_mask s = SetCoreMaskImpl handle new_mask s"

definition ukern_Sleep :: "int \<Rightarrow> int \<Rightarrow> fiber_ptr \<Rightarrow> int \<Rightarrow> user_scheduler \<Rightarrow> outcome \<times> user_scheduler" where
  "ukern_Sleep frequency now current timeout_ns s =
     SleepThreadImpl current (word_of_int (GetAbsoluteTimeToWakeup frequency now timeout_ns)) s"

definition YieldThread :: "fiber_ptr \<Rightarrow> user_scheduler \<Rightarrow> outcome \<times> user_scheduler" where
  "YieldThread current s = SleepThreadImpl current 0 s"

definition GetCoreCount :: "user_scheduler \<Rightarrow> u32" where "GetCoreCount s = m_core_count s"

end
