(* ===== verification/Critical_Section.thy ===== *)
theory Critical_Section
  imports Lock_Handover Scheduling Ukern_Api
begin

text \<open>
  \<open>InternalCriticalSection\<close> and \<open>InternalConditionVariable\<close> on top of the scheduler
  (\<open>ukern_internalcriticalsection.hpp\<close>, \<open>ukern_internalconditionvariable.hpp\<close>).  \<open>Enter\<close> and \<open>Leave\<close>
  touch the word of the lock outside the scheduler lock, so each interlocked access and each scheduler call
  is a step of its own, and a fiber has a program counter; \<open>cs_reach\<close> are the states that any number of
  fibers reach on one critical section, with any interleaving of their steps and any scheduling.
\<close>

section \<open>The steps\<close>

datatype cs_pc = Idle | Trying | Setting u32 | Arbitrating u32 | Blocked | Rechecking | Holding | Unlocking | Aborted

definition set_word :: "u64 \<Rightarrow> u32 \<Rightarrow> user_scheduler \<Rightarrow> user_scheduler" where
  "set_word a v s = s\<lparr>m_words := (m_words s)(a := v)\<rparr>"

abbreviation handle_tag :: "user_scheduler \<Rightarrow> fiber_ptr \<Rightarrow> u32" where
  "handle_tag s f \<equiv> ukern_fiber_handle (m_fibers s f)"

text \<open>\<open>TryEnter\<close> and the exchange at the start of the acquire loop of \<open>Enter\<close>.\<close>

definition TryEnter :: "u64 \<Rightarrow> fiber_ptr \<Rightarrow> user_scheduler \<Rightarrow> bool \<times> user_scheduler" where
  "TryEnter a f s = (let (result, word) = compare_exchange (handle_tag s f) 0 (m_words s a) in (result, set_word a word s))"

definition Enter_try :: "u64 \<Rightarrow> fiber_ptr \<Rightarrow> user_scheduler \<Rightarrow> cs_pc \<times> user_scheduler" where
  "Enter_try a f s =
     (let handle = m_words s a; (result, s) = TryEnter a f s
      in (if result then Holding
          else if drop_bit 0x1e handle AND 1 = 0 then Setting handle else Arbitrating handle, s))"

definition Enter_set_bit :: "u64 \<Rightarrow> u32 \<Rightarrow> user_scheduler \<Rightarrow> cs_pc \<times> user_scheduler" where
  "Enter_set_bit a handle s =
     (let last_handle = m_words s a
      in (if handle \<noteq> last_handle then Trying else Arbitrating handle, set_word a (last_handle OR HasChildWaitersBit) s))"

definition abort_unless :: "ukern_result \<Rightarrow> cs_pc \<Rightarrow> cs_pc" where
  "abort_unless r pc = (if r = ResultSuccess then pc else Aborted)"

definition Enter_arbitrate :: "u64 \<Rightarrow> fiber_ptr \<Rightarrow> u32 \<Rightarrow> user_scheduler \<Rightarrow> (cs_pc \<times> user_scheduler) result" where
  "Enter_arbitrate a f handle s =
     bind_result (ArbitrateLockImpl f (handle AND NOT HasChildWaitersBit) a (handle_tag s f) s) (\<lambda>(answer, s).
       case answer of
         Returned r \<Rightarrow> Inr (abort_unless r Rechecking, s)
       | Switched r \<Rightarrow> bind_result (Dispatch_end f (current_core (m_fibers s f)) s) (\<lambda>s. Inr (Blocked, s)))"

definition Enter_recheck :: "u64 \<Rightarrow> fiber_ptr \<Rightarrow> user_scheduler \<Rightarrow> cs_pc" where
  "Enter_recheck a f s = (if m_words s a AND NOT HasChildWaitersBit = handle_tag s f then Holding else Trying)"

definition Leave_try :: "u64 \<Rightarrow> fiber_ptr \<Rightarrow> user_scheduler \<Rightarrow> cs_pc \<times> user_scheduler" where
  "Leave_try a f s =
     (let (result, word) = compare_exchange 0 (handle_tag s f) (m_words s a)
      in (if result then Idle else Unlocking, set_word a word s))"

definition Leave_arbitrate :: "u64 \<Rightarrow> fiber_ptr \<Rightarrow> user_scheduler \<Rightarrow> (cs_pc \<times> user_scheduler) run" where
  "Leave_arbitrate a f s =
     bind_run (ArbitrateUnlockImpl f a s) (\<lambda>(answer, s).
       case answer of Returned r \<Rightarrow> ret (abort_unless r Idle, s) | Switched r \<Rightarrow> ret (abort_unless r Idle, s))"

definition IsLockedByCurrentThread :: "u64 \<Rightarrow> fiber_ptr \<Rightarrow> user_scheduler \<Rightarrow> bool" where
  "IsLockedByCurrentThread a f s \<longleftrightarrow> m_words s a AND NOT HasChildWaitersBit = handle_tag s f"

definition cs_step :: "u64 \<Rightarrow> fiber_ptr \<Rightarrow> cs_pc \<Rightarrow> user_scheduler \<Rightarrow> (cs_pc \<times> user_scheduler) run" where
  "cs_step a f pc s =
     (case pc of
        Idle \<Rightarrow> ret (Trying, s)
      | Trying \<Rightarrow> ret (Enter_try a f s)
      | Setting handle \<Rightarrow> ret (Enter_set_bit a handle s)
      | Arbitrating handle \<Rightarrow> call (Enter_arbitrate a f handle s) ret
      | Blocked \<Rightarrow> ret (abort_unless (resumed_result ResultSuccess f s) Rechecking, s)
      | Rechecking \<Rightarrow> ret (Enter_recheck a f s, s)
      | Holding \<Rightarrow> ret (Leave_try a f s)
      | Unlocking \<Rightarrow> Leave_arbitrate a f s
      | Aborted \<Rightarrow> ret (Aborted, s))"

section \<open>The condition variable\<close>

text \<open>\<open>RESULT_ABORT_UNLESS\<close> of an answer: at once when the call returned, after the fiber was resumed otherwise.\<close>

definition abort_unless_success :: "outcome \<times> user_scheduler \<Rightarrow> (outcome \<times> user_scheduler) run" where
  "abort_unless_success = (\<lambda>(answer, s).
     case answer of
       Returned r \<Rightarrow> call (vp_assert (r = ResultSuccess)) (\<lambda>_. ret (answer, s))
     | Switched r \<Rightarrow> ret (answer, s))"

definition cv_Wait :: "fiber_ptr \<Rightarrow> u64 \<Rightarrow> u64 \<Rightarrow> user_scheduler \<Rightarrow> (outcome \<times> user_scheduler) run" where
  "cv_Wait f cv cs_word s =
     call (vp_assert (handle_tag s f = m_words s cs_word AND NOT HasChildWaitersBit)) (\<lambda>_.
     bind_run (WaitKeyImpl f cs_word cv (handle_tag s f) (- 1) s) abort_unless_success)"

definition cv_Wait_resumed :: "fiber_ptr \<Rightarrow> ukern_result \<Rightarrow> user_scheduler \<Rightarrow> unit result" where
  "cv_Wait_resumed f r s = vp_assert (resumed_result r f s = ResultSuccess)"

definition cv_TimedWait ::
  "int \<Rightarrow> int \<Rightarrow> fiber_ptr \<Rightarrow> u64 \<Rightarrow> u64 \<Rightarrow> int \<Rightarrow> user_scheduler \<Rightarrow> (outcome \<times> user_scheduler) run" where
  "cv_TimedWait frequency now f cv cs_word timeout_ns s =
     call (vp_assert (handle_tag s f = m_words s cs_word AND NOT HasChildWaitersBit)) (\<lambda>_.
     WaitKeyImpl f cs_word cv (handle_tag s f) (word_of_int (GetAbsoluteTimeToWakeup frequency now timeout_ns)) s)"

definition cv_Signal :: "u64 \<Rightarrow> u32 \<Rightarrow> user_scheduler \<Rightarrow> user_scheduler run" where
  "cv_Signal cv signal_count s =
     (if m_words s cv = 0 then ret s else bind_run (SignalKeyImpl cv signal_count s) (\<lambda>(_, s). ret s))"

definition cv_Broadcast :: "u64 \<Rightarrow> user_scheduler \<Rightarrow> user_scheduler run" where
  "cv_Broadcast cv s =
     (if m_words s cv = 0 then ret s else bind_run (SignalKeyImpl cv (- 1) s) (\<lambda>(_, s). ret s))"

section \<open>The reachable states\<close>

text \<open>
  A fiber steps while it runs.  \<open>yield\<close> is \<open>SleepThreadImpl(0)\<close> up to the end of \<open>Dispatch\<close>, \<open>choose\<close> a
  round of a core of the scheduler.
\<close>

inductive cs_reach :: "fiber_ptr set \<Rightarrow> u64 \<Rightarrow> user_scheduler \<Rightarrow> user_scheduler \<Rightarrow> (fiber_ptr \<Rightarrow> cs_pc) \<Rightarrow> bool"
  for L a s0 where
  start: "cs_reach L a s0 s0 (\<lambda>_. Idle)"
| step: "cs_reach L a s0 s pc \<Longrightarrow> f \<in> L \<Longrightarrow> state_of s f = FiberState_Running \<Longrightarrow> cs_step a f (pc f) s = ret (p, s') \<Longrightarrow>
    cs_reach L a s0 s' (pc(f := p))"
| attempt: "cs_reach L a s0 s pc \<Longrightarrow> f \<in> L \<Longrightarrow> state_of s f = FiberState_Running \<Longrightarrow> pc f = Idle \<Longrightarrow>
    TryEnter a f s = (b, s') \<Longrightarrow> cs_reach L a s0 s' (pc(f := if b then Holding else Idle))"
| yield: "cs_reach L a s0 s pc \<Longrightarrow> f \<in> L \<Longrightarrow> state_of s f = FiberState_Running \<Longrightarrow>
    Dispatch_end f core s = Inr s' \<Longrightarrow> cs_reach L a s0 s' pc"
| choose: "cs_reach L a s0 s pc \<Longrightarrow> unat core < cMaxCoreCount \<Longrightarrow> choose_fiber core s = Inr (f, s') \<Longrightarrow> f \<noteq> 0 \<Longrightarrow>
    Dispatch_begin f core s' = Inr s'' \<Longrightarrow> cs_reach L a s0 s'' pc"
| rest: "cs_reach L a s0 s pc \<Longrightarrow> unat core < cMaxCoreCount \<Longrightarrow> choose_fiber core s = Inr (0, s') \<Longrightarrow> cs_reach L a s0 s' pc"

definition lock_handles :: "fiber_ptr set \<Rightarrow> (fiber_ptr \<Rightarrow> u32) \<Rightarrow> bool" where
  "lock_handles L h \<longleftrightarrow> inj_on h L \<and> (\<forall>f\<in>L. h f \<noteq> 0 \<and> h f AND HasChildWaitersBit = 0)"

definition cs_inv :: "fiber_ptr set \<Rightarrow> u64 \<Rightarrow> (fiber_ptr \<Rightarrow> u32) \<Rightarrow> user_scheduler \<Rightarrow> (fiber_ptr \<Rightarrow> cs_pc) \<Rightarrow> bool" where
  "cs_inv L a h s pc \<longleftrightarrow> (\<exists>cs. sched_inv L [] cs s \<and>
     (\<forall>f\<in>waiting_in [] cs. lock_address (m_fibers s f) = a \<and> wait_tag (m_fibers s f) = h f)) \<and>
     (\<forall>f. handle_tag s f = h f) \<and> (\<forall>f\<in>L. small_mask (core_mask (m_fibers s f))) \<and>
     (\<forall>f\<in>L. pc f \<in> {Holding, Unlocking} \<longrightarrow> m_words s a AND NOT HasChildWaitersBit = h f)"

section \<open>The invariant holds\<close>

lemma mask_or: "(w OR HasChildWaitersBit) AND NOT HasChildWaitersBit = w AND NOT HasChildWaitersBit"
  by (rule bit_word_eqI) (auto simp: bit_simps)

lemma clean_tag: "h AND HasChildWaitersBit = 0 \<Longrightarrow> h AND NOT HasChildWaitersBit = h"
proof -
  assume h: "h AND HasChildWaitersBit = 0"
  have "h = (h AND HasChildWaitersBit) OR (h AND NOT HasChildWaitersBit)" by (rule bit_word_eqI) (auto simp: bit_simps)
  then show ?thesis using h by simp
qed

lemma AddTo_words: "sched_inv L ps cs s \<Longrightarrow> f \<in> L \<Longrightarrow> off_queues (state_of s f) \<Longrightarrow> AddToSchedulerUnsafe f s = Inr s' \<Longrightarrow>
    sched_inv L ps cs s' \<and> m_words s' = m_words s \<and> (\<forall>g. g \<noteq> f \<longrightarrow> m_fibers s' g = m_fibers s g) \<and>
    (\<exists>x. x \<noteq> FiberState_Waiting \<and> m_fibers s' f = (m_fibers s f)\<lparr>fiber_state := x\<rparr>)"
  using inv_AddTo [of L ps cs s f] by fastforce

lemma waiting_not: "sched_inv L ps cs s \<Longrightarrow> state_of s f \<noteq> FiberState_Waiting \<Longrightarrow> f \<notin> waiting_in ps cs"
  using sched_invD(5) by (fastforce simp: fibers_in_def)

text \<open>Changes that leave the lock word, the waiters and what they asked for alone.\<close>

lemma cs_inv_frame:
  assumes inv: "cs_inv L a h s pc" and cs: "sched_inv L [] cs s" "\<forall>f\<in>waiting_in [] cs. lock_address (m_fibers s f) = a \<and> wait_tag (m_fibers s f) = h f"
    and s': "sched_inv L [] cs s'" "m_words s' a = m_words s a"
    and same: "\<forall>f. \<exists>x c. m_fibers s' f = (m_fibers s f)\<lparr>fiber_state := x, current_core := c\<rparr>"
  shows "cs_inv L a h s' pc"
proof -
  have "lock_address (m_fibers s' f) = lock_address (m_fibers s f) \<and> wait_tag (m_fibers s' f) = wait_tag (m_fibers s f) \<and>
      handle_tag s' f = handle_tag s f \<and> core_mask (m_fibers s' f) = core_mask (m_fibers s f)" for f
    using spec [OF same, of f] by auto
  then show ?thesis using inv cs s' unfolding cs_inv_def by metis
qed

lemma spread_same: "spread core s s' \<Longrightarrow> \<exists>x c. m_fibers s' f = (m_fibers s f)\<lparr>fiber_state := x, current_core := c\<rparr>"
proof -
  assume "spread core s s'"
  then consider "m_fibers s' f = m_fibers s f" | c where "m_fibers s' f = moved c (m_fibers s f)" unfolding spread_def by blast
  then show ?thesis
  proof cases
    case 1
    then have "m_fibers s' f = (m_fibers s f)\<lparr>fiber_state := state_of s f, current_core := current_core (m_fibers s f)\<rparr>" by simp
    then show ?thesis by blast
  qed blast
qed

lemma cs_inv_choose:
  assumes inv: "cs_inv L a h s pc" and core: "unat core < cMaxCoreCount" and c: "choose_fiber core s = Inr (f, s')"
  shows "f = 0 \<Longrightarrow> cs_inv L a h s' pc"
    and "f \<noteq> 0 \<Longrightarrow> Dispatch_begin f core s' = Inr s'' \<Longrightarrow> cs_inv L a h s'' pc"
proof -
  obtain cs where cs: "sched_inv L [] cs s" "\<forall>f\<in>waiting_in [] cs. lock_address (m_fibers s f) = a \<and> wait_tag (m_fibers s f) = h f"
    and mask: "\<forall>f\<in>L. small_mask (core_mask (m_fibers s f))" using inv by (auto simp: cs_inv_def)
  have res: "spread core s s' \<and> m_words s' = m_words s \<and> (if f = 0 then sched_inv L [] cs s' else sched_inv L [] cs (dispatched f core s'))"
  proof (cases "frb_items (m_scheduler_local_ring_table s ! unat core)")
    case Nil
    then show ?thesis using choose_fiber_spec [OF cs(1) mask core] take_from_queue_spec [OF cs(1) mask, of core] c
      by (auto simp: front_taken_def split: if_splits)
  next
    case (Cons g gs)
    then show ?thesis using choose_fiber_spec [OF cs(1) mask core] c by (auto simp: spread_refl)
  qed
  then have w: "m_words s' = m_words s" by blast
  note same = spread_same [OF conjunct1 [OF res]]
  show "f = 0 \<Longrightarrow> cs_inv L a h s' pc"
    using res w same by (intro cs_inv_frame [OF inv cs]) auto
  show "cs_inv L a h s'' pc" if "f \<noteq> 0" "Dispatch_begin f core s' = Inr s''"
  proof -
    have s'': "s'' = dispatched f core s'" using that(2) by (simp add: Dispatch_begin_spec split: if_splits)
    have "\<exists>x c. m_fibers s'' g = (m_fibers s g)\<lparr>fiber_state := x, current_core := c\<rparr>" for g
    proof (cases "g = f")
      case True
      obtain x c where "m_fibers s' g = (m_fibers s g)\<lparr>fiber_state := x, current_core := c\<rparr>" using same by blast
      then have "m_fibers s'' g = (m_fibers s g)\<lparr>fiber_state := FiberState_Running, current_core := core\<rparr>"
        using True s'' by (simp add: dispatched_fibers)
      then show ?thesis by blast
    qed (use same s'' in \<open>simp add: dispatched_fibers\<close>)
    then show ?thesis using res w that(1) s'' by (intro cs_inv_frame [OF inv cs]) (auto simp: dispatched_def)
  qed
qed

lemma cs_inv_yield:
  assumes inv: "cs_inv L a h s pc" and f: "f \<in> L" "state_of s f = FiberState_Running" and d: "Dispatch_end f core s = Inr s'"
  shows "cs_inv L a h s' pc"
proof -
  obtain cs where cs: "sched_inv L [] cs s" "\<forall>f\<in>waiting_in [] cs. lock_address (m_fibers s f) = a \<and> wait_tag (m_fibers s f) = h f"
    using inv by (auto simp: cs_inv_def)
  have "AddToSchedulerUnsafe f s = Inr s'" using d f(2) by (simp add: Dispatch_end_def bind_vp_assert split: if_splits)
  moreover have "off_queues (state_of s f)" using f(2) by (simp add: off_queues_def)
  ultimately obtain x where s': "sched_inv L [] cs s'" "m_words s' = m_words s" "\<forall>g. g \<noteq> f \<longrightarrow> m_fibers s' g = m_fibers s g"
    "m_fibers s' f = (m_fibers s f)\<lparr>fiber_state := x\<rparr>" using AddTo_words [OF cs(1) f(1)] by blast
  have "\<exists>x c. m_fibers s' g = (m_fibers s g)\<lparr>fiber_state := x, current_core := c\<rparr>" for g
  proof (cases "g = f")
    case True
    then have "m_fibers s' g = (m_fibers s g)\<lparr>fiber_state := x, current_core := current_core (m_fibers s g)\<rparr>" using s'(4) by simp
    then show ?thesis by blast
  next
    case False
    then have "m_fibers s' g = (m_fibers s g)\<lparr>fiber_state := state_of s g, current_core := current_core (m_fibers s g)\<rparr>" using s'(3) by simp
    then show ?thesis by blast
  qed
  then show ?thesis using s'(1,2) by (intro cs_inv_frame [OF inv cs]) auto
qed

text \<open>Changes of the lock word and of a program counter alone.\<close>

lemma cs_inv_word:
  assumes inv: "cs_inv L a h s pc"
    and owner: "\<And>g. g \<in> L \<Longrightarrow> (pc(f := p)) g \<in> {Holding, Unlocking} \<Longrightarrow> w AND NOT HasChildWaitersBit = h g"
  shows "cs_inv L a h (set_word a w s) (pc(f := p))"
proof -
  obtain cs where cs: "sched_inv L [] cs s" "\<forall>f\<in>waiting_in [] cs. lock_address (m_fibers s f) = a \<and> wait_tag (m_fibers s f) = h f"
    using inv by (auto simp: cs_inv_def)
  have "sched_inv L [] cs (set_word a w s)" unfolding set_word_def by (rule inv_words [OF cs(1)])
  then show ?thesis using inv cs(2) owner by (auto simp: cs_inv_def set_word_def)
qed

lemma set_word_same: "set_word a (m_words s a) s = s"
  by (simp add: set_word_def)

lemma cs_inv_pc:
  assumes "cs_inv L a h s pc" and "p \<in> {Holding, Unlocking} \<Longrightarrow> f \<in> L \<Longrightarrow> m_words s a AND NOT HasChildWaitersBit = h f"
  shows "cs_inv L a h s (pc(f := p))"
  using cs_inv_word [OF assms(1), of f p "m_words s a"] assms unfolding set_word_same cs_inv_def by (auto split: if_splits)

lemma cs_owner: "cs_inv L a h s pc \<Longrightarrow> g \<in> L \<Longrightarrow> pc g \<in> {Holding, Unlocking} \<Longrightarrow> m_words s a AND NOT HasChildWaitersBit = h g"
  unfolding cs_inv_def by blast

lemma cs_one_owner:
  "cs_inv L a h s pc \<Longrightarrow> lock_handles L h \<Longrightarrow> f \<in> L \<Longrightarrow> g \<in> L \<Longrightarrow> m_words s a AND NOT HasChildWaitersBit = h f \<Longrightarrow>
    pc g \<in> {Holding, Unlocking} \<Longrightarrow> g = f"
  using cs_owner [of L a h s pc g] by (auto simp: lock_handles_def inj_on_def)

lemma cs_inv_TryEnter:
  assumes inv: "cs_inv L a h s pc" and h: "lock_handles L h" and f: "f \<in> L" and t: "TryEnter a f s = (b, s')" and p: "p \<notin> {Holding, Unlocking}"
  shows "cs_inv L a h s' (pc(f := if b then Holding else p))"
proof (cases b)
  case True
  have tag: "handle_tag s f = h f" "h f AND HasChildWaitersBit = 0" using inv h f by (auto simp: cs_inv_def lock_handles_def)
  have w: "m_words s a = 0" "s' = set_word a (h f) s"
    using t True tag by (auto simp: TryEnter_def compare_exchange_def Let_def split: if_splits)
  have "pc g \<notin> {Holding, Unlocking}" if "g \<in> L" for g
    using cs_owner [OF inv that] w(1) h that by (auto simp: lock_handles_def)
  then have "(h f) AND NOT HasChildWaitersBit = h g" if "g \<in> L" "(pc(f := Holding)) g \<in> {Holding, Unlocking}" for g
    using that clean_tag [OF tag(2)] by (cases "g = f") auto
  from cs_inv_word [OF inv this] show ?thesis using True w(2) by simp
next
  case False
  then have "s' = s" using t by (auto simp: TryEnter_def compare_exchange_def Let_def set_word_same split: if_splits)
  then show ?thesis using cs_inv_pc [OF inv, of p f] p False by auto
qed

lemma unlock_cases:
  assumes inv: "sched_inv L ps cs s" and f: "state_of s f = FiberState_Running" and a: "a \<noteq> 0"
    and adr: "\<forall>q\<in>waiting_in ps cs. lock_address (m_fibers s q) = a"
    and u: "ArbitrateUnlockImpl f a s = ret (ans, s')"
  shows "s' = s \<and> (\<exists>r. ans = Returned r \<and> r \<noteq> ResultSuccess) \<or>
    (\<exists>q. cs f = [q] \<and> ans = Returned ResultSuccess \<and> sched_inv L ps (cs(f := [])) s' \<and>
      m_words s a = handle_tag s f OR HasChildWaitersBit \<and> m_words s' = (m_words s)(a := wait_tag (m_fibers s q)) \<and>
      m_fibers s' = (m_fibers s)(q := lock_given (m_fibers s q)))"
proof -
  have own: "f \<notin> set (cs f)" using not_own_child [OF inv] f by simp
  have ad: "lock_address (m_fibers s q) = a" if "q \<in> set (cs f)" for q using adr that by (auto simp: waiting_in_def)
  note empty = no_children [OF sched_invD(4) [OF inv], of f]
  consider "cs f = []" | q where "cs f = [q]" | q x xs where "cs f = q # x # xs" by (metis list.exhaust)
  then show ?thesis
  proof cases
    case 1
    then show ?thesis using u a empty by (auto simp: ArbitrateUnlockImpl_def)
  next
    case (2 q)
    then have "lock_address (m_fibers s q) = a" using ad by simp
    then show ?thesis using u a empty 2 ReleaseLock_one [OF inv 2] by (auto simp: ArbitrateUnlockImpl_def split: if_splits)
  next
    case (3 q x xs)
    then have "lock_address (m_fibers s q) = a" "q \<noteq> f" using ad own by auto
    then show ?thesis using u a empty 3 ReleaseLock_more [OF inv 3] by (auto simp: ArbitrateUnlockImpl_def split: if_splits)
  qed
qed

lemma cs_inv_step:
  assumes inv: "cs_inv L a h s pc" and h: "lock_handles L h" and a: "a \<noteq> 0" and f: "f \<in> L" "state_of s f = FiberState_Running"
    and st: "cs_step a f (pc f) s = ret (p, s')"
  shows "cs_inv L a h s' (pc(f := p))"
proof -
  obtain cs where cs: "sched_inv L [] cs s" "\<forall>f\<in>waiting_in [] cs. lock_address (m_fibers s f) = a \<and> wait_tag (m_fibers s f) = h f"
    using inv by (auto simp: cs_inv_def)
  have tag: "handle_tag s g = h g" for g using inv by (simp add: cs_inv_def)
  have off: "off_queues (state_of s f)" using f(2) by (simp add: off_queues_def)
  show ?thesis
  proof (cases "pc f")
    case Idle
    then show ?thesis using st cs_inv_pc [OF inv, of p f] by (auto simp: cs_step_def)
  next
    case Trying
    obtain b t where t: "TryEnter a f s = (b, t)" by fastforce
    define q where "q = (if drop_bit 0x1e (m_words s a) AND 1 = 0 then Setting (m_words s a) else Arbitrating (m_words s a))"
    have "p = (if b then Holding else q)" "s' = t"
      using st Trying t by (auto simp: cs_step_def Enter_try_def Let_def q_def)
    moreover have "q \<notin> {Holding, Unlocking}" by (simp add: q_def)
    ultimately show ?thesis using cs_inv_TryEnter [OF inv h f(1) t] by simp
  next
    case (Setting x)
    then have "s' = set_word a (m_words s a OR HasChildWaitersBit) s" "p \<notin> {Holding, Unlocking}"
      using st by (auto simp: cs_step_def Enter_set_bit_def Let_def split: if_splits)
    moreover have "(m_words s a OR HasChildWaitersBit) AND NOT HasChildWaitersBit = h g"
      if "g \<in> L" "(pc(f := p)) g \<in> {Holding, Unlocking}" for g
      using that cs_owner [OF inv that(1)] \<open>p \<notin> {Holding, Unlocking}\<close> by (auto simp: mask_or split: if_splits)
    ultimately show ?thesis using cs_inv_word [OF inv, of f p] by simp
  next
    case (Arbitrating x)
    obtain ans t where t: "ArbitrateLockImpl f (x AND NOT HasChildWaitersBit) a (handle_tag s f) s = Inr (ans, t)"
      "(case ans of Returned r \<Rightarrow> Inr (abort_unless r Rechecking, t)
        | Switched r \<Rightarrow> bind_result (Dispatch_end f (current_core (m_fibers t f)) t) (\<lambda>s. Inr (Blocked, s))) = Inr (p, s')"
      using st Arbitrating by (fastforce simp: cs_step_def Enter_arbitrate_def call_ret_iff bind_result_Inr_iff)
    then have t2: "case ans of Returned r \<Rightarrow> p = abort_unless r Rechecking \<and> s' = t
       | Switched r \<Rightarrow> p = Blocked \<and> Dispatch_end f (current_core (m_fibers t f)) t = Inr s'"
      by (auto simp: bind_result_Inr_iff split: outcome.splits)
    note t = t(1) t2
    have pn: "p \<notin> {Holding, Unlocking}" using t(2) by (auto simp: abort_unless_def split: outcome.splits if_splits)
    from inv_ArbitrateLock [OF cs(1) f(1) off t(1)] show ?thesis
    proof
      assume "(\<exists>r. ans = Returned r \<and> r \<noteq> ResultSuccess) \<and> t = s"
      then show ?thesis using t(2) cs_inv_pc [OF inv, of p f] pn by auto
    next
      assume w: "ans = Switched ResultSuccess \<and> m_words t = m_words s \<and>
        m_fibers t = (m_fibers s)(f := (m_fibers s f)\<lparr>waitable_object := Some LockArbiter, lock_address := a,
          wait_tag := handle_tag s f, fiber_state := FiberState_Waiting, timeout := 0x7fffffffffffffff\<rparr>) \<and>
        (\<exists>p. p \<noteq> f \<and> sched_inv L [] (cs(p := cs p @ [f])) t)"
      then obtain o' where o': "sched_inv L [] (cs(o' := cs o' @ [f])) t" by blast
      have "s' = t" using t(2) w by (simp add: Dispatch_end_def)
      moreover have "lock_address (m_fibers t g) = a \<and> wait_tag (m_fibers t g) = h g"
        if "g \<in> waiting_in [] (cs(o' := cs o' @ [f]))" for g
        using that w cs(2) tag by (auto simp: waiting_in_push)
      moreover have "\<forall>g. handle_tag t g = h g" "\<forall>g\<in>L. small_mask (core_mask (m_fibers t g))"
        using w tag inv by (auto simp: cs_inv_def)
      moreover have "\<forall>g\<in>L. (pc(f := p)) g \<in> {Holding, Unlocking} \<longrightarrow> m_words t a AND NOT HasChildWaitersBit = h g"
        using w pn cs_owner [OF inv] by (auto split: if_splits)
      ultimately show ?thesis using o' unfolding cs_inv_def by blast
    qed
  next
    case Blocked
    then show ?thesis using st cs_inv_pc [OF inv, of p f] by (auto simp: cs_step_def abort_unless_def split: if_splits)
  next
    case Rechecking
    then show ?thesis using st cs_inv_pc [OF inv, of p f] tag by (auto simp: cs_step_def Enter_recheck_def split: if_splits)
  next
    case Holding
    have own: "m_words s a AND NOT HasChildWaitersBit = h f" using cs_owner [OF inv f(1)] Holding by simp
    note one = cs_one_owner [OF inv h f(1) _ own]
    show ?thesis
    proof (cases "m_words s a = h f")
      case True
      then have s': "p = Idle" "s' = set_word a 0 s" using st Holding tag by (auto simp: cs_step_def Leave_try_def compare_exchange_def Let_def)
      have "(pc(f := Idle)) g \<notin> {Holding, Unlocking}" if "g \<in> L" for g using one [OF that] by (cases "g = f") auto
      then show ?thesis unfolding s' by (intro cs_inv_word [OF inv]) blast
    next
      case False
      then have "p = Unlocking" "s' = s" using st Holding tag
        by (auto simp: cs_step_def Leave_try_def compare_exchange_def Let_def set_word_same)
      then show ?thesis using cs_inv_pc [OF inv, of p f] own by simp
    qed
  next
    case Unlocking
    have own: "m_words s a AND NOT HasChildWaitersBit = h f" using cs_owner [OF inv f(1)] Unlocking by simp
    note one = cs_one_owner [OF inv h f(1) _ own]
    obtain ans t where t: "ArbitrateUnlockImpl f a s = ret (ans, t)"
      "(case ans of Returned r \<Rightarrow> ret (abort_unless r Idle, t) | Switched r \<Rightarrow> ret (abort_unless r Idle, t)) = ret (p, s')"
      using st Unlocking by (fastforce simp: cs_step_def Leave_arbitrate_def bind_run_ret_iff)
    then have u: "ArbitrateUnlockImpl f a s = ret (ans, s')" "p = (case ans of Returned r \<Rightarrow> abort_unless r Idle | Switched r \<Rightarrow> abort_unless r Idle)"
      by (auto split: outcome.splits)
    then have pn: "p \<notin> {Holding, Unlocking}" by (auto simp: abort_unless_def split: outcome.splits if_splits)
    have "\<forall>q\<in>waiting_in [] cs. lock_address (m_fibers s q) = a" using cs(2) by blast
    from unlock_cases [OF cs(1) f(2) a this u(1)] show ?thesis
    proof
      assume "s' = s \<and> (\<exists>r. ans = Returned r \<and> r \<noteq> ResultSuccess)"
      then show ?thesis using cs_inv_pc [OF inv, of p f] pn by auto
    next
      assume "\<exists>q. cs f = [q] \<and> ans = Returned ResultSuccess \<and> sched_inv L [] (cs(f := [])) s' \<and>
        m_words s a = handle_tag s f OR HasChildWaitersBit \<and> m_words s' = (m_words s)(a := wait_tag (m_fibers s q)) \<and>
        m_fibers s' = (m_fibers s)(q := lock_given (m_fibers s q))"
      then obtain q where q: "cs f = [q]" "sched_inv L [] (cs(f := [])) s'" "m_fibers s' = (m_fibers s)(q := lock_given (m_fibers s q))" by blast
      have sub: "waiting_in [] (cs(f := [])) \<subseteq> waiting_in [] cs" by (auto simp: waiting_in_def split: if_splits)
      have "q \<notin> waiting_in [] (cs(f := []))"
        using q(3) by (intro waiting_not [OF q(2)]) (simp add: lock_given_def ended_def)
      then have "lock_address (m_fibers s' g) = a \<and> wait_tag (m_fibers s' g) = h g" if "g \<in> waiting_in [] (cs(f := []))" for g
        using that sub cs(2) q(3) by auto
      moreover have "\<forall>g. handle_tag s' g = h g" "\<forall>g\<in>L. small_mask (core_mask (m_fibers s' g))"
        using q(3) tag inv by (auto simp: cs_inv_def lock_given_def ended_def)
      moreover have "\<forall>g\<in>L. (pc(f := p)) g \<in> {Holding, Unlocking} \<longrightarrow> m_words s' a AND NOT HasChildWaitersBit = h g"
      proof
        fix g assume "g \<in> L"
        then show "(pc(f := p)) g \<in> {Holding, Unlocking} \<longrightarrow> m_words s' a AND NOT HasChildWaitersBit = h g"
          using pn one [of g] by (cases "g = f") auto
      qed
      ultimately show ?thesis using q(2) unfolding cs_inv_def by blast
    qed
  next
    case Aborted
    then show ?thesis using st cs_inv_pc [OF inv, of p f] by (auto simp: cs_step_def)
  qed
qed

lemma cs_reach_inv:
  assumes "cs_reach L a s0 s pc" and a: "a \<noteq> 0" and h: "lock_handles L h"
    and start: "sched_inv L [] (\<lambda>_. []) s0" "\<forall>f. handle_tag s0 f = h f" "\<forall>f\<in>L. small_mask (core_mask (m_fibers s0 f))"
  shows "cs_inv L a h s pc"
  using assms(1)
proof (induction rule: cs_reach.induct)
  case start
  have "waiting_in [] (\<lambda>_. []) = {}" by (simp add: waiting_in_def)
  then show ?case using assms(4-6) unfolding cs_inv_def by auto
next
  case (step s pc f p s')
  then show ?case by (intro cs_inv_step [OF step.IH h a])
next
  case (attempt s pc f b s')
  have "Idle \<notin> {Holding, Unlocking}" by simp
  from cs_inv_TryEnter [OF attempt.IH h attempt.hyps(2,5) this] show ?case .
next
  case (yield s pc f core s')
  then show ?case by (intro cs_inv_yield [OF yield.IH])
next
  case (choose s pc core f s' s'')
  then show ?case using cs_inv_choose(2) by blast
next
  case (rest s pc core s')
  then show ?case using cs_inv_choose(1) [OF rest.IH rest.hyps(2,3)] by simp
qed

section \<open>Properties\<close>

text \<open>
  C8: Mutual exclusion.  In every state that any number of fibers reach on one critical section, with any
  interleaving of their \<open>Enter\<close>, \<open>TryEnter\<close> and \<open>Leave\<close> and any scheduling, at most one fiber is between its
  return from \<open>Enter\<close> and the end of its \<open>Leave\<close>, and the lock word names it.
\<close>

theorem critical_section_exclusion:
  assumes "cs_reach L a s0 s pc" and "a \<noteq> 0" and "sched_inv L [] (\<lambda>_. []) s0"
    and "lock_handles L (handle_tag s0)" and "\<forall>f\<in>L. small_mask (core_mask (m_fibers s0 f))"
    and "f \<in> L" and "g \<in> L" and "pc f \<in> {Holding, Unlocking}" and "pc g \<in> {Holding, Unlocking}"
  shows "f = g \<and> IsLockedByCurrentThread a f s"
proof -
  have inv: "cs_inv L a (handle_tag s0) s pc" using cs_reach_inv [OF assms(1,2,4,3) _ assms(5)] by simp
  have tag: "handle_tag s f = handle_tag s0 f" using inv by (simp add: cs_inv_def)
  have own: "m_words s a AND NOT HasChildWaitersBit = handle_tag s0 f" by (rule cs_owner [OF inv assms(6,8)])
  then show ?thesis using cs_one_owner [OF inv assms(4,6,7) own assms(9)] tag by (simp add: IsLockedByCurrentThread_def)
qed

text \<open>Three fibers with handles of their own.\<close>

definition demo_named :: user_scheduler where
  "demo_named = (UserScheduler_construct 0x1000 (\<lambda>_. 0))\<lparr>
     m_fibers := \<lambda>f. (demo_fibers f)\<lparr>ukern_fiber_handle := if f = 1 then 1 else if f = 2 then 2 else 3\<rparr>\<rparr>"

lemma demo_named_inv: "sched_inv {1, 2} [] (\<lambda>_. []) demo_named"
  unfolding demo_named_def by (intro inv_construct) (auto simp: demo_fibers_def off_queues_def)

lemma demo_named_simps: "state_of demo_named f = FiberState_Running" "m_words demo_named a = 0"
  "handle_tag demo_named f = (if f = 1 then 1 else if f = 2 then 2 else 3)" "core_mask (m_fibers demo_named f) = 1"
  by (simp_all add: demo_named_def demo_fibers_def UserScheduler_construct_def)

lemma demo_named_handles: "lock_handles {1, 2} (handle_tag demo_named)"
  by (simp add: lock_handles_def demo_named_simps HasChildWaitersBit_def)

lemma demo_entered: "cs_reach {1, 2} 8 demo_named (set_word 8 1 demo_named) ((\<lambda>_. Idle)(1 := Holding))"
proof -
  have "TryEnter 8 1 demo_named = (True, set_word 8 1 demo_named)"
    by (simp add: TryEnter_def compare_exchange_def demo_named_simps)
  from cs_reach.attempt [OF cs_reach.start _ _ _ this, of "{1, 2}"] show ?thesis by (simp add: demo_named_simps)
qed

lemma critical_section_exclusion_witness:
  "cs_reach {1, 2} 8 demo_named (set_word 8 1 demo_named) ((\<lambda>_. Idle)(1 := Holding)) \<and>
   IsLockedByCurrentThread 8 1 (set_word 8 1 demo_named)"
proof -
  have "(8 :: u64) \<noteq> 0" by simp
  note ex = critical_section_exclusion [OF demo_entered this demo_named_inv demo_named_handles, of 1 1]
  have "\<forall>f\<in>{1, 2}. small_mask (core_mask (m_fibers demo_named f))" by (simp add: demo_named_simps small_mask_def)
  then show ?thesis using ex demo_entered by simp
qed

text \<open>
  C38: \<open>Leave\<close> and \<open>Enter\<close> race: of two fibers, one enters and the other finds the word taken and has set the
  waiters bit when the first leaves.  Its exchange fails for the bit, no fiber waits for it yet, so
  \<open>ArbitrateUnlock\<close> refuses and the correct program aborts.
\<close>

theorem critical_section_aborts:
  "\<exists>s pc. cs_reach {1, 2} 8 demo_named s pc \<and> pc 1 = Aborted \<and> pc 2 = Arbitrating 1"
proof -
  let ?s1 = "set_word 8 1 demo_named" and ?s2 = "set_word 8 0x40000001 demo_named"
  note w = set_word_def demo_named_simps compare_exchange_def
  have r1: "cs_reach {1, 2} 8 demo_named ?s1 ((\<lambda>_. Idle)(1 := Holding, 2 := Trying))"
    by (rule cs_reach.step [OF demo_entered]) (simp_all add: cs_step_def w)
  have r2: "cs_reach {1, 2} 8 demo_named ?s1 ((\<lambda>_. Idle)(1 := Holding, 2 := Trying, 2 := Setting 1))"
    by (rule cs_reach.step [OF r1]) (simp_all add: cs_step_def Enter_try_def TryEnter_def w)
  have r3: "cs_reach {1, 2} 8 demo_named ?s2 ((\<lambda>_. Idle)(1 := Holding, 2 := Trying, 2 := Setting 1, 2 := Arbitrating 1))"
    by (rule cs_reach.step [OF r2]) (simp_all add: cs_step_def Enter_set_bit_def HasChildWaitersBit_def w)
  have r4: "cs_reach {1, 2} 8 demo_named ?s2 ((\<lambda>_. Idle)(1 := Holding, 2 := Trying, 2 := Setting 1, 2 := Arbitrating 1, 1 := Unlocking))"
    by (rule cs_reach.step [OF r3]) (simp_all add: cs_step_def Leave_try_def w)
  have "cs_step 8 1 Unlocking ?s2 = ret (Aborted, ?s2)"
    using no_children [OF sched_invD(4) [OF demo_named_inv], of 1]
    by (simp add: cs_step_def Leave_arbitrate_def ArbitrateUnlockImpl_def abort_unless_def w)
  then have "cs_reach {1, 2} 8 demo_named ?s2 ((\<lambda>_. Idle)(1 := Holding, 2 := Trying, 2 := Setting 1, 2 := Arbitrating 1, 1 := Unlocking, 1 := Aborted))"
    by (intro cs_reach.step [OF r4]) (simp_all add: w)
  then show ?thesis by fastforce
qed

end
