(* ===== verification/Red_Black_Tree.thy ===== *)
theory Red_Black_Tree
  imports Run
begin

text \<open>
  \<open>IntrusiveRedBlackTree\<close> (\<open>util_intrusiveslimredblacktree.hpp\<close>): the operations on the nodes of the store.
  A node is named by its address, null is \<open>None\<close>, and a read through a null pointer is the fault
  \<open>Null_Pointer\<close>.  The color is the low bit of \<open>m_parent_color\<close>, \<open>True\<close> is black.  The key type has the
  order of \<open>Compare\<close>; \<open>Collision\<close> is the default, a failed assertion.  The bits of a trace are the sides of a
  path, 1 for right, the last step first.
\<close>

section \<open>Nodes\<close>

record ('p, 'k) rb_node =
  m_left :: "'p option"
  m_right :: "'p option"
  m_parent :: "'p option"
  m_color :: bool
  m_key :: 'k

record ('p, 'k) rb_tree =
  m_nodes :: "'p \<Rightarrow> ('p, 'k) rb_node"
  m_root :: "'p option"

definition upd_node :: "'p \<Rightarrow> (('p, 'k) rb_node \<Rightarrow> ('p, 'k) rb_node) \<Rightarrow> ('p, 'k) rb_tree \<Rightarrow> ('p, 'k) rb_tree" where
  "upd_node p u T = T\<lparr>m_nodes := (m_nodes T)(p := u (m_nodes T p))\<rparr>"

definition deref :: "'p option \<Rightarrow> 'p result" where
  "deref p = (case p of None \<Rightarrow> Inl Null_Pointer | Some q \<Rightarrow> Inr q)"

text \<open>\<open>std::addressof(node->m_left)[side]\<close>\<close>

definition child :: "bool \<Rightarrow> ('p, 'k) rb_node \<Rightarrow> 'p option" where
  "child side n = (if side then m_right n else m_left n)"

definition set_child :: "bool \<Rightarrow> 'p option \<Rightarrow> ('p, 'k) rb_node \<Rightarrow> ('p, 'k) rb_node" where
  "set_child side q n = (if side then n\<lparr>m_right := q\<rparr> else n\<lparr>m_left := q\<rparr>)"

text \<open>\<open>if (p != nullptr) { p->m_parent_color.SetPointer(parent); }\<close>\<close>

definition set_parent :: "'p option \<Rightarrow> 'p option \<Rightarrow> ('p, 'k) rb_tree \<Rightarrow> ('p, 'k) rb_tree" where
  "set_parent parent p T = (case p of None \<Rightarrow> T | Some q \<Rightarrow> upd_node q (\<lambda>n. n\<lparr>m_parent := parent\<rparr>) T)"

definition paint :: "bool \<Rightarrow> 'p \<Rightarrow> ('p, 'k) rb_tree \<Rightarrow> ('p, 'k) rb_tree" where
  "paint c p T = upd_node p (\<lambda>n. n\<lparr>m_color := c\<rparr>) T"

definition is_red :: "('p, 'k) rb_tree \<Rightarrow> 'p option \<Rightarrow> bool" where
  "is_red T p = (case p of None \<Rightarrow> False | Some q \<Rightarrow> \<not> m_color (m_nodes T q))"

definition node_IsEnd :: "('p, 'k) rb_tree \<Rightarrow> 'p \<Rightarrow> bool" where
  "node_IsEnd T p \<longleftrightarrow> m_right (m_nodes T p) = None \<and>
     (case m_parent (m_nodes T p) of None \<Rightarrow> True | Some q \<Rightarrow> m_right (m_nodes T q) = Some p)"

definition node_IsLinked :: "('p, 'k) rb_tree \<Rightarrow> 'p \<Rightarrow> bool" where
  "node_IsLinked T p \<longleftrightarrow> m_parent (m_nodes T p) = None \<and> m_left (m_nodes T p) = None \<and> m_right (m_nodes T p) = None"

definition ForceUnlink :: "'p \<Rightarrow> ('p, 'k) rb_tree \<Rightarrow> ('p, 'k) rb_tree" where
  "ForceUnlink p T = upd_node p (\<lambda>n. n\<lparr>m_left := None, m_right := None, m_parent := None, m_color := False\<rparr>) T"

section \<open>Rotations\<close>

text \<open>The end of a rotation: \<open>up\<close> takes the place of \<open>rot_i\<close> under its parent.\<close>

definition replace_child :: "'p \<Rightarrow> 'p option \<Rightarrow> 'p \<Rightarrow> ('p, 'k) rb_tree \<Rightarrow> ('p, 'k) rb_tree" where
  "replace_child rot_i original_parent up T =
     (case original_parent of
        None \<Rightarrow> upd_node up (\<lambda>n. n\<lparr>m_parent := None\<rparr>) (T\<lparr>m_root := Some up\<rparr>)
      | Some p \<Rightarrow>
          upd_node up (\<lambda>n. n\<lparr>m_parent := Some p\<rparr>)
            (upd_node p (set_child (m_left (m_nodes T p) \<noteq> Some rot_i) (Some up)) T))"

definition RotateRight :: "'p \<Rightarrow> ('p, 'k) rb_tree \<Rightarrow> ('p \<times> ('p, 'k) rb_tree) result" where
  "RotateRight rot_i T =
     bind_result (deref (m_left (m_nodes T rot_i))) (\<lambda>original_left.
       let original_parent = m_parent (m_nodes T rot_i);
           original_left_right = m_right (m_nodes T original_left);
           T = upd_node rot_i (\<lambda>n. n\<lparr>m_left := original_left_right\<rparr>) T;
           T = set_parent (Some rot_i) original_left_right T;
           T = upd_node original_left (\<lambda>n. n\<lparr>m_right := Some rot_i\<rparr>) T;
           T = upd_node rot_i (\<lambda>n. n\<lparr>m_parent := Some original_left\<rparr>) T
       in Inr (original_left, replace_child rot_i original_parent original_left T))"

definition RotateLeft :: "'p \<Rightarrow> ('p, 'k) rb_tree \<Rightarrow> ('p \<times> ('p, 'k) rb_tree) result" where
  "RotateLeft rot_i T =
     bind_result (deref (m_right (m_nodes T rot_i))) (\<lambda>original_right.
       let original_parent = m_parent (m_nodes T rot_i);
           original_right_left = m_left (m_nodes T original_right);
           T = upd_node rot_i (\<lambda>n. n\<lparr>m_right := original_right_left\<rparr>) T;
           T = set_parent (Some rot_i) original_right_left T;
           T = upd_node original_right (\<lambda>n. n\<lparr>m_left := Some rot_i\<rparr>) T;
           T = upd_node rot_i (\<lambda>n. n\<lparr>m_parent := Some original_right\<rparr>) T
       in Inr (original_right, replace_child rot_i original_parent original_right T))"

section \<open>Insertion\<close>

definition insert_rotate :: "u64 \<Rightarrow> u64 \<Rightarrow> 'p \<Rightarrow> 'p \<Rightarrow> ('p, 'k) rb_tree \<Rightarrow> ('p, 'k) rb_tree result" where
  "insert_rotate side_iter next_side_iter parent_iter parent_parent_iter T =
     bind_result
       (if (next_side_iter AND 1 = 0) = (side_iter AND 1 = 0)
        then (if side_iter AND 1 = 0 then RotateRight parent_parent_iter T else RotateLeft parent_parent_iter T)
        else if side_iter AND 1 = 0
        then bind_result (RotateRight parent_iter T) (\<lambda>(original_side, T).
             bind_result (RotateLeft parent_parent_iter T) (\<lambda>(_, T). Inr (original_side, T)))
        else bind_result (RotateLeft parent_iter T) (\<lambda>(original_side, T).
             bind_result (RotateRight parent_parent_iter T) (\<lambda>(_, T). Inr (original_side, T))))
       (\<lambda>(original_side, T). Inr (paint False parent_parent_iter (paint True original_side T)))"

partial_function (option) insert_loop ::
  "u32 \<Rightarrow> u64 \<Rightarrow> u64 \<Rightarrow> 'p option \<Rightarrow> ('p, 'k) rb_tree \<Rightarrow> ('p, 'k) rb_tree run" where
  "insert_loop traversal_iter side_iter next_side_iter parent_iter T =
     (if \<not> is_red T parent_iter then ret T
      else
        let parent = the parent_iter;
            trace = drop_bit 1 next_side_iter;
            traversal_count = traversal_iter - 2
        in case deref (m_parent (m_nodes T parent)) of
             Inl e \<Rightarrow> Some (Inl e)
           | Inr parent_parent \<Rightarrow>
               let parent_parent_side = child (next_side_iter AND 1 = 0) (m_nodes T parent_parent)
               in if is_red T parent_parent_side
                  then
                    let T = paint False parent_parent (paint True (the parent_parent_side) (paint True parent T))
                    in if traversal_count < 2 then ret T
                       else insert_loop traversal_count trace (drop_bit 1 trace) (m_parent (m_nodes T parent_parent)) T
                  else Some (insert_rotate side_iter next_side_iter parent parent_parent T))"

declare insert_loop.simps [code]

definition InsertFixup :: "'p \<Rightarrow> u64 \<Rightarrow> u32 \<Rightarrow> ('p, 'k) rb_tree \<Rightarrow> ('p, 'k) rb_tree run" where
  "InsertFixup insert_node trace traversal_count T =
     (if traversal_count < 2 then ret T
      else insert_loop traversal_count trace (drop_bit 1 trace) (m_parent (m_nodes T insert_node)) T)"

text \<open>The search of \<open>InsertImpl\<close>: the last node, its side, the trace and the count, or \<open>None\<close> at an equal key.\<close>

partial_function (option) insert_search ::
  "'k :: linorder \<Rightarrow> 'p \<Rightarrow> u64 \<Rightarrow> u32 \<Rightarrow> ('p, 'k) rb_tree \<Rightarrow> ('p \<times> bool \<times> u64 \<times> u32) option option" where
  "insert_search key node_iter trace_mask traversal_count T =
     (if m_key (m_nodes T node_iter) = key then Some None
      else
        let side = m_key (m_nodes T node_iter) < key;
            trace_mask = push_bit 1 trace_mask OR (if side then 1 else 0);
            traversal_count = traversal_count + 1
        in case child side (m_nodes T node_iter) of
             None \<Rightarrow> Some (Some (node_iter, side, trace_mask, traversal_count))
           | Some next_node \<Rightarrow> insert_search key next_node trace_mask traversal_count T)"

declare insert_search.simps [code]

definition InsertImpl :: "'p \<Rightarrow> ('p, 'k :: linorder) rb_tree \<Rightarrow> ('p, 'k) rb_tree run" where
  "InsertImpl insert_node T =
     (case m_root T of
        None \<Rightarrow> ret (T\<lparr>m_root := Some insert_node\<rparr>)
      | Some root \<Rightarrow>
          case insert_search (m_key (m_nodes T insert_node)) root 0 0 T of
            None \<Rightarrow> None
          | Some None \<Rightarrow> Some (Inl Assert_Failed)
          | Some (Some (node_iter, side, trace_mask, traversal_count)) \<Rightarrow>
              call (vp_assert (traversal_count < 0x40)) (\<lambda>_.
                let T = upd_node node_iter (set_child side (Some insert_node)) T;
                    T = upd_node insert_node (\<lambda>n. n\<lparr>m_left := None, m_right := None, m_parent := Some node_iter, m_color := False\<rparr>) T
                in InsertFixup insert_node trace_mask traversal_count T))"

text \<open>\<open>m_root->m_parent_color.SetFlagsAndClearPointer(1)\<close>\<close>

definition paint_root :: "'p \<Rightarrow> ('p, 'k) rb_tree \<Rightarrow> ('p, 'k) rb_tree" where
  "paint_root root T = upd_node root (\<lambda>n. n\<lparr>m_parent := None, m_color := True\<rparr>) T"

definition tree_Insert :: "'p \<Rightarrow> ('p, 'k :: linorder) rb_tree \<Rightarrow> ('p, 'k) rb_tree run" where
  "tree_Insert insert_node T =
     bind_run (InsertImpl insert_node T) (\<lambda>T. call (deref (m_root T)) (\<lambda>root. ret (paint_root root T)))"

section \<open>Removal\<close>

partial_function (option) trace_parent ::
  "'p \<Rightarrow> 'p \<Rightarrow> u64 \<Rightarrow> u32 \<Rightarrow> ('p, 'k) rb_tree \<Rightarrow> (u64 \<times> u32) option" where
  "trace_parent parent_node node trace i T =
     (let trace = (if m_left (m_nodes T parent_node) \<noteq> Some node then trace OR push_bit (unat (i AND 0x3f)) 1 else trace);
          i = i + 1
      in case m_parent (m_nodes T parent_node) of
           None \<Rightarrow> Some (trace, i)
         | Some next_parent \<Rightarrow> trace_parent next_parent parent_node trace i T)"

declare trace_parent.simps [code]

text \<open>\<open>if (parent_node != nullptr) { trace = this->TraceParent(parent_node, node); }\<close>\<close>

definition TraceParent :: "'p option \<Rightarrow> 'p \<Rightarrow> ('p, 'k) rb_tree \<Rightarrow> (u64 \<times> u32) option" where
  "TraceParent parent node T = (case parent of None \<Rightarrow> Some (0, 0) | Some p \<Rightarrow> trace_parent p node 0 0 T)"

definition Transplant :: "'p \<Rightarrow> 'p option \<Rightarrow> ('p, 'k) rb_tree \<Rightarrow> ('p, 'k) rb_tree" where
  "Transplant replace_node move_node T =
     (case m_parent (m_nodes T replace_node) of
        None \<Rightarrow> T\<lparr>m_root := move_node\<rparr>
      | Some parent_node \<Rightarrow>
          if m_left (m_nodes T parent_node) = Some replace_node
          then upd_node parent_node (\<lambda>n. n\<lparr>m_left := move_node\<rparr>) T
          else upd_node parent_node (\<lambda>n. n\<lparr>m_right := move_node\<rparr>) T)"

partial_function (option) leftmost :: "'p \<Rightarrow> ('p, 'k) rb_tree \<Rightarrow> 'p option" where
  "leftmost node T = (case m_left (m_nodes T node) of None \<Rightarrow> Some node | Some next \<Rightarrow> leftmost next T)"

declare leftmost.simps [code]

text \<open>The node to go on from, the color that is gone, the trace, and the tree.\<close>

definition swap_one :: "'p \<Rightarrow> 'p option \<Rightarrow> ('p, 'k) rb_tree \<Rightarrow> ('p option \<times> bool \<times> u64 \<times> u32 \<times> ('p, 'k) rb_tree) option" where
  "swap_one remove_node moved_node T =
     (let parent_node = m_parent (m_nodes T remove_node); fixup_color = m_color (m_nodes T remove_node)
      in case TraceParent parent_node remove_node T of
           None \<Rightarrow> None
         | Some (trace, traversal_count) \<Rightarrow>
             Some (parent_node, fixup_color, trace, traversal_count,
               set_parent parent_node moved_node (Transplant remove_node moved_node T)))"

definition swap_next :: "'p \<Rightarrow> 'p \<Rightarrow> 'p \<Rightarrow> ('p, 'k) rb_tree \<Rightarrow> ('p option \<times> ('p, 'k) rb_tree) result" where
  "swap_next remove_node next_node remove_left T =
     (let parent_node = m_parent (m_nodes T remove_node);
          next_parent = m_parent (m_nodes T next_node);
          T = paint (m_color (m_nodes T remove_node)) next_node T
      in if m_right (m_nodes T remove_node) = Some next_node
         then
           let T = Transplant remove_node (Some next_node) T;
               T = upd_node next_node (\<lambda>n. n\<lparr>m_parent := parent_node\<rparr>) T;
               T = upd_node next_node (\<lambda>n. n\<lparr>m_left := Some remove_left\<rparr>) T;
               T = upd_node remove_left (\<lambda>n. n\<lparr>m_parent := Some next_node\<rparr>) T
           in Inr (Some next_node, T)
         else
           bind_result (deref next_parent) (\<lambda>np.
             let T = (case m_right (m_nodes T next_node) of
                        Some right_next_node \<Rightarrow>
                          upd_node right_next_node (\<lambda>n. n\<lparr>m_parent := Some np\<rparr>)
                            (upd_node np (set_child (m_left (m_nodes T np) \<noteq> Some next_node) (Some right_next_node)) T)
                      | None \<Rightarrow> upd_node np (\<lambda>n. n\<lparr>m_left := None\<rparr>) T);
                 T = upd_node next_node (\<lambda>n. n\<lparr>m_right := m_right (m_nodes T remove_node), m_left := m_left (m_nodes T remove_node),
                       m_parent := m_parent (m_nodes T remove_node), m_color := m_color (m_nodes T remove_node)\<rparr>) T;
                 T = Transplant remove_node (Some next_node) T;
                 T = set_parent (Some next_node) (m_left (m_nodes T next_node)) T;
                 T = set_parent (Some next_node) (m_right (m_nodes T next_node)) T
             in Inr (next_parent, T)))"

definition RemoveSwap :: "'p \<Rightarrow> ('p, 'k) rb_tree \<Rightarrow> ('p option \<times> bool \<times> u64 \<times> u32 \<times> ('p, 'k) rb_tree) run" where
  "RemoveSwap remove_node T =
     (case m_right (m_nodes T remove_node) of
        None \<Rightarrow> map_option Inr (swap_one remove_node (m_left (m_nodes T remove_node)) T)
      | Some right_node \<Rightarrow>
          (case m_left (m_nodes T remove_node) of
             None \<Rightarrow> map_option Inr (swap_one remove_node (Some right_node) T)
           | Some left_node \<Rightarrow>
               (case leftmost right_node T of
                  None \<Rightarrow> None
                | Some next_node \<Rightarrow>
                    (case TraceParent (m_parent (m_nodes T next_node)) next_node T of
                       None \<Rightarrow> None
                     | Some (trace, traversal_count) \<Rightarrow>
                         call (swap_next remove_node next_node left_node T) (\<lambda>(out_remove, T').
                         ret (out_remove, m_color (m_nodes T next_node), trace, traversal_count, T'))))))"

text \<open>The part of the loop of \<open>RemoveFixup\<close> after a red sibling has been rotated away: \<open>Inl\<close> when it returns.\<close>

definition remove_rotate :: "u64 \<Rightarrow> 'p \<Rightarrow> 'p \<Rightarrow> ('p, 'k) rb_tree \<Rightarrow> (bool \<times> ('p, 'k) rb_tree) result" where
  "remove_rotate side_iter parent_iter side T =
     (let left_side = (side_iter AND 1 = 0);
          near = child (\<not> left_side) (m_nodes T side);
          far = child left_side (m_nodes T side);
          original_color = m_color (m_nodes T parent_iter)
      in if is_red T near
         then bind_result
                (if left_side
                 then bind_result (RotateRight side T) (\<lambda>(original_side, T).
                      bind_result (RotateLeft parent_iter T) (\<lambda>(_, T). Inr (original_side, T)))
                 else bind_result (RotateLeft side T) (\<lambda>(original_side, T).
                      bind_result (RotateRight parent_iter T) (\<lambda>(_, T). Inr (original_side, T))))
                (\<lambda>(original_side, T).
                Inr (True, paint True side (paint True parent_iter (paint original_color original_side T))))
         else if is_red T far
         then bind_result (if left_side then RotateLeft parent_iter T else RotateRight parent_iter T) (\<lambda>(original_side, T).
                Inr (True, paint True (the far) (paint True parent_iter (paint original_color original_side T))))
         else
           let T = paint False side T
           in if \<not> m_color (m_nodes T parent_iter) then Inr (True, paint True parent_iter T) else Inr (False, T))"

definition remove_sibling :: "u64 \<Rightarrow> 'p \<Rightarrow> ('p, 'k) rb_tree \<Rightarrow> ('p \<times> bool \<times> ('p, 'k) rb_tree) result" where
  "remove_sibling side_iter parent_iter T =
     (let left_side = (side_iter AND 1 = 0)
      in bind_result (deref (child left_side (m_nodes T parent_iter))) (\<lambda>side.
         if \<not> m_color (m_nodes T side)
         then
           let T = paint True side (paint False parent_iter T)
           in bind_result (if left_side then RotateLeft parent_iter T else RotateRight parent_iter T) (\<lambda>(_, T).
              bind_result (deref (child left_side (m_nodes T parent_iter))) (\<lambda>side. Inr (side, True, T)))
         else Inr (side, False, T)))"

partial_function (option) remove_loop ::
  "u32 \<Rightarrow> u64 \<Rightarrow> 'p \<Rightarrow> ('p, 'k) rb_tree \<Rightarrow> ('p, 'k) rb_tree run" where
  "remove_loop traversal_iter side_iter parent_iter T =
     (case remove_sibling side_iter parent_iter T of
        Inl e \<Rightarrow> Some (Inl e)
      | Inr (side, rotated, T) \<Rightarrow>
          (let next_trace = drop_bit 1 side_iter;
               next_trace = (if rotated then push_bit 1 next_trace OR (side_iter AND 1) else next_trace);
               next_traversal_count = (if rotated then traversal_iter - 1 + 1 else traversal_iter - 1)
           in case remove_rotate side_iter parent_iter side T of
                Inl e \<Rightarrow> Some (Inl e)
              | Inr (finished, T) \<Rightarrow>
                  if finished \<or> next_traversal_count < 1 then ret T
                  else (case deref (m_parent (m_nodes T parent_iter)) of
                          Inl e \<Rightarrow> Some (Inl e)
                        | Inr parent \<Rightarrow> remove_loop next_traversal_count next_trace parent T)))"

declare remove_loop.simps [code]

definition RemoveFixup :: "'p option \<Rightarrow> u64 \<Rightarrow> u32 \<Rightarrow> bool \<Rightarrow> ('p, 'k) rb_tree \<Rightarrow> ('p, 'k) rb_tree run" where
  "RemoveFixup parent_iter trace traversal_count remove_color T =
     (if \<not> remove_color then ret T
      else if traversal_count < 1 then ret T
      else call (deref parent_iter) (\<lambda>parent.
        let side = child (trace AND 1 \<noteq> 0) (m_nodes T parent)
        in if is_red T side then ret (paint True (the side) T)
           else remove_loop traversal_count trace parent T))"

partial_function (option) remove_search :: "'k :: linorder \<Rightarrow> 'p \<Rightarrow> ('p, 'k) rb_tree \<Rightarrow> 'p run" where
  "remove_search key remove_node T =
     (if m_key (m_nodes T remove_node) = key then ret remove_node
      else case child (m_key (m_nodes T remove_node) < key) (m_nodes T remove_node) of
          None \<Rightarrow> Some (Inl Assert_Failed)
        | Some next_node \<Rightarrow> remove_search key next_node T)"

declare remove_search.simps [code]

definition RemoveImpl :: "'k :: linorder \<Rightarrow> ('p, 'k) rb_tree \<Rightarrow> ('p, 'k) rb_tree run" where
  "RemoveImpl key T =
     (case m_root T of
        None \<Rightarrow> Some (Inl Assert_Failed)
      | Some root \<Rightarrow>
          bind_run (remove_search key root T) (\<lambda>remove_node.
          bind_run (RemoveSwap remove_node T) (\<lambda>(remove_iter, fixup_color, trace, traversal_count, T).
          bind_run (RemoveFixup remove_iter trace traversal_count fixup_color T) (\<lambda>T.
          ret (upd_node remove_node (\<lambda>n. n\<lparr>m_left := None, m_right := None\<rparr>) T)))))"

definition tree_Remove :: "'k :: linorder \<Rightarrow> ('p, 'k) rb_tree \<Rightarrow> ('p, 'k) rb_tree run" where
  "tree_Remove key T =
     bind_run (RemoveImpl key T) (\<lambda>T. ret (case m_root T of None \<Rightarrow> T | Some root \<Rightarrow> paint_root root T))"

section \<open>Lookup and iteration\<close>

partial_function (option) FindImpl :: "'p option \<Rightarrow> 'k :: linorder \<Rightarrow> ('p, 'k) rb_tree \<Rightarrow> 'p option option" where
  "FindImpl iter key T =
     (case iter of
        None \<Rightarrow> Some None
      | Some p \<Rightarrow>
          if m_key (m_nodes T p) = key then Some (Some p)
          else FindImpl (child (m_key (m_nodes T p) < key) (m_nodes T p)) key T)"

declare FindImpl.simps [code]

definition tree_Find :: "'k :: linorder \<Rightarrow> ('p, 'k) rb_tree \<Rightarrow> 'p option option" where
  "tree_Find key T = FindImpl (m_root T) key T"

partial_function (option) climb :: "'p \<Rightarrow> 'p \<Rightarrow> ('p, 'k) rb_tree \<Rightarrow> 'p option option" where
  "climb r_child iter T =
     (if m_right (m_nodes T iter) \<noteq> Some r_child then Some (Some iter)
      else case m_parent (m_nodes T iter) of
          None \<Rightarrow> Some None
        | Some next \<Rightarrow> climb iter next T)"

declare climb.simps [code]

definition GetNext :: "'p \<Rightarrow> ('p, 'k) rb_tree \<Rightarrow> 'p option option" where
  "GetNext this T =
     (case m_right (m_nodes T this) of
        Some right \<Rightarrow> map_option Some (leftmost right T)
      | None \<Rightarrow>
          (case m_parent (m_nodes T this) of
             None \<Rightarrow> Some None
           | Some next \<Rightarrow> if m_left (m_nodes T next) \<noteq> Some this then climb this next T else Some (Some next)))"

definition tree_begin :: "('p, 'k) rb_tree \<Rightarrow> 'p option option" where
  "tree_begin T = (case m_root T of None \<Rightarrow> Some None | Some root \<Rightarrow> map_option Some (leftmost root T))"

partial_function (option) count_from :: "u64 \<Rightarrow> 'p option \<Rightarrow> ('p, 'k) rb_tree \<Rightarrow> u64 option" where
  "count_from n node T =
     (case node of
        None \<Rightarrow> Some n
      | Some p \<Rightarrow>
          (case GetNext p T of None \<Rightarrow> None | Some next \<Rightarrow> count_from (n + 1) next T))"

declare count_from.simps [code]

definition tree_GetCount :: "('p, 'k) rb_tree \<Rightarrow> u64 option" where
  "tree_GetCount T = (case tree_begin T of None \<Rightarrow> None | Some node \<Rightarrow> count_from 0 node T)"

text \<open>\<open>ClearAll\<close> answers the objects it hands to the lambda, in their order.\<close>

partial_function (option) clear_from :: "'p option \<Rightarrow> 'p list \<Rightarrow> ('p, 'k) rb_tree \<Rightarrow> ('p list \<times> ('p, 'k) rb_tree) option" where
  "clear_from iter cleared T =
     (case iter of
        None \<Rightarrow> Some (rev cleared, T)
      | Some obj \<Rightarrow>
          (case GetNext obj T of
             None \<Rightarrow> None
           | Some next \<Rightarrow> clear_from next (obj # cleared) (ForceUnlink obj T)))"

declare clear_from.simps [code]

definition ClearAll :: "('p, 'k) rb_tree \<Rightarrow> ('p list \<times> ('p, 'k) rb_tree) option" where
  "ClearAll T = (case tree_begin T of None \<Rightarrow> None | Some iter \<Rightarrow> clear_from iter [] T)"

definition ForceReset :: "('p, 'k) rb_tree \<Rightarrow> ('p, 'k) rb_tree" where
  "ForceReset T = T\<lparr>m_root := None\<rparr>"

end
