(* ===== verification/Red_Black_Shape.thy ===== *)
theory Red_Black_Shape
  imports Red_Black_Tree
begin

text \<open>
  The nodes of a store as a shape, a binary tree of addresses with their colors, and as a focus in a shape:
  \<open>at T C t\<close> says that the store holds the shape \<open>t\<close> in the context \<open>C\<close>, the frames on the way from \<open>t\<close> up to
  the root.  A rotation and a change of a color are changes of the focus, so a loop that climbs is followed by
  moving the focus.
\<close>

section \<open>Shapes and contexts\<close>

datatype 'p shape = Leaf | Node bool "'p shape" 'p "'p shape"

fun inorder :: "'p shape \<Rightarrow> 'p list" where
  "inorder Leaf = []"
| "inorder (Node b l p r) = inorder l @ p # inorder r"

text \<open>A node by its child on a side and the child on the other.\<close>

definition nd :: "bool \<Rightarrow> bool \<Rightarrow> 'p shape \<Rightarrow> 'p \<Rightarrow> 'p shape \<Rightarrow> 'p shape" where
  "nd side b t p u = (if side then Node b u p t else Node b t p u)"

type_synonym 'p frame = "bool \<times> bool \<times> 'p \<times> 'p shape"

fun plug :: "'p frame list \<Rightarrow> 'p shape \<Rightarrow> 'p shape" where
  "plug [] t = t"
| "plug ((side, b, p, u) # C) t = plug C (nd side b t p u)"

fun tree_at :: "('p \<Rightarrow> ('p, 'k) rb_node) \<Rightarrow> 'p option \<Rightarrow> 'p shape \<Rightarrow> 'p option \<Rightarrow> bool" where
  "tree_at N par Leaf q \<longleftrightarrow> q = None"
| "tree_at N par (Node b l p r) q \<longleftrightarrow> q = Some p \<and> m_parent (N p) = par \<and> m_color (N p) = b \<and>
     tree_at N (Some p) l (m_left (N p)) \<and> tree_at N (Some p) r (m_right (N p))"

fun ctx_at :: "('p \<Rightarrow> ('p, 'k) rb_node) \<Rightarrow> 'p option \<Rightarrow> 'p frame list \<Rightarrow> 'p option \<Rightarrow> 'p option \<Rightarrow> bool" where
  "ctx_at N root [] q par \<longleftrightarrow> q = root \<and> par = None"
| "ctx_at N root ((side, b, p, u) # C) q par \<longleftrightarrow> par = Some p \<and> m_color (N p) = b \<and> child side (N p) = q \<and>
     tree_at N (Some p) u (child (\<not> side) (N p)) \<and> ctx_at N root C (Some p) (m_parent (N p))"

fun ctx_set :: "'p frame list \<Rightarrow> 'p set" where
  "ctx_set [] = {}"
| "ctx_set ((side, b, p, u) # C) = insert p (set (inorder u) \<union> ctx_set C)"

fun root_of :: "'p shape \<Rightarrow> 'p option" where
  "root_of Leaf = None"
| "root_of (Node b l p r) = Some p"

fun parent_of :: "'p frame list \<Rightarrow> 'p option" where
  "parent_of [] = None"
| "parent_of ((side, b, p, u) # C) = Some p"

definition at :: "('p, 'k) rb_tree \<Rightarrow> 'p frame list \<Rightarrow> 'p shape \<Rightarrow> bool" where
  "at T C t \<longleftrightarrow> ctx_at (m_nodes T) (m_root T) C (root_of t) (parent_of C) \<and> tree_at (m_nodes T) (parent_of C) t (root_of t) \<and>
     distinct (inorder (plug C t))"

lemma nd_simps [simp]: "root_of (nd s b t p u) = Some p" "set (inorder (nd s b t p u)) = insert p (set (inorder t) \<union> set (inorder u))"
  by (auto simp: nd_def)

lemma tree_at_nd [simp]: "tree_at N par (nd s b t p u) q \<longleftrightarrow> q = Some p \<and> m_parent (N p) = par \<and> m_color (N p) = b \<and>
    tree_at N (Some p) t (child s (N p)) \<and> tree_at N (Some p) u (child (\<not> s) (N p))"
  by (auto simp: nd_def child_def)

lemma tree_at_root: "tree_at N par t q \<Longrightarrow> q = root_of t"
  by (cases t) auto

lemma ctx_at_parent: "ctx_at N root C q par \<Longrightarrow> par = parent_of C"
  by (cases C) auto

lemma shape_cases: "t \<noteq> Leaf \<Longrightarrow> \<exists>b u p v. t = nd s b u p v"
  by (cases t; cases s) (auto simp: nd_def)

lemma set_plug: "set (inorder (plug C t)) = ctx_set C \<union> set (inorder t)"
  by (induction C t rule: plug.induct) auto

lemma distinct_nd: "distinct (inorder (nd s b t p u)) \<longleftrightarrow> distinct (inorder t) \<and> distinct (inorder u) \<and>
    set (inorder t) \<inter> set (inorder u) = {} \<and> p \<notin> set (inorder t) \<and> p \<notin> set (inorder u)"
  by (auto simp: nd_def)

lemma distinct_plug_iff: "distinct (inorder (plug C t)) \<longleftrightarrow>
    distinct (inorder (plug C Leaf)) \<and> distinct (inorder t) \<and> ctx_set C \<inter> set (inorder t) = {}"
proof (induction C arbitrary: t rule: ctx_set.induct)
  case (2 s b p u C)
  show ?case unfolding plug.simps using 2 [of "nd s b t p u"] 2 [of "nd s b Leaf p u"] by (auto simp: distinct_nd)
qed simp

lemma distinct_plug: "distinct (inorder (plug C t)) \<Longrightarrow> distinct (inorder t) \<and> ctx_set C \<inter> set (inorder t) = {}"
  by (simp add: distinct_plug_iff [of C t])

lemma inorder_plug: "inorder t = inorder t' \<Longrightarrow> inorder (plug C t) = inorder (plug C t')"
proof (induction C arbitrary: t t' rule: ctx_set.induct)
  case (2 s b p u C)
  have "inorder (nd s b t p u) = inorder (nd s b t' p u)" using 2(2) by (simp add: nd_def)
  from 2(1) [OF this] show ?case by simp
qed simp

lemma atI: "ctx_at (m_nodes T) (m_root T) C (root_of t) (parent_of C) \<Longrightarrow> tree_at (m_nodes T) (parent_of C) t (root_of t) \<Longrightarrow>
    distinct (inorder (plug C t)) \<Longrightarrow> at T C t"
  by (simp add: at_def)

lemma at_up: "at T ((s, b, p, u) # C) t \<longleftrightarrow> at T C (nd s b t p u)"
proof -
  let ?N = "m_nodes T" let ?r = "m_root T"
  have "ctx_at ?N ?r C (Some p) (m_parent (?N p)) \<longleftrightarrow> m_parent (?N p) = parent_of C \<and> ctx_at ?N ?r C (Some p) (parent_of C)"
    by (metis ctx_at_parent)
  moreover have "tree_at ?N (Some p) t (child s (?N p)) \<longleftrightarrow> child s (?N p) = root_of t \<and> tree_at ?N (Some p) t (root_of t)"
    by (metis tree_at_root)
  ultimately show ?thesis by (simp add: at_def) blast
qed

lemma at_nd: "at T C (nd s b t p u) \<Longrightarrow> m_parent (m_nodes T p) = parent_of C \<and> m_color (m_nodes T p) = b \<and>
    child s (m_nodes T p) = root_of t \<and> child (\<not> s) (m_nodes T p) = root_of u"
  unfolding at_def by (auto dest: tree_at_root)

lemma at_root: "at T [] t \<Longrightarrow> m_root T = root_of t"
  by (simp add: at_def)

lemma at_plug: "at T C t \<longleftrightarrow> at T [] (plug C t)"
  by (induction C t rule: plug.induct) (simp_all add: at_up)

section \<open>Locality\<close>

lemma tree_at_cong: "(\<And>p. p \<in> set (inorder t) \<Longrightarrow> N p = N' p) \<Longrightarrow> tree_at N par t q = tree_at N' par t q"
  by (induction N par t q rule: tree_at.induct) auto

lemma ctx_at_cong: "(\<And>p. p \<in> ctx_set C \<Longrightarrow> N p = N' p) \<Longrightarrow> ctx_at N root C q par = ctx_at N' root C q par"
proof (induction N root C q par rule: ctx_at.induct)
  case (2 N root side b p u C q par)
  have "tree_at N (Some p) u q' = tree_at N' (Some p) u q'" for q' using 2(2) by (intro tree_at_cong) simp
  then show ?case using 2 by simp
qed simp

lemma tree_at_upd [simp]: "p \<notin> set (inorder t) \<Longrightarrow> tree_at (N(p := x)) par t q = tree_at N par t q"
  by (rule tree_at_cong) auto

lemma ctx_at_upd [simp]: "p \<notin> ctx_set C \<Longrightarrow> ctx_at (N(p := x)) root C q par = ctx_at N root C q par"
  by (rule ctx_at_cong) auto

text \<open>A shape is hung below another parent.\<close>

lemma tree_at_reparent:
  assumes "tree_at N par t q" and "distinct (inorder t)"
    and "\<And>p. p \<in> set (inorder t) \<Longrightarrow> N' p = (if q = Some p then N p\<lparr>m_parent := par'\<rparr> else N p)"
  shows "tree_at N' par' t q"
proof (cases t)
  case (Node b l p r)
  have "tree_at N (Some p) l q' = tree_at N' (Some p) l q'" "tree_at N (Some p) r q' = tree_at N' (Some p) r q'" for q'
    using assms Node by (auto intro!: tree_at_cong)
  then show ?thesis using assms Node by auto
qed (use assms in simp)

text \<open>What hangs in the hole of a context is replaced.\<close>

lemma ctx_at_relink:
  assumes "ctx_at N root C q par" and "distinct (inorder (plug C Leaf))"
    and "\<And>p. p \<in> ctx_set C \<Longrightarrow> N' p = (if par = Some p then set_child (fst (hd C)) q' (N p) else N p)"
    and "root' = (if C = [] then q' else root)"
  shows "ctx_at N' root' C q' par"
proof (cases C)
  case Nil
  then show ?thesis using assms by simp
next
  case (Cons f C')
  obtain s b p u where f: "f = (s, b, p, u)" by (cases f)
  have d: "p \<notin> set (inorder u)" "p \<notin> ctx_set C'" "set (inorder u) \<inter> ctx_set C' = {}"
    using distinct_plug [of C' "nd s b Leaf p u"] assms(2) Cons f by (auto simp: distinct_nd)
  have "tree_at N (Some p) u x = tree_at N' (Some p) u x" for x using assms(1,3) d Cons f by (intro tree_at_cong) auto
  moreover have "ctx_at N root C' x y = ctx_at N' root C' x y" for x y using assms(1,3) d Cons f by (intro ctx_at_cong) auto
  moreover have "N' p = set_child s q' (N p)" using assms(1,3) Cons f by simp
  ultimately show ?thesis using assms(1,4) Cons f by (auto simp: set_child_def child_def split: if_splits)
qed

section \<open>Operations at the focus\<close>

definition same_keys :: "('p, 'k) rb_tree \<Rightarrow> ('p, 'k) rb_tree \<Rightarrow> bool" where
  "same_keys T T' \<longleftrightarrow> (\<forall>p. m_key (m_nodes T' p) = m_key (m_nodes T p))"

lemma same_keys_refl [simp]: "same_keys T T"
  by (simp add: same_keys_def)

lemma same_keys_trans: "same_keys T T' \<Longrightarrow> same_keys T' T'' \<Longrightarrow> same_keys T T''"
  by (simp add: same_keys_def)

lemma paint_simps [simp]: "m_root (paint c p T) = m_root T" "m_nodes (paint c p T) = (m_nodes T)(p := (m_nodes T p)\<lparr>m_color := c\<rparr>)"
  "same_keys T (paint c p T)"
  by (simp_all add: paint_def upd_node_def same_keys_def)

lemma at_context:
  assumes "at T C t"
  shows "ctx_at (m_nodes T) (m_root T) C (root_of t) (parent_of C)" "tree_at (m_nodes T) (parent_of C) t (root_of t)"
    "distinct (inorder (plug C t))" "distinct (inorder t)" "ctx_set C \<inter> set (inorder t) = {}" "distinct (inorder (plug C Leaf))"
  using assms distinct_plug_iff [of C t] by (simp_all add: at_def)

lemma paint_at:
  assumes "at T C (nd s b t p u)"
  shows "at (paint c p T) C (nd s c t p u)"
proof (rule atI)
  note A = at_context [OF assms]
  have d: "p \<notin> ctx_set C" "p \<notin> set (inorder t)" "p \<notin> set (inorder u)" using A(4,5) by (auto simp: distinct_nd)
  show "ctx_at (m_nodes (paint c p T)) (m_root (paint c p T)) C (root_of (nd s c t p u)) (parent_of C)" using A(1) d by simp
  show "tree_at (m_nodes (paint c p T)) (parent_of C) (nd s c t p u) (root_of (nd s c t p u))"
    using A(2) d by (simp add: child_def split: if_splits)
  show "distinct (inorder (plug C (nd s c t p u)))"
    using A(3) inorder_plug [of "nd s c t p u" "nd s b t p u" C] by (simp add: nd_def)
qed

text \<open>A node takes the place of another below a context.\<close>

lemma upd_node_simps [simp]: "m_root (upd_node p f T) = m_root T" "m_nodes (upd_node p f T) = (m_nodes T)(p := f (m_nodes T p))"
  by (simp_all add: upd_node_def)

lemma child_simps [simp]: "child s (set_child s q n) = q" "child (\<not> s) (set_child s q n) = child (\<not> s) n"
  "child s (set_child (\<not> s) q n) = child s n"
  "m_parent (set_child s q n) = m_parent n" "m_color (set_child s q n) = m_color n" "m_key (set_child s q n) = m_key n"
  "child s (n\<lparr>m_parent := par\<rparr>) = child s n" "child s (n\<lparr>m_color := c\<rparr>) = child s n"
  by (simp_all add: child_def set_child_def)

lemma side_of: "ctx_at N root ((s, b, g, w) # C) (Some p) par \<Longrightarrow> p \<notin> set (inorder w) \<Longrightarrow> (m_left (N g) \<noteq> Some p) = s"
  using tree_at_root by (cases s; cases w) (fastforce simp: child_def)+

lemma replace_at:
  assumes C: "ctx_at (m_nodes T) (m_root T) C (Some p) (parent_of C)" and d: "distinct (inorder (plug C Leaf))"
    and out: "p \<notin> ctx_set C" "q \<notin> ctx_set C" and T': "T' = replace_child p (parent_of C) q T"
  shows "ctx_at (m_nodes T') (m_root T') C (Some q) (parent_of C)"
    "m_nodes T' q = (m_nodes T q)\<lparr>m_parent := parent_of C\<rparr>" "x \<notin> ctx_set C \<Longrightarrow> x \<noteq> q \<Longrightarrow> m_nodes T' x = m_nodes T x"
    "same_keys T T'"
proof -
  have "ctx_at (m_nodes T') (m_root T') C (Some q) (parent_of C) \<and> m_nodes T' q = (m_nodes T q)\<lparr>m_parent := parent_of C\<rparr> \<and>
    (\<forall>x. x \<notin> ctx_set C \<longrightarrow> x \<noteq> q \<longrightarrow> m_nodes T' x = m_nodes T x) \<and> same_keys T T'"
  proof (cases C)
    case Nil
    then show ?thesis by (simp add: T' replace_child_def same_keys_def)
  next
    case (Cons f C')
    obtain s b g w where f: "f = (s, b, g, w)" by (cases f)
    have side: "(m_left (m_nodes T g) \<noteq> Some p) = s" using side_of C out(1) Cons f by fastforce
    have g: "g \<noteq> q" "g \<in> ctx_set C" using out Cons f by auto
    have "ctx_at (m_nodes T') (m_root T) C (Some q) (parent_of C)"
      by (rule ctx_at_relink [OF C d, of _ "Some q"]) (use g out side Cons f in \<open>auto simp: T' replace_child_def\<close>)
    then show ?thesis using g side Cons f by (auto simp: T' replace_child_def same_keys_def)
  qed
  then show "ctx_at (m_nodes T') (m_root T') C (Some q) (parent_of C)"
    "m_nodes T' q = (m_nodes T q)\<lparr>m_parent := parent_of C\<rparr>" "x \<notin> ctx_set C \<Longrightarrow> x \<noteq> q \<Longrightarrow> m_nodes T' x = m_nodes T x"
    "same_keys T T'" by blast+
qed

text \<open>Both rotations in one: the child on the other side of \<open>s\<close> comes up.\<close>

definition rotate_side :: "bool \<Rightarrow> 'p \<Rightarrow> ('p, 'k) rb_tree \<Rightarrow> ('p \<times> ('p, 'k) rb_tree) result" where
  "rotate_side s p T = (if s then RotateRight p T else RotateLeft p T)"

lemma set_child_fun: "set_child True x = m_right_update (\<lambda>_. x)" "set_child False x = m_left_update (\<lambda>_. x)"
  by (simp_all add: set_child_def fun_eq_iff)

lemma rotate_run:
  assumes "child (\<not> s) (m_nodes T p) = Some q"
  shows "rotate_side s p T = Inr (q, replace_child p (m_parent (m_nodes T p)) q
    (upd_node p (\<lambda>n. n\<lparr>m_parent := Some q\<rparr>) (upd_node q (set_child s (Some p))
      (set_parent (Some p) (child s (m_nodes T q)) (upd_node p (set_child (\<not> s) (child s (m_nodes T q))) T)))))"
  using assms by (cases s) (simp_all add: rotate_side_def RotateRight_def RotateLeft_def deref_def Let_def child_def set_child_fun)

lemma root_of_in: "root_of m = Some x \<Longrightarrow> x \<in> set (inorder m)"
  by (cases m) auto

lemma two_nodes_distinct:
  assumes "distinct (inorder (nd s b t p (nd s c m q u)))" and "S \<inter> set (inorder (nd s b t p (nd s c m q u))) = {}"
  shows "p \<noteq> q \<and> p \<notin> set (inorder t) \<and> p \<notin> set (inorder m) \<and> p \<notin> set (inorder u) \<and> q \<notin> set (inorder t) \<and>
    q \<notin> set (inorder m) \<and> q \<notin> set (inorder u) \<and> distinct (inorder m) \<and> set (inorder m) \<inter> set (inorder t) = {} \<and>
    set (inorder m) \<inter> set (inorder u) = {} \<and> p \<notin> S \<and> q \<notin> S \<and> S \<inter> set (inorder m) = {} \<and>
    S \<inter> set (inorder t) = {} \<and> S \<inter> set (inorder u) = {}"
proof -
  have 1: "distinct (inorder t)" "distinct (inorder (nd s c m q u))" "set (inorder t) \<inter> set (inorder (nd s c m q u)) = {}"
    "p \<notin> set (inorder t)" "p \<notin> set (inorder (nd s c m q u))"
    using iffD1 [OF distinct_nd assms(1)] by blast+
  have 2: "distinct (inorder m)" "set (inorder m) \<inter> set (inorder u) = {}" "q \<notin> set (inorder m)" "q \<notin> set (inorder u)"
    using iffD1 [OF distinct_nd 1(2)] by blast+
  have 3: "S \<inter> set (inorder t) = {}" "S \<inter> set (inorder (nd s c m q u)) = {}" "p \<notin> S" using assms(2) by auto
  have 4: "S \<inter> set (inorder m) = {}" "S \<inter> set (inorder u) = {}" "q \<notin> S" using 3(2) by auto
  have 5: "q \<notin> set (inorder t)" "set (inorder m) \<inter> set (inorder t) = {}" using 1(3) by auto
  have 6: "p \<noteq> q" "p \<notin> set (inorder m)" "p \<notin> set (inorder u)" using 1(5) by auto
  show ?thesis by (intro conjI) (fact 1 2 3 4 5 6)+
qed

lemma rotate_at:
  assumes A: "at T C (nd s b t p (nd s c m q u))"
  shows "\<exists>T'. rotate_side s p T = Inr (q, T') \<and> at T' C (nd s c (nd s b t p m) q u) \<and> same_keys T T'"
proof -
  note X = at_context [OF A]
  note N = at_nd [OF A]
  have q: "m_parent (m_nodes T q) = Some p" "m_color (m_nodes T q) = c" "child s (m_nodes T q) = root_of m"
    "tree_at (m_nodes T) (Some p) t (child s (m_nodes T p))" "tree_at (m_nodes T) (Some q) m (root_of m)"
    "tree_at (m_nodes T) (Some q) u (child (\<not> s) (m_nodes T q))"
    using X(2) tree_at_root [of "m_nodes T" "Some q" m "child s (m_nodes T q)"] by auto
  have d: "p \<noteq> q" "p \<notin> set (inorder t)" "p \<notin> set (inorder m)" "p \<notin> set (inorder u)" "q \<notin> set (inorder t)"
    "q \<notin> set (inorder m)" "q \<notin> set (inorder u)" "distinct (inorder m)" "set (inorder m) \<inter> set (inorder t) = {}"
    "set (inorder m) \<inter> set (inorder u) = {}" "p \<notin> ctx_set C" "q \<notin> ctx_set C" "ctx_set C \<inter> set (inorder m) = {}"
    "ctx_set C \<inter> set (inorder t) = {}" "ctx_set C \<inter> set (inorder u) = {}"
    using two_nodes_distinct [OF X(4,5)] by simp_all
  define T1 where "T1 = set_parent (Some p) (root_of m) (upd_node p (set_child (\<not> s) (root_of m)) T)"
  define T2 where "T2 = upd_node p (\<lambda>n. n\<lparr>m_parent := Some q\<rparr>) (upd_node q (set_child s (Some p)) T1)"
  define T' where "T' = replace_child p (parent_of C) q T2"
  have m: "root_of m \<noteq> Some p" "root_of m \<noteq> Some q" using d(3,6) by (auto dest: root_of_in)
  have n2: "m_nodes T2 p = (set_child (\<not> s) (root_of m) (m_nodes T p))\<lparr>m_parent := Some q\<rparr>"
    "m_nodes T2 q = set_child s (Some p) (m_nodes T q)"
    "x \<noteq> p \<Longrightarrow> x \<noteq> q \<Longrightarrow> m_nodes T2 x = (if root_of m = Some x then (m_nodes T x)\<lparr>m_parent := Some p\<rparr> else m_nodes T x)" for x
    using m d(1) by (auto simp: T2_def T1_def set_parent_def split: option.splits)
  have r2: "m_root T2 = m_root T" "same_keys T T2"
    by (auto simp: T2_def T1_def set_parent_def same_keys_def split: option.splits)
  have far: "m_nodes T2 x = m_nodes T x" if "x \<noteq> p" "x \<noteq> q" "x \<notin> set (inorder m)" for x
  proof -
    have "root_of m \<noteq> Some x" using that(3) by (auto dest: root_of_in)
    then show ?thesis using n2(3) [OF that(1,2)] by simp
  qed
  have inside: "x \<noteq> p \<and> x \<noteq> q \<and> x \<notin> set (inorder m) \<and> x \<notin> ctx_set C" if "x \<in> set (inorder t) \<or> x \<in> set (inorder u)" for x
    using that d(2,4,5,7,9,10,14,15) by auto
  have "ctx_at (m_nodes T2) (m_root T2) C (Some p) (parent_of C)"
  proof -
    have "m_nodes T x = m_nodes T2 x" if x: "x \<in> ctx_set C" for x
    proof -
      have "x \<noteq> p" "x \<noteq> q" "x \<notin> set (inorder m)" using x d(11,12,13) by auto
      from far [OF this] show ?thesis by simp
    qed
    from ctx_at_cong [OF this] show ?thesis using X(1) r2(1) by simp
  qed
  note R = replace_at [OF this X(6) d(11,12) T'_def]
  have run: "rotate_side s p T = Inr (q, T')" using rotate_run [of s T p q] N q(3) by (simp add: T'_def T2_def T1_def)
  have same: "m_nodes T' x = m_nodes T x" if "x \<in> set (inorder t) \<or> x \<in> set (inorder u)" for x
    using R(3) [of x] far [of x] inside [OF that] by simp
  have np: "m_nodes T' p = m_nodes T2 p" using R(3) [OF d(11,1)] .
  have t: "tree_at (m_nodes T') (Some p) t (child s (m_nodes T p))"
    using q(4) tree_at_cong [of t "m_nodes T'" "m_nodes T"] same by blast
  have u: "tree_at (m_nodes T') (Some q) u (child (\<not> s) (m_nodes T q))"
    using q(6) tree_at_cong [of u "m_nodes T'" "m_nodes T"] same by blast
  have mm: "tree_at (m_nodes T') (Some p) m (root_of m)"
  proof (rule tree_at_reparent [OF q(5) d(8)])
    fix x assume x: "x \<in> set (inorder m)"
    then have "x \<noteq> p" "x \<noteq> q" "x \<notin> ctx_set C" using d(3,6,13) by auto
    then show "m_nodes T' x = (if root_of m = Some x then (m_nodes T x)\<lparr>m_parent := Some p\<rparr> else m_nodes T x)"
      using R(3) [of x] n2(3) [of x] by simp
  qed
  have "at T' C (nd s c (nd s b t p m) q u)"
  proof (rule atI)
    show "ctx_at (m_nodes T') (m_root T') C (root_of (nd s c (nd s b t p m) q u)) (parent_of C)" using R(1) by simp
    show "tree_at (m_nodes T') (parent_of C) (nd s c (nd s b t p m) q u) (root_of (nd s c (nd s b t p m) q u))"
      using R(2) n2(1,2) np t u mm q(2) N by simp
    show "distinct (inorder (plug C (nd s c (nd s b t p m) q u)))"
      using X(3) inorder_plug [of "nd s c (nd s b t p m) q u" "nd s b t p (nd s c m q u)" C] by (simp add: nd_def)
  qed
  then show ?thesis using run R(4) r2(2) same_keys_trans by blast
qed

end
