(* ===== verification/Red_Black_Insert.thy ===== *)
theory Red_Black_Insert
  imports Red_Black_Shape
begin

text \<open>
  Balance and order of a shape, the search for a key as a path to a focus, and the insertion: the search of
  \<open>InsertImpl\<close> ends at the hole where the key belongs, and \<open>InsertFixup\<close> restores the balance on the way up.
\<close>

section \<open>Balance\<close>

fun bh :: "'p shape \<Rightarrow> nat" where
  "bh Leaf = 0"
| "bh (Node b l p r) = (if b then Suc (bh l) else bh l)"

fun red :: "'p shape \<Rightarrow> bool" where
  "red Leaf \<longleftrightarrow> False"
| "red (Node b l p r) \<longleftrightarrow> \<not> b"

fun rb :: "'p shape \<Rightarrow> bool" where
  "rb Leaf \<longleftrightarrow> True"
| "rb (Node b l p r) \<longleftrightarrow> rb l \<and> rb r \<and> bh l = bh r \<and> (b \<or> \<not> red l \<and> \<not> red r)"

text \<open>\<open>fits C h r\<close>: a balanced shape of black height \<open>h\<close>, red when \<open>r\<close>, may stand in the hole of \<open>C\<close>.\<close>

fun fits :: "'p frame list \<Rightarrow> nat \<Rightarrow> bool \<Rightarrow> bool" where
  "fits [] h r \<longleftrightarrow> True"
| "fits ((s, b, p, u) # C) h r \<longleftrightarrow> rb u \<and> bh u = h \<and> (b \<or> \<not> r \<and> \<not> red u) \<and> fits C (if b then Suc h else h) (\<not> b)"

definition black_root :: "'p frame list \<Rightarrow> bool" where
  "black_root C \<longleftrightarrow> C \<noteq> [] \<longrightarrow> fst (snd (last C))"

lemma rb_nd [simp]: "rb (nd s b t p u) \<longleftrightarrow> rb t \<and> rb u \<and> bh t = bh u \<and> (b \<or> \<not> red t \<and> \<not> red u)"
  by (auto simp: nd_def)

lemma red_nd [simp]: "red (nd s b t p u) \<longleftrightarrow> \<not> b"
  by (simp add: nd_def)

lemma bh_nd: "bh t = bh u \<Longrightarrow> bh (nd s b t p u) = (if b then Suc (bh t) else bh t)"
  by (simp add: nd_def)

lemma rb_plug: "rb (plug C t) \<longleftrightarrow> rb t \<and> fits C (bh t) (red t)"
proof (induction C arbitrary: t rule: ctx_set.induct)
  case (2 s b p u C)
  show ?case
  proof (cases "bh t = bh u")
    case True
    then show ?thesis using 2 [of "nd s b t p u"] bh_nd [OF True, of s b p] by auto
  qed (use 2 [of "nd s b t p u"] in auto)
qed simp

lemma fits_black: "fits C h r \<Longrightarrow> fits C h False"
  by (induction C h r rule: fits.induct) auto

lemma black_root_Cons: "black_root ((s, b, p, u) # C) \<longleftrightarrow> (if C = [] then b else black_root C)"
  by (simp add: black_root_def)

lemma red_plug: "C \<noteq> [] \<Longrightarrow> red (plug C t) \<longleftrightarrow> \<not> fst (snd (last C))"
  by (induction C t rule: plug.induct) (auto simp: neq_Nil_conv)

lemma tree_at_red: "tree_at (m_nodes T) par t q \<Longrightarrow> is_red T q = red t"
  by (cases t) (auto simp: is_red_def)

lemma at_red: "at T C (nd s b t p u) \<Longrightarrow> is_red T (root_of t) = red t \<and> is_red T (root_of u) = red u \<and> is_red T (Some p) = (\<not> b)"
proof -
  assume A: "at T C (nd s b t p u)"
  have "is_red T (child s (m_nodes T p)) = red t" "is_red T (child (\<not> s) (m_nodes T p)) = red u" "m_color (m_nodes T p) = b"
    using at_context(2) [OF A] tree_at_red by auto
  then show ?thesis using at_nd [OF A] by (simp add: is_red_def)
qed

lemma nd_swap: "nd s b t p u = nd (\<not> s) b u p t"
  by (simp add: nd_def)

lemma nd_of: "t \<noteq> Leaf \<Longrightarrow> \<exists>u p v. t = nd s (\<not> red t) u p v"
  by (cases t; cases s) (auto simp: nd_def)

section \<open>Traces\<close>

definition trace_of :: "'p frame list \<Rightarrow> u64 \<Rightarrow> bool" where
  "trace_of C w \<longleftrightarrow> length C < 64 \<and> (\<forall>i < length C. bit w i = fst (C ! i))"

lemma trace_of_Nil: "trace_of [] w"
  by (simp add: trace_of_def)

lemma trace_of_Cons:
  assumes "trace_of ((s, b, p, u) # C) w"
  shows "(w AND 1 = 0) = (\<not> s)" "(w AND 1 \<noteq> 0) = s" "trace_of C (drop_bit 1 w)"
proof -
  have "bit w 0 = s" using assms unfolding trace_of_def by force
  moreover have "(w AND 1 = 0) = (\<not> bit w 0)" by (simp add: and_one_eq bit_0 odd_iff_mod_2_eq_one)
  ultimately show "(w AND 1 = 0) = (\<not> s)" "(w AND 1 \<noteq> 0) = s" by simp_all
  show "trace_of C (drop_bit 1 w)" unfolding trace_of_def
  proof (intro conjI allI impI)
    show "length C < 64" using assms by (simp add: trace_of_def)
    fix i assume "i < length C"
    then have "bit w (Suc i) = fst (C ! i)" using assms unfolding trace_of_def by force
    then show "bit (drop_bit 1 w) i = fst (C ! i)" by (simp add: bit_drop_bit_eq)
  qed
qed

lemma trace_of_push:
  assumes "trace_of C w" and "length C < 63"
  shows "trace_of ((s, b, p, u) # C) (push_bit 1 w OR (if s then 1 else 0))"
  unfolding trace_of_def
proof (intro conjI allI impI)
  fix i assume i: "i < length ((s, b, p, u) # C)"
  show "bit (push_bit 1 w OR (if s then 1 else 0)) i = fst (((s, b, p, u) # C) ! i)"
  proof (cases i)
    case (Suc j)
    have "bit w j = fst (C ! j)" "j < 63" using Suc assms i by (auto simp: trace_of_def)
    moreover have "bit (push_bit 1 w) (Suc j) = bit w j" using \<open>j < 63\<close> by (simp only: bit_push_bit_iff) simp
    ultimately show ?thesis using Suc by (simp only: bit_or_iff) (simp add: bit_1_iff)
  qed (simp only: bit_or_iff bit_push_bit_iff, simp add: bit_1_iff)
qed (use assms in simp)

lemma count_less: "n < 64 \<Longrightarrow> (of_nat n :: u32) < numeral k \<longleftrightarrow> n < unat (numeral k :: u32)"
  by (simp add: word_less_nat_alt unsigned_of_nat take_bit_nat_eq_self)

section \<open>The fixup\<close>

text \<open>Movements that the loops share: a change of color of the node above, of the sibling.\<close>

lemma paint_parent: "m_parent (m_nodes (paint c p T) q) = m_parent (m_nodes T q)"
  by simp

lemma paint_above: "at T ((s, b, p, u) # C) t \<Longrightarrow> at (paint c p T) ((s, c, p, u) # C) t"
  using paint_at [of T C s b t p u c] by (simp add: at_up)

lemma paint_sibling: "at T ((s, b, p, nd s' c v q w) # C) t \<Longrightarrow> at (paint d q T) ((s, b, p, nd s' d v q w) # C) t"
proof -
  assume "at T ((s, b, p, nd s' c v q w) # C) t"
  then have "at T ((\<not> s, b, p, t) # C) (nd s' c v q w)" by (simp add: at_up nd_swap [of s])
  from paint_at [OF this] show ?thesis by (simp add: at_up nd_swap [of s])
qed

lemma insert_rotate_eq:
  assumes "(side_iter AND 1 = 0) = (\<not> s)" and "(next_side_iter AND 1 = 0) = (\<not> s2)"
  shows "insert_rotate side_iter next_side_iter p g T =
    bind_result (if s = s2 then rotate_side (\<not> s) g T
      else bind_result (rotate_side (\<not> s) p T) (\<lambda>(x, T). bind_result (rotate_side s g T) (\<lambda>(_, T). Inr (x, T))))
    (\<lambda>(x, T). Inr (paint False g (paint True x T)))"
  using assms by (cases s; cases s2) (simp_all add: insert_rotate_def rotate_side_def)

lemma insert_rotate_single:
  assumes A: "at T ((s, False, p, u) # (s, True, g, v) # C) t" and w: "(side_iter AND 1 = 0) = (\<not> s)" "(next_side_iter AND 1 = 0) = (\<not> s)"
  shows "\<exists>T'. insert_rotate side_iter next_side_iter p g T = Inr T' \<and>
    at T' C (nd (\<not> s) True (nd (\<not> s) False v g u) p t) \<and> same_keys T T'"
proof -
  have "at T C (nd (\<not> s) True v g (nd (\<not> s) False u p t))" using A by (simp add: at_up nd_swap [of s])
  from rotate_at [OF this] obtain T1 where T1: "rotate_side (\<not> s) g T = Inr (p, T1)" "at T1 C (nd (\<not> s) False (nd (\<not> s) True v g u) p t)" "same_keys T T1" by blast
  have "at (paint True p T1) ((\<not> s, True, p, t) # C) (nd (\<not> s) True v g u)" using paint_at [OF T1(2)] by (simp add: at_up)
  from paint_at [OF this] have "at (paint False g (paint True p T1)) C (nd (\<not> s) True (nd (\<not> s) False v g u) p t)" by (simp add: at_up)
  moreover have "same_keys T (paint False g (paint True p T1))" using T1(3) by (simp add: same_keys_def)
  ultimately show ?thesis using T1(1) by (simp add: insert_rotate_eq [OF w])
qed

lemma insert_rotate_double:
  assumes A: "at T ((s, False, p, u) # (\<not> s, True, g, v) # C) (nd (\<not> s) False ta x tb)"
    and w: "(side_iter AND 1 = 0) = (\<not> s)" "(next_side_iter AND 1 = 0) = s"
  shows "\<exists>T'. insert_rotate side_iter next_side_iter p g T = Inr T' \<and>
    at T' C (nd s True (nd s False v g tb) x (nd (\<not> s) False u p ta)) \<and> same_keys T T'"
proof -
  have "at T ((\<not> s, True, g, v) # C) (nd (\<not> s) False u p (nd (\<not> s) False ta x tb))" using A by (simp add: at_up nd_swap [of s])
  from rotate_at [OF this] obtain T1 where T1: "rotate_side (\<not> s) p T = Inr (x, T1)" "at T1 ((\<not> s, True, g, v) # C) (nd (\<not> s) False (nd (\<not> s) False u p ta) x tb)"
    "same_keys T T1" by blast
  have "at T1 C (nd s True v g (nd s False tb x (nd (\<not> s) False u p ta)))"
    using T1(2) by (simp add: at_up nd_swap [of "\<not> s" True] nd_swap [of "\<not> s" False _ x])
  from rotate_at [OF this] obtain T2 where T2: "rotate_side s g T1 = Inr (x, T2)" "at T2 C (nd s False (nd s True v g tb) x (nd (\<not> s) False u p ta))"
    "same_keys T1 T2" by blast
  let ?T3 = "paint False g (paint True x T2)"
  have "at (paint True x T2) ((s, True, x, nd (\<not> s) False u p ta) # C) (nd s True v g tb)" using paint_at [OF T2(2)] by (simp add: at_up)
  from paint_at [OF this] have "at ?T3 C (nd s True (nd s False v g tb) x (nd (\<not> s) False u p ta))" by (simp add: at_up)
  moreover have "same_keys T ?T3" using T1(3) T2(3) by (simp add: same_keys_def)
  moreover have w2: "(next_side_iter AND 1 = 0) = (\<not> (\<not> s))" using w(2) by simp
  ultimately show ?thesis using T1(1) T2(1) by (simp add: insert_rotate_eq [OF w(1) w2])
qed

lemma tree_insert_loop_spec:
  assumes "at T C t" and "rb t" and "red t" and "fits C (bh t) False" and "black_root C" and "trace_of C w"
  shows "\<exists>T' t'. insert_loop (of_nat (length C)) w (drop_bit 1 w) (parent_of C) T = ret T' \<and> at T' [] t' \<and> rb t' \<and>
    inorder t' = inorder (plug C t) \<and> same_keys T T'"
  using assms
proof (induction "length C" arbitrary: C t T w rule: less_induct)
  case less
  have stop: ?case if "fits C (bh t) True" "\<not> is_red T (parent_of C)"
    using that less.prems at_plug [of T C t]
    by (intro exI [of _ T] exI [of _ "plug C t"]) (simp add: rb_plug insert_loop.simps)
  show ?case
  proof (cases C)
    case Nil
    then show ?thesis using stop by (simp add: is_red_def)
  next
    case (Cons f C1)
    obtain s b p u where f: "f = (s, b, p, u)" by (cases f)
    have up: "at T C1 (nd s b t p u)" using less.prems(1) Cons f by (simp add: at_up)
    show ?thesis
    proof (cases b)
      case True
      then show ?thesis using stop less.prems(4) at_red [OF up] Cons f by simp
    next
      case False
      then obtain s2 b2 g v C2 where C1: "C1 = (s2, b2, g, v) # C2"
        using less.prems(5) Cons f by (cases C1) (auto simp: black_root_Cons)
      have F: "rb u" "bh u = bh t" "\<not> red u" "b2" "rb v" "bh v = bh t" "fits C2 (Suc (bh t)) False"
        using less.prems(4) Cons f C1 False by auto
      have C: "C = (s, False, p, u) # (s2, True, g, v) # C2" using Cons f C1 False F(4) by simp
      have up2: "at T C2 (nd s2 True (nd s False t p u) g v)" using less.prems(1) C by (simp add: at_up)
      note tr = trace_of_Cons [OF less.prems(6) [unfolded C]]
      note tr2 = trace_of_Cons [OF tr(3)]
      have root2: "black_root C2" using less.prems(5) C by (simp add: black_root_Cons split: if_splits) (simp add: black_root_def)
      have len: "length C < 64" using less.prems(6) by (simp add: trace_of_def)
      have n2: "(of_nat (length C) :: u32) - 2 = of_nat (length C2)" using C by simp
      have step: "insert_loop (of_nat (length C)) w (drop_bit 1 w) (parent_of C) T =
        (if red v then
           (let T = paint False g (paint True (the (root_of v)) (paint True p T))
            in if (of_nat (length C2) :: u32) < 2 then ret T
               else insert_loop (of_nat (length C2)) (drop_bit 1 (drop_bit 1 w)) (drop_bit 1 (drop_bit 1 (drop_bit 1 w))) (parent_of C2) T)
         else Some (insert_rotate w (drop_bit 1 w) p g T))"
      proof -
        have "m_parent (m_nodes T p) = Some g" "is_red T (Some p)" using at_nd [OF up] at_red [OF up] C1 False by simp_all
        moreover have "child (drop_bit 1 w AND 1 = 0) (m_nodes T g) = root_of v" "m_parent (m_nodes T g) = parent_of C2"
          "is_red T (root_of v) = red v" using at_nd [OF up2] at_red [OF up2] tr2(1) by simp_all
        ultimately show ?thesis using C n2 by (subst insert_loop.simps) (simp add: deref_def Let_def paint_parent del: paint_simps)
      qed
      show ?thesis
      proof (cases "red v")
        case True
        then obtain va y vb where v: "v = nd s False va y vb" using nd_of [of v s] by (cases v) auto
        let ?T = "paint False g (paint True y (paint True p T))" let ?t = "nd s2 False (nd s True t p u) g (nd s True va y vb)"
        have "at (paint True p T) ((s, True, p, u) # (s2, True, g, v) # C2) t" using less.prems(1) C by (auto intro: paint_above)
        then have "at (paint True p T) ((s2, True, g, nd s False va y vb) # C2) (nd s True t p u)" using v by (simp add: at_up)
        from paint_above [OF paint_sibling [OF this]] have A: "at ?T C2 ?t" by (simp add: at_up)
        have bht: "bh ?t = Suc (bh t)" and rbt: "rb ?t" "red ?t"
          using F v less.prems(2) by (auto simp: bh_nd)
        have keys: "same_keys T ?T" by (simp add: same_keys_def)
        have ino: "inorder (plug C2 ?t) = inorder (plug C t)" using C v by (auto intro!: inorder_plug simp: nd_def)
        have fit: "fits C2 (bh ?t) False" using F(7) bht by simp
        show ?thesis
        proof (cases "(of_nat (length C2) :: u32) < 2")
          case True
          then have "length C2 < 2" using len C by (simp add: count_less)
          then have "fits C2 (bh ?t) True" using fit root2 by (cases C2) (auto simp: black_root_def)
          then have "rb (plug C2 ?t)" using rbt by (simp add: rb_plug)
          then show ?thesis using True step v A ino keys \<open>red v\<close> by (auto simp: at_plug [of _ C2] Let_def)
        next
          case False
          have "length C2 < length C" using C by simp
          from less.hyps [OF this A rbt fit root2 tr2(3)] obtain T' t' where
            "insert_loop (of_nat (length C2)) (drop_bit 1 (drop_bit 1 w)) (drop_bit 1 (drop_bit 1 (drop_bit 1 w))) (parent_of C2) ?T = ret T'"
            "at T' [] t'" "rb t'" "inorder t' = inorder (plug C2 ?t)" "same_keys ?T T'" by blast
          then show ?thesis using False step v ino keys \<open>red v\<close> same_keys_trans by (fastforce simp: Let_def)
        qed
      next
        case False
        show ?thesis
        proof (cases "s2 = s")
          case True
          from insert_rotate_single [OF _ tr(1), of T p u g v C2 t "drop_bit 1 w"] obtain T' where
            T': "insert_rotate w (drop_bit 1 w) p g T = Inr T'" "at T' C2 (nd (\<not> s) True (nd (\<not> s) False v g u) p t)" "same_keys T T'"
            using less.prems(1) C True tr2(1) by auto
          have "rb (plug C2 (nd (\<not> s) True (nd (\<not> s) False v g u) p t))"
            using F less.prems(2) False by (auto simp: rb_plug bh_nd)
          moreover have "inorder (plug C2 (nd (\<not> s) True (nd (\<not> s) False v g u) p t)) = inorder (plug C t)"
            using C True by (auto intro!: inorder_plug simp: nd_def)
          ultimately show ?thesis using T' step False by (auto simp: at_plug [of _ C2])
        next
          case diff: False
          obtain ta x tb where t: "t = nd (\<not> s) False ta x tb" using nd_of [of t "\<not> s"] less.prems(3) by (cases t) auto
          have s2: "s2 = (\<not> s)" using diff by auto
          from insert_rotate_double [OF _ tr(1), of T p u g v C2 ta x tb "drop_bit 1 w"] obtain T' where
            T': "insert_rotate w (drop_bit 1 w) p g T = Inr T'" "at T' C2 (nd s True (nd s False v g tb) x (nd (\<not> s) False u p ta))" "same_keys T T'"
            using less.prems(1) C s2 t tr2(1) by auto
          have "rb (plug C2 (nd s True (nd s False v g tb) x (nd (\<not> s) False u p ta)))"
            using F less.prems(2) False t by (auto simp: rb_plug bh_nd)
          moreover have "inorder (plug C2 (nd s True (nd s False v g tb) x (nd (\<not> s) False u p ta))) = inorder (plug C t)"
            using C s2 t by (auto intro!: inorder_plug simp: nd_def)
          ultimately show ?thesis using T' step False by (auto simp: at_plug [of _ C2])
        qed
      qed
    qed
  qed
qed

section \<open>The search\<close>

text \<open>The way a search takes, as a movement of the focus.\<close>

fun locate :: "('p \<Rightarrow> 'k :: linorder) \<Rightarrow> 'k \<Rightarrow> 'p frame list \<Rightarrow> 'p shape \<Rightarrow> 'p frame list \<times> 'p shape" where
  "locate key k C Leaf = (C, Leaf)"
| "locate key k C (Node b l p r) =
     (if key p = k then (C, Node b l p r)
      else if key p < k then locate key k ((True, b, p, l) # C) r
      else locate key k ((False, b, p, r) # C) l)"

fun lefts :: "'p frame list \<Rightarrow> 'p list" where
  "lefts [] = []"
| "lefts ((s, b, p, u) # C) = lefts C @ (if s then inorder u @ [p] else [])"

fun rights :: "'p frame list \<Rightarrow> 'p list" where
  "rights [] = []"
| "rights ((s, b, p, u) # C) = (if s then [] else p # inorder u) @ rights C"

lemma inorder_ctx: "inorder (plug C t) = lefts C @ inorder t @ rights C"
  by (induction C arbitrary: t rule: lefts.induct) (simp_all add: nd_def)

lemma locate_plug: "locate key k C t = (C', t') \<Longrightarrow> plug C' t' = plug C t"
  by (induction key k C t rule: locate.induct) (auto simp: nd_def split: if_splits)

definition split_at :: "('p \<Rightarrow> 'k :: linorder) \<Rightarrow> 'k \<Rightarrow> 'p frame list \<Rightarrow> bool" where
  "split_at key k C \<longleftrightarrow> (\<forall>p\<in>set (lefts C). key p < k) \<and> (\<forall>p\<in>set (rights C). k < key p)"

lemma locate_split:
  "locate key k C t = (C', t') \<Longrightarrow> sorted_wrt (<) (map key (inorder t)) \<Longrightarrow> split_at key k C \<Longrightarrow>
    split_at key k C' \<and> (t' = Leaf \<and> k \<notin> key ` set (inorder t) \<or> (\<exists>b l p r. t' = Node b l p r \<and> key p = k \<and> p \<in> set (inorder t)))"
proof (induction key k C t rule: locate.induct)
  case (2 key k C b l p r)
  have o: "\<forall>x\<in>set (inorder l). key x < key p" "\<forall>x\<in>set (inorder r). key p < key x"
    "sorted_wrt (<) (map key (inorder l))" "sorted_wrt (<) (map key (inorder r))"
    using 2(4) by (auto simp: sorted_wrt_append)
  consider (same) "key p = k" | (less) "key p < k" | (greater) "k < key p" by fastforce
  then show ?case
  proof cases
    case same
    then show ?thesis using 2 by auto
  next
    case less
    have "split_at key k ((True, b, p, l) # C)" using 2(5) o(1) less by (fastforce simp: split_at_def)
    moreover have "key p \<noteq> k" "locate key k ((True, b, p, l) # C) r = (C', t')" using 2(3) less by (auto split: if_splits)
    ultimately have "split_at key k C' \<and> (t' = Leaf \<and> k \<notin> key ` set (inorder r) \<or>
      (\<exists>b l q ra. t' = Node b l q ra \<and> key q = k \<and> q \<in> set (inorder r)))" using 2(1) less o(4) by blast
    moreover have "k \<notin> key ` set (inorder l)" using o(1) less by fastforce
    ultimately show ?thesis using less by auto
  next
    case greater
    have "split_at key k ((False, b, p, r) # C)" using 2(5) o(2) greater by (fastforce simp: split_at_def)
    moreover have "key p \<noteq> k" "\<not> key p < k" "locate key k ((False, b, p, r) # C) l = (C', t')" using 2(3) greater by (auto split: if_splits)
    ultimately have "split_at key k C' \<and> (t' = Leaf \<and> k \<notin> key ` set (inorder l) \<or>
      (\<exists>b l' q ra. t' = Node b l' q ra \<and> key q = k \<and> q \<in> set (inorder l)))" using 2(2) o(3) by blast
    moreover have "k \<notin> key ` set (inorder r)" using o(2) greater by fastforce
    ultimately show ?thesis using greater by auto
  qed
qed auto

fun height :: "'p shape \<Rightarrow> nat" where
  "height Leaf = 0"
| "height (Node b l p r) = Suc (max (height l) (height r))"

lemma height_bh: "rb t \<Longrightarrow> height t \<le> 2 * bh t + (if red t then 1 else 0)"
  by (induction t) (auto split: if_splits)

lemma bh_size: "rb t \<Longrightarrow> 2 ^ bh t \<le> Suc (length (inorder t))"
  by (induction t) auto

lemma height_plug: "length C + height t \<le> height (plug C t)"
proof (induction C arbitrary: t rule: ctx_set.induct)
  case (2 s b p u C)
  have "Suc (height t) \<le> height (nd s b t p u)" by (simp add: nd_def)
  then show ?case using 2 [of "nd s b t p u"] by simp
qed simp

definition small :: "'p shape \<Rightarrow> bool" where "small t \<longleftrightarrow> Suc (length (inorder t)) < 2 ^ 32"

lemma small_depth: "rb (plug C t) \<Longrightarrow> small (plug C t) \<Longrightarrow> \<not> red (plug C t) \<Longrightarrow> length C + height t < 63"
proof -
  assume a: "rb (plug C t)" "small (plug C t)" "\<not> red (plug C t)"
  have "(2 :: nat) ^ bh (plug C t) < 2 ^ 32" using bh_size [OF a(1)] a(2) by (simp add: small_def)
  then have "bh (plug C t) < 32" by (simp only: power_strict_increasing_iff)
  then have "bh (plug C t) \<le> 31" by simp
  then show ?thesis using height_bh [OF a(1)] height_plug [of C t] a(3) by simp
qed

lemma insert_search_locate:
  assumes "at T C t" and "t \<noteq> Leaf" and "root_of t = Some n" and "locate (\<lambda>p. m_key (m_nodes T p)) k C t = (C', t')"
    and "trace_of C w" and "length C + height t < 63"
  shows "\<exists>w'. insert_search k n w (of_nat (length C)) T =
    (if t' = Leaf then Some (Some (the (parent_of C'), fst (hd C'), w', of_nat (length C'))) else Some None) \<and>
    (t' = Leaf \<longrightarrow> C' \<noteq> [] \<and> trace_of C' w' \<and> length C' < 63)"
  using assms
proof (induction t arbitrary: C n w)
  case (Node b l p r)
  let ?key = "\<lambda>p. m_key (m_nodes T p)"
  show ?case
  proof (cases "?key p = k")
    case True
    then show ?thesis using Node.prems by (auto simp: insert_search.simps)
  next
    case False
    define s where "s = (?key p < k)"
    define u where "u = (if s then r else l)"
    define v where "v = (if s then l else r)"
    let ?C = "(s, b, p, v) # C" let ?w = "push_bit 1 w OR (if s then 1 else 0)"
    have t: "Node b l p r = nd s b u p v" by (simp add: nd_def u_def v_def)
    have A: "at T ?C u" using Node.prems(1) unfolding t by (simp add: at_up)
    have loc: "locate ?key k ?C u = (C', t')" using Node.prems(4) False by (auto simp: s_def u_def v_def split: if_splits)
    have tr: "trace_of ?C ?w" by (rule trace_of_push [OF Node.prems(5)]) (use Node.prems(6) in simp)
    have h: "length ?C + height u < 63" using Node.prems(6) by (auto simp: u_def)
    have c: "child s (m_nodes T p) = root_of u" "n = p" using at_nd [of T C s b u p v] Node.prems(1,3) t by simp_all
    have unf: "insert_search k n w (of_nat (length C)) T =
      (case root_of u of None \<Rightarrow> Some (Some (p, s, ?w, of_nat (length ?C)))
       | Some next_node \<Rightarrow> insert_search k next_node ?w (of_nat (length ?C)) T)"
      using False c by (subst insert_search.simps) (simp add: Let_def s_def [symmetric] add.commute split: option.splits)
    show ?thesis
    proof (cases u)
      case Leaf
      then show ?thesis using loc unf tr h by auto
    next
      case (Node b' l' p' r')
      have IH: "\<exists>w'. insert_search k p' ?w (of_nat (length ?C)) T =
        (if t' = Leaf then Some (Some (the (parent_of C'), fst (hd C'), w', of_nat (length C'))) else Some None) \<and>
        (t' = Leaf \<longrightarrow> C' \<noteq> [] \<and> trace_of C' w' \<and> length C' < 63)"
      proof (cases s)
        case True
        then show ?thesis using Node.IH(2) [of ?C p' ?w] A loc tr h Node by (simp add: u_def)
      next
        case False
        then show ?thesis using Node.IH(1) [of ?C p' ?w] A loc tr h Node by (simp add: u_def)
      qed
      then show ?thesis using unf Node by simp
    qed
  qed
qed simp

section \<open>Insertion\<close>

abbreviation key_of :: "('p, 'k) rb_tree \<Rightarrow> 'p \<Rightarrow> 'k" where
  "key_of T p \<equiv> m_key (m_nodes T p)"

text \<open>\<open>T\<close> holds the search tree \<open>t\<close>.\<close>

definition tree_rep :: "('p, 'k :: linorder) rb_tree \<Rightarrow> 'p shape \<Rightarrow> bool" where
  "tree_rep T t \<longleftrightarrow> at T [] t \<and> rb t \<and> \<not> red t \<and> sorted_wrt (<) (map (key_of T) (inorder t))"

lemma at_root_node: "at T [] t \<Longrightarrow> m_root T = root_of t"
  by (simp add: at_def)

lemma paint_root_at: "at T [] (Node b l p r) \<Longrightarrow> at (paint_root p T) [] (Node True l p r) \<and> same_keys T (paint_root p T)"
proof -
  assume A: "at T [] (Node b l p r)"
  have nd: "Node c l p r = nd False c l p r" for c by (simp add: nd_def)
  have "m_parent (m_nodes T p) = None" using A at_nd [of T "[]" False b l p r] by (simp add: nd)
  then have "paint_root p T = paint True p T" by (cases "m_nodes T p") (simp add: paint_root_def paint_def upd_node_def)
  then show ?thesis using paint_at [of T "[]" False b l p r True] A by (simp add: nd)
qed

lemma link_at:
  assumes A: "at T ((s, b, n, u) # C) Leaf" and x: "x \<notin> ctx_set ((s, b, n, u) # C)"
    and T2: "T2 = upd_node x (\<lambda>n. n\<lparr>m_left := None, m_right := None, m_parent := Some q, m_color := False\<rparr>) (upd_node n (set_child s (Some x)) T)"
    and q: "q = n"
  shows "at T2 ((s, b, n, u) # C) (Node False Leaf x Leaf)" "same_keys T T2"
proof -
  let ?C = "(s, b, n, u) # C"
  note X = at_context [OF A]
  have xn: "x \<noteq> n" using x by simp
  have "ctx_at (m_nodes T2) (m_root T2) ?C (Some x) (parent_of ?C)"
    by (rule ctx_at_relink [OF X(1,6)]) (use x in \<open>auto simp: T2\<close>)
  moreover have "distinct (inorder (plug ?C (Node False Leaf x Leaf)))"
    using X(6) x distinct_plug_iff [of ?C "Node False Leaf x Leaf"] by (simp del: plug.simps)
  moreover have "tree_at (m_nodes T2) (parent_of ?C) (Node False Leaf x Leaf) (Some x)" using q by (simp add: T2)
  ultimately show "at T2 ?C (Node False Leaf x Leaf)" unfolding at_def by simp
  show "same_keys T T2" using xn by (simp add: T2 same_keys_def)
qed

lemma insort_split: "\<forall>p\<in>set L. key p < key x \<Longrightarrow> \<forall>p\<in>set R. key x < key p \<Longrightarrow> insort_key key x (L @ R) = L @ x # R"
  by (induction L) (cases R, auto)

lemma rep_sorted: "same_keys T T' \<Longrightarrow> sorted_wrt (<) (map (key_of T) xs) \<longleftrightarrow> sorted_wrt (<) (map (key_of T') xs)"
  by (simp add: same_keys_def)

lemma rep_keys: "same_keys T T' \<Longrightarrow> key_of T' = key_of T"
  by (simp add: same_keys_def fun_eq_iff)

lemma insert_spec:
  assumes rep: "tree_rep T t" and sm: "small t" and x: "x \<notin> set (inorder t)"
    and new: "m_left (m_nodes T x) = None" "m_right (m_nodes T x) = None"
  shows "if key_of T x \<in> key_of T ` set (inorder t) then tree_Insert x T = Some (Inl Assert_Failed)
    else \<exists>T' t'. tree_Insert x T = ret T' \<and> tree_rep T' t' \<and> inorder t' = insort_key (key_of T) x (inorder t) \<and> same_keys T T'"
proof (cases t)
  case Leaf
  let ?T = "paint_root x (T\<lparr>m_root := Some x\<rparr>)" let ?t = "Node True Leaf x Leaf"
  have "m_root T = None" using rep Leaf at_root_node [of T Leaf] by (simp add: tree_rep_def)
  then have "tree_Insert x T = ret ?T" by (simp add: tree_Insert_def InsertImpl_def deref_def)
  moreover have "tree_rep ?T ?t" using new by (simp add: tree_rep_def at_def paint_root_def)
  moreover have "same_keys T ?T" by (simp add: same_keys_def paint_root_def)
  ultimately show ?thesis using Leaf by (intro iffD2 [OF if_P] iffD2 [OF if_not_P]) auto
next
  case (Node b0 l0 r r0)
  have R: "at T [] t" "rb t" "\<not> red t" "sorted_wrt (<) (map (key_of T) (inorder t))" using rep by (simp_all add: tree_rep_def)
  obtain C t' where loc: "locate (key_of T) (key_of T x) [] t = (C, t')" by fastforce
  have pl: "plug C t' = t" using locate_plug [OF loc] by simp
  have sp: "split_at (key_of T) (key_of T x) C" "t' = Leaf \<and> key_of T x \<notin> key_of T ` set (inorder t) \<or>
    (\<exists>b l p r. t' = shape.Node b l p r \<and> key_of T p = key_of T x \<and> p \<in> set (inorder t))"
    using locate_split [OF loc R(4)] by (simp_all add: split_at_def)
  have "length [] + height t < 63" using small_depth [of "[]" t] R sm by simp
  from insert_search_locate [OF R(1) _ _ loc trace_of_Nil this, of r 0] Node obtain w where
    s: "insert_search (key_of T x) r 0 0 T =
      (if t' = Leaf then Some (Some (the (parent_of C), fst (hd C), w, of_nat (length C))) else Some None)"
    "t' = Leaf \<longrightarrow> C \<noteq> [] \<and> trace_of C w \<and> length C < 63" by auto
  have root: "m_root T = Some r" using at_root_node [OF R(1)] Node by simp
  show ?thesis
  proof (cases "t' = Leaf")
    case False
    then have "key_of T x \<in> key_of T ` set (inorder t)" using sp(2) by (metis imageI)
    then show ?thesis using False s(1) root by (simp add: tree_Insert_def InsertImpl_def)
  next
    case True
    then obtain sd b n u C2 where C: "C = (sd, b, n, u) # C2" using s(2) by (cases C) auto
    have nk: "key_of T x \<notin> key_of T ` set (inorder t)" using sp(2) True by auto
    have A: "at T C Leaf" using R(1) pl True at_plug [of T C Leaf] by simp
    have xC: "x \<notin> ctx_set C" using x pl set_plug [of C Leaf] True by auto
    define T2 where "T2 = upd_node x (\<lambda>m. m\<lparr>m_left := None, m_right := None, m_parent := Some n, m_color := False\<rparr>) (upd_node n (set_child sd (Some x)) T)"
    let ?x = "shape.Node False Leaf x Leaf"
    have A2: "at T2 C ?x" "same_keys T T2" using link_at [of T sd b n u C2 x T2 n] A xC C by (auto simp: T2_def)
    have rbt: "rb (plug C Leaf)" "\<not> red (plug C Leaf)" using R(2,3) pl True by simp_all
    have br: "black_root C" using red_plug [of C Leaf] rbt(2) by (auto simp: black_root_def)
    have fit: "fits C (bh ?x) False" using rbt(1) by (simp add: rb_plug)
    have par: "m_parent (m_nodes T2 x) = parent_of C" using C by (simp add: T2_def)
    obtain T3 t3 where T3: "InsertFixup x w (of_nat (length C)) T2 = ret T3" "at T3 [] t3" "rb t3" "inorder t3 = inorder (plug C ?x)"
      "same_keys T2 T3"
    proof (cases "(of_nat (length C) :: u32) < 2")
      case True
      moreover have "length C < 64" using s(2) \<open>t' = Leaf\<close> by simp
      ultimately have "length C < 2" using count_less [of "length C" "num.Bit0 num.One"] by simp
      then have "C2 = []" using C by simp
      then have "C2 = []" "b" using br C by (simp_all add: black_root_Cons)
      moreover have "rb u" "bh u = 0" using fit C by simp_all
      ultimately have "rb (plug C ?x)" using C by simp
      then show ?thesis using True A2(1) by (intro that [of T2 "plug C ?x"]) (simp_all add: InsertFixup_def at_plug [of _ C])
    next
      case False
      have "rb ?x" "red ?x" "trace_of C w" using s(2) \<open>t' = Leaf\<close> by simp_all
      from tree_insert_loop_spec [OF A2(1) this(1,2) fit br this(3)] show ?thesis
        using False par that by (auto simp: InsertFixup_def)
    qed
    have ino: "inorder t3 = insort_key (key_of T) x (inorder t)"
    proof -
      have "inorder t = lefts C @ rights C" "inorder t3 = lefts C @ x # rights C" using inorder_ctx [of C Leaf] inorder_ctx [of C ?x] pl True T3(4) by simp_all
      then show ?thesis using insort_split [of "lefts C" "key_of T" x "rights C"] sp(1) by (simp add: split_at_def)
    qed
    have "t3 \<noteq> Leaf" using ino by (auto simp: set_insort_key dest: arg_cong [of _ _ set])
    then obtain b3 l3 p3 r3 where t3: "t3 = shape.Node b3 l3 p3 r3" by (cases t3) auto
    have P: "at (paint_root p3 T3) [] (shape.Node True l3 p3 r3)" "same_keys T3 (paint_root p3 T3)" using paint_root_at [of T3 b3 l3 p3 r3] T3(2) t3 by simp_all
    have keys: "same_keys T (paint_root p3 T3)" using A2(2) T3(5) P(2) same_keys_trans by blast
    have "rb (shape.Node True l3 p3 r3)" using T3(3) t3 by simp
    moreover have "inorder (shape.Node True l3 p3 r3) = insort_key (key_of T) x (inorder t)" using ino t3 by simp
    moreover have "sorted_wrt (<) (map (key_of T) (insort_key (key_of T) x (inorder t)))"
    proof -
      have "sorted (map (key_of T) (insort_key (key_of T) x (inorder t)))" using R(4) by (simp add: sorted_insort_key strict_sorted_iff)
      moreover have "distinct (map (key_of T) (insort_key (key_of T) x (inorder t)))"
        using R(4) nk by (simp add: strict_sorted_iff distinct_map set_insort_key inj_on_def distinct_insort x) (metis imageI)
      ultimately show ?thesis by (simp add: strict_sorted_iff)
    qed
    ultimately have "tree_rep (paint_root p3 T3) (shape.Node True l3 p3 r3)" using P(1) rep_keys [OF keys] by (simp add: tree_rep_def)
    moreover have "tree_Insert x T = ret (paint_root p3 T3)"
    proof -
      have "(of_nat (length C) :: u32) < 0x40" using s(2) True by (simp add: count_less)
      then have "InsertImpl x T = ret T3" using s root True T3(1) C by (simp add: InsertImpl_def T2_def Let_def del: upd_node_simps)
      then show ?thesis using at_root_node [OF T3(2)] t3 by (simp add: tree_Insert_def deref_def)
    qed
    ultimately show ?thesis using nk keys ino t3 by auto
  qed
qed

end
