(* ===== verification/Red_Black_Remove.thy ===== *)
theory Red_Black_Remove
  imports Red_Black_Insert
begin

text \<open>
  The removal: \<open>RemoveSwap\<close> takes the node, or its successor, out of the store and leaves a hole that may miss
  a black node, and \<open>RemoveFixup\<close> restores the balance on the way up.
\<close>

section \<open>The fixup\<close>

lemma fits_mono: "fits C h r \<Longrightarrow> (r' \<Longrightarrow> r) \<Longrightarrow> fits C h r'"
  by (cases r'; cases r) (auto dest: fits_black)

lemma remove_rotate_eq:
  assumes "(w AND 1 = 0) = (\<not> s)"
  shows "remove_rotate w p q T =
    (if is_red T (child s (m_nodes T q))
     then bind_result (bind_result (rotate_side (\<not> s) q T) (\<lambda>(y, T). bind_result (rotate_side s p T) (\<lambda>(_, T). Inr (y, T))))
            (\<lambda>(y, T'). Inr (True, paint True q (paint True p (paint (m_color (m_nodes T p)) y T'))))
     else if is_red T (child (\<not> s) (m_nodes T q))
     then bind_result (rotate_side s p T) (\<lambda>(y, T').
            Inr (True, paint True (the (child (\<not> s) (m_nodes T q))) (paint True p (paint (m_color (m_nodes T p)) y T'))))
     else
       let T = paint False q T
       in if \<not> m_color (m_nodes T p) then Inr (True, paint True p T) else Inr (False, T))"
  using assms by (cases s) (simp_all add: remove_rotate_def rotate_side_def Let_def)

text \<open>What a step of the loop leaves in the place of the parent and its children.\<close>

definition repaired :: "('p, 'k) rb_tree \<Rightarrow> 'p frame list \<Rightarrow> 'p shape \<Rightarrow> bool \<Rightarrow> nat \<Rightarrow> ('p, 'k) rb_tree \<Rightarrow> bool" where
  "repaired T C t b h T' \<longleftrightarrow> (\<exists>t'. at T' C t' \<and> rb t' \<and> bh t' = (if b then Suc h else h) \<and> (red t' \<longrightarrow> \<not> b) \<and>
     inorder t' = inorder t \<and> same_keys T T')"

lemma rotate_near:
  assumes A: "at T ((s, b, p, nd s True (nd (\<not> s) False a1 y a2) q ub) # C) t"
    and r: "rb t" "\<not> red t" "rb a1" "rb a2" "\<not> red a1" "\<not> red a2" "rb ub" "bh a1 = bh t" "bh a2 = bh t" "bh ub = bh t"
    and w: "(w AND 1 = 0) = (\<not> s)"
  shows "\<exists>T'. remove_rotate w p q T = Inr (True, T') \<and>
    repaired T C (nd s b t p (nd s True (nd (\<not> s) False a1 y a2) q ub)) b (Suc (bh t)) T'"
proof -
  have "at T ((\<not> s, b, p, t) # C) (nd (\<not> s) True ub q (nd (\<not> s) False a1 y a2))" using A by (simp add: at_up nd_swap [of s])
  from rotate_at [OF this] obtain T1 where T1: "rotate_side (\<not> s) q T = Inr (y, T1)"
    "at T1 ((\<not> s, b, p, t) # C) (nd (\<not> s) False (nd (\<not> s) True ub q a1) y a2)" "same_keys T T1" by blast
  have "at T1 C (nd s b t p (nd s False a2 y (nd (\<not> s) True ub q a1)))" using T1(2) by (simp add: at_up nd_swap [of "\<not> s" b] nd_swap [of "\<not> s" False])
  from rotate_at [OF this] obtain T2 where T2: "rotate_side s p T1 = Inr (y, T2)"
    "at T2 C (nd s False (nd s b t p a2) y (nd (\<not> s) True ub q a1))" "same_keys T1 T2" by blast
  have c: "m_color (m_nodes T p) = b" "child s (m_nodes T q) = Some y" "is_red T (Some y)"
    using at_nd [OF A [unfolded at_up]] at_red [of T "(\<not> s, b, p, t) # C" s True "nd (\<not> s) False a1 y a2" q ub]
      at_nd [of T "(\<not> s, b, p, t) # C" s True "nd (\<not> s) False a1 y a2" q ub] A by (simp_all add: at_up nd_swap [of s])
  let ?T = "paint True q (paint True p (paint b y T2))"
  have "at (paint b y T2) ((s, b, y, nd (\<not> s) True ub q a1) # C) (nd s b t p a2)" using paint_at [OF T2(2)] by (simp add: at_up)
  from paint_at [OF this] have "at (paint True p (paint b y T2)) ((\<not> s, b, y, nd s True t p a2) # C) (nd (\<not> s) True ub q a1)"
    by (simp add: at_up nd_swap [of "\<not> s" b])
  from paint_at [OF this] have "at ?T C (nd s b (nd s True t p a2) y (nd (\<not> s) True ub q a1))" by (simp add: at_up nd_swap [of "\<not> s" b])
  moreover have "rb (nd s b (nd s True t p a2) y (nd (\<not> s) True ub q a1))"
    "bh (nd s b (nd s True t p a2) y (nd (\<not> s) True ub q a1)) = (if b then Suc (Suc (bh t)) else Suc (bh t))"
    using r by (auto simp: bh_nd)
  moreover have "inorder (nd s b (nd s True t p a2) y (nd (\<not> s) True ub q a1)) =
    inorder (nd s b t p (nd s True (nd (\<not> s) False a1 y a2) q ub))" by (simp add: nd_def)
  moreover have "same_keys T ?T" using T1(3) T2(3) by (simp add: same_keys_def)
  ultimately have "repaired T C (nd s b t p (nd s True (nd (\<not> s) False a1 y a2) q ub)) b (Suc (bh t)) ?T"
    unfolding repaired_def by (intro exI [of _ "nd s b (nd s True t p a2) y (nd (\<not> s) True ub q a1)"]) simp
  then show ?thesis using T1(1) T2(1) c by (simp add: remove_rotate_eq [OF w])
qed

lemma rotate_far:
  assumes A: "at T ((s, b, p, nd s True ua q (nd s False b1 y b2)) # C) t"
    and r: "rb t" "\<not> red t" "rb ua" "\<not> red ua" "rb b1" "rb b2" "bh ua = bh t" "bh b1 = bh t" "bh b2 = bh t"
    and w: "(w AND 1 = 0) = (\<not> s)"
  shows "\<exists>T'. remove_rotate w p q T = Inr (True, T') \<and>
    repaired T C (nd s b t p (nd s True ua q (nd s False b1 y b2))) b (Suc (bh t)) T'"
proof -
  have B: "at T C (nd s b t p (nd s True ua q (nd s False b1 y b2)))" using A by (simp add: at_up)
  from rotate_at [OF B] obtain T1 where T1: "rotate_side s p T = Inr (q, T1)"
    "at T1 C (nd s True (nd s b t p ua) q (nd s False b1 y b2))" "same_keys T T1" by blast
  have "at T ((\<not> s, b, p, t) # C) (nd s True ua q (nd s False b1 y b2))" using A by (simp add: at_up nd_swap [of s b])
  note c = at_nd [OF B] at_nd [OF this] at_red [OF this]
  let ?T = "paint True y (paint True p (paint b q T1))"
  have "at (paint b q T1) ((s, b, q, nd s False b1 y b2) # C) (nd s b t p ua)" using paint_at [OF T1(2)] by (simp add: at_up)
  from paint_at [OF this] have "at (paint True p (paint b q T1)) ((\<not> s, b, q, nd s True t p ua) # C) (nd s False b1 y b2)"
    by (simp add: at_up nd_swap [of s b])
  from paint_at [OF this] have "at ?T C (nd s b (nd s True t p ua) q (nd s True b1 y b2))" by (simp add: at_up nd_swap [of s b])
  moreover have "rb (nd s b (nd s True t p ua) q (nd s True b1 y b2))"
    "bh (nd s b (nd s True t p ua) q (nd s True b1 y b2)) = (if b then Suc (Suc (bh t)) else Suc (bh t))"
    using r by (auto simp: bh_nd)
  moreover have "inorder (nd s b (nd s True t p ua) q (nd s True b1 y b2)) =
    inorder (nd s b t p (nd s True ua q (nd s False b1 y b2)))" by (simp add: nd_def)
  moreover have "same_keys T ?T" using T1(3) by (simp add: same_keys_def)
  ultimately have "repaired T C (nd s b t p (nd s True ua q (nd s False b1 y b2))) b (Suc (bh t)) ?T"
    unfolding repaired_def by (intro exI [of _ "nd s b (nd s True t p ua) q (nd s True b1 y b2)"]) simp
  then show ?thesis using T1(1) c r(4) by (simp add: remove_rotate_eq [OF w])
qed

lemma remove_rotate_spec:
  assumes A: "at T ((s, b, p, nd s True ua q ub) # C) t"
    and r: "rb t" "\<not> red t" "rb (nd s True ua q ub)" "bh ua = bh t" and w: "(w AND 1 = 0) = (\<not> s)"
  shows "(\<exists>T'. remove_rotate w p q T = Inr (True, T') \<and> repaired T C (nd s b t p (nd s True ua q ub)) b (Suc (bh t)) T') \<or>
    b \<and> (\<exists>T'. remove_rotate w p q T = Inr (False, T') \<and> at T' C (nd s True t p (nd s False ua q ub)) \<and> same_keys T T' \<and>
      \<not> red ua \<and> \<not> red ub)"
proof (cases "red ua")
  case True
  then obtain a1 y a2 where ua: "ua = nd (\<not> s) False a1 y a2" using nd_of [of ua "\<not> s"] by (cases ua) auto
  have "rb a1" "rb a2" "\<not> red a1" "\<not> red a2" "rb ub" "bh a1 = bh t" "bh a2 = bh t" "bh ub = bh t"
    using r ua bh_nd [of a1 a2 "\<not> s" False y] by auto
  from rotate_near [OF A [unfolded ua] r(1,2) this w] show ?thesis using ua by blast
next
  case near: False
  show ?thesis
  proof (cases "red ub")
    case True
    then obtain b1 y b2 where ub: "ub = nd s False b1 y b2" using nd_of [of ub s] by (cases ub) auto
    have "rb ua" "\<not> red ua" "rb b1" "rb b2" "bh ua = bh t" "bh b1 = bh t" "bh b2 = bh t"
      using r ub near bh_nd [of b1 b2 s False y] by auto
    from rotate_far [OF A [unfolded ub] r(1,2) this w] show ?thesis using ub by blast
  next
    case False
    have B: "at T ((\<not> s, b, p, t) # C) (nd s True ua q ub)" using A by (simp add: at_up nd_swap [of s b])
    have c: "m_color (m_nodes T p) = b" "is_red T (child s (m_nodes T q)) = red ua" "is_red T (child (\<not> s) (m_nodes T q)) = red ub"
      using at_nd [OF A [unfolded at_up]] at_nd [OF B] at_red [OF B] by simp_all
    have pq: "p \<noteq> q" using at_context(5) [OF B] by auto
    let ?T = "paint False q T"
    have P: "at ?T ((\<not> s, b, p, t) # C) (nd s False ua q ub)" using paint_at [OF B] .
    then have P': "at ?T C (nd s b t p (nd s False ua q ub))" by (simp add: at_up nd_swap [of s b])
    show ?thesis
    proof (cases b)
      case True
      then show ?thesis using P' c pq near False by (simp add: remove_rotate_eq [OF w] Let_def)
    next
      case b: False
      let ?t = "nd s True t p (nd s False ua q ub)"
      have "at (paint True p ?T) C ?t" using paint_at [OF P'] .
      moreover have "rb ?t" "bh ?t = Suc (bh t)" "\<not> red ?t" using r near False by (auto simp: bh_nd)
      moreover have "inorder ?t = inorder (nd s b t p (nd s True ua q ub))" by (simp add: nd_def)
      ultimately have "repaired T C (nd s b t p (nd s True ua q ub)) b (Suc (bh t)) (paint True p ?T)"
        unfolding repaired_def using b by (intro exI [of _ ?t]) (simp add: same_keys_def)
      then show ?thesis using c pq near False b by (simp add: remove_rotate_eq [OF w] Let_def)
    qed
  qed
qed

lemma remove_sibling_black:
  assumes A: "at T ((s, b, p, nd s True ua q ub) # C) t" and w: "(w AND 1 = 0) = (\<not> s)"
  shows "remove_sibling w p T = Inr (q, False, T)"
proof -
  have B: "at T ((\<not> s, b, p, t) # C) (nd s True ua q ub)" using A by (simp add: at_up nd_swap [of s b])
  show ?thesis using at_nd [OF A [unfolded at_up]] at_nd [OF B] w by (simp add: remove_sibling_def deref_def Let_def)
qed

lemma remove_sibling_red:
  assumes A: "at T ((s, True, p, nd s False (nd s True va v vb) q ub) # C) t" and w: "(w AND 1 = 0) = (\<not> s)"
  shows "\<exists>T'. remove_sibling w p T = Inr (v, True, T') \<and>
    at T' ((s, False, p, nd s True va v vb) # (s, True, q, ub) # C) t \<and> same_keys T T'"
proof -
  let ?ua = "nd s True va v vb"
  have B: "at T ((\<not> s, True, p, t) # C) (nd s False ?ua q ub)" using A by (simp add: at_up nd_swap [of s True t p])
  have pq: "p \<noteq> q" using at_context(5) [OF B] by auto
  have sib: "child (\<not> s) (m_nodes T p) = Some q" "m_color (m_nodes T q) = False"
    using at_nd [OF A [unfolded at_up]] at_nd [OF B] by simp_all
  let ?T = "paint True q (paint False p T)"
  have "at (paint False p T) C (nd s False t p (nd s False ?ua q ub))" using paint_at [OF A [unfolded at_up]] .
  then have "at (paint False p T) ((\<not> s, False, p, t) # C) (nd s False ?ua q ub)" by (simp add: at_up nd_swap [of s False t p])
  from paint_at [OF this] have "at ?T C (nd s False t p (nd s True ?ua q ub))" by (simp add: at_up nd_swap [of s False t p])
  from rotate_at [OF this] obtain T1 where T1: "rotate_side s p ?T = Inr (q, T1)"
    "at T1 C (nd s True (nd s False t p ?ua) q ub)" "same_keys ?T T1" by blast
  then have C1: "at T1 ((s, False, p, ?ua) # (s, True, q, ub) # C) t" by (simp add: at_up)
  then have "child (\<not> s) (m_nodes T1 p) = Some v" using at_nd [of T1 "(s, True, q, ub) # C" s False t p ?ua] by (simp add: at_up)
  moreover have "same_keys T T1" using T1(3) by (simp add: same_keys_def)
  ultimately show ?thesis using T1(1) C1 sib w pq
    by (cases s) (simp_all add: remove_sibling_def rotate_side_def deref_def Let_def)
qed

lemma tree_remove_loop_spec:
  assumes "at T C t" and "rb t" and "\<not> red t" and "fits C (Suc (bh t)) False" and "trace_of C w" and "C \<noteq> []"
  shows "\<exists>T' t'. remove_loop (of_nat (length C)) w (the (parent_of C)) T = ret T' \<and> at T' [] t' \<and> rb t' \<and>
    inorder t' = inorder (plug C t) \<and> same_keys T T'"
  using assms
proof (induction "length C" arbitrary: C t T w rule: less_induct)
  case less
  obtain s b p u C2 where C: "C = (s, b, p, u) # C2" using less.prems(6) by (cases C) auto
  have F: "rb u" "bh u = Suc (bh t)" "b \<or> \<not> red u" "fits C2 (if b then Suc (Suc (bh t)) else Suc (bh t)) (\<not> b)"
    using less.prems(4) C by auto
  note tr = trace_of_Cons [OF less.prems(5) [unfolded C]]
  have fin: ?case if "repaired T C2 (nd s b t p u) b (Suc (bh t)) T'" "remove_loop (of_nat (length C)) w p T = ret T'" for T'
  proof -
    from that(1) obtain t' where t': "at T' C2 t'" "rb t'" "bh t' = (if b then Suc (Suc (bh t)) else Suc (bh t))" "red t' \<longrightarrow> \<not> b"
      "inorder t' = inorder (nd s b t p u)" "same_keys T T'" unfolding repaired_def by blast
    have "fits C2 (bh t') (red t')" using F(4) t'(3,4) fits_mono [of C2 _ "\<not> b" "red t'"] by simp
    then have "rb (plug C2 t')" using t'(2) by (simp add: rb_plug)
    moreover have "inorder (plug C2 t') = inorder (plug C t)" using inorder_plug [OF t'(5)] C by simp
    ultimately show ?thesis using that(2) t'(1,6) C by (intro exI [of _ T'] exI [of _ "plug C2 t'"]) (simp add: at_plug [symmetric])
  qed
  show ?case
  proof (cases "red u")
    case False
    then obtain ua q ub where u: "u = nd s True ua q ub" using nd_of [of u s] F(2) by (cases u) auto
    have ua: "bh ua = bh t" using F u bh_nd [of ua ub s True q] by auto
    note A = less.prems(1) [unfolded C u]
    note sib = remove_sibling_black [OF A tr(1)]
    from remove_rotate_spec [OF A less.prems(2,3) F(1) [unfolded u] ua tr(1)] show ?thesis
    proof
      assume "\<exists>T'. remove_rotate w p q T = Inr (True, T') \<and> repaired T C2 (nd s b t p (nd s True ua q ub)) b (Suc (bh t)) T'"
      then show ?thesis using fin sib u by (auto simp: remove_loop.simps Let_def)
    next
      assume "b \<and> (\<exists>T'. remove_rotate w p q T = Inr (False, T') \<and> at T' C2 (nd s True t p (nd s False ua q ub)) \<and> same_keys T T' \<and>
        \<not> red ua \<and> \<not> red ub)"
      then obtain T' where T': b "remove_rotate w p q T = Inr (False, T')" "at T' C2 (nd s True t p (nd s False ua q ub))" "same_keys T T'"
        "\<not> red ua" "\<not> red ub" by blast
      let ?t = "nd s True t p (nd s False ua q ub)"
      have t: "rb ?t" "\<not> red ?t" "bh ?t = Suc (bh t)" using less.prems(2) F(1) u ua T'(5,6) by (auto simp: bh_nd)
      have ino: "inorder (plug C2 ?t) = inorder (plug C t)" using C u by (auto intro!: inorder_plug simp: nd_def)
      have fit: "fits C2 (Suc (bh ?t)) False" using F(4) T'(1) t(3) by simp
      have run: "remove_loop (of_nat (length C)) w p T =
        (if C2 = [] then ret T' else remove_loop (of_nat (length C2)) (drop_bit 1 w) (the (parent_of C2)) T')"
      proof -
        have len: "length C2 < 64" using less.prems(5) C by (simp add: trace_of_def)
        have "((of_nat (length C) :: u32) - 1 < 1) = (C2 = [])" using C count_less [OF len, of num.One] by simp
        moreover have "m_parent (m_nodes T' p) = parent_of C2" using at_nd [OF T'(3)] by simp
        moreover have "(of_nat (length C) :: u32) - 1 = of_nat (length C2)" using C by simp
        moreover have "parent_of C2 = Some (the (parent_of C2))" if "C2 \<noteq> []" using that by (cases C2) auto
        ultimately show ?thesis using sib T'(2) by (subst remove_loop.simps) (auto simp: Let_def deref_def split: option.splits)
      qed
      show ?thesis
      proof (cases "C2 = []")
        case True
        then show ?thesis using run T'(3,4) t(1) ino C by (intro exI [of _ T'] exI [of _ ?t]) simp
      next
        case False
        have "length C2 < length C" using C by simp
        from less.hyps [OF this T'(3) t(1,2) fit tr(3) False] run False ino T'(4) C show ?thesis
          by (auto intro: same_keys_trans)
      qed
    qed
  next
    case True
    then obtain ua q ub where u: "u = nd s False ua q ub" using nd_of [of u s] by (cases u) auto
    have b: b using F(3) True by simp
    have uab: "rb ua" "rb ub" "\<not> red ua" "\<not> red ub" "bh ua = Suc (bh t)" "bh ub = Suc (bh t)"
      using F(1,2) u bh_nd [of ua ub s False q] by auto
    obtain va v vb where ua: "ua = nd s True va v vb" using nd_of [of ua s] uab(3,5) by (cases ua) auto
    have va: "bh va = bh t" using uab(1,5) ua bh_nd [of va vb s True v] by auto
    have A: "at T ((s, True, p, nd s False (nd s True va v vb) q ub) # C2) t" using less.prems(1) C u ua b by simp
    from remove_sibling_red [OF A tr(1)] obtain T1 where T1: "remove_sibling w p T = Inr (v, True, T1)"
      "at T1 ((s, False, p, nd s True va v vb) # (s, True, q, ub) # C2) t" "same_keys T T1" by blast
    from remove_rotate_spec [OF T1(2) less.prems(2,3) uab(1) [unfolded ua] va tr(1)] obtain T' where
      T': "remove_rotate w p v T1 = Inr (True, T')"
      "repaired T1 ((s, True, q, ub) # C2) (nd s False t p (nd s True va v vb)) False (Suc (bh t)) T'" by auto
    from T'(2) obtain t' where t': "at T' ((s, True, q, ub) # C2) t'" "rb t'" "bh t' = Suc (bh t)"
      "inorder t' = inorder (nd s False t p (nd s True va v vb))" "same_keys T1 T'" unfolding repaired_def by auto
    have "repaired T C2 (nd s b t p u) b (Suc (bh t)) T'"
      unfolding repaired_def
    proof (intro exI [of _ "nd s True t' q ub"] conjI)
      show "at T' C2 (nd s True t' q ub)" using t'(1) by (simp add: at_up)
      show "rb (nd s True t' q ub)" "bh (nd s True t' q ub) = (if b then Suc (Suc (bh t)) else Suc (bh t))"
        using t'(2,3) uab b by (simp_all add: bh_nd)
      show "inorder (nd s True t' q ub) = inorder (nd s b t p u)" using t'(4) u ua by (simp add: nd_def)
      show "same_keys T T'" using T1(3) t'(5) same_keys_trans by blast
    qed simp
    moreover have "remove_loop (of_nat (length C)) w p T = ret T'" using T1(1) T'(1) by (subst remove_loop.simps) (simp add: Let_def)
    ultimately show ?thesis by (rule fin)
  qed
qed

lemma remove_fixup_spec:
  assumes A: "at T C t" and t: "rb t" and fit: "fits C (if c then Suc (bh t) else bh t) (\<not> c)" and w: "trace_of C w"
  shows "\<exists>T' t'. RemoveFixup (parent_of C) w (of_nat (length C)) c T = ret T' \<and> at T' [] t' \<and> rb t' \<and>
    inorder t' = inorder (plug C t) \<and> same_keys T T'"
proof -
  have stay: ?thesis if "rb (plug C t)" "RemoveFixup (parent_of C) w (of_nat (length C)) c T = ret T"
    using that A by (intro exI [of _ T] exI [of _ "plug C t"]) (simp add: at_plug [symmetric])
  consider (red) "\<not> c" | (root) "c" "C = []" | (paint) c "C \<noteq> []" "red t" | (loop) c "C \<noteq> []" "\<not> red t" by blast
  then show ?thesis
  proof cases
    case red
    then have "rb (plug C t)" using t fit fits_mono [of C "bh t" True "red t"] by (simp add: rb_plug)
    then show ?thesis using stay red by (simp add: RemoveFixup_def)
  next
    case root
    then show ?thesis using stay t by (simp add: RemoveFixup_def)
  next
    case paint
    obtain s b p u C2 where C: "C = (s, b, p, u) # C2" using paint by (cases C) auto
    obtain t1 x t2 where x: "t = nd s False t1 x t2" using nd_of [of t s] paint(3) by (cases t) auto
    note tr = trace_of_Cons [OF w [unfolded C]]
    have len: "length C < 64" using w by (simp add: trace_of_def)
    have "\<not> (of_nat (length C) :: u32) < 1" using count_less [OF len, of num.One] C by simp
    moreover have "child s (m_nodes T p) = Some x" "is_red T (Some x)" using at_nd [OF A [unfolded C at_up]] at_red [OF A [unfolded x]] x by simp_all
    ultimately have run: "RemoveFixup (parent_of C) w (of_nat (length C)) c T = ret (paint True x T)"
      using C tr(2) paint(1) by (simp add: RemoveFixup_def deref_def Let_def)
    let ?t = "nd s True t1 x t2"
    have bh: "bh ?t = Suc (bh t)" "rb ?t" using t x by (auto simp: bh_nd)
    have "rb (plug C ?t)" using fit paint(1) bh by (simp add: rb_plug)
    moreover have "at (paint True x T) C ?t" using paint_at A x by auto
    moreover have "inorder (plug C ?t) = inorder (plug C t)" using x by (auto intro!: inorder_plug simp: nd_def)
    ultimately show ?thesis using run by (intro exI [of _ "paint True x T"] exI [of _ "plug C ?t"]) (simp add: at_plug [symmetric])
  next
    case loop
    obtain s b p u C2 where C: "C = (s, b, p, u) # C2" using loop by (cases C) auto
    note tr = trace_of_Cons [OF w [unfolded C]]
    have len: "length C < 64" using w by (simp add: trace_of_def)
    have "\<not> (of_nat (length C) :: u32) < 1" using count_less [OF len, of num.One] C by simp
    moreover have "\<not> is_red T (child s (m_nodes T p))" using at_nd [OF A [unfolded C at_up]] at_red [OF A [unfolded C at_up]] loop(3) by simp
    ultimately have "RemoveFixup (parent_of C) w (of_nat (length C)) c T = remove_loop (of_nat (length C)) w (the (parent_of C)) T"
      using C tr(2) loop(1) by (simp add: RemoveFixup_def deref_def Let_def)
    then show ?thesis using tree_remove_loop_spec [OF A t loop(3) _ w loop(2)] fit loop(1) by simp
  qed
qed

section \<open>The node is taken out\<close>

text \<open>A shape is hung into a context whose hole held another.\<close>

lemma hang_at:
  assumes A: "at T C t" and M: "tree_at (m_nodes T') (parent_of C) m (root_of m)" "distinct (inorder m)" "ctx_set C \<inter> set (inorder m) = {}"
    and N: "\<And>y. y \<in> ctx_set C \<Longrightarrow>
      m_nodes T' y = (if parent_of C = Some y then set_child (fst (hd C)) (root_of m) (m_nodes T y) else m_nodes T y)"
    and R: "m_root T' = (if C = [] then root_of m else m_root T)"
  shows "at T' C m"
proof (rule atI)
  note X = at_context [OF A]
  show "ctx_at (m_nodes T') (m_root T') C (root_of m) (parent_of C)" by (rule ctx_at_relink [OF X(1,6) N R])
  show "tree_at (m_nodes T') (parent_of C) m (root_of m)" by (rule M(1))
  show "distinct (inorder (plug C m))" using X(6) M(2,3) distinct_plug_iff [of C m] by simp
qed

lemma Transplant_nodes:
  assumes A: "at T C t" and x: "root_of t = Some x" and par: "m_parent (m_nodes T' x) = parent_of C"
    and same: "\<And>y. y \<in> ctx_set C \<Longrightarrow> m_nodes T' y = m_nodes T y"
  shows "m_nodes (Transplant x q T') y = (if parent_of C = Some y then set_child (fst (hd C)) q (m_nodes T' y) else m_nodes T' y)"
    "m_root (Transplant x q T') = (if C = [] then q else m_root T')"
proof -
  have "m_nodes (Transplant x q T') y = (if parent_of C = Some y then set_child (fst (hd C)) q (m_nodes T' y) else m_nodes T' y) \<and>
    m_root (Transplant x q T') = (if C = [] then q else m_root T')"
  proof (cases C)
    case Nil
    then show ?thesis using par by (simp add: Transplant_def)
  next
    case (Cons f C2)
    obtain s b p u where f: "f = (s, b, p, u)" by (cases f)
    note X = at_context [OF A]
    have "x \<notin> set (inorder u)" using X(5) x Cons f root_of_in [OF x] by auto
    then have "(m_left (m_nodes T p) \<noteq> Some x) = s" using side_of X(1) x Cons f by fastforce
    then have "(m_left (m_nodes T' p) = Some x) = (\<not> s)" using same [of p] Cons f by auto
    then show ?thesis using par Cons f by (auto simp: Transplant_def set_child_def)
  qed
  then show "m_nodes (Transplant x q T') y = (if parent_of C = Some y then set_child (fst (hd C)) q (m_nodes T' y) else m_nodes T' y)"
    "m_root (Transplant x q T') = (if C = [] then q else m_root T')" by blast+
qed

lemma Transplant_keys: "same_keys T (Transplant x q T)"
  by (simp add: same_keys_def Transplant_def split: option.splits)

lemma set_parent_simps: "m_root (set_parent par q T) = m_root T"
  "m_nodes (set_parent par q T) y = (if q = Some y then (m_nodes T y)\<lparr>m_parent := par\<rparr> else m_nodes T y)"
  by (auto simp: set_parent_def split: option.splits)

text \<open>A node with one child at most.\<close>

lemma unlink_at:
  assumes A: "at T C (nd s b m x Leaf)" and T': "T' = set_parent (parent_of C) (root_of m) (Transplant x (root_of m) T)"
  shows "at T' C m" "same_keys T T'"
proof -
  note X = at_context [OF A]
  have d: "x \<notin> ctx_set C" "x \<notin> set (inorder m)" "distinct (inorder m)" "ctx_set C \<inter> set (inorder m) = {}"
    using X(4,5) by (auto simp: distinct_nd)
  have par: "m_parent (m_nodes T x) = parent_of C" using at_nd [OF A] by simp
  note N = Transplant_nodes [OF A _ par, simplified]
  have pc: "parent_of C = Some y \<Longrightarrow> y \<in> ctx_set C" for y by (cases C) auto
  have "tree_at (m_nodes T) (Some x) m (root_of m)" using X(2) tree_at_root [of "m_nodes T" "Some x" m] by auto
  then have "tree_at (m_nodes T') (parent_of C) m (root_of m)"
  proof (rule tree_at_reparent [OF _ d(3)])
    fix y assume y: "y \<in> set (inorder m)"
    then have "parent_of C \<noteq> Some y" using d(4) pc by blast
    then show "m_nodes T' y = (if root_of m = Some y then (m_nodes T y)\<lparr>m_parent := parent_of C\<rparr> else m_nodes T y)"
      by (simp add: T' set_parent_simps N)
  qed
  then show "at T' C m"
  proof (rule hang_at [OF A _ d(3,4)])
    fix y assume y: "y \<in> ctx_set C"
    then have "root_of m \<noteq> Some y" using d(4) by (auto dest: root_of_in)
    then show "m_nodes T' y = (if parent_of C = Some y then set_child (fst (hd C)) (root_of m) (m_nodes T y) else m_nodes T y)"
      by (simp add: T' set_parent_simps N)
  qed (simp add: T' set_parent_simps N)
  show "same_keys T T'" by (simp add: same_keys_def T' set_parent_simps N)
qed

text \<open>The node and its successor: the successor takes its place.\<close>

lemma parent_in: "parent_of C = Some y \<Longrightarrow> y \<in> ctx_set C"
  by (cases C) auto

lemma swap_direct:
  assumes A: "at T C (nd False b l x (nd False b2 Leaf n rn))" and l: "root_of l = Some ll"
  shows "\<exists>T'. swap_next x n ll T = Inr (Some n, T') \<and> at T' C (nd False b l n rn) \<and> same_keys T T'"
proof -
  note X = at_context [OF A]
  note two_nodes_distinct [OF X(4,5)]
  then have d: "x \<noteq> n" "x \<notin> set (inorder l)" "n \<notin> set (inorder l)" "n \<notin> set (inorder rn)" "x \<notin> ctx_set C" "n \<notin> ctx_set C"
    "ctx_set C \<inter> set (inorder l) = {}" "ctx_set C \<inter> set (inorder rn) = {}" by blast+
  have d2: "distinct (inorder l)" "distinct (inorder rn)" "set (inorder l) \<inter> set (inorder rn) = {}" "x \<notin> set (inorder rn)"
    using X(4) by (auto simp: distinct_nd)
  have ll: "ll \<in> set (inorder l)" using l by (rule root_of_in)
  then have llx: "ll \<noteq> n" "ll \<noteq> x" "ll \<notin> ctx_set C" using d by auto
  have nx: "m_parent (m_nodes T x) = parent_of C" "m_color (m_nodes T x) = b" "m_right (m_nodes T x) = Some n"
    using at_nd [OF A] by (simp_all add: child_def)
  have B: "at T ((True, b, x, l) # C) (nd False b2 Leaf n rn)" using A by (simp add: at_up nd_swap [of True])
  have nn: "m_right (m_nodes T n) = root_of rn" using at_nd [OF B] by (simp add: child_def)
  let ?T0 = "paint b n T"
  have N: "m_nodes (Transplant x q ?T0) y = (if parent_of C = Some y then set_child (fst (hd C)) q (m_nodes ?T0 y) else m_nodes ?T0 y)"
    "m_root (Transplant x q ?T0) = (if C = [] then q else m_root ?T0)" for q y
    by (rule Transplant_nodes [OF A]; use nx d in auto)+
  define T' where "T' = upd_node ll (\<lambda>m. m\<lparr>m_parent := Some n\<rparr>) (upd_node n (\<lambda>m. m\<lparr>m_left := Some ll\<rparr>)
    (upd_node n (\<lambda>m. m\<lparr>m_parent := parent_of C\<rparr>) (Transplant x (Some n) ?T0)))"
  have run: "swap_next x n ll T = Inr (Some n, T')" using nx d(1) by (simp add: swap_next_def Let_def T'_def)
  have np: "parent_of C \<noteq> Some n" "parent_of C \<noteq> Some ll" using d(6) llx(3) by (auto dest: parent_in)
  have at_n: "m_nodes T' n = (m_nodes T n)\<lparr>m_left := Some ll, m_parent := parent_of C, m_color := b\<rparr>"
    using np llx(1) by (simp add: T'_def N)
  have at_y: "m_nodes T' y = (if y = ll then (m_nodes T y)\<lparr>m_parent := Some n\<rparr> else m_nodes T y)" if "y \<noteq> n" "y \<notin> ctx_set C" for y
    using np llx(1) that parent_in [of C y] by (auto simp: T'_def N)
  have "tree_at (m_nodes T) (Some x) l (Some ll)" using X(2) at_nd [OF A] l by simp
  then have tl: "tree_at (m_nodes T') (Some n) l (Some ll)"
  proof (rule tree_at_reparent [OF _ d2(1)])
    fix y assume "y \<in> set (inorder l)"
    then have "y \<noteq> n" "y \<notin> ctx_set C" using d(3,7) by auto
    from at_y [OF this] show "m_nodes T' y = (if Some ll = Some y then (m_nodes T y)\<lparr>m_parent := Some n\<rparr> else m_nodes T y)" by auto
  qed
  have tr: "tree_at (m_nodes T') (Some n) rn (root_of rn)"
  proof -
    have "m_nodes T y = m_nodes T' y" if "y \<in> set (inorder rn)" for y
    proof -
      have "y \<noteq> n" "y \<notin> ctx_set C" "y \<noteq> ll" using that d(4,8) d2(3) ll by auto
      then show ?thesis using at_y [of y] by simp
    qed
    from tree_at_cong [OF this] show ?thesis using X(2) nn by (simp add: child_def)
  qed
  have "at T' C (nd False b l n rn)"
  proof (rule hang_at [OF A])
    show "tree_at (m_nodes T') (parent_of C) (nd False b l n rn) (root_of (nd False b l n rn))"
      using at_n tl tr nn by (simp add: child_def)
    show "distinct (inorder (nd False b l n rn))" using d d2 by (simp add: distinct_nd)
    show "ctx_set C \<inter> set (inorder (nd False b l n rn)) = {}" using d by auto
    fix y assume "y \<in> ctx_set C"
    then show "m_nodes T' y = (if parent_of C = Some y then set_child (fst (hd C)) (root_of (nd False b l n rn)) (m_nodes T y) else m_nodes T y)"
      using d(6) llx(3) by (auto simp: T'_def N)
  next
    show "m_root T' = (if C = [] then root_of (nd False b l n rn) else m_root T)" by (simp add: T'_def N)
  qed
  moreover have "same_keys T T'" by (simp add: same_keys_def T'_def N)
  ultimately show ?thesis using run by blast
qed

lemma take_place:
  assumes A: "at T C (nd False b l x r)" and n: "n \<notin> ctx_set C" "n \<notin> set (inorder l)" "n \<notin> set (inorder r)" "n \<noteq> x"
    and T1: "T1 = upd_node n (\<lambda>m. m\<lparr>m_right := root_of r, m_left := root_of l, m_parent := parent_of C, m_color := b\<rparr>) T"
    and T': "T' = set_parent (Some n) (root_of r) (set_parent (Some n) (root_of l) (Transplant x (Some n) T1))"
  shows "at T' C (nd False b l n r)" "same_keys T T'"
proof -
  note X = at_context [OF A]
  have d: "x \<notin> ctx_set C" "x \<notin> set (inorder l)" "x \<notin> set (inorder r)" "set (inorder l) \<inter> set (inorder r) = {}" "distinct (inorder l)" "distinct (inorder r)"
    "ctx_set C \<inter> set (inorder l) = {}" "ctx_set C \<inter> set (inorder r) = {}"
    using X(4,5) by (auto simp: distinct_nd)
  have nx: "m_parent (m_nodes T x) = parent_of C" using at_nd [OF A] by simp
  have N: "m_nodes (Transplant x q T1) y = (if parent_of C = Some y then set_child (fst (hd C)) q (m_nodes T1 y) else m_nodes T1 y)"
    "m_root (Transplant x q T1) = (if C = [] then q else m_root T1)" for q y
    by (rule Transplant_nodes [OF A]; use nx n in \<open>auto simp: T1\<close>)+
  have T1n: "m_nodes T1 y = (if y = n then (m_nodes T n)\<lparr>m_right := root_of r, m_left := root_of l, m_parent := parent_of C, m_color := b\<rparr>
    else m_nodes T y)" "m_root T1 = m_root T" for y by (simp_all add: T1)
  have np: "parent_of C \<noteq> Some n" using n(1) by (auto dest: parent_in)
  have no: "root_of l \<noteq> Some n" "root_of r \<noteq> Some n" using n(2,3) by (auto dest: root_of_in)
  have at_n: "m_nodes T' n = (m_nodes T n)\<lparr>m_right := root_of r, m_left := root_of l, m_parent := parent_of C, m_color := b\<rparr>"
    using np no by (simp add: T' set_parent_simps N T1n)
  have at_y: "m_nodes T' y = (if root_of l = Some y \<or> root_of r = Some y then (m_nodes T y)\<lparr>m_parent := Some n\<rparr> else m_nodes T y)"
    if "y \<noteq> n" "y \<notin> ctx_set C" for y
    using that parent_in [of C y] by (auto simp: T' set_parent_simps N T1n)
  have sub: "tree_at (m_nodes T') (Some n) v (root_of v)" if "tree_at (m_nodes T) (Some x) v (root_of v)" "v = l \<or> v = r" for v
  proof (rule tree_at_reparent [OF that(1)])
    show "distinct (inorder v)" using d that(2) by auto
    fix y assume y: "y \<in> set (inorder v)"
    then have "y \<noteq> n" "y \<notin> ctx_set C" using n d that(2) by auto
    moreover have "(root_of l = Some y \<or> root_of r = Some y) = (root_of v = Some y)" using y d(4) that(2) by (auto dest: root_of_in)
    ultimately show "m_nodes T' y = (if root_of v = Some y then (m_nodes T y)\<lparr>m_parent := Some n\<rparr> else m_nodes T y)"
      using at_y [of y] by simp
  qed
  have "tree_at (m_nodes T) (Some x) l (root_of l)" "tree_at (m_nodes T) (Some x) r (root_of r)"
    using X(2) at_nd [OF A] by (simp_all add: child_def)
  then have tl: "tree_at (m_nodes T') (Some n) l (root_of l)" "tree_at (m_nodes T') (Some n) r (root_of r)" using sub by blast+
  show "at T' C (nd False b l n r)"
  proof (rule hang_at [OF A])
    show "tree_at (m_nodes T') (parent_of C) (nd False b l n r) (root_of (nd False b l n r))" using at_n tl by (simp add: child_def)
    show "distinct (inorder (nd False b l n r))" using d n by (simp add: distinct_nd)
    show "ctx_set C \<inter> set (inorder (nd False b l n r)) = {}" using d n by auto
    fix y assume y: "y \<in> ctx_set C"
    then have "root_of l \<noteq> Some y" "root_of r \<noteq> Some y" using d by (auto dest: root_of_in)
    then show "m_nodes T' y = (if parent_of C = Some y then set_child (fst (hd C)) (root_of (nd False b l n r)) (m_nodes T y) else m_nodes T y)"
      using y n(1) by (auto simp: T' set_parent_simps N T1n)
  next
    show "m_root T' = (if C = [] then root_of (nd False b l n r) else m_root T)" by (simp add: T' set_parent_simps N T1n)
  qed
  show "same_keys T T'" by (simp add: same_keys_def T' set_parent_simps N T1n)
qed

lemma at_append: "at T C (plug D t) \<longleftrightarrow> at T (D @ C) t"
  by (induction D t rule: plug.induct) (simp_all add: at_up)

lemma plug_append: "plug (D @ C) t = plug C (plug D t)"
  by (induction D t rule: plug.induct) simp_all

lemma leftmost_at:
  assumes "tree_at (m_nodes T) par t q" and "t \<noteq> Leaf"
  shows "\<exists>D b n r. leftmost (the q) T = Some n \<and> t = plug D (nd False b Leaf n r) \<and> (\<forall>f\<in>set D. \<not> fst f) \<and>
    (D = [] \<longrightarrow> q = Some n)"
  using assms
proof (induction t arbitrary: par q)
  case (Node b l p r)
  show ?case
  proof (cases "l = Leaf")
    case True
    then show ?thesis using Node.prems
      by (intro exI [of _ "[]"] exI [of _ b] exI [of _ p] exI [of _ r]) (auto simp: leftmost.simps nd_def)
  next
    case False
    have l: "tree_at (m_nodes T) (Some p) l (m_left (m_nodes T p))" "m_left (m_nodes T p) \<noteq> None" using Node.prems False by (cases l; auto)+
    from Node.IH(1) [OF l(1) False] obtain D c n u where
      D: "leftmost (the (m_left (m_nodes T p))) T = Some n" "l = plug D (nd False c Leaf n u)" "\<forall>f\<in>set D. \<not> fst f" by blast
    let ?D = "D @ [(False, b, p, r)]"
    have "leftmost p T = leftmost (the (m_left (m_nodes T p))) T" using l(2) by (subst leftmost.simps) auto
    then have "leftmost (the q) T = Some n" using D(1) Node.prems(1) by simp
    moreover have "Node b l p r = plug ?D (nd False c Leaf n u)" using D(2) by (simp add: plug_append nd_def)
    moreover have "\<forall>f\<in>set ?D. \<not> fst f" using D(3) by simp
    ultimately show ?thesis by (intro exI [of _ ?D] exI [of _ c] exI [of _ n] exI [of _ u]) simp
  qed
qed simp

lemma ctx_set_append: "ctx_set (D @ C) = ctx_set D \<union> ctx_set C"
  by (induction D rule: ctx_set.induct) auto

lemma swap_far:
  assumes A: "at T C (nd False b l x (plug D (nd False b2 Leaf n rn)))" and D: "D \<noteq> []" "\<forall>f\<in>set D. \<not> fst f" and l: "root_of l = Some ll"
  shows "\<exists>T'. swap_next x n ll T = Inr (parent_of D, T') \<and> at T' C (nd False b l n (plug D rn)) \<and> same_keys T T'"
proof -
  let ?E = "D @ (True, b, x, l) # C"
  obtain bb np w D' where D': "D = (False, bb, np, w) # D'" using D by (cases D) auto
  have eq: "nd False b l x v = nd True b v x l" for v by (simp add: nd_def)
  have A2: "at T ?E (nd False b2 Leaf n rn)" using A by (simp add: eq at_up [symmetric] at_append)
  note X2 = at_context [OF A2]
  have d: "n \<notin> ctx_set ?E" "n \<notin> set (inorder rn)" "distinct (inorder rn)" "ctx_set ?E \<inter> set (inorder rn) = {}"
    using X2(4,5) by (auto simp: distinct_nd)
  have nx: "m_color (m_nodes T x) = b" using at_nd [OF A] by simp
  have xn: "x \<noteq> n" using d(1) by (auto simp: ctx_set_append)
  have "root_of (plug D (nd False b2 Leaf n rn)) \<noteq> Some n"
  proof
    assume "root_of (plug D (nd False b2 Leaf n rn)) = Some n"
    moreover have "root_of (plug D t) \<noteq> None \<and> the (root_of (plug D t)) \<in> ctx_set D" for t using D(1)
      by (induction D arbitrary: t rule: ctx_set.induct) (case_tac C; auto)+
    ultimately show False using d(1) by (metis UnI1 ctx_set_append option.sel)
  qed
  then have rx: "m_right (m_nodes T x) \<noteq> Some n" using at_nd [OF A] by (simp add: child_def)
  have nn: "m_parent (m_nodes T n) = Some np" "m_right (m_nodes T n) = root_of rn" using at_nd [OF A2] D' by (simp_all add: child_def)
  have npl: "m_left (m_nodes T np) = Some n" using at_nd [of T "D' @ (True, b, x, l) # C" False bb "nd False b2 Leaf n rn" np w] A2 D'
    by (simp add: at_up [symmetric] child_def)
  have npn: "np \<noteq> n" "np \<in> ctx_set ?E" using d(1) D' by auto
  let ?T0 = "paint b n T"
  define T1 where "T1 = set_parent (Some np) (root_of rn) (upd_node np (set_child False (root_of rn)) ?T0)"
  have t1: "m_root T1 = m_root T" "m_nodes T1 y = (if root_of rn = Some y then (m_nodes ?T0 y)\<lparr>m_parent := Some np\<rparr>
      else if y = np then set_child False (root_of rn) (m_nodes T np) else m_nodes ?T0 y)" for y
    using npn d(4) by (auto simp: T1_def set_parent_simps dest: root_of_in)
  have "at T1 ?E rn"
  proof (rule hang_at [OF A2 _ d(3,4)])
    have "tree_at (m_nodes T) (Some n) rn (root_of rn)" using X2(2) nn by (simp add: child_def)
    then show "tree_at (m_nodes T1) (parent_of ?E) rn (root_of rn)"
    proof (rule tree_at_reparent [OF _ d(3)])
      fix y assume y: "y \<in> set (inorder rn)"
      then have "y \<noteq> n" "y \<noteq> np" using d npn by auto
      then show "m_nodes T1 y = (if root_of rn = Some y then (m_nodes T y)\<lparr>m_parent := parent_of ?E\<rparr> else m_nodes T y)"
        using D' by (simp add: t1)
    qed
    fix y assume y: "y \<in> ctx_set ?E"
    then have "root_of rn \<noteq> Some y" "y \<noteq> n" using d by (auto dest: root_of_in)
    then show "m_nodes T1 y = (if parent_of ?E = Some y then set_child (fst (hd ?E)) (root_of rn) (m_nodes T y) else m_nodes T y)"
      using D' by (simp add: t1)
  next
    show "m_root T1 = (if ?E = [] then root_of rn else m_root T)" using t1(1) by simp
  qed
  then have B: "at T1 C (nd False b l x (plug D rn))" by (simp add: eq at_up [symmetric] at_append)
  note nB = at_nd [OF B]
  have out: "n \<notin> ctx_set C" "n \<notin> set (inorder l)" "n \<notin> set (inorder (plug D rn))" "n \<noteq> x"
    using d xn by (auto simp: ctx_set_append set_plug)
  define T2 where "T2 = upd_node n (\<lambda>m. m\<lparr>m_right := root_of (plug D rn), m_left := root_of l, m_parent := parent_of C, m_color := b\<rparr>) T1"
  define T' where "T' = set_parent (Some n) (root_of (plug D rn)) (set_parent (Some n) (root_of l) (Transplant x (Some n) T2))"
  from take_place [OF B out T2_def T'_def] have res: "at T' C (nd False b l n (plug D rn))" "same_keys T1 T'" .
  have "swap_next x n ll T = Inr (parent_of D, T')"
  proof -
    let ?T3 = "Transplant x (Some n) T2"
    have "m_nodes ?T3 n = m_nodes T2 n"
    proof -
      have "parent_of C \<noteq> Some n" using out(1) by (auto dest: parent_in)
      moreover have "m_nodes (Transplant x (Some n) T2) n = (if parent_of C = Some n then set_child (fst (hd C)) (Some n) (m_nodes T2 n) else m_nodes T2 n)"
        by (rule Transplant_nodes(1) [OF B]) (use nB out in \<open>auto simp: T2_def\<close>)
      ultimately show ?thesis by simp
    qed
    then have n3: "m_left (m_nodes ?T3 n) = root_of l" "m_right (m_nodes (set_parent (Some n) (root_of l) ?T3) n) = root_of (plug D rn)"
      using out(2) by (auto simp: T2_def set_parent_simps)
    have T1': "(case m_right (m_nodes ?T0 n) of
        Some right_next_node \<Rightarrow> upd_node right_next_node (\<lambda>m. m\<lparr>m_parent := Some np\<rparr>)
          (upd_node np (set_child (m_left (m_nodes ?T0 np) \<noteq> Some n) (Some right_next_node)) ?T0)
      | None \<Rightarrow> upd_node np (\<lambda>m. m\<lparr>m_left := None\<rparr>) ?T0) = T1"
      using nn npl npn(1) by (auto simp: T1_def set_parent_def set_child_fun split: option.splits)
    have "m_right (m_nodes ?T0 x) \<noteq> Some n" "m_parent (m_nodes T n) = Some np" using rx xn nn by simp_all
    moreover have "upd_node n (\<lambda>m. m\<lparr>m_right := m_right (m_nodes T1 x), m_left := m_left (m_nodes T1 x),
        m_parent := m_parent (m_nodes T1 x), m_color := m_color (m_nodes T1 x)\<rparr>) T1 = T2" using nB by (simp add: T2_def child_def)
    ultimately show ?thesis using n3 D' nx T1'
      by (simp add: swap_next_def Let_def deref_def T'_def del: paint_simps upd_node_simps)
  qed
  moreover have "same_keys T T'" using res(2) by (simp add: same_keys_def t1 set_child_def)
  ultimately show ?thesis using res(1) by blast
qed

section \<open>Traces of a node\<close>

lemma at_side:
  assumes "at T ((s, b, p, u) # C) t" and "root_of t = Some n"
  shows "(m_left (m_nodes T p) \<noteq> Some n) = s"
proof -
  have "n \<in> set (inorder t)" using assms(2) by (rule root_of_in)
  then have "n \<notin> set (inorder u)" using at_context(5) [OF assms(1)] by auto
  then show ?thesis using side_of at_context(1) [OF assms(1)] assms(2) by fastforce
qed

lemma trace_parent_at:
  assumes "at T C t" and "root_of t = Some n" and "parent_of C = Some p" and "k + length C < 64"
    and "\<forall>j<k. bit m j = bit (m' :: u64) j" and "\<forall>j\<ge>k. \<not> bit m j"
  shows "\<exists>w. trace_parent p n m (of_nat k) T = Some (w, of_nat (k + length C)) \<and> (\<forall>j<k. bit w j = bit m' j) \<and>
    (\<forall>j<length C. bit w (k + j) = fst (C ! j))"
  using assms
proof (induction C arbitrary: t n p k m m')
  case (Cons f C)
  obtain s b q u where f: "f = (s, b, q, u)" by (cases f)
  have p: "p = q" using Cons.prems(3) f by simp
  have up: "at T C (nd s b t p u)" using Cons.prems(1) f p by (simp add: at_up)
  have side: "(m_left (m_nodes T p) \<noteq> Some n) = s" using at_side Cons.prems(1,2) f p by fastforce
  define m1 where "m1 = (if s then m OR push_bit k 1 else m)"
  have k: "k < 64" "unat (of_nat k AND (0x3f :: u32)) = k"
  proof -
    show k: "k < 64" using Cons.prems(4) by simp
    have "unat (of_nat k AND (0x3f :: u32)) = k AND 0x3f" using k by (simp add: unsigned_and_eq unat_of_nat_less)
    also have "\<dots> = take_bit 6 k" by (simp add: take_bit_eq_mask mask_eq_exp_minus_1)
    finally show "unat (of_nat k AND (0x3f :: u32)) = k" using k by (simp add: take_bit_nat_eq_self)
  qed
  have bits: "bit m1 j = (if j = k then s else bit m j)" for j
    using k(1) Cons.prems(6) by (auto simp: m1_def bit_or_iff bit_exp_iff)
  have unf: "trace_parent p n m (of_nat k) T = (case parent_of C of None \<Rightarrow> Some (m1, of_nat (Suc k))
      | Some q \<Rightarrow> trace_parent q p m1 (of_nat (Suc k)) T)"
    using side at_nd [OF up] k(2) by (subst trace_parent.simps) (simp add: Let_def m1_def add.commute split: option.splits)
  show ?case
  proof (cases "parent_of C")
    case None
    then have "C = []" by (cases C) auto
    then show ?thesis using unf None bits Cons.prems(5) f by (auto simp: less_Suc_eq)
  next
    case (Some q')
    have pre: "Suc k + length C < 64" "\<forall>j<Suc k. bit m1 j = bit m1 j" "\<forall>j\<ge>Suc k. \<not> bit m1 j"
      using Cons.prems(4,6) bits by auto
    have root: "root_of (nd s b t p u) = Some p" by simp
    from Cons.IH [OF up root Some pre] obtain w where
      w: "trace_parent q' p m1 (of_nat (Suc k)) T = Some (w, of_nat (Suc k + length C))" "\<forall>j<Suc k. bit w j = bit m1 j"
      "\<forall>j<length C. bit w (Suc k + j) = fst (C ! j)" by blast
    have "bit w j = bit m' j" if "j < k" for j using w(2) bits Cons.prems(5) that by simp
    moreover have "bit w (k + j) = fst ((f # C) ! j)" if "j < length (f # C)" for j
      using w(2,3) bits f that by (cases j) auto
    ultimately show ?thesis using unf Some w(1) by auto
  qed
qed simp

lemma TraceParent_at:
  assumes "at T C t" and "root_of t = Some n" and "length C < 64"
  shows "\<exists>w. TraceParent (parent_of C) n T = Some (w, of_nat (length C)) \<and> trace_of C w"
proof (cases "parent_of C")
  case None
  then have "C = []" by (cases C) auto
  then show ?thesis by (simp add: TraceParent_def trace_of_Nil)
next
  case (Some p)
  have "0 + length C < 64" "\<forall>j<0. bit (0 :: u64) j = bit (0 :: u64) j" "\<forall>j\<ge>0. \<not> bit (0 :: u64) j" using assms(3) by simp_all
  from trace_parent_at [OF assms(1,2) Some this] show ?thesis using Some assms(3) by (auto simp: TraceParent_def trace_of_def)
qed

lemma trace_of_sides: "map fst C = map fst C' \<Longrightarrow> trace_of C w = trace_of C' w"
  unfolding trace_of_def by (metis length_map nth_map)

lemma fits_append: "fits (D @ (s, b, x, u) # C) h r = fits (D @ (s, b, y, u) # C) h r"
  by (induction D h r rule: fits.induct) simp_all

section \<open>Removal\<close>

lemma RemoveSwap_spec:
  assumes A: "at T C (nd False b l x r)" and rbt: "rb (plug C (nd False b l x r))" and dep: "length C + height (nd False b l x r) < 63"
  shows "\<exists>C' t' c w T'. RemoveSwap x T = ret (parent_of C', c, w, of_nat (length C'), T') \<and> at T' C' t' \<and> rb t' \<and>
    fits C' (if c then Suc (bh t') else bh t') (\<not> c) \<and> trace_of C' w \<and>
    inorder (plug C' t') = lefts C @ inorder l @ inorder r @ rights C \<and> same_keys T T'"
proof -
  have R: "rb l" "rb r" "bh l = bh r" "fits C (if b then Suc (bh l) else bh l) (\<not> b)"
    using rbt bh_nd [of l r False b x] by (auto simp: rb_plug)
  note nx = at_nd [OF A]
  have len: "length C < 64" using dep by simp
  from TraceParent_at [OF A _ len] obtain w where w: "TraceParent (parent_of C) x T = Some (w, of_nat (length C))" "trace_of C w" by auto
  have one: ?thesis if sh: "nd False b l x r = nd s b m x Leaf" and run: "RemoveSwap x T = map_option Inr (swap_one x (root_of m) T)" for s m
  proof -
    let ?T = "set_parent (parent_of C) (root_of m) (Transplant x (root_of m) T)"
    have A': "at T C (nd s b m x Leaf)" using A sh by simp
    have m: "rb m" "bh m = bh l" "inorder m = inorder l @ inorder r" using R sh by (auto simp: nd_def split: if_splits)
    have "RemoveSwap x T = ret (parent_of C, b, w, of_nat (length C), ?T)" using run nx w(1) by (simp add: swap_one_def Let_def)
    then show ?thesis using unlink_at [OF A' refl] m R(4) w(2) inorder_ctx [of C m]
      by (intro exI [of _ C] exI [of _ m] exI [of _ b] exI [of _ w] exI [of _ ?T]) (cases b; simp)
  qed
  consider (right) "r = Leaf" | (left) "l = Leaf" "r \<noteq> Leaf" | (both) "l \<noteq> Leaf" "r \<noteq> Leaf" by blast
  then show ?thesis
  proof cases
    case right
    then show ?thesis using one [of False l] nx by (simp add: RemoveSwap_def child_def)
  next
    case left
    then obtain rr where "root_of r = Some rr" by (cases r) auto
    then show ?thesis using one [of True r] nx left by (simp add: RemoveSwap_def child_def nd_def)
  next
    case both
    obtain ll where ll: "root_of l = Some ll" using both by (cases l) auto
    obtain rr where rr: "root_of r = Some rr" using both by (cases r) auto
    have "tree_at (m_nodes T) (Some x) r (root_of r)" using at_context(2) [OF A] nx by (simp add: child_def)
    from leftmost_at [OF this both(2)] obtain D b2 n rn where
      D: "leftmost rr T = Some n" "r = plug D (nd False b2 Leaf n rn)" "\<forall>f\<in>set D. \<not> fst f" "D = [] \<longrightarrow> rr = n" using rr by auto
    let ?E = "D @ (True, b, x, l) # C" and ?F = "D @ (True, b, n, l) # C"
    have eq: "nd False b l y v = nd True b v y l" for y v by (simp add: nd_def)
    have AE: "at T ?E (nd False b2 Leaf n rn)" using A D(2) by (simp add: eq at_up [symmetric] at_append)
    have lenE: "length ?E < 64"
    proof -
      have "length D + height (nd False b2 Leaf n rn) \<le> height r" using height_plug [of D] D(2) by simp
      moreover have "Suc (height r) \<le> height (nd False b l x r)" by (simp add: nd_def)
      ultimately show ?thesis using dep by simp
    qed
    from TraceParent_at [OF AE _ lenE] obtain v where v: "TraceParent (parent_of ?E) n T = Some (v, of_nat (length ?E))" "trace_of ?E v" by auto
    note nn = at_nd [OF AE]
    have F: "rb rn" "fits ?F (if b2 then Suc (bh rn) else bh rn) (\<not> b2)"
    proof -
      have "plug ?E (nd False b2 Leaf n rn) = plug C (nd False b l x r)" using D(2) by (simp add: plug_append eq)
      then have "rb (plug ?E (nd False b2 Leaf n rn))" using rbt by simp
      then have "rb rn" "bh rn = 0" "fits ?E (bh (nd False b2 Leaf n rn)) (\<not> b2)" by (simp_all add: rb_plug)
      then show "rb rn" "fits ?F (if b2 then Suc (bh rn) else bh rn) (\<not> b2)" using bh_nd [of Leaf rn False b2 n] fits_append [of D True b x l C _ _ n] by auto
    qed
    have ino: "inorder (plug ?F rn) = lefts C @ inorder l @ inorder r @ rights C"
    proof -
      have "lefts D = []" using D(3) by (induction D rule: lefts.induct) auto
      then have "inorder r = n # inorder (plug D rn)" using D(2) by (simp add: inorder_ctx nd_def)
      then show ?thesis using inorder_ctx [of C "nd True b (plug D rn) n l"] by (simp add: plug_append nd_def)
    qed
    have tr: "trace_of ?F v" using v(2) trace_of_sides [of ?E ?F] by simp
    have run: "RemoveSwap x T = call (swap_next x n ll T) (\<lambda>(out_remove, T'). ret (out_remove, b2, v, of_nat (length ?E), T'))"
      using nx nn ll rr D(1) v(1) by (simp add: RemoveSwap_def child_def)
    obtain T' where T': "swap_next x n ll T = Inr (parent_of ?F, T')" "at T' C (nd False b l n (plug D rn))" "same_keys T T'"
    proof (cases "D = []")
      case True
      then show ?thesis using swap_direct [of T C b l x b2 n rn ll] A D(2) ll that by auto
    next
      case False
      then have "parent_of ?F = parent_of D" by (cases D) auto
      then show ?thesis using swap_far [of T C b l x D b2 n rn ll] A D(2,3) ll that False by auto
    qed
    have "at T' ?F rn" using T'(2) by (simp add: eq at_up [symmetric] at_append)
    then show ?thesis using run T' F tr ino
      by (intro exI [of _ ?F] exI [of _ rn] exI [of _ b2] exI [of _ v] exI [of _ T']) (cases b2; simp)
  qed
qed

lemma remove_search_locate:
  assumes "at T C t" and "root_of t = Some n" and "locate (key_of T) k C t = (C', t')"
  shows "remove_search k n T = (case root_of t' of None \<Rightarrow> Some (Inl Assert_Failed) | Some x \<Rightarrow> ret x)"
  using assms
proof (induction t arbitrary: C n)
  case (Node b l p r)
  show ?case
  proof (cases "key_of T p = k")
    case True
    then show ?thesis using Node.prems by (auto simp: remove_search.simps)
  next
    case False
    define s where "s = (key_of T p < k)"
    define u where "u = (if s then r else l)"
    define v where "v = (if s then l else r)"
    have t: "Node b l p r = nd s b u p v" by (simp add: nd_def u_def v_def)
    have A: "at T ((s, b, p, v) # C) u" using Node.prems(1) unfolding t by (simp add: at_up)
    have loc: "locate (key_of T) k ((s, b, p, v) # C) u = (C', t')" using Node.prems(3) False by (auto simp: s_def u_def v_def split: if_splits)
    have c: "child s (m_nodes T p) = root_of u" "n = p" using at_nd [of T C s b u p v] Node.prems(1,2) t by simp_all
    have unf: "remove_search k n T = (case root_of u of None \<Rightarrow> Some (Inl Assert_Failed) | Some q \<Rightarrow> remove_search k q T)"
      using False c by (subst remove_search.simps) (simp add: s_def [symmetric])
    show ?thesis
    proof (cases u)
      case Leaf
      then show ?thesis using loc unf by auto
    next
      case (Node b' l' p' r')
      then show ?thesis using Node.IH [of "(s, b, p, v) # C" p'] A loc unf by (cases s) (simp_all add: u_def)
    qed
  qed
qed simp

lemma filter_other: "x \<notin> set xs \<Longrightarrow> filter (\<lambda>p. p \<noteq> x) xs = xs"
  by (induction xs) auto

lemma remove_spec:
  assumes rep: "tree_rep T t" and sm: "small t"
  shows "if k \<notin> key_of T ` set (inorder t) then tree_Remove k T = Some (Inl Assert_Failed)
    else \<exists>T' t'. tree_Remove k T = ret T' \<and> tree_rep T' t' \<and> inorder t' = filter (\<lambda>p. key_of T p \<noteq> k) (inorder t) \<and> same_keys T T'"
proof (cases t)
  case Leaf
  then have "m_root T = None" using rep at_root_node [of T Leaf] by (simp add: tree_rep_def)
  then show ?thesis using Leaf by (simp add: tree_Remove_def RemoveImpl_def)
next
  case (Node b0 l0 r0 rr0)
  have R: "at T [] t" "rb t" "\<not> red t" "sorted_wrt (<) (map (key_of T) (inorder t))" using rep by (simp_all add: tree_rep_def)
  obtain C t' where loc: "locate (key_of T) k [] t = (C, t')" by fastforce
  have pl: "plug C t' = t" using locate_plug [OF loc] by simp
  have sp: "split_at (key_of T) k C" "t' = Leaf \<and> k \<notin> key_of T ` set (inorder t) \<or>
    (\<exists>b l p r. t' = shape.Node b l p r \<and> key_of T p = k \<and> p \<in> set (inorder t))"
    using locate_split [OF loc R(4)] by (simp_all add: split_at_def)
  have root: "m_root T = Some r0" using at_root_node [OF R(1)] Node by simp
  have search: "remove_search k r0 T = (case root_of t' of None \<Rightarrow> Some (Inl Assert_Failed) | Some x \<Rightarrow> ret x)"
    using remove_search_locate [OF R(1) _ loc] Node by simp
  show ?thesis
  proof (cases "t' = Leaf")
    case True
    then show ?thesis using sp(2) search root by (simp add: tree_Remove_def RemoveImpl_def)
  next
    case False
    then obtain b l x r where t': "t' = nd False b l x r" "key_of T x = k" "x \<in> set (inorder t)" using sp(2) by (auto simp: nd_def)
    have A: "at T C (nd False b l x r)" using R(1) pl t'(1) at_plug [of T C t'] by simp
    have "length C + height t' < 63" using small_depth [of C t'] R(2,3) pl sm by simp
    then have dep: "length C + height (nd False b l x r) < 63" using t'(1) by simp
    have "rb (plug C (nd False b l x r))" using R(2) pl t'(1) by simp
    from RemoveSwap_spec [OF A this dep] obtain C' s c w T1 where
      S: "RemoveSwap x T = ret (parent_of C', c, w, of_nat (length C'), T1)" "at T1 C' s" "rb s" "fits C' (if c then Suc (bh s) else bh s) (\<not> c)"
      "trace_of C' w" "inorder (plug C' s) = lefts C @ inorder l @ inorder r @ rights C" "same_keys T T1" by blast
    from remove_fixup_spec [OF S(2,3,4,5)] obtain T2 t2 where
      F: "RemoveFixup (parent_of C') w (of_nat (length C')) c T1 = ret T2" "at T2 [] t2" "rb t2" "inorder t2 = inorder (plug C' s)" "same_keys T1 T2" by blast
    let ?T3 = "upd_node x (\<lambda>n. n\<lparr>m_left := None, m_right := None\<rparr>) T2"
    have ino_t: "inorder t = lefts C @ (inorder l @ x # inorder r) @ rights C" using inorder_ctx [of C t'] pl t'(1) by (simp add: nd_def)
    have ino: "inorder t2 = lefts C @ inorder l @ inorder r @ rights C" using F(4) S(6) by simp
    have dist: "distinct (inorder t)" using R(1) by (simp add: at_def)
    have xo: "x \<notin> set (inorder t2)" using dist ino ino_t by auto
    have A3: "at ?T3 [] t2" using F(2) xo by (auto simp: at_def)
    have run: "RemoveImpl k T = ret ?T3" using root search t'(1) S(1) F(1) by (simp add: RemoveImpl_def)
    have keys3: "same_keys T ?T3" using S(7) F(5) by (simp add: same_keys_def)
    have fil: "inorder t2 = filter (\<lambda>p. key_of T p \<noteq> k) (inorder t)"
    proof -
      have "inj_on (key_of T) (set (inorder t))" using R(4) by (simp add: strict_sorted_iff distinct_map)
      then have "filter (\<lambda>p. key_of T p \<noteq> k) (inorder t) = filter (\<lambda>p. p \<noteq> x) (inorder t)"
        using t'(2,3) by (intro filter_cong) (auto simp: inj_on_def)
      also have "\<dots> = inorder t2" using dist ino ino_t filter_other by (auto simp: filter_other)
      finally show ?thesis by simp
    qed
    have srt: "sorted_wrt (<) (map (key_of T) (inorder t2))" using R(4) fil by (simp add: sorted_wrt_map sorted_wrt_filter)
    have k: "k \<in> key_of T ` set (inorder t)" using t'(2,3) by auto
    show ?thesis
    proof (cases t2)
      case Leaf
      then have "tree_Remove k T = ret ?T3" using run at_root_node [OF A3] by (simp add: tree_Remove_def)
      moreover have "tree_rep ?T3 t2" using A3 Leaf by (simp add: tree_rep_def)
      ultimately show ?thesis using k fil keys3 by auto
    next
      case (Node b2 l2 p2 r2)
      let ?t = "shape.Node True l2 p2 r2"
      have "m_root ?T3 = Some p2" using at_root_node [OF A3] Node by simp
      then have "tree_Remove k T = ret (paint_root p2 ?T3)" using run by (simp add: tree_Remove_def)
      moreover have P: "at (paint_root p2 ?T3) [] ?t" "same_keys ?T3 (paint_root p2 ?T3)" using paint_root_at [of ?T3 b2 l2 p2 r2] A3 Node by simp_all
      moreover have keys: "same_keys T (paint_root p2 ?T3)" using keys3 P(2) same_keys_trans by blast
      moreover have "inorder ?t = inorder t2" "rb ?t" using Node F(3) by simp_all
      ultimately have "tree_rep (paint_root p2 ?T3) ?t \<and> inorder ?t = filter (\<lambda>p. key_of T p \<noteq> k) (inorder t)"
        using srt fil rep_keys [OF keys] by (simp add: tree_rep_def)
      then show ?thesis using k keys \<open>tree_Remove k T = ret (paint_root p2 ?T3)\<close> by auto
    qed
  qed
qed

end
