(* ===== verification/Red_Black_Props.thy ===== *)
theory Red_Black_Props
  imports Red_Black_Remove
begin

text \<open>
  The search tree as a whole: \<open>Insert\<close> and \<open>Remove\<close> keep it a balanced search tree and change its sequence of
  nodes as they say, \<open>Find\<close> finds by key, the iterator and \<open>GetCount\<close> go through the sequence, and
  \<open>ClearAll\<close> does not.
\<close>

section \<open>Lookup\<close>

lemma FindImpl_locate:
  assumes "at T C t" and "locate (key_of T) k C t = (C', t')"
  shows "FindImpl (root_of t) k T = Some (root_of t')"
  using assms
proof (induction t arbitrary: C)
  case Leaf
  then show ?case by (auto simp: FindImpl.simps)
next
  case (Node b l p r)
  show ?case
  proof (cases "key_of T p = k")
    case True
    then show ?thesis using Node.prems by (auto simp: FindImpl.simps)
  next
    case False
    define s where "s = (key_of T p < k)"
    define u where "u = (if s then r else l)"
    define v where "v = (if s then l else r)"
    have t: "Node b l p r = nd s b u p v" by (simp add: nd_def u_def v_def)
    have A: "at T ((s, b, p, v) # C) u" using Node.prems(1) unfolding t by (simp add: at_up)
    have loc: "locate (key_of T) k ((s, b, p, v) # C) u = (C', t')" using Node.prems(2) False by (auto simp: s_def u_def v_def split: if_splits)
    have "child s (m_nodes T p) = root_of u" using at_nd [of T C s b u p v] Node.prems(1) t by simp
    then have "FindImpl (root_of (Node b l p r)) k T = FindImpl (root_of u) k T"
      using False by (subst FindImpl.simps) (simp add: s_def [symmetric])
    then show ?thesis using Node.IH [of "(s, b, p, v) # C"] A loc by (cases s) (simp_all add: u_def)
  qed
qed

lemma find_spec:
  assumes "tree_rep T t"
  shows "tree_Find k T = Some (find (\<lambda>p. key_of T p = k) (inorder t))"
proof -
  have R: "at T [] t" "sorted_wrt (<) (map (key_of T) (inorder t))" using assms by (simp_all add: tree_rep_def)
  obtain C t' where loc: "locate (key_of T) k [] t = (C, t')" by fastforce
  have F: "tree_Find k T = Some (root_of t')" using FindImpl_locate [OF R(1) loc] at_root_node [OF R(1)] by (simp add: tree_Find_def)
  have "t' = Leaf \<and> k \<notin> key_of T ` set (inorder t) \<or> (\<exists>b l p r. t' = Node b l p r \<and> key_of T p = k \<and> p \<in> set (inorder t))"
    using locate_split [OF loc R(2)] by (simp add: split_at_def)
  moreover have "find (\<lambda>p. key_of T p = k) (inorder t) = Some p" if "key_of T p = k" "p \<in> set (inorder t)" for p
  proof -
    have "inj_on (key_of T) (set (inorder t))" using R(2) by (simp add: strict_sorted_iff distinct_map)
    then have "\<forall>q\<in>set (inorder t). key_of T q = k \<longrightarrow> q = p" using that by (auto simp: inj_on_def)
    moreover have "find (\<lambda>p. key_of T p = k) (inorder t) \<noteq> None" using that by (auto simp: find_None_iff)
    ultimately show ?thesis by (auto simp: find_Some_iff)
  qed
  ultimately show ?thesis using F by (auto simp: find_None_iff find_None_iff2)
qed

section \<open>Iteration\<close>

lemma climb_at:
  assumes "at T C t" and "root_of t = Some c" and "parent_of C = Some p"
  shows "climb c p T = Some (hd_opt (rights C))"
  using assms
proof (induction C arbitrary: t c p)
  case (Cons f C)
  obtain s b q u where f: "f = (s, b, q, u)" by (cases f)
  have p: "p = q" using Cons.prems(3) f by simp
  have up: "at T C (nd s b t p u)" using Cons.prems(1) f p by (simp add: at_up)
  have "root_of u \<noteq> Some c"
  proof
    assume "root_of u = Some c"
    then have "c \<in> set (inorder u)" "c \<in> set (inorder t)" using Cons.prems(2) by (auto dest: root_of_in)
    then show False using at_context(5) [OF Cons.prems(1)] f by auto
  qed
  then have side: "(m_right (m_nodes T p) \<noteq> Some c) = (\<not> s)" using at_nd [OF up] Cons.prems(2) by (cases s) (auto simp: child_def)
  show ?case
  proof (cases s)
    case False
    then show ?thesis using side f p by (simp add: climb.simps)
  next
    case True
    have "climb c p T = (case parent_of C of None \<Rightarrow> Some None | Some next \<Rightarrow> climb p next T)"
      using True side at_nd [OF up] by (subst climb.simps) simp
    moreover have "climb p q' T = Some (hd_opt (rights C))" if "parent_of C = Some q'" for q' using Cons.IH [OF up _ that] by simp
    moreover have "rights C = []" if "parent_of C = None" using that by (cases C) auto
    ultimately show ?thesis using True f by (cases "parent_of C") auto
  qed
qed simp

lemma leftmost_inorder:
  assumes "tree_at (m_nodes T) par t q" and "t \<noteq> Leaf"
  shows "map_option Some (leftmost (the q) T) = Some (hd_opt (inorder t))"
proof -
  from leftmost_at [OF assms] obtain D b n r where D: "leftmost (the q) T = Some n" "t = plug D (nd False b Leaf n r)" "\<forall>f\<in>set D. \<not> fst f" by blast
  have "lefts D = []" using D(3) by (induction D rule: lefts.induct) auto
  then have "inorder t = n # inorder r @ rights D" using D(2) by (simp add: inorder_ctx nd_def)
  then show ?thesis using D(1) by simp
qed

lemma GetNext_at:
  assumes "at T C (nd False b l p r)"
  shows "GetNext p T = Some (hd_opt (inorder r @ rights C))"
proof (cases "r = Leaf")
  case False
  have "tree_at (m_nodes T) (Some p) r (root_of r)" using at_context(2) [OF assms] at_nd [OF assms] by (simp add: child_def)
  moreover obtain q where "root_of r = Some q" using False by (cases r) auto
  moreover have "inorder r \<noteq> []" using False by (cases r) auto
  ultimately show ?thesis using leftmost_inorder [of T "Some p" r "root_of r"] False at_nd [OF assms]
    by (cases "inorder r") (auto simp: GetNext_def child_def)
next
  case True
  show ?thesis
  proof (cases C)
    case Nil
    then show ?thesis using True at_nd [OF assms] by (simp add: GetNext_def child_def)
  next
    case (Cons f C2)
    obtain s b' q u where f: "f = (s, b', q, u)" by (cases f)
    have "(m_left (m_nodes T q) \<noteq> Some p) = s" using at_side [of T s b' q u C2 "nd False b l p r" p] assms Cons f by simp
    moreover have "climb p q T = Some (hd_opt (rights C))" using climb_at [OF assms, of p q] Cons f by simp
    ultimately show ?thesis using True at_nd [OF assms] Cons f by (auto simp: GetNext_def child_def)
  qed
qed

lemma zip_of: "p \<in> set (inorder t) \<Longrightarrow> \<exists>C b l r. t = plug C (nd False b l p r)"
proof (induction t)
  case (Node b l q r)
  consider "p = q" | "p \<in> set (inorder l)" | "p \<in> set (inorder r)" using Node.prems by auto
  then show ?case
  proof cases
    case 1
    then show ?thesis by (intro exI [of _ "[]"]) (auto simp: nd_def)
  next
    case 2
    from Node.IH(1) [OF this] obtain C b' l' r' where "l = plug C (nd False b' l' p r')" by blast
    then show ?thesis by (intro exI [of _ "C @ [(False, b, q, r)]"]) (auto simp: plug_append nd_def)
  next
    case 3
    from Node.IH(2) [OF this] obtain C b' l' r' where "r = plug C (nd False b' l' p r')" by blast
    then show ?thesis by (intro exI [of _ "C @ [(True, b, q, l)]"]) (auto simp: plug_append nd_def)
  qed
qed simp

lemma next_spec:
  assumes A: "at T [] t" and t: "inorder t = xs @ p # ys"
  shows "GetNext p T = Some (hd_opt ys)"
proof -
  have "p \<in> set (inorder t)" using t by simp
  from zip_of [OF this] obtain C b l r where z: "t = plug C (nd False b l p r)" by (elim exE)
  have "at T C (nd False b l p r)" using A z at_plug [of T C "nd False b l p r"] by simp
  note n = GetNext_at [OF this]
  have e: "xs @ p # ys = (lefts C @ inorder l) @ p # (inorder r @ rights C)" using t z inorder_ctx [of C "nd False b l p r"] by (simp add: nd_def)
  have "distinct (xs @ p # ys)" using A t by (simp add: at_def)
  then have "ys = inorder r @ rights C" using e by (metis append_Cons_eq_iff distinct.simps(2) distinct_append disjoint_insert(1) list.simps(15))
  then show ?thesis using n by simp
qed

lemma begin_spec: "at T [] t \<Longrightarrow> tree_begin T = Some (hd_opt (inorder t))"
proof -
  assume A: "at T [] t"
  show ?thesis
  proof (cases t)
    case Leaf
    then show ?thesis using at_root_node [OF A] by (simp add: tree_begin_def)
  next
    case (Node b l p r)
    then show ?thesis using at_root_node [OF A] leftmost_inorder [of T None t "root_of t"] at_context(2) [OF A] by (simp add: tree_begin_def)
  qed
qed

lemma count_from_spec:
  "at T [] t \<Longrightarrow> inorder t = xs @ ys \<Longrightarrow> count_from n (hd_opt ys) T = Some (n + of_nat (length ys))"
proof (induction ys arbitrary: xs n)
  case (Cons y ys)
  have "GetNext y T = Some (hd_opt ys)" using next_spec [OF Cons.prems(1), of xs y ys] Cons.prems(2) by simp
  then show ?case using Cons.IH [of "xs @ [y]" "n + 1"] Cons.prems by (subst count_from.simps) (simp add: add.commute add.left_commute)
qed (simp add: count_from.simps)

lemma GetCount_spec: "at T [] t \<Longrightarrow> tree_GetCount T = Some (of_nat (length (inorder t)))"
  using begin_spec [of T t] count_from_spec [of T t "[]" "inorder t" 0] by (simp add: tree_GetCount_def)

section \<open>The tree\<close>

text \<open>A tree of three nodes, the nodes named by their keys.\<close>

definition three_nodes :: "(nat, nat) rb_tree" where
  "three_nodes = \<lparr>m_nodes = (\<lambda>p. \<lparr>m_left = (if p = 2 then Some 1 else None), m_right = (if p = 2 then Some 3 else None),
     m_parent = (if p = 1 \<or> p = 3 then Some 2 else None), m_color = (p = 2), m_key = p\<rparr>), m_root = Some 2\<rparr>"

definition three_shape :: "nat shape" where
  "three_shape = Node True (Node False Leaf 1 Leaf) 2 (Node False Leaf 3 Leaf)"

lemma three_rep: "tree_rep three_nodes three_shape"
  by (simp add: tree_rep_def at_def three_nodes_def three_shape_def)

lemma three_inorder: "inorder three_shape = [1, 2, 3]"
  by (simp add: three_shape_def)

lemma three_node [simp]: "key_of three_nodes p = p" "m_left (m_nodes three_nodes 7) = None" "m_right (m_nodes three_nodes 7) = None"
  by (simp_all add: three_nodes_def)

lemma three_small: "small three_shape"
  by (simp add: small_def three_inorder)

text \<open>
  C2: \<open>Insert\<close> of an unlinked node into a balanced search tree always returns.  With an equal key in the tree
  it fails the collision assertion; otherwise the result is again a balanced search tree (no red node has a
  red child, all paths have the same number of black nodes, the parent links agree with the child links),
  its nodes are the old ones with the new one at the place of its key, and no key has changed.
\<close>

theorem tree_insert:
  assumes "tree_rep T t" and "small t" and "x \<notin> set (inorder t)"
    and "m_left (m_nodes T x) = None" and "m_right (m_nodes T x) = None"
  shows "if key_of T x \<in> key_of T ` set (inorder t) then tree_Insert x T = Some (Inl Assert_Failed)
    else \<exists>T' t'. tree_Insert x T = ret T' \<and> tree_rep T' t' \<and> inorder t' = insort_key (key_of T) x (inorder t) \<and> same_keys T T'"
  using assms by (rule insert_spec)

theorem tree_insert_witness:
  "\<exists>T' t'. tree_Insert 7 three_nodes = ret T' \<and> tree_rep T' t' \<and> inorder t' = [1, 2, 3, 7] \<and> same_keys three_nodes T'"
  using tree_insert [OF three_rep three_small, of 7] by (simp add: three_inorder)

text \<open>
  C1: \<open>Remove\<close> by key always returns.  Without the key in the tree it fails an assertion; otherwise the result
  is again a balanced search tree, and its nodes are the old ones without the one of that key, in their order.
\<close>

theorem tree_remove:
  assumes "tree_rep T t" and "small t"
  shows "if k \<notin> key_of T ` set (inorder t) then tree_Remove k T = Some (Inl Assert_Failed)
    else \<exists>T' t'. tree_Remove k T = ret T' \<and> tree_rep T' t' \<and> inorder t' = filter (\<lambda>p. key_of T p \<noteq> k) (inorder t) \<and> same_keys T T'"
  using assms by (rule remove_spec)

theorem tree_remove_witness:
  "\<exists>T' t'. tree_Remove 2 three_nodes = ret T' \<and> tree_rep T' t' \<and> inorder t' = [1, 3] \<and> same_keys three_nodes T'"
  using tree_remove [OF three_rep three_small, of 2] by (simp add: three_inorder)

text \<open>
  C39: On every balanced search tree \<open>Find\<close> returns the node with the key or null, the iterator starts at the
  node with the least key, goes from each node to the next one in the order of keys and ends after the
  greatest, and \<open>GetCount\<close> is their number modulo 2 to the 64.
\<close>

theorem tree_lookup_and_iteration:
  assumes "tree_rep T t"
  shows "tree_Find k T = Some (find (\<lambda>p. key_of T p = k) (inorder t)) \<and>
    tree_begin T = Some (hd_opt (inorder t)) \<and>
    (inorder t = xs @ p # ys \<longrightarrow> GetNext p T = Some (hd_opt ys)) \<and>
    tree_GetCount T = Some (of_nat (length (inorder t)))"
  using find_spec [OF assms] begin_spec [of T t] next_spec [of T t xs p ys] GetCount_spec [of T t] assms
  by (simp add: tree_rep_def)

theorem tree_lookup_and_iteration_witness:
  "tree_Find 3 three_nodes = Some (Some 3) \<and> tree_begin three_nodes = Some (Some 1) \<and> GetNext 1 three_nodes = Some (Some 2) \<and>
   tree_GetCount three_nodes = Some 3"
  using tree_lookup_and_iteration [OF three_rep, of 3 "[]" 1 "[2, 3]"] by (simp add: three_inorder)

text \<open>
  \<open>ClearAll\<close> unlinks each object once it has the next one.  The climb out of a right subtree then ends at an
  ancestor that has lost its links: an inner node is handed to the lambda a second time, and the root pointer
  is left.
\<close>

lemma clear_all_repeats:
  "\<exists>T'. ClearAll three_nodes = Some ([1, 2, 3, 2], T') \<and> m_root T' = Some 2"
proof -
  have d: "tree_begin three_nodes = Some (Some 1)"
    using begin_spec [of three_nodes three_shape] three_rep by (simp add: three_inorder tree_rep_def)
  define T1 where "T1 = ForceUnlink 1 three_nodes"
  define T2 where "T2 = ForceUnlink 2 T1"
  define T3 where "T3 = ForceUnlink 3 T2"
  note u = T1_def T2_def T3_def ForceUnlink_def upd_node_def three_nodes_def GetNext_def
  have n: "GetNext 1 three_nodes = Some (Some 2)" "GetNext 2 T1 = Some (Some 3)" "GetNext 3 T2 = Some (Some 2)" "GetNext 2 T3 = Some None"
    by (simp_all add: u leftmost.simps climb.simps)
  have e: "clear_from None c T = Some (rev c, T)" for c and T :: "(nat, nat) rb_tree" by (simp add: clear_from.simps)
  have "clear_from (Some 2) [3, 2, 1] T3 = Some ([1, 2, 3, 2], ForceUnlink 2 T3)" using n(4) e by (subst clear_from.simps) simp
  then have "clear_from (Some 3) [2, 1] T2 = Some ([1, 2, 3, 2], ForceUnlink 2 T3)" using n(3) by (subst clear_from.simps) (simp add: T3_def)
  then have "clear_from (Some 2) [1] T1 = Some ([1, 2, 3, 2], ForceUnlink 2 T3)" using n(2) by (subst clear_from.simps) (simp add: T2_def)
  then have "clear_from (Some 1) [] three_nodes = Some ([1, 2, 3, 2], ForceUnlink 2 T3)" using n(1) by (subst clear_from.simps) (simp add: T1_def)
  then have "ClearAll three_nodes = Some ([1, 2, 3, 2], ForceUnlink 2 T3)" using d by (simp add: ClearAll_def)
  then show ?thesis by (simp add: u)
qed

end
