(* ===== verification/Byte_Memory.thy ===== *)
theory Byte_Memory
  imports Bit_Util
begin

text \<open>
  Memory as bytes: what a structure laid over a buffer, \<open>memcpy\<close>, \<open>memset\<close> and the string functions do.  An
  address is a \<open>u64\<close> and a memory a function from addresses to bytes; words are little endian.  A list of
  writes to ranges that do not meet leaves each range as it was written.
\<close>

section \<open>Words as bytes\<close>

definition bytes :: "nat \<Rightarrow> 'a::len word \<Rightarrow> u8 list" where
  "bytes n x = map (\<lambda>i. ucast (drop_bit (8 * i) x)) [0..<n]"

lemma length_bytes [simp]: "length (bytes n x) = n"
  by (simp add: bytes_def)

definition of_bytes :: "u8 list \<Rightarrow> 'a::len word" where
  "of_bytes bs = foldr (\<lambda>c w. ucast c OR push_bit 8 w) bs 0"

lemma bytes_of_list:
  "length bs = n \<Longrightarrow> 8 * n \<le> LENGTH('a) \<Longrightarrow> bytes n (of_bytes bs :: 'a::len word) = bs"
proof (induction bs arbitrary: n)
  case (Cons c bs)
  define w :: "'a word" where "w = of_bytes bs"
  obtain m where m: "n = Suc m" "length bs = m" using Cons.prems by (cases n) auto
  have IH: "bytes m w = bs" unfolding w_def using Cons.IH [of m] Cons.prems m by simp
  have top: "bs ! j = ucast (drop_bit (8 * j) w)" if "j < m" for j using that by (simp add: bytes_def flip: IH)
  show ?case
  proof (intro nth_equalityI)
    fix i assume i: "i < length (bytes n (of_bytes (c # bs) :: 'a word))"
    have "ucast (drop_bit (8 * i) (ucast c OR push_bit 8 w)) = (c # bs) ! i"
    proof (cases i)
      case 0
      have "8 \<le> LENGTH('a)" using Cons.prems m by simp
      then show ?thesis using 0 by (auto simp: bit_simps intro!: bit_word_eqI)
    next
      case (Suc j)
      have "bit c b = False" if "8 \<le> b" for b using that bit_imp_le_length [of c b] by auto
      then have "ucast (drop_bit (8 * i) (ucast c OR push_bit 8 w)) = (ucast (drop_bit (8 * j) w) :: u8)"
        using Suc Cons.prems i m by (auto simp: bit_simps intro!: bit_word_eqI)
      then show ?thesis using top [of j] Suc i m by simp
    qed
    then show "bytes n (of_bytes (c # bs) :: 'a word) ! i = (c # bs) ! i"
      using i by (simp add: bytes_def w_def of_bytes_def)
  qed (use m in simp)
qed (simp add: bytes_def)

lemma bytes_inject: "LENGTH('a) \<le> 8 * n \<Longrightarrow> bytes n x = bytes n y \<Longrightarrow> x = y" for x y :: "'a::len word"
proof (rule bit_word_eqI)
  fix k assume n: "LENGTH('a) \<le> 8 * n" and e: "bytes n x = bytes n y" and k: "k < LENGTH('a)"
  have "bytes n x ! (k div 8) = bytes n y ! (k div 8)" using e by simp
  moreover have "k div 8 < n" using n k by (simp add: less_mult_imp_div_less mult.commute)
  ultimately have "ucast (drop_bit (8 * (k div 8)) x) = (ucast (drop_bit (8 * (k div 8)) y) :: u8)" by (simp add: bytes_def)
  then have "bit (ucast (drop_bit (8 * (k div 8)) x) :: u8) (k mod 8) = bit (ucast (drop_bit (8 * (k div 8)) y) :: u8) (k mod 8)" by simp
  then show "bit x k = bit y k" by (simp add: bit_simps)
qed

lemma of_bytes_bytes: "8 * n = LENGTH('a) \<Longrightarrow> of_bytes (bytes n w) = w" for w :: "'a::len word"
  by (rule bytes_inject [of n]) (simp_all add: bytes_of_list)

section \<open>Memory\<close>

type_synonym memory = "u64 \<Rightarrow> u8"

definition read_bytes :: "memory \<Rightarrow> u64 \<Rightarrow> nat \<Rightarrow> u8 list" where
  "read_bytes m p n = map (\<lambda>i. m (p + of_nat i)) [0..<n]"

definition write_bytes :: "u64 \<Rightarrow> u8 list \<Rightarrow> memory \<Rightarrow> memory" where
  "write_bytes p bs m = (\<lambda>a. if unat (a - p) < length bs then bs ! unat (a - p) else m a)"

definition read16 :: "memory \<Rightarrow> u64 \<Rightarrow> u16" where "read16 m p = of_bytes (read_bytes m p 2)"
definition read32 :: "memory \<Rightarrow> u64 \<Rightarrow> u32" where "read32 m p = of_bytes (read_bytes m p 4)"
definition write16 :: "u64 \<Rightarrow> u16 \<Rightarrow> memory \<Rightarrow> memory" where "write16 p w = write_bytes p (bytes 2 w)"
definition write32 :: "u64 \<Rightarrow> u32 \<Rightarrow> memory \<Rightarrow> memory" where "write32 p w = write_bytes p (bytes 4 w)"

lemma length_read_bytes [simp]: "length (read_bytes m p n) = n"
  by (simp add: read_bytes_def)

lemma read16_bytes: "read_bytes m p 2 = bytes 2 w \<Longrightarrow> read16 m p = w"
  by (simp add: read16_def of_bytes_bytes)

lemma read32_bytes: "read_bytes m p 4 = bytes 4 w \<Longrightarrow> read32 m p = w"
  by (simp add: read32_def of_bytes_bytes)

lemma read_written: "length bs < 2 ^ 64 \<Longrightarrow> n = length bs \<Longrightarrow> read_bytes (write_bytes p bs m) p n = bs"
  by (intro nth_equalityI) (simp_all add: read_bytes_def write_bytes_def unat_of_nat_less)

text \<open>Offsets from a base keep their distance when they do not wrap.\<close>

lemma offset_distance:
  fixes b :: u64
  assumes "i + k \<le> j \<or> j + n \<le> i" and "i + k < 2 ^ 64" and "j + n < 2 ^ 64" and "t < n"
  shows "k \<le> unat ((b + of_nat j + of_nat t) - (b + of_nat i))"
proof -
  have e: "(b + of_nat j + of_nat t) - (b + of_nat i) = of_nat (j + t) - (of_nat i :: u64)" by simp
  show ?thesis
  proof (cases "i \<le> j + t")
    case True
    then have "of_nat (j + t) - (of_nat i :: u64) = of_nat (j + t - i)" by (simp add: of_nat_diff)
    moreover have "unat (of_nat (j + t - i) :: u64) = j + t - i" using assms by (intro unat_of_nat_less) simp
    ultimately show ?thesis using assms True by (simp only: e) auto
  next
    case False
    then have "of_nat (j + t) - (of_nat i :: u64) = - of_nat (i - (j + t))" by (simp add: of_nat_diff)
    moreover have "unat (- of_nat (i - (j + t)) :: u64) = 2 ^ 64 - (i - (j + t))"
    proof -
      have "of_nat (2 ^ 64 - (i - (j + t))) = (of_nat (2 ^ 64) :: u64) - of_nat (i - (j + t))" using assms by (intro of_nat_diff) simp
      then have "- of_nat (i - (j + t)) = (of_nat (2 ^ 64 - (i - (j + t))) :: u64)" by simp
      moreover have "unat (of_nat (2 ^ 64 - (i - (j + t))) :: u64) = 2 ^ 64 - (i - (j + t))" using False by (intro unat_of_nat_less) simp
      ultimately show ?thesis by (simp only:)
    qed
    ultimately show ?thesis using assms False by (simp only: e)
  qed
qed

lemma read_frame:
  assumes "i + length bs \<le> j \<or> j + n \<le> i" and "i + length bs < 2 ^ 64" and "j + n < 2 ^ 64"
  shows "read_bytes (write_bytes (b + of_nat i) bs m) (b + of_nat j) n = read_bytes m (b + of_nat j) n"
proof -
  have "write_bytes (b + of_nat i) bs m (b + of_nat j + of_nat t) = m (b + of_nat j + of_nat t)" if "t < n" for t
    using leD [OF offset_distance [OF assms that, of b]] by (simp only: write_bytes_def if_False)
  then show ?thesis by (simp add: read_bytes_def)
qed

section \<open>A list of writes\<close>

type_synonym chunk = "nat \<times> u8 list"

definition write_chunks :: "u64 \<Rightarrow> chunk list \<Rightarrow> memory \<Rightarrow> memory" where
  "write_chunks b cs m = foldl (\<lambda>m (i, bs). write_bytes (b + of_nat i) bs m) m cs"

definition disjoint_chunks :: "chunk \<Rightarrow> chunk \<Rightarrow> bool" where
  "disjoint_chunks c d \<longleftrightarrow> fst c + length (snd c) \<le> fst d \<or> fst d + length (snd d) \<le> fst c"

definition chunk_ok :: "chunk \<Rightarrow> bool" where
  "chunk_ok c \<longleftrightarrow> fst c + length (snd c) < 2 ^ 64"

lemma write_chunks_simps [simp]:
  "write_chunks b [] m = m" "write_chunks b ((i, bs) # cs) m = write_chunks b cs (write_bytes (b + of_nat i) bs m)"
  "write_chunks b (cs @ ds) m = write_chunks b ds (write_chunks b cs m)"
  by (simp_all add: write_chunks_def)

lemma write_chunks_frame:
  assumes "\<forall>c\<in>set cs. chunk_ok c \<and> disjoint_chunks c (j, bs)" and "j + length bs < 2 ^ 64"
  shows "read_bytes (write_chunks b cs m) (b + of_nat j) (length bs) = read_bytes m (b + of_nat j) (length bs)"
  using assms(1)
proof (induction cs arbitrary: m)
  case (Cons c cs)
  obtain i cb where c: "c = (i, cb)" by (cases c)
  then show ?case using Cons read_frame [of i cb j "length bs" b m] assms(2) by (auto simp: disjoint_chunks_def chunk_ok_def)
qed simp

lemma read_chunk:
  assumes "\<forall>c\<in>set cs. chunk_ok c" and "sorted_wrt disjoint_chunks cs" and "(i, bs) \<in> set cs"
  shows "read_bytes (write_chunks b cs m) (b + of_nat i) (length bs) = bs"
  using assms
proof (induction cs arbitrary: m)
  case (Cons c cs)
  show ?case
  proof (cases "c = (i, bs)")
    case True
    have ok: "i + length bs < 2 ^ 64" using Cons.prems(1) True by (simp add: chunk_ok_def)
    have "\<forall>d\<in>set cs. chunk_ok d \<and> disjoint_chunks d (i, bs)" using Cons.prems True by (auto simp: disjoint_chunks_def)
    from write_chunks_frame [OF this ok] show ?thesis using True ok by (simp add: read_written)
  next
    case False
    then show ?thesis using Cons by (cases c) auto
  qed
qed simp

end
