(* ===== verification/Crc32.thy ===== *)
theory Crc32
  imports Byte_Memory
begin

text \<open>
  The CRC-32 of \<open>util_crc32b.x86.hpp\<close>.  At compile time it goes byte by byte through a table; at run time it
  takes eight or four bytes at once with two carry-less products.  \<open>crc_of\<close> is the reference, one bit at a
  time; both ways of the code are shown to be it.  A string is the array its pointer points into, and a read
  past the end of that array is a fault.
\<close>

section \<open>The carry-less product\<close>

text \<open>\<open>pclmulqdq\<close> of \<open>util_int128.avx2.hpp\<close>, the branch of constant evaluation, which spells the instruction out.\<close>

definition xor_all :: "bool list \<Rightarrow> bool" where
  "xor_all bs = foldr (\<noteq>) bs False"

definition set_bits_where :: "(nat \<Rightarrow> bool) \<Rightarrow> u64" where
  "set_bits_where f = foldl (\<lambda>out i. out OR push_bit i (of_bool (f i))) 0 [0..<64]"

definition PclmulSelectionMask :: "bool \<Rightarrow> bool \<Rightarrow> u32" where
  "PclmulSelectionMask a b = push_bit 4 (of_bool b) OR of_bool a"

definition pclmulqdq :: "u64 \<times> u64 \<Rightarrow> u64 \<times> u64 \<Rightarrow> u32 \<Rightarrow> u64 \<times> u64" where
  "pclmulqdq a b selection_mask =
     (let sel1 = (if selection_mask AND 1 = 0 then fst a else snd a);
          sel2 = (if drop_bit 4 selection_mask AND 1 = 0 then fst b else snd b);
          out1 = set_bits_where (\<lambda>i. xor_all (map (\<lambda>j. bit sel1 j \<and> bit sel2 (i - j)) [0..<i + 1]));
          out2 = set_bits_where (\<lambda>i. xor_all (map (\<lambda>j. bit sel1 j \<and> bit sel2 (i + 64 - j)) [i + 64 - 63..<64]))
      in (out1, out2 AND NOT (push_bit 63 1)))"

section \<open>The code\<close>

definition crc_constant :: "u64 \<times> u64" where
  "crc_constant = (0xB4E5B025F7011641, 0x00000001DB710641)"

definition Crc32b_32 :: "u32 \<Rightarrow> u32 \<Rightarrow> u32" where
  "Crc32b_32 value accumulate =
     (let state = (push_bit 32 (ucast (value XOR accumulate)), 0);
          state = pclmulqdq state crc_constant (PclmulSelectionMask False False);
          state = pclmulqdq state crc_constant (PclmulSelectionMask False True)
      in ucast (snd state))"

definition Crc32b_64 :: "u64 \<Rightarrow> u32 \<Rightarrow> u32" where
  "Crc32b_64 value accumulate =
     (let state = (value XOR ucast accumulate, 0);
          state = pclmulqdq state crc_constant (PclmulSelectionMask False False);
          state = pclmulqdq state crc_constant (PclmulSelectionMask False True)
      in ucast (snd state))"

definition cCrc32bSeed :: u32 where "cCrc32bSeed = 0xedb88320"

definition table_step :: "u32 \<Rightarrow> u32" where
  "table_step seed = (if seed AND 1 \<noteq> 0 then drop_bit 1 seed XOR cCrc32bSeed else drop_bit 1 seed)"

definition table_entry :: "u32 \<Rightarrow> u32" where
  "table_entry i =
     (let seed = drop_bit 1 i AND 0x7fffffff;
          seed = (if i AND 1 \<noteq> 0 then seed XOR cCrc32bSeed else seed)
      in (table_step ^^ 7) seed)"

definition cCrc32bTable :: "u32 list" where
  "cCrc32bTable = map (\<lambda>i. table_entry (of_nat i)) [0..<256]"

text \<open>One byte: \<open>cCrc32bTable[(byte ^ seed) & 0xff] ^ seed >> 8\<close>; a \<open>char\<close> is sign extended, an \<open>u8\<close> is not.\<close>

definition char_step :: "u32 \<Rightarrow> u8 \<Rightarrow> u32" where
  "char_step seed c = cCrc32bTable ! unat ((scast c XOR seed) AND 0xff) XOR drop_bit 8 seed"

definition byte_step :: "u32 \<Rightarrow> u8 \<Rightarrow> u32" where
  "byte_step seed b = cCrc32bTable ! unat ((ucast b XOR seed) AND 0xff) XOR drop_bit 8 seed"

text \<open>The bytes of a string end at its zero; a string without one runs off its array.\<close>

fun constant_string_loop :: "u32 \<Rightarrow> u8 list \<Rightarrow> u32 result" where
  "constant_string_loop seed [] = Inl Out_Of_Bounds"
| "constant_string_loop seed (c # cs) = (if c \<noteq> 0 then constant_string_loop (char_step seed c) cs else Inr (NOT seed))"

definition strlen :: "u8 list \<Rightarrow> nat result" where
  "strlen cs = (if 0 \<in> set cs then Inr (length (takeWhile (\<lambda>c. c \<noteq> 0) cs)) else Inl Out_Of_Bounds)"

definition word_at :: "u8 list \<Rightarrow> nat \<Rightarrow> nat \<Rightarrow> u64 result" where
  "word_at cs i n = (if i + n \<le> length cs then Inr (of_bytes (take n (drop i cs))) else Inl Out_Of_Bounds)"

fun aligned_loop :: "u8 list \<Rightarrow> nat \<Rightarrow> nat \<Rightarrow> u32 \<Rightarrow> u32 result" where
  "aligned_loop cs i 0 seed = Inr seed"
| "aligned_loop cs i (Suc n) seed = bind_result (word_at cs i 8) (\<lambda>val. aligned_loop cs (i + 8) n (Crc32b_64 val seed))"

definition four_byte_fallback :: "u8 list \<Rightarrow> nat \<Rightarrow> nat \<Rightarrow> u32 \<Rightarrow> (nat \<times> u32) result" where
  "four_byte_fallback cs data_size leftover seed =
     (if data_size AND 4 \<noteq> 0
      then bind_result (word_at cs leftover 4) (\<lambda>val. Inr (leftover + 4, Crc32b_32 (ucast val) seed))
      else Inr (leftover, seed))"

definition leftover_char :: "u8 list \<Rightarrow> nat \<Rightarrow> u32 \<Rightarrow> u32 result" where
  "leftover_char cs i seed = bind_result (load cs i) (\<lambda>c. Inr (if c \<noteq> 0 then char_step seed c else seed))"

definition HashCrc32bWithContext :: "bool \<Rightarrow> u32 \<Rightarrow> u8 list \<Rightarrow> u32 result" where
  "HashCrc32bWithContext constant_evaluated context string =
     (if constant_evaluated then constant_string_loop context string
      else
        bind_result (strlen string) (\<lambda>size.
        let aligned_size = size div 8 * 8 in
        bind_result (aligned_loop string 0 (aligned_size div 8) context) (\<lambda>seed.
        bind_result (four_byte_fallback string size aligned_size seed) (\<lambda>(leftover, seed).
        bind_result (leftover_char string leftover seed) (\<lambda>seed.
        bind_result (leftover_char string (leftover + 1) seed) (\<lambda>seed.
        bind_result (leftover_char string (leftover + 2) seed) (\<lambda>seed. Inr (NOT seed))))))))"

definition HashCrc32b :: "bool \<Rightarrow> u8 list \<Rightarrow> u32 result" where
  "HashCrc32b constant_evaluated string = HashCrc32bWithContext constant_evaluated 0xffffffff string"

fun constant_data_loop :: "u32 \<Rightarrow> u8 list \<Rightarrow> nat \<Rightarrow> u32 result" where
  "constant_data_loop seed data 0 = Inr (NOT seed)"
| "constant_data_loop seed [] (Suc n) = Inl Out_Of_Bounds"
| "constant_data_loop seed (b # data) (Suc n) = constant_data_loop (byte_step seed b) data n"

definition THashDataCrc32b :: "u8 list \<Rightarrow> nat \<Rightarrow> u32 result" where
  "THashDataCrc32b data data_size = constant_data_loop 0xffffffff data data_size"

definition leftover_byte :: "bool \<Rightarrow> u8 list \<Rightarrow> nat \<Rightarrow> u32 \<Rightarrow> u32 result" where
  "leftover_byte there data i seed = (if there then bind_result (load data i) (\<lambda>b. Inr (byte_step seed b)) else Inr seed)"

definition HashDataCrc32bWithContext :: "u32 \<Rightarrow> u8 list \<Rightarrow> nat \<Rightarrow> u32 result" where
  "HashDataCrc32bWithContext context data data_size =
     (let aligned_size = data_size div 8 * 8 in
      bind_result (aligned_loop data 0 (aligned_size div 8) context) (\<lambda>seed.
      bind_result (four_byte_fallback data data_size aligned_size seed) (\<lambda>(leftover, seed).
      let count = data_size mod 4 in
      bind_result (leftover_byte (0 < count) data leftover seed) (\<lambda>seed.
      bind_result (leftover_byte (1 < count) data (leftover + 1) seed) (\<lambda>seed.
      bind_result (leftover_byte (2 < count) data (leftover + 2) seed) (\<lambda>seed. Inr (NOT seed)))))))"

definition HashDataCrc32b :: "u8 list \<Rightarrow> nat \<Rightarrow> u32 result" where
  "HashDataCrc32b data data_size = HashDataCrc32bWithContext 0xffffffff data data_size"

section \<open>The reference\<close>

text \<open>CRC-32, reflected, polynomial \<open>0xedb88320\<close>: one byte is eight shifts of the register.\<close>

definition crc_byte :: "u32 \<Rightarrow> u8 \<Rightarrow> u32" where
  "crc_byte seed b = (table_step ^^ 8) (seed XOR ucast b)"

definition crc_of :: "u32 \<Rightarrow> u8 list \<Rightarrow> u32" where
  "crc_of seed bs = foldl crc_byte seed bs"

section \<open>The product as a sum of shifts\<close>

lemma xor_all_Cons [simp]: "xor_all [] = False" "xor_all (b # bs) = (b \<noteq> xor_all bs)"
  by (simp_all add: xor_all_def)

lemma xor_all_card: "distinct xs \<Longrightarrow> xor_all (map P xs) = odd (card {x \<in> set xs. P x})"
proof (induction xs)
  case (Cons x xs)
  have "{y \<in> set (x # xs). P y} = (if P x then insert x {y \<in> set xs. P y} else {y \<in> set xs. P y})" by auto
  then show ?case using Cons by (simp add: card_insert_if)
qed simp

lemma xor_all_xor: "xor_all (map (\<lambda>x. f x \<noteq> g x) xs) = (xor_all (map f xs) \<noteq> xor_all (map g xs))"
  by (induction xs) auto

lemma foldl_or_bits:
  "bit (foldl (\<lambda>out i. out OR push_bit i (of_bool (f i))) w [0..<k]) n \<longleftrightarrow> bit (w :: 'a::len word) n \<or> n < k \<and> n < LENGTH('a) \<and> f n"
  by (induction k) (auto simp: bit_simps less_Suc_eq)

lemma bit_set_bits_where: "bit (set_bits_where f) n \<longleftrightarrow> n < 64 \<and> f n"
  by (simp add: set_bits_where_def foldl_or_bits)

definition xor_words :: "nat list \<Rightarrow> (nat \<Rightarrow> 'a::len word) \<Rightarrow> 'a word" where
  "xor_words ks f = foldr (\<lambda>k w. f k XOR w) ks 0"

lemma bit_xor_words: "bit (xor_words ks f) i = xor_all (map (\<lambda>k. bit (f k) i) ks)"
  by (induction ks) (simp_all add: xor_words_def bit_simps)

definition ones :: "u64 \<Rightarrow> nat list" where
  "ones c = filter (bit c) [0..<64]"

lemma xor_ones: "xor_all (map P (ones c)) = odd (card {k. k < 64 \<and> bit c k \<and> P k})"
proof -
  have "{k \<in> set (ones c). P k} = {k. k < 64 \<and> bit c k \<and> P k}" by (auto simp: ones_def)
  then show ?thesis by (simp add: xor_all_card ones_def)
qed

lemma product_low:
  fixes x c :: u64
  assumes "i < 64"
  shows "xor_all (map (\<lambda>j. bit x j \<and> bit c (i - j)) [0..<i + 1]) = xor_all (map (\<lambda>k. bit (push_bit k x) i) (ones c))"
proof -
  have "bij_betw (\<lambda>j. i - j) {j. j \<le> i \<and> bit x j \<and> bit c (i - j)} {k. k < 64 \<and> bit c k \<and> bit (push_bit k x) i}"
    using assms by (intro bij_betw_byWitness [where f' = "\<lambda>k. i - k"]) (auto simp: bit_simps)
  moreover have "{j \<in> set [0..<i + 1]. bit x j \<and> bit c (i - j)} = {j. j \<le> i \<and> bit x j \<and> bit c (i - j)}" by auto
  ultimately show ?thesis by (simp add: xor_ones xor_all_card bij_betw_same_card del: upt_Suc)
qed

lemma product_high:
  fixes x c :: u64
  assumes "i < 64"
  shows "xor_all (map (\<lambda>j. bit x j \<and> bit c (i + 64 - j)) [i + 64 - 63..<64]) = xor_all (map (\<lambda>k. bit (drop_bit (64 - k) x) i) (ones c))"
proof -
  have ge: "\<not> bit x n" if "64 \<le> n" for n using that bit_imp_le_length [of x n] by auto
  have "bij_betw (\<lambda>j. i + 64 - j) {j. i < j \<and> j < 64 \<and> bit x j \<and> bit c (i + 64 - j)} {k. k < 64 \<and> bit c k \<and> bit (drop_bit (64 - k) x) i}"
  proof (rule bij_betw_byWitness [where f' = "\<lambda>k. i + 64 - k"])
    show "(\<lambda>k. i + 64 - k) ` {k. k < 64 \<and> bit c k \<and> bit (drop_bit (64 - k) x) i} \<subseteq> {j. i < j \<and> j < 64 \<and> bit x j \<and> bit c (i + 64 - j)}"
    proof safe
      fix k assume k: "k < 64" "bit c k" "bit (drop_bit (64 - k) x) i"
      then have "bit x (64 - k + i)" by (simp add: bit_simps)
      then show "i < i + 64 - k" "i + 64 - k < 64" "bit x (i + 64 - k)" "bit c (i + 64 - (i + 64 - k))"
        using k ge [of "64 - k + i"] by (auto simp: add.commute not_le [symmetric] intro: ccontr)
    qed
  qed (auto simp: bit_simps assms algebra_simps)
  moreover have "{j \<in> set [i + 64 - 63..<64]. bit x j \<and> bit c (i + 64 - j)} = {j. i < j \<and> j < 64 \<and> bit x j \<and> bit c (i + 64 - j)}" by auto
  ultimately show ?thesis by (simp add: xor_ones xor_all_card bij_betw_same_card del: upt_Suc)
qed

definition low_product :: "u64 \<Rightarrow> u64 \<Rightarrow> u64" where
  "low_product c x = xor_words (ones c) (\<lambda>k. push_bit k x)"

definition high_product :: "u64 \<Rightarrow> u64 \<Rightarrow> u64" where
  "high_product c x = xor_words (ones c) (\<lambda>k. drop_bit (64 - k) x)"

lemma masks: "PclmulSelectionMask False False = 0" "PclmulSelectionMask False True = 16"
  by (simp_all add: PclmulSelectionMask_def)

lemma low_product_eq: "fst (pclmulqdq (x, x') (c, c') 0) = low_product c x"
proof (rule bit_word_eqI)
  fix n assume "n < LENGTH(64)"
  then have n: "n < 64" by simp
  show "bit (fst (pclmulqdq (x, x') (c, c') 0)) n = bit (low_product c x) n"
    using product_low [OF n, of x c] n by (simp add: pclmulqdq_def bit_set_bits_where low_product_def bit_xor_words Let_def del: upt_Suc)
qed

lemma top_bit_cleared: "n < 64 \<Longrightarrow> bit (w AND NOT (push_bit 63 1)) n \<longleftrightarrow> bit w n \<and> n \<noteq> 63" for w :: u64
  by (simp only: bit_and_iff bit_not_iff bit_push_bit_iff) (auto simp: bit_1_iff)

lemma high_product_eq: "snd (pclmulqdq (x, x') (c', c) 16) = high_product c x"
proof (rule bit_word_eqI)
  fix n assume "n < LENGTH(64)"
  then have n: "n < 64" by simp
  have "bit (snd (pclmulqdq (x, x') (c', c) 16)) n \<longleftrightarrow> xor_all (map (\<lambda>j. bit x j \<and> bit c (n + 64 - j)) [n + 64 - 63..<64]) \<and> n \<noteq> 63"
    using n by (simp only: pclmulqdq_def Let_def snd_conv top_bit_cleared bit_set_bits_where) (simp add: drop_bit_eq_div)
  moreover have "xor_all (map (\<lambda>j. bit x j \<and> bit c (n + 64 - j)) [n + 64 - 63..<64]) = False" if "n = 63" using that by simp
  ultimately show "bit (snd (pclmulqdq (x, x') (c', c) 16)) n = bit (high_product c x) n"
    using product_high [OF n, of x c] n by (auto simp: high_product_def bit_xor_words)
qed

definition fold64 :: "u64 \<Rightarrow> u32" where
  "fold64 x = ucast (high_product 0x00000001DB710641 (low_product 0xB4E5B025F7011641 x))"

lemma Crc32b_64_fold: "Crc32b_64 v a = fold64 (v XOR ucast a)"
proof -
  have "fst (pclmulqdq (x, x') (c, c') 0) = low_product c x" for x x' c c' by (rule low_product_eq)
  then have e: "pclmulqdq (x, x') (c, c') 0 = (low_product c x, snd (pclmulqdq (x, x') (c, c') 0))" for x x' c c' by (metis prod.collapse)
  show ?thesis unfolding Crc32b_64_def Let_def masks crc_constant_def fold64_def by (subst e) (simp only: high_product_eq)
qed

lemma Crc32b_32_fold: "Crc32b_32 v a = fold64 (push_bit 32 (ucast (v XOR a)))"
proof -
  have "fst (pclmulqdq (x, x') (c, c') 0) = low_product c x" for x x' c c' by (rule low_product_eq)
  then have e: "pclmulqdq (x, x') (c, c') 0 = (low_product c x, snd (pclmulqdq (x, x') (c, c') 0))" for x x' c c' by (metis prod.collapse)
  show ?thesis unfolding Crc32b_32_def Let_def masks crc_constant_def fold64_def by (subst e) (simp only: high_product_eq)
qed

section \<open>Linear functions on words\<close>

definition linear :: "('a::len word \<Rightarrow> 'b::len word) \<Rightarrow> bool" where
  "linear f \<longleftrightarrow> (\<forall>x y. f (x XOR y) = f x XOR f y)"

lemma linear_0: "linear f \<Longrightarrow> f 0 = 0"
  unfolding linear_def by (metis xor_self_eq)

lemma take_bit_Suc_xor: "take_bit (Suc n) x = take_bit n x XOR (if bit x n then 2 ^ n else 0)" for x :: "'a::len word"
  by (rule bit_word_eqI) (auto simp: bit_simps less_Suc_eq)

lemma linear_ext:
  fixes f g :: "'a::len word \<Rightarrow> 'b::len word"
  assumes f: "linear f" and g: "linear g" and e: "\<forall>i<LENGTH('a). f (2 ^ i) = g (2 ^ i)"
  shows "f = g"
proof
  fix x
  have "n \<le> LENGTH('a) \<Longrightarrow> f (take_bit n x) = g (take_bit n x)" for n
  proof (induction n)
    case 0
    then show ?case using linear_0 [OF f] linear_0 [OF g] by simp
  next
    case (Suc n)
    then show ?case using f g e by (simp add: take_bit_Suc_xor linear_def linear_0 [OF f] linear_0 [OF g])
  qed
  from this [of "LENGTH('a)"] show "f x = g x" by simp
qed

named_theorems linear_intro "linear functions"

lemma linear_comp [linear_intro]: "linear f \<Longrightarrow> linear g \<Longrightarrow> linear (\<lambda>x. f (g x))"
  by (simp add: linear_def)

lemma linear_xor [linear_intro]: "linear f \<Longrightarrow> linear g \<Longrightarrow> linear (\<lambda>x. f x XOR g x)"
  by (simp add: linear_def ac_simps)

lemma linear_id [linear_intro]: "linear (\<lambda>x. x)" and linear_zero [linear_intro]: "linear (\<lambda>x. 0)"
  by (simp_all add: linear_def)

lemma linear_push_bit [linear_intro]: "linear (push_bit k)" and linear_drop_bit [linear_intro]: "linear (drop_bit k)"
  by (simp_all add: linear_def push_bit_xor drop_bit_xor)

lemma linear_ucast [linear_intro]: "linear (ucast :: 'a::len word \<Rightarrow> 'b::len word)"
  by (auto simp: linear_def intro: bit_word_eqI simp: bit_simps)

lemma linear_xor_words [linear_intro]:
  assumes "\<And>k. linear (f k)"
  shows "linear (\<lambda>x. xor_words ks (\<lambda>k. f k x))"
proof (induction ks)
  case Nil
  then show ?case by (simp add: xor_words_def linear_zero)
next
  case (Cons k ks)
  from linear_xor [OF assms Cons] show ?case by (simp add: xor_words_def)
qed

lemma linear_low: "linear (low_product c)" and linear_high: "linear (high_product c)"
proof -
  show "linear (low_product c)" unfolding low_product_def [abs_def] by (rule linear_xor_words) (rule linear_push_bit)
  show "linear (high_product c)" unfolding high_product_def [abs_def] by (rule linear_xor_words) (rule linear_drop_bit)
qed

lemma linear_fold64: "linear fold64"
  unfolding fold64_def [abs_def] by (rule linear_comp [OF linear_ucast linear_comp [OF linear_high linear_low]])

lemma and_1_bit: "x AND 1 = 0 \<longleftrightarrow> \<not> bit x 0" for x :: "'a::len word"
  by (simp add: and_one_eq even_iff_mod_2_eq_zero bit_0)

lemma linear_table_step: "linear table_step"
  unfolding linear_def table_step_def and_1_bit
  by (auto simp: drop_bit_xor bit_xor_iff ac_simps simp del: bit_0)

lemma linear_table_steps: "linear (table_step ^^ n)"
proof (induction n)
  case 0
  then show ?case using linear_id by (simp add: id_def)
next
  case (Suc n)
  then show ?case using linear_comp [OF linear_table_step Suc] by (simp add: comp_def)
qed

section \<open>The register\<close>

lemma bytes_xor: "bytes n (x XOR y) = map2 (XOR) (bytes n x) (bytes n y)"
  using linear_ucast [unfolded linear_def] by (intro nth_equalityI) (auto simp: bytes_def drop_bit_xor)

lemma bytes_0 [simp]: "bytes n 0 = replicate n 0"
  by (intro nth_equalityI) (auto simp: bytes_def)

lemma crc_of_simps [simp]: "crc_of s [] = s" "crc_of s (b # bs) = crc_of (crc_byte s b) bs" "crc_of s (as @ bs) = crc_of (crc_of s as) bs"
  by (simp_all add: crc_of_def)

lemma steps_xor: "(table_step ^^ n) (x XOR y) = (table_step ^^ n) x XOR (table_step ^^ n) y"
  using linear_table_steps by (simp add: linear_def)

lemma crc_byte_xor: "crc_byte (s XOR t) (b XOR c) = crc_byte s b XOR crc_byte t c"
proof -
  have "ucast (b XOR c) = (ucast b XOR ucast c :: u32)" using linear_ucast [unfolded linear_def] by blast
  then have "(s XOR t) XOR ucast (b XOR c) = (s XOR ucast b) XOR (t XOR ucast c)" by (simp add: ac_simps)
  then show ?thesis by (simp only: crc_byte_def steps_xor)
qed

lemma crc_of_xor: "length bs = length cs \<Longrightarrow> crc_of (s XOR t) (map2 (XOR) bs cs) = crc_of s bs XOR crc_of t cs"
  by (induction bs cs arbitrary: s t rule: list_induct2) (simp_all add: crc_byte_xor)

lemma crc_of_zeros: "crc_of s (replicate n 0) = (table_step ^^ (8 * n)) s"
proof (induction n arbitrary: s)
  case (Suc n)
  have "crc_of s (replicate (Suc n) 0) = (table_step ^^ (8 * n)) ((table_step ^^ 8) s)" by (simp add: Suc crc_byte_def)
  also have "\<dots> = (table_step ^^ (8 * n + 8)) s" by (simp only: funpow_add comp_apply)
  finally show ?case by (simp add: add.commute)
qed simp

lemma table_step_odd: "table_step w = (if odd w then drop_bit 1 w XOR 0xedb88320 else drop_bit 1 w)"
  by (simp add: table_step_def cCrc32bSeed_def and_one_eq mod_2_eq_odd)

lemma table_step_power: "Suc r < 32 \<Longrightarrow> table_step (2 ^ Suc r) = 2 ^ r"
  by (auto simp: table_step_odd bit_simps intro!: bit_word_eqI)

lemma table_steps_power: "r < 32 \<Longrightarrow> (table_step ^^ r) (2 ^ r) = 1"
  by (induction r) (simp_all add: funpow_Suc_right table_step_power del: funpow.simps power_Suc)

lemma table_steps_after: "r < 32 \<Longrightarrow> r \<le> n \<Longrightarrow> (table_step ^^ n) (2 ^ r) = (table_step ^^ (n - r)) 1"
  using funpow_add [of "n - r" r table_step] table_steps_power [of r] by simp

lemma bytes_power:
  assumes "i < 8 * n" and "i < LENGTH('a)"
  shows "bytes n (2 ^ i :: 'a::len word) = replicate (i div 8) 0 @ 2 ^ (i mod 8) # replicate (n - 1 - i div 8) 0"
proof (intro nth_equalityI)
  fix j assume "j < length (bytes n (2 ^ i :: 'a word))"
  then have j: "j < n" by simp
  have "ucast (drop_bit (8 * j) (2 ^ i :: 'a word)) = (if j = i div 8 then 2 ^ (i mod 8) else (0 :: u8))"
    using assms by (auto simp: bit_simps intro!: bit_word_eqI) (presburger)+
  then show "bytes n (2 ^ i :: 'a word) ! j = (replicate (i div 8) 0 @ 2 ^ (i mod 8) # replicate (n - 1 - i div 8) 0) ! j"
    using j by (auto simp: bytes_def nth_append nth_Cons split: nat.splits)
qed (use assms in auto)

lemma crc_of_power:
  assumes "i < 8 * n" and "i < LENGTH('a)"
  shows "crc_of 0 (bytes n (2 ^ i :: 'a::len word)) = (table_step ^^ (8 * n - i)) 1"
proof -
  have z: "(table_step ^^ k) 0 = 0" for k using linear_0 [OF linear_table_steps] by simp
  have m: "i mod 8 < 8" by simp
  have u: "ucast (2 ^ (i mod 8) :: u8) = (2 ^ (i mod 8) :: u32)" using m by (auto simp: bit_simps intro!: bit_word_eqI)
  have "crc_of 0 (bytes n (2 ^ i :: 'a word)) = (table_step ^^ (8 * (n - 1 - i div 8))) ((table_step ^^ 8) (2 ^ (i mod 8)))"
    by (simp only: bytes_power [OF assms] crc_of_simps crc_of_zeros z crc_byte_def u xor.left_neutral)
  also have "\<dots> = (table_step ^^ (8 * (n - 1 - i div 8) + 8)) (2 ^ (i mod 8))" by (simp only: funpow_add comp_apply)
  also have "8 * (n - 1 - i div 8) + 8 = 8 * n - 8 * (i div 8)" using assms by auto
  also have "(table_step ^^ (8 * n - 8 * (i div 8))) (2 ^ (i mod 8)) = (table_step ^^ (8 * n - 8 * (i div 8) - i mod 8)) 1"
    using m assms mult_div_mod_eq [of 8 i] by (intro table_steps_after) linarith+
  also have "8 * n - 8 * (i div 8) - i mod 8 = 8 * n - i" by presburger
  finally show ?thesis .
qed

lemma linear_crc: "linear (\<lambda>x. crc_of 0 (bytes n x))"
  by (simp add: linear_def bytes_xor flip: crc_of_xor)

text \<open>A register that is not zero is the same as one that is, with its bits added to the first bytes.\<close>

lemma crc_of_register:
  fixes x :: "'a::len word"
  assumes n: "4 \<le> n" "32 \<le> LENGTH('a)"
  shows "crc_of a (bytes n x) = crc_of 0 (bytes n (x XOR ucast a))"
proof -
  have "(\<lambda>a. crc_of 0 (bytes n (ucast a :: 'a word))) = (\<lambda>a. crc_of a (replicate n 0))"
  proof (rule linear_ext)
    show "linear (\<lambda>a. crc_of 0 (bytes n (ucast a :: 'a word)))" by (rule linear_comp [OF linear_crc linear_ucast])
    show "linear (\<lambda>a. crc_of a (replicate n 0))" unfolding crc_of_zeros by (rule linear_table_steps)
    show "\<forall>i<LENGTH(32). crc_of 0 (bytes n (ucast (2 ^ i :: u32) :: 'a word)) = crc_of (2 ^ i) (replicate n 0)"
    proof (intro allI impI)
      fix i assume i: "i < LENGTH(32)"
      have "ucast (2 ^ i :: u32) = (2 ^ i :: 'a word)" using i n by (auto simp: bit_simps intro!: bit_word_eqI)
      moreover have "crc_of 0 (bytes n (2 ^ i :: 'a word)) = (table_step ^^ (8 * n - i)) 1" using i n by (intro crc_of_power) auto
      moreover have "(table_step ^^ (8 * n)) (2 ^ i) = (table_step ^^ (8 * n - i)) 1" using i n by (intro table_steps_after) auto
      ultimately show "crc_of 0 (bytes n (ucast (2 ^ i :: u32) :: 'a word)) = crc_of (2 ^ i) (replicate n 0)" by (simp add: crc_of_zeros)
    qed
  qed
  then have e: "crc_of 0 (bytes n (ucast a :: 'a word)) = crc_of a (replicate n 0)" by (rule fun_cong)
  have "crc_of a (bytes n x) = crc_of (0 XOR a) (bytes n (x XOR 0))" by simp
  also have "\<dots> = crc_of 0 (bytes n x) XOR crc_of a (replicate n 0)" by (simp only: bytes_xor crc_of_xor length_bytes bytes_0 length_replicate)
  also have "\<dots> = crc_of (0 XOR 0) (bytes n (x XOR ucast a))" by (simp only: bytes_xor crc_of_xor length_bytes e)
  finally show ?thesis by simp
qed

section \<open>The products are the register\<close>

text \<open>Both sides are linear, so they agree once they agree on the 64 words of one bit.\<close>

definition crc_powers :: "u32 list" where
  "crc_powers = [0xedb88320, 0x76dc4190, 0x3b6e20c8, 0x1db71064, 0xedb8832, 0x76dc419, 0xee0e612c, 0x77073096, 0x3b83984b, 0xf0794f05, 
0x958424a2, 0x4ac21251, 0xc8d98a08, 0x646cc504, 0x32366282, 0x191b3141, 0xe1351b80, 0x709a8dc0, 0x384d46e0, 
0x1c26a370, 0xe1351b8, 0x709a8dc, 0x384d46e, 0x1c26a37, 0xed59b63b, 0x9b14583d, 0xa032af3e, 0x5019579f, 0xc5b428ef, 
0x8f629757, 0xaa09c88b, 0xb8bc6765, 0xb1e6b092, 0x58f35849, 0xc1c12f04, 0x60e09782, 0x30704bc1, 0xf580a6c0, 
0x7ac05360, 0x3d6029b0, 0x1eb014d8, 0xf580a6c, 0x7ac0536, 0x3d6029b, 0xec53826d, 0x9b914216, 0x4dc8a10b, 0xcb5cd3a5, 
0x8816eaf2, 0x440b7579, 0xcfbd399c, 0x67de9cce, 0x33ef4e67, 0xf44f2413, 0x979f1129, 0xa6770bb4, 0x533b85da, 
0x299dc2ed, 0xf9766256, 0x7cbb312b, 0xd3e51bb5, 0x844a0efa, 0x4225077d, 0xccaa009e]"

lemma ones_barrett: "ones 0x00000001DB710641 = [0, 6, 9, 10, 16, 20, 21, 22, 24, 25, 27, 28, 30, 31, 32]"
  by (simp add: ones_def upt_rec)

lemma crc_powers_step: "\<forall>n\<in>set [0..<63]. table_step (crc_powers ! n) = crc_powers ! (n + 1)"
  by (simp add: crc_powers_def table_step_odd upt_rec)

lemma product_power_0: "\<forall>n\<in>set [0..<16]. ucast (high_product 0x00000001DB710641 (push_bit (63 - n) 0xB4E5B025F7011641)) = crc_powers ! n"
  by (simp add: crc_powers_def high_product_def ones_barrett xor_words_def upt_rec)

lemma product_power_16: "\<forall>n\<in>set [16..<32]. ucast (high_product 0x00000001DB710641 (push_bit (63 - n) 0xB4E5B025F7011641)) = crc_powers ! n"
  by (simp add: crc_powers_def high_product_def ones_barrett xor_words_def upt_rec)

lemma product_power_32: "\<forall>n\<in>set [32..<48]. ucast (high_product 0x00000001DB710641 (push_bit (63 - n) 0xB4E5B025F7011641)) = crc_powers ! n"
  by (simp add: crc_powers_def high_product_def ones_barrett xor_words_def upt_rec)

lemma product_power_48: "\<forall>n\<in>set [48..<64]. ucast (high_product 0x00000001DB710641 (push_bit (63 - n) 0xB4E5B025F7011641)) = crc_powers ! n"
  by (simp add: crc_powers_def high_product_def ones_barrett xor_words_def upt_rec)

lemma crc_powers_nth: "n < 64 \<Longrightarrow> (table_step ^^ Suc n) 1 = crc_powers ! n"
proof (induction n)
  case 0
  then show ?case by (simp add: crc_powers_def table_step_odd)
next
  case (Suc n)
  then show ?case using bspec [OF crc_powers_step, of n] by simp
qed

lemma low_product_power:
  assumes "i < 64"
  shows "low_product c (2 ^ i) = push_bit i c"
proof (rule bit_word_eqI)
  fix m assume "m < LENGTH(64)"
  then have m: "m < 64" by simp
  have "{k. k < 64 \<and> bit c k \<and> bit (push_bit k (2 ^ i :: u64)) m} = (if i \<le> m \<and> bit c (m - i) then {m - i} else {})"
    using m by (auto simp: bit_push_bit_iff bit_exp_iff)
  then show "bit (low_product c (2 ^ i)) m = bit (push_bit i c) m"
    using m by (simp add: low_product_def bit_xor_words xor_ones bit_push_bit_iff)
qed

lemma fold64_crc: "fold64 x = crc_of 0 (bytes 8 x)"
proof -
  have "fold64 (2 ^ i) = crc_of 0 (bytes 8 (2 ^ i :: u64))" if i: "i < 64" for i
  proof -
    have p: "ucast (high_product 0x00000001DB710641 (push_bit (63 - n) 0xB4E5B025F7011641)) = crc_powers ! n" if "n < 64" for n
    proof -
      consider "n < 16" | "16 \<le> n" "n < 32" | "32 \<le> n" "n < 48" | "48 \<le> n" using that by linarith
      then show ?thesis
      proof cases
        case 1 then show ?thesis using that by (intro bspec [OF product_power_0]) (simp only: set_upt atLeastLessThan_iff le0 simp_thms)
      next
        case 2 then show ?thesis using that by (intro bspec [OF product_power_16]) (simp only: set_upt atLeastLessThan_iff le0 simp_thms)
      next
        case 3 then show ?thesis using that by (intro bspec [OF product_power_32]) (simp only: set_upt atLeastLessThan_iff le0 simp_thms)
      next
        case 4 then show ?thesis using that by (intro bspec [OF product_power_48]) (simp only: set_upt atLeastLessThan_iff le0 simp_thms)
      qed
    qed
    have "fold64 (2 ^ i) = crc_powers ! (63 - i)" using p [of "63 - i"] i by (simp add: fold64_def low_product_power)
    also have "\<dots> = (table_step ^^ Suc (63 - i)) 1" by (rule crc_powers_nth [symmetric]) simp
    also have "\<dots> = (table_step ^^ (64 - i)) 1" using i by (intro arg_cong [where f = "\<lambda>n. (table_step ^^ n) 1"]) simp
    also have "\<dots> = crc_of 0 (bytes 8 (2 ^ i :: u64))" using crc_of_power [of i 8, where 'a = 64] i by simp
    finally show ?thesis .
  qed
  then have "fold64 = (\<lambda>x. crc_of 0 (bytes 8 x))" by (intro linear_ext linear_fold64 linear_crc) simp
  then show ?thesis by (rule fun_cong)
qed

lemma Crc32b_64_crc: "Crc32b_64 w a = crc_of a (bytes 8 w)"
  using crc_of_register [of 8 a w] by (simp add: Crc32b_64_fold fold64_crc)

lemma Crc32b_32_crc: "Crc32b_32 w a = crc_of a (bytes 4 w)"
proof -
  have b: "bytes 8 (push_bit 32 (ucast y :: u64)) = replicate 4 0 @ bytes 4 y" for y :: u32
  proof (intro nth_equalityI)
    fix i assume "i < length (bytes 8 (push_bit 32 (ucast y :: u64)))"
    then show "bytes 8 (push_bit 32 (ucast y :: u64)) ! i = (replicate 4 0 @ bytes 4 y) ! i"
      by (cases "i < 4") (auto simp: bytes_def nth_append bit_simps diff_mult_distrib2 intro!: bit_word_eqI)
  qed simp
  have z: "crc_of 0 (replicate 4 0) = 0" using linear_0 [OF linear_table_steps] by (simp add: crc_of_zeros)
  have "Crc32b_32 w a = crc_of 0 (bytes 4 (w XOR a))" by (simp only: Crc32b_32_fold fold64_crc b crc_of_simps z)
  then show ?thesis using crc_of_register [of 4 a w] by simp
qed

section \<open>The loops\<close>

lemma word_at_bytes:
  assumes "i + n \<le> length cs" and "n \<le> 8"
  obtains w where "word_at cs i n = Inr w" and "bytes n w = take n (drop i cs)"
proof -
  have "bytes n (of_bytes (take n (drop i cs)) :: u64) = take n (drop i cs)"
    using assms by (intro bytes_of_list) auto
  then show thesis using that assms(1) by (simp add: word_at_def)
qed

lemma take_add_drop: "crc_of (crc_of s (take m (drop i cs))) (take n (drop (i + m) cs)) = crc_of s (take (m + n) (drop i cs))"
  by (simp add: take_add add.commute flip: crc_of_simps(3))

lemma aligned_loop_crc: "i + 8 * n \<le> length cs \<Longrightarrow> aligned_loop cs i n seed = Inr (crc_of seed (take (8 * n) (drop i cs)))"
proof (induction n arbitrary: i seed)
  case (Suc n)
  obtain w where w: "word_at cs i 8 = Inr w" "bytes 8 w = take 8 (drop i cs)" using word_at_bytes [of i 8 cs] Suc.prems by auto
  have "aligned_loop cs i (Suc n) seed = aligned_loop cs (i + 8) n (crc_of seed (take 8 (drop i cs)))" using w by (simp add: Crc32b_64_crc)
  also have "\<dots> = Inr (crc_of seed (take (8 + 8 * n) (drop i cs)))" using Suc.IH [of "i + 8"] Suc.prems by (simp add: take_add_drop)
  finally show ?case by simp
qed simp

lemma bit_2_mod: "n AND 4 \<noteq> 0 \<longleftrightarrow> 4 \<le> n mod 8" for n :: nat
proof -
  have "n AND 4 \<noteq> 0 \<longleftrightarrow> bit n 2" using and_exp_eq_0_iff_not_bit [of n 2] by simp
  also have "\<dots> \<longleftrightarrow> 4 \<le> n mod 8" unfolding bit_iff_odd by simp presburger
  finally show ?thesis .
qed

lemma four_byte_crc:
  assumes "l + n mod 8 \<le> length cs"
  shows "four_byte_fallback cs n l seed = (let k = n mod 8 div 4 * 4 in Inr (l + k, crc_of seed (take k (drop l cs))))"
proof (cases "4 \<le> n mod 8")
  case True
  then obtain w where w: "word_at cs l 4 = Inr w" "bytes 4 w = take 4 (drop l cs)" using word_at_bytes [of l 4 cs] assms by auto
  have "bytes 4 (ucast w :: u32) = bytes 4 w" by (auto simp: bytes_def bit_simps intro!: bit_word_eqI)
  moreover have "n mod 8 div 4 = 1" using True by presburger
  moreover have "n AND 4 \<noteq> 0" using True by (simp only: bit_2_mod)
  ultimately show ?thesis using w by (simp add: four_byte_fallback_def Crc32b_32_crc)
next
  case False
  then show ?thesis using bit_2_mod [of n] by (simp add: four_byte_fallback_def)
qed

section \<open>The table\<close>

lemma table_entry_steps: "table_entry i = (table_step ^^ 8) i"
proof -
  have "drop_bit 1 i AND 0x7fffffff = drop_bit 1 i" for i :: u32
  proof (rule bit_word_eqI)
    fix n assume "n < LENGTH(32)"
    moreover have "bit (0x7fffffff :: u32) n \<longleftrightarrow> n < 31" if "n < 32" for n
    proof -
      have "0x7fffffff = (mask 31 :: u32)" by (simp add: mask_eq_exp_minus_1)
      then show ?thesis by (simp only: bit_mask_iff) (use that in auto)
    qed
    moreover have "bit i (Suc n) \<Longrightarrow> Suc n < 32" using bit_imp_le_length [of i "Suc n"] by simp
    ultimately show "bit (drop_bit 1 i AND 0x7fffffff) n = bit (drop_bit 1 i) n" by (auto simp: bit_and_iff bit_drop_bit_eq)
  qed
  then have "table_entry i = (table_step ^^ 7) (table_step i)" by (simp add: table_entry_def table_step_def [of i])
  also have "\<dots> = (table_step ^^ Suc 7) i" by (simp only: funpow_Suc_right comp_apply)
  finally show ?thesis by simp
qed

lemma table_steps_low_zero: "take_bit n w = 0 \<Longrightarrow> (table_step ^^ n) w = drop_bit n w"
proof (induction n arbitrary: w)
  case (Suc n)
  have "even w" using Suc.prems by (metis bit_0 bit_take_bit_iff bit_0_eq bot_apply bot_bool_def zero_less_Suc)
  moreover have "take_bit n (drop_bit 1 w) = 0" using Suc.prems drop_bit_take_bit [of 1 "Suc n" w] by simp
  ultimately show ?case using Suc.IH [of "drop_bit 1 w"] by (simp add: funpow_Suc_right table_step_odd del: funpow.simps(2))
qed simp

lemma table_lookup: "cCrc32bTable ! unat (z AND 0xff) XOR drop_bit 8 z = (table_step ^^ 8) z"
proof -
  have m: "(0xff :: u32) = mask 8" by (simp add: mask_eq_exp_minus_1)
  have low: "z AND 0xff = take_bit 8 z" unfolding m by (simp add: take_bit_eq_mask)
  have lt: "unat (take_bit 8 z) < 256" by (simp add: unsigned_take_bit_eq take_bit_nat_less_exp [of 8, simplified])
  have "(table_step ^^ 8) z = (table_step ^^ 8) (take_bit 8 z XOR (z XOR take_bit 8 z))" by (simp add: ac_simps)
  also have "\<dots> = (table_step ^^ 8) (take_bit 8 z) XOR drop_bit 8 (z XOR take_bit 8 z)"
    unfolding steps_xor [of 8 "take_bit 8 z" "z XOR take_bit 8 z"] by (subst table_steps_low_zero [of 8 "z XOR take_bit 8 z"]) (simp_all add: take_bit_xor)
  also have "drop_bit 8 (z XOR take_bit 8 z) = drop_bit 8 z" by (simp add: drop_bit_xor drop_bit_take_bit)
  also have "(table_step ^^ 8) (take_bit 8 z) = cCrc32bTable ! unat (z AND 0xff)"
    using lt by (simp add: cCrc32bTable_def low table_entry_steps)
  finally show ?thesis by simp
qed

lemma byte_step_crc: "byte_step seed b = crc_byte seed b"
proof -
  have "drop_bit 8 (ucast b XOR seed) = drop_bit 8 seed"
    using bit_imp_le_length [of b] by (auto simp: bit_simps intro!: bit_word_eqI) fastforce+
  then show ?thesis using table_lookup [of "ucast b XOR seed"] by (simp add: byte_step_def crc_byte_def xor.commute)
qed

lemma char_step_crc: "char_step seed c = crc_byte seed c"
proof -
  have m: "(0xff :: u32) = mask 8" by (simp add: mask_eq_exp_minus_1)
  have "(scast c XOR seed) AND 0xff = (ucast c XOR seed) AND 0xff"
  proof (rule bit_word_eqI)
    fix n assume "n < LENGTH(32)"
    show "bit ((scast c XOR seed) AND 0xff) n = bit ((ucast c XOR seed) AND 0xff) n"
      unfolding m by (cases "n = 7") (auto simp: bit_simps min_def)
  qed
  then show ?thesis by (simp add: char_step_def flip: byte_step_crc byte_step_def)
qed

section \<open>The hashes\<close>

lemma words_crc:
  assumes "n \<le> length cs"
  shows "bind_result (aligned_loop cs 0 (n div 8 * 8 div 8) seed) (\<lambda>seed. bind_result (four_byte_fallback cs n (n div 8 * 8) seed) f) =
    f (n div 4 * 4, crc_of seed (take (n div 4 * 4) cs))"
proof -
  have n: "n div 8 * 8 + n mod 8 = n" by simp
  have k: "n div 8 * 8 + n mod 8 div 4 * 4 = n div 4 * 4" by presburger
  have "aligned_loop cs 0 (n div 8 * 8 div 8) seed = Inr (crc_of seed (take (n div 8 * 8) cs))"
    using aligned_loop_crc [of 0 "n div 8" cs seed] assms n by (simp add: mult.commute)
  moreover have "four_byte_fallback cs n (n div 8 * 8) (crc_of seed (take (n div 8 * 8) cs)) = Inr (n div 4 * 4, crc_of seed (take (n div 4 * 4) cs))"
    using four_byte_crc [of "n div 8 * 8" n cs] assms n k take_add_drop [of seed "n div 8 * 8" 0 cs "n mod 8 div 4 * 4"] by (simp add: Let_def)
  ultimately show ?thesis by simp
qed

lemma crc_of_take: "i < length cs \<Longrightarrow> crc_byte (crc_of seed (take i cs)) (cs ! i) = crc_of seed (take (Suc i) cs)"
  by (simp add: take_Suc_conv_app_nth)

lemma leftover_byte_crc:
  "(b \<Longrightarrow> i < length data) \<Longrightarrow> leftover_byte b data i (crc_of seed (take i data)) = Inr (crc_of seed (take (if b then Suc i else i) data))"
  by (simp add: leftover_byte_def byte_step_crc crc_of_take)

lemma div_4_cases: "n = n div 4 * 4 + n mod 4" "n mod 4 = 0 \<or> n mod 4 = 1 \<or> n mod 4 = 2 \<or> n mod 4 = 3" for n :: nat
  by presburger+

lemma leftover_bytes:
  assumes "k < 4" and "l + k \<le> length data"
  shows "bind_result (leftover_byte (0 < k) data l (crc_of seed (take l data))) (\<lambda>seed. bind_result (leftover_byte (1 < k) data (l + 1) seed) (\<lambda>seed.
    bind_result (leftover_byte (2 < k) data (l + 2) seed) f)) = f (crc_of seed (take (l + k) data))"
proof -
  have one: "leftover_byte True data i (crc_of seed (take i data)) = Inr (crc_of seed (take (Suc i) data))" if "i < l + k" for i
    using leftover_byte_crc [of True i data seed] that assms(2) by simp
  have none: "leftover_byte False data i w = Inr w" for i w by (simp add: leftover_byte_def)
  consider "k = 0" | "k = 1" | "k = 2" | "k = 3" using assms(1) by linarith
  then show ?thesis
  proof cases
    case 2 then show ?thesis using one [of l] none by simp
  next
    case 3 then show ?thesis using one [of l] one [of "Suc l"] none by simp
  next
    case 4 then show ?thesis using one [of l] one [of "Suc l"] one [of "Suc (Suc l)"] by (simp add: numeral_3_eq_3)
  qed (simp add: none)
qed

lemma data_run_time:
  assumes n: "n \<le> length data"
  shows "HashDataCrc32bWithContext seed data n = Inr (NOT (crc_of seed (take n data)))"
proof -
  have l: "n div 4 * 4 + n mod 4 = n" by simp
  show ?thesis
    unfolding HashDataCrc32bWithContext_def Let_def words_crc [OF n] split
    using leftover_bytes [of "n mod 4" "n div 4 * 4" data] n l by simp
qed

lemma data_constant: "n \<le> length data \<Longrightarrow> constant_data_loop seed data n = Inr (NOT (crc_of seed (take n data)))"
  by (induction seed data n rule: constant_data_loop.induct) (simp_all add: byte_step_crc)

lemma string_constant: "0 \<notin> set s \<Longrightarrow> constant_string_loop seed (s @ 0 # rest) = Inr (NOT (crc_of seed s))"
  by (induction s arbitrary: seed) (simp_all add: char_step_crc)

lemma strlen_string: "0 \<notin> set s \<Longrightarrow> strlen (s @ 0 # rest) = Inr (length s)"
  by (induction s) (auto simp: strlen_def split: if_splits)

lemma string_run_time:
  assumes s: "0 \<notin> set s" and cs: "cs = s @ 0 # rest"
  defines "l \<equiv> length s div 4 * 4"
  shows "HashCrc32bWithContext False seed cs =
    bind_result (leftover_char cs l (crc_of seed (take l s))) (\<lambda>seed. bind_result (leftover_char cs (l + 1) seed) (\<lambda>seed.
    bind_result (leftover_char cs (l + 2) seed) (\<lambda>seed. Inr (NOT seed))))"
proof -
  have l: "l \<le> length s" unfolding l_def by simp
  have take: "take l cs = take l s" using l cs by simp
  have len: "strlen cs = Inr (length s)" unfolding cs by (rule strlen_string [OF s])
  have le: "length s \<le> length cs" using cs by simp
  show ?thesis
    by (simp only: HashCrc32bWithContext_def Let_def if_False len bind_result.simps words_crc [OF le] split take l_def [symmetric])
qed

lemma leftover_char_crc: "0 \<notin> set s \<Longrightarrow> i < length s \<Longrightarrow> leftover_char (s @ cs) i (crc_of seed (take i s)) = Inr (crc_of seed (take (Suc i) s))"
  using nth_mem [of i s] by (auto simp: leftover_char_def nth_append char_step_crc crc_of_take simp del: nth_mem)

lemma leftover_char_zero: "i < length cs \<Longrightarrow> cs ! i = 0 \<Longrightarrow> leftover_char cs i seed = Inr seed"
  by (simp add: leftover_char_def)

lemma leftover_char_outside: "length cs \<le> i \<Longrightarrow> leftover_char cs i seed = Inl Out_Of_Bounds"
  by (simp add: leftover_char_def load_def)

lemma string_hash_run_time:
  assumes s: "0 \<notin> set s"
    and zeros: "length s mod 4 = 0 \<Longrightarrow> take 2 rest = [0, 0]" "length s mod 4 = 1 \<Longrightarrow> take 1 rest = [0]"
  shows "HashCrc32b False (s @ 0 # rest) = Inr (NOT (crc_of 0xffffffff s))"
proof -
  define l where "l = length s div 4 * 4"
  have l: "length s = l + length s mod 4" unfolding l_def by presburger
  have step: "leftover_char (s @ 0 # rest) i (crc_of c (take i s)) = Inr (crc_of c (take (Suc i) s))" if "i < length s" for i c
    using leftover_char_crc [OF s that] .
  have zero: "leftover_char (s @ 0 # rest) i c = Inr c" if "i = length s" for i c using that by (intro leftover_char_zero) auto
  have behind: "leftover_char (s @ 0 # rest) (Suc (length s) + i) c = Inr c" if "take k rest = replicate k 0" "i < k" for i k c
  proof -
    have "i < length rest" using that by (metis length_replicate length_take min_less_iff_conj)
    moreover have "rest ! i = 0" using that by (metis nth_replicate nth_take)
    ultimately show ?thesis by (intro leftover_char_zero) (simp_all add: nth_append)
  qed
  consider (0) "length s = l" "length s mod 4 = 0" | (1) "length s = l + 1" "length s mod 4 = 1" | (2) "length s = l + 2" | (3) "length s = l + 3"
    using div_4_cases(2) [of "length s"] l by fastforce
  then show "HashCrc32b False (s @ 0 # rest) = Inr (NOT (crc_of 0xffffffff s))"
    unfolding HashCrc32b_def string_run_time [OF s refl] l_def [symmetric]
  proof cases
    case 0
    then have "take 2 rest = replicate 2 0" using zeros(1) by (simp add: numeral_2_eq_2)
    then show "bind_result (leftover_char (s @ 0 # rest) l (crc_of 0xffffffff (take l s))) (\<lambda>seed. bind_result (leftover_char (s @ 0 # rest) (l + 1) seed) (\<lambda>seed.
      bind_result (leftover_char (s @ 0 # rest) (l + 2) seed) (\<lambda>seed. Inr (NOT seed)))) = Inr (NOT (crc_of 0xffffffff s))"
      using 0 zero [of l] behind [of 2 0] behind [of 2 1] by simp
  next
    case 1
    then have "take 1 rest = replicate 1 0" using zeros(2) by simp
    then show "bind_result (leftover_char (s @ 0 # rest) l (crc_of 0xffffffff (take l s))) (\<lambda>seed. bind_result (leftover_char (s @ 0 # rest) (l + 1) seed) (\<lambda>seed.
      bind_result (leftover_char (s @ 0 # rest) (l + 2) seed) (\<lambda>seed. Inr (NOT seed)))) = Inr (NOT (crc_of 0xffffffff s))"
      using 1 step [of l] zero [of "l + 1"] behind [of 1 0] by simp
  next
    case 2
    then show "bind_result (leftover_char (s @ 0 # rest) l (crc_of 0xffffffff (take l s))) (\<lambda>seed. bind_result (leftover_char (s @ 0 # rest) (l + 1) seed) (\<lambda>seed.
      bind_result (leftover_char (s @ 0 # rest) (l + 2) seed) (\<lambda>seed. Inr (NOT seed)))) = Inr (NOT (crc_of 0xffffffff s))"
      using step [of l] step [of "l + 1"] zero [of "l + 2"] by simp
  next
    case 3
    then show "bind_result (leftover_char (s @ 0 # rest) l (crc_of 0xffffffff (take l s))) (\<lambda>seed. bind_result (leftover_char (s @ 0 # rest) (l + 1) seed) (\<lambda>seed.
      bind_result (leftover_char (s @ 0 # rest) (l + 2) seed) (\<lambda>seed. Inr (NOT seed)))) = Inr (NOT (crc_of 0xffffffff s))"
      using step [of l] step [of "l + 1"] step [of "l + 2"] by (simp add: numeral_3_eq_3)
  qed
qed

text \<open>
  C3: The carry-less products, the table and the bit by bit register are the same function: at run time and
  at compile time \<open>HashDataCrc32b\<close> is the CRC-32 of its data, and \<open>HashCrc32b\<close> is that of the bytes before
  the zero of a string.  At run time this needs a zero behind the terminator when the length of the string
  is 1 modulo 4, and two of them when it is 0 modulo 4.
\<close>

theorem crc32_equivalence:
  assumes "n \<le> length data" and "0 \<notin> set s"
    and "length s mod 4 = 0 \<Longrightarrow> take 2 rest = [0, 0]" and "length s mod 4 = 1 \<Longrightarrow> take 1 rest = [0]"
  shows "HashDataCrc32b data n = Inr (NOT (crc_of 0xffffffff (take n data))) \<and>
    THashDataCrc32b data n = Inr (NOT (crc_of 0xffffffff (take n data))) \<and>
    HashCrc32b True (s @ 0 # rest) = Inr (NOT (crc_of 0xffffffff s)) \<and>
    HashCrc32b False (s @ 0 # rest) = Inr (NOT (crc_of 0xffffffff s))"
  using data_run_time [OF assms(1)] data_constant [OF assms(1)] string_constant [OF assms(2)] string_hash_run_time [OF assms(2-4)]
  by (simp add: HashDataCrc32b_def THashDataCrc32b_def HashCrc32b_def HashCrc32bWithContext_def)

theorem crc32_equivalence_witness:
  "HashDataCrc32b [49, 50, 51, 52, 53, 54, 55, 56, 57] 9 = HashCrc32b False [49, 50, 51, 52, 53, 54, 55, 56, 57, 0, 0] \<and>
   HashCrc32b True [49, 50, 51, 52, 53, 54, 55, 56, 57, 0, 0] = HashCrc32b False [49, 50, 51, 52, 53, 54, 55, 56, 57, 0, 0]"
  using crc32_equivalence [of 9 "[49, 50, 51, 52, 53, 54, 55, 56, 57]" "[49, 50, 51, 52, 53, 54, 55, 56, 57]" "[0]"] by simp

text \<open>
  The run time \<open>HashCrc32b\<close> reads behind the terminator of a string whose length is 0 or 1 modulo 4:
  when the array ends with the terminator the read is out of bounds, and when another byte follows a string
  of length 0 modulo 4 that byte is hashed as if it were part of the string.  At compile time both are right.
\<close>

theorem crc32_reads_behind:
  assumes "0 \<notin> set s" and "x \<noteq> 0"
  shows "(length s mod 4 < 2 \<longrightarrow> HashCrc32b True (s @ [0]) = Inr (NOT (crc_of 0xffffffff s)) \<and> HashCrc32b False (s @ [0]) = Inl Out_Of_Bounds) \<and>
    (length s mod 4 = 0 \<longrightarrow> HashCrc32b True (s @ [0, x, 0]) = Inr (NOT (crc_of 0xffffffff s)) \<and>
      HashCrc32b False (s @ [0, x, 0]) = Inr (NOT (crc_of 0xffffffff (s @ [x]))))"
proof -
  define l where "l = length s div 4 * 4"
  have l: "length s = l + length s mod 4" unfolding l_def by presburger
  have c: "HashCrc32b True (s @ 0 # rest) = Inr (NOT (crc_of 0xffffffff s))" for rest
    using string_constant [OF assms(1)] by (simp add: HashCrc32b_def HashCrc32bWithContext_def)
  have run: "HashCrc32b False (s @ 0 # rest) = bind_result (leftover_char (s @ 0 # rest) l (crc_of 0xffffffff (take l s))) (\<lambda>seed.
    bind_result (leftover_char (s @ 0 # rest) (l + 1) seed) (\<lambda>seed. bind_result (leftover_char (s @ 0 # rest) (l + 2) seed) (\<lambda>seed. Inr (NOT seed))))" for rest
    unfolding HashCrc32b_def l_def by (rule string_run_time [OF assms(1) refl])
  have zero: "leftover_char (s @ 0 # rest) (length s) w = Inr w" for rest w by (rule leftover_char_zero) auto
  have "HashCrc32b False (s @ [0]) = Inl Out_Of_Bounds" if m: "length s mod 4 < 2"
  proof (cases "length s mod 4 = 0")
    case True
    then show ?thesis using l run [of "[]"] zero [of "[]"] leftover_char_outside [of "s @ [0]" "Suc (length s)"] by simp
  next
    case False
    then have e: "length s = l + 1" using m l by linarith
    then show ?thesis
      using run [of "[]"] zero [of "[]"] leftover_char_crc [OF assms(1), of l "[0]"] leftover_char_outside [of "s @ [0]" "Suc (length s)"] by simp
  qed
  moreover have "HashCrc32b False (s @ [0, x, 0]) = Inr (NOT (crc_of 0xffffffff (s @ [x])))" if "length s mod 4 = 0"
  proof -
    have e: "length s = l" using that l by simp
    have "leftover_char (s @ [0, x, 0]) (length s + 1) w = Inr (crc_byte w x)" for w
      using assms(2) by (simp add: leftover_char_def nth_append char_step_crc)
    moreover have "leftover_char (s @ [0, x, 0]) (length s + 2) w = Inr w" for w by (rule leftover_char_zero) (simp_all add: nth_append)
    ultimately show ?thesis using run [of "[x, 0]"] zero [of "[x, 0]"] by (simp flip: e)
  qed
  ultimately show ?thesis using c by simp
qed

theorem crc32_reads_behind_witness: "HashCrc32b False [97, 98, 99, 100, 0] = Inl Out_Of_Bounds"
  using crc32_reads_behind [of "[97, 98, 99, 100]" 1] by simp

end
