(* ===== verification/Hash_Search.thy ===== *)
theory Hash_Search
  imports Run
begin

text \<open>
  The binary search over a table sorted by hash that \<open>SarcExtractor\<close> and \<open>ResourceSizeTableExtractor\<close> share:
  \<open>hash_at\<close> reads the hash of an entry, the answer is the index of an entry with the hash or none.  The sum
  of the bounds is a \<open>u32\<close>; the loop is right for tables of less than \<open>2 ^ 31\<close> entries.
\<close>

partial_function (option) hash_search :: "(u32 \<Rightarrow> u32) \<Rightarrow> u32 \<Rightarrow> u32 \<Rightarrow> u32 \<Rightarrow> u32 \<Rightarrow> u32 option option" where
  "hash_search hash_at hash entry_index high_iter low_iter =
     (let current_hash = hash_at entry_index
      in if hash = current_hash then Some (Some entry_index)
         else
           let result = (if hash < current_hash then low_iter else entry_index);
               i = (if hash < current_hash then high_iter else low_iter);
               high_iter = (if hash < current_hash then entry_index else high_iter);
               low_iter = result
           in if i = entry_index then Some None
              else hash_search hash_at hash ((high_iter + low_iter) div 2) high_iter low_iter)"

declare hash_search.simps [code]

definition found_in :: "(u32 \<Rightarrow> u32) \<Rightarrow> u32 \<Rightarrow> u32 \<Rightarrow> u32 option \<Rightarrow> bool" where
  "found_in hash_at hash n r \<longleftrightarrow>
     (case r of Some k \<Rightarrow> k < n \<and> hash_at k = hash | None \<Rightarrow> \<forall>k<n. hash_at k \<noteq> hash)"

definition sorted_table :: "(u32 \<Rightarrow> u32) \<Rightarrow> u32 \<Rightarrow> bool" where
  "sorted_table hash_at n \<longleftrightarrow> (\<forall>i j. i < j \<longrightarrow> j < n \<longrightarrow> hash_at i \<le> hash_at j)"

lemma half_between:
  fixes low high :: u32
  assumes "low \<le> high" "unat high < 2 ^ 31"
  shows "unat ((high + low) div 2) = (unat high + unat low) div 2"
proof -
  have "unat (high + low) = unat high + unat low" using assms by (intro unat_add_nowrap) (simp add: word_le_nat_alt)
  then show ?thesis by (simp add: unat_div)
qed

lemma hash_search_finds:
  assumes sorted: "sorted_table h n" and n: "unat n < 2 ^ 31"
  shows "low < n \<Longrightarrow> low \<le> high \<Longrightarrow> high \<le> n \<Longrightarrow> (\<And>k. k < low \<Longrightarrow> h k < x) \<Longrightarrow> (0 < low \<Longrightarrow> h low < x) \<Longrightarrow>
    (\<And>k. high \<le> k \<Longrightarrow> k < n \<Longrightarrow> x < h k) \<Longrightarrow>
    \<exists>r. hash_search h x ((high + low) div 2) high low = Some r \<and> found_in h x n r"
proof (induction "unat high - unat low" arbitrary: high low rule: less_induct)
  case less
  define e where "e = (high + low) div 2"
  have ue: "unat e = (unat high + unat low) div 2" unfolding e_def using less.prems n by (intro half_between) (auto simp: word_le_nat_alt)
  have en: "e < n" "low \<le> e" "e \<le> high" using less.prems(1-3) ue by (auto simp: word_order_nat)
  have step: "hash_search h x e high low =
    (if x = h e then Some (Some e)
     else if x < h e then if high = e then Some None else hash_search h x ((e + low) div 2) e low
     else if low = e then Some None else hash_search h x ((high + e) div 2) high e)"
    by (subst hash_search.simps) (simp add: Let_def)
  have "\<exists>r. hash_search h x e high low = Some r \<and> found_in h x n r"
  proof (cases "x = h e")
    case True
    then show ?thesis using en step by (simp add: found_in_def)
  next
    case ne: False
    show ?thesis
    proof (cases "x < h e")
      case below: True
      have up: "x < h k" if "e \<le> k" "k < n" for k
        using below sorted that less_le_trans [of x "h e" "h k"] order_le_less [of e k] by (auto simp: sorted_table_def)
      show ?thesis
      proof (cases "high = e")
        case True
        then have "low = high" using ue less.prems(2) by (auto simp: word_order_nat word_eq_unat_iff)
        then have "\<forall>k<n. h k \<noteq> x" using less.prems(4,6) by (metis leI less_irrefl)
        then show ?thesis using True below ne step by (simp add: found_in_def)
      next
        case False
        have "unat e - unat low < unat high - unat low" using False en ue less.prems(2) by (auto simp: word_order_nat word_eq_unat_iff)
        from less.hyps [OF this less.prems(1) en(2) order_less_imp_le [OF en(1)] less.prems(4,5) up]
        show ?thesis using False below ne by (simp add: step)
      qed
    next
      case above: False
      have lt: "h e < x" using above ne by simp
      have down: "h k < x" if "k < e" for k
        using lt sorted that en(1) le_less_trans [of "h k" "h e" x] by (auto simp: sorted_table_def)
      show ?thesis
      proof (cases "low = e")
        case True
        then have "unat high \<le> Suc (unat low)" using ue by auto
        then have "k \<le> low \<or> high \<le> k" for k by (auto simp: word_order_nat)
        then have "\<forall>k<n. h k \<noteq> x" using less.prems(6) lt down True by (metis less_irrefl order_le_less)
        then show ?thesis using True above ne step by (simp add: found_in_def)
      next
        case False
        have "unat high - unat e < unat high - unat low" using False en ue less.prems(2) by (auto simp: word_order_nat word_eq_unat_iff)
        from less.hyps [OF this en(1,3) less.prems(3) down lt less.prems(6)]
        show ?thesis using False above ne by (simp add: step)
      qed
    qed
  qed
  then show ?case by (simp add: e_def)
qed

lemma hash_search_start:
  assumes "sorted_table h n" and "unat n < 2 ^ 31" and "0 < n"
  obtains r where "hash_search h x (n div 2) n 0 = Some r" and "found_in h x n r"
proof -
  have "\<exists>r. hash_search h x ((n + 0) div 2) n 0 = Some r \<and> found_in h x n r"
    by (rule hash_search_finds [OF assms(1,2)]) (use assms(3) in auto)
  then show thesis using that by auto
qed

end
