(* ===== verification/Sarc.thy ===== *)
theory Sarc
  imports Byte_Memory Hash_Search
begin

text \<open>
  \<open>res_sarc.hpp\<close>: the archive format and \<open>SarcExtractor\<close>.  The archive is read where it lies: a field is a read
  of its word at its offset, byte swapped in a file of the other byte order.  A path is its bytes before the
  zero.  \<open>search\<close> loops and the walk over colliding entries end as the lemmas show.
\<close>

section \<open>The format\<close>

definition CalculateSarcHash :: "u32 \<Rightarrow> u8 list \<Rightarrow> u32" where
  "CalculateSarcHash hash_seed path = foldl (\<lambda>hash c. hash * hash_seed + scast c) 0 path"

definition ByteOrder_Reverse :: u16 where "ByteOrder_Reverse = 0xfffe"
definition ByteOrder_Native :: u16 where "ByteOrder_Native = 0xfeff"

definition ResSarc_cMagic :: u32 where "ResSarc_cMagic = 0x43524153"
definition ResSarcSfat_cMagic :: u32 where "ResSarcSfat_cMagic = 0x54414653"
definition ResSarcSfnt_cMagic :: u32 where "ResSarcSfnt_cMagic = 0x544e4653"
definition ResSarc_cTargetVersion :: u32 where "ResSarc_cTargetVersion = 0x100"

text \<open>\<open>(is_reverse_endian == false) ? field : SwapEndian(field)\<close>\<close>

definition get16 :: "bool \<Rightarrow> memory \<Rightarrow> u64 \<Rightarrow> u16" where
  "get16 is_reverse_endian m p = (if is_reverse_endian then SwapEndian16 (read16 m p) else read16 m p)"

definition get32 :: "bool \<Rightarrow> memory \<Rightarrow> u64 \<Rightarrow> u32" where
  "get32 is_reverse_endian m p = (if is_reverse_endian then SwapEndian32 (read32 m p) else read32 m p)"

definition ResSarc_IsReverseEndian :: "memory \<Rightarrow> u64 \<Rightarrow> bool" where
  "ResSarc_IsReverseEndian m this \<longleftrightarrow> read16 m (this + 6) = ByteOrder_Reverse"

definition ResSarc_IsValid :: "memory \<Rightarrow> u64 \<Rightarrow> bool" where
  "ResSarc_IsValid m this =
     (let is_reverse_endian = ResSarc_IsReverseEndian m this;
          r_magic = get32 is_reverse_endian m this;
          r_header_size = get16 is_reverse_endian m (this + 4);
          r_version = get16 is_reverse_endian m (this + 0x10)
      in if r_magic \<noteq> ResSarc_cMagic then False
         else if r_header_size \<noteq> 0x14 then False
         else if ucast r_version \<noteq> ResSarc_cTargetVersion then False
         else True)"

definition ResSarcSfat_IsValid :: "memory \<Rightarrow> u64 \<Rightarrow> bool \<Rightarrow> bool" where
  "ResSarcSfat_IsValid m this is_reverse_endian =
     (let r_magic = get32 is_reverse_endian m this;
          r_header_size = get16 is_reverse_endian m (this + 4);
          r_file_count = get16 is_reverse_endian m (this + 6)
      in if r_magic \<noteq> ResSarcSfat_cMagic then False
         else if r_header_size \<noteq> 0xc then False
         else if drop_bit 14 r_file_count \<noteq> 0 then False
         else True)"

definition ResSarcSfnt_IsValid :: "memory \<Rightarrow> u64 \<Rightarrow> bool \<Rightarrow> bool" where
  "ResSarcSfnt_IsValid m this is_reverse_endian =
     (let r_magic = get32 is_reverse_endian m this;
          r_header_size = get16 is_reverse_endian m (this + 4)
      in if r_magic \<noteq> ResSarcSfnt_cMagic then False
         else if r_header_size \<noteq> 8 then False
         else True)"

definition GetSfat :: "u64 \<Rightarrow> u64" where "GetSfat this = this + 0x14"

definition swap16_at :: "u64 \<Rightarrow> memory \<Rightarrow> memory" where "swap16_at p m = write16 p (SwapEndian16 (read16 m p)) m"
definition swap32_at :: "u64 \<Rightarrow> memory \<Rightarrow> memory" where "swap32_at p m = write32 p (SwapEndian32 (read32 m p)) m"

definition swap_entry :: "u64 \<Rightarrow> memory \<Rightarrow> memory" where
  "swap_entry p m = swap32_at (p + 12) (swap32_at (p + 8) (swap32_at (p + 4) (swap32_at p m)))"

text \<open>The loop asks for \<open>sfat->file_count\<close> again at every turn; no entry lies over it.\<close>

definition swap_entries :: "u64 \<Rightarrow> memory \<Rightarrow> memory" where
  "swap_entries sfat m = foldl (\<lambda>m i. swap_entry (sfat + 0xc + 0x10 * of_nat i) m) m [0..<unat (read16 m (sfat + 6))]"

definition ResSarc_SwapEndian :: "u64 \<Rightarrow> memory \<Rightarrow> memory" where
  "ResSarc_SwapEndian this m =
     (let m = swap32_at this m; m = swap16_at (this + 4) m; m = swap16_at (this + 6) m; m = swap32_at (this + 8) m;
          m = swap32_at (this + 0xc) m; m = swap16_at (this + 0x10) m;
          sfat = GetSfat this;
          m = swap32_at sfat m; m = swap16_at (sfat + 4) m; m = swap16_at (sfat + 6) m; m = swap32_at (sfat + 8) m;
          m = swap_entries sfat m;
          sfnt = this + 0x14 + 0xc + 0x10 * ucast (read16 m (sfat + 6));
          m = write32 sfnt (SwapEndian32 (read32 m sfat)) m;
          m = write16 (sfnt + 4) (SwapEndian16 (read16 m (sfat + 4))) m
      in m)"

section \<open>The extractor\<close>

record sarc_extractor =
  m_sarc :: u64
  m_sfat :: u64
  m_file_region :: u64
  m_path_table :: u64

definition cInvalidEntryIndex :: u32 where "cInvalidEntryIndex = 0xffffffff"

definition SarcExtractor_Initialize :: "memory \<Rightarrow> u64 \<Rightarrow> sarc_extractor \<Rightarrow> bool \<times> sarc_extractor" where
  "SarcExtractor_Initialize m sarc_file x =
     (if sarc_file = 0 then (False, x)
      else
        let x = x\<lparr>m_sarc := sarc_file\<rparr>
        in if \<not> ResSarc_IsValid m sarc_file then (False, x)
           else
             let is_reverse_endian = ResSarc_IsReverseEndian m sarc_file;
                 sfat = sarc_file + 0x14;
                 x = x\<lparr>m_sfat := sfat\<rparr>
             in if \<not> ResSarcSfat_IsValid m sfat is_reverse_endian then (False, x)
                else
                  let file_count = get16 is_reverse_endian m (sfat + 6);
                      sfnt = sarc_file + 0x14 + 0xc + 0x10 * ucast file_count
                  in if \<not> ResSarcSfnt_IsValid m sfnt is_reverse_endian then (False, x)
                     else
                       let sfnt_header_size = get16 is_reverse_endian m (sfnt + 4);
                           x = x\<lparr>m_path_table := sfnt + ucast sfnt_header_size\<rparr>;
                           file_array_offset = get32 is_reverse_endian m (sarc_file + 0xc)
                       in (True, x\<lparr>m_file_region := sarc_file + ucast file_array_offset\<rparr>))"

definition sarc_reverse :: "memory \<Rightarrow> sarc_extractor \<Rightarrow> bool" where
  "sarc_reverse m x = ResSarc_IsReverseEndian m (m_sarc x)"

definition GetFileCount :: "memory \<Rightarrow> sarc_extractor \<Rightarrow> u32" where
  "GetFileCount m x = ucast (get16 (sarc_reverse m x) m (m_sfat x + 6))"

text \<open>\<open>m_sfat->entry_array[entry_index]\<close>: its words, in the order of the machine.\<close>

definition sarc_entry :: "sarc_extractor \<Rightarrow> u64 \<Rightarrow> u64" where
  "sarc_entry x entry_index = m_sfat x + 0xc + 0x10 * entry_index"

definition entry_hash :: "memory \<Rightarrow> sarc_extractor \<Rightarrow> u64 \<Rightarrow> u32" where
  "entry_hash m x i = get32 (sarc_reverse m x) m (sarc_entry x i)"

definition entry_name_data :: "memory \<Rightarrow> sarc_extractor \<Rightarrow> u64 \<Rightarrow> u32" where
  "entry_name_data m x i = get32 (sarc_reverse m x) m (sarc_entry x i + 4)"

definition entry_start :: "memory \<Rightarrow> sarc_extractor \<Rightarrow> u64 \<Rightarrow> u32" where
  "entry_start m x i = get32 (sarc_reverse m x) m (sarc_entry x i + 8)"

definition entry_end :: "memory \<Rightarrow> sarc_extractor \<Rightarrow> u64 \<Rightarrow> u32" where
  "entry_end m x i = get32 (sarc_reverse m x) m (sarc_entry x i + 12)"

definition TryGetPathByEntryIndex :: "memory \<Rightarrow> sarc_extractor \<Rightarrow> u32 \<Rightarrow> u64" where
  "TryGetPathByEntryIndex m x entry_index =
     (if GetFileCount m x \<le> entry_index then 0
      else
        let file_name_offset = entry_name_data m x (ucast entry_index) AND 0xffffff;
            path = m_path_table x + ucast (push_bit 2 file_name_offset)
        in if m_file_region x < path then 0 else path)"

text \<open>\<open>::strcmp(path, file_path) == 0\<close>\<close>

definition cstring_at :: "memory \<Rightarrow> u64 \<Rightarrow> u8 list \<Rightarrow> bool" where
  "cstring_at m p s \<longleftrightarrow> read_bytes m p (Suc (length s)) = s @ [0]"

function search_collisions :: "memory \<Rightarrow> sarc_extractor \<Rightarrow> u8 list \<Rightarrow> u32 \<Rightarrow> u64 \<Rightarrow> u32" where
  "search_collisions m x path hash entry_index =
     (if entry_index < ucast (GetFileCount m x) then
        if entry_hash m x entry_index \<noteq> hash then cInvalidEntryIndex
        else
          let collision_name_offset = entry_name_data m x entry_index AND 0xffffff;
              file_path = m_path_table x + ucast (push_bit 2 collision_name_offset)
          in if m_file_region x < file_path then cInvalidEntryIndex
             else if cstring_at m file_path path then ucast entry_index
             else search_collisions m x path hash (entry_index + 1)
      else ucast entry_index)"
  by pat_completeness auto
termination
  by (relation "measure (\<lambda>(m, x, path, hash, entry_index). unat (ucast (GetFileCount m x) :: u64) - unat entry_index)")
    (simp_all, metis unat_Suc_less diff_less_mono2 lessI word_less_nat_alt)

declare search_collisions.simps [simp del]

text \<open>
  The loop that hashes \<open>path\<close> advances it to its terminator, so what the collisions are compared with is the
  empty string.
\<close>

definition TryGetEntryIndexByPath :: "memory \<Rightarrow> sarc_extractor \<Rightarrow> u8 list \<Rightarrow> u32 option" where
  "TryGetEntryIndexByPath m x path =
     (let file_count = GetFileCount m x
      in if file_count = 0 then Some cInvalidEntryIndex
         else
           let hash_seed = get32 (sarc_reverse m x) m (m_sfat x + 8);
               hash = CalculateSarcHash hash_seed path
           in case hash_search (\<lambda>i. entry_hash m x (ucast i)) hash (file_count div 2) file_count 0 of
                None \<Rightarrow> None
              | Some None \<Rightarrow> Some cInvalidEntryIndex
              | Some (Some entry_index) \<Rightarrow>
                  let root_collision_index = drop_bit 0x18 (entry_name_data m x (ucast entry_index))
                  in if root_collision_index \<noteq> 1
                     then Some (search_collisions m x [] hash (ucast entry_index - ucast root_collision_index + 1))
                     else Some entry_index)"

text \<open>The file and what is stored to \<open>out_file_size\<close>, or null.\<close>

definition TryGetFileByIndex :: "memory \<Rightarrow> sarc_extractor \<Rightarrow> u32 \<Rightarrow> (u64 \<times> u32) option" where
  "TryGetFileByIndex m x entry_index =
     (if GetFileCount m x < entry_index then None
      else
        let start_offset = entry_start m x (ucast entry_index);
            file_array_end_offset = entry_end m x (ucast entry_index)
        in Some (m_file_region x + ucast start_offset, file_array_end_offset - start_offset))"

definition TryGetFileByPath :: "memory \<Rightarrow> sarc_extractor \<Rightarrow> u8 list \<Rightarrow> (u64 \<times> u32) option option" where
  "TryGetFileByPath m x path = map_option (TryGetFileByIndex m x) (TryGetEntryIndexByPath m x path)"

end
