(* ===== verification/Sarc_Builder.thy ===== *)
theory Sarc_Builder
  imports Sarc
begin

text \<open>
  \<open>resbui_sarcbuilder.hpp\<close>: the archive builder.  The nodes are known by their address, the intrusive list of
  the builder is the list it stands for (\<open>Intrusive_List\<close>), a path that is null or empty is \<open>[]\<close>.  \<open>Serialize\<close>
  writes into the memory at \<open>out_buffer\<close>, whatever size the caller says the buffer has.
\<close>

section \<open>Nodes and the builder\<close>

record sarc_file =
  m_file_path :: "u8 list"
  m_file :: "u8 list"
  m_file_size :: u32
  m_file_alignment :: u32

record 'p sarc_builder =
  m_sarc_nodes :: "'p \<Rightarrow> sarc_file"
  m_file_list :: "'p list"
  m_hash_seed :: u32

datatype sarc_result = ResultSuccess | ResultNullArgument | ResultInvalidPath | ResultDuplicatePath | ResultAlreadyLinked

definition SarcBuilder_construct :: "('p \<Rightarrow> sarc_file) \<Rightarrow> 'p sarc_builder" where
  "SarcBuilder_construct nodes = \<lparr>m_sarc_nodes = nodes, m_file_list = [], m_hash_seed = 0x65\<rparr>"

definition SetFile :: "'p \<Rightarrow> u8 list \<Rightarrow> u8 list \<Rightarrow> u32 \<Rightarrow> u32 \<Rightarrow> 'p sarc_builder \<Rightarrow> sarc_result \<times> 'p sarc_builder" where
  "SetFile this file_path file file_size file_alignment b =
     (if this \<in> set (m_file_list b) then (ResultAlreadyLinked, b)
      else (ResultSuccess, b\<lparr>m_sarc_nodes := (m_sarc_nodes b)(this :=
        \<lparr>m_file_path = file_path, m_file = file, m_file_size = file_size, m_file_alignment = file_alignment\<rparr>)\<rparr>))"

definition path_of :: "'p sarc_builder \<Rightarrow> 'p \<Rightarrow> u8 list" where
  "path_of b p = m_file_path (m_sarc_nodes b p)"

definition hash_of :: "'p sarc_builder \<Rightarrow> 'p \<Rightarrow> u32" where
  "hash_of b p = CalculateSarcHash (m_hash_seed b) (path_of b p)"

text \<open>The sorted insertion: the list with the node in it, or none at an equal path.\<close>

fun insert_file :: "'p sarc_builder \<Rightarrow> 'p \<Rightarrow> 'p list \<Rightarrow> 'p list option" where
  "insert_file b file_node [] = Some [file_node]"
| "insert_file b file_node (node # nodes) =
     (if path_of b file_node = path_of b node then None
      else if hash_of b file_node > hash_of b node then map_option (Cons node) (insert_file b file_node nodes)
      else Some (file_node # node # nodes))"

definition AddFile :: "'p option \<Rightarrow> 'p sarc_builder \<Rightarrow> sarc_result \<times> 'p sarc_builder" where
  "AddFile file_node b =
     (case file_node of
        None \<Rightarrow> (ResultNullArgument, b)
      | Some p \<Rightarrow>
          if path_of b p = [] then (ResultInvalidPath, b)
          else (case insert_file b p (m_file_list b) of
                  None \<Rightarrow> (ResultDuplicatePath, b)
                | Some nodes \<Rightarrow> (ResultSuccess, b\<lparr>m_file_list := nodes\<rparr>)))"

section \<open>The memory of an archive\<close>

record buffer_location =
  offset :: u64
  bl_size :: u64
  bl_alignment :: u32

record sarc_memory_info =
  total_file_size :: u64
  max_alignment :: u64
  location_header :: buffer_location
  location_sfat :: buffer_location
  location_sfnt :: buffer_location
  location_file_region :: buffer_location

record sarc_sizes =
  z_file_count :: u32
  z_sfnt_size :: u32
  z_file_region_size :: u32
  z_max_align :: u64

definition size_step :: "sarc_file \<Rightarrow> sarc_sizes \<Rightarrow> sarc_sizes" where
  "size_step node z =
     (let sfnt_size = ucast (AlignUp (ucast (z_sfnt_size z) + of_nat (length (m_file_path node)) + 1) 4);
          file_region_size = (if z_file_region_size z \<noteq> 0 then ucast (AlignUp (ucast (z_file_region_size z)) (ucast (m_file_alignment node))) else z_file_region_size z);
          file_region_size = file_region_size + m_file_size node;
          max_align = (if z_max_align z < ucast (m_file_alignment node) then ucast (m_file_alignment node) else z_max_align z)
      in \<lparr>z_file_count = z_file_count z + 1, z_sfnt_size = sfnt_size, z_file_region_size = file_region_size, z_max_align = max_align\<rparr>)"

definition sarc_sizes :: "'p sarc_builder \<Rightarrow> sarc_sizes" where
  "sarc_sizes b = foldl (\<lambda>z p. size_step (m_sarc_nodes b p) z)
     \<lparr>z_file_count = 0, z_sfnt_size = 8, z_file_region_size = 0, z_max_align = 4\<rparr> (m_file_list b)"

text \<open>\<open>Front\<close> of an empty list is no node: the read of its alignment is a fault.\<close>

definition CalculateMemoryInfo :: "'p sarc_builder \<Rightarrow> sarc_memory_info result" where
  "CalculateMemoryInfo b =
     (let z = sarc_sizes b;
          header = \<lparr>offset = 0, bl_size = 0x14, bl_alignment = 4\<rparr>;
          sfat = \<lparr>offset = 0x14, bl_size = 0xc + 0x10 * ucast (z_file_count z), bl_alignment = 4\<rparr>;
          sfnt = \<lparr>offset = offset sfat + bl_size sfat, bl_size = ucast (z_sfnt_size z), bl_alignment = 4\<rparr>
      in case m_file_list b of
           [] \<Rightarrow> Inl Bad_Reference
         | front # _ \<Rightarrow>
             let region = AlignUp (offset sfnt + ucast (z_sfnt_size z)) (ucast (m_file_alignment (m_sarc_nodes b front)));
                 file_region = \<lparr>offset = region, bl_size = ucast (z_file_region_size z) - region, bl_alignment = 4\<rparr>
             in Inr \<lparr>total_file_size = offset file_region + bl_size file_region, max_alignment = z_max_align z,
                  location_header = header, location_sfat = sfat, location_sfnt = sfnt, location_file_region = file_region\<rparr>)"

section \<open>Serialization\<close>

text \<open>The two bit fields of \<open>name_data\<close>.\<close>

definition set_file_name_offset :: "u64 \<Rightarrow> u32 \<Rightarrow> memory \<Rightarrow> memory" where
  "set_file_name_offset p v m = write32 p ((read32 m p AND NOT 0xffffff) OR (v AND 0xffffff)) m"

definition set_hash_collision_index :: "u64 \<Rightarrow> u32 \<Rightarrow> memory \<Rightarrow> memory" where
  "set_hash_collision_index p v m = write32 p ((read32 m p AND 0xffffff) OR push_bit 24 (v AND 0xff)) m"

record sarc_writer =
  w_file_count :: u32
  w_last_hash :: u32
  w_collision_count :: u32
  w_sfnt_iter :: u64
  w_file_iter :: u64
  w_memory :: memory

definition write_file :: "u32 \<Rightarrow> u64 \<Rightarrow> u64 \<Rightarrow> u64 \<Rightarrow> sarc_file \<Rightarrow> sarc_writer \<Rightarrow> sarc_writer result" where
  "write_file seed sfat sfnt_start file_region node w =
     (let hash = CalculateSarcHash seed (m_file_path node);
          collides = (0 < w_file_count w \<and> hash = w_last_hash w);
          collision_count = (if collides then w_collision_count w + 1 else 1)
      in bind_result (vp_assert (collides \<longrightarrow> collision_count < 0x100)) (\<lambda>_.
         let entry = sfat + 0xc + 0x10 * ucast (w_file_count w);
             m = write32 entry hash (w_memory w);
             m = set_file_name_offset (entry + 4) (ucast (drop_bit 2 (w_sfnt_iter w - sfnt_start))) m;
             m = set_hash_collision_index (entry + 4) collision_count m;
             string_size = (of_nat (length (m_file_path node) + 1) :: u32);
             m = write_bytes (w_sfnt_iter w) (take (unat string_size) (m_file_path node @ [0])) m;
             sfnt_iter = AlignUp (w_sfnt_iter w + ucast string_size) 4;
             file_iter = AlignUp (w_file_iter w) (ucast (m_file_alignment node));
             m = write32 (entry + 8) (ucast (file_iter - file_region)) m
         in if length (m_file node) < unat (m_file_size node) then Inl Out_Of_Bounds
            else
              let m = write_bytes file_iter (take (unat (m_file_size node)) (m_file node)) m;
                  m = write32 (entry + 12) (ucast (file_iter + ucast (m_file_size node) - file_region)) m
              in Inr \<lparr>w_file_count = w_file_count w + 1, w_last_hash = (if collides then w_last_hash w else hash),
                   w_collision_count = collision_count, w_sfnt_iter = sfnt_iter, w_file_iter = file_iter + ucast (m_file_size node),
                   w_memory = m\<rparr>))"

fun write_files :: "u32 \<Rightarrow> u64 \<Rightarrow> u64 \<Rightarrow> u64 \<Rightarrow> sarc_file list \<Rightarrow> sarc_writer \<Rightarrow> sarc_writer result" where
  "write_files seed sfat sfnt_start file_region [] w = Inr w"
| "write_files seed sfat sfnt_start file_region (node # nodes) w =
     bind_result (write_file seed sfat sfnt_start file_region node w) (write_files seed sfat sfnt_start file_region nodes)"

definition Serialize :: "u64 \<Rightarrow> u64 \<Rightarrow> sarc_memory_info \<Rightarrow> 'p sarc_builder \<Rightarrow> memory \<Rightarrow> memory result" where
  "Serialize out_buffer buffer_size info b m =
     bind_result (vp_assert (out_buffer \<noteq> 0)) (\<lambda>_.
     bind_result (vp_assert (total_file_size info \<le> buffer_size)) (\<lambda>_.
       let m = write_bytes out_buffer (replicate (unat (total_file_size info)) 0) m;
           sarc = out_buffer + offset (location_header info);
           sfat = out_buffer + offset (location_sfat info);
           sfnt = out_buffer + offset (location_sfnt info);
           file_region = out_buffer + offset (location_file_region info);
           m = write32 sarc ResSarc_cMagic m;
           m = write16 (sarc + 4) 0x14 m;
           m = write16 (sarc + 6) ByteOrder_Native m;
           m = write32 (sarc + 8) (ucast (total_file_size info)) m;
           m = write32 (sarc + 0xc) (ucast (offset (location_file_region info))) m;
           m = write16 (sarc + 0x10) (ucast ResSarc_cTargetVersion) m;
           m = write16 (sarc + 0x12) 0 m;
           m = write32 sfat ResSarcSfat_cMagic m;
           m = write16 (sfat + 4) 0xc m;
           m = write32 (sfat + 8) (m_hash_seed b) m;
           m = write32 sfnt ResSarcSfnt_cMagic m;
           m = write16 (sfnt + 4) 8 m;
           sfnt_start = sfnt + 8
       in bind_result (write_files (m_hash_seed b) sfat sfnt_start file_region (map (m_sarc_nodes b) (m_file_list b))
            \<lparr>w_file_count = 0, w_last_hash = 0, w_collision_count = 1, w_sfnt_iter = sfnt_start, w_file_iter = file_region, w_memory = m\<rparr>)
            (\<lambda>w. Inr (write16 (sfat + 6) (ucast (w_file_count w)) (w_memory w)))))"

section \<open>Adding files\<close>

definition builder_ok :: "'p sarc_builder \<Rightarrow> bool" where
  "builder_ok b \<longleftrightarrow> distinct (m_file_list b) \<and> sorted (map (hash_of b) (m_file_list b)) \<and> [] \<notin> path_of b ` set (m_file_list b)"

lemma insert_file_order:
  "insert_file b p ps = Some qs \<Longrightarrow> mset qs = add_mset p (mset ps) \<and> (sorted (map (hash_of b) ps) \<longrightarrow> sorted (map (hash_of b) qs))"
proof (induction ps arbitrary: qs)
  case (Cons q ps)
  show ?case
  proof (cases "hash_of b p > hash_of b q")
    case True
    then obtain rs where r: "insert_file b p ps = Some rs" "qs = q # rs" using Cons.prems by (auto split: if_splits)
    then have "mset rs = add_mset p (mset ps)" and s: "sorted (map (hash_of b) ps) \<longrightarrow> sorted (map (hash_of b) rs)" using Cons.IH [OF r(1)] by auto
    moreover from this(1) have "set rs = insert p (set ps)" by (metis set_mset_add_mset_insert set_mset_mset)
    ultimately show ?thesis using r True by auto
  next
    case False
    then have "hash_of b p \<le> hash_of b q" by simp
    then show ?thesis using Cons.prems False by (auto split: if_splits) (meson order_trans)
  qed
qed auto

lemma insert_file_duplicate: "insert_file b p ps = None \<Longrightarrow> path_of b p \<in> path_of b ` set ps"
  by (induction ps) (auto split: if_splits)

end
