(* ===== verification/Sarc_Layout.thy ===== *)
theory Sarc_Layout
  imports Sarc_Builder
begin

text \<open>
  What \<open>Serialize\<close> writes, as a list of writes to ranges of the buffer.  Offsets from \<open>out_buffer\<close> are natural
  numbers; under \<open>sarc_fits\<close> nothing wraps and the ranges do not meet.
\<close>

section \<open>Offsets\<close>

definition offset_of :: "u64 \<Rightarrow> u64 \<Rightarrow> nat" where
  "offset_of out p = unat (p - out)"

lemma offset_of_add [simp]: "i < 2 ^ 64 \<Longrightarrow> offset_of out (out + of_nat i) = i"
  by (simp add: offset_of_def unat_of_nat_less)

lemma add_offset_of: "out + of_nat (offset_of out p) = p"
  by (simp add: offset_of_def)

definition align_off :: "u64 \<Rightarrow> nat \<Rightarrow> u64 \<Rightarrow> nat" where
  "align_off out i a = offset_of out (AlignUp (out + of_nat i) a)"

lemma align_off:
  assumes "unat out + i + unat (a - 1) < 2 ^ 64"
  shows "AlignUp (out + of_nat i) a = out + of_nat (align_off out i a)" and "i \<le> align_off out i a" and "align_off out i a \<le> i + unat (a - 1)"
proof -
  show "AlignUp (out + of_nat i) a = out + of_nat (align_off out i a)" by (simp add: align_off_def add_offset_of)
  have i: "unat (of_nat i :: u64) = i" using assms by (intro unat_of_nat_less) simp
  have v: "unat (out + of_nat i) = unat out + i" using assms i by (simp add: unat_add_nowrap)
  have b: "unat out + i \<le> unat (AlignUp (out + of_nat i) a)" "unat (AlignUp (out + of_nat i) a) \<le> unat out + i + unat (a - 1)"
    using AlignUp_bounds [of "out + of_nat i" a] assms v by auto
  then have "align_off out i a = unat (AlignUp (out + of_nat i) a) - unat out"
    by (simp add: align_off_def offset_of_def unat_sub_nowrap)
  then show "i \<le> align_off out i a" "align_off out i a \<le> i + unat (a - 1)" using b by auto
qed

lemma align_off_4:
  assumes "unat out + i + 3 < 2 ^ 64" and "4 dvd unat out"
  shows "4 dvd align_off out i 4"
proof -
  have u: "unat (4 - 1 :: u64) = 3" by simp
  have j: "align_off out i 4 \<le> i + 3" "AlignUp (out + of_nat i) 4 = out + of_nat (align_off out i 4)"
    using align_off [of out i 4] assms(1) u by auto
  have v: "unat (out + of_nat i) = unat out + i" using assms by (simp add: unat_add_nowrap unat_of_nat_less)
  have "2 ^ 2 dvd unat (AlignUp (out + of_nat i) (2 ^ 2))" using assms v by (intro AlignUp_dvd) auto
  moreover have "unat (out + of_nat (align_off out i 4)) = unat out + align_off out i 4"
    using assms j(1) by (simp add: unat_add_nowrap unat_of_nat_less)
  ultimately have "4 dvd unat out + align_off out i 4" using j(2) by simp
  then show ?thesis using assms(2) by (simp add: dvd_add_right_iff)
qed

section \<open>The writes\<close>

definition name_word :: "u32 \<Rightarrow> u32 \<Rightarrow> u32" where
  "name_word off index = (off AND 0xffffff) OR push_bit 24 (index AND 0xff)"

lemma write32_twice: "write32 p v (write32 p u m) = write32 p v m"
  by (auto simp: write32_def write_bytes_def)

lemma read32_written [simp]: "read32 (write32 p v m) p = v"
  by (intro read32_bytes) (simp add: write32_def read_written)

lemma name_fields: "set_hash_collision_index p c (set_file_name_offset p v m) = write32 p (name_word v c) m"
proof -
  have "((x AND NOT 0xffffff) OR (v AND 0xffffff)) AND 0xffffff = v AND 0xffffff" for x v :: u32
    by (rule bit_word_eqI) (auto simp: bit_simps)
  then show ?thesis by (simp add: set_hash_collision_index_def set_file_name_offset_def write32_twice name_word_def)
qed

definition file_bytes :: "sarc_file \<Rightarrow> u8 list" where
  "file_bytes node = take (unat (m_file_size node)) (m_file node)"

definition node_chunks :: "u64 \<Rightarrow> u32 \<Rightarrow> nat \<Rightarrow> nat \<Rightarrow> nat \<Rightarrow> nat \<Rightarrow> nat \<Rightarrow> u32 \<Rightarrow> sarc_file \<Rightarrow> chunk list" where
  "node_chunks out seed S R k s f c node =
     (let e = 0x20 + 0x10 * k; f1 = align_off out f (ucast (m_file_alignment node))
      in [(e, bytes 4 (CalculateSarcHash seed (m_file_path node))),
          (e + 4, bytes 4 (name_word (of_nat ((s - S) div 4)) c)),
          (s, m_file_path node @ [0]),
          (e + 8, bytes 4 (of_nat (f1 - R) :: u32)),
          (f1, file_bytes node),
          (e + 12, bytes 4 (of_nat (f1 + unat (m_file_size node) - R) :: u32))])"

definition next_path :: "u64 \<Rightarrow> nat \<Rightarrow> sarc_file \<Rightarrow> nat" where
  "next_path out s node = align_off out (s + length (m_file_path node) + 1) 4"

definition next_file :: "u64 \<Rightarrow> nat \<Rightarrow> sarc_file \<Rightarrow> nat" where
  "next_file out f node = align_off out f (ucast (m_file_alignment node)) + unat (m_file_size node)"

fun files_chunks :: "u64 \<Rightarrow> u32 \<Rightarrow> nat \<Rightarrow> nat \<Rightarrow> nat \<Rightarrow> nat \<Rightarrow> nat \<Rightarrow> sarc_file list \<Rightarrow> chunk list" where
  "files_chunks out seed S R k s f [] = []"
| "files_chunks out seed S R k s f (node # nodes) =
     node_chunks out seed S R k s f 1 node @ files_chunks out seed S R (Suc k) (next_path out s node) (next_file out f node) nodes"

text \<open>The room a list of files takes at most, of paths and of files.\<close>

definition path_room :: "sarc_file list \<Rightarrow> nat" where
  "path_room nodes = (\<Sum>node\<leftarrow>nodes. length (m_file_path node) + 4)"

definition file_room :: "sarc_file list \<Rightarrow> nat" where
  "file_room nodes = (\<Sum>node\<leftarrow>nodes. unat (m_file_alignment node) + unat (m_file_size node))"

definition file_ok :: "sarc_file \<Rightarrow> bool" where
  "file_ok node \<longleftrightarrow> 0 < m_file_alignment node \<and> unat (m_file_size node) \<le> length (m_file node) \<and> 0 \<notin> set (m_file_path node)"

lemma room_simps [simp]:
  "path_room [] = 0" "path_room (node # nodes) = length (m_file_path node) + 4 + path_room nodes"
  "file_room [] = 0" "file_room (node # nodes) = unat (m_file_alignment node) + unat (m_file_size node) + file_room nodes"
  by (simp_all add: path_room_def file_room_def)

lemma unat_ucast_minus_1: "0 < a \<Longrightarrow> unat (ucast a - 1 :: u64) = unat a - 1" for a :: u32
proof -
  assume "0 < a"
  then have "0 < unat a" by (simp add: word_less_nat_alt)
  then show ?thesis by (subst unat_sub_nowrap) (simp_all add: unat_ucast_up)
qed

lemma next_path_bounds:
  assumes "unat out + s + length (m_file_path node) + 4 < 2 ^ 64"
  shows "s + length (m_file_path node) + 1 \<le> next_path out s node" and "next_path out s node \<le> s + length (m_file_path node) + 4"
  using align_off(2,3) [of out "s + length (m_file_path node) + 1" 4] assms by (auto simp: next_path_def)

lemma next_file_bounds:
  assumes "unat out + f + unat (m_file_alignment node) < 2 ^ 64" and "file_ok node"
  shows "f \<le> align_off out f (ucast (m_file_alignment node))"
    and "next_file out f node \<le> f + unat (m_file_alignment node) + unat (m_file_size node)"
    and "AlignUp (out + of_nat f) (ucast (m_file_alignment node)) = out + of_nat (align_off out f (ucast (m_file_alignment node)))"
proof -
  have u: "unat (ucast (m_file_alignment node) - 1 :: u64) \<le> unat (m_file_alignment node)"
    using assms(2) unat_ucast_minus_1 [of "m_file_alignment node"] by (simp add: file_ok_def)
  then have "unat out + f + unat (ucast (m_file_alignment node) - 1 :: u64) < 2 ^ 64" using assms(1) by linarith
  note a = align_off [OF this]
  show "f \<le> align_off out f (ucast (m_file_alignment node))" by (rule a(2))
  show "next_file out f node \<le> f + unat (m_file_alignment node) + unat (m_file_size node)" using a(3) u by (simp add: next_file_def)
  show "AlignUp (out + of_nat f) (ucast (m_file_alignment node)) = out + of_nat (align_off out f (ucast (m_file_alignment node)))" by (rule a(1))
qed

lemma length_file_bytes [simp]: "file_ok node \<Longrightarrow> length (file_bytes node) = unat (m_file_size node)"
  by (simp add: file_bytes_def file_ok_def)

section \<open>The loop writes its list\<close>

lemma ucast_of_nat_64: "ucast (of_nat n :: u64) = (of_nat n :: u32)"
  by (auto simp: bit_simps intro!: bit_word_eqI) 

lemma ucast_of_nat_up: "n < 2 ^ 32 \<Longrightarrow> ucast (of_nat n :: u32) = (of_nat n :: u64)"
  by (simp add: word_eq_unat_iff unat_ucast_up unat_of_nat_less)

lemma write_file_chunks:
  assumes out: "unat out + 2 ^ 32 \<le> 2 ^ 64" and node: "file_ok node"
    and k: "unat (w_file_count w) = k" and s: "w_sfnt_iter w = out + of_nat s" and f: "w_file_iter w = out + of_nat f"
    and sb: "S \<le> s" "s + length (m_file_path node) + 4 < 2 ^ 32" and fb: "R \<le> f" "f + unat (m_file_alignment node) + unat (m_file_size node) < 2 ^ 32"
    and fresh: "k = 0 \<or> CalculateSarcHash seed (m_file_path node) \<noteq> w_last_hash w"
  shows "write_file seed (out + 0x14) (out + of_nat S) (out + of_nat R) node w = Inr \<lparr>w_file_count = w_file_count w + 1,
    w_last_hash = CalculateSarcHash seed (m_file_path node), w_collision_count = 1, w_sfnt_iter = out + of_nat (next_path out s node),
    w_file_iter = out + of_nat (next_file out f node), w_memory = write_chunks out (node_chunks out seed S R k s f 1 node) (w_memory w)\<rparr>"
proof -
  have u: "unat out + s + length (m_file_path node) + 4 < 2 ^ 64" using out sb by simp
  have v: "unat out + f + unat (m_file_alignment node) < 2 ^ 64" using out fb by simp
  note a = next_file_bounds [OF v node]
  have nocol: "\<not> (0 < w_file_count w \<and> CalculateSarcHash seed (m_file_path node) = w_last_hash w)"
    using fresh k by (auto simp: word_less_nat_alt)
  define e where "e = 0x20 + 0x10 * k"
  have "ucast (w_file_count w) = (of_nat k :: u64)" using k by (metis of_nat_unat)
  then have entry: "out + 0x14 + 0xc + 0x10 * ucast (w_file_count w) = out + of_nat e" by (simp add: e_def)
  have off4: "drop_bit 2 (out + of_nat s - (out + of_nat S)) = (of_nat ((s - S) div 4) :: u64)"
  proof -
    have "out + of_nat s - (out + of_nat S) = (of_nat (s - S) :: u64)" using sb(1) by (simp add: of_nat_diff)
    moreover have "drop_bit 2 (of_nat n :: u64) = of_nat (n div 4)" if "n < 2 ^ 32" for n
      using that by (simp add: word_eq_unat_iff drop_bit_eq_div unat_div unat_of_nat_less)
    moreover have "s - S < 2 ^ 32" using sb by simp
    ultimately show ?thesis by (simp only:)
  qed
  have str: "unat (of_nat (length (m_file_path node) + 1) :: u32) = length (m_file_path node) + 1" using sb by (intro unat_of_nat_less) simp
  have sfnt: "AlignUp (out + of_nat s + ucast (of_nat (length (m_file_path node) + 1) :: u32)) 4 = out + of_nat (next_path out s node)"
  proof -
    have "ucast (of_nat (length (m_file_path node) + 1) :: u32) = (of_nat (length (m_file_path node) + 1) :: u64)" using sb by (intro ucast_of_nat_up) simp
    then show ?thesis by (simp add: next_path_def align_off_def add_offset_of ac_simps)
  qed
  define f1 where "f1 = align_off out f (ucast (m_file_alignment node))"
  have f1: "AlignUp (out + of_nat f) (ucast (m_file_alignment node)) = out + of_nat f1" and le: "R \<le> f1" using a fb by (simp_all add: f1_def)
  have diff: "out + of_nat i - (out + of_nat R) = of_nat (i - R)" if "R \<le> i" for i using that by (simp add: of_nat_diff)
  have start: "ucast (out + of_nat f1 - (out + of_nat R)) = (of_nat (f1 - R) :: u32)" by (simp only: diff [OF le] ucast_of_nat_64)
  have iter: "out + of_nat f1 + ucast (m_file_size node) = out + of_nat (f1 + unat (m_file_size node))" by simp
  have "R \<le> f1 + unat (m_file_size node)" using le by simp
  then have stop: "ucast (out + of_nat (f1 + unat (m_file_size node)) - (out + of_nat R)) = (of_nat (f1 + unat (m_file_size node) - R) :: u32)"
    by (simp only: diff ucast_of_nat_64)
  have nth: "out + of_nat e + 4 = out + of_nat (e + 4)" "out + of_nat e + 8 = out + of_nat (e + 8)" "out + of_nat e + 12 = out + of_nat (e + 12)" by simp_all
  have room: "\<not> length (m_file node) < unat (m_file_size node)" using node by (simp add: file_ok_def)
  have path: "take (unat (of_nat (length (m_file_path node) + 1) :: u32)) (m_file_path node @ [0]) = m_file_path node @ [0]" by (simp only: str) simp
  show ?thesis
    unfolding write_file_def Let_def s f entry nth
    using nocol by (simp only: if_False bind_vp_assert simp_thms if_True room path sfnt f1 start iter stop name_fields off4 ucast_of_nat_64
      node_chunks_def Let_def next_file_def write_chunks_simps write32_def file_bytes_def flip: e_def f1_def)
qed

definition last_path :: "u64 \<Rightarrow> nat \<Rightarrow> sarc_file list \<Rightarrow> nat" where
  "last_path out s nodes = foldl (next_path out) s nodes"

lemma last_path_simps [simp]: "last_path out s [] = s" "last_path out s (node # nodes) = last_path out (next_path out s node) nodes"
  by (simp_all add: last_path_def)

abbreviation node_hash :: "u32 \<Rightarrow> sarc_file \<Rightarrow> u32" where
  "node_hash seed node \<equiv> CalculateSarcHash seed (m_file_path node)"

lemma last_path_bounds:
  "unat out + s + path_room nodes < 2 ^ 64 \<Longrightarrow> s \<le> last_path out s nodes \<and> last_path out s nodes \<le> s + path_room nodes"
proof (induction nodes arbitrary: s)
  case (Cons node nodes)
  then have b: "unat out + s + length (m_file_path node) + 4 < 2 ^ 64" by simp
  from next_path_bounds [OF b] show ?case using Cons.IH [of "next_path out s node"] Cons.prems by simp
qed simp

lemma write_files_chunks:
  assumes out: "unat out + 2 ^ 32 \<le> 2 ^ 64"
  shows "\<forall>node\<in>set nodes. file_ok node \<Longrightarrow> sorted_wrt (<) (map (node_hash seed) nodes) \<Longrightarrow>
    k = 0 \<or> (\<forall>node\<in>set nodes. node_hash seed node \<noteq> w_last_hash w) \<Longrightarrow>
    w_file_count w = of_nat k \<Longrightarrow> k + length nodes < 2 ^ 32 \<Longrightarrow> w_sfnt_iter w = out + of_nat s \<Longrightarrow> w_file_iter w = out + of_nat f \<Longrightarrow>
    S \<le> s \<Longrightarrow> s + path_room nodes < 2 ^ 32 \<Longrightarrow> R \<le> f \<Longrightarrow> f + file_room nodes < 2 ^ 32 \<Longrightarrow>
    \<exists>w'. write_files seed (out + 0x14) (out + of_nat S) (out + of_nat R) nodes w = Inr w' \<and>
      w_file_count w' = of_nat (k + length nodes) \<and> w_memory w' = write_chunks out (files_chunks out seed S R k s f nodes) (w_memory w)"
proof (induction nodes arbitrary: w k s f)
  case (Cons node nodes)
  have node: "file_ok node" using Cons.prems by simp
  have k: "unat (w_file_count w) = k" using Cons.prems by (simp add: unat_of_nat_less)
  have b: "s + length (m_file_path node) + 4 < 2 ^ 32" "f + unat (m_file_alignment node) + unat (m_file_size node) < 2 ^ 32"
    using Cons.prems by auto
  have fresh: "k = 0 \<or> node_hash seed node \<noteq> w_last_hash w" using Cons.prems by auto
  define w1 where "w1 = \<lparr>w_file_count = w_file_count w + 1, w_last_hash = node_hash seed node, w_collision_count = 1,
    w_sfnt_iter = out + of_nat (next_path out s node), w_file_iter = out + of_nat (next_file out f node),
    w_memory = write_chunks out (node_chunks out seed S R k s f 1 node) (w_memory w)\<rparr>"
  have w1: "write_file seed (out + 0x14) (out + of_nat S) (out + of_nat R) node w = Inr w1"
    unfolding w1_def using Cons.prems b fresh by (intro write_file_chunks [OF out node k]) auto
  have p: "s \<le> next_path out s node" "next_path out s node \<le> s + length (m_file_path node) + 4"
    using next_path_bounds [of out s node] b out by auto
  have q: "f \<le> next_file out f node" "next_file out f node \<le> f + unat (m_file_alignment node) + unat (m_file_size node)"
    using next_file_bounds [of out f node] node b out by (auto simp: next_file_def)
  have "\<exists>w'. write_files seed (out + 0x14) (out + of_nat S) (out + of_nat R) nodes w1 = Inr w' \<and> w_file_count w' = of_nat (Suc k + length nodes) \<and>
    w_memory w' = write_chunks out (files_chunks out seed S R (Suc k) (next_path out s node) (next_file out f node) nodes) (w_memory w1)"
    using Cons.prems p q by (intro Cons.IH) (auto simp: w1_def)
  then show ?case by (auto simp: w1 w1_def)
qed simp

section \<open>The ranges do not meet\<close>

definition in_regions :: "nat \<Rightarrow> nat \<Rightarrow> nat \<Rightarrow> nat \<Rightarrow> nat \<Rightarrow> nat \<Rightarrow> chunk \<Rightarrow> bool" where
  "in_regions e e' s s' f f' c \<longleftrightarrow>
     e \<le> fst c \<and> fst c + length (snd c) \<le> e' \<or> s \<le> fst c \<and> fst c + length (snd c) \<le> s' \<or> f \<le> fst c \<and> fst c + length (snd c) \<le> f'"

lemma node_chunks_regions:
  assumes "file_ok node" and "unat out + s + length (m_file_path node) + 4 < 2 ^ 64" and "unat out + f + unat (m_file_alignment node) < 2 ^ 64"
  shows "\<forall>c\<in>set (node_chunks out seed S R k s f i node). in_regions (0x20 + 0x10 * k) (0x20 + 0x10 * Suc k) s (next_path out s node) f (next_file out f node) c"
  using next_path_bounds [OF assms(2)] next_file_bounds [OF assms(3,1)] assms(1)
  by (auto simp: node_chunks_def in_regions_def next_file_def Let_def)

lemma in_regions_mono:
  "in_regions e e' s s' f f' c \<Longrightarrow> e2 \<le> e \<Longrightarrow> e' \<le> e2' \<Longrightarrow> s2 \<le> s \<Longrightarrow> s' \<le> s2' \<Longrightarrow> f2 \<le> f \<Longrightarrow> f' \<le> f2' \<Longrightarrow> in_regions e2 e2' s2 s2' f2 f2' c"
  by (auto simp: in_regions_def)

lemma in_regions_disjoint:
  "in_regions e e' s s' f f' c \<Longrightarrow> in_regions e' e'' s' s'' f' f'' d \<Longrightarrow> e'' \<le> s \<Longrightarrow> s'' \<le> f \<Longrightarrow> e \<le> e' \<Longrightarrow> s \<le> s' \<Longrightarrow> f \<le> f' \<Longrightarrow> e' \<le> e'' \<Longrightarrow> s' \<le> s'' \<Longrightarrow>
    disjoint_chunks c d"
  by (auto simp: in_regions_def disjoint_chunks_def)

lemma files_chunks_regions:
  assumes out: "unat out + 2 ^ 32 \<le> 2 ^ 64"
  shows "\<forall>node\<in>set nodes. file_ok node \<Longrightarrow> s + path_room nodes < 2 ^ 32 \<Longrightarrow> f + file_room nodes < 2 ^ 32 \<Longrightarrow>
    \<forall>c\<in>set (files_chunks out seed S R k s f nodes).
      in_regions (0x20 + 0x10 * k) (0x20 + 0x10 * (k + length nodes)) s (last_path out s nodes) f (f + file_room nodes) c"
proof (induction nodes arbitrary: k s f)
  case (Cons node nodes)
  have node: "file_ok node" using Cons.prems by simp
  have b: "unat out + s + length (m_file_path node) + 4 < 2 ^ 64" "unat out + f + unat (m_file_alignment node) < 2 ^ 64"
    using Cons.prems out by auto
  note p = next_path_bounds [OF b(1)] and q = next_file_bounds [OF b(2) node]
  have q1: "f \<le> next_file out f node" using q by (simp add: next_file_def)
  have "\<forall>c\<in>set (files_chunks out seed S R (Suc k) (next_path out s node) (next_file out f node) nodes).
    in_regions (0x20 + 0x10 * Suc k) (0x20 + 0x10 * (Suc k + length nodes)) (next_path out s node) (last_path out (next_path out s node) nodes)
      (next_file out f node) (next_file out f node + file_room nodes) c"
    using Cons.prems p q by (intro Cons.IH) auto
  moreover have "next_path out s node \<le> last_path out (next_path out s node) nodes"
    using last_path_bounds [of out "next_path out s node" nodes] p Cons.prems out by auto
  ultimately show ?case
    using node_chunks_regions [OF node b, of seed S R k 1] p q q1 by (auto intro: in_regions_mono)
qed simp

lemma files_chunks_disjoint:
  assumes out: "unat out + 2 ^ 32 \<le> 2 ^ 64"
  shows "\<forall>node\<in>set nodes. file_ok node \<Longrightarrow> s + path_room nodes < 2 ^ 32 \<Longrightarrow> f + file_room nodes < 2 ^ 32 \<Longrightarrow>
    0x20 + 0x10 * (k + length nodes) \<le> s \<Longrightarrow> last_path out s nodes \<le> f \<Longrightarrow>
    sorted_wrt disjoint_chunks (files_chunks out seed S R k s f nodes)"
proof (induction nodes arbitrary: k s f)
  case (Cons node nodes)
  have node: "file_ok node" using Cons.prems by simp
  have b: "unat out + s + length (m_file_path node) + 4 < 2 ^ 64" "unat out + f + unat (m_file_alignment node) < 2 ^ 64"
    using Cons.prems out by auto
  note p = next_path_bounds [OF b(1)] and q = next_file_bounds [OF b(2) node]
  have q1: "f \<le> next_file out f node" using q by (simp add: next_file_def)
  have l: "next_path out s node \<le> last_path out (next_path out s node) nodes"
    using last_path_bounds [of out "next_path out s node" nodes] p Cons.prems out by auto
  have "sorted_wrt disjoint_chunks (node_chunks out seed S R k s f 1 node)"
    using p q node Cons.prems l by (simp add: node_chunks_def disjoint_chunks_def Let_def)
  moreover have "sorted_wrt disjoint_chunks (files_chunks out seed S R (Suc k) (next_path out s node) (next_file out f node) nodes)"
    using Cons.prems p q q1 by (intro Cons.IH) auto
  moreover have "disjoint_chunks c d" if "c \<in> set (node_chunks out seed S R k s f 1 node)"
    "d \<in> set (files_chunks out seed S R (Suc k) (next_path out s node) (next_file out f node) nodes)" for c d
  proof -
    have "in_regions (0x20 + 0x10 * k) (0x20 + 0x10 * Suc k) s (next_path out s node) f (next_file out f node) c"
      using node_chunks_regions [OF node b] that(1) by blast
    moreover have "in_regions (0x20 + 0x10 * Suc k) (0x20 + 0x10 * (Suc k + length nodes)) (next_path out s node) (last_path out (next_path out s node) nodes)
      (next_file out f node) (next_file out f node + file_room nodes) d"
      using files_chunks_regions [OF out, of nodes "next_path out s node" "next_file out f node" seed S R "Suc k"] Cons.prems p q that(2) by auto
    ultimately show ?thesis by (rule in_regions_disjoint) (use Cons.prems p q1 l in auto)
  qed
  ultimately show ?case by (simp add: sorted_wrt_append)
qed simp

section \<open>One file among the writes\<close>

definition placed :: "u64 \<Rightarrow> u32 \<Rightarrow> nat \<Rightarrow> nat \<Rightarrow> chunk list \<Rightarrow> nat \<Rightarrow> sarc_file \<Rightarrow> nat \<Rightarrow> nat \<Rightarrow> bool" where
  "placed out seed S R cs k node s f \<longleftrightarrow> set (node_chunks out seed S R k s f 1 node) \<subseteq> set cs"

lemma file_placed:
  assumes out: "unat out + 2 ^ 32 \<le> 2 ^ 64" and al: "4 dvd unat out"
  shows "\<forall>node\<in>set nodes. file_ok node \<Longrightarrow> s + path_room nodes < 2 ^ 32 \<Longrightarrow> f + file_room nodes < 2 ^ 32 \<Longrightarrow> 4 dvd s \<Longrightarrow> i < length nodes \<Longrightarrow>
    \<exists>s' f'. s \<le> s' \<and> s' + length (m_file_path (nodes ! i)) + 1 \<le> last_path out s nodes \<and> 4 dvd s' \<and>
      f \<le> f' \<and> f' + unat (m_file_alignment (nodes ! i)) + unat (m_file_size (nodes ! i)) \<le> f + file_room nodes \<and>
      placed out seed S R (files_chunks out seed S R k s f nodes) (k + i) (nodes ! i) s' f'"
proof (induction nodes arbitrary: k s f i)
  case (Cons node nodes)
  have node: "file_ok node" using Cons.prems by simp
  have b: "unat out + s + length (m_file_path node) + 4 < 2 ^ 64" "unat out + f + unat (m_file_alignment node) < 2 ^ 64"
    using Cons.prems out by auto
  note p = next_path_bounds [OF b(1)] and q = next_file_bounds [OF b(2) node]
  have q1: "f \<le> next_file out f node" using q by (simp add: next_file_def)
  have d: "4 dvd next_path out s node" unfolding next_path_def using b al by (intro align_off_4) auto
  have l: "next_path out s node \<le> last_path out (next_path out s node) nodes"
    using last_path_bounds [of out "next_path out s node" nodes] p Cons.prems out by auto
  show ?case
  proof (cases i)
    case 0
    then show ?thesis using p l Cons.prems by (intro exI [of _ s] exI [of _ f]) (auto simp: placed_def)
  next
    case (Suc j)
    have "\<exists>s' f'. next_path out s node \<le> s' \<and> s' + length (m_file_path (nodes ! j)) + 1 \<le> last_path out (next_path out s node) nodes \<and> 4 dvd s' \<and>
      next_file out f node \<le> f' \<and> f' + unat (m_file_alignment (nodes ! j)) + unat (m_file_size (nodes ! j)) \<le> next_file out f node + file_room nodes \<and>
      placed out seed S R (files_chunks out seed S R (Suc k) (next_path out s node) (next_file out f node) nodes) (Suc k + j) (nodes ! j) s' f'"
      using Cons.prems p q Suc d by (intro Cons.IH) auto
    then obtain s' f' where r: "next_path out s node \<le> s'" "s' + length (m_file_path (nodes ! j)) + 1 \<le> last_path out (next_path out s node) nodes" "4 dvd s'"
      "next_file out f node \<le> f'" "f' + unat (m_file_alignment (nodes ! j)) + unat (m_file_size (nodes ! j)) \<le> next_file out f node + file_room nodes"
      "placed out seed S R (files_chunks out seed S R (Suc k) (next_path out s node) (next_file out f node) nodes) (Suc k + j) (nodes ! j) s' f'" by blast
    then show ?thesis using Suc p q q1 by (intro exI [of _ s'] exI [of _ f']) (auto simp: placed_def)
  qed
qed simp

section \<open>The sizes\<close>

lemma round_4: "unat v + 3 < 2 ^ 64 \<Longrightarrow> unat (AlignUp v 4) = (unat v + 3) div 4 * 4"
  using AlignUp_pow2 [of 2 v] by simp

lemma next_path_relative:
  assumes "unat out + c + t + length (m_file_path node) + 4 < 2 ^ 64" and "4 dvd unat out" and "4 dvd c"
  shows "next_path out (c + t) node = c + (t + length (m_file_path node) + 4) div 4 * 4"
proof -
  have b: "unat out + (c + t) + length (m_file_path node) + 4 < 2 ^ 64" using assms(1) by simp
  define i where "i = c + t + length (m_file_path node) + 1"
  have il: "unat out + i < 2 ^ 64" using assms(1) by (simp add: i_def)
  have v: "unat (out + of_nat i) = unat out + i" using il by (subst unat_add_nowrap) (simp_all add: unat_of_nat_less)
  have "unat out + next_path out (c + t) node = unat (out + of_nat (next_path out (c + t) node))"
    using next_path_bounds [OF b] assms(1) by (simp add: unat_add_nowrap unat_of_nat_less)
  also have "out + of_nat (next_path out (c + t) node) = AlignUp (out + of_nat i) 4"
    by (simp only: next_path_def align_off_def add_offset_of i_def)
  also have "unat (AlignUp (out + of_nat i) 4) = (unat out + i + 3) div 4 * 4" using v assms(1) by (subst round_4) (simp_all add: i_def)
  also have "unat out + i + 3 = unat out + c + (t + length (m_file_path node) + 4)" by (simp add: i_def)
  also have "(unat out + c + (t + length (m_file_path node) + 4)) div 4 * 4 = unat out + c + (t + length (m_file_path node) + 4) div 4 * 4"
  proof -
    obtain q where "unat out + c = 4 * q" using dvd_add [OF assms(2,3)] by (elim dvdE)
    then show ?thesis by simp
  qed
  finally show ?thesis by simp
qed

lemma sfnt_size_step:
  assumes "unat (z_sfnt_size z) + length (m_file_path node) + 4 < 2 ^ 32"
  shows "unat (z_sfnt_size (size_step node z)) = (unat (z_sfnt_size z) + length (m_file_path node) + 4) div 4 * 4"
proof -
  have v: "unat (ucast (z_sfnt_size z) + of_nat (length (m_file_path node)) + 1 :: u64) = unat (z_sfnt_size z) + length (m_file_path node) + 1"
  proof -
    have "ucast (z_sfnt_size z) + of_nat (length (m_file_path node)) + 1 = (of_nat (unat (z_sfnt_size z) + length (m_file_path node) + 1) :: u64)" by simp
    moreover have "unat (of_nat (unat (z_sfnt_size z) + length (m_file_path node) + 1) :: u64) = unat (z_sfnt_size z) + length (m_file_path node) + 1"
      using assms by (intro unat_of_nat_less) simp
    ultimately show ?thesis by (simp only:)
  qed
  have "unat (AlignUp (ucast (z_sfnt_size z) + of_nat (length (m_file_path node)) + 1) 4) = (unat (z_sfnt_size z) + length (m_file_path node) + 4) div 4 * 4"
    using v assms by (subst round_4) simp_all
  moreover have "(unat (z_sfnt_size z) + length (m_file_path node) + 4) div 4 * 4 < 2 ^ 32" using assms by (meson div_times_less_eq_dividend le_less_trans)
  ultimately show ?thesis by (simp add: size_step_def Let_def unsigned_ucast_eq take_bit_nat_eq_self)
qed

lemma sizes_last_path:
  assumes out: "unat out + c + 2 ^ 32 \<le> 2 ^ 64" "4 dvd unat out" "4 dvd c"
  shows "unat (z_sfnt_size z) + path_room nodes < 2 ^ 32 \<Longrightarrow>
    last_path out (c + unat (z_sfnt_size z)) nodes = c + unat (z_sfnt_size (foldl (\<lambda>z node. size_step node z) z nodes)) \<and>
    z_file_count (foldl (\<lambda>z node. size_step node z) z nodes) = z_file_count z + of_nat (length nodes)"
proof (induction nodes arbitrary: z)
  case (Cons node nodes)
  have b: "unat (z_sfnt_size z) + length (m_file_path node) + 4 < 2 ^ 32" using Cons.prems by simp
  have e: "next_path out (c + unat (z_sfnt_size z)) node = c + unat (z_sfnt_size (size_step node z))"
    unfolding sfnt_size_step [OF b] using out b by (intro next_path_relative) auto
  have "(unat (z_sfnt_size z) + length (m_file_path node) + 4) div 4 * 4 \<le> unat (z_sfnt_size z) + length (m_file_path node) + 4" by simp
  then have "unat (z_sfnt_size (size_step node z)) + path_room nodes < 2 ^ 32" using Cons.prems sfnt_size_step [OF b] by simp
  from Cons.IH [OF this] show ?case using e by (simp add: size_step_def Let_def)
qed simp

end
