(* ===== verification/Sarc_Props.thy ===== *)
theory Sarc_Props
  imports Sarc_Layout
begin

text \<open>
  The builder and the extractor together: an archive with distinct hashes gives back every file by its path.
  The size the builder computes is that of the files alone, so a buffer of that size is overrun, and paths
  of equal hash are confused.
\<close>

section \<open>The bounds of an archive\<close>

definition builder_files :: "'p sarc_builder \<Rightarrow> sarc_file list" where
  "builder_files b = map (m_sarc_nodes b) (m_file_list b)"

text \<open>The reader takes less than \<open>2 ^ 14\<close> files, a path offset has 24 bits of words, a file offset 32 bits.\<close>

definition sarc_fits :: "u64 \<Rightarrow> 'p sarc_builder \<Rightarrow> bool" where
  "sarc_fits out b \<longleftrightarrow> m_file_list b \<noteq> [] \<and> length (m_file_list b) < 2 ^ 14 \<and> (\<forall>node\<in>set (builder_files b). file_ok node) \<and>
     path_room (builder_files b) < 2 ^ 26 \<and> file_room (builder_files b) < 2 ^ 30 \<and>
     0 < out \<and> 4 dvd unat out \<and> unat out + 2 ^ 33 \<le> 2 ^ 64"

definition sfnt_offset :: "'p sarc_builder \<Rightarrow> nat" where
  "sfnt_offset b = 0x20 + 0x10 * length (m_file_list b)"

definition header_chunks :: "u32 \<Rightarrow> u64 \<Rightarrow> nat \<Rightarrow> nat \<Rightarrow> chunk list" where
  "header_chunks seed tfs R c =
     [(0, bytes 4 ResSarc_cMagic), (4, bytes 2 (0x14 :: u16)), (6, bytes 2 ByteOrder_Native), (8, bytes 4 (ucast tfs :: u32)),
      (0xc, bytes 4 (of_nat R :: u32)), (0x10, bytes 2 (0x100 :: u16)), (0x12, bytes 2 (0 :: u16)), (0x14, bytes 4 ResSarcSfat_cMagic),
      (0x18, bytes 2 (0xc :: u16)), (0x1c, bytes 4 seed), (c, bytes 4 ResSarcSfnt_cMagic), (c + 4, bytes 2 (8 :: u16))]"

definition archive_chunks :: "u64 \<Rightarrow> 'p sarc_builder \<Rightarrow> u64 \<Rightarrow> nat \<Rightarrow> chunk list" where
  "archive_chunks out b tfs R =
     header_chunks (m_hash_seed b) tfs R (sfnt_offset b) @
     files_chunks out (m_hash_seed b) (sfnt_offset b + 8) R 0 (sfnt_offset b + 8) R (builder_files b) @
     [(0x1a, bytes 2 (of_nat (length (m_file_list b)) :: u16))]"

lemma sarc_sizes_files: "sarc_sizes b = foldl (\<lambda>z node. size_step node z) \<lparr>z_file_count = 0, z_sfnt_size = 8, z_file_region_size = 0, z_max_align = 4\<rparr> (builder_files b)"
  by (simp add: sarc_sizes_def builder_files_def foldl_map)

lemma memory_info:
  assumes fits: "sarc_fits out b" and info: "CalculateMemoryInfo b = Inr info"
  obtains R where "offset (location_header info) = 0" and "offset (location_sfat info) = 0x14" and "offset (location_sfnt info) = of_nat (sfnt_offset b)"
    and "offset (location_file_region info) = of_nat R" and "last_path out (sfnt_offset b + 8) (builder_files b) \<le> R"
    and "R + file_room (builder_files b) < 2 ^ 32" and "total_file_size info = ucast (z_file_region_size (sarc_sizes b))"
proof -
  obtain front ps where l: "m_file_list b = front # ps" using fits by (cases "m_file_list b") (auto simp: sarc_fits_def)
  let ?a = "ucast (m_file_alignment (m_sarc_nodes b front)) :: u64"
  have nodes: "builder_files b = m_sarc_nodes b front # map (m_sarc_nodes b) ps" by (simp add: builder_files_def l)
  have len: "length (builder_files b) = length (m_file_list b)" by (simp add: builder_files_def)
  have c: "4 dvd sfnt_offset b" by (simp add: sfnt_offset_def)
  let ?z = "sarc_sizes b"
  have room: "path_room (builder_files b) < 2 ^ 26" "file_room (builder_files b) < 2 ^ 30" "length (m_file_list b) < 2 ^ 14"
    "4 dvd unat out" "unat out + 2 ^ 33 \<le> 2 ^ 64" using fits by (simp_all add: sarc_fits_def)
  have a: "unat ?a \<le> file_room (builder_files b)" "0 < ?a"
    using fits by (auto simp: nodes sarc_fits_def file_ok_def unat_ucast_up word_less_nat_alt)
  have sizes: "last_path out (sfnt_offset b + 8) (builder_files b) = sfnt_offset b + unat (z_sfnt_size ?z)"
    "z_file_count ?z = of_nat (length (m_file_list b))"
    using sizes_last_path [of out "sfnt_offset b" "\<lparr>z_file_count = 0, z_sfnt_size = 8, z_file_region_size = 0, z_max_align = 4\<rparr>" "builder_files b"]
      room c by (auto simp: sarc_sizes_files len sfnt_offset_def)
  have last: "last_path out (sfnt_offset b + 8) (builder_files b) \<le> sfnt_offset b + 8 + path_room (builder_files b)"
    using last_path_bounds [of out "sfnt_offset b + 8" "builder_files b"] room by (simp add: sfnt_offset_def)
  have n: "ucast (of_nat (length (m_file_list b)) :: u32) = (of_nat (length (m_file_list b)) :: u64)"
    using room(3) by (intro ucast_of_nat_up) simp
  define v where "v = (of_nat (sfnt_offset b + unat (z_sfnt_size ?z)) :: u64)"
  have v: "unat v = sfnt_offset b + unat (z_sfnt_size ?z)"
    unfolding v_def using last sizes(1) room by (intro unat_of_nat_less) (simp add: sfnt_offset_def)
  have am: "unat (?a - 1) \<le> unat ?a" using a(2) by (subst unat_sub_nowrap) (auto simp: word_le_nat_alt word_less_nat_alt)
  then have "unat v + unat (?a - 1) < 2 ^ 64" using a(1) v last sizes(1) room by (simp add: sfnt_offset_def)
  then have R: "unat v \<le> unat (AlignUp v ?a)" "unat (AlignUp v ?a) \<le> unat v + unat ?a"
    using AlignUp_bounds [of v ?a] am by auto
  have e: "CalculateMemoryInfo b = Inr \<lparr>total_file_size = AlignUp v ?a + (ucast (z_file_region_size ?z) - AlignUp v ?a), max_alignment = z_max_align ?z,
    location_header = \<lparr>offset = 0, bl_size = 0x14, bl_alignment = 4\<rparr>,
    location_sfat = \<lparr>offset = 0x14, bl_size = 0xc + 0x10 * of_nat (length (m_file_list b)), bl_alignment = 4\<rparr>,
    location_sfnt = \<lparr>offset = of_nat (sfnt_offset b), bl_size = ucast (z_sfnt_size ?z), bl_alignment = 4\<rparr>,
    location_file_region = \<lparr>offset = AlignUp v ?a, bl_size = ucast (z_file_region_size ?z) - AlignUp v ?a, bl_alignment = 4\<rparr>\<rparr>"
    unfolding CalculateMemoryInfo_def Let_def v_def sizes(2) n by (simp add: sfnt_offset_def split: list.split) (simp add: l)
  show thesis
  proof (rule that [of "unat (AlignUp v ?a)"])
    show "last_path out (sfnt_offset b + 8) (builder_files b) \<le> unat (AlignUp v ?a)" using R(1) v sizes(1) by simp
    show "unat (AlignUp v ?a) + file_room (builder_files b) < 2 ^ 32" using R(2) v sizes(1) last a(1) room by (simp add: sfnt_offset_def)
  qed (use info e in auto)
qed

section \<open>The archive in memory\<close>

definition hashes_ascend :: "'p sarc_builder \<Rightarrow> bool" where
  "hashes_ascend b \<longleftrightarrow> sorted_wrt (<) (map (node_hash (m_hash_seed b)) (builder_files b))"

lemma hashes_ascend: "builder_ok b \<Longrightarrow> distinct (map (hash_of b) (m_file_list b)) \<Longrightarrow> hashes_ascend b"
  by (simp add: hashes_ascend_def builder_ok_def builder_files_def strict_sorted_iff hash_of_def [abs_def] path_of_def comp_def)

lemma header_writes:
  fixes m :: memory and out :: u64
  assumes "sfat = out + 0x14" and "sfnt = out + of_nat c"
  shows "write16 (sfnt + 4) 8 (write32 sfnt ResSarcSfnt_cMagic (write32 (sfat + 8) seed (write16 (sfat + 4) 0xc (write32 sfat ResSarcSfat_cMagic
    (write16 (out + 0x12) 0 (write16 (out + 0x10) (ucast ResSarc_cTargetVersion) (write32 (out + 0xc) (ucast (of_nat R :: u64)) (write32 (out + 8) (ucast tfs)
    (write16 (out + 6) ByteOrder_Native (write16 (out + 4) 0x14 (write32 out ResSarc_cMagic m))))))))))) = write_chunks out (header_chunks seed tfs R c) m"
  using assms by (simp add: header_chunks_def write16_def write32_def ResSarc_cTargetVersion_def ucast_of_nat_64 add.assoc)

lemma serialize_chunks:
  assumes fits: "sarc_fits out b" and asc: "hashes_ascend b" and size: "total_file_size info \<le> buffer_size"
    and info: "offset (location_header info) = 0" "offset (location_sfat info) = 0x14" "offset (location_sfnt info) = of_nat (sfnt_offset b)"
      "offset (location_file_region info) = of_nat R" "R + file_room (builder_files b) < 2 ^ 32"
  shows "Serialize out buffer_size info b m = Inr (write_chunks out (archive_chunks out b (total_file_size info) R)
    (write_bytes out (replicate (unat (total_file_size info)) 0) m))"
proof -
  let ?seed = "m_hash_seed b" let ?c = "sfnt_offset b" let ?m0 = "write_bytes out (replicate (unat (total_file_size info)) 0) m"
  let ?m1 = "write_chunks out (header_chunks ?seed (total_file_size info) R ?c) ?m0"
  have room: "path_room (builder_files b) < 2 ^ 26" "length (m_file_list b) < 2 ^ 14" "unat out + 2 ^ 33 \<le> 2 ^ 64" "\<forall>node\<in>set (builder_files b). file_ok node"
    and out: "out \<noteq> 0" using fits by (auto simp: sarc_fits_def)
  have len: "length (builder_files b) = length (m_file_list b)" by (simp add: builder_files_def)
  let ?w = "\<lparr>w_file_count = 0, w_last_hash = 0, w_collision_count = 1, w_sfnt_iter = out + of_nat (?c + 8), w_file_iter = out + of_nat R, w_memory = ?m1\<rparr>"
  have "\<exists>w'. write_files ?seed (out + 0x14) (out + of_nat (?c + 8)) (out + of_nat R) (builder_files b) ?w = Inr w' \<and>
      w_file_count w' = of_nat (0 + length (builder_files b)) \<and>
      w_memory w' = write_chunks out (files_chunks out ?seed (?c + 8) R 0 (?c + 8) R (builder_files b)) (w_memory ?w)"
    using room info(5) asc len by (intro write_files_chunks) (auto simp: hashes_ascend_def sfnt_offset_def)
  then obtain w' where w: "write_files ?seed (out + 0x14) (out + of_nat (?c + 8)) (out + of_nat R) (builder_files b) ?w = Inr w'"
    "w_file_count w' = of_nat (length (m_file_list b))"
    "w_memory w' = write_chunks out (files_chunks out ?seed (?c + 8) R 0 (?c + 8) R (builder_files b)) ?m1" using len by auto
  have nth: "out + of_nat ?c + 8 = out + of_nat (?c + 8)" by simp
  have cnt: "ucast (of_nat (length (m_file_list b)) :: u32) = (of_nat (length (m_file_list b)) :: u16)"
    by (auto simp: bit_simps intro!: bit_word_eqI)
  show ?thesis
    unfolding Serialize_def Let_def info add_0_right header_writes [OF refl refl] bind_vp_assert nth builder_files_def [symmetric] w(1) bind_result.simps
    using out size by (simp add: w(2,3) archive_chunks_def write16_def cnt add.assoc)
qed

lemma header_regions: "\<forall>c\<in>set (header_chunks seed tfs R c0). fst c + length (snd c) \<le> 0x20 \<or> c0 \<le> fst c \<and> fst c + length (snd c) \<le> c0 + 8"
  by (simp add: header_chunks_def)

lemma archive_disjoint:
  assumes fits: "sarc_fits out b" and R: "last_path out (sfnt_offset b + 8) (builder_files b) \<le> R" "R + file_room (builder_files b) < 2 ^ 32"
  shows "sorted_wrt disjoint_chunks (archive_chunks out b tfs R)" and "\<forall>c\<in>set (archive_chunks out b tfs R). chunk_ok c"
proof -
  let ?fs = "files_chunks out (m_hash_seed b) (sfnt_offset b + 8) R 0 (sfnt_offset b + 8) R (builder_files b)"
  let ?h = "header_chunks (m_hash_seed b) tfs R (sfnt_offset b)"
  have room: "path_room (builder_files b) < 2 ^ 26" "length (m_file_list b) < 2 ^ 14" "unat out + 2 ^ 32 \<le> 2 ^ 64" "\<forall>node\<in>set (builder_files b). file_ok node"
    using fits by (auto simp: sarc_fits_def)
  have len: "length (builder_files b) = length (m_file_list b)" by (simp add: builder_files_def)
  have s: "sfnt_offset b + 8 + path_room (builder_files b) < 2 ^ 32" using room by (simp add: sfnt_offset_def)
  have reg: "\<forall>c\<in>set ?fs. in_regions 0x20 (sfnt_offset b) (sfnt_offset b + 8) R R (R + file_room (builder_files b)) c"
    using files_chunks_regions [OF room(3,4) s R(2), of "m_hash_seed b" "sfnt_offset b + 8" R 0] R(1)
    by (auto simp: len sfnt_offset_def elim!: in_regions_mono)
  have "sorted_wrt disjoint_chunks ?fs" using R s room by (intro files_chunks_disjoint) (auto simp: len sfnt_offset_def)
  moreover have "sorted_wrt disjoint_chunks ?h" by (simp add: header_chunks_def disjoint_chunks_def sfnt_offset_def)
  moreover have "disjoint_chunks c d" if "c \<in> set ?h" "d \<in> set ?fs" for c d
    using bspec [OF header_regions that(1)] bspec [OF reg that(2)] R(1) last_path_bounds [of out "sfnt_offset b + 8" "builder_files b"] s room
    by (auto simp: in_regions_def disjoint_chunks_def sfnt_offset_def)
  moreover have "disjoint_chunks c (0x1a, bytes 2 (n :: u16))" if "c \<in> set (?h @ ?fs)" for c n
    using that bspec [OF reg, of c] R(1) last_path_bounds [of out "sfnt_offset b + 8" "builder_files b"] s room
    by (auto simp: in_regions_def disjoint_chunks_def sfnt_offset_def header_chunks_def)
  ultimately show "sorted_wrt disjoint_chunks (archive_chunks out b tfs R)" by (simp add: archive_chunks_def sorted_wrt_append)
  show "\<forall>c\<in>set (archive_chunks out b tfs R). chunk_ok c"
    using header_regions [of "m_hash_seed b" tfs R "sfnt_offset b"] reg R(2) s room
    by (auto simp: archive_chunks_def chunk_ok_def in_regions_def sfnt_offset_def dest!: bspec)
qed

section \<open>Reading it back\<close>

definition archive_in :: "u64 \<Rightarrow> 'p sarc_builder \<Rightarrow> u64 \<Rightarrow> nat \<Rightarrow> memory \<Rightarrow> bool" where
  "archive_in out b tfs R M \<longleftrightarrow> sarc_fits out b \<and> hashes_ascend b \<and>
     last_path out (sfnt_offset b + 8) (builder_files b) \<le> R \<and> R + file_room (builder_files b) < 2 ^ 32 \<and>
     (\<forall>(i, bs)\<in>set (archive_chunks out b tfs R). read_bytes M (out + of_nat i) (length bs) = bs)"

lemma serialize_archive:
  assumes "sarc_fits out b" and "hashes_ascend b" and "CalculateMemoryInfo b = Inr info" and "total_file_size info \<le> buffer_size"
  obtains M R where "Serialize out buffer_size info b m = Inr M" and "archive_in out b (total_file_size info) R M"
    and "total_file_size info = ucast (z_file_region_size (sarc_sizes b))"
proof -
  obtain R where R: "offset (location_header info) = 0" "offset (location_sfat info) = 0x14" "offset (location_sfnt info) = of_nat (sfnt_offset b)"
    "offset (location_file_region info) = of_nat R" "last_path out (sfnt_offset b + 8) (builder_files b) \<le> R" "R + file_room (builder_files b) < 2 ^ 32"
    "total_file_size info = ucast (z_file_region_size (sarc_sizes b))"
    using memory_info [OF assms(1,3)] by blast
  let ?M = "write_chunks out (archive_chunks out b (total_file_size info) R) (write_bytes out (replicate (unat (total_file_size info)) 0) m)"
  have "read_bytes ?M (out + of_nat i) (length bs) = bs" if "(i, bs) \<in> set (archive_chunks out b (total_file_size info) R)" for i bs
    using archive_disjoint [OF assms(1) R(5,6)] that by (intro read_chunk) auto
  then have "archive_in out b (total_file_size info) R ?M" using assms(1,2) R(5,6) by (auto simp: archive_in_def)
  then show thesis by (rule that [OF serialize_chunks [OF assms(1,2,4) R(1-4,6)] _ R(7)])
qed

lemma archive_read: "archive_in out b tfs R M \<Longrightarrow> (i, bs) \<in> set (archive_chunks out b tfs R) \<Longrightarrow> read_bytes M (out + of_nat i) (length bs) = bs"
  by (auto simp: archive_in_def)

lemma archive_read32: "archive_in out b tfs R M \<Longrightarrow> (i, bytes 4 w) \<in> set (archive_chunks out b tfs R) \<Longrightarrow> read32 M (out + of_nat i) = w"
  using archive_read [of out b tfs R M i "bytes 4 w"] by (intro read32_bytes) simp

lemma archive_read16: "archive_in out b tfs R M \<Longrightarrow> (i, bytes 2 w) \<in> set (archive_chunks out b tfs R) \<Longrightarrow> read16 M (out + of_nat i) = w"
  using archive_read [of out b tfs R M i "bytes 2 w"] by (intro read16_bytes) simp

lemma header_chunk: "c \<in> set (header_chunks (m_hash_seed b) tfs R (sfnt_offset b)) \<Longrightarrow> c \<in> set (archive_chunks out b tfs R)"
  by (simp add: archive_chunks_def)

lemma archive_header:
  assumes A: "archive_in out b tfs R M"
  shows "read32 M out = ResSarc_cMagic" "read16 M (out + 4) = 0x14" "read16 M (out + 6) = ByteOrder_Native" "read32 M (out + 0xc) = of_nat R"
    "read16 M (out + 0x10) = 0x100" "read32 M (out + 0x14) = ResSarcSfat_cMagic" "read16 M (out + 0x18) = 0xc" "read32 M (out + 0x1c) = m_hash_seed b"
    "read32 M (out + of_nat (sfnt_offset b)) = ResSarcSfnt_cMagic" "read16 M (out + of_nat (sfnt_offset b + 4)) = 8"
    "read16 M (out + 0x1a) = of_nat (length (m_file_list b))"
proof -
  have r32: "read32 M (out + of_nat i) = w" if "(i, bytes 4 w) \<in> set (header_chunks (m_hash_seed b) tfs R (sfnt_offset b))" for i w
    using archive_read32 [OF A header_chunk [OF that]] .
  have r16: "read16 M (out + of_nat i) = w" if "(i, bytes 2 w) \<in> set (header_chunks (m_hash_seed b) tfs R (sfnt_offset b))" for i w
    using archive_read16 [OF A header_chunk [OF that]] .
  show "read32 M out = ResSarc_cMagic" using r32 [of "0" "ResSarc_cMagic"] by (simp add: header_chunks_def)
  show "read16 M (out + 4) = 0x14" using r16 [of "4" "0x14"] by (simp add: header_chunks_def)
  show "read16 M (out + 6) = ByteOrder_Native" using r16 [of "6" "ByteOrder_Native"] by (simp add: header_chunks_def)
  show "read32 M (out + 0xc) = of_nat R" using r32 [of "0xc" "of_nat R"] by (simp add: header_chunks_def)
  show "read16 M (out + 0x10) = 0x100" using r16 [of "0x10" "0x100"] by (simp add: header_chunks_def)
  show "read32 M (out + 0x14) = ResSarcSfat_cMagic" using r32 [of "0x14" "ResSarcSfat_cMagic"] by (simp add: header_chunks_def)
  show "read16 M (out + 0x18) = 0xc" using r16 [of "0x18" "0xc"] by (simp add: header_chunks_def)
  show "read32 M (out + 0x1c) = m_hash_seed b" using r32 [of "0x1c" "m_hash_seed b"] by (simp add: header_chunks_def)
  show "read32 M (out + of_nat (sfnt_offset b)) = ResSarcSfnt_cMagic" by (rule r32) (simp add: header_chunks_def)
  show "read16 M (out + of_nat (sfnt_offset b + 4)) = 8" by (rule r16) (simp add: header_chunks_def)
  show "read16 M (out + 0x1a) = of_nat (length (m_file_list b))"
  proof -
    have "read16 M (out + of_nat 0x1a) = of_nat (length (m_file_list b))" by (rule archive_read16 [OF A]) (simp add: archive_chunks_def)
    then show ?thesis by simp
  qed
qed

definition archive_extractor :: "u64 \<Rightarrow> 'p sarc_builder \<Rightarrow> nat \<Rightarrow> sarc_extractor" where
  "archive_extractor out b R =
     \<lparr>m_sarc = out, m_sfat = out + 0x14, m_file_region = out + of_nat R, m_path_table = out + of_nat (sfnt_offset b + 8)\<rparr>"

lemma archive_native: "archive_in out b tfs R M \<Longrightarrow> ResSarc_IsReverseEndian M out = False"
  by (simp add: ResSarc_IsReverseEndian_def archive_header(3) ByteOrder_Native_def ByteOrder_Reverse_def)

lemma archive_length:
  assumes "archive_in out b tfs R M"
  shows "unat (of_nat (length (m_file_list b)) :: u16) = length (m_file_list b)" and "length (m_file_list b) < 2 ^ 14"
    and "ucast (of_nat (length (m_file_list b)) :: u16) = (of_nat (length (m_file_list b)) :: u32)"
    and "ucast (of_nat (length (m_file_list b)) :: u16) = (of_nat (length (m_file_list b)) :: u64)"
proof -
  show l: "length (m_file_list b) < 2 ^ 14" using assms by (simp add: archive_in_def sarc_fits_def)
  then show u: "unat (of_nat (length (m_file_list b)) :: u16) = length (m_file_list b)" by (intro unat_of_nat_less) simp
  show "ucast (of_nat (length (m_file_list b)) :: u16) = (of_nat (length (m_file_list b)) :: u32)"
    "ucast (of_nat (length (m_file_list b)) :: u16) = (of_nat (length (m_file_list b)) :: u64)"
    using u l by (simp_all add: word_eq_unat_iff unat_ucast_up unat_of_nat_less)
qed

lemma archive_initialize:
  assumes A: "archive_in out b tfs R M"
  shows "SarcExtractor_Initialize M out x = (True, archive_extractor out b R)"
proof -
  note h = archive_header [OF A] and l = archive_length [OF A]
  have a: "out + 0x14 + 4 = out + 0x18" "out + 0x14 + 6 = out + 0x1a" by simp_all
  have "drop_bit 14 (of_nat (length (m_file_list b)) :: u16) = 0"
    using l(1,2) by (simp add: word_eq_unat_iff drop_bit_eq_div unat_div)
  then have f: "ResSarcSfat_IsValid M (out + 0x14) False"
    unfolding ResSarcSfat_IsValid_def get16_def get32_def Let_def a using h(6,7,11) by simp
  have s: "ResSarc_IsValid M out" using h(1,2,5) by (simp add: ResSarc_IsValid_def archive_native [OF A] get16_def get32_def ResSarc_cTargetVersion_def)
  have e: "out + 0x14 + 0xc + 0x10 * ucast (of_nat (length (m_file_list b)) :: u16) = out + of_nat (sfnt_offset b)" by (simp add: l(4) sfnt_offset_def)
  have e4: "out + of_nat (sfnt_offset b) + 4 = out + of_nat (sfnt_offset b + 4)" by simp
  have n: "ResSarcSfnt_IsValid M (out + of_nat (sfnt_offset b)) False"
    unfolding ResSarcSfnt_IsValid_def get16_def get32_def Let_def e4 using h(9,10) by simp
  have c: "get16 False M (out + 0x14 + 6) = of_nat (length (m_file_list b))" unfolding get16_def a using h(11) by simp
  have hs: "get16 False M (out + of_nat (sfnt_offset b) + 4) = 8" unfolding get16_def e4 using h(10) by simp
  have "R < 2 ^ 32" using A by (simp add: archive_in_def)
  then have R: "ucast (get32 False M (out + 0xc)) = (of_nat R :: u64)" using h(4) by (simp add: get32_def ucast_of_nat_up)
  have o: "out \<noteq> 0" using A by (auto simp: archive_in_def sarc_fits_def)
  show ?thesis
    unfolding SarcExtractor_Initialize_def Let_def archive_native [OF A] c e hs R using o s f n by (simp add: archive_extractor_def)
qed

definition file_at :: "u64 \<Rightarrow> 'p sarc_builder \<Rightarrow> nat \<Rightarrow> memory \<Rightarrow> nat \<Rightarrow> nat \<Rightarrow> nat \<Rightarrow> bool" where
  "file_at out b R M k s f \<longleftrightarrow>
     (let x = archive_extractor out b R; node = builder_files b ! k
      in entry_hash M x (of_nat k) = node_hash (m_hash_seed b) node \<and>
         entry_name_data M x (of_nat k) = name_word (of_nat ((s - (sfnt_offset b + 8)) div 4)) 1 \<and>
         entry_start M x (of_nat k) = of_nat (f - R) \<and>
         entry_end M x (of_nat k) = of_nat (f + unat (m_file_size node) - R) \<and>
         cstring_at M (out + of_nat s) (m_file_path node) \<and>
         read_bytes M (out + of_nat f) (unat (m_file_size node)) = file_bytes node \<and>
         sfnt_offset b + 8 \<le> s \<and> 4 dvd s - (sfnt_offset b + 8) \<and> s - (sfnt_offset b + 8) < 2 ^ 26 \<and> s \<le> R \<and> R \<le> f \<and> f + unat (m_file_size node) < 2 ^ 32)"

lemma archive_file:
  assumes A: "archive_in out b tfs R M" and k: "k < length (m_file_list b)"
  obtains s f where "file_at out b R M k s f"
proof -
  let ?S = "sfnt_offset b + 8" and ?node = "builder_files b ! k" and ?x = "archive_extractor out b R"
  let ?fs = "files_chunks out (m_hash_seed b) ?S R 0 ?S R (builder_files b)"
  have B: "sarc_fits out b" "last_path out ?S (builder_files b) \<le> R" "R + file_room (builder_files b) < 2 ^ 32" using A by (simp_all add: archive_in_def)
  have room: "path_room (builder_files b) < 2 ^ 26" "length (m_file_list b) < 2 ^ 14" "unat out + 2 ^ 32 \<le> 2 ^ 64" "4 dvd unat out" "\<forall>node\<in>set (builder_files b). file_ok node"
    using B(1) by (auto simp: sarc_fits_def)
  have len: "length (builder_files b) = length (m_file_list b)" by (simp add: builder_files_def)
  have node: "file_ok ?node" using room(5) k len by (metis nth_mem)
  have S: "?S + path_room (builder_files b) < 2 ^ 32" "4 dvd ?S" using room by (simp_all add: sfnt_offset_def)
  have ki: "k < length (builder_files b)" using k len by simp
  from file_placed [OF room(3,4,5) S(1) B(3) S(2) ki, of "m_hash_seed b" ?S R 0]
  obtain s f where p: "?S \<le> s" "s + length (m_file_path ?node) + 1 \<le> last_path out ?S (builder_files b)" "4 dvd s" "R \<le> f"
    "f + unat (m_file_alignment ?node) + unat (m_file_size ?node) \<le> R + file_room (builder_files b)"
    "placed out (m_hash_seed b) ?S R ?fs (0 + k) ?node s f" by (elim exE conjE) rule
  let ?f = "align_off out f (ucast (m_file_alignment ?node))"
  have chunk: "c \<in> set (archive_chunks out b tfs R)" if "c \<in> set (node_chunks out (m_hash_seed b) ?S R k s f 1 ?node)" for c
    using p(6) that by (auto simp: placed_def archive_chunks_def)
  have fb: "unat out + f + unat (m_file_alignment ?node) < 2 ^ 64" using p(5) B(3) room(3) by simp
  note q = next_file_bounds [OF fb node]
  have q2: "?f + unat (m_file_size ?node) \<le> R + file_room (builder_files b)" using q(2) p(5) by (simp add: next_file_def)
  have last: "last_path out ?S (builder_files b) \<le> ?S + path_room (builder_files b)" using last_path_bounds [of out ?S "builder_files b"] S room by simp
  have native: "sarc_reverse M ?x = False" using archive_native [OF A] by (simp add: sarc_reverse_def archive_extractor_def)
  have e: "sarc_entry ?x (of_nat k) = out + of_nat (0x20 + 0x10 * k)" by (simp add: sarc_entry_def archive_extractor_def)
  have e': "out + of_nat (0x20 + 0x10 * k) + 4 = out + of_nat (0x20 + 0x10 * k + 4)" "out + of_nat (0x20 + 0x10 * k) + 8 = out + of_nat (0x20 + 0x10 * k + 8)"
    "out + of_nat (0x20 + 0x10 * k) + 12 = out + of_nat (0x20 + 0x10 * k + 12)" by simp_all
  have r32: "read32 M (out + of_nat i) = w" if "(i, bytes 4 w) \<in> set (node_chunks out (m_hash_seed b) ?S R k s f 1 ?node)" for i w
    using archive_read32 [OF A chunk [OF that]] .
  have "read_bytes M (out + of_nat s) (length (m_file_path ?node @ [0])) = m_file_path ?node @ [0]"
    by (rule archive_read [OF A chunk]) (simp add: node_chunks_def Let_def)
  moreover have "read_bytes M (out + of_nat ?f) (length (file_bytes ?node)) = file_bytes ?node"
    by (rule archive_read [OF A chunk]) (simp add: node_chunks_def Let_def)
  moreover have "entry_hash M ?x (of_nat k) = node_hash (m_hash_seed b) ?node"
    unfolding entry_hash_def native get32_def if_False e by (rule r32) (simp add: node_chunks_def Let_def)
  moreover have "entry_name_data M ?x (of_nat k) = name_word (of_nat ((s - ?S) div 4)) 1"
    unfolding entry_name_data_def native get32_def if_False e e' by (rule r32) (simp add: node_chunks_def Let_def)
  moreover have "entry_start M ?x (of_nat k) = of_nat (?f - R)"
    unfolding entry_start_def native get32_def if_False e e' by (rule r32) (simp add: node_chunks_def Let_def)
  moreover have "entry_end M ?x (of_nat k) = of_nat (?f + unat (m_file_size ?node) - R)"
    unfolding entry_end_def native get32_def if_False e e' by (rule r32) (simp add: node_chunks_def Let_def)
  ultimately have "file_at out b R M k s ?f"
    using p(1-4) q(1) q2 B(2,3) last room(1) node S(2) by (simp add: file_at_def cstring_at_def Let_def dvd_diff_nat)
  then show thesis by (rule that)
qed

section \<open>Lookups\<close>

lemma name_word_parts: "name_word v 1 AND 0xffffff = v AND 0xffffff" "drop_bit 24 (name_word v 1) = 1"
proof -
  have m: "(0xffffff :: u32) = mask 24" "(0xff :: u32) = mask 8" by (simp_all add: mask_eq_exp_minus_1)
  show "name_word v 1 AND 0xffffff = v AND 0xffffff" unfolding name_word_def m by (rule bit_word_eqI) (auto simp: bit_simps)
  show "drop_bit 24 (name_word v 1) = 1" unfolding name_word_def m
    by (rule bit_word_eqI) (auto simp: bit_simps)
qed

lemma archive_count: "archive_in out b tfs R M \<Longrightarrow> GetFileCount M (archive_extractor out b R) = of_nat (length (m_file_list b))"
  using archive_header(11) [of out b tfs R M] archive_native [of out b tfs R M] archive_length(3) [of out b tfs R M]
  by (simp add: GetFileCount_def sarc_reverse_def archive_extractor_def get16_def add.assoc)

lemma archive_hash: "archive_in out b tfs R M \<Longrightarrow> (i :: u32) < of_nat (length (m_file_list b)) \<Longrightarrow>
  unat i < length (m_file_list b) \<and> entry_hash M (archive_extractor out b R) (ucast i) = node_hash (m_hash_seed b) (builder_files b ! unat i)"
proof -
  assume A: "archive_in out b tfs R M" and i: "(i :: u32) < of_nat (length (m_file_list b))"
  have "unat (of_nat (length (m_file_list b)) :: u32) = length (m_file_list b)" using archive_length(2) [OF A] by (intro unat_of_nat_less) simp
  then have l: "unat i < length (m_file_list b)" using i by (simp only: word_less_nat_alt)
  from archive_file [OF A l] obtain s f where "file_at out b R M (unat i) s f" by blast
  then show ?thesis using l by (simp add: file_at_def Let_def)
qed

lemma archive_search:
  assumes A: "archive_in out b tfs R M"
  obtains r where "hash_search (\<lambda>i. entry_hash M (archive_extractor out b R) (ucast i)) h (of_nat (length (m_file_list b)) div 2) (of_nat (length (m_file_list b))) 0 = Some r"
    and "case r of None \<Rightarrow> h \<notin> node_hash (m_hash_seed b) ` set (builder_files b)
      | Some i \<Rightarrow> unat i < length (m_file_list b) \<and> node_hash (m_hash_seed b) (builder_files b ! unat i) = h"
proof -
  let ?n = "of_nat (length (m_file_list b)) :: u32" and ?h = "\<lambda>i :: u32. entry_hash M (archive_extractor out b R) (ucast i)"
  have n: "unat ?n = length (m_file_list b)" using archive_length(2) [OF A] by (intro unat_of_nat_less) simp
  have len: "length (builder_files b) = length (m_file_list b)" by (simp add: builder_files_def)
  have asc: "sorted_wrt (<) (map (node_hash (m_hash_seed b)) (builder_files b))" and ne: "m_file_list b \<noteq> []"
    using A by (simp_all add: archive_in_def hashes_ascend_def sarc_fits_def)
  have "sorted_table ?h ?n" unfolding sorted_table_def
  proof (intro allI impI)
    fix i j :: u32 assume ij: "i < j" "j < ?n"
    then have "i < ?n" by simp
    note hi = archive_hash [OF A this] and hj = archive_hash [OF A ij(2)]
    have "node_hash (m_hash_seed b) (builder_files b ! unat i) < node_hash (m_hash_seed b) (builder_files b ! unat j)"
      using sorted_wrt_nth_less [OF asc, of "unat i" "unat j"] ij(1) hi hj len by (simp add: word_less_nat_alt)
    then show "?h i \<le> ?h j" using hi hj by simp
  qed
  moreover have "unat ?n < 2 ^ 31" "0 < ?n" using n ne archive_length(2) [OF A] by (auto simp: word_less_nat_alt)
  ultimately obtain r where r: "hash_search ?h h (?n div 2) ?n 0 = Some r" "found_in ?h h ?n r" by (rule hash_search_start)
  show thesis
  proof (rule that [OF r(1)], cases r)
    case None
    have "node_hash (m_hash_seed b) (builder_files b ! k) \<noteq> h" if "k < length (builder_files b)" for k
    proof -
      have u: "unat (of_nat k :: u32) = k" using that len archive_length(2) [OF A] by (intro unat_of_nat_less) simp
      then have lt: "(of_nat k :: u32) < ?n" using that len n by (simp add: word_less_nat_alt)
      have "\<forall>i<?n. ?h i \<noteq> h" using r(2) None by (simp add: found_in_def)
      from this [rule_format, OF lt] have "?h (of_nat k) \<noteq> h" .
      then show ?thesis using archive_hash [OF A lt] u by simp
    qed
    then show "case r of None \<Rightarrow> h \<notin> node_hash (m_hash_seed b) ` set (builder_files b)
      | Some i \<Rightarrow> unat i < length (m_file_list b) \<and> node_hash (m_hash_seed b) (builder_files b ! unat i) = h"
      using None by (simp add: image_iff all_set_conv_all_nth) metis
  next
    case (Some i)
    then show "case r of None \<Rightarrow> h \<notin> node_hash (m_hash_seed b) ` set (builder_files b)
      | Some i \<Rightarrow> unat i < length (m_file_list b) \<and> node_hash (m_hash_seed b) (builder_files b ! unat i) = h"
      using r(2) archive_hash [OF A, of i] by (simp add: found_in_def)
  qed
qed

lemma archive_inj:
  assumes "archive_in out b tfs R M" and "i < length (m_file_list b)" and "j < length (m_file_list b)"
    and "node_hash (m_hash_seed b) (builder_files b ! i) = node_hash (m_hash_seed b) (builder_files b ! j)"
  shows "i = j"
proof -
  have "sorted_wrt (<) (map (node_hash (m_hash_seed b)) (builder_files b))" "length (builder_files b) = length (m_file_list b)"
    using assms(1) by (simp_all add: archive_in_def hashes_ascend_def builder_files_def)
  then show ?thesis using assms(2-4) by (simp add: strict_sorted_iff distinct_conv_nth) (metis nth_map)
qed

lemma archive_index:
  assumes A: "archive_in out b tfs R M"
  shows "TryGetEntryIndexByPath M (archive_extractor out b R) path =
    (if CalculateSarcHash (m_hash_seed b) path \<in> node_hash (m_hash_seed b) ` set (builder_files b)
     then Some (of_nat (THE k. k < length (m_file_list b) \<and> node_hash (m_hash_seed b) (builder_files b ! k) = CalculateSarcHash (m_hash_seed b) path))
     else Some cInvalidEntryIndex)"
proof -
  let ?x = "archive_extractor out b R" and ?h = "CalculateSarcHash (m_hash_seed b) path"
  have len: "length (builder_files b) = length (m_file_list b)" by (simp add: builder_files_def)
  have ne: "m_file_list b \<noteq> []" using A by (simp add: archive_in_def sarc_fits_def)
  have c0: "GetFileCount M ?x \<noteq> 0"
  proof -
    have "unat (of_nat (length (m_file_list b)) :: u32) = length (m_file_list b)" using archive_length(2) [OF A] by (intro unat_of_nat_less) simp
    then show ?thesis using archive_count [OF A] ne by auto
  qed
  have seed: "get32 (sarc_reverse M ?x) M (m_sfat ?x + 8) = m_hash_seed b"
    using archive_header(8) [OF A] archive_native [OF A] by (simp add: sarc_reverse_def archive_extractor_def get32_def add.assoc)
  from archive_search [OF A, of ?h] obtain r where
    r: "hash_search (\<lambda>i. entry_hash M ?x (ucast i)) ?h (of_nat (length (m_file_list b)) div 2) (of_nat (length (m_file_list b))) 0 = Some r"
    "case r of None \<Rightarrow> ?h \<notin> node_hash (m_hash_seed b) ` set (builder_files b)
      | Some i \<Rightarrow> unat i < length (m_file_list b) \<and> node_hash (m_hash_seed b) (builder_files b ! unat i) = ?h" by blast
  show ?thesis
  proof (cases r)
    case None
    then show ?thesis using r c0 seed archive_count [OF A] by (simp add: TryGetEntryIndexByPath_def Let_def)
  next
    case (Some i)
    then have i: "unat i < length (m_file_list b)" "node_hash (m_hash_seed b) (builder_files b ! unat i) = ?h" using r(2) by simp_all
    from archive_file [OF A i(1)] obtain s f where "file_at out b R M (unat i) s f" by blast
    then have "drop_bit 24 (entry_name_data M ?x (ucast i)) = 1" by (simp add: file_at_def Let_def name_word_parts(2))
    moreover have "(THE k. k < length (m_file_list b) \<and> node_hash (m_hash_seed b) (builder_files b ! k) = ?h) = unat i"
      using i archive_inj [OF A] by (intro the_equality) auto
    moreover have "?h \<in> node_hash (m_hash_seed b) ` set (builder_files b)" using i len by (metis image_eqI nth_mem)
    ultimately show ?thesis using Some r c0 seed archive_count [OF A] by (simp add: TryGetEntryIndexByPath_def Let_def)
  qed
qed

definition gives_back :: "memory \<Rightarrow> sarc_extractor \<Rightarrow> nat \<Rightarrow> sarc_file \<Rightarrow> bool" where
  "gives_back M x k node \<longleftrightarrow>
     (\<exists>p. TryGetFileByPath M x (m_file_path node) = Some (Some (p, m_file_size node)) \<and> read_bytes M p (unat (m_file_size node)) = file_bytes node) \<and>
     cstring_at M (TryGetPathByEntryIndex M x (of_nat k)) (m_file_path node)"

lemma unat_offset: "n < 2 ^ 32 \<Longrightarrow> unat (of_nat n :: u32) = n"
  by (intro unat_of_nat_less) simp

lemma file_at_bounds:
  assumes "file_at out b R M k s f"
  shows "sfnt_offset b + 8 \<le> s" "4 dvd s - (sfnt_offset b + 8)" "s - (sfnt_offset b + 8) < 2 ^ 26" "s \<le> R" "R \<le> f"
    "f + unat (m_file_size (builder_files b ! k)) < 2 ^ 32" "f - R < 2 ^ 32" "s - (sfnt_offset b + 8) < 2 ^ 32"
  using assms by (auto simp: file_at_def Let_def)

lemma archive_found:
  assumes A: "archive_in out b tfs R M" and k: "k < length (m_file_list b)" and F: "file_at out b R M k s f"
  shows "TryGetFileByPath M (archive_extractor out b R) (m_file_path (builder_files b ! k)) =
    Some (Some (out + of_nat f, m_file_size (builder_files b ! k)))"
proof -
  let ?x = "archive_extractor out b R" and ?node = "builder_files b ! k"
  have len: "length (builder_files b) = length (m_file_list b)" by (simp add: builder_files_def)
  note B = file_at_bounds [OF F]
  note F = F [unfolded file_at_def Let_def]
  have u: "unat (of_nat k :: u32) = k" "unat (of_nat (length (m_file_list b)) :: u32) = length (m_file_list b)"
    using k archive_length(2) [OF A] by (auto intro!: unat_offset)
  have uk: "ucast (of_nat k :: u32) = (of_nat k :: u64)" using k archive_length(2) [OF A] by (intro ucast_of_nat_up) simp
  have "(THE k'. k' < length (m_file_list b) \<and> node_hash (m_hash_seed b) (builder_files b ! k') = node_hash (m_hash_seed b) ?node) = k"
    using k archive_inj [OF A] by (intro the_equality) auto
  moreover have "node_hash (m_hash_seed b) ?node \<in> node_hash (m_hash_seed b) ` set (builder_files b)" using k len by simp
  ultimately have index: "TryGetEntryIndexByPath M ?x (m_file_path ?node) = Some (of_nat k)" using archive_index [OF A] by simp
  have lt: "(of_nat k :: u32) < of_nat (length (m_file_list b))" using u k by (simp only: word_less_nat_alt)
  have "ucast (of_nat (f - R) :: u32) = (of_nat (f - R) :: u64)" using B(7) by (rule ucast_of_nat_up)
  then have ptr: "m_file_region ?x + ucast (of_nat (f - R) :: u32) = out + of_nat f" using B by (simp add: archive_extractor_def of_nat_diff)
  have "(of_nat (f + unat (m_file_size ?node) - R) :: u32) - of_nat (f - R) = m_file_size ?node" using B by (simp add: of_nat_diff)
  then have "TryGetFileByIndex M ?x (of_nat k) = Some (out + of_nat f, m_file_size ?node)"
    using lt F ptr archive_count [OF A] by (simp add: TryGetFileByIndex_def uk not_less order_less_imp_le)
  then show "TryGetFileByPath M ?x (m_file_path ?node) = Some (Some (out + of_nat f, m_file_size ?node))"
    using index by (simp add: TryGetFileByPath_def)
qed

lemma archive_gives_back:
  assumes A: "archive_in out b tfs R M" and k: "k < length (m_file_list b)"
  shows "gives_back M (archive_extractor out b R) k (builder_files b ! k)"
proof -
  let ?x = "archive_extractor out b R" and ?node = "builder_files b ! k" and ?S = "sfnt_offset b + 8"
  from archive_file [OF A k] obtain s f where F: "file_at out b R M k s f" by blast
  note found = archive_found [OF A k F] and B = file_at_bounds [OF F]
  note F = F [unfolded file_at_def Let_def]
  have out: "unat out + 2 ^ 33 \<le> 2 ^ 64" using A by (simp add: archive_in_def sarc_fits_def)
  have uk: "ucast (of_nat k :: u32) = (of_nat k :: u64)" using k archive_length(2) [OF A] by (intro ucast_of_nat_up) simp
  have u: "unat (of_nat k :: u32) = k" "unat (of_nat (length (m_file_list b)) :: u32) = length (m_file_list b)"
    using k archive_length(2) [OF A] by (auto intro!: unat_offset)
  have lt: "(of_nat k :: u32) < of_nat (length (m_file_list b))" using u k by (simp only: word_less_nat_alt)
  have d: "(s - ?S) div 4 < 2 ^ 24" "4 * ((s - ?S) div 4) = s - ?S" using B by auto
  have name: "name_word (of_nat ((s - ?S) div 4)) 1 AND 0xffffff = of_nat ((s - ?S) div 4)"
  proof -
    have "(of_nat ((s - ?S) div 4) :: u32) AND mask 24 = of_nat ((s - ?S) div 4)"
      using d(1) by (simp add: word_eq_unat_iff unsigned_take_bit_eq unat_offset take_bit_nat_eq_self flip: take_bit_eq_mask)
    then show ?thesis by (simp add: name_word_parts(1) mask_eq_exp_minus_1)
  qed
  have shift: "ucast (push_bit 2 (of_nat ((s - ?S) div 4) :: u32)) = (of_nat (s - ?S) :: u64)"
  proof -
    have "push_bit 2 (of_nat ((s - ?S) div 4) :: u32) = of_nat (4 * ((s - ?S) div 4))" by (simp add: push_bit_eq_mult mult.commute)
    then show ?thesis unfolding d(2) using ucast_of_nat_up [OF B(8)] by (simp only:)
  qed
  have path: "m_path_table ?x + of_nat (s - ?S) = out + of_nat s" using B by (simp add: archive_extractor_def of_nat_diff)
  have "\<not> m_file_region ?x < out + of_nat s"
  proof -
    have "unat (out + of_nat s) = unat out + s" "unat (out + of_nat R) = unat out + R"
      using B out by (auto simp: unat_add_nowrap unat_of_nat_less)
    then show ?thesis using B by (simp add: archive_extractor_def word_less_nat_alt)
  qed
  moreover have "entry_name_data M ?x (of_nat k) AND 0xffffff = of_nat ((s - ?S) div 4)" using F name by simp
  moreover have "\<not> GetFileCount M ?x \<le> of_nat k" using lt archive_count [OF A] by (simp add: not_le)
  ultimately have "TryGetPathByEntryIndex M ?x (of_nat k) = out + of_nat s"
    by (simp only: TryGetPathByEntryIndex_def Let_def uk shift path if_False)
  then show ?thesis using found F by (simp add: gives_back_def)
qed

lemma archive_absent:
  assumes A: "archive_in out b tfs R M" and h: "CalculateSarcHash (m_hash_seed b) path \<notin> node_hash (m_hash_seed b) ` set (builder_files b)"
  shows "TryGetFileByPath M (archive_extractor out b R) path = Some None"
proof -
  have "unat (of_nat (length (m_file_list b)) :: u32) = length (m_file_list b)" using archive_length(2) [OF A] by (intro unat_offset) simp
  then have "GetFileCount M (archive_extractor out b R) < cInvalidEntryIndex"
    unfolding archive_count [OF A] cInvalidEntryIndex_def word_less_nat_alt using archive_length(2) [OF A] by simp
  then show ?thesis using archive_index [OF A, of path] h by (simp add: TryGetFileByPath_def TryGetFileByIndex_def)
qed

lemma CalculateMemoryInfo_some: "m_file_list b \<noteq> [] \<Longrightarrow> \<exists>info. CalculateMemoryInfo b = Inr info"
  by (cases "m_file_list b") (simp_all add: CalculateMemoryInfo_def Let_def)

section \<open>Adding, and equal hashes\<close>

lemma AddFile_ok:
  assumes "builder_ok b" and "p \<notin> set (m_file_list b)" and "AddFile (Some p) b = (ResultSuccess, b')"
  shows "builder_ok b'" and "mset (m_file_list b') = add_mset p (mset (m_file_list b))"
proof -
  obtain qs where q: "insert_file b p (m_file_list b) = Some qs" "b' = b\<lparr>m_file_list := qs\<rparr>" "path_of b p \<noteq> []"
    using assms(3) by (auto simp: AddFile_def split: if_splits option.splits)
  have h: "hash_of b' = hash_of b" "path_of b' = path_of b" using q(2) by (auto simp: hash_of_def path_of_def)
  note o = insert_file_order [OF q(1)]
  then show m: "mset (m_file_list b') = add_mset p (mset (m_file_list b))" using q(2) by simp
  then have "set (m_file_list b') = insert p (set (m_file_list b))" by (metis set_mset_add_mset_insert set_mset_mset)
  moreover have "distinct (m_file_list b')" using m assms(1,2) by (metis builder_ok_def distinct.simps(2) mset.simps(2) mset_eq_imp_distinct_iff)
  ultimately show "builder_ok b'" using assms(1) o q h by (auto simp: builder_ok_def)
qed

text \<open>
  The builder numbers files of equal hash from 1, and the extractor takes an entry of number 1 without looking
  at the path: when the search meets the first of them, it is the answer to the path of every other one.
\<close>

lemma equal_hashes_confused:
  assumes "GetFileCount M x = 3" and "CalculateSarcHash (get32 (sarc_reverse M x) M (m_sfat x + 8)) path = entry_hash M x 1"
    and "drop_bit 24 (entry_name_data M x 1) = 1"
  shows "TryGetEntryIndexByPath M x path = Some 1"
  using assms by (simp add: TryGetEntryIndexByPath_def hash_search.simps Let_def)

text \<open>
  The walk over files of equal hash compares their paths with the empty string that the hashed path has become,
  so it ends at none of them.
\<close>

lemma collisions_not_found:
  assumes "\<And>i. i < ucast (GetFileCount m x) \<Longrightarrow> m (m_path_table x + ucast (push_bit 2 (entry_name_data m x i AND 0xffffff))) \<noteq> 0"
  shows "search_collisions m x [] hash i = cInvalidEntryIndex \<or>
    (\<exists>j :: u64. \<not> j < ucast (GetFileCount m x) \<and> search_collisions m x [] hash i = ucast j)"
  using assms
proof (induction m x "[] :: u8 list" hash i rule: search_collisions.induct)
  case (1 m x hash i)
  have "\<not> cstring_at m (m_path_table x + ucast (push_bit 2 (entry_name_data m x i AND 0xffffff))) []" if "i < ucast (GetFileCount m x)"
    using 1(2) [OF that] by (simp add: cstring_at_def read_bytes_def)
  then have step: "search_collisions m x [] hash i =
    (if i < ucast (GetFileCount m x) then
       if entry_hash m x i \<noteq> hash \<or> m_file_region x < m_path_table x + ucast (push_bit 2 (entry_name_data m x i AND 0xffffff))
       then cInvalidEntryIndex else search_collisions m x [] hash (i + 1)
     else ucast i)" by (subst search_collisions.simps) (simp add: Let_def)
  show ?case
  proof (cases "i < ucast (GetFileCount m x) \<and> entry_hash m x i = hash \<and>
      \<not> m_file_region x < m_path_table x + ucast (push_bit 2 (entry_name_data m x i AND 0xffffff))")
    case True
    then have "\<not> cstring_at m (m_path_table x + ucast (push_bit 2 (entry_name_data m x i AND 0xffffff))) []"
      using 1(2) [of i] by (simp add: cstring_at_def read_bytes_def)
    with True have "search_collisions m x [] hash (i + 1) = cInvalidEntryIndex \<or>
      (\<exists>j :: u64. \<not> j < ucast (GetFileCount m x) \<and> search_collisions m x [] hash (i + 1) = ucast j)"
      using 1(1) [OF _ _ refl refl _ _ 1(2)] by simp
    then show ?thesis using True by (simp only: step) simp
  next
    case False
    then have "search_collisions m x [] hash i = (if i < ucast (GetFileCount m x) then cInvalidEntryIndex else ucast i)"
      by (simp only: step) auto
    then show ?thesis by (cases "i < ucast (GetFileCount m x)") auto
  qed
qed

section \<open>The archive\<close>

definition demo_files :: "nat \<Rightarrow> sarc_file" where
  "demo_files p = (if p = 1 then \<lparr>m_file_path = [97], m_file = [1, 2, 3], m_file_size = 3, m_file_alignment = 4\<rparr>
     else \<lparr>m_file_path = [98, 99], m_file = [4, 5], m_file_size = 2, m_file_alignment = 16\<rparr>)"

definition demo_builder :: "nat sarc_builder" where
  "demo_builder = \<lparr>m_sarc_nodes = demo_files, m_file_list = [1, 2], m_hash_seed = 0x65\<rparr>"

lemma demo_builder_ok: "builder_ok demo_builder" "distinct (map (hash_of demo_builder) (m_file_list demo_builder))" "sarc_fits 0x1000 demo_builder"
  by (simp_all add: builder_ok_def demo_builder_def demo_files_def hash_of_def path_of_def CalculateSarcHash_def sarc_fits_def builder_files_def file_ok_def)

text \<open>
  C4: An archive gives back what was put into it.  From a builder with files of distinct hashes, within the
  bounds of the format, \<open>Serialize\<close> into any buffer that passes its size check does not fail; the extractor
  accepts the result, counts the files, finds every file by its path with its size and its bytes, hands out
  its path by its index, and answers null to a path of another hash.
\<close>

theorem sarc_round_trip:
  assumes "builder_ok b" and "distinct (map (hash_of b) (m_file_list b))" and "sarc_fits out b"
  shows "\<exists>info. CalculateMemoryInfo b = Inr info \<and> (\<forall>buffer_size m. total_file_size info \<le> buffer_size \<longrightarrow>
    (\<exists>M x'. Serialize out buffer_size info b m = Inr M \<and> (\<forall>x. SarcExtractor_Initialize M out x = (True, x')) \<and>
      GetFileCount M x' = of_nat (length (m_file_list b)) \<and>
      (\<forall>k<length (m_file_list b). gives_back M x' k (m_sarc_nodes b (m_file_list b ! k))) \<and>
      (\<forall>path. CalculateSarcHash (m_hash_seed b) path \<notin> hash_of b ` set (m_file_list b) \<longrightarrow> TryGetFileByPath M x' path = Some None)))"
proof -
  have asc: "hashes_ascend b" using assms by (intro hashes_ascend)
  obtain info where info: "CalculateMemoryInfo b = Inr info" using CalculateMemoryInfo_some assms(3) by (auto simp: sarc_fits_def)
  have files: "builder_files b ! k = m_sarc_nodes b (m_file_list b ! k)" if "k < length (m_file_list b)" for k using that by (simp add: builder_files_def)
  have hashes: "node_hash (m_hash_seed b) ` set (builder_files b) = hash_of b ` set (m_file_list b)"
    by (auto simp: builder_files_def hash_of_def path_of_def)
  show ?thesis
  proof (intro exI [of _ info] conjI info allI impI)
    fix buffer_size m assume "total_file_size info \<le> buffer_size"
    from serialize_archive [OF assms(3) asc info this, of m] obtain M R where
      M: "Serialize out buffer_size info b m = Inr M" and A: "archive_in out b (total_file_size info) R M" by metis
    show "\<exists>M x'. Serialize out buffer_size info b m = Inr M \<and> (\<forall>x. SarcExtractor_Initialize M out x = (True, x')) \<and>
      GetFileCount M x' = of_nat (length (m_file_list b)) \<and>
      (\<forall>k<length (m_file_list b). gives_back M x' k (m_sarc_nodes b (m_file_list b ! k))) \<and>
      (\<forall>path. CalculateSarcHash (m_hash_seed b) path \<notin> hash_of b ` set (m_file_list b) \<longrightarrow> TryGetFileByPath M x' path = Some None)"
      using M archive_initialize [OF A] archive_count [OF A] archive_gives_back [OF A] archive_absent [OF A] files hashes
      by (intro exI [of _ M] exI [of _ "archive_extractor out b R"]) auto
  qed
qed

theorem sarc_round_trip_witness:
  "\<exists>info. CalculateMemoryInfo demo_builder = Inr info \<and> (\<exists>M x'. Serialize 0x1000 (total_file_size info) info demo_builder (\<lambda>_. 0) = Inr M \<and>
     GetFileCount M x' = 2 \<and> gives_back M x' 1 (demo_files 2))"
proof -
  obtain info where i: "CalculateMemoryInfo demo_builder = Inr info" and
    s: "\<And>buffer_size m. total_file_size info \<le> buffer_size \<Longrightarrow> \<exists>M x'. Serialize 0x1000 buffer_size info demo_builder m = Inr M \<and>
      GetFileCount M x' = of_nat (length (m_file_list demo_builder)) \<and>
      (\<forall>k<length (m_file_list demo_builder). gives_back M x' k (m_sarc_nodes demo_builder (m_file_list demo_builder ! k)))"
    using sarc_round_trip [OF demo_builder_ok] by (elim exE conjE) metis
  from s [of "total_file_size info" "\<lambda>_. 0"] obtain M x' where
    m: "Serialize 0x1000 (total_file_size info) info demo_builder (\<lambda>_. 0) = Inr M" "GetFileCount M x' = of_nat (length (m_file_list demo_builder))"
    "\<forall>k<length (m_file_list demo_builder). gives_back M x' k (m_sarc_nodes demo_builder (m_file_list demo_builder ! k))" by auto
  have "gives_back M x' 1 (demo_files 2)" using m(3) [rule_format, of 1] by (simp add: demo_builder_def)
  moreover have "GetFileCount M x' = 2" using m(2) by (simp add: demo_builder_def)
  ultimately show ?thesis using i m(1) by blast
qed

text \<open>
  C40: The size the builder computes leaves the headers out: it is the size of the file region alone.  A single
  file of any size is accepted into a buffer of the computed size, and its bytes are written behind the end
  of that buffer.
\<close>

theorem sarc_size_leaves_headers_out:
  assumes "builder_ok b" and "m_file_list b = [p]" and "sarc_fits out b"
  shows "\<exists>info M x' q. CalculateMemoryInfo b = Inr info \<and> total_file_size info = ucast (m_file_size (m_sarc_nodes b p)) \<and>
    Serialize out (total_file_size info) info b m = Inr M \<and> SarcExtractor_Initialize M out x = (True, x') \<and>
    TryGetFileByPath M x' (path_of b p) = Some (Some (q, m_file_size (m_sarc_nodes b p))) \<and>
    unat (total_file_size info) + 0x30 \<le> offset_of out q + unat (m_file_size (m_sarc_nodes b p))"
proof -
  have asc: "hashes_ascend b" using assms by (intro hashes_ascend) simp_all
  obtain info where info: "CalculateMemoryInfo b = Inr info" using CalculateMemoryInfo_some [of b] assms(2) by auto
  from serialize_archive [OF assms(3) asc info order_refl, of m] obtain M R where
    M: "Serialize out (total_file_size info) info b m = Inr M" and A: "archive_in out b (total_file_size info) R M"
    and t: "total_file_size info = ucast (z_file_region_size (sarc_sizes b))" by metis
  have z: "z_file_region_size (sarc_sizes b) = m_file_size (m_sarc_nodes b p)" by (simp add: sarc_sizes_def assms(2) size_step_def Let_def)
  let ?x = "archive_extractor out b R"
  have k: "0 < length (m_file_list b)" using assms(2) by simp
  from archive_file [OF A k] obtain s f where F: "file_at out b R M 0 s f" by blast
  note B = file_at_bounds [OF F]
  have node: "builder_files b ! 0 = m_sarc_nodes b p" by (simp add: builder_files_def assms(2))
  have "TryGetFileByPath M ?x (path_of b p) = Some (Some (out + of_nat f, m_file_size (m_sarc_nodes b p)))"
    using archive_found [OF A k F] by (simp add: node path_of_def)
  moreover have "unat (total_file_size info) + 0x30 \<le> offset_of out (out + of_nat f) + unat (m_file_size (m_sarc_nodes b p))"
    using B node by (simp add: t z unat_ucast_up sfnt_offset_def assms(2))
  moreover have "total_file_size info = ucast (m_file_size (m_sarc_nodes b p))" using t z by simp
  ultimately show ?thesis using info M archive_initialize [OF A] by blast
qed

definition demo_single :: "nat sarc_builder" where
  "demo_single = \<lparr>m_sarc_nodes = demo_files, m_file_list = [1], m_hash_seed = 0x65\<rparr>"

theorem sarc_size_leaves_headers_out_witness:
  "\<exists>info M q. CalculateMemoryInfo demo_single = Inr info \<and> total_file_size info = 3 \<and> Serialize 0x1000 3 info demo_single (\<lambda>_. 0) = Inr M \<and>
     0x30 \<le> offset_of 0x1000 q"
proof -
  have "builder_ok demo_single" "m_file_list demo_single = [1]" "sarc_fits 0x1000 demo_single"
    by (simp_all add: builder_ok_def demo_single_def demo_files_def hash_of_def path_of_def CalculateSarcHash_def sarc_fits_def builder_files_def file_ok_def)
  from sarc_size_leaves_headers_out [OF this, of "\<lambda>_. 0" undefined] obtain info M q where
    "CalculateMemoryInfo demo_single = Inr info" "total_file_size info = 3" "Serialize 0x1000 (total_file_size info) info demo_single (\<lambda>_. 0) = Inr M"
    "unat (total_file_size info) + 0x30 \<le> offset_of 0x1000 q + 3"
    by (auto simp: demo_single_def demo_files_def)
  then show ?thesis by (intro exI [of _ info] exI [of _ M] exI [of _ q]) simp
qed

end
