(* ===== verification/Rsizetable.thy ===== *)
theory Rsizetable
  imports Red_Black_Props Hash_Search Byte_Memory Crc32
begin

text \<open>
  Resource size tables: \<open>ResourceSizeTableExtractor\<close> (\<open>res_rsizetable.hpp\<close>) over the bytes of a table, and
  \<open>ResourceSizeTableBuilder\<close> (\<open>resbui_rsizetablebuilder.hpp\<close>) over two red-black trees.  A node of the builder
  is named by its address; its hash node lies in the store of the one tree, its collision node in that of the
  other.  A path of the builder is the address of a string, null is 0, and \<open>strings\<close> gives the bytes of the
  string there, its zero included.  The collision tree is declared with the default traits, so it orders
  addresses, not strings.
\<close>

section \<open>The extractor\<close>

definition ResRsizetableOld_cMagic :: u32 where "ResRsizetableOld_cMagic = 0x42545352"
definition ResRsizetable_cMagic0 :: u32 where "ResRsizetable_cMagic0 = 0x54534552"
definition ResRsizetable_cMagic1 :: u16 where "ResRsizetable_cMagic1 = 0x4c42"
definition ResRsizetable_cTargetVersion :: u32 where "ResRsizetable_cTargetVersion = 1"
definition cInvalidSize :: u32 where "cInvalidSize = 0xffffffff"
definition cDefaultMaxLength :: u32 where "cDefaultMaxLength = 0x80"

record rsize_extractor =
  m_crc32_array :: u64
  m_collision_array :: u64
  m_crc32_count :: u32
  m_collision_count :: u32
  m_max_path :: u32
  m_head :: u64

definition rsize_extractor_construct :: rsize_extractor where
  "rsize_extractor_construct = \<lparr>m_crc32_array = 0, m_collision_array = 0, m_crc32_count = 0, m_collision_count = 0, m_max_path = 0, m_head = 0\<rparr>"

text \<open>\<open>GetCollisionArray\<close> of the two headers, of \<open>0xc\<close> and \<open>0x16\<close> bytes.\<close>

definition OldGetCollisionArray :: "memory \<Rightarrow> u64 \<Rightarrow> u64" where
  "OldGetCollisionArray m this = (if read32 m (this + 8) \<noteq> 0 then this + 0xc + ucast (read32 m (this + 4)) * 8 else 0)"

definition GetCollisionArray :: "memory \<Rightarrow> u64 \<Rightarrow> u64" where
  "GetCollisionArray m this = (if read32 m (this + 0x12) \<noteq> 0 then this + 0x16 + ucast (read32 m (this + 0xe)) * 8 else 0)"

definition RsizeExtractor_Initialize :: "memory \<Rightarrow> u64 \<Rightarrow> u32 \<Rightarrow> u32 \<Rightarrow> rsize_extractor \<Rightarrow> bool \<times> rsize_extractor" where
  "RsizeExtractor_Initialize m file_p file_size max_path_length x =
     (if file_p = 0 \<or> file_size < 8 then (False, x)
      else
        let magic = read32 m file_p;
            default_length = (if max_path_length \<noteq> 0xffffffff then max_path_length else cDefaultMaxLength);
            x = (if magic = ResRsizetable_cMagic0 \<and> read16 m (file_p + 4) = ResRsizetable_cMagic1
                 then x\<lparr>m_crc32_array := file_p + 0x16, m_collision_array := GetCollisionArray m file_p,
                        m_crc32_count := read32 m (file_p + 0xe), m_collision_count := read32 m (file_p + 0x12),
                        m_max_path := read32 m (file_p + 0xa)\<rparr>
                 else if magic = ResRsizetableOld_cMagic
                 then x\<lparr>m_crc32_array := file_p + 0xc, m_collision_array := OldGetCollisionArray m file_p,
                        m_crc32_count := read32 m (file_p + 4), m_collision_count := read32 m (file_p + 8),
                        m_max_path := default_length\<rparr>
                 else x\<lparr>m_crc32_array := file_p, m_crc32_count := file_size div 8, m_max_path := default_length\<rparr>)
        in (True, x\<lparr>m_head := file_p\<rparr>))"

definition RsizeExtractor_Finalize :: "rsize_extractor \<Rightarrow> rsize_extractor" where
  "RsizeExtractor_Finalize x =
     x\<lparr>m_crc32_array := 0, m_collision_array := 0, m_crc32_count := 0, m_collision_count := 0, m_max_path := 0\<rparr>"

definition crc32_entry_hash :: "memory \<Rightarrow> rsize_extractor \<Rightarrow> u32 \<Rightarrow> u32" where
  "crc32_entry_hash m x i = read32 m (m_crc32_array x + 8 * ucast i)"

definition crc32_entry_size :: "memory \<Rightarrow> rsize_extractor \<Rightarrow> u32 \<Rightarrow> u32" where
  "crc32_entry_size m x i = read32 m (m_crc32_array x + 8 * ucast i + 4)"

definition TryGetResourceSizeByCrc32 :: "memory \<Rightarrow> rsize_extractor \<Rightarrow> u32 \<Rightarrow> u32 option" where
  "TryGetResourceSizeByCrc32 m x hash_crc32 =
     (if m_crc32_array x = 0 \<or> m_crc32_count x = 0 then Some cInvalidSize
      else case hash_search (crc32_entry_hash m x) hash_crc32 (m_crc32_count x div 2) (m_crc32_count x) 0 of
             None \<Rightarrow> None
           | Some None \<Rightarrow> Some cInvalidSize
           | Some (Some entry_id) \<Rightarrow> Some (crc32_entry_size m x entry_id))"

text \<open>
  \<open>::strncmp\<close> of a string and the memory at an address; the standard fixes the sign of the answer, which is
  all the caller looks at.
\<close>

fun strncmp :: "u8 list \<Rightarrow> memory \<Rightarrow> u64 \<Rightarrow> nat \<Rightarrow> int result" where
  "strncmp s m p 0 = Inr 0"
| "strncmp [] m p (Suc n) = Inl Out_Of_Bounds"
| "strncmp (c # s) m p (Suc n) =
     (if c \<noteq> m p then Inr (int (unat c) - int (unat (m p)))
      else if c = 0 then Inr 0
      else strncmp s m (p + 1) n)"

text \<open>The entries of the collision table, a path of \<open>m_max_path\<close> characters and a size each.\<close>

definition collision_entry :: "rsize_extractor \<Rightarrow> u32 \<Rightarrow> u64" where
  "collision_entry x index = m_collision_array x + (4 + ucast (m_max_path x)) * ucast index"

partial_function (option) path_search :: "memory \<Rightarrow> rsize_extractor \<Rightarrow> u8 list \<Rightarrow> u32 \<Rightarrow> u32 \<Rightarrow> u32 run" where
  "path_search m x path i high =
     (if i < high
      then
        let index = drop_bit 1 (i + high);
            collision_path = collision_entry x index
        in (case strncmp path m collision_path (unat (m_max_path x)) of
              Inl e \<Rightarrow> Some (Inl e)
            | Inr result \<Rightarrow>
                if result = 0 then ret (read32 m (collision_path + ucast (m_max_path x)))
                else if 0 < result then path_search m x path (index + 1) high
                else path_search m x path i index)
      else ret cInvalidSize)"

declare path_search.simps [code]

definition TryGetResourceSizeByPathCollision :: "memory \<Rightarrow> rsize_extractor \<Rightarrow> u8 list \<Rightarrow> u32 run" where
  "TryGetResourceSizeByPathCollision m x path =
     (if m_collision_array x = 0 \<or> m_collision_count x = 0 then ret cInvalidSize
      else path_search m x path 0 (m_collision_count x))"

definition TryGetResourceSize :: "memory \<Rightarrow> rsize_extractor \<Rightarrow> u8 list \<Rightarrow> u32 run" where
  "TryGetResourceSize m x path =
     call (HashCrc32b False path) (\<lambda>hash.
       case TryGetResourceSizeByCrc32 m x hash of
         None \<Rightarrow> None
       | Some n \<Rightarrow> if n \<noteq> cInvalidSize then ret n else TryGetResourceSizeByPathCollision m x path)"

definition GetResourceSizeTable :: "rsize_extractor \<Rightarrow> u64" where
  "GetResourceSizeTable x = m_head x"

section \<open>The builder\<close>

record 'p rsize_builder =
  m_crc32_entry_list :: "('p, u32) rb_tree"
  m_collision_entry_list :: "('p, u64) rb_tree"
  m_resource_size :: "'p \<Rightarrow> u32"

definition blank_node :: "'k \<Rightarrow> ('p, 'k) rb_node" where
  "blank_node key = \<lparr>m_left = None, m_right = None, m_parent = None, m_color = False, m_key = key\<rparr>"

text \<open>The two constructors of \<open>ResourceSizeNode\<close> at an address; a node made of a hash has the null path.\<close>

definition node_of_crc32 :: "'p \<Rightarrow> u32 \<Rightarrow> u32 \<Rightarrow> 'p rsize_builder \<Rightarrow> 'p rsize_builder" where
  "node_of_crc32 p path_crc32 resource_size b =
     b\<lparr>m_collision_entry_list := upd_node p (\<lambda>_. blank_node 0) (m_collision_entry_list b),
       m_crc32_entry_list := upd_node p (\<lambda>_. blank_node path_crc32) (m_crc32_entry_list b),
       m_resource_size := (m_resource_size b)(p := resource_size)\<rparr>"

definition path_is_valid :: "(u64 \<Rightarrow> u8 list) \<Rightarrow> u64 \<Rightarrow> bool" where
  "path_is_valid strings path \<longleftrightarrow> \<not> (path = 0 \<or> hd (strings path) = 0)"

definition node_of_path :: "(u64 \<Rightarrow> u8 list) \<Rightarrow> 'p \<Rightarrow> u64 \<Rightarrow> u32 \<Rightarrow> 'p rsize_builder \<Rightarrow> 'p rsize_builder result" where
  "node_of_path strings p file_path resource_size b =
     bind_result (vp_assert (path_is_valid strings file_path)) (\<lambda>_.
     bind_result (HashCrc32b False (strings file_path)) (\<lambda>path_crc32.
       Inr (b\<lparr>m_collision_entry_list := upd_node p (\<lambda>_. blank_node file_path) (m_collision_entry_list b),
              m_crc32_entry_list := upd_node p (\<lambda>_. blank_node path_crc32) (m_crc32_entry_list b),
              m_resource_size := (m_resource_size b)(p := resource_size)\<rparr>)))"

text \<open>The builder with no entries over given nodes.\<close>

definition rsize_builder_construct :: "('p \<Rightarrow> ('p, u32) rb_node) \<Rightarrow> ('p \<Rightarrow> ('p, u64) rb_node) \<Rightarrow> ('p \<Rightarrow> u32) \<Rightarrow> 'p rsize_builder" where
  "rsize_builder_construct hash_nodes collision_nodes sizes =
     \<lparr>m_crc32_entry_list = \<lparr>m_nodes = hash_nodes, m_root = None\<rparr>, m_collision_entry_list = \<lparr>m_nodes = collision_nodes, m_root = None\<rparr>,
      m_resource_size = sizes\<rparr>"

text \<open>A loop over the nodes of a tree by its iterator; the body says whether it leaves the loop.\<close>

partial_function (option) tree_for :: "('p \<Rightarrow> 's \<Rightarrow> bool \<times> 's) \<Rightarrow> 'p option \<Rightarrow> ('p, 'k) rb_tree \<Rightarrow> 's \<Rightarrow> (bool \<times> 's) option" where
  "tree_for body iter T s =
     (case iter of
        None \<Rightarrow> Some (False, s)
      | Some p \<Rightarrow>
          (case body p s of (stop, s) \<Rightarrow>
             if stop then Some (True, s)
             else case GetNext p T of None \<Rightarrow> None | Some next \<Rightarrow> tree_for body next T s))"

declare tree_for.simps [code]

definition for_each :: "('p \<Rightarrow> 's \<Rightarrow> bool \<times> 's) \<Rightarrow> ('p, 'k) rb_tree \<Rightarrow> 's \<Rightarrow> (bool \<times> 's) option" where
  "for_each body T s = (case tree_begin T of None \<Rightarrow> None | Some iter \<Rightarrow> tree_for body iter T s)"

definition SearchEntry :: "(u64 \<Rightarrow> u8 list) \<Rightarrow> u64 \<Rightarrow> 'p rsize_builder \<Rightarrow> 'p option run" where
  "SearchEntry strings path b =
     call (HashCrc32b False (strings path)) (\<lambda>path_crc32.
       case tree_Find path_crc32 (m_crc32_entry_list b) of
         None \<Rightarrow> None
       | Some (Some node) \<Rightarrow> ret (Some node)
       | Some None \<Rightarrow> map_option Inr (tree_Find path (m_collision_entry_list b)))"

definition AddEntry :: "(u64 \<Rightarrow> u8 list) \<Rightarrow> 'p option \<Rightarrow> 'p rsize_builder \<Rightarrow> (bool \<times> 'p rsize_builder) run" where
  "AddEntry strings entry b =
     (case entry of
        None \<Rightarrow> Some (Inl Assert_Failed)
      | Some new_entry \<Rightarrow>
          (case tree_Find (m_key (m_nodes (m_crc32_entry_list b) new_entry)) (m_crc32_entry_list b) of
             None \<Rightarrow> None
           | Some None \<Rightarrow>
               bind_run (tree_Insert new_entry (m_crc32_entry_list b)) (\<lambda>T. ret (True, b\<lparr>m_crc32_entry_list := T\<rparr>))
           | Some (Some collision_node) \<Rightarrow>
               let new_path = m_key (m_nodes (m_collision_entry_list b) new_entry)
               in if \<not> path_is_valid strings new_path then ret (False, b)
                  else case tree_Find new_path (m_collision_entry_list b) of
                         None \<Rightarrow> None
                       | Some None \<Rightarrow> ret (False, b)
                       | Some (Some _) \<Rightarrow>
                           let collide_path = m_key (m_nodes (m_collision_entry_list b) new_entry)
                           in if \<not> path_is_valid strings collide_path then ret (False, b)
                              else
                                bind_run (tree_Remove (m_key (m_nodes (m_crc32_entry_list b) collision_node)) (m_crc32_entry_list b)) (\<lambda>T.
                                bind_run (tree_Insert collision_node (m_collision_entry_list b)) (\<lambda>U.
                                bind_run (tree_Insert new_entry U) (\<lambda>U.
                                ret (True, b\<lparr>m_crc32_entry_list := T, m_collision_entry_list := U\<rparr>))))))"

text \<open>The loop of \<open>RemoveEntry\<close> for the one node left with a hash; a second one ends it.\<close>

definition same_hash_step :: "'p rsize_builder \<Rightarrow> u32 \<Rightarrow> 'p \<Rightarrow> 'p option \<Rightarrow> bool \<times> 'p option" where
  "same_hash_step b hash node_iter no_longer_colliding_node =
     (if m_key (m_nodes (m_crc32_entry_list b) node_iter) \<noteq> hash then (False, no_longer_colliding_node)
      else if no_longer_colliding_node \<noteq> None then (True, no_longer_colliding_node)
      else (False, Some node_iter))"

definition RemoveEntry :: "(u64 \<Rightarrow> u8 list) \<Rightarrow> u64 \<Rightarrow> 'p rsize_builder \<Rightarrow> ('p option \<times> 'p rsize_builder) run" where
  "RemoveEntry strings path b =
     bind_run (SearchEntry strings path b) (\<lambda>found.
       case found of
         None \<Rightarrow> ret (None, b)
       | Some entry \<Rightarrow>
           bind_run
             (if node_IsLinked (m_crc32_entry_list b) entry
              then bind_run (tree_Remove (m_key (m_nodes (m_crc32_entry_list b) entry)) (m_crc32_entry_list b)) (\<lambda>T.
                   ret (b\<lparr>m_crc32_entry_list := T\<rparr>))
              else ret b)
             (\<lambda>b. if \<not> node_IsLinked (m_collision_entry_list b) entry then ret (Some entry, b)
               else
                 bind_run (tree_Remove (m_key (m_nodes (m_collision_entry_list b) entry)) (m_collision_entry_list b)) (\<lambda>U.
                 let b = b\<lparr>m_collision_entry_list := U\<rparr>;
                     hash = m_key (m_nodes (m_crc32_entry_list b) entry)
                 in case for_each (same_hash_step b hash) (m_collision_entry_list b) None of
                      None \<Rightarrow> None
                    | Some (True, _) \<Rightarrow> ret (Some entry, b)
                    | Some (False, None) \<Rightarrow> ret (Some entry, b)
                    | Some (False, Some node) \<Rightarrow>
                        bind_run (tree_Remove (m_key (m_nodes (m_collision_entry_list b) node)) (m_collision_entry_list b)) (\<lambda>U.
                        bind_run (tree_Insert node (m_crc32_entry_list b)) (\<lambda>T.
                        ret (Some entry, b\<lparr>m_collision_entry_list := U, m_crc32_entry_list := T\<rparr>))))))"

definition UpdateSize :: "(u64 \<Rightarrow> u8 list) \<Rightarrow> u64 \<Rightarrow> u32 \<Rightarrow> 'p rsize_builder \<Rightarrow> (bool \<times> 'p rsize_builder) run" where
  "UpdateSize strings path new_size b =
     bind_run (SearchEntry strings path b) (\<lambda>found.
       case found of
         None \<Rightarrow> ret (False, b)
       | Some entry \<Rightarrow> ret (True, b\<lparr>m_resource_size := (m_resource_size b)(entry := new_size)\<rparr>))"

definition CalculateSerializedSize :: "u32 \<Rightarrow> 'p rsize_builder \<Rightarrow> u64 option" where
  "CalculateSerializedSize max_path_length b =
     (case tree_GetCount (m_crc32_entry_list b) of
        None \<Rightarrow> None
      | Some crc32_count \<Rightarrow>
          (case tree_GetCount (m_collision_entry_list b) of
             None \<Rightarrow> None
           | Some collision_count \<Rightarrow> Some (0x16 + 8 * crc32_count + (4 + ucast max_path_length) * collision_count)))"

definition write_crc32_entry :: "u64 \<Rightarrow> 'p rsize_builder \<Rightarrow> 'p \<Rightarrow> u32 \<times> memory \<Rightarrow> bool \<times> u32 \<times> memory" where
  "write_crc32_entry file_p b node = (\<lambda>(crc32_count, m).
     let entry = file_p + 0x16 + 8 * ucast crc32_count;
         m = write32 entry (m_key (m_nodes (m_crc32_entry_list b) node)) m;
         m = write32 (entry + 4) (m_resource_size b node) m
     in (False, crc32_count + 1, m))"

text \<open>\<open>::strncpy\<close> writes a string and zeros up to the length it is given.\<close>

definition strncpy_bytes :: "u8 list \<Rightarrow> nat \<Rightarrow> u8 list" where
  "strncpy_bytes s n = take n (takeWhile (\<lambda>c. c \<noteq> 0) s @ replicate n 0)"

definition write_collision_entry :: "(u64 \<Rightarrow> u8 list) \<Rightarrow> u64 \<Rightarrow> u32 \<Rightarrow> 'p rsize_builder \<Rightarrow> 'p \<Rightarrow> u32 \<times> memory \<Rightarrow> bool \<times> u32 \<times> memory" where
  "write_collision_entry strings collision_array max_path_length b node = (\<lambda>(collision_count, m).
     let output_string = collision_array + (4 + ucast max_path_length) * ucast collision_count;
         path = m_key (m_nodes (m_collision_entry_list b) node);
         m = write_bytes output_string (strncpy_bytes (strings path) (unat max_path_length)) m;
         m = write32 (output_string + ucast max_path_length) (m_resource_size b node) m
     in (False, collision_count + 1, m))"

definition Rsize_Serialize :: "(u64 \<Rightarrow> u8 list) \<Rightarrow> u64 \<Rightarrow> u64 \<Rightarrow> u32 \<Rightarrow> 'p rsize_builder \<Rightarrow> memory \<Rightarrow> memory run" where
  "Rsize_Serialize strings file_p file_size max_path_length b m =
     (case CalculateSerializedSize max_path_length b of
        None \<Rightarrow> None
      | Some serialized_size \<Rightarrow>
          call (vp_assert (file_p \<noteq> 0 \<and> serialized_size \<le> file_size)) (\<lambda>_.
          let m = write_bytes file_p (replicate (unat file_size) 0) m;
              m = write32 file_p ResRsizetable_cMagic0 m;
              m = write16 (file_p + 4) ResRsizetable_cMagic1 m;
              m = write32 (file_p + 6) ResRsizetable_cTargetVersion m;
              m = write32 (file_p + 0xa) max_path_length m
          in case for_each (write_crc32_entry file_p b) (m_crc32_entry_list b) (0, m) of
               None \<Rightarrow> None
             | Some (_, crc32_count, m) \<Rightarrow>
                 let m = write32 (file_p + 0xe) crc32_count m;
                     collision_array = file_p + 0x16 + ucast crc32_count * 8
                 in (case for_each (write_collision_entry strings collision_array max_path_length b) (m_collision_entry_list b) (0, m) of
                       None \<Rightarrow> None
                     | Some (_, collision_count, m) \<Rightarrow> ret (write32 (file_p + 0x12) collision_count m))))"

end
