(* ===== verification/Rsizetable_Props.thy ===== *)
theory Rsizetable_Props
  imports Rsizetable "HOL-Library.List_Lexorder"
begin

text \<open>
  What a serialized table gives back, and what the builder's operations do to the map from hashes to sizes that
  its trees stand for.
\<close>

section \<open>Loops over a tree\<close>

lemma tree_for_spec:
  "at T [] t \<Longrightarrow> inorder t = xs @ ys \<Longrightarrow> (\<And>p s. \<not> fst (body p s)) \<Longrightarrow>
    tree_for body (hd_opt ys) T s = Some (False, fold (\<lambda>p s. snd (body p s)) ys s)"
proof (induction ys arbitrary: xs s)
  case (Cons y ys)
  have "GetNext y T = Some (hd_opt ys)" using next_spec [OF Cons.prems(1), of xs y ys] Cons.prems(2) by simp
  then show ?case using Cons.IH [of "xs @ [y]"] Cons.prems by (subst tree_for.simps) (auto split: prod.splits simp: prod_eq_iff)
qed (simp add: tree_for.simps)

lemma for_each_spec:
  "at T [] t \<Longrightarrow> (\<And>p s. \<not> fst (body p s)) \<Longrightarrow> for_each body T s = Some (False, fold (\<lambda>p s. snd (body p s)) (inorder t) s)"
  using begin_spec [of T t] tree_for_spec [of T t "[]" "inorder t" body s] by (simp add: for_each_def)

section \<open>The layout of a table\<close>

fun crc32_chunks :: "'p rsize_builder \<Rightarrow> nat \<Rightarrow> 'p list \<Rightarrow> chunk list" where
  "crc32_chunks b k [] = []"
| "crc32_chunks b k (p # ps) = (22 + 8 * k, bytes 4 (m_key (m_nodes (m_crc32_entry_list b) p))) #
     (22 + 8 * k + 4, bytes 4 (m_resource_size b p)) # crc32_chunks b (Suc k) ps"

fun collision_chunks :: "(u64 \<Rightarrow> u8 list) \<Rightarrow> 'p rsize_builder \<Rightarrow> nat \<Rightarrow> nat \<Rightarrow> nat \<Rightarrow> 'p list \<Rightarrow> chunk list" where
  "collision_chunks strings b base L k [] = []"
| "collision_chunks strings b base L k (p # ps) =
     (base + (4 + L) * k, strncpy_bytes (strings (m_key (m_nodes (m_collision_entry_list b) p))) L) #
     (base + (4 + L) * k + L, bytes 4 (m_resource_size b p)) # collision_chunks strings b base L (Suc k) ps"

lemma length_strncpy_bytes [simp]: "length (strncpy_bytes s n) = n"
  by (simp add: strncpy_bytes_def)

lemma crc32_chunks_range: "c \<in> set (crc32_chunks b k ps) \<Longrightarrow> 22 + 8 * k \<le> fst c \<and> fst c + length (snd c) \<le> 22 + 8 * (k + length ps)"
  by (induction b k ps rule: crc32_chunks.induct) fastforce+

lemma crc32_chunks_disjoint: "sorted_wrt disjoint_chunks (crc32_chunks b k ps)"
  by (induction b k ps rule: crc32_chunks.induct) (fastforce simp: disjoint_chunks_def dest: crc32_chunks_range)+

lemma crc32_chunks_in:
  "i < length ps \<Longrightarrow> (22 + 8 * (k + i), bytes 4 (m_key (m_nodes (m_crc32_entry_list b) (ps ! i)))) \<in> set (crc32_chunks b k ps) \<and>
    (22 + 8 * (k + i) + 4, bytes 4 (m_resource_size b (ps ! i))) \<in> set (crc32_chunks b k ps)"
proof (induction b k ps arbitrary: i rule: crc32_chunks.induct)
  case (2 b k p ps)
  then show ?case by (cases i) auto
qed simp

lemma collision_chunks_range:
  "c \<in> set (collision_chunks strings b base L k ps) \<Longrightarrow>
    base + (4 + L) * k \<le> fst c \<and> fst c + length (snd c) \<le> base + (4 + L) * (k + length ps)"
  by (induction strings b base L k ps rule: collision_chunks.induct) (fastforce simp: algebra_simps)+

lemma collision_chunks_disjoint: "sorted_wrt disjoint_chunks (collision_chunks strings b base L k ps)"
  by (induction strings b base L k ps rule: collision_chunks.induct) (fastforce simp: disjoint_chunks_def dest: collision_chunks_range)+

lemma collision_chunks_in:
  "i < length ps \<Longrightarrow>
    (base + (4 + L) * (k + i), strncpy_bytes (strings (m_key (m_nodes (m_collision_entry_list b) (ps ! i)))) L) \<in> set (collision_chunks strings b base L k ps) \<and>
    (base + (4 + L) * (k + i) + L, bytes 4 (m_resource_size b (ps ! i))) \<in> set (collision_chunks strings b base L k ps)"
proof (induction strings b base L k ps arbitrary: i rule: collision_chunks.induct)
  case (2 strings b base L k p ps)
  then show ?case by (cases i) auto
qed simp

lemma unat_ucast_count: "k < 2 ^ 32 \<Longrightarrow> ucast (of_nat k :: u32) = (of_nat k :: u64)"
  by (simp add: word_eq_unat_iff unat_ucast_up unat_of_nat_less)

lemma write_crc32_entries:
  "k + length ps < 2 ^ 32 \<Longrightarrow> fold (\<lambda>p s. snd (write_crc32_entry file_p b p s)) ps (of_nat k, m) =
    (of_nat (k + length ps), write_chunks file_p (crc32_chunks b k ps) m)"
proof (induction ps arbitrary: k m)
  case (Cons p ps)
  have u: "ucast (of_nat k :: u32) = (of_nat k :: u64)" using Cons.prems by (intro unat_ucast_count) simp
  have "snd (write_crc32_entry file_p b p (of_nat k, m)) = (of_nat (Suc k),
    write_chunks file_p [(22 + 8 * k, bytes 4 (m_key (m_nodes (m_crc32_entry_list b) p))), (22 + 8 * k + 4, bytes 4 (m_resource_size b p))] m)"
    by (simp add: write_crc32_entry_def Let_def u write32_def algebra_simps)
  then show ?case using Cons.IH [of "Suc k"] Cons.prems by simp
qed simp

lemma write_collision_entries:
  "k + length ps < 2 ^ 32 \<Longrightarrow>
    fold (\<lambda>p s. snd (write_collision_entry strings (file_p + of_nat base) L b p s)) ps (of_nat k, m) =
    (of_nat (k + length ps), write_chunks file_p (collision_chunks strings b base (unat L) k ps) m)"
proof (induction ps arbitrary: k m)
  case (Cons p ps)
  have u: "ucast (of_nat k :: u32) = (of_nat k :: u64)" using Cons.prems by (intro unat_ucast_count) simp
  have "snd (write_collision_entry strings (file_p + of_nat base) L b p (of_nat k, m)) = (of_nat (Suc k),
    write_chunks file_p [(base + (4 + unat L) * k, strncpy_bytes (strings (m_key (m_nodes (m_collision_entry_list b) p))) (unat L)),
      (base + (4 + unat L) * k + unat L, bytes 4 (m_resource_size b p))] m)"
    by (simp add: write_collision_entry_def Let_def u write32_def algebra_simps)
  then show ?case using Cons.IH [of "Suc k"] Cons.prems by simp
qed simp

definition rsize_chunks :: "(u64 \<Rightarrow> u8 list) \<Rightarrow> 'p rsize_builder \<Rightarrow> u32 \<Rightarrow> 'p list \<Rightarrow> 'p list \<Rightarrow> chunk list" where
  "rsize_chunks strings b L ps qs =
     [(0, bytes 4 ResRsizetable_cMagic0), (4, bytes 2 ResRsizetable_cMagic1), (6, bytes 4 ResRsizetable_cTargetVersion), (10, bytes 4 L)] @
     crc32_chunks b 0 ps @ [(14, bytes 4 (of_nat (length ps) :: u32))] @
     collision_chunks strings b (22 + 8 * length ps) (unat L) 0 qs @ [(18, bytes 4 (of_nat (length qs) :: u32))]"

definition rsize_length :: "u32 \<Rightarrow> 'p list \<Rightarrow> 'p list \<Rightarrow> nat" where
  "rsize_length L ps qs = 22 + 8 * length ps + (4 + unat L) * length qs"

definition rsize_fits :: "u64 \<Rightarrow> u64 \<Rightarrow> u32 \<Rightarrow> 'p list \<Rightarrow> 'p list \<Rightarrow> bool" where
  "rsize_fits file_p file_size L ps qs \<longleftrightarrow> file_p \<noteq> 0 \<and> length ps < 2 ^ 31 \<and> length qs < 2 ^ 31 \<and>
     unat file_p + rsize_length L ps qs < 2 ^ 64 \<and> rsize_length L ps qs \<le> unat file_size"

lemma rsize_chunks_disjoint: "sorted_wrt disjoint_chunks (rsize_chunks strings b L ps qs)"
proof -
  have c: "22 \<le> fst c \<and> fst c + length (snd c) \<le> 22 + 8 * length ps" if "c \<in> set (crc32_chunks b 0 ps)" for c
    using crc32_chunks_range [OF that] by simp
  have d: "22 + 8 * length ps \<le> fst c" if "c \<in> set (collision_chunks strings b (22 + 8 * length ps) (unat L) 0 qs)" for c
    using collision_chunks_range [OF that] by simp
  show ?thesis unfolding rsize_chunks_def
    using crc32_chunks_disjoint [of b 0 ps] collision_chunks_disjoint [of strings b "22 + 8 * length ps" "unat L" 0 qs] c d
    by (fastforce simp: sorted_wrt_append disjoint_chunks_def)
qed

lemma rsize_chunks_ok:
  assumes "rsize_length L ps qs < 2 ^ 64"
  shows "\<forall>c\<in>set (rsize_chunks strings b L ps qs). chunk_ok c"
proof -
  have "chunk_ok c" if "c \<in> set (crc32_chunks b 0 ps)" for c
    using crc32_chunks_range [OF that] assms by (simp add: chunk_ok_def rsize_length_def)
  moreover have "chunk_ok c" if "c \<in> set (collision_chunks strings b (22 + 8 * length ps) (unat L) 0 qs)" for c
    using collision_chunks_range [OF that] assms by (simp add: chunk_ok_def rsize_length_def)
  ultimately show ?thesis by (auto simp: rsize_chunks_def chunk_ok_def)
qed

lemma rsize_size:
  assumes "tree_rep (m_crc32_entry_list b) t" and "tree_rep (m_collision_entry_list b) u"
  shows "CalculateSerializedSize L b = Some (of_nat (rsize_length L (inorder t) (inorder u)))"
  using assms GetCount_spec [of "m_crc32_entry_list b" t] GetCount_spec [of "m_collision_entry_list b" u]
  by (simp add: CalculateSerializedSize_def tree_rep_def rsize_length_def)

lemma serialize_rsize:
  assumes t: "tree_rep (m_crc32_entry_list b) t" and u: "tree_rep (m_collision_entry_list b) u"
    and fits: "rsize_fits file_p file_size L (inorder t) (inorder u)"
  shows "Rsize_Serialize strings file_p file_size L b m =
    ret (write_chunks file_p (rsize_chunks strings b L (inorder t) (inorder u)) (write_bytes file_p (replicate (unat file_size) 0) m))"
proof -
  have len: "length (inorder t) < 2 ^ 32" "length (inorder u) < 2 ^ 32" using fits by (simp_all add: rsize_fits_def)
  have le: "of_nat (rsize_length L (inorder t) (inorder u)) \<le> file_size" "file_p \<noteq> 0"
    using fits by (auto simp: rsize_fits_def word_le_nat_alt unat_of_nat_less)
  have stop: "\<not> fst (write_crc32_entry file_p b p s)" "\<not> fst (write_collision_entry strings base L b p s)" for p s base
    by (simp_all add: write_crc32_entry_def write_collision_entry_def Let_def split: prod.splits)
  have crc: "for_each (write_crc32_entry file_p b) (m_crc32_entry_list b) (0, m') =
    Some (False, of_nat (length (inorder t)), write_chunks file_p (crc32_chunks b 0 (inorder t)) m')" for m'
    using for_each_spec [of "m_crc32_entry_list b" t "write_crc32_entry file_p b" "(0, m')"] t stop(1)
      write_crc32_entries [of 0 "inorder t" file_p b m'] len(1) by (simp add: tree_rep_def)
  have base: "file_p + 0x16 + ucast (of_nat (length (inorder t)) :: u32) * 8 = file_p + of_nat (22 + 8 * length (inorder t))"
    by (simp add: unat_ucast_count [OF len(1)])
  have col: "for_each (write_collision_entry strings (file_p + of_nat (22 + 8 * length (inorder t))) L b) (m_collision_entry_list b) (0, m') =
    Some (False, of_nat (length (inorder u)), write_chunks file_p (collision_chunks strings b (22 + 8 * length (inorder t)) (unat L) 0 (inorder u)) m')" for m'
    using for_each_spec [of "m_collision_entry_list b" u "write_collision_entry strings (file_p + of_nat (22 + 8 * length (inorder t))) L b" "(0, m')"] u stop(2)
      write_collision_entries [of 0 "inorder u" strings file_p "22 + 8 * length (inorder t)" L b m'] len(2) by (simp add: tree_rep_def)
  show ?thesis
    by (simp add: Rsize_Serialize_def rsize_size [OF t u] le Let_def crc base col rsize_chunks_def write32_def write16_def del: of_nat_add of_nat_mult)
qed

section \<open>Reading a table back\<close>

definition rsize_table_in :: "u64 \<Rightarrow> u32 \<Rightarrow> (u64 \<Rightarrow> u8 list) \<Rightarrow> 'p rsize_builder \<Rightarrow> 'p list \<Rightarrow> 'p list \<Rightarrow> memory \<Rightarrow> bool" where
  "rsize_table_in file_p L strings b ps qs M \<longleftrightarrow>
     (\<forall>(i, bs)\<in>set (rsize_chunks strings b L ps qs). read_bytes M (file_p + of_nat i) (length bs) = bs)"

lemma rsize_written:
  "rsize_length L ps qs < 2 ^ 64 \<Longrightarrow> rsize_table_in file_p L strings b ps qs (write_chunks file_p (rsize_chunks strings b L ps qs) m)"
  unfolding rsize_table_in_def using read_chunk [OF rsize_chunks_ok rsize_chunks_disjoint] by blast

lemma rsize_fields:
  assumes "rsize_table_in file_p L strings b ps qs M"
  shows "read32 M file_p = ResRsizetable_cMagic0" "read16 M (file_p + 4) = ResRsizetable_cMagic1" "read32 M (file_p + 0xa) = L"
    "read32 M (file_p + 0xe) = of_nat (length ps)" "read32 M (file_p + 0x12) = of_nat (length qs)"
proof -
  have R: "read_bytes M (file_p + of_nat i) (length bs) = bs" if "(i, bs) \<in> set (rsize_chunks strings b L ps qs)" for i bs
    using assms that by (auto simp: rsize_table_in_def)
  show "read32 M file_p = ResRsizetable_cMagic0" using R [of 0 "bytes 4 ResRsizetable_cMagic0"] by (simp add: rsize_chunks_def read32_bytes)
  show "read16 M (file_p + 4) = ResRsizetable_cMagic1" using R [of 4 "bytes 2 ResRsizetable_cMagic1"] by (simp add: rsize_chunks_def read16_bytes)
  show "read32 M (file_p + 0xa) = L" using R [of 10 "bytes 4 L"] by (simp add: rsize_chunks_def read32_bytes)
  show "read32 M (file_p + 0xe) = of_nat (length ps)"
    using R [of 14 "bytes 4 (of_nat (length ps) :: u32)"] by (simp add: rsize_chunks_def read32_bytes)
  show "read32 M (file_p + 0x12) = of_nat (length qs)"
    using R [of 18 "bytes 4 (of_nat (length qs) :: u32)"] by (simp add: rsize_chunks_def read32_bytes)
qed

definition table_extractor :: "u64 \<Rightarrow> u32 \<Rightarrow> 'p list \<Rightarrow> 'p list \<Rightarrow> rsize_extractor" where
  "table_extractor file_p L ps qs = \<lparr>m_crc32_array = file_p + 0x16,
     m_collision_array = (if qs = [] then 0 else file_p + of_nat (22 + 8 * length ps)),
     m_crc32_count = of_nat (length ps), m_collision_count = of_nat (length qs), m_max_path = L, m_head = file_p\<rparr>"

lemma of_nat_0_iff_32: "n < 2 ^ 32 \<Longrightarrow> (of_nat n :: u32) = 0 \<longleftrightarrow> n = 0"
  by (simp add: word_eq_unat_iff unat_of_nat_less)

lemma table_initialize:
  assumes "rsize_table_in file_p L strings b ps qs M" and "file_p \<noteq> 0" and "8 \<le> n" and "length ps < 2 ^ 31" and "length qs < 2 ^ 31"
  shows "RsizeExtractor_Initialize M file_p n max_path x = (True, table_extractor file_p L ps qs)"
proof -
  have len: "length ps < 2 ^ 32" "length qs < 2 ^ 32" using assms(4,5) by simp_all
  have "\<not> n < 8" using assms(3) by simp
  then show ?thesis using assms(2) rsize_fields [OF assms(1)] of_nat_0_iff_32 [OF len(2)]
    by (simp add: RsizeExtractor_Initialize_def GetCollisionArray_def table_extractor_def unat_ucast_count [OF len(1)] algebra_simps)
qed

lemma table_entry_at:
  assumes "rsize_table_in file_p L strings b ps qs M" and "i < length ps" and "length ps < 2 ^ 31"
  shows "crc32_entry_hash M (table_extractor file_p L ps qs) (of_nat i) = m_key (m_nodes (m_crc32_entry_list b) (ps ! i))"
    and "crc32_entry_size M (table_extractor file_p L ps qs) (of_nat i) = m_resource_size b (ps ! i)"
proof -
  have R: "read_bytes M (file_p + of_nat j) (length bs) = bs" if "(j, bs) \<in> set (crc32_chunks b 0 ps)" for j bs
    using assms(1) that by (auto simp: rsize_table_in_def rsize_chunks_def)
  have u: "ucast (of_nat i :: u32) = (of_nat i :: u64)" using assms by (intro unat_ucast_count) simp
  note c = crc32_chunks_in [OF assms(2), of 0 b]
  show "crc32_entry_hash M (table_extractor file_p L ps qs) (of_nat i) = m_key (m_nodes (m_crc32_entry_list b) (ps ! i))"
    using R [OF conjunct1 [OF c]] by (simp add: crc32_entry_hash_def table_extractor_def u read32_bytes algebra_simps)
  show "crc32_entry_size M (table_extractor file_p L ps qs) (of_nat i) = m_resource_size b (ps ! i)"
    using R [OF conjunct2 [OF c]] by (simp add: crc32_entry_size_def table_extractor_def u read32_bytes algebra_simps)
qed

text \<open>The size of the first node of a list that passes a test.\<close>

definition size_of_first :: "'p rsize_builder \<Rightarrow> ('p \<Rightarrow> bool) \<Rightarrow> 'p list \<Rightarrow> u32" where
  "size_of_first b P ps = (case find P ps of None \<Rightarrow> cInvalidSize | Some p \<Rightarrow> m_resource_size b p)"

lemma size_of_first_at:
  assumes "i < length ps" and "P (ps ! i)" and "\<And>j. j < length ps \<Longrightarrow> P (ps ! j) \<Longrightarrow> j = i"
  shows "size_of_first b P ps = m_resource_size b (ps ! i)"
proof -
  have "find P ps = Some (ps ! i)" unfolding find_Some_iff using assms by (intro exI [of _ i]) (metis less_trans less_irrefl)
  then show ?thesis by (simp add: size_of_first_def)
qed

lemma size_of_first_none: "\<forall>p\<in>set ps. \<not> P p \<Longrightarrow> size_of_first b P ps = cInvalidSize"
  by (auto simp: size_of_first_def find_None_iff split: option.splits) (metis find_Some_iff nth_mem)

lemma table_hash_found:
  assumes M: "rsize_table_in file_p L strings b ps qs M" and len: "length ps < 2 ^ 31" and f0: "file_p + 0x16 \<noteq> 0"
    and asc: "sorted_wrt (<) (map (key_of (m_crc32_entry_list b)) ps)"
  shows "TryGetResourceSizeByCrc32 M (table_extractor file_p L ps qs) h =
    Some (size_of_first b (\<lambda>p. key_of (m_crc32_entry_list b) p = h) ps)"
proof (cases "ps = []")
  case True
  then show ?thesis by (simp add: TryGetResourceSizeByCrc32_def table_extractor_def size_of_first_def)
next
  case False
  define x where "x = table_extractor file_p L ps qs"
  define n :: u32 where "n = of_nat (length ps)"
  have n: "unat n = length ps" using len by (simp add: n_def unat_of_nat_less)
  have at: "crc32_entry_hash M x k = key_of (m_crc32_entry_list b) (ps ! unat k)" "crc32_entry_size M x k = m_resource_size b (ps ! unat k)"
    if "k < n" for k
    using table_entry_at [OF M _ len, of "unat k"] that n by (simp_all add: word_less_nat_alt x_def)
  have inc: "key_of (m_crc32_entry_list b) (ps ! i) < key_of (m_crc32_entry_list b) (ps ! j)" if "i < j" "j < length ps" for i j
    using asc that by (simp add: sorted_wrt_iff_nth_less)
  have "crc32_entry_hash M x i \<le> crc32_entry_hash M x j" if "i < j" "j < n" for i j
    using inc [of "unat i" "unat j"] at(1) [of i] at(1) [of j] that n by (auto simp: word_less_nat_alt word_le_nat_alt)
  then have sorted: "sorted_table (crc32_entry_hash M x) n" by (simp add: sorted_table_def)
  obtain r where r: "hash_search (crc32_entry_hash M x) h (n div 2) n 0 = Some r" "found_in (crc32_entry_hash M x) h n r"
    using hash_search_start [OF sorted, of h] n len False by (auto simp: word_less_nat_alt)
  have T: "TryGetResourceSizeByCrc32 M x h = Some (case r of None \<Rightarrow> cInvalidSize | Some k \<Rightarrow> crc32_entry_size M x k)"
    using r(1) f0 False n of_nat_0_iff_32 [of "length ps"] len
    by (cases r) (simp_all add: TryGetResourceSizeByCrc32_def x_def table_extractor_def n_def)
  show ?thesis
  proof (cases r)
    case None
    have "key_of (m_crc32_entry_list b) (ps ! i) \<noteq> h" if "i < length ps" for i
    proof -
      have "(of_nat i :: u32) < n" using that n len by (simp add: word_less_nat_alt unat_of_nat_less)
      then show ?thesis using r(2) None at(1) [of "of_nat i"] that len by (auto simp: found_in_def unat_of_nat_less)
    qed
    then have "size_of_first b (\<lambda>p. key_of (m_crc32_entry_list b) p = h) ps = cInvalidSize"
      by (intro size_of_first_none) (metis in_set_conv_nth)
    then show ?thesis using T None by (simp add: x_def)
  next
    case (Some k)
    have k: "k < n" "crc32_entry_hash M x k = h" using r(2) Some by (simp_all add: found_in_def)
    have i: "unat k < length ps" "key_of (m_crc32_entry_list b) (ps ! unat k) = h" using k at(1) n by (simp_all add: word_less_nat_alt)
    have "size_of_first b (\<lambda>p. key_of (m_crc32_entry_list b) p = h) ps = m_resource_size b (ps ! unat k)"
    proof (rule size_of_first_at [where P = "\<lambda>p. key_of (m_crc32_entry_list b) p = h", OF i])
      fix j assume "j < length ps" "key_of (m_crc32_entry_list b) (ps ! j) = h"
      then show "j = unat k" using inc [of j "unat k"] inc [of "unat k" j] i by (metis less_irrefl linorder_neqE_nat)
    qed
    then show ?thesis using T Some at(2) [OF k(1)] by (simp add: x_def)
  qed
qed

section \<open>The search by path\<close>

abbreviation (input) c_string :: "u8 list \<Rightarrow> u8 list" where
  "c_string s \<equiv> takeWhile (\<lambda>c. c \<noteq> 0) s"

lemma strncpy_bytes_simps:
  "strncpy_bytes s 0 = []" "strncpy_bytes [] n = replicate n 0"
  "strncpy_bytes (c # s) (Suc n) = (if c = 0 then replicate (Suc n) 0 else c # strncpy_bytes s n)"
proof -
  have "take n (xs @ replicate (Suc n) 0) = take n (xs @ replicate n 0)" for xs :: "u8 list"
  proof -
    have "replicate (Suc n) 0 = replicate n 0 @ [0 :: u8]" by (simp add: replicate_append_same)
    then show ?thesis by (simp del: replicate_Suc)
  qed
  then show "strncpy_bytes (c # s) (Suc n) = (if c = 0 then replicate (Suc n) 0 else c # strncpy_bytes s n)"
    by (simp add: strncpy_bytes_def)
qed (simp_all add: strncpy_bytes_def)

text \<open>\<open>strncmp\<close> against a path written by \<open>strncpy\<close> compares the two paths cut to the length, in lexicographic order.\<close>

lemma strncmp_spec:
  "read_bytes m p n = strncpy_bytes t n \<Longrightarrow> 0 \<notin> set s \<Longrightarrow>
    \<exists>r. strncmp (s @ 0 # rest) m p n = Inr r \<and> (r = 0 \<longleftrightarrow> take n s = take n (c_string t)) \<and> (0 < r \<longleftrightarrow> take n (c_string t) < take n s)"
proof (induction n arbitrary: s t p)
  case (Suc n)
  have first: "m p = (case t of [] \<Rightarrow> 0 | c # _ \<Rightarrow> c)"
    using Suc.prems(1) by (cases t) (auto simp: read_bytes_def strncpy_bytes_simps upt_conv_Cons simp del: upt_Suc split: if_splits)
  have more: "read_bytes m (p + 1) n = strncpy_bytes t' n" if "t = c # t'" "c \<noteq> 0" for c t'
  proof -
    have "[0..<Suc n] = 0 # map Suc [0..<n]" by (simp add: map_Suc_upt upt_conv_Cons del: upt_Suc)
    then have "read_bytes m p (Suc n) = m p # read_bytes m (p + 1) n" by (simp add: read_bytes_def comp_def add.assoc del: upt_Suc)
    then show ?thesis using Suc.prems(1) that by (simp add: strncpy_bytes_simps)
  qed
  show ?case
  proof (cases s)
    case Nil
    then show ?thesis using first by (cases t) (auto simp: uint_0_iff unat_gt_0)
  next
    case (Cons c s')
    then have c: "c \<noteq> 0" "0 \<notin> set s'" using Suc.prems(2) by auto
    show ?thesis
    proof (cases "c = m p")
      case True
      then obtain t' where t: "t = c # t'" using first c by (cases t) auto
      from Suc.IH [OF more [OF t c(1)] c(2)] show ?thesis using True Cons c t by auto
    next
      case False
      then show ?thesis using first c Cons by (cases t) (auto simp: word_uint_eq_iff word_less_def order.strict_iff_order [of 0])
    qed
  qed
qed auto

lemma path_search_finds:
  assumes cmp: "\<And>k. k < n \<Longrightarrow> \<exists>r. strncmp path m (collision_entry x k) (unat (m_max_path x)) = Inr r \<and> (r = 0 \<longleftrightarrow> s = key k) \<and> (0 < r \<longleftrightarrow> key k < s)"
    and asc: "\<And>i j. i < j \<Longrightarrow> j < n \<Longrightarrow> key i < (key j :: u8 list)" and n: "unat n < 2 ^ 31"
  shows "high \<le> n \<Longrightarrow> low \<le> high \<Longrightarrow> (\<And>k. k < low \<Longrightarrow> key k < s) \<Longrightarrow> (\<And>k. high \<le> k \<Longrightarrow> k < n \<Longrightarrow> s < key k) \<Longrightarrow>
    path_search m x path low high = ret cInvalidSize \<and> (\<forall>k<n. key k \<noteq> s) \<or>
    (\<exists>k<n. key k = s \<and> path_search m x path low high = ret (read32 m (collision_entry x k + ucast (m_max_path x))))"
proof (induction "unat high - unat low" arbitrary: high low rule: less_induct)
  case less
  show ?case
  proof (cases "low < high")
    case False
    then have "low = high" using less.prems by simp
    then have "\<forall>k<n. key k \<noteq> s" using less.prems(3,4) by (metis leI less_irrefl)
    then show ?thesis using False by (subst path_search.simps) simp
  next
    case True
    define e where "e = drop_bit 1 (low + high)"
    have e: "e = (high + low) div 2" by (simp add: e_def drop_bit_eq_div add.commute)
    have ue: "unat e = (unat high + unat low) div 2" unfolding e using less.prems n by (intro half_between) (auto simp: word_le_nat_alt)
    have en: "low \<le> e" "e < high" "e < n" using True ue less.prems by (auto simp: word_order_nat)
    obtain r where r: "strncmp path m (collision_entry x e) (unat (m_max_path x)) = Inr r" "r = 0 \<longleftrightarrow> s = key e" "0 < r \<longleftrightarrow> key e < s"
      using cmp [OF en(3)] by blast
    have step: "path_search m x path low high = (if r = 0 then ret (read32 m (collision_entry x e + ucast (m_max_path x)))
      else if 0 < r then path_search m x path (e + 1) high else path_search m x path low e)"
    proof -
      have "drop_bit (Suc 0) (low + high) = e" by (simp add: e_def)
      then show ?thesis using True r(1) by (subst path_search.simps) (simp add: Let_def)
    qed
    consider "s = key e" | "key e < s" | "s < key e" using linorder_less_linear by blast
    then show ?thesis
    proof cases
      case 1
      then show ?thesis using step r en by auto
    next
      case 2
      have u1: "unat (e + 1) = Suc (unat e)" using unat_Suc_less [OF en(2)] by simp
      have b: "e + 1 \<le> high" "unat high - unat (e + 1) < unat high - unat low" using u1 en by (auto simp: word_order_nat)
      have down: "key k < s" if "k < e + 1" for k
      proof (cases "k = e")
        case False
        then have "k < e" using that u1 by (auto simp: word_order_nat word_eq_unat_iff)
        then show ?thesis using asc [OF _ en(3)] 2 by (meson less_trans)
      qed (use 2 in simp)
      from less.hyps [OF b(2) less.prems(1) b(1) down less.prems(4)] show ?thesis using 2 r step by simp
    next
      case 3
      have b: "e \<le> n" "unat e - unat low < unat high - unat low" using en by (auto simp: word_order_nat)
      have up: "s < key k" if "e \<le> k" "k < n" for k
        using 3 asc [of e k] that by (cases "k = e") (auto intro: less_trans)
      from less.hyps [OF b(2,1) en(1) less.prems(3) up] show ?thesis using 3 r step by auto
    qed
  qed
qed

text \<open>The path under which the table holds an entry of the collision tree.\<close>

definition table_path :: "(u64 \<Rightarrow> u8 list) \<Rightarrow> 'p rsize_builder \<Rightarrow> u32 \<Rightarrow> 'p \<Rightarrow> u8 list" where
  "table_path strings b L p = take (unat L) (c_string (strings (key_of (m_collision_entry_list b) p)))"

lemma table_path_found:
  assumes M: "rsize_table_in file_p L strings b ps qs M" and len: "length ps < 2 ^ 31" "length qs < 2 ^ 31"
    and f0: "qs \<noteq> [] \<Longrightarrow> file_p + of_nat (22 + 8 * length ps) \<noteq> 0" and s: "0 \<notin> set s"
    and asc: "sorted_wrt (<) (map (table_path strings b L) qs)"
  shows "TryGetResourceSizeByPathCollision M (table_extractor file_p L ps qs) (s @ 0 # rest) =
    ret (size_of_first b (\<lambda>p. table_path strings b L p = take (unat L) s) qs)"
proof (cases "qs = []")
  case True
  then show ?thesis by (simp add: TryGetResourceSizeByPathCollision_def table_extractor_def size_of_first_def)
next
  case False
  define x where "x = table_extractor file_p L ps qs"
  define n :: u32 where "n = of_nat (length qs)"
  define key where "key k = table_path strings b L (qs ! unat k)" for k :: u32
  have n: "unat n = length qs" using len by (simp add: n_def unat_of_nat_less)
  have L: "m_max_path x = L" by (simp add: x_def table_extractor_def)
  have R: "read_bytes M (file_p + of_nat j) (length bs) = bs" if "(j, bs) \<in> set (collision_chunks strings b (22 + 8 * length ps) (unat L) 0 qs)" for j bs
    using M that by (auto simp: rsize_table_in_def rsize_chunks_def)
  have entry: "collision_entry x k = file_p + of_nat (22 + 8 * length ps + (4 + unat L) * unat k)" for k
    using False by (simp add: collision_entry_def x_def table_extractor_def algebra_simps)
  have at: "read_bytes M (collision_entry x k) (unat L) = strncpy_bytes (strings (key_of (m_collision_entry_list b) (qs ! unat k))) (unat L)"
    "read32 M (collision_entry x k + ucast L) = m_resource_size b (qs ! unat k)" if "k < n" for k
  proof -
    have "unat k < length qs" using that n by (simp add: word_less_nat_alt)
    note c = collision_chunks_in [OF this, of "22 + 8 * length ps" "unat L" 0 strings b]
    show "read_bytes M (collision_entry x k) (unat L) = strncpy_bytes (strings (key_of (m_collision_entry_list b) (qs ! unat k))) (unat L)"
      using R [OF conjunct1 [OF c]] by (simp add: entry)
    show "read32 M (collision_entry x k + ucast L) = m_resource_size b (qs ! unat k)"
      using R [OF conjunct2 [OF c]] by (simp add: entry read32_bytes algebra_simps)
  qed
  have cmp: "\<exists>r. strncmp (s @ 0 # rest) M (collision_entry x k) (unat (m_max_path x)) = Inr r \<and> (r = 0 \<longleftrightarrow> take (unat L) s = key k) \<and>
    (0 < r \<longleftrightarrow> key k < take (unat L) s)" if "k < n" for k
    using strncmp_spec [OF at(1) [OF that] s] by (simp add: L key_def table_path_def)
  have inc: "table_path strings b L (qs ! i) < table_path strings b L (qs ! j)" if "i < j" "j < length qs" for i j
    using asc that by (simp add: sorted_wrt_iff_nth_less)
  have asc_key: "key i < key j" if "i < j" "j < n" for i j
    using inc that n by (simp add: key_def word_less_nat_alt)
  have found: "path_search M x (s @ 0 # rest) 0 n = ret cInvalidSize \<and> (\<forall>k<n. key k \<noteq> take (unat L) s) \<or>
    (\<exists>k<n. key k = take (unat L) s \<and> path_search M x (s @ 0 # rest) 0 n = ret (read32 M (collision_entry x k + ucast (m_max_path x))))"
    by (rule path_search_finds [where key = key, OF cmp asc_key]) (use len n in auto)
  have T: "TryGetResourceSizeByPathCollision M x (s @ 0 # rest) = path_search M x (s @ 0 # rest) 0 n"
    using False f0 of_nat_0_iff_32 [of "length qs"] len
    by (simp add: TryGetResourceSizeByPathCollision_def x_def table_extractor_def n_def)
  consider "path_search M x (s @ 0 # rest) 0 n = ret cInvalidSize" "\<forall>k<n. key k \<noteq> take (unat L) s"
    | k where "k < n" "key k = take (unat L) s" "path_search M x (s @ 0 # rest) 0 n = ret (m_resource_size b (qs ! unat k))"
    using found at(2) by (auto simp: L)
  then show ?thesis
  proof cases
    case 1
    have "table_path strings b L (qs ! i) \<noteq> take (unat L) s" if "i < length qs" for i
    proof -
      have "unat (of_nat i :: u32) = i" using that len by (simp add: unat_of_nat_less)
      moreover from this have "(of_nat i :: u32) < n" using that n by (simp add: word_less_nat_alt)
      ultimately show ?thesis using 1(2) by (auto simp: key_def)
    qed
    then have "size_of_first b (\<lambda>p. table_path strings b L p = take (unat L) s) qs = cInvalidSize"
      by (intro size_of_first_none) (metis in_set_conv_nth)
    then show ?thesis using T 1(1) by (simp add: x_def)
  next
    case 2
    have i: "unat k < length qs" "table_path strings b L (qs ! unat k) = take (unat L) s" using 2 n by (simp_all add: word_less_nat_alt key_def)
    have "size_of_first b (\<lambda>p. table_path strings b L p = take (unat L) s) qs = m_resource_size b (qs ! unat k)"
    proof (rule size_of_first_at [where P = "\<lambda>p. table_path strings b L p = take (unat L) s", OF i])
      fix j assume "j < length qs" "table_path strings b L (qs ! j) = take (unat L) s"
      then show "j = unat k" using inc [of j "unat k"] inc [of "unat k" j] i by (metis less_irrefl linorder_neqE_nat)
    qed
    then show ?thesis using T 2(3) by (simp add: x_def)
  qed
qed

lemma offset_not_0: "file_p \<noteq> 0 \<Longrightarrow> unat file_p + i < 2 ^ 64 \<Longrightarrow> file_p + of_nat i \<noteq> (0 :: u64)"
proof -
  assume a: "file_p \<noteq> 0" "unat file_p + i < 2 ^ 64"
  then have "unat (of_nat i :: u64) = i" by (intro unat_of_nat_less) simp
  then have "unat (file_p + of_nat i) = unat file_p + i" using a by (subst unat_add_nowrap) simp_all
  then show ?thesis using a(1) by (auto simp: word_eq_unat_iff)
qed

text \<open>
  C5: A serialized table gives its entries back.  For balanced trees that fit the file, \<open>Serialize\<close> returns,
  \<open>Initialize\<close> accepts the bytes, the search by hash answers the size of the node with the hash and
  \<open>cInvalidSize\<close> for every other hash.  The search by path does the same for the paths of the collision tree,
  cut to the length of the table, when the tree holds them in the order of their bytes.  The tree compares
  the addresses of the paths, so two or more paths need not be in that order; a tree of at most one path is.
\<close>

theorem rsizetable_round_trip:
  assumes "tree_rep (m_crc32_entry_list b) t" and "tree_rep (m_collision_entry_list b) u"
    and "rsize_fits file_p file_size L (inorder t) (inorder u)" and "8 \<le> n"
  shows "\<exists>M x. Rsize_Serialize strings file_p file_size L b m = ret M \<and> RsizeExtractor_Initialize M file_p n max_path x0 = (True, x) \<and>
    (\<forall>h. TryGetResourceSizeByCrc32 M x h = Some (size_of_first b (\<lambda>p. key_of (m_crc32_entry_list b) p = h) (inorder t))) \<and>
    (sorted_wrt (<) (map (table_path strings b L) (inorder u)) \<longrightarrow>
      (\<forall>s rest. 0 \<notin> set s \<longrightarrow> TryGetResourceSizeByPathCollision M x (s @ 0 # rest) =
         ret (size_of_first b (\<lambda>p. table_path strings b L p = take (unat L) s) (inorder u))))"
proof -
  let ?x = "table_extractor file_p L (inorder t) (inorder u)"
  have f: "file_p \<noteq> 0" "length (inorder t) < 2 ^ 31" "length (inorder u) < 2 ^ 31" "unat file_p + rsize_length L (inorder t) (inorder u) < 2 ^ 64"
    using assms(3) by (auto simp: rsize_fits_def)
  obtain M where M: "Rsize_Serialize strings file_p file_size L b m = ret M" "rsize_table_in file_p L strings b (inorder t) (inorder u) M"
    using serialize_rsize [OF assms(1-3), of strings m] rsize_written [of L "inorder t" "inorder u" file_p strings b] f(4) by force
  have "unat file_p + 22 < 2 ^ 64" "unat file_p + (22 + 8 * length (inorder t)) < 2 ^ 64" using f(4) by (simp_all add: rsize_length_def)
  from this [THEN offset_not_0 [OF f(1)]] have base: "file_p + 0x16 \<noteq> 0" "file_p + of_nat (22 + 8 * length (inorder t)) \<noteq> 0" by simp_all
  have asc: "sorted_wrt (<) (map (key_of (m_crc32_entry_list b)) (inorder t))" using assms(1) by (simp add: tree_rep_def)
  show ?thesis
    using M(1) table_initialize [OF M(2) f(1) assms(4) f(2,3)] table_hash_found [OF M(2) f(2) base(1) asc]
      table_path_found [OF M(2) f(2,3) base(2)]
    by (intro exI [of _ M] exI [of _ ?x]) simp
qed

definition demo_table :: "nat rsize_builder" where
  "demo_table = \<lparr>m_crc32_entry_list = \<lparr>m_nodes = (\<lambda>p. (blank_node 0x11)\<lparr>m_color := True\<rparr>), m_root = Some 0\<rparr>,
     m_collision_entry_list = \<lparr>m_nodes = (\<lambda>p. (blank_node 0x100)\<lparr>m_color := True\<rparr>), m_root = Some 1\<rparr>,
     m_resource_size = (\<lambda>p. if p = 0 then 7 else 9)\<rparr>"

theorem rsizetable_round_trip_witness:
  "\<exists>M x. Rsize_Serialize (\<lambda>_. [97, 0]) 0x1000 0x100 8 demo_table (\<lambda>_. 0) = ret M \<and> RsizeExtractor_Initialize M 0x1000 0x100 8 rsize_extractor_construct = (True, x) \<and>
     TryGetResourceSizeByCrc32 M x 0x11 = Some 7 \<and> TryGetResourceSizeByCrc32 M x 0x12 = Some cInvalidSize \<and>
     TryGetResourceSizeByPathCollision M x [97, 0] = ret 9 \<and> TryGetResourceSizeByPathCollision M x [98, 0] = ret cInvalidSize"
proof -
  have t: "tree_rep (m_crc32_entry_list demo_table) (Node True Leaf 0 Leaf)" "tree_rep (m_collision_entry_list demo_table) (Node True Leaf 1 Leaf)"
    by (simp_all add: tree_rep_def at_def demo_table_def blank_node_def)
  have f: "rsize_fits 0x1000 0x100 8 (inorder (Node True Leaf 0 Leaf)) (inorder (Node True Leaf 1 Leaf))"
    by (simp add: rsize_fits_def rsize_length_def)
  obtain M x where r: "Rsize_Serialize (\<lambda>_. [97, 0]) 0x1000 0x100 8 demo_table (\<lambda>_. 0) = ret M"
    "RsizeExtractor_Initialize M 0x1000 0x100 8 rsize_extractor_construct = (True, x)"
    "\<And>h. TryGetResourceSizeByCrc32 M x h = Some (if h = 0x11 then 7 else cInvalidSize)"
    "\<And>s rest. 0 \<notin> set s \<Longrightarrow> TryGetResourceSizeByPathCollision M x (s @ 0 # rest) = ret (if take 8 s = [97] then 9 else cInvalidSize)"
    using rsizetable_round_trip [OF t f, of "0x100" "\<lambda>_. [97, 0]" "\<lambda>_. 0" 8 rsize_extractor_construct]
    by (auto simp: size_of_first_def demo_table_def blank_node_def table_path_def eq_commute)
  show ?thesis using r(1-3) r(4) [of "[97]" "[]"] r(4) [of "[98]" "[]"] by (intro exI [of _ M] exI [of _ x]) simp
qed

section \<open>The builder as a map\<close>

text \<open>
  The collision tree of a builder stays empty: \<open>AddEntry\<close> goes on with a collision only when the path is in
  that tree already.
\<close>

definition builder_rep :: "'p rsize_builder \<Rightarrow> 'p shape \<Rightarrow> bool" where
  "builder_rep b t \<longleftrightarrow> tree_rep (m_crc32_entry_list b) t \<and> m_root (m_collision_entry_list b) = None \<and>
     (\<forall>p\<in>set (inorder t). node_IsLinked (m_collision_entry_list b) p)"

definition sizes_of :: "'p rsize_builder \<Rightarrow> 'p shape \<Rightarrow> u32 \<rightharpoonup> u32" where
  "sizes_of b t = map_of (map (\<lambda>p. (key_of (m_crc32_entry_list b) p, m_resource_size b p)) (inorder t))"

lemma sizes_of_none: "sizes_of b t h = None \<longleftrightarrow> h \<notin> key_of (m_crc32_entry_list b) ` set (inorder t)"
  by (force simp: sizes_of_def map_of_eq_None_iff)

lemma builder_keys: "builder_rep b t \<Longrightarrow> inj_on (key_of (m_crc32_entry_list b)) (set (inorder t)) \<and> distinct (map (key_of (m_crc32_entry_list b)) (inorder t))"
  by (auto simp: builder_rep_def tree_rep_def strict_sorted_iff distinct_map)

lemma sizes_of_iff:
  "builder_rep b t \<Longrightarrow> sizes_of b t h = Some n \<longleftrightarrow> (\<exists>p\<in>set (inorder t). key_of (m_crc32_entry_list b) p = h \<and> m_resource_size b p = n)"
  using builder_keys [of b t] by (auto simp: sizes_of_def comp_def map_of_eq_Some_iff)

lemma find_in_builder:
  assumes "builder_rep b t"
  shows "if sizes_of b t h = None then tree_Find h (m_crc32_entry_list b) = Some None
    else \<exists>p\<in>set (inorder t). key_of (m_crc32_entry_list b) p = h \<and> tree_Find h (m_crc32_entry_list b) = Some (Some p)"
    and "tree_Find q (m_collision_entry_list b) = Some None"
proof -
  have "tree_Find h (m_crc32_entry_list b) = Some (find (\<lambda>p. key_of (m_crc32_entry_list b) p = h) (inorder t))"
    using assms find_spec [of "m_crc32_entry_list b" t h] by (simp add: builder_rep_def)
  then show "if sizes_of b t h = None then tree_Find h (m_crc32_entry_list b) = Some None
    else \<exists>p\<in>set (inorder t). key_of (m_crc32_entry_list b) p = h \<and> tree_Find h (m_crc32_entry_list b) = Some (Some p)"
    by (cases "find (\<lambda>p. key_of (m_crc32_entry_list b) p = h) (inorder t)")
      (auto simp: sizes_of_none find_None_iff find_Some_iff)
  show "tree_Find q (m_collision_entry_list b) = Some None"
    using assms by (simp add: builder_rep_def tree_Find_def FindImpl.simps)
qed

lemma search_builder:
  assumes "builder_rep b t" and "HashCrc32b False (strings path) = Inr h"
  shows "if sizes_of b t h = None then SearchEntry strings path b = ret None
    else \<exists>p\<in>set (inorder t). key_of (m_crc32_entry_list b) p = h \<and> SearchEntry strings path b = ret (Some p)"
  using find_in_builder(1) [OF assms(1), of h] find_in_builder(2) [OF assms(1), of path] assms(2)
  by (auto simp: SearchEntry_def split: if_splits)

lemma add_entry_spec:
  assumes b: "builder_rep b t" and "small t" and p: "p \<notin> set (inorder t)"
    and new: "m_left (m_nodes (m_crc32_entry_list b) p) = None" "m_right (m_nodes (m_crc32_entry_list b) p) = None" "node_IsLinked (m_collision_entry_list b) p"
  shows "if sizes_of b t (key_of (m_crc32_entry_list b) p) = None
    then \<exists>b' t'. AddEntry strings (Some p) b = ret (True, b') \<and> builder_rep b' t' \<and> set (inorder t') = insert p (set (inorder t)) \<and>
      sizes_of b' t' = (sizes_of b t)(key_of (m_crc32_entry_list b) p \<mapsto> m_resource_size b p)
    else AddEntry strings (Some p) b = ret (False, b)"
proof (cases "sizes_of b t (key_of (m_crc32_entry_list b) p) = None")
  case False
  then show ?thesis using find_in_builder(1) [OF b, of "key_of (m_crc32_entry_list b) p"] find_in_builder(2) [OF b]
    by (auto simp: AddEntry_def Let_def)
next
  case True
  let ?k = "key_of (m_crc32_entry_list b)"
  have "tree_rep (m_crc32_entry_list b) t" using b by (simp add: builder_rep_def)
  from insert_spec [OF this assms(2) p new(1,2)] True obtain T t' where T: "tree_Insert p (m_crc32_entry_list b) = ret T" "tree_rep T t'"
    "inorder t' = insort_key ?k p (inorder t)" "same_keys (m_crc32_entry_list b) T" by (auto simp: sizes_of_none)
  define b' where "b' = b\<lparr>m_crc32_entry_list := T\<rparr>"
  have k: "key_of T q = ?k q" for q using rep_keys [OF T(4)] by metis
  have s: "set (inorder t') = insert p (set (inorder t))" using T(3) by (simp add: set_insort_key)
  have b': "builder_rep b' t'" using b T(2) s new(3) by (simp add: builder_rep_def b'_def)
  have run: "AddEntry strings (Some p) b = ret (True, b')"
    using find_in_builder(1) [OF b, of "?k p"] True T(1) by (simp add: AddEntry_def b'_def)
  have "sizes_of b' t' h = ((sizes_of b t)(?k p \<mapsto> m_resource_size b p)) h" for h
  proof (cases "h = ?k p")
    case True
    then show ?thesis using sizes_of_iff [OF b', of h "m_resource_size b p"] s k by (auto simp: b'_def)
  next
    case other: False
    have "sizes_of b' t' h = Some n \<longleftrightarrow> sizes_of b t h = Some n" for n
      using sizes_of_iff [OF b', of h n] sizes_of_iff [OF b, of h n] other s k by (auto simp: b'_def)
    then show ?thesis using other by (metis fun_upd_other option.collapse option.exhaust)
  qed
  then have "sizes_of b' t' = (sizes_of b t)(?k p \<mapsto> m_resource_size b p)" by (rule ext)
  then show ?thesis using True run b' s by auto
qed

lemma remove_empty: "m_root T = None \<Longrightarrow> tree_Remove k T = Some (Inl Assert_Failed)"
  by (simp add: tree_Remove_def RemoveImpl_def)

lemma remove_entry_spec:
  assumes b: "builder_rep b t" and "small t" and h: "HashCrc32b False (strings path) = Inr h"
  shows "RemoveEntry strings path b = (if sizes_of b t h = None then ret (None, b) else Some (Inl Assert_Failed))"
proof (cases "sizes_of b t h = None")
  case True
  then show ?thesis using search_builder [where strings = strings, OF b h] by (simp add: RemoveEntry_def)
next
  case False
  then obtain p where p: "p \<in> set (inorder t)" "key_of (m_crc32_entry_list b) p = h" "SearchEntry strings path b = ret (Some p)"
    using search_builder [where strings = strings, OF b h] by auto
  have rep: "tree_rep (m_crc32_entry_list b) t" and c: "node_IsLinked (m_collision_entry_list b) p" "m_root (m_collision_entry_list b) = None"
    using b p(1) by (simp_all add: builder_rep_def)
  obtain T where "tree_Remove h (m_crc32_entry_list b) = ret T" using remove_spec [OF rep assms(2), of h] p(1,2) by (auto split: if_splits)
  then show ?thesis using False p(2,3) c(1) remove_empty [OF c(2)] by (simp add: RemoveEntry_def)
qed

lemma update_size_spec:
  assumes b: "builder_rep b t" and h: "HashCrc32b False (strings path) = Inr h"
  shows "if sizes_of b t h = None then UpdateSize strings path new_size b = ret (False, b)
    else \<exists>b'. UpdateSize strings path new_size b = ret (True, b') \<and> builder_rep b' t \<and> sizes_of b' t = (sizes_of b t)(h \<mapsto> new_size)"
proof (cases "sizes_of b t h = None")
  case True
  then show ?thesis using search_builder [where strings = strings, OF b h] by (simp add: UpdateSize_def)
next
  case False
  then obtain p where p: "p \<in> set (inorder t)" "key_of (m_crc32_entry_list b) p = h" "SearchEntry strings path b = ret (Some p)"
    using search_builder [where strings = strings, OF b h] by auto
  define b' where "b' = b\<lparr>m_resource_size := (m_resource_size b)(p := new_size)\<rparr>"
  have b': "builder_rep b' t" using b by (simp add: builder_rep_def b'_def)
  have inj: "q = p" if "q \<in> set (inorder t)" "key_of (m_crc32_entry_list b) q = h" for q
    using builder_keys [OF b] that p(1,2) by (auto simp: inj_on_def)
  have "sizes_of b' t x = ((sizes_of b t)(h \<mapsto> new_size)) x" for x
  proof (cases "x = h")
    case True
    then show ?thesis using p(1,2) sizes_of_iff [OF b', of h new_size] by (auto simp: b'_def)
  next
    case x: False
    have "sizes_of b' t x = Some n \<longleftrightarrow> sizes_of b t x = Some n" for n
      using sizes_of_iff [OF b', of x n] sizes_of_iff [OF b, of x n] x p(2) by (auto simp: b'_def split: if_splits)
    then show ?thesis using x by (metis fun_upd_other option.collapse option.exhaust)
  qed
  then have "sizes_of b' t = (sizes_of b t)(h \<mapsto> new_size)" by (rule ext)
  then show ?thesis using False p(3) b' by (auto simp: UpdateSize_def b'_def)
qed

text \<open>
  C6: The builder is a map from hashes to sizes.  Adding a fresh node with a new hash extends the map, an equal
  hash is refused with no change, \<open>UpdateSize\<close> changes the size under the hash of its path and is refused
  without it, and \<open>RemoveEntry\<close> returns null without it; of an entry that is there it never removes anything:
  it goes on to remove the entry from the empty collision tree and fails an assertion.
\<close>

theorem rsizetable_builder_map:
  assumes "builder_rep b t" and "small t" and "p \<notin> set (inorder t)"
    and "m_left (m_nodes (m_crc32_entry_list b) p) = None" and "m_right (m_nodes (m_crc32_entry_list b) p) = None"
    and "node_IsLinked (m_collision_entry_list b) p" and "HashCrc32b False (strings path) = Inr h"
  shows "(let k = key_of (m_crc32_entry_list b) p in
      if sizes_of b t k = None
      then \<exists>b' t'. AddEntry strings (Some p) b = ret (True, b') \<and> builder_rep b' t' \<and> sizes_of b' t' = (sizes_of b t)(k \<mapsto> m_resource_size b p)
      else AddEntry strings (Some p) b = ret (False, b)) \<and>
    (if sizes_of b t h = None
     then UpdateSize strings path new_size b = ret (False, b) \<and> RemoveEntry strings path b = ret (None, b)
     else (\<exists>b'. UpdateSize strings path new_size b = ret (True, b') \<and> builder_rep b' t \<and> sizes_of b' t = (sizes_of b t)(h \<mapsto> new_size)) \<and>
       RemoveEntry strings path b = Some (Inl Assert_Failed))"
  using add_entry_spec [OF assms(1-6), of strings] update_size_spec [where strings = strings, OF assms(1,7), of new_size]
    remove_entry_spec [where strings = strings, OF assms(1,2,7)]
  by (auto simp: Let_def split: if_splits)

definition demo_rsize_builder :: "nat rsize_builder" where
  "demo_rsize_builder = \<lparr>m_crc32_entry_list = \<lparr>m_nodes = (\<lambda>p. (blank_node (of_nat p))\<lparr>m_color := True\<rparr>), m_root = Some 0\<rparr>,
     m_collision_entry_list = \<lparr>m_nodes = (\<lambda>p. blank_node 0), m_root = None\<rparr>, m_resource_size = (\<lambda>p. 9)\<rparr>"

theorem rsizetable_builder_map_witness:
  "(\<exists>b' t'. AddEntry (\<lambda>_. [0, 0, 0]) (Some 5) demo_rsize_builder = ret (True, b') \<and> builder_rep b' t' \<and> sizes_of b' t' = [0 \<mapsto> 9, 5 \<mapsto> 9]) \<and>
   (\<exists>b'. UpdateSize (\<lambda>_. [0, 0, 0]) 0x100 4 demo_rsize_builder = ret (True, b')) \<and>
   RemoveEntry (\<lambda>_. [0, 0, 0]) 0x100 demo_rsize_builder = Some (Inl Assert_Failed)"
proof -
  let ?t = "Node True Leaf 0 Leaf :: nat shape"
  have b: "builder_rep demo_rsize_builder ?t"
    by (simp add: builder_rep_def tree_rep_def at_def demo_rsize_builder_def blank_node_def node_IsLinked_def)
  have h: "HashCrc32b False [0, 0, 0] = Inr 0"
    by (simp add: HashCrc32b_def HashCrc32bWithContext_def strlen_def four_byte_fallback_def leftover_char_def load_def)
  have z: "sizes_of demo_rsize_builder ?t = [0 \<mapsto> 9]" by (simp add: sizes_of_def demo_rsize_builder_def blank_node_def)
  show ?thesis
    using rsizetable_builder_map [where strings = "\<lambda>_. [0, 0, 0]" and path = "0x100" and new_size = 4 and p = 5, OF b _ _ _ _ _ h] z
    by (auto simp: small_def demo_rsize_builder_def blank_node_def node_IsLinked_def Let_def)
qed

end
