(* ===== verification/Hash_Map.thy ===== *)
theory Hash_Map
  imports Run
begin

text \<open>
  \<open>HashMap\<close>, \<open>FixedHashMap\<close> (\<open>util_hashmap.hpp\<close>), \<open>KeyIndexMap\<close> and \<open>FixedKeyIndexMap\<close>
  (\<open>util_keyindexmap.hpp\<close>): open addressing with linear probing over an array.  An entry with the hash 0 is
  free.  A pointer to an entry is its index; a null array is \<open>None\<close>.  What the entries of a new array hold is
  an argument: \<open>Parent\<close> is a plain structure, which \<open>new\<close> leaves as it finds the memory.
\<close>

section \<open>Probing\<close>

record hash_entry =
  e_hash :: u32
  e_index :: u32

definition hash_elements :: "hash_entry list option \<Rightarrow> hash_entry list result" where
  "hash_elements p = (case p of None \<Rightarrow> Inl Null_Pointer | Some xs \<Rightarrow> Inr xs)"

definition base_index :: "u32 \<Rightarrow> u32 \<Rightarrow> u32" where
  "base_index max_count hash =
     (let base_div = (if max_count \<noteq> 0 then hash div max_count else 0)
      in hash - base_div * max_count)"

definition next_index :: "u32 \<Rightarrow> u32 \<Rightarrow> u32" where
  "next_index max_count i = (if i + 1 < max_count then i + 1 else 0)"

text \<open>The loop of both operations: the first entry with a hash, from \<open>i\<close> round to \<open>base\<close>.\<close>

partial_function (option) probe :: "u32 \<Rightarrow> hash_entry list \<Rightarrow> u32 \<Rightarrow> u32 \<Rightarrow> u32 \<Rightarrow> u32 option run" where
  "probe hash xs max_count base i =
     (case load xs (unat i) of
        Inl e \<Rightarrow> Some (Inl e)
      | Inr entry \<Rightarrow>
          if e_hash entry = hash then ret (Some i)
          else if next_index max_count i \<noteq> base then probe hash xs max_count base (next_index max_count i)
          else ret None)"

declare probe.simps [code]

text \<open>What \<open>AddEntry\<close> and \<open>TryGetParentByHash\<close> do to the array, for both classes.\<close>

definition take_entry :: "u32 \<Rightarrow> hash_entry list \<Rightarrow> u32 \<Rightarrow> (u32 \<times> hash_entry list) run" where
  "take_entry hash xs max_count =
     (let base = base_index max_count hash
      in bind_run (probe 0 xs max_count base base) (\<lambda>found.
         case found of
           None \<Rightarrow> Some (Inl Assert_Failed)
         | Some i \<Rightarrow> call (store xs (unat i) ((xs ! unat i)\<lparr>e_hash := hash\<rparr>)) (\<lambda>xs. ret (i, xs))))"

definition find_entry :: "u32 \<Rightarrow> hash_entry list \<Rightarrow> u32 \<Rightarrow> u32 option run" where
  "find_entry hash xs max_count = (let base = base_index max_count hash in probe hash xs max_count base base)"

fun clear_entries :: "nat \<Rightarrow> nat \<Rightarrow> hash_entry list \<Rightarrow> hash_entry list result" where
  "clear_entries i 0 xs = Inr xs"
| "clear_entries i (Suc n) xs =
     bind_result (load xs i) (\<lambda>entry.
       if e_hash entry = 0 then clear_entries (Suc i) n xs
       else bind_result (store xs i (entry\<lparr>e_hash := 0\<rparr>)) (clear_entries (Suc i) n))"

section \<open>HashMap and KeyIndexMap\<close>

record hash_map =
  m_count :: u32
  m_max :: u32
  m_array :: "hash_entry list option"

definition HashMap_construct :: hash_map where
  "HashMap_construct = \<lparr>m_count = 0, m_max = 0, m_array = None\<rparr>"

text \<open>\<open>memory\<close> is what \<open>new\<close> answers: null, or the entries as they lie there.\<close>

definition hm_Initialize :: "hash_entry list option \<Rightarrow> u32 \<Rightarrow> hash_map \<Rightarrow> hash_map result" where
  "hm_Initialize memory max_count H =
     bind_result (vp_assert (0 < max_count)) (\<lambda>_.
     bind_result (vp_assert (memory \<noteq> None)) (\<lambda>_.
     Inr (H\<lparr>m_array := memory, m_count := 0, m_max := max_count\<rparr>)))"

definition hm_Finalize :: "hash_map \<Rightarrow> hash_map" where
  "hm_Finalize H = H\<lparr>m_array := None, m_count := 0, m_max := 0\<rparr>"

definition hm_AddEntry :: "u32 \<Rightarrow> hash_map \<Rightarrow> (u32 \<times> hash_map) run" where
  "hm_AddEntry hash H =
     call (vp_assert (m_count H < m_max H)) (\<lambda>_.
     call (vp_assert (hash \<noteq> 0)) (\<lambda>_.
     call (hash_elements (m_array H)) (\<lambda>xs.
     bind_run (take_entry hash xs (m_max H)) (\<lambda>(i, xs). ret (i, H\<lparr>m_count := m_count H + 1, m_array := Some xs\<rparr>)))))"

definition hm_TryGetParentByHash :: "u32 \<Rightarrow> hash_map \<Rightarrow> u32 option run" where
  "hm_TryGetParentByHash hash H = call (hash_elements (m_array H)) (\<lambda>xs. find_entry hash xs (m_max H))"

definition hm_Clear :: "hash_map \<Rightarrow> hash_map result" where
  "hm_Clear H =
     (if m_max H = 0 then Inr (H\<lparr>m_count := 0\<rparr>)
      else
        bind_result (hash_elements (m_array H)) (\<lambda>xs.
        bind_result (clear_entries 0 (unat (m_max H)) xs) (\<lambda>xs. Inr (H\<lparr>m_array := Some xs, m_count := 0\<rparr>))))"

definition cInvalidIndex :: u32 where "cInvalidIndex = 0xffffffff"

text \<open>\<open>entry->index = index\<close> through the pointer that \<open>AddEntry\<close> answers.\<close>

definition kim_AddEntry :: "u32 \<Rightarrow> u32 \<Rightarrow> hash_map \<Rightarrow> hash_map run" where
  "kim_AddEntry hash index H =
     bind_run (hm_AddEntry hash H) (\<lambda>(i, H).
     call (hash_elements (m_array H)) (\<lambda>xs.
     call (load xs (unat i)) (\<lambda>entry.
     call (store xs (unat i) (entry\<lparr>e_index := index\<rparr>)) (\<lambda>xs. ret (H\<lparr>m_array := Some xs\<rparr>)))))"

definition kim_TryGetIndexByKey :: "u32 \<Rightarrow> hash_map \<Rightarrow> u32 run" where
  "kim_TryGetIndexByKey hash H =
     bind_run (hm_TryGetParentByHash hash H) (\<lambda>found.
       case found of
         None \<Rightarrow> ret cInvalidIndex
       | Some i \<Rightarrow> call (hash_elements (m_array H)) (\<lambda>xs. call (load xs (unat i)) (\<lambda>entry. ret (e_index entry))))"

definition kim_Initialize :: "hash_entry list option \<Rightarrow> u32 \<Rightarrow> hash_map \<Rightarrow> hash_map result" where
  "kim_Initialize = hm_Initialize"

definition kim_Finalize :: "hash_map \<Rightarrow> hash_map" where
  "kim_Finalize = hm_Finalize"

definition kim_Clear :: "hash_map \<Rightarrow> hash_map result" where
  "kim_Clear = hm_Clear"

section \<open>FixedHashMap and FixedKeyIndexMap\<close>

text \<open>\<open>Size\<close> is the template argument; the array lies in the map and its entries are zero.\<close>

record fixed_hash_map =
  f_count :: u32
  f_array :: "hash_entry list"

definition FixedHashMap_construct :: "u32 \<Rightarrow> fixed_hash_map" where
  "FixedHashMap_construct Size = \<lparr>f_count = 0, f_array = replicate (unat Size) \<lparr>e_hash = 0, e_index = 0\<rparr>\<rparr>"

definition fhm_AddEntry :: "u32 \<Rightarrow> u32 \<Rightarrow> fixed_hash_map \<Rightarrow> (u32 \<times> fixed_hash_map) run" where
  "fhm_AddEntry Size hash F =
     call (vp_assert (f_count F < Size)) (\<lambda>_.
     call (vp_assert (hash \<noteq> 0)) (\<lambda>_.
     bind_run (take_entry hash (f_array F) Size) (\<lambda>(i, xs). ret (i, F\<lparr>f_count := f_count F + 1, f_array := xs\<rparr>))))"

definition fhm_TryGetParentByHash :: "u32 \<Rightarrow> u32 \<Rightarrow> fixed_hash_map \<Rightarrow> u32 option run" where
  "fhm_TryGetParentByHash Size hash F = find_entry hash (f_array F) Size"

definition fhm_Clear :: "u32 \<Rightarrow> fixed_hash_map \<Rightarrow> fixed_hash_map result" where
  "fhm_Clear Size F = bind_result (clear_entries 0 (unat Size) (f_array F)) (\<lambda>xs. Inr (F\<lparr>f_array := xs, f_count := 0\<rparr>))"

definition fkim_AddEntry :: "u32 \<Rightarrow> u32 \<Rightarrow> u32 \<Rightarrow> fixed_hash_map \<Rightarrow> fixed_hash_map run" where
  "fkim_AddEntry Size hash index F =
     bind_run (fhm_AddEntry Size hash F) (\<lambda>(i, F).
     call (load (f_array F) (unat i)) (\<lambda>entry.
     call (store (f_array F) (unat i) (entry\<lparr>e_index := index\<rparr>)) (\<lambda>xs. ret (F\<lparr>f_array := xs\<rparr>))))"

definition fkim_TryGetIndexByKey :: "u32 \<Rightarrow> u32 \<Rightarrow> fixed_hash_map \<Rightarrow> u32 run" where
  "fkim_TryGetIndexByKey Size hash F =
     bind_run (fhm_TryGetParentByHash Size hash F) (\<lambda>found.
       case found of
         None \<Rightarrow> ret cInvalidIndex
       | Some i \<Rightarrow> call (load (f_array F) (unat i)) (\<lambda>entry. ret (e_index entry)))"

definition fkim_Clear :: "u32 \<Rightarrow> fixed_hash_map \<Rightarrow> fixed_hash_map result" where
  "fkim_Clear = fhm_Clear"

section \<open>Probing is a search in the rotated array\<close>

lemma base_index_mod:
  assumes "max_count \<noteq> 0"
  shows "unat (base_index max_count hash) = unat hash mod unat max_count"
proof -
  have "base_index max_count hash = hash mod max_count" using assms by (simp add: base_index_def minus_div_mult_eq_mod)
  then show ?thesis by (simp add: unat_mod)
qed

lemma unat_next_index:
  assumes "i < max_count"
  shows "unat (next_index max_count i) = (if Suc (unat i) < unat max_count then Suc (unat i) else 0)"
  using assms unat_Suc_less [OF assms] by (auto simp: next_index_def word_less_nat_alt)

text \<open>The entries from \<open>i\<close> round to \<open>base\<close>, the ones the loop still has to look at, by their indices.\<close>

definition round_from :: "nat \<Rightarrow> nat \<Rightarrow> nat \<Rightarrow> nat list" where
  "round_from n base i = (if base \<le> i then [i..<n] @ [0..<base] else [i..<base])"

lemma round_from_step:
  assumes "i < n" and "base < n"
  shows "round_from n base i = i # (let j = (if Suc i < n then Suc i else 0) in if j = base then [] else round_from n base j)"
proof -
  have "[i..<n] = i # [Suc i..<n]" using assms by (simp add: upt_conv_Cons)
  moreover have "[i..<base] = i # [Suc i..<base]" if "i < base" using that by (simp add: upt_conv_Cons)
  ultimately show ?thesis using assms by (auto simp: round_from_def Let_def not_le)
qed

lemma probe_finds:
  assumes "length xs = unat max_count" and "base < max_count"
  shows "i < max_count \<Longrightarrow> probe hash xs max_count base i =
    ret (map_option of_nat (find (\<lambda>k. e_hash (xs ! k) = hash) (round_from (unat max_count) (unat base) (unat i))))"
proof (induction "length (round_from (unat max_count) (unat base) (unat i))" arbitrary: i rule: less_induct)
  case less
  have b: "unat i < unat max_count" "unat base < unat max_count" using less.prems assms(2) by (simp_all add: word_less_nat_alt)
  define j where "j = next_index max_count i"
  have j: "unat j = (if Suc (unat i) < unat max_count then Suc (unat i) else 0)" unfolding j_def by (rule unat_next_index [OF less.prems])
  have jm: "j < max_count" using j b by (simp add: word_less_nat_alt)
  have step: "probe hash xs max_count base i = (if e_hash (xs ! unat i) = hash then ret (Some i)
    else if j = base then ret None else probe hash xs max_count base j)"
    using assms(1) b by (subst probe.simps) (simp add: j_def)
  have r: "round_from (unat max_count) (unat base) (unat i) = unat i # (if j = base then [] else round_from (unat max_count) (unat base) (unat j))"
    using round_from_step [OF b] j by (simp add: Let_def word_eq_unat_iff)
  then have IH: "probe hash xs max_count base j =
    ret (map_option of_nat (find (\<lambda>k. e_hash (xs ! k) = hash) (round_from (unat max_count) (unat base) (unat j))))" if "j \<noteq> base"
    using less.hyps [OF _ jm] that by simp
  show ?case using IH by (simp add: step r)
qed

definition slots_from :: "nat \<Rightarrow> nat \<Rightarrow> nat list" where
  "slots_from n base = [base..<n] @ [0..<base]"

lemma set_slots_from: "base < n \<Longrightarrow> set (slots_from n base) = {..<n}"
  by (auto simp: slots_from_def)

lemma distinct_slots_from: "distinct (slots_from n base)"
  by (auto simp: slots_from_def)

abbreviation entries_ok :: "hash_entry list \<Rightarrow> u32 \<Rightarrow> bool" where
  "entries_ok xs max_count \<equiv> length xs = unat max_count \<and> 0 < max_count"

definition probe_order :: "hash_entry list \<Rightarrow> u32 \<Rightarrow> nat list" where
  "probe_order xs hash = slots_from (length xs) (unat hash mod length xs)"

lemma set_probe_order: "xs \<noteq> [] \<Longrightarrow> set (probe_order xs hash) = {..<length xs}"
  by (simp add: probe_order_def set_slots_from)

lemma probe_from_base:
  assumes "entries_ok xs max_count"
  shows "probe h xs max_count (base_index max_count hash) (base_index max_count hash) =
    ret (map_option of_nat (find (\<lambda>k. e_hash (xs ! k) = h) (probe_order xs hash)))"
proof -
  have m: "unat (base_index max_count hash) = unat hash mod unat max_count" using assms by (intro base_index_mod) auto
  have "0 < unat max_count" using assms by (simp add: word_less_nat_alt)
  then have "base_index max_count hash < max_count" using m by (simp add: word_less_nat_alt)
  then show ?thesis using probe_finds [of xs max_count "base_index max_count hash" "base_index max_count hash" h] assms m
    by (simp add: round_from_def probe_order_def slots_from_def)
qed

section \<open>The map an array stands for\<close>

definition key_map :: "hash_entry list \<Rightarrow> u32 \<rightharpoonup> u32" where
  "key_map xs = (\<lambda>h. if h = 0 then None
     else map_option (\<lambda>k. e_index (xs ! k)) (find (\<lambda>k. e_hash (xs ! k) = h) (probe_order xs h)))"

text \<open>No free slot comes before an entry in the order in which its hash is probed.\<close>

definition probed :: "hash_entry list \<Rightarrow> bool" where
  "probed xs \<longleftrightarrow> (\<forall>k<length xs. e_hash (xs ! k) \<noteq> 0 \<longrightarrow>
     k \<in> set (takeWhile (\<lambda>k. e_hash (xs ! k) \<noteq> 0) (probe_order xs (e_hash (xs ! k)))))"

definition used_entries :: "hash_entry list \<Rightarrow> nat" where
  "used_entries xs = length (filter (\<lambda>e. e_hash e \<noteq> 0) xs)"

lemma find_splitI: "\<forall>a\<in>set as. \<not> P a \<Longrightarrow> P x \<Longrightarrow> find P (as @ x # bs) = Some x"
  by (induction as) auto

lemma find_splitE:
  assumes "find P xs = Some x"
  obtains as bs where "xs = as @ x # bs" and "\<forall>a\<in>set as. \<not> P a" and "P x"
proof -
  obtain i where i: "i < length xs" "P (xs ! i)" "x = xs ! i" "\<forall>j<i. \<not> P (xs ! j)" using assms by (auto simp: find_Some_iff)
  have "xs = take i xs @ x # drop (Suc i) xs" using i by (simp add: id_take_nth_drop)
  moreover have "\<forall>a\<in>set (take i xs). \<not> P a" using i by (auto simp: in_set_conv_nth)
  ultimately show thesis using that i by blast
qed

lemma takeWhile_before: "distinct (as @ x # bs) \<Longrightarrow> x \<in> set (takeWhile P (as @ x # bs)) \<longleftrightarrow> P x \<and> (\<forall>a\<in>set as. P a)"
proof (induction as)
  case Nil
  show ?case by (cases "P x") simp_all
next
  case (Cons a as)
  then show ?case by (cases "P a") auto
qed

lemma set_takeWhile_mono: "(\<And>x. x \<in> set xs \<Longrightarrow> P x \<Longrightarrow> Q x) \<Longrightarrow> set (takeWhile P xs) \<subseteq> set (takeWhile Q xs)"
  by (induction xs) auto

text \<open>The slot \<open>AddEntry\<close> takes.\<close>

lemma free_slot:
  assumes "entries_ok xs max_count" and "used_entries xs < length xs"
  obtains i where "take_entry hash xs max_count = ret (of_nat i, xs[i := (xs ! i)\<lparr>e_hash := hash\<rparr>])" and "i < length xs"
    and "e_hash (xs ! i) = 0" and "find (\<lambda>k. e_hash (xs ! k) = 0) (probe_order xs hash) = Some i"
proof -
  have "filter (\<lambda>e. e_hash e \<noteq> 0) xs \<noteq> xs" using assms(2) by (auto simp: used_entries_def)
  then obtain e where "e \<in> set xs" "e_hash e = 0" by (auto simp: filter_id_conv)
  then obtain k where k: "k < length xs" "e_hash (xs ! k) = 0" by (auto simp: in_set_conv_nth)
  then have "k \<in> set (probe_order xs hash)" using set_probe_order [of xs hash] k(1) by (cases xs) auto
  then have "find (\<lambda>k. e_hash (xs ! k) = 0) (probe_order xs hash) \<noteq> None" using k(2) by (auto simp: find_None_iff)
  then obtain i where i: "find (\<lambda>k. e_hash (xs ! k) = 0) (probe_order xs hash) = Some i" by blast
  then have "i \<in> set (probe_order xs hash)" "e_hash (xs ! i) = 0" by (auto elim: find_splitE)
  then have lt: "i < length xs" "e_hash (xs ! i) = 0" using set_probe_order [of xs hash] k by (cases xs; auto)+
  have "length xs < 2 ^ 32" using assms(1) by simp
  then have u: "unat (of_nat i :: u32) = i" using lt by (intro unat_of_nat_less) simp
  have "take_entry hash xs max_count = ret (of_nat i, xs[i := (xs ! i)\<lparr>e_hash := hash\<rparr>])"
    using probe_from_base [OF assms(1), of 0 hash] i u lt by (simp add: take_entry_def Let_def)
  then show thesis using that lt i by blast
qed

lemma used_entries_update:
  assumes "i < length xs" and "e_hash (xs ! i) = 0" and "e_hash e \<noteq> 0"
  shows "used_entries (xs[i := e]) = Suc (used_entries xs)"
proof -
  have split: "used_entries (as @ c # bs) = (if e_hash c = 0 then 0 else 1) + used_entries as + used_entries bs" for as bs c
    by (simp add: used_entries_def)
  have "used_entries xs = used_entries (take i xs @ xs ! i # drop (Suc i) xs)" using assms(1) by (simp add: id_take_nth_drop [symmetric])
  moreover have "used_entries (xs[i := e]) = used_entries (take i xs @ e # drop (Suc i) xs)" using assms(1) by (simp only: upd_conv_take_nth_drop)
  ultimately show ?thesis using assms(2,3) by (simp only: split) simp
qed

lemma add_to_array:
  assumes p: "probed xs" and i: "i < length xs" "e_hash (xs ! i) = 0" and h: "hash \<noteq> 0"
    and first: "find (\<lambda>k. e_hash (xs ! k) = 0) (probe_order xs hash) = Some i"
    and e: "e_hash e = hash" "e_index e = index"
  shows "probed (xs[i := e])"
    and "key_map (xs[i := e]) = (if key_map xs hash = None then (key_map xs)(hash \<mapsto> index) else key_map xs)"
proof -
  let ?ys = "xs[i := e]"
  have order: "probe_order ?ys h' = probe_order xs h'" for h' by (simp add: probe_order_def)
  have dist: "distinct (probe_order xs h')" for h' by (simp add: probe_order_def distinct_slots_from)
  have ne: "xs \<noteq> []" using i by auto
  have here: "k \<in> set (probe_order xs h')" if "k < length xs" for k h' using that set_probe_order [OF ne] by simp
  obtain as bs where sp: "probe_order xs hash = as @ i # bs" "\<forall>a\<in>set as. e_hash (xs ! a) \<noteq> 0" using first by (auto elim: find_splitE)
  have ia: "i \<notin> set as" using sp(1) dist [of hash] by auto
  show "probed ?ys"
    unfolding probed_def order
  proof (intro allI impI)
    fix k assume k: "k < length ?ys" "e_hash (?ys ! k) \<noteq> 0"
    show "k \<in> set (takeWhile (\<lambda>k. e_hash (?ys ! k) \<noteq> 0) (probe_order xs (e_hash (?ys ! k))))"
    proof (cases "k = i")
      case True
      have "\<forall>a\<in>set as. e_hash (?ys ! a) \<noteq> 0" using sp(2) ia by (metis nth_list_update_neq)
      then show ?thesis using takeWhile_before [of as i bs] dist [of hash] sp(1) True e(1) h i by simp
    next
      case False
      then have "k \<in> set (takeWhile (\<lambda>k. e_hash (xs ! k) \<noteq> 0) (probe_order xs (e_hash (xs ! k))))"
        using p k by (simp add: probed_def)
      moreover have "e_hash (?ys ! x) \<noteq> 0" if "e_hash (xs ! x) \<noteq> 0" for x using that e(1) h i by (cases "x = i") auto
      ultimately show ?thesis using False set_takeWhile_mono [of "probe_order xs (e_hash (xs ! k))"
          "\<lambda>k. e_hash (xs ! k) \<noteq> 0" "\<lambda>k. e_hash (?ys ! k) \<noteq> 0"] by auto
    qed
  qed
  have other: "key_map ?ys h' = key_map xs h'" if "h' \<noteq> hash" for h'
  proof (cases "h' = 0")
    case False
    have P: "e_hash (?ys ! k) = h' \<longleftrightarrow> e_hash (xs ! k) = h'" for k using False that e(1) i by (cases "k = i") auto
    have "e_index (?ys ! k) = e_index (xs ! k)" if "e_hash (xs ! k) = h'" for k using that False i(2) by (cases "k = i") auto
    then show ?thesis using False by (auto simp: key_map_def order P find_Some_iff intro!: option.map_cong)
  qed (simp add: key_map_def)
  have same: "key_map ?ys hash = (if key_map xs hash = None then Some index else key_map xs hash)"
  proof (cases "find (\<lambda>k. e_hash (xs ! k) = hash) (probe_order xs hash)")
    case None
    then have no: "e_hash (xs ! k) \<noteq> hash" if "k < length xs" for k using here [OF that] by (auto simp: find_None_iff)
    have "e_hash (?ys ! a) \<noteq> hash" if "a \<in> set as" for a
    proof -
      have "a \<in> {..<length xs}" using that sp(1) set_probe_order [OF ne, of hash] by auto
      then show ?thesis using no ia that by (metis lessThan_iff nth_list_update_neq)
    qed
    then have "find (\<lambda>k. e_hash (?ys ! k) = hash) (probe_order xs hash) = Some i"
      using sp(1) e(1) i(1) by (simp add: find_splitI)
    then show ?thesis using None h e(2) i(1) by (simp add: key_map_def order)
  next
    case (Some k)
    then obtain cs ds where cs: "probe_order xs hash = cs @ k # ds" "\<forall>a\<in>set cs. e_hash (xs ! a) \<noteq> hash" "e_hash (xs ! k) = hash"
      by (auto elim: find_splitE)
    have "k < length xs" using cs(1) set_probe_order [OF ne, of hash] by auto
    then have "k \<in> set (takeWhile (\<lambda>k. e_hash (xs ! k) \<noteq> 0) (probe_order xs hash))" using p cs(3) h by (auto simp: probed_def)
    then have "\<forall>a\<in>set cs. e_hash (xs ! a) \<noteq> 0" using takeWhile_before [of cs k ds] dist [of hash] cs(1) by simp
    then have "i \<notin> set cs" "k \<noteq> i" using i(2) cs(3) h by auto
    then have "\<forall>a\<in>set cs. e_hash (?ys ! a) \<noteq> hash" "e_hash (?ys ! k) = hash" using cs(2,3) by (metis nth_list_update_neq)+
    then have "find (\<lambda>k. e_hash (?ys ! k) = hash) (probe_order xs hash) = Some k" using cs(1) by (simp add: find_splitI)
    then show ?thesis using Some h \<open>k \<noteq> i\<close> by (simp add: key_map_def order)
  qed
  show "key_map ?ys = (if key_map xs hash = None then (key_map xs)(hash \<mapsto> index) else key_map xs)"
  proof
    fix h'
    show "key_map ?ys h' = (if key_map xs hash = None then (key_map xs)(hash \<mapsto> index) else key_map xs) h'"
      using other [of h'] same by (cases "h' = hash") auto
  qed
qed

lemma find_entry_map:
  assumes "entries_ok xs max_count" and "hash \<noteq> 0"
  shows "if key_map xs hash = None then find_entry hash xs max_count = ret None
    else \<exists>i<length xs. find_entry hash xs max_count = ret (Some (of_nat i)) \<and> key_map xs hash = Some (e_index (xs ! i))"
proof -
  have ne: "xs \<noteq> []" using assms(1) by (auto simp: word_less_nat_alt)
  have "i < length xs" if "find (\<lambda>k. e_hash (xs ! k) = hash) (probe_order xs hash) = Some i" for i
    using that set_probe_order [OF ne, of hash] by (auto elim!: find_splitE)
  then show ?thesis using probe_from_base [OF assms(1), of hash hash] assms(2)
    by (cases "find (\<lambda>k. e_hash (xs ! k) = hash) (probe_order xs hash)") (auto simp: find_entry_def Let_def key_map_def)
qed

section \<open>The contract\<close>

text \<open>
  A map from keys to indices as its clients use it: a key that is there already keeps its index, and an entry
  takes room either way.
\<close>

fun add_entries :: "(u32 \<Rightarrow> u32 \<Rightarrow> 's \<Rightarrow> 's run) \<Rightarrow> (u32 \<times> u32) list \<Rightarrow> 's \<Rightarrow> 's run" where
  "add_entries add [] s = ret s"
| "add_entries add ((h, v) # ps) s = bind_run (add h v s) (add_entries add ps)"

locale key_indices =
  fixes ok :: "'s \<Rightarrow> bool" and contents :: "'s \<Rightarrow> u32 \<rightharpoonup> u32" and room :: "'s \<Rightarrow> nat"
    and add :: "u32 \<Rightarrow> u32 \<Rightarrow> 's \<Rightarrow> 's run" and lookup :: "u32 \<Rightarrow> 's \<Rightarrow> u32 run"
  assumes add_entry: "ok s \<Longrightarrow> h \<noteq> 0 \<Longrightarrow> 0 < room s \<Longrightarrow> \<exists>s'. add h v s = ret s' \<and> ok s' \<and> room s = Suc (room s') \<and>
      contents s' = (if contents s h = None then (contents s)(h \<mapsto> v) else contents s)"
    and add_refused: "ok s \<Longrightarrow> h = 0 \<or> room s = 0 \<Longrightarrow> add h v s = Some (Inl Assert_Failed)"
    and lookup_entry: "ok s \<Longrightarrow> h \<noteq> 0 \<Longrightarrow> lookup h s = ret (case contents s h of None \<Rightarrow> cInvalidIndex | Some v \<Rightarrow> v)"
begin

lemma add_entries_contents:
  "ok s \<Longrightarrow> 0 \<notin> fst ` set ps \<Longrightarrow> length ps \<le> room s \<Longrightarrow>
    \<exists>s'. add_entries add ps s = ret s' \<and> ok s' \<and> room s = room s' + length ps \<and> contents s' = map_of ps ++ contents s"
proof (induction ps arbitrary: s)
  case (Cons p ps)
  obtain h v where p: "p = (h, v)" by (cases p)
  obtain s1 where s1: "add h v s = ret s1" "ok s1" "room s = Suc (room s1)"
    "contents s1 = (if contents s h = None then (contents s)(h \<mapsto> v) else contents s)"
    using add_entry [of s h v] Cons.prems p by auto
  obtain s2 where s2: "add_entries add ps s1 = ret s2" "ok s2" "room s1 = room s2 + length ps" "contents s2 = map_of ps ++ contents s1"
    using Cons.IH [OF s1(2)] Cons.prems s1(3) by auto
  have "contents s2 = map_of (p # ps) ++ contents s"
    using s2(4) s1(4) p by (auto simp: map_add_def fun_eq_iff split: option.splits)
  then show ?case using s1(1,3) s2(1-3) p by (intro exI [of _ s2]) (simp del: map_of.simps)
qed simp

text \<open>Entries added to an empty map: the first one of each key is found, nothing else, and a full map refuses.\<close>

lemma first_wins:
  assumes "ok s" and "contents s = Map.empty" and "0 \<notin> fst ` set ps" and "length ps \<le> room s"
  shows "\<exists>s'. add_entries add ps s = ret s' \<and>
    (\<forall>h. h \<noteq> 0 \<longrightarrow> lookup h s' = ret (case map_of ps h of None \<Rightarrow> cInvalidIndex | Some v \<Rightarrow> v)) \<and>
    (\<forall>h v. h = 0 \<or> length ps = room s \<longrightarrow> add h v s' = Some (Inl Assert_Failed))"
proof -
  obtain s' where s': "add_entries add ps s = ret s'" "ok s'" "room s = room s' + length ps" "contents s' = map_of ps"
    using add_entries_contents [OF assms(1,3,4)] assms(2) by auto
  have "add h v s' = Some (Inl Assert_Failed)" if "h = 0 \<or> length ps = room s" for h v
    using add_refused [OF s'(2)] that s'(3) by auto
  then show ?thesis using s' lookup_entry [OF s'(2)] by auto
qed

end

section \<open>The maps keep the contract\<close>

definition hm_ok :: "hash_map \<Rightarrow> bool" where
  "hm_ok H \<longleftrightarrow> (\<exists>xs. m_array H = Some xs \<and> entries_ok xs (m_max H) \<and> probed xs \<and> used_entries xs = unat (m_count H))"

definition fhm_ok :: "u32 \<Rightarrow> fixed_hash_map \<Rightarrow> bool" where
  "fhm_ok Size F \<longleftrightarrow> entries_ok (f_array F) Size \<and> probed (f_array F) \<and> used_entries (f_array F) = unat (f_count F)"

lemma used_entries_le: "used_entries xs \<le> length xs"
  by (simp add: used_entries_def)

lemma add_to_entries:
  assumes "entries_ok xs max_count" and "probed xs" and "used_entries xs < length xs" and "hash \<noteq> 0"
  obtains i where "take_entry hash xs max_count = ret (of_nat i, xs[i := (xs ! i)\<lparr>e_hash := hash\<rparr>])" and "i < length xs" and "unat (of_nat i :: u32) = i"
    and "probed (xs[i := (xs ! i)\<lparr>e_hash := hash, e_index := index\<rparr>])"
    and "used_entries (xs[i := (xs ! i)\<lparr>e_hash := hash, e_index := index\<rparr>]) = Suc (used_entries xs)"
    and "key_map (xs[i := (xs ! i)\<lparr>e_hash := hash, e_index := index\<rparr>]) = (if key_map xs hash = None then (key_map xs)(hash \<mapsto> index) else key_map xs)"
proof -
  obtain i where i: "take_entry hash xs max_count = ret (of_nat i, xs[i := (xs ! i)\<lparr>e_hash := hash\<rparr>])" "i < length xs" "e_hash (xs ! i) = 0"
    "find (\<lambda>k. e_hash (xs ! k) = 0) (probe_order xs hash) = Some i"
    by (rule free_slot [OF assms(1,3)])
  have "length xs < 2 ^ 32" using assms(1) by simp
  then have "unat (of_nat i :: u32) = i" using i(2) by (intro unat_of_nat_less) simp
  then show thesis
    using that [OF i(1,2)] add_to_array [OF assms(2) i(2,3) assms(4) i(4)] used_entries_update [OF i(2,3)] assms(4) by simp
qed

lemma lookup_entries:
  assumes "entries_ok xs max_count" and "hash \<noteq> 0"
  obtains "key_map xs hash = None" and "find_entry hash xs max_count = ret None"
    | i where "key_map xs hash = Some (e_index (xs ! unat i))" and "find_entry hash xs max_count = ret (Some i)" and "unat i < length xs"
proof -
  have "length xs < 2 ^ 32" using assms(1) by simp
  then have "unat (of_nat i :: u32) = i" if "i < length xs" for i using that by (intro unat_of_nat_less) simp
  note u = this
  show thesis
  proof (cases "key_map xs hash = None")
    case True
    then show thesis using find_entry_map [OF assms] that(1) by simp
  next
    case False
    then obtain i where "i < length xs" "find_entry hash xs max_count = ret (Some (of_nat i))" "key_map xs hash = Some (e_index (xs ! i))"
      using find_entry_map [OF assms] by auto
    then show thesis using that(2) [of "of_nat i"] u by simp
  qed
qed

lemma unat_count_Suc: "used_entries xs = unat c \<Longrightarrow> unat c < unat n \<Longrightarrow> unat (c + 1) = Suc (unat c)" for c n :: u32
  using unat_Suc_less [of c n] by (simp add: word_less_nat_alt)

interpretation kim: key_indices hm_ok "\<lambda>H. key_map (the (m_array H))" "\<lambda>H. unat (m_max H) - unat (m_count H)" kim_AddEntry kim_TryGetIndexByKey
proof unfold_locales
  fix H :: hash_map and h v :: u32 assume ok: "hm_ok H" and h: "h \<noteq> 0" and r: "0 < unat (m_max H) - unat (m_count H)"
  obtain xs where xs: "m_array H = Some xs" "entries_ok xs (m_max H)" "probed xs" "used_entries xs = unat (m_count H)" using ok by (auto simp: hm_ok_def)
  have u: "used_entries xs < length xs" "m_count H < m_max H" "unat (m_count H + 1) = Suc (unat (m_count H))"
    using xs r unat_count_Suc [OF xs(4)] by (auto simp: word_less_nat_alt)
  obtain i where i: "take_entry h xs (m_max H) = ret (of_nat i, xs[i := (xs ! i)\<lparr>e_hash := h\<rparr>])" "i < length xs" "unat (of_nat i :: u32) = i"
    "probed (xs[i := (xs ! i)\<lparr>e_hash := h, e_index := v\<rparr>])" "used_entries (xs[i := (xs ! i)\<lparr>e_hash := h, e_index := v\<rparr>]) = Suc (used_entries xs)"
    "key_map (xs[i := (xs ! i)\<lparr>e_hash := h, e_index := v\<rparr>]) = (if key_map xs h = None then (key_map xs)(h \<mapsto> v) else key_map xs)"
    using add_to_entries [OF xs(2,3) u(1) h, where index = v] by metis
  let ?H = "H\<lparr>m_count := m_count H + 1, m_array := Some (xs[i := (xs ! i)\<lparr>e_hash := h, e_index := v\<rparr>])\<rparr>"
  have "kim_AddEntry h v H = ret ?H"
    using i(1-3) u(2) h xs(1) by (simp add: kim_AddEntry_def hm_AddEntry_def hash_elements_def)
  moreover have "hm_ok ?H" using xs(2,4) i(4,5) u(3) by (simp add: hm_ok_def)
  ultimately show "\<exists>s'. kim_AddEntry h v H = ret s' \<and> hm_ok s' \<and> unat (m_max H) - unat (m_count H) = Suc (unat (m_max s') - unat (m_count s')) \<and>
      key_map (the (m_array s')) = (if key_map (the (m_array H)) h = None then (key_map (the (m_array H)))(h \<mapsto> v) else key_map (the (m_array H)))"
    using i(6) u(3) xs(1) r by (intro exI [of _ ?H]) (simp add: Suc_diff_Suc)
next
  fix H :: hash_map and h v :: u32 assume "hm_ok H" and r: "h = 0 \<or> unat (m_max H) - unat (m_count H) = 0"
  then have "\<not> m_count H < m_max H \<or> h = 0" by (auto simp: word_less_nat_alt)
  then show "kim_AddEntry h v H = Some (Inl Assert_Failed)" by (auto simp: kim_AddEntry_def hm_AddEntry_def vp_assert_def)
next
  fix H :: hash_map and h :: u32 assume ok: "hm_ok H" and h: "h \<noteq> 0"
  obtain xs where xs: "m_array H = Some xs" "entries_ok xs (m_max H)" using ok by (auto simp: hm_ok_def)
  show "kim_TryGetIndexByKey h H = ret (case key_map (the (m_array H)) h of None \<Rightarrow> cInvalidIndex | Some v \<Rightarrow> v)"
    using xs(1) by (cases rule: lookup_entries [OF xs(2) h])
      (simp_all add: kim_TryGetIndexByKey_def hm_TryGetParentByHash_def hash_elements_def)
qed

interpretation fkim: key_indices "fhm_ok Size" "\<lambda>F. key_map (f_array F)" "\<lambda>F. unat Size - unat (f_count F)"
  "fkim_AddEntry Size" "fkim_TryGetIndexByKey Size" for Size
proof unfold_locales
  fix F :: fixed_hash_map and h v :: u32 assume ok: "fhm_ok Size F" and h: "h \<noteq> 0" and r: "0 < unat Size - unat (f_count F)"
  have xs: "entries_ok (f_array F) Size" "probed (f_array F)" "used_entries (f_array F) = unat (f_count F)" using ok by (simp_all add: fhm_ok_def)
  have u: "used_entries (f_array F) < length (f_array F)" "f_count F < Size" "unat (f_count F + 1) = Suc (unat (f_count F))"
    using xs r unat_count_Suc [OF xs(3)] by (auto simp: word_less_nat_alt)
  let ?xs = "f_array F"
  obtain i where i: "take_entry h ?xs Size = ret (of_nat i, ?xs[i := (?xs ! i)\<lparr>e_hash := h\<rparr>])" "i < length ?xs" "unat (of_nat i :: u32) = i"
    "probed (?xs[i := (?xs ! i)\<lparr>e_hash := h, e_index := v\<rparr>])" "used_entries (?xs[i := (?xs ! i)\<lparr>e_hash := h, e_index := v\<rparr>]) = Suc (used_entries ?xs)"
    "key_map (?xs[i := (?xs ! i)\<lparr>e_hash := h, e_index := v\<rparr>]) = (if key_map ?xs h = None then (key_map ?xs)(h \<mapsto> v) else key_map ?xs)"
    using add_to_entries [OF xs(1,2) u(1) h, where index = v] by metis
  let ?F = "F\<lparr>f_count := f_count F + 1, f_array := ?xs[i := (?xs ! i)\<lparr>e_hash := h, e_index := v\<rparr>]\<rparr>"
  have "fkim_AddEntry Size h v F = ret ?F" using i(1-3) u(2) h by (simp add: fkim_AddEntry_def fhm_AddEntry_def)
  moreover have "fhm_ok Size ?F" using xs(1,3) i(4,5) u(3) by (simp add: fhm_ok_def)
  ultimately show "\<exists>s'. fkim_AddEntry Size h v F = ret s' \<and> fhm_ok Size s' \<and> unat Size - unat (f_count F) = Suc (unat Size - unat (f_count s')) \<and>
      key_map (f_array s') = (if key_map (f_array F) h = None then (key_map (f_array F))(h \<mapsto> v) else key_map (f_array F))"
    using i(6) u(3) r by (intro exI [of _ ?F]) (simp add: Suc_diff_Suc)
next
  fix F :: fixed_hash_map and h v :: u32 assume "fhm_ok Size F" and r: "h = 0 \<or> unat Size - unat (f_count F) = 0"
  then have "\<not> f_count F < Size \<or> h = 0" by (auto simp: word_less_nat_alt)
  then show "fkim_AddEntry Size h v F = Some (Inl Assert_Failed)" by (auto simp: fkim_AddEntry_def fhm_AddEntry_def vp_assert_def)
next
  fix F :: fixed_hash_map and h :: u32 assume ok: "fhm_ok Size F" and h: "h \<noteq> 0"
  then have xs: "entries_ok (f_array F) Size" by (simp add: fhm_ok_def)
  show "fkim_TryGetIndexByKey Size h F = ret (case key_map (f_array F) h of None \<Rightarrow> cInvalidIndex | Some v \<Rightarrow> v)"
    by (cases rule: lookup_entries [OF xs h]) (simp_all add: fkim_TryGetIndexByKey_def fhm_TryGetParentByHash_def)
qed

section \<open>Clearing\<close>

lemma clear_entries_spec:
  "i + n \<le> length xs \<Longrightarrow> \<exists>ys. clear_entries i n xs = Inr ys \<and> length ys = length xs \<and>
    (\<forall>k<length xs. e_hash (ys ! k) = (if i \<le> k \<and> k < i + n then 0 else e_hash (xs ! k)))"
proof (induction n arbitrary: i xs)
  case (Suc n)
  have i: "i < length xs" using Suc.prems by simp
  define zs where "zs = (if e_hash (xs ! i) = 0 then xs else xs[i := (xs ! i)\<lparr>e_hash := 0\<rparr>])"
  have zs: "length zs = length xs" "clear_entries i (Suc n) xs = clear_entries (Suc i) n zs" using i by (simp_all add: zs_def)
  have z: "e_hash (zs ! k) = (if k = i then 0 else e_hash (xs ! k))" if "k < length xs" for k using that i by (auto simp: zs_def)
  have "Suc i + n \<le> length zs" using Suc.prems zs by simp
  then obtain ys where "clear_entries (Suc i) n zs = Inr ys" "length ys = length zs"
    "\<forall>k<length zs. e_hash (ys ! k) = (if Suc i \<le> k \<and> k < Suc i + n then 0 else e_hash (zs ! k))" using Suc.IH [of "Suc i" zs] by blast
  then show ?case using z zs by (intro exI [of _ ys]) auto
qed auto

lemma cleared:
  assumes "\<forall>k<length xs. e_hash (xs ! k) = 0" and "xs \<noteq> []"
  shows "probed xs" and "used_entries xs = 0" and "key_map xs = Map.empty"
proof -
  show "probed xs" using assms by (simp add: probed_def)
  show "used_entries xs = 0" using assms by (auto simp: used_entries_def filter_empty_conv in_set_conv_nth)
  show "key_map xs = Map.empty"
  proof
    fix h
    have "find (\<lambda>k. e_hash (xs ! k) = h) (probe_order xs h) = None" if "h \<noteq> 0" using assms(1) that set_probe_order [OF assms(2), of h] by (auto simp: find_None_iff)
    then show "key_map xs h = None" by (simp add: key_map_def)
  qed
qed

text \<open>A new map over any memory is empty once it is cleared.\<close>

lemma initialized_map:
  assumes "0 < n" and "length xs = unat n"
  shows "\<exists>H H'. hm_Initialize (Some xs) n H0 = Inr H \<and> hm_Clear H = Inr H' \<and> hm_ok H' \<and> m_max H' = n \<and> m_count H' = 0 \<and>
    key_map (the (m_array H')) = Map.empty"
proof -
  define H where "H = H0\<lparr>m_array := Some xs, m_count := 0, m_max := n\<rparr>"
  obtain ys where ys: "clear_entries 0 (unat n) xs = Inr ys" "length ys = length xs" "\<forall>k<length xs. e_hash (ys ! k) = 0"
    using clear_entries_spec [of 0 "unat n" xs] assms(2) by auto
  have "n \<noteq> 0" using assms(1) by auto
  then have "hm_Clear H = Inr (H\<lparr>m_array := Some ys, m_count := 0\<rparr>)" using ys(1) by (simp add: hm_Clear_def H_def hash_elements_def)
  moreover have "ys \<noteq> []" using assms ys(2) by (auto simp: word_less_nat_alt)
  ultimately show ?thesis using assms ys(2,3) cleared [of ys]
    by (intro exI [of _ H] exI [of _ "H\<lparr>m_array := Some ys, m_count := 0\<rparr>"]) (simp add: hm_Initialize_def H_def hm_ok_def)
qed

lemma constructed_fixed_map:
  assumes "0 < Size"
  shows "fhm_ok Size (FixedHashMap_construct Size) \<and> f_count (FixedHashMap_construct Size) = 0 \<and> key_map (f_array (FixedHashMap_construct Size)) = Map.empty"
proof -
  have "unat Size \<noteq> 0" using assms by (simp add: word_less_nat_alt)
  then show ?thesis
    using assms cleared [of "replicate (unat Size) \<lparr>e_hash = 0, e_index = 0\<rparr>"] by (simp add: FixedHashMap_construct_def fhm_ok_def)
qed

text \<open>
  A map that is not cleared finds what lies in the memory: an entry that was never added, and no room for one.
\<close>

lemma uninitialized_map:
  assumes "hm_Initialize (Some [\<lparr>e_hash = 5, e_index = 7\<rparr>]) 1 HashMap_construct = Inr H"
  shows "kim_TryGetIndexByKey 5 H = ret 7 \<and> m_count H = 0 \<and> kim_AddEntry 6 1 H = Some (Inl Assert_Failed)"
proof -
  have H: "H = \<lparr>m_count = 0, m_max = 1, m_array = Some [\<lparr>e_hash = 5, e_index = 7\<rparr>]\<rparr>"
    using assms by (simp add: hm_Initialize_def HashMap_construct_def)
  have p: "probe h [\<lparr>e_hash = 5, e_index = 7\<rparr>] 1 0 0 = ret (if h = 5 then Some 0 else None)" for h
    by (subst probe.simps) (auto simp: load_def next_index_def)
  have b: "base_index 1 h = 0" for h by (simp add: base_index_def)
  show ?thesis using p [of 5] p [of 0]
    by (simp add: H kim_TryGetIndexByKey_def hm_TryGetParentByHash_def find_entry_def hash_elements_def kim_AddEntry_def hm_AddEntry_def take_entry_def b)
qed

text \<open>The key 0 is found in every map that is not full: the answer is the index of a free entry.\<close>

lemma key_zero_found:
  assumes "hm_ok H" and "m_count H < m_max H"
  shows "\<exists>i. hm_TryGetParentByHash 0 H = ret (Some i)"
proof -
  obtain xs where xs: "m_array H = Some xs" "entries_ok xs (m_max H)" "used_entries xs = unat (m_count H)" using assms(1) by (auto simp: hm_ok_def)
  have "used_entries xs < length xs" using xs assms(2) by (simp add: word_less_nat_alt)
  from free_slot [OF xs(2) this, of 0] obtain i where "find (\<lambda>k. e_hash (xs ! k) = 0) (probe_order xs 0) = Some i" by metis
  then show ?thesis using probe_from_base [OF xs(2), of 0 0] xs(1) by (simp add: hm_TryGetParentByHash_def hash_elements_def find_entry_def)
qed

section \<open>The maps\<close>

text \<open>
  C18: A key index map is a map from keys to indices.  On a cleared \<open>KeyIndexMap\<close> of \<open>n\<close> entries, over any
  memory, and on a new \<open>FixedKeyIndexMap\<close>, adding up to \<open>n\<close> entries with keys other than 0 returns;
  afterwards every key but 0 has the index it was added with first, or the invalid index when it was not
  added; the key 0 and, once the map is full, every further entry fail an assertion.
\<close>

theorem key_index_maps:
  assumes "0 < n" and "length xs = unat n" and "0 \<notin> fst ` set ps" and "length ps \<le> unat n"
  shows "(\<exists>H H' H''. kim_Initialize (Some xs) n H0 = Inr H \<and> kim_Clear H = Inr H' \<and> add_entries kim_AddEntry ps H' = ret H'' \<and>
      (\<forall>h. h \<noteq> 0 \<longrightarrow> kim_TryGetIndexByKey h H'' = ret (case map_of ps h of None \<Rightarrow> cInvalidIndex | Some v \<Rightarrow> v)) \<and>
      (\<forall>h v. h = 0 \<or> length ps = unat n \<longrightarrow> kim_AddEntry h v H'' = Some (Inl Assert_Failed))) \<and>
    (\<exists>F. add_entries (fkim_AddEntry n) ps (FixedHashMap_construct n) = ret F \<and>
      (\<forall>h. h \<noteq> 0 \<longrightarrow> fkim_TryGetIndexByKey n h F = ret (case map_of ps h of None \<Rightarrow> cInvalidIndex | Some v \<Rightarrow> v)) \<and>
      (\<forall>h v. h = 0 \<or> length ps = unat n \<longrightarrow> fkim_AddEntry n h v F = Some (Inl Assert_Failed)))"
proof (rule conjI)
  obtain H H' where H: "hm_Initialize (Some xs) n H0 = Inr H" "hm_Clear H = Inr H'" "hm_ok H'" "m_max H' = n" "m_count H' = 0"
    "key_map (the (m_array H')) = Map.empty" using initialized_map [OF assms(1,2)] by blast
  then show "\<exists>H H' H''. kim_Initialize (Some xs) n H0 = Inr H \<and> kim_Clear H = Inr H' \<and> add_entries kim_AddEntry ps H' = ret H'' \<and>
      (\<forall>h. h \<noteq> 0 \<longrightarrow> kim_TryGetIndexByKey h H'' = ret (case map_of ps h of None \<Rightarrow> cInvalidIndex | Some v \<Rightarrow> v)) \<and>
      (\<forall>h v. h = 0 \<or> length ps = unat n \<longrightarrow> kim_AddEntry h v H'' = Some (Inl Assert_Failed))"
    using kim.first_wins [OF H(3,6) assms(3)] assms(4) by (simp add: kim_Initialize_def kim_Clear_def)
  show "\<exists>F. add_entries (fkim_AddEntry n) ps (FixedHashMap_construct n) = ret F \<and>
      (\<forall>h. h \<noteq> 0 \<longrightarrow> fkim_TryGetIndexByKey n h F = ret (case map_of ps h of None \<Rightarrow> cInvalidIndex | Some v \<Rightarrow> v)) \<and>
      (\<forall>h v. h = 0 \<or> length ps = unat n \<longrightarrow> fkim_AddEntry n h v F = Some (Inl Assert_Failed))"
    using fkim.first_wins [of n "FixedHashMap_construct n" ps] constructed_fixed_map [OF assms(1)] assms(3,4) by simp
qed

theorem key_index_maps_witness:
  "\<exists>F. add_entries (fkim_AddEntry 2) [(4, 10), (6, 11)] (FixedHashMap_construct 2) = ret F \<and> fkim_TryGetIndexByKey 2 6 F = ret 11 \<and>
     fkim_TryGetIndexByKey 2 8 F = ret cInvalidIndex \<and> fkim_AddEntry 2 8 12 F = Some (Inl Assert_Failed)"
proof -
  obtain F where F: "add_entries (fkim_AddEntry 2) [(4, 10), (6, 11)] (FixedHashMap_construct 2) = ret F"
    "\<And>h. h \<noteq> 0 \<Longrightarrow> fkim_TryGetIndexByKey 2 h F = ret (case map_of [(4, 10), (6, 11)] h of None \<Rightarrow> cInvalidIndex | Some v \<Rightarrow> v)"
    "\<And>h v. fkim_AddEntry 2 h v F = Some (Inl Assert_Failed)"
    using key_index_maps [of 2 "replicate 2 \<lparr>e_hash = 1, e_index = 1\<rparr>" "[(4, 10), (6, 11)]" undefined] by auto
  show ?thesis using F(1) F(2) [of 6] F(2) [of 8] F(3) by (intro exI [of _ F]) simp
qed

end
