(* ===== verification/Async_Queue.thy ===== *)
theory Async_Queue
  imports Intrusive_List Run
begin

text \<open>
  \<open>AsyncQueue\<close> and \<open>AsyncTask\<close> (\<open>async_asyncqueue\<close>, \<open>async_asynctask\<close>): tasks wait in one intrusive list, each
  priority level knows the first of its tasks in it.  A task is named by the address of its list node, a
  thread of the queue by its index in \<open>m_task_thread_array\<close>.  What happens under \<open>m_queue_mutex\<close> is one
  operation; events are their signal state.  \<open>'f\<close> are the user's functions: the queue keeps the list of their
  calls with what they are called with, and the answer of a result function is an argument.  The virtual
  functions are those of \<open>AsyncTask\<close> itself: \<open>Execute\<close> calls the task function, the others are empty.
\<close>

section \<open>Tasks and queue\<close>

datatype async_status = Uninitialized | Cancelled | ForceCancelled | Queued | Acquired | FreeExecute | PostExecute | Complete

record 'f async_task =
  t_priority :: u32
  t_is_signal_finish_event :: bool
  t_is_cancelled :: bool
  t_is_free_for_allocator :: bool
  t_status :: async_status
  t_has_queue :: bool
  t_queue_thread :: "nat option"
  t_task_function :: "'f option"
  t_result_function :: "'f option"
  t_cancel_function :: "'f option"
  t_user_data :: u64
  t_finish_event :: bool

definition AsyncTask_construct :: "'f async_task" where
  "AsyncTask_construct = \<lparr>t_priority = 0, t_is_signal_finish_event = False, t_is_cancelled = False, t_is_free_for_allocator = False,
     t_status = Uninitialized, t_has_queue = False, t_queue_thread = None, t_task_function = None, t_result_function = None,
     t_cancel_function = None, t_user_data = 0, t_finish_event = False\<rparr>"

record 'p priority_level =
  is_paused :: bool
  async_task_head :: "'p option"
  priority_cleared_event :: bool

datatype thread_status = None_Status | Finished_Status | Suspended_Status | Active_Status

record 'p async_thread =
  m_status :: thread_status
  m_is_finished :: bool
  m_is_suspended :: bool
  m_current_task :: "'p option"
  m_execute_event :: bool
  m_suspend_event :: bool

text \<open>The calls of the user's functions: the task, the function and what is handed to it.\<close>

datatype ('p, 'f) async_call =
  Task_Call 'p 'f u64
| Result_Call 'p 'f u64 bool
| Cancel_Call 'p 'f u64

record ('p, 'f) async_queue =
  m_tasks :: "'p \<Rightarrow> 'f async_task"
  m_links :: "'p links"
  m_task_list :: 'p
  m_task_count :: u32
  m_priority_level_array :: "'p priority_level list"
  m_task_thread_array :: "'p async_thread list"
  m_all_task_complete_event :: bool
  m_calls :: "('p, 'f) async_call list"

definition upd_task :: "'p \<Rightarrow> ('f async_task \<Rightarrow> 'f async_task) \<Rightarrow> ('p, 'f) async_queue \<Rightarrow> ('p, 'f) async_queue" where
  "upd_task t u q = q\<lparr>m_tasks := (m_tasks q)(t := u (m_tasks q t))\<rparr>"

definition called :: "('p, 'f) async_call list \<Rightarrow> ('p, 'f) async_queue \<Rightarrow> ('p, 'f) async_queue" where
  "called calls q = q\<lparr>m_calls := m_calls q @ calls\<rparr>"

text \<open>\<open>m_priority_level_array[i]\<close>: the array asserts the range.\<close>

definition level_at :: "u32 \<Rightarrow> ('p, 'f) async_queue \<Rightarrow> 'p priority_level result" where
  "level_at i q = bind_result (vp_assert (unat i < length (m_priority_level_array q))) (\<lambda>_. load (m_priority_level_array q) (unat i))"

definition upd_level :: "u32 \<Rightarrow> ('p priority_level \<Rightarrow> 'p priority_level) \<Rightarrow> ('p, 'f) async_queue \<Rightarrow> ('p, 'f) async_queue result" where
  "upd_level i u q =
     bind_result (level_at i q) (\<lambda>l. Inr (q\<lparr>m_priority_level_array := (m_priority_level_array q)[unat i := u l]\<rparr>))"

definition upd_thread :: "nat \<Rightarrow> ('p async_thread \<Rightarrow> 'p async_thread) \<Rightarrow> ('p, 'f) async_queue \<Rightarrow> ('p, 'f) async_queue" where
  "upd_thread i u q = q\<lparr>m_task_thread_array := (m_task_thread_array q)[i := u (m_task_thread_array q ! i)]\<rparr>"

text \<open>The queue over given tasks after \<open>Initialize\<close>; the threads add themselves when they are constructed.\<close>

definition AsyncQueue_Initialize ::
  "u32 \<Rightarrow> u32 \<Rightarrow> 'p \<Rightarrow> 'p links \<Rightarrow> ('p \<Rightarrow> 'f async_task) \<Rightarrow> ('p, 'f) async_queue result" where
  "AsyncQueue_Initialize priority_level_count queue_thread_count list_node links tasks =
     bind_result (vp_assert (0 < priority_level_count)) (\<lambda>_.
     bind_result (vp_assert (0 < queue_thread_count)) (\<lambda>_.
     Inr \<lparr>m_tasks = tasks, m_links = construct_node list_node links, m_task_list = list_node, m_task_count = 0,
       m_priority_level_array = replicate (unat priority_level_count) \<lparr>is_paused = False, async_task_head = None, priority_cleared_event = True\<rparr>,
       m_task_thread_array = [], m_all_task_complete_event = False, m_calls = []\<rparr>))"

text \<open>The constructor leaves \<open>m_is_suspended\<close> as the memory has it: \<open>suspended\<close>.\<close>

definition AsyncQueueThread_construct :: "bool \<Rightarrow> ('p, 'f) async_queue \<Rightarrow> ('p, 'f) async_queue" where
  "AsyncQueueThread_construct suspended q =
     q\<lparr>m_task_thread_array := m_task_thread_array q @ [\<lparr>m_status = Active_Status, m_is_finished = True, m_is_suspended = suspended,
       m_current_task = None, m_execute_event = True, m_suspend_event = True\<rparr>]\<rparr>"

section \<open>Completion\<close>

definition UpdateAllTaskCompletion :: "('p, 'f) async_queue \<Rightarrow> bool \<times> ('p, 'f) async_queue" where
  "UpdateAllTaskCompletion q =
     (let is_all_finished = (\<forall>th\<in>set (m_task_thread_array q). m_is_finished th)
      in (is_all_finished, if is_all_finished then q\<lparr>m_all_task_complete_event := True\<rparr> else q))"

definition level_finished :: "('p, 'f) async_queue \<Rightarrow> nat \<Rightarrow> bool" where
  "level_finished q i \<longleftrightarrow> (\<forall>th\<in>set (m_task_thread_array q).
     case m_current_task th of None \<Rightarrow> True | Some t \<Rightarrow> t_priority (m_tasks q t) \<noteq> of_nat i)"

definition UpdatePriorityLevelCompletion :: "('p, 'f) async_queue \<Rightarrow> ('p, 'f) async_queue" where
  "UpdatePriorityLevelCompletion q =
     q\<lparr>m_priority_level_array := map (\<lambda>(i, l).
        if level_finished q i \<and> async_task_head l = None then l\<lparr>priority_cleared_event := True\<rparr> else l)
        (enumerate 0 (m_priority_level_array q))\<rparr>"

definition UpdateCompletion :: "('p, 'f) async_queue \<Rightarrow> ('p, 'f) async_queue" where
  "UpdateCompletion q = UpdatePriorityLevelCompletion (snd (UpdateAllTaskCompletion q))"

section \<open>The next task\<close>

fun next_level :: "'p priority_level list \<Rightarrow> nat \<Rightarrow> (nat \<times> 'p) option" where
  "next_level levels 0 = None"
| "next_level levels (Suc i) =
     (if is_paused (levels ! i) then next_level levels i
      else case async_task_head (levels ! i) of None \<Rightarrow> next_level levels i | Some t \<Rightarrow> Some (i, t))"

text \<open>The task behind one of a level, if it is of that level too.\<close>

definition next_head :: "('p, 'f) async_queue \<Rightarrow> 'p \<Rightarrow> u32 \<Rightarrow> 'p option" where
  "next_head q t priority =
     (let new_head = list_GetNext (m_links q) t
      in if new_head = m_task_list q \<or> t_priority (m_tasks q new_head) \<noteq> priority then None else Some new_head)"

definition AcquireNextTask :: "nat \<Rightarrow> ('p, 'f) async_queue \<Rightarrow> ('p option \<times> ('p, 'f) async_queue) result" where
  "AcquireNextTask queue_thread q =
     (let (all_finished, q) = (if m_task_count q = 0 then UpdateAllTaskCompletion q else (False, q));
          no_task = upd_thread queue_thread (\<lambda>th. th\<lparr>m_current_task := None\<rparr>) q
      in if all_finished then Inr (None, no_task)
         else case next_level (m_priority_level_array q) (length (m_priority_level_array q)) of
                None \<Rightarrow> Inr (None, no_task)
              | Some (i, next_task) \<Rightarrow>
                  bind_result (upd_level (of_nat i) (\<lambda>l. l\<lparr>async_task_head := next_head q next_task (of_nat i)\<rparr>) q) (\<lambda>q.
                    let q = q\<lparr>m_links := Unlink next_task (m_links q), m_task_count := m_task_count q - 1\<rparr>;
                        q = upd_task next_task (\<lambda>t. t\<lparr>t_status := Acquired, t_queue_thread := Some queue_thread\<rparr>) q
                    in Inr (Some next_task, upd_thread queue_thread (\<lambda>th. th\<lparr>m_current_task := Some next_task\<rparr>) q)))"

section \<open>Running a task\<close>

text \<open>\<open>Execute\<close> calls the task function, if there is one.\<close>

definition AsyncTask_Execute :: "'p \<Rightarrow> ('p, 'f) async_queue \<Rightarrow> ('p, 'f) async_queue" where
  "AsyncTask_Execute t q =
     (case t_task_function (m_tasks q t) of None \<Rightarrow> q | Some f \<Rightarrow> called [Task_Call t f (t_user_data (m_tasks q t))] q)"

text \<open>\<open>rescheduled\<close> is whether the result function answers \<open>ResultRescheduled\<close>.\<close>

definition AsyncTask_Invoke :: "bool \<Rightarrow> 'p \<Rightarrow> ('p, 'f) async_queue \<Rightarrow> (bool \<times> ('p, 'f) async_queue) result" where
  "AsyncTask_Invoke rescheduled t q =
     (let q = upd_task t (\<lambda>t. t\<lparr>t_status := PostExecute\<rparr>) (AsyncTask_Execute t q)
      in if \<not> t_has_queue (m_tasks q t) then Inl Null_Pointer
         else
           let result_function = t_result_function (m_tasks q t);
               q = upd_task t (\<lambda>t. t\<lparr>t_cancel_function := None\<rparr>) q
           in case result_function of
                None \<Rightarrow> Inr (False, q)
              | Some f \<Rightarrow>
                  let q = upd_task t (\<lambda>t. t\<lparr>t_result_function := None\<rparr>) q;
                      q = called [Result_Call t f (t_user_data (m_tasks q t)) (t_is_cancelled (m_tasks q t))] q
                  in Inr (rescheduled, upd_task t (\<lambda>t. t\<lparr>t_queue_thread := None\<rparr>) q))"

definition signal_finish :: "'f async_task \<Rightarrow> 'f async_task" where
  "signal_finish t = (if t_is_signal_finish_event t then t\<lparr>t_is_cancelled := False, t_finish_event := True\<rparr> else t)"

definition InvokeFreeExecute :: "'p \<Rightarrow> ('p, 'f) async_queue \<Rightarrow> ('p, 'f) async_queue" where
  "InvokeFreeExecute t q = upd_task t (\<lambda>t. (signal_finish (t\<lparr>t_status := Complete\<rparr>))\<lparr>t_is_free_for_allocator := True\<rparr>) q"

definition InvokeSync :: "bool \<Rightarrow> nat \<Rightarrow> 'p \<Rightarrow> ('p, 'f) async_queue \<Rightarrow> ('p, 'f) async_queue result" where
  "InvokeSync rescheduled thread t q =
     (if \<not> t_has_queue (m_tasks q t) then Inl Null_Pointer
      else
        bind_result (AsyncTask_Invoke rescheduled t (upd_task t (\<lambda>t. t\<lparr>t_queue_thread := Some thread, t_status := Queued\<rparr>) q)) (\<lambda>(result, q).
        Inr (if \<not> result then InvokeFreeExecute t q else q)))"

text \<open>The current thread is an index when it is one of the queue.\<close>

definition TryInvokeSync :: "bool \<Rightarrow> nat option \<Rightarrow> 'p \<Rightarrow> ('p, 'f) async_queue \<Rightarrow> (bool \<times> ('p, 'f) async_queue) result" where
  "TryInvokeSync rescheduled current t q =
     (case current of
        Some thread \<Rightarrow>
          if thread < length (m_task_thread_array q)
          then bind_result (InvokeSync rescheduled thread t q) (\<lambda>q. Inr (True, q))
          else Inr (False, q)
      | None \<Rightarrow> Inr (False, q))"

section \<open>The threads\<close>

definition Message_Resume :: u64 where "Message_Resume = 1"
definition Message_Suspend :: u64 where "Message_Suspend = 2"

text \<open>\<open>ThreadMain\<close> up to its loop: whether it goes on to the tasks.\<close>

definition ThreadMain_enter :: "u64 \<Rightarrow> nat \<Rightarrow> ('p, 'f) async_queue \<Rightarrow> bool \<times> ('p, 'f) async_queue" where
  "ThreadMain_enter message i q =
     (if \<not> m_is_suspended (m_task_thread_array q ! i)
      then if message = Message_Suspend
           then (False, upd_thread i (\<lambda>th. th\<lparr>m_is_suspended := True, m_suspend_event := True\<rparr>) q)
           else (True, upd_thread i (\<lambda>th. th\<lparr>m_is_finished := False\<rparr>) q)
      else if message \<noteq> Message_Resume then (False, q)
      else (True, upd_thread i (\<lambda>th. th\<lparr>m_is_suspended := False, m_suspend_event := True, m_is_finished := False\<rparr>) q))"

text \<open>The locked section after a task has run.\<close>

definition ThreadMain_retire :: "bool \<Rightarrow> nat \<Rightarrow> 'p \<Rightarrow> ('p, 'f) async_queue \<Rightarrow> ('p, 'f) async_queue" where
  "ThreadMain_retire rescheduled i t q =
     (let q = (if \<not> rescheduled then InvokeFreeExecute t q else q)
      in UpdateCompletion (upd_thread i (\<lambda>th. th\<lparr>m_execute_event := True\<rparr>) q))"

text \<open>
  The loop: \<open>result\<close> answers for the result functions, \<open>exit\<close> is whether the message peeked after a task is the
  exit message.  The yield only sleeps.
\<close>

partial_function (option) ThreadMain_loop ::
  "('p \<Rightarrow> bool) \<Rightarrow> ('p \<Rightarrow> bool) \<Rightarrow> nat \<Rightarrow> ('p, 'f) async_queue \<Rightarrow> ('p, 'f) async_queue run" where
  "ThreadMain_loop result exit i q =
     (case AcquireNextTask i q of
        Inl e \<Rightarrow> Some (Inl e)
      | Inr (task, q) \<Rightarrow>
          (case task of
             None \<Rightarrow> ret q
           | Some t \<Rightarrow>
               (case AsyncTask_Invoke (result t) t q of
                  Inl e \<Rightarrow> Some (Inl e)
                | Inr (rescheduled, q) \<Rightarrow>
                    if exit t then ret (ThreadMain_retire rescheduled i t q)
                    else ThreadMain_loop result exit i (ThreadMain_retire rescheduled i t q))))"

declare ThreadMain_loop.simps [code]

definition ThreadMain :: "('p \<Rightarrow> bool) \<Rightarrow> ('p \<Rightarrow> bool) \<Rightarrow> u64 \<Rightarrow> nat \<Rightarrow> ('p, 'f) async_queue \<Rightarrow> ('p, 'f) async_queue run" where
  "ThreadMain result exit message i q =
     (let (go, q) = ThreadMain_enter message i q
      in if \<not> go then ret q
         else bind_run (ThreadMain_loop result exit i q) (\<lambda>q. ret (upd_thread i (\<lambda>th. th\<lparr>m_is_finished := True\<rparr>) q)))"

section \<open>Cancelling\<close>

definition AsyncTask_Cancel :: "'p \<Rightarrow> ('p, 'f) async_queue \<Rightarrow> ('p, 'f) async_queue result" where
  "AsyncTask_Cancel t q =
     (let q = upd_task t (\<lambda>t. t\<lparr>t_queue_thread := None, t_result_function := None\<rparr>) q;
          q = (case t_cancel_function (m_tasks q t) of
                 None \<Rightarrow> q
               | Some f \<Rightarrow> called [Cancel_Call t f (t_user_data (m_tasks q t))] (upd_task t (\<lambda>t. t\<lparr>t_cancel_function := None\<rparr>) q))
      in if \<not> t_has_queue (m_tasks q t) then Inl Null_Pointer
         else Inr (upd_task t (\<lambda>t. (signal_finish (t\<lparr>t_status := Cancelled\<rparr>))\<lparr>t_is_free_for_allocator := True\<rparr>) q))"

definition CancelWhileActive :: "'p \<Rightarrow> ('p, 'f) async_queue \<Rightarrow> ('p, 'f) async_queue" where
  "CancelWhileActive t q = upd_task t (\<lambda>t. t\<lparr>t_finish_event := False, t_is_signal_finish_event := True, t_is_cancelled := True\<rparr>) q"

text \<open>The locked part; the first component is whether the caller goes on to wait for the finish event.\<close>

definition queue_CancelTask :: "'p \<Rightarrow> ('p, 'f) async_queue \<Rightarrow> (bool \<times> ('p, 'f) async_queue) result" where
  "queue_CancelTask t q =
     (let task = m_tasks q t
      in if t_status task = Complete then Inr (False, q)
         else if t_status task \<in> {Uninitialized, Cancelled} then Inr (False, q)
         else if t_status task = Queued
         then
           bind_result (level_at (t_priority task) q) (\<lambda>level.
           bind_result
             (if async_task_head level = Some t
              then upd_level (t_priority task) (\<lambda>l. l\<lparr>async_task_head := next_head q t (t_priority task)\<rparr>) q
              else Inr q) (\<lambda>q.
           bind_result (AsyncTask_Cancel t (q\<lparr>m_links := Unlink t (m_links q)\<rparr>)) (\<lambda>q.
           Inr (False, UpdateCompletion q))))
         else Inr (True, CancelWhileActive t q))"

text \<open>\<open>AsyncTask::CancelTask\<close> and \<open>Finalize\<close>: the same with the wait.\<close>

definition AsyncTask_CancelTask :: "'p \<Rightarrow> ('p, 'f) async_queue \<Rightarrow> (bool \<times> ('p, 'f) async_queue) result" where
  "AsyncTask_CancelTask t q = (if t_has_queue (m_tasks q t) then queue_CancelTask t q else Inr (False, q))"

definition AsyncTask_Finalize_end :: "'p \<Rightarrow> ('p, 'f) async_queue \<Rightarrow> ('p, 'f) async_queue" where
  "AsyncTask_Finalize_end t q = upd_task t (\<lambda>t. t\<lparr>t_has_queue := False, t_user_data := 0, t_result_function := None,
     t_cancel_function := None, t_status := ForceCancelled\<rparr>) q"

definition AsyncTask_Finalize :: "'p \<Rightarrow> ('p, 'f) async_queue \<Rightarrow> (bool \<times> ('p, 'f) async_queue) result" where
  "AsyncTask_Finalize t q =
     (if t_status (m_tasks q t) = ForceCancelled then Inr (False, q)
      else bind_result (AsyncTask_CancelTask t q) (\<lambda>(wait, q).
           Inr (if wait then (True, q) else (False, AsyncTask_Finalize_end t q))))"

definition IsAnyThreadHaveTaskPriority :: "u32 \<Rightarrow> ('p, 'f) async_queue \<Rightarrow> bool" where
  "IsAnyThreadHaveTaskPriority priority q \<longleftrightarrow> (\<exists>th\<in>set (m_task_thread_array q).
     case m_current_task th of None \<Rightarrow> False | Some t \<Rightarrow> t_priority (m_tasks q t) = priority)"

definition CancelCurrentTaskIfPriority :: "u32 \<Rightarrow> 'p async_thread \<Rightarrow> ('p, 'f) async_queue \<Rightarrow> ('p, 'f) async_queue" where
  "CancelCurrentTaskIfPriority priority th q =
     (case m_current_task th of
        None \<Rightarrow> q
      | Some t \<Rightarrow> if t_priority (m_tasks q t) \<noteq> priority then q else CancelWhileActive t q)"

definition CancelThreadPriorityLevel :: "u32 \<Rightarrow> ('p, 'f) async_queue \<Rightarrow> ('p, 'f) async_queue" where
  "CancelThreadPriorityLevel priority q = foldl (\<lambda>q th. CancelCurrentTaskIfPriority priority th q) q (m_task_thread_array q)"

partial_function (option) cancel_level_from :: "u32 \<Rightarrow> 'p \<Rightarrow> ('p, 'f) async_queue \<Rightarrow> ('p, 'f) async_queue run" where
  "cancel_level_from priority list_iter q =
     (if list_iter \<noteq> m_task_list q \<and> priority = t_priority (m_tasks q list_iter)
      then
        let task_iter = list_iter;
            list_iter = m_next (m_links q) list_iter;
            q = q\<lparr>m_links := Unlink task_iter (m_links q), m_task_count := m_task_count q - 1\<rparr>
        in (case AsyncTask_Cancel task_iter q of Inl e \<Rightarrow> Some (Inl e) | Inr q \<Rightarrow> cancel_level_from priority list_iter q)
      else ret q)"

declare cancel_level_from.simps [code]

text \<open>The first component is whether the caller waits for the event of the level.\<close>

definition CancelPriorityLevel :: "u32 \<Rightarrow> ('p, 'f) async_queue \<Rightarrow> (bool \<times> ('p, 'f) async_queue) run" where
  "CancelPriorityLevel priority q =
     call (level_at priority q) (\<lambda>level.
     bind_run (case async_task_head level of None \<Rightarrow> ret q | Some head \<Rightarrow> cancel_level_from priority head q) (\<lambda>q.
     call (upd_level priority (\<lambda>l. l\<lparr>async_task_head := None\<rparr>) q) (\<lambda>q.
       if \<not> IsAnyThreadHaveTaskPriority priority q
       then ret (False, CancelThreadPriorityLevel priority (UpdateCompletion q))
       else
         call (upd_level priority (\<lambda>l. l\<lparr>priority_cleared_event := False\<rparr>) q) (\<lambda>q.
         ret (True, CancelThreadPriorityLevel priority (UpdateCompletion q))))))"

text \<open>Whether the caller of \<open>WaitForPriorityLevel\<close> waits.\<close>

definition WaitForPriorityLevel :: "u32 \<Rightarrow> ('p, 'f) async_queue \<Rightarrow> bool result" where
  "WaitForPriorityLevel priority q =
     bind_result (level_at priority q) (\<lambda>l. Inr (\<not> (is_paused l \<or> async_task_head l \<noteq> None)))"

text \<open>
  \<open>ForceCalcSyncOnThread\<close>: the loop moves on from the node of the task it has just run.  A task that would be
  waited for is a wait under the lock, which the model leaves as \<open>None\<close>; \<open>result\<close> answers for the result
  functions.
\<close>

partial_function (option) force_calc_from :: "('p \<Rightarrow> bool) \<Rightarrow> nat \<Rightarrow> u32 \<Rightarrow> 'p \<Rightarrow> ('p, 'f) async_queue \<Rightarrow> ('p, 'f) async_queue run" where
  "force_calc_from result thread up_to_priority iter q =
     (if iter = m_task_list q then ret q
      else if t_priority (m_tasks q iter) < up_to_priority then ret q
      else
        case (if t_has_queue (m_tasks q iter) then queue_CancelTask iter q else Inr (False, q)) of
          Inl e \<Rightarrow> Some (Inl e)
        | Inr (wait, q) \<Rightarrow>
            if wait then None
            else case InvokeSync (result iter) thread iter q of
                   Inl e \<Rightarrow> Some (Inl e)
                 | Inr q \<Rightarrow> force_calc_from result thread up_to_priority (m_next (m_links q) iter) q)"

definition ForceCalcSyncOnThread :: "('p \<Rightarrow> bool) \<Rightarrow> nat \<Rightarrow> u32 \<Rightarrow> ('p, 'f) async_queue \<Rightarrow> ('p, 'f) async_queue run" where
  "ForceCalcSyncOnThread result thread up_to_priority q =
     force_calc_from result thread up_to_priority (m_next (m_links q) (m_task_list q)) q"

section \<open>Pushing\<close>

record 'f async_push_info =
  p_has_queue :: bool
  p_has_queue_thread :: bool
  p_task_function :: "'f option"
  p_result_function :: "'f option"
  p_cancel_function :: "'f option"
  p_user_data :: u64
  p_priority :: u32
  p_is_sync :: bool
  p_is_skip_finish_event :: bool

datatype push_result = ResultSuccess | ResultAlreadyQueued | ResultInvalidPriority

definition cInvalidPriorityLevel :: u32 where "cInvalidPriorityLevel = 0xffffffff"

function lowest_populated :: "u32 \<Rightarrow> ('p, 'f) async_queue \<Rightarrow> u32 result" where
  "lowest_populated priority_iter q =
     (let below = priority_iter - 1
      in if below = cInvalidPriorityLevel then Inr below
         else bind_result (level_at below q) (\<lambda>l. if async_task_head l = None then lowest_populated below q else Inr below))"
  by pat_completeness auto
termination
proof (relation "measure (\<lambda>(i, q). unat i)")
  fix priority_iter below :: u32 and q :: "('p, 'f) async_queue"
  assume b: "below = priority_iter - 1" "below \<noteq> cInvalidPriorityLevel"
  then have n: "priority_iter \<noteq> 0" by (auto simp: cInvalidPriorityLevel_def)
  then have "0 < unat priority_iter" by (simp add: unat_gt_0)
  then show "((below, q), (priority_iter, q)) \<in> measure (\<lambda>(i, q). unat i)"
    using b(1) n by (simp add: unat_minus_one)
qed simp

declare lowest_populated.simps [simp del]

text \<open>The search for the place and the link, which \<open>PushTask\<close> and \<open>ChangePriority\<close> share.\<close>

definition link_task :: "'p \<Rightarrow> u32 \<Rightarrow> ('p, 'f) async_queue \<Rightarrow> ('p, 'f) async_queue result" where
  "link_task t priority q =
     bind_result (lowest_populated priority q) (\<lambda>priority_iter.
       if priority_iter = cInvalidPriorityLevel
       then upd_level priority (\<lambda>l. l\<lparr>priority_cleared_event := False\<rparr>) (q\<lparr>m_links := list_PushBack (m_task_list q) t (m_links q)\<rparr>)
       else bind_result (level_at priority_iter q) (\<lambda>l.
            case async_task_head l of
              None \<Rightarrow> Inl Null_Pointer
            | Some head \<Rightarrow> Inr (q\<lparr>m_links := LinkNext head t (m_links q)\<rparr>)))"

definition set_head :: "'p \<Rightarrow> u32 \<Rightarrow> ('p, 'f) async_queue \<Rightarrow> ('p, 'f) async_queue result" where
  "set_head t priority q =
     upd_level priority (\<lambda>l. if async_task_head l = None then l\<lparr>async_task_head := Some t\<rparr> else l) q"

definition push_locked :: "'p \<Rightarrow> u32 \<Rightarrow> ('p, 'f) async_queue \<Rightarrow> ('p, 'f) async_queue result" where
  "push_locked t priority q =
     bind_result (link_task t priority q) (\<lambda>q.
     bind_result (set_head t priority (q\<lparr>m_task_count := m_task_count q + 1\<rparr>)) (\<lambda>q.
       let q = upd_task t (\<lambda>t. t\<lparr>t_status := Queued\<rparr>) q
       in Inr (if m_task_count q = 1 then q\<lparr>m_all_task_complete_event := False\<rparr> else q)))"

text \<open>\<open>PushTask\<close> up to the messages that wake the threads and the wait of a synchronous push.\<close>

definition PushTask :: "bool \<Rightarrow> nat option \<Rightarrow> 'p \<Rightarrow> 'f async_push_info \<Rightarrow> ('p, 'f) async_queue \<Rightarrow> (push_result \<times> ('p, 'f) async_queue) result" where
  "PushTask rescheduled current t info q =
     (if node_IsLinked (m_links q) t then Inr (ResultAlreadyQueued, q)
      else
        bind_result (vp_assert (p_has_queue info \<or> p_has_queue_thread info)) (\<lambda>_.
        if \<not> p_priority info \<le> of_nat (length (m_priority_level_array q)) then Inr (ResultInvalidPriority, q)
        else
          let q = upd_task t (\<lambda>t. t\<lparr>t_has_queue := True, t_task_function := p_task_function info, t_result_function := p_result_function info,
                    t_cancel_function := p_cancel_function info, t_user_data := p_user_data info,
                    t_is_signal_finish_event := (p_is_sync info \<or> \<not> p_is_skip_finish_event info)\<rparr>) q
          in bind_result (if p_is_sync info then TryInvokeSync rescheduled current t q else Inr (False, q)) (\<lambda>(invoked, q).
             if invoked then Inr (ResultSuccess, q)
             else bind_result (push_locked t (p_priority info) q) (\<lambda>q. Inr (ResultSuccess, q)))))"

definition ChangePriority :: "'p \<Rightarrow> u32 \<Rightarrow> ('p, 'f) async_queue \<Rightarrow> ('p, 'f) async_queue result" where
  "ChangePriority t new_priority q =
     (if \<not> t_has_queue (m_tasks q t) then Inr q
      else
        let last_priority = t_priority (m_tasks q t);
            max_priority = of_nat (length (m_priority_level_array q));
            priority_clamp = (if max_priority < new_priority then max_priority else new_priority)
        in if priority_clamp = last_priority then Inr q
           else
             bind_result (level_at last_priority q) (\<lambda>level.
             bind_result
               (if async_task_head level = Some t
                then
                  let next_task = list_GetNext (m_links q) t;
                      next_head = (if node_IsLinked (m_links q) t \<and> t_priority (m_tasks q next_task) = last_priority then Some next_task else None)
                  in upd_level last_priority (\<lambda>l. l\<lparr>async_task_head := next_head\<rparr>) q
                else Inr q) (\<lambda>q.
             bind_result (link_task t priority_clamp (q\<lparr>m_links := Unlink t (m_links q)\<rparr>)) (\<lambda>q.
             set_head t priority_clamp q))))"

end
