(* ===== verification/Async_Props.thy ===== *)
theory Async_Props
  imports Async_Queue
begin

text \<open>
  What \<open>AsyncQueue\<close> does with the tasks pushed to it.  No code sets \<open>m_priority\<close> of a task, so it is the 0 of
  the constructor: at the lowest level the queue is first in, first out, above it only the first task of a
  level is ever found.
\<close>

section \<open>Queues of tasks of priority 0\<close>

definition tasks_rep :: "('p, 'f) async_queue \<Rightarrow> 'p list \<Rightarrow> bool" where
  "tasks_rep q xs \<longleftrightarrow> list_rep (m_links q) (m_task_list q) xs \<and> m_task_count q = of_nat (length xs) \<and> length xs < 2 ^ 32 \<and>
     (\<forall>t. t_priority (m_tasks q t) = 0) \<and> (\<forall>t. \<not> t_is_cancelled (m_tasks q t)) \<and> (\<forall>t\<in>set xs. t_status (m_tasks q t) = Queued) \<and>
     0 < length (m_priority_level_array q) \<and> length (m_priority_level_array q) < 2 ^ 32 \<and>
     (\<forall>l\<in>set (m_priority_level_array q). \<not> is_paused l)"

definition heads_are :: "('p, 'f) async_queue \<Rightarrow> (nat \<Rightarrow> 'p option) \<Rightarrow> bool" where
  "heads_are q H \<longleftrightarrow> (\<forall>i<length (m_priority_level_array q). async_task_head (m_priority_level_array q ! i) = H i)"

definition free_task :: "('p, 'f) async_queue \<Rightarrow> 'p \<Rightarrow> bool" where
  "free_task q t \<longleftrightarrow> t \<noteq> m_task_list q \<and> unlinked (m_links q) t"

lemma level_at_in: "unat i < length (m_priority_level_array q) \<Longrightarrow> level_at i q = Inr (m_priority_level_array q ! unat i)"
  by (simp add: level_at_def)

lemma upd_level_in: "unat i < length (m_priority_level_array q) \<Longrightarrow>
    upd_level i u q = Inr (q\<lparr>m_priority_level_array := (m_priority_level_array q)[unat i := u (m_priority_level_array q ! unat i)]\<rparr>)"
  by (simp add: upd_level_def level_at_in)

lemma upd_task_simps [simp]:
  "m_links (upd_task t u q) = m_links q" "m_task_list (upd_task t u q) = m_task_list q" "m_task_count (upd_task t u q) = m_task_count q"
  "m_priority_level_array (upd_task t u q) = m_priority_level_array q" "m_task_thread_array (upd_task t u q) = m_task_thread_array q"
  "m_all_task_complete_event (upd_task t u q) = m_all_task_complete_event q" "m_calls (upd_task t u q) = m_calls q"
  "m_tasks (upd_task t u q) = (m_tasks q)(t := u (m_tasks q t))"
  by (simp_all add: upd_task_def)

lemma upd_thread_simps [simp]:
  "m_links (upd_thread i v q) = m_links q" "m_task_list (upd_thread i v q) = m_task_list q" "m_task_count (upd_thread i v q) = m_task_count q"
  "m_priority_level_array (upd_thread i v q) = m_priority_level_array q" "m_tasks (upd_thread i v q) = m_tasks q"
  "m_all_task_complete_event (upd_thread i v q) = m_all_task_complete_event q" "m_calls (upd_thread i v q) = m_calls q"
  "m_task_thread_array (upd_thread i v q) = (m_task_thread_array q)[i := v (m_task_thread_array q ! i)]"
  by (simp_all add: upd_thread_def)

lemma called_simps [simp]:
  "m_links (called cs q) = m_links q" "m_task_list (called cs q) = m_task_list q" "m_task_count (called cs q) = m_task_count q"
  "m_priority_level_array (called cs q) = m_priority_level_array q" "m_task_thread_array (called cs q) = m_task_thread_array q"
  "m_all_task_complete_event (called cs q) = m_all_task_complete_event q" "m_tasks (called cs q) = m_tasks q"
  "m_calls (called cs q) = m_calls q @ cs"
  by (simp_all add: called_def)

text \<open>\<open>Execute\<close> adds a call and changes nothing of the queue.\<close>

lemma Execute_simps [simp]:
  "m_links (AsyncTask_Execute t q) = m_links q" "m_task_list (AsyncTask_Execute t q) = m_task_list q"
  "m_task_count (AsyncTask_Execute t q) = m_task_count q" "m_priority_level_array (AsyncTask_Execute t q) = m_priority_level_array q"
  "m_task_thread_array (AsyncTask_Execute t q) = m_task_thread_array q"
  "m_all_task_complete_event (AsyncTask_Execute t q) = m_all_task_complete_event q" "m_tasks (AsyncTask_Execute t q) = m_tasks q"
  "m_calls (AsyncTask_Execute t q) = m_calls q @
     (case t_task_function (m_tasks q t) of None \<Rightarrow> [] | Some f \<Rightarrow> [Task_Call t f (t_user_data (m_tasks q t))])"
  by (simp_all add: AsyncTask_Execute_def split: option.split)

lemma lowest_none:
  "heads_are q H \<Longrightarrow> unat p \<le> length (m_priority_level_array q) \<Longrightarrow> (\<And>i. i < unat p \<Longrightarrow> H i = None) \<Longrightarrow>
    lowest_populated p q = Inr cInvalidPriorityLevel"
proof (induction p q rule: lowest_populated.induct)
  case (1 p q)
  show ?case
  proof (cases "p = 0")
    case True
    then show ?thesis by (subst lowest_populated.simps) (simp add: cInvalidPriorityLevel_def)
  next
    case False
    have u: "unat (p - 1) = unat p - 1" "0 < unat p" using False by (simp_all add: unat_minus_one unat_gt_0)
    have ne: "p - 1 \<noteq> cInvalidPriorityLevel"
    proof
      assume "p - 1 = cInvalidPriorityLevel"
      then have "p - 1 = - 1" by (simp add: cInvalidPriorityLevel_def)
      then show False using False by simp
    qed
    have l: "level_at (p - 1) q = Inr (m_priority_level_array q ! (unat p - 1))" using "1.prems"(2) u by (simp add: level_at_in)
    have h: "async_task_head (m_priority_level_array q ! (unat p - 1)) = None" using "1.prems" u by (simp add: heads_are_def)
    have "lowest_populated (p - 1) q = Inr cInvalidPriorityLevel" using "1.IH" [OF refl ne h] "1.prems" u by simp
    then show ?thesis using ne l h by (subst lowest_populated.simps) (simp add: Let_def)
  qed
qed

lemma head_same: "async_task_head l = Some a \<Longrightarrow>
    l\<lparr>priority_cleared_event := False, async_task_head := Some a\<rparr> = l\<lparr>priority_cleared_event := False\<rparr>"
  by (cases l) simp

lemma push_locked_spec:
  assumes rep: "tasks_rep q xs" and H: "heads_are q H" and t: "free_task q t" and len: "Suc (length xs) < 2 ^ 32"
    and p: "p < length (m_priority_level_array q)" and low: "\<And>i. i < p \<Longrightarrow> H i = None"
  obtains q' where "push_locked t (of_nat p) q = Inr q'" and "tasks_rep q' (xs @ [t])" and "heads_are q' (H(p := if H p = None then Some t else H p))"
    and "m_task_thread_array q' = m_task_thread_array q" and "length (m_priority_level_array q') = length (m_priority_level_array q)"
    and "m_task_list q' = m_task_list q" and "\<And>n. n \<noteq> t \<Longrightarrow> free_task q n \<Longrightarrow> free_task q' n"
    and "m_tasks q' = (m_tasks q)(t := (m_tasks q t)\<lparr>t_status := Queued\<rparr>)" and "m_calls q' = m_calls q"
proof -
  have p32: "p < 2 ^ 32" using rep p by (simp add: tasks_rep_def)
  have u: "unat (of_nat p :: u32) = p" using p32 by (simp add: unat_of_nat_less)
  have lo: "lowest_populated (of_nat p) q = Inr cInvalidPriorityLevel" using lowest_none [OF H, of "of_nat p"] u p low by simp
  define levels where "levels = (m_priority_level_array q)[p := (m_priority_level_array q ! p)\<lparr>priority_cleared_event := False,
    async_task_head := (if H p = None then Some t else H p)\<rparr>]"
  define q1 where "q1 = q\<lparr>m_links := list_PushBack (m_task_list q) t (m_links q), m_task_count := m_task_count q + 1, m_priority_level_array := levels,
    m_tasks := (m_tasks q)(t := (m_tasks q t)\<lparr>t_status := Queued\<rparr>)\<rparr>"
  define q' where "q' = (if m_task_count q1 = 1 then q1\<lparr>m_all_task_complete_event := False\<rparr> else q1)"
  have hp: "async_task_head (m_priority_level_array q ! p) = H p" using H p by (simp add: heads_are_def)
  have run: "push_locked t (of_nat p) q = Inr q'"
  proof -
    have "link_task t (of_nat p) q = Inr (q\<lparr>m_links := list_PushBack (m_task_list q) t (m_links q),
      m_priority_level_array := (m_priority_level_array q)[p := (m_priority_level_array q ! p)\<lparr>priority_cleared_event := False\<rparr>]\<rparr>)"
      using p lo u by (simp add: link_task_def upd_level_in)
    note link = this
    show ?thesis
    proof (cases "H p")
      case (Some a)
      with hp have "async_task_head (m_priority_level_array q ! p) = Some a" by simp
      note head_same [OF this, simp]
      show ?thesis using link p u hp Some
        by (simp add: push_locked_def set_head_def upd_level_in Let_def upd_task_def q'_def q1_def levels_def)
    qed (use link p u hp in \<open>simp add: push_locked_def set_head_def upd_level_in Let_def upd_task_def q'_def q1_def levels_def\<close>)
  qed
  have fn: "free_node_of (m_task_list q) (m_links q) t" using t by (simp add: free_task_def free_node_of_def)
  have R: "list_rep (m_links q) (m_task_list q) xs" using rep by (simp add: tasks_rep_def)
  have "list_rep (m_links q') (m_task_list q') (xs @ [t])" using il.push_back [OF R fn] by (simp add: q'_def q1_def)
  moreover have "m_task_count q' = of_nat (length (xs @ [t]))" using rep by (simp add: q'_def q1_def tasks_rep_def)
  moreover have "\<not> is_paused l" if "l \<in> set levels" for l
  proof -
    have "l \<in> insert ((m_priority_level_array q ! p)\<lparr>priority_cleared_event := False, async_task_head := (if H p = None then Some t else H p)\<rparr>) (set (m_priority_level_array q))"
      using that set_update_subset_insert by (fastforce simp: levels_def)
    then show ?thesis using rep p by (auto simp: tasks_rep_def)
  qed
  ultimately have rep': "tasks_rep q' (xs @ [t])" using rep len by (auto simp: tasks_rep_def q'_def q1_def levels_def)
  have heads': "heads_are q' (H(p := if H p = None then Some t else H p))"
    using H p by (auto simp: heads_are_def q'_def q1_def levels_def nth_list_update)
  have free': "free_task q' n" if n: "n \<noteq> t" "free_task q n" for n
  proof -
    have "n \<notin> set (m_task_list q # xs)" using n list_rep_not_unlinked [OF R, of n] by (auto simp: free_task_def)
    moreover have "m_prev (m_links q) (m_task_list q) \<in> set (m_task_list q # xs)"
      using linked_last [of "m_links q" "m_task_list q" xs "m_task_list q"] last_in_set [of "m_task_list q # xs"] R by (auto simp: list_rep_def)
    ultimately have "n \<noteq> m_prev (m_links q) (m_task_list q)" by blast
    then show ?thesis using n fn by (auto simp: free_task_def q'_def q1_def list_PushBack_def link_defs unlinked_def free_node_of_def)
  qed
  show thesis by (rule that [OF run rep' heads' _ _ _ free']) (simp_all add: q'_def q1_def levels_def)
qed

lemma next_level_single:
  assumes "\<And>i. i < n \<Longrightarrow> \<not> is_paused (levels ! i)" and "p < n" and "\<And>i. p < i \<Longrightarrow> i < n \<Longrightarrow> async_task_head (levels ! i) = None"
    and "async_task_head (levels ! p) = Some t"
  shows "next_level levels n = Some (p, t)"
  using assms
proof (induction n)
  case (Suc n)
  then show ?case by (cases "p = n") auto
qed simp

lemma next_level_none:
  "(\<And>i. i < n \<Longrightarrow> async_task_head (levels ! i) = None) \<Longrightarrow> next_level levels n = None"
  by (induction n) auto

lemma acquire_spec:
  assumes rep: "tasks_rep q (t # xs)" and H: "heads_are q H" and p: "p < length (m_priority_level_array q)" "H p = Some t"
    and up: "\<And>i. p < i \<Longrightarrow> i < length (m_priority_level_array q) \<Longrightarrow> H i = None"
  obtains q' where "AcquireNextTask th q = Inr (Some t, q')" and "tasks_rep q' xs" and "heads_are q' (H(p := if p = 0 then hd_opt xs else None))"
    and "length (m_priority_level_array q') = length (m_priority_level_array q)" and "m_task_list q' = m_task_list q"
    and "length (m_task_thread_array q') = length (m_task_thread_array q)"
    and "m_tasks q' = (m_tasks q)(t := (m_tasks q t)\<lparr>t_status := Acquired, t_queue_thread := Some th\<rparr>)" and "m_calls q' = m_calls q"
    and "m_links q' = Unlink t (m_links q)"
proof -
  have R: "list_rep (m_links q) (m_task_list q) (t # xs)" using rep by (simp add: tasks_rep_def)
  have p32: "p < 2 ^ 32" using rep p by (simp add: tasks_rep_def)
  have u: "unat (of_nat p :: u32) = p" using p32 by (simp add: unat_of_nat_less)
  have "unat (m_task_count q) = Suc (length xs)" using rep by (simp add: tasks_rep_def unat_of_nat_less del: of_nat_Suc)
  then have c: "m_task_count q \<noteq> 0" by auto
  have nl: "next_level (m_priority_level_array q) (length (m_priority_level_array q)) = Some (p, t)"
    using rep H p up by (intro next_level_single) (auto simp: tasks_rep_def heads_are_def)
  have "linked (m_links q) (m_task_list q) (t # xs) (m_task_list q)" using R by (simp add: list_rep_def)
  then have nx: "m_next (m_links q) t = (case xs of [] \<Rightarrow> m_task_list q | x # _ \<Rightarrow> x)" using linked_first [of "m_links q" t xs] by simp
  have pz: "of_nat p = (0 :: u32) \<longleftrightarrow> p = 0" using u by (auto simp: word_eq_unat_iff)
  have nh: "next_head q t (of_nat p) = (if p = 0 then hd_opt xs else None)"
    using nx R rep pz by (cases xs) (auto simp: next_head_def list_GetNext_def Let_def tasks_rep_def list_rep_def)
  define levels where "levels = (m_priority_level_array q)[p := (m_priority_level_array q ! p)\<lparr>async_task_head := (if p = 0 then hd_opt xs else None)\<rparr>]"
  define q' where "q' = upd_thread th (\<lambda>th. th\<lparr>m_current_task := Some t\<rparr>) (upd_task t (\<lambda>t. t\<lparr>t_status := Acquired, t_queue_thread := Some th\<rparr>)
    (q\<lparr>m_priority_level_array := levels, m_links := Unlink t (m_links q), m_task_count := m_task_count q - 1\<rparr>))"
  have run: "AcquireNextTask th q = Inr (Some t, q')"
    using c nl p u by (simp add: AcquireNextTask_def upd_level_in Let_def nh q'_def levels_def)
  have "list_rep (m_links q') (m_task_list q') xs" using Unlink_rep(1) [OF R, of t] by (simp add: q'_def)
  moreover have "t \<notin> set xs" using R by (simp add: list_rep_def)
  moreover have "m_task_count q' = of_nat (length xs)" using rep by (simp add: q'_def tasks_rep_def)
  moreover have "\<not> is_paused l" if "l \<in> set levels" for l
  proof -
    have "l \<in> insert ((m_priority_level_array q ! p)\<lparr>async_task_head := (if p = 0 then hd_opt xs else None)\<rparr>) (set (m_priority_level_array q))"
      using that set_update_subset_insert by (fastforce simp: levels_def)
    then show ?thesis using rep p by (auto simp: tasks_rep_def)
  qed
  ultimately have rep': "tasks_rep q' xs" using rep by (auto simp: tasks_rep_def q'_def levels_def)
  have heads': "heads_are q' (H(p := if p = 0 then hd_opt xs else None))"
    using H p by (auto simp: heads_are_def q'_def levels_def nth_list_update)
  show thesis by (rule that [OF run rep' heads']) (simp_all add: q'_def levels_def)
qed

text \<open>Without a head no task is acquired, whatever the list holds.\<close>

lemma acquire_none:
  assumes "heads_are q (\<lambda>_. None)"
  obtains q' where "AcquireNextTask th q = Inr (None, q')" and "m_task_count q' = m_task_count q" and "m_links q' = m_links q"
    and "m_tasks q' = m_tasks q" and "m_priority_level_array q' = m_priority_level_array q" and "m_task_list q' = m_task_list q"
    and "m_calls q' = m_calls q"
proof -
  have nl: "next_level (m_priority_level_array q) (length (m_priority_level_array q)) = None"
    using assms by (intro next_level_none) (simp add: heads_are_def)
  define q1 where "q1 = (if m_task_count q = 0 then snd (UpdateAllTaskCompletion q) else q)"
  define q' where "q' = upd_thread th (\<lambda>th. th\<lparr>m_current_task := None\<rparr>) q1"
  have q1: "m_task_count q1 = m_task_count q" "m_links q1 = m_links q" "m_tasks q1 = m_tasks q"
    "m_priority_level_array q1 = m_priority_level_array q" "m_task_list q1 = m_task_list q" "m_calls q1 = m_calls q"
    by (simp_all add: q1_def UpdateAllTaskCompletion_def Let_def)
  have "AcquireNextTask th q = Inr (None, q')"
    using nl by (auto simp: AcquireNextTask_def q'_def q1_def UpdateAllTaskCompletion_def Let_def)
  then show thesis by (rule that) (simp_all add: q'_def q1)
qed

section \<open>Pushing and acquiring\<close>

fun push_all :: "'f async_push_info \<Rightarrow> 'p list \<Rightarrow> ('p, 'f) async_queue \<Rightarrow> ('p, 'f) async_queue result" where
  "push_all info [] q = Inr q"
| "push_all info (t # ts) q =
     bind_result (PushTask False None t info q) (\<lambda>(r, q). if r = ResultSuccess then push_all info ts q else Inl Assert_Failed)"

fun acquire_all :: "nat list \<Rightarrow> ('p, 'f) async_queue \<Rightarrow> ('p option list \<times> ('p, 'f) async_queue) result" where
  "acquire_all [] q = Inr ([], q)"
| "acquire_all (th # ths) q =
     bind_result (AcquireNextTask th q) (\<lambda>(t, q). bind_result (acquire_all ths q) (\<lambda>(ts, q). Inr (t # ts, q)))"

definition plain_push :: "'f async_push_info \<Rightarrow> bool" where
  "plain_push info \<longleftrightarrow> (p_has_queue info \<or> p_has_queue_thread info) \<and> \<not> p_is_sync info"

lemma push_task_spec:
  assumes "tasks_rep q xs" and "heads_are q H" and "free_task q t" and "Suc (length xs) < 2 ^ 32"
    and "unat (p_priority info) < length (m_priority_level_array q)" and "\<And>i. i < unat (p_priority info) \<Longrightarrow> H i = None" and "plain_push info"
  obtains q' where "PushTask r c t info q = Inr (ResultSuccess, q')" and "tasks_rep q' (xs @ [t])"
    and "heads_are q' (H(unat (p_priority info) := if H (unat (p_priority info)) = None then Some t else H (unat (p_priority info))))"
    and "m_task_thread_array q' = m_task_thread_array q" and "length (m_priority_level_array q') = length (m_priority_level_array q)"
    and "m_task_list q' = m_task_list q" and "\<And>n. n \<noteq> t \<Longrightarrow> free_task q n \<Longrightarrow> free_task q' n"
    and "t_has_queue (m_tasks q' t)" and "t_result_function (m_tasks q' t) = p_result_function info"
    and "t_is_signal_finish_event (m_tasks q' t) \<longleftrightarrow> \<not> p_is_skip_finish_event info"
    and "\<And>n. n \<noteq> t \<Longrightarrow> m_tasks q' n = m_tasks q n" and "m_calls q' = m_calls q"
    and "t_task_function (m_tasks q' t) = p_task_function info" and "t_user_data (m_tasks q' t) = p_user_data info"
    and "\<not> t_is_cancelled (m_tasks q' t)"
proof -
  define q1 where "q1 = upd_task t (\<lambda>t. t\<lparr>t_has_queue := True, t_task_function := p_task_function info, t_result_function := p_result_function info,
                    t_cancel_function := p_cancel_function info, t_user_data := p_user_data info,
                    t_is_signal_finish_event := (p_is_sync info \<or> \<not> p_is_skip_finish_event info)\<rparr>) q"
  have t: "\<not> node_IsLinked (m_links q) t" using assms(3) by (simp add: free_task_def unlinked_def node_IsLinked_def)
  have "t \<notin> set xs" using assms(1,3) list_rep_not_unlinked [of "m_links q" "m_task_list q" xs t] by (auto simp: tasks_rep_def free_task_def)
  then have rep: "tasks_rep q1 xs" using assms(1) by (auto simp: tasks_rep_def q1_def)
  have H: "heads_are q1 H" using assms(2) by (simp add: heads_are_def q1_def)
  have f: "free_task q1 n \<longleftrightarrow> free_task q n" for n by (simp add: free_task_def q1_def)
  obtain q' where q': "push_locked t (p_priority info) q1 = Inr q'" "tasks_rep q' (xs @ [t])"
    "heads_are q' (H(unat (p_priority info) := if H (unat (p_priority info)) = None then Some t else H (unat (p_priority info))))"
    "m_task_thread_array q' = m_task_thread_array q1" "length (m_priority_level_array q') = length (m_priority_level_array q1)"
    "m_task_list q' = m_task_list q1" "\<And>n. n \<noteq> t \<Longrightarrow> free_task q1 n \<Longrightarrow> free_task q' n"
    "m_tasks q' = (m_tasks q1)(t := (m_tasks q1 t)\<lparr>t_status := Queued\<rparr>)" "m_calls q' = m_calls q1"
    using push_locked_spec [OF rep H, of t "unat (p_priority info)"] assms(3-6) f by (auto simp: q1_def)
  have "p_priority info \<le> of_nat (length (m_priority_level_array q))"
    using assms(1,5) by (simp add: tasks_rep_def word_le_nat_alt unat_of_nat_less)
  then have "PushTask r c t info q = Inr (ResultSuccess, q')"
    using t assms(7) q'(1) by (simp add: PushTask_def plain_push_def Let_def q1_def)
  note run = this
  have "\<not> t_is_cancelled (m_tasks q t)" using assms(1) by (simp add: tasks_rep_def)
  then show thesis by (intro that [OF run]) (use q' f assms(7) in \<open>auto simp: q1_def plain_push_def\<close>)
qed

text \<open>The heads when all tasks are of the lowest level.\<close>

definition front_heads :: "'p list \<Rightarrow> nat \<Rightarrow> 'p option" where
  "front_heads xs i = (if i = 0 then hd_opt xs else None)"

lemma front_heads_push: "(front_heads xs)(0 := if front_heads xs 0 = None then Some t else front_heads xs 0) = front_heads (xs @ [t])"
  by (cases xs) (auto simp: front_heads_def)

lemma front_heads_pop: "(front_heads (t # xs))(0 := hd_opt xs) = front_heads xs"
  by (auto simp: front_heads_def)

lemma front_heads_Nil: "front_heads [] = (\<lambda>_. None)"
  by (auto simp: front_heads_def)

definition pushed :: "'f async_push_info \<Rightarrow> 'f async_task \<Rightarrow> bool" where
  "pushed info task \<longleftrightarrow> t_has_queue task \<and> t_result_function task = p_result_function info \<and>
     t_task_function task = p_task_function info \<and> t_user_data task = p_user_data info \<and> \<not> t_is_cancelled task \<and>
     (t_is_signal_finish_event task \<longleftrightarrow> \<not> p_is_skip_finish_event info)"

lemma push_all_spec:
  "tasks_rep q xs \<Longrightarrow> heads_are q (front_heads xs) \<Longrightarrow> \<forall>t\<in>set ts. free_task q t \<Longrightarrow> distinct ts \<Longrightarrow>
    length xs + length ts < 2 ^ 32 \<Longrightarrow> p_priority info = 0 \<Longrightarrow> plain_push info \<Longrightarrow>
    \<exists>q'. push_all info ts q = Inr q' \<and> tasks_rep q' (xs @ ts) \<and> heads_are q' (front_heads (xs @ ts)) \<and>
      m_task_thread_array q' = m_task_thread_array q \<and> m_task_list q' = m_task_list q \<and> (\<forall>n. n \<notin> set ts \<longrightarrow> m_tasks q' n = m_tasks q n) \<and>
      m_calls q' = m_calls q \<and> (\<forall>t\<in>set ts. pushed info (m_tasks q' t))"
proof (induction ts arbitrary: q xs)
  case (Cons t ts)
  have p: "unat (p_priority info) = 0" using Cons.prems(6) by simp
  have l: "unat (p_priority info) < length (m_priority_level_array q)" using Cons.prems(1) p by (simp add: tasks_rep_def)
  obtain q1 where q1: "PushTask False None t info q = Inr (ResultSuccess, q1)" "tasks_rep q1 (xs @ [t])"
    "heads_are q1 (front_heads (xs @ [t]))" "\<And>n. n \<noteq> t \<Longrightarrow> free_task q n \<Longrightarrow> free_task q1 n"
    "m_task_thread_array q1 = m_task_thread_array q" "m_task_list q1 = m_task_list q" "pushed info (m_tasks q1 t)" "\<And>n. n \<noteq> t \<Longrightarrow> m_tasks q1 n = m_tasks q n"
    "m_calls q1 = m_calls q"
    by (rule push_task_spec [OF Cons.prems(1,2) _ _ l _ Cons.prems(7), of t False None, unfolded p front_heads_push])
      (use Cons.prems in \<open>auto simp: pushed_def\<close>)
  have f: "\<forall>u\<in>set ts. free_task q1 u"
  proof
    fix u assume "u \<in> set ts"
    then show "free_task q1 u" using Cons.prems(3,4) q1(4) [of u] by auto
  qed
  have d: "distinct ts" "t \<notin> set ts" using Cons.prems(4) by auto
  from Cons.IH [OF q1(2,3) f d(1) _ Cons.prems(6,7)] Cons.prems(5)
  obtain q' where q': "push_all info ts q1 = Inr q'" "tasks_rep q' (xs @ t # ts)" "heads_are q' (front_heads (xs @ t # ts))"
    "m_task_thread_array q' = m_task_thread_array q1" "m_task_list q' = m_task_list q1" "\<And>n. n \<notin> set ts \<Longrightarrow> m_tasks q' n = m_tasks q1 n" "\<forall>t\<in>set ts. pushed info (m_tasks q' t)"
    "m_calls q' = m_calls q1"
    by auto
  have "pushed info (m_tasks q' t)" using q1(7) q'(6) [OF d(2)] by simp
  then show ?case using q1 q' by simp
qed simp

lemma acquire_all_spec:
  "tasks_rep q xs \<Longrightarrow> heads_are q (front_heads xs) \<Longrightarrow> length ths = length xs \<Longrightarrow>
    \<exists>q'. acquire_all ths q = Inr (map Some xs, q') \<and> tasks_rep q' [] \<and> heads_are q' (\<lambda>_. None)"
proof (induction xs arbitrary: q ths)
  case Nil
  then show ?case by (simp add: front_heads_Nil)
next
  case (Cons t xs)
  obtain th ths' where ths: "ths = th # ths'" using Cons.prems(3) by (cases ths) auto
  have l: "0 < length (m_priority_level_array q)" using Cons.prems(1) by (simp add: tasks_rep_def)
  have h: "front_heads (t # xs) 0 = Some t" "\<And>i. 0 < i \<Longrightarrow> front_heads (t # xs) i = None" by (simp_all add: front_heads_def)
  obtain q1 where q1: "AcquireNextTask th q = Inr (Some t, q1)" "tasks_rep q1 xs" "heads_are q1 (front_heads xs)"
    by (rule acquire_spec [OF Cons.prems(1,2) l h, where th = th, simplified front_heads_pop if_True simp_thms]) simp_all
  from Cons.IH [OF q1(2,3), of ths'] Cons.prems(3) ths q1(1) show ?case by auto
qed

text \<open>The state of a new queue over unlinked tasks.\<close>

lemma initialized_queue:
  assumes "AsyncQueue_Initialize n k s links (\<lambda>_. AsyncTask_construct) = Inr q"
  shows "tasks_rep q [] \<and> heads_are q (\<lambda>_. None) \<and> m_task_list q = s \<and> length (m_priority_level_array q) = unat n \<and>
    (\<forall>t. t \<noteq> s \<longrightarrow> unlinked links t \<longrightarrow> free_task q t)"
proof -
  have n: "0 < n" and q: "q = \<lparr>m_tasks = \<lambda>_. AsyncTask_construct, m_links = construct_node s links, m_task_list = s, m_task_count = 0,
       m_priority_level_array = replicate (unat n) \<lparr>is_paused = False, async_task_head = None, priority_cleared_event = True\<rparr>,
       m_task_thread_array = [], m_all_task_complete_event = False, m_calls = []\<rparr>"
    using assms by (auto simp: AsyncQueue_Initialize_def bind_vp_assert split: if_splits)
  have "0 < unat n" using n by (simp add: word_less_nat_alt)
  then show ?thesis
    by (auto simp: q tasks_rep_def heads_are_def list_rep_def free_task_def unlinked_def link_defs AsyncTask_construct_def)
qed

text \<open>
  C22: At the lowest priority the queue is first in, first out.  On a new queue the tasks of any list of
  distinct unlinked tasks pushed at priority 0 are all accepted, and as many calls of \<open>AcquireNextTask\<close>, by any
  threads, hand them out in that order; then there is no next task.
\<close>

theorem async_queue_fifo:
  assumes "AsyncQueue_Initialize n k s links (\<lambda>_. AsyncTask_construct) = Inr q" and "distinct ts" and "s \<notin> set ts"
    and "\<forall>t\<in>set ts. unlinked links t" and "length ts < 2 ^ 32" and "length ths = length ts" and "p_priority info = 0" and "plain_push info"
  shows "\<exists>q' q'' q3. push_all info ts q = Inr q' \<and> acquire_all ths q' = Inr (map Some ts, q'') \<and> m_task_count q'' = 0 \<and>
    AcquireNextTask th q'' = Inr (None, q3)"
proof -
  note I = initialized_queue [OF assms(1)]
  have h: "heads_are q (front_heads [])" using I by (simp add: front_heads_Nil)
  have f: "\<forall>t\<in>set ts. free_task q t" using I assms(3,4) by metis
  obtain q' where q': "push_all info ts q = Inr q'" "tasks_rep q' ts" "heads_are q' (front_heads ts)"
    using push_all_spec [OF _ h f assms(2) _ assms(7,8)] I assms(5) by auto
  obtain q'' where q'': "acquire_all ths q' = Inr (map Some ts, q'')" "tasks_rep q'' []" "heads_are q'' (\<lambda>_. None)"
    using acquire_all_spec [OF q'(2,3) assms(6)] by auto
  obtain q3 where "AcquireNextTask th q'' = Inr (None, q3)" by (rule acquire_none [OF q''(3)])
  then show ?thesis using q' q'' by (simp add: tasks_rep_def)
qed

section \<open>A thread at work\<close>

text \<open>\<open>UpdateCompletion\<close> only signals events.\<close>

lemma UpdateCompletion_same [simp]:
  "m_links (UpdateCompletion q) = m_links q" "m_task_list (UpdateCompletion q) = m_task_list q"
  "m_task_count (UpdateCompletion q) = m_task_count q" "m_tasks (UpdateCompletion q) = m_tasks q"
  "m_task_thread_array (UpdateCompletion q) = m_task_thread_array q" "m_calls (UpdateCompletion q) = m_calls q"
  "length (m_priority_level_array (UpdateCompletion q)) = length (m_priority_level_array q)"
  by (simp_all add: UpdateCompletion_def UpdatePriorityLevelCompletion_def UpdateAllTaskCompletion_def Let_def)

lemma UpdateCompletion_level [simp]:
  assumes "i < length (m_priority_level_array q)"
  shows "is_paused (m_priority_level_array (UpdateCompletion q) ! i) = is_paused (m_priority_level_array q ! i)"
    and "async_task_head (m_priority_level_array (UpdateCompletion q) ! i) = async_task_head (m_priority_level_array q ! i)"
  using assms by (simp_all add: UpdateCompletion_def UpdatePriorityLevelCompletion_def UpdateAllTaskCompletion_def Let_def nth_enumerate_eq)

lemma UpdateCompletion_rep [simp]: "tasks_rep (UpdateCompletion q) xs = tasks_rep q xs" "heads_are (UpdateCompletion q) H = heads_are q H"
  by (simp_all add: tasks_rep_def heads_are_def all_set_conv_all_nth)

lemma retire_same [simp]:
  "m_links (ThreadMain_retire r i t q) = m_links q" "m_task_list (ThreadMain_retire r i t q) = m_task_list q"
  "length (m_task_thread_array (ThreadMain_retire r i t q)) = length (m_task_thread_array q)"
  "m_calls (ThreadMain_retire r i t q) = m_calls q"
  "m_tasks (ThreadMain_retire r i t q) = (if r then m_tasks q
     else (m_tasks q)(t := (signal_finish ((m_tasks q t)\<lparr>t_status := Complete\<rparr>))\<lparr>t_is_free_for_allocator := True\<rparr>))"
  by (simp_all add: ThreadMain_retire_def InvokeFreeExecute_def Let_def)

lemma upd_heads [simp]: "heads_are (upd_thread i u q) H = heads_are q H" "heads_are (upd_task t v q) H = heads_are q H"
  "heads_are (called cs q) H = heads_are q H"
  by (simp_all add: heads_are_def)

lemma upd_thread_rep [simp]: "tasks_rep (upd_thread i u q) xs = tasks_rep q xs"
  by (simp add: tasks_rep_def)

lemma construct_rep [simp]: "tasks_rep (AsyncQueueThread_construct b q) xs = tasks_rep q xs"
  "heads_are (AsyncQueueThread_construct b q) H = heads_are q H" "m_task_list (AsyncQueueThread_construct b q) = m_task_list q"
  "free_task (AsyncQueueThread_construct b q) t = free_task q t"
  by (simp_all add: tasks_rep_def heads_are_def AsyncQueueThread_construct_def free_task_def)

lemma retire_rep:
  assumes "tasks_rep q xs" and "t \<notin> set xs"
  shows "tasks_rep (ThreadMain_retire r i t q) xs"
proof -
  have "tasks_rep (InvokeFreeExecute t q) xs" using assms by (auto simp: InvokeFreeExecute_def tasks_rep_def signal_finish_def)
  then show ?thesis using assms(1) by (simp add: ThreadMain_retire_def Let_def)
qed

lemma retire_heads: "heads_are (ThreadMain_retire r i t q) H = heads_are q H"
  by (simp add: ThreadMain_retire_def Let_def InvokeFreeExecute_def)

definition finished_as :: "'f async_push_info \<Rightarrow> bool \<Rightarrow> 'f async_task \<Rightarrow> bool" where
  "finished_as info rescheduled task \<longleftrightarrow>
     (if p_result_function info \<noteq> None \<and> rescheduled then t_status task = PostExecute
      else t_status task = Complete \<and> t_is_free_for_allocator task \<and> (\<not> p_is_skip_finish_event info \<longrightarrow> t_finish_event task))"

text \<open>The calls one task leads to: its function, then its result function, which is told that it was not cancelled.\<close>

definition task_calls :: "'f async_push_info \<Rightarrow> 'p \<Rightarrow> ('p, 'f) async_call list" where
  "task_calls info t =
     (case p_task_function info of None \<Rightarrow> [] | Some f \<Rightarrow> [Task_Call t f (p_user_data info)]) @
     (case p_result_function info of None \<Rightarrow> [] | Some f \<Rightarrow> [Result_Call t f (p_user_data info) False])"

lemma round_spec:
  assumes "tasks_rep q (t # xs)" and "heads_are q (front_heads (t # xs))" and "pushed info (m_tasks q t)"
  obtains q1 q2 r where "AcquireNextTask i q = Inr (Some t, q1)" and "AsyncTask_Invoke res t q1 = Inr (r, q2)"
    and "tasks_rep (ThreadMain_retire r i t q2) xs" and "heads_are (ThreadMain_retire r i t q2) (front_heads xs)"
    and "finished_as info res (m_tasks (ThreadMain_retire r i t q2) t)"
    and "\<And>n. n \<noteq> t \<Longrightarrow> m_tasks (ThreadMain_retire r i t q2) n = m_tasks q n"
    and "m_task_list (ThreadMain_retire r i t q2) = m_task_list q"
    and "m_calls (ThreadMain_retire r i t q2) = m_calls q @ task_calls info t"
proof -
  have l: "0 < length (m_priority_level_array q)" using assms(1) by (simp add: tasks_rep_def)
  have h: "front_heads (t # xs) 0 = Some t" "\<And>i. 0 < i \<Longrightarrow> front_heads (t # xs) i = None" by (simp_all add: front_heads_def)
  obtain q1 where q1: "AcquireNextTask i q = Inr (Some t, q1)" "tasks_rep q1 xs" "heads_are q1 (front_heads xs)"
    "m_task_list q1 = m_task_list q"
    "m_tasks q1 = (m_tasks q)(t := (m_tasks q t)\<lparr>t_status := Acquired, t_queue_thread := Some i\<rparr>)" "m_calls q1 = m_calls q"
    by (rule acquire_spec [OF assms(1,2) l h, where th = i, simplified front_heads_pop if_True simp_thms]) simp_all
  have t: "t \<notin> set xs" using assms(1) by (simp add: tasks_rep_def list_rep_def)
  define r where "r = (p_result_function info \<noteq> None \<and> res)"
  define task where "task = (if p_result_function info \<noteq> None
    then (m_tasks q1 t)\<lparr>t_status := PostExecute, t_cancel_function := None, t_result_function := None, t_queue_thread := None\<rparr>
    else (m_tasks q1 t)\<lparr>t_status := PostExecute, t_cancel_function := None\<rparr>)"
  define q2 where "q2 = called (task_calls info t) (upd_task t (\<lambda>_. task) q1)"
  have run: "AsyncTask_Invoke res t q1 = Inr (r, q2)"
    using assms(3)
    by (auto simp: AsyncTask_Invoke_def AsyncTask_Execute_def Let_def q2_def task_def task_calls_def r_def pushed_def q1(5) upd_task_def called_def
      split: option.split)
  have "tasks_rep q2 xs" using q1(2) t by (auto simp: q2_def tasks_rep_def task_def)
  then have rep: "tasks_rep (ThreadMain_retire r i t q2) xs" using t by (rule retire_rep)
  have heads: "heads_are (ThreadMain_retire r i t q2) (front_heads xs)" using q1(3) by (simp add: retire_heads q2_def)
  have fin: "finished_as info res (m_tasks (ThreadMain_retire r i t q2) t)"
    using assms(3) by (auto simp: finished_as_def r_def q2_def task_def q1(5) signal_finish_def pushed_def)
  show thesis by (rule that [OF q1(1) run rep heads fin]) (simp_all add: q2_def q1(4-6))
qed

lemma loop_spec:
  "tasks_rep q xs \<Longrightarrow> heads_are q (front_heads xs) \<Longrightarrow> \<forall>t\<in>set xs. pushed info (m_tasks q t) \<Longrightarrow>
    \<exists>q'. ThreadMain_loop res (\<lambda>_. False) i q = ret q' \<and> m_task_count q' = 0 \<and> list_rep (m_links q') (m_task_list q') [] \<and>
      m_task_list q' = m_task_list q \<and> m_calls q' = m_calls q @ concat (map (task_calls info) xs) \<and>
      (\<forall>t\<in>set xs. finished_as info (res t) (m_tasks q' t)) \<and> (\<forall>n. n \<notin> set xs \<longrightarrow> m_tasks q' n = m_tasks q n)"
proof (induction xs arbitrary: q)
  case Nil
  obtain q' where "AcquireNextTask i q = Inr (None, q')" "m_task_count q' = m_task_count q" "m_links q' = m_links q"
    "m_tasks q' = m_tasks q" "m_task_list q' = m_task_list q" "m_calls q' = m_calls q"
    by (rule acquire_none [of q i]) (use Nil in \<open>simp_all add: front_heads_Nil\<close>)
  then show ?case using Nil by (subst ThreadMain_loop.simps) (simp add: tasks_rep_def)
next
  case (Cons t xs)
  have pt: "pushed info (m_tasks q t)" using Cons.prems(3) by simp
  obtain q1 q2 r where s: "AcquireNextTask i q = Inr (Some t, q1)" "AsyncTask_Invoke (res t) t q1 = Inr (r, q2)"
    "tasks_rep (ThreadMain_retire r i t q2) xs" "heads_are (ThreadMain_retire r i t q2) (front_heads xs)"
    "finished_as info (res t) (m_tasks (ThreadMain_retire r i t q2) t)"
    "\<And>n. n \<noteq> t \<Longrightarrow> m_tasks (ThreadMain_retire r i t q2) n = m_tasks q n"
    "m_task_list (ThreadMain_retire r i t q2) = m_task_list q"
    "m_calls (ThreadMain_retire r i t q2) = m_calls q @ task_calls info t"
    by (rule round_spec [OF Cons.prems(1,2) pt, where i = i and res = "res t"]) blast
  have t: "t \<notin> set xs" using Cons.prems(1) by (simp add: tasks_rep_def list_rep_def)
  have p: "\<forall>u\<in>set xs. pushed info (m_tasks (ThreadMain_retire r i t q2) u)"
  proof
    fix u assume u: "u \<in> set xs"
    then have "u \<noteq> t" using t by auto
    from s(6) [OF this] show "pushed info (m_tasks (ThreadMain_retire r i t q2) u)" using Cons.prems(3) u by simp
  qed
  from Cons.IH [OF s(3,4) p] obtain q' where q': "ThreadMain_loop res (\<lambda>_. False) i (ThreadMain_retire r i t q2) = ret q'" "m_task_count q' = 0"
    "list_rep (m_links q') (m_task_list q') []" "\<forall>u\<in>set xs. finished_as info (res u) (m_tasks q' u)"
    "\<And>n. n \<notin> set xs \<Longrightarrow> m_tasks q' n = m_tasks (ThreadMain_retire r i t q2) n"
    "m_task_list q' = m_task_list (ThreadMain_retire r i t q2)"
    "m_calls q' = m_calls (ThreadMain_retire r i t q2) @ concat (map (task_calls info) xs)" by auto
  have "ThreadMain_loop res (\<lambda>_. False) i q = ret q'" using s(1,2) q'(1) by (subst ThreadMain_loop.simps) simp
  moreover have "finished_as info (res t) (m_tasks q' t)" using q'(5) [OF t] s(5) by simp
  ultimately show ?case using q' s(6-8) by (intro exI [of _ q']) auto
qed

text \<open>
  C7: A thread that is resumed works off the whole queue.  After any distinct unlinked tasks were pushed at
  priority 0 to a new queue, \<open>ThreadMain\<close> of a thread that is not suspended ends: the list is empty, every task
  whose result function did not answer that it is rescheduled is \<open>Complete\<close> with its finish event signalled,
  unless the push asked to skip it, and the rescheduled ones are left in \<open>PostExecute\<close>.  The functions of
  the tasks, where there are any, have been called once each, in the order in which the tasks were pushed: the
  task function with the user data, then the result function with them and the word that the task was not
  cancelled; nothing else was called.
\<close>

theorem async_thread_drains_queue:
  assumes "AsyncQueue_Initialize n k s links (\<lambda>_. AsyncTask_construct) = Inr q" and "distinct ts" and "s \<notin> set ts"
    and "\<forall>t\<in>set ts. unlinked links t" and "length ts < 2 ^ 32" and "p_priority info = 0" and "plain_push info"
  shows "\<exists>q1 q2. push_all info ts (AsyncQueueThread_construct False q) = Inr q1 \<and>
    ThreadMain res (\<lambda>_. False) Message_Resume 0 q1 = ret q2 \<and> m_task_count q2 = 0 \<and> list_rep (m_links q2) s [] \<and>
    (\<forall>t\<in>set ts. finished_as info (res t) (m_tasks q2 t)) \<and> m_calls q2 = concat (map (task_calls info) ts)"
proof -
  let ?q = "AsyncQueueThread_construct False q"
  note I = initialized_queue [OF assms(1)]
  have q: "m_task_thread_array q = []" "m_calls q = []" using assms(1) by (auto simp: AsyncQueue_Initialize_def bind_vp_assert split: if_splits)
  have rep: "tasks_rep ?q []" and h: "heads_are ?q (front_heads [])" and s: "m_task_list ?q = s"
    using I by (simp_all add: front_heads_Nil)
  have f: "\<forall>t\<in>set ts. free_task ?q t"
  proof
    fix t assume "t \<in> set ts"
    then have "free_task q t" using I assms(3,4) by metis
    then show "free_task ?q t" by simp
  qed
  obtain q1 where q1: "push_all info ts ?q = Inr q1" "tasks_rep q1 ts" "heads_are q1 (front_heads ts)"
    "m_task_thread_array q1 = m_task_thread_array ?q" "\<forall>t\<in>set ts. pushed info (m_tasks q1 t)" "m_task_list q1 = m_task_list ?q"
    "m_calls q1 = m_calls ?q"
    using push_all_spec [OF rep h f assms(2) _ assms(6,7)] assms(5) by auto
  have th: "m_task_thread_array q1 = [\<lparr>m_status = Active_Status, m_is_finished = True, m_is_suspended = False,
       m_current_task = None, m_execute_event = True, m_suspend_event = True\<rparr>]"
    using q q1(4) by (simp add: AsyncQueueThread_construct_def)
  let ?q1 = "upd_thread 0 (\<lambda>th. th\<lparr>m_is_finished := False\<rparr>) q1"
  have e: "ThreadMain_enter Message_Resume 0 q1 = (True, ?q1)" using th by (simp add: ThreadMain_enter_def Message_Resume_def Message_Suspend_def)
  have r1: "tasks_rep ?q1 ts" "\<forall>t\<in>set ts. pushed info (m_tasks ?q1 t)" using q1 by (simp_all add: tasks_rep_def)
  have h1: "heads_are ?q1 (front_heads ts)" using q1 by simp
  obtain q2 where q2: "ThreadMain_loop res (\<lambda>_. False) 0 ?q1 = ret q2" "m_task_count q2 = 0" "list_rep (m_links q2) (m_task_list q2) []"
    "\<forall>t\<in>set ts. finished_as info (res t) (m_tasks q2 t)" "m_task_list q2 = m_task_list ?q1"
    "m_calls q2 = m_calls ?q1 @ concat (map (task_calls info) ts)"
    using loop_spec [OF r1(1) h1 r1(2)] by blast
  have "m_calls q1 = []" using q1(7) q(2) by (simp add: AsyncQueueThread_construct_def)
  then show ?thesis using q1 q2 e s by (simp add: ThreadMain_def)
qed

section \<open>Waiting for all tasks\<close>

text \<open>
  What threads and pushers do to the queue: each step is one locked section or one thread's own step, taken in
  any order.
\<close>

inductive async_step :: "('p, 'f) async_queue \<Rightarrow> ('p, 'f) async_queue \<Rightarrow> bool" where
  construct: "async_step q (AsyncQueueThread_construct suspended q)"
| enter: "i < length (m_task_thread_array q) \<Longrightarrow> m_is_finished (m_task_thread_array q ! i) \<Longrightarrow>
    ThreadMain_enter message i q = (go, q') \<Longrightarrow> async_step q q'"
| acquire: "i < length (m_task_thread_array q) \<Longrightarrow> \<not> m_is_finished (m_task_thread_array q ! i) \<Longrightarrow>
    AcquireNextTask i q = Inr (t, q') \<Longrightarrow> async_step q q'"
| invoke: "AsyncTask_Invoke answer t q = Inr (rescheduled, q') \<Longrightarrow> async_step q q'"
| retire: "i < length (m_task_thread_array q) \<Longrightarrow> \<not> m_is_finished (m_task_thread_array q ! i) \<Longrightarrow>
    async_step q (ThreadMain_retire rescheduled i t q)"
| leave: "i < length (m_task_thread_array q) \<Longrightarrow> \<not> m_is_finished (m_task_thread_array q ! i) \<Longrightarrow>
    async_step q (upd_thread i (\<lambda>th. th\<lparr>m_is_finished := True\<rparr>) q)"
| push: "PushTask answer current t info q = Inr (r, q') \<Longrightarrow> async_step q q'"

lemma not_all_finished:
  assumes "i < length (m_task_thread_array q)" and "\<not> m_is_finished (m_task_thread_array q ! i)"
  shows "UpdateAllTaskCompletion q = (False, q)"
proof -
  have "\<not> (\<forall>th\<in>set (m_task_thread_array q). m_is_finished th)" using assms nth_mem by metis
  then show ?thesis by (simp only: UpdateAllTaskCompletion_def Let_def if_False)
qed

lemma level_event:
  "upd_level i u q = Inr q' \<Longrightarrow> m_all_task_complete_event q' = m_all_task_complete_event q"
  by (auto simp: upd_level_def bind_result_Inr_iff)

lemma acquire_event:
  assumes "i < length (m_task_thread_array q)" and "\<not> m_is_finished (m_task_thread_array q ! i)" and "AcquireNextTask i q = Inr (t, q')"
  shows "m_all_task_complete_event q' = m_all_task_complete_event q"
proof -
  have "(if m_task_count q = 0 then UpdateAllTaskCompletion q else (False, q)) = (False, q)" using not_all_finished [OF assms(1,2)] by simp
  then show ?thesis using assms(3)
    by (auto simp: AcquireNextTask_def Let_def bind_result_Inr_iff level_event split: option.splits)
qed

lemma retire_event:
  assumes "i < length (m_task_thread_array q)" and "\<not> m_is_finished (m_task_thread_array q ! i)"
  shows "m_all_task_complete_event (ThreadMain_retire r i t q) = m_all_task_complete_event q"
proof -
  let ?q = "upd_thread i (\<lambda>th. th\<lparr>m_execute_event := True\<rparr>) (if \<not> r then InvokeFreeExecute t q else q)"
  have "UpdateAllTaskCompletion ?q = (False, ?q)"
    by (rule not_all_finished [of i]) (use assms in \<open>simp_all add: InvokeFreeExecute_def\<close>)
  then show ?thesis by (simp add: ThreadMain_retire_def Let_def UpdateCompletion_def UpdatePriorityLevelCompletion_def InvokeFreeExecute_def)
qed

lemma Invoke_event: "AsyncTask_Invoke a t q = Inr (r, q') \<Longrightarrow> m_all_task_complete_event q' = m_all_task_complete_event q"
  by (auto simp: AsyncTask_Invoke_def Let_def split: if_splits option.splits)

lemma link_event: "link_task t p q = Inr q' \<Longrightarrow> m_all_task_complete_event q' = m_all_task_complete_event q"
  by (auto simp: link_task_def bind_result_Inr_iff dest!: level_event split: if_splits option.splits)

lemma InvokeSync_event: "InvokeSync a th t q = Inr q' \<Longrightarrow> m_all_task_complete_event q' = m_all_task_complete_event q"
  by (auto simp: InvokeSync_def bind_result_Inr_iff InvokeFreeExecute_def dest: Invoke_event split: if_splits)

lemma TryInvokeSync_event: "TryInvokeSync a c t q = Inr (r, q') \<Longrightarrow> m_all_task_complete_event q' = m_all_task_complete_event q"
  by (auto simp: TryInvokeSync_def bind_result_Inr_iff dest: InvokeSync_event split: if_splits option.splits)

lemma TryInvokeSync_links: "TryInvokeSync a c t q = Inr (r, q') \<Longrightarrow> m_links q' = m_links q"
  by (auto simp: TryInvokeSync_def InvokeSync_def AsyncTask_Invoke_def Let_def InvokeFreeExecute_def bind_result_Inr_iff
    split: if_splits option.splits)

lemma push_locked_event:
  assumes "push_locked t p q = Inr q'" and "\<not> m_all_task_complete_event q"
  shows "\<not> m_all_task_complete_event q'"
proof -
  obtain q1 q2 where q: "link_task t p q = Inr q1" "set_head t p (q1\<lparr>m_task_count := m_task_count q1 + 1\<rparr>) = Inr q2"
    and q': "q' = (let q = upd_task t (\<lambda>t. t\<lparr>t_status := Queued\<rparr>) q2 in if m_task_count q = 1 then q\<lparr>m_all_task_complete_event := False\<rparr> else q)"
    using assms(1) by (auto simp: push_locked_def bind_result_Inr_iff Let_def)
  have "m_all_task_complete_event q2 = m_all_task_complete_event q1" using level_event [OF q(2) [unfolded set_head_def]] by simp
  then show ?thesis using q' assms(2) link_event [OF q(1)] by (simp add: Let_def)
qed

lemma push_event:
  assumes "PushTask a c t info q = Inr (r, q')" and "\<not> m_all_task_complete_event q"
  shows "\<not> m_all_task_complete_event q'"
proof (cases "q' = q")
  case False
  let ?q = "upd_task t (\<lambda>t. t\<lparr>t_has_queue := True, t_task_function := p_task_function info, t_result_function := p_result_function info,
                    t_cancel_function := p_cancel_function info, t_user_data := p_user_data info,
                    t_is_signal_finish_event := (p_is_sync info \<or> \<not> p_is_skip_finish_event info)\<rparr>) q"
  obtain invoked q1 where q1: "(if p_is_sync info then TryInvokeSync a c t ?q else Inr (False, ?q)) = Inr (invoked, q1)"
    and q': "(if invoked then Inr (ResultSuccess, q1) else bind_result (push_locked t (p_priority info) q1) (\<lambda>q. Inr (ResultSuccess, q))) = Inr (r, q')"
    using assms(1) False by (auto simp: PushTask_def bind_result_Inr_iff Let_def split: if_split_asm)
  have "\<not> m_all_task_complete_event q1" using q1 assms(2) TryInvokeSync_event [of a c t ?q invoked q1] by (auto split: if_split_asm)
  then show ?thesis using q' push_locked_event [of t "p_priority info" q1 q'] by (auto simp: bind_result_Inr_iff split: if_split_asm)
qed (use assms(2) in simp)

lemma enter_event: "ThreadMain_enter message i q = (go, q') \<Longrightarrow> m_all_task_complete_event q' = m_all_task_complete_event q"
  by (auto simp: ThreadMain_enter_def split: if_splits)

lemma async_step_event: "async_step q q' \<Longrightarrow> \<not> m_all_task_complete_event q \<Longrightarrow> \<not> m_all_task_complete_event q'"
proof (induction rule: async_step.induct)
  case (acquire i q t q')
  then show ?case using acquire_event by blast
qed (auto simp: AsyncQueueThread_construct_def retire_event dest: enter_event Invoke_event push_event)

text \<open>
  C27: Nothing that works for a queue ever releases \<open>AsyncQueue::Wait\<close>.  From a new queue, whatever threads are
  constructed, enter, acquire, invoke, retire and leave and whatever is pushed, in any interleaving, the event
  of all tasks complete stays cleared: a thread asks for it only in its own loop, where it is not finished itself.
\<close>

theorem async_queue_wait_not_released:
  assumes "AsyncQueue_Initialize n k s links tasks = Inr q" and "async_step\<^sup>*\<^sup>* q q'"
  shows "\<not> m_all_task_complete_event q'"
proof -
  have "\<not> m_all_task_complete_event q" using assms(1) by (auto simp: AsyncQueue_Initialize_def bind_vp_assert split: if_splits)
  with assms(2) show ?thesis by (induction rule: rtranclp_induct) (auto dest: async_step_event)
qed

section \<open>Tasks that are lost\<close>

text \<open>
  A task \<open>b\<close> right behind the list's own node \<open>s\<close> that no level has as its head: nothing before it in the list
  is ever a head either, so no thread gets to it.
\<close>

definition stranded_links :: "'p \<Rightarrow> 'p \<Rightarrow> 'p links \<Rightarrow> bool" where
  "stranded_links s b h \<longleftrightarrow> b \<noteq> s \<and> m_next h s = b \<and> m_prev h b = s \<and> m_prev h s \<noteq> s \<and>
     (\<forall>x. m_next h x = b \<longrightarrow> x = s) \<and> (\<forall>x. m_prev h x = s \<longrightarrow> x = b)"

definition stranded :: "'p \<Rightarrow> 'p \<Rightarrow> ('p, 'f) async_queue \<Rightarrow> bool" where
  "stranded s b q \<longleftrightarrow> m_task_list q = s \<and> stranded_links s b (m_links q) \<and>
     (\<forall>l\<in>set (m_priority_level_array q). async_task_head l \<noteq> Some b \<and> async_task_head l \<noteq> Some s)"

lemma stranded_cong:
  "m_task_list q' = m_task_list q \<Longrightarrow> m_links q' = m_links q \<Longrightarrow> m_priority_level_array q' = m_priority_level_array q \<Longrightarrow>
    stranded s b q' = stranded s b q"
  by (simp add: stranded_def)

lemma stranded_linksD:
  assumes "stranded_links s b h"
  shows "b \<noteq> s" and "m_next h s = b" and "m_prev h b = s" and "m_prev h s \<noteq> s" and "m_next h x = b \<Longrightarrow> x = s" and "m_prev h x = s \<Longrightarrow> x = b"
  using assms unfolding stranded_links_def by blast+

lemma stranded_links_PushBack:
  assumes "stranded_links s b h" and "m_next h t = t"
  shows "stranded_links s b (list_PushBack s t h)"
proof -
  note d = stranded_linksD [OF assms(1)]
  have t: "t \<noteq> b" "t \<noteq> s" using d(1,2) d(5) [of t] assms(2) by metis+
  have n: "m_next (list_PushBack s t h) = (m_next h)(m_prev h t := s, m_prev h s := t)"
    "m_prev (list_PushBack s t h) = (m_prev h)(t := m_prev h s, s := m_prev h t)" using t by (auto simp: list_PushBack_def link_defs)
  show ?thesis unfolding stranded_links_def n fun_upd_apply by (intro conjI allI impI; metis d t)
qed

lemma stranded_links_LinkNext:
  assumes "stranded_links s b h" and "m_next h t = t" and "head \<noteq> b" and "head \<noteq> s"
  shows "stranded_links s b (LinkNext head t h)"
proof -
  note d = stranded_linksD [OF assms(1)]
  have t: "t \<noteq> b" "t \<noteq> s" using d(1,2) d(5) [of t] assms(2) by metis+
  have n: "m_next (LinkNext head t h) = (m_next h)(t := m_next h head, head := t)"
    "m_prev (LinkNext head t h) = (m_prev h)(t := head, m_next h head := t)" using assms(2) by (auto simp: link_defs)
  show ?thesis unfolding stranded_links_def n fun_upd_apply by (intro conjI allI impI; metis d t assms(3,4))
qed

lemma stranded_links_Unlink:
  assumes "stranded_links s b h" and "t \<noteq> b" and "t \<noteq> s"
  shows "stranded_links s b (Unlink t h)"
proof -
  note d = stranded_linksD [OF assms(1)]
  have n: "m_next (Unlink t h) = (m_next h)(m_prev h t := m_next h t, t := t)"
    "m_prev (Unlink t h) = (m_prev h)(m_next h t := m_prev h t, t := t)" by (auto simp: link_defs)
  show ?thesis unfolding stranded_links_def n fun_upd_apply by (intro conjI allI impI; metis d assms(2,3))
qed

lemma next_level_head: "next_level levels n = Some (i, t) \<Longrightarrow> i < n \<and> async_task_head (levels ! i) = Some t"
  by (induction n) (auto split: if_splits option.splits)

lemma stranded_next_head:
  assumes "stranded s b q" and "t \<noteq> s"
  shows "next_head q t p \<noteq> Some b \<and> next_head q t p \<noteq> Some s"
proof -
  have "m_next (m_links q) t \<noteq> b" using assms stranded_linksD(5) [of s b "m_links q" t] unfolding stranded_def by blast
  then show ?thesis using assms(1) by (simp add: next_head_def Let_def list_GetNext_def stranded_def)
qed

lemma stranded_upd_level:
  assumes "upd_level i u q = Inr q'" and "stranded s b q"
    and "\<And>l. async_task_head (u l) = async_task_head l \<or> async_task_head (u l) \<noteq> Some b \<and> async_task_head (u l) \<noteq> Some s"
  shows "stranded s b q'"
proof -
  let ?l = "m_priority_level_array q ! unat i"
  have l: "?l \<in> set (m_priority_level_array q)" and q': "q' = q\<lparr>m_priority_level_array := (m_priority_level_array q)[unat i := u ?l]\<rparr>"
    using assms(1) by (auto simp: upd_level_def level_at_def bind_vp_assert load_def split: if_splits)
  have "async_task_head (u ?l) \<noteq> Some b \<and> async_task_head (u ?l) \<noteq> Some s"
    using assms(2) assms(3) [of ?l] l by (auto simp: stranded_def)
  then have "\<forall>l\<in>insert (u ?l) (set (m_priority_level_array q)). async_task_head l \<noteq> Some b \<and> async_task_head l \<noteq> Some s"
    using assms(2) by (simp add: stranded_def)
  then have "\<forall>l\<in>set ((m_priority_level_array q)[unat i := u ?l]). async_task_head l \<noteq> Some b \<and> async_task_head l \<noteq> Some s"
    using set_update_subset_insert by fast
  then show ?thesis using assms(2) by (simp add: stranded_def q')
qed

lemma stranded_upd_task [simp]: "stranded s b (upd_task t u q) = stranded s b q" "stranded s b (upd_thread i v q) = stranded s b q"
  "stranded s b (called cs q) = stranded s b q"
  by (rule stranded_cong; simp)+

lemma stranded_UpdateCompletion [simp]: "stranded s b (UpdateCompletion q) = stranded s b q"
  "stranded s b (snd (UpdateAllTaskCompletion q)) = stranded s b q"
proof -
  show "stranded s b (UpdateCompletion q) = stranded s b q" by (simp add: stranded_def all_set_conv_all_nth)
  show "stranded s b (snd (UpdateAllTaskCompletion q)) = stranded s b q"
    by (rule stranded_cong) (simp_all add: UpdateAllTaskCompletion_def Let_def)
qed

text \<open>Acquiring neither hands out \<open>b\<close> nor brings a thread closer to it.\<close>

lemma stranded_acquire:
  assumes "AcquireNextTask i q = Inr (r, q')" and "stranded s b q"
  shows "r \<noteq> Some b \<and> stranded s b q'"
proof -
  define q1 where "q1 = (if m_task_count q = 0 then snd (UpdateAllTaskCompletion q) else q)"
  have s1: "stranded s b q1" using assms(2) by (simp add: q1_def)
  from assms(1) consider "r = None" "q' = upd_thread i (\<lambda>th. th\<lparr>m_current_task := None\<rparr>) q1"
    | k t q2 where "next_level (m_priority_level_array q1) (length (m_priority_level_array q1)) = Some (k, t)"
        "upd_level (of_nat k) (\<lambda>l. l\<lparr>async_task_head := next_head q1 t (of_nat k)\<rparr>) q1 = Inr q2" "r = Some t"
        "q' = upd_thread i (\<lambda>th. th\<lparr>m_current_task := Some t\<rparr>) (upd_task t (\<lambda>t. t\<lparr>t_status := Acquired, t_queue_thread := Some i\<rparr>)
          (q2\<lparr>m_links := Unlink t (m_links q2), m_task_count := m_task_count q2 - 1\<rparr>))"
    by (auto simp: AcquireNextTask_def Let_def q1_def bind_result_Inr_iff split: option.splits if_splits prod.splits)
  then show ?thesis
  proof cases
    case 1
    then show ?thesis using s1 by simp
  next
    case 2
    have "async_task_head (m_priority_level_array q1 ! k) = Some t" "k < length (m_priority_level_array q1)"
      using next_level_head [OF 2(1)] by auto
    then have t: "t \<noteq> b" "t \<noteq> s" using s1 nth_mem by (fastforce simp: stranded_def)+
    have "stranded s b q2" by (rule stranded_upd_level [OF 2(2) s1]) (use stranded_next_head [OF s1 t(2)] in simp)
    then have "stranded s b (q2\<lparr>m_links := Unlink t (m_links q2), m_task_count := m_task_count q2 - 1\<rparr>)"
      using t by (simp add: stranded_def stranded_links_Unlink)
    then show ?thesis using 2 t by simp
  qed
qed

lemma stranded_head:
  assumes "level_at i q = Inr l" and "stranded s b q"
  shows "async_task_head l \<noteq> Some b \<and> async_task_head l \<noteq> Some s"
proof -
  have "l \<in> set (m_priority_level_array q)" using assms(1) by (auto simp: level_at_def bind_vp_assert load_def split: if_splits)
  then show ?thesis using assms(2) by (simp add: stranded_def)
qed

lemma stranded_Invoke: "AsyncTask_Invoke r t q = Inr (r', q') \<Longrightarrow> stranded s b q' = stranded s b q"
proof -
  have "stranded s b (AsyncTask_Execute t q) = stranded s b q" by (rule stranded_cong) simp_all
  then show "AsyncTask_Invoke r t q = Inr (r', q') \<Longrightarrow> stranded s b q' = stranded s b q"
    by (auto simp: AsyncTask_Invoke_def Let_def split: if_splits option.splits)
qed

lemma stranded_Free [simp]: "stranded s b (InvokeFreeExecute t q) = stranded s b q"
  by (simp add: InvokeFreeExecute_def)

lemma stranded_InvokeSync:
  assumes "InvokeSync r i t q = Inr q'"
  shows "stranded s b q' = stranded s b q"
proof -
  have has: "t_has_queue (m_tasks q t)" using assms by (auto simp: InvokeSync_def split: if_split_asm)
  obtain x q1 where q1: "AsyncTask_Invoke r t (upd_task t (\<lambda>t. t\<lparr>t_queue_thread := Some i, t_status := Queued\<rparr>) q) = Inr (x, q1)"
    and q': "q' = (if \<not> x then InvokeFreeExecute t q1 else q1)"
    using assms has by (auto simp: InvokeSync_def bind_result_Inr_iff simp del: if_not_P split del: if_split)
  show ?thesis using stranded_Invoke [OF q1, of s b] by (simp add: q')
qed

lemma stranded_TryInvokeSync:
  assumes "TryInvokeSync r c t q = Inr (x, q')"
  shows "stranded s b q' = stranded s b q"
  using assms stranded_InvokeSync [of r _ t q q' s b] by (auto simp: TryInvokeSync_def bind_result_Inr_iff split: if_split_asm option.splits)

lemma stranded_push_locked:
  assumes "push_locked t p q = Inr q'" and K: "stranded s b q" and t: "m_next (m_links q) t = t"
  shows "stranded s b q'"
proof -
  obtain q1 q2 where q: "link_task t p q = Inr q1" "set_head t p (q1\<lparr>m_task_count := m_task_count q1 + 1\<rparr>) = Inr q2"
    and q': "q' = (let q = upd_task t (\<lambda>t. t\<lparr>t_status := Queued\<rparr>) q2 in if m_task_count q = 1 then q\<lparr>m_all_task_complete_event := False\<rparr> else q)"
    using assms(1) by (auto simp: push_locked_def bind_result_Inr_iff Let_def)
  have sl: "m_task_list q = s" "stranded_links s b (m_links q)" using K by (simp_all add: stranded_def)
  have tn: "t \<noteq> b \<and> t \<noteq> s" using stranded_linksD(1,2) [OF sl(2)] stranded_linksD(5) [OF sl(2), of t] t by metis
  have pushed_back: "stranded s b (q\<lparr>m_links := list_PushBack s t (m_links q)\<rparr>)" using K stranded_links_PushBack [OF sl(2) t] by (simp add: stranded_def)
  from q(1) consider "upd_level p (\<lambda>l. l\<lparr>priority_cleared_event := False\<rparr>) (q\<lparr>m_links := list_PushBack s t (m_links q)\<rparr>) = Inr q1"
    | i l head where "level_at i q = Inr l" "async_task_head l = Some head" "q1 = q\<lparr>m_links := LinkNext head t (m_links q)\<rparr>"
    by (auto simp: link_task_def bind_result_Inr_iff sl(1) split: if_split_asm option.splits)
  then have "stranded s b q1"
  proof cases
    case 1
    then show ?thesis by (rule stranded_upd_level [OF _ pushed_back]) simp
  next
    case 2
    have "head \<noteq> b" "head \<noteq> s" using stranded_head [OF 2(1) K] 2(2) by auto
    then have "stranded_links s b (LinkNext head t (m_links q))" by (rule stranded_links_LinkNext [OF sl(2) t])
    then show ?thesis using K by (simp add: 2(3) stranded_def)
  qed
  then have "stranded s b (q1\<lparr>m_task_count := m_task_count q1 + 1\<rparr>)" by (simp add: stranded_def)
  then have "stranded s b q2" by (rule stranded_upd_level [OF q(2) [unfolded set_head_def]]) (use tn in auto)
  then have "stranded s b (upd_task t (\<lambda>t. t\<lparr>t_status := Queued\<rparr>) q2)" by simp
  then show ?thesis by (simp add: q' Let_def stranded_def)
qed

lemma stranded_push:
  assumes "PushTask a c t info q = Inr (r, q')" and K: "stranded s b q"
  shows "stranded s b q'"
proof (cases "q' = q")
  case False
  let ?q = "upd_task t (\<lambda>t. t\<lparr>t_has_queue := True, t_task_function := p_task_function info, t_result_function := p_result_function info,
                    t_cancel_function := p_cancel_function info, t_user_data := p_user_data info,
                    t_is_signal_finish_event := (p_is_sync info \<or> \<not> p_is_skip_finish_event info)\<rparr>) q"
  obtain invoked q1 where q1: "(if p_is_sync info then TryInvokeSync a c t ?q else Inr (False, ?q)) = Inr (invoked, q1)"
    and q': "(if invoked then Inr (ResultSuccess, q1) else bind_result (push_locked t (p_priority info) q1) (\<lambda>q. Inr (ResultSuccess, q))) = Inr (r, q')"
    and t: "m_next (m_links q) t = t"
    using assms(1) False by (auto simp: PushTask_def bind_result_Inr_iff Let_def node_IsLinked_def split: if_split_asm)
  have "stranded s b q1" "m_links q1 = m_links q"
    using q1 K stranded_TryInvokeSync [of a c t ?q invoked q1 s b] TryInvokeSync_links [of a c t ?q invoked q1] by (auto split: if_split_asm)
  then show ?thesis using q' t stranded_push_locked [of t "p_priority info" q1 q'] by (auto simp: bind_result_Inr_iff split: if_split_asm)
qed (use K in simp)

lemma stranded_cancel:
  assumes "queue_CancelTask t q = Inr (w, q')" and K: "stranded s b q" and t: "t \<noteq> b" "t \<noteq> s"
  shows "stranded s b q'"
proof (cases "t_status (m_tasks q t) = Queued")
  case True
  obtain l q1 q2 where l: "level_at (t_priority (m_tasks q t)) q = Inr l"
    "(if async_task_head l = Some t then upd_level (t_priority (m_tasks q t)) (\<lambda>l. l\<lparr>async_task_head := next_head q t (t_priority (m_tasks q t))\<rparr>) q
      else Inr q) = Inr q1" and q2: "AsyncTask_Cancel t (q1\<lparr>m_links := Unlink t (m_links q1)\<rparr>) = Inr q2" "q' = UpdateCompletion q2"
    using assms(1) True by (auto simp: queue_CancelTask_def Let_def bind_result_Inr_iff)
  have "stranded s b q1"
  proof (cases "async_task_head l = Some t")
    case True
    then have u: "upd_level (t_priority (m_tasks q t)) (\<lambda>l. l\<lparr>async_task_head := next_head q t (t_priority (m_tasks q t))\<rparr>) q = Inr q1" using l(2) by simp
    show ?thesis by (rule stranded_upd_level [OF u K]) (use stranded_next_head [OF K t(2)] in simp)
  qed (use l(2) K in simp)
  then have "stranded s b (q1\<lparr>m_links := Unlink t (m_links q1)\<rparr>)" using t by (simp add: stranded_def stranded_links_Unlink)
  then show ?thesis using q2 by (auto simp: AsyncTask_Cancel_def Let_def split: if_splits option.splits)
qed (use assms in \<open>auto simp: queue_CancelTask_def Let_def CancelWhileActive_def split: if_splits\<close>)

lemma stranded_step: "async_step q q' \<Longrightarrow> stranded s b q \<Longrightarrow> stranded s b q'"
proof (induction rule: async_step.induct)
  case (construct q suspended)
  then show ?case by (simp add: stranded_def AsyncQueueThread_construct_def)
next
  case (enter i q message go q')
  then show ?case by (auto simp: ThreadMain_enter_def split: if_splits)
next
  case (acquire i q t q')
  then show ?case using stranded_acquire [OF acquire.hyps(3)] by simp
next
  case (invoke answer t q rescheduled q')
  then show ?case using stranded_Invoke [OF invoke.hyps] by simp
next
  case (retire i q rescheduled t)
  then show ?case by (simp add: ThreadMain_retire_def Let_def)
next
  case (push answer current t info q r q')
  then show ?case using stranded_push [OF push.hyps] by simp
qed simp

text \<open>What threads, pushers and those who cancel tasks other than \<open>b\<close> do.\<close>

inductive others_step :: "'p \<Rightarrow> ('p, 'f) async_queue \<Rightarrow> ('p, 'f) async_queue \<Rightarrow> bool" for b :: 'p where
  work: "async_step q q' \<Longrightarrow> others_step b q q'"
| cancel: "t \<noteq> b \<Longrightarrow> t \<noteq> m_task_list q \<Longrightarrow> queue_CancelTask t q = Inr (wait, q') \<Longrightarrow> others_step b q q'"

lemma stranded_others: "(others_step b)\<^sup>*\<^sup>* q q' \<Longrightarrow> stranded s b q \<Longrightarrow> stranded s b q'"
proof (induction rule: rtranclp_induct)
  case (step y z)
  have K: "stranded s b y" using step by simp
  then have "m_task_list y = s" by (simp add: stranded_def)
  with step.hyps(2) K show ?case by cases (auto dest: stranded_step stranded_cancel)
qed

text \<open>
  C28: Above the lowest priority the queue loses tasks.  Of two tasks \<open>a\<close>, \<open>b\<close> pushed at a priority above 0 to a
  new queue over tasks that are in no list the first is acquired; the second stays linked in the list with the
  status \<open>Queued\<close> and is counted, but the level has no head any more.  No thread ever acquires it: whatever
  threads then do, whatever is pushed at any priority and whatever other task is cancelled, in any interleaving,
  \<open>AcquireNextTask\<close> does not answer \<open>b\<close>, and \<open>b\<close> stays the first task of the list.
\<close>

theorem async_queue_loses_tasks:
  assumes "AsyncQueue_Initialize n k s links (\<lambda>_. AsyncTask_construct) = Inr q" and "a \<noteq> b" and "s \<notin> {a, b}"
    and "\<forall>t. unlinked links t" and "0 < p_priority info" and "p_priority info < n" and "plain_push info"
  shows "\<exists>q1 q2 q3 q4. PushTask r c a info q = Inr (ResultSuccess, q1) \<and> PushTask r c b info q1 = Inr (ResultSuccess, q2) \<and>
    AcquireNextTask th q2 = Inr (Some a, q3) \<and> m_task_count q3 = 1 \<and> list_rep (m_links q3) s [b] \<and> t_status (m_tasks q3 b) = Queued \<and>
    AcquireNextTask th' q3 = Inr (None, q4) \<and>
    (\<forall>q5 i task q6. (others_step b)\<^sup>*\<^sup>* q3 q5 \<longrightarrow> AcquireNextTask i q5 = Inr (task, q6) \<longrightarrow> task \<noteq> Some b \<and> m_next (m_links q6) s = b)"
proof -
  let ?p = "unat (p_priority info)"
  note I = initialized_queue [OF assms(1)]
  have p: "0 < ?p" "?p < unat n" using assms(5,6) by (simp_all add: word_less_nat_alt)
  have f: "free_task q x" if "x \<noteq> s" for x using I assms(4) that by auto
  have l: "?p < length (m_priority_level_array q)" using I p by simp
  have rep: "tasks_rep q []" and H: "heads_are q (\<lambda>_. None)" using I by auto
  have fa: "free_task q a" "free_task q b" using f assms(3) by auto
  obtain q1 where q1: "PushTask r c a info q = Inr (ResultSuccess, q1)" "tasks_rep q1 [a]" "heads_are q1 ((\<lambda>_. None)(?p := Some a))"
    "\<And>m. m \<noteq> a \<Longrightarrow> free_task q m \<Longrightarrow> free_task q1 m" "m_task_list q1 = s" "length (m_priority_level_array q1) = unat n"
    by (rule push_task_spec [OF rep H fa(1) _ l _ assms(7), of r c]) (use I in auto)
  have fb: "free_task q1 b" using q1(4) [of b] assms(2) fa(2) by simp
  have l1: "?p < length (m_priority_level_array q1)" using q1(6) p by simp
  obtain q2 where q2: "PushTask r c b info q1 = Inr (ResultSuccess, q2)" "tasks_rep q2 [a, b]" "heads_are q2 ((\<lambda>_. None)(?p := Some a))"
    "m_task_list q2 = s" "length (m_priority_level_array q2) = unat n" "\<And>m. m \<noteq> b \<Longrightarrow> free_task q1 m \<Longrightarrow> free_task q2 m"
    by (rule push_task_spec [OF q1(2,3) fb _ l1 _ assms(7), of r c]) (use q1(5,6) in auto)
  have l2: "?p < length (m_priority_level_array q2)" using q2(5) p by simp
  obtain q3 where q3: "AcquireNextTask th q2 = Inr (Some a, q3)" "tasks_rep q3 [b]"
    "heads_are q3 ((\<lambda>_. None)(?p := Some a, ?p := (if ?p = 0 then hd_opt [b] else None)))" "m_task_list q3 = s"
    "m_links q3 = Unlink a (m_links q2)"
    by (rule acquire_spec [OF q2(2,3) l2, where th = th]) (use q2(4) in auto)
  have h3: "heads_are q3 (\<lambda>_. None)" using q3(3) p(1) by (simp add: heads_are_def)
  obtain q4 where q4: "AcquireNextTask th' q3 = Inr (None, q4)" by (rule acquire_none [OF h3])
  have R2: "list_rep (m_links q2) s [a, b]" and R3: "list_rep (m_links q3) s [b]" using q2(2,4) q3(2,4) by (auto simp: tasks_rep_def)
  have ends: "m_next (m_links q3) s = b" "m_prev (m_links q3) b = s" "m_prev (m_links q3) s = b" "m_next (m_links q3) b = s"
    using R3 by (simp_all add: list_rep_def)
  have rest: "m_next (m_links q3) x = x \<and> m_prev (m_links q3) x = x" if x: "x \<noteq> s" "x \<noteq> b" for x
  proof (cases "x = a")
    case True
    then show ?thesis by (simp add: q3(5) link_defs)
  next
    case False
    have "unlinked (m_links q2) x" using q2(6) [OF x(2) q1(4) [OF False f [OF x(1)]]] by (simp add: free_task_def)
    then show ?thesis using False x R2 by (auto simp: q3(5) link_defs unlinked_def list_rep_def)
  qed
  have "b \<noteq> s" using assms(3) by blast
  then have "stranded_links s b (m_links q3)" unfolding stranded_links_def by (metis ends rest)
  moreover have "\<forall>l\<in>set (m_priority_level_array q3). async_task_head l = None" using h3 by (simp add: heads_are_def all_set_conv_all_nth)
  ultimately have K: "stranded s b q3" using q3(4) by (simp add: stranded_def)
  have "task \<noteq> Some b \<and> m_next (m_links q6) s = b" if "(others_step b)\<^sup>*\<^sup>* q3 q5" "AcquireNextTask i q5 = Inr (task, q6)" for q5 i task q6
    using stranded_acquire [OF that(2) stranded_others [OF that(1) K]] unfolding stranded_def stranded_links_def by blast
  then show ?thesis using q1(1) q2(1) q3(1,2) q4 R3 by (auto simp: tasks_rep_def)
qed

section \<open>Calculating on a thread\<close>

lemmas force_calc_induct = force_calc_from.raw_induct [rotated, consumes 1, case_names round]

definition calc_stuck :: "'p \<Rightarrow> ('p, 'f) async_queue \<Rightarrow> bool" where
  "calc_stuck t q \<longleftrightarrow> t \<noteq> m_task_list q \<and> m_next (m_links q) t = t \<and> t_has_queue (m_tasks q t) \<and>
     t_status (m_tasks q t) = Complete \<and> t_result_function (m_tasks q t) = None"

lemma InvokeSync_stuck:
  assumes "t_has_queue (m_tasks q t)" and "t_result_function (m_tasks q t) = None" and "t \<noteq> m_task_list q" and "m_next (m_links q) t = t"
  obtains q' where "InvokeSync r th t q = Inr q'" and "calc_stuck t q'"
  using assms by (auto simp: InvokeSync_def AsyncTask_Invoke_def Let_def InvokeFreeExecute_def calc_stuck_def signal_finish_def)

lemma force_calc_stuck:
  assumes "force_calc_from res th p t q = Some y"
  shows "p = 0 \<Longrightarrow> calc_stuck t q \<Longrightarrow> False"
  using assms
proof (induction rule: force_calc_induct)
  case (round rec res th p t q y)
  obtain q' where q': "InvokeSync (res t) th t q = Inr q'" "calc_stuck t q'"
    by (rule InvokeSync_stuck [of q t]) (use round.prems(2) in \<open>auto simp: calc_stuck_def\<close>)
  have "queue_CancelTask t q = Inr (False, q)" using round.prems(2) by (simp add: queue_CancelTask_def Let_def calc_stuck_def)
  moreover have "m_next (m_links q') t = t" using q'(2) by (simp add: calc_stuck_def)
  ultimately have "rec res th p t q' = Some y" using round.hyps round.prems q'(1) by (simp add: calc_stuck_def)
  from round.IH [OF this round.prems(1) q'(2)] show ?case .
qed

lemma cancel_queued:
  assumes "tasks_rep q (t # xs)" and "heads_are q (front_heads (t # xs))" and "t_has_queue (m_tasks q t)"
  obtains q' where "queue_CancelTask t q = Inr (False, q')" and "m_links q' = Unlink t (m_links q)" and "m_task_list q' = m_task_list q"
    and "t_has_queue (m_tasks q' t)" and "t_result_function (m_tasks q' t) = None"
proof -
  have l: "0 < length (m_priority_level_array q)" and t: "t_status (m_tasks q t) = Queued" "t_priority (m_tasks q t) = 0"
    using assms(1) by (simp_all add: tasks_rep_def)
  have h: "async_task_head (m_priority_level_array q ! 0) = Some t" using assms(2) l by (simp add: heads_are_def front_heads_def)
  have "\<exists>q'. queue_CancelTask t q = Inr (False, q') \<and> m_links q' = Unlink t (m_links q) \<and> m_task_list q' = m_task_list q \<and>
    t_has_queue (m_tasks q' t) \<and> t_result_function (m_tasks q' t) = None"
    using l t h assms(3) by (simp add: queue_CancelTask_def Let_def level_at_in upd_level_in AsyncTask_Cancel_def signal_finish_def split: option.split)
  then show thesis using that by blast
qed

text \<open>
  C29: What \<open>ForceCalcSyncOnThread\<close> does on a queue whose tasks were pushed at priority 0.  Asked to calculate
  up to priority 0 it does not return: cancelling the first task takes it out of the list, so the iterator, which
  stands on its node, moves on to the same node for ever.  Asked up to any priority above 0 it returns at once and
  runs no task.
\<close>

theorem async_force_calc_hangs:
  assumes "AsyncQueue_Initialize n k s links (\<lambda>_. AsyncTask_construct) = Inr q" and "distinct (t # ts)" and "s \<notin> set (t # ts)"
    and "\<forall>t\<in>set (t # ts). unlinked links t" and "length (t # ts) < 2 ^ 32" and "p_priority info = 0" and "plain_push info"
  shows "\<exists>q'. push_all info (t # ts) q = Inr q' \<and> ForceCalcSyncOnThread res th p q' = (if p = 0 then None else ret q')"
proof -
  note I = initialized_queue [OF assms(1)]
  have h: "heads_are q (front_heads [])" using I by (simp add: front_heads_Nil)
  have f: "\<forall>t\<in>set (t # ts). free_task q t" using I assms(3,4) by metis
  obtain q1 where q1: "push_all info (t # ts) q = Inr q1" "tasks_rep q1 (t # ts)" "heads_are q1 (front_heads (t # ts))"
    "\<forall>t\<in>set (t # ts). pushed info (m_tasks q1 t)"
    using push_all_spec [OF _ h f assms(2) _ assms(6,7)] I assms(5) by auto
  have has: "t_has_queue (m_tasks q1 t)" using q1(4) by (simp add: pushed_def)
  have R: "list_rep (m_links q1) (m_task_list q1) (t # ts)" using q1(2) by (simp add: tasks_rep_def)
  then have t: "t \<noteq> m_task_list q1" by (auto simp: list_rep_def)
  have nx: "m_next (m_links q1) (m_task_list q1) = t" using R linked_first [of "m_links q1" "m_task_list q1" "t # ts"] by (simp add: list_rep_def)
  obtain q2 where q2: "queue_CancelTask t q1 = Inr (False, q2)" "m_links q2 = Unlink t (m_links q1)" "m_task_list q2 = m_task_list q1"
    "t_has_queue (m_tasks q2 t)" "t_result_function (m_tasks q2 t) = None"
    by (rule cancel_queued [OF q1(2,3) has])
  have u: "m_next (m_links q2) t = t" using Unlink_rep(2) [OF R, of t] q2(2) by (simp add: unlinked_def)
  have t2: "t \<noteq> m_task_list q2" using t q2(3) by simp
  obtain q3 where q3: "InvokeSync (res t) th t q2 = Inr q3" "calc_stuck t q3" by (rule InvokeSync_stuck [OF q2(4,5) t2 u])
  have "force_calc_from res th 0 t q3 = None"
    using force_calc_stuck [OF _ refl q3(2), of res th] by (cases "force_calc_from res th 0 t q3") auto
  moreover have "m_next (m_links q3) t = t" using q3(2) by (simp add: calc_stuck_def)
  ultimately have "force_calc_from res th 0 t q1 = None" using t has q2(1) q3(1) by (subst force_calc_from.simps) simp
  moreover have "force_calc_from res th p t q1 = ret q1" if "p \<noteq> 0"
    using t q1(2) that by (subst force_calc_from.simps) (simp add: tasks_rep_def word_neq_0_conv)
  ultimately show ?thesis using q1(1) nx by (simp add: ForceCalcSyncOnThread_def)
qed

section \<open>Witnesses\<close>

definition demo_push :: "u32 \<Rightarrow> unit async_push_info" where
  "demo_push p = \<lparr>p_has_queue = True, p_has_queue_thread = False, p_task_function = Some (), p_result_function = None,
     p_cancel_function = None, p_user_data = 0, p_priority = p, p_is_sync = False, p_is_skip_finish_event = False\<rparr>"

definition demo_queue :: "(nat, unit) async_queue" where
  "demo_queue = \<lparr>m_tasks = \<lambda>_. AsyncTask_construct, m_links = construct_node 0 demo_links, m_task_list = 0, m_task_count = 0,
     m_priority_level_array = replicate 2 \<lparr>is_paused = False, async_task_head = None, priority_cleared_event = True\<rparr>,
     m_task_thread_array = [], m_all_task_complete_event = False, m_calls = []\<rparr>"

lemma demo_queue_init: "AsyncQueue_Initialize 2 1 0 demo_links (\<lambda>_. AsyncTask_construct) = Inr demo_queue"
  by (simp add: AsyncQueue_Initialize_def demo_queue_def)

lemma demo_unlinked: "unlinked demo_links t"
  by (simp add: unlinked_def demo_links_def)

lemma demo_plain: "plain_push (demo_push p)" "p_priority (demo_push p) = p"
  by (simp_all add: plain_push_def demo_push_def)

theorem async_queue_fifo_witness:
  "\<exists>q' q'' q3. push_all (demo_push 0) [1, 2, 3] demo_queue = Inr q' \<and> acquire_all [0, 1, 0] q' = Inr ([Some 1, Some 2, Some 3], q'') \<and>
    m_task_count q'' = 0 \<and> AcquireNextTask 0 q'' = Inr (None, q3)"
  using async_queue_fifo [OF demo_queue_init, of "[1, 2, 3]" "[0, 1, 0]" "demo_push 0" 0] by (simp add: demo_unlinked demo_plain)

theorem async_queue_loses_tasks_witness:
  "\<exists>q1 q2 q3 q4. PushTask False None 1 (demo_push 1) demo_queue = Inr (ResultSuccess, q1) \<and> PushTask False None 2 (demo_push 1) q1 = Inr (ResultSuccess, q2) \<and>
    AcquireNextTask 0 q2 = Inr (Some 1, q3) \<and> m_task_count q3 = 1 \<and> list_rep (m_links q3) 0 [2] \<and> t_status (m_tasks q3 2) = Queued \<and>
    AcquireNextTask 0 q3 = Inr (None, q4) \<and>
    (\<forall>q5 i task q6. (others_step 2)\<^sup>*\<^sup>* q3 q5 \<longrightarrow> AcquireNextTask i q5 = Inr (task, q6) \<longrightarrow> task \<noteq> Some 2 \<and> m_next (m_links q6) 0 = 2)"
  by (rule async_queue_loses_tasks [OF demo_queue_init]) (simp_all add: demo_unlinked demo_plain)

theorem async_thread_drains_queue_witness:
  "\<exists>q1 q2. push_all (demo_push 0) [1, 2] (AsyncQueueThread_construct False demo_queue) = Inr q1 \<and>
    ThreadMain (\<lambda>_. False) (\<lambda>_. False) Message_Resume 0 q1 = ret q2 \<and> m_task_count q2 = 0 \<and> list_rep (m_links q2) 0 [] \<and>
    (\<forall>t\<in>set [1, 2]. finished_as (demo_push 0) False (m_tasks q2 t)) \<and>
    m_calls q2 = concat (map (task_calls (demo_push 0)) [1, 2])"
  by (rule async_thread_drains_queue [OF demo_queue_init]) (simp_all add: demo_unlinked demo_plain)

theorem async_queue_wait_not_released_witness:
  "\<not> m_all_task_complete_event (ThreadMain_retire False 0 1 (upd_thread 0 (\<lambda>th. th\<lparr>m_is_finished := False\<rparr>) (AsyncQueueThread_construct False demo_queue)))"
proof -
  let ?q = "AsyncQueueThread_construct False demo_queue"
  let ?q1 = "upd_thread 0 (\<lambda>th. th\<lparr>m_is_finished := False\<rparr>) ?q"
  have s1: "async_step demo_queue ?q" by (rule async_step.construct)
  have s2: "async_step ?q ?q1"
    by (rule async_step.enter [of 0 _ Message_Resume True])
      (simp_all add: AsyncQueueThread_construct_def demo_queue_def ThreadMain_enter_def Message_Resume_def Message_Suspend_def)
  have s3: "async_step ?q1 (ThreadMain_retire False 0 1 ?q1)"
    by (rule async_step.retire) (simp_all add: AsyncQueueThread_construct_def demo_queue_def)
  have "async_step\<^sup>*\<^sup>* demo_queue ?q" using s1 by (rule r_into_rtranclp)
  then have "async_step\<^sup>*\<^sup>* demo_queue ?q1" using s2 by (rule rtranclp.rtrancl_into_rtrancl)
  then have "async_step\<^sup>*\<^sup>* demo_queue (ThreadMain_retire False 0 1 ?q1)" using s3 by (rule rtranclp.rtrancl_into_rtrancl)
  then show ?thesis by (rule async_queue_wait_not_released [OF demo_queue_init])
qed

theorem async_force_calc_hangs_witness:
  "\<exists>q'. push_all (demo_push 0) [1, 2] demo_queue = Inr q' \<and> ForceCalcSyncOnThread (\<lambda>_. False) 0 0 q' = None"
  using async_force_calc_hangs [OF demo_queue_init, of 1 "[2]" "demo_push 0" "\<lambda>_. False" 0 0] by (simp add: demo_unlinked demo_plain)

end
