(* ===== verification/Byaml.thy ===== *)
theory Byaml
  imports Sarc
begin

text \<open>
  \<open>res_byaml.hpp\<close>, \<open>res_byamlstringtableiterator.hpp\<close>, \<open>res_byamldictionaryiterator.hpp\<close> and
  \<open>res_byamliterator.hpp\<close>: the reader of BYAML documents.  A document is read where it lies in memory, in either
  byte order; a key is its bytes before the zero.  A member behind a null pointer is the fault \<open>Null_Pointer\<close>.
\<close>

section \<open>Types\<close>

definition HashArrayU32_1 :: u8 where "HashArrayU32_1 = 0x20"
definition HashArrayWithRemapU32_1 :: u8 where "HashArrayWithRemapU32_1 = 0x30"
definition Byaml_StringIndex :: u8 where "Byaml_StringIndex = 0xa0"
definition Byaml_BinaryData :: u8 where "Byaml_BinaryData = 0xa1"
definition Byaml_BinaryDataWithAlignment :: u8 where "Byaml_BinaryDataWithAlignment = 0xa2"
definition Byaml_Array :: u8 where "Byaml_Array = 0xc0"
definition Byaml_Dictionary :: u8 where "Byaml_Dictionary = 0xc1"
definition Byaml_KeyTable :: u8 where "Byaml_KeyTable = 0xc2"
definition Byaml_DictionaryWithRemap :: u8 where "Byaml_DictionaryWithRemap = 0xc4"
definition Byaml_RelocatedKeyTable :: u8 where "Byaml_RelocatedKeyTable = 0xc5"
definition Byaml_MonoTypedArray :: u8 where "Byaml_MonoTypedArray = 0xc8"
definition Byaml_Bool :: u8 where "Byaml_Bool = 0xd0"
definition Byaml_S32 :: u8 where "Byaml_S32 = 0xd1"
definition Byaml_F32 :: u8 where "Byaml_F32 = 0xd2"
definition Byaml_U32 :: u8 where "Byaml_U32 = 0xd3"
definition Byaml_S64 :: u8 where "Byaml_S64 = 0xd4"
definition Byaml_U64 :: u8 where "Byaml_U64 = 0xd5"
definition Byaml_F64 :: u8 where "Byaml_F64 = 0xd6"
definition Byaml_Null :: u8 where "Byaml_Null = 0xff"

lemmas byaml_types = HashArrayU32_1_def HashArrayWithRemapU32_1_def Byaml_StringIndex_def Byaml_BinaryData_def
  Byaml_BinaryDataWithAlignment_def Byaml_Array_def Byaml_Dictionary_def Byaml_KeyTable_def Byaml_DictionaryWithRemap_def
  Byaml_RelocatedKeyTable_def Byaml_MonoTypedArray_def Byaml_Bool_def Byaml_S32_def Byaml_F32_def Byaml_U32_def Byaml_S64_def
  Byaml_U64_def Byaml_F64_def Byaml_Null_def

definition IsBigDataType :: "u8 \<Rightarrow> bool" where
  "IsBigDataType data_type \<longleftrightarrow> data_type < 0xd0 \<and> 0xd3 < data_type"

definition IsContainerType :: "u8 \<Rightarrow> bool" where
  "IsContainerType data_type = (let value = data_type AND 0xf0 in value = 0xc0 \<or> value = 0x20)"

text \<open>\<open>ByamlData\<close>: the key index has 24 bits.\<close>

record byaml_data =
  key_index :: u32
  data_type :: u8
  u32_value :: u32

definition cInvalidDataKeyIndex :: u32 where "cInvalidDataKeyIndex = 0xffffff"

definition IsKeyIndexValid :: "byaml_data \<Rightarrow> bool" where
  "IsKeyIndexValid data \<longleftrightarrow> key_index data \<noteq> cInvalidDataKeyIndex"

definition no_data :: byaml_data where "no_data = \<lparr>key_index = 0, data_type = 0, u32_value = 0\<rparr>"
definition cleared_data :: byaml_data where "cleared_data = \<lparr>key_index = cInvalidDataKeyIndex, data_type = 0, u32_value = 0\<rparr>"

definition GetBigData :: "u64 \<Rightarrow> byaml_data \<Rightarrow> u64" where
  "GetBigData byaml data = byaml + ucast (u32_value data)"

section \<open>The document\<close>

definition read64 :: "memory \<Rightarrow> u64 \<Rightarrow> u64" where "read64 m p = of_bytes (read_bytes m p 8)"

definition get64 :: "bool \<Rightarrow> memory \<Rightarrow> u64 \<Rightarrow> u64" where
  "get64 is_reverse_endian m p = (if is_reverse_endian then SwapEndian64 (read64 m p) else read64 m p)"

text \<open>\<open>ResByamlContainer\<close>: the type is the low byte of the header, the count the other three.\<close>

definition container_type :: "memory \<Rightarrow> u64 \<Rightarrow> u8" where
  "container_type m p = ucast (read32 m p)"

definition container_count :: "bool \<Rightarrow> memory \<Rightarrow> u64 \<Rightarrow> u32" where
  "container_count is_reverse_endian m p =
     (let count = drop_bit 8 (read32 m p) in if is_reverse_endian then SwapEndian24 count else count)"

definition ResByaml_cMagic :: u16 where "ResByaml_cMagic = 0x4259"
definition ResByaml_cTargetVersion :: u16 where "ResByaml_cTargetVersion = 10"

definition ResByaml_IsReverseEndian :: "memory \<Rightarrow> u64 \<Rightarrow> bool" where
  "ResByaml_IsReverseEndian m this \<longleftrightarrow> read16 m this = SwapEndian16 ResByaml_cMagic"

text \<open>\<open>::strcmp\<close> of two strings in memory, and of a key and a string in memory.\<close>

partial_function (option) strcmp_mem :: "memory \<Rightarrow> u64 \<Rightarrow> u64 \<Rightarrow> int option" where
  "strcmp_mem m p q =
     (if m p \<noteq> m q then Some (uint (m p) - uint (m q)) else if m p = 0 then Some 0 else strcmp_mem m (p + 1) (q + 1))"

declare strcmp_mem.simps [code]

fun strcmp_key :: "u8 list \<Rightarrow> memory \<Rightarrow> u64 \<Rightarrow> int" where
  "strcmp_key [] m p = - uint (m p)"
| "strcmp_key (c # key) m p = (if c \<noteq> m p then uint c - uint (m p) else strcmp_key key m (p + 1))"

text \<open>The loop from \<open>i\<close> on, with \<open>fuel\<close> turns left of the \<open>string_count\<close>; a string without end is \<open>None\<close>.\<close>

primrec verify_strings :: "memory \<Rightarrow> u64 \<Rightarrow> bool \<Rightarrow> u32 \<Rightarrow> nat \<Rightarrow> u32 \<Rightarrow> bool option" where
  "verify_strings m header is_reverse_endian string_count 0 i = Some True"
| "verify_strings m header is_reverse_endian string_count (Suc fuel) i =
     (let start_addr = header + 4 + ucast i * 4;
          end_addr = start_addr + 4;
          offset_start = get32 is_reverse_endian m start_addr;
          offset_end = get32 is_reverse_endian m end_addr
      in if m (header + ucast offset_end - 1) \<noteq> 0 then Some False
         else if offset_end < offset_start then Some False
         else if i = string_count - 1 then Some True
         else case strcmp_mem m (header + ucast offset_start) (header + ucast offset_end) of
                None \<Rightarrow> None
              | Some r \<Rightarrow>
                  let sort_result = (word_of_int r :: u32)
                  in if sort_result < 1 then Some False
                     else verify_strings m header is_reverse_endian string_count fuel (i + 1))"

definition VerifyStringTable :: "memory \<Rightarrow> u64 \<Rightarrow> bool \<Rightarrow> bool option" where
  "VerifyStringTable m table is_reverse_endian =
     (if container_type m table \<noteq> Byaml_KeyTable then Some False
      else
        let string_count = container_count is_reverse_endian m table
        in if string_count = 0 then Some False
           else verify_strings m table is_reverse_endian string_count (unat string_count) 0)"

definition final_offset :: "memory \<Rightarrow> u64 \<Rightarrow> bool \<Rightarrow> u32 \<Rightarrow> u32" where
  "final_offset m this is_reverse_endian table_offset =
     (let table = this + ucast table_offset;
          count = container_count is_reverse_endian m table;
          final = (if table_offset \<noteq> 0 then read32 m (table + 4 * ucast (count + 1)) else 0)
      in if is_reverse_endian then SwapEndian32 final else final)"

definition ResByaml_IsValid :: "memory \<Rightarrow> u64 \<Rightarrow> bool option" where
  "ResByaml_IsValid m this =
     (let is_reverse_endian = ResByaml_IsReverseEndian m this;
          r_magic = get16 is_reverse_endian m this;
          r_version = get16 is_reverse_endian m (this + 2);
          r_key_table_offset = get32 is_reverse_endian m (this + 4);
          r_string_table_offset = get32 is_reverse_endian m (this + 8);
          data_offset = read32 m (this + 0xc);
          verify = (\<lambda>offset. if offset \<noteq> 0 then VerifyStringTable m (this + ucast offset) is_reverse_endian else Some True)
      in if r_magic \<noteq> ResByaml_cMagic \<or> ResByaml_cTargetVersion < r_version then Some False
         else case verify r_key_table_offset of
           None \<Rightarrow> None
         | Some key_table_ok \<Rightarrow>
             if \<not> key_table_ok then Some False
             else case verify r_string_table_offset of
               None \<Rightarrow> None
             | Some string_table_ok \<Rightarrow>
                 if \<not> string_table_ok then Some False
                 else
                   let r_final_string_offset = final_offset m this is_reverse_endian r_string_table_offset;
                       r_final_key_offset = final_offset m this is_reverse_endian r_key_table_offset
                   in Some
                     (if r_string_table_offset OR r_key_table_offset \<noteq> 0 \<and> data_offset = 0 then False
                      else if r_key_table_offset \<noteq> 0 \<and> r_string_table_offset \<noteq> 0 \<and> r_string_table_offset < r_final_key_offset then False
                      else if r_key_table_offset \<noteq> 0 \<and> data_offset \<noteq> 0 \<and> data_offset < r_final_key_offset then False
                      else r_final_string_offset \<le> data_offset \<or> r_string_table_offset = 0 \<or> data_offset = 0))"

definition ResByaml_ResCast :: "memory \<Rightarrow> u64 \<Rightarrow> u64 option" where
  "ResByaml_ResCast m file =
     (if file = 0 then Some 0 else map_option (\<lambda>valid. if valid then file else 0) (ResByaml_IsValid m file))"

section \<open>String tables\<close>

definition GetStringByIndex :: "memory \<Rightarrow> u64 \<Rightarrow> u32 \<Rightarrow> u64 \<Rightarrow> bool \<Rightarrow> u64" where
  "GetStringByIndex m table index offset is_reverse_endian =
     (let string_offset = get32 is_reverse_endian m (table + 4 + 4 * ucast index) in table + offset + ucast string_offset)"

definition GetStringSizeByIndex :: "memory \<Rightarrow> u64 \<Rightarrow> u32 \<Rightarrow> bool \<Rightarrow> u32" where
  "GetStringSizeByIndex m table index is_reverse_endian =
     (let string_offset = get32 is_reverse_endian m (table + 4 + 4 * ucast index);
          next_offset = get32 is_reverse_endian m (table + 4 + 4 * ucast (index + 1))
      in next_offset - 1 - string_offset)"

definition key_pool_offset :: "memory \<Rightarrow> u64 \<Rightarrow> bool \<Rightarrow> u64" where
  "key_pool_offset m table is_reverse_endian =
     (if container_type m table = Byaml_RelocatedKeyTable
      then let offset_offset = get32 is_reverse_endian m (table + 4) in get64 is_reverse_endian m (table + ucast offset_offset)
      else 0)"

text \<open>
  The binary search that all lookups share: \<open>compare index\<close> is the sign of the sought key against the entry,
  which a null entry makes a fault.
\<close>

partial_function (option) byaml_search :: "(u32 \<Rightarrow> int result) \<Rightarrow> u32 \<Rightarrow> u32 \<Rightarrow> u32 option run" where
  "byaml_search compare i upper =
     (if i < upper
      then
        let index = (i + upper) div 2
        in case compare index of
             Inl e \<Rightarrow> Some (Inl e)
           | Inr result \<Rightarrow>
               if result = 0 then ret (Some index)
               else if 0 < result then byaml_search compare (index + 1) upper
               else byaml_search compare i index
      else ret None)"

declare byaml_search.simps [code]

definition cInvalidKeyIndex :: u32 where "cInvalidKeyIndex = 0xffffffff"

definition TryFindKeyIndexByKey :: "memory \<Rightarrow> u64 \<Rightarrow> u8 list \<Rightarrow> bool \<Rightarrow> u32 run" where
  "TryFindKeyIndexByKey m table key is_reverse_endian =
     (let offset = key_pool_offset m table is_reverse_endian
      in bind_run
           (byaml_search (\<lambda>index. Inr (strcmp_key key m (GetStringByIndex m table index offset is_reverse_endian))) 0
             (container_count is_reverse_endian m table))
           (\<lambda>r. ret (case r of Some index \<Rightarrow> index | None \<Rightarrow> cInvalidKeyIndex)))"

section \<open>Containers\<close>

definition RemapIndex :: "memory \<Rightarrow> u64 \<Rightarrow> u32 \<Rightarrow> u32 \<Rightarrow> bool \<Rightarrow> u32" where
  "RemapIndex m remap_table data_count index is_reverse_endian =
     (if data_count < 0x100 then ucast (m (remap_table + ucast index))
      else if data_count < 0x10000 then ucast (get16 is_reverse_endian m (remap_table + 2 * ucast index))
      else get32 is_reverse_endian m (remap_table + 4 * ucast index))"

definition pair_at :: "u64 \<Rightarrow> u32 \<Rightarrow> u64" where
  "pair_at container index = container + 4 + 8 * ucast index"

definition pair_key_index :: "bool \<Rightarrow> memory \<Rightarrow> u64 \<Rightarrow> u32" where
  "pair_key_index is_reverse_endian m pair =
     (let key_index = read32 m pair AND 0xffffff in if is_reverse_endian then SwapEndian24 key_index else key_index)"

definition SetPair :: "memory \<Rightarrow> u64 \<Rightarrow> bool \<Rightarrow> byaml_data" where
  "SetPair m pair is_reverse_endian =
     \<lparr>key_index = pair_key_index is_reverse_endian m pair, data_type = ucast (drop_bit 24 (read32 m pair)),
      u32_value = get32 is_reverse_endian m (pair + 4)\<rparr>"

definition dictionary_remap :: "memory \<Rightarrow> u64 \<Rightarrow> u32 \<Rightarrow> bool \<Rightarrow> u32" where
  "dictionary_remap m container index is_reverse_endian =
     (let data_count = container_count is_reverse_endian m container
      in if container_type m container = Byaml_DictionaryWithRemap
         then let remap_table_offset = data_count * 8 + 4
              in RemapIndex m (container + ucast remap_table_offset) data_count index is_reverse_endian
         else index)"

text \<open>Each answers whether it succeeds and what \<open>out_data\<close> holds then.\<close>

definition dictionary_TryGetDataByIndex :: "memory \<Rightarrow> u64 \<Rightarrow> byaml_data \<Rightarrow> u32 \<Rightarrow> bool \<Rightarrow> bool \<times> byaml_data" where
  "dictionary_TryGetDataByIndex m container out_data index is_reverse_endian =
     (if container = 0 then (False, out_data)
      else if container_count is_reverse_endian m container \<le> index then (False, out_data)
      else (True, SetPair m (pair_at container (dictionary_remap m container index is_reverse_endian)) is_reverse_endian))"

definition GetDictionaryPairByIndex :: "memory \<Rightarrow> u64 \<Rightarrow> u32 \<Rightarrow> bool \<Rightarrow> u64" where
  "GetDictionaryPairByIndex m container index is_reverse_endian =
     (if container = 0 \<or> container_count is_reverse_endian m container \<le> index then 0 else pair_at container index)"

definition TryRemapIndex :: "memory \<Rightarrow> u64 \<Rightarrow> u32 \<Rightarrow> bool \<Rightarrow> u32" where
  "TryRemapIndex m container index is_reverse_endian =
     (if container = 0 then 0
      else if container_count is_reverse_endian m container \<le> index then 0
      else dictionary_remap m container index is_reverse_endian)"

definition align4 :: "u32 \<Rightarrow> u32" where "align4 n = ucast (AlignUp (ucast n) 4)"

definition array_TryGetDataByIndex :: "memory \<Rightarrow> u64 \<Rightarrow> byaml_data \<Rightarrow> u32 \<Rightarrow> bool \<Rightarrow> (bool \<times> byaml_data) result" where
  "array_TryGetDataByIndex m container out_data index is_reverse_endian =
     (if container = 0 then Inl Null_Pointer
      else
        let data_count = container_count is_reverse_endian m container;
            mono = (container_type m container = Byaml_MonoTypedArray);
            data_type_index = (if mono then 0 else index);
            value_array_offset = (if mono then 4 else align4 data_count);
            data_type_offset = 4 + data_type_index;
            value_offset = 4 + value_array_offset + 4 * index
        in if data_count \<le> index then Inr (False, out_data)
           else Inr (True, \<lparr>key_index = cInvalidDataKeyIndex, data_type = m (container + ucast data_type_offset),
                    u32_value = get32 is_reverse_endian m (container + ucast value_offset)\<rparr>))"

definition hash_stride :: "u8 \<Rightarrow> u32" where
  "hash_stride type = ucast (type AND 0xf) * 4 + 4"

definition hash_TryGetDataByIndex :: "memory \<Rightarrow> u64 \<Rightarrow> byaml_data \<Rightarrow> u32 \<Rightarrow> bool \<Rightarrow> (bool \<times> byaml_data) result" where
  "hash_TryGetDataByIndex m container out_data index is_reverse_endian =
     (if container = 0 then Inl Null_Pointer
      else
        let stride = hash_stride (container_type m container);
            data_count = container_count is_reverse_endian m container
        in if data_count \<le> index then Inr (False, out_data)
           else
             let remap_table_offset = align4 ((stride + 4 + 1) * data_count);
                 index = (if container_type m container AND 0xf0 = HashArrayWithRemapU32_1
                          then RemapIndex m (container + ucast remap_table_offset) data_count index is_reverse_endian else index);
                 data_type_offset = (stride + 4) * data_count + index;
                 value_offset = (stride + 4) * index + stride + 4
             in Inr (True, \<lparr>key_index = index AND 0xffffff, data_type = m (container + ucast data_type_offset),
                  u32_value = get32 is_reverse_endian m (container + ucast value_offset)\<rparr>))"

definition hash_GetDataType :: "memory \<Rightarrow> u64 \<Rightarrow> u32 \<Rightarrow> bool \<Rightarrow> u8" where
  "hash_GetDataType m container index is_reverse_endian =
     (let stride = hash_stride (container_type m container);
          data_type_offset = (stride + 4) * container_count is_reverse_endian m container + index
      in m (container + ucast data_type_offset))"

text \<open>\<open>ByamlHashAccessor\<close>: the address of the hash of an entry; the product is a \<open>size_t\<close>.\<close>

definition hash_accessor :: "u64 \<Rightarrow> u32 \<Rightarrow> u32 \<Rightarrow> u64" where
  "hash_accessor container stride index = container + (ucast stride + 4) * ucast index + 4"

definition GetHash :: "memory \<Rightarrow> u64 \<Rightarrow> u32 \<Rightarrow> bool \<Rightarrow> u64" where
  "GetHash m hash_array stride is_reverse_endian =
     (if stride = 8 then get64 is_reverse_endian m hash_array
      else if stride = 4 then ucast (get32 is_reverse_endian m hash_array)
      else 0)"

definition GetValue :: "memory \<Rightarrow> u64 \<Rightarrow> u32 \<Rightarrow> bool \<Rightarrow> u32" where
  "GetValue m hash_array stride is_reverse_endian = get32 is_reverse_endian m (hash_array + ucast stride)"

section \<open>The iterator\<close>

record byaml_iterator =
  m_byaml :: u64
  m_container_data :: byaml_data

text \<open>The constructors from \<open>const void *\<close> and from \<open>const unsigned char *\<close> differ in one comparison.\<close>

definition ByamlIterator_construct :: "bool \<Rightarrow> memory \<Rightarrow> u64 \<Rightarrow> byaml_iterator option" where
  "ByamlIterator_construct offset_is_value m byaml_file =
     map_option (\<lambda>valid.
       if \<not> valid then \<lparr>m_byaml = 0, m_container_data = no_data\<rparr>
       else if read32 m (byaml_file + 0xc) = 0 then \<lparr>m_byaml = byaml_file, m_container_data = no_data\<rparr>
       else
         let is_reverse_endian = ResByaml_IsReverseEndian m byaml_file;
             data_offset = get32 is_reverse_endian m (byaml_file + 0xc);
             type = container_type m (byaml_file + ucast data_offset);
             is_single_data = (\<not> IsContainerType type \<and> type \<noteq> Byaml_Null)
         in \<lparr>m_byaml = byaml_file,
              m_container_data = \<lparr>key_index = 0, data_type = type,
                u32_value = (if is_single_data = offset_is_value then data_offset
                             else get32 is_reverse_endian m (byaml_file + ucast data_offset + 4))\<rparr>\<rparr>)
       (ResByaml_IsValid m byaml_file)"

definition ByamlIterator :: "memory \<Rightarrow> u64 \<Rightarrow> byaml_iterator option" where
  "ByamlIterator = ByamlIterator_construct False"

definition ByamlIterator_unsigned_char :: "memory \<Rightarrow> u64 \<Rightarrow> byaml_iterator option" where
  "ByamlIterator_unsigned_char = ByamlIterator_construct True"

definition ByamlIterator_IsValid :: "byaml_iterator \<Rightarrow> bool" where
  "ByamlIterator_IsValid it \<longleftrightarrow> m_byaml it \<noteq> 0"

definition IsContainerValid :: "byaml_iterator \<Rightarrow> bool" where
  "IsContainerValid it \<longleftrightarrow> IsContainerType (data_type (m_container_data it)) \<and> u32_value (m_container_data it) \<noteq> 0"

text \<open>\<open>m_byaml->IsReverseEndian()\<close>\<close>

definition byaml_reverse :: "memory \<Rightarrow> byaml_iterator \<Rightarrow> bool result" where
  "byaml_reverse m it = (if m_byaml it = 0 then Inl Null_Pointer else Inr (ResByaml_IsReverseEndian m (m_byaml it)))"

definition key_table :: "memory \<Rightarrow> u64 \<Rightarrow> bool \<Rightarrow> u64" where
  "key_table m byaml is_reverse_endian = byaml + ucast (get32 is_reverse_endian m (byaml + 4))"

definition string_table :: "memory \<Rightarrow> u64 \<Rightarrow> bool \<Rightarrow> u64" where
  "string_table m byaml is_reverse_endian = byaml + ucast (get32 is_reverse_endian m (byaml + 8))"

definition TryGetKeyByData :: "memory \<Rightarrow> byaml_iterator \<Rightarrow> byaml_data \<Rightarrow> u64 option result" where
  "TryGetKeyByData m it data =
     bind_result (byaml_reverse m it) (\<lambda>is_reverse_endian.
       if \<not> IsKeyIndexValid data then Inr None
       else
         let table = key_table m (m_byaml it) is_reverse_endian
         in Inr (Some (GetStringByIndex m table (key_index data) (key_pool_offset m table is_reverse_endian) is_reverse_endian)))"

definition TryGetKeyIndexByKey :: "memory \<Rightarrow> byaml_iterator \<Rightarrow> u8 list \<Rightarrow> u32 option run" where
  "TryGetKeyIndexByKey m it key =
     call (byaml_reverse m it) (\<lambda>is_reverse_endian.
     bind_run (TryFindKeyIndexByKey m (key_table m (m_byaml it) is_reverse_endian) key is_reverse_endian) (\<lambda>index.
     ret (if index = cInvalidKeyIndex then None else Some index)))"

definition is_dictionary :: "byaml_iterator \<Rightarrow> bool" where
  "is_dictionary it \<longleftrightarrow> data_type (m_container_data it) = Byaml_Dictionary \<or> data_type (m_container_data it) = Byaml_DictionaryWithRemap"

text \<open>A pair of the dictionary against a key.\<close>

definition compare_pair :: "memory \<Rightarrow> u64 \<Rightarrow> u64 \<Rightarrow> bool \<Rightarrow> u8 list \<Rightarrow> u32 \<Rightarrow> int result" where
  "compare_pair m table container is_reverse_endian key index =
     (let res_pair = GetDictionaryPairByIndex m container index is_reverse_endian
      in if res_pair = 0 then Inl Null_Pointer
         else Inr (strcmp_key key m (GetStringByIndex m table (pair_key_index is_reverse_endian m res_pair)
                (key_pool_offset m table is_reverse_endian) is_reverse_endian)))"

text \<open>The integrity check and the search of the lookups by key.\<close>

definition has_keys :: "memory \<Rightarrow> byaml_iterator \<Rightarrow> bool" where
  "has_keys m it \<longleftrightarrow> \<not> (m_byaml it = 0 \<or> read32 m (m_byaml it + 4) = 0 \<or> \<not> is_dictionary it)"

definition find_pair :: "memory \<Rightarrow> byaml_iterator \<Rightarrow> u8 list \<Rightarrow> u32 option run" where
  "find_pair m it key =
     (let is_reverse_endian = ResByaml_IsReverseEndian m (m_byaml it);
          container = GetBigData (m_byaml it) (m_container_data it)
      in byaml_search (compare_pair m (key_table m (m_byaml it) is_reverse_endian) container is_reverse_endian key) 0
           (container_count is_reverse_endian m container))"

definition TryRemapIndexByKey :: "memory \<Rightarrow> byaml_iterator \<Rightarrow> u8 list \<Rightarrow> u32 option run" where
  "TryRemapIndexByKey m it key =
     (if \<not> has_keys m it then ret None
      else bind_run (find_pair m it key) (\<lambda>r. ret (map_option (\<lambda>index.
        TryRemapIndex m (GetBigData (m_byaml it) (m_container_data it)) index (ResByaml_IsReverseEndian m (m_byaml it))) r)))"

definition TryGetByamlDataByKey :: "memory \<Rightarrow> byaml_iterator \<Rightarrow> byaml_data \<Rightarrow> u8 list \<Rightarrow> (bool \<times> byaml_data) run" where
  "TryGetByamlDataByKey m it out_byaml_data key =
     (if \<not> has_keys m it then ret (False, out_byaml_data)
      else bind_run (find_pair m it key) (\<lambda>r. ret (case r of
        Some index \<Rightarrow> (True, SetPair m (pair_at (GetBigData (m_byaml it) (m_container_data it)) index) (ResByaml_IsReverseEndian m (m_byaml it)))
      | None \<Rightarrow> (False, cleared_data))))"

text \<open>\<open>TryGetByamlDataByHash\<close>: \<open>hash_of\<close> is the width the overload compares in.\<close>

definition find_hash :: "(u64 \<Rightarrow> 'h::len word) \<Rightarrow> memory \<Rightarrow> byaml_iterator \<Rightarrow> byaml_data \<Rightarrow> 'h word \<Rightarrow> (bool \<times> byaml_data) run" where
  "find_hash hash_of m it out_byaml_data hash =
     (if m_byaml it = 0 \<or> read32 m (m_byaml it + 4) = 0 \<or> data_type (m_container_data it) AND 0xe0 \<noteq> HashArrayU32_1
      then ret (False, out_byaml_data)
      else
        let is_reverse_endian = ResByaml_IsReverseEndian m (m_byaml it);
            stride = hash_stride (data_type (m_container_data it));
            container = GetBigData (m_byaml it) (m_container_data it);
            size = container_count is_reverse_endian m container;
            data_type_array = container + ucast ((stride + 4) * size);
            compare = (\<lambda>index.
              let cur_hash = hash_of (GetHash m (hash_accessor container stride index) stride is_reverse_endian)
              in Inr (if hash = cur_hash then 0 else if cur_hash < hash then 1 else - 1))
        in bind_run (byaml_search compare 0 size) (\<lambda>r. ret (case r of
             Some index \<Rightarrow> (True, \<lparr>key_index = index AND 0xffffff, data_type = m (data_type_array + ucast index),
               u32_value = GetValue m (hash_accessor container stride index) stride is_reverse_endian\<rparr>)
           | None \<Rightarrow> (False, cleared_data))))"

definition TryGetByamlDataByHash32 :: "memory \<Rightarrow> byaml_iterator \<Rightarrow> byaml_data \<Rightarrow> u32 \<Rightarrow> (bool \<times> byaml_data) run" where
  "TryGetByamlDataByHash32 = find_hash ucast"

definition TryGetByamlDataByHash64 :: "memory \<Rightarrow> byaml_iterator \<Rightarrow> byaml_data \<Rightarrow> u64 \<Rightarrow> (bool \<times> byaml_data) run" where
  "TryGetByamlDataByHash64 = find_hash (\<lambda>hash. hash)"

definition TryGetByamlDataByIndex :: "memory \<Rightarrow> byaml_iterator \<Rightarrow> byaml_data \<Rightarrow> u32 \<Rightarrow> (bool \<times> byaml_data) result" where
  "TryGetByamlDataByIndex m it out_byaml_data index =
     bind_result (byaml_reverse m it) (\<lambda>is_reverse_endian.
       let type = data_type (m_container_data it);
           container = GetBigData (m_byaml it) (m_container_data it)
       in if type = Byaml_Dictionary \<or> type = Byaml_DictionaryWithRemap
          then Inr (dictionary_TryGetDataByIndex m container out_byaml_data index is_reverse_endian)
          else if type = Byaml_Array \<or> type = Byaml_MonoTypedArray
          then array_TryGetDataByIndex m container out_byaml_data index is_reverse_endian
          else if type AND 0xe0 = HashArrayU32_1
          then hash_TryGetDataByIndex m container out_byaml_data index is_reverse_endian
          else Inr (False, cleared_data))"

definition GetDataCount :: "memory \<Rightarrow> byaml_iterator \<Rightarrow> u32 result" where
  "GetDataCount m it =
     bind_result (byaml_reverse m it) (\<lambda>is_reverse_endian.
       Inr (container_count is_reverse_endian m (GetBigData (m_byaml it) (m_container_data it))))"

section \<open>Values\<close>

text \<open>
  \<open>TryGetValueByDataImpl\<close> for the types of 32 bits; a value is its bits.  \<open>IsBigDataType\<close> holds of no type, so
  its branch is never compiled.
\<close>

definition TryGetValueByDataImpl :: "u8 \<Rightarrow> byaml_data \<Rightarrow> u32 option" where
  "TryGetValueByDataImpl target_data_type data =
     (if data_type data \<noteq> target_data_type then None else Some (u32_value data))"

definition TryGetBoolByData :: "memory \<Rightarrow> byaml_iterator \<Rightarrow> byaml_data \<Rightarrow> bool option result" where
  "TryGetBoolByData m it data = Inr (map_option (\<lambda>v. v \<noteq> 0) (TryGetValueByDataImpl Byaml_Bool data))"

definition TryGetS32ByData :: "memory \<Rightarrow> byaml_iterator \<Rightarrow> byaml_data \<Rightarrow> u32 option result" where
  "TryGetS32ByData m it data = Inr (TryGetValueByDataImpl Byaml_S32 data)"

definition TryGetF32ByData :: "memory \<Rightarrow> byaml_iterator \<Rightarrow> byaml_data \<Rightarrow> u32 option result" where
  "TryGetF32ByData m it data = Inr (TryGetValueByDataImpl Byaml_F32 data)"

definition TryGetU32ByData :: "memory \<Rightarrow> byaml_iterator \<Rightarrow> byaml_data \<Rightarrow> u32 option result" where
  "TryGetU32ByData m it data = Inr (TryGetValueByDataImpl Byaml_U32 data)"

text \<open>The types of 64 bits take the 32 bit type too; \<open>widen\<close> is the conversion from \<open>float\<close> to \<open>double\<close>.\<close>

definition get_big :: "u8 \<Rightarrow> u8 \<Rightarrow> (u32 \<Rightarrow> u64) \<Rightarrow> memory \<Rightarrow> byaml_iterator \<Rightarrow> byaml_data \<Rightarrow> u64 option result" where
  "get_big small big convert m it data =
     (if data_type data = small then Inr (Some (convert (u32_value data)))
      else if data_type data \<noteq> big then Inr None
      else bind_result (byaml_reverse m it) (\<lambda>is_reverse_endian.
             Inr (Some (get64 is_reverse_endian m (m_byaml it + ucast (u32_value data))))))"

definition TryGetS64ByData :: "memory \<Rightarrow> byaml_iterator \<Rightarrow> byaml_data \<Rightarrow> u64 option result" where
  "TryGetS64ByData = get_big Byaml_S32 Byaml_S64 scast"

definition TryGetU64ByData :: "memory \<Rightarrow> byaml_iterator \<Rightarrow> byaml_data \<Rightarrow> u64 option result" where
  "TryGetU64ByData = get_big Byaml_U32 Byaml_U64 ucast"

definition TryGetF64ByData :: "(u32 \<Rightarrow> u64) \<Rightarrow> memory \<Rightarrow> byaml_iterator \<Rightarrow> byaml_data \<Rightarrow> u64 option result" where
  "TryGetF64ByData widen = get_big Byaml_F32 Byaml_F64 widen"

text \<open>The address of the data, its size and its alignment.\<close>

definition TryGetBinaryDataByData :: "memory \<Rightarrow> byaml_iterator \<Rightarrow> byaml_data \<Rightarrow> (u64 \<times> u32 \<times> u32) option result" where
  "TryGetBinaryDataByData m it data =
     (let size_data = m_byaml it + ucast (u32_value data)
      in if data_type data = Byaml_BinaryData
         then bind_result (byaml_reverse m it) (\<lambda>r. Inr (Some (size_data + 4, get32 r m size_data, 0)))
         else if data_type data = Byaml_BinaryDataWithAlignment
         then bind_result (byaml_reverse m it) (\<lambda>r. Inr (Some (size_data + 8, get32 r m size_data, get32 r m (size_data + 4))))
         else Inr None)"

definition TryGetStringByData :: "memory \<Rightarrow> byaml_iterator \<Rightarrow> byaml_data \<Rightarrow> u64 option result" where
  "TryGetStringByData m it data =
     (if data_type data \<noteq> Byaml_StringIndex then Inr None
      else bind_result (byaml_reverse m it) (\<lambda>is_reverse_endian.
        let table = string_table m (m_byaml it) is_reverse_endian
        in Inr (Some (GetStringByIndex m table (u32_value data) (key_pool_offset m table is_reverse_endian) is_reverse_endian))))"

text \<open>The iterator and whether it is a container or null.\<close>

definition TryGetIteratorByData :: "memory \<Rightarrow> byaml_iterator \<Rightarrow> byaml_data \<Rightarrow> bool \<times> byaml_iterator" where
  "TryGetIteratorByData m it data =
     (let type = data_type data;
          arr_type = type AND 0xf7;
          hash_type = type AND 0xe0
      in if arr_type = Byaml_Array \<or> type = Byaml_Dictionary \<or> type = Byaml_DictionaryWithRemap \<or> hash_type = HashArrayU32_1
         then (True, \<lparr>m_byaml = m_byaml it, m_container_data = data\<rparr>)
         else if type = Byaml_Null then (True, \<lparr>m_byaml = m_byaml it, m_container_data = cleared_data\<rparr>)
         else (False, \<lparr>m_byaml = 0, m_container_data = cleared_data\<rparr>))"

text \<open>A lookup by key, index or hash and then the value of what it found.\<close>

definition then_get :: "(memory \<Rightarrow> byaml_iterator \<Rightarrow> byaml_data \<Rightarrow> 'v option result) \<Rightarrow> memory \<Rightarrow> byaml_iterator \<Rightarrow>
    (bool \<times> byaml_data) run \<Rightarrow> 'v option run" where
  "then_get get m it lookup = bind_run lookup (\<lambda>(result, data). if \<not> result then ret None else Some (get m it data))"

definition TryGetValueByKeyImpl where "TryGetValueByKeyImpl get m it key = then_get get m it (TryGetByamlDataByKey m it no_data key)"
definition TryGetValueByIndexImpl where "TryGetValueByIndexImpl get m it index = then_get get m it (Some (TryGetByamlDataByIndex m it no_data index))"
definition TryGetValueByHash32Impl where "TryGetValueByHash32Impl get m it hash = then_get get m it (TryGetByamlDataByHash32 m it no_data hash)"
definition TryGetValueByHash64Impl where "TryGetValueByHash64Impl get m it hash = then_get get m it (TryGetByamlDataByHash64 m it no_data hash)"

definition TryGetBoolByKey where "TryGetBoolByKey = TryGetValueByKeyImpl TryGetBoolByData"
definition TryGetBoolByIndex where "TryGetBoolByIndex = TryGetValueByIndexImpl TryGetBoolByData"
definition TryGetBoolByHash32 where "TryGetBoolByHash32 = TryGetValueByHash32Impl TryGetBoolByData"
definition TryGetBoolByHash64 where "TryGetBoolByHash64 = TryGetValueByHash64Impl TryGetBoolByData"
definition TryGetS32ByKey where "TryGetS32ByKey = TryGetValueByKeyImpl TryGetS32ByData"
definition TryGetS32ByIndex where "TryGetS32ByIndex = TryGetValueByIndexImpl TryGetS32ByData"
definition TryGetS32ByHash32 where "TryGetS32ByHash32 = TryGetValueByHash32Impl TryGetS32ByData"
definition TryGetS32ByHash64 where "TryGetS32ByHash64 = TryGetValueByHash64Impl TryGetS32ByData"
definition TryGetF32ByKey where "TryGetF32ByKey = TryGetValueByKeyImpl TryGetF32ByData"
definition TryGetF32ByIndex where "TryGetF32ByIndex = TryGetValueByIndexImpl TryGetF32ByData"
definition TryGetF32ByHash32 where "TryGetF32ByHash32 = TryGetValueByHash32Impl TryGetF32ByData"
definition TryGetF32ByHash64 where "TryGetF32ByHash64 = TryGetValueByHash64Impl TryGetF32ByData"
definition TryGetU32ByKey where "TryGetU32ByKey = TryGetValueByKeyImpl TryGetU32ByData"
definition TryGetU32ByIndex where "TryGetU32ByIndex = TryGetValueByIndexImpl TryGetU32ByData"
definition TryGetU32ByHash32 where "TryGetU32ByHash32 = TryGetValueByHash32Impl TryGetU32ByData"
definition TryGetU32ByHash64 where "TryGetU32ByHash64 = TryGetValueByHash64Impl TryGetU32ByData"
definition TryGetS64ByKey where "TryGetS64ByKey = TryGetValueByKeyImpl TryGetS64ByData"
definition TryGetS64ByIndex where "TryGetS64ByIndex = TryGetValueByIndexImpl TryGetS64ByData"
definition TryGetS64ByHash32 where "TryGetS64ByHash32 = TryGetValueByHash32Impl TryGetS64ByData"
definition TryGetS64ByHash64 where "TryGetS64ByHash64 = TryGetValueByHash64Impl TryGetS64ByData"
definition TryGetU64ByKey where "TryGetU64ByKey = TryGetValueByKeyImpl TryGetU64ByData"
definition TryGetU64ByIndex where "TryGetU64ByIndex = TryGetValueByIndexImpl TryGetU64ByData"
definition TryGetU64ByHash32 where "TryGetU64ByHash32 = TryGetValueByHash32Impl TryGetU64ByData"
definition TryGetU64ByHash64 where "TryGetU64ByHash64 = TryGetValueByHash64Impl TryGetU64ByData"
definition TryGetF64ByKey where "TryGetF64ByKey widen = TryGetValueByKeyImpl (TryGetF64ByData widen)"
definition TryGetF64ByIndex where "TryGetF64ByIndex widen = TryGetValueByIndexImpl (TryGetF64ByData widen)"
definition TryGetF64ByHash32 where "TryGetF64ByHash32 widen = TryGetValueByHash32Impl (TryGetF64ByData widen)"
definition TryGetF64ByHash64 where "TryGetF64ByHash64 widen = TryGetValueByHash64Impl (TryGetF64ByData widen)"
definition TryGetBinaryDataByKey where "TryGetBinaryDataByKey = TryGetValueByKeyImpl TryGetBinaryDataByData"
definition TryGetBinaryDataByIndex where "TryGetBinaryDataByIndex = TryGetValueByIndexImpl TryGetBinaryDataByData"
definition TryGetBinaryDataByHash32 where "TryGetBinaryDataByHash32 = TryGetValueByHash32Impl TryGetBinaryDataByData"
definition TryGetBinaryDataByHash64 where "TryGetBinaryDataByHash64 = TryGetValueByHash64Impl TryGetBinaryDataByData"
definition TryGetStringByKey where "TryGetStringByKey = TryGetValueByKeyImpl TryGetStringByData"
definition TryGetStringByIndex where "TryGetStringByIndex = TryGetValueByIndexImpl TryGetStringByData"
definition TryGetStringByHash32 where "TryGetStringByHash32 = TryGetValueByHash32Impl TryGetStringByData"
definition TryGetStringByHash64 where "TryGetStringByHash64 = TryGetValueByHash64Impl TryGetStringByData"

text \<open>The iterator of what a lookup found.\<close>

definition then_iterator :: "memory \<Rightarrow> byaml_iterator \<Rightarrow> (bool \<times> byaml_data) run \<Rightarrow> (bool \<times> byaml_iterator) option run" where
  "then_iterator m it = then_get (\<lambda>m it data. Inr (Some (TryGetIteratorByData m it data))) m it"

definition TryGetIteratorByKey where "TryGetIteratorByKey m it key = then_iterator m it (TryGetByamlDataByKey m it no_data key)"
definition TryGetIteratorByIndex where "TryGetIteratorByIndex m it index = then_iterator m it (Some (TryGetByamlDataByIndex m it no_data index))"
definition TryGetIteratorByHash32 where "TryGetIteratorByHash32 m it hash = then_iterator m it (TryGetByamlDataByHash32 m it no_data hash)"
definition TryGetIteratorByHash64 where "TryGetIteratorByHash64 m it hash = then_iterator m it (TryGetByamlDataByHash64 m it no_data hash)"

text \<open>The value an iterator of single data stands for.\<close>

definition TryGetBoolByIterator where "TryGetBoolByIterator m it = TryGetBoolByData m it (m_container_data it)"
definition TryGetS32ByIterator where "TryGetS32ByIterator m it = TryGetS32ByData m it (m_container_data it)"
definition TryGetF32ByIterator where "TryGetF32ByIterator m it = TryGetF32ByData m it (m_container_data it)"
definition TryGetU32ByIterator where "TryGetU32ByIterator m it = TryGetU32ByData m it (m_container_data it)"
definition TryGetS64ByIterator where "TryGetS64ByIterator m it = TryGetS64ByData m it (m_container_data it)"
definition TryGetF64ByIterator where "TryGetF64ByIterator widen m it = TryGetF64ByData widen m it (m_container_data it)"
definition TryGetU64ByIterator where "TryGetU64ByIterator m it = TryGetU64ByData m it (m_container_data it)"
definition TryGetStringByIterator where "TryGetStringByIterator m it = TryGetStringByData m it (m_container_data it)"
definition TryGetBinaryDataByIterator where "TryGetBinaryDataByIterator m it = TryGetBinaryDataByData m it (m_container_data it)"

end
