(* ===== verification/Byaml_Props.thy ===== *)
theory Byaml_Props
  imports Byaml "HOL-Library.List_Lexorder"
begin

text \<open>
  What the BYAML reader finds: the binary searches over sorted tables, the types an iterator can have, and
  the string tables that the validity check accepts.  Keys are ordered as \<open>strcmp\<close> has them, byte by byte.
\<close>

section \<open>Comparing strings\<close>

lemma cstring_at_Nil: "cstring_at m p [] \<longleftrightarrow> m p = 0"
  by (simp add: cstring_at_def read_bytes_def)

lemma cstring_at_Cons: "cstring_at m p (c # s) \<longleftrightarrow> m p = c \<and> cstring_at m (p + 1) s"
proof -
  have "read_bytes m p (Suc (Suc (length s))) = m p # read_bytes m (p + 1) (Suc (length s))"
    by (simp only: read_bytes_def upt_conv_Cons [of 0] map_Suc_upt [symmetric] list.map map_map) (simp add: add.assoc)
  then show ?thesis by (simp add: cstring_at_def)
qed

lemma strcmp_key_sign:
  "cstring_at m p s \<Longrightarrow> 0 \<notin> set s \<Longrightarrow> 0 \<notin> set key \<Longrightarrow>
    (strcmp_key key m p = 0 \<longleftrightarrow> key = s) \<and> (0 < strcmp_key key m p \<longleftrightarrow> s < key)"
proof (induction key arbitrary: p s)
  case Nil
  show ?case
  proof (cases s)
    case (Cons c t)
    then have "m p \<noteq> 0" using Nil.prems by (auto simp: cstring_at_Cons)
    then have "0 < uint (m p)" by (simp add: word_gt_0 flip: word_less_def [of 0, simplified])
    then show ?thesis using Cons by simp
  qed (use Nil.prems in \<open>simp add: cstring_at_Nil\<close>)
next
  case (Cons c key)
  show ?case
  proof (cases s)
    case Nil
    then have "m p = 0" "c \<noteq> 0" using Cons.prems by (auto simp: cstring_at_Nil)
    then have "0 < uint c" by (simp add: word_gt_0 flip: word_less_def [of 0, simplified])
    then show ?thesis using Nil \<open>m p = 0\<close> \<open>c \<noteq> 0\<close> by simp
  next
    case (Cons d t)
    have d: "m p = d" "cstring_at m (p + 1) t" using Cons.prems(1) Cons by (simp_all add: cstring_at_Cons)
    show ?thesis
    proof (cases "c = d")
      case True
      then show ?thesis using Cons.IH [OF d(2)] Cons.prems Cons d(1) by simp
    next
      case False
      then have "uint c \<noteq> uint d" using word_uint_eqI by blast
      then show ?thesis using False Cons d(1) by (auto simp: word_less_def)
    qed
  qed
qed

section \<open>The binary search\<close>

lemma byaml_search_finds:
  assumes total: "\<And>k. k < n \<Longrightarrow> compare k = Inr (r k)" and mono: "\<And>j k. j < k \<Longrightarrow> k < n \<Longrightarrow> 0 \<le> r k \<Longrightarrow> 0 < r j"
    and n: "unat n < 2 ^ 31"
  shows "i \<le> u \<Longrightarrow> u \<le> n \<Longrightarrow> (\<And>k. k < i \<Longrightarrow> 0 < r k) \<Longrightarrow> (\<And>k. u \<le> k \<Longrightarrow> k < n \<Longrightarrow> r k < 0) \<Longrightarrow>
    \<exists>x. byaml_search compare i u = ret x \<and> (case x of Some k \<Rightarrow> k < n \<and> r k = 0 | None \<Rightarrow> \<forall>k<n. r k \<noteq> 0)"
proof (induction "unat u - unat i" arbitrary: i u rule: less_induct)
  case less
  show ?case
  proof (cases "i < u")
    case False
    then have "i = u" using less.prems(1) by simp
    have "r k \<noteq> 0" if "k < n" for k
    proof (cases "k < i")
      case True
      then show ?thesis using less.prems(3) by fastforce
    next
      case False
      then have "r k < 0" using less.prems(4) [of k] that \<open>i = u\<close> by simp
      then show ?thesis by simp
    qed
    then show ?thesis using False by (subst byaml_search.simps) simp
  next
    case True
    define e where "e = (i + u) div 2"
    have ue: "unat e = (unat u + unat i) div 2" unfolding e_def
      using half_between [of i u] less.prems n True by (auto simp: word_le_nat_alt add.commute)
    have en: "i \<le> e" "e < u" "e < n" using True less.prems(2) ue by (auto simp: word_order_nat)
    have u1: "unat (e + 1) = Suc (unat e)" using en(2) by (metis unat_Suc_less)
    have step: "byaml_search compare i u = (if r e = 0 then ret (Some e)
        else if 0 < r e then byaml_search compare (e + 1) u else byaml_search compare i e)"
      using True total [OF en(3)] by (subst byaml_search.simps) (simp add: Let_def e_def)
    consider "r e = 0" | "0 < r e" | "r e < 0" by linarith
    then show ?thesis
    proof cases
      case 1
      then show ?thesis using step en by auto
    next
      case 2
      have "0 < r k" if "k < e + 1" for k
      proof (cases "k = e")
        case False
        then have "k < e" using that u1 by (simp add: word_less_nat_alt word_eq_unat_iff)
        then show ?thesis using mono [of k e] en(3) 2 by simp
      qed (use 2 in simp)
      moreover have "unat u - unat (e + 1) < unat u - unat i" "e + 1 \<le> u" using en u1 True by (auto simp: word_order_nat)
      ultimately show ?thesis using less.hyps [of u "e + 1"] less.prems(2,4) step 2 by simp
    next
      case 3
      have "r k < 0" if "e \<le> k" "k < n" for k
      proof (cases "k = e")
        case False
        then have "e < k" using that by simp
        then show ?thesis using mono [of e k] that 3 by force
      qed (use 3 in simp)
      moreover have "unat e - unat i < unat u - unat i" "e \<le> n" using en True by (auto simp: word_order_nat)
      ultimately show ?thesis using less.hyps [of e i] less.prems(3) en step 3 by simp
    qed
  qed
qed


section \<open>Lookup by key\<close>

definition iter_reverse :: "memory \<Rightarrow> byaml_iterator \<Rightarrow> bool" where
  "iter_reverse m it = ResByaml_IsReverseEndian m (m_byaml it)"

definition iter_container :: "byaml_iterator \<Rightarrow> u64" where
  "iter_container it = GetBigData (m_byaml it) (m_container_data it)"

text \<open>The string of a pair, and a dictionary whose keys are \<open>keys\<close>, in order.\<close>

definition pair_string :: "memory \<Rightarrow> byaml_iterator \<Rightarrow> u32 \<Rightarrow> u64" where
  "pair_string m it k =
     (let rev = iter_reverse m it; table = key_table m (m_byaml it) rev
      in GetStringByIndex m table (pair_key_index rev m (pair_at (iter_container it) k)) (key_pool_offset m table rev) rev)"

definition dictionary_keys :: "memory \<Rightarrow> byaml_iterator \<Rightarrow> u8 list list \<Rightarrow> bool" where
  "dictionary_keys m it keys \<longleftrightarrow> m_byaml it \<noteq> 0 \<and> read32 m (m_byaml it + 4) \<noteq> 0 \<and> is_dictionary it \<and> iter_container it \<noteq> 0 \<and>
     length keys < 2 ^ 24 \<and> container_count (iter_reverse m it) m (iter_container it) = of_nat (length keys) \<and>
     (\<forall>k<length keys. pair_at (iter_container it) (of_nat k) \<noteq> 0 \<and> cstring_at m (pair_string m it (of_nat k)) (keys ! k) \<and> 0 \<notin> set (keys ! k)) \<and>
     sorted_wrt (<) keys"

lemma find_pair_spec:
  assumes d: "dictionary_keys m it keys" and key: "0 \<notin> set key"
  obtains x where "find_pair m it key = ret x"
    and "case x of Some k \<Rightarrow> unat k < length keys \<and> keys ! unat k = key | None \<Rightarrow> key \<notin> set keys"
proof -
  let ?rev = "iter_reverse m it" and ?c = "iter_container it"
  let ?n = "of_nat (length keys) :: u32"
  let ?compare = "compare_pair m (key_table m (m_byaml it) ?rev) ?c ?rev key"
  define r where "r k = strcmp_key key m (pair_string m it k)" for k
  have un: "unat ?n = length keys" using d by (simp add: dictionary_keys_def unat_of_nat_less)
  have cnt: "container_count ?rev m ?c = ?n" and c0: "?c \<noteq> 0" using d by (simp_all add: dictionary_keys_def)
  have key_at: "cstring_at m (pair_string m it k) (keys ! unat k) \<and> 0 \<notin> set (keys ! unat k) \<and> pair_at ?c k \<noteq> 0" if "k < ?n" for k
  proof -
    have "unat k < length keys" using that un by (simp add: word_less_nat_alt)
    then show ?thesis using d by (auto simp: dictionary_keys_def)
  qed
  have total: "?compare k = Inr (r k)" if "k < ?n" for k
    using key_at [OF that] that c0 cnt by (simp add: compare_pair_def GetDictionaryPairByIndex_def Let_def r_def pair_string_def not_le)
  have sign: "(r k = 0 \<longleftrightarrow> key = keys ! unat k) \<and> (0 < r k \<longleftrightarrow> keys ! unat k < key)" if "k < ?n" for k
    unfolding r_def using key_at [OF that] by (intro strcmp_key_sign key) simp_all
  have mono: "0 < r j" if "j < k" "k < ?n" "0 \<le> r k" for j k
  proof -
    have "keys ! unat j < keys ! unat k"
      using d that(1,2) un by (intro sorted_wrt_nth_less [of "(<)"]) (simp_all add: dictionary_keys_def word_less_nat_alt)
    moreover have "keys ! unat k \<le> key" using sign [OF that(2)] that(3) by auto
    moreover have "j < ?n" using that by simp
    ultimately show ?thesis using sign [of j] by simp
  qed
  have "\<exists>x. byaml_search ?compare 0 ?n = ret x \<and> (case x of Some k \<Rightarrow> k < ?n \<and> r k = 0 | None \<Rightarrow> \<forall>k<?n. r k \<noteq> 0)"
    by (rule byaml_search_finds [OF total mono]) (use d un in \<open>auto simp: dictionary_keys_def\<close>)
  then obtain x where x: "byaml_search ?compare 0 ?n = ret x" "case x of Some k \<Rightarrow> k < ?n \<and> r k = 0 | None \<Rightarrow> \<forall>k<?n. r k \<noteq> 0" by blast
  have "find_pair m it key = ret x"
    using x(1) cnt by (simp add: find_pair_def Let_def iter_reverse_def iter_container_def)
  moreover have "case x of Some k \<Rightarrow> unat k < length keys \<and> keys ! unat k = key | None \<Rightarrow> key \<notin> set keys"
  proof (cases x)
    case None
    have "keys ! k \<noteq> key" if "k < length keys" for k
    proof -
      have u: "unat (of_nat k :: u32) = k" using that d by (simp add: dictionary_keys_def unat_of_nat_less)
      then have "(of_nat k :: u32) < ?n" using that un by (simp add: word_less_nat_alt)
      then show ?thesis using x(2) None sign [of "of_nat k"] u by auto
    qed
    then show ?thesis using None by (auto simp: in_set_conv_nth)
  next
    case (Some k)
    then show ?thesis using x(2) sign [of k] un by (auto simp: word_less_nat_alt)
  qed
  ultimately show thesis by (rule that)
qed

text \<open>
  C19: Lookup by key is a map.  In a dictionary whose keys are strictly sorted, whatever the byte order, the kind
  of key table and the remap, a key is found exactly if it is one of them; the data found is that of its pair, and the index
  answered is the remapped one of the pair.
\<close>

theorem byaml_lookup_by_key:
  assumes "dictionary_keys m it keys" and "0 \<notin> set key"
  shows "if key \<in> set keys
    then \<exists>k<length keys. keys ! k = key \<and>
      TryGetByamlDataByKey m it out key = ret (True, SetPair m (pair_at (iter_container it) (of_nat k)) (iter_reverse m it)) \<and>
      TryRemapIndexByKey m it key = ret (Some (dictionary_remap m (iter_container it) (of_nat k) (iter_reverse m it)))
    else TryGetByamlDataByKey m it out key = ret (False, cleared_data) \<and> TryRemapIndexByKey m it key = ret None"
proof -
  obtain x where x: "find_pair m it key = ret x"
    "case x of Some k \<Rightarrow> unat k < length keys \<and> keys ! unat k = key | None \<Rightarrow> key \<notin> set keys"
    by (rule find_pair_spec [OF assms])
  have "container_count (iter_reverse m it) m (iter_container it) = of_nat (length keys)" "iter_container it \<noteq> 0" "length keys < 2 ^ 24"
    using assms(1) by (simp_all add: dictionary_keys_def)
  then have remap: "TryRemapIndex m (iter_container it) k (iter_reverse m it) = dictionary_remap m (iter_container it) k (iter_reverse m it)"
    if "unat k < length keys" for k
    using that by (simp add: TryRemapIndex_def word_le_nat_alt unat_of_nat_less)
  have keys: "has_keys m it" using assms(1) by (simp add: dictionary_keys_def has_keys_def)
  show ?thesis
  proof (cases x)
    case None
    then show ?thesis using x keys by (simp add: TryGetByamlDataByKey_def TryRemapIndexByKey_def)
  next
    case (Some k)
    then have k: "unat k < length keys" "keys ! unat k = key" "key \<in> set keys" using x(2) by auto
    then have "TryRemapIndexByKey m it key = ret (Some (dictionary_remap m (iter_container it) k (iter_reverse m it)))"
      using x(1) Some remap [of k] keys by (simp add: TryRemapIndexByKey_def iter_container_def iter_reverse_def)
    then show ?thesis using x(1) Some k keys
      by (intro if_P [THEN iffD2] exI [of _ "unat k"]) (auto simp: TryGetByamlDataByKey_def iter_container_def iter_reverse_def)
  qed
qed


section \<open>Lookup by hash\<close>

definition iter_stride :: "byaml_iterator \<Rightarrow> u32" where
  "iter_stride it = hash_stride (data_type (m_container_data it))"

text \<open>The entry of index \<open>k\<close>, and a hash array of the hashes \<open>hs\<close>.\<close>

definition hash_entry :: "byaml_iterator \<Rightarrow> nat \<Rightarrow> u64" where
  "hash_entry it k = hash_accessor (iter_container it) (iter_stride it) (of_nat k)"

definition hash_array :: "memory \<Rightarrow> byaml_iterator \<Rightarrow> u64 list \<Rightarrow> bool" where
  "hash_array m it hs \<longleftrightarrow> m_byaml it \<noteq> 0 \<and> data_type (m_container_data it) AND 0xe0 = HashArrayU32_1 \<and>
     length hs < 2 ^ 24 \<and> container_count (iter_reverse m it) m (iter_container it) = of_nat (length hs) \<and>
     (\<forall>k<length hs. GetHash m (hash_entry it k) (iter_stride it) (iter_reverse m it) = hs ! k)"

text \<open>The answer a lookup of \<open>h\<close> gives when the overload compares the hashes \<open>hs\<close>.\<close>

definition hash_answer :: "memory \<Rightarrow> byaml_iterator \<Rightarrow> 'h::len word list \<Rightarrow> 'h word \<Rightarrow> (bool \<times> byaml_data) run \<Rightarrow> bool" where
  "hash_answer m it hs h answer \<longleftrightarrow>
     (if h \<in> set hs
      then \<exists>k<length hs. hs ! k = h \<and> (\<exists>d. answer = ret (True, d) \<and>
        u32_value d = GetValue m (hash_entry it k) (iter_stride it) (iter_reverse m it) \<and>
        data_type d = m (hash_entry it (length hs - 1) + ucast (iter_stride it) + of_nat k))
      else answer = ret (False, cleared_data))"

lemma hash_stride_bound: "unat (hash_stride type) \<le> 64"
proof -
  let ?u = "ucast (type AND 0xf) :: u32"
  have "type AND 0xf \<le> 0xf" by (rule word_and_le1)
  then have "unat ?u \<le> 15" by (simp add: unat_ucast_up word_le_nat_alt)
  then have "unat ?u * unat (4 :: u32) < 2 ^ LENGTH(32)" by simp
  from unat_mult_lem [THEN iffD1, OF this] have m: "unat (?u * 4) = unat ?u * 4" by simp
  then have "unat (?u * 4 + 4) = unat ?u * 4 + 4" using \<open>unat ?u \<le> 15\<close> by (subst unat_add_nowrap) simp_all
  then show ?thesis using \<open>unat ?u \<le> 15\<close> by (simp add: hash_stride_def)
qed

lemma ucast_unat: "(ucast (x :: u32) :: u64) = of_nat (unat x)"
proof -
  have "unat x < 2 ^ LENGTH(32)" by (rule unsigned_less)
  also have "(2 :: nat) ^ LENGTH(32) < 2 ^ 64" by simp
  finally have "unat x < 2 ^ 64" .
  then show ?thesis by (simp add: word_eq_unat_iff unat_ucast_up unat_of_nat_less)
qed

text \<open>The types the reader reads begin at the value of the last entry.\<close>

lemma type_array_at_last_value:
  assumes "0 < n" and "n < 2 ^ 24"
  shows "container + ucast ((hash_stride type + 4) * of_nat n) =
    hash_accessor container (hash_stride type) (of_nat (n - 1)) + ucast (hash_stride type)"
proof -
  let ?s = "hash_stride type"
  have s: "unat (?s + 4) = unat ?s + 4" using hash_stride_bound [of type] by (subst unat_add_nowrap) simp_all
  have n: "unat (of_nat n :: u32) = n" "unat (of_nat (n - 1) :: u32) = n - 1" using assms by (simp_all add: unat_of_nat_less del: of_nat_diff)
  have "(unat ?s + 4) * n < 68 * 2 ^ 24 + 1" using hash_stride_bound [of type] assms(2) mult_mono [of "unat ?s + 4" 68 n "2 ^ 24"] by simp
  then have "unat (?s + 4) * unat (of_nat n :: u32) < 2 ^ LENGTH(32)" using s n by simp
  from unat_mult_lem [THEN iffD1, OF this] have "unat ((?s + 4) * of_nat n) = (unat ?s + 4) * n" using s n by simp
  then have l: "(ucast ((?s + 4) * of_nat n) :: u64) = (of_nat (unat ?s) + 4) * of_nat n" by (simp only: ucast_unat of_nat_mult of_nat_add of_nat_numeral)
  have c: "(ucast (of_nat (n - 1) :: u32) :: u64) = of_nat n - 1" using n assms(1) by (simp only: ucast_unat) (simp add: of_nat_diff)
  have "container + (of_nat (unat ?s) + 4) * of_nat n = container + (of_nat (unat ?s) + 4) * (of_nat n - 1) + 4 + of_nat (unat ?s)"
    by (simp add: algebra_simps)
  then show ?thesis by (simp only: l c hash_accessor_def) (simp only: ucast_unat)
qed

lemma find_hash_spec:
  fixes hash_of :: "u64 \<Rightarrow> 'h::len word"
  assumes A: "hash_array m it hs" and sorted: "sorted_wrt (<) (map hash_of hs)"
  obtains x where "byaml_search (\<lambda>index. Inr (if h = hash_of (GetHash m (hash_accessor (iter_container it) (iter_stride it) index) (iter_stride it) (iter_reverse m it)) then 0
      else if hash_of (GetHash m (hash_accessor (iter_container it) (iter_stride it) index) (iter_stride it) (iter_reverse m it)) < h then 1 else - 1)) 0 (of_nat (length hs)) = ret x"
    and "case x of Some k \<Rightarrow> unat k < length hs \<and> hash_of (hs ! unat k) = h | None \<Rightarrow> h \<notin> set (map hash_of hs)"
proof -
  let ?n = "of_nat (length hs) :: u32"
  define r where "r k = (if h = hash_of (hs ! unat k) then 0 else if hash_of (hs ! unat k) < h then 1 else - 1 :: int)" for k :: u32
  let ?compare = "\<lambda>index. Inr (if h = hash_of (GetHash m (hash_accessor (iter_container it) (iter_stride it) index) (iter_stride it) (iter_reverse m it)) then 0
      else if hash_of (GetHash m (hash_accessor (iter_container it) (iter_stride it) index) (iter_stride it) (iter_reverse m it)) < h then 1 else - 1)"
  have un: "unat ?n = length hs" using A by (simp add: hash_array_def unat_of_nat_less)
  have total: "?compare k = Inr (r k)" if "k < ?n" for k
  proof -
    have "unat k < length hs" using that un by (simp add: word_less_nat_alt)
    then have "GetHash m (hash_entry it (unat k)) (iter_stride it) (iter_reverse m it) = hs ! unat k" using A by (simp add: hash_array_def)
    then have "GetHash m (hash_accessor (iter_container it) (iter_stride it) k) (iter_stride it) (iter_reverse m it) = hs ! unat k"
      by (simp add: hash_entry_def)
    then show ?thesis by (simp add: r_def)
  qed
  have mono: "0 < r j" if "j < k" "k < ?n" "0 \<le> r k" for j k
  proof -
    have "hash_of (hs ! unat j) < hash_of (hs ! unat k)"
      using sorted_wrt_nth_less [OF sorted, of "unat j" "unat k"] that(1,2) un by (simp add: word_less_nat_alt)
    then show ?thesis using that(3) by (auto simp: r_def split: if_splits)
  qed
  have "\<exists>x. byaml_search ?compare 0 ?n = ret x \<and> (case x of Some k \<Rightarrow> k < ?n \<and> r k = 0 | None \<Rightarrow> \<forall>k<?n. r k \<noteq> 0)"
    by (rule byaml_search_finds [OF total mono]) (use A un in \<open>auto simp: hash_array_def\<close>)
  then obtain x where x: "byaml_search ?compare 0 ?n = ret x" "case x of Some k \<Rightarrow> k < ?n \<and> r k = 0 | None \<Rightarrow> \<forall>k<?n. r k \<noteq> 0" by blast
  have "case x of Some k \<Rightarrow> unat k < length hs \<and> hash_of (hs ! unat k) = h | None \<Rightarrow> h \<notin> set (map hash_of hs)"
  proof (cases x)
    case None
    have "hash_of (hs ! k) \<noteq> h" if "k < length hs" for k
    proof -
      have u: "unat (of_nat k :: u32) = k" using that A by (simp add: hash_array_def unat_of_nat_less)
      then have "(of_nat k :: u32) < ?n" using that un by (simp add: word_less_nat_alt)
      then have "r (of_nat k) \<noteq> 0" using x(2) None by simp
      then show ?thesis using u by (auto simp: r_def)
    qed
    then have "h \<notin> set (map hash_of hs)" by (metis in_set_conv_nth length_map nth_map)
    then show ?thesis using None by simp
  next
    case (Some k)
    then show ?thesis using x(2) un by (auto simp: word_less_nat_alt r_def split: if_splits)
  qed
  with x(1) show thesis by (rule that)
qed

lemma find_hash_answer:
  assumes A: "hash_array m it hs" and "sorted_wrt (<) (map hash_of hs)" and table: "read32 m (m_byaml it + 4) \<noteq> 0"
  shows "hash_answer m it (map hash_of hs) h (find_hash hash_of m it out h)"
proof -
  obtain x where x: "byaml_search (\<lambda>index. Inr (if h = hash_of (GetHash m (hash_accessor (iter_container it) (iter_stride it) index) (iter_stride it) (iter_reverse m it)) then 0
      else if hash_of (GetHash m (hash_accessor (iter_container it) (iter_stride it) index) (iter_stride it) (iter_reverse m it)) < h then 1 else - 1)) 0 (of_nat (length hs)) = ret x"
    "case x of Some k \<Rightarrow> unat k < length hs \<and> hash_of (hs ! unat k) = h | None \<Rightarrow> h \<notin> set (map hash_of hs)"
    by (rule find_hash_spec [OF assms(1,2)])
  have A: "m_byaml it \<noteq> 0" "data_type (m_container_data it) AND 0xe0 = HashArrayU32_1"
    "container_count (iter_reverse m it) m (iter_container it) = of_nat (length hs)" "length hs < 2 ^ 24" using A by (simp_all add: hash_array_def)
  note D = find_hash_def Let_def
  have run: "find_hash hash_of m it out h = ret (case x of None \<Rightarrow> (False, cleared_data) | Some index \<Rightarrow> (True, \<lparr>key_index = index AND 0xffffff,
      data_type = m (iter_container it + ucast ((iter_stride it + 4) * of_nat (length hs)) + ucast index),
      u32_value = GetValue m (hash_accessor (iter_container it) (iter_stride it) index) (iter_stride it) (iter_reverse m it)\<rparr>))"
    using A table x(1) by (simp only: D iter_container_def [symmetric] iter_reverse_def [symmetric] iter_stride_def [symmetric]) (simp split: option.split)
  show ?thesis
  proof (cases x)
    case None
    then show ?thesis using run x(2) by (simp add: hash_answer_def)
  next
    case (Some k)
    then have k: "unat k < length hs" "hash_of (hs ! unat k) = h" using x(2) by auto
    then have h: "h \<in> set (map hash_of hs)" by auto
    have "iter_container it + ucast ((iter_stride it + 4) * of_nat (length hs)) = hash_entry it (length hs - 1) + ucast (iter_stride it)"
      using type_array_at_last_value [of "length hs" "iter_container it"] k(1) A(4) by (simp only: iter_stride_def hash_entry_def)
    moreover have "(ucast k :: u64) = of_nat (unat k)" by (rule ucast_unat)
    ultimately show ?thesis using run Some k h unfolding hash_answer_def
      by (intro if_P [THEN iffD2] exI [of _ "unat k"]) (auto simp: hash_entry_def)
  qed
qed

text \<open>
  C20: Lookup by hash, in both overloads.  A document without a key table, which hash arrays do not need, answers
  no hash at all and leaves the caller's data as they were.  With a key table lookup is a map: in a hash array
  whose hashes, cut to the width the overload compares in, are strictly sorted the value of exactly the hashes of
  the array is found and any other hash clears the data; but the type that is answered with the value is not the
  one of the entry, it is read at the value of the last entry, four bytes before the types lie behind it.
\<close>

theorem byaml_lookup_by_hash:
  assumes "hash_array m it hs"
  shows "if read32 m (m_byaml it + 4) = 0
    then TryGetByamlDataByHash64 m it out h = ret (False, out) \<and> TryGetByamlDataByHash32 m it out h32 = ret (False, out)
    else (sorted_wrt (<) hs \<longrightarrow> hash_answer m it hs h (TryGetByamlDataByHash64 m it out h)) \<and>
      (sorted_wrt (<) (map ucast hs :: u32 list) \<longrightarrow> hash_answer m it (map ucast hs) h32 (TryGetByamlDataByHash32 m it out h32))"
proof (cases "read32 m (m_byaml it + 4) = 0")
  case True
  then show ?thesis by (simp add: TryGetByamlDataByHash64_def TryGetByamlDataByHash32_def find_hash_def)
next
  case False
  from find_hash_answer [OF assms _ False, of "\<lambda>hash. hash" h out] find_hash_answer [OF assms _ False, of ucast h32 out]
  show ?thesis using False by (simp add: TryGetByamlDataByHash64_def TryGetByamlDataByHash32_def)
qed

section \<open>String tables\<close>

definition table_offset :: "memory \<Rightarrow> u64 \<Rightarrow> bool \<Rightarrow> nat \<Rightarrow> u32" where
  "table_offset m table swapped k = get32 swapped m (table + 4 + 4 * of_nat k)"

text \<open>A table of the strings \<open>ss\<close>, one behind the other.\<close>

definition strings_at :: "memory \<Rightarrow> u64 \<Rightarrow> bool \<Rightarrow> u8 list list \<Rightarrow> bool" where
  "strings_at m table swapped ss \<longleftrightarrow> container_type m table = Byaml_KeyTable \<and> ss \<noteq> [] \<and> length ss < 2 ^ 24 \<and>
     container_count swapped m table = of_nat (length ss) \<and>
     (\<forall>k<length ss. cstring_at m (table + ucast (table_offset m table swapped k)) (ss ! k) \<and> 0 \<notin> set (ss ! k) \<and>
        unat (table_offset m table swapped (Suc k)) = unat (table_offset m table swapped k) + length (ss ! k) + 1)"

lemma strings_at_nth:
  assumes "strings_at m table swapped ss" and "k < length ss"
  shows "cstring_at m (table + ucast (table_offset m table swapped k)) (ss ! k)" and "0 \<notin> set (ss ! k)"
    and "unat (table_offset m table swapped (Suc k)) = unat (table_offset m table swapped k) + length (ss ! k) + 1"
  using assms by (auto simp: strings_at_def)

lemma cstring_end: "cstring_at m p s \<Longrightarrow> m (p + of_nat (length s)) = 0"
  by (induction s arbitrary: p) (auto simp: cstring_at_Nil cstring_at_Cons add.assoc [symmetric])

lemma strcmp_mem_spec:
  "cstring_at m p s \<Longrightarrow> cstring_at m q t \<Longrightarrow> 0 \<notin> set s \<Longrightarrow> 0 \<notin> set t \<Longrightarrow>
    \<exists>r. strcmp_mem m p q = Some r \<and> (r = 0 \<longleftrightarrow> s = t) \<and> \<bar>r\<bar> < 256"
proof (induction s arbitrary: p q t)
  case Nil
  have b: "uint (m q) < 256" "0 \<le> uint (m q)" using uint_lt2p [of "m q"] by simp_all
  show ?case
  proof (cases t)
    case (Cons d t')
    then have "m q = d" "d \<noteq> 0" using Nil.prems by (auto simp: cstring_at_Cons)
    moreover have "uint d \<noteq> 0" using \<open>d \<noteq> 0\<close> by (simp add: uint_0_iff)
    ultimately show ?thesis using Nil.prems(1) Cons b by (subst strcmp_mem.simps) (auto simp: cstring_at_Nil)
  qed (use Nil.prems in \<open>subst strcmp_mem.simps, simp add: cstring_at_Nil\<close>)
next
  case (Cons c s)
  have c: "m p = c" "c \<noteq> 0" "cstring_at m (p + 1) s" using Cons.prems by (auto simp: cstring_at_Cons)
  have b: "uint (m p) < 256" "0 \<le> uint (m p)" "uint (m q) < 256" "0 \<le> uint (m q)" using uint_lt2p [of "m p"] uint_lt2p [of "m q"] by simp_all
  show ?case
  proof (cases "m p = m q")
    case False
    have "c # s \<noteq> t" using False c(1) Cons.prems(2) by (auto simp: cstring_at_Cons)
    moreover have "uint (m p) \<noteq> uint (m q)" using False word_uint_eqI by blast
    moreover have "\<bar>uint (m p) - uint (m q)\<bar> < 256" using b by linarith
    ultimately show ?thesis using False by (subst strcmp_mem.simps) auto
  next
    case True
    then obtain t' where t: "t = c # t'" "cstring_at m (q + 1) t'" using Cons.prems(2) c by (cases t) (auto simp: cstring_at_Nil cstring_at_Cons)
    from Cons.IH [OF c(3) t(2)] Cons.prems(3,4) t(1) obtain r where "strcmp_mem m (p + 1) (q + 1) = Some r" "(r = 0) = (s = t')" "\<bar>r\<bar> < 256" by auto
    then show ?thesis using True c(1,2) t(1) by (subst strcmp_mem.simps) auto
  qed
qed

lemma sort_result_zero: "\<bar>r\<bar> < 256 \<Longrightarrow> (word_of_int r :: u32) < 1 \<longleftrightarrow> r = 0"
proof -
  assume r: "\<bar>r\<bar> < 256"
  have "(word_of_int r :: u32) < 1 \<longleftrightarrow> (word_of_int r :: u32) = 0" by (simp add: word_less_nat_alt unat_eq_0)
  also have "\<dots> \<longleftrightarrow> 2 ^ 32 dvd r" by (simp add: word_of_int_eq_0_iff)
  also have "\<dots> \<longleftrightarrow> r = 0" using r zdvd_imp_le [of "2 ^ 32" "\<bar>r\<bar>"] by auto
  finally show ?thesis .
qed

lemma verify_strings_spec:
  assumes S: "strings_at m table swapped ss"
  shows "i < length ss \<Longrightarrow> verify_strings m table swapped (of_nat (length ss)) (length ss - i) (of_nat i) =
    Some (\<forall>k. i \<le> k \<longrightarrow> Suc k < length ss \<longrightarrow> ss ! k \<noteq> ss ! Suc k)"
proof (induction "length ss - i" arbitrary: i)
  case (Suc d)
  let ?n = "length ss" and ?o = "table_offset m table swapped"
  have n: "?n < 2 ^ 24" and str: "cstring_at m (table + ucast (?o k)) (ss ! k)" "0 \<notin> set (ss ! k)"
    "unat (?o (Suc k)) = unat (?o k) + length (ss ! k) + 1" if "k < ?n" for k using S that by (auto simp: strings_at_def)
  have ui: "(ucast (of_nat i :: u32) :: u64) = of_nat i" using Suc.prems n [OF Suc.prems] by (simp add: unsigned_of_nat take_bit_nat_eq_self)
  have starts: "table + 4 + ucast (of_nat i :: u32) * 4 = table + 4 + 4 * of_nat i"
    "table + 4 + 4 * of_nat i + 4 = table + 4 + 4 * of_nat (Suc i)" by (simp_all add: ui)
  have "(ucast (?o (Suc i)) :: u64) = of_nat (unat (?o (Suc i)))" by (simp add: word_eq_unat_iff unsigned_ucast_eq)
  also have "\<dots> = ucast (?o i) + of_nat (length (ss ! i)) + 1" by (simp add: str(3) [OF Suc.prems])
  finally have e: "table + ucast (?o (Suc i)) - 1 = table + ucast (?o i) + of_nat (length (ss ! i))" by simp
  have z: "m (table + ucast (?o (Suc i)) - 1) = 0" unfolding e by (rule cstring_end [OF str(1) [OF Suc.prems]])
  have le: "\<not> ?o (Suc i) < ?o i" using str(3) [OF Suc.prems] by (simp add: word_less_nat_alt)
  have fuel: "?n - i = Suc d" using Suc.hyps(2) by simp
  have last: "(of_nat i :: u32) = of_nat ?n - 1 \<longleftrightarrow> Suc i = ?n"
  proof -
    have "(of_nat i :: u32) = of_nat ?n - 1 \<longleftrightarrow> (of_nat (Suc i) :: u32) = of_nat ?n" by (auto simp: eq_diff_eq add.commute)
    also have "\<dots> \<longleftrightarrow> unat (of_nat (Suc i) :: u32) = unat (of_nat ?n :: u32)" by (simp only: word_eq_unat_iff)
    also have "\<dots> \<longleftrightarrow> Suc i = ?n" using n [OF Suc.prems] Suc.prems by (simp add: unat_of_nat_less del: of_nat_Suc)
    finally show ?thesis .
  qed
  have step: "verify_strings m table swapped (of_nat ?n) (?n - i) (of_nat i) =
      (if Suc i = ?n then Some True
       else case strcmp_mem m (table + ucast (?o i)) (table + ucast (?o (Suc i))) of
         None \<Rightarrow> None
       | Some r \<Rightarrow> if (word_of_int r :: u32) < 1 then Some False
           else verify_strings m table swapped (of_nat ?n) d (of_nat i + 1))"
    by (simp only: fuel verify_strings.simps Let_def starts table_offset_def [symmetric] last z le if_False simp_thms)
  show ?case
  proof (cases "Suc i = ?n")
    case True
    then show ?thesis by (simp only: step) auto
  next
    case False
    then have i: "Suc i < ?n" using Suc.prems by simp
    obtain r where r: "strcmp_mem m (table + ucast (?o i)) (table + ucast (?o (Suc i))) = Some r" "r = 0 \<longleftrightarrow> ss ! i = ss ! Suc i" "\<bar>r\<bar> < 256"
      using strcmp_mem_spec [OF str(1) [OF Suc.prems] str(1) [OF i] str(2) [OF Suc.prems] str(2) [OF i]] by blast
    have "d = ?n - Suc i" using fuel by simp
    from Suc.hyps(1) [OF this i] this have IH: "verify_strings m table swapped (of_nat ?n) d (of_nat i + 1) =
      Some (\<forall>k. Suc i \<le> k \<longrightarrow> Suc k < ?n \<longrightarrow> ss ! k \<noteq> ss ! Suc k)" by (simp add: add.commute)
    have "(\<forall>k. i \<le> k \<longrightarrow> Suc k < ?n \<longrightarrow> ss ! k \<noteq> ss ! Suc k) \<longleftrightarrow>
      ss ! i \<noteq> ss ! Suc i \<and> (\<forall>k. Suc i \<le> k \<longrightarrow> Suc k < ?n \<longrightarrow> ss ! k \<noteq> ss ! Suc k)" using i by (metis Suc_leD le_antisym not_less_eq_eq order_refl)
    then show ?thesis using False r sort_result_zero [OF r(3)] IH by (simp only: step) simp
  qed
qed simp


text \<open>
  C23: The check of a string table does not see the order of the strings.  A table of terminated strings, one
  behind the other, is accepted exactly if no string equals the next one, although the lookup needs them sorted:
  of two strings in the wrong order the first is accepted and not found.
\<close>

theorem byaml_check_ignores_order:
  assumes "strings_at m table swapped ss"
  shows "VerifyStringTable m table swapped = Some (\<forall>k. Suc k < length ss \<longrightarrow> ss ! k \<noteq> ss ! Suc k) \<and>
    (\<forall>x y. ss = [x, y] \<longrightarrow> y < x \<longrightarrow> TryFindKeyIndexByKey m table x swapped = ret cInvalidKeyIndex)"
proof (intro conjI allI impI)
  have n: "0 < length ss" "length ss < 2 ^ 24" "container_count swapped m table = of_nat (length ss)" "container_type m table = Byaml_KeyTable"
    using assms by (auto simp: strings_at_def)
  have u: "unat (of_nat (length ss) :: u32) = length ss" using n(2) by (simp add: unat_of_nat_less)
  then have "(of_nat (length ss) :: u32) \<noteq> 0" using n(1) by (metis unat_0 less_irrefl)
  then show "VerifyStringTable m table swapped = Some (\<forall>k. Suc k < length ss \<longrightarrow> ss ! k \<noteq> ss ! Suc k)"
    using verify_strings_spec [OF assms n(1)] n(3,4) u by (simp add: VerifyStringTable_def Let_def)
  fix x y assume ss: "ss = [x, y]" and lt: "y < x"
  have x: "0 \<notin> set x" and y: "cstring_at m (table + ucast (table_offset m table swapped 1)) y" "0 \<notin> set y"
    using strings_at_nth [OF assms, of 0] strings_at_nth [OF assms, of 1] by (simp_all add: ss)
  have k: "key_pool_offset m table swapped = 0" using n(4) by (simp add: key_pool_offset_def byaml_types)
  have "0 < strcmp_key x m (table + ucast (table_offset m table swapped 1))" using strcmp_key_sign [OF y x] lt by simp
  then have r: "0 < strcmp_key x m (GetStringByIndex m table 1 0 swapped)"
    by (simp add: GetStringByIndex_def Let_def table_offset_def)
  have c: "container_count swapped m table = 2" using n(3) by (simp add: ss)
  have "byaml_search (\<lambda>index. Inr (strcmp_key x m (GetStringByIndex m table index 0 swapped))) 0 2 = ret None"
    using r by (subst byaml_search.simps) (simp add: Let_def byaml_search.simps [of _ 2 2])
  then show "TryFindKeyIndexByKey m table x swapped = ret cInvalidKeyIndex"
    by (simp add: TryFindKeyIndexByKey_def Let_def k c)
qed

section \<open>Iterators\<close>

text \<open>The iterators a program gets from a document.\<close>

inductive byaml_reach :: "memory \<Rightarrow> u64 \<Rightarrow> byaml_iterator \<Rightarrow> bool" for m b where
  root: "ByamlIterator m b = Some it \<Longrightarrow> byaml_reach m b it"
| by_data: "byaml_reach m b it \<Longrightarrow> TryGetIteratorByData m it data = (ok, it') \<Longrightarrow> byaml_reach m b it'"
| by_key: "byaml_reach m b it \<Longrightarrow> TryGetIteratorByKey m it key = ret (Some (ok, it')) \<Longrightarrow> byaml_reach m b it'"
| by_index: "byaml_reach m b it \<Longrightarrow> TryGetIteratorByIndex m it index = ret (Some (ok, it')) \<Longrightarrow> byaml_reach m b it'"
| by_hash32: "byaml_reach m b it \<Longrightarrow> TryGetIteratorByHash32 m it hash32 = ret (Some (ok, it')) \<Longrightarrow> byaml_reach m b it'"
| by_hash64: "byaml_reach m b it \<Longrightarrow> TryGetIteratorByHash64 m it hash64 = ret (Some (ok, it')) \<Longrightarrow> byaml_reach m b it'"

definition container_tag :: "u8 \<Rightarrow> bool" where
  "container_tag type \<longleftrightarrow> type \<in> {Byaml_Array, Byaml_MonoTypedArray, Byaml_Dictionary, Byaml_DictionaryWithRemap} \<or> type AND 0xe0 = HashArrayU32_1"

definition typed_iterator :: "memory \<Rightarrow> u64 \<Rightarrow> byaml_iterator \<Rightarrow> bool" where
  "typed_iterator m b it \<longleftrightarrow>
     (m_byaml it \<noteq> 0 \<longrightarrow> m_byaml it = b \<and> ResByaml_IsValid m b = Some True \<and>
        (ByamlIterator m b = Some it \<or> container_tag (data_type (m_container_data it)) \<or> m_container_data it = cleared_data))"

lemma array_tag: "type AND 0xf7 = Byaml_Array \<Longrightarrow> type = Byaml_Array \<or> type = Byaml_MonoTypedArray" for type :: u8
proof -
  assume a: "type AND 0xf7 = Byaml_Array"
  have eight: "bit (8 :: int) n \<longleftrightarrow> n = 3" for n using bit_exp_iff [of 3 n, where 'a = int] by simp
  have n: "NOT 8 = (0xf7 :: u8)" by simp
  have "type = (type AND NOT 8) OR (type AND 8)" by (rule bit_word_eqI) (auto simp: bit_simps)
  then have "type = (type AND 0xf7) OR (type AND 8)" by (simp only: n)
  moreover have "type AND 8 = (if bit type 3 then 8 else 0)" by (rule bit_word_eqI) (auto simp: bit_and_iff eight)
  ultimately show ?thesis using a by (cases "bit type 3") (simp_all add: byaml_types)
qed

lemma by_data_typed:
  assumes "typed_iterator m b it" and "TryGetIteratorByData m it data = (ok, it')"
  shows "typed_iterator m b it'"
  using assms array_tag [of "data_type data"]
  by (auto simp: TryGetIteratorByData_def Let_def typed_iterator_def container_tag_def split: if_split_asm)

lemma then_iterator_typed:
  assumes "typed_iterator m b it" and "then_iterator m it lookup = ret (Some (ok, it'))"
  shows "typed_iterator m b it'"
proof -
  obtain data where "TryGetIteratorByData m it data = (ok, it')"
    using assms(2) by (auto simp: then_iterator_def then_get_def bind_run_ret_iff split: option.splits if_splits)
  then show ?thesis by (rule by_data_typed [OF assms(1)])
qed

lemma root_typed:
  assumes "ByamlIterator m b = Some it" and "b \<noteq> 0"
  shows "typed_iterator m b it"
proof -
  obtain valid where v: "ResByaml_IsValid m b = Some valid" using assms(1) by (auto simp: ByamlIterator_def ByamlIterator_construct_def)
  show ?thesis
  proof (cases valid)
    case True
    then have "m_byaml it = b" using assms(1) v by (auto simp: ByamlIterator_def ByamlIterator_construct_def Let_def)
    then show ?thesis using assms v True by (simp add: typed_iterator_def)
  qed (use assms v in \<open>auto simp: ByamlIterator_def ByamlIterator_construct_def typed_iterator_def\<close>)
qed

text \<open>
  C21: Iterators keep their type.  An iterator that a program reaches from a document by any sequence of lookups
  is either null or over a document that passed the check, and then it is the root, the null value, or tagged as
  one of the containers that the lookups know.
\<close>

theorem byaml_iterators_typed:
  assumes "byaml_reach m b it" and "b \<noteq> 0"
  shows "typed_iterator m b it"
  using assms
proof (induction rule: byaml_reach.induct)
  case (root it)
  then show ?case by (rule root_typed)
next
  case (by_data it data ok it')
  then show ?case using by_data_typed by blast
qed (auto simp: TryGetIteratorByKey_def TryGetIteratorByIndex_def TryGetIteratorByHash32_def TryGetIteratorByHash64_def intro: then_iterator_typed)

section \<open>Witnesses\<close>

definition memory_of :: "u64 \<Rightarrow> u8 list \<Rightarrow> memory" where
  "memory_of base xs a = (if unat (a - base) < length xs then xs ! unat (a - base) else 0)"

text \<open>A document of the dictionary \<open>{x: 7, y: 9}\<close> over two keys of one letter.\<close>

definition demo_document :: "u8 \<Rightarrow> u8 \<Rightarrow> memory" where
  "demo_document x y = memory_of 0x1000
     [0x59, 0x42, 10, 0, 16, 0, 0, 0, 0, 0, 0, 0, 36, 0, 0, 0,
      0xc2, 2, 0, 0, 16, 0, 0, 0, 18, 0, 0, 0, 20, 0, 0, 0, x, 0, y, 0,
      0xc1, 2, 0, 0, 0, 0, 0, 0xd3, 7, 0, 0, 0, 1, 0, 0, 0xd3, 9, 0, 0, 0]"

definition demo_iterator :: byaml_iterator where
  "demo_iterator = \<lparr>m_byaml = 0x1000, m_container_data = \<lparr>key_index = 0, data_type = 0xc1, u32_value = 36\<rparr>\<rparr>"

lemma read_few: "read_bytes m p 2 = [m p, m (p + 1)]" "read_bytes m p 4 = [m p, m (p + 1), m (p + 2), m (p + 3)]"
  by (simp_all add: read_bytes_def numeral_eq_Suc)

lemmas demo_simps = demo_document_def memory_of_def read16_def read32_def read_few of_bytes_def

lemma demo_words:
  "read16 (demo_document x y) 0x1000 = 0x4259" "read32 (demo_document x y) 0x1004 = 16" "read32 (demo_document x y) 0x1010 = 0x2c2"
  "read32 (demo_document x y) 0x1014 = 16" "read32 (demo_document x y) 0x1018 = 18" "read32 (demo_document x y) 0x101c = 20"
  "read32 (demo_document x y) 0x1024 = 0x2c1" "read32 (demo_document x y) 0x1028 = 0xd3000000" "read32 (demo_document x y) 0x1030 = 0xd3000001"
  "read32 (demo_document x y) 0x100c = 36" "read32 (demo_document x y) 0x1034 = 9" "read16 (demo_document x y) 0x1002 = 10"
  "read32 (demo_document x y) 0x1008 = 0"
  by (simp_all add: demo_simps)

lemma demo_bytes:
  "demo_document x y 0x1020 = x" "demo_document x y 0x1021 = 0" "demo_document x y 0x1022 = y" "demo_document x y 0x1023 = 0"
  by (simp_all add: demo_document_def memory_of_def)

lemma demo_reverse: "ResByaml_IsReverseEndian (demo_document x y) 0x1000 = False"
  by (simp add: ResByaml_IsReverseEndian_def demo_words ResByaml_cMagic_def SwapEndian16_def)

lemma demo_table:
  "key_table (demo_document x y) 0x1000 False = 0x1010" "container_type (demo_document x y) 0x1010 = 0xc2"
  "container_count False (demo_document x y) 0x1010 = 2" "container_count False (demo_document x y) 0x1024 = 2"
  "GetStringByIndex (demo_document x y) 0x1010 0 0 False = 0x1020" "GetStringByIndex (demo_document x y) 0x1010 1 0 False = 0x1022"
  by (simp_all add: key_table_def get32_def demo_words container_type_def container_count_def GetStringByIndex_def Let_def)

lemma demo_dictionary: "x < y \<Longrightarrow> 0 < x \<Longrightarrow> dictionary_keys (demo_document x y) demo_iterator [[x], [y]]"
  by (auto simp: dictionary_keys_def demo_iterator_def is_dictionary_def byaml_types iter_container_def iter_reverse_def GetBigData_def
      demo_words demo_reverse demo_table pair_string_def pair_at_def pair_key_index_def key_pool_offset_def Let_def less_Suc_eq
      cstring_at_Cons cstring_at_Nil demo_bytes)

lemma demo_strings: "x \<noteq> 0 \<Longrightarrow> y \<noteq> 0 \<Longrightarrow> strings_at (demo_document x y) 0x1010 False [[x], [y]]"
  by (auto simp: strings_at_def demo_table byaml_types table_offset_def get32_def demo_words less_Suc_eq cstring_at_Cons cstring_at_Nil demo_bytes)

lemma demo_verified:
  assumes "x \<noteq> 0" and "y \<noteq> 0" and "x \<noteq> y"
  shows "VerifyStringTable (demo_document x y) 0x1010 False = Some True"
proof -
  have "verify_strings (demo_document x y) 0x1010 False 2 2 0 = Some True"
    using verify_strings_spec [OF demo_strings [OF assms(1,2)], of 0] assms(3) by (auto simp: less_Suc_eq numeral_2_eq_2)
  then show ?thesis by (simp add: VerifyStringTable_def Let_def demo_table byaml_types)
qed

lemma demo_valid:
  assumes "x \<noteq> 0" and "y \<noteq> 0" and "x \<noteq> y"
  shows "ResByaml_IsValid (demo_document x y) 0x1000 = Some True"
  using demo_verified [OF assms]
  by (simp add: ResByaml_IsValid_def Let_def demo_reverse get16_def get32_def demo_words ResByaml_cMagic_def ResByaml_cTargetVersion_def
      final_offset_def demo_table)

lemma demo_root: "ByamlIterator (demo_document 0x61 0x62) 0x1000 = Some demo_iterator"
  by (simp add: ByamlIterator_def ByamlIterator_construct_def demo_valid demo_words demo_reverse get32_def container_type_def
      IsContainerType_def Let_def demo_iterator_def)

theorem byaml_lookup_by_key_witness:
  "TryGetByamlDataByKey (demo_document 0x61 0x62) demo_iterator no_data [0x62] = ret (True, \<lparr>key_index = 1, data_type = Byaml_U32, u32_value = 9\<rparr>)"
proof -
  have d: "dictionary_keys (demo_document 0x61 0x62) demo_iterator [[0x61], [0x62]]" by (rule demo_dictionary) simp_all
  have p: "pair_at (iter_container demo_iterator) 1 = 0x1030" "iter_reverse (demo_document 0x61 0x62) demo_iterator = False"
    by (simp_all add: pair_at_def iter_container_def demo_iterator_def GetBigData_def iter_reverse_def demo_reverse)
  have "SetPair (demo_document 0x61 0x62) 0x1030 False = \<lparr>key_index = 1, data_type = Byaml_U32, u32_value = 9\<rparr>"
    by (simp add: SetPair_def pair_key_index_def Let_def demo_words get32_def byaml_types)
  moreover have "\<exists>k<Suc (Suc 0). [[0x61], [0x62]] ! k = [0x62 :: u8] \<and>
      TryGetByamlDataByKey (demo_document 0x61 0x62) demo_iterator no_data [0x62] =
        ret (True, SetPair (demo_document 0x61 0x62) (pair_at (iter_container demo_iterator) (of_nat k)) (iter_reverse (demo_document 0x61 0x62) demo_iterator))"
    using byaml_lookup_by_key [OF d, of "[0x62]" no_data] by auto
  ultimately show ?thesis by (auto simp: less_Suc_eq numeral_2_eq_2 p)
qed

theorem byaml_check_ignores_order_witness:
  "VerifyStringTable (demo_document 0x62 0x61) 0x1010 False = Some True \<and>
   TryFindKeyIndexByKey (demo_document 0x62 0x61) 0x1010 [0x62] False = ret cInvalidKeyIndex"
proof -
  have s: "strings_at (demo_document 0x62 0x61) 0x1010 False [[0x62], [0x61]]" by (rule demo_strings) simp_all
  show ?thesis using byaml_check_ignores_order [OF s] by (auto simp: less_Suc_eq)
qed

theorem byaml_iterators_typed_witness: "typed_iterator (demo_document 0x61 0x62) 0x1000 demo_iterator"
  by (rule byaml_iterators_typed) (auto intro: byaml_reach.root demo_root)

text \<open>A hash array of two hashes of 32 bits, with the types behind the entries as the builder puts them.\<close>

definition demo_hashes :: memory where
  "demo_hashes = memory_of 0x1000
     [0x59, 0x42, 10, 0, 16, 0, 0, 0, 0, 0, 0, 0, 20, 0, 0, 0, 0, 0, 0, 0,
      0x20, 2, 0, 0, 5, 0, 0, 0, 7, 0, 0, 0, 6, 0, 0, 0, 9, 0, 0, 0, 0xd3, 0xd3, 0, 0]"

definition demo_hash_iterator :: byaml_iterator where
  "demo_hash_iterator = \<lparr>m_byaml = 0x1000, m_container_data = \<lparr>key_index = 0, data_type = 0x20, u32_value = 20\<rparr>\<rparr>"

lemma demo_hash_array: "hash_array demo_hashes demo_hash_iterator [5, 6]"
proof -
  have c: "iter_container demo_hash_iterator = 0x1014" "iter_stride demo_hash_iterator = 4" "iter_reverse demo_hashes demo_hash_iterator = False"
    by (simp_all add: iter_container_def demo_hash_iterator_def GetBigData_def iter_stride_def hash_stride_def iter_reverse_def
      ResByaml_IsReverseEndian_def ResByaml_cMagic_def SwapEndian16_def read16_def read_few of_bytes_def demo_hashes_def memory_of_def)
  have w: "read32 demo_hashes 0x1004 = 16" "read32 demo_hashes 0x1014 = 0x220" "read32 demo_hashes 0x1018 = 5" "read32 demo_hashes 0x1020 = 6"
    by (simp_all add: read32_def read_few of_bytes_def demo_hashes_def memory_of_def)
  show ?thesis
    by (auto simp: hash_array_def c hash_entry_def hash_accessor_def GetHash_def get32_def w less_Suc_eq byaml_types container_count_def Let_def)
      (simp_all add: demo_hash_iterator_def w)
qed

theorem byaml_lookup_by_hash_witness:
  "(\<exists>d. TryGetByamlDataByHash64 demo_hashes demo_hash_iterator no_data 5 = ret (True, d) \<and> u32_value d = 7 \<and> data_type d = 9) \<and>
    TryGetByamlDataByHash32 demo_hashes demo_hash_iterator no_data 7 = ret (False, cleared_data)"
proof -
  have e: "hash_entry demo_hash_iterator 0 = 0x1018" "hash_entry demo_hash_iterator (Suc 0) = 0x1020" "iter_stride demo_hash_iterator = 4"
    "iter_reverse demo_hashes demo_hash_iterator = False"
    by (simp_all add: hash_entry_def hash_accessor_def iter_container_def demo_hash_iterator_def GetBigData_def iter_stride_def hash_stride_def
      iter_reverse_def ResByaml_IsReverseEndian_def ResByaml_cMagic_def SwapEndian16_def read16_def read_few of_bytes_def demo_hashes_def memory_of_def)
  have v: "GetValue demo_hashes 0x1018 4 False = 7" "demo_hashes 0x1024 = 9" "read32 demo_hashes (m_byaml demo_hash_iterator + 4) = 16"
    by (simp_all add: GetValue_def get32_def read32_def read_few of_bytes_def demo_hashes_def memory_of_def demo_hash_iterator_def)
  have "hash_answer demo_hashes demo_hash_iterator [5, 6] (5 :: u64) (TryGetByamlDataByHash64 demo_hashes demo_hash_iterator no_data 5)"
    and "hash_answer demo_hashes demo_hash_iterator [5, 6 :: u32] 7 (TryGetByamlDataByHash32 demo_hashes demo_hash_iterator no_data 7)"
    using byaml_lookup_by_hash [OF demo_hash_array, of no_data 5 7] v(3) by simp_all
  then show ?thesis using v by (auto simp: hash_answer_def less_Suc_eq e)
qed

end
