(* ===== verification/Byaml_String_Pool.thy ===== *)
theory Byaml_String_Pool
  imports Byaml List_Rings Run "HOL-Library.List_Lexorder"
begin

text \<open>
  \<open>resbui_byamlstringpool.hpp\<close>: the builder of the key table and the string table of a BYAML document.  The pool
  strings are named by the addresses of their list nodes, \<open>string\<close> gives the bytes each points to; the string list
  and the collision list share the store of links.
\<close>

section \<open>The pool\<close>

record 'p string_pool =
  p_links :: "'p links"
  m_string_list :: 'p
  m_collision_list :: 'p
  m_is_sorted :: bool
  m_index :: "'p \<Rightarrow> u32"

record pool_info =
  total_size :: u64
  max_alignment :: u64
  string_count :: u32

definition ByamlStringPoolBuilder :: "bool \<Rightarrow> 'p \<Rightarrow> 'p \<Rightarrow> 'p links \<Rightarrow> ('p \<Rightarrow> u32) \<Rightarrow> 'p string_pool" where
  "ByamlStringPoolBuilder is_sorted string_list collision_list h index =
     \<lparr>p_links = construct_node collision_list (construct_node string_list h), m_string_list = string_list,
      m_collision_list = collision_list, m_is_sorted = is_sorted, m_index = index\<rparr>"

definition pool_Finalize :: "'p string_pool \<Rightarrow> 'p string_pool option" where
  "pool_Finalize q =
     (case list_Clear (m_string_list q) (p_links q) of
        None \<Rightarrow> None
      | Some h \<Rightarrow> map_option (\<lambda>h. q\<lparr>p_links := h\<rparr>) (list_Clear (m_collision_list q) h))"

text \<open>The loops over a list from \<open>iter\<close> on; they may not end on a store that is no list.\<close>

partial_function (option) find_equal :: "('p \<Rightarrow> u8 list) \<Rightarrow> 'p links \<Rightarrow> 'p \<Rightarrow> u8 list \<Rightarrow> 'p \<Rightarrow> bool option" where
  "find_equal string h end_node s iter =
     (if iter = end_node then Some False
      else if string iter \<noteq> s then find_equal string h end_node s (m_next h iter)
      else Some True)"

partial_function (option) find_place :: "('p \<Rightarrow> u8 list) \<Rightarrow> 'p links \<Rightarrow> 'p \<Rightarrow> u8 list \<Rightarrow> 'p \<Rightarrow> 'p \<Rightarrow> 'p option" where
  "find_place string h end_node s prev_string iter =
     (if iter = end_node then Some prev_string
      else if string iter < s then find_place string h end_node s iter (m_next h iter)
      else Some prev_string)"

definition push_collision :: "'p \<Rightarrow> 'p string_pool \<Rightarrow> 'p string_pool" where
  "push_collision pool_string q = q\<lparr>p_links := list_PushBack (m_collision_list q) pool_string (p_links q)\<rparr>"

definition AddString :: "('p \<Rightarrow> u8 list) \<Rightarrow> 'p \<Rightarrow> 'p string_pool \<Rightarrow> 'p string_pool option" where
  "AddString string pool_string q =
     (let h = p_links q; s = string pool_string; first = m_next h (m_string_list q)
      in if \<not> m_is_sorted q
         then map_option (\<lambda>equal. if equal then push_collision pool_string q
                else q\<lparr>p_links := list_PushBack (m_string_list q) pool_string h\<rparr>)
                (find_equal string h (m_string_list q) s first)
         else
           let back = list_Back h (m_string_list q)
           in map_option (\<lambda>prev_string. if prev_string = back then push_collision pool_string q
                else q\<lparr>p_links := LinkNext prev_string pool_string h\<rparr>)
                (find_place string h (m_string_list q) s back first))"

partial_function (option) resolve_from :: "('p \<Rightarrow> u8 list) \<Rightarrow> 'p \<Rightarrow> 'p string_pool \<Rightarrow> 'p string_pool option" where
  "resolve_from string iter q =
     (if iter = m_collision_list q then Some q
      else
        case find_equal string (p_links q) (m_string_list q) (string iter) (m_next (p_links q) (m_string_list q)) of
          None \<Rightarrow> None
        | Some colliding \<Rightarrow>
            case (if colliding then Some q else AddString string iter (q\<lparr>p_links := Unlink iter (p_links q)\<rparr>)) of
              None \<Rightarrow> None
            | Some q \<Rightarrow> resolve_from string (m_next (p_links q) iter) q)"

definition ResolveCollisions :: "('p \<Rightarrow> u8 list) \<Rightarrow> 'p string_pool \<Rightarrow> 'p string_pool option" where
  "ResolveCollisions string q = resolve_from string (m_next (p_links q) (m_collision_list q)) q"

partial_function (option) sum_from :: "('p \<Rightarrow> u8 list) \<Rightarrow> 'p links \<Rightarrow> 'p \<Rightarrow> 'p \<Rightarrow> u64 \<Rightarrow> u32 \<Rightarrow> (u64 \<times> u32) option" where
  "sum_from string h end_node iter string_array_size n =
     (if iter = end_node then Some (string_array_size, n)
      else sum_from string h end_node (m_next h iter)
             (string_array_size + ucast (of_nat (length (string iter)) + 1 :: u32)) (n + 1))"

definition pool_CalculateMemoryInfo :: "('p \<Rightarrow> u8 list) \<Rightarrow> pool_info \<Rightarrow> 'p string_pool \<Rightarrow> (pool_info \<times> 'p string_pool) option" where
  "pool_CalculateMemoryInfo string out_memory_info q =
     (case ResolveCollisions string q of
        None \<Rightarrow> None
      | Some q \<Rightarrow>
          if list_IsEmpty (p_links q) (m_string_list q) then Some (out_memory_info, q)
          else map_option (\<lambda>(string_array_size, n).
                 (\<lparr>total_size = AlignUp (4 + 4 * ucast n + string_array_size) 4, max_alignment = 4, string_count = n\<rparr>, q))
                 (sum_from string (p_links q) (m_string_list q) (m_next (p_links q) (m_string_list q)) 0 0))"

text \<open>The strings and their offsets; the offset array has one more element than the strings begin behind.\<close>

partial_function (option) serialize_from ::
  "('p \<Rightarrow> u8 list) \<Rightarrow> u64 \<Rightarrow> u64 \<Rightarrow> 'p \<Rightarrow> u32 \<Rightarrow> u32 \<Rightarrow> 'p string_pool \<Rightarrow> memory \<Rightarrow> (memory \<times> 'p string_pool) option" where
  "serialize_from string header string_array_base iter i string_iter q m =
     (if iter = m_string_list q then Some (m, q)
      else
        let length32 = (of_nat (length (string iter)) :: u32);
            string_base = string_array_base + ucast string_iter;
            m = write_bytes string_base (string iter @ [0]) m;
            m = write32 (header + 4 + 4 * ucast i) (ucast (string_base - header)) m;
            q = q\<lparr>m_index := (m_index q)(iter := i - 1)\<rparr>
        in serialize_from string header string_array_base (m_next (p_links q) iter) (i + 1) (string_iter + length32 + 1) q m)"

definition pool_Serialize :: "('p \<Rightarrow> u8 list) \<Rightarrow> u64 \<Rightarrow> pool_info \<Rightarrow> 'p string_pool \<Rightarrow> memory \<Rightarrow> (memory \<times> 'p string_pool) option" where
  "pool_Serialize string output_buffer memory_info q m =
     (if list_IsEmpty (p_links q) (m_string_list q) then Some (m, q)
      else
        let string_array_base = output_buffer + 4 + 4 * ucast (string_count memory_info);
            m = write32 output_buffer (ucast Byaml_KeyTable OR push_bit 8 (string_count memory_info)) m;
            m = write32 (output_buffer + 4) 0 m
        in serialize_from string output_buffer string_array_base (m_next (p_links q) (m_string_list q)) 1 0 q m)"

section \<open>What the pool holds\<close>

definition pool_rep :: "'p string_pool \<Rightarrow> ('p \<Rightarrow> 'p list) \<Rightarrow> bool" where
  "pool_rep q L \<longleftrightarrow> m_string_list q \<noteq> m_collision_list q \<and> rings (p_links q) {m_string_list q, m_collision_list q} L"

abbreviation pool_free :: "'p string_pool \<Rightarrow> ('p \<Rightarrow> 'p list) \<Rightarrow> 'p \<Rightarrow> bool" where
  "pool_free q L \<equiv> ring_free {m_string_list q, m_collision_list q} L"

abbreviation strings :: "'p string_pool \<Rightarrow> ('p \<Rightarrow> 'p list) \<Rightarrow> 'p list" where
  "strings q L \<equiv> L (m_string_list q)"

abbreviation collisions :: "'p string_pool \<Rightarrow> ('p \<Rightarrow> 'p list) \<Rightarrow> 'p list" where
  "collisions q L \<equiv> L (m_collision_list q)"

lemma push_collision_rep:
  assumes "pool_rep q L" and "pool_free q L p"
  shows "pool_rep (push_collision p q) (L(m_collision_list q := collisions q L @ [p]))"
  using assms rings_PushBack [of "p_links q" "{m_string_list q, m_collision_list q}" L "m_collision_list q" p]
  by (simp add: pool_rep_def push_collision_def)

text \<open>The search ends with whether a string of the rest of the list is equal.\<close>

lemma find_equal_from:
  assumes rep: "pool_rep q L"
  shows "strings q L = as @ bs \<Longrightarrow>
    find_equal string (p_links q) (m_string_list q) s (case bs of [] \<Rightarrow> m_string_list q | x # _ \<Rightarrow> x) = Some (s \<in> string ` set bs)"
proof (induction bs arbitrary: as)
  case Nil
  then show ?case by (simp add: find_equal.simps)
next
  case (Cons x bs)
  have r: "rings (p_links q) {m_string_list q, m_collision_list q} L" using rep by (simp add: pool_rep_def)
  have "x \<noteq> m_string_list q" using ringsD(2) [OF r, of "m_string_list q" x] Cons.prems by auto
  moreover have "m_next (p_links q) x = (case bs of [] \<Rightarrow> m_string_list q | y # _ \<Rightarrow> y)" using rings_next [OF r _ Cons.prems] by simp
  ultimately show ?case using Cons.IH [of "as @ [x]"] Cons.prems by (subst find_equal.simps) auto
qed

lemma find_equal_all:
  assumes "pool_rep q L"
  shows "find_equal string (p_links q) (m_string_list q) s (m_next (p_links q) (m_string_list q)) = Some (s \<in> string ` set (strings q L))"
  using find_equal_from [OF assms, of "[]" "strings q L" string s] rings_first(1) [of "p_links q" "{m_string_list q, m_collision_list q}" L "m_string_list q"] assms
  by (simp add: pool_rep_def)

text \<open>A pool that is not sorted keeps the first of equal strings, in the order they came.\<close>

lemma add_unsorted:
  assumes rep: "pool_rep q L" and p: "pool_free q L p" and "\<not> m_is_sorted q"
  obtains q' where "AddString string p q = Some q'"
    and "pool_rep q' (if string p \<in> string ` set (strings q L) then L(m_collision_list q := collisions q L @ [p])
      else L(m_string_list q := strings q L @ [p]))"
proof (cases "string p \<in> string ` set (strings q L)")
  case True
  then show thesis using that [of "push_collision p q"] push_collision_rep [OF rep p] assms(3) find_equal_all [OF rep]
    by (simp add: AddString_def Let_def)
next
  case False
  have "pool_rep (q\<lparr>p_links := list_PushBack (m_string_list q) p (p_links q)\<rparr>) (L(m_string_list q := strings q L @ [p]))"
    using rep p rings_PushBack [of "p_links q" "{m_string_list q, m_collision_list q}" L "m_string_list q" p] by (simp add: pool_rep_def)
  then show thesis using that [of "q\<lparr>p_links := list_PushBack (m_string_list q) p (p_links q)\<rparr>"] False assms(3) find_equal_all [OF rep]
    by (simp add: AddString_def Let_def)
qed

text \<open>In an empty sorted pool the place behind which to link is the back of the list, so the string collides.\<close>

lemma add_sorted:
  assumes rep: "pool_rep q L" and p: "pool_free q L p" and "m_is_sorted q" and e: "strings q L = []"
  obtains q' where "AddString string p q = Some q'" and "pool_rep q' (L(m_collision_list q := collisions q L @ [p]))" and "m_is_sorted q'"
    and "m_string_list q' = m_string_list q" and "m_collision_list q' = m_collision_list q"
proof -
  have "m_next (p_links q) (m_string_list q) = m_string_list q"
    using rep e rings_first(1) [of "p_links q" "{m_string_list q, m_collision_list q}" L "m_string_list q"] by (simp add: pool_rep_def)
  then have "AddString string p q = Some (push_collision p q)" using assms(3) by (simp add: AddString_def Let_def find_place.simps)
  then show thesis by (rule that) (use push_collision_rep [OF rep p] assms(3) in \<open>simp_all add: push_collision_def\<close>)
qed

fun add_strings :: "('p \<Rightarrow> u8 list) \<Rightarrow> 'p list \<Rightarrow> 'p string_pool \<Rightarrow> 'p string_pool option" where
  "add_strings string [] q = Some q"
| "add_strings string (p # ps) q = (case AddString string p q of None \<Rightarrow> None | Some q \<Rightarrow> add_strings string ps q)"

lemma pool_construct_rep:
  assumes "\<forall>p. p \<notin> {s, c} \<longrightarrow> unlinked h p" and "s \<noteq> c"
  shows "pool_rep (ByamlStringPoolBuilder is_sorted s c h index) (\<lambda>_. [])"
proof -
  let ?h = "construct_node c (construct_node s h)"
  have n: "m_next ?h p = (if p \<in> {s, c} then p else m_next h p)" "m_prev ?h p = (if p \<in> {s, c} then p else m_prev h p)" for p
    by (auto simp: construct_node_def set_prev_def set_next_def)
  have "rings ?h {s, c} (\<lambda>_. [])"
  proof (rule ringsI)
    fix p assume "ring_free {s, c} (\<lambda>_. []) p"
    then show "unlinked ?h p" using assms(1) n by (simp add: ring_free_def unlinked_def)
  qed (auto simp: list_rep_def n)
  then show ?thesis using assms(2) by (simp add: pool_rep_def ByamlStringPoolBuilder_def)
qed

lemma add_strings_sorted:
  "pool_rep q L \<Longrightarrow> \<forall>p\<in>set ps. pool_free q L p \<Longrightarrow> distinct ps \<Longrightarrow> m_is_sorted q \<Longrightarrow> strings q L = [] \<Longrightarrow>
    \<exists>q' L'. add_strings string ps q = Some q' \<and> pool_rep q' L' \<and> m_is_sorted q' \<and> strings q' L' = [] \<and> m_string_list q' = m_string_list q"
proof (induction ps arbitrary: q L)
  case (Cons p ps)
  have p: "pool_free q L p" using Cons.prems(2) by simp
  let ?L = "L(m_collision_list q := collisions q L @ [p])"
  obtain q1 where q1: "AddString string p q = Some q1" "pool_rep q1 ?L" "m_is_sorted q1"
    "m_string_list q1 = m_string_list q" "m_collision_list q1 = m_collision_list q"
    by (rule add_sorted [OF Cons.prems(1) p Cons.prems(4,5)])
  have ne: "m_string_list q \<noteq> m_collision_list q" using Cons.prems(1) by (simp add: pool_rep_def)
  have f: "\<forall>u\<in>set ps. pool_free q1 ?L u" using Cons.prems(2,3) ne q1(4,5) by (auto simp: ring_free_def)
  have e: "strings q1 ?L = []" using q1(4) ne Cons.prems(5) by simp
  from Cons.IH [OF q1(2) f _ q1(3) e] Cons.prems(3) obtain q' L' where "add_strings string ps q1 = Some q'" "pool_rep q' L'" "m_is_sorted q'"
    "strings q' L' = []" "m_string_list q' = m_string_list q1" by auto
  then show ?case using q1(1,4) by auto
qed auto

text \<open>Resolving a collision of an empty sorted pool makes it the last collision, where the loop ends.\<close>

lemma resolve_sorted:
  assumes rep: "pool_rep q L" and s: "m_is_sorted q" and e: "strings q L = []"
  shows "\<exists>q' L'. ResolveCollisions string q = Some q' \<and> pool_rep q' L' \<and> strings q' L' = [] \<and> m_string_list q' = m_string_list q"
proof (cases "collisions q L")
  case Nil
  have "m_next (p_links q) (m_collision_list q) = m_collision_list q"
    using rep Nil rings_first(1) [of "p_links q" "{m_string_list q, m_collision_list q}" L "m_collision_list q"] by (simp add: pool_rep_def)
  then show ?thesis using rep e by (auto simp: ResolveCollisions_def resolve_from.simps)
next
  case (Cons x xs)
  let ?S = "{m_string_list q, m_collision_list q}" and ?L = "L(m_collision_list q := xs)"
  have r: "rings (p_links q) ?S L" and ne: "m_string_list q \<noteq> m_collision_list q" using rep by (simp_all add: pool_rep_def)
  have x: "x \<notin> ?S" "x \<notin> set xs" using ringsD(2,5) [OF r, of "m_collision_list q"] Cons by auto
  have first: "m_next (p_links q) (m_collision_list q) = x" using rings_first(1) [OF r] Cons by simp
  let ?q = "q\<lparr>p_links := Unlink x (p_links q)\<rparr>"
  have "rings (Unlink x (p_links q)) ?S ?L" using rings_PopFront(2) [OF r _ Cons] by simp
  then have rep1: "pool_rep ?q ?L" using ne by (simp add: pool_rep_def)
  have f1: "pool_free ?q ?L x" using x e ne by (auto simp: ring_free_def)
  have e1: "strings ?q ?L = []" using e ne by simp
  have s1: "m_is_sorted ?q" using s by simp
  obtain q1 where q1: "AddString string x ?q = Some q1" "pool_rep q1 (?L(m_collision_list ?q := collisions ?q ?L @ [x]))" "m_is_sorted q1"
    "m_string_list q1 = m_string_list ?q" "m_collision_list q1 = m_collision_list ?q"
    by (rule add_sorted [OF rep1 f1 s1 e1])
  have "(?L(m_collision_list ?q := collisions ?q ?L @ [x])) (m_collision_list q1) = xs @ x # []" using q1(5) by simp
  then have "m_next (p_links q1) x = m_collision_list q1" using q1(2) rings_next [of "p_links q1" "{m_string_list q1, m_collision_list q1}" _ "m_collision_list q1" xs x "[]"]
    by (auto simp: pool_rep_def)
  then have "resolve_from string (m_next (p_links q1) x) q1 = Some q1" by (simp add: resolve_from.simps)
  then have "ResolveCollisions string q = Some q1" using x(1) first q1(1) find_equal_all [OF rep] e
    by (simp add: ResolveCollisions_def resolve_from.simps [of _ x])
  then show ?thesis using q1 e ne by auto
qed

text \<open>The pool that is not sorted holds the first of equal strings.\<close>

fun first_strings :: "('p \<Rightarrow> u8 list) \<Rightarrow> 'p list \<Rightarrow> 'p list \<Rightarrow> 'p list" where
  "first_strings string seen [] = seen"
| "first_strings string seen (p # ps) = first_strings string (if string p \<in> string ` set seen then seen else seen @ [p]) ps"

lemma add_string_same:
  "AddString string p q = Some q' \<Longrightarrow> m_is_sorted q' = m_is_sorted q \<and> m_string_list q' = m_string_list q \<and> m_collision_list q' = m_collision_list q"
  by (auto simp: AddString_def Let_def push_collision_def split: if_splits)

lemma add_strings_unsorted:
  "pool_rep q L \<Longrightarrow> \<forall>p\<in>set ps. pool_free q L p \<Longrightarrow> distinct ps \<Longrightarrow> \<not> m_is_sorted q \<Longrightarrow>
    \<exists>q' L'. add_strings string ps q = Some q' \<and> pool_rep q' L' \<and> strings q' L' = first_strings string (strings q L) ps \<and> m_string_list q' = m_string_list q"
proof (induction ps arbitrary: q L)
  case (Cons p ps)
  have p: "pool_free q L p" using Cons.prems(2) by simp
  let ?L = "if string p \<in> string ` set (strings q L) then L(m_collision_list q := collisions q L @ [p]) else L(m_string_list q := strings q L @ [p])"
  obtain q1 where q1: "AddString string p q = Some q1" "pool_rep q1 ?L" by (rule add_unsorted [OF Cons.prems(1) p Cons.prems(4)])
  note same = add_string_same [OF q1(1)]
  have ne: "m_string_list q \<noteq> m_collision_list q" using Cons.prems(1) by (simp add: pool_rep_def)
  have f: "\<forall>u\<in>set ps. pool_free q1 ?L u" using Cons.prems(2,3) ne same by (auto simp: ring_free_def)
  have e: "strings q1 ?L = (if string p \<in> string ` set (strings q L) then strings q L else strings q L @ [p])" using same ne by simp
  obtain q' L' where "add_strings string ps q1 = Some q'" "pool_rep q' L'" "strings q' L' = first_strings string (strings q1 ?L) ps"
    "m_string_list q' = m_string_list q1" using Cons.IH [OF q1(2) f] Cons.prems(3,4) same by auto
  then show ?case using q1(1) same e by auto
qed auto

text \<open>
  C24: The string table of a document holds the first of equal strings in the order they came; the key table of
  any document is empty.  A sorted pool takes every string for a collision, so whatever keys are added,
  \<open>CalculateMemoryInfo\<close> leaves the size as it was, and \<open>Serialize\<close> writes nothing.
\<close>

theorem byaml_pool_strings:
  assumes "\<forall>p. p \<notin> {s, c} \<longrightarrow> unlinked h p" and "s \<noteq> c" and "distinct ps" and "s \<notin> set ps" and "c \<notin> set ps"
  shows "\<exists>q. add_strings string ps (ByamlStringPoolBuilder is_sorted s c h index) = Some q \<and>
    (if is_sorted
     then \<exists>q'. pool_CalculateMemoryInfo string info q = Some (info, q') \<and> list_rep (p_links q') s [] \<and> pool_Serialize string out info q' m = Some (m, q')
     else list_rep (p_links q) s (first_strings string [] ps))"
proof -
  let ?q = "ByamlStringPoolBuilder is_sorted s c h index"
  have rep: "pool_rep ?q (\<lambda>_. [])" by (rule pool_construct_rep [OF assms(1,2)])
  have f: "\<forall>p\<in>set ps. pool_free ?q (\<lambda>_. []) p" using assms(4,5) by (auto simp: ring_free_def ByamlStringPoolBuilder_def)
  have q: "m_is_sorted ?q = is_sorted" "m_string_list ?q = s" by (simp_all add: ByamlStringPoolBuilder_def)
  have list: "list_rep (p_links q) (m_string_list q) (strings q L)" if "pool_rep q L" for q :: "'a string_pool" and L
    using that ringsD(1) [of "p_links q" "{m_string_list q, m_collision_list q}" L "m_string_list q"] by (simp add: pool_rep_def)
  show ?thesis
  proof (cases is_sorted)
    case True
    obtain q1 L1 where q1: "add_strings string ps ?q = Some q1" "pool_rep q1 L1" "m_is_sorted q1" "strings q1 L1 = []" "m_string_list q1 = s"
      using add_strings_sorted [OF rep f assms(3), of string] q True by auto
    obtain q2 L2 where q2: "ResolveCollisions string q1 = Some q2" "pool_rep q2 L2" "strings q2 L2 = []" "m_string_list q2 = s"
      using resolve_sorted [OF q1(2-4), of string] q1(5) by auto
    have e: "list_rep (p_links q2) s []" using list [OF q2(2)] q2(3,4) by simp
    then have "list_IsEmpty (p_links q2) s" by (simp add: list_IsEmpty_rep)
    then show ?thesis using True q1(1) q2 e by (auto simp: pool_CalculateMemoryInfo_def pool_Serialize_def)
  next
    case False
    obtain q1 L1 where "add_strings string ps ?q = Some q1" "pool_rep q1 L1" "strings q1 L1 = first_strings string [] ps" "m_string_list q1 = s"
      using add_strings_unsorted [OF rep f assms(3), of string] q False by auto
    then show ?thesis using False list [of q1 L1] by auto
  qed
qed

theorem byaml_pool_strings_witness:
  "\<exists>q q'. add_strings (\<lambda>p. [of_nat p]) [2, 3] (ByamlStringPoolBuilder True 0 1 demo_links (\<lambda>_. 0)) = Some q \<and>
    pool_CalculateMemoryInfo (\<lambda>p. [of_nat p]) \<lparr>total_size = 0, max_alignment = 0, string_count = 0\<rparr> q =
      Some (\<lparr>total_size = 0, max_alignment = 0, string_count = 0\<rparr>, q')"
  using byaml_pool_strings [of 0 1 demo_links "[2, 3]" "\<lambda>p. [of_nat p]" True "\<lambda>_. 0" "\<lparr>total_size = 0, max_alignment = 0, string_count = 0\<rparr>" 0 "\<lambda>_. 0"]
  by (auto simp: unlinked_def demo_links_def)

end
