(* ===== verification/Radix_Dictionary.thy ===== *)
theory Radix_Dictionary
  imports Awn_Prelude
begin

text \<open>
  \<open>ResNintendoWareDictionary\<close> (\<open>res_nintendowaredictionary\<close>): a Patricia tree in an array of nodes.  Node 0 is
  the root with the reference bit -1, the entries follow it; a link to a node whose reference bit is not larger
  leads to the key that is compared.  A key is its bytes; the bits of a key are counted from its last byte, and
  those before its first byte are 0.
\<close>

section \<open>The nodes\<close>

record dic_node =
  ref_bit :: u32
  left_node :: u16
  right_node :: u16
  dic_key :: "u8 list"

record nintendo_dictionary =
  node_count :: u32
  node_array :: "dic_node list"

definition cNPos :: u32 where "cNPos = - 1"
definition dic_cInvalidEntryIndex :: u32 where "dic_cInvalidEntryIndex = 0xffffffff"

definition dic_child :: "dic_node \<Rightarrow> bool \<Rightarrow> u16" where
  "dic_child node side = (if side then right_node node else left_node node)"

definition set_child :: "bool \<Rightarrow> u16 \<Rightarrow> dic_node \<Rightarrow> dic_node" where
  "set_child side i node = (if side then node\<lparr>right_node := i\<rparr> else node\<lparr>left_node := i\<rparr>)"

text \<open>\<open>root_node_array[index]\<close> with an index of type \<open>s16\<close>.\<close>

definition node_at :: "dic_node list \<Rightarrow> u16 \<Rightarrow> dic_node result" where
  "node_at nodes i = load_i nodes (sint i)"

text \<open>The bit of a key, where \<open>ref_length\<close> is the reference bit without its lowest three bits.\<close>

definition key_bit :: "u8 list \<Rightarrow> u32 \<Rightarrow> u32 \<Rightarrow> bool" where
  "key_bit key ref_length ref \<longleftrightarrow>
     ref_length < of_nat (length key) \<and> bit (key ! (length key - 1 - unat ref_length)) (unat (ref AND 7))"

lemma sless_measure [dest]:
  fixes a b :: u32
  assumes "a <s b"
  shows "sint a < sint b \<and> sint b < 2147483648"
  using assms sint_lt [of b] by (simp add: word_sless_alt)

section \<open>Lookup\<close>

function find_node :: "dic_node list \<Rightarrow> u8 list \<Rightarrow> u16 \<Rightarrow> u32 \<Rightarrow> u16 result" where
  "find_node nodes key next_idx last_ref =
     (case node_at nodes next_idx of
        Inl e \<Rightarrow> Inl e
      | Inr node \<Rightarrow>
          let iter_ref = ref_bit node
          in if last_ref <s iter_ref
             then find_node nodes key (dic_child node (key_bit key (signed_drop_bit 3 iter_ref) iter_ref)) iter_ref
             else Inr next_idx)"
  by pat_completeness auto
termination
  by (relation "measure (\<lambda>(nodes, key, next_idx, last_ref). nat (2 ^ 31 - sint last_ref))") auto

declare find_node.simps [simp del]

definition entry_of_node :: "u16 \<Rightarrow> u32" where
  "entry_of_node i =
     (let ptr_diff = (scast i * 0x10 - 0x10 :: u64)
      in if NOT ptr_diff AND 0xffffffff0 \<noteq> 0 then ucast (signed_drop_bit 4 ptr_diff) else dic_cInvalidEntryIndex)"

definition dic_TryGetEntryIndexByKey :: "nintendo_dictionary \<Rightarrow> u8 list \<Rightarrow> u32 result" where
  "dic_TryGetEntryIndexByKey d key =
     (let len = (of_nat (length key) :: u32)
      in bind_result (node_at (node_array d) 0) (\<lambda>root.
         bind_result (find_node (node_array d) key (left_node root) (ref_bit root)) (\<lambda>next_idx.
         bind_result (node_at (node_array d) next_idx) (\<lambda>node_iter.
           let key_len = (of_nat (length (dic_key node_iter)) :: u16);
               max_len = (if ucast key_len \<le> len then key_len else ucast len)
           in Inr (if max_len = 0 \<and> ucast key_len < len then - 1
                   else if take (unat max_len) (dic_key node_iter) \<noteq> take (unat max_len) key then dic_cInvalidEntryIndex
                   else if len < ucast key_len then dic_cInvalidEntryIndex
                   else if ucast key_len < len then dic_cInvalidEntryIndex
                   else entry_of_node next_idx)))))"

definition GetKeyByEntryIndex :: "nintendo_dictionary \<Rightarrow> u32 \<Rightarrow> u8 list result" where
  "GetKeyByEntryIndex d entry_id = result_map dic_key (load (node_array d) (1 + unat entry_id))"

section \<open>Building\<close>

text \<open>The first loop of a turn: down to the node whose key the new key is compared with.\<close>

function insert_node :: "dic_node list \<Rightarrow> u8 list \<Rightarrow> u16 \<Rightarrow> u32 \<Rightarrow> u16 result" where
  "insert_node nodes iter_key insert_iter last_ref_iter =
     (case node_at nodes insert_iter of
        Inl e \<Rightarrow> Inl e
      | Inr node \<Rightarrow>
          let ref_iter = ref_bit node
          in if last_ref_iter <s ref_iter
             then insert_node nodes iter_key (dic_child node (key_bit iter_key (drop_bit 3 ref_iter) ref_iter)) ref_iter
             else Inr insert_iter)"
  by pat_completeness auto
termination
  by (relation "measure (\<lambda>(nodes, key, insert_iter, last_ref_iter). nat (2 ^ 31 - sint last_ref_iter))") auto

declare insert_node.simps [simp del]

text \<open>The first bit in which two keys differ, below \<open>8 * max_length\<close>.\<close>

function first_difference :: "u8 list \<Rightarrow> u8 list \<Rightarrow> u16 \<Rightarrow> u32 \<Rightarrow> u32 option" where
  "first_difference iter_key insert_key max_length new_ref =
     (if key_bit iter_key (drop_bit 3 new_ref) new_ref \<noteq> key_bit insert_key (drop_bit 3 new_ref) new_ref then Some new_ref
      else
        let new_ref = new_ref + 1
        in if push_bit 3 (ucast max_length) = new_ref \<or> new_ref <s 0 then None
           else first_difference iter_key insert_key max_length new_ref)"
  by pat_completeness auto
termination
proof (relation "measure (\<lambda>(iter_key, insert_key, max_length, new_ref). if unat new_ref < 2147483648 then 2147483648 - unat new_ref else 4294967296)")
  fix iter_key insert_key :: "u8 list" and max_length :: u16 and new_ref x :: u32
  assume x: "x = new_ref + 1" and "\<not> (push_bit 3 (ucast max_length) = x \<or> x <s 0)"
  then have s: "0 \<le> sint x" by (simp add: word_sless_alt)
  have lt: "unat x < 2147483648"
  proof -
    have "sint x < 2147483648" using sint_lt [of x] by simp
    then have "uint x = sint x" using s by (simp add: uint_sint take_bit_int_eq_self)
    then show ?thesis using \<open>sint x < 2147483648\<close> by (metis uint_nat of_nat_less_numeral_iff)
  qed
  show "((iter_key, insert_key, max_length, x), (iter_key, insert_key, max_length, new_ref)) \<in>
    measure (\<lambda>(iter_key, insert_key, max_length, new_ref). if unat new_ref < 2147483648 then 2147483648 - unat new_ref else 4294967296)"
    using lt x by (auto simp: unat_word_ariths)
qed simp

declare first_difference.simps [simp del]

text \<open>The second loop: parent and child between which the node goes.\<close>

function find_link :: "dic_node list \<Rightarrow> u8 list \<Rightarrow> u32 \<Rightarrow> u16 \<Rightarrow> u16 \<Rightarrow> u32 \<Rightarrow> (u16 \<times> u16) result" where
  "find_link nodes iter_key new_ref parent_iter child_iter last_ref_iter =
     (case node_at nodes child_iter of
        Inl e \<Rightarrow> Inl e
      | Inr child \<Rightarrow>
          let ref_iter = ref_bit child
          in if last_ref_iter <s ref_iter \<and> ref_iter <s new_ref
             then find_link nodes iter_key new_ref child_iter (dic_child child (key_bit iter_key (drop_bit 3 ref_iter) ref_iter)) ref_iter
             else Inr (parent_iter, child_iter))"
  by pat_completeness auto
termination
  by (relation "measure (\<lambda>(nodes, key, new_ref, parent_iter, child_iter, last_ref_iter). nat (2 ^ 31 - sint last_ref_iter))")
    auto

declare find_link.simps [simp del]

definition key_side :: "u8 list \<Rightarrow> dic_node \<Rightarrow> bool" where
  "key_side key node = key_bit key (drop_bit 3 (ref_bit node)) (ref_bit node)"

text \<open>A turn of the build loop for node \<open>i\<close>; false is the return of \<open>Build\<close>.\<close>

definition build_node :: "nat \<Rightarrow> dic_node list \<Rightarrow> (bool \<times> dic_node list) result" where
  "build_node i nodes =
     bind_result (load nodes i) (\<lambda>node_iter.
     bind_result (node_at nodes 0) (\<lambda>root.
       let iter_key = dic_key node_iter; key_length = (of_nat (length iter_key) :: u16)
       in bind_result (insert_node nodes iter_key (left_node root) (ref_bit root)) (\<lambda>insert_iter.
          bind_result (node_at nodes insert_iter) (\<lambda>insert.
            let insert_key = dic_key insert;
                insert_length = (of_nat (length insert_key) :: u16);
                max_length = (if insert_length < key_length then key_length else insert_length)
            in if max_length = 0 then Inr (False, nodes)
               else case first_difference iter_key insert_key max_length 0 of
                 None \<Rightarrow> Inr (False, nodes[i := node_iter\<lparr>ref_bit := cNPos\<rparr>])
               | Some new_ref \<Rightarrow>
                   let nodes = nodes[i := node_iter\<lparr>ref_bit := new_ref\<rparr>]
                   in if new_ref = cNPos then Inr (False, nodes)
                      else
                        bind_result (find_link nodes iter_key new_ref 0 (left_node root) (ref_bit root)) (\<lambda>(parent_iter, child_iter).
                        bind_result (node_at nodes parent_iter) (\<lambda>parent.
                        bind_result (node_at nodes child_iter) (\<lambda>child.
                          let nodes = nodes[nat (sint parent_iter) := set_child (key_side iter_key parent) (of_nat i) parent]
                          in Inr (True, nodes[i := set_child (key_side iter_key child) child_iter (nodes ! i)]))))))))"

fun build_nodes :: "nat list \<Rightarrow> dic_node list \<Rightarrow> (bool \<times> dic_node list) result" where
  "build_nodes [] nodes = Inr (True, nodes)"
| "build_nodes (i # is) nodes =
     bind_result (build_node i nodes) (\<lambda>(ok, nodes). if ok then build_nodes is nodes else Inr (False, nodes))"

text \<open>\<open>Build\<close>; the root is not counted in \<open>node_count\<close>.\<close>

definition Build :: "nintendo_dictionary \<Rightarrow> (bool \<times> nintendo_dictionary) result" where
  "Build d =
     (if node_count d \<le>s 0 then Inr (True, d)
      else
        let nodes = map (\<lambda>(i, node). if i < unat (node_count d) + 1 then node\<lparr>ref_bit := cNPos, left_node := of_nat i, right_node := of_nat i\<rparr> else node)
          (enumerate 0 (node_array d))
        in bind_result (build_nodes [1..<unat (node_count d) + 1] nodes) (\<lambda>(ok, nodes). Inr (ok, d\<lparr>node_array := nodes\<rparr>)))"

section \<open>Well formed trees\<close>

text \<open>
  The link \<open>i\<close>, followed from a node with reference bit \<open>last_ref\<close>, is the root of a tree whose leaves are
  the nodes \<open>S\<close>: every branch has the keys whose bit is 0 on the left and those whose bit is 1 on the right.
\<close>

definition node_bit :: "dic_node list \<Rightarrow> u16 \<Rightarrow> u32 \<Rightarrow> bool" where
  "node_bit nodes j ref = key_bit (dic_key (nodes ! nat (sint j))) (signed_drop_bit 3 ref) ref"

inductive trie :: "dic_node list \<Rightarrow> u32 \<Rightarrow> u16 \<Rightarrow> u16 set \<Rightarrow> bool" where
  trie_leaf: "node_at nodes i = Inr node \<Longrightarrow> \<not> last_ref <s ref_bit node \<Longrightarrow> trie nodes last_ref i {i}"
| trie_branch: "node_at nodes i = Inr node \<Longrightarrow> last_ref <s ref_bit node \<Longrightarrow>
    trie nodes (ref_bit node) (left_node node) L \<Longrightarrow> trie nodes (ref_bit node) (right_node node) R \<Longrightarrow>
    \<forall>j\<in>L. \<not> node_bit nodes j (ref_bit node) \<Longrightarrow> \<forall>j\<in>R. node_bit nodes j (ref_bit node) \<Longrightarrow>
    trie nodes last_ref i (L \<union> R)"

inductive_cases trie_cases: "trie nodes last_ref i S"

lemma trie_node: "trie nodes last_ref i S \<Longrightarrow> j \<in> S \<Longrightarrow> \<exists>node. node_at nodes j = Inr node"
  by (induction rule: trie.induct) auto

lemma node_at_nth: "node_at nodes j = Inr node \<Longrightarrow> nodes ! nat (sint j) = node"
  by (auto simp: node_at_def load_i_def load_def split: if_splits)

text \<open>The search ends at a leaf, and at \<open>j\<close> when it is given the key of the leaf \<open>j\<close>.\<close>

lemma find_node_in:
  assumes "trie nodes last_ref i S"
  shows "\<exists>j\<in>S. find_node nodes key i last_ref = Inr j"
  using assms
proof (induction rule: trie.induct)
  case (trie_leaf nodes i node last_ref)
  then show ?case by (simp add: find_node.simps [of nodes key i])
next
  case (trie_branch nodes i node last_ref L R)
  then show ?case by (cases "key_bit key (signed_drop_bit 3 (ref_bit node)) (ref_bit node)")
      (auto simp: find_node.simps [of nodes key i] dic_child_def)
qed

lemma find_node_own:
  assumes "trie nodes last_ref i S" and "j \<in> S"
  shows "find_node nodes (dic_key (nodes ! nat (sint j))) i last_ref = Inr j"
  using assms
proof (induction rule: trie.induct)
  case (trie_leaf nodes i node last_ref)
  then show ?case by (simp add: find_node.simps [of nodes _ i])
next
  case (trie_branch nodes i node last_ref L R)
  then show ?case by (auto simp: find_node.simps [of nodes _ i] dic_child_def node_bit_def)
qed

text \<open>The leaves of a well formed dictionary; leaf 0 is the root.\<close>

definition dic_leaves :: "nintendo_dictionary \<Rightarrow> u16 set \<Rightarrow> bool" where
  "dic_leaves d S \<longleftrightarrow>
     (case node_array d of [] \<Rightarrow> False
      | root # _ \<Rightarrow> trie (node_array d) (ref_bit root) (left_node root) S \<and> (\<forall>node\<in>set (node_array d). length (dic_key node) < 2 ^ 16))"

lemma signed_drop_bit_small:
  fixes x :: u64
  assumes "unat x < 2 ^ 63"
  shows "signed_drop_bit n x = drop_bit n x"
proof -
  have "\<not> bit x 63"
  proof
    assume "bit x 63"
    then have "bit (unat x) 63" by (simp add: bit_unsigned_iff)
    then show False using assms by (simp add: bit_iff_odd)
  qed
  moreover have "\<not> bit x (n + m)" if "64 - n \<le> m" for m using that bit_imp_le_length [of x "n + m"] by auto
  ultimately show ?thesis by (intro bit_word_eqI) (auto simp: bit_signed_drop_bit_iff bit_drop_bit_eq)
qed

lemma entry_of_node_eq:
  assumes "0 < sint i"
  shows "entry_of_node i = of_nat (nat (sint i) - 1)"
proof -
  define j where "j = nat (sint i - 1)"
  have j: "sint i = 1 + int j" using assms by (simp add: j_def)
  have "j < 32767" using j sint_lt [of i] by simp
  define p where "p = (scast i * 0x10 - 0x10 :: u64)"
  have "p = of_int (sint i * 16 - 16)" unfolding p_def by simp
  also have "\<dots> = of_nat (16 * j)" using j by simp
  finally have p: "p = of_nat (16 * j)" .
  have up: "unat p = 16 * j" unfolding p using \<open>j < 32767\<close> by (intro unat_of_nat_less) simp
  have "\<not> bit p 35"
  proof
    assume "bit p 35"
    then have "bit (unat p) 35" by (simp add: bit_unsigned_iff)
    then show False using up \<open>j < 32767\<close> by (simp add: bit_iff_odd)
  qed
  then have "bit (NOT p AND 0xffffffff0) 35" by (simp add: bit_simps)
  then have "NOT p AND 0xffffffff0 \<noteq> 0" by auto
  moreover have "ucast (signed_drop_bit 4 p) = (of_nat j :: u32)"
  proof (rule word_unat_eq_iff [THEN iffD2])
    have "signed_drop_bit 4 p = drop_bit 4 p" using up \<open>j < 32767\<close> by (intro signed_drop_bit_small) simp
    moreover have "unat (drop_bit 4 p) = j" by (simp only: unat_drop_bit_eq up) (simp add: drop_bit_eq_div)
    ultimately show "unat (ucast (signed_drop_bit 4 p) :: u32) = unat (of_nat j :: u32)"
      by (metis of_nat_unat)
  qed
  ultimately show ?thesis using j by (simp add: entry_of_node_def Let_def p_def [symmetric])
qed

text \<open>The comparison at the end of the search is the equality of the keys.\<close>

lemma compare_keys:
  fixes r :: u32
  assumes "length k < 2 ^ 16" and "length key < 2 ^ 32"
  shows "(let len = (of_nat (length key) :: u32); key_len = (of_nat (length k) :: u16);
              max_len = (if ucast key_len \<le> len then key_len else ucast len)
          in if max_len = 0 \<and> ucast key_len < len then - 1
             else if take (unat max_len) k \<noteq> take (unat max_len) key then dic_cInvalidEntryIndex
             else if len < ucast key_len then dic_cInvalidEntryIndex
             else if ucast key_len < len then dic_cInvalidEntryIndex
             else r) = (if k = key then r else dic_cInvalidEntryIndex)"
proof -
  have m: "(- 1 :: u32) = dic_cInvalidEntryIndex" by (simp add: dic_cInvalidEntryIndex_def)
  define kl where "kl = (of_nat (length k) :: u16)"
  define len where "len = (of_nat (length key) :: u32)"
  have uk: "unat kl = length k" "unat (ucast kl :: u32) = length k" and un: "unat len = length key"
    using assms by (simp_all add: kl_def len_def unat_of_nat_less unat_ucast_up)
  have le: "ucast kl \<le> len \<longleftrightarrow> length k \<le> length key"
    and lt: "ucast kl < len \<longleftrightarrow> length k < length key" "len < ucast kl \<longleftrightarrow> length key < length k"
    by (simp_all add: word_le_nat_alt word_less_nat_alt uk un)
  have z: "kl = 0 \<longleftrightarrow> length k = 0" using uk(1) by (metis unat_eq_0)
  consider "length k < length key" | "length k = length key" | "length key < length k" by linarith
  then show ?thesis
    unfolding kl_def [symmetric] len_def [symmetric]
    by cases (auto simp: Let_def m le lt uk z)
qed

lemma TryGet_at:
  assumes "dic_leaves d S" and "length key < 2 ^ 32"
    and find: "find_node (node_array d) key (left_node (hd (node_array d))) (ref_bit (hd (node_array d))) = Inr j" and "j \<in> S"
  shows "dic_TryGetEntryIndexByKey d key =
    Inr (if dic_key (node_array d ! nat (sint j)) = key then entry_of_node j else dic_cInvalidEntryIndex)"
proof -
  obtain root ns where ns: "node_array d = root # ns" using assms(1) by (cases "node_array d") (auto simp: dic_leaves_def)
  then obtain node where node: "node_at (node_array d) j = Inr node"
    using assms(1,4) trie_node by (fastforce simp: dic_leaves_def)
  then have nth: "node_array d ! nat (sint j) = node" by (rule node_at_nth)
  have root: "node_at (node_array d) 0 = Inr root" by (simp add: ns node_at_def load_i_def load_def)
  have "node \<in> set (node_array d)" using node by (auto simp: node_at_def load_i_def load_def split: if_splits)
  then have "length (dic_key node) < 2 ^ 16" using assms(1) by (auto simp: dic_leaves_def ns)
  note cmp = compare_keys [OF this assms(2), unfolded Let_def]
  have f: "find_node (node_array d) key (left_node root) (ref_bit root) = Inr j" using find by (simp add: ns)
  show ?thesis by (simp only: dic_TryGetEntryIndexByKey_def Let_def root f node nth bind_result.simps cmp)
qed

lemma dictionary_search:
  assumes "dic_leaves d S" and "length key < 2 ^ 32"
  shows "\<forall>j\<in>S. 0 < sint j \<longrightarrow> dic_key (node_array d ! nat (sint j)) = key \<longrightarrow>
      dic_TryGetEntryIndexByKey d key = Inr (of_nat (nat (sint j) - 1)) \<and>
      GetKeyByEntryIndex d (of_nat (nat (sint j) - 1)) = Inr key"
    and "(\<forall>j\<in>S. 0 < sint j \<longrightarrow> dic_key (node_array d ! nat (sint j)) \<noteq> key) \<longrightarrow>
      dic_TryGetEntryIndexByKey d key = Inr dic_cInvalidEntryIndex"
proof -
  obtain root ns where ns: "node_array d = root # ns" using assms(1) by (cases "node_array d") (auto simp: dic_leaves_def)
  have t: "trie (node_array d) (ref_bit root) (left_node root) S" using assms(1) by (simp add: dic_leaves_def ns)
  show "\<forall>j\<in>S. 0 < sint j \<longrightarrow> dic_key (node_array d ! nat (sint j)) = key \<longrightarrow>
      dic_TryGetEntryIndexByKey d key = Inr (of_nat (nat (sint j) - 1)) \<and>
      GetKeyByEntryIndex d (of_nat (nat (sint j) - 1)) = Inr key"
  proof (intro ballI impI)
    fix j assume j: "j \<in> S" "0 < sint j" and k: "dic_key (node_array d ! nat (sint j)) = key"
    have "dic_TryGetEntryIndexByKey d key = Inr (entry_of_node j)"
      using TryGet_at [OF assms(1,2) _ j(1)] find_node_own [OF t j(1)] k by (simp add: ns)
    moreover have "GetKeyByEntryIndex d (of_nat (nat (sint j) - 1)) = Inr key"
    proof -
      obtain node where "node_at (node_array d) j = Inr node" using trie_node [OF t j(1)] by auto
      then have "nat (sint j) < length (node_array d)" by (auto simp: node_at_def load_i_def load_def split: if_splits)
      moreover have "unat (of_nat (nat (sint j) - 1) :: u32) = nat (sint j) - 1"
        using sint_lt [of j] by (intro unat_of_nat_less) simp
      moreover have "1 + (nat (sint j) - 1) = nat (sint j)" using j(2) by simp
      ultimately show ?thesis using k by (simp only: GetKeyByEntryIndex_def) (simp add: load_def)
    qed
    ultimately show "dic_TryGetEntryIndexByKey d key = Inr (of_nat (nat (sint j) - 1)) \<and>
      GetKeyByEntryIndex d (of_nat (nat (sint j) - 1)) = Inr key" by (simp add: entry_of_node_eq [OF j(2)])
  qed
  show "(\<forall>j\<in>S. 0 < sint j \<longrightarrow> dic_key (node_array d ! nat (sint j)) \<noteq> key) \<longrightarrow>
      dic_TryGetEntryIndexByKey d key = Inr dic_cInvalidEntryIndex"
  proof
    assume a: "\<forall>j\<in>S. 0 < sint j \<longrightarrow> dic_key (node_array d ! nat (sint j)) \<noteq> key"
    obtain j where j: "j \<in> S" "find_node (node_array d) key (left_node root) (ref_bit root) = Inr j"
      using find_node_in [OF t] by blast
    obtain node where "node_at (node_array d) j = Inr node" using trie_node [OF t j(1)] by auto
    then have "0 \<le> sint j" by (auto simp: node_at_def load_i_def split: if_splits)
    then consider "0 < sint j" | "j = 0" by (metis order_le_less signed_eq_0_iff)
    then show "dic_TryGetEntryIndexByKey d key = Inr dic_cInvalidEntryIndex"
      using TryGet_at [OF assms(1,2) _ j(1)] j(2) a j(1)
      by cases (simp_all add: ns entry_of_node_def dic_cInvalidEntryIndex_def)
  qed
qed

text \<open>
  C25: in a dictionary whose nodes form a well formed tree a search finds exactly the keys of the entries, with
  the index under which the dictionary answers the key.
\<close>

theorem dictionary_lookup:
  assumes "dic_leaves d S" and "length key < 2 ^ 32"
  shows "(\<forall>j\<in>S. 0 < sint j \<longrightarrow> dic_key (node_array d ! nat (sint j)) = key \<longrightarrow>
      dic_TryGetEntryIndexByKey d key = Inr (of_nat (nat (sint j) - 1)) \<and>
      GetKeyByEntryIndex d (of_nat (nat (sint j) - 1)) = Inr key) \<and>
    ((\<forall>j\<in>S. 0 < sint j \<longrightarrow> dic_key (node_array d ! nat (sint j)) \<noteq> key) \<longrightarrow>
      dic_TryGetEntryIndexByKey d key = Inr dic_cInvalidEntryIndex)"
  using dictionary_search [OF assms] by blast

definition dic_example :: nintendo_dictionary where
  "dic_example = \<lparr>node_count = 2, node_array =
     [\<lparr>ref_bit = - 1, left_node = 1, right_node = 0, dic_key = []\<rparr>,
      \<lparr>ref_bit = 0, left_node = 0, right_node = 2, dic_key = [0x61]\<rparr>,
      \<lparr>ref_bit = 1, left_node = 1, right_node = 2, dic_key = [0x63]\<rparr>]\<rparr>"

lemma dic_example_leaves: "dic_leaves dic_example {0, 1, 2}"
proof -
  let ?n = "node_array dic_example"
  have at: "node_at ?n 0 = Inr (?n ! 0)" "node_at ?n 1 = Inr (?n ! 1)" "node_at ?n 2 = Inr (?n ! 2)" by code_simp+
  have bits: "\<not> node_bit ?n 0 0" "node_bit ?n 1 0" "node_bit ?n 2 0" "\<not> node_bit ?n 1 1" "node_bit ?n 2 1" by code_simp+
  have refs: "- 1 <s (0 :: u32)" "0 <s (1 :: u32)" by code_simp+
  have "trie ?n 1 1 {1}" by (rule trie_leaf [OF at(2)]) code_simp
  moreover have "trie ?n 1 2 {2}" by (rule trie_leaf [OF at(3)]) code_simp
  ultimately have "trie ?n 0 2 ({1} \<union> {2})"
    using bits refs by (intro trie_branch [OF at(3)]) (simp_all add: dic_example_def)
  moreover have "trie ?n 0 0 {0}" by (rule trie_leaf [OF at(1)]) code_simp
  ultimately have "trie ?n (- 1) 1 ({0} \<union> ({1} \<union> {2}))"
    using bits refs by (intro trie_branch [OF at(2)]) (simp_all add: dic_example_def)
  then show ?thesis by (simp add: dic_leaves_def dic_example_def insert_commute)
qed

theorem dictionary_lookup_witness:
  "dic_TryGetEntryIndexByKey dic_example [0x63] = Inr 1 \<and> dic_TryGetEntryIndexByKey dic_example [0x62] = Inr dic_cInvalidEntryIndex"
proof
  show "dic_TryGetEntryIndexByKey dic_example [0x63] = Inr 1"
    using dictionary_lookup [OF dic_example_leaves, of "[0x63]"] by (simp add: dic_example_def)
  show "dic_TryGetEntryIndexByKey dic_example [0x62] = Inr dic_cInvalidEntryIndex"
    using dictionary_lookup [OF dic_example_leaves, of "[0x62]"] by (simp add: dic_example_def)
qed

section \<open>What the builder builds\<close>

definition dic_unbuilt :: "u8 list list \<Rightarrow> nintendo_dictionary" where
  "dic_unbuilt keys = \<lparr>node_count = of_nat (length keys), node_array =
     map (\<lambda>key. \<lparr>ref_bit = 0, left_node = 0, right_node = 0, dic_key = key\<rparr>) ([] # keys)\<rparr>"

text \<open>Bit \<open>ref\<close> of a key, and the first bit in which two keys differ; against the empty key it is the lowest set bit.\<close>

definition key_ref :: "u8 list \<Rightarrow> u32 \<Rightarrow> bool" where
  "key_ref key ref = key_bit key (drop_bit 3 ref) ref"

definition first_diff :: "u8 list \<Rightarrow> u8 list \<Rightarrow> u32 \<Rightarrow> bool" where
  "first_diff k k' d \<longleftrightarrow> key_ref k d \<noteq> key_ref k' d \<and> (\<forall>e<d. key_ref k e = key_ref k' e)"

lemma key_ref_Nil [simp]: "\<not> key_ref [] ref"
  by (simp add: key_ref_def key_bit_def)

lemma key_ref_bound:
  assumes "key_ref k e" and "length k < 2 ^ 16"
  shows "unat e < 8 * length k"
proof -
  have "unat (drop_bit 3 e) < length k" using assms by (simp add: key_ref_def key_bit_def word_less_nat_alt unat_of_nat_less)
  moreover have "unat (drop_bit 3 e) = unat e div 8" by (simp only: unat_drop_bit_eq) (simp add: drop_bit_eq_div)
  ultimately show ?thesis by linarith
qed

lemma sint_small:
  fixes a :: u32
  assumes "unat a < 2 ^ 31"
  shows "sint a = uint a" and "0 \<le> uint a" and "uint a < 2 ^ 31"
proof -
  have "uint a = int (unat a)" by simp
  moreover have "int (unat a) < int (2 ^ 31)" using assms by (simp only: of_nat_less_iff)
  ultimately show b: "uint a < 2 ^ 31" by (simp only: of_nat_power of_nat_numeral)
  show z: "0 \<le> uint a" by simp
  show "sint a = uint a" using b order_trans [OF _ z, of "- (2 ^ 31)"] by (simp add: sint_uint signed_take_bit_int_eq_self_iff)
qed

lemma sless_small:
  fixes a b :: u32
  assumes "unat a < 2 ^ 31"
  shows "- 1 <s a" and "\<not> a <s - 1" and "\<not> a <s 0" and "unat b < 2 ^ 31 \<Longrightarrow> a <s b \<longleftrightarrow> a < b"
proof -
  have "- 1 < uint a" "\<not> uint a < - 1" "\<not> uint a < 0" using sint_small(2) [OF assms] by linarith+
  then show "- 1 <s a" "\<not> a <s - 1" "\<not> a <s 0" by (simp_all only: word_sless_alt sint_small(1) [OF assms] sint_0 sint_n1 not_False_eq_True)
  show "unat b < 2 ^ 31 \<Longrightarrow> a <s b \<longleftrightarrow> a < b" by (simp only: word_sless_alt sint_small(1) assms word_less_def)
qed

lemma signed_drop_small:
  fixes a :: u32
  assumes "unat a < 2 ^ 31"
  shows "signed_drop_bit 3 a = drop_bit 3 a"
proof -
  have "\<not> bit a 31"
  proof
    assume "bit a 31"
    then have "bit (unat a) 31" by (simp add: bit_unsigned_iff)
    then show False using assms by (simp add: bit_iff_odd)
  qed
  moreover have "\<not> bit a (3 + m)" if "29 \<le> m" for m using that bit_imp_le_length [of a "3 + m"] by auto
  ultimately show ?thesis by (intro bit_word_eqI) (auto simp: bit_signed_drop_bit_iff bit_drop_bit_eq)
qed

lemma first_difference_eq:
  "first_diff a b d \<Longrightarrow> unat d < 8 * unat max_length \<Longrightarrow> n \<le> d \<Longrightarrow> first_difference a b max_length n = Some d"
proof (induction a b max_length n rule: first_difference.induct)
  case (1 a b max_length n)
  show ?case
  proof (cases "key_ref a n = key_ref b n")
    case False
    have "\<not> n < d" using "1.prems"(1) False by (auto simp: first_diff_def)
    then have "n = d" using "1.prems"(3) by simp
    then show ?thesis using False by (subst first_difference.simps) (simp add: key_ref_def)
  next
    case True
    have "n \<noteq> d" using "1.prems"(1) True by (auto simp: first_diff_def)
    then have lt: "n < d" using "1.prems"(3) by simp
    have "unat max_length < 2 ^ LENGTH(16)" by (rule unsigned_less)
    then have m: "8 * unat max_length < 524288" by simp
    have "unat n < unat d" using lt by (simp only: word_less_nat_alt)
    then have small: "unat n + 1 < 524288" using m "1.prems"(2) by linarith
    then have u: "unat (n + 1) = unat n + 1" by (subst unat_add_nowrap) simp_all
    then have le: "n + 1 \<le> d" using lt by (simp add: word_le_nat_alt word_less_nat_alt)
    have "unat (push_bit 3 (ucast max_length :: u32)) = 8 * unat max_length"
    proof -
      have "unat max_length * 8 mod 4294967296 = 8 * unat max_length" by (subst mod_less) (use m in linarith, simp)
      then show ?thesis by (simp add: push_bit_eq_mult unat_word_ariths unat_ucast_up)
    qed
    then have "push_bit 3 (ucast max_length) \<noteq> n + 1" using u lt "1.prems"(2) by (auto simp: word_less_nat_alt)
    moreover have "\<not> n + 1 <s 0" by (rule sless_small(3)) (use u small in simp)
    ultimately have "first_difference a b max_length (n + 1) = Some d"
      using "1.IH" [OF _ refl] True "1.prems"(1,2) le by (simp add: key_ref_def)
    then show ?thesis using True \<open>push_bit 3 (ucast max_length) \<noteq> n + 1\<close> \<open>\<not> n + 1 <s 0\<close>
      by (subst first_difference.simps) (simp add: key_ref_def Let_def)
  qed
qed

text \<open>Three nodes.\<close>

lemma node_at_three [simp]:
  "node_at [a, b, c] 0 = Inr a" "node_at [a, b, c] 1 = Inr b" "node_at [a, b, c] 2 = Inr c"
  by (simp_all add: node_at_def load_i_def load_def)

abbreviation dic_node_of :: "u32 \<Rightarrow> u16 \<Rightarrow> u16 \<Rightarrow> u8 list \<Rightarrow> dic_node" where
  "dic_node_of ref left right key \<equiv> \<lparr>ref_bit = ref, left_node = left, right_node = right, dic_key = key\<rparr>"

lemma key_side_root [simp]: "length k < 2 ^ 16 \<Longrightarrow> \<not> key_side k (dic_node_of (- 1) l r k')"
proof -
  have "drop_bit 3 (- 1 :: u32) = 0x1fffffff" by code_simp
  then show "length k < 2 ^ 16 \<Longrightarrow> \<not> key_side k (dic_node_of (- 1) l r k')"
    by (simp add: key_side_def key_bit_def word_less_nat_alt unat_of_nat_less)
qed

lemma key_side_ref [simp]: "key_side k (dic_node_of r i j k') = key_ref k r"
  by (simp add: key_side_def key_ref_def)

lemma key_ref_root [simp]: "length k < 2 ^ 16 \<Longrightarrow> \<not> key_ref k (- 1)"
  using key_side_root by simp

lemma length_u16:
  assumes "length k < 2 ^ 16"
  shows "unat (of_nat (length k) :: u16) = length k"
  using assms by (simp add: unat_of_nat_less)

text \<open>The reference bit of a turn.\<close>

lemma new_ref_bit:
  assumes "first_diff k k' d" and "length k < 2 ^ 16" and "length k' < 2 ^ 16"
    and "max_length = (if (of_nat (length k') :: u16) < of_nat (length k) then of_nat (length k) else of_nat (length k'))"
  shows "first_difference k k' max_length 0 = Some d" and "unat d < 2 ^ 19" and "max_length \<noteq> 0"
proof -
  have m: "unat max_length = max (length k) (length k')" using assms(2-4) by (simp add: length_u16 word_less_nat_alt max_def)
  have "key_ref k d \<or> key_ref k' d" using assms(1) by (auto simp: first_diff_def)
  then have d: "unat d < 8 * unat max_length" using key_ref_bound [of k d] key_ref_bound [of k' d] assms(2,3) m by linarith
  show "first_difference k k' max_length 0 = Some d" by (rule first_difference_eq [OF assms(1) d]) simp
  have "max (length k) (length k') < 65536" using assms(2,3) by simp
  then have "unat d < 524288" using d m by linarith
  then show "unat d < 2 ^ 19" by simp
  show "max_length \<noteq> 0" using d by auto
qed

text \<open>Single steps of the searches.\<close>

lemma insert_node_step:
  assumes "node_at nodes i = Inr node"
  shows "\<not> ref <s ref_bit node \<Longrightarrow> insert_node nodes k i ref = Inr i"
    and "ref <s ref_bit node \<Longrightarrow> insert_node nodes k i ref = insert_node nodes k (dic_child node (key_side k node)) (ref_bit node)"
  using assms by (simp_all add: insert_node.simps [of nodes k i ref] key_side_def Let_def)

lemma find_link_step:
  assumes "node_at nodes i = Inr node"
  shows "\<not> (ref <s ref_bit node \<and> ref_bit node <s new_ref) \<Longrightarrow> find_link nodes k new_ref parent i ref = Inr (parent, i)"
    and "ref <s ref_bit node \<Longrightarrow> ref_bit node <s new_ref \<Longrightarrow>
      find_link nodes k new_ref parent i ref = find_link nodes k new_ref i (dic_child node (key_side k node)) (ref_bit node)"
  using assms by (auto simp add: find_link.simps [of nodes k new_ref parent i ref] key_side_def Let_def)

lemma find_node_step:
  assumes "node_at nodes i = Inr node"
  shows "\<not> ref <s ref_bit node \<Longrightarrow> find_node nodes k i ref = Inr i"
    and "ref <s ref_bit node \<Longrightarrow> unat (ref_bit node) < 2 ^ 31 \<Longrightarrow>
      find_node nodes k i ref = find_node nodes k (dic_child node (key_side k node)) (ref_bit node)"
  using assms by (simp_all add: find_node.simps [of nodes k i ref] key_side_def signed_drop_small Let_def)

text \<open>A turn, when its searches are known.\<close>

lemma build_node_turn:
  assumes nodes: "load nodes i = Inr node" "node_at nodes 0 = Inr root"
    and insert: "insert_node nodes (dic_key node) (left_node root) (ref_bit root) = Inr j" "node_at nodes j = Inr insert_at"
    and ref: "first_diff (dic_key node) (dic_key insert_at) d" "length (dic_key node) < 2 ^ 16" "length (dic_key insert_at) < 2 ^ 16"
    and link: "find_link (nodes[i := node\<lparr>ref_bit := d\<rparr>]) (dic_key node) d 0 (left_node root) (ref_bit root) = Inr (p, c)"
    and ends: "node_at (nodes[i := node\<lparr>ref_bit := d\<rparr>]) p = Inr parent" "node_at (nodes[i := node\<lparr>ref_bit := d\<rparr>]) c = Inr child"
  shows "build_node i nodes =
    (let nodes = nodes[i := node\<lparr>ref_bit := d\<rparr>, nat (sint p) := set_child (key_side (dic_key node) parent) (of_nat i) parent]
     in Inr (True, nodes[i := set_child (key_side (dic_key node) child) c (nodes ! i)]))"
proof -
  note b = new_ref_bit [OF ref refl]
  have "- 1 <s d" using sless_small(1) [of d] b(2) by simp
  then have "d \<noteq> cNPos" by (auto simp: cNPos_def)
  then show ?thesis unfolding build_node_def Let_def
    by (simp only: nodes insert link ends b bind_result.simps option.case if_False prod.case)
qed

lemma turn_one:
  assumes "first_diff k1 [] r" and "length k1 < 2 ^ 16"
  shows "build_node 1 [dic_node_of (- 1) 0 0 [], dic_node_of (- 1) 1 1 k1, n2] =
    Inr (True, [dic_node_of (- 1) 1 0 [], dic_node_of r 0 1 k1, n2])"
proof -
  let ?ns = "[dic_node_of (- 1) 0 0 [], dic_node_of (- 1) 1 1 k1, n2]"
  let ?root = "dic_node_of (- 1) 0 0 []"
  show ?thesis
    by (subst build_node_turn [where node = "dic_node_of (- 1) 1 1 k1" and root = ?root and j = 0 and insert_at = ?root and d = r
          and p = 0 and c = 0 and parent = ?root and child = ?root])
      (use assms in \<open>simp_all add: load_def insert_node_step(1) find_link_step(1) set_child_def Let_def\<close>)
qed

lemma first_diff_sym: "first_diff k k' d \<longleftrightarrow> first_diff k' k d"
  by (auto simp: first_diff_def)

lemma first_diff_small: "first_diff k k' d \<Longrightarrow> length k < 2 ^ 16 \<Longrightarrow> length k' < 2 ^ 16 \<Longrightarrow> unat d < 2 ^ 31"
  using new_ref_bit(2) [OF _ _ _ refl, of k k' d] by simp

definition two_nodes :: "u16 \<Rightarrow> dic_node \<Rightarrow> dic_node \<Rightarrow> dic_node list" where
  "two_nodes first n1 n2 = [dic_node_of (- 1) first 0 [], n1, n2]"

lemma two_nodes_at [simp]:
  "node_at (two_nodes f n1 n2) 0 = Inr (dic_node_of (- 1) f 0 [])" "node_at (two_nodes f n1 n2) 1 = Inr n1" "node_at (two_nodes f n1 n2) 2 = Inr n2"
  "load (two_nodes f n1 n2) 2 = Inr n2" "(two_nodes f n1 n2)[2 := n] = two_nodes f n1 n" "two_nodes f n1 n2 ! 2 = n2"
  "(two_nodes f n1 n2)[0 := dic_node_of (- 1) g 0 []] = two_nodes g n1 n2" "(two_nodes f n1 n2)[Suc 0 := n] = two_nodes f n n2"
  by (simp_all add: two_nodes_def load_def)

text \<open>The second turn: the new node goes above or below the first, by the reference bits.\<close>

lemma turn_two:
  assumes r: "first_diff k1 [] r" and d: "first_diff k2 (if key_ref k2 r then k1 else []) d" and len: "length k1 < 2 ^ 16" "length k2 < 2 ^ 16"
  shows "build_node 2 (two_nodes 1 (dic_node_of r 0 1 k1) (dic_node_of (- 1) 2 2 k2)) = Inr (True,
    if key_ref k2 r
    then if d < r then two_nodes 2 (dic_node_of r 0 1 k1) (dic_node_of d 2 1 k2)
      else two_nodes 1 (dic_node_of r 0 2 k1) (dic_node_of d 2 1 k2)
    else if d < r then two_nodes 2 (dic_node_of r 0 1 k1) (dic_node_of d 1 2 k2)
      else two_nodes 1 (dic_node_of r 2 1 k1) (dic_node_of d 0 2 k2))"
proof -
  let ?root = "dic_node_of (- 1) 1 0 []" let ?n1 = "dic_node_of r 0 1 k1" let ?n2 = "dic_node_of (- 1) 2 2 k2"
  have rs: "unat r < 2 ^ 31" and ds: "unat d < 2 ^ 31" using first_diff_small [OF r len(1)] first_diff_small [OF d len(2)] len by simp_all
  note s = sless_small [OF rs] sless_small(4) [OF rs ds] sless_small(4) [OF rs rs]
  have one: "key_ref k1 r" using r by (simp add: first_diff_def)
  have rd: "r \<noteq> d" using d one by (auto simp: first_diff_def split: if_splits)
  note steps = insert_node_step find_link_step
  show ?thesis
  proof (cases "key_ref k2 r")
    case True
    have ins: "insert_node (two_nodes 1 ?n1 ?n2) k2 1 (- 1) = Inr 1"
      using s True by (simp add: insert_node_step(2) [of _ 1 ?n1] insert_node_step(1) [of _ 1 ?n1] dic_child_def)
    show ?thesis
    proof (cases "d < r")
      case below: True
      have "find_link (two_nodes 1 ?n1 (dic_node_of d 2 2 k2)) k2 d 0 1 (- 1) = Inr (0, 1)"
        using s below by (simp add: find_link_step(1) [of _ 1 ?n1])
      then show ?thesis using d len True below ins
        by (subst build_node_turn [where node = ?n2 and root = ?root and j = 1 and insert_at = ?n1 and d = d
            and p = 0 and c = 1 and parent = ?root and child = ?n1]) (simp_all add: set_child_def Let_def)
    next
      case above: False
      then have "r < d" using rd by simp
      then have "find_link (two_nodes 1 ?n1 (dic_node_of d 2 2 k2)) k2 d 0 1 (- 1) = Inr (1, 1)"
        using s True by (simp add: find_link_step(2) [of _ 1 ?n1] find_link_step(1) [of _ 1 ?n1] dic_child_def)
      then show ?thesis using d len True above ins
        by (subst build_node_turn [where node = ?n2 and root = ?root and j = 1 and insert_at = ?n1 and d = d
            and p = 1 and c = 1 and parent = ?n1 and child = ?n1]) (simp_all add: set_child_def Let_def)
    qed
  next
    case False
    have ins: "insert_node (two_nodes 1 ?n1 ?n2) k2 1 (- 1) = Inr 0"
      using s False by (simp add: insert_node_step(2) [of _ 1 ?n1] insert_node_step(1) [of _ 0 ?root] dic_child_def)
    show ?thesis
    proof (cases "d < r")
      case below: True
      have "find_link (two_nodes 1 ?n1 (dic_node_of d 2 2 k2)) k2 d 0 1 (- 1) = Inr (0, 1)"
        using s below by (simp add: find_link_step(1) [of _ 1 ?n1])
      then show ?thesis using d len False below ins
        by (subst build_node_turn [where node = ?n2 and root = ?root and j = 0 and insert_at = ?root and d = d
            and p = 0 and c = 1 and parent = ?root and child = ?n1]) (simp_all add: set_child_def Let_def)
    next
      case above: False
      then have "r < d" using rd by simp
      then have "find_link (two_nodes 1 ?n1 (dic_node_of d 2 2 k2)) k2 d 0 1 (- 1) = Inr (1, 0)"
        using s False by (simp add: find_link_step(2) [of _ 1 ?n1] find_link_step(1) [of _ 0 ?root] dic_child_def)
      then show ?thesis using d len False above ins
        by (subst build_node_turn [where node = ?n2 and root = ?root and j = 0 and insert_at = ?root and d = d
            and p = 1 and c = 0 and parent = ?n1 and child = ?root]) (simp_all add: set_child_def Let_def)
    qed
  qed
qed

text \<open>A search that ends at a node answers for its key.\<close>

lemma TryGet_node:
  assumes ns: "node_at (node_array d) 0 = Inr root" and len: "length key < 2 ^ 32" "length (dic_key node) < 2 ^ 16"
    and find: "find_node (node_array d) key (left_node root) (ref_bit root) = Inr j" "node_at (node_array d) j = Inr node"
  shows "dic_TryGetEntryIndexByKey d key = Inr (if dic_key node = key then entry_of_node j else dic_cInvalidEntryIndex)"
  using compare_keys [OF len(2,1), unfolded Let_def] by (simp only: dic_TryGetEntryIndexByKey_def Let_def ns find bind_result.simps)

lemma Build_two:
  assumes r: "first_diff k1 [] r" and d: "first_diff k2 (if key_ref k2 r then k1 else []) d" and len: "length k1 < 2 ^ 16" "length k2 < 2 ^ 16"
  shows "Build (dic_unbuilt [k1, k2]) = Inr (True, \<lparr>node_count = 2, node_array =
    if key_ref k2 r
    then if d < r then two_nodes 2 (dic_node_of r 0 1 k1) (dic_node_of d 2 1 k2)
      else two_nodes 1 (dic_node_of r 0 2 k1) (dic_node_of d 2 1 k2)
    else if d < r then two_nodes 2 (dic_node_of r 0 1 k1) (dic_node_of d 1 2 k2)
      else two_nodes 1 (dic_node_of r 2 1 k1) (dic_node_of d 0 2 k2)\<rparr>)"
proof -
  have i: "[1..<unat (2 :: u32) + 1] = [1, 2]" by (simp add: upt_rec)
  have n: "\<not> (2 :: u32) \<le>s 0" by code_simp
  have "build_nodes [1, 2] [dic_node_of (- 1) 0 0 [], dic_node_of (- 1) 1 1 k1, dic_node_of (- 1) 2 2 k2] =
    build_nodes [2] (two_nodes 1 (dic_node_of r 0 1 k1) (dic_node_of (- 1) 2 2 k2))"
    using turn_one [OF r len(1), of "dic_node_of (- 1) 2 2 k2"] by (simp add: two_nodes_def)
  also have "\<dots> = Inr (True, (if key_ref k2 r
    then if d < r then two_nodes 2 (dic_node_of r 0 1 k1) (dic_node_of d 2 1 k2)
      else two_nodes 1 (dic_node_of r 0 2 k1) (dic_node_of d 2 1 k2)
    else if d < r then two_nodes 2 (dic_node_of r 0 1 k1) (dic_node_of d 1 2 k2)
      else two_nodes 1 (dic_node_of r 2 1 k1) (dic_node_of d 0 2 k2)))"
    by (simp only: build_nodes.simps turn_two [OF assms] bind_result.simps prod.case if_True)
  finally show ?thesis using i n by (simp add: Build_def dic_unbuilt_def cNPos_def enumerate_eq_zip Let_def)
qed

lemma lookup_two:
  assumes "length key < 2 ^ 16"
  shows "find_node (two_nodes f n1 n2) key f (- 1) = Inr 1 \<Longrightarrow> length (dic_key n1) < 2 ^ 16 \<Longrightarrow>
      dic_TryGetEntryIndexByKey \<lparr>node_count = c, node_array = two_nodes f n1 n2\<rparr> key = Inr (if dic_key n1 = key then 0 else dic_cInvalidEntryIndex)"
    and "find_node (two_nodes f n1 n2) key f (- 1) = Inr 2 \<Longrightarrow> length (dic_key n2) < 2 ^ 16 \<Longrightarrow>
      dic_TryGetEntryIndexByKey \<lparr>node_count = c, node_array = two_nodes f n1 n2\<rparr> key = Inr (if dic_key n2 = key then 1 else dic_cInvalidEntryIndex)"
proof -
  have idx: "entry_of_node 1 = 0" "entry_of_node 2 = 1" by code_simp+
  note t = TryGet_node [of "\<lparr>node_count = c, node_array = two_nodes f n1 n2\<rparr>" "dic_node_of (- 1) f 0 []" key]
  show "find_node (two_nodes f n1 n2) key f (- 1) = Inr 1 \<Longrightarrow> length (dic_key n1) < 2 ^ 16 \<Longrightarrow>
      dic_TryGetEntryIndexByKey \<lparr>node_count = c, node_array = two_nodes f n1 n2\<rparr> key = Inr (if dic_key n1 = key then 0 else dic_cInvalidEntryIndex)"
    using t [of n1 1] assms by (simp add: idx)
  show "find_node (two_nodes f n1 n2) key f (- 1) = Inr 2 \<Longrightarrow> length (dic_key n2) < 2 ^ 16 \<Longrightarrow>
      dic_TryGetEntryIndexByKey \<lparr>node_count = c, node_array = two_nodes f n1 n2\<rparr> key = Inr (if dic_key n2 = key then 1 else dic_cInvalidEntryIndex)"
    using t [of n2 2] assms by (simp add: idx)
qed

text \<open>The searches in the four trees.\<close>

lemma search_two:
  fixes r d :: u32
  assumes "unat r < 2 ^ 31" and "unat d < 2 ^ 31"
  shows "r < d \<Longrightarrow> find_node (two_nodes 1 (dic_node_of r i j k1) (dic_node_of d i' j' k2)) k 1 (- 1) =
      find_node (two_nodes 1 (dic_node_of r i j k1) (dic_node_of d i' j' k2)) k (if key_ref k r then j else i) r"
    and "d < r \<Longrightarrow> find_node (two_nodes 2 (dic_node_of r i j k1) (dic_node_of d i' j' k2)) k 2 (- 1) =
      find_node (two_nodes 2 (dic_node_of r i j k1) (dic_node_of d i' j' k2)) k (if key_ref k d then j' else i') d"
    and "r < d \<Longrightarrow> find_node (two_nodes 1 (dic_node_of r i j k1) (dic_node_of d i' j' k2)) k 2 r =
      find_node (two_nodes 1 (dic_node_of r i j k1) (dic_node_of d i' j' k2)) k (if key_ref k d then j' else i') d"
    and "d < r \<Longrightarrow> find_node (two_nodes 2 (dic_node_of r i j k1) (dic_node_of d i' j' k2)) k 1 d =
      find_node (two_nodes 2 (dic_node_of r i j k1) (dic_node_of d i' j' k2)) k (if key_ref k r then j else i) r"
    and "find_node (two_nodes f (dic_node_of r i j k1) n) k 1 r = Inr 1"
    and "find_node (two_nodes f n (dic_node_of d i' j' k2)) k 2 d = Inr 2"
    and "r < d \<Longrightarrow> find_node (two_nodes f (dic_node_of r i j k1) n) k 1 d = Inr 1"
    and "d < r \<Longrightarrow> find_node (two_nodes f n (dic_node_of d i' j' k2)) k 2 r = Inr 2"
proof -
  note s = sless_small(1) [OF assms(1)] sless_small(1) [OF assms(2)] sless_small(4) [OF assms] sless_small(4) [OF assms(2,1)]
    sless_small(4) [OF assms(1,1)] sless_small(4) [OF assms(2,2)]
  show "r < d \<Longrightarrow> find_node (two_nodes 1 (dic_node_of r i j k1) (dic_node_of d i' j' k2)) k 1 (- 1) =
      find_node (two_nodes 1 (dic_node_of r i j k1) (dic_node_of d i' j' k2)) k (if key_ref k r then j else i) r"
    by (subst find_node_step(2) [of _ 1 "dic_node_of r i j k1"]) (use s assms in \<open>simp_all add: dic_child_def\<close>)
  show "d < r \<Longrightarrow> find_node (two_nodes 2 (dic_node_of r i j k1) (dic_node_of d i' j' k2)) k 2 (- 1) =
      find_node (two_nodes 2 (dic_node_of r i j k1) (dic_node_of d i' j' k2)) k (if key_ref k d then j' else i') d"
    by (subst find_node_step(2) [of _ 2 "dic_node_of d i' j' k2"]) (use s assms in \<open>simp_all add: dic_child_def\<close>)
  show "r < d \<Longrightarrow> find_node (two_nodes 1 (dic_node_of r i j k1) (dic_node_of d i' j' k2)) k 2 r =
      find_node (two_nodes 1 (dic_node_of r i j k1) (dic_node_of d i' j' k2)) k (if key_ref k d then j' else i') d"
    by (subst find_node_step(2) [of _ 2 "dic_node_of d i' j' k2"]) (use s assms in \<open>simp_all add: dic_child_def\<close>)
  show "d < r \<Longrightarrow> find_node (two_nodes 2 (dic_node_of r i j k1) (dic_node_of d i' j' k2)) k 1 d =
      find_node (two_nodes 2 (dic_node_of r i j k1) (dic_node_of d i' j' k2)) k (if key_ref k r then j else i) r"
    by (subst find_node_step(2) [of _ 1 "dic_node_of r i j k1"]) (use s assms in \<open>simp_all add: dic_child_def\<close>)
  show "find_node (two_nodes f (dic_node_of r i j k1) n) k 1 r = Inr 1"
    by (rule find_node_step(1) [of _ 1 "dic_node_of r i j k1"]) (use s in simp_all)
  show "find_node (two_nodes f n (dic_node_of d i' j' k2)) k 2 d = Inr 2"
    by (rule find_node_step(1) [of _ 2 "dic_node_of d i' j' k2"]) (use s in simp_all)
  show "r < d \<Longrightarrow> find_node (two_nodes f (dic_node_of r i j k1) n) k 1 d = Inr 1"
    by (rule find_node_step(1) [of _ 1 "dic_node_of r i j k1"]) (use s in simp_all)
  show "d < r \<Longrightarrow> find_node (two_nodes f n (dic_node_of d i' j' k2)) k 2 r = Inr 2"
    by (rule find_node_step(1) [of _ 2 "dic_node_of d i' j' k2"]) (use s in simp_all)
qed

text \<open>
  C26: What \<open>Build\<close> makes of two keys.  For any two keys that have a set bit each and differ in one, \<open>Build\<close>
  succeeds.  Let \<open>r\<close> be the lowest set bit of the first key and \<open>d\<close> the first bit in which the keys differ.  When
  the second key has both bits set, neither key is found afterwards: the child that moves below the new node is hung
  on the side of the bit of its own reference, not on the side opposite to the new key.  Otherwise both are found,
  each with its index.
\<close>

theorem dictionary_build_loses_keys:
  assumes "first_diff k1 [] r" and "first_diff k2 [] r2" and "first_diff k1 k2 d" and "length k1 < 2 ^ 16" and "length k2 < 2 ^ 16"
  shows "\<exists>dic. Build (dic_unbuilt [k1, k2]) = Inr (True, dic) \<and>
    (if key_ref k2 r \<and> key_ref k2 d
     then dic_TryGetEntryIndexByKey dic k1 = Inr dic_cInvalidEntryIndex \<and> dic_TryGetEntryIndexByKey dic k2 = Inr dic_cInvalidEntryIndex
     else dic_TryGetEntryIndexByKey dic k1 = Inr 0 \<and> dic_TryGetEntryIndexByKey dic k2 = Inr 1)"
proof -
  define e where "e = (if key_ref k2 r then d else r2)"
  have e: "first_diff k2 (if key_ref k2 r then k1 else []) e" using assms(2,3) by (simp add: e_def first_diff_sym)
  note B = Build_two [OF assms(1) e assms(4,5)]
  have es: "unat e < 2 ^ 31" and rs: "unat r < 2 ^ 31" using first_diff_small [OF e assms(5)] first_diff_small [OF assms(1,4)] assms(4) by simp_all
  have one: "key_ref k1 r" "\<And>b. b < r \<Longrightarrow> \<not> key_ref k1 b" and two: "key_ref k2 r2" using assms(1,2) by (auto simp: first_diff_def)
  have ne: "k1 \<noteq> k2" "k2 \<noteq> k1" using assms(3) by (auto simp: first_diff_def)
  have diff: "key_ref k1 d \<longleftrightarrow> \<not> key_ref k2 d" using assms(3) by (auto simp: first_diff_def)
  have re: "r \<noteq> e" using one(1) two diff by (auto simp: e_def)
  note S = search_two [OF rs es] and L = B lookup_two
  consider "key_ref k2 r" "e < r" | "key_ref k2 r" "r < e" | "\<not> key_ref k2 r" "e < r" | "\<not> key_ref k2 r" "r < e" using re by force
  then show ?thesis
  proof cases
    case 1
    then have k: "\<not> key_ref k1 e" "key_ref k2 e" "key_ref k2 d" using one(2) diff by (auto simp: e_def)
    let ?ns = "two_nodes 2 (dic_node_of r 0 1 k1) (dic_node_of e 2 1 k2)"
    have "find_node ?ns k1 2 (- 1) = Inr 2" "find_node ?ns k2 2 (- 1) = Inr 1" using k 1 one(1) by (simp_all add: S)
    then show ?thesis using 1 k ne assms(4,5) by (simp add: L)
  next
    case 2
    then have ed: "e = d" by (simp add: e_def)
    let ?ns = "two_nodes 1 (dic_node_of r 0 2 k1) (dic_node_of e 2 1 k2)"
    have "find_node ?ns k1 1 (- 1) = Inr (if key_ref k1 e then 1 else 2)" "find_node ?ns k2 1 (- 1) = Inr (if key_ref k2 e then 1 else 2)"
      using 2 one(1) by (simp_all add: S)
    moreover have "\<not> e < r" using 2 by simp
    ultimately show ?thesis using 2 diff ne assms(4,5) by (simp add: L ed split: if_split_asm)
  next
    case 3
    then have k: "\<not> key_ref k1 e" "key_ref k2 e" using one(2) two by (auto simp: e_def)
    let ?ns = "two_nodes 2 (dic_node_of r 0 1 k1) (dic_node_of e 1 2 k2)"
    have "find_node ?ns k1 2 (- 1) = Inr 1" "find_node ?ns k2 2 (- 1) = Inr 2" using k 3 one(1) by (simp_all add: S)
    then show ?thesis using 3 ne assms(4,5) by (simp add: L)
  next
    case 4
    then have k: "key_ref k2 e" using two by (auto simp: e_def)
    let ?ns = "two_nodes 1 (dic_node_of r 2 1 k1) (dic_node_of e 0 2 k2)"
    have "find_node ?ns k1 1 (- 1) = Inr 1" "find_node ?ns k2 1 (- 1) = Inr 2" using k 4 one(1) by (simp_all add: S)
    moreover have "\<not> e < r" using 4 by simp
    ultimately show ?thesis using 4 ne assms(4,5) by (simp add: L)
  qed
qed

lemma first_diff_example: "first_diff [0x61] [] 0" "first_diff [0x63] [] 0" "first_diff [0x61] [0x63] 1"
proof -
  have low: "x = 0" if "x < 1" for x :: u32 using that by (simp add: word_less_nat_alt word_eq_unat_iff)
  show "first_diff [0x61] [] 0" "first_diff [0x63] [] 0" by (simp_all add: first_diff_def key_ref_def key_bit_def)
  show "first_diff [0x61] [0x63] 1" by (auto simp: first_diff_def dest!: low) (simp_all add: key_ref_def key_bit_def)
qed

theorem dictionary_build_loses_keys_witness:
  "\<exists>dic. Build (dic_unbuilt [[0x61], [0x63]]) = Inr (True, dic) \<and> dic_TryGetEntryIndexByKey dic [0x61] = Inr dic_cInvalidEntryIndex \<and>
    dic_TryGetEntryIndexByKey dic [0x63] = Inr dic_cInvalidEntryIndex"
proof -
  have "key_ref [0x63] 0" "key_ref [0x63] 1" by (simp_all add: key_ref_def key_bit_def)
  then show ?thesis using dictionary_build_loses_keys [OF first_diff_example] by simp
qed

end
