(* ===== verification/Wait_Increment.thy ===== *)
theory Wait_Increment
  imports Wait_Address
begin

text \<open>
  \<open>WakeByAddressIncrementEqualImpl\<close>, the wake up that first raises the word.  Its loop unlinks the current
  waiter and then advances through it, so it comes back to the same waiter: with two waiters or more the
  call for all of them does not return.
\<close>

section \<open>The loop\<close>

lemma AddTo_links: "AddToSchedulerUnsafe f s = Inr s' \<Longrightarrow> m_links s' = m_links s"
  by (auto simp: AddToSchedulerUnsafe_def bind_result_Inr_iff ring_Remove_def queue_Remove_def queue_Insert_def upd_fiber_def split: if_splits)

lemma Unlink_self: "m_next (Unlink n h) n = n"
  by (simp add: link_defs)

lemma EndWait_links:
  assumes "EndWait f r s = Inr s'"
  shows "m_next (m_links s') (Fiber_Node f) = Fiber_Node f"
  using assms AddTo_links [of f]
  by (auto simp: EndWait_def EndFiberWaitImpl_def Let_def Unlink_self upd_links_def upd_fiber_def split: option.splits)

lemmas in_place_induct = wake_waiters_in_place.raw_induct [rotated, consumes 1, case_names round]

lemma in_place_stays:
  assumes "wake_waiters_in_place p c iter i s = Some y" and "iter = Fiber_Node q" and "c = 0xffffffff"
  shows "\<exists>e. y = Inl e"
  using assms
proof (induction rule: in_place_induct)
  case (round loop p c iter i s y)
  have "(0xffffffff :: u32) = - 1" by simp
  then have max: "\<not> c < i" using round.prems(2) word_n1_ge [of i] by (simp only: not_less)
  let ?s = "upd_links (Unlink iter) s"
  show ?case
  proof (cases "EndWait q ResultSuccess ?s")
    case (Inl e)
    then have "y = Inl e" using round.hyps round.prems(1) max by (simp add: Let_def)
    then show ?thesis by blast
  next
    case (Inr t)
    have "loop p c (m_next (m_links t) iter) (i + 1) t = Some y"
      using round.hyps round.prems(1) max Inr by (auto simp: Let_def)
    moreover have "m_next (m_links t) iter = Fiber_Node q" using EndWait_links [OF Inr] round.prems(1) by simp
    ultimately show ?thesis using round.IH round.prems(2) by metis
  qed
qed

section \<open>The wake up\<close>

lemma sched_inv_words: "sched_inv L ps cs (s\<lparr>m_words := w\<rparr>) = sched_inv L ps cs s"
  using queue_ok_cong [of "s\<lparr>m_words := w\<rparr>" s] by (simp add: sched_inv_def local_rings_ok_def runnable_in_def fiber_key_def fun_eq_iff)

text \<open>
  \<open>WakeByAddressIncrementEqualImpl\<close>, asked to wake all, raises the word and wakes the waiter of an address
  that has at most one; a word of another value is refused and left alone.  With two waiters or more it never
  returns: the loop does not come past the second one.
\<close>

theorem wake_increment_equal:
  assumes inv: "sched_inv L ps cs s" and a: "a \<noteq> 0"
  shows "if m_words s a \<noteq> v then WakeByAddressIncrementEqualImpl a v 0xffffffff s = ret (Returned ResultInvalidWaitAddressValue, s)
    else let s1 = s\<lparr>m_words := (m_words s)(a := v + 1)\<rparr> in
      (case waiters_of a ps cs s of
         [] \<Rightarrow> WakeByAddressIncrementEqualImpl a v 0xffffffff s = ret (Returned ResultSuccess, s1)
       | [f] \<Rightarrow> \<exists>s' ps'. WakeByAddressIncrementEqualImpl a v 0xffffffff s = ret (Returned ResultSuccess, s') \<and>
           sched_inv L ps' cs s' \<and> after_end {f} ResultSuccess s1 s'
       | f # g # fs \<Rightarrow> \<forall>r. WakeByAddressIncrementEqualImpl a v 0xffffffff s \<noteq> ret r)"
proof (cases "m_words s a = v")
  case False
  then show ?thesis using a by (simp add: WakeByAddressIncrementEqualImpl_def compare_exchange_def Let_def)
next
  case True
  define s1 where "s1 = s\<lparr>m_words := (m_words s)(a := v + 1)\<rparr>"
  have inv1: "sched_inv L ps cs s1" using inv by (simp add: s1_def sched_inv_words)
  have fib: "m_fibers s1 = m_fibers s" by (simp add: s1_def)
  have ws: "waiters_of a ps cs s1 = waiters_of a ps cs s" by (simp add: waiters_of_def fib)
  have fnd: "find_waiter a s1 = ret (List.find (\<lambda>f. wait_address (m_fibers s1 f) = a) ps)" by (rule find_waiter_spec [OF sched_invD(4) [OF inv1]])
  have wake: "WakeByAddressIncrementEqualImpl a v 0xffffffff s =
    (case List.find (\<lambda>f. wait_address (m_fibers s1 f) = a) ps of None \<Rightarrow> ret (Returned ResultSuccess, s1)
     | Some p \<Rightarrow> wake_all wake_waiters_in_place p 0xffffffff s1)"
    using a True fnd by (simp add: WakeByAddressIncrementEqualImpl_def compare_exchange_def Let_def s1_def [symmetric])
  show ?thesis
  proof (cases "List.find (\<lambda>f. wait_address (m_fibers s1 f) = a) ps")
    case None
    then have "waiters_of a ps cs s = []" unfolding ws [symmetric] by (simp add: waiters_of_def)
    then show ?thesis using True wake None by (simp add: s1_def)
  next
    case (Some p)
    then have p: "p \<in> set ps" by (auto dest: find_someD)
    have w: "waiters_of a ps cs s = p # cs p" unfolding ws [symmetric] using Some by (simp add: waiters_of_def)
    obtain t where t: "EndWait p ResultSuccess s1 = Inr t" "sched_inv L (remove1 p ps) cs t" "after_end {p} ResultSuccess s1 t"
      using EndWait_parent [OF inv1 p] by blast
    note first = first_child [OF sched_invD(4) [OF t(2)], of p]
    show ?thesis
    proof (cases "cs p")
      case Nil
      have "wake_all wake_waiters_in_place p 0xffffffff s1 = ret (Returned ResultSuccess, t)"
        using t(1) first Nil
        by (simp add: wake_all_def wake_waiters_in_place.simps transfer_wait_list_def list_IsEmpty_def node_IsLinked_def)
      then show ?thesis using True wake Some w Nil t(2,3) by (auto simp: s1_def [symmetric])
    next
      case (Cons q qs)
      have "wake_all wake_waiters_in_place p 0xffffffff s1 \<noteq> ret r" for r
      proof
        assume "wake_all wake_waiters_in_place p 0xffffffff s1 = ret r"
        then obtain u where "wake_waiters_in_place p 0xffffffff (Fiber_Node q) 1 t = ret u"
          using t(1) first Cons by (auto simp: wake_all_def bind_run_ret_iff)
        then show False using in_place_stays by fastforce
      qed
      then show ?thesis using True wake Some w Cons by simp
    qed
  qed
qed

theorem wake_increment_equal_witness:
  "\<exists>s ps cs. sched_inv {1, 2, 3} ps cs s \<and> waiters_of 8 ps cs s = [1, 2] \<and>
    (\<forall>r. WakeByAddressIncrementEqualImpl 8 (m_words s 8) 0xffffffff s \<noteq> ret r)"
proof -
  obtain s ps cs where s: "sched_inv {1, 2, 3} ps cs s" "waiters_of 8 ps cs s = [1, 2]" using demo_two_waiters by blast
  then show ?thesis using wake_increment_equal [OF s(1), of 8 "m_words s 8"]
    by (intro exI [of _ s] exI [of _ ps] exI [of _ cs]) simp
qed

end
