(* ===== verification/Spec2Isabelle.thy ===== *)
theory Spec2Isabelle
  imports Pointer_Array Atomic_Index_Allocator Exp_Heap_Props Frame_Heap Separate_Heap Message_Queue Service_Message_Queue
    Critical_Section Red_Black_Props Crc32 Sarc_Props Rsizetable_Props Hash_Map Async_Props
    Byaml_Props Byaml_String_Pool Radix_Dictionary Wait_Increment
begin

text \<open>
  A model of Awn and Vp.  Awn is a C++ library for low latency multi threaded programs on Windows: a user
  mode kernel that schedules fibers over cores, memory heaps, message queues, resources and a Vulkan layer.
  Vp is the portable part below it: bit helpers, containers, allocators and file formats.  The development
  models the parts that carry the logic of the library and can be followed without the Windows and Vulkan
  calls, and says what each guarantees.

  \<^bold>\<open>How code is modelled.\<close>  A class is a record of its members, an operation a function from the state to
  the state.  Machine integers are words of their width, so a wrap around of the code is one of the model.
  The libraries are built with \<open>VP_DEBUG\<close>, so a failed \<open>VP_ASSERT\<close>, a read outside of an array and a read
  through a null pointer end the program; they are faults, the left side of \<open>'a result\<close>
  (\<open>Awn_Prelude\<close>).  A loop that is not bounded by its data is a \<open>partial_function\<close>, and an operation with
  such a loop answers an option, where \<open>None\<close> is the operation that never returns (\<open>Run\<close>); no fuel is used.
  Memory that a class writes into is a store from addresses to values.  A critical section of a mutex is one
  step; code that runs outside of one is cut at each access to shared memory, and the states that any
  interleaving of any number of threads reaches are an inductive predicate.

  \<^bold>\<open>The theories.\<close>
  \<^item> \<open>Bit_Util\<close> (\<open>util_alignment\<close>, \<open>util_endian\<close>, \<open>util_countbits\<close>): alignment, byte order, bit counters.
  \<^item> \<open>Intrusive_List\<close>, \<open>List_Rings\<close> (\<open>util_intrusivelist\<close>): the circular list whose nodes live in the linked
    objects, and many such lists over one store; the operations are list operations.
  \<^item> \<open>Red_Black_Tree\<close>, \<open>Red_Black_Shape\<close>, \<open>Red_Black_Insert\<close>, \<open>Red_Black_Remove\<close>, \<open>Red_Black_Props\<close>
    (\<open>util_intrusiveslimredblacktree\<close>): the intrusive search tree; a zipper names the place where a loop
    stands, and every operation keeps the balanced search tree.
  \<^item> \<open>Hash_Map\<close> (\<open>util_hashmap\<close>, \<open>util_keyindexmap\<close>): open addressing; the contract \<open>key_indices\<close> is what a client
    of either map may rely on.
  \<^item> \<open>Crc32\<close> (\<open>util_crc32b.x86\<close>): the string and data hashes, by carry-less products and by table.
  \<^item> \<open>Byte_Memory\<close>: memory as bytes, words over bytes, and lists of writes to ranges that do not meet.
  \<^item> \<open>Hash_Search\<close>, \<open>Sarc\<close>, \<open>Sarc_Builder\<close>, \<open>Sarc_Layout\<close>, \<open>Sarc_Props\<close> (\<open>res_sarc\<close>, \<open>resbui_sarcbuilder\<close>):
    the archive format, its reader and its builder; the layout names every range the builder writes, and an
    archive within the bounds of the format gives its files back.
  \<^item> \<open>Rsizetable\<close>, \<open>Rsizetable_Props\<close> (\<open>res_rsizetable\<close>, \<open>resbui_rsizetablebuilder\<close>): tables of resource sizes by
    hash and by path; the builder composes two red-black trees, the CRC and the layout of bytes, and the
    reader's two binary searches give back what it wrote.
  \<^item> \<open>Byaml\<close>, \<open>Byaml_Props\<close> (\<open>res_byaml\<close>, \<open>res_byamliterator\<close>, \<open>res_byamldictionaryiterator\<close>,
    \<open>res_byamlstringtableiterator\<close>), \<open>Byaml_String_Pool\<close> (\<open>resbui_byamlstringpool\<close>): the reader of BYAML documents in
    either byte order, where every lookup is one binary search over strings or hashes, and the builder of
    their string tables.
  \<^item> \<open>Radix_Dictionary\<close> (\<open>res_nintendowaredictionary\<close>): the radix tree of the resource formats and its builder;
    lookup is right on every well formed tree, and what the builder makes of two keys is followed in full.
  \<^item> \<open>Heap_Contract\<close>, \<open>Exp_Heap\<close>, \<open>Exp_Heap_Inv\<close>, \<open>Exp_Heap_Ops\<close>, \<open>Exp_Heap_Reach\<close>, \<open>Exp_Heap_Resize\<close>,
    \<open>Exp_Heap_Props\<close> (\<open>mem_expheap\<close>), \<open>Frame_Heap\<close>, \<open>Separate_Heap\<close> (\<open>mem_frameheap\<close>, \<open>mem_separateheap\<close>): the
    heaps.  The contract is the locale of what a heap promises a client, extended by the calls that change
    sizes and lose nothing; the invariant says that the blocks of an \<open>ExpHeap\<close> tile its arena.
  \<^item> \<open>Slot_Contract\<close>, \<open>Index_Allocator\<close>, \<open>Atomic_Index_Allocator\<close>, \<open>Object_Allocator\<close>, \<open>Handle_Table\<close>
    (\<open>util_indexallocator\<close>, \<open>util_atomicindexallocator\<close>, \<open>util_fixedobjectallocator\<close>,
    \<open>util_heapobjectallocator\<close>, \<open>util_fixedhandletable\<close>, \<open>ukern_handletable\<close>): allocators that thread their free
    slots through the slots.
  \<^item> \<open>Queue_Contract\<close>, \<open>Message_Queue\<close>, \<open>Service_Message_Queue\<close>, \<open>Ring_Buffer\<close> (\<open>sys_messagequeue\<close>,
    \<open>sys_servicemessagequeue\<close>, \<open>util_ringbuffer\<close>, \<open>util_fixedringbuffer\<close>): bounded queues in a ring; the waiters of
    a service queue are threads of the system or fibers, which wait and are woken as the kernel does it.
  \<^item> \<open>Pointer_Array\<close>, \<open>Priority_Queue\<close> (\<open>util_pointerarray\<close>, \<open>util_framearray\<close>, \<open>util_priorityqueue\<close>,
    \<open>util_fixedpriorityqueue\<close>): arrays of pointers and binary heaps.
  \<^item> \<open>Async_Queue\<close>, \<open>Async_Props\<close> (\<open>async_asyncqueue\<close>, \<open>async_asynctask\<close>, \<open>async_asyncqueuethread\<close>): tasks by priority
    level in one intrusive list, the threads that run them, and the interleavings of threads and pushers; the
    calls of the user's functions are recorded in order.
  \<^item> \<open>Time_Span\<close> (\<open>util_timespan\<close>): spans, ticks and wake up times.
  \<^item> \<open>Fiber\<close>, \<open>Scheduler\<close>, \<open>Arbiters\<close>, \<open>Ukern_Api\<close> (\<open>ukern_scheduler\<close>, \<open>ukern_fiberlocalstorage\<close>,
    \<open>ukern_waitableobject\<close>, \<open>ukern_synchronizationapi\<close>, \<open>ukern_threadapi\<close>): the user mode kernel.
    \<open>Wait_Lists\<close>, \<open>Run_Queues\<close>, \<open>Wait_Address\<close>, \<open>Wait_Increment\<close>, \<open>Scheduling\<close>, \<open>Lock_Handover\<close> state the invariant
    \<open>sched_inv\<close> and follow the operations; \<open>Critical_Section\<close> (\<open>ukern_internalcriticalsection\<close>,
    \<open>ukern_internalconditionvariable\<close>) runs locks on top, interleaved.

  \<^bold>\<open>How the parts meet.\<close>  The scheduler keeps its runnable fibers in a priority queue and a ring per core, its
  waiters in intrusive lists that share one store, its fibers in an object allocator and its handles in a
  handle table; the model is the composition of these models.  Heaps, queues, slot allocators and rings
  reach their clients through locales whose laws are proved on the models of the code.

  \<^bold>\<open>Not modelled.\<close>  Calls into Windows, Vulkan and zstd: what they answer is a parameter where code depends on
  it.  The Vulkan layer (\<open>gfx\<close>), windows and input (\<open>frm\<close>, \<open>hid\<close>) and the SIMD mathematics only build
  arguments for such calls or compute with floating point.  Of the
  asynchronous tasks the messages that wake a thread and the waits are left out, so a thread acts when its
  messages are given.  The dependency jobs, most of the file formats, the resource managers and the thread
  wrappers are left for later.
\<close>

end
